(* ===== verification/Prelude.thy ===== *)
theory Prelude
  imports Main "HOL-Library.Word" "HOL-Library.List_Lexorder"
begin

text \<open>
  Shared vocabulary of the development: Go's byte slices and strings as lists of 8-bit words,
  error results, three-way comparison and \<^verbatim>\<open>bytes.Compare\<close>, the fixed-width and variable-width
  integer encodings of Go's \<^verbatim>\<open>encoding/binary\<close>, and the binary search of Go's \<^verbatim>\<open>sort\<close> package.
  Everything here models the language and its standard library, or is a generic lemma the
  component theories share; the program's own code starts in the theories that import this one.
\<close>

unbundle bit_operations_syntax

named_theorems codec_simps \<open>equations that push an encoder or a decoder through its input\<close>
named_theorems cmp_simps \<open>characterisations of three-way comparisons\<close>

type_synonym byte = "8 word"
type_synonym bytes = "byte list"
type_synonym gostring = "byte list"
type_synonym int64 = "64 word"
type_synonym uint64 = "64 word"
type_synonym int32 = "32 word"
type_synonym uint32 = "32 word"
type_synonym uint16 = "16 word"

text \<open>
  A Go error value is its message; \<open>Panic\<close> is a run-time panic and \<open>OutOfFuel\<close> is the
  artificial outcome of a recursion cut off by its fuel, which the theorems show unreachable.
\<close>

datatype goerr = Err string | ErrNum string nat | Panic string | OutOfFuel

type_synonym 'a result = "goerr + 'a"

fun bind_res :: "('e + 'a) \<Rightarrow> ('a \<Rightarrow> 'e + 'b) \<Rightarrow> 'e + 'b" where
  "bind_res (Inl e) f = Inl e"
| "bind_res (Inr x) f = f x"

lemma bind_res_eq_Inr [simp]:
  "bind_res r f = Inr y \<longleftrightarrow> (\<exists>x. r = Inr x \<and> f x = Inr y)"
  by (cases r) auto

lemma bind_res_eq_Inl:
  "bind_res r f = Inl e \<longleftrightarrow> r = Inl e \<or> (\<exists>x. r = Inr x \<and> f x = Inl e)"
  by (cases r) auto

lemma bind_res_cong [fundef_cong]:
  "r = r' \<Longrightarrow> (\<And>x. r' = Inr x \<Longrightarrow> f x = g x) \<Longrightarrow> bind_res r f = bind_res r' g"
  by (cases r') auto

section \<open>Three-way comparison\<close>

definition cmp3 :: "'a::linorder \<Rightarrow> 'a \<Rightarrow> int" where
  "cmp3 a b = (if a < b then -1 else if a > b then 1 else 0)"

lemma cmp3_range: "cmp3 a b = -1 \<or> cmp3 a b = 0 \<or> cmp3 a b = 1"
  by (simp add: cmp3_def)

lemma cmp3_zero [cmp_simps]: "cmp3 a b = 0 \<longleftrightarrow> a = b"
  and cmp3_neg [cmp_simps]: "cmp3 a b < 0 \<longleftrightarrow> a < b"
  and cmp3_pos [cmp_simps]: "cmp3 a b > 0 \<longleftrightarrow> b < a"
  by (auto simp: cmp3_def)

lemma cmp3_self [simp]: "cmp3 a a = 0"
  by (simp add: cmp3_def)

lemma cmp3_swap: "cmp3 b a = - cmp3 a b"
  by (auto simp: cmp3_def)

lemma cmp3_eqI: "(a < b \<longleftrightarrow> a' < b') \<Longrightarrow> (b < a \<longleftrightarrow> b' < a') \<Longrightarrow> cmp3 a b = cmp3 a' b'"
  by (simp add: cmp3_def)

text \<open>
  \<^verbatim>\<open>bytes.Compare\<close>: unsigned bytes, a proper prefix first. It is the three-way comparison of the
  lexicographic order on byte lists, which is also the order \<open><\<close> of Go strings.
\<close>

fun bytesCompare :: "bytes \<Rightarrow> bytes \<Rightarrow> int" where
  "bytesCompare [] [] = 0"
| "bytesCompare [] (y # ys) = -1"
| "bytesCompare (x # xs) [] = 1"
| "bytesCompare (x # xs) (y # ys) =
     (if x < y then -1 else if x > y then 1 else bytesCompare xs ys)"

lemma bytesCompare_cmp3: "bytesCompare a b = cmp3 a b"
  by (induction a b rule: bytesCompare.induct) (auto simp: cmp3_def)

lemma bytesCompare_append_same [simp]: "bytesCompare (p @ a) (p @ b) = bytesCompare a b"
  by (induction p) auto

lemma bytesCompare_zero [simp]: "bytesCompare a b = 0 \<longleftrightarrow> a = b"
  by (simp add: bytesCompare_cmp3 cmp_simps)

lemma append_less_same [simp]:
  fixes p :: "'a::linorder list"
  shows "p @ a < p @ b \<longleftrightarrow> a < b"
  by (induction p) auto

lemma prefix_le:
  fixes p :: "'a::linorder list"
  shows "p \<le> p @ a"
  by (induction p) auto

section \<open>Fixed-width integers\<close>

text \<open>
  \<open>be_put k n\<close> is what \<^verbatim>\<open>binary.BigEndian.PutUint16/32/64\<close> store for \<open>k\<close> = 2, 4, 8, and
  \<open>le_put\<close> its little-endian twin; \<open>be_get\<close> and \<open>le_get\<close> read a slice back.
\<close>

fun be_put :: "nat \<Rightarrow> nat \<Rightarrow> bytes" where
  "be_put 0 n = []"
| "be_put (Suc k) n = word_of_nat (n div 256 ^ k) # be_put k n"

fun le_put :: "nat \<Rightarrow> nat \<Rightarrow> bytes" where
  "le_put 0 n = []"
| "le_put (Suc k) n = word_of_nat n # le_put k (n div 256)"

fun be_get :: "bytes \<Rightarrow> nat" where
  "be_get [] = 0"
| "be_get (b # bs) = unat b * 256 ^ length bs + be_get bs"

fun le_get :: "bytes \<Rightarrow> nat" where
  "le_get [] = 0"
| "le_get (b # bs) = unat b + 256 * le_get bs"

lemma length_be_put [simp]: "length (be_put k n) = k"
  by (induction k) auto

lemma length_le_put [simp]: "length (le_put k n) = k"
  by (induction k arbitrary: n) auto

lemma unat_byte_of_nat [simp]: "unat (word_of_nat n :: byte) = n mod 256"
  by (simp add: unat_of_nat take_bit_eq_mod)

lemma unat_byte_less [simp]: "unat (b :: byte) < 256"
  using unsigned_less [of b] by simp

lemma be_get_be_put [codec_simps]: "be_get (be_put k n) = n mod 256 ^ k"
proof (induction k)
  case (Suc k)
  have "n mod 256 ^ Suc k = (n div 256 ^ k) mod 256 * 256 ^ k + n mod 256 ^ k"
    by (metis mod_mult2_eq mult.commute power_Suc)
  with Suc show ?case by simp
qed simp

lemma le_get_le_put [codec_simps]: "le_get (le_put k n) = n mod 256 ^ k"
proof (induction k arbitrary: n)
  case (Suc k)
  have "n mod (256 * 256 ^ k) = 256 * (n div 256 mod 256 ^ k) + n mod 256"
    by (rule mod_mult2_eq)
  with Suc show ?case by simp
qed simp

lemma le_get_less: "le_get bs < 256 ^ length bs"
proof (induction bs)
  case (Cons b bs)
  have "unat b < 256" by simp
  with Cons show ?case unfolding le_get.simps length_Cons power_Suc by linarith
qed simp

lemma be_get_less: "be_get bs < 256 ^ length bs"
proof (induction bs)
  case (Cons b bs)
  have "unat b + 1 \<le> 256" by (simp add: Suc_le_eq)
  then have "(unat b + 1) * 256 ^ length bs \<le> 256 * 256 ^ length bs"
    by (rule mult_le_mono1)
  with Cons show ?case unfolding be_get.simps length_Cons power_Suc add_mult_distrib by linarith
qed simp

lemma be_put_inj: "m < 256 ^ k \<Longrightarrow> n < 256 ^ k \<Longrightarrow> be_put k m = be_put k n \<longleftrightarrow> m = n"
  by (metis be_get_be_put mod_less)

text \<open>Big-endian bytes order like the numbers they encode, whatever follows them.\<close>

lemma be_put_add_mult: "be_put k (n + c * 256 ^ k) = be_put k n"
proof (induction k arbitrary: c)
  case (Suc k)
  have "(n + c * 256 ^ Suc k) div 256 ^ k = n div 256 ^ k + c * 256"
  proof -
    have "n + c * 256 ^ Suc k = n + 256 ^ k * (c * 256)" by (simp add: mult_ac)
    then show ?thesis by (simp only: div_mult_self2) simp
  qed
  then have "(word_of_nat ((n + c * 256 ^ Suc k) div 256 ^ k) :: byte) = word_of_nat (n div 256 ^ k)"
    by (simp only: word_unat_eq_iff unat_byte_of_nat mod_mult_self1)
  moreover have "be_put k (n + c * 256 ^ Suc k) = be_put k n"
    using Suc.IH [of "c * 256"] by (simp add: mult.assoc mult.commute)
  ultimately show ?case by simp
qed simp

lemma be_put_mod: "be_put k (n mod 256 ^ k) = be_put k n"
  by (metis be_put_add_mult mod_div_mult_eq)

lemma byte_of_nat_less:
  "a < 256 \<Longrightarrow> b < 256 \<Longrightarrow> (word_of_nat a :: byte) < word_of_nat b \<longleftrightarrow> a < b"
  by (simp add: word_less_nat_alt)

lemma byte_of_nat_eq:
  "a < 256 \<Longrightarrow> b < 256 \<Longrightarrow> (word_of_nat a :: byte) = word_of_nat b \<longleftrightarrow> a = b"
  by (simp add: word_unat_eq_iff)

lemma nat_less_div_mod:
  fixes m n P :: nat
  shows "m < n \<longleftrightarrow> m div P < n div P \<or> (m div P = n div P \<and> m mod P < n mod P)"
proof (cases "m div P = n div P")
  case True
  have "m = m div P * P + m mod P" "n = n div P * P + n mod P" by simp_all
  with True show ?thesis by (metis nat_add_left_cancel_less less_irrefl)
next
  case False
  then show ?thesis
    using div_le_mono [of m n P] div_le_mono [of n m P] by linarith
qed

lemma be_put_append_less:
  assumes "m < 256 ^ k" and "n < 256 ^ k"
  shows "be_put k m @ r < be_put k n @ s \<longleftrightarrow> m < n \<or> (m = n \<and> r < s)"
  using assms
proof (induction k arbitrary: m n)
  case (Suc k)
  let ?P = "256 ^ k :: nat"
  have d: "m div ?P < 256" "n div ?P < 256"
    using Suc.prems by (simp_all add: less_mult_imp_div_less)
  have eq: "be_put (Suc k) m = word_of_nat (m div ?P) # be_put k (m mod ?P)"
    "be_put (Suc k) n = word_of_nat (n div ?P) # be_put k (n mod ?P)"
    by (simp_all add: be_put_mod)
  have lex: "m < n \<longleftrightarrow> m div ?P < n div ?P \<or> (m div ?P = n div ?P \<and> m mod ?P < n mod ?P)"
    by (rule nat_less_div_mod)
  have same: "m = n \<longleftrightarrow> m div ?P = n div ?P \<and> m mod ?P = n mod ?P"
    by (metis div_mult_mod_eq)
  have IH: "be_put k (m mod ?P) @ r < be_put k (n mod ?P) @ s
      \<longleftrightarrow> m mod ?P < n mod ?P \<or> (m mod ?P = n mod ?P \<and> r < s)"
    by (rule Suc.IH) simp_all
  show ?case
    unfolding eq append_Cons Cons_less_Cons byte_of_nat_less [OF d] byte_of_nat_eq [OF d] lex same IH
    by blast
qed simp

lemma be_put_append_cmp:
  assumes "m < 256 ^ k" and "n < 256 ^ k"
  shows "cmp3 (be_put k m @ r) (be_put k n @ s) = (if m = n then cmp3 r s else cmp3 m n)"
  using be_put_append_less [OF assms, of r s] be_put_append_less [OF assms(2,1), of s r]
  by (auto simp: cmp3_def)

section \<open>Variable-width integers\<close>

text \<open>
  \<^verbatim>\<open>binary.AppendUvarint\<close> (the appended bytes) and \<^verbatim>\<open>binary.Uvarint\<close>, which returns the value and
  the count of bytes read: 0 when the buffer is too small, negative on overflow of 64 bits. The
  loop's \<open>x |= uint64(b & 0x7f) << s\<close> is written as an addition modulo \<open>2 ^ 64\<close>: the bits of
  \<open>x\<close> all lie below position \<open>s\<close>.
\<close>

fun putUvarint :: "nat \<Rightarrow> bytes" where
  "putUvarint v =
     (if v < 128 then [word_of_nat v]
      else word_of_nat (v mod 128 + 128) # putUvarint (v div 128))"

declare putUvarint.simps [simp del]

fun uvarintLoop :: "nat \<Rightarrow> nat \<Rightarrow> nat \<Rightarrow> bytes \<Rightarrow> nat \<times> int" where
  "uvarintLoop i x s [] = (0, 0)"
| "uvarintLoop i x s (b # bs) =
     (if i = 10 then (0, - int (i + 1))
      else if unat b < 128 then
        (if i = 9 \<and> unat b > 1 then (0, - int (i + 1))
         else ((x + unat b * 2 ^ s) mod 2 ^ 64, int (i + 1)))
      else uvarintLoop (i + 1) ((x + unat b mod 128 * 2 ^ s) mod 2 ^ 64) (s + 7) bs)"

definition Uvarint :: "bytes \<Rightarrow> nat \<times> int" where
  "Uvarint buf = uvarintLoop 0 0 0 buf"

lemma putUvarint_nonempty [simp]: "putUvarint v \<noteq> []"
  by (subst putUvarint.simps) simp

lemma uvarintLoop_putUvarint:
  assumes "x < 2 ^ (7 * i)" and "x + v * 2 ^ (7 * i) < 2 ^ 64" and "i \<le> 9"
  shows "uvarintLoop i x (7 * i) (putUvarint v @ rest)
    = (x + v * 2 ^ (7 * i), int (i + length (putUvarint v)))"
  using assms
proof (induction v arbitrary: i x rule: putUvarint.induct)
  case (1 v)
  show ?case
  proof (cases "v < 128")
    case True
    moreover have "v \<le> 1" if "i = 9"
    proof -
      from "1.prems"(2) that have "v * 2 ^ 63 < 2 * 2 ^ 63" by simp
      then show ?thesis by simp
    qed
    ultimately show ?thesis using "1.prems" by (subst (1 2) putUvarint.simps) auto
  next
    case False
    let ?x = "x + v mod 128 * 2 ^ (7 * i)"
    have split: "?x + v div 128 * 2 ^ (7 * (i + 1)) = x + v * 2 ^ (7 * i)"
    proof -
      have "v * 2 ^ (7 * i) = (v div 128 * 128 + v mod 128) * 2 ^ (7 * i)"
        by (simp only: div_mult_mod_eq)
      also have "\<dots> = v div 128 * 2 ^ (7 * (i + 1)) + v mod 128 * 2 ^ (7 * i)"
        by (simp only: add_mult_distrib) (simp add: power_add)
      finally show ?thesis by linarith
    qed
    have "i \<noteq> 9"
    proof
      assume "i = 9"
      with "1.prems"(2) have "v * 2 ^ 63 < 2 * 2 ^ 63" by simp
      with False show False by simp
    qed
    with "1.prems"(3) have i: "i + 1 \<le> 9" by simp
    have "v mod 128 * 2 ^ (7 * i) \<le> 127 * 2 ^ (7 * i)" by (intro mult_le_mono1) simp
    moreover have "(2::nat) ^ (7 * (i + 1)) = 128 * 2 ^ (7 * i)" by (simp add: power_add)
    ultimately have x: "?x < 2 ^ (7 * (i + 1))" using "1.prems"(1) by linarith
    have small: "?x < 2 ^ 64" using split "1.prems"(2) by linarith
    have IH: "uvarintLoop (i + 1) ?x (7 * (i + 1)) (putUvarint (v div 128) @ rest)
        = (?x + v div 128 * 2 ^ (7 * (i + 1)), int (i + 1 + length (putUvarint (v div 128))))"
      by (rule "1.IH" [OF False x _ i]) (use split "1.prems"(2) in linarith)
    have eq: "putUvarint v = word_of_nat (v mod 128 + 128) # putUvarint (v div 128)"
      using False by (subst putUvarint.simps) simp
    have u: "unat (word_of_nat (v mod 128 + 128) :: byte) = v mod 128 + 128"
      by (subst unat_byte_of_nat) simp
    have m: "(v mod 128 + 128) mod 128 = v mod 128" "\<not> v mod 128 + 128 < 128" by simp_all
    from i have "i \<noteq> 10" by simp
    then have "uvarintLoop i x (7 * i) (putUvarint v @ rest)
        = uvarintLoop (i + 1) (?x mod 2 ^ 64) (7 * i + 7) (putUvarint (v div 128) @ rest)"
      by (simp only: eq append_Cons uvarintLoop.simps u m if_False)
    also have "7 * i + 7 = 7 * (i + 1)" by simp
    finally have "uvarintLoop i x (7 * i) (putUvarint v @ rest)
        = uvarintLoop (i + 1) (?x mod 2 ^ 64) (7 * (i + 1)) (putUvarint (v div 128) @ rest)" .
    moreover have "length (putUvarint v) = Suc (length (putUvarint (v div 128)))"
      by (simp only: eq length_Cons)
    ultimately show ?thesis by (simp only: mod_less [OF small] IH split) simp
  qed
qed

lemma Uvarint_putUvarint [codec_simps]:
  "v < 2 ^ 64 \<Longrightarrow> Uvarint (putUvarint v @ rest) = (v, int (length (putUvarint v)))"
  unfolding Uvarint_def using uvarintLoop_putUvarint [of 0 0 v rest] by simp

lemma uvarintLoop_bounds:
  "uvarintLoop i x s bs = (v, n) \<Longrightarrow> 0 < n \<Longrightarrow> v < 2 ^ 64 \<and> int i < n \<and> n \<le> int (i + length bs)"
proof (induction i x s bs rule: uvarintLoop.induct)
  case (2 i x s b bs)
  then show ?case by (auto split: if_splits)
qed simp

lemma Uvarint_bounds:
  assumes "Uvarint bs = (v, n)" and "0 < n"
  shows "v < 2 ^ 64" and "n \<le> int (length bs)" and "nat n \<noteq> 0"
  using uvarintLoop_bounds [of 0 0 0 bs v n] assms unfolding Uvarint_def by auto

section \<open>Binary search\<close>

text \<open>
  \<^verbatim>\<open>sort.Search(n, f)\<close>: halve \<open>[i, j)\<close> until it is empty. For a monotone \<open>f\<close> it is the least
  index where \<open>f\<close> holds.
\<close>

function sortSearchLoop :: "(nat \<Rightarrow> bool) \<Rightarrow> nat \<Rightarrow> nat \<Rightarrow> nat" where
  "sortSearchLoop f i j =
     (if i < j then
        let h = (i + j) div 2 in
        if \<not> f h then sortSearchLoop f (h + 1) j else sortSearchLoop f i h
      else i)"
  by pat_completeness auto
termination
  by (relation "measure (\<lambda>(f, i, j). j - i)") auto

declare sortSearchLoop.simps [simp del]

definition sortSearch :: "nat \<Rightarrow> (nat \<Rightarrow> bool) \<Rightarrow> nat" where
  "sortSearch n f = sortSearchLoop f 0 n"

lemma sortSearchLoop_unique:
  assumes "\<And>k. k < r \<Longrightarrow> \<not> f k" and "\<And>k. r \<le> k \<Longrightarrow> k < n \<Longrightarrow> f k"
    and "i \<le> r" and "r \<le> j" and "j \<le> n"
  shows "sortSearchLoop f i j = r"
  using assms
proof (induction f i j rule: sortSearchLoop.induct)
  case (1 f i j)
  show ?case
  proof (cases "i < j")
    case True
    let ?h = "(i + j) div 2"
    have h: "i \<le> ?h" "?h < j" using True by auto
    show ?thesis
    proof (cases "f ?h")
      case True
      then have "r \<le> ?h" using "1.prems"(1) by (meson not_le)
      then have "sortSearchLoop f i ?h = r"
        using "1.IH"(2) [OF \<open>i < j\<close> refl] True "1.prems" h by simp
      with True \<open>i < j\<close> show ?thesis by (subst sortSearchLoop.simps) (simp add: Let_def)
    next
      case False
      then have "?h < r" using "1.prems"(2) [of ?h] "1.prems"(5) h by (meson not_le order_less_le_trans)
      then have "sortSearchLoop f (?h + 1) j = r"
        using "1.IH"(1) [OF \<open>i < j\<close> refl] False "1.prems" h by simp
      with False \<open>i < j\<close> show ?thesis by (subst sortSearchLoop.simps) (simp add: Let_def)
    qed
  next
    case False
    with "1.prems" show ?thesis by (subst sortSearchLoop.simps) simp
  qed
qed

lemma sortSearch_unique:
  "\<lbrakk>\<And>k. k < r \<Longrightarrow> \<not> f k; \<And>k. r \<le> k \<Longrightarrow> k < n \<Longrightarrow> f k; r \<le> n\<rbrakk> \<Longrightarrow> sortSearch n f = r"
  unfolding sortSearch_def by (rule sortSearchLoop_unique [where n = n]) auto

text \<open>On a sorted list the search splits it at the first element that passes the test.\<close>

lemma sortSearch_sorted:
  fixes xs :: "'a::linorder list"
  assumes "sorted xs" and "\<And>x y. x \<le> y \<Longrightarrow> P x \<Longrightarrow> P y"
  shows "sortSearch (length xs) (\<lambda>i. P (xs ! i)) = length (takeWhile (\<lambda>x. \<not> P x) xs)"
proof (rule sortSearch_unique)
  let ?r = "length (takeWhile (\<lambda>x. \<not> P x) xs)"
  show "\<not> P (xs ! k)" if "k < ?r" for k
    using that by (metis nth_mem set_takeWhileD takeWhile_nth)
  show "P (xs ! k)" if "?r \<le> k" "k < length xs" for k
  proof -
    have "P (xs ! ?r)" using that nth_length_takeWhile [of "\<lambda>x. \<not> P x" xs] by simp
    moreover have "xs ! ?r \<le> xs ! k" using assms(1) that by (simp add: sorted_nth_mono)
    ultimately show ?thesis using assms(2) by blast
  qed
  show "?r \<le> length xs" by (rule length_takeWhile_le)
qed

end
