(* ===== verification/Float64.thy ===== *)
theory Float64
  imports Prelude
begin

text \<open>
  Go's \<^verbatim>\<open>float64\<close> as its IEEE-754 bit pattern, with the operations of the language and of package
  \<^verbatim>\<open>math\<close> that the value model uses: comparison, \<^verbatim>\<open>IsNaN\<close>, \<^verbatim>\<open>IsInf\<close>, the conversions between
  \<^verbatim>\<open>float64\<close> and \<^verbatim>\<open>int64\<close>, and \<^verbatim>\<open>Nextafter\<close>. A finite float is an integer multiple of
  \<open>2 ^ -1074\<close>, so the exact value of a float is represented by that integer (\<open>fl_val\<close>), and an
  infinity by the value one past the largest finite float. No rounding is abstracted away:
  \<open>int64_to_float\<close> rounds to nearest, ties to even, on the bits.
\<close>

type_synonym float64 = "64 word"

section \<open>Values of bit patterns\<close>

definition fscale :: nat where
  "fscale = 2 ^ 1074"

definition fl_neg :: "float64 \<Rightarrow> bool" where
  "fl_neg f \<longleftrightarrow> 2 ^ 63 \<le> unat f"

definition fl_mag :: "float64 \<Rightarrow> nat" where
  "fl_mag f = unat f mod 2 ^ 63"

text \<open>The scaled value of the 63 magnitude bits: exponent field \<open>m div 2 ^ 52\<close>, fraction \<open>m mod 2 ^ 52\<close>.\<close>

definition magval :: "nat \<Rightarrow> nat" where
  "magval m = (if m < 2 ^ 52 then m else (2 ^ 52 + m mod 2 ^ 52) * 2 ^ (m div 2 ^ 52 - 1))"

definition inf_mag :: nat where
  "inf_mag = 2047 * 2 ^ 52"

definition fl_val :: "float64 \<Rightarrow> int" where
  "fl_val f = (if fl_neg f then - int (magval (fl_mag f)) else int (magval (fl_mag f)))"

definition IsNaN :: "float64 \<Rightarrow> bool" where
  "IsNaN f \<longleftrightarrow> inf_mag < fl_mag f"

definition IsInf :: "float64 \<Rightarrow> int \<Rightarrow> bool" where
  "IsInf f sign \<longleftrightarrow> fl_mag f = inf_mag \<and> (0 \<le> sign \<and> \<not> fl_neg f \<or> sign \<le> 0 \<and> fl_neg f)"

text \<open>The operators \<open><\<close>, \<open>==\<close> and \<open>>=\<close>: false as soon as an operand is NaN.\<close>

definition fl_lt :: "float64 \<Rightarrow> float64 \<Rightarrow> bool" where
  "fl_lt a b \<longleftrightarrow> \<not> IsNaN a \<and> \<not> IsNaN b \<and> fl_val a < fl_val b"

definition fl_eq :: "float64 \<Rightarrow> float64 \<Rightarrow> bool" where
  "fl_eq a b \<longleftrightarrow> \<not> IsNaN a \<and> \<not> IsNaN b \<and> fl_val a = fl_val b"

definition fl_ge :: "float64 \<Rightarrow> float64 \<Rightarrow> bool" where
  "fl_ge a b \<longleftrightarrow> \<not> IsNaN a \<and> \<not> IsNaN b \<and> fl_val a \<ge> fl_val b"

definition fl_zero :: float64 where "fl_zero = 0"
definition fl_NaN :: float64 where "fl_NaN = 0x7FF8000000000001"
definition fl_two63 :: float64 where "fl_two63 = 0x43E0000000000000"
definition fl_MinInt64 :: float64 where "fl_MinInt64 = 0xC3E0000000000000"
definition fl_NegInf :: float64 where "fl_NegInf = 0xFFF0000000000000"

section \<open>Conversions\<close>

text \<open>
  \<open>int64(f)\<close> truncates towards zero. Outside the range of \<open>int64\<close> Go leaves the result to the
  implementation; the model wraps, and every caller guards the range first.
\<close>

definition float_to_int64 :: "float64 \<Rightarrow> int64" where
  "float_to_int64 f =
     (let t = int (magval (fl_mag f) div fscale) in word_of_int (if fl_neg f then - t else t))"

fun top_bit :: "nat \<Rightarrow> nat" where
  "top_bit n = (if n \<le> 1 then 0 else Suc (top_bit (n div 2)))"

declare top_bit.simps [simp del]

text \<open>The magnitude bits of the float nearest to the positive integer \<open>n\<close>, ties to even.\<close>

definition fl_round :: "nat \<Rightarrow> nat" where
  "fl_round n =
     (let e = top_bit n in
      if e \<le> 52 then (1023 + e) * 2 ^ 52 + (n * 2 ^ (52 - e) - 2 ^ 52)
      else
        let s = e - 52; q = n div 2 ^ s; r = n mod 2 ^ s;
            q' = (if 2 * r > 2 ^ s \<or> (2 * r = 2 ^ s \<and> odd q) then q + 1 else q)
        in (1023 + e) * 2 ^ 52 + (q' - 2 ^ 52))"

definition int64_to_float :: "int64 \<Rightarrow> float64" where
  "int64_to_float i =
     (if sint i = 0 then 0
      else if sint i < 0 then word_of_nat (2 ^ 63 + fl_round (nat (- sint i)))
      else word_of_nat (fl_round (nat (sint i))))"

text \<open>\<^verbatim>\<open>math.Nextafter\<close>: the next float after \<open>x\<close> towards \<open>y\<close>.\<close>

definition Nextafter :: "float64 \<Rightarrow> float64 \<Rightarrow> float64" where
  "Nextafter x y =
     (if IsNaN x \<or> IsNaN y then fl_NaN
      else if fl_eq x y then x
      else if fl_eq x fl_zero then (if fl_neg y then 0x8000000000000001 else 1)
      else if fl_lt x y = fl_lt fl_zero x then x + 1
      else x - 1)"

section \<open>Magnitudes are ordered like their values\<close>

lemma magval_norm:
  assumes "1 \<le> E" and "2 ^ 52 \<le> q" and "q \<le> 2 ^ 53"
  shows "magval (E * 2 ^ 52 + (q - 2 ^ 52)) = q * 2 ^ (E - 1)"
proof (cases "q = 2 ^ 53")
  case True
  have "E * 2 ^ 52 + (q - 2 ^ 52) = (E + 1) * 2 ^ 52" using True by simp
  moreover have "magval ((E + 1) * 2 ^ 52) = 2 ^ 52 * 2 ^ E"
    by (simp add: magval_def)
  moreover have "(2::nat) ^ 52 * 2 ^ E = q * 2 ^ (E - 1)"
    using True assms(1) by (simp add: power_eq_if)
  ultimately show ?thesis by (simp only:)
next
  case False
  let ?m = "E * 2 ^ 52 + (q - 2 ^ 52)"
  have q: "q - 2 ^ 52 < 2 ^ 52" using assms False by simp
  have "?m div 2 ^ 52 = E" "?m mod 2 ^ 52 = q - 2 ^ 52"
    using q by simp_all
  moreover have "\<not> ?m < 2 ^ 52" using assms(1) by simp
  moreover have "2 ^ 52 + (q - 2 ^ 52) = q" using assms(2) by simp
  ultimately show ?thesis unfolding magval_def by (simp only: if_False)
qed

lemma magval_Suc: "magval m < magval (Suc m)"
proof (cases "m < 2 ^ 52")
  case True
  then show ?thesis
    by (cases "Suc m = 2 ^ 52") (auto simp: magval_def)
next
  case False
  let ?E = "m div 2 ^ 52" and ?q = "2 ^ 52 + m mod 2 ^ 52 :: nat"
  have E: "1 \<le> ?E" using False by (simp add: Suc_le_eq div_greater_zero_iff)
  have q: "2 ^ 52 \<le> ?q" "?q + 1 \<le> 2 ^ 53"
    using mod_less_divisor [of "2 ^ 52" m] by simp_all
  have m: "?E * 2 ^ 52 + (?q - 2 ^ 52) = m" by simp
  have Sm: "?E * 2 ^ 52 + ((?q + 1) - 2 ^ 52) = Suc m" using m by simp
  have "magval m = ?q * 2 ^ (?E - 1)"
    using magval_norm [OF E q(1)] q(2) m by simp
  moreover have "magval (Suc m) = (?q + 1) * 2 ^ (?E - 1)"
    using magval_norm [of ?E "?q + 1"] E q unfolding Sm by simp
  ultimately show ?thesis by simp
qed

lemma strict_mono_magval: "strict_mono magval"
  unfolding strict_mono_Suc_iff by (simp only: magval_Suc) simp

lemma magval_less_iff [simp]: "magval a < magval b \<longleftrightarrow> a < b"
  by (rule strict_mono_less [OF strict_mono_magval])

lemma magval_eq_iff [simp]: "magval a = magval b \<longleftrightarrow> a = b"
  by (rule strict_mono_eq [OF strict_mono_magval])

lemma magval_le_iff [simp]: "magval a \<le> magval b \<longleftrightarrow> a \<le> b"
  by (rule strict_mono_less_eq [OF strict_mono_magval])

lemma magval_0 [simp]: "magval 0 = 0"
  by (simp add: magval_def)

lemma magval_inf: "magval inf_mag = 2 ^ 1024 * fscale"
proof -
  have "magval inf_mag = 2 ^ 52 * 2 ^ 2046"
    by (simp add: magval_def inf_mag_def)
  also have "\<dots> = 2 ^ 1024 * fscale"
    unfolding fscale_def power_add [symmetric] by simp
  finally show ?thesis .
qed

section \<open>Rounding an integer\<close>

lemma top_bit_bounds: "1 \<le> n \<Longrightarrow> 2 ^ top_bit n \<le> n \<and> n < 2 ^ Suc (top_bit n)"
proof (induction n rule: top_bit.induct)
  case (1 n)
  show ?case
  proof (cases "n \<le> 1")
    case True
    with "1.prems" show ?thesis by (subst (1 2) top_bit.simps) simp
  next
    case False
    with "1.IH" have "2 ^ top_bit (n div 2) \<le> n div 2 \<and> n div 2 < 2 ^ Suc (top_bit (n div 2))"
      by simp
    with False show ?thesis by (subst (1 2) top_bit.simps) auto
  qed
qed

lemma fscale_pos [simp]: "0 < fscale"
  by (simp add: fscale_def)

lemma fscale_nonzero [simp]: "fscale \<noteq> 0"
  by (simp add: fscale_def)

lemma fscale_shift: "52 \<le> e \<Longrightarrow> 2 ^ (1022 + e) = 2 ^ (e - 52) * fscale"
proof -
  assume "52 \<le> e"
  then have "1022 + e = (e - 52) + 1074" by simp
  then show ?thesis unfolding fscale_def by (simp only: power_add)
qed

text \<open>
  What rounding guarantees: \<open>b\<close> is the largest magnitude not above \<open>n\<close>, the result is \<open>b\<close> or its
  successor, and it is exactly \<open>n\<close> whenever \<open>n\<close> is representable.
\<close>

definition round_bracket :: "nat \<Rightarrow> nat \<Rightarrow> bool" where
  "round_bracket n b \<longleftrightarrow>
     magval b \<le> n * fscale \<and> n * fscale < magval (Suc b) \<and>
     (fl_round n = b \<or> fl_round n = Suc b) \<and>
     (magval b = n * fscale \<longrightarrow> fl_round n = b) \<and>
     fscale dvd magval (fl_round n) \<and>
     (magval b \<noteq> n * fscale \<longrightarrow>
        fscale dvd magval b \<and> fscale dvd magval (Suc b) \<and>
        (n < 2 ^ 64 \<longrightarrow> magval (Suc b) \<le> magval b + 2048 * fscale))"

lemma fl_round_exact:
  assumes "1 \<le> n" and "top_bit n \<le> 52"
  shows "magval (fl_round n) = n * fscale"
proof -
  let ?e = "top_bit n"
  let ?q = "n * 2 ^ (52 - ?e)"
  have "2 ^ ?e * 2 ^ (52 - ?e) \<le> ?q" "?q \<le> 2 ^ Suc ?e * 2 ^ (52 - ?e)"
    using top_bit_bounds [OF assms(1)] by (simp_all add: less_imp_le)
  moreover have "?e + (52 - ?e) = 52" "Suc ?e + (52 - ?e) = 53" using assms(2) by simp_all
  ultimately have q: "2 ^ 52 \<le> ?q" "?q \<le> 2 ^ 53"
    by (simp_all only: flip: power_add)
  have "magval (fl_round n) = ?q * 2 ^ (1023 + ?e - 1)"
    using magval_norm [of "1023 + ?e" ?q] q assms(2)
    unfolding fl_round_def Let_def by simp
  also have "\<dots> = n * (2 ^ (52 - ?e) * 2 ^ (1023 + ?e - 1))" by (rule mult.assoc)
  also have "2 ^ (52 - ?e) * 2 ^ (1023 + ?e - 1) = fscale"
  proof -
    have "52 - ?e + (1023 + ?e - 1) = 1074" using assms(2) by simp
    then show ?thesis unfolding fscale_def by (simp only: flip: power_add)
  qed
  finally show ?thesis .
qed

lemma fl_round_bracket_big:
  assumes "1 \<le> n" and "\<not> top_bit n \<le> 52"
  shows "\<exists>b. round_bracket n b"
proof -
  let ?e = "top_bit n"
  define s where "s = ?e - 52"
  define q where "q = n div 2 ^ s"
  define r where "r = n mod 2 ^ s"
  define b where "b = (1023 + ?e) * 2 ^ 52 + (q - 2 ^ 52)"
  have n: "n = q * 2 ^ s + r" and r: "r < 2 ^ s"
    unfolding q_def r_def by (simp_all only: div_mult_mod_eq) simp
  have "?e = 52 + s" using assms(2) unfolding s_def by simp
  then have e: "2 ^ ?e = 2 ^ 52 * (2::nat) ^ s" by (simp only: power_add)
  have q: "2 ^ 52 \<le> q" "q + 1 \<le> 2 ^ 53"
  proof -
    have "2 ^ 52 * 2 ^ s \<le> n" "n < 2 ^ 53 * 2 ^ s"
      using top_bit_bounds [OF assms(1)] e by simp_all
    then show "2 ^ 52 \<le> q" "q + 1 \<le> 2 ^ 53"
      unfolding q_def by (simp_all add: less_eq_div_iff_mult_less_eq less_mult_imp_div_less Suc_le_eq)
  qed
  have sh: "2 ^ (1023 + ?e - 1) = 2 ^ s * fscale"
    using fscale_shift [of ?e] assms(2) unfolding s_def by simp
  have vb: "magval b = q * (2 ^ s * fscale)"
    using magval_norm [of "1023 + ?e" q] q unfolding b_def sh by simp
  have Sb: "Suc b = (1023 + ?e) * 2 ^ 52 + ((q + 1) - 2 ^ 52)"
    using q unfolding b_def by simp
  have vS: "magval (Suc b) = (q + 1) * (2 ^ s * fscale)"
    using magval_norm [of "1023 + ?e" "q + 1"] q unfolding Sb sh by simp
  have nf: "n * fscale = q * (2 ^ s * fscale) + r * fscale"
    by (simp add: n algebra_simps)
  have rnd: "fl_round n = (if 2 * r > 2 ^ s \<or> (2 * r = 2 ^ s \<and> odd q) then Suc b else b)"
    using assms(2) unfolding fl_round_def Let_def Sb
    by (simp only: if_False flip: s_def q_def r_def) (simp add: b_def)
  have lo: "magval b \<le> n * fscale" unfolding vb nf by simp
  have hi: "n * fscale < magval (Suc b)"
    unfolding vS nf using r by (simp add: algebra_simps)
  have ex: "fl_round n = b" if "magval b = n * fscale"
  proof -
    from that have "r = 0" unfolding vb nf by simp
    then show ?thesis unfolding rnd by simp
  qed
  have gap: "magval (Suc b) \<le> magval b + 2048 * fscale" if "n < 2 ^ 64"
  proof -
    have "(2::nat) ^ ?e < 2 ^ 64" using top_bit_bounds [OF assms(1)] that by linarith
    then have "?e < 64" by (rule power_less_imp_less_exp [rotated]) simp
    then have "s \<le> 11" unfolding s_def by simp
    then have "(2::nat) ^ s \<le> 2 ^ 11" by (rule power_increasing) simp
    then have "2 ^ s * fscale \<le> 2048 * fscale" by simp
    then show ?thesis unfolding vS vb by simp
  qed
  have dvds: "fscale dvd magval b" "fscale dvd magval (Suc b)"
    unfolding vb vS by simp_all
  then have "fscale dvd magval (fl_round n)" unfolding rnd by simp
  with lo hi ex gap dvds rnd have "round_bracket n b"
    unfolding round_bracket_def by simp
  then show ?thesis ..
qed

lemma fl_round_bracket: "1 \<le> n \<Longrightarrow> \<exists>b. round_bracket n b"
proof (cases "top_bit n \<le> 52")
  case True
  assume "1 \<le> n"
  from fl_round_exact [OF this True] have "round_bracket n (fl_round n)"
    unfolding round_bracket_def using magval_Suc [of "fl_round n"] by simp
  then show ?thesis ..
qed (rule fl_round_bracket_big)

section \<open>Bit patterns and their parts\<close>

lemma unat_float: "unat f = (if fl_neg f then 2 ^ 63 else 0) + fl_mag f"
proof -
  have "unat f < 2 * 2 ^ 63" using unsigned_less [of f] by simp
  then show ?thesis
    unfolding fl_neg_def fl_mag_def by (auto simp: mod_if)
qed

lemma fl_mag_less: "fl_mag f < 2 ^ 63"
  by (simp add: fl_mag_def)

lemma float_eqI: "fl_neg f = fl_neg g \<Longrightarrow> fl_mag f = fl_mag g \<Longrightarrow> f = g"
  by (simp add: word_unat_eq_iff unat_float)

lemma fl_of_nat:
  assumes "m < 2 ^ 63"
  shows "fl_mag (word_of_nat m) = m" and "\<not> fl_neg (word_of_nat m)"
    and "fl_mag (word_of_nat (2 ^ 63 + m)) = m" and "fl_neg (word_of_nat (2 ^ 63 + m))"
proof -
  have u: "unat (word_of_nat m :: float64) = m" "unat (word_of_nat (2 ^ 63 + m) :: float64) = 2 ^ 63 + m"
    using assms by (simp_all add: unat_of_nat take_bit_eq_mod del: of_nat_add)
  show "fl_mag (word_of_nat m) = m" "\<not> fl_neg (word_of_nat m)"
    "fl_mag (word_of_nat (2 ^ 63 + m)) = m" "fl_neg (word_of_nat (2 ^ 63 + m))"
    unfolding fl_mag_def fl_neg_def u using assms by simp_all
qed

lemma inf_mag_less: "inf_mag < 2 ^ 63"
  by (simp add: inf_mag_def)

lemma fl_val_neg_iff: "fl_val f < 0 \<longleftrightarrow> fl_neg f \<and> fl_mag f \<noteq> 0"
proof -
  have "magval (fl_mag f) = 0 \<longleftrightarrow> fl_mag f = 0" using magval_eq_iff [of "fl_mag f" 0] by simp
  then show ?thesis unfolding fl_val_def by auto
qed

lemma fl_val_zero_iff: "fl_val f = 0 \<longleftrightarrow> fl_mag f = 0"
  using magval_eq_iff [of "fl_mag f" 0] unfolding fl_val_def by auto

lemma fl_val_inj: "fl_val f = fl_val g \<Longrightarrow> fl_val f \<noteq> 0 \<Longrightarrow> f = g"
  using fl_val_neg_iff [of f] fl_val_neg_iff [of g] fl_val_zero_iff [of f] fl_val_zero_iff [of g]
  by (intro float_eqI) (auto simp: fl_val_def split: if_splits)

lemma fl_val_bound: "\<not> IsNaN f \<Longrightarrow> \<bar>fl_val f\<bar> \<le> 2 ^ 1024 * int fscale"
proof -
  assume "\<not> IsNaN f"
  then have "magval (fl_mag f) \<le> magval inf_mag" by (simp add: IsNaN_def)
  then have "int (magval (fl_mag f)) \<le> int (2 ^ 1024 * fscale)" unfolding magval_inf by (rule of_nat_mono)
  also have "int (2 ^ 1024 * fscale) = 2 ^ 1024 * int fscale" by (simp only: of_nat_mult of_nat_power of_nat_numeral)
  finally show ?thesis unfolding fl_val_def by simp
qed

lemma int64_to_float_parts:
  assumes "sint i \<noteq> 0"
  shows "fl_mag (int64_to_float i) = fl_round (nat \<bar>sint i\<bar>)"
    and "fl_neg (int64_to_float i) \<longleftrightarrow> sint i < 0"
    and "\<not> IsNaN (int64_to_float i)"
    and "\<exists>b. round_bracket (nat \<bar>sint i\<bar>) b"
proof -
  let ?n = "nat \<bar>sint i\<bar>"
  have n: "1 \<le> ?n" using assms by simp
  then show "\<exists>b. round_bracket ?n b" by (rule fl_round_bracket)
  then obtain b where b: "round_bracket ?n b" ..
  have "\<bar>sint i\<bar> \<le> 2 ^ 63"
    using sint_range_size [of i] by (auto simp: word_size)
  then have "?n \<le> 2 ^ 63" by simp
  then have "?n * fscale < 2 ^ 1024 * fscale" by simp
  with b have "magval b < magval inf_mag"
    unfolding magval_inf round_bracket_def by linarith
  then have "Suc b \<le> inf_mag" by simp
  with b have m: "fl_round ?n \<le> inf_mag" unfolding round_bracket_def by auto
  with inf_mag_less have m63: "fl_round ?n < 2 ^ 63" by linarith
  note parts = fl_of_nat [OF m63]
  show "fl_mag (int64_to_float i) = fl_round ?n" "fl_neg (int64_to_float i) \<longleftrightarrow> sint i < 0"
    using assms parts unfolding int64_to_float_def by (auto simp: abs_if simp del: of_nat_add)
  with m show "\<not> IsNaN (int64_to_float i)" unfolding IsNaN_def by simp
qed

end
