(* ===== verification/Numbers.thy ===== *)
theory Numbers
  imports Float64
begin

text \<open>
  The numeric family of the value model (\<^verbatim>\<open>internal/value/number.go\<close>): the exact comparison of
  \<^verbatim>\<open>int64\<close> with \<^verbatim>\<open>float64\<close>, the test for floats that are exact integers, the split of an integer
  onto the float number line used by index keys, and the order-preserving map of floats onto
  \<^verbatim>\<open>uint64\<close>. The lemmas relate each to the exact scaled value of a number.
\<close>

definition cmpInt64 :: "int64 \<Rightarrow> int64 \<Rightarrow> int" where
  "cmpInt64 a b = (if sint a < sint b then -1 else if sint a > sint b then 1 else 0)"

definition compareFloat :: "float64 \<Rightarrow> float64 \<Rightarrow> int" where
  "compareFloat a b =
     (let aNaN = IsNaN a; bNaN = IsNaN b in
      if aNaN \<or> bNaN then
        (if aNaN \<and> bNaN then 0 else if aNaN then 1 else -1)
      else if fl_lt a b then -1
      else if fl_lt b a then 1
      else 0)"

definition compareIntFloat :: "int64 \<Rightarrow> float64 \<Rightarrow> int" where
  "compareIntFloat i f =
     (if IsNaN f then -1
      else if IsInf f 1 then -1
      else if IsInf f (-1) then 1
      else if fl_eq f fl_zero then cmpInt64 i 0
      else if fl_ge f fl_two63 then -1
      else if fl_lt f fl_MinInt64 then 1
      else
        let trunc = float_to_int64 f in
        if fl_ge f fl_zero then
          (if sint i < sint trunc then -1
           else if sint i > sint trunc then 1
           else if \<not> fl_eq (int64_to_float trunc) f then -1
           else 0)
        else if fl_eq (int64_to_float trunc) f then cmpInt64 i trunc
        else
          let floor = trunc - 1 in
          if sint i \<le> sint floor then -1 else 1)"

text \<open>\<^verbatim>\<open>(i, true)\<close> is \<open>Some i\<close>, \<^verbatim>\<open>(0, false)\<close> is \<open>None\<close>.\<close>

definition floatIsExactInt64 :: "float64 \<Rightarrow> int64 option" where
  "floatIsExactInt64 f =
     (if IsNaN f \<or> IsInf f 0 then None
      else if fl_eq f fl_zero then Some 0
      else if fl_ge f fl_two63 \<or> fl_lt f fl_MinInt64 then None
      else
        let i = float_to_int64 f in
        if \<not> fl_eq (int64_to_float i) f then None else Some i)"

definition canonicalFloat :: "float64 \<Rightarrow> float64" where
  "canonicalFloat f = (if IsNaN f then fl_NaN else if fl_eq f fl_zero then fl_zero else f)"

definition splitIntForKey :: "int64 \<Rightarrow> float64 \<times> uint16" where
  "splitIntForKey i =
     (let f = int64_to_float i in
      if floatIsExactInt64 f = Some i then (canonicalFloat f, 0)
      else
        let lower = (if compareIntFloat i f < 0 then Nextafter f fl_NegInf else f) in
        case floatIsExactInt64 lower of
          None \<Rightarrow> (canonicalFloat f, 0)
        | Some li \<Rightarrow>
            let delta = i - li in
            if sint delta \<le> 0 \<or> sint delta > 65535 then (canonicalFloat f, 0)
            else (canonicalFloat lower, ucast delta))"

definition orderedFloat :: "float64 \<Rightarrow> uint64" where
  "orderedFloat f =
     (let f = canonicalFloat f; f = (if IsNaN f then fl_NaN else f); bits = f in
      if bits AND (push_bit 63 1) \<noteq> 0 then NOT bits else bits XOR (push_bit 63 1))"

definition unorderedFloat :: "uint64 \<Rightarrow> float64" where
  "unorderedFloat bits =
     (if bits AND (push_bit 63 1) \<noteq> 0 then bits XOR (push_bit 63 1) else NOT bits)"

section \<open>Reading signed words\<close>

lemma sint64_range: "- (2 ^ 63) \<le> sint (i :: int64)" "sint (i :: int64) < 2 ^ 63"
  using sint_range_size [of i] by (auto simp: word_size)

lemma sint64_of_int: "- (2 ^ 63) \<le> x \<Longrightarrow> x < 2 ^ 63 \<Longrightarrow> sint (word_of_int x :: int64) = x"
  by (simp add: int_word_sint)

lemma cmpInt64_cmp3: "cmpInt64 a b = cmp3 (sint a) (sint b)"
  by (simp add: cmpInt64_def cmp3_def)

section \<open>Conversion of an exact value\<close>

text \<open>An integer survives the round trip through \<open>float64\<close> exactly when it is representable.\<close>

lemma int64_to_float_dvd: "int fscale dvd fl_val (int64_to_float i)"
proof (cases "sint i = 0")
  case True
  then show ?thesis by (simp add: int64_to_float_def fl_val_def fl_mag_def)
next
  case False
  from int64_to_float_parts [OF this] have "fscale dvd magval (fl_mag (int64_to_float i))"
    by (auto simp: round_bracket_def)
  then have "int fscale dvd int (magval (fl_mag (int64_to_float i)))" by simp
  then show ?thesis unfolding fl_val_def by simp
qed

lemma int64_to_float_notNaN [simp]: "\<not> IsNaN (int64_to_float i)"
proof (cases "sint i = 0")
  case True
  then show ?thesis by (simp add: int64_to_float_def IsNaN_def fl_mag_def)
qed (rule int64_to_float_parts)

lemma int64_to_float_exact:
  assumes "fl_val g = sint i * int fscale"
  shows "fl_val (int64_to_float i) = sint i * int fscale"
proof (cases "sint i = 0")
  case True
  then show ?thesis by (simp add: int64_to_float_def fl_val_def fl_mag_def)
next
  case False
  let ?n = "nat \<bar>sint i\<bar>"
  obtain b where b: "round_bracket ?n b" using int64_to_float_parts(4) [OF False] ..
  have "\<bar>fl_val g\<bar> = int (magval (fl_mag g))" by (simp add: fl_val_def)
  with assms have "int (magval (fl_mag g)) = int (?n * fscale)" by (simp add: abs_mult)
  then have g: "magval (fl_mag g) = ?n * fscale" by (simp only: of_nat_eq_iff)
  have "b \<le> fl_mag g" "fl_mag g < Suc b"
    using b unfolding round_bracket_def g [symmetric] by simp_all
  then have "fl_mag g = b" by simp
  with g have "magval b = ?n * fscale" by (simp only:)
  with b have "magval (fl_round ?n) = ?n * fscale" unfolding round_bracket_def by simp
  moreover have "int (?n * fscale) = \<bar>sint i\<bar> * int fscale" by simp
  ultimately show ?thesis
    using int64_to_float_parts(1,2) [OF False] unfolding fl_val_def by (auto simp: abs_if)
qed

section \<open>The exact comparison of an integer with a float\<close>

abbreviation iscale :: int where "iscale \<equiv> int fscale"

lemma fl_consts:
  "fl_val fl_zero = 0" "fl_val fl_two63 = 2 ^ 63 * iscale" "fl_val fl_MinInt64 = - (2 ^ 63 * iscale)"
  "\<not> IsNaN fl_zero" "\<not> IsNaN fl_two63" "\<not> IsNaN fl_MinInt64"
proof -
  have m: "magval 0x43E0000000000000 = 2 ^ 63 * fscale"
    unfolding magval_def fscale_def by simp
  have two: "fl_mag fl_two63 = 0x43E0000000000000" "\<not> fl_neg fl_two63"
    and mn: "fl_mag fl_MinInt64 = 0x43E0000000000000" "fl_neg fl_MinInt64"
    unfolding fl_mag_def fl_neg_def fl_two63_def fl_MinInt64_def by simp_all
  have i: "int (2 ^ 63 * fscale) = 2 ^ 63 * iscale" by (simp only: of_nat_mult of_nat_power of_nat_numeral)
  show "fl_val fl_zero = 0" by (simp add: fl_val_def fl_zero_def fl_mag_def)
  show "fl_val fl_two63 = 2 ^ 63 * iscale" unfolding fl_val_def two m i using two by simp
  show "fl_val fl_MinInt64 = - (2 ^ 63 * iscale)" unfolding fl_val_def mn m i using mn by simp
  show "\<not> IsNaN fl_zero" by (simp add: IsNaN_def fl_zero_def fl_mag_def)
  show "\<not> IsNaN fl_two63" "\<not> IsNaN fl_MinInt64"
    unfolding IsNaN_def two mn inf_mag_def by simp_all
qed

lemma iscale_pos: "0 < iscale"
  using fscale_pos by (simp only: of_nat_0_less_iff)

lemma IsInf_val: "IsInf f 1 \<Longrightarrow> fl_val f = 2 ^ 1024 * iscale"
  "IsInf f (-1) \<Longrightarrow> fl_val f = - (2 ^ 1024 * iscale)"
  "IsInf f 0 \<longleftrightarrow> IsInf f 1 \<or> IsInf f (-1)"
proof -
  have i: "int (2 ^ 1024 * fscale) = 2 ^ 1024 * iscale" by (simp only: of_nat_mult of_nat_power of_nat_numeral)
  show "IsInf f 1 \<Longrightarrow> fl_val f = 2 ^ 1024 * iscale"
    "IsInf f (-1) \<Longrightarrow> fl_val f = - (2 ^ 1024 * iscale)"
    unfolding IsInf_def fl_val_def by (auto simp only: magval_inf i if_True if_False)
  show "IsInf f 0 \<longleftrightarrow> IsInf f 1 \<or> IsInf f (-1)" unfolding IsInf_def by auto
qed

lemma int_scaled_bounds: "- (2 ^ 63 * iscale) \<le> sint (i :: int64) * iscale"
  "sint (i :: int64) * iscale < 2 ^ 63 * iscale"
  using sint64_range [of i] iscale_pos
  by (simp_all only: mult_less_cancel_right_pos)
     (metis mult_le_cancel_right_pos mult_minus_left)

text \<open>Truncation, when the guards of the callers hold.\<close>

lemma float_to_int64_trunc:
  assumes "- (2 ^ 63 * iscale) \<le> fl_val f" and "fl_val f < 2 ^ 63 * iscale"
  shows "0 \<le> fl_val f \<Longrightarrow> sint (float_to_int64 f) * iscale \<le> fl_val f
      \<and> fl_val f < (sint (float_to_int64 f) + 1) * iscale"
    and "fl_val f < 0 \<Longrightarrow> fl_val f \<le> sint (float_to_int64 f) * iscale
      \<and> (sint (float_to_int64 f) - 1) * iscale < fl_val f"
proof -
  let ?m = "int (magval (fl_mag f))" and ?t = "int (magval (fl_mag f) div fscale)"
  have t: "?t = ?m div iscale" by (simp add: zdiv_int)
  have lo: "?t * iscale \<le> ?m" and hi: "?m < (?t + 1) * iscale"
  proof -
    have "?m = ?t * iscale + ?m mod iscale" unfolding t by (simp only: div_mult_mod_eq)
    moreover have "0 \<le> ?m mod iscale" "?m mod iscale < iscale" using iscale_pos by simp_all
    moreover have "(?t + 1) * iscale = ?t * iscale + iscale" by (simp only: distrib_right mult_1)
    ultimately show "?t * iscale \<le> ?m" "?m < (?t + 1) * iscale" by linarith+
  qed
  have s: "sint (float_to_int64 f) = (if fl_neg f then - ?t else ?t)"
  proof -
    have "?m \<le> 2 ^ 63 * iscale" "fl_neg f \<or> ?m < 2 ^ 63 * iscale"
      using assms unfolding fl_val_def by (auto split: if_splits)
    with lo have "?t * iscale \<le> 2 ^ 63 * iscale" "fl_neg f \<or> ?t * iscale < 2 ^ 63 * iscale" by linarith+
    then have "?t \<le> 2 ^ 63" "fl_neg f \<or> ?t < 2 ^ 63"
      using iscale_pos by (simp_all only: mult_le_cancel_right_pos mult_less_cancel_right_pos)
    moreover have "0 \<le> ?t" by simp
    ultimately show ?thesis
      unfolding float_to_int64_def Let_def by (intro sint64_of_int) (auto simp del: of_nat_div)
  qed
  show "0 \<le> fl_val f \<Longrightarrow> sint (float_to_int64 f) * iscale \<le> fl_val f
      \<and> fl_val f < (sint (float_to_int64 f) + 1) * iscale"
    using lo hi fl_val_neg_iff [of f] fl_val_zero_iff [of f] unfolding s fl_val_def
    by (auto split: if_splits simp: iscale_pos)
  show "fl_val f < 0 \<Longrightarrow> fl_val f \<le> sint (float_to_int64 f) * iscale
      \<and> (sint (float_to_int64 f) - 1) * iscale < fl_val f"
    using lo hi fl_val_neg_iff [of f] unfolding s fl_val_def
    by (auto simp: algebra_simps)
qed

lemma small_multiple: "iscale dvd x \<Longrightarrow> \<bar>x\<bar> < iscale \<Longrightarrow> x = 0"
  by (metis abs_dvd_iff abs_of_pos abs_zero dvd_imp_le_int iscale_pos not_less)

lemma trunc_exact_iff:
  assumes "\<not> IsNaN f" and "\<bar>fl_val f - sint t * iscale\<bar> < iscale"
  shows "fl_eq (int64_to_float t) f \<longleftrightarrow> fl_val f = sint t * iscale"
proof
  assume "fl_eq (int64_to_float t) f"
  then have "iscale dvd fl_val f" using int64_to_float_dvd [of t] by (simp add: fl_eq_def)
  then have "iscale dvd fl_val f - sint t * iscale" by simp
  from small_multiple [OF this assms(2)] show "fl_val f = sint t * iscale" by simp
next
  assume "fl_val f = sint t * iscale"
  with int64_to_float_exact [OF this] assms(1) show "fl_eq (int64_to_float t) f"
    by (simp add: fl_eq_def)
qed

lemma scaled_less_iff: "sint i * iscale < sint t * iscale \<longleftrightarrow> sint (i :: int64) < sint (t :: int64)"
  using iscale_pos by (rule mult_less_cancel_right_pos)

lemma compareIntFloat_pos:
  assumes "\<not> IsNaN f" and "\<not> IsInf f 0" and "0 < fl_val f" and "fl_val f < 2 ^ 63 * iscale"
  shows "compareIntFloat i f = cmp3 (sint i * iscale) (fl_val f)"
proof -
  let ?t = "float_to_int64 f"
  have ge: "- (2 ^ 63 * iscale) \<le> fl_val f" using assms(3) iscale_pos by simp
  with assms have t: "sint ?t * iscale \<le> fl_val f" "fl_val f < (sint ?t + 1) * iscale"
    using float_to_int64_trunc(1) [of f] by auto
  have ex: "fl_eq (int64_to_float ?t) f \<longleftrightarrow> fl_val f = sint ?t * iscale"
    using t by (intro trunc_exact_iff [OF assms(1)]) (simp add: distrib_right)
  have up: "fl_val f < sint i * iscale" if "sint ?t < sint i"
  proof -
    from that have "(sint ?t + 1) * iscale \<le> sint i * iscale" using iscale_pos by simp
    with t show ?thesis by linarith
  qed
  have dn: "sint i * iscale < fl_val f" if "sint i < sint ?t"
    using that t(1) scaled_less_iff [of i ?t] by linarith
  show ?thesis
    using assms t(1) up dn ge fl_consts iscale_pos scaled_less_iff [of i ?t]
    unfolding compareIntFloat_def IsInf_val(3) fl_eq_def [of f] fl_ge_def fl_lt_def Let_def ex cmp3_def
    by (auto simp: not_less)
qed

lemma compareIntFloat_neg:
  assumes "\<not> IsNaN f" and "\<not> IsInf f 0" and "fl_val f < 0" and "- (2 ^ 63 * iscale) \<le> fl_val f"
  shows "compareIntFloat i f = cmp3 (sint i * iscale) (fl_val f)"
proof -
  let ?t = "float_to_int64 f"
  have lt: "fl_val f < 2 ^ 63 * iscale" using assms(3) iscale_pos by simp
  with assms have t: "fl_val f \<le> sint ?t * iscale" "(sint ?t - 1) * iscale < fl_val f"
    using float_to_int64_trunc(2) [of f] by auto
  have ex: "fl_eq (int64_to_float ?t) f \<longleftrightarrow> fl_val f = sint ?t * iscale"
    using t by (intro trunc_exact_iff [OF assms(1)]) (simp add: left_diff_distrib)
  have fl: "sint (?t - 1) = sint ?t - 1" if "fl_val f \<noteq> sint ?t * iscale"
  proof -
    from that t assms have "- (2 ^ 63) * iscale < sint ?t * iscale" by linarith
    then have "- (2 ^ 63) < sint ?t" using iscale_pos by (simp only: mult_less_cancel_right_pos)
    then have "sint (word_of_int (sint ?t - 1) :: int64) = sint ?t - 1"
      using sint64_range [of ?t] by (intro sint64_of_int) auto
    then show ?thesis by simp
  qed
  have dn: "sint i * iscale < fl_val f" if "sint i \<le> sint ?t - 1"
  proof -
    from that have "sint i * iscale \<le> (sint ?t - 1) * iscale" using iscale_pos by simp
    with t show ?thesis by linarith
  qed
  have up: "fl_val f < sint i * iscale" if "\<not> sint i \<le> sint ?t - 1" "fl_val f \<noteq> sint ?t * iscale"
  proof -
    have "sint ?t * iscale \<le> sint i * iscale" using that(1) iscale_pos by simp
    with t(1) that(2) show ?thesis by linarith
  qed
  show ?thesis
    using assms t(1) up dn fl lt fl_consts iscale_pos scaled_less_iff [of i ?t]
    unfolding compareIntFloat_def IsInf_val(3) fl_eq_def [of f] fl_ge_def fl_lt_def Let_def ex
      cmp3_def cmpInt64_def
    by (auto simp: not_less)
qed

lemma compareIntFloat_cmp3:
  assumes "\<not> IsNaN f"
  shows "compareIntFloat i f = cmp3 (sint i * iscale) (fl_val f)"
proof -
  note ib = int_scaled_bounds [of i]
  have big: "2 ^ 63 * iscale < 2 ^ 1024 * iscale" using iscale_pos by (simp only: mult_less_cancel_right_pos) simp
  consider (pinf) "IsInf f 1" | (ninf) "IsInf f (-1)" "\<not> IsInf f 1" | (zero) "\<not> IsInf f 0" "fl_val f = 0"
    | (hi) "\<not> IsInf f 0" "fl_val f \<noteq> 0" "2 ^ 63 * iscale \<le> fl_val f"
    | (lo) "\<not> IsInf f 0" "fl_val f \<noteq> 0" "fl_val f < - (2 ^ 63 * iscale)"
    | (pos) "\<not> IsInf f 0" "0 < fl_val f" "fl_val f < 2 ^ 63 * iscale"
    | (neg) "\<not> IsInf f 0" "fl_val f < 0" "- (2 ^ 63 * iscale) \<le> fl_val f"
    unfolding IsInf_val(3) by linarith
  then show ?thesis
  proof cases
    case pinf
    have "sint i * iscale < fl_val f" unfolding IsInf_val(1) [OF pinf] using ib(2) big by (rule less_trans)
    with pinf assms show ?thesis by (simp add: compareIntFloat_def cmp3_def)
  next
    case ninf
    have "fl_val f < sint i * iscale"
      unfolding IsInf_val(2) [OF ninf(1)] by (rule less_le_trans [OF _ ib(1)]) (use big in simp)
    with ninf assms show ?thesis by (simp add: compareIntFloat_def cmp3_def)
  next
    case zero
    then have "cmp3 (sint i * iscale) (fl_val f) = cmp3 (sint i) 0"
      using iscale_pos by (auto simp: cmp3_def zero_less_mult_iff mult_less_0_iff)
    with zero assms fl_consts show ?thesis
      by (auto simp: compareIntFloat_def IsInf_val(3) fl_eq_def cmpInt64_cmp3)
  next
    case hi
    have "sint i * iscale < fl_val f" using ib(2) hi(3) by (rule less_le_trans)
    with hi show ?thesis using assms fl_consts
      by (auto simp: compareIntFloat_def IsInf_val(3) fl_eq_def fl_ge_def cmp3_def)
  next
    case lo
    then have "\<not> 2 ^ 63 * iscale \<le> fl_val f" using iscale_pos by simp
    moreover have "fl_val f < sint i * iscale" using lo(3) ib(1) by (rule less_le_trans)
    ultimately show ?thesis using lo assms fl_consts
      by (auto simp: compareIntFloat_def IsInf_val(3) fl_eq_def fl_ge_def fl_lt_def cmp3_def)
  qed (use assms compareIntFloat_pos compareIntFloat_neg in auto)
qed

section \<open>Floats that are exact integers\<close>

lemma fl_eq_zero_iff: "fl_eq f fl_zero \<longleftrightarrow> \<not> IsNaN f \<and> fl_val f = 0"
  using fl_consts by (simp add: fl_eq_def)

lemma floatIsExactInt64_iff:
  "floatIsExactInt64 f = Some i \<longleftrightarrow> \<not> IsNaN f \<and> fl_val f = sint i * iscale"
proof (cases "IsNaN f \<or> IsInf f 0")
  case True
  have "fl_val f \<noteq> sint i * iscale" if "IsInf f 0"
  proof -
    have big: "2 ^ 63 * iscale < 2 ^ 1024 * iscale" using iscale_pos by (simp only: mult_less_cancel_right_pos) simp
    from that consider "IsInf f 1" | "IsInf f (-1)" using IsInf_val(3) by blast
    then show ?thesis
      using IsInf_val(1,2) [of f] int_scaled_bounds [of i] big
      by cases (metis less_irrefl less_trans, metis less_le_trans neg_less_iff_less not_less_iff_gr_or_eq)
  qed
  with True show ?thesis by (auto simp: floatIsExactInt64_def)
next
  case False
  show ?thesis
  proof (cases "fl_val f = 0")
    case True
    with False iscale_pos show ?thesis
      by (auto simp: floatIsExactInt64_def fl_eq_zero_iff signed_eq_0_iff)
  next
    case nz: False
    show ?thesis
    proof (cases "2 ^ 63 * iscale \<le> fl_val f \<or> fl_val f < - (2 ^ 63 * iscale)")
      case True
      moreover from this have "fl_val f \<noteq> sint i * iscale" using int_scaled_bounds [of i] by linarith
      ultimately show ?thesis
        using False nz fl_consts by (auto simp: floatIsExactInt64_def fl_eq_zero_iff fl_ge_def fl_lt_def)
    next
      case range: False
      let ?t = "float_to_int64 f"
      have near: "\<bar>fl_val f - sint ?t * iscale\<bar> < iscale"
        using float_to_int64_trunc [of f] range
        by (cases "0 \<le> fl_val f") (auto simp: distrib_right left_diff_distrib)
      have "floatIsExactInt64 f = (if fl_val f = sint ?t * iscale then Some ?t else None)"
        using False nz range fl_consts near
        by (auto simp: floatIsExactInt64_def fl_eq_zero_iff fl_ge_def fl_lt_def Let_def trunc_exact_iff)
      moreover have "?t = i" if "fl_val f = sint i * iscale"
      proof -
        from that near have "\<bar>(sint i - sint ?t) * iscale\<bar> < iscale" by (simp add: left_diff_distrib)
        then have "(sint i - sint ?t) * iscale = 0" by (intro small_multiple) simp_all
        with iscale_pos have "sint i = sint ?t" by simp
        then show ?thesis by (metis signed_word_eqI)
      qed
      ultimately show ?thesis using False by auto
    qed
  qed
qed

lemma floatIsExactInt64_None:
  "floatIsExactInt64 f = None \<longleftrightarrow> IsNaN f \<or> (\<forall>i. fl_val f \<noteq> sint (i :: int64) * iscale)"
  using floatIsExactInt64_iff [of f] by (metis option.exhaust option.distinct(1))

lemma exact_int64I:
  assumes "\<not> IsNaN f" and "iscale dvd fl_val f"
    and "- (2 ^ 63 * iscale) \<le> fl_val f" and "fl_val f < 2 ^ 63 * iscale"
  obtains i where "floatIsExactInt64 f = Some i" and "fl_val f = sint i * iscale"
proof -
  from assms(2) obtain k where k: "fl_val f = k * iscale" by (metis dvd_def mult.commute)
  from assms(3,4) k have "- (2 ^ 63) * iscale \<le> k * iscale" "k * iscale < 2 ^ 63 * iscale" by simp_all
  then have "- (2 ^ 63) \<le> k" "k < 2 ^ 63"
    using iscale_pos by (simp_all only: mult_le_cancel_right_pos mult_less_cancel_right_pos)
  then have "sint (word_of_int k :: int64) = k" by (rule sint64_of_int)
  with k have "fl_val f = sint (word_of_int k :: int64) * iscale" by simp
  with assms(1) floatIsExactInt64_iff [of f "word_of_int k"] show thesis by (intro that) simp_all
qed

section \<open>Canonical floats and their order-preserving bits\<close>

text \<open>The exact value of any float, with every NaN placed above the infinities.\<close>

definition fl_ext :: "float64 \<Rightarrow> int" where
  "fl_ext f = (if IsNaN f then 2 ^ 1025 * iscale else fl_val f)"

lemma fl_ext_less_NaN: "\<not> IsNaN f \<Longrightarrow> IsNaN g \<Longrightarrow> fl_ext f < fl_ext g"
proof -
  assume a: "\<not> IsNaN f" "IsNaN g"
  have "fl_val f \<le> 2 ^ 1024 * iscale" using fl_val_bound [OF a(1)] by linarith
  also have "\<dots> < 2 ^ 1025 * iscale" using iscale_pos by (simp only: mult_less_cancel_right_pos) simp
  finally show ?thesis using a by (simp add: fl_ext_def)
qed

lemma compareFloat_cmp3: "compareFloat a b = cmp3 (fl_ext a) (fl_ext b)"
proof (cases "IsNaN a \<or> IsNaN b")
  case True
  then show ?thesis
    using fl_ext_less_NaN [of a b] fl_ext_less_NaN [of b a]
    by (auto simp: compareFloat_def cmp3_def fl_ext_def [of a] fl_ext_def [of b])
next
  case False
  then show ?thesis by (auto simp: compareFloat_def cmp3_def fl_ext_def fl_lt_def)
qed

lemma IsNaN_fl_NaN [simp]: "IsNaN fl_NaN"
  by (simp add: IsNaN_def fl_mag_def fl_NaN_def inf_mag_def)

lemma canonicalFloat_NaN [simp]: "IsNaN (canonicalFloat f) \<longleftrightarrow> IsNaN f"
  using fl_consts by (simp add: canonicalFloat_def)

lemma canonicalFloat_ext [simp]: "fl_ext (canonicalFloat f) = fl_ext f"
  using fl_consts by (simp add: canonicalFloat_def fl_ext_def fl_eq_zero_iff)

lemma canonicalFloat_idem [simp]: "canonicalFloat (canonicalFloat f) = canonicalFloat f"
  using fl_consts by (simp add: canonicalFloat_def fl_eq_zero_iff)

lemma canonicalFloat_cong: "fl_ext f = fl_ext g \<Longrightarrow> canonicalFloat f = canonicalFloat g"
proof -
  assume eq: "fl_ext f = fl_ext g"
  then have nan: "IsNaN f \<longleftrightarrow> IsNaN g"
    using fl_ext_less_NaN [of f g] fl_ext_less_NaN [of g f] by auto
  show ?thesis
  proof (cases "IsNaN f")
    case True
    with nan show ?thesis by (simp add: canonicalFloat_def)
  next
    case False
    with eq nan have "fl_val f = fl_val g" by (simp add: fl_ext_def)
    with False nan fl_val_inj [of f g] show ?thesis by (auto simp: canonicalFloat_def fl_eq_zero_iff)
  qed
qed

lemma canonicalFloat_neg: "fl_neg (canonicalFloat f) \<Longrightarrow> fl_mag (canonicalFloat f) \<noteq> 0 \<and> \<not> IsNaN f"
proof -
  have "\<not> fl_neg fl_NaN" "\<not> fl_neg fl_zero" by (simp_all add: fl_neg_def fl_NaN_def fl_zero_def)
  then show "fl_neg (canonicalFloat f) \<Longrightarrow> ?thesis"
    unfolding canonicalFloat_def by (auto simp: fl_eq_zero_iff fl_val_zero_iff split: if_splits)
qed

lemma bit63_iff: "(bits :: 64 word) AND push_bit 63 1 \<noteq> 0 \<longleftrightarrow> fl_neg bits"
proof -
  have "bits AND push_bit 63 1 \<noteq> 0 \<longleftrightarrow> bit bits 63"
    unfolding push_bit_of_1 by (simp only: and_exp_eq_0_iff_not_bit not_not)
  also have "\<dots> \<longleftrightarrow> odd (unat bits div 2 ^ 63)"
    unfolding bit_iff_odd [symmetric] by (simp add: bit_unsigned_iff)
  also have "\<dots> \<longleftrightarrow> fl_neg bits"
  proof -
    have "unat bits div 2 ^ 63 < 2" using unsigned_less [of bits] by (intro less_mult_imp_div_less) simp
    then have "unat bits div 2 ^ 63 = 0 \<or> unat bits div 2 ^ 63 = 1" by linarith
    then show ?thesis
      unfolding fl_neg_def by (metis div_greater_zero_iff even_zero odd_one not_less zero_less_one zero_less_power zero_less_numeral less_irrefl)
  qed
  finally show ?thesis .
qed

lemma xor_bit63: "(x :: 64 word) XOR push_bit 63 1 = x + 2 ^ 63"
proof (cases "x AND 2 ^ 63 = 0")
  case True
  then show ?thesis by (simp add: push_bit_of_1 disjunctive_add_eq_xor)
next
  case False
  let ?y = "x XOR 2 ^ 63"
  have "?y AND 2 ^ 63 = 0"
    using False by (simp only: and_exp_eq_0_iff_not_bit) (simp add: bit_xor_iff bit_exp_iff)
  then have "?y + 2 ^ 63 = ?y XOR 2 ^ 63" by (rule disjunctive_add_eq_xor)
  also have "\<dots> = x" by (simp add: xor.assoc)
  finally have "?y = x - 2 ^ 63" by (simp add: eq_diff_eq)
  also have "\<dots> = x + 2 ^ 63" by (simp add: diff_eq_eq add.assoc)
  finally show ?thesis by (simp add: push_bit_of_1)
qed

lemma unat_add_bit63:
  "unat (x + 2 ^ 63 :: 64 word) = (if fl_neg x then unat x - 2 ^ 63 else unat x + 2 ^ 63)"
proof -
  have "unat x < 2 * 2 ^ 63" using unsigned_less [of x] by simp
  then show ?thesis by (auto simp: unat_word_ariths fl_neg_def mod_if)
qed

lemma sint_split: "sint (x :: 64 word) = (if fl_neg x then int (unat x) - 2 ^ 64 else int (unat x))"
proof -
  have "unat x < 2 * 2 ^ 63" using unsigned_less [of x] by simp
  moreover have "x = word_of_int (int (unat x))" by simp
  then have "sint x = (int (unat x) + 2 ^ 63) mod 2 ^ 64 - 2 ^ 63"
    using int_word_sint [of "int (unat x)", where 'a = 64] by simp
  moreover have "(int (unat x) + 2 ^ 63) mod 2 ^ 64 = int ((unat x + 2 ^ 63) mod 2 ^ 64)"
    by (simp add: zmod_int)
  ultimately show ?thesis by (auto simp: fl_neg_def mod_if)
qed

lemma orderedFloat_bits:
  "orderedFloat f =
     (let c = canonicalFloat f in if fl_neg c then NOT c else c + 2 ^ 63)"
proof -
  have "(if IsNaN (canonicalFloat f) then fl_NaN else canonicalFloat f) = canonicalFloat f"
    using fl_consts(4) by (simp add: canonicalFloat_def)
  then show ?thesis unfolding orderedFloat_def Let_def by (simp only: bit63_iff xor_bit63)
qed

lemma unat_orderedFloat:
  "unat (orderedFloat f) =
     (let c = canonicalFloat f in if fl_neg c then 2 ^ 63 - 1 - fl_mag c else 2 ^ 63 + fl_mag c)"
proof -
  let ?c = "canonicalFloat f"
  have "unat (NOT ?c) = 2 ^ 63 - 1 - fl_mag ?c" if "fl_neg ?c"
  proof -
    have "NOT ?c = - 1 - ?c" by (simp add: not_eq_complement)
    moreover have "?c \<le> - 1" by simp
    ultimately have "unat (NOT ?c) = unat (- 1 :: 64 word) - unat ?c" by (simp only: unat_sub)
    moreover have "unat (- 1 :: 64 word) = 2 ^ 64 - 1" by (simp add: unsigned_minus_1_eq_mask mask_eq_exp_minus_1)
    ultimately show ?thesis using that unat_float [of ?c] by simp
  qed
  moreover have "unat (?c + 2 ^ 63) = 2 ^ 63 + fl_mag ?c" if "\<not> fl_neg ?c"
    using that unat_add_bit63 [of ?c] unat_float [of ?c] by simp
  ultimately show ?thesis unfolding orderedFloat_bits Let_def by simp
qed

lemma orderedFloat_less_canonical:
  assumes "\<not> IsNaN f" and "\<not> IsNaN g" and "canonicalFloat f = f" and "canonicalFloat g = g"
  shows "unat (orderedFloat f) < unat (orderedFloat g) \<longleftrightarrow> fl_val f < fl_val g"
proof -
  note u = unat_orderedFloat [of f, unfolded assms Let_def] unat_orderedFloat [of g, unfolded assms Let_def]
  have z: "fl_neg f \<Longrightarrow> fl_mag f \<noteq> 0" "fl_neg g \<Longrightarrow> fl_mag g \<noteq> 0"
    using canonicalFloat_neg [of f] canonicalFloat_neg [of g] assms by auto
  have pos: "0 < int (magval (fl_mag h))" if "fl_mag h \<noteq> 0" for h
    using that magval_less_iff [of 0 "fl_mag h"] by simp
  show ?thesis
    unfolding u fl_val_def using fl_mag_less [of f] fl_mag_less [of g] z pos [of f] pos [of g]
    by (cases "fl_neg f"; cases "fl_neg g") (simp_all, linarith+)
qed

lemma orderedFloat_cmp3:
  "cmp3 (unat (orderedFloat f)) (unat (orderedFloat g)) = cmp3 (fl_ext f) (fl_ext g)"
proof -
  have less: "unat (orderedFloat f) < unat (orderedFloat g) \<longleftrightarrow> fl_ext f < fl_ext g" for f g
  proof -
    let ?f = "canonicalFloat f" and ?g = "canonicalFloat g"
    have NaN: "unat (orderedFloat h) = 2 ^ 63 + fl_mag fl_NaN" if "IsNaN h" for h
    proof -
      have "\<not> fl_neg fl_NaN" by (simp add: fl_neg_def fl_NaN_def)
      with that show ?thesis unfolding unat_orderedFloat by (simp add: canonicalFloat_def)
    qed
    have below: "unat (orderedFloat h) < 2 ^ 63 + fl_mag fl_NaN" if "\<not> IsNaN h" for h
    proof -
      have "\<not> IsNaN (canonicalFloat h)" using that by simp
      then have "fl_mag (canonicalFloat h) < fl_mag fl_NaN"
        using IsNaN_fl_NaN unfolding IsNaN_def by linarith
      moreover have "2 ^ 63 - 1 - m < 2 ^ 63 + k" for m k :: nat
        by (rule le_less_trans [of _ "2 ^ 63 - 1"]) simp_all
      ultimately show ?thesis unfolding unat_orderedFloat Let_def by simp
    qed
    consider "IsNaN f" "IsNaN g" | "IsNaN f" "\<not> IsNaN g" | "\<not> IsNaN f" "IsNaN g" | "\<not> IsNaN f" "\<not> IsNaN g"
      by blast
    then show ?thesis
    proof cases
      case 4
      have ord: "orderedFloat ?f = orderedFloat f" "orderedFloat ?g = orderedFloat g"
        unfolding orderedFloat_bits by simp_all
      have "fl_val ?f = fl_ext f" "fl_val ?g = fl_ext g"
        using 4 canonicalFloat_ext [of f] canonicalFloat_ext [of g] unfolding fl_ext_def by simp_all
      with 4 orderedFloat_less_canonical [of ?f ?g] show ?thesis unfolding ord by simp
    qed (use NaN below fl_ext_less_NaN in \<open>auto simp: fl_ext_def less_le_not_le\<close>)
  qed
  show ?thesis unfolding cmp3_def less [of f g] less [of g f] by simp
qed

lemma unorderedFloat_orderedFloat: "unorderedFloat (orderedFloat f) = canonicalFloat f"
proof -
  let ?c = "canonicalFloat f" and ?o = "orderedFloat f"
  have neg: "fl_neg ?o \<longleftrightarrow> \<not> fl_neg ?c"
    unfolding fl_neg_def [of ?o] unat_orderedFloat Let_def using fl_mag_less [of ?c] by auto
  show ?thesis
    unfolding unorderedFloat_def bit63_iff xor_bit63 neg
    by (auto simp: orderedFloat_bits Let_def add.assoc)
qed

section \<open>Splitting an integer onto the float line\<close>

lemma fl_NegInf_parts: "\<not> IsNaN fl_NegInf" "fl_neg fl_NegInf" "fl_mag fl_NegInf = inf_mag"
  by (simp_all add: IsNaN_def fl_neg_def fl_mag_def fl_NegInf_def inf_mag_def)

lemma fl_val_NegInf: "fl_val fl_NegInf = - int (magval inf_mag)"
  by (simp add: fl_val_def fl_NegInf_parts)

lemma Nextafter_pos:
  assumes "\<not> IsNaN x" and "0 < fl_val x"
  shows "fl_mag (Nextafter x fl_NegInf) = fl_mag x - 1" and "\<not> fl_neg (Nextafter x fl_NegInf)"
proof -
  have x: "\<not> fl_neg x" "fl_mag x \<noteq> 0"
    using assms(2) fl_val_neg_iff [of x] fl_val_zero_iff [of x] by auto
  have "Nextafter x fl_NegInf = x - 1"
    using assms fl_NegInf_parts fl_consts unfolding Nextafter_def fl_eq_def fl_lt_def fl_val_NegInf by auto
  moreover have "unat (x - 1) = unat x - 1"
    using x unat_float [of x] by (intro unat_minus_one) auto
  ultimately have u: "unat (Nextafter x fl_NegInf) = fl_mag x - 1" using x unat_float [of x] by simp
  then show "fl_mag (Nextafter x fl_NegInf) = fl_mag x - 1" "\<not> fl_neg (Nextafter x fl_NegInf)"
    unfolding fl_mag_def [of "Nextafter x fl_NegInf"] fl_neg_def u using fl_mag_less [of x] by simp_all
qed

lemma Nextafter_neg:
  assumes "fl_mag x < inf_mag" and "fl_val x < 0"
  shows "fl_mag (Nextafter x fl_NegInf) = fl_mag x + 1" and "fl_neg (Nextafter x fl_NegInf)"
proof -
  have x: "fl_neg x" using assms(2) fl_val_neg_iff [of x] by auto
  have nan: "\<not> IsNaN x" using assms(1) by (simp add: IsNaN_def)
  have "- int (magval inf_mag) < fl_val x" using assms(1) x unfolding fl_val_def by simp
  then have "Nextafter x fl_NegInf = x + 1"
    using assms nan fl_NegInf_parts fl_consts unfolding Nextafter_def fl_eq_def fl_lt_def fl_val_NegInf by auto
  moreover have "unat (x + 1) = unat x + 1"
    using x assms(1) inf_mag_less unat_float [of x] by (simp add: unat_word_ariths)
  ultimately have u: "unat (Nextafter x fl_NegInf) = 2 ^ 63 + (fl_mag x + 1)"
    using x unat_float [of x] by simp
  have k: "fl_mag x + 1 < 2 ^ 63" using assms(1) inf_mag_less by linarith
  show "fl_mag (Nextafter x fl_NegInf) = fl_mag x + 1" "fl_neg (Nextafter x fl_NegInf)"
    unfolding fl_mag_def [of "Nextafter x fl_NegInf"] fl_neg_def u
    by (simp_all only: mod_add_self1 mod_less [OF k] le_add1)
qed

text \<open>In a gap of the float line, \<open>lower\<close> is the largest float below the integer.\<close>

lemma lower_float:
  fixes i :: int64
  defines "f \<equiv> int64_to_float i" and "n \<equiv> nat \<bar>sint i\<bar>"
  defines "lower \<equiv> (if compareIntFloat i f < 0 then Nextafter f fl_NegInf else f)"
  assumes "sint i \<noteq> 0" and b: "round_bracket n b" and ne: "magval b \<noteq> n * fscale"
  shows "fl_neg lower = (sint i < 0)" and "fl_mag lower = (if sint i < 0 then Suc b else b)"
proof -
  note parts = int64_to_float_parts [OF \<open>sint i \<noteq> 0\<close>, folded f_def n_def]
  have lo: "magval b < n * fscale" and hi: "n * fscale < magval (Suc b)"
    and r: "fl_round n = b \<or> fl_round n = Suc b"
    using b ne unfolding round_bracket_def by auto
  have ni: "int (n * fscale) = \<bar>sint i\<bar> * iscale" unfolding n_def by simp
  have loi: "int (magval b) < \<bar>sint i\<bar> * iscale" and hii: "\<bar>sint i\<bar> * iscale < int (magval (Suc b))"
    using lo hi unfolding ni [symmetric] by (simp_all only: of_nat_less_iff)
  have cmp: "compareIntFloat i f < 0 \<longleftrightarrow> sint i * iscale < fl_val f"
    using compareIntFloat_cmp3 [OF parts(3)] by (simp add: cmp_simps)
  have b1: "b \<noteq> 0"
  proof
    assume "b = 0"
    then have "magval (Suc b) = 1" by (simp add: magval_def)
    with hi lo show False by simp
  qed
  have binf: "b < inf_mag"
  proof -
    have "n * fscale < 2 ^ 1024 * fscale"
      using sint64_range [of i] unfolding n_def by simp
    with lo have "magval b < magval inf_mag" unfolding magval_inf by linarith
    then show ?thesis by simp
  qed
  have bpos: "0 < int (magval b)" using b1 magval_less_iff [of 0 b] by simp
  show "fl_neg lower = (sint i < 0)" "fl_mag lower = (if sint i < 0 then Suc b else b)"
  proof -
    consider "0 < sint i" "fl_mag f = b" | "0 < sint i" "fl_mag f = Suc b"
      | "sint i < 0" "fl_mag f = b" | "sint i < 0" "fl_mag f = Suc b"
      using \<open>sint i \<noteq> 0\<close> r parts(1) by linarith
    then have "fl_neg lower = (sint i < 0) \<and> fl_mag lower = (if sint i < 0 then Suc b else b)"
    proof cases
      case 1
      then have "\<not> sint i * iscale < fl_val f" using parts(2) loi unfolding fl_val_def by simp
      with 1 parts(2) show ?thesis unfolding lower_def cmp by simp
    next
      case 2
      then have "sint i * iscale < fl_val f" using parts(2) hii unfolding fl_val_def by simp
      moreover from this 2 iscale_pos have "0 < fl_val f"
        by (meson less_trans mult_pos_pos)
      ultimately show ?thesis
        using 2 Nextafter_pos [OF parts(3)] unfolding lower_def cmp by simp
    next
      case 3
      then have "sint i * iscale < fl_val f" "fl_val f < 0"
        using parts(2) loi bpos unfolding fl_val_def by simp_all
      with 3 binf Nextafter_neg [of f] show ?thesis unfolding lower_def cmp by simp
    next
      case 4
      then have "\<not> sint i * iscale < fl_val f" using parts(2) hii unfolding fl_val_def by simp
      with 4 parts(2) show ?thesis unfolding lower_def cmp by simp
    qed
    then show "fl_neg lower = (sint i < 0)" "fl_mag lower = (if sint i < 0 then Suc b else b)" by blast+
  qed
qed

definition split_ok :: "int64 \<Rightarrow> float64 \<Rightarrow> uint16 \<Rightarrow> bool" where
  "split_ok i lower off \<longleftrightarrow>
     \<not> IsNaN lower \<and> canonicalFloat lower = lower \<and>
     fl_val lower + int (unat off) * iscale = sint i * iscale \<and>
     (\<exists>li. floatIsExactInt64 lower = Some li) \<and>
     (\<forall>g. \<not> IsNaN g \<longrightarrow> fl_val g \<le> sint i * iscale \<longrightarrow> fl_val g \<le> fl_val lower)"

lemma bracket_int:
  assumes b: "round_bracket n b" and ne: "magval b \<noteq> n * fscale" and n63: "n \<le> 2 ^ 63"
  shows "int (magval b) < int n * iscale" and "int n * iscale < int (magval (Suc b))"
    and "int (magval (Suc b)) \<le> int (magval b) + 2048 * iscale"
    and "iscale dvd int (magval b)" and "iscale dvd int (magval (Suc b))"
    and "int (magval (Suc b)) \<le> 2 ^ 63 * iscale" and "Suc b \<le> inf_mag"
proof -
  have nat: "magval b < n * fscale" "n * fscale < magval (Suc b)"
    "magval (Suc b) \<le> magval b + 2048 * fscale" "fscale dvd magval b" "fscale dvd magval (Suc b)"
    using b ne n63 unfolding round_bracket_def by auto
  have ni: "int (n * fscale) = int n * iscale" by (rule of_nat_mult)
  show "int (magval b) < int n * iscale" "int n * iscale < int (magval (Suc b))"
    using nat(1,2) unfolding ni [symmetric] by (simp_all only: of_nat_less_iff)
  show "int (magval (Suc b)) \<le> int (magval b) + 2048 * iscale"
    using nat(3) by (metis of_nat_add of_nat_le_iff of_nat_mult of_nat_numeral)
  show "iscale dvd int (magval b)" "iscale dvd int (magval (Suc b))"
    using nat(4,5) by (simp_all only: int_dvd_int_iff)
  have neg: "\<not> fl_neg fl_two63" unfolding fl_neg_def fl_two63_def by simp
  then have "int (magval (fl_mag fl_two63)) = 2 ^ 63 * iscale"
    using fl_consts(2) unfolding fl_val_def by simp
  also have "\<dots> = int (2 ^ 63 * fscale)" by (simp only: of_nat_mult of_nat_power of_nat_numeral)
  finally have m: "magval (fl_mag fl_two63) = 2 ^ 63 * fscale" by (simp only: of_nat_eq_iff)
  have "n * fscale \<le> 2 ^ 63 * fscale" using n63 by (rule mult_le_mono1)
  with nat(1) have "magval b < magval (fl_mag fl_two63)" unfolding m by linarith
  then have le: "Suc b \<le> fl_mag fl_two63" by simp
  then have "magval (Suc b) \<le> 2 ^ 63 * fscale" unfolding m [symmetric] by simp
  then have "int (magval (Suc b)) \<le> int (2 ^ 63 * fscale)" by (simp only: of_nat_le_iff)
  then show "int (magval (Suc b)) \<le> 2 ^ 63 * iscale" by (simp only: of_nat_mult of_nat_power of_nat_numeral)
  have "fl_mag fl_two63 \<le> inf_mag" unfolding fl_mag_def fl_two63_def inf_mag_def by simp
  with le show "Suc b \<le> inf_mag" by linarith
qed

lemma gap_bounds:
  fixes i :: int64
  assumes i: "sint i \<noteq> 0" and b: "round_bracket (nat \<bar>sint i\<bar>) b" and ne: "magval b \<noteq> nat \<bar>sint i\<bar> * fscale"
    and l: "fl_neg lower = (sint i < 0)" "fl_mag lower = (if sint i < 0 then Suc b else b)"
  shows "fl_val lower < sint i * iscale" and "sint i * iscale \<le> fl_val lower + 2048 * iscale"
    and "iscale dvd fl_val lower" and "- (2 ^ 63 * iscale) \<le> fl_val lower" and "\<not> IsNaN lower"
    and "fl_val g \<le> sint i * iscale \<Longrightarrow> fl_val g \<le> fl_val lower"
proof -
  have n63: "nat \<bar>sint i\<bar> \<le> 2 ^ 63" using sint64_range [of i] by simp
  note br = bracket_int [OF b ne n63]
  define k where "k = sint i * iscale"
  have s: "int (nat \<bar>sint i\<bar>) * iscale = (if sint i < 0 then - k else k)" unfolding k_def by simp
  have kneg: "sint i < 0 \<Longrightarrow> k < 0" unfolding k_def using iscale_pos by (simp add: mult_neg_pos)
  have lv: "fl_val lower = (if sint i < 0 then - int (magval (Suc b)) else int (magval b))"
    unfolding fl_val_def l by simp
  note br = br [unfolded s]
  show "fl_val lower < sint i * iscale" "sint i * iscale \<le> fl_val lower + 2048 * iscale"
    using br(1-3) unfolding lv k_def [symmetric] by (auto split: if_splits)
  show "iscale dvd fl_val lower" unfolding lv using br(4,5) by simp
  have "0 \<le> 2 ^ 63 * iscale" using iscale_pos by simp
  then show "- (2 ^ 63 * iscale) \<le> fl_val lower" unfolding lv using br(6) by auto
  show "\<not> IsNaN lower" unfolding IsNaN_def l using br(7) by auto
  show "fl_val g \<le> fl_val lower" if le: "fl_val g \<le> sint i * iscale"
  proof (cases "sint i < 0")
    case True
    then have "fl_val g < 0" using kneg le unfolding k_def by linarith
    then have neg: "fl_neg g" using fl_val_neg_iff by blast
    then have g: "fl_val g = - int (magval (fl_mag g))" unfolding fl_val_def by simp
    then have "int (magval b) < int (magval (fl_mag g))" using br(1) True le unfolding k_def if_P [OF True] by linarith
    then have "Suc b \<le> fl_mag g" by simp
    with True g show ?thesis unfolding lv by simp
  next
    case False
    have "int (magval (fl_mag g)) < int (magval (Suc b))" if "\<not> fl_neg g"
      using that le br(2) unfolding fl_val_def k_def if_not_P [OF False] if_not_P [OF that] by linarith
    then have "fl_mag g \<le> b" if "\<not> fl_neg g" using that by simp
    with False show ?thesis unfolding lv by (auto simp: fl_val_def)
  qed
qed

lemma split_delta:
  fixes i li :: int64
  assumes "sint li * iscale < sint i * iscale" and "sint i * iscale \<le> sint li * iscale + 2048 * iscale"
  shows "sint (i - li) = sint i - sint li" and "0 < sint (i - li)" and "sint (i - li) \<le> 2048"
    and "int (unat (ucast (i - li) :: uint16)) = sint i - sint li"
proof -
  define d where "d = sint i - sint li"
  have "sint i * iscale \<le> (sint li + 2048) * iscale" using assms(2) by (simp add: distrib_right)
  then have d: "0 < d" "d \<le> 2048"
    using assms(1) iscale_pos unfolding d_def by (simp_all only: mult_less_cancel_right_pos mult_le_cancel_right_pos)
  have w: "i - li = word_of_int d" unfolding d_def by (simp add: wi_hom_sub)
  then show s: "sint (i - li) = sint i - sint li" unfolding w d_def [symmetric]
    using d by (intro sint64_of_int) simp_all
  then show "0 < sint (i - li)" "sint (i - li) \<le> 2048" using d unfolding d_def by simp_all
  have "uint (ucast (i - li) :: uint16) = d"
    unfolding w using d by (simp add: unsigned_ucast_eq unsigned_of_int take_bit_int_eq_self)
  then show "int (unat (ucast (i - li) :: uint16)) = sint i - sint li" unfolding d_def by simp
qed

lemma canonicalFloat_val [simp]: "\<not> IsNaN f \<Longrightarrow> fl_val (canonicalFloat f) = fl_val f"
  using canonicalFloat_ext [of f] unfolding fl_ext_def by simp

lemma splitIntForKey_ok: "case splitIntForKey i of (lower, off) \<Rightarrow> split_ok i lower off"
proof (cases "floatIsExactInt64 (int64_to_float i) = Some i")
  case True
  then have v: "fl_val (int64_to_float i) = sint i * iscale" by (simp add: floatIsExactInt64_iff)
  let ?c = "canonicalFloat (int64_to_float i)"
  have c: "fl_val ?c = sint i * iscale" "\<not> IsNaN ?c" using v by simp_all
  then have "floatIsExactInt64 ?c = Some i" by (simp add: floatIsExactInt64_iff)
  with True c show ?thesis unfolding splitIntForKey_def Let_def split_ok_def by simp
next
  case False
  let ?f = "int64_to_float i" and ?n = "nat \<bar>sint i\<bar>"
  define l where "l = (if compareIntFloat i ?f < 0 then Nextafter ?f fl_NegInf else ?f)"
  have nv: "fl_val ?f \<noteq> sint i * iscale" using False by (simp add: floatIsExactInt64_iff)
  then have i: "sint i \<noteq> 0" using int64_to_float_exact [of fl_zero i] fl_consts by auto
  obtain b where b: "round_bracket ?n b" using int64_to_float_parts(4) [OF i] ..
  have ne: "magval b \<noteq> ?n * fscale"
  proof
    assume eq: "magval b = ?n * fscale"
    with b have "magval (fl_round ?n) = ?n * fscale" unfolding round_bracket_def by simp
    then have "int (magval (fl_round ?n)) = int ?n * iscale" by (simp only: of_nat_mult)
    with nv int64_to_float_parts(1,2) [OF i] show False unfolding fl_val_def by auto
  qed
  note g = gap_bounds [OF i b ne lower_float [OF i b ne, folded l_def]]
  have "fl_val l < 2 ^ 63 * iscale" using g(1) int_scaled_bounds [of i] by linarith
  from exact_int64I [OF g(5,3,4) this] obtain li
    where li: "floatIsExactInt64 l = Some li" "fl_val l = sint li * iscale" .
  note d = split_delta [OF g(1,2) [unfolded li(2)]]
  have "splitIntForKey i = (canonicalFloat l, ucast (i - li))"
    unfolding splitIntForKey_def Let_def l_def [symmetric] using False li(1) d(2,3) by simp
  moreover have "floatIsExactInt64 (canonicalFloat l) = Some li"
    using li(2) g(5) by (simp add: floatIsExactInt64_iff)
  moreover have "fl_val l + int (unat (ucast (i - li) :: uint16)) * iscale = sint i * iscale"
    unfolding li(2) d(4) by (simp add: distrib_right [symmetric])
  ultimately show ?thesis unfolding split_ok_def using g(5,6) by simp
qed

end
