(* ===== verification/Values.thy ===== *)
theory Values
  imports Numbers "HOL-Library.AList" "HOL-Library.Multiset"
begin

text \<open>
  The tagged union of \<^verbatim>\<open>internal/value/value.go\<close> and its order, \<^verbatim>\<open>compare.go\<close>: kinds, constructors and
  accessors, the total order \<open>Compare\<close> behind \<^verbatim>\<open>ORDER BY\<close> and the indexes, the three-valued
  predicates \<open>ApplyOp\<close>, \<open>Not_v\<close>, \<open>And_v\<close> and \<open>Or_v\<close>, and the insertion sort \<open>sortKVs\<close> that
  keeps map entries in key order. A Go map handed to \<open>Map_v\<close> is an association list with distinct
  keys, in whatever order the runtime iterates it.
\<close>

section \<open>Kinds and values\<close>

datatype kind = KindNull | KindBool | KindInt | KindFloat | KindString | KindBytes | KindDate
  | KindDateTime | KindDuration | KindList | KindMap | KindNode | KindEdge | KindPath

fun kind_name :: "kind \<Rightarrow> string" where
  "kind_name KindNull = ''null''"
| "kind_name KindBool = ''bool''"
| "kind_name KindInt = ''int''"
| "kind_name KindFloat = ''float''"
| "kind_name KindString = ''string''"
| "kind_name KindBytes = ''bytes''"
| "kind_name KindDate = ''date''"
| "kind_name KindDateTime = ''datetime''"
| "kind_name KindDuration = ''duration''"
| "kind_name KindList = ''list''"
| "kind_name KindMap = ''map''"
| "kind_name KindNode = ''node''"
| "kind_name KindEdge = ''edge''"
| "kind_name KindPath = ''path''"

datatype val = VNull
  | VBool bool
  | VInt int64
  | VFloat float64
  | VString gostring
  | VBytes bytes
  | VDate int64
  | VDateTime int64 "int32 option"
  | VDuration int64 int64 int64
  | VList "val list"
  | VMap "(gostring \<times> val) list"
  | VNode uint64
  | VEdge uint64
  | VPath "uint64 list" "uint64 list"

fun kind_of :: "val \<Rightarrow> kind" where
  "kind_of VNull = KindNull"
| "kind_of (VBool b) = KindBool"
| "kind_of (VInt i) = KindInt"
| "kind_of (VFloat f) = KindFloat"
| "kind_of (VString s) = KindString"
| "kind_of (VBytes r) = KindBytes"
| "kind_of (VDate d) = KindDate"
| "kind_of (VDateTime n z) = KindDateTime"
| "kind_of (VDuration m d n) = KindDuration"
| "kind_of (VList xs) = KindList"
| "kind_of (VMap kvs) = KindMap"
| "kind_of (VNode u) = KindNode"
| "kind_of (VEdge u) = KindEdge"
| "kind_of (VPath ns es) = KindPath"

fun Storable :: "val \<Rightarrow> bool" where
  "Storable (VPath ns es) = False"
| "Storable (VList xs) = (\<forall>el \<in> set xs. Storable el)"
| "Storable (VMap kvs) = (\<forall>e \<in> set kvs. Storable (snd e))"
| "Storable v = True"

section \<open>Constructors and accessors\<close>

text \<open>
  The insertion sort swaps \<open>kvs[j]\<close> and \<open>kvs[j-1]\<close> downwards while the key at \<open>j\<close> is smaller.
\<close>

fun sortInner :: "(gostring \<times> val) list \<Rightarrow> nat \<Rightarrow> (gostring \<times> val) list" where
  "sortInner kvs 0 = kvs"
| "sortInner kvs (Suc j) =
     (if fst (kvs ! Suc j) < fst (kvs ! j)
      then sortInner (kvs[Suc j := kvs ! j, j := kvs ! Suc j]) j
      else kvs)"

definition sortKVs :: "(gostring \<times> val) list \<Rightarrow> (gostring \<times> val) list" where
  "sortKVs kvs = foldl sortInner kvs [1..<length kvs]"

definition Map_v :: "(gostring \<times> val) list \<Rightarrow> val" where
  "Map_v m = VMap (sortKVs m)"

definition PathOf :: "uint64 list \<Rightarrow> uint64 list \<Rightarrow> val result" where
  "PathOf nodes edges =
     (if nodes = [] then
        (if edges \<noteq> [] then Inl (Err ''value: path has edges but no nodes'')
         else Inr (VPath [] []))
      else if length edges \<noteq> length nodes - 1 then
        Inl (Err ''value: path has nodes and edges of mismatched length'')
      else Inr (VPath nodes edges))"

definition BoolValue :: "val \<Rightarrow> bool option" where
  "BoolValue v = (case v of VBool b \<Rightarrow> Some b | _ \<Rightarrow> None)"

definition IntValue :: "val \<Rightarrow> int64 option" where
  "IntValue v = (case v of VInt i \<Rightarrow> Some i | _ \<Rightarrow> None)"

definition FloatValue :: "val \<Rightarrow> float64 option" where
  "FloatValue v = (case v of VFloat f \<Rightarrow> Some f | _ \<Rightarrow> None)"

definition StringValue :: "val \<Rightarrow> gostring option" where
  "StringValue v = (case v of VString s \<Rightarrow> Some s | _ \<Rightarrow> None)"

definition ListValue :: "val \<Rightarrow> val list option" where
  "ListValue v = (case v of VList xs \<Rightarrow> Some xs | _ \<Rightarrow> None)"

text \<open>\<open>MapValue\<close> writes the entries into a fresh Go map in order, a later entry over an earlier one.\<close>

definition MapValue :: "val \<Rightarrow> (gostring \<rightharpoonup> val) option" where
  "MapValue v = (case v of
     VMap kvs \<Rightarrow> Some (foldl (\<lambda>out e. out(fst e \<mapsto> snd e)) Map.empty kvs) | _ \<Rightarrow> None)"

definition PathValue :: "val \<Rightarrow> (uint64 list \<times> uint64 list) option" where
  "PathValue v = (case v of VPath ns es \<Rightarrow> Some (ns, es) | _ \<Rightarrow> None)"

section \<open>The total order\<close>

definition cmpBool :: "bool \<Rightarrow> bool \<Rightarrow> int" where
  "cmpBool a b = (if a = b then 0 else if \<not> a then -1 else 1)"

definition cmpInt :: "int \<Rightarrow> int \<Rightarrow> int" where
  "cmpInt a b = (if a < b then -1 else if a > b then 1 else 0)"

definition cmpInt32 :: "int32 \<Rightarrow> int32 \<Rightarrow> int" where
  "cmpInt32 a b = (if sint a < sint b then -1 else if sint a > sint b then 1 else 0)"

definition cmpUint64 :: "uint64 \<Rightarrow> uint64 \<Rightarrow> int" where
  "cmpUint64 a b = (if a < b then -1 else if a > b then 1 else 0)"

definition cmpString :: "gostring \<Rightarrow> gostring \<Rightarrow> int" where
  "cmpString a b = (if a < b then -1 else if a > b then 1 else 0)"

text \<open>The loop of \<open>cmpBytes\<close>: \<open>n\<close> is the length of the shorter slice.\<close>

fun cmpBytesLoop :: "nat \<Rightarrow> nat \<Rightarrow> bytes \<Rightarrow> bytes \<Rightarrow> int" where
  "cmpBytesLoop 0 i a b = cmpInt (int (length a)) (int (length b))"
| "cmpBytesLoop (Suc n) i a b =
     (if a ! i < b ! i then -1
      else if a ! i > b ! i then 1
      else cmpBytesLoop n (Suc i) a b)"

definition cmpBytes :: "bytes \<Rightarrow> bytes \<Rightarrow> int" where
  "cmpBytes a b = cmpBytesLoop (min (length a) (length b)) 0 a b"

fun kindRank :: "kind \<Rightarrow> int" where
  "kindRank KindNull = 0"
| "kindRank KindBool = 1"
| "kindRank KindInt = 2"
| "kindRank KindFloat = 2"
| "kindRank KindString = 3"
| "kindRank KindBytes = 4"
| "kindRank KindDate = 5"
| "kindRank KindDateTime = 6"
| "kindRank KindDuration = 7"
| "kindRank KindList = 8"
| "kindRank KindMap = 9"
| "kindRank KindNode = 10"
| "kindRank KindEdge = 11"
| "kindRank KindPath = 12"

fun compareNumber :: "val \<Rightarrow> val \<Rightarrow> int" where
  "compareNumber (VInt a) (VInt b) = cmpInt64 a b"
| "compareNumber (VFloat a) (VFloat b) = compareFloat a b"
| "compareNumber (VInt a) (VFloat b) = compareIntFloat a b"
| "compareNumber (VFloat a) (VInt b) = - compareIntFloat b a"
| "compareNumber a b = 0"

text \<open>
  The walk of \<open>comparePaths\<close> over node, edge, node, and so on, at index \<open>i\<close>, with \<open>n\<close> nodes left.
\<close>

fun comparePathsLoop :: "nat \<Rightarrow> nat \<Rightarrow> uint64 list \<Rightarrow> uint64 list \<Rightarrow> uint64 list \<Rightarrow> uint64 list \<Rightarrow> int" where
  "comparePathsLoop 0 i an ae bn be = cmpInt (int (length an)) (int (length bn))"
| "comparePathsLoop (Suc n) i an ae bn be =
     (let c = cmpUint64 (an ! i) (bn ! i) in
      if c \<noteq> 0 then c
      else
        let aEdge = i < length ae; bEdge = i < length be in
        if aEdge \<noteq> bEdge then (if aEdge then 1 else -1)
        else if aEdge \<and> cmpUint64 (ae ! i) (be ! i) \<noteq> 0 then cmpUint64 (ae ! i) (be ! i)
        else comparePathsLoop n (Suc i) an ae bn be)"

definition comparePaths :: "uint64 list \<Rightarrow> uint64 list \<Rightarrow> uint64 list \<Rightarrow> uint64 list \<Rightarrow> int" where
  "comparePaths an ae bn be = comparePathsLoop (min (length an) (length bn)) 0 an ae bn be"

text \<open>
  \<open>Compare\<close>. The inner wildcard branches cannot be reached: the ranks are equal there. The loops
  of \<open>compareLists\<close> and \<open>compareMaps\<close> run in step over both slices and end by comparing the
  lengths of what is left, which differ exactly as the whole lengths do.
\<close>

fun Compare :: "val \<Rightarrow> val \<Rightarrow> int"
  and compareLists :: "val list \<Rightarrow> val list \<Rightarrow> int"
  and compareMaps :: "(gostring \<times> val) list \<Rightarrow> (gostring \<times> val) list \<Rightarrow> int" where
  "Compare a b =
     (if kindRank (kind_of a) \<noteq> kindRank (kind_of b)
      then cmpInt (kindRank (kind_of a)) (kindRank (kind_of b))
      else case a of
        VNull \<Rightarrow> 0
      | VBool x \<Rightarrow> (case b of VBool y \<Rightarrow> cmpBool x y | _ \<Rightarrow> 0)
      | VInt i \<Rightarrow> compareNumber a b
      | VFloat f \<Rightarrow> compareNumber a b
      | VString s \<Rightarrow> (case b of VString t \<Rightarrow> cmpString s t | _ \<Rightarrow> 0)
      | VBytes s \<Rightarrow> (case b of VBytes t \<Rightarrow> cmpBytes s t | _ \<Rightarrow> 0)
      | VDate d \<Rightarrow> (case b of VDate e \<Rightarrow> cmpInt64 d e | _ \<Rightarrow> 0)
      | VDateTime n z \<Rightarrow> (case b of VDateTime m y \<Rightarrow>
          (let c = cmpInt64 n m in
           if c \<noteq> 0 then c
           else case (z, y) of
             (Some p, None) \<Rightarrow> 1
           | (None, Some q) \<Rightarrow> -1
           | (None, None) \<Rightarrow> 0
           | (Some p, Some q) \<Rightarrow> cmpInt32 p q) | _ \<Rightarrow> 0)
      | VDuration m d n \<Rightarrow> (case b of VDuration m' d' n' \<Rightarrow>
          (let c = cmpInt64 m m' in
           if c \<noteq> 0 then c
           else let c = cmpInt64 d d' in
           if c \<noteq> 0 then c
           else cmpInt64 n n') | _ \<Rightarrow> 0)
      | VList xs \<Rightarrow> (case b of VList ys \<Rightarrow> compareLists xs ys | _ \<Rightarrow> 0)
      | VMap xs \<Rightarrow> (case b of VMap ys \<Rightarrow> compareMaps xs ys | _ \<Rightarrow> 0)
      | VNode u \<Rightarrow> (case b of VNode w \<Rightarrow> cmpUint64 u w | _ \<Rightarrow> 0)
      | VEdge u \<Rightarrow> (case b of VEdge w \<Rightarrow> cmpUint64 u w | _ \<Rightarrow> 0)
      | VPath ns es \<Rightarrow> (case b of VPath ns' es' \<Rightarrow> comparePaths ns es ns' es' | _ \<Rightarrow> 0))"
| "compareLists (x # xs) (y # ys) =
     (let c = Compare x y in if c \<noteq> 0 then c else compareLists xs ys)"
| "compareLists xs ys = cmpInt (int (length xs)) (int (length ys))"
| "compareMaps (x # xs) (y # ys) =
     (let c = cmpString (fst x) (fst y) in
      if c \<noteq> 0 then c
      else let c = Compare (snd x) (snd y) in
      if c \<noteq> 0 then c
      else compareMaps xs ys)"
| "compareMaps xs ys = cmpInt (int (length xs)) (int (length ys))"

declare Compare.simps [simp del]

definition Equal :: "val \<Rightarrow> val \<Rightarrow> bool" where
  "Equal a b \<longleftrightarrow> Compare a b = 0"

section \<open>Three-valued predicates\<close>

definition comparableKinds :: "kind \<Rightarrow> kind \<Rightarrow> bool" where
  "comparableKinds a b =
     (if a = b then True
      else (a = KindInt \<or> a = KindFloat) \<and> (b = KindInt \<or> b = KindFloat))"

definition ApplyOp :: "string \<Rightarrow> val \<Rightarrow> val \<Rightarrow> val result" where
  "ApplyOp op left right =
     (if op = ''IS NULL'' then Inr (VBool (kind_of left = KindNull))
      else if op = ''IS NOT NULL'' then Inr (VBool (kind_of left \<noteq> KindNull))
      else if op \<notin> {''='', ''!='', ''<'', ''<='', ''>'', ''>=''}
      then Inl (Err (''value: unknown operator '' @ op))
      else if kind_of left = KindNull \<or> kind_of right = KindNull then Inr VNull
      else if \<not> comparableKinds (kind_of left) (kind_of right) then Inr VNull
      else
        let c = Compare left right in
        Inr (VBool (if op = ''='' then c = 0
                    else if op = ''!='' then c \<noteq> 0
                    else if op = ''<'' then c < 0
                    else if op = ''<='' then c \<le> 0
                    else if op = ''>'' then c > 0
                    else c \<ge> 0)))"

definition Not_v :: "val \<Rightarrow> val result" where
  "Not_v v = (case v of
     VNull \<Rightarrow> Inr VNull
   | VBool b \<Rightarrow> Inr (VBool (\<not> b))
   | _ \<Rightarrow> Inl (Err (''value: NOT expects bool or null, got '' @ kind_name (kind_of v))))"

definition expectLogic :: "val \<Rightarrow> unit result" where
  "expectLogic v =
     (if kind_of v \<noteq> KindNull \<and> kind_of v \<noteq> KindBool
      then Inl (Err (''value: boolean operator expects bool or null, got '' @ kind_name (kind_of v)))
      else Inr ())"

definition And_v :: "val \<Rightarrow> val \<Rightarrow> val result" where
  "And_v a b =
     bind_res (expectLogic a) (\<lambda>_. bind_res (expectLogic b) (\<lambda>_.
       if a = VBool False \<or> b = VBool False then Inr (VBool False)
       else if kind_of a = KindNull \<or> kind_of b = KindNull then Inr VNull
       else Inr (VBool True)))"

definition Or_v :: "val \<Rightarrow> val \<Rightarrow> val result" where
  "Or_v a b =
     bind_res (expectLogic a) (\<lambda>_. bind_res (expectLogic b) (\<lambda>_.
       if a = VBool True \<or> b = VBool True then Inr (VBool True)
       else if kind_of a = KindNull \<or> kind_of b = KindNull then Inr VNull
       else Inr (VBool False)))"


section \<open>Values the constructors build\<close>

text \<open>
  The invariant behind the struct: map entries strictly sorted by key, one edge fewer than nodes
  on a path, and a date that fits the 32-bit day count of the key encoding.
\<close>

fun wf_val :: "val \<Rightarrow> bool" where
  "wf_val (VDate d) = (- (2 ^ 31) \<le> sint d \<and> sint d < 2 ^ 31)"
| "wf_val (VList xs) = (\<forall>x \<in> set xs. wf_val x)"
| "wf_val (VMap kvs) = (sorted_wrt (<) (map fst kvs) \<and> (\<forall>e \<in> set kvs. wf_val (snd e)))"
| "wf_val (VPath ns es) = (if ns = [] then es = [] else Suc (length es) = length ns)"
| "wf_val v = True"

lemma PathOf_wf: "PathOf ns es = Inr v \<Longrightarrow> wf_val v \<and> v = VPath ns es"
  by (auto simp: PathOf_def split: if_splits)

lemma PathOf_ok: "wf_val (VPath ns es) \<Longrightarrow> PathOf ns es = Inr (VPath ns es)"
  by (auto simp: PathOf_def split: if_splits)

subsection \<open>The insertion sort\<close>

lemma sortInner_insert:
  "sorted (map fst p) \<Longrightarrow> sortInner (p @ x # q) (length p) =
     takeWhile (\<lambda>y. fst y \<le> fst x) p @ x # dropWhile (\<lambda>y. fst y \<le> fst x) p @ q"
proof (induction p arbitrary: q rule: rev_induct)
  case (snoc y p)
  have nth: "(p @ y # x # q) ! Suc (length p) = x" "(p @ y # x # q) ! length p = y"
    by (simp_all add: nth_append)
  have swap: "(p @ y # x # q)[Suc (length p) := y, length p := x] = p @ x # y # q"
    by (simp add: list_update_append)
  have s: "sorted (map fst p)" and le: "\<forall>z \<in> set p. fst z \<le> fst y"
    using snoc.prems by (auto simp: sorted_append)
  show ?case
  proof (cases "fst x < fst y")
    case True
    have "sortInner ((p @ [y]) @ x # q) (length (p @ [y])) = sortInner (p @ x # y # q) (length p)"
      using True swap by (simp add: nth)
    also have "\<dots> = takeWhile (\<lambda>y. fst y \<le> fst x) p @ x # dropWhile (\<lambda>y. fst y \<le> fst x) p @ y # q"
      using snoc.IH [OF s, of "y # q"] by simp
    finally show ?thesis
      using True by (auto simp: takeWhile_tail dropWhile_append)
  next
    case False
    then have all: "\<forall>z \<in> set (p @ [y]). fst z \<le> fst x" using le by (auto intro: order_trans)
    have "takeWhile (\<lambda>y. fst y \<le> fst x) (p @ [y]) = p @ [y]" "dropWhile (\<lambda>y. fst y \<le> fst x) (p @ [y]) = []"
      using all by (simp_all add: takeWhile_eq_all_conv dropWhile_eq_Nil_conv del: set_append takeWhile_append)
    with False show ?thesis by (simp add: nth)
  qed
qed simp

lemma sorted_insert_mid:
  assumes "sorted (map fst p)"
  shows "sorted (map fst (takeWhile (\<lambda>y. fst y \<le> fst x) p @ x # dropWhile (\<lambda>y. fst y \<le> fst x) p))"
  using assms
proof (induction p)
  case (Cons y p)
  then show ?case
  proof (cases "fst y \<le> fst x")
    case True
    have "set (takeWhile (\<lambda>y. fst y \<le> fst x) p @ x # dropWhile (\<lambda>y. fst y \<le> fst x) p) = insert x (set p)"
      by (metis Un_insert_right list.simps(15) set_append takeWhile_dropWhile_id)
    with True Cons show ?thesis by (auto simp: image_iff simp del: set_append) force+
  qed force
qed simp

lemma sortKVs_prefix:
  "n \<le> length kvs \<Longrightarrow> 0 < n \<Longrightarrow> \<exists>p. foldl sortInner kvs [1..<n] = p @ drop n kvs \<and> length p = n
     \<and> sorted (map fst p) \<and> mset p = mset (take n kvs)"
proof (induction n)
  case (Suc n)
  show ?case
  proof (cases "n = 0")
    case True
    with Suc.prems obtain x xs where "kvs = x # xs" by (cases kvs) auto
    with True show ?thesis by (intro exI [of _ "[x]"]) simp
  next
    case False
    then obtain p where p: "foldl sortInner kvs [1..<n] = p @ drop n kvs" "length p = n"
      "sorted (map fst p)" "mset p = mset (take n kvs)"
      using Suc by auto
    have d: "drop n kvs = kvs ! n # drop (Suc n) kvs" using Suc.prems by (simp add: Cons_nth_drop_Suc)
    let ?x = "kvs ! n"
    let ?p = "takeWhile (\<lambda>y. fst y \<le> fst ?x) p @ ?x # dropWhile (\<lambda>y. fst y \<le> fst ?x) p"
    have "foldl sortInner kvs [1..<Suc n] = sortInner (p @ ?x # drop (Suc n) kvs) (length p)"
      using False p(1,2) d by simp
    also have "\<dots> = ?p @ drop (Suc n) kvs" using sortInner_insert [OF p(3)] by simp
    finally have 1: "foldl sortInner kvs [1..<Suc n] = ?p @ drop (Suc n) kvs" .
    have "mset ?p = add_mset ?x (mset p)"
      by (metis mset_append add_mset_add_single mset.simps(2) takeWhile_dropWhile_id union_mset_add_mset_right)
    then have 2: "mset ?p = mset (take (Suc n) kvs)"
      using p(4) Suc.prems by (simp add: take_Suc_conv_app_nth)
    have "length ?p = Suc n" using 2 Suc.prems by (metis length_take min.absorb2 size_mset)
    with 1 2 sorted_insert_mid [OF p(3), of ?x] show ?thesis by blast
  qed
qed simp

lemma sortKVs_sorted: "sorted (map fst (sortKVs kvs))"
  and mset_sortKVs [simp]: "mset (sortKVs kvs) = mset kvs"
proof -
  have "sorted (map fst (sortKVs kvs)) \<and> mset (sortKVs kvs) = mset kvs"
  proof (cases "kvs = []")
    case False
    then show ?thesis using sortKVs_prefix [of "length kvs" kvs] by (auto simp: sortKVs_def)
  qed (simp add: sortKVs_def)
  then show "sorted (map fst (sortKVs kvs))" "mset (sortKVs kvs) = mset kvs" by simp_all
qed

lemma set_sortKVs [simp]: "set (sortKVs kvs) = set kvs"
  by (metis mset_eq_setD mset_sortKVs)

lemma distinct_sortKVs [simp]: "distinct (map fst (sortKVs kvs)) = distinct (map fst kvs)"
  by (metis mset_map mset_sortKVs mset_eq_imp_distinct_iff)

text \<open>With distinct keys the result does not depend on the order the map is iterated in.\<close>

lemma sortKVs_unique:
  assumes "sorted_wrt (<) (map fst s)" and "mset s = mset kvs"
  shows "sortKVs kvs = s"
proof (rule map_sorted_distinct_set_unique [where f = fst])
  have d: "distinct (map fst kvs)"
    by (metis assms mset_map mset_eq_imp_distinct_iff strict_sorted_iff)
  have set: "set kvs = set s" using assms(2) mset_eq_setD by metis
  show "inj_on fst (set (sortKVs kvs) \<union> set s)" using d set by (simp add: distinct_map)
  show "sorted (map fst (sortKVs kvs))" by (rule sortKVs_sorted)
  show "distinct (map fst (sortKVs kvs))" using d by simp
  show "sorted (map fst s)" "distinct (map fst s)" using assms(1) by (simp_all add: strict_sorted_iff)
  show "set (sortKVs kvs) = set s" using set by simp
qed

lemma sortKVs_strict: "distinct (map fst kvs) \<Longrightarrow> sorted_wrt (<) (map fst (sortKVs kvs))"
  by (simp add: strict_sorted_iff sortKVs_sorted)

lemma Map_v_wf:
  "distinct (map fst m) \<Longrightarrow> \<forall>e \<in> set m. wf_val (snd e) \<Longrightarrow> wf_val (Map_v m)"
  by (simp add: Map_v_def sortKVs_strict)

lemma foldl_upd_map_of:
  "foldl (\<lambda>out e. out(fst e \<mapsto> snd e)) m kvs = m ++ map_of (rev kvs)"
  by (induction kvs arbitrary: m) (auto simp: map_add_def fun_eq_iff split: option.splits)

lemma MapValue_Map_v: "distinct (map fst m) \<Longrightarrow> MapValue (Map_v m) = Some (map_of m)"
proof -
  assume d: "distinct (map fst m)"
  then have "distinct (map fst (rev (sortKVs m)))" by (simp flip: rev_map)
  with d have "map_of (rev (sortKVs m)) = map_of m"
    by (intro ext) (metis map_of_inject_set distinct_sortKVs set_rev set_sortKVs)
  then show ?thesis by (simp add: MapValue_def Map_v_def foldl_upd_map_of)
qed


section \<open>Comparison lemmas\<close>

lemma cmpInt_cmp3: "cmpInt a b = cmp3 a b"
  and cmpInt32_cmp3: "cmpInt32 p q = cmp3 (sint p) (sint q)"
  and cmpUint64_cmp3: "cmpUint64 u w = cmp3 u w"
  and cmpString_cmp3: "cmpString s t = cmp3 s t"
  by (simp_all add: cmpInt_def cmpInt32_def cmpUint64_def cmpString_def cmp3_def)

lemma cmpBool_cmp3: "cmpBool x y = cmp3 x y"
  by (cases x; cases y) (simp_all add: cmpBool_def cmp3_def)

lemma cmp3_Nil:
  fixes xs :: "bytes"
  shows "cmp3 [] xs = (if xs = [] then 0 else -1)" and "cmp3 xs [] = (if xs = [] then 0 else 1)"
  by (cases xs; simp add: cmp3_def)+

lemma cmpBytesLoop_drop:
  "n + i = min (length a) (length b) \<Longrightarrow> take i a = take i b \<Longrightarrow>
     cmpBytesLoop n i a b = cmp3 (drop i a) (drop i b)"
proof (induction n arbitrary: i)
  case 0
  then consider "length a \<le> i" "i \<le> length b" | "length b \<le> i" "i \<le> length a" by linarith
  then show ?case using 0 by cases (simp_all add: cmp3_Nil cmpInt_def)
next
  case (Suc n)
  have i: "i < length a" "i < length b" using Suc.prems by auto
  have t: "take (Suc i) a = take (Suc i) b" if "a ! i = b ! i"
    using that i Suc.prems(2) by (simp add: take_Suc_conv_app_nth)
  have d: "drop i a = a ! i # drop (Suc i) a" "drop i b = b ! i # drop (Suc i) b"
    using i by (simp_all add: Cons_nth_drop_Suc)
  have "cmpBytesLoop n (Suc i) a b = cmp3 (drop (Suc i) a) (drop (Suc i) b)" if "a ! i = b ! i"
    using Suc.IH [of "Suc i"] t [OF that] Suc.prems(1) by simp
  then show ?case unfolding d by (auto simp: cmp3_def)
qed

lemma cmpBytes_cmp3: "cmpBytes a b = cmp3 a b"
  using cmpBytesLoop_drop [of _ 0 a b] by (simp add: cmpBytes_def)

lemmas scalar_cmp3 = cmpInt_cmp3 cmpInt32_cmp3 cmpInt64_cmp3 cmpUint64_cmp3 cmpString_cmp3
  cmpBool_cmp3 cmpBytes_cmp3

text \<open>\<open>Compare\<close> kind by kind.\<close>

lemma Compare_rank:
  "kindRank (kind_of a) \<noteq> kindRank (kind_of b) \<Longrightarrow>
     Compare a b = cmp3 (kindRank (kind_of a)) (kindRank (kind_of b))"
  by (subst Compare.simps) (simp add: cmpInt_cmp3)

lemma Compare_same:
  "Compare VNull VNull = 0"
  "Compare (VBool bx) (VBool b2) = cmp3 bx b2"
  "Compare (VString s) (VString t) = cmp3 s t"
  "Compare (VBytes p) (VBytes q) = cmp3 p q"
  "Compare (VDate d) (VDate e) = cmp3 (sint d) (sint e)"
  "Compare (VList xs) (VList ys) = compareLists xs ys"
  "Compare (VMap kvs) (VMap lvs) = compareMaps kvs lvs"
  "Compare (VNode u) (VNode w) = cmp3 u w"
  "Compare (VEdge u) (VEdge w) = cmp3 u w"
  "Compare (VPath ns es) (VPath ms fs) = comparePaths ns es ms fs"
  "Compare (VDateTime n z) (VDateTime m y) =
     (if sint n = sint m
      then (case (z, y) of (Some p, None) \<Rightarrow> 1 | (None, Some q) \<Rightarrow> -1 | (None, None) \<Rightarrow> 0
            | (Some p, Some q) \<Rightarrow> cmp3 (sint p) (sint q))
      else cmp3 (sint n) (sint m))"
  "Compare (VDuration mo da na) (VDuration mo' da' na') =
     (if sint mo = sint mo'
      then (if sint da = sint da' then cmp3 (sint na) (sint na') else cmp3 (sint da) (sint da'))
      else cmp3 (sint mo) (sint mo'))"
  by (simp_all add: Compare.simps Let_def scalar_cmp3 cmp_simps split: option.splits)

lemma Compare_number:
  "kindRank (kind_of a) = 2 \<Longrightarrow> kindRank (kind_of b) = 2 \<Longrightarrow> Compare a b = compareNumber a b"
  by (subst Compare.simps) (cases a; simp)

section \<open>Numbers on one exact line\<close>

text \<open>The exact scaled value of a number; every NaN sits above all other numbers.\<close>

fun num_val :: "val \<Rightarrow> int" where
  "num_val (VInt i) = sint i * iscale"
| "num_val (VFloat f) = fl_ext f"
| "num_val v = 0"

lemma int_less_NaN: "IsNaN f \<Longrightarrow> sint (i :: int64) * iscale < fl_ext f"
proof -
  assume n: "IsNaN f"
  have "sint i * iscale < 2 ^ 63 * iscale" by (rule int_scaled_bounds)
  also have "\<dots> = fl_ext fl_two63" using fl_consts by (simp add: fl_ext_def)
  also have "\<dots> < fl_ext f" using n fl_consts by (intro fl_ext_less_NaN) simp_all
  finally show ?thesis .
qed

lemma compareIntFloat_num: "compareIntFloat i f = cmp3 (sint i * iscale) (fl_ext f)"
proof (cases "IsNaN f")
  case True
  with int_less_NaN [of f i] show ?thesis by (simp add: compareIntFloat_def cmp3_def)
next
  case False
  then show ?thesis using compareIntFloat_cmp3 [of f i] by (simp add: fl_ext_def)
qed

lemma compareNumber_num_val:
  "kindRank (kind_of a) = 2 \<Longrightarrow> kindRank (kind_of b) = 2 \<Longrightarrow> compareNumber a b = cmp3 (num_val a) (num_val b)"
  using iscale_pos
  by (cases a; cases b)
    (auto simp: cmpInt64_cmp3 compareFloat_cmp3 compareIntFloat_num simp flip: cmp3_swap
      intro!: cmp3_eqI)


section \<open>Properties\<close>

text \<open>
  Integers and floats compare by exact numeric value: \<open>Compare\<close> on numbers is the order of
  the exact values (scaled by \<open>2 ^ 1074\<close>), with no rounding above \<open>2 ^ 53\<close> and with every NaN
  one value above all others.
\<close>

theorem Compare_numbers_exact:
  assumes "kindRank (kind_of a) = 2" and "kindRank (kind_of b) = 2"
  shows "Compare a b = cmp3 (num_val a) (num_val b)"
  using assms by (simp add: Compare_number compareNumber_num_val)

theorem Compare_numbers_exact_witness:
  "Compare (VInt (2 ^ 53 + 1)) (VInt (2 ^ 53)) = cmp3 (num_val (VInt (2 ^ 53 + 1))) (num_val (VInt (2 ^ 53)))"
  by (rule Compare_numbers_exact) simp_all

text \<open>
  \<open>Map_v\<close> keeps exactly the entries of the Go map, in strict key order, and so the result does
  not depend on the order the runtime iterates the map in.
\<close>

theorem Map_v_canonical:
  assumes "distinct (map fst m)" and "mset m' = mset m"
  shows "Map_v m' = Map_v m \<and> MapValue (Map_v m') = Some (map_of m)
    \<and> (\<exists>kvs. Map_v m' = VMap kvs \<and> sorted_wrt (<) (map fst kvs) \<and> mset kvs = mset m)"
proof -
  have s: "sorted_wrt (<) (map fst (sortKVs m))" using assms(1) by (rule sortKVs_strict)
  then have "sortKVs m' = sortKVs m" using assms(2) by (intro sortKVs_unique) simp_all
  with s MapValue_Map_v [OF assms(1)] show ?thesis by (auto simp: Map_v_def)
qed

theorem Map_v_canonical_witness:
  "Map_v [([98], VNull), ([97], VBool True)] = Map_v [([97], VBool True), ([98], VNull)]"
  using Map_v_canonical [of "[([97], VBool True), ([98], VNull)]" "[([98], VNull), ([97], VBool True)]"] by simp

definition truth_rank :: "val \<Rightarrow> int" where
  "truth_rank v = (if v = VBool False then 0 else if v = VBool True then 2 else 1)"

text \<open>
  The boolean operators are Kleene's three-valued logic, with an error for any other kind: on
  booleans and null, negation is an involution and exchanges conjunction and disjunction, and
  conjunction is the minimum of \<open>false < null < true\<close>.
\<close>

theorem three_valued_logic:
  assumes "expectLogic a = Inr ()" and "expectLogic b = Inr ()"
  shows "bind_res (Not_v a) Not_v = Inr a
    \<and> bind_res (And_v a b) Not_v = bind_res (Not_v a) (\<lambda>x. bind_res (Not_v b) (Or_v x))
    \<and> (\<exists>c. And_v a b = Inr c \<and> c \<in> {a, b} \<and> truth_rank c = min (truth_rank a) (truth_rank b))
    \<and> (\<exists>c. Or_v a b = Inr c \<and> c \<in> {a, b} \<and> truth_rank c = max (truth_rank a) (truth_rank b))"
proof -
  have logic: "v = VNull \<or> v = VBool True \<or> v = VBool False" if "expectLogic v = Inr ()" for v
    using that by (cases v) (auto simp: expectLogic_def)
  then show ?thesis
    using logic [OF assms(1)] logic [OF assms(2)]
    by (auto simp: Not_v_def And_v_def Or_v_def expectLogic_def truth_rank_def)
qed

theorem three_valued_logic_witness:
  "bind_res (And_v VNull (VBool False)) Not_v = Inr (VBool True)"
proof -
  have "Not_v VNull = Inr VNull" "Not_v (VBool False) = Inr (VBool True)" "Or_v VNull (VBool True) = Inr (VBool True)"
    by (simp_all add: Not_v_def Or_v_def expectLogic_def)
  then show ?thesis using three_valued_logic [of VNull "VBool False"] by (simp add: expectLogic_def)
qed

text \<open>
  A comparison predicate is null exactly when an operand is null or the kinds are not
  comparable, otherwise it is a boolean that agrees with \<open>Compare\<close>; an unknown operator is an
  error; the null tests always answer.
\<close>

theorem ApplyOp_spec:
  "ApplyOp ''IS NULL'' a b = Inr (VBool (a = VNull))
    \<and> ApplyOp ''IS NOT NULL'' a b = Inr (VBool (a \<noteq> VNull))
    \<and> (op \<notin> {''IS NULL'', ''IS NOT NULL'', ''='', ''!='', ''<'', ''<='', ''>'', ''>=''}
        \<longrightarrow> ApplyOp op a b = Inl (Err (''value: unknown operator '' @ op)))
    \<and> (op \<in> {''='', ''!='', ''<'', ''<='', ''>'', ''>=''} \<longrightarrow>
        (ApplyOp op a b = Inr VNull
          \<longleftrightarrow> a = VNull \<or> b = VNull \<or> kindRank (kind_of a) \<noteq> kindRank (kind_of b))
        \<and> (a \<noteq> VNull \<and> b \<noteq> VNull \<and> kindRank (kind_of a) = kindRank (kind_of b)
          \<longrightarrow> ApplyOp ''='' a b = Inr (VBool (Equal a b))
            \<and> ApplyOp ''!='' a b = Inr (VBool (\<not> Equal a b))
            \<and> ApplyOp ''<'' a b = Inr (VBool (Compare a b < 0))
            \<and> ApplyOp ''<='' a b = Inr (VBool (Compare a b \<le> 0))
            \<and> ApplyOp ''>'' a b = Inr (VBool (Compare a b > 0))
            \<and> ApplyOp ''>='' a b = Inr (VBool (Compare a b \<ge> 0))))"
proof -
  have null: "kind_of v = KindNull \<longleftrightarrow> v = VNull" for v by (cases v) simp_all
  have comp: "comparableKinds k l \<longleftrightarrow> kindRank k = kindRank l" for k l
    by (cases k; cases l) (simp_all add: comparableKinds_def)
  show ?thesis by (auto simp: ApplyOp_def null comp Let_def Equal_def)
qed

theorem ApplyOp_spec_witness:
  "ApplyOp ''<'' (VBool False) (VBool True) = Inr (VBool True) \<and> ApplyOp ''='' (VInt 1) (VString []) = Inr VNull"
proof -
  have "Compare (VBool False) (VBool True) < 0" by (simp add: Compare_same cmp3_def)
  then show ?thesis
    using ApplyOp_spec [of "VBool False" "VBool True" "''<''"] ApplyOp_spec [of "VInt 1" "VString []" "''=''"] by simp
qed

end
