(* ===== verification/KeyCodec.thy ===== *)
theory KeyCodec
  imports Values
begin

text \<open>
  The memcomparable key encoding of \<^verbatim>\<open>internal/value/key.go\<close>: \<open>EncodeKey\<close> and \<open>EncodeComposite\<close>
  with the \<open>append\<close> helpers they call, and the decoders. The index layer compares nothing but
  these bytes, so the main results are that byte order is value order, also for concatenated
  keys, and that decoding returns the canonical form of the value that was encoded.

  \<open>decodeKey\<close>, \<open>decodeList\<close> and \<open>decodeMap\<close> call each other without a bound in the code; here
  each call spends one unit of fuel, and twice the number of input bytes plus one is enough.
\<close>

section \<open>Encoding\<close>

definition keyNull :: byte where "keyNull = 0x01"
definition keyBool :: byte where "keyBool = 0x02"
definition keyNumber :: byte where "keyNumber = 0x03"
definition keyString :: byte where "keyString = 0x04"
definition keyBytes :: byte where "keyBytes = 0x05"
definition keyDate :: byte where "keyDate = 0x06"
definition keyDateTime :: byte where "keyDateTime = 0x07"
definition keyDuration :: byte where "keyDuration = 0x08"
definition keyList :: byte where "keyList = 0x09"
definition keyMap :: byte where "keyMap = 0x0A"
definition keyNode :: byte where "keyNode = 0x0B"
definition keyEdge :: byte where "keyEdge = 0x0C"
definition keyPath :: byte where "keyPath = 0x0D"

lemmas key_tags = keyNull_def keyBool_def keyNumber_def keyString_def keyBytes_def keyDate_def
  keyDateTime_def keyDuration_def keyList_def keyMap_def keyNode_def keyEdge_def keyPath_def

definition appendNumber :: "bytes \<Rightarrow> float64 \<Rightarrow> uint16 \<Rightarrow> bytes" where
  "appendNumber dst f off = dst @ [keyNumber] @ be_put 8 (unat (orderedFloat f)) @ be_put 2 (unat off)"

fun appendEscaped :: "bytes \<Rightarrow> gostring \<Rightarrow> bytes" where
  "appendEscaped dst [] = dst @ [0x00]"
| "appendEscaped dst (c # s) =
     (if c = 0x00 then appendEscaped (dst @ [0x00, 0xFF]) s else appendEscaped (dst @ [c]) s)"

fun appendEscapedBytes :: "bytes \<Rightarrow> bytes \<Rightarrow> bytes" where
  "appendEscapedBytes dst [] = dst @ [0x00]"
| "appendEscapedBytes dst (c # b) =
     (if c = 0x00 then appendEscapedBytes (dst @ [0x00, 0xFF]) b else appendEscapedBytes (dst @ [c]) b)"

definition appendSignFlip64 :: "bytes \<Rightarrow> int64 \<Rightarrow> bytes" where
  "appendSignFlip64 dst n = dst @ be_put 8 (unat (n XOR push_bit 63 1))"

definition appendSignFlip32 :: "bytes \<Rightarrow> int32 \<Rightarrow> bytes" where
  "appendSignFlip32 dst n = dst @ be_put 4 (unat (n XOR push_bit 31 1))"

definition appendU64 :: "bytes \<Rightarrow> uint64 \<Rightarrow> bytes" where
  "appendU64 dst n = dst @ be_put 8 (unat n)"

definition appendPath :: "bytes \<Rightarrow> uint64 list \<Rightarrow> uint64 list \<Rightarrow> bytes" where
  "appendPath dst nodes edges =
     foldl (\<lambda>dst i.
         let dst = appendU64 (dst @ [0x01]) (nodes ! i) in
         if i < length edges then appendU64 (dst @ [0x02]) (edges ! i) else dst)
       dst [0..<length nodes]"

fun appendKey :: "bytes \<Rightarrow> val \<Rightarrow> bytes" where
  "appendKey dst VNull = dst @ [keyNull]"
| "appendKey dst (VBool b) = dst @ [keyBool, if b then 1 else 0]"
| "appendKey dst (VInt i) = (case splitIntForKey i of (lower, off) \<Rightarrow> appendNumber dst lower off)"
| "appendKey dst (VFloat f) = appendNumber dst (canonicalFloat f) 0"
| "appendKey dst (VString s) = appendEscaped (dst @ [keyString]) s"
| "appendKey dst (VBytes r) = appendEscapedBytes (dst @ [keyBytes]) r"
| "appendKey dst (VDate d) = appendSignFlip32 (dst @ [keyDate]) (ucast d)"
| "appendKey dst (VDateTime n z) =
     (let dst = appendSignFlip64 (dst @ [keyDateTime]) n in
      case z of None \<Rightarrow> dst @ [0] | Some off \<Rightarrow> appendSignFlip32 (dst @ [1]) off)"
| "appendKey dst (VDuration m d n) =
     appendSignFlip64 (appendSignFlip64 (appendSignFlip64 (dst @ [keyDuration]) m) d) n"
| "appendKey dst (VList xs) = foldl appendKey (dst @ [keyList]) xs @ [0x00]"
| "appendKey dst (VMap kvs) =
     foldl (\<lambda>dst e. appendKey (appendKey dst (VString (fst e))) (snd e)) (dst @ [keyMap]) kvs @ [0x00]"
| "appendKey dst (VNode u) = appendU64 (dst @ [keyNode]) u"
| "appendKey dst (VEdge u) = appendU64 (dst @ [keyEdge]) u"
| "appendKey dst (VPath ns es) = appendPath (dst @ [keyPath]) ns es @ [0x00]"

definition EncodeKey :: "val \<Rightarrow> bytes" where
  "EncodeKey v = appendKey [] v"

definition EncodeComposite :: "val list \<Rightarrow> bytes" where
  "EncodeComposite vs = foldl appendKey [] vs"

section \<open>Decoding\<close>

definition truncated :: "'a result" where
  "truncated = Inl (Err ''value: truncated key'')"

definition decodeNumber :: "bytes \<Rightarrow> (val \<times> bytes) result" where
  "decodeNumber b =
     (if length b < 10 then truncated
      else
        let bits = word_of_nat (be_get (take 8 b));
            off = (word_of_nat (be_get (take 2 (drop 8 b))) :: uint16);
            rest = drop 10 b;
            f = unorderedFloat bits in
        if off = 0 then
          (if IsNaN f then Inr (VFloat fl_NaN, rest)
           else case floatIsExactInt64 f of
             Some i \<Rightarrow> Inr (VInt i, rest)
           | None \<Rightarrow> Inr (VFloat f, rest))
        else case floatIsExactInt64 f of
          None \<Rightarrow> Inl (Err ''value: invalid number key'')
        | Some li \<Rightarrow> Inr (VInt (li + ucast off), rest))"

fun decodeEscapedLoop :: "bytes \<Rightarrow> bytes \<Rightarrow> (gostring \<times> bytes) result" where
  "decodeEscapedLoop out [] = truncated"
| "decodeEscapedLoop out (c # b) =
     (if c \<noteq> 0x00 then decodeEscapedLoop (out @ [c]) b
      else case b of
        [] \<Rightarrow> Inr (out, [])
      | d # b' \<Rightarrow> if d = 0xFF then decodeEscapedLoop (out @ [0x00]) b' else Inr (out, b))"

definition decodeEscaped :: "bytes \<Rightarrow> (gostring \<times> bytes) result" where
  "decodeEscaped b = decodeEscapedLoop [] b"

definition decodeSignFlip64 :: "bytes \<Rightarrow> (int64 \<times> bytes) result" where
  "decodeSignFlip64 b =
     (if length b < 8 then truncated
      else Inr (word_of_nat (be_get (take 8 b)) XOR push_bit 63 1, drop 8 b))"

definition decodeSignFlip32 :: "bytes \<Rightarrow> (int32 \<times> bytes) result" where
  "decodeSignFlip32 b =
     (if length b < 4 then truncated
      else Inr (word_of_nat (be_get (take 4 b)) XOR push_bit 31 1, drop 4 b))"

definition decodeU64 :: "bytes \<Rightarrow> (uint64 \<times> bytes) result" where
  "decodeU64 b =
     (if length b < 8 then truncated else Inr (word_of_nat (be_get (take 8 b)), drop 8 b))"

definition decodeDateTime :: "bytes \<Rightarrow> (val \<times> bytes) result" where
  "decodeDateTime b =
     bind_res (decodeSignFlip64 b) (\<lambda>(n, rest).
       case rest of
         [] \<Rightarrow> truncated
       | flag # rest \<Rightarrow>
           if flag = 0 then Inr (VDateTime n None, rest)
           else if flag = 1 then
             bind_res (decodeSignFlip32 rest) (\<lambda>(off, rest). Inr (VDateTime n (Some off), rest))
           else Inl (Err ''value: invalid datetime key''))"

definition decodeDuration :: "bytes \<Rightarrow> (val \<times> bytes) result" where
  "decodeDuration b =
     bind_res (decodeSignFlip64 b) (\<lambda>(months, b).
     bind_res (decodeSignFlip64 b) (\<lambda>(days, b).
     bind_res (decodeSignFlip64 b) (\<lambda>(nanos, b). Inr (VDuration months days nanos, b))))"

function decodePath :: "uint64 list \<Rightarrow> uint64 list \<Rightarrow> bool \<Rightarrow> bytes \<Rightarrow> (val \<times> bytes) result" where
  "decodePath nodes edges expectNode [] = truncated"
| "decodePath nodes edges expectNode (c # b) =
     (if c = 0x00 then
        (if nodes \<noteq> [] \<and> expectNode then Inl (Err ''value: path ended on an edge'')
         else bind_res (PathOf nodes edges) (\<lambda>p. Inr (p, b)))
      else if c = 0x01 then
        (if \<not> expectNode then Inl (Err ''value: path expected an edge'')
         else bind_res (decodeU64 b) (\<lambda>(id, rest). decodePath (nodes @ [id]) edges False rest))
      else if c = 0x02 then
        (if expectNode then Inl (Err ''value: path expected a node'')
         else bind_res (decodeU64 b) (\<lambda>(id, rest). decodePath nodes (edges @ [id]) True rest))
      else Inl (Err ''value: invalid path key''))"
  by pat_completeness auto
termination
  by (relation "measure (\<lambda>(nodes, edges, e, b). length b)")
     (auto simp: decodeU64_def truncated_def split: if_splits)

fun decodeKey :: "nat \<Rightarrow> bytes \<Rightarrow> (val \<times> bytes) result"
  and decodeList :: "nat \<Rightarrow> val list \<Rightarrow> bytes \<Rightarrow> (val \<times> bytes) result"
  and decodeMap :: "nat \<Rightarrow> (gostring \<times> val) list \<Rightarrow> gostring option \<Rightarrow> bytes \<Rightarrow> (val \<times> bytes) result"
where
  "decodeKey 0 b = Inl OutOfFuel"
| "decodeKey (Suc n) b = (case b of
     [] \<Rightarrow> truncated
   | tag # b \<Rightarrow>
       if tag = keyNull then Inr (VNull, b)
       else if tag = keyBool then
         (case b of
            [] \<Rightarrow> truncated
          | c # b' \<Rightarrow> if c = 0 then Inr (VBool False, b') else if c = 1 then Inr (VBool True, b')
                     else Inl (Err ''value: invalid bool key''))
       else if tag = keyNumber then decodeNumber b
       else if tag = keyString then bind_res (decodeEscaped b) (\<lambda>(s, rest). Inr (VString s, rest))
       else if tag = keyBytes then bind_res (decodeEscaped b) (\<lambda>(s, rest). Inr (VBytes s, rest))
       else if tag = keyDate then bind_res (decodeSignFlip32 b) (\<lambda>(n, rest). Inr (VDate (scast n), rest))
       else if tag = keyDateTime then decodeDateTime b
       else if tag = keyDuration then decodeDuration b
       else if tag = keyList then decodeList n [] b
       else if tag = keyMap then decodeMap n [] None b
       else if tag = keyNode then bind_res (decodeU64 b) (\<lambda>(id, rest). Inr (VNode id, rest))
       else if tag = keyEdge then bind_res (decodeU64 b) (\<lambda>(id, rest). Inr (VEdge id, rest))
       else if tag = keyPath then decodePath [] [] True b
       else Inl (ErrNum ''value: unknown key tag'' (unat tag)))"
| "decodeList 0 elems b = Inl OutOfFuel"
| "decodeList (Suc n) elems b =
     (if b = [] then truncated
      else if hd b = 0x00 then Inr (VList elems, tl b)
      else bind_res (decodeKey n b) (\<lambda>(el, rest). decodeList n (elems @ [el]) rest))"
| "decodeMap 0 m prev b = Inl OutOfFuel"
| "decodeMap (Suc n) m prev b =
     (if b = [] then truncated
      else if hd b = 0x00 then Inr (Map_v m, tl b)
      else bind_res (decodeKey n b) (\<lambda>(key, rest).
        case StringValue key of
          None \<Rightarrow> Inl (Err ''value: map key is not a string'')
        | Some s \<Rightarrow>
            bind_res (decodeKey n rest) (\<lambda>(v, rest).
              if (case prev of None \<Rightarrow> False | Some p \<Rightarrow> s < p)
              then Inl (Err ''value: map keys out of order'')
              else decodeMap n (AList.update s v m) (Some s) rest)))"

definition DecodeKey :: "bytes \<Rightarrow> val result" where
  "DecodeKey b =
     bind_res (decodeKey (2 * length b + 1) b) (\<lambda>(v, rest).
       if length rest \<noteq> 0 then Inl (Err ''value: trailing bytes in key'') else Inr v)"

fun DecodeComposite_loop :: "nat \<Rightarrow> val list \<Rightarrow> bytes \<Rightarrow> val list result" where
  "DecodeComposite_loop 0 out b = (if b = [] then Inr out else Inl OutOfFuel)"
| "DecodeComposite_loop (Suc n) out b =
     (if b = [] then Inr out
      else bind_res (decodeKey (2 * length b + 1) b) (\<lambda>(v, rest).
        DecodeComposite_loop n (out @ [v]) rest))"

definition DecodeComposite :: "bytes \<Rightarrow> val list result" where
  "DecodeComposite b = DecodeComposite_loop (length b) [] b"

section \<open>What is appended\<close>

lemma appendEscaped_append: "appendEscaped dst s = dst @ appendEscaped [] s"
  by (induction s arbitrary: dst) (simp, metis append_assoc append_Nil appendEscaped.simps(2))

lemma appendEscapedBytes_eq: "appendEscapedBytes dst b = appendEscaped dst b"
  by (induction b arbitrary: dst) auto

definition escaped :: "bytes \<Rightarrow> bytes" where
  "escaped s = appendEscaped [] s"

lemma escaped_simps [codec_simps]:
  "escaped [] = [0x00]"
  "escaped (c # s) = (if c = 0x00 then 0x00 # 0xFF # escaped s else c # escaped s)"
  by (simp_all add: escaped_def appendEscaped_append [of "[_]"] appendEscaped_append [of "[_, _]"])

text \<open>The sign-flipped number that is written: order-isomorphic to the signed value.\<close>

definition flip64 :: "int64 \<Rightarrow> nat" where
  "flip64 n = unat (n XOR push_bit 63 1)"

definition flip32 :: "int32 \<Rightarrow> nat" where
  "flip32 n = unat (n XOR push_bit 31 1)"

lemmas append_defs = appendNumber_def appendEscaped_append [folded escaped_def] appendEscapedBytes_eq
  appendSignFlip64_def [folded flip64_def] appendSignFlip32_def [folded flip32_def] appendU64_def

text \<open>The bytes of a path, node by node.\<close>

fun path_bytes :: "uint64 list \<Rightarrow> uint64 list \<Rightarrow> bytes" where
  "path_bytes [] es = [0x00]"
| "path_bytes (n # ns) [] = 0x01 # be_put 8 (unat n) @ path_bytes ns []"
| "path_bytes (n # ns) (e # es) =
     0x01 # be_put 8 (unat n) @ 0x02 # be_put 8 (unat e) @ path_bytes ns es"

definition path_step :: "uint64 list \<Rightarrow> uint64 list \<Rightarrow> bytes \<Rightarrow> nat \<Rightarrow> bytes" where
  "path_step nodes edges dst i =
     (let dst = appendU64 (dst @ [0x01]) (nodes ! i) in
      if i < length edges then appendU64 (dst @ [0x02]) (edges ! i) else dst)"

lemma path_fold_shift:
  "foldl (path_step (n # ns) (if es = [] then [] else e # tl es)) dst (map Suc is)
     = foldl (path_step ns (tl es)) dst is"
  by (induction "is" arbitrary: dst) (auto simp: path_step_def Let_def)

lemma appendPath_bytes: "appendPath dst ns es @ [0x00] = dst @ path_bytes ns es"
proof -
  have "foldl (path_step ns es) dst [0..<length ns] @ [0x00] = dst @ path_bytes ns es"
  proof (induction ns es arbitrary: dst rule: path_bytes.induct)
    case (2 n ns)
    have "[0..<length (n # ns)] = 0 # map Suc [0..<length ns]"
      by (simp add: upt_conv_Cons map_Suc_upt del: upt_Suc)
    then show ?case
      using 2 path_fold_shift [of n ns "[]"]
      by (simp add: path_step_def [of _ _ _ 0] appendU64_def del: upt_Suc)
  next
    case (3 n ns e es)
    have "[0..<length (n # ns)] = 0 # map Suc [0..<length ns]"
      by (simp add: upt_conv_Cons map_Suc_upt del: upt_Suc)
    then show ?case
      using 3 path_fold_shift [of n ns "e # es" e]
      by (simp add: path_step_def [of _ _ _ 0] appendU64_def del: upt_Suc)
  qed simp
  then show ?thesis by (simp add: appendPath_def path_step_def [abs_def])
qed

lemma val_size_list: "x \<in> set xs \<Longrightarrow> size x < size (VList xs)"
  by (induction xs) auto

lemma val_size_map: "e \<in> set kvs \<Longrightarrow> size (snd e) < size (VMap kvs)"
  by (induction kvs) auto

lemma foldl_append:
  assumes "\<And>x dst. x \<in> set xs \<Longrightarrow> f dst x = dst @ g x"
  shows "foldl f dst xs = dst @ concat (map g xs)"
  using assms by (induction xs arbitrary: dst) auto

lemma appendKey_EncodeKey: "appendKey dst v = dst @ EncodeKey v"
  unfolding EncodeKey_def
proof (induction v arbitrary: dst rule: measure_induct_rule [where f = size])
  case (less v)
  show ?case
  proof (cases v)
    case (VList xs)
    have IH: "appendKey d x = d @ appendKey [] x" if "x \<in> set xs" for x d
      by (rule less) (simp only: VList val_size_list [OF that])
    show ?thesis unfolding VList by (simp add: foldl_append [OF IH])
  next
    case (VMap kvs)
    have IH: "appendKey d (snd e) = d @ appendKey [] (snd e)" if "e \<in> set kvs" for e d
      by (rule less) (simp only: VMap val_size_map [OF that])
    have "appendKey (appendKey d (VString (fst e))) (snd e) = d @ (keyString # escaped (fst e) @ appendKey [] (snd e))"
      if "e \<in> set kvs" for e d
      using IH [OF that, of "appendKey d (VString (fst e))"] by (simp add: append_defs)
    then show ?thesis unfolding VMap by (simp add: foldl_append)
  qed (auto simp: append_defs appendPath_bytes Let_def split: prod.splits option.splits)
qed

lemma EncodeKey_simps [codec_simps]:
  "EncodeKey VNull = [keyNull]"
  "EncodeKey (VBool b) = [keyBool, if b then 1 else 0]"
  "EncodeKey (VInt i) = keyNumber # be_put 8 (unat (orderedFloat (fst (splitIntForKey i))))
     @ be_put 2 (unat (snd (splitIntForKey i)))"
  "EncodeKey (VFloat f) = keyNumber # be_put 8 (unat (orderedFloat (canonicalFloat f))) @ be_put 2 0"
  "EncodeKey (VString s) = keyString # escaped s"
  "EncodeKey (VBytes s) = keyBytes # escaped s"
  "EncodeKey (VDate d) = keyDate # be_put 4 (flip32 (ucast d))"
  "EncodeKey (VDateTime n z) = keyDateTime # be_put 8 (flip64 n) @
     (case z of None \<Rightarrow> [0] | Some off \<Rightarrow> 1 # be_put 4 (flip32 off))"
  "EncodeKey (VDuration mo da na) = keyDuration # be_put 8 (flip64 mo) @
     be_put 8 (flip64 da) @ be_put 8 (flip64 na)"
  "EncodeKey (VList xs) = keyList # concat (map EncodeKey xs) @ [0x00]"
  "EncodeKey (VMap kvs) = keyMap # concat (map (\<lambda>e. EncodeKey (VString (fst e)) @ EncodeKey (snd e)) kvs) @ [0x00]"
  "EncodeKey (VNode u) = keyNode # be_put 8 (unat u)"
  "EncodeKey (VEdge u) = keyEdge # be_put 8 (unat u)"
  "EncodeKey (VPath ns es) = keyPath # path_bytes ns es"
  subgoal by (simp add: EncodeKey_def)
  subgoal by (simp add: EncodeKey_def)
  subgoal by (simp add: EncodeKey_def append_defs split: prod.splits)
  subgoal by (simp add: EncodeKey_def append_defs)
  subgoal by (simp add: EncodeKey_def append_defs)
  subgoal by (simp add: EncodeKey_def append_defs)
  subgoal by (simp add: EncodeKey_def append_defs)
  subgoal by (simp add: EncodeKey_def append_defs Let_def split: option.splits)
  subgoal by (simp add: EncodeKey_def append_defs)
  subgoal by (simp add: EncodeKey_def [of "VList xs"] foldl_append [OF appendKey_EncodeKey])
  subgoal
  proof -
    have "foldl (\<lambda>dst e. appendKey (appendKey dst (VString (fst e))) (snd e)) [keyMap] kvs
      = [keyMap] @ concat (map (\<lambda>e. EncodeKey (VString (fst e)) @ EncodeKey (snd e)) kvs)"
      by (rule foldl_append) (simp only: appendKey_EncodeKey append_assoc)
    then show ?thesis by (simp only: EncodeKey_def [of "VMap kvs"] appendKey.simps append_Nil append_Cons)
  qed
  subgoal by (simp add: EncodeKey_def append_defs)
  subgoal by (simp add: EncodeKey_def append_defs)
  subgoal by (simp add: EncodeKey_def appendPath_bytes)
  done

lemma EncodeComposite_concat: "EncodeComposite vs = concat (map EncodeKey vs)"
  by (simp add: EncodeComposite_def foldl_append [OF appendKey_EncodeKey])


section \<open>Byte order is value order\<close>

lemma flip64_sint: "int (flip64 n) = sint n + 2 ^ 63"
  unfolding flip64_def xor_bit63 unat_add_bit63 sint_split
  by (simp add: of_nat_diff fl_neg_def)

lemma xor_bit31: "(x :: 32 word) XOR push_bit 31 1 = x + 2 ^ 31"
proof (cases "x AND 2 ^ 31 = 0")
  case True
  then show ?thesis by (simp add: push_bit_of_1 disjunctive_add_eq_xor)
next
  case False
  let ?y = "x XOR 2 ^ 31"
  have "?y AND 2 ^ 31 = 0"
    using False by (simp only: and_exp_eq_0_iff_not_bit) (simp add: bit_xor_iff bit_exp_iff)
  then have "?y + 2 ^ 31 = ?y XOR 2 ^ 31" by (rule disjunctive_add_eq_xor)
  also have "\<dots> = x" by (simp add: xor.assoc)
  finally have "?y = x - 2 ^ 31" by (simp add: eq_diff_eq)
  also have "\<dots> = x + 2 ^ 31" by (simp add: diff_eq_eq add.assoc)
  finally show ?thesis by (simp add: push_bit_of_1)
qed

lemma flip32_sint: "int (flip32 n) = sint n + 2 ^ 31"
proof -
  have lt: "unat n < 2 * 2 ^ 31" using unsigned_less [of n] by simp
  have "sint n = (int (unat n) + 2 ^ 31) mod 2 ^ 32 - 2 ^ 31"
    using int_word_sint [of "int (unat n)", where 'a = 32] by simp
  moreover have "(int (unat n) + 2 ^ 31) mod 2 ^ 32 = int ((unat n + 2 ^ 31) mod 2 ^ 32)"
    by (simp add: zmod_int)
  moreover have "unat (n + 2 ^ 31) = (unat n + 2 ^ 31) mod 2 ^ 32" by (simp add: unat_word_ariths)
  ultimately show ?thesis unfolding flip32_def xor_bit31 by simp
qed

lemma flip_less [simp]: "flip64 n < 256 ^ 8" "flip32 m < 256 ^ 4"
  using unsigned_less [of "n XOR push_bit 63 1"] unsigned_less [of "m XOR push_bit 31 1"]
  unfolding flip64_def flip32_def by simp_all

lemma flip_cmp: "cmp3 (flip64 n) (flip64 m) = cmp3 (sint n) (sint m)"
  "cmp3 (flip32 p) (flip32 q) = cmp3 (sint p) (sint q)"
  using flip64_sint [of n] flip64_sint [of m] flip32_sint [of p] flip32_sint [of q]
  by (auto simp: cmp3_def)

lemma flip_eq: "flip64 n = flip64 m \<longleftrightarrow> sint n = sint m" "flip32 p = flip32 q \<longleftrightarrow> sint p = sint q"
  using flip_cmp by (metis cmp3_zero)+

lemmas flip_append_cmp = be_put_append_cmp [OF flip_less(1) flip_less(1)] be_put_append_cmp [OF flip_less(2) flip_less(2)]

definition noFF :: "bytes \<Rightarrow> bool" where
  "noFF r \<longleftrightarrow> (case r of [] \<Rightarrow> True | c # _ \<Rightarrow> c \<noteq> 0xFF)"

lemma noFF_simps [simp]: "noFF []" "noFF (c # r) \<longleftrightarrow> c \<noteq> 0xFF"
  by (simp_all add: noFF_def)

lemma byte_max: "(c :: byte) \<noteq> 0xFF \<Longrightarrow> c < 0xFF"
proof -
  assume "c \<noteq> 0xFF"
  moreover have "unat c < 256" by simp
  moreover have "unat (0xFF :: byte) = 255" by simp
  ultimately show ?thesis unfolding word_less_nat_alt word_unat_eq_iff by linarith
qed

lemma byte_zero_le [simp]: "\<not> (c :: byte) < 0" "0 < (c :: byte) \<longleftrightarrow> c \<noteq> 0"
  by (simp_all add: word_not_simps word_gt_0)

lemma cmp3_Cons: "cmp3 (x # xs) (y # ys) = (if x = y then cmp3 xs ys else cmp3 x y)"
  by (auto simp: cmp3_def)

lemma escaped_less:
  "noFF r \<Longrightarrow> noFF s \<Longrightarrow> escaped a @ r < escaped b @ s \<longleftrightarrow> a < b \<or> (a = b \<and> r < s)"
proof (induction a b rule: bytesCompare.induct)
  case (2 y ys)
  then show ?case by (cases r) (simp_all add: escaped_simps byte_max)
next
  case (3 x xs)
  have n: "\<not> (0xFF :: byte) < c" for c :: byte by (metis byte_max less_asym)
  with 3 show ?case by (cases s) (auto simp: escaped_simps)
next
  case (4 x xs y ys)
  show ?case
  proof (cases "x = y")
    case True
    have "escaped xs @ r < escaped ys @ s \<longleftrightarrow> xs < ys \<or> (xs = ys \<and> r < s)"
      using 4 True by (intro "4.IH") simp_all
    with True show ?thesis by (simp add: escaped_simps)
  qed (auto simp: escaped_simps)
qed (simp add: escaped_simps)

lemma escaped_cmp:
  "noFF r \<Longrightarrow> noFF s \<Longrightarrow> cmp3 (escaped a @ r) (escaped b @ s) = (if a = b then cmp3 r s else cmp3 a b)"
  using escaped_less [of r s a b] escaped_less [of s r b a] by (auto simp: cmp3_def)


text \<open>
  The invariant of the induction: an encoding decides the comparison unless the values are equal,
  whatever bytes follow, as long as those do not start with the escape byte \<open>0xFF\<close>.
\<close>

definition key_order :: "val \<Rightarrow> val \<Rightarrow> bool" where
  "key_order a b \<longleftrightarrow> (\<forall>r s. noFF r \<longrightarrow> noFF s \<longrightarrow>
     cmp3 (EncodeKey a @ r) (EncodeKey b @ s) = (if Compare a b = 0 then cmp3 r s else Compare a b))"

lemma EncodeKey_tag:
  obtains t bs where "EncodeKey a = t # bs" and "unat t = nat (kindRank (kind_of a) + 1)"
  by (cases a) (auto simp: EncodeKey_simps key_tags)

lemma kindRank_bounds: "0 \<le> kindRank k \<and> kindRank k \<le> 12"
  by (cases k) simp_all

lemma noFF_EncodeKey [simp]: "noFF (EncodeKey a @ r)"
proof -
  obtain t bs where t: "EncodeKey a = t # bs" "unat t = nat (kindRank (kind_of a) + 1)" by (rule EncodeKey_tag)
  have "t \<noteq> 0xFF"
  proof
    assume "t = 0xFF"
    then have "unat t = 255" by simp
    with t(2) kindRank_bounds [of "kind_of a"] show False by linarith
  qed
  with t(1) show ?thesis by simp
qed

lemma key_order_rank:
  assumes "kindRank (kind_of a) \<noteq> kindRank (kind_of b)"
  shows "key_order a b"
proof -
  obtain t bs where t: "EncodeKey a = t # bs" "unat t = nat (kindRank (kind_of a) + 1)" by (rule EncodeKey_tag)
  obtain u cs where u: "EncodeKey b = u # cs" "unat u = nat (kindRank (kind_of b) + 1)" by (rule EncodeKey_tag)
  have "cmp3 t u = cmp3 (kindRank (kind_of a)) (kindRank (kind_of b))" "t \<noteq> u"
    using t(2) u(2) assms kindRank_bounds [of "kind_of a"] kindRank_bounds [of "kind_of b"]
    by (auto simp: cmp3_def word_less_nat_alt)
  with assms Compare_rank [OF assms] show ?thesis
    unfolding key_order_def t(1) u(1) by (simp add: cmp3_Cons cmp_simps)
qed

lemma unat64_bound: "unat (u :: uint64) < 256 ^ 8"
  and unat32_bound: "unat (v :: uint32) < 256 ^ 4"
  and unat16_bound: "unat (w :: uint16) < 256 ^ 2"
  using unsigned_less [where 'a = nat, of u] unsigned_less [where 'a = nat, of v]
    unsigned_less [where 'a = nat, of w] by simp_all

lemma be64_cmp:
  "cmp3 (be_put 8 (unat u) @ r) (be_put 8 (unat w) @ s) = (if u = w then cmp3 r s else cmp3 u w)"
  for u w :: uint64
  unfolding be_put_append_cmp [OF unat64_bound unat64_bound]
  by (simp add: cmp3_def word_less_nat_alt word_unat_eq_iff)

subsection \<open>Numbers\<close>

fun num_parts :: "val \<Rightarrow> float64 \<times> uint16" where
  "num_parts (VInt i) = splitIntForKey i"
| "num_parts (VFloat f) = (canonicalFloat f, 0)"
| "num_parts v = (0, 0)"

lemma num_parts_bracket:
  assumes "kindRank (kind_of v) = 2" and "num_parts v = (l, off)"
  shows "canonicalFloat l = l" and "fl_ext l + int (unat off) * iscale = num_val v"
    and "fl_ext g \<le> num_val v \<Longrightarrow> fl_ext g \<le> fl_ext l"
proof -
  have all: "canonicalFloat l = l \<and> fl_ext l + int (unat off) * iscale = num_val v
      \<and> (fl_ext g \<le> num_val v \<longrightarrow> fl_ext g \<le> fl_ext l)"
  proof (cases v)
    case (VInt i)
    have ok: "split_ok i l off" using splitIntForKey_ok [of i] assms(2) VInt by simp
    have "\<not> IsNaN g" if "fl_ext g \<le> sint i * iscale"
      using that int_less_NaN [of g i] by auto
    with ok VInt show ?thesis unfolding split_ok_def by (auto simp: fl_ext_def)
  qed (use assms in auto)
  then show "canonicalFloat l = l" "fl_ext l + int (unat off) * iscale = num_val v"
    "fl_ext g \<le> num_val v \<Longrightarrow> fl_ext g \<le> fl_ext l" by blast+
qed

lemma num_val_less:
  assumes "kindRank (kind_of a) = 2" "num_parts a = (la, oa)" "kindRank (kind_of b) = 2" "num_parts b = (lb, ob)"
  shows "num_val a < num_val b \<longleftrightarrow> fl_ext la < fl_ext lb \<or> (fl_ext la = fl_ext lb \<and> unat oa < unat ob)"
proof -
  note pa = num_parts_bracket [OF assms(1,2)] and pb = num_parts_bracket [OF assms(3,4)]
  have nn: "0 \<le> int (unat oa) * iscale" "0 \<le> int (unat ob) * iscale" using iscale_pos by simp_all
  have lt: "num_val a < num_val b" if "fl_ext la < fl_ext lb"
  proof (rule ccontr)
    assume "\<not> num_val a < num_val b"
    then have "fl_ext lb \<le> num_val a" using pb(2) nn by linarith
    with pa(3) that show False by (meson linorder_not_less)
  qed
  have gt: "num_val b < num_val a" if "fl_ext lb < fl_ext la"
  proof (rule ccontr)
    assume "\<not> num_val b < num_val a"
    then have "fl_ext la \<le> num_val b" using pa(2) nn by linarith
    with pb(3) that show False by (meson linorder_not_less)
  qed
  have eq: "num_val a < num_val b \<longleftrightarrow> unat oa < unat ob" if "fl_ext la = fl_ext lb"
    using that iscale_pos unfolding pa(2) [symmetric] pb(2) [symmetric] by (simp del: of_nat_unat)
  show ?thesis using lt gt eq by (cases "fl_ext la" "fl_ext lb" rule: linorder_cases) auto
qed

lemma EncodeKey_number:
  "kindRank (kind_of v) = 2 \<Longrightarrow> EncodeKey v =
     keyNumber # be_put 8 (unat (orderedFloat (fst (num_parts v)))) @ be_put 2 (unat (snd (num_parts v)))"
  by (cases v) (simp_all add: EncodeKey_simps)

lemma key_order_number:
  assumes "kindRank (kind_of a) = 2" "kindRank (kind_of b) = 2"
  shows "key_order a b"
proof -
  obtain la oa lb ob where p: "num_parts a = (la, oa)" "num_parts b = (lb, ob)" by fastforce
  let ?fa = "unat (orderedFloat la)" and ?fb = "unat (orderedFloat lb)"
  have c: "cmp3 ?fa ?fb = cmp3 (fl_ext la) (fl_ext lb)" by (rule orderedFloat_cmp3)
  then have e: "?fa = ?fb \<longleftrightarrow> fl_ext la = fl_ext lb" by (metis cmp3_zero)
  have less: "num_val a < num_val b \<longleftrightarrow> fl_ext la < fl_ext lb \<or> (fl_ext la = fl_ext lb \<and> unat oa < unat ob)"
    "num_val b < num_val a \<longleftrightarrow> fl_ext lb < fl_ext la \<or> (fl_ext lb = fl_ext la \<and> unat ob < unat oa)"
    by (rule num_val_less [OF assms(1) p(1) assms(2) p(2)], rule num_val_less [OF assms(2) p(2) assms(1) p(1)])
  have bytes: "cmp3 (EncodeKey a @ r) (EncodeKey b @ s) =
      (if fl_ext la = fl_ext lb then if unat oa = unat ob then cmp3 r s else cmp3 (unat oa) (unat ob)
       else cmp3 (fl_ext la) (fl_ext lb))" for r s
    unfolding EncodeKey_number [OF assms(1)] EncodeKey_number [OF assms(2)] p fst_conv snd_conv
      append_Cons append_assoc cmp3_Cons be_put_append_cmp [OF unat64_bound unat64_bound]
      be_put_append_cmp [OF unat16_bound unat16_bound] e c by simp
  have "Compare a b = cmp3 (num_val a) (num_val b)"
    using assms by (simp add: Compare_number compareNumber_num_val)
  also have "\<dots> = (if fl_ext la = fl_ext lb then cmp3 (unat oa) (unat ob) else cmp3 (fl_ext la) (fl_ext lb))"
    unfolding cmp3_def less by auto
  finally show ?thesis unfolding key_order_def bytes by (auto simp: cmp_simps)
qed


subsection \<open>Paths\<close>

lemma comparePathsLoop_shift:
  "comparePathsLoop n (Suc i) (x # an) ae (y # bn) be = comparePathsLoop n i an (tl ae) bn (tl be)"
proof (induction n arbitrary: i)
  case (Suc n)
  then show ?case by (cases ae; cases be) (simp_all add: Let_def)
qed (simp add: cmpInt_def)

lemma comparePaths_simps:
  "comparePaths [] ae bn be = (if bn = [] then 0 else -1)"
  "comparePaths an ae [] be = (if an = [] then 0 else 1)"
  "comparePaths (x # an) ae (y # bn) be =
     (if x \<noteq> y then cmp3 x y
      else if (ae = []) \<noteq> (be = []) then (if ae = [] then -1 else 1)
      else if ae \<noteq> [] \<and> hd ae \<noteq> hd be then cmp3 (hd ae) (hd be)
      else comparePaths an (tl ae) bn (tl be))"
  unfolding comparePaths_def
  by (cases ae; cases be; simp add: cmpInt_def comparePathsLoop_shift Let_def cmpUint64_cmp3 cmp_simps)+

lemma path_bytes_cmp:
  assumes "wf_val (VPath ns es)" and "wf_val (VPath ms fs)"
  shows "cmp3 (path_bytes ns es @ r) (path_bytes ms fs @ s) =
    (if comparePaths ns es ms fs = 0 then cmp3 r s else comparePaths ns es ms fs)"
  using assms
proof (induction ns arbitrary: es ms fs)
  case Nil
  then show ?case by (cases ms; cases fs) (auto simp: comparePaths_simps cmp3_Cons cmp3_def)
next
  case (Cons n ns)
  show ?case
  proof (cases ms)
    case Nil
    with Cons.prems show ?thesis by (cases es) (auto simp: comparePaths_simps cmp3_Cons cmp3_def)
  next
    case (Cons m ms')
    show ?thesis
    proof (cases es; cases fs)
      fix e es' f fs' assume c: "es = e # es'" "fs = f # fs'"
      then have "wf_val (VPath ns es')" "wf_val (VPath ms' fs')"
        using Cons.prems Cons by auto
      with c Cons Cons.IH show ?thesis
        by (simp add: comparePaths_simps cmp3_Cons be64_cmp cmp_simps)
    qed (use Cons Cons.prems in \<open>auto simp: comparePaths_simps cmp3_Cons be64_cmp cmp_simps cmp3_def [of "_ :: byte"]\<close>)
  qed
qed

subsection \<open>Lists, maps and the whole order\<close>

lemma EncodeKey_cmp_zero:
  "cmp3 (EncodeKey a @ r) (0x00 # s) = 1" "cmp3 (0x00 # s) (EncodeKey a @ r) = -1"
proof -
  obtain t bs where t: "EncodeKey a = t # bs" "unat t = nat (kindRank (kind_of a) + 1)" by (rule EncodeKey_tag)
  then have "t \<noteq> 0" using kindRank_bounds [of "kind_of a"] by auto
  with t(1) show "cmp3 (EncodeKey a @ r) (0x00 # s) = 1" "cmp3 (0x00 # s) (EncodeKey a @ r) = -1"
    by (simp_all add: cmp3_Cons cmp3_def)
qed

lemma noFF_concat: "noFF (concat (map EncodeKey xs) @ 0x00 # r)"
  by (cases xs) simp_all

lemma list_key_order:
  assumes "\<And>x y. x \<in> set xs \<Longrightarrow> y \<in> set ys \<Longrightarrow> key_order x y"
  shows "cmp3 (concat (map EncodeKey xs) @ 0x00 # r) (concat (map EncodeKey ys) @ 0x00 # s) =
    (if compareLists xs ys = 0 then cmp3 r s else compareLists xs ys)"
  using assms
proof (induction xs ys rule: list_induct2')
  case (4 x xs y ys)
  have "key_order x y" using 4 by simp
  moreover have "cmp3 (concat (map EncodeKey xs) @ 0x00 # r) (concat (map EncodeKey ys) @ 0x00 # s) =
    (if compareLists xs ys = 0 then cmp3 r s else compareLists xs ys)" using 4 by simp
  ultimately show ?case by (simp add: key_order_def noFF_concat Let_def)
qed (simp_all add: cmpInt_def EncodeKey_cmp_zero cmp3_Cons)

lemma noFF_concat_map:
  "noFF (concat (map (\<lambda>e. EncodeKey (VString (fst e)) @ EncodeKey (snd e)) kvs) @ 0x00 # r)"
  by (cases kvs) simp_all

lemma key_order_string: "key_order (VString a) (VString b)"
  by (simp add: key_order_def EncodeKey_simps Compare_same cmp3_Cons escaped_cmp cmp_simps)

lemma key_order_null: "key_order VNull VNull"
  by (simp add: key_order_def EncodeKey_simps Compare_same cmp3_Cons)

lemma map_key_order:
  assumes "\<And>x y. x \<in> set xs \<Longrightarrow> y \<in> set ys \<Longrightarrow> key_order (snd x) (snd y)"
  shows "cmp3 (concat (map (\<lambda>e. EncodeKey (VString (fst e)) @ EncodeKey (snd e)) xs) @ 0x00 # r)
      (concat (map (\<lambda>e. EncodeKey (VString (fst e)) @ EncodeKey (snd e)) ys) @ 0x00 # s) =
    (if compareMaps xs ys = 0 then cmp3 r s else compareMaps xs ys)"
  using assms
proof (induction xs ys rule: list_induct2')
  case (4 x xs y ys)
  let ?enc = "\<lambda>kvs. concat (map (\<lambda>e. EncodeKey (VString (fst e)) @ EncodeKey (snd e)) kvs)"
  have "key_order (snd x) (snd y)" using 4 by simp
  moreover have "cmp3 (?enc xs @ 0x00 # r) (?enc ys @ 0x00 # s) =
    (if compareMaps xs ys = 0 then cmp3 r s else compareMaps xs ys)" using 4 by simp
  ultimately show ?case
    using key_order_string [of "fst x" "fst y"]
    by (simp add: key_order_def noFF_concat_map Let_def Compare_same cmpString_cmp3)
qed (simp_all add: cmpInt_def EncodeKey_cmp_zero cmp3_Cons)

lemma ucast_date:
  assumes "- (2 ^ 31) \<le> sint (d :: int64)" and "sint d < 2 ^ 31"
  shows "sint (ucast d :: int32) = sint d"
proof -
  have "(ucast d :: int32) = word_of_int (sint d)"
    unfolding ucast_eq by (rule bit_word_eqI) (simp add: bit_simps)
  moreover have "- (2 ^ 31) \<le> x \<Longrightarrow> x < 2 ^ 31 \<Longrightarrow> sint (word_of_int x :: int32) = x" for x
    by (simp add: int_word_sint)
  ultimately show ?thesis using assms by (simp only:)
qed


lemma key_order_scalar:
  "key_order (VBytes p) (VBytes q)" "key_order (VBool bx) (VBool b2)"
  "key_order (VNode u) (VNode w)" "key_order (VEdge u) (VEdge w)"
  "key_order (VDateTime n z) (VDateTime m y)"
  "key_order (VDuration mo da na) (VDuration mo' da' na')"
  "wf_val (VDate d) \<Longrightarrow> wf_val (VDate e) \<Longrightarrow> key_order (VDate d) (VDate e)"
  unfolding key_order_def EncodeKey_simps Compare_same append_Cons append_assoc cmp3_Cons
    flip_append_cmp be64_cmp flip_cmp flip_eq
  by (simp_all add: escaped_cmp cmp_simps ucast_date)
    (auto simp: cmp3_Cons flip_append_cmp flip_cmp flip_eq cmp_simps cmp3_def [of "_ :: byte"]
      cmp3_def [of "_ :: bool"] split: option.splits)

lemma key_order_wf: "wf_val a \<Longrightarrow> wf_val b \<Longrightarrow> key_order a b"
proof (induction a arbitrary: b rule: measure_induct_rule [where f = size])
  case (less a)
  show ?case
  proof (cases "kindRank (kind_of a) = kindRank (kind_of b)")
    case False
    then show ?thesis by (rule key_order_rank)
  next
    case same: True
    show ?thesis
    proof (cases a)
      case (VList xs)
      with same obtain ys where b: "b = VList ys" by (cases b) auto
      have "key_order x y" if "x \<in> set xs" "y \<in> set ys" for x y
        using less.IH [of x y] less.prems that val_size_list [of x xs] unfolding VList b by simp
      from list_key_order [OF this] show ?thesis
        unfolding key_order_def VList b EncodeKey_simps Compare_same append_Cons append_assoc append_Nil
        by (simp add: cmp3_Cons)
    next
      case (VMap xs)
      with same obtain ys where b: "b = VMap ys" by (cases b) auto
      have "key_order (snd x) (snd y)" if "x \<in> set xs" "y \<in> set ys" for x y
        using less.IH [of "snd x" "snd y"] less.prems that val_size_map [of x xs] unfolding VMap b by simp
      from map_key_order [OF this] show ?thesis
        unfolding key_order_def VMap b EncodeKey_simps(11) Compare_same append_Cons append_assoc append_Nil
        by (simp add: cmp3_Cons)
    next
      case (VPath ns es)
      with same obtain ms fs where b: "b = VPath ms fs" by (cases b) auto
      show ?thesis
        using less.prems unfolding key_order_def VPath b EncodeKey_simps Compare_same append_Cons
        by (simp add: cmp3_Cons path_bytes_cmp del: wf_val.simps)
    next
      case (VInt i)
      with same show ?thesis by (intro key_order_number) simp_all
    next
      case (VFloat f)
      with same show ?thesis by (intro key_order_number) simp_all
    qed (use same less.prems in \<open>cases b; simp add: key_order_scalar key_order_string key_order_null del: wf_val.simps\<close>)+
  qed
qed

lemma Compare_EncodeKey:
  "wf_val a \<Longrightarrow> wf_val b \<Longrightarrow> Compare a b = cmp3 (EncodeKey a) (EncodeKey b)"
proof -
  assume "wf_val a" "wf_val b"
  then have "cmp3 (EncodeKey a @ []) (EncodeKey b @ []) = (if Compare a b = 0 then cmp3 [] ([] :: bytes) else Compare a b)"
    using key_order_wf [of a b] unfolding key_order_def by (simp only: noFF_simps(1) simp_thms)
  then show ?thesis by (simp split: if_splits)
qed

section \<open>Decoding what was encoded\<close>

text \<open>The canonical form a value takes when it goes through a key: exact integral floats become integers.\<close>

fun canon_val :: "val \<Rightarrow> val" where
  "canon_val (VFloat f) =
     (if IsNaN f then VFloat fl_NaN
      else case floatIsExactInt64 f of Some i \<Rightarrow> VInt i | None \<Rightarrow> VFloat f)"
| "canon_val (VList xs) = VList (map canon_val xs)"
| "canon_val (VMap kvs) = VMap (map (\<lambda>e. (fst e, canon_val (snd e))) kvs)"
| "canon_val v = v"

lemma decodeEscapedLoop_escaped:
  "noFF r \<Longrightarrow> decodeEscapedLoop out (escaped s @ r) = Inr (out @ s, r)"
proof (induction s arbitrary: out)
  case Nil
  then show ?case by (cases r) (simp_all add: escaped_simps)
qed (simp add: escaped_simps)

lemma decodeEscaped_escaped [codec_simps]: "noFF r \<Longrightarrow> decodeEscaped (escaped s @ r) = Inr (s, r)"
  by (simp add: decodeEscaped_def decodeEscapedLoop_escaped)

lemma decodeSignFlip_append [codec_simps]:
  "decodeSignFlip64 (be_put 8 (flip64 n) @ r) = Inr (n, r)"
  "decodeSignFlip32 (be_put 4 (flip32 m) @ r) = Inr (m, r)"
  unfolding decodeSignFlip64_def decodeSignFlip32_def
  by (simp_all add: be_get_be_put mod_less [OF flip_less(1), simplified] mod_less [OF flip_less(2), simplified])
    (simp_all add: flip64_def flip32_def xor.assoc)

lemma decodeU64_append [codec_simps]: "decodeU64 (be_put 8 (unat u) @ r) = Inr (u, r)"
  using unat64_bound [of u] by (simp add: decodeU64_def be_get_be_put)

lemma decodeNumber_append:
  fixes off :: uint16
  shows "decodeNumber (be_put 8 (unat (orderedFloat l)) @ be_put 2 (unat off) @ r) =
     (let f = canonicalFloat l in
      if off = 0 then
        (if IsNaN f then Inr (VFloat fl_NaN, r)
         else case floatIsExactInt64 f of Some i \<Rightarrow> Inr (VInt i, r) | None \<Rightarrow> Inr (VFloat f, r))
      else case floatIsExactInt64 f of
        None \<Rightarrow> Inl (Err ''value: invalid number key'')
      | Some li \<Rightarrow> Inr (VInt (li + ucast off), r))"
proof -
  have "be_get (be_put 8 (unat (orderedFloat l))) = unat (orderedFloat l)" "be_get (be_put 2 (unat off)) = unat off"
    unfolding be_get_be_put mod_less [OF unat64_bound] mod_less [OF unat16_bound] by (rule refl)+
  then show ?thesis
    by (simp add: decodeNumber_def Let_def unorderedFloat_orderedFloat split: option.split)
qed

lemma decodeNumber_EncodeKey:
  assumes "kindRank (kind_of v) = 2"
  shows "decodeNumber (tl (EncodeKey v) @ r) = Inr (canon_val v, r)"
proof (cases v)
  case (VInt i)
  obtain l off where p: "splitIntForKey i = (l, off)" by fastforce
  then have ok: "split_ok i l off" using splitIntForKey_ok [of i] by simp
  then obtain li where li: "floatIsExactInt64 l = Some li" unfolding split_ok_def by blast
  then have v: "fl_val l = sint li * iscale" by (simp add: floatIsExactInt64_iff)
  have "(sint li + int (unat off)) * iscale = sint i * iscale"
    using ok v unfolding split_ok_def by (simp add: distrib_right)
  then have s: "sint li + int (unat off) = sint i" using iscale_pos by simp
  have "li + ucast off = word_of_int (sint li + int (unat off))"
    by (simp only: wi_hom_add [symmetric] ucast_eq of_nat_unat) simp
  then have sum: "li + ucast off = i" unfolding s by simp
  then have "li = i" if "off = 0" using that by simp
  moreover have "canonicalFloat l = l" "\<not> IsNaN l" using ok unfolding split_ok_def by blast+
  ultimately show ?thesis
    unfolding VInt EncodeKey_simps list.sel append_assoc decodeNumber_append Let_def p fst_conv snd_conv
    using li sum by simp
next
  case (VFloat f)
  have "unat (0 :: uint16) = 0" by simp
  then have "decodeNumber (tl (EncodeKey v) @ r) =
     (if IsNaN f then Inr (VFloat fl_NaN, r)
      else case floatIsExactInt64 (canonicalFloat f) of Some i \<Rightarrow> Inr (VInt i, r) | None \<Rightarrow> Inr (VFloat (canonicalFloat f), r))"
    unfolding VFloat EncodeKey_simps list.sel append_assoc
    using decodeNumber_append [of "canonicalFloat f" 0 r] by (simp add: Let_def)
  moreover have "floatIsExactInt64 (canonicalFloat f) = floatIsExactInt64 f" if "\<not> IsNaN f"
    using that by (metis canonicalFloat_NaN canonicalFloat_val floatIsExactInt64_iff not_None_eq)
  moreover have "canonicalFloat f = f" if "\<not> IsNaN f" "floatIsExactInt64 f = None"
  proof -
    have "floatIsExactInt64 f \<noteq> Some 0" using that(2) by simp
    then have "fl_val f \<noteq> 0" using that(1) by (simp add: floatIsExactInt64_iff)
    then show ?thesis using that(1) by (simp add: canonicalFloat_def fl_eq_zero_iff)
  qed
  ultimately show ?thesis unfolding VFloat by (auto split: option.splits)
qed (use assms in auto)

lemma decodePath_bytes:
  "wf_val (VPath (ns0 @ ns) (es0 @ es)) \<Longrightarrow> length es0 = length ns0 \<Longrightarrow>
     decodePath ns0 es0 True (path_bytes ns es @ r) = 
       (if ns = [] \<and> ns0 \<noteq> [] then Inl (Err ''value: path ended on an edge'') else Inr (VPath (ns0 @ ns) (es0 @ es), r))"
proof (induction ns es arbitrary: ns0 es0 rule: path_bytes.induct)
  case (1 es)
  then show ?case by (auto simp: PathOf_def)
next
  case (2 n ns)
  then have "ns = []" by (cases ns) auto
  with 2 show ?case using PathOf_ok [of "ns0 @ [n]" es0] by (simp add: decodeU64_append)
next
  case (3 n ns e es)
  have "ns \<noteq> []" using 3 by auto
  then show ?case using 3 "3.IH" [of "ns0 @ [n]" "es0 @ [e]"] by (simp add: decodeU64_append)
qed


lemma EncodeKey_nonempty [simp]: "EncodeKey v \<noteq> []"
  by (rule EncodeKey_tag [of v]) simp

lemma hd_EncodeKey: "hd (EncodeKey v @ r) \<noteq> 0"
proof -
  obtain t bs where t: "EncodeKey v = t # bs" "unat t = nat (kindRank (kind_of v) + 1)" by (rule EncodeKey_tag)
  then show ?thesis using kindRank_bounds [of "kind_of v"] by auto
qed

definition key_roundtrip :: "val \<Rightarrow> bool" where
  "key_roundtrip v \<longleftrightarrow> (\<forall>n r. noFF r \<longrightarrow> 2 * length (EncodeKey v) + 1 \<le> n \<longrightarrow>
     decodeKey n (EncodeKey v @ r) = Inr (canon_val v, r))"

lemma key_roundtripD:
  "key_roundtrip v \<Longrightarrow> noFF r \<Longrightarrow> 2 * length (EncodeKey v) + 1 \<le> n \<Longrightarrow>
     decodeKey n (EncodeKey v @ r) = Inr (canon_val v, r)"
  by (simp add: key_roundtrip_def)

lemma length_EncodeKey_pos: "1 \<le> length (EncodeKey v)"
  by (simp add: Suc_le_eq)

lemma decodeList_append:
  assumes "\<And>x. x \<in> set xs \<Longrightarrow> key_roundtrip x" and "2 * length (concat (map EncodeKey xs)) + 3 \<le> n"
  shows "decodeList n acc (concat (map EncodeKey xs) @ 0x00 # r) = Inr (VList (acc @ map canon_val xs), r)"
  using assms
proof (induction xs arbitrary: n acc)
  case Nil
  then show ?case by (cases n) simp_all
next
  case (Cons x xs)
  obtain m where n: "n = Suc m" using Cons.prems(2) by (cases n) auto
  have "decodeKey m (EncodeKey x @ concat (map EncodeKey xs) @ 0x00 # r) =
      Inr (canon_val x, concat (map EncodeKey xs) @ 0x00 # r)"
    using Cons.prems n by (intro key_roundtripD) (simp_all add: noFF_concat)
  moreover have "decodeList m (acc @ [canon_val x]) (concat (map EncodeKey xs) @ 0x00 # r)
      = Inr (VList ((acc @ [canon_val x]) @ map canon_val xs), r)"
    using Cons.prems n length_EncodeKey_pos [of x] by (intro Cons.IH) simp_all
  ultimately show ?case unfolding n by (simp add: hd_EncodeKey [simplified])
qed

lemma AList_update_new: "s \<notin> fst ` set m \<Longrightarrow> AList.update s v m = m @ [(s, v)]"
  by (induction m) auto

lemma key_roundtrip_string: "key_roundtrip (VString s)"
  unfolding key_roundtrip_def
proof (intro allI impI)
  fix n r assume "noFF r" "2 * length (EncodeKey (VString s)) + 1 \<le> n"
  then show "decodeKey n (EncodeKey (VString s) @ r) = Inr (canon_val (VString s), r)"
    by (cases n) (simp_all add: EncodeKey_simps key_tags decodeEscaped_escaped)
qed

lemma decodeMap_append:
  assumes "\<And>e. e \<in> set kvs \<Longrightarrow> key_roundtrip (snd e)"
    and "2 * length (concat (map (\<lambda>e. EncodeKey (VString (fst e)) @ EncodeKey (snd e)) kvs)) + 3 \<le> n"
    and "sorted_wrt (<) (map fst m @ map fst kvs)"
    and "prev = (if m = [] then None else Some (fst (last m)))"
  shows "decodeMap n m prev (concat (map (\<lambda>e. EncodeKey (VString (fst e)) @ EncodeKey (snd e)) kvs) @ 0x00 # r)
    = Inr (VMap (m @ map (\<lambda>e. (fst e, canon_val (snd e))) kvs), r)"
  using assms
proof (induction kvs arbitrary: n m prev)
  case Nil
  have "sortKVs m = m" using Nil.prems(3) by (intro sortKVs_unique) simp_all
  with Nil show ?case by (cases n) (simp_all add: Map_v_def)
next
  case (Cons e kvs)
  obtain k where n: "n = Suc k" using Cons.prems(2) by (cases n) auto
  let ?rest = "concat (map (\<lambda>e. EncodeKey (VString (fst e)) @ EncodeKey (snd e)) kvs) @ 0x00 # r"
  have 1: "decodeKey k (EncodeKey (VString (fst e)) @ EncodeKey (snd e) @ ?rest) =
      Inr (VString (fst e), EncodeKey (snd e) @ ?rest)"
    using Cons.prems(2) n key_roundtripD [OF key_roundtrip_string [of "fst e"]] by simp
  have 2: "decodeKey k (EncodeKey (snd e) @ ?rest) = Inr (canon_val (snd e), ?rest)"
    using Cons.prems n by (intro key_roundtripD) (simp_all add: noFF_concat_map)
  have new: "AList.update (fst e) (canon_val (snd e)) m = m @ [(fst e, canon_val (snd e))]"
    using Cons.prems(3) by (intro AList_update_new) (auto simp: sorted_wrt_append)
  have ord: "\<not> (case prev of None \<Rightarrow> False | Some p \<Rightarrow> fst e < p)"
    using Cons.prems(3,4) last_in_set [of m] by (auto simp: sorted_wrt_append dest: less_asym)
  have "decodeMap k (m @ [(fst e, canon_val (snd e))]) (Some (fst e)) ?rest
      = Inr (VMap ((m @ [(fst e, canon_val (snd e))]) @ map (\<lambda>e. (fst e, canon_val (snd e))) kvs), r)"
    using Cons.prems n length_EncodeKey_pos [of "snd e"] by (intro Cons.IH) simp_all
  with 1 2 new ord show ?case unfolding n
    by (simp add: hd_EncodeKey [simplified] StringValue_def)
qed


lemma decodeKey_number: "decodeKey (Suc n) ((keyNumber # bs) @ r) = decodeNumber (bs @ r)"
  by (simp add: key_tags)

lemma decodeKey_scalar:
  assumes "noFF r" and "wf_val v" and "kind_of v \<notin> {KindList, KindMap}"
  shows "decodeKey (Suc n) (EncodeKey v @ r) = Inr (canon_val v, r)"
proof (cases v)
  case (VInt i)
  then have "EncodeKey v = keyNumber # tl (EncodeKey v)" by (simp add: EncodeKey_simps)
  moreover have "decodeNumber (tl (EncodeKey v) @ r) = Inr (canon_val v, r)"
    using VInt by (intro decodeNumber_EncodeKey) simp
  ultimately show ?thesis by (metis decodeKey_number)
next
  case (VFloat f)
  then have "EncodeKey v = keyNumber # tl (EncodeKey v)" by (simp add: EncodeKey_simps)
  moreover have "decodeNumber (tl (EncodeKey v) @ r) = Inr (canon_val v, r)"
    using VFloat by (intro decodeNumber_EncodeKey) simp
  ultimately show ?thesis by (metis decodeKey_number)
next
  case (VDate d)
  with assms(2) have "sint (ucast d :: int32) = sint d" by (simp add: ucast_date)
  then have "(scast (ucast d :: int32) :: int64) = d" by (simp add: scast_eq)
  with VDate show ?thesis by (simp add: EncodeKey_simps key_tags decodeSignFlip_append)
next
  case (VPath ns es)
  with assms decodePath_bytes [of "[]" ns "[]" es r] show ?thesis
    by (simp add: EncodeKey_simps key_tags del: wf_val.simps)
qed (use assms in \<open>auto simp: EncodeKey_simps key_tags codec_simps decodeDateTime_def decodeDuration_def split: option.split\<close>)


lemma key_roundtrip_wf: "wf_val v \<Longrightarrow> key_roundtrip v"
proof (induction v rule: measure_induct_rule [where f = size])
  case (less v)
  show ?case unfolding key_roundtrip_def
  proof (intro allI impI)
    fix n r assume r: "noFF r" and n: "2 * length (EncodeKey v) + 1 \<le> n"
    then obtain m where m: "n = Suc m" by (cases n) auto
    show "decodeKey n (EncodeKey v @ r) = Inr (canon_val v, r)"
    proof (cases v)
      case (VList xs)
      have "key_roundtrip x" if "x \<in> set xs" for x
        using less.IH [of x] less.prems that val_size_list [of x xs] unfolding VList by simp
      then have "decodeList m [] (concat (map EncodeKey xs) @ 0x00 # r) = Inr (VList ([] @ map canon_val xs), r)"
        using n m unfolding VList by (intro decodeList_append) (simp_all add: EncodeKey_simps)
      then show ?thesis unfolding VList m by (simp add: EncodeKey_simps key_tags)
    next
      case (VMap kvs)
      have "key_roundtrip (snd e)" if "e \<in> set kvs" for e
        using less.IH [of "snd e"] less.prems that val_size_map [of e kvs] unfolding VMap by simp
      then have "decodeMap m [] None (concat (map (\<lambda>e. EncodeKey (VString (fst e)) @ EncodeKey (snd e)) kvs) @ 0x00 # r)
          = Inr (VMap ([] @ map (\<lambda>e. (fst e, canon_val (snd e))) kvs), r)"
        using n m less.prems unfolding VMap
        by (intro decodeMap_append) (simp_all only: EncodeKey_simps(11), simp_all)
      then show ?thesis unfolding VMap m EncodeKey_simps(11) by (simp add: key_tags)
    qed (use less.prems r m in \<open>simp_all add: decodeKey_scalar del: decodeKey.simps\<close>)
  qed
qed

lemma EncodeKey_eq_iff: "wf_val a \<Longrightarrow> wf_val b \<Longrightarrow> EncodeKey a = EncodeKey b \<longleftrightarrow> Equal a b"
  by (simp add: Equal_def Compare_EncodeKey cmp_simps)

lemma canon_float_key: "EncodeKey (canon_val (VFloat f)) = EncodeKey (VFloat f)"
proof -
  have "Equal (canon_val (VFloat f)) (VFloat f)"
    unfolding Equal_def
    by (cases "IsNaN f")
      (auto simp: Compare_number compareNumber_num_val compareFloat_cmp3 cmp_simps fl_ext_def floatIsExactInt64_iff
        split: option.split)
  then show ?thesis by (subst EncodeKey_eq_iff) (auto split: option.split)
qed

lemma canon_val_key: "EncodeKey (canon_val v) = EncodeKey v"
proof (induction v rule: measure_induct_rule [where f = size])
  case (less v)
  show ?case
  proof (cases v)
    case (VList xs)
    have "map (EncodeKey \<circ> canon_val) xs = map EncodeKey xs"
      using less val_size_list [of _ xs] unfolding VList by simp
    then show ?thesis unfolding VList canon_val.simps EncodeKey_simps map_map by (simp only:)
  next
    case (VMap kvs)
    have "EncodeKey (canon_val (snd e)) = EncodeKey (snd e)" if "e \<in> set kvs" for e
      using less val_size_map [OF that] unfolding VMap by simp
    then show ?thesis unfolding VMap canon_val.simps EncodeKey_simps(11) by (simp add: o_def cong: map_cong)
  qed (simp_all only: canon_float_key canon_val.simps(4-))
qed

lemma canon_val_wf: "wf_val v \<Longrightarrow> wf_val (canon_val v)"
  by (induction v rule: canon_val.induct) (auto simp: o_def split: option.split)

section \<open>Decoding any input\<close>

text \<open>Decoding never runs out of fuel, consumes input, and only builds well-formed values.\<close>

definition decoded :: "bytes \<Rightarrow> (val \<times> bytes) result \<Rightarrow> bool" where
  "decoded b res \<longleftrightarrow> (case res of Inl e \<Rightarrow> e \<noteq> OutOfFuel \<and> (\<forall>p. e \<noteq> Panic p)
     | Inr (v, rest) \<Rightarrow> wf_val v \<and> length rest < length b)"

lemma decoded_simps [simp]:
  "decoded b (Inl e) \<longleftrightarrow> e \<noteq> OutOfFuel \<and> (\<forall>p. e \<noteq> Panic p)"
  "decoded b (Inr (v, rest)) \<longleftrightarrow> wf_val v \<and> length rest < length b"
  "decoded b truncated"
  by (simp_all add: decoded_def truncated_def)

lemma AList_update_set: "e \<in> set (AList.update k v m) \<Longrightarrow> e = (k, v) \<or> e \<in> set m"
  by (induction m) (auto split: if_splits)

lemma decodeEscapedLoop_length:
  "decodeEscapedLoop out b = Inr (s, rest) \<Longrightarrow> length rest < length b"
proof (induction out b rule: decodeEscapedLoop.induct)
  case (2 out c b)
  then show ?case by (cases b) (force split: if_splits)+
qed (simp add: truncated_def)

lemma decodeEscapedLoop_error:
  "decodeEscapedLoop out b = Inl e \<Longrightarrow> e = Err ''value: truncated key''"
proof (induction out b rule: decodeEscapedLoop.induct)
  case (2 out c b)
  then show ?case by (cases b) (force split: if_splits)+
qed (simp add: truncated_def)

lemma decoded_escaped:
  "decoded (c # b) (bind_res (decodeEscaped b) (\<lambda>(s, rest). Inr (VString s, rest)))"
  "decoded (c # b) (bind_res (decodeEscaped b) (\<lambda>(s, rest). Inr (VBytes s, rest)))"
  using decodeEscapedLoop_length [of "[]" b] decodeEscapedLoop_error [of "[]" b]
  by (cases "decodeEscapedLoop [] b"; force simp: decoded_def decodeEscaped_def)+

lemma scast_date: "wf_val (VDate (scast (n :: int32)))"
proof -
  have "sint (scast n :: int64) = sint n"
    using sint_range_size [of n] unfolding scast_eq by (intro sint64_of_int) (simp_all add: word_size)
  then show ?thesis using sint_range_size [of n] by (simp add: word_size)
qed

lemma decoded_fixed:
  "decoded (c # b) (bind_res (decodeSignFlip32 b) (\<lambda>(n, rest). Inr (VDate (scast n), rest)))"
  "decoded (c # b) (bind_res (decodeU64 b) (\<lambda>(id, rest). Inr (VNode id, rest)))"
  "decoded (c # b) (bind_res (decodeU64 b) (\<lambda>(id, rest). Inr (VEdge id, rest)))"
  "decoded (c # b) (decodeNumber b)"
  "decoded (c # b) (decodeDuration b)"
  using scast_date
  by (auto simp: decoded_def decodeNumber_def decodeDuration_def truncated_def Let_def
      decodeSignFlip64_def decodeSignFlip32_def decodeU64_def split: option.split simp del: wf_val.simps(1))

lemma decoded_DateTime: "decoded (c # b) (decodeDateTime b)"
proof (cases "drop 8 b")
  case Nil
  then show ?thesis by (auto simp: decoded_def decodeDateTime_def truncated_def decodeSignFlip64_def)
next
  case (Cons f b')
  then have "length b' < length b" by (metis length_drop length_Cons lessI less_le_trans diff_le_self)
  with Cons show ?thesis
    by (auto simp: decoded_def decodeDateTime_def truncated_def decodeSignFlip64_def decodeSignFlip32_def)
qed

lemma decoded_weaken: "decoded b' r \<Longrightarrow> length b' \<le> length b \<Longrightarrow> decoded b r"
  by (auto simp: decoded_def split: sum.splits)

lemma decoded_PathOf: "decoded (c # b) (bind_res (PathOf ns es) (\<lambda>p. Inr (p, b)))"
  by (auto simp: PathOf_def decoded_def)

lemma decodePath_decoded: "decoded b (decodePath ns es x b)"
proof (induction ns es x b rule: decodePath.induct)
  case (2 ns es x c b)
  have u: "(\<exists>id. decodeU64 b = Inr (id, drop 8 b)) \<or> decodeU64 b = truncated"
    by (simp add: decodeU64_def)
  have t: "decoded (c # b) truncated" by (simp add: decoded_def truncated_def)
  consider "c = 0" | "c = 1" "x" | "c = 2" "\<not> x" | "c = 1" "\<not> x" | "c = 2" "x" | "c \<notin> {0, 1, 2}" by blast
  then show ?case
  proof cases
    case 1
    then show ?thesis using decoded_PathOf [of c b ns es] by (simp add: decoded_def)
  next
    case 2
    note IH = "2.IH"(1) [OF _ 2(1) _ _ refl]
    from u show ?thesis
    proof
      assume "\<exists>id. decodeU64 b = Inr (id, drop 8 b)"
      then obtain id where d: "decodeU64 b = Inr (id, drop 8 b)" ..
      have "decoded (drop 8 b) (decodePath (ns @ [id]) es False (drop 8 b))"
        by (rule IH) (use 2 d in simp_all)
      with 2 d show ?thesis by (auto intro: decoded_weaken)
    qed (use 2 t in \<open>simp add: truncated_def\<close>)
  next
    case 3
    note IH = "2.IH"(2) [OF _ _ 3(1) _ _ refl]
    from u show ?thesis
    proof
      assume "\<exists>id. decodeU64 b = Inr (id, drop 8 b)"
      then obtain id where d: "decodeU64 b = Inr (id, drop 8 b)" ..
      have "decoded (drop 8 b) (decodePath ns (es @ [id]) True (drop 8 b))"
        by (rule IH) (use 3 d in simp_all)
      with 3 d show ?thesis by (auto intro: decoded_weaken)
    qed (use 3 t in \<open>simp add: truncated_def\<close>)
  qed (simp_all add: decoded_def)
qed (simp add: decoded_def truncated_def)

lemma decoded_Cons: "decoded b r \<Longrightarrow> decoded (c # b) r"
  by (erule decoded_weaken) simp

lemma decodeKey_decoded:
  assumes "decoded b (decodeList n [] b)" and "decoded b (decodeMap n [] None b)"
  shows "decoded (c # b) (decodeKey (Suc n) (c # b))"
proof -
  have "decoded (c # b) (case b of [] \<Rightarrow> truncated | d # b' \<Rightarrow>
      if d = 0 then Inr (VBool False, b') else if d = 1 then Inr (VBool True, b')
      else Inl (Err ''value: invalid bool key''))" "decoded (c # b) (Inr (VNull, b))"
    "decoded (c # b) (Inl (ErrNum ''value: unknown key tag'' (unat c)))"
    by (auto simp: decoded_def truncated_def split: list.split)
  then show ?thesis
    using assms [THEN decoded_Cons] decodePath_decoded [THEN decoded_Cons] decoded_fixed decoded_escaped decoded_DateTime
    unfolding decodeKey.simps list.case by presburger
qed

lemma decodeList_decoded:
  assumes "decoded b (decodeKey n b)" and "\<forall>x \<in> set elems. wf_val x"
    and "\<And>el rest. wf_val el \<Longrightarrow> length rest < length b \<Longrightarrow> decoded rest (decodeList n (elems @ [el]) rest)"
  shows "decoded b (decodeList (Suc n) elems b)"
proof (cases "decodeKey n b")
  case (Inl e)
  with assms show ?thesis by (auto simp: decoded_def truncated_def)
next
  case (Inr p)
  obtain el rest where p: "p = (el, rest)" by fastforce
  with Inr assms(1) have "wf_val el" "length rest < length b" by (simp_all add: decoded_def)
  with assms(3) have "decoded b (decodeList n (elems @ [el]) rest)" by (meson decoded_weaken less_imp_le)
  with Inr p assms(2) show ?thesis
    by simp
qed

lemma decodeMap_decoded:
  assumes key: "\<And>b'. length b' \<le> length b \<Longrightarrow> decoded b' (decodeKey n b')"
    and m: "distinct (map fst m)" "\<forall>e \<in> set m. wf_val (snd e)"
    and IH: "\<And>s v rest. wf_val v \<Longrightarrow> length rest < length b \<Longrightarrow> decoded rest (decodeMap n (AList.update s v m) (Some s) rest)"
  shows "decoded b (decodeMap (Suc n) m prev b)"
proof (cases "decodeKey n b")
  case (Inl e)
  with key [of b] m Map_v_wf [of m] show ?thesis by (auto simp: decoded_def truncated_def)
next
  case (Inr p)
  obtain k rest where p: "p = (k, rest)" by fastforce
  with Inr key [of b] have r: "length rest < length b" by (simp add: decoded_def)
  have "decoded b (bind_res (decodeKey n rest) (\<lambda>(v, rest).
      if (case prev of None \<Rightarrow> False | Some p \<Rightarrow> s < p) then Inl (Err ''value: map keys out of order'')
      else decodeMap n (AList.update s v m) (Some s) rest))" for s
  proof (cases "decodeKey n rest")
    case (Inl e)
    with key [of rest] r show ?thesis by (simp add: decoded_def)
  next
    case (Inr q)
    obtain v rest' where q: "q = (v, rest')" by fastforce
    with Inr key [of rest] r have "wf_val v" "length rest' < length b" by (simp_all add: decoded_def)
    with IH have "decoded b (decodeMap n (AList.update s v m) (Some s) rest')" by (meson decoded_weaken less_imp_le)
    with Inr q show ?thesis by (simp add: decoded_def split: option.split)
  qed
  with Inr p m Map_v_wf [of m] show ?thesis
    by (auto split: option.split)
qed

lemma decoded_all:
  "(2 * length b + 1 \<le> n \<longrightarrow> decoded b (decodeKey n b)) \<and>
   (2 * length b + 2 \<le> n \<longrightarrow> (\<forall>x \<in> set elems. wf_val x) \<longrightarrow> decoded b (decodeList n elems b)) \<and>
   (2 * length b + 2 \<le> n \<longrightarrow> distinct (map fst m) \<longrightarrow> (\<forall>e \<in> set m. wf_val (snd e)) \<longrightarrow> decoded b (decodeMap n m prev b))"
proof (induction n arbitrary: b elems m prev)
  case 0
  then show ?case by simp
next
  case (Suc n)
  note IHk = Suc.IH [THEN conjunct1, rule_format]
  note IHl = Suc.IH [THEN conjunct2, THEN conjunct1, rule_format]
  note IHm = Suc.IH [THEN conjunct2, THEN conjunct2, rule_format]
  have 1: "decoded b (decodeKey (Suc n) b)" if n: "2 * length b + 1 \<le> Suc n"
  proof (cases b)
    case Nil
    then show ?thesis by (simp add: decoded_def truncated_def)
  next
    case (Cons c b')
    with n have "decoded b' (decodeList n [] b')" "decoded b' (decodeMap n [] None b')"
      by (auto intro!: IHl IHm)
    then show ?thesis unfolding Cons by (rule decodeKey_decoded)
  qed
  have 2: "decoded b (decodeList (Suc n) elems b)" if "2 * length b + 2 \<le> Suc n" "\<forall>x \<in> set elems. wf_val x"
    using that by (intro decodeList_decoded IHk IHl) auto
  have 3: "decoded b (decodeMap (Suc n) m prev b)"
    if "2 * length b + 2 \<le> Suc n" "distinct (map fst m)" "\<forall>e \<in> set m. wf_val (snd e)"
    using that by (intro decodeMap_decoded IHk IHm)
      (auto simp: distinct_update dest!: AList_update_set)
  from 1 2 3 show ?case by blast
qed

lemma decodeKey_total: "2 * length b + 1 \<le> n \<Longrightarrow> decoded b (decodeKey n b)"
  using decoded_all by blast


lemma DecodeComposite_loop_append:
  assumes "\<forall>v \<in> set vs. wf_val v" and "length (concat (map EncodeKey vs)) \<le> n"
  shows "DecodeComposite_loop n out (concat (map EncodeKey vs)) = Inr (out @ map canon_val vs)"
  using assms
proof (induction vs arbitrary: n out)
  case Nil
  then show ?case by (cases n) simp_all
next
  case (Cons v vs)
  obtain m where n: "n = Suc m" using Cons.prems(2) length_EncodeKey_pos [of v] by (cases n) auto
  let ?rest = "concat (map EncodeKey vs)"
  have "noFF ?rest" using noFF_EncodeKey by (cases vs) simp_all
  then have "decodeKey (2 * length (EncodeKey v @ ?rest) + 1) (EncodeKey v @ ?rest) = Inr (canon_val v, ?rest)"
    using Cons.prems by (intro key_roundtripD key_roundtrip_wf) simp_all
  moreover have "DecodeComposite_loop m (out @ [canon_val v]) ?rest = Inr ((out @ [canon_val v]) @ map canon_val vs)"
    using Cons.prems n length_EncodeKey_pos [of v] by (intro Cons.IH) simp_all
  ultimately show ?case unfolding n by simp
qed

lemma DecodeComposite_loop_total:
  "length b \<le> n \<Longrightarrow> DecodeComposite_loop n out b \<noteq> Inl OutOfFuel"
proof (induction n arbitrary: out b)
  case (Suc n)
  have d: "decoded b (decodeKey (2 * length b + 1) b)" by (rule decodeKey_total) simp
  show ?case
  proof (cases "decodeKey (2 * length b + 1) b")
    case (Inr p)
    then show ?thesis using d Suc by (cases p) (simp add: Suc.IH)
  qed (use d in \<open>simp split: if_splits\<close>)
qed simp

section \<open>Properties\<close>

text \<open>
  C1. \<open>EncodeKey\<close> is memcomparable: on values as the constructors build them, the byte order of
  two keys is the order \<open>Compare\<close> gives the values, over every kind, nested lists and maps, and
  integers against floats.
\<close>

theorem EncodeKey_order:
  assumes "wf_val a" and "wf_val b"
  shows "bytesCompare (EncodeKey a) (EncodeKey b) = Compare a b"
  using Compare_EncodeKey [OF assms] by (simp add: bytesCompare_cmp3)

theorem EncodeKey_order_witness:
  "bytesCompare (EncodeKey (VList [VString [97], VInt 5])) (EncodeKey (VList [VString [97, 0], VBool True])) = -1"
proof -
  have "Compare (VList [VString [97], VInt 5]) (VList [VString [97, 0], VBool True]) = -1"
    by (simp add: Compare_same Let_def cmp3_def)
  then show ?thesis using EncodeKey_order [of "VList [VString [97], VInt 5]" "VList [VString [97, 0], VBool True]"] by simp
qed

text \<open>
  A composite key orders like the sequence of its values: the concatenated encodings compare
  as \<open>compareLists\<close> compares the sequences.
\<close>

theorem EncodeComposite_order:
  assumes "\<forall>v \<in> set vs. wf_val v" and "\<forall>w \<in> set ws. wf_val w"
  shows "bytesCompare (EncodeComposite vs) (EncodeComposite ws) = compareLists vs ws"
  unfolding bytesCompare_cmp3 EncodeComposite_concat
  using assms
proof (induction vs ws rule: list_induct2')
  case (4 x xs y ys)
  have n: "noFF (concat (map EncodeKey zs))" for zs using noFF_EncodeKey by (cases zs) simp_all
  have "key_order x y" using 4 by (simp add: key_order_wf)
  then show ?case using 4 n unfolding key_order_def by (simp add: Let_def)
qed (simp_all add: cmpInt_def cmp3_Nil)

theorem EncodeComposite_order_witness:
  "bytesCompare (EncodeComposite [VNode 1, VBool False]) (EncodeComposite [VNode 1]) = 1"
  using EncodeComposite_order [of "[VNode 1, VBool False]" "[VNode 1]"]
  by (simp add: Compare_same cmp3_def cmpInt_def)

text \<open>
  C2. Decoding an encoded value returns its canonical form, which is well formed, equal to the
  value in the order, and encodes to the same key.
\<close>

theorem DecodeKey_EncodeKey:
  assumes "wf_val v"
  shows "DecodeKey (EncodeKey v) = Inr (canon_val v) \<and> Equal v (canon_val v)
    \<and> EncodeKey (canon_val v) = EncodeKey v"
proof -
  have "decodeKey (2 * length (EncodeKey v) + 1) (EncodeKey v @ []) = Inr (canon_val v, [])"
    using assms by (intro key_roundtripD key_roundtrip_wf) simp_all
  then show ?thesis
    using assms canon_val_key [of v] EncodeKey_eq_iff [of v "canon_val v"] canon_val_wf [of v]
    by (simp add: DecodeKey_def)
qed

theorem DecodeKey_EncodeKey_witness:
  "DecodeKey (EncodeKey (VMap [([97], VFloat 0x8000000000000000)])) = Inr (canon_val (VMap [([97], VFloat 0x8000000000000000)]))"
  using DecodeKey_EncodeKey [of "VMap [([97], VFloat 0x8000000000000000)]"] by simp

text \<open>Decoding a composite key returns the canonical values in order.\<close>

theorem DecodeComposite_EncodeComposite:
  assumes "\<forall>v \<in> set vs. wf_val v"
  shows "DecodeComposite (EncodeComposite vs) = Inr (map canon_val vs)"
  using DecodeComposite_loop_append [OF assms, of _ "[]"]
  by (simp add: DecodeComposite_def EncodeComposite_concat)

theorem DecodeComposite_EncodeComposite_witness:
  "DecodeComposite (EncodeComposite [VString [0], VEdge 7]) = Inr [VString [0], VEdge 7]"
  using DecodeComposite_EncodeComposite [of "[VString [0], VEdge 7]"] by simp

text \<open>
  On any bytes at all the key decoders return: a well-formed value or a decoding error, never
  a panic, and the fuel of the model is never exhausted.
\<close>

theorem DecodeKey_total:
  "(case DecodeKey b of Inl e \<Rightarrow> e \<noteq> OutOfFuel \<and> (\<forall>p. e \<noteq> Panic p) | Inr v \<Rightarrow> wf_val v)
    \<and> DecodeComposite b \<noteq> Inl OutOfFuel"
proof -
  have "decoded b (decodeKey (2 * length b + 1) b)" by (rule decodeKey_total) simp
  moreover have "DecodeComposite b \<noteq> Inl OutOfFuel"
    unfolding DecodeComposite_def by (rule DecodeComposite_loop_total) simp
  ultimately show ?thesis
    by (cases "decodeKey (2 * length b + 1) b") (auto simp: DecodeKey_def)
qed

text \<open>
  \<open>Compare\<close> is a total preorder on well-formed values: antisymmetric up to \<open>Equal\<close>,
  transitive, and \<open>Equal\<close> values are interchangeable.
\<close>

theorem Compare_preorder:
  assumes "wf_val a" and "wf_val b" and "wf_val c"
  shows "Compare a a = 0 \<and> Compare b a = - Compare a b
    \<and> (Compare a b \<le> 0 \<and> Compare b c \<le> 0 \<longrightarrow> Compare a c \<le> 0)
    \<and> (Equal a b \<longrightarrow> Compare a c = Compare b c)"
proof -
  note enc = Compare_EncodeKey [OF assms(1,2)] Compare_EncodeKey [OF assms(2,1)] Compare_EncodeKey [OF assms(1,3)]
    Compare_EncodeKey [OF assms(2,3)] Compare_EncodeKey [OF assms(1,1)]
  have le: "cmp3 x y \<le> 0 \<longleftrightarrow> x \<le> y" for x y :: bytes by (auto simp: cmp3_def)
  show ?thesis unfolding Equal_def enc le cmp_simps by (auto simp: cmp3_swap [symmetric])
qed

theorem Compare_preorder_witness:
  "Compare (VInt 1) (VString [97]) \<le> 0 \<and> Compare (VInt 1) VNull = - Compare VNull (VInt 1)"
proof -
  have "Compare (VInt 1) (VString [97]) = -1" by (simp add: Compare_rank cmp3_def)
  then show ?thesis using Compare_preorder [of "VNull" "VInt 1" VNull] by simp
qed

lemma escaped_append: "escaped (s @ 0x00 # t) = escaped s @ 0xFF # escaped t"
  by (induction s) (simp_all add: escaped_simps)

text \<open>
  Encodings are not prefix-free, against the comment on \<open>EncodeComposite\<close>: the terminator of
  a string is also the first byte of an escaped zero, so the key of a string is a proper prefix of
  the key of every string that continues it with a zero byte, and the two values are not equal.
\<close>

theorem EncodeKey_not_prefix_free:
  "EncodeKey (VString (s @ 0x00 # t)) = EncodeKey (VString s) @ 0xFF # escaped t
    \<and> \<not> Equal (VString s) (VString (s @ 0x00 # t))"
  by (simp add: EncodeKey_simps escaped_append Equal_def Compare_same cmp_simps)

end
