(* ===== verification/RecordCodec.thy ===== *)
theory RecordCodec
  imports KeyCodec
begin

text \<open>
  The compact record encoding of \<^verbatim>\<open>internal/value/record.go\<close>, kind-preserving and bit-exact for
  floats: \<open>EncodeRecord\<close>, \<open>DecodeRecord\<close> and their helpers. Fuel works as in the key decoder.
  \<^verbatim>\<open>make([]T, 0, n)\<close> with a count read from the input panics when \<open>n\<close> elements exceed the
  address space of the runtime (\<open>2 ^ 48\<close> bytes on the 64-bit targets); that is the only panic, and
  running out of memory below that limit is not modelled. A map's size hint never panics.
\<close>

section \<open>Encoding\<close>

definition RecordFormatVersion :: byte where
  "RecordFormatVersion = 1"

fun kind_byte :: "kind \<Rightarrow> byte" where
  "kind_byte KindNull = 0"
| "kind_byte KindBool = 1"
| "kind_byte KindInt = 2"
| "kind_byte KindFloat = 3"
| "kind_byte KindString = 4"
| "kind_byte KindBytes = 5"
| "kind_byte KindDate = 6"
| "kind_byte KindDateTime = 7"
| "kind_byte KindDuration = 8"
| "kind_byte KindList = 9"
| "kind_byte KindMap = 10"
| "kind_byte KindNode = 11"
| "kind_byte KindEdge = 12"
| "kind_byte KindPath = 13"

definition zigzag :: "int64 \<Rightarrow> uint64" where
  "zigzag n = push_bit 1 n XOR signed_drop_bit 63 n"

definition unzigzag :: "uint64 \<Rightarrow> int64" where
  "unzigzag n = drop_bit 1 n XOR - (n AND 1)"

definition appendUvarint :: "bytes \<Rightarrow> uint64 \<Rightarrow> bytes" where
  "appendUvarint dst v = dst @ putUvarint (unat v)"

definition appendIds :: "bytes \<Rightarrow> uint64 list \<Rightarrow> bytes" where
  "appendIds dst ids = foldl appendUvarint (appendUvarint dst (word_of_nat (length ids))) ids"

fun appendRecord :: "bytes \<Rightarrow> val \<Rightarrow> bytes" where
  "appendRecord dst VNull = dst @ [kind_byte KindNull]"
| "appendRecord dst (VBool b) = dst @ [kind_byte KindBool] @ [if b then 1 else 0]"
| "appendRecord dst (VInt i) = appendUvarint (dst @ [kind_byte KindInt]) (zigzag i)"
| "appendRecord dst (VFloat f) = dst @ [kind_byte KindFloat] @ le_put 8 (unat f)"
| "appendRecord dst (VString s) =
     appendUvarint (dst @ [kind_byte KindString]) (word_of_nat (length s)) @ s"
| "appendRecord dst (VBytes r) =
     appendUvarint (dst @ [kind_byte KindBytes]) (word_of_nat (length r)) @ r"
| "appendRecord dst (VDate d) = appendUvarint (dst @ [kind_byte KindDate]) (zigzag d)"
| "appendRecord dst (VDateTime n z) =
     (let dst = appendUvarint (dst @ [kind_byte KindDateTime]) (zigzag n) in
      case z of None \<Rightarrow> dst @ [0] | Some off \<Rightarrow> appendUvarint (dst @ [1]) (zigzag (scast off)))"
| "appendRecord dst (VDuration m d n) =
     appendUvarint (appendUvarint (appendUvarint (dst @ [kind_byte KindDuration]) (zigzag m)) (zigzag d)) (zigzag n)"
| "appendRecord dst (VList xs) =
     foldl appendRecord (appendUvarint (dst @ [kind_byte KindList]) (word_of_nat (length xs))) xs"
| "appendRecord dst (VMap kvs) =
     foldl (\<lambda>dst e. appendRecord (appendUvarint dst (word_of_nat (length (fst e))) @ fst e) (snd e))
       (appendUvarint (dst @ [kind_byte KindMap]) (word_of_nat (length kvs))) kvs"
| "appendRecord dst (VNode u) = appendUvarint (dst @ [kind_byte KindNode]) u"
| "appendRecord dst (VEdge u) = appendUvarint (dst @ [kind_byte KindEdge]) u"
| "appendRecord dst (VPath ns es) = appendIds (appendIds (dst @ [kind_byte KindPath]) ns) es"

definition EncodeRecord :: "val \<Rightarrow> bytes" where
  "EncodeRecord v = appendRecord [RecordFormatVersion] v"

section \<open>Decoding\<close>

definition maxAlloc :: nat where "maxAlloc = 2 ^ 48"
definition sizeofValue :: nat where "sizeofValue = 184"
definition sizeofUint64 :: nat where "sizeofUint64 = 8"

definition makeslice :: "nat \<Rightarrow> nat \<Rightarrow> unit result" where
  "makeslice elemsize n =
     (if n * elemsize > maxAlloc then Inl (Panic ''runtime error: makeslice: cap out of range'') else Inr ())"

definition truncatedRecord :: "'a result" where
  "truncatedRecord = Inl (Err ''value: truncated record'')"

definition readUvarint :: "bytes \<Rightarrow> (uint64 \<times> bytes) result" where
  "readUvarint b =
     (case Uvarint b of (n, r) \<Rightarrow> if r \<le> 0 then truncatedRecord else Inr (word_of_nat n, drop (nat r) b))"

definition readZigzagInt :: "bytes \<Rightarrow> (int64 \<times> bytes) result" where
  "readZigzagInt b = bind_res (readUvarint b) (\<lambda>(n, rest). Inr (unzigzag n, rest))"

definition readBlob :: "bytes \<Rightarrow> (bytes \<times> bytes) result" where
  "readBlob b =
     bind_res (readUvarint b) (\<lambda>(n, rest).
       if length rest < unat n then truncatedRecord
       else Inr (take (unat n) rest, drop (unat n) rest))"

fun readIds :: "nat \<Rightarrow> uint64 list \<Rightarrow> bytes \<Rightarrow> (uint64 list \<times> bytes) result" where
  "readIds 0 ids b = Inr (ids, b)"
| "readIds (Suc n) ids b = bind_res (readUvarint b) (\<lambda>(id, r). readIds n (ids @ [id]) r)"

definition decodeRecordPath :: "bytes \<Rightarrow> (val \<times> bytes) result" where
  "decodeRecordPath b =
     bind_res (readUvarint b) (\<lambda>(nn, rest).
     bind_res (makeslice sizeofUint64 (unat nn)) (\<lambda>_.
     bind_res (readIds (unat nn) [] rest) (\<lambda>(nodes, rest).
     bind_res (readUvarint rest) (\<lambda>(ne, rest).
     bind_res (makeslice sizeofUint64 (unat ne)) (\<lambda>_.
     bind_res (readIds (unat ne) [] rest) (\<lambda>(edges, rest).
     bind_res (PathOf nodes edges) (\<lambda>p. Inr (p, rest))))))))"

definition decodeRecordDateTime :: "bytes \<Rightarrow> (val \<times> bytes) result" where
  "decodeRecordDateTime b =
     bind_res (readZigzagInt b) (\<lambda>(n, rest).
       case rest of
         [] \<Rightarrow> truncatedRecord
       | flag # rest \<Rightarrow>
           if flag = 0 then Inr (VDateTime n None, rest)
           else bind_res (readZigzagInt rest) (\<lambda>(off, rest).
             if sint off < - (2 ^ 31) \<or> sint off > 2 ^ 31 - 1
             then Inl (Err ''value: datetime offset out of range'')
             else Inr (VDateTime n (Some (ucast off)), rest)))"

definition decodeRecordDuration :: "bytes \<Rightarrow> (val \<times> bytes) result" where
  "decodeRecordDuration b =
     bind_res (readZigzagInt b) (\<lambda>(months, rest).
     bind_res (readZigzagInt rest) (\<lambda>(days, rest).
     bind_res (readZigzagInt rest) (\<lambda>(nanos, rest). Inr (VDuration months days nanos, rest))))"

fun decodeRecord :: "nat \<Rightarrow> bytes \<Rightarrow> (val \<times> bytes) result"
  and decodeRecordList :: "nat \<Rightarrow> nat \<Rightarrow> val list \<Rightarrow> bytes \<Rightarrow> (val \<times> bytes) result"
  and decodeRecordMap :: "nat \<Rightarrow> nat \<Rightarrow> (gostring \<times> val) list \<Rightarrow> bytes \<Rightarrow> (val \<times> bytes) result"
where
  "decodeRecord 0 b = Inl OutOfFuel"
| "decodeRecord (Suc fuel) b = (case b of
     [] \<Rightarrow> truncatedRecord
   | k # b \<Rightarrow>
       if k = kind_byte KindNull then Inr (VNull, b)
       else if k = kind_byte KindBool then
         (case b of [] \<Rightarrow> truncatedRecord | c # b' \<Rightarrow> Inr (VBool (c \<noteq> 0), b'))
       else if k = kind_byte KindInt then bind_res (readZigzagInt b) (\<lambda>(n, rest). Inr (VInt n, rest))
       else if k = kind_byte KindFloat then
         (if length b < 8 then truncatedRecord else Inr (VFloat (word_of_nat (le_get (take 8 b))), drop 8 b))
       else if k = kind_byte KindString then bind_res (readBlob b) (\<lambda>(s, rest). Inr (VString s, rest))
       else if k = kind_byte KindBytes then bind_res (readBlob b) (\<lambda>(s, rest). Inr (VBytes s, rest))
       else if k = kind_byte KindDate then bind_res (readZigzagInt b) (\<lambda>(n, rest). Inr (VDate n, rest))
       else if k = kind_byte KindDateTime then decodeRecordDateTime b
       else if k = kind_byte KindDuration then decodeRecordDuration b
       else if k = kind_byte KindList then
         bind_res (readUvarint b) (\<lambda>(n, rest).
         bind_res (makeslice sizeofValue (unat n)) (\<lambda>_. decodeRecordList fuel (unat n) [] rest))
       else if k = kind_byte KindMap then
         bind_res (readUvarint b) (\<lambda>(n, rest). decodeRecordMap fuel (unat n) [] rest)
       else if k = kind_byte KindNode then bind_res (readUvarint b) (\<lambda>(id, rest). Inr (VNode id, rest))
       else if k = kind_byte KindEdge then bind_res (readUvarint b) (\<lambda>(id, rest). Inr (VEdge id, rest))
       else if k = kind_byte KindPath then decodeRecordPath b
       else Inl (ErrNum ''value: unknown record kind'' (unat k)))"
| "decodeRecordList 0 n elems rest = Inl OutOfFuel"
| "decodeRecordList (Suc fuel) n elems rest =
     (if n = 0 then Inr (VList elems, rest)
      else bind_res (decodeRecord fuel rest) (\<lambda>(el, r). decodeRecordList fuel (n - 1) (elems @ [el]) r))"
| "decodeRecordMap 0 n m rest = Inl OutOfFuel"
| "decodeRecordMap (Suc fuel) n m rest =
     (if n = 0 then Inr (Map_v m, rest)
      else bind_res (readBlob rest) (\<lambda>(kb, r).
        bind_res (decodeRecord fuel r) (\<lambda>(v, r). decodeRecordMap fuel (n - 1) (AList.update kb v m) r)))"

definition DecodeRecord :: "bytes \<Rightarrow> val result" where
  "DecodeRecord b = (case b of
     [] \<Rightarrow> truncatedRecord
   | c # b' \<Rightarrow>
       if c \<noteq> RecordFormatVersion then Inl (ErrNum ''value: unsupported record format version'' (unat c))
       else bind_res (decodeRecord (2 * length b' + 1) b') (\<lambda>(v, rest).
         if length rest \<noteq> 0 then Inl (Err ''value: trailing bytes in record'') else Inr v))"

section \<open>Which values fit\<close>

text \<open>
  The shape the constructors give a value, and that its parts fit in memory: the second holds of
  every value a process can build.
\<close>

fun shape_ok :: "val \<Rightarrow> bool" where
  "shape_ok (VList xs) = (\<forall>x \<in> set xs. shape_ok x)"
| "shape_ok (VMap kvs) = (sorted_wrt (<) (map fst kvs) \<and> (\<forall>e \<in> set kvs. shape_ok (snd e)))"
| "shape_ok (VPath ns es) = (if ns = [] then es = [] else Suc (length es) = length ns)"
| "shape_ok v = True"

fun fits_memory :: "val \<Rightarrow> bool" where
  "fits_memory (VString s) = (length s \<le> maxAlloc)"
| "fits_memory (VBytes s) = (length s \<le> maxAlloc)"
| "fits_memory (VList xs) = (length xs * sizeofValue \<le> maxAlloc \<and> (\<forall>x \<in> set xs. fits_memory x))"
| "fits_memory (VMap kvs) =
     (length kvs \<le> maxAlloc \<and> (\<forall>e \<in> set kvs. length (fst e) \<le> maxAlloc \<and> fits_memory (snd e)))"
| "fits_memory (VPath ns es) = (length ns * sizeofUint64 \<le> maxAlloc \<and> length es * sizeofUint64 \<le> maxAlloc)"
| "fits_memory v = True"

section \<open>Zigzag and the fixed readers\<close>

lemma bit_zigzag:
  "i < 64 \<Longrightarrow> bit (zigzag n) i \<longleftrightarrow> (if i = 0 then bit n 63 else bit n (i - 1) \<noteq> bit n 63)"
  unfolding zigzag_def bit_xor_iff bit_push_bit_iff bit_signed_drop_bit_iff by (cases i) auto

lemma unzigzag_zigzag [codec_simps]: "unzigzag (zigzag n) = n"
proof (rule bit_word_eqI)
  fix i assume "i < LENGTH(64)"
  then have i: "i < 64" by simp
  have one: "zigzag n AND 1 = (if bit n 63 then 1 else 0)"
    by (rule bit_word_eqI) (auto simp: bit_and_iff bit_1_iff bit_zigzag)
  show "bit (unzigzag (zigzag n)) i = bit n i"
    unfolding unzigzag_def one bit_xor_iff bit_drop_bit_eq o_apply using i
    by (cases "i = 63") (auto simp: bit_zigzag not_less dest: bit_imp_le_length)
qed

lemma readUvarint_append [codec_simps]: "readUvarint (putUvarint (unat u) @ r) = Inr (u, r)"
proof -
  have "unat u < 2 ^ 64" using unat64_bound [of u] by simp
  then have "Uvarint (putUvarint (unat u) @ r) = (unat u, int (length (putUvarint (unat u))))"
    by (rule Uvarint_putUvarint)
  moreover have "0 < length (putUvarint (unat u))" by simp
  ultimately show ?thesis by (simp add: readUvarint_def)
qed

lemma readZigzagInt_append [codec_simps]: "readZigzagInt (putUvarint (unat (zigzag n)) @ r) = Inr (n, r)"
  by (simp add: readZigzagInt_def codec_simps)

lemma unat_len [simp]: "k \<le> maxAlloc \<Longrightarrow> unat (word_of_nat k :: uint64) = k"
  by (simp add: maxAlloc_def unat_of_nat take_bit_nat_eq_self)

lemma readBlob_append [codec_simps]:
  "length s \<le> maxAlloc \<Longrightarrow> readBlob (putUvarint (unat (word_of_nat (length s) :: uint64)) @ s @ r) = Inr (s, r)"
  unfolding readBlob_def readUvarint_append by simp

lemma readUvarint_shorter:
  "readUvarint b = Inr (n, rest) \<Longrightarrow> length rest < length b"
  using Uvarint_bounds [of b] by (auto simp: readUvarint_def truncatedRecord_def split: prod.splits if_splits)

lemma readUvarint_error: "readUvarint b = Inl e \<Longrightarrow> e = Err ''value: truncated record''"
  by (auto simp: readUvarint_def truncatedRecord_def split: prod.splits if_splits)

section \<open>Decoding what was encoded\<close>

definition recb :: "val \<Rightarrow> bytes" where
  "recb v = appendRecord [] v"

definition uv :: "uint64 \<Rightarrow> bytes" where
  "uv u = putUvarint (unat u)"

lemma appendUvarint_uv: "appendUvarint dst u = dst @ uv u"
  by (simp add: appendUvarint_def uv_def)

lemma appendIds_uv: "appendIds dst ids = dst @ uv (word_of_nat (length ids)) @ concat (map uv ids)"
  by (simp add: appendIds_def appendUvarint_uv foldl_append)

lemma appendRecord_recb: "appendRecord dst v = dst @ recb v"
  unfolding recb_def
proof (induction v arbitrary: dst rule: measure_induct_rule [where f = size])
  case (less v)
  show ?case
  proof (cases v)
    case (VList xs)
    have IH: "appendRecord d x = d @ appendRecord [] x" if "x \<in> set xs" for x d
      by (rule less) (simp only: VList val_size_list [OF that])
    show ?thesis unfolding VList by (simp add: foldl_append [OF IH] appendUvarint_uv)
  next
    case (VMap kvs)
    have IH: "appendRecord d (snd e) = d @ appendRecord [] (snd e)" if "e \<in> set kvs" for e d
      by (rule less) (simp only: VMap val_size_map [OF that])
    have "appendRecord (appendUvarint d (word_of_nat (length (fst e))) @ fst e) (snd e)
        = d @ (uv (word_of_nat (length (fst e))) @ fst e @ appendRecord [] (snd e))"
      if "e \<in> set kvs" for e d
      using IH [OF that, of "appendUvarint d (word_of_nat (length (fst e))) @ fst e"] by (simp add: appendUvarint_uv)
    then show ?thesis unfolding VMap by (simp add: foldl_append appendUvarint_uv)
  qed (auto simp: appendUvarint_uv appendIds_uv Let_def split: option.splits)
qed

lemma recb_simps:
  "recb VNull = [0]"
  "recb (VBool b) = [1, if b then 1 else 0]"
  "recb (VInt i) = 2 # uv (zigzag i)"
  "recb (VFloat f) = 3 # le_put 8 (unat f)"
  "recb (VString s) = 4 # uv (word_of_nat (length s)) @ s"
  "recb (VBytes s) = 5 # uv (word_of_nat (length s)) @ s"
  "recb (VDate d) = 6 # uv (zigzag d)"
  "recb (VDateTime n z) = 7 # uv (zigzag n) @ (case z of None \<Rightarrow> [0] | Some off \<Rightarrow> 1 # uv (zigzag (scast off)))"
  "recb (VDuration mo da na) = 8 # uv (zigzag mo) @ uv (zigzag da) @ uv (zigzag na)"
  "recb (VNode u) = 11 # uv u"
  "recb (VEdge u) = 12 # uv u"
  "recb (VPath ns es) = 13 # uv (word_of_nat (length ns)) @ concat (map uv ns)
     @ uv (word_of_nat (length es)) @ concat (map uv es)"
  by (simp_all add: recb_def appendUvarint_uv appendIds_uv Let_def split: option.splits)

lemma recb_list: "recb (VList xs) = 9 # uv (word_of_nat (length xs)) @ concat (map recb xs)"
  unfolding recb_def [of "VList xs"] by (simp add: appendUvarint_uv foldl_append [OF appendRecord_recb])

lemma recb_map: "recb (VMap kvs) = 10 # uv (word_of_nat (length kvs))
    @ concat (map (\<lambda>e. uv (word_of_nat (length (fst e))) @ fst e @ recb (snd e)) kvs)"
proof -
  let ?g = "\<lambda>e. uv (word_of_nat (length (fst e))) @ fst e @ recb (snd e)"
  have "foldl (\<lambda>dst e. appendRecord (appendUvarint dst (word_of_nat (length (fst e))) @ fst e) (snd e)) d kvs
      = d @ concat (map ?g kvs)" for d
    by (rule foldl_append) (simp add: appendRecord_recb appendUvarint_uv)
  then show ?thesis unfolding recb_def [of "VMap kvs"] by (simp add: appendUvarint_uv)
qed

lemma uv_nonempty: "1 \<le> length (uv u)"
  by (simp add: uv_def Suc_le_eq)

lemmas read_uv [codec_simps] = readUvarint_append [folded uv_def] readZigzagInt_append [folded uv_def]
  readBlob_append [folded uv_def]

lemma readIds_uv: "readIds (length ids) acc (concat (map uv ids) @ r) = Inr (acc @ ids, r)"
  by (induction ids arbitrary: acc) (simp_all add: read_uv)

lemma makeslice_ok: "n * k \<le> maxAlloc \<Longrightarrow> makeslice k n = Inr ()"
  by (simp add: makeslice_def)

lemma decodeRecordPath_uv:
  assumes "shape_ok (VPath ns es)" and "fits_memory (VPath ns es)"
  shows "decodeRecordPath (uv (word_of_nat (length ns)) @ concat (map uv ns) @ uv (word_of_nat (length es))
    @ concat (map uv es) @ r) = Inr (VPath ns es, r)"
proof -
  have len: "length ns \<le> maxAlloc" "length es \<le> maxAlloc"
    using assms(2) by (auto simp: sizeofUint64_def)
  have "PathOf ns es = Inr (VPath ns es)" using assms(1) by (auto simp: PathOf_def split: if_splits)
  with len assms(2) show ?thesis
    by (simp add: decodeRecordPath_def read_uv makeslice_ok readIds_uv)
qed

lemma zigzag_zone:
  "sint (scast (off :: int32) :: int64) = sint off" "(ucast (scast off :: int64) :: int32) = off"
proof -
  show s: "sint (scast off :: int64) = sint off"
    using sint_range_size [of off] unfolding scast_eq by (intro sint64_of_int) (simp_all add: word_size)
  have "- (2 ^ 31) \<le> sint off" "sint off < 2 ^ 31" using sint_range_size [of off] by (simp_all add: word_size)
  then have "sint (ucast (scast off :: int64) :: int32) = sint off" using ucast_date [of "scast off"] s by simp
  then show "(ucast (scast off :: int64) :: int32) = off" by (rule signed_word_eqI)
qed

lemma decodeRecord_scalar:
  assumes "shape_ok v" and "fits_memory v" and "kind_of v \<notin> {KindList, KindMap}"
  shows "decodeRecord (Suc n) (recb v @ r) = Inr (v, r)"
proof (cases v)
  case (VFloat f)
  have "le_get (le_put 8 (unat f)) = unat f"
    unfolding le_get_le_put by (rule mod_less) (rule unat64_bound)
  with VFloat show ?thesis by (simp add: recb_simps)
next
  case (VDateTime n z)
  have "- (2 ^ 31) \<le> sint off" "sint off \<le> 2 ^ 31 - 1" for off :: int32
    using sint_range_size [of off] by (simp_all add: word_size)
  with VDateTime show ?thesis
    by (cases z) (simp_all add: recb_simps decodeRecordDateTime_def read_uv zigzag_zone not_less)
next
  case (VPath ns es)
  with assms show ?thesis by (simp add: recb_simps decodeRecordPath_uv del: shape_ok.simps fits_memory.simps)
qed (use assms in \<open>auto simp: recb_simps read_uv decodeRecordDuration_def\<close>)

definition rec_roundtrip :: "val \<Rightarrow> bool" where
  "rec_roundtrip v \<longleftrightarrow> (\<forall>n r. 2 * length (recb v) + 1 \<le> n \<longrightarrow> decodeRecord n (recb v @ r) = Inr (v, r))"

lemma recb_pos: "1 \<le> length (recb v)"
  by (cases v) (simp_all add: recb_simps recb_list recb_map)

lemma decodeRecordList_recb:
  assumes "\<And>x. x \<in> set xs \<Longrightarrow> rec_roundtrip x" and "2 * length (concat (map recb xs)) + 3 \<le> n"
  shows "decodeRecordList n (length xs) acc (concat (map recb xs) @ r) = Inr (VList (acc @ xs), r)"
  using assms
proof (induction xs arbitrary: n acc)
  case Nil
  then show ?case by (cases n) simp_all
next
  case (Cons x xs)
  obtain m where n: "n = Suc m" using Cons.prems(2) by (cases n) auto
  have "decodeRecord m (recb x @ concat (map recb xs) @ r) = Inr (x, concat (map recb xs) @ r)"
    using Cons.prems n unfolding rec_roundtrip_def by simp
  moreover have "decodeRecordList m (length xs) (acc @ [x]) (concat (map recb xs) @ r) = Inr (VList ((acc @ [x]) @ xs), r)"
    using Cons.prems n recb_pos [of x] by (intro Cons.IH) simp_all
  ultimately show ?case unfolding n by simp
qed

lemma decodeRecordMap_recb:
  assumes "\<And>e. e \<in> set kvs \<Longrightarrow> rec_roundtrip (snd e) \<and> length (fst e) \<le> maxAlloc"
    and "2 * length (concat (map (\<lambda>e. uv (word_of_nat (length (fst e))) @ fst e @ recb (snd e)) kvs)) + 3 \<le> n"
    and "sorted_wrt (<) (map fst m @ map fst kvs)"
  shows "decodeRecordMap n (length kvs) m
      (concat (map (\<lambda>e. uv (word_of_nat (length (fst e))) @ fst e @ recb (snd e)) kvs) @ r) = Inr (VMap (m @ kvs), r)"
  using assms
proof (induction kvs arbitrary: n m)
  case Nil
  have "sortKVs m = m" using Nil.prems(3) by (intro sortKVs_unique) simp_all
  with Nil show ?case by (cases n) (simp_all add: Map_v_def)
next
  case (Cons e kvs)
  obtain k where n: "n = Suc k" using Cons.prems(2) by (cases n) auto
  let ?enc = "\<lambda>e. uv (word_of_nat (length (fst e))) @ fst e @ recb (snd e)"
  let ?rest = "concat (map ?enc kvs) @ r"
  have 1: "decodeRecord k (recb (snd e) @ ?rest) = Inr (snd e, ?rest)"
    using Cons.prems n unfolding rec_roundtrip_def by simp
  have 2: "readBlob (uv (word_of_nat (length (fst e))) @ fst e @ recb (snd e) @ ?rest) = Inr (fst e, recb (snd e) @ ?rest)"
    using Cons.prems by (intro read_uv) simp
  have "fst e \<notin> fst ` set m" using Cons.prems(3) by (auto simp: sorted_wrt_append)
  then have new: "AList.update (fst e) (snd e) m = m @ [e]" by (simp add: AList_update_new)
  have "decodeRecordMap k (length kvs) (m @ [e]) ?rest = Inr (VMap ((m @ [e]) @ kvs), r)"
    using Cons.prems n recb_pos [of "snd e"] by (intro Cons.IH) simp_all
  with 1 2 new show ?case unfolding n by simp
qed

lemma rec_roundtrip_ok: "shape_ok v \<Longrightarrow> fits_memory v \<Longrightarrow> rec_roundtrip v"
proof (induction v rule: measure_induct_rule [where f = size])
  case (less v)
  show ?case unfolding rec_roundtrip_def
  proof (intro allI impI)
    fix n r assume n: "2 * length (recb v) + 1 \<le> n"
    then obtain m where m: "n = Suc m" by (cases n) auto
    show "decodeRecord n (recb v @ r) = Inr (v, r)"
    proof (cases v)
      case (VList xs)
      have "rec_roundtrip x" if "x \<in> set xs" for x
        using less.IH [of x] less.prems that val_size_list [of x xs] unfolding VList by simp
      then have "decodeRecordList m (length xs) [] (concat (map recb xs) @ r) = Inr (VList ([] @ xs), r)"
        using n m uv_nonempty [of "word_of_nat (length xs)"] unfolding VList
        by (intro decodeRecordList_recb) (simp_all add: recb_list)
      moreover have "length xs \<le> maxAlloc" using less.prems unfolding VList by (simp add: sizeofValue_def)
      ultimately show ?thesis using less.prems unfolding VList m recb_list by (simp add: read_uv makeslice_ok)
    next
      case (VMap kvs)
      let ?enc = "\<lambda>e. uv (word_of_nat (length (fst e))) @ fst e @ recb (snd e)"
      have "rec_roundtrip (snd e) \<and> length (fst e) \<le> maxAlloc" if "e \<in> set kvs" for e
        using less.IH [of "snd e"] less.prems that val_size_map [of e kvs] unfolding VMap by simp
      then have "decodeRecordMap m (length kvs) [] (concat (map ?enc kvs) @ r) = Inr (VMap ([] @ kvs), r)"
        using n m less.prems uv_nonempty [of "word_of_nat (length kvs)"] unfolding VMap
        by (intro decodeRecordMap_recb) (simp_all only: recb_map, simp_all)
      then show ?thesis using less.prems unfolding VMap m recb_map by (simp add: read_uv)
    qed (use less.prems m in \<open>simp_all add: decodeRecord_scalar del: decodeRecord.simps\<close>)
  qed
qed


section \<open>Decoding any input\<close>

definition rec_decoded :: "bytes \<Rightarrow> (val \<times> bytes) result \<Rightarrow> bool" where
  "rec_decoded b res \<longleftrightarrow> (case res of Inl e \<Rightarrow> e \<noteq> OutOfFuel | Inr (v, rest) \<Rightarrow> shape_ok v \<and> length rest \<le> length b)"

lemma rec_decoded_simps [simp]:
  "rec_decoded b (Inl e) \<longleftrightarrow> e \<noteq> OutOfFuel"
  "rec_decoded b (Inr (v, rest)) \<longleftrightarrow> shape_ok v \<and> length rest \<le> length b"
  "rec_decoded b truncatedRecord"
  by (simp_all add: rec_decoded_def truncatedRecord_def)

lemma rec_decoded_mono: "rec_decoded b' r \<Longrightarrow> length b' \<le> length b \<Longrightarrow> rec_decoded b r"
  by (auto simp: rec_decoded_def split: sum.splits)

text \<open>A reader either fails with a plain error or hands on a shorter rest.\<close>

definition reader :: "(bytes \<Rightarrow> ('a \<times> bytes) result) \<Rightarrow> bool" where
  "reader f \<longleftrightarrow> (\<forall>b. (\<forall>e. f b = Inl e \<longrightarrow> e \<noteq> OutOfFuel) \<and> (\<forall>x r. f b = Inr (x, r) \<longrightarrow> length r \<le> length b))"

lemma reader_bind:
  assumes "reader f" and "\<And>x r. f b = Inr (x, r) \<Longrightarrow> length r \<le> length b \<Longrightarrow> rec_decoded r (g x r)"
  shows "rec_decoded b (bind_res (f b) (\<lambda>(x, r). g x r))"
proof (cases "f b")
  case (Inr p)
  then show ?thesis using assms by (cases p) (auto simp: reader_def intro: rec_decoded_mono)
qed (use assms(1) in \<open>auto simp: reader_def\<close>)

lemma readers: "reader readUvarint" "reader readZigzagInt" "reader readBlob"
proof -
  show u: "reader readUvarint"
    unfolding reader_def using readUvarint_shorter readUvarint_error by (metis goerr.distinct(6) less_imp_le)
  show "reader readZigzagInt"
    using u unfolding reader_def readZigzagInt_def by (auto simp: bind_res_eq_Inl)
  show "reader readBlob"
    unfolding reader_def readBlob_def truncatedRecord_def
  proof (intro allI conjI impI)
    fix b e assume "bind_res (readUvarint b) (\<lambda>(n, rest). if length rest < unat n then Inl (Err ''value: truncated record'')
        else Inr (take (unat n) rest, drop (unat n) rest)) = Inl e"
    with u show "e \<noteq> OutOfFuel" unfolding reader_def by (auto simp: bind_res_eq_Inl split: if_splits)
  next
    fix b x r assume "bind_res (readUvarint b) (\<lambda>(n, rest). if length rest < unat n then Inl (Err ''value: truncated record'')
        else Inr (take (unat n) rest, drop (unat n) rest)) = Inr (x, r)"
    then obtain n rest where "readUvarint b = Inr (n, rest)" "r = drop (unat n) rest" by (auto split: if_splits)
    with u show "length r \<le> length b" unfolding reader_def by (metis diff_le_self le_trans length_drop)
  qed
qed

lemma reader_readIds: "reader (readIds n ids)"
proof (induction n arbitrary: ids)
  case (Suc n)
  then show ?case using readers(1) unfolding reader_def
    by (auto simp: bind_res_eq_Inl) (meson le_trans)
qed (simp add: reader_def)

lemma makeslice_bind: "(n * k \<le> maxAlloc \<Longrightarrow> rec_decoded b r) \<Longrightarrow> rec_decoded b (bind_res (makeslice k n) (\<lambda>_. r))"
  by (simp add: makeslice_def)

lemma rec_decoded_parts:
  "rec_decoded b (decodeRecordPath b)" "rec_decoded b (decodeRecordDateTime b)" "rec_decoded b (decodeRecordDuration b)"
  subgoal unfolding decodeRecordPath_def
    by (intro reader_bind readers reader_readIds makeslice_bind) (auto simp: PathOf_def split: if_splits)
  subgoal unfolding decodeRecordDateTime_def
    by (intro reader_bind readers) (auto split: list.split intro!: rec_decoded_mono [OF reader_bind [OF readers(2)]])
  subgoal unfolding decodeRecordDuration_def
    by (intro reader_bind readers) simp
  done


definition strictly :: "bytes \<Rightarrow> (val \<times> bytes) result \<Rightarrow> bool" where
  "strictly b res \<longleftrightarrow> rec_decoded b res \<and> (\<forall>v rest. res = Inr (v, rest) \<longrightarrow> length rest < length b)"

lemma strictly_Cons: "rec_decoded b res \<Longrightarrow> strictly (c # b) res"
  by (auto simp: strictly_def rec_decoded_def split: sum.splits)

lemma reader_bind_strict:
  "\<lbrakk>\<And>x r. readUvarint b = Inr (x, r) \<Longrightarrow> length r < length b \<Longrightarrow> rec_decoded r (g x r)\<rbrakk>
    \<Longrightarrow> rec_decoded b (bind_res (readUvarint b) (\<lambda>(x, r). g x r))"
  using readUvarint_shorter by (intro reader_bind readers) blast

lemma decodeRecord_total:
  assumes "\<And>n b'. length b' < length b \<Longrightarrow> rec_decoded b' (decodeRecordList fuel n [] b')"
    and "\<And>n b'. length b' < length b \<Longrightarrow> rec_decoded b' (decodeRecordMap fuel n [] b')"
  shows "rec_decoded b (decodeRecord (Suc fuel) (c # b))"
proof -
  have scalar: "rec_decoded b (bind_res (readZigzagInt b) (\<lambda>(n, rest). Inr (VInt n, rest)))"
    "rec_decoded b (bind_res (readBlob b) (\<lambda>(s, rest). Inr (VString s, rest)))"
    "rec_decoded b (bind_res (readBlob b) (\<lambda>(s, rest). Inr (VBytes s, rest)))"
    "rec_decoded b (bind_res (readZigzagInt b) (\<lambda>(n, rest). Inr (VDate n, rest)))"
    "rec_decoded b (bind_res (readUvarint b) (\<lambda>(id, rest). Inr (VNode id, rest)))"
    "rec_decoded b (bind_res (readUvarint b) (\<lambda>(id, rest). Inr (VEdge id, rest)))"
    by (intro reader_bind readers; simp)+
  have small: "rec_decoded b (case b of [] \<Rightarrow> truncatedRecord | c # b' \<Rightarrow> Inr (VBool (c \<noteq> 0), b'))"
    "rec_decoded b (if length b < 8 then truncatedRecord else Inr (VFloat (word_of_nat (le_get (take 8 b))), drop 8 b))"
    "rec_decoded b (Inr (VNull, b))" "rec_decoded b (Inl (ErrNum ''value: unknown record kind'' (unat c)))"
    by (auto split: list.split)
  have nested: "rec_decoded b (bind_res (readUvarint b) (\<lambda>(n, rest).
         bind_res (makeslice sizeofValue (unat n)) (\<lambda>_. decodeRecordList fuel (unat n) [] rest)))"
    "rec_decoded b (bind_res (readUvarint b) (\<lambda>(n, rest). decodeRecordMap fuel (unat n) [] rest))"
    by (intro reader_bind_strict makeslice_bind assms; assumption)+
  show ?thesis
    unfolding decodeRecord.simps list.case using scalar small nested rec_decoded_parts by presburger
qed

lemma decodeRecordList_total:
  assumes k: "strictly b (decodeRecord fuel b)" and e: "\<forall>x \<in> set elems. shape_ok x"
    and l: "\<And>el r. shape_ok el \<Longrightarrow> length r < length b \<Longrightarrow> rec_decoded r (decodeRecordList fuel (n - 1) (elems @ [el]) r)"
  shows "rec_decoded b (decodeRecordList (Suc fuel) n elems b)"
proof (cases "decodeRecord fuel b")
  case (Inr p)
  obtain el r where p: "p = (el, r)" by fastforce
  with Inr k have "shape_ok el" "length r < length b" by (auto simp: strictly_def)
  with Inr p e l [of el r] show ?thesis by (auto intro: rec_decoded_mono)
qed (use k e in \<open>auto simp: strictly_def\<close>)

lemma decodeRecordMap_total:
  assumes k: "\<And>r. length r \<le> length b \<Longrightarrow> strictly r (decodeRecord fuel r)"
    and m: "distinct (map fst m)" "\<forall>e \<in> set m. shape_ok (snd e)"
    and l: "\<And>s v r. shape_ok v \<Longrightarrow> length r < length b \<Longrightarrow> rec_decoded r (decodeRecordMap fuel (n - 1) (AList.update s v m) r)"
  shows "rec_decoded b (decodeRecordMap (Suc fuel) n m b)"
proof -
  have "rec_decoded b (bind_res (readBlob b) (\<lambda>(kb, r).
      bind_res (decodeRecord fuel r) (\<lambda>(v, r). decodeRecordMap fuel (n - 1) (AList.update kb v m) r)))"
  proof (rule reader_bind [OF readers(3)])
    fix kb and r :: bytes assume r: "length r \<le> length b"
    show "rec_decoded r (bind_res (decodeRecord fuel r) (\<lambda>(v, r). decodeRecordMap fuel (n - 1) (AList.update kb v m) r))"
    proof (cases "decodeRecord fuel r")
      case (Inr p)
      obtain v r' where p: "p = (v, r')" by fastforce
      with Inr k [OF r] have "shape_ok v" "length r' < length r" by (auto simp: strictly_def)
      with Inr p r l [of v r' kb] show ?thesis by (auto intro: rec_decoded_mono)
    qed (use k [OF r] in \<open>simp add: strictly_def\<close>)
  qed
  with m show ?thesis by (simp add: Map_v_def sortKVs_strict)
qed

lemma rec_decoded_all:
  "(2 * length b + 1 \<le> fuel \<longrightarrow> strictly b (decodeRecord fuel b)) \<and>
   (2 * length b + 2 \<le> fuel \<longrightarrow> (\<forall>x \<in> set elems. shape_ok x) \<longrightarrow> rec_decoded b (decodeRecordList fuel n elems b)) \<and>
   (2 * length b + 2 \<le> fuel \<longrightarrow> distinct (map fst m) \<longrightarrow> (\<forall>e \<in> set m. shape_ok (snd e)) \<longrightarrow>
      rec_decoded b (decodeRecordMap fuel n m b))"
proof (induction fuel arbitrary: b elems n m)
  case (Suc fuel)
  note IHk = Suc.IH [THEN conjunct1, rule_format]
  note IHl = Suc.IH [THEN conjunct2, THEN conjunct1, rule_format]
  note IHm = Suc.IH [THEN conjunct2, THEN conjunct2, rule_format]
  have 1: "strictly b (decodeRecord (Suc fuel) b)" if "2 * length b + 1 \<le> Suc fuel"
  proof (cases b)
    case (Cons c b')
    then have "rec_decoded b' (decodeRecord (Suc fuel) (c # b'))"
      using that by (intro decodeRecord_total IHl IHm) auto
    then show ?thesis unfolding Cons by (rule strictly_Cons)
  qed (simp add: strictly_def truncatedRecord_def)
  have 2: "rec_decoded b (decodeRecordList (Suc fuel) n elems b)"
    if "2 * length b + 2 \<le> Suc fuel" "\<forall>x \<in> set elems. shape_ok x"
    using that by (intro decodeRecordList_total IHk IHl) auto
  have 3: "rec_decoded b (decodeRecordMap (Suc fuel) n m b)"
    if "2 * length b + 2 \<le> Suc fuel" "distinct (map fst m)" "\<forall>e \<in> set m. shape_ok (snd e)"
    using that by (intro decodeRecordMap_total IHk IHm) (auto simp: distinct_update dest!: AList_update_set)
  from 1 2 3 show ?case by blast
qed simp

lemma record_read_back:
  assumes "shape_ok v" and "fits_memory v"
  shows "DecodeRecord (EncodeRecord v) = Inr v"
proof -
  have "decodeRecord (2 * length (recb v) + 1) (recb v @ []) = Inr (v, [])"
    using rec_roundtrip_ok [OF assms] unfolding rec_roundtrip_def by blast
  then show ?thesis by (simp add: EncodeRecord_def appendRecord_recb DecodeRecord_def)
qed

section \<open>Properties\<close>

text \<open>
  C3. Records preserve values exactly, kind, sign of zero and NaN payload included: decoding an
  encoded value of the shape the constructors build returns that very value.
\<close>

theorem DecodeRecord_EncodeRecord:
  assumes "shape_ok v" and "fits_memory v"
  shows "DecodeRecord (EncodeRecord v) = Inr v"
  using assms by (rule record_read_back)

theorem DecodeRecord_EncodeRecord_witness:
  "DecodeRecord (EncodeRecord (VMap [([97], VFloat 0x8000000000000000), ([98], VList [VNull])]))
    = Inr (VMap [([97], VFloat 0x8000000000000000), ([98], VList [VNull])])"
  by (rule DecodeRecord_EncodeRecord) (simp_all add: maxAlloc_def sizeofValue_def)

text \<open>
  C38. On any bytes the record decoder ends (the fuel of the model suffices) with an error, a panic,
  or a value whose maps are in strict key order and whose paths alternate properly.
\<close>

theorem DecodeRecord_total:
  "case DecodeRecord b of Inl e \<Rightarrow> e \<noteq> OutOfFuel | Inr v \<Rightarrow> shape_ok v"
proof (cases b)
  case (Cons c b')
  have "strictly b' (decodeRecord (2 * length b' + 1) b')" using rec_decoded_all by blast
  then show ?thesis unfolding Cons
    by (cases "decodeRecord (2 * length b' + 1) b'") (auto simp: DecodeRecord_def strictly_def)
qed (simp add: DecodeRecord_def truncatedRecord_def)

text \<open>
  C39. The one panic: a list record whose count does not fit the address space makes
  \<open>DecodeRecord\<close> panic instead of returning the truncation error, although the input is only a
  few bytes long.
\<close>

theorem DecodeRecord_panics:
  assumes "maxAlloc < n * sizeofValue" and "n < 2 ^ 64"
  shows "DecodeRecord (RecordFormatVersion # kind_byte KindList # putUvarint n)
    = Inl (Panic ''runtime error: makeslice: cap out of range'')"
proof -
  have u: "unat (word_of_nat n :: uint64) = n" using assms(2) by (simp add: unat_of_nat take_bit_nat_eq_self)
  have "readUvarint (putUvarint n) = Inr (word_of_nat n, [])"
    using readUvarint_append [of "word_of_nat n" "[]"] unfolding u by simp
  then show ?thesis using assms(1) u by (simp add: DecodeRecord_def makeslice_def)
qed

theorem DecodeRecord_panics_witness:
  "DecodeRecord (RecordFormatVersion # kind_byte KindList # putUvarint (2 ^ 41))
    = Inl (Panic ''runtime error: makeslice: cap out of range'')"
  by (rule DecodeRecord_panics) (simp_all add: maxAlloc_def sizeofValue_def)

end
