(* ===== verification/ValueHash.thy ===== *)
theory ValueHash
  imports RecordCodec
begin

text \<open>
  The FNV-1a hash of \<^verbatim>\<open>internal/value/hash.go\<close> on 64-bit words, and the law its callers rely on:
  values that are equal in the order hash alike, across integer and float, signed zeros and NaN
  payloads, also inside lists and maps.
\<close>

definition fnvOffset :: uint64 where "fnvOffset = 14695981039346656037"
definition fnvPrime :: uint64 where "fnvPrime = 1099511628211"

definition hashByte :: "uint64 \<Rightarrow> byte \<Rightarrow> uint64" where
  "hashByte h b = (h XOR ucast b) * fnvPrime"

definition hashBytes :: "uint64 \<Rightarrow> bytes \<Rightarrow> uint64" where
  "hashBytes h b = foldl hashByte h b"

definition hashString :: "uint64 \<Rightarrow> gostring \<Rightarrow> uint64" where
  "hashString h s = foldl hashByte h s"

fun hashUint64_loop :: "nat \<Rightarrow> uint64 \<Rightarrow> uint64 \<Rightarrow> uint64" where
  "hashUint64_loop 0 h v = h"
| "hashUint64_loop (Suc n) h v = hashUint64_loop n (hashByte h (ucast v)) (drop_bit 8 v)"

definition hashUint64 :: "uint64 \<Rightarrow> uint64 \<Rightarrow> uint64" where
  "hashUint64 h v = hashUint64_loop 8 h v"

fun hashNumber :: "val \<Rightarrow> uint64" where
  "hashNumber (VInt i) = hashUint64 (hashByte fnvOffset (kind_byte KindInt)) i"
| "hashNumber (VFloat x) =
     (let h = hashByte fnvOffset (kind_byte KindInt); f = canonicalFloat x in
      if IsNaN f then hashUint64 h 0x7ff8000000000001
      else case floatIsExactInt64 f of Some i \<Rightarrow> hashUint64 h i | None \<Rightarrow> hashUint64 h f)"
| "hashNumber v = 0"

fun Hash :: "val \<Rightarrow> uint64" where
  "Hash (VInt i) = hashNumber (VInt i)"
| "Hash (VFloat f) = hashNumber (VFloat f)"
| "Hash VNull = hashByte fnvOffset (kind_byte KindNull)"
| "Hash (VBool b) = hashByte (hashByte fnvOffset (kind_byte KindBool)) (if b then 1 else 0)"
| "Hash (VString s) = hashString (hashByte fnvOffset (kind_byte KindString)) s"
| "Hash (VBytes r) = hashBytes (hashByte fnvOffset (kind_byte KindBytes)) r"
| "Hash (VDate d) = hashUint64 (hashByte fnvOffset (kind_byte KindDate)) d"
| "Hash (VDateTime n z) =
     (let h = hashUint64 (hashByte fnvOffset (kind_byte KindDateTime)) n in
      case z of None \<Rightarrow> hashByte h 0 | Some off \<Rightarrow> hashUint64 (hashByte h 1) (ucast off))"
| "Hash (VDuration m d n) =
     hashUint64 (hashUint64 (hashUint64 (hashByte fnvOffset (kind_byte KindDuration)) m) d) n"
| "Hash (VList xs) =
     foldl (\<lambda>h el. hashUint64 h (Hash el))
       (hashUint64 (hashByte fnvOffset (kind_byte KindList)) (word_of_nat (length xs))) xs"
| "Hash (VMap kvs) =
     foldl (\<lambda>h e. hashUint64 (hashString h (fst e)) (Hash (snd e)))
       (hashUint64 (hashByte fnvOffset (kind_byte KindMap)) (word_of_nat (length kvs))) kvs"
| "Hash (VNode u) = hashUint64 (hashByte fnvOffset (kind_byte KindNode)) u"
| "Hash (VEdge u) = hashUint64 (hashByte fnvOffset (kind_byte KindEdge)) u"
| "Hash (VPath ns es) =
     foldl hashUint64
       (hashUint64
         (foldl hashUint64
           (hashUint64 (hashByte fnvOffset (kind_byte KindPath)) (word_of_nat (length ns))) ns)
         (word_of_nat (length es))) es"

section \<open>Equal values hash alike\<close>

lemma Hash_canon_float: "Hash (canon_val (VFloat f)) = Hash (VFloat f)"
proof -
  have "floatIsExactInt64 (canonicalFloat f) = floatIsExactInt64 f" if "\<not> IsNaN f"
    using that by (metis canonicalFloat_NaN canonicalFloat_val floatIsExactInt64_iff not_None_eq)
  then show ?thesis by (auto simp: Let_def split: option.split)
qed

lemma Hash_canon_val: "Hash (canon_val v) = Hash v"
proof (induction v rule: measure_induct_rule [where f = size])
  case (less v)
  show ?case
  proof (cases v)
    case (VList xs)
    have "Hash (canon_val x) = Hash x" if "x \<in> set xs" for x
      using less val_size_list [OF that] unfolding VList by simp
    then show ?thesis unfolding VList by (simp add: foldl_map cong: foldl_cong)
  next
    case (VMap kvs)
    have "Hash (canon_val (snd e)) = Hash (snd e)" if "e \<in> set kvs" for e
      using less val_size_map [OF that] unfolding VMap by simp
    then show ?thesis unfolding VMap by (simp add: foldl_map cong: foldl_cong)
  qed (simp_all only: Hash_canon_float canon_val.simps(4-))
qed

lemma Equal_canon_eq:
  assumes "wf_val a" and "wf_val b" and "Equal a b"
  shows "canon_val a = canon_val b"
proof -
  have "EncodeKey a = EncodeKey b" using assms by (simp add: EncodeKey_eq_iff)
  moreover have "decodeKey (2 * length (EncodeKey v) + 1) (EncodeKey v @ []) = Inr (canon_val v, [])" if "wf_val v" for v
    using that by (intro key_roundtripD key_roundtrip_wf) simp_all
  ultimately show ?thesis using assms(1,2) by (metis Pair_inject sum.inject(2))
qed

section \<open>Properties\<close>

text \<open>C4. \<open>Hash\<close> is consistent with \<open>Equal\<close>: equal well-formed values have one hash.\<close>

theorem Hash_Equal:
  assumes "wf_val a" and "wf_val b" and "Equal a b"
  shows "Hash a = Hash b"
  using Equal_canon_eq [OF assms] Hash_canon_val by metis

theorem Hash_Equal_witness: "Hash (VList [VFloat 0x8000000000000000]) = Hash (VList [VInt 0])"
proof (rule Hash_Equal)
  have "fl_ext 0x8000000000000000 = 0"
    by (simp add: fl_ext_def IsNaN_def fl_mag_def fl_val_def inf_mag_def)
  then show "Equal (VList [VFloat 0x8000000000000000]) (VList [VInt 0])"
    by (simp add: Equal_def Compare_same Let_def Compare_number compareIntFloat_num cmpInt_def cmp3_def)
qed simp_all

end
