(* ===== verification/Storage.thy ===== *)
theory Storage
  imports Prelude "HOL-Library.AList" "HOL-Library.Multiset"
begin

text \<open>
  The key-value interface of \<^verbatim>\<open>internal/storage/engine.go\<close>, the error taxonomy of
  \<^verbatim>\<open>internal/gerr\<close>, and what an implementation of the interface promises.

  Go's interface values are dictionaries of methods: \<open>engine_ops\<close> is that dictionary, over the
  state \<open>'e\<close> of the engine and the type \<open>'c\<close> of its cursors. A transaction is a handle into the
  engine's state. Every method returns the state it leaves, also when it fails. The locale
  \<open>kv_engine\<close> states the contract that the comments of the interface give, as laws over the
  \<open>view\<close> of a transaction and the \<open>committed\<close> contents of the engine.

  Go maps are association lists: \<open>map_of\<close> reads, \<open>AList.update\<close> writes, \<open>AList.delete\<close>
  deletes, and the order of the list is the order in which a \<open>range\<close> loop happens to visit it.
\<close>

section \<open>Errors\<close>

datatype gcode = NotFound | AlreadyExists | InvalidArgument | Syntax | Semantic
  | ConstraintViolation | Conflict | Unauthenticated | PermissionDenied | ResourceExhausted
  | Corruption | Unavailable | Internal

fun Code_Retryable :: "gcode \<Rightarrow> bool" where
  "Code_Retryable Conflict = True"
| "Code_Retryable Unavailable = True"
| "Code_Retryable ResourceExhausted = True"
| "Code_Retryable _ = False"

text \<open>
  An error is a sentinel of the storage package, a classified error with its optional cause, an
  error of the graph store with what it is about, or some other error with its text. A panic takes
  the place of an error.
\<close>

datatype sterr = ErrNotFound | ErrReadOnly | ErrClosed | ErrDone
  | GErr gcode string "sterr option"
  | GraphNotFound string uint64
  | GraphInvalid string gostring
  | ErrText string
  | ErrPanic string
  | ErrFuel

definition gerr_New :: "gcode \<Rightarrow> string \<Rightarrow> sterr" where
  "gerr_New code message = GErr code message None"

definition gerr_Wrap :: "gcode \<Rightarrow> string \<Rightarrow> sterr \<Rightarrow> sterr" where
  "gerr_Wrap code message e = GErr code message (Some e)"

fun CodeOf :: "sterr \<Rightarrow> gcode" where
  "CodeOf (GErr code m c) = code"
| "CodeOf e = Internal"

definition IsCode :: "sterr \<Rightarrow> gcode \<Rightarrow> bool" where
  "IsCode e code \<longleftrightarrow> CodeOf e = code"

fun gerr_Retryable :: "sterr \<Rightarrow> bool" where
  "gerr_Retryable (GErr code m c) = Code_Retryable code"
| "gerr_Retryable e = False"

text \<open>\<^verbatim>\<open>errors.Is(err, storage.ErrNotFound)\<close>, which follows the causes of a wrapped error.\<close>

fun isNotFound :: "sterr \<Rightarrow> bool" where
  "isNotFound ErrNotFound = True"
| "isNotFound (GErr code m (Some e)) = isNotFound e"
| "isNotFound e = False"

type_synonym 'a sresult = "sterr + 'a"

section \<open>Keyspaces\<close>

type_synonym keyspace = byte

definition KSNode :: keyspace where "KSNode = 78"
definition KSEdge :: keyspace where "KSEdge = 69"
definition KSOut :: keyspace where "KSOut = 79"
definition KSIn :: keyspace where "KSIn = 73"
definition KSLabel :: keyspace where "KSLabel = 76"
definition KSEdgeType :: keyspace where "KSEdgeType = 84"
definition KSProp :: keyspace where "KSProp = 80"
definition KSCatalog :: keyspace where "KSCatalog = 67"
definition KSVersion :: keyspace where "KSVersion = 86"

lemmas keyspace_defs = KSNode_def KSEdge_def KSOut_def KSIn_def KSLabel_def KSEdgeType_def
  KSProp_def KSCatalog_def KSVersion_def

type_synonym ('k, 'v) gomap = "('k \<times> 'v) list"

text \<open>
  The error an installed hook returns when it is called; the outer \<open>None\<close> is a nil hook. Hooks are
  the caller's code, so every outcome is possible.
\<close>

record hooks =
  BeforeCommit :: "sterr option option"
  AfterCommit :: "sterr option option"

definition run_hook :: "sterr option option \<Rightarrow> sterr option" where
  "run_hook h = (case h of None \<Rightarrow> None | Some r \<Rightarrow> r)"

record engine_stats =
  Stats_Keys :: int
  Stats_Commits :: uint64
  Stats_Rollbacks :: uint64

section \<open>The interface\<close>

text \<open>
  \<open>ops_LogAbort\<close> is the method of the optional \<open>AbortLogger\<close> interface, the identity where an
  engine does not implement it. \<open>ops_bound\<close> is not a method: it bounds the number of entries a cursor of the transaction can
  visit, and is the fuel of the loops that walk a cursor.
\<close>

record ('e, 'c) engine_ops =
  ops_Begin :: "'e \<Rightarrow> bool \<Rightarrow> 'e \<times> nat sresult"
  ops_Get :: "'e \<Rightarrow> nat \<Rightarrow> keyspace \<Rightarrow> bytes \<Rightarrow> 'e \<times> bytes sresult"
  ops_Put :: "'e \<Rightarrow> nat \<Rightarrow> keyspace \<Rightarrow> bytes \<Rightarrow> bytes \<Rightarrow> 'e \<times> unit sresult"
  ops_Delete :: "'e \<Rightarrow> nat \<Rightarrow> keyspace \<Rightarrow> bytes \<Rightarrow> 'e \<times> unit sresult"
  ops_Commit :: "'e \<Rightarrow> nat \<Rightarrow> 'e \<times> unit sresult"
  ops_Rollback :: "'e \<Rightarrow> nat \<Rightarrow> 'e \<times> unit sresult"
  ops_Cursor :: "'e \<Rightarrow> nat \<Rightarrow> keyspace \<Rightarrow> 'e \<times> 'c sresult"
  ops_Seek :: "'e \<Rightarrow> 'c \<Rightarrow> bytes option \<Rightarrow> 'e \<times> 'c \<times> bool"
  ops_Next :: "'e \<Rightarrow> 'c \<Rightarrow> 'e \<times> 'c \<times> bool"
  ops_Key :: "'e \<Rightarrow> 'c \<Rightarrow> bytes"
  ops_Value :: "'e \<Rightarrow> 'c \<Rightarrow> bytes"
  ops_CursorClose :: "'e \<Rightarrow> 'c \<Rightarrow> 'e \<times> 'c \<times> sterr option"
  ops_Sync :: "'e \<Rightarrow> unit sresult"
  ops_Close :: "'e \<Rightarrow> 'e \<times> unit sresult"
  ops_LogAbort :: "'e \<Rightarrow> uint64 \<Rightarrow> 'e"
  ops_bound :: "'e \<Rightarrow> nat \<Rightarrow> nat"

text \<open>
  Sequencing of calls that return the state and a result: an error skips what follows.
\<close>

fun sbind :: "'e \<times> 'a sresult \<Rightarrow> ('e \<Rightarrow> 'a \<Rightarrow> 'e \<times> 'b sresult) \<Rightarrow> 'e \<times> 'b sresult" where
  "sbind (e, Inl err) f = (e, Inl err)"
| "sbind (e, Inr x) f = f e x"

text \<open>
  Merging two key-sorted slices, as both the memory engine and the transaction manager do when
  they overlay a write set on committed entries.
\<close>

fun mergeKV :: "(bytes \<times> 'v) list \<Rightarrow> (bytes \<times> 'v) list \<Rightarrow> (bytes \<times> 'v) list" where
  "mergeKV (x # xs) (y # ys) =
     (if bytesCompare (fst x) (fst y) \<le> 0 then x # mergeKV xs (y # ys) else y # mergeKV (x # xs) ys)"
| "mergeKV xs ys = xs @ ys"

lemma bytesCompare_le [simp]: "bytesCompare a b \<le> 0 \<longleftrightarrow> a \<le> b"
  and bytesCompare_ge [simp]: "0 \<le> bytesCompare a b \<longleftrightarrow> b \<le> a"
  and bytesCompare_gt [simp]: "0 < bytesCompare a b \<longleftrightarrow> b < a"
  and bytesCompare_lt [simp]: "bytesCompare a b < 0 \<longleftrightarrow> a < b"
  by (auto simp: bytesCompare_cmp3 cmp3_def)

lemma mset_mergeKV: "mset (mergeKV xs ys) = mset xs + mset ys"
  by (induction xs ys rule: mergeKV.induct) auto

lemma set_mergeKV [simp]: "set (mergeKV xs ys) = set xs \<union> set ys"
  by (metis mset_mergeKV set_mset_mset set_mset_union)

lemma sorted_mergeKV:
  assumes "sorted_wrt (<) (map fst xs)" and "sorted_wrt (<) (map fst ys)"
    and "fst ` set xs \<inter> fst ` set ys = {}"
  shows "sorted_wrt (<) (map fst (mergeKV xs ys))"
  using assms
proof (induction xs ys rule: mergeKV.induct)
  case (1 x xs y ys)
  show ?case
  proof (cases "fst x \<le> fst y")
    case True
    then have "fst x < fst y" using "1.prems"(3) by (auto simp: order_less_le)
    with True 1 show ?thesis by (auto intro: less_trans)
  next
    case False
    with 1 show ?thesis by (auto simp: not_le intro: less_trans)
  qed
qed auto

section \<open>The contract\<close>

text \<open>
  \<open>live e h\<close> means the transaction can still be used, \<open>writable\<close> that it also accepts writes, and
  \<open>exclusive\<close> that nothing was committed since it began. \<open>rest\<close> lists the entries from the
  cursor's position on.
\<close>

type_synonym kvview = "keyspace \<Rightarrow> bytes \<Rightarrow> bytes option"

definition upd_view :: "kvview \<Rightarrow> keyspace \<Rightarrow> bytes \<Rightarrow> bytes option \<Rightarrow> kvview" where
  "upd_view V ks k v = (\<lambda>ks' k'. if ks' = ks \<and> k' = k then v else V ks' k')"

lemma upd_view_apply: "upd_view V ks k v ks' k' = (if ks' = ks \<and> k' = k then v else V ks' k')"
  by (simp add: upd_view_def)

definition entries :: "(bytes \<Rightarrow> bytes option) \<Rightarrow> (bytes \<times> bytes) list \<Rightarrow> bool" where
  "entries m xs \<longleftrightarrow> sorted_wrt (<) (map fst xs) \<and> map_of xs = m"

lemma entries_unique:
  assumes "entries m xs" and "entries m ys"
  shows "xs = ys"
proof (rule map_sorted_distinct_set_unique [where f = fst])
  have d: "distinct (map fst xs)" "distinct (map fst ys)"
    using assms by (auto simp: entries_def strict_sorted_iff)
  show "set xs = set ys" using assms map_of_inject_set [OF d] by (simp add: entries_def)
  then show "inj_on fst (set xs \<union> set ys)" using d by (simp add: distinct_map)
  show "sorted (map fst xs)" "distinct (map fst xs)" "sorted (map fst ys)" "distinct (map fst ys)"
    using assms by (auto simp: entries_def strict_sorted_iff)
qed

locale kv_engine =
  fixes ops :: "('e, 'c) engine_ops"
    and inv :: "'e \<Rightarrow> bool"
    and usable :: "'e \<Rightarrow> bool"
    and live :: "'e \<Rightarrow> nat \<Rightarrow> bool"
    and writable :: "'e \<Rightarrow> nat \<Rightarrow> bool"
    and exclusive :: "'e \<Rightarrow> nat \<Rightarrow> bool"
    and view :: "'e \<Rightarrow> nat \<Rightarrow> kvview"
    and committed :: "'e \<Rightarrow> kvview"
    and rest :: "'e \<Rightarrow> 'c \<Rightarrow> (bytes \<times> bytes) list"
    and curtx :: "'c \<Rightarrow> nat"
    and curks :: "'c \<Rightarrow> keyspace"
    and curopen :: "'c \<Rightarrow> bool"
  assumes begin_ok: "inv e \<Longrightarrow> usable e \<Longrightarrow> \<exists>e' h. ops_Begin ops e r = (e', Inr h) \<and> inv e' \<and> usable e'
      \<and> committed e' = committed e \<and> live e' h \<and> writable e' h = (\<not> r) \<and> exclusive e' h
      \<and> view e' h = committed e"
    and get_ok: "inv e \<Longrightarrow> live e h \<Longrightarrow>
      ops_Get ops e h ks k = (e, case view e h ks k of None \<Rightarrow> Inl ErrNotFound | Some v \<Rightarrow> Inr v)"
    and put_ok: "inv e \<Longrightarrow> writable e h \<Longrightarrow> \<exists>e'. ops_Put ops e h ks k v = (e', Inr ()) \<and> inv e'
      \<and> usable e' = usable e \<and> committed e' = committed e \<and> writable e' h \<and> exclusive e' h = exclusive e h
      \<and> view e' h = upd_view (view e h) ks k (Some v)"
    and delete_ok: "inv e \<Longrightarrow> writable e h \<Longrightarrow> \<exists>e'. ops_Delete ops e h ks k = (e', Inr ()) \<and> inv e'
      \<and> usable e' = usable e \<and> committed e' = committed e \<and> writable e' h \<and> exclusive e' h = exclusive e h
      \<and> view e' h = upd_view (view e h) ks k None"
    and commit_ok: "inv e \<Longrightarrow> usable e \<Longrightarrow> writable e h \<Longrightarrow> exclusive e h \<Longrightarrow>
      \<exists>e'. ops_Commit ops e h = (e', Inr ()) \<and> inv e' \<and> usable e' \<and> committed e' = view e h"
    and rollback_ok: "inv e \<Longrightarrow> live e h \<Longrightarrow> \<exists>e'. ops_Rollback ops e h = (e', Inr ()) \<and> inv e'
      \<and> usable e' = usable e \<and> committed e' = committed e"
    and writable_live: "writable e h \<Longrightarrow> live e h"
    and cursor_ok: "inv e \<Longrightarrow> live e h \<Longrightarrow> \<exists>c. ops_Cursor ops e h ks = (e, Inr c)
      \<and> curtx c = h \<and> curks c = ks \<and> curopen c"
    and seek_ok: "inv e \<Longrightarrow> live e (curtx c) \<Longrightarrow> curopen c \<Longrightarrow> \<exists>c' xs. entries (view e (curtx c) (curks c)) xs
      \<and> ops_Seek ops e c t = (e, c', rest e c' \<noteq> []) \<and> curtx c' = curtx c \<and> curks c' = curks c \<and> curopen c'
      \<and> rest e c' = (case t of None \<Rightarrow> xs | Some t \<Rightarrow> filter (\<lambda>x. t \<le> fst x) xs)
      \<and> length xs \<le> ops_bound ops e (curtx c)"
    and next_ok: "inv e \<Longrightarrow> live e (curtx c) \<Longrightarrow> rest e c = x # xs \<Longrightarrow>
      \<exists>c'. ops_Next ops e c = (e, c', xs \<noteq> []) \<and> curtx c' = curtx c \<and> rest e c' = xs"
    and key_ok: "inv e \<Longrightarrow> live e (curtx c) \<Longrightarrow> rest e c = x # xs \<Longrightarrow>
      ops_Key ops e c = fst x \<and> ops_Value ops e c = snd x"
    and log_abort_ok: "inv e \<Longrightarrow> inv (ops_LogAbort ops e i) \<and> usable (ops_LogAbort ops e i) = usable e
      \<and> committed (ops_LogAbort ops e i) = committed e"
    and close_ok: "inv e \<Longrightarrow> live e (curtx c) \<Longrightarrow> \<exists>c'. ops_CursorClose ops e c = (e, c', None)"

end
