(* ===== verification/MemEngine.thy ===== *)
theory MemEngine
  imports Storage
begin

text \<open>
  The in-memory engine of \<^verbatim>\<open>internal/storage/memory/engine.go\<close>: a snapshot per commit, each keyspace
  a sorted key slice with a value map, transactions that buffer writes over the snapshot they began
  on, savepoints, and cursors over a materialised merge. Methods run under one mutex, so each is
  one atomic step on the state; transactions are handles into the engine's table of transactions,
  because \<open>Crash\<close> and \<open>Close\<close> finish transactions their owners still hold. Slices are copied on
  the way in and out by the code, so values stand for them. A handle that no \<open>Begin\<close> returned is
  treated as a finished transaction.
\<close>

section \<open>State\<close>

record space =
  sp_keys :: "bytes list"
  sp_vals :: "(bytes, bytes) gomap"

type_synonym snapshot = "(keyspace, space) gomap"

record memWriteOp =
  wo_val :: bytes
  wo_del :: bool

type_synonym memWrites = "(keyspace, (bytes, memWriteOp) gomap) gomap"

record memTx =
  mt_snap :: snapshot
  mt_writes :: memWrites
  mt_marks :: "memWrites list"
  mt_ro :: bool
  mt_done :: bool

record memEngine =
  me_current :: snapshot
  me_hooks :: hooks
  me_open :: "nat list"
  me_txs :: "nat \<rightharpoonup> memTx"
  me_next :: nat
  me_closed :: bool
  me_commits :: uint64
  me_rollbacks :: uint64

record memCursor =
  mc_tx :: nat
  mc_ks :: keyspace
  mc_keys :: "bytes list"
  mc_vals :: "bytes list"
  mc_idx :: int
  mc_closed :: bool

definition no_hooks :: hooks where
  "no_hooks = \<lparr>BeforeCommit = None, AfterCommit = None\<rparr>"

definition mem_Open :: memEngine where
  "mem_Open = \<lparr>me_current = [], me_hooks = no_hooks, me_open = [], me_txs = Map.empty, me_next = 0,
     me_closed = False, me_commits = 0, me_rollbacks = 0\<rparr>"

definition tx_of :: "memEngine \<Rightarrow> nat \<Rightarrow> memTx" where
  "tx_of e h = (case me_txs e h of
     Some t \<Rightarrow> t
   | None \<Rightarrow> \<lparr>mt_snap = [], mt_writes = [], mt_marks = [], mt_ro = True, mt_done = True\<rparr>)"

definition set_tx :: "memEngine \<Rightarrow> nat \<Rightarrow> memTx \<Rightarrow> memEngine" where
  "set_tx e h t = e\<lparr>me_txs := (me_txs e)(h \<mapsto> t)\<rparr>"

section \<open>One keyspace\<close>

definition space_search :: "bytes list \<Rightarrow> bytes \<Rightarrow> nat" where
  "space_search keys kb = sortSearch (length keys) (\<lambda>i. bytesCompare (keys ! i) kb \<ge> 0)"

definition space_put :: "space \<Rightarrow> bytes \<Rightarrow> bytes \<Rightarrow> space" where
  "space_put s key v =
     (let i = space_search (sp_keys s) key in
      if i < length (sp_keys s) \<and> sp_keys s ! i = key
      then s\<lparr>sp_vals := AList.update key v (sp_vals s)\<rparr>
      else s\<lparr>sp_keys := take i (sp_keys s) @ key # drop i (sp_keys s),
             sp_vals := AList.update key v (sp_vals s)\<rparr>)"

definition space_del :: "space \<Rightarrow> bytes \<Rightarrow> space" where
  "space_del s key =
     (let i = space_search (sp_keys s) key in
      if i \<ge> length (sp_keys s) \<or> sp_keys s ! i \<noteq> key then s
      else s\<lparr>sp_keys := take i (sp_keys s) @ drop (i + 1) (sp_keys s),
             sp_vals := AList.delete key (sp_vals s)\<rparr>)"

definition snapshot_ensure :: "snapshot \<Rightarrow> keyspace \<Rightarrow> space" where
  "snapshot_ensure s ks = (case map_of s ks of None \<Rightarrow> \<lparr>sp_keys = [], sp_vals = []\<rparr> | Some sp \<Rightarrow> sp)"

definition keyCount :: "snapshot \<Rightarrow> nat" where
  "keyCount s = sum_list (map (\<lambda>e. length (sp_keys (snd e))) s)"

section \<open>The engine\<close>

definition mem_Begin :: "memEngine \<Rightarrow> bool \<Rightarrow> memEngine \<times> nat sresult" where
  "mem_Begin e readOnly =
     (if me_closed e then (e, Inl ErrClosed)
      else
        let tx = \<lparr>mt_snap = me_current e, mt_writes = [], mt_marks = [], mt_ro = readOnly, mt_done = False\<rparr>;
            h = me_next e in
        (set_tx e h tx\<lparr>me_open := h # me_open e, me_next := h + 1\<rparr>, Inr h))"

definition mem_Sync :: "memEngine \<Rightarrow> unit sresult" where
  "mem_Sync e = (if me_closed e then Inl ErrClosed else Inr ())"

definition mem_Stats :: "memEngine \<Rightarrow> engine_stats" where
  "mem_Stats e = \<lparr>Stats_Keys = int (keyCount (me_current e)), Stats_Commits = me_commits e,
     Stats_Rollbacks = me_rollbacks e\<rparr>"

definition mem_SetHooks :: "memEngine \<Rightarrow> hooks \<Rightarrow> memEngine" where
  "mem_SetHooks e h = e\<lparr>me_hooks := h\<rparr>"

definition abort_tx :: "memTx \<Rightarrow> memTx" where
  "abort_tx t = t\<lparr>mt_done := True, mt_writes := []\<rparr>"

definition mem_Crash :: "memEngine \<Rightarrow> memEngine \<times> unit sresult" where
  "mem_Crash e =
     (if me_closed e then (e, Inl ErrClosed)
      else
        let e' = foldl (\<lambda>e h. (set_tx e h (abort_tx (tx_of e h)))\<lparr>me_rollbacks := me_rollbacks e + 1\<rparr>)
                   e (me_open e) in
        (e'\<lparr>me_open := []\<rparr>, Inr ()))"

definition mem_Close :: "memEngine \<Rightarrow> memEngine \<times> unit sresult" where
  "mem_Close e =
     (if me_closed e then (e, Inr ())
      else
        let e' = foldl (\<lambda>e h. set_tx e h (abort_tx (tx_of e h))) e (me_open e) in
        (e'\<lparr>me_open := [], me_closed := True\<rparr>, Inr ()))"

section \<open>Transactions\<close>

definition tx_op :: "memTx \<Rightarrow> keyspace \<Rightarrow> bytes \<Rightarrow> memWriteOp option" where
  "tx_op t ks key = (case map_of (mt_writes t) ks of None \<Rightarrow> None | Some ops \<Rightarrow> map_of ops key)"

definition mem_Get :: "memEngine \<Rightarrow> nat \<Rightarrow> keyspace \<Rightarrow> bytes \<Rightarrow> memEngine \<times> bytes sresult" where
  "mem_Get e h ks key =
     (let t = tx_of e h in
      (e, if mt_done t then Inl ErrDone
          else case tx_op t ks key of
            Some op \<Rightarrow> if wo_del op then Inl ErrNotFound else Inr (wo_val op)
          | None \<Rightarrow>
              (case map_of (mt_snap t) ks of
                 None \<Rightarrow> Inl ErrNotFound
               | Some sp \<Rightarrow> (case map_of (sp_vals sp) key of None \<Rightarrow> Inl ErrNotFound | Some v \<Rightarrow> Inr v))))"

definition tx_write :: "memTx \<Rightarrow> keyspace \<Rightarrow> bytes \<Rightarrow> memWriteOp \<Rightarrow> memTx" where
  "tx_write t ks key op =
     (let ops = (case map_of (mt_writes t) ks of None \<Rightarrow> [] | Some ops \<Rightarrow> ops) in
      t\<lparr>mt_writes := AList.update ks (AList.update key op ops) (mt_writes t)\<rparr>)"

definition mem_Put :: "memEngine \<Rightarrow> nat \<Rightarrow> keyspace \<Rightarrow> bytes \<Rightarrow> bytes \<Rightarrow> memEngine \<times> unit sresult" where
  "mem_Put e h ks key v =
     (let t = tx_of e h in
      if mt_done t then (e, Inl ErrDone)
      else if mt_ro t then (e, Inl ErrReadOnly)
      else (set_tx e h (tx_write t ks key \<lparr>wo_val = v, wo_del = False\<rparr>), Inr ()))"

definition mem_Delete :: "memEngine \<Rightarrow> nat \<Rightarrow> keyspace \<Rightarrow> bytes \<Rightarrow> memEngine \<times> unit sresult" where
  "mem_Delete e h ks key =
     (let t = tx_of e h in
      if mt_done t then (e, Inl ErrDone)
      else if mt_ro t then (e, Inl ErrReadOnly)
      else (set_tx e h (tx_write t ks key \<lparr>wo_val = [], wo_del = True\<rparr>), Inr ()))"

definition finishLocked :: "memEngine \<Rightarrow> nat \<Rightarrow> memEngine" where
  "finishLocked e h =
     (set_tx e h ((tx_of e h)\<lparr>mt_done := True, mt_writes := [], mt_marks := []\<rparr>))
       \<lparr>me_open := removeAll h (me_open e)\<rparr>"

definition apply_op :: "space \<Rightarrow> bytes \<times> memWriteOp \<Rightarrow> space" where
  "apply_op sp kop = (if wo_del (snd kop) then space_del sp (fst kop) else space_put sp (fst kop) (wo_val (snd kop)))"

definition apply_ops :: "snapshot \<Rightarrow> keyspace \<times> (bytes, memWriteOp) gomap \<Rightarrow> snapshot" where
  "apply_ops s kops =
     AList.update (fst kops) (foldl apply_op (snapshot_ensure s (fst kops)) (snd kops)) s"

definition mem_Commit :: "memEngine \<Rightarrow> nat \<Rightarrow> memEngine \<times> unit sresult" where
  "mem_Commit e h =
     (let t = tx_of e h in
      if me_closed e then (e, Inl ErrClosed)
      else if mt_done t then (e, Inl ErrDone)
      else if mt_ro t \<or> mt_writes t = [] then
        ((finishLocked e h)\<lparr>me_commits := me_commits e + 1\<rparr>, Inr ())
      else case run_hook (BeforeCommit (me_hooks e)) of
        Some err \<Rightarrow> (e, Inl err)
      | None \<Rightarrow>
          let next = foldl apply_ops (me_current e) (mt_writes t);
              e' = (finishLocked (e\<lparr>me_current := next\<rparr>) h)\<lparr>me_commits := me_commits e + 1\<rparr> in
          (case run_hook (AfterCommit (me_hooks e)) of
             Some err \<Rightarrow> (e', Inl err)
           | None \<Rightarrow> (e', Inr ())))"

definition mem_Rollback :: "memEngine \<Rightarrow> nat \<Rightarrow> memEngine \<times> unit sresult" where
  "mem_Rollback e h =
     (if mt_done (tx_of e h) then (e, Inl ErrDone)
      else ((finishLocked e h)\<lparr>me_rollbacks := me_rollbacks e + 1\<rparr>, Inr ()))"

definition mem_Mark :: "memEngine \<Rightarrow> nat \<Rightarrow> memEngine \<times> nat sresult" where
  "mem_Mark e h =
     (let t = tx_of e h in
      if mt_done t then (e, Inl ErrDone)
      else (set_tx e h (t\<lparr>mt_marks := mt_marks t @ [mt_writes t]\<rparr>), Inr (length (mt_marks t) + 1)))"

definition mem_RollbackTo :: "memEngine \<Rightarrow> nat \<Rightarrow> int \<Rightarrow> memEngine \<times> unit sresult" where
  "mem_RollbackTo e h mark =
     (let t = tx_of e h in
      if mt_done t then (e, Inl ErrDone)
      else if mark < 1 \<or> mark > int (length (mt_marks t))
      then (e, Inl (gerr_New InvalidArgument ''savepoint is out of range''))
      else
        let m = nat mark - 1 in
        (set_tx e h (t\<lparr>mt_writes := mt_marks t ! m, mt_marks := take m (mt_marks t)\<rparr>), Inr ()))"

section \<open>Cursors\<close>

text \<open>
  \<open>materialize\<close>: the committed entries with the overlay applied, merged with the overlay's new
  keys in order.
\<close>

definition tx_overlay :: "memTx \<Rightarrow> keyspace \<Rightarrow> (bytes, memWriteOp) gomap" where
  "tx_overlay t ks = (case map_of (mt_writes t) ks of None \<Rightarrow> [] | Some ops \<Rightarrow> ops)"

definition base_item :: "(bytes, memWriteOp) gomap \<Rightarrow> space \<Rightarrow> bytes \<Rightarrow> (bytes \<times> bytes) list" where
  "base_item overlay sp k = (case map_of overlay k of
     Some op \<Rightarrow> if wo_del op then [] else [(k, wo_val op)]
   | None \<Rightarrow> [(k, case map_of (sp_vals sp) k of None \<Rightarrow> [] | Some v \<Rightarrow> v)])"

definition extra_items :: "(bytes, memWriteOp) gomap \<Rightarrow> bytes list \<Rightarrow> (bytes \<times> bytes) list" where
  "extra_items overlay seen =
     map (\<lambda>(s, op). (s, wo_val op)) (filter (\<lambda>(s, op). \<not> wo_del op \<and> s \<notin> set seen) overlay)"

definition mem_materialize :: "memTx \<Rightarrow> keyspace \<Rightarrow> (bytes \<times> bytes) list" where
  "mem_materialize t ks =
     (let overlay = tx_overlay t ks;
          (keys, items) = (case map_of (mt_snap t) ks of
             None \<Rightarrow> ([], [])
           | Some sp \<Rightarrow> (sp_keys sp, concat (map (base_item overlay sp) (sp_keys sp))));
          extra = sort_key fst (extra_items overlay keys) in
      mergeKV items extra)"

definition mem_Cursor :: "memEngine \<Rightarrow> nat \<Rightarrow> keyspace \<Rightarrow> memEngine \<times> memCursor sresult" where
  "mem_Cursor e h ks =
     (e, if mt_done (tx_of e h) then Inl ErrDone
         else Inr \<lparr>mc_tx = h, mc_ks = ks, mc_keys = [], mc_vals = [], mc_idx = -1, mc_closed = False\<rparr>)"

definition mc_usable :: "memEngine \<Rightarrow> memCursor \<Rightarrow> bool" where
  "mc_usable e c \<longleftrightarrow> \<not> mc_closed c \<and> \<not> mt_done (tx_of e (mc_tx c))"

definition mc_positioned :: "memEngine \<Rightarrow> memCursor \<Rightarrow> bool" where
  "mc_positioned e c \<longleftrightarrow> mc_usable e c \<and> mc_idx c \<ge> 0 \<and> mc_idx c < int (length (mc_keys c))"

definition mc_load :: "memEngine \<Rightarrow> memCursor \<Rightarrow> memCursor" where
  "mc_load e c =
     (let kvs = mem_materialize (tx_of e (mc_tx c)) (mc_ks c) in
      c\<lparr>mc_keys := map fst kvs, mc_vals := map snd kvs\<rparr>)"

definition mc_Seek :: "memEngine \<Rightarrow> memCursor \<Rightarrow> bytes option \<Rightarrow> memEngine \<times> memCursor \<times> bool" where
  "mc_Seek e c target =
     (if \<not> mc_usable e c then (e, c\<lparr>mc_idx := -1\<rparr>, False)
      else
        let c = mc_load e c;
            i = (case target of
                   None \<Rightarrow> 0
                 | Some t \<Rightarrow> sortSearch (length (mc_keys c)) (\<lambda>n. bytesCompare (mc_keys c ! n) t \<ge> 0)) in
        if i \<ge> length (mc_keys c) then (e, c\<lparr>mc_idx := -1\<rparr>, False)
        else (e, c\<lparr>mc_idx := int i\<rparr>, True))"

definition mc_SeekReverse :: "memEngine \<Rightarrow> memCursor \<Rightarrow> bytes option \<Rightarrow> memEngine \<times> memCursor \<times> bool" where
  "mc_SeekReverse e c target =
     (if \<not> mc_usable e c then (e, c\<lparr>mc_idx := -1\<rparr>, False)
      else
        let c = mc_load e c in
        if mc_keys c = [] then (e, c\<lparr>mc_idx := -1\<rparr>, False)
        else case target of
          None \<Rightarrow> (e, c\<lparr>mc_idx := int (length (mc_keys c)) - 1\<rparr>, True)
        | Some t \<Rightarrow>
            let i = sortSearch (length (mc_keys c)) (\<lambda>n. bytesCompare (mc_keys c ! n) t > 0) in
            if i = 0 then (e, c\<lparr>mc_idx := -1\<rparr>, False)
            else (e, c\<lparr>mc_idx := int i - 1\<rparr>, True))"

definition mc_Next :: "memEngine \<Rightarrow> memCursor \<Rightarrow> memEngine \<times> memCursor \<times> bool" where
  "mc_Next e c =
     (if \<not> mc_usable e c \<or> mc_idx c < 0 then (e, c\<lparr>mc_idx := -1\<rparr>, False)
      else
        let c = c\<lparr>mc_idx := mc_idx c + 1\<rparr> in
        if mc_idx c \<ge> int (length (mc_keys c)) then (e, c\<lparr>mc_idx := -1\<rparr>, False) else (e, c, True))"

definition mc_Prev :: "memEngine \<Rightarrow> memCursor \<Rightarrow> memEngine \<times> memCursor \<times> bool" where
  "mc_Prev e c =
     (if \<not> mc_usable e c \<or> mc_idx c < 0 then (e, c\<lparr>mc_idx := -1\<rparr>, False)
      else
        let c = c\<lparr>mc_idx := mc_idx c - 1\<rparr> in
        if mc_idx c < 0 then (e, c\<lparr>mc_idx := -1\<rparr>, False) else (e, c, True))"

definition mc_Key :: "memEngine \<Rightarrow> memCursor \<Rightarrow> bytes" where
  "mc_Key e c = (if \<not> mc_positioned e c then [] else mc_keys c ! nat (mc_idx c))"

definition mc_Value :: "memEngine \<Rightarrow> memCursor \<Rightarrow> bytes" where
  "mc_Value e c = (if \<not> mc_positioned e c then [] else mc_vals c ! nat (mc_idx c))"

definition mc_Close :: "memEngine \<Rightarrow> memCursor \<Rightarrow> memEngine \<times> memCursor \<times> sterr option" where
  "mc_Close e c = (e, c\<lparr>mc_closed := True, mc_idx := -1\<rparr>, None)"

definition mem_bound :: "memEngine \<Rightarrow> nat \<Rightarrow> nat" where
  "mem_bound e h =
     (let t = tx_of e h in
      keyCount (mt_snap t) + sum_list (map (\<lambda>kops. length (snd kops)) (mt_writes t)))"

definition mem_ops :: "(memEngine, memCursor) engine_ops" where
  "mem_ops = \<lparr>ops_Begin = mem_Begin, ops_Get = mem_Get, ops_Put = mem_Put, ops_Delete = mem_Delete,
     ops_Commit = mem_Commit, ops_Rollback = mem_Rollback, ops_Cursor = mem_Cursor, ops_Seek = mc_Seek,
     ops_Next = mc_Next, ops_Key = mc_Key, ops_Value = mc_Value, ops_CursorClose = mc_Close,
     ops_Sync = mem_Sync, ops_Close = mem_Close, ops_LogAbort = (\<lambda>e i. e), ops_bound = mem_bound\<rparr>"

section \<open>Keyspaces refine maps\<close>

definition space_ok :: "space \<Rightarrow> bool" where
  "space_ok s \<longleftrightarrow> sorted_wrt (<) (sp_keys s) \<and> distinct (map fst (sp_vals s)) \<and> set (sp_keys s) = fst ` set (sp_vals s)"

definition space_map :: "space \<Rightarrow> bytes \<rightharpoonup> bytes" where
  "space_map s = map_of (sp_vals s)"

lemma space_ok_dom: "space_ok s \<Longrightarrow> k \<in> set (sp_keys s) \<longleftrightarrow> space_map s k \<noteq> None"
  by (simp add: space_ok_def space_map_def map_of_eq_None_iff)

lemma space_search_takeWhile:
  "sorted_wrt (<) keys \<Longrightarrow> space_search keys kb = length (takeWhile (\<lambda>x. x < kb) keys)"
  unfolding space_search_def bytesCompare_ge
  by (subst sortSearch_sorted) (auto simp: strict_sorted_iff not_le)

lemma sorted_split:
  fixes k :: bytes
  assumes "sorted_wrt (<) keys"
  obtains A B where "keys = A @ B" and "\<forall>x \<in> set A. x < k" and "\<forall>x \<in> set B. k \<le> x"
    and "space_search keys k = length A"
proof
  let ?A = "takeWhile (\<lambda>x. x < k) keys" and ?B = "dropWhile (\<lambda>x. x < k) keys"
  show "keys = ?A @ ?B" by simp
  show "\<forall>x \<in> set ?A. x < k" by (auto dest: set_takeWhileD)
  show "space_search keys k = length ?A" using assms by (rule space_search_takeWhile)
  show "\<forall>x \<in> set ?B. k \<le> x"
  proof (cases ?B)
    case (Cons y ys)
    then have "\<not> y < k" using hd_dropWhile [of "\<lambda>x. x < k" keys] by simp
    moreover have "sorted_wrt (<) (?A @ ?B)" using assms by simp
    ultimately show ?thesis unfolding Cons by (auto simp: sorted_wrt_append not_less intro: less_imp_le le_less_trans)
  next
    case Nil
    show ?thesis unfolding Nil by simp
  qed
qed

lemma space_put_ok:
  assumes "space_ok s"
  shows "space_ok (space_put s k v)" and "space_map (space_put s k v) = (space_map s)(k \<mapsto> v)"
proof -
  from assms have srt: "sorted_wrt (<) (sp_keys s)" by (simp add: space_ok_def)
  from sorted_split [OF srt, of k] obtain A B
    where AB: "sp_keys s = A @ B" "\<forall>x \<in> set A. x < k" "\<forall>x \<in> set B. k \<le> x"
      "space_search (sp_keys s) k = length A" by blast
  show "space_map (space_put s k v) = (space_map s)(k \<mapsto> v)"
    by (auto simp: space_put_def space_map_def update_conv' Let_def)
  have u: "distinct (map fst (AList.update k v (sp_vals s)))"
    "fst ` set (AList.update k v (sp_vals s)) = insert k (set (sp_keys s))"
    using assms by (auto simp: space_ok_def distinct_update dom_update)
  show "space_ok (space_put s k v)"
  proof (cases "B \<noteq> [] \<and> hd B = k")
    case True
    then have "k \<in> set (sp_keys s)" using AB(1) by (metis Un_iff hd_in_set set_append)
    with True AB u srt show ?thesis
      by (auto simp: space_put_def Let_def space_ok_def nth_append hd_conv_nth insert_absorb)
  next
    case False
    have "k \<noteq> x" if "x \<in> set B" for x
    proof
      assume "k = x"
      with that have "hd B = k"
        using srt AB(1,3) by (cases B) (auto simp: sorted_wrt_append dest: leD)
      with False that show False by auto
    qed
    with AB(3) have "\<forall>x \<in> set B. k < x" by (auto simp: order_less_le)
    with False AB u srt show ?thesis
      by (auto simp: space_put_def Let_def space_ok_def nth_append hd_conv_nth sorted_wrt_append)
  qed
qed

lemma delete_dom: "fst ` set (AList.delete k m) = fst ` set m - {k}"
  by (metis delete_keys set_map set_removeAll)

lemma space_del_ok:
  assumes "space_ok s"
  shows "space_ok (space_del s k)" and "space_map (space_del s k) = (space_map s)(k := None)"
proof -
  from assms have srt: "sorted_wrt (<) (sp_keys s)" by (simp add: space_ok_def)
  from sorted_split [OF srt, of k] obtain A B
    where AB: "sp_keys s = A @ B" "\<forall>x \<in> set A. x < k" "\<forall>x \<in> set B. k \<le> x"
      "space_search (sp_keys s) k = length A" by blast
  have "space_ok (space_del s k) \<and> space_map (space_del s k) = (space_map s)(k := None)"
  proof (cases "B \<noteq> [] \<and> hd B = k")
    case True
    then obtain C where B: "B = k # C" by (cases B) auto
    have del: "space_del s k = s\<lparr>sp_keys := A @ C, sp_vals := AList.delete k (sp_vals s)\<rparr>"
      using AB(1,4) B by (simp add: space_del_def Let_def nth_append)
    have "sorted_wrt (<) (A @ C)" "k \<notin> set (A @ C)"
      using srt AB(1) B by (auto simp: sorted_wrt_append)
    moreover have "set (A @ C) = set (sp_keys s) - {k}" using AB(1) B calculation(2) by auto
    ultimately show ?thesis
      using assms unfolding del
      by (auto simp: space_ok_def space_map_def delete_conv' distinct_delete delete_dom)
  next
    case False
    have "k \<notin> set (sp_keys s)"
    proof
      assume "k \<in> set (sp_keys s)"
      then have "k \<in> set B" using AB by auto
      then show False using False srt AB(1,3) by (cases B) (auto simp: sorted_wrt_append dest: leD)
    qed
    moreover from this have "space_map s k = None" using space_ok_dom [OF assms] by blast
    moreover have "space_del s k = s"
      using False AB(1,4) by (auto simp: space_del_def Let_def nth_append hd_conv_nth)
    ultimately show ?thesis using assms by (auto simp: fun_upd_idem)
  qed
  then show "space_ok (space_del s k)" "space_map (space_del s k) = (space_map s)(k := None)" by simp_all
qed

section \<open>Write sets over snapshots\<close>

definition op_result :: "memWriteOp \<Rightarrow> bytes option" where
  "op_result op = (if wo_del op then None else Some (wo_val op))"

definition snapshot_ok :: "snapshot \<Rightarrow> bool" where
  "snapshot_ok s \<longleftrightarrow> distinct (map fst s) \<and> (\<forall>e \<in> set s. space_ok (snd e))"

definition snap_view :: "snapshot \<Rightarrow> kvview" where
  "snap_view s ks k = (case map_of s ks of None \<Rightarrow> None | Some sp \<Rightarrow> space_map sp k)"

definition writes_ok :: "memWrites \<Rightarrow> bool" where
  "writes_ok w \<longleftrightarrow> distinct (map fst w) \<and> (\<forall>e \<in> set w. distinct (map fst (snd e)))"

definition write_at :: "memWrites \<Rightarrow> keyspace \<Rightarrow> bytes \<Rightarrow> memWriteOp option" where
  "write_at w ks k = (case map_of w ks of None \<Rightarrow> None | Some ops \<Rightarrow> map_of ops k)"

text \<open>What a write set makes of a view: its own writes first, then what was there.\<close>

definition overlay_view :: "memWrites \<Rightarrow> kvview \<Rightarrow> kvview" where
  "overlay_view w V ks k = (case write_at w ks k of None \<Rightarrow> V ks k | Some op \<Rightarrow> op_result op)"

lemma apply_op_ok:
  assumes "space_ok sp"
  shows "space_ok (apply_op sp kop)" and "space_map (apply_op sp kop) = (space_map sp)(fst kop := op_result (snd kop))"
  using space_put_ok [OF assms] space_del_ok [OF assms] by (simp_all add: apply_op_def op_result_def)

lemma foldl_apply_op:
  assumes "space_ok sp" and "distinct (map fst ops)"
  shows "space_ok (foldl apply_op sp ops) \<and>
    space_map (foldl apply_op sp ops) = (\<lambda>k. case map_of ops k of None \<Rightarrow> space_map sp k | Some op \<Rightarrow> op_result op)"
  using assms
proof (induction ops arbitrary: sp)
  case (Cons kop ops)
  have "map_of ops (fst kop) = None" using Cons.prems(2) by (simp add: map_of_eq_None_iff)
  with Cons apply_op_ok [of sp kop] show ?case by (cases kop) (auto simp: fun_eq_iff split: option.split)
qed (simp add: fun_eq_iff)

lemma snapshot_ensure_ok: "snapshot_ok s \<Longrightarrow> space_ok (snapshot_ensure s ks)"
  by (auto simp: snapshot_ensure_def snapshot_ok_def space_ok_def [of "\<lparr>sp_keys = [], sp_vals = []\<rparr>"]
      dest: map_of_SomeD split: option.split)

lemma snapshot_ensure_view: "space_map (snapshot_ensure s ks) k = snap_view s ks k"
  by (simp add: snapshot_ensure_def snap_view_def space_map_def split: option.split)

lemma update_mem: "e \<in> set (AList.update k v m) \<Longrightarrow> e = (k, v) \<or> e \<in> set m"
  by (induction m) (auto split: if_splits)

lemma apply_ops_ok:
  assumes "snapshot_ok s" and "distinct (map fst (snd kops))"
  shows "snapshot_ok (apply_ops s kops)"
    and "snap_view (apply_ops s kops) = (\<lambda>ks k. if ks = fst kops
           then (case map_of (snd kops) k of None \<Rightarrow> snap_view s ks k | Some op \<Rightarrow> op_result op)
           else snap_view s ks k)"
proof -
  note f = foldl_apply_op [OF snapshot_ensure_ok [OF assms(1)] assms(2), of "fst kops"]
  show "snapshot_ok (apply_ops s kops)"
    using assms f by (auto simp: snapshot_ok_def apply_ops_def distinct_update dest!: update_mem)
  show "snap_view (apply_ops s kops) = (\<lambda>ks k. if ks = fst kops
           then (case map_of (snd kops) k of None \<Rightarrow> snap_view s ks k | Some op \<Rightarrow> op_result op)
           else snap_view s ks k)"
    using f unfolding apply_ops_def
    by (auto simp: snap_view_def [abs_def] update_conv' fun_eq_iff snapshot_ensure_view [unfolded snap_view_def]
        split: option.split)
qed

lemma foldl_apply_ops:
  assumes "snapshot_ok s" and "writes_ok w"
  shows "snapshot_ok (foldl apply_ops s w) \<and> snap_view (foldl apply_ops s w) = overlay_view w (snap_view s)"
  using assms
proof (induction w arbitrary: s)
  case (Cons kops w)
  have "writes_ok w" "map_of w (fst kops) = None" "distinct (map fst (snd kops))"
    using Cons.prems(2) by (auto simp: writes_ok_def map_of_eq_None_iff)
  with Cons apply_ops_ok [of s kops] show ?case
    by (cases kops) (auto simp: overlay_view_def write_at_def fun_eq_iff split: option.split)
qed (simp add: overlay_view_def write_at_def fun_eq_iff)


section \<open>Transactions and their views\<close>

definition tx_view :: "memTx \<Rightarrow> kvview" where
  "tx_view t = overlay_view (mt_writes t) (snap_view (mt_snap t))"

lemma tx_op_write_at: "tx_op t = write_at (mt_writes t)"
  by (simp add: tx_op_def [abs_def] write_at_def [abs_def])

lemma mem_Get_view:
  "\<not> mt_done (tx_of e h) \<Longrightarrow>
     mem_Get e h ks k = (e, case tx_view (tx_of e h) ks k of None \<Rightarrow> Inl ErrNotFound | Some v \<Rightarrow> Inr v)"
  by (auto simp: mem_Get_def Let_def tx_op_write_at tx_view_def overlay_view_def op_result_def snap_view_def
      space_map_def split: option.split)

lemma tx_write_at:
  "write_at (mt_writes (tx_write t ks k op)) = (\<lambda>ks' k'. if ks' = ks \<and> k' = k then Some op else write_at (mt_writes t) ks' k')"
  by (auto simp: tx_write_def write_at_def update_conv' fun_eq_iff Let_def split: option.split)

lemma tx_write_fields [simp]:
  "mt_snap (tx_write t ks k op) = mt_snap t" "mt_ro (tx_write t ks k op) = mt_ro t"
  "mt_done (tx_write t ks k op) = mt_done t" "mt_marks (tx_write t ks k op) = mt_marks t"
  by (simp_all add: tx_write_def Let_def)

lemma tx_write_view: "tx_view (tx_write t ks k op) = upd_view (tx_view t) ks k (op_result op)"
  by (auto simp: tx_view_def overlay_view_def tx_write_at upd_view_def fun_eq_iff)

lemma tx_write_ok: "writes_ok (mt_writes t) \<Longrightarrow> writes_ok (mt_writes (tx_write t ks k op))"
  by (auto simp: writes_ok_def tx_write_def Let_def distinct_update dest!: update_mem map_of_SomeD split: option.splits)

text \<open>The invariant of the engine: what every method preserves.\<close>

definition memTx_ok :: "memTx \<Rightarrow> bool" where
  "memTx_ok t \<longleftrightarrow> snapshot_ok (mt_snap t) \<and> writes_ok (mt_writes t) \<and> (\<forall>w \<in> set (mt_marks t). writes_ok w)"

definition mem_inv :: "memEngine \<Rightarrow> bool" where
  "mem_inv e \<longleftrightarrow> snapshot_ok (me_current e) \<and> (\<forall>h t. me_txs e h = Some t \<longrightarrow> memTx_ok t)
     \<and> (\<forall>h \<ge> me_next e. me_txs e h = None)
     \<and> distinct (me_open e) \<and> set (me_open e) = {h. \<not> mt_done (tx_of e h)}"

lemma tx_of_set_tx [simp]: "tx_of (set_tx e h t) h' = (if h' = h then t else tx_of e h')"
  by (simp add: set_tx_def tx_of_def)

lemma tx_of_update [simp]:
  "tx_of (e\<lparr>me_current := s\<rparr>) h = tx_of e h" "tx_of (e\<lparr>me_open := os\<rparr>) h = tx_of e h"
  "tx_of (e\<lparr>me_next := n\<rparr>) h = tx_of e h" "tx_of (e\<lparr>me_closed := b\<rparr>) h = tx_of e h"
  "tx_of (e\<lparr>me_commits := u\<rparr>) h = tx_of e h" "tx_of (e\<lparr>me_rollbacks := u\<rparr>) h = tx_of e h"
  "tx_of (e\<lparr>me_hooks := hs\<rparr>) h = tx_of e h"
  by (simp_all add: tx_of_def)

lemma set_tx_fields [simp]:
  "me_current (set_tx e h t) = me_current e" "me_open (set_tx e h t) = me_open e"
  "me_next (set_tx e h t) = me_next e" "me_closed (set_tx e h t) = me_closed e"
  "me_hooks (set_tx e h t) = me_hooks e" "me_txs (set_tx e h t) = (me_txs e)(h \<mapsto> t)"
  "me_commits (set_tx e h t) = me_commits e" "me_rollbacks (set_tx e h t) = me_rollbacks e"
  by (simp_all add: set_tx_def)

lemma tx_of_live: "\<not> mt_done (tx_of e h) \<Longrightarrow> me_txs e h = Some (tx_of e h)"
  by (auto simp: tx_of_def split: option.splits)

lemma mem_inv_tx: "mem_inv e \<Longrightarrow> memTx_ok (tx_of e h)"
  by (auto simp: mem_inv_def tx_of_def memTx_ok_def snapshot_ok_def writes_ok_def split: option.split)

lemma mem_inv_set_tx:
  assumes "mem_inv e" and "\<not> mt_done (tx_of e h)" and "memTx_ok t" and "\<not> mt_done t"
  shows "mem_inv (set_tx e h t)"
proof -
  have "h < me_next e" using assms(1) tx_of_live [OF assms(2)] unfolding mem_inv_def by (metis not_le option.distinct(1))
  with assms show ?thesis by (auto simp: mem_inv_def)
qed

lemma mem_inv_finish:
  assumes "mem_inv e" and "\<not> mt_done (tx_of e h)"
  shows "mem_inv (finishLocked e h)"
proof -
  have "h < me_next e" using assms(1) tx_of_live [OF assms(2)] unfolding mem_inv_def by (metis not_le option.distinct(1))
  moreover have "memTx_ok (tx_of e h)" using assms(1) by (rule mem_inv_tx)
  ultimately show ?thesis using assms(1)
    by (auto simp: mem_inv_def finishLocked_def memTx_ok_def writes_ok_def distinct_removeAll)
qed

lemma mem_inv_counters [simp]:
  "mem_inv (e\<lparr>me_commits := u\<rparr>) = mem_inv e" "mem_inv (e\<lparr>me_rollbacks := u\<rparr>) = mem_inv e"
  "mem_inv (e\<lparr>me_hooks := hs\<rparr>) = mem_inv e"
  by (simp_all add: mem_inv_def)

lemma mem_inv_current: "mem_inv e \<Longrightarrow> snapshot_ok s \<Longrightarrow> mem_inv (e\<lparr>me_current := s\<rparr>)"
  by (simp add: mem_inv_def)

lemma finishLocked_fields [simp]:
  "me_current (finishLocked e h) = me_current e" "me_closed (finishLocked e h) = me_closed e"
  "me_hooks (finishLocked e h) = me_hooks e" "me_commits (finishLocked e h) = me_commits e"
  by (simp_all add: finishLocked_def)


section \<open>Cursors walk the view\<close>

lemma entriesI:
  assumes "sorted_wrt (<) (map fst xs)" and "\<And>k v. (k, v) \<in> set xs \<longleftrightarrow> m k = Some v"
  shows "entries m xs"
proof -
  have "distinct (map fst xs)" using assms(1) by (simp add: strict_sorted_iff)
  then have "map_of xs k = m k" for k
    using assms(2) by (metis map_of_eq_Some_iff not_Some_eq)
  with assms(1) show ?thesis by (auto simp: entries_def)
qed

lemma base_items_set:
  "(k, v) \<in> set (concat (map (base_item overlay sp) keys)) \<longleftrightarrow> k \<in> set keys \<and>
     (case map_of overlay k of Some op \<Rightarrow> op_result op = Some v
      | None \<Rightarrow> v = (case map_of (sp_vals sp) k of None \<Rightarrow> [] | Some v \<Rightarrow> v))"
proof -
  have fst: "(k, v) \<in> set (base_item overlay sp k') \<Longrightarrow> k' = k" for k'
    by (auto simp: base_item_def split: option.splits if_splits)
  have "(k, v) \<in> set (base_item overlay sp k) \<longleftrightarrow> (case map_of overlay k of Some op \<Rightarrow> op_result op = Some v
      | None \<Rightarrow> v = (case map_of (sp_vals sp) k of None \<Rightarrow> [] | Some v \<Rightarrow> v))"
    by (auto simp: base_item_def op_result_def split: option.splits)
  with fst show ?thesis by auto
qed

lemma base_items_sorted:
  "sorted_wrt (<) keys \<Longrightarrow> sorted_wrt (<) (map fst (concat (map (base_item overlay sp) keys)))"
proof (induction keys)
  case (Cons k keys)
  let ?rest = "concat (map (base_item overlay sp) keys)"
  have "k < fst x" if "x \<in> set ?rest" for x
    using that base_items_set [of "fst x" "snd x"] Cons.prems by simp
  moreover have "base_item overlay sp k = [] \<or> (\<exists>v. base_item overlay sp k = [(k, v)])"
    by (simp add: base_item_def split: option.split)
  moreover have "sorted_wrt (<) (map fst ?rest)" using Cons by simp
  ultimately show ?case by (simp only: list.map concat.simps) (elim disjE exE; simp del: set_concat)
qed simp

lemma extra_items_set:
  "distinct (map fst overlay) \<Longrightarrow> (k, v) \<in> set (extra_items overlay keys) \<longleftrightarrow>
     k \<notin> set keys \<and> (\<exists>op. map_of overlay k = Some op \<and> op_result op = Some v)"
  by (auto simp: extra_items_def op_result_def map_of_eq_Some_iff split: if_splits)

lemma extra_items_distinct: "distinct (map fst overlay) \<Longrightarrow> distinct (map fst (extra_items overlay keys))"
  by (induction overlay) (force simp: extra_items_def)+

lemma sort_extra_sorted:
  "distinct (map fst overlay) \<Longrightarrow> sorted_wrt (<) (map fst (sort_key fst (extra_items overlay keys)))"
  using extra_items_distinct [of overlay keys]
  by (simp add: strict_sorted_iff) (metis distinct_map distinct_sort set_sort)

lemma disjoint_images:
  "(\<And>y. y \<in> A \<Longrightarrow> f y \<in> K) \<Longrightarrow> (\<And>y. y \<in> B \<Longrightarrow> f y \<notin> K) \<Longrightarrow> f ` A \<inter> f ` B = {}"
  by fastforce

lemma mem_materialize_entries:
  assumes "memTx_ok t"
  shows "entries (tx_view t ks) (mem_materialize t ks)"
proof -
  let ?o = "tx_overlay t ks"
  have d: "distinct (map fst ?o)"
    using assms by (auto simp: memTx_ok_def writes_ok_def tx_overlay_def dest: map_of_SomeD split: option.split)
  have at: "write_at (mt_writes t) ks k = map_of ?o k" for k
    by (simp add: write_at_def tx_overlay_def split: option.split)
  show ?thesis
  proof (cases "map_of (mt_snap t) ks")
    case None
    have m: "mem_materialize t ks = sort_key fst (extra_items ?o [])"
      by (simp add: mem_materialize_def None Let_def)
    show ?thesis unfolding m
      by (rule entriesI) (auto simp: sort_extra_sorted [OF d] extra_items_set [OF d] tx_view_def overlay_view_def at
          snap_view_def None split: option.splits)
  next
    case (Some sp)
    then have sp: "space_ok sp" using assms by (auto simp: memTx_ok_def snapshot_ok_def dest: map_of_SomeD)
    let ?b = "concat (map (base_item ?o sp) (sp_keys sp))" and ?x = "sort_key fst (extra_items ?o (sp_keys sp))"
    have m: "mem_materialize t ks = mergeKV ?b ?x" by (simp add: mem_materialize_def Some Let_def)
    have dis: "fst ` set ?b \<inter> fst ` set ?x = {}"
    proof -
      have "fst y \<in> set (sp_keys sp)" if "y \<in> set ?b" for y
        using that base_items_set [of "fst y" "snd y"] by simp
      moreover have "fst y \<notin> set (sp_keys sp)" if "y \<in> set ?x" for y
        using that extra_items_set [OF d, of "fst y" "snd y"] by simp
      ultimately show ?thesis by (rule disjoint_images)
    qed
    have srt: "sorted_wrt (<) (map fst ?b)" using sp by (intro base_items_sorted) (simp add: space_ok_def)
    have view: "tx_view t ks k = (case map_of ?o k of None \<Rightarrow> space_map sp k | Some op \<Rightarrow> op_result op)" for k
      by (simp add: tx_view_def overlay_view_def at snap_view_def Some split: option.split)
    have mem: "(k, v) \<in> set (mergeKV ?b ?x) \<longleftrightarrow> tx_view t ks k = Some v" for k v
      using space_ok_dom [OF sp, of k] unfolding set_mergeKV Un_iff base_items_set set_sort extra_items_set [OF d] view
      by (cases "map_of ?o k"; cases "map_of (sp_vals sp) k") (auto simp: space_map_def)
    show ?thesis unfolding m by (rule entriesI [OF sorted_mergeKV [OF srt sort_extra_sorted [OF d] dis] mem])
  qed
qed

lemma mem_materialize_length:
  assumes "memTx_ok t"
  shows "length (mem_materialize t ks) \<le> keyCount (mt_snap t) + sum_list (map (\<lambda>kops. length (snd kops)) (mt_writes t))"
proof -
  have len: "length (mergeKV a b) = length a + length b" for a b :: "(bytes \<times> bytes) list"
    by (metis mset_mergeKV size_mset size_union)
  have le: "length (snd e) \<le> sum_list (map (\<lambda>kops. length (snd kops)) w)" if "e \<in> set w" for e and w :: memWrites
    using that by (intro member_le_sum_list) auto
  have le': "length (sp_keys (snd e)) \<le> keyCount s" if "e \<in> set s" for e s
    unfolding keyCount_def using that by (intro member_le_sum_list) auto
  have o: "length (tx_overlay t ks) \<le> sum_list (map (\<lambda>kops. length (snd kops)) (mt_writes t))"
    using le by (force simp: tx_overlay_def dest: map_of_SomeD split: option.split)
  have x: "length (extra_items (tx_overlay t ks) keys) \<le> length (tx_overlay t ks)" for keys
    by (simp add: extra_items_def)
  have b: "length (concat (map (base_item ov sp) keys)) \<le> length keys" for ov sp keys
    by (induction keys) (auto simp: base_item_def split: option.split)
  show ?thesis
  proof (cases "map_of (mt_snap t) ks")
    case None
    then show ?thesis using o x [of "[]"] by (simp add: mem_materialize_def)
  next
    case (Some sp)
    then have "length (sp_keys sp) \<le> keyCount (mt_snap t)" using le' by (force dest: map_of_SomeD)
    with Some o x [of "sp_keys sp"] b [of "tx_overlay t ks" sp "sp_keys sp"] show ?thesis
      by (simp add: mem_materialize_def len Let_def)
  qed
qed

definition mc_rest :: "memEngine \<Rightarrow> memCursor \<Rightarrow> (bytes \<times> bytes) list" where
  "mc_rest e c = (if mc_positioned e c \<and> length (mc_vals c) = length (mc_keys c) then drop (nat (mc_idx c)) (zip (mc_keys c) (mc_vals c)) else [])"

lemma filter_ge_drop:
  fixes t :: bytes
  assumes "sorted_wrt (<) (map fst xs)"
  shows "drop (sortSearch (length (map fst xs)) (\<lambda>n. t \<le> map fst xs ! n)) xs = filter (\<lambda>x. t \<le> fst x) xs"
proof -
  have "sortSearch (length (map fst xs)) (\<lambda>n. t \<le> map fst xs ! n) = length (takeWhile (\<lambda>x. \<not> t \<le> x) (map fst xs))"
    using assms by (intro sortSearch_sorted) (auto simp: strict_sorted_iff)
  also have "\<dots> = length (takeWhile (\<lambda>x. \<not> t \<le> fst x) xs)" by (simp add: takeWhile_map o_def)
  finally have "drop (sortSearch (length (map fst xs)) (\<lambda>n. t \<le> map fst xs ! n)) xs = dropWhile (\<lambda>x. \<not> t \<le> fst x) xs"
    by (simp add: dropWhile_eq_drop)
  also have "\<dots> = filter (\<lambda>x. t \<le> fst x) xs"
    using assms
  proof (induction xs)
    case (Cons x xs)
    then have "filter (\<lambda>y. t \<le> fst y) xs = xs" if "t \<le> fst x"
      using that by (intro filter_True) (auto intro: order_trans less_imp_le)
    with Cons show ?case by simp
  qed simp
  finally show ?thesis .
qed


lemma mc_Seek_rest:
  assumes "memTx_ok (tx_of e (mc_tx c))" and "mc_usable e c"
  shows "\<exists>c'. mc_Seek e c t = (e, c', mc_rest e c' \<noteq> []) \<and> mc_tx c' = mc_tx c \<and> mc_ks c' = mc_ks c
    \<and> mc_closed c' = mc_closed c
    \<and> mc_rest e c' = (case t of None \<Rightarrow> mem_materialize (tx_of e (mc_tx c)) (mc_ks c)
        | Some t \<Rightarrow> filter (\<lambda>x. t \<le> fst x) (mem_materialize (tx_of e (mc_tx c)) (mc_ks c)))"
proof -
  let ?xs = "mem_materialize (tx_of e (mc_tx c)) (mc_ks c)"
  have srt: "sorted_wrt (<) (map fst ?xs)" using mem_materialize_entries [OF assms(1)] by (simp add: entries_def)
  define i where "i = (case t of None \<Rightarrow> 0 | Some t \<Rightarrow> sortSearch (length (map fst ?xs)) (\<lambda>n. t \<le> map fst ?xs ! n))"
  have d: "drop i ?xs = (case t of None \<Rightarrow> ?xs | Some t \<Rightarrow> filter (\<lambda>x. t \<le> fst x) ?xs)"
    using filter_ge_drop [OF srt] by (simp add: i_def split: option.split)
  let ?c = "mc_load e c"
  let ?c' = "if i \<ge> length ?xs then ?c\<lparr>mc_idx := -1\<rparr> else ?c\<lparr>mc_idx := int i\<rparr>"
  have seek: "mc_Seek e c t = (e, ?c', i < length ?xs)"
    using assms(2) unfolding i_def by (simp add: mc_Seek_def Let_def mc_load_def not_le split: option.split)
  have rest: "mc_rest e ?c' = drop i ?xs"
    using assms(2) by (simp add: mc_rest_def mc_positioned_def mc_usable_def mc_load_def Let_def zip_map_fst_snd)
  have ne: "(drop i ?xs \<noteq> []) = (i < length ?xs)" by (auto simp: not_le)
  have "mc_Seek e c t = (e, ?c', mc_rest e ?c' \<noteq> [])" unfolding seek rest ne ..
  moreover have "mc_tx ?c' = mc_tx c \<and> mc_ks ?c' = mc_ks c \<and> mc_closed ?c' = mc_closed c"
    by (simp add: mc_load_def Let_def)
  ultimately show ?thesis using rest d by metis
qed

lemma mc_Next_rest:
  assumes "mc_rest e c = x # xs"
  shows "\<exists>c'. mc_Next e c = (e, c', xs \<noteq> []) \<and> mc_tx c' = mc_tx c \<and> mc_closed c' = mc_closed c \<and> mc_rest e c' = xs"
proof -
  let ?z = "zip (mc_keys c) (mc_vals c)" and ?i = "nat (mc_idx c)"
  have pos: "mc_positioned e c" and len: "length (mc_vals c) = length (mc_keys c)" and d: "drop ?i ?z = x # xs"
    using assms by (auto simp: mc_rest_def split: if_splits)
  then have xs: "xs = drop (Suc ?i) ?z" by (metis drop_Suc list.sel(3) tl_drop)
  have us: "mc_usable e c" "0 \<le> mc_idx c" using pos by (auto simp: mc_positioned_def)
  let ?c' = "if mc_idx c + 1 \<ge> int (length (mc_keys c)) then c\<lparr>mc_idx := -1\<rparr> else c\<lparr>mc_idx := mc_idx c + 1\<rparr>"
  have "mc_Next e c = (e, ?c', \<not> mc_idx c + 1 \<ge> int (length (mc_keys c)))"
    using us by (simp add: mc_Next_def Let_def)
  moreover have "(xs \<noteq> []) = (\<not> mc_idx c + 1 \<ge> int (length (mc_keys c)))" using us len unfolding xs by auto
  moreover have "mc_rest e ?c' = xs"
    using us len unfolding xs by (auto simp: mc_rest_def mc_positioned_def mc_usable_def nat_add_distrib)
  ultimately show ?thesis by (intro exI [of _ ?c']) simp
qed

lemma mc_Key_rest:
  assumes "mc_rest e c = x # xs"
  shows "mc_Key e c = fst x \<and> mc_Value e c = snd x"
proof -
  let ?z = "zip (mc_keys c) (mc_vals c)" and ?i = "nat (mc_idx c)"
  have pos: "mc_positioned e c" and len: "length (mc_vals c) = length (mc_keys c)" and d: "drop ?i ?z = x # xs"
    using assms by (auto simp: mc_rest_def split: if_splits)
  have i: "?i < length (mc_keys c)" using pos by (auto simp: mc_positioned_def)
  then have "x = ?z ! ?i" using d len by (metis hd_drop_conv_nth length_zip list.sel(1) min.idem)
  with i len pos show ?thesis by (simp add: mc_Key_def mc_Value_def)
qed

section \<open>The memory engine implements the interface\<close>

definition mem_usable :: "memEngine \<Rightarrow> bool" where
  "mem_usable e \<longleftrightarrow> \<not> me_closed e \<and> run_hook (BeforeCommit (me_hooks e)) = None \<and> run_hook (AfterCommit (me_hooks e)) = None"

definition mem_live :: "memEngine \<Rightarrow> nat \<Rightarrow> bool" where
  "mem_live e h \<longleftrightarrow> \<not> mt_done (tx_of e h)"

definition mem_writable :: "memEngine \<Rightarrow> nat \<Rightarrow> bool" where
  "mem_writable e h \<longleftrightarrow> \<not> mt_done (tx_of e h) \<and> \<not> mt_ro (tx_of e h)"

definition mem_exclusive :: "memEngine \<Rightarrow> nat \<Rightarrow> bool" where
  "mem_exclusive e h \<longleftrightarrow> mt_snap (tx_of e h) = me_current e"

definition mem_view :: "memEngine \<Rightarrow> nat \<Rightarrow> kvview" where
  "mem_view e h = tx_view (tx_of e h)"

definition mem_committed :: "memEngine \<Rightarrow> kvview" where
  "mem_committed e = snap_view (me_current e)"

lemmas mem_defs = mem_usable_def mem_live_def mem_writable_def mem_exclusive_def mem_view_def mem_committed_def

lemma overlay_empty [simp]: "overlay_view [] V = V"
  by (simp add: overlay_view_def [abs_def] write_at_def)

lemma mem_inv_begin:
  "mem_inv e \<Longrightarrow> \<not> mt_done t \<Longrightarrow> memTx_ok t \<Longrightarrow>
     mem_inv (set_tx e (me_next e) t\<lparr>me_open := me_next e # me_open e, me_next := me_next e + 1\<rparr>)"
  by (auto simp: mem_inv_def tx_of_def set_tx_def)

lemma mem_commit_view:
  assumes "mem_inv e" and "\<not> me_closed e" and "\<not> mt_done (tx_of e h)" and "\<not> mt_ro (tx_of e h)"
    and "run_hook (BeforeCommit (me_hooks e)) = None"
  shows "\<exists>e'. mem_Commit e h = (e', case run_hook (AfterCommit (me_hooks e)) of None \<Rightarrow> Inr () | Some err \<Rightarrow>
        if mt_writes (tx_of e h) = [] then Inr () else Inl err)
      \<and> mem_inv e' \<and> me_closed e' = me_closed e \<and> me_hooks e' = me_hooks e
      \<and> mem_committed e' = overlay_view (mt_writes (tx_of e h)) (mem_committed e)
      \<and> mt_done (tx_of e' h) \<and> me_commits e' = me_commits e + 1
      \<and> (\<forall>h'. h' \<noteq> h \<longrightarrow> tx_of e' h' = tx_of e h')"
proof -
  have w: "writes_ok (mt_writes (tx_of e h))" using mem_inv_tx [OF assms(1)] by (simp add: memTx_ok_def)
  have s: "snapshot_ok (me_current e)" using assms(1) by (simp add: mem_inv_def)
  note f = foldl_apply_ops [OF s w]
  have fin: "mt_done (tx_of (finishLocked e h) h)" "h' \<noteq> h \<Longrightarrow> tx_of (finishLocked e h) h' = tx_of e h'" for e h'
    by (simp_all add: finishLocked_def)
  show ?thesis
  proof (cases "mt_writes (tx_of e h) = []")
    case True
    with assms fin show ?thesis
      by (auto simp: mem_Commit_def Let_def mem_committed_def intro: mem_inv_finish split: option.split)
  next
    case False
    with assms f fin show ?thesis
      by (auto simp: mem_Commit_def Let_def mem_committed_def intro!: mem_inv_finish mem_inv_current split: option.split)
  qed
qed

lemma mem_begin_law:
  assumes "mem_inv e" and "mem_usable e"
  shows "\<exists>e' h. mem_Begin e r = (e', Inr h) \<and> mem_inv e' \<and> mem_usable e' \<and> mem_committed e' = mem_committed e
    \<and> mem_live e' h \<and> mem_writable e' h = (\<not> r) \<and> mem_exclusive e' h \<and> mem_view e' h = mem_committed e"
proof -
  let ?t = "\<lparr>mt_snap = me_current e, mt_writes = [], mt_marks = [], mt_ro = r, mt_done = False\<rparr>"
  have "memTx_ok ?t" using assms(1) by (simp add: memTx_ok_def mem_inv_def writes_ok_def)
  with mem_inv_begin [of e ?t] assms show ?thesis
    by (simp add: mem_Begin_def Let_def mem_defs tx_view_def)
qed

lemma mem_write_law:
  fixes ks k op
  assumes "mem_inv e" and "mem_writable e h"
  defines "e' \<equiv> set_tx e h (tx_write (tx_of e h) ks k op)"
  shows "mem_inv e' \<and> mem_usable e' = mem_usable e \<and> mem_committed e' = mem_committed e \<and> mem_writable e' h
    \<and> mem_exclusive e' h = mem_exclusive e h \<and> mem_view e' h = upd_view (mem_view e h) ks k (op_result op)"
proof -
  have "memTx_ok (tx_write (tx_of e h) ks k op)"
    using mem_inv_tx [OF assms(1), of h] tx_write_ok [of "tx_of e h"] by (simp add: memTx_ok_def)
  then have "mem_inv e'" unfolding e'_def using assms by (intro mem_inv_set_tx) (simp_all add: mem_defs)
  then show ?thesis using assms(2) unfolding e'_def by (simp add: mem_defs tx_write_view)
qed

lemma mem_rollback_law:
  assumes "mem_inv e" and "mem_live e h"
  shows "\<exists>e'. mem_Rollback e h = (e', Inr ()) \<and> mem_inv e' \<and> mem_usable e' = mem_usable e \<and> mem_committed e' = mem_committed e"
  using assms mem_inv_finish [of e h] by (simp add: mem_Rollback_def mem_defs)

lemma mem_commit_law:
  assumes "mem_inv e" "mem_usable e" "mem_writable e h" "mem_exclusive e h"
  shows "\<exists>e'. mem_Commit e h = (e', Inr ()) \<and> mem_inv e' \<and> mem_usable e' \<and> mem_committed e' = mem_view e h"
  using mem_commit_view [of e h] assms by (auto simp: mem_defs tx_view_def)

lemma mem_seek_law:
  assumes "mem_inv e" and "mem_live e (mc_tx c)" and "\<not> mc_closed c"
  shows "\<exists>c' xs. entries (mem_view e (mc_tx c) (mc_ks c)) xs \<and> mc_Seek e c t = (e, c', mc_rest e c' \<noteq> [])
    \<and> mc_tx c' = mc_tx c \<and> mc_ks c' = mc_ks c \<and> \<not> mc_closed c'
    \<and> mc_rest e c' = (case t of None \<Rightarrow> xs | Some t \<Rightarrow> filter (\<lambda>x. t \<le> fst x) xs)
    \<and> length xs \<le> mem_bound e (mc_tx c)"
proof -
  have ok: "memTx_ok (tx_of e (mc_tx c))" using assms(1) by (rule mem_inv_tx)
  have "mc_usable e c" using assms(2,3) by (simp add: mc_usable_def mem_live_def)
  from mc_Seek_rest [OF ok this] obtain c' where c': "mc_Seek e c t = (e, c', mc_rest e c' \<noteq> [])"
    "mc_tx c' = mc_tx c" "mc_ks c' = mc_ks c" "mc_closed c' = mc_closed c"
    "mc_rest e c' = (case t of None \<Rightarrow> mem_materialize (tx_of e (mc_tx c)) (mc_ks c)
        | Some t \<Rightarrow> filter (\<lambda>x. t \<le> fst x) (mem_materialize (tx_of e (mc_tx c)) (mc_ks c)))" by blast
  show ?thesis
    using c' assms(3) mem_materialize_entries [OF ok] mem_materialize_length [OF ok]
    by (intro exI [of _ c'] exI [of _ "mem_materialize (tx_of e (mc_tx c)) (mc_ks c)"])
      (simp add: mem_view_def mem_bound_def Let_def)
qed

interpretation mem: kv_engine mem_ops mem_inv mem_usable mem_live mem_writable mem_exclusive mem_view
  mem_committed mc_rest mc_tx mc_ks "\<lambda>c. \<not> mc_closed c"
proof unfold_locales
  fix e h ks k v assume "mem_inv e" "mem_writable e h"
  note w = mem_write_law [OF this, of ks k]
  show "\<exists>e'. ops_Put mem_ops e h ks k v = (e', Inr ()) \<and> mem_inv e' \<and> mem_usable e' = mem_usable e
      \<and> mem_committed e' = mem_committed e \<and> mem_writable e' h \<and> mem_exclusive e' h = mem_exclusive e h
      \<and> mem_view e' h = upd_view (mem_view e h) ks k (Some v)"
    using \<open>mem_writable e h\<close> w [of "\<lparr>wo_val = v, wo_del = False\<rparr>"]
    by (simp add: mem_ops_def mem_Put_def Let_def mem_writable_def op_result_def)
  show "\<exists>e'. ops_Delete mem_ops e h ks k = (e', Inr ()) \<and> mem_inv e' \<and> mem_usable e' = mem_usable e
      \<and> mem_committed e' = mem_committed e \<and> mem_writable e' h \<and> mem_exclusive e' h = mem_exclusive e h
      \<and> mem_view e' h = upd_view (mem_view e h) ks k None"
    using \<open>mem_writable e h\<close> w [of "\<lparr>wo_val = [], wo_del = True\<rparr>"]
    by (simp add: mem_ops_def mem_Delete_def Let_def mem_writable_def op_result_def)
qed (simp_all add: mem_ops_def mem_begin_law mem_commit_law mem_rollback_law mem_seek_law mc_Next_rest mc_Key_rest,
  simp_all add: mem_live_def mem_writable_def mem_Get_view mem_view_def mem_Cursor_def mc_Close_def, auto dest!: mc_Next_rest)

section \<open>Reachable states\<close>

lemma foldl_abort:
  assumes "distinct hs"
  shows "foldl (\<lambda>e h. (set_tx e h (abort_tx (tx_of e h)))\<lparr>me_rollbacks := me_rollbacks e + 1\<rparr>) e hs
    = e\<lparr>me_txs := (\<lambda>h. if h \<in> set hs then Some (abort_tx (tx_of e h)) else me_txs e h),
        me_rollbacks := me_rollbacks e + word_of_nat (length hs)\<rparr>"
    and "foldl (\<lambda>e h. set_tx e h (abort_tx (tx_of e h))) e hs
    = e\<lparr>me_txs := (\<lambda>h. if h \<in> set hs then Some (abort_tx (tx_of e h)) else me_txs e h)\<rparr>"
  using assms
  by (induction hs arbitrary: e) (auto simp: set_tx_def tx_of_def fun_eq_iff intro!: memEngine.equality split: option.splits)

lemma abort_all_inv:
  assumes "mem_inv e"
  shows "mem_inv (e\<lparr>me_txs := (\<lambda>h. if h \<in> set (me_open e) then Some (abort_tx (tx_of e h)) else me_txs e h), me_open := []\<rparr>)"
proof -
  have o: "h \<in> set (me_open e) \<longleftrightarrow> \<not> mt_done (tx_of e h)" for h using assms by (auto simp: mem_inv_def)
  have "h < me_next e" if "\<not> mt_done (tx_of e h)" for h
    using assms tx_of_live [OF that] unfolding mem_inv_def by (metis not_le option.distinct(1))
  moreover have "memTx_ok (abort_tx (tx_of e h))" for h
    using mem_inv_tx [OF assms, of h] by (simp add: abort_tx_def memTx_ok_def writes_ok_def)
  moreover have "mt_done (tx_of (e\<lparr>me_txs := (\<lambda>h. if h \<in> set (me_open e) then Some (abort_tx (tx_of e h)) else me_txs e h),
      me_open := []\<rparr>) h)" for h
    using o [of h] by (auto simp: tx_of_def abort_tx_def split: option.splits)
  ultimately show ?thesis using assms o unfolding mem_inv_def by (force split: if_splits)
qed

lemma mem_Crash_eq:
  "mem_inv e \<Longrightarrow> \<not> me_closed e \<Longrightarrow> mem_Crash e =
     (e\<lparr>me_txs := (\<lambda>h. if h \<in> set (me_open e) then Some (abort_tx (tx_of e h)) else me_txs e h), me_open := [],
        me_rollbacks := me_rollbacks e + word_of_nat (length (me_open e))\<rparr>, Inr ())"
  by (simp add: mem_Crash_def Let_def foldl_abort mem_inv_def)

lemma mem_Close_eq:
  "mem_inv e \<Longrightarrow> \<not> me_closed e \<Longrightarrow> mem_Close e =
     (e\<lparr>me_txs := (\<lambda>h. if h \<in> set (me_open e) then Some (abort_tx (tx_of e h)) else me_txs e h), me_open := [],
        me_closed := True\<rparr>, Inr ())"
  by (simp add: mem_Close_def Let_def foldl_abort mem_inv_def)

text \<open>The states an engine goes through: any methods, in any order, by any transactions.\<close>

inductive mem_reachable :: "memEngine \<Rightarrow> bool" where
  init: "mem_reachable mem_Open"
| Begin: "mem_reachable e \<Longrightarrow> mem_reachable (fst (mem_Begin e r))"
| Put: "mem_reachable e \<Longrightarrow> mem_reachable (fst (mem_Put e h ks k v))"
| Delete: "mem_reachable e \<Longrightarrow> mem_reachable (fst (mem_Delete e h ks k))"
| Commit: "mem_reachable e \<Longrightarrow> mem_reachable (fst (mem_Commit e h))"
| Rollback: "mem_reachable e \<Longrightarrow> mem_reachable (fst (mem_Rollback e h))"
| Mark: "mem_reachable e \<Longrightarrow> mem_reachable (fst (mem_Mark e h))"
| RollbackTo: "mem_reachable e \<Longrightarrow> mem_reachable (fst (mem_RollbackTo e h m))"
| SetHooks: "mem_reachable e \<Longrightarrow> mem_reachable (mem_SetHooks e hs)"
| Crash: "mem_reachable e \<Longrightarrow> mem_reachable (fst (mem_Crash e))"
| Close: "mem_reachable e \<Longrightarrow> mem_reachable (fst (mem_Close e))"

lemma mem_inv_init: "mem_inv mem_Open"
  by (simp add: mem_inv_def mem_Open_def snapshot_ok_def tx_of_def)

lemma mem_inv_closed [simp]: "mem_inv (e\<lparr>me_closed := b\<rparr>) = mem_inv e"
  by (simp add: mem_inv_def)

lemma mem_inv_Begin: "mem_inv e \<Longrightarrow> mem_inv (fst (mem_Begin e r))"
proof -
  assume "mem_inv e"
  then have "memTx_ok \<lparr>mt_snap = me_current e, mt_writes = [], mt_marks = [], mt_ro = r, mt_done = False\<rparr>"
    by (simp add: memTx_ok_def mem_inv_def writes_ok_def)
  with \<open>mem_inv e\<close> show ?thesis using mem_inv_begin [of e] by (simp add: mem_Begin_def Let_def)
qed

lemma mem_inv_write: "mem_inv e \<Longrightarrow> mem_inv (fst (mem_Put e h ks k v)) \<and> mem_inv (fst (mem_Delete e h ks k))"
  using mem_write_law [of e h] by (simp add: mem_Put_def mem_Delete_def mem_writable_def Let_def)

lemma mem_inv_Commit:
  assumes "mem_inv e"
  shows "mem_inv (fst (mem_Commit e h))"
proof -
  have w: "writes_ok (mt_writes (tx_of e h))" using mem_inv_tx [OF assms] by (simp add: memTx_ok_def)
  have s: "snapshot_ok (me_current e)" using assms by (simp add: mem_inv_def)
  have "mem_inv (finishLocked (e\<lparr>me_current := foldl apply_ops (me_current e) (mt_writes (tx_of e h))\<rparr>) h)"
    if "\<not> mt_done (tx_of e h)"
    using that assms foldl_apply_ops [OF s w] by (intro mem_inv_finish mem_inv_current) simp_all
  with assms mem_inv_finish [of e h] show ?thesis by (simp add: mem_Commit_def Let_def split: option.split)
qed

lemma mem_inv_Mark: "mem_inv e \<Longrightarrow> mem_inv (fst (mem_Mark e h))"
  using mem_inv_tx [of e h] by (auto simp: mem_Mark_def Let_def memTx_ok_def intro!: mem_inv_set_tx)

lemma mem_inv_RollbackTo: "mem_inv e \<Longrightarrow> mem_inv (fst (mem_RollbackTo e h m))"
  using mem_inv_tx [of e h]
  by (auto simp: mem_RollbackTo_def Let_def memTx_ok_def intro!: mem_inv_set_tx) (meson in_set_takeD)

lemma mem_reachable_inv: "mem_reachable e \<Longrightarrow> mem_inv e"
proof (induction rule: mem_reachable.induct)
  case (Crash e)
  then show ?case using abort_all_inv [of e] mem_Crash_eq [of e] by (cases "me_closed e") (simp_all add: mem_Crash_def)
next
  case (Close e)
  then show ?case using abort_all_inv [of e] mem_Close_eq [of e] by (cases "me_closed e") (simp_all add: mem_Close_def)
next
  case (Rollback e h)
  then show ?case using mem_inv_finish [of e h] by (simp add: mem_Rollback_def)
qed (simp_all add: mem_inv_init mem_inv_Begin mem_inv_write mem_inv_Commit mem_inv_Mark mem_inv_RollbackTo mem_SetHooks_def)


section \<open>Properties\<close>

text \<open>
  C40. Every state the engine reaches, by any methods of any transactions in any order, satisfies
  its invariant: all keyspaces keep their key slice strictly sorted and in step with the value map,
  write sets and savepoints have one entry per key, and the open registry is exactly the set of
  unfinished transactions.
\<close>

theorem mem_engine_invariant:
  assumes "mem_reachable e"
  shows "mem_inv e"
  using assms by (rule mem_reachable_inv)

theorem mem_engine_invariant_witness: "mem_inv (fst (mem_Put (fst (mem_Begin mem_Open False)) 0 KSNode [1] [2]))"
  by (rule mem_engine_invariant) (intro mem_reachable.intros)

text \<open>
  Reads are snapshot isolated and see the transaction's own writes: after a successful
  \<open>Put\<close> the transaction reads the new value, every other key reads as before, no other
  transaction's view changes and nothing is committed.
\<close>

theorem mem_read_your_writes:
  assumes "mem_reachable e" and "mem_Put e h ks k v = (e', Inr ())"
  shows "mem_Get e' h ks k = (e', Inr v)
    \<and> (\<forall>ks' k'. (ks', k') \<noteq> (ks, k) \<longrightarrow> snd (mem_Get e' h ks' k') = snd (mem_Get e h ks' k'))
    \<and> (\<forall>h'. h' \<noteq> h \<longrightarrow> mem_view e' h' = mem_view e h') \<and> mem_committed e' = mem_committed e"
proof -
  have w: "mem_writable e h" and e': "e' = set_tx e h (tx_write (tx_of e h) ks k \<lparr>wo_val = v, wo_del = False\<rparr>)"
    using assms(2) by (auto simp: mem_Put_def mem_writable_def Let_def split: if_splits)
  note law = mem_write_law [OF mem_reachable_inv [OF assms(1)] w, of ks k "\<lparr>wo_val = v, wo_del = False\<rparr>", folded e']
  then have v: "tx_view (tx_of e' h) = upd_view (tx_view (tx_of e h)) ks k (Some v)"
    and d: "\<not> mt_done (tx_of e' h)" "\<not> mt_done (tx_of e h)"
    using w by (simp_all add: mem_view_def mem_writable_def op_result_def)
  have "snd (mem_Get e' h ks' k') = snd (mem_Get e h ks' k')" if "(ks', k') \<noteq> (ks, k)" for ks' k'
    unfolding mem_Get_view [OF d(1)] mem_Get_view [OF d(2)] v using that by (auto simp: upd_view_def split: option.split)
  moreover have "mem_Get e' h ks k = (e', Inr v)"
    unfolding mem_Get_view [OF d(1)] v by (simp add: upd_view_def)
  moreover have "mem_view e' h' = mem_view e h'" if "h' \<noteq> h" for h'
    using that unfolding e' by (simp add: mem_view_def)
  ultimately show ?thesis using law by simp
qed

theorem mem_read_your_writes_witness:
  "snd (mem_Get (fst (mem_Put (fst (mem_Begin mem_Open False)) 0 KSNode [1] [2])) 0 KSNode [1]) = Inr [2]"
proof -
  have "mem_Put (fst (mem_Begin mem_Open False)) 0 KSNode [1] [2]
      = (fst (mem_Put (fst (mem_Begin mem_Open False)) 0 KSNode [1] [2]), Inr ())"
    by (simp add: mem_Put_def mem_Begin_def mem_Open_def Let_def)
  from mem_read_your_writes [OF _ this] show ?thesis by (simp add: mem_reachable.intros)
qed

text \<open>
  \<open>Commit\<close> publishes the whole write set at once, over whatever was committed since the
  transaction began (the last writer of a key wins), finishes the transaction, and leaves every
  other open transaction's view as it was.
\<close>

theorem mem_commit_publishes:
  assumes "mem_reachable e" and "\<not> me_closed e" and "mem_writable e h"
    and "run_hook (BeforeCommit (me_hooks e)) = None"
  shows "mem_committed (fst (mem_Commit e h)) = overlay_view (mt_writes (tx_of e h)) (mem_committed e)
    \<and> \<not> mem_live (fst (mem_Commit e h)) h
    \<and> (\<forall>h'. h' \<noteq> h \<longrightarrow> mem_view (fst (mem_Commit e h)) h' = mem_view e h')
    \<and> me_commits (fst (mem_Commit e h)) = me_commits e + 1"
  using mem_commit_view [OF mem_reachable_inv [OF assms(1)], of h] assms
  by (auto simp: mem_writable_def mem_live_def mem_view_def)

theorem mem_commit_publishes_witness:
  "mem_committed (fst (mem_Commit (fst (mem_Put (fst (mem_Begin mem_Open False)) 0 KSNode [1] [2])) 0)) KSNode [1] = Some [2]"
proof -
  let ?e = "fst (mem_Put (fst (mem_Begin mem_Open False)) 0 KSNode [1] [2])"
  have "mem_reachable ?e" by (intro mem_reachable.intros)
  moreover have t: "tx_of ?e 0 = \<lparr>mt_snap = [], mt_writes = [(KSNode, [([1], \<lparr>wo_val = [2], wo_del = False\<rparr>)])], mt_marks = [],
      mt_ro = False, mt_done = False\<rparr>" "\<not> me_closed ?e" "run_hook (BeforeCommit (me_hooks ?e)) = None"
    by (simp_all add: mem_Put_def mem_Begin_def mem_Open_def Let_def tx_write_def no_hooks_def run_hook_def tx_of_def set_tx_def)
  ultimately show ?thesis
    using mem_commit_publishes [of ?e 0] by (simp add: mem_writable_def overlay_view_def write_at_def op_result_def)
qed

text \<open>
  Refused calls change nothing: on a finished transaction every method returns \<open>ErrDone\<close>, on
  a read-only one \<open>Put\<close> and \<open>Delete\<close> return \<open>ErrReadOnly\<close>, on a closed engine \<open>Begin\<close>,
  \<open>Commit\<close> and \<open>Crash\<close> return \<open>ErrClosed\<close>, and a failing \<open>BeforeCommit\<close> hook leaves the
  transaction open with its writes.
\<close>

theorem mem_refusals:
  "(\<not> mem_live e h \<longrightarrow> mem_Get e h ks k = (e, Inl ErrDone) \<and> mem_Put e h ks k v = (e, Inl ErrDone)
      \<and> mem_Delete e h ks k = (e, Inl ErrDone) \<and> mem_Rollback e h = (e, Inl ErrDone)
      \<and> mem_Mark e h = (e, Inl ErrDone) \<and> mem_RollbackTo e h m = (e, Inl ErrDone)
      \<and> mem_Cursor e h ks = (e, Inl ErrDone) \<and> (\<not> me_closed e \<longrightarrow> mem_Commit e h = (e, Inl ErrDone)))
    \<and> (mem_live e h \<and> \<not> mem_writable e h \<longrightarrow> mem_Put e h ks k v = (e, Inl ErrReadOnly)
      \<and> mem_Delete e h ks k = (e, Inl ErrReadOnly))
    \<and> (me_closed e \<longrightarrow> mem_Begin e r = (e, Inl ErrClosed) \<and> mem_Commit e h = (e, Inl ErrClosed)
      \<and> mem_Crash e = (e, Inl ErrClosed))
    \<and> (\<not> me_closed e \<and> mem_writable e h \<and> mt_writes (tx_of e h) \<noteq> []
        \<and> run_hook (BeforeCommit (me_hooks e)) = Some err \<longrightarrow> mem_Commit e h = (e, Inl err))"
  by (simp add: mem_live_def mem_writable_def mem_Get_def mem_Put_def mem_Delete_def mem_Rollback_def mem_Mark_def
      mem_RollbackTo_def mem_Cursor_def mem_Commit_def mem_Begin_def mem_Crash_def Let_def)

theorem mem_refusals_witness: "mem_Get mem_Open 3 KSNode [1] = (mem_Open, Inl ErrDone)"
  using mem_refusals [of mem_Open 3 KSNode "[1]"] by (simp add: mem_live_def tx_of_def mem_Open_def)

fun mem_run :: "memEngine \<Rightarrow> nat \<Rightarrow> (keyspace \<times> bytes \<times> bytes option) list \<Rightarrow> memEngine" where
  "mem_run e h [] = e"
| "mem_run e h ((ks, k, None) # ws) = mem_run (fst (mem_Delete e h ks k)) h ws"
| "mem_run e h ((ks, k, Some v) # ws) = mem_run (fst (mem_Put e h ks k v)) h ws"

lemma mem_run_fields:
  "mt_done (tx_of (mem_run e h ws) h) = mt_done (tx_of e h)" "mt_marks (tx_of (mem_run e h ws) h) = mt_marks (tx_of e h)"
  "mt_snap (tx_of (mem_run e h ws) h) = mt_snap (tx_of e h)" "mt_ro (tx_of (mem_run e h ws) h) = mt_ro (tx_of e h)"
  by (induction e h ws rule: mem_run.induct) (simp_all add: mem_Delete_def mem_Put_def Let_def)

text \<open>
  Savepoints: after \<open>Mark\<close>, any sequence of puts and deletes, then \<open>RollbackTo\<close> that mark,
  the transaction is exactly what it was before \<open>Mark\<close>.
\<close>

theorem mem_savepoint_restores:
  assumes "mem_live e h"
  shows "\<exists>e1 e2. mem_Mark e h = (e1, Inr (length (mt_marks (tx_of e h)) + 1))
    \<and> mem_RollbackTo (mem_run e1 h ws) h (int (length (mt_marks (tx_of e h)) + 1)) = (e2, Inr ())
    \<and> tx_of e2 h = tx_of e h"
proof -
  let ?e1 = "set_tx e h ((tx_of e h)\<lparr>mt_marks := mt_marks (tx_of e h) @ [mt_writes (tx_of e h)]\<rparr>)"
  have m: "mem_Mark e h = (?e1, Inr (length (mt_marks (tx_of e h)) + 1))"
    using assms by (simp add: mem_Mark_def mem_live_def Let_def)
  show ?thesis
    using assms m by (auto simp: mem_RollbackTo_def mem_live_def Let_def mem_run_fields nth_append intro!: memTx.equality)
qed

theorem mem_savepoint_restores_witness:
  "\<exists>e1 e2. mem_Mark (fst (mem_Begin mem_Open False)) 0 = (e1, Inr 1)
    \<and> mem_RollbackTo (mem_run e1 0 [(KSNode, [1], Some [2])]) 0 1 = (e2, Inr ())"
proof -
  have "mem_live (fst (mem_Begin mem_Open False)) 0" "mt_marks (tx_of (fst (mem_Begin mem_Open False)) 0) = []"
    by (simp_all add: mem_live_def mem_Begin_def mem_Open_def Let_def)
  then show ?thesis using mem_savepoint_restores [of _ 0 "[(KSNode, [1], Some [2])]"] by fastforce
qed

text \<open>
  Cursors follow the contract of the interface: \<open>Seek\<close> lands on the least visible key not
  below the target, with its value, and fails exactly when there is none.
\<close>

theorem mem_cursor_seek:
  assumes "mem_reachable e" and "mc_usable e c"
  defines "V \<equiv> mem_view e (mc_tx c) (mc_ks c)"
  shows "(case mc_Seek e c (Some t) of (e', c', ok) \<Rightarrow> e' = e \<and> (ok \<longleftrightarrow> (\<exists>k. V k \<noteq> None \<and> t \<le> k))
      \<and> (ok \<longrightarrow> t \<le> mc_Key e c' \<and> V (mc_Key e c') = Some (mc_Value e c') \<and> (\<forall>k. V k \<noteq> None \<and> t \<le> k \<longrightarrow> mc_Key e c' \<le> k)))"
proof -
  have "mem_live e (mc_tx c)" "\<not> mc_closed c" using assms(2) by (auto simp: mc_usable_def mem_live_def)
  from mem_seek_law [OF mem_reachable_inv [OF assms(1)] this, of "Some t"] obtain c' xs where
    x: "entries V xs" and sk: "mc_Seek e c (Some t) = (e, c', mc_rest e c' \<noteq> [])"
    and r: "mc_rest e c' = filter (\<lambda>x. t \<le> fst x) xs" unfolding V_def by auto
  have mem: "(k, v) \<in> set xs \<longleftrightarrow> V k = Some v" for k v
    using x by (auto simp: entries_def strict_sorted_iff simp flip: map_of_eq_Some_iff)
  have ex: "(\<exists>k. V k \<noteq> None \<and> t \<le> k) \<longleftrightarrow> mc_rest e c' \<noteq> []"
    unfolding r filter_empty_conv using mem by force
  have "t \<le> mc_Key e c' \<and> V (mc_Key e c') = Some (mc_Value e c') \<and> (\<forall>k. V k \<noteq> None \<and> t \<le> k \<longrightarrow> mc_Key e c' \<le> k)"
    if ne: "mc_rest e c' \<noteq> []"
  proof -
    obtain y ys where y: "mc_rest e c' = y # ys" using ne by (cases "mc_rest e c'") auto
    then have kv: "mc_Key e c' = fst y" "mc_Value e c' = snd y" using mc_Key_rest by auto
    have "y \<in> set xs" "t \<le> fst y" using y r by (auto simp: filter_eq_Cons_iff)
    moreover have "fst y \<le> k" if "V k \<noteq> None" "t \<le> k" for k
    proof -
      from that obtain v where "V k = Some v" "t \<le> k" by blast
      then have "(k, v) \<in> set (y # ys)" using mem unfolding y [symmetric] r by auto
      moreover have "sorted_wrt (<) (map fst (y # ys))"
        using x unfolding y [symmetric] r entries_def sorted_wrt_map by (intro sorted_wrt_filter) simp
      ultimately show ?thesis by auto
    qed
    ultimately show ?thesis using kv mem [of "fst y" "snd y"] by simp
  qed
  with sk ex show ?thesis by simp
qed


theorem mem_cursor_seek_witness:
  "snd (snd (mc_Seek (fst (mem_Begin mem_Open True)) \<lparr>mc_tx = 0, mc_ks = KSNode, mc_keys = [], mc_vals = [], mc_idx = -1,
     mc_closed = False\<rparr> (Some [1]))) = False"
proof -
  let ?e = "fst (mem_Begin mem_Open True)"
  let ?c = "\<lparr>mc_tx = 0, mc_ks = KSNode, mc_keys = [], mc_vals = [], mc_idx = -1, mc_closed = False\<rparr>"
  have "mem_reachable ?e" by (intro mem_reachable.intros)
  moreover have "mc_usable ?e ?c" "mem_view ?e 0 KSNode = Map.empty"
    by (simp_all add: mc_usable_def mem_Begin_def mem_Open_def Let_def mem_view_def tx_view_def snap_view_def fun_eq_iff)
  ultimately show ?thesis using mem_cursor_seek [of ?e ?c "[1]"] by (auto split: prod.splits)
qed

lemma takeWhile_le_filter:
  fixes t :: bytes
  shows "sorted_wrt (<) (map fst xs) \<Longrightarrow> takeWhile (\<lambda>x. fst x \<le> t) xs = filter (\<lambda>x. fst x \<le> t) xs"
proof (induction xs)
  case (Cons x xs)
  then have "filter (\<lambda>y. fst y \<le> t) xs = []" if "\<not> fst x \<le> t"
    using that by (auto simp: filter_empty_conv dest: order_trans [OF less_imp_le])
  with Cons show ?case by simp
qed simp

lemma search_gt_length:
  fixes t :: bytes
  assumes "sorted_wrt (<) (map fst xs)"
  shows "sortSearch (length xs) (\<lambda>n. t < map fst xs ! n) = length (filter (\<lambda>x. fst x \<le> t) xs)"
proof -
  have "sortSearch (length (map fst xs)) (\<lambda>n. t < map fst xs ! n) = length (takeWhile (\<lambda>x. \<not> t < x) (map fst xs))"
    using assms by (intro sortSearch_sorted) (auto simp: strict_sorted_iff)
  also have "\<dots> = length (takeWhile (\<lambda>x. fst x \<le> t) xs)" by (simp add: takeWhile_map o_def not_less)
  finally show ?thesis using takeWhile_le_filter [OF assms] by simp
qed

lemma last_le_greatest:
  fixes t :: bytes
  assumes "sorted_wrt (<) (map fst xs)" and "filter (\<lambda>x. fst x \<le> t) xs \<noteq> []"
  shows "xs ! (length (filter (\<lambda>x. fst x \<le> t) xs) - 1) = last (filter (\<lambda>x. fst x \<le> t) xs)"
    and "x \<in> set xs \<Longrightarrow> fst x \<le> t \<Longrightarrow> fst x \<le> fst (last (filter (\<lambda>x. fst x \<le> t) xs))"
proof -
  let ?ys = "filter (\<lambda>x. fst x \<le> t) xs"
  have "xs = ?ys @ dropWhile (\<lambda>x. fst x \<le> t) xs" by (metis takeWhile_dropWhile_id takeWhile_le_filter [OF assms(1)])
  moreover have "length ?ys - 1 < length ?ys" using assms(2) by simp
  ultimately show "xs ! (length ?ys - 1) = last ?ys" by (metis assms(2) last_conv_nth nth_append)
  show "fst x \<le> fst (last ?ys)" if "x \<in> set xs" "fst x \<le> t"
  proof -
    have "sorted_wrt (\<lambda>x y. fst x < fst y) (butlast ?ys @ [last ?ys])"
      using assms sorted_wrt_filter [of "\<lambda>x y. fst x < fst y" xs] by (simp add: sorted_wrt_map)
    moreover have "x \<in> set (butlast ?ys @ [last ?ys])" using that assms(2) by simp
    ultimately show ?thesis by (auto simp: sorted_wrt_append)
  qed
qed

text \<open>
  \<open>SeekReverse\<close> lands on the greatest visible key not above the target, with its value, and
  fails exactly when there is none.
\<close>

theorem mem_cursor_seek_reverse:
  assumes "mem_reachable e" and "mc_usable e c"
  defines "V \<equiv> mem_view e (mc_tx c) (mc_ks c)"
  shows "(case mc_SeekReverse e c (Some t) of (e', c', ok) \<Rightarrow> e' = e \<and> (ok \<longleftrightarrow> (\<exists>k. V k \<noteq> None \<and> k \<le> t))
      \<and> (ok \<longrightarrow> mc_Key e c' \<le> t \<and> V (mc_Key e c') = Some (mc_Value e c') \<and> (\<forall>k. V k \<noteq> None \<and> k \<le> t \<longrightarrow> k \<le> mc_Key e c')))"
proof -
  define xs where "xs = mem_materialize (tx_of e (mc_tx c)) (mc_ks c)"
  have x: "entries V xs"
    unfolding V_def xs_def mem_view_def using mem_inv_tx [OF mem_reachable_inv [OF assms(1)]] by (rule mem_materialize_entries)
  then have srt: "sorted_wrt (<) (map fst xs)" and mem: "(k, v) \<in> set xs \<longleftrightarrow> V k = Some v" for k v
    by (auto simp: entries_def strict_sorted_iff simp flip: map_of_eq_Some_iff)
  let ?ys = "filter (\<lambda>x. fst x \<le> t) xs" and ?c = "mc_load e c"
  have ex: "(\<exists>k. V k \<noteq> None \<and> k \<le> t) \<longleftrightarrow> ?ys \<noteq> []" unfolding filter_empty_conv using mem by force
  have load: "mc_keys ?c = map fst xs" "mc_vals ?c = map snd xs" by (simp_all add: mc_load_def Let_def xs_def)
  have eq: "mc_SeekReverse e c (Some t) = (if ?ys = [] then (e, ?c\<lparr>mc_idx := -1\<rparr>, False)
      else (e, ?c\<lparr>mc_idx := int (length ?ys) - 1\<rparr>, True))"
    using assms(2) search_gt_length [OF srt, of t] by (auto simp: mc_SeekReverse_def Let_def load)
  show ?thesis
  proof (cases "?ys = []")
    case False
    let ?c' = "?c\<lparr>mc_idx := int (length ?ys) - 1\<rparr>"
    note g = last_le_greatest [OF srt False]
    have i: "nat (int (length ?ys) - 1) = length ?ys - 1" "length ?ys - 1 < length xs"
      using False length_filter_le [of "\<lambda>x. fst x \<le> t" xs] by (simp, metis One_nat_def Suc_pred length_greater_0_conv less_eq_Suc_le)
    then have "mc_positioned e ?c'" using assms(2) False length_filter_le [of "\<lambda>x. fst x \<le> t" xs]
      by (auto simp: mc_positioned_def mc_usable_def mc_load_def Let_def xs_def [symmetric])
    then have kv: "mc_Key e ?c' = fst (last ?ys)" "mc_Value e ?c' = snd (last ?ys)"
      using i g(1) by (simp_all add: mc_Key_def mc_Value_def load)
    have lst: "last ?ys \<in> set xs" "fst (last ?ys) \<le> t" using last_in_set [OF False] by auto
    have "k \<le> fst (last ?ys)" if "V k \<noteq> None" "k \<le> t" for k
      using that g(2) [of "(k, the (V k))"] mem by auto
    with eq False ex kv lst mem [of "fst (last ?ys)" "snd (last ?ys)"] show ?thesis by simp
  qed (use eq ex in simp)
qed

theorem mem_cursor_seek_reverse_witness:
  "snd (snd (mc_SeekReverse (fst (mem_Begin mem_Open True)) \<lparr>mc_tx = 0, mc_ks = KSNode, mc_keys = [], mc_vals = [], mc_idx = -1,
     mc_closed = False\<rparr> (Some [1]))) = False"
proof -
  let ?e = "fst (mem_Begin mem_Open True)"
  let ?c = "\<lparr>mc_tx = 0, mc_ks = KSNode, mc_keys = [], mc_vals = [], mc_idx = -1, mc_closed = False\<rparr>"
  have "mem_reachable ?e" by (intro mem_reachable.intros)
  moreover have "mc_usable ?e ?c" "mem_view ?e 0 KSNode = Map.empty"
    by (simp_all add: mc_usable_def mem_Begin_def mem_Open_def Let_def mem_view_def tx_view_def snap_view_def fun_eq_iff)
  ultimately show ?thesis using mem_cursor_seek_reverse [of ?e ?c "[1]"] by (auto split: prod.splits)
qed

end
