(* ===== verification/TxnVersion.thy ===== *)
theory TxnVersion
  imports MemEngine
begin

text \<open>
  The version format of the transaction manager, \<^verbatim>\<open>internal/txn/version.go\<close>, with the pure parts of
  \<^verbatim>\<open>store.go\<close>: visibility of a version at a snapshot, the encodings of heads, chain records, chain
  keys and the timestamp oracle, and the choice of the visible version. Timestamps are 64-bit words
  and compare unsigned.
\<close>

definition formatVersion :: byte where "formatVersion = 1"
definition headMagic :: byte where "headMagic = 0xA5"
definition headHeader :: nat where "headHeader = 17"
definition chainMark :: byte where "chainMark = 0x01"
definition metaKey :: bytes where "metaKey = [0x00]"

definition Visible :: "uint64 \<Rightarrow> uint64 \<Rightarrow> uint64 \<Rightarrow> bool" where
  "Visible createTS deleteTS snapshot =
     (if createTS > snapshot then False
      else if deleteTS \<noteq> 0 \<and> deleteTS \<le> snapshot then False
      else True)"

record head =
  hd_create :: uint64
  hd_delete :: uint64
  hd_payload :: bytes
  hd_legacy :: bool

definition be_u64 :: "bytes \<Rightarrow> uint64" where
  "be_u64 b = word_of_nat (be_get b)"

definition encodeHead :: "uint64 \<Rightarrow> uint64 \<Rightarrow> bytes \<Rightarrow> bytes" where
  "encodeHead create deleteTS payload =
     [headMagic] @ be_put 8 (unat create) @ be_put 8 (unat deleteTS) @ payload"

definition decodeHead :: "bytes \<Rightarrow> head" where
  "decodeHead b =
     (if length b < headHeader \<or> b ! 0 \<noteq> headMagic
      then \<lparr>hd_create = 0, hd_delete = 0, hd_payload = b, hd_legacy = True\<rparr>
      else \<lparr>hd_create = be_u64 (take 8 (drop 1 b)), hd_delete = be_u64 (take 8 (drop 9 b)),
            hd_payload = drop headHeader b, hd_legacy = False\<rparr>)"

definition encodeChain :: "uint64 \<Rightarrow> bytes \<Rightarrow> bytes" where
  "encodeChain deleteTS payload = be_put 8 (unat deleteTS) @ payload"

definition decodeChain :: "bytes \<Rightarrow> head sresult" where
  "decodeChain b =
     (if length b < 8 then Inl (gerr_New Corruption ''version chain record is truncated'')
      else Inr \<lparr>hd_create = 0, hd_delete = be_u64 (take 8 b), hd_payload = drop 8 b, hd_legacy = False\<rparr>)"

text \<open>\<open>uint32(len(key))\<close> keeps the low 32 bits of the length.\<close>

definition chainPrefix :: "keyspace \<Rightarrow> bytes \<Rightarrow> bytes" where
  "chainPrefix ks key = [chainMark, ks] @ be_put 4 (length key mod 2 ^ 32) @ key"

definition chainKey :: "keyspace \<Rightarrow> bytes \<Rightarrow> uint64 \<Rightarrow> bytes" where
  "chainKey ks key createTS = chainPrefix ks key @ be_put 8 (unat createTS)"

record txOracle =
  or_nextTxn :: uint64
  or_commitTS :: uint64

definition encodeOracle :: "txOracle \<Rightarrow> bytes" where
  "encodeOracle o1 = [formatVersion] @ be_put 8 (unat (or_nextTxn o1)) @ be_put 8 (unat (or_commitTS o1))"

definition decodeOracle :: "bytes \<Rightarrow> txOracle sresult" where
  "decodeOracle b =
     (if length b \<noteq> 17 then Inl (gerr_New Corruption ''mvcc oracle record has the wrong length'')
      else if b ! 0 > formatVersion then Inl (gerr_New InvalidArgument ''database mvcc format is newer; refusing to open'')
      else if b ! 0 \<noteq> formatVersion then Inl (gerr_New Corruption ''mvcc oracle format is not supported'')
      else Inr \<lparr>or_nextTxn = be_u64 (take 8 (drop 1 b)), or_commitTS = be_u64 (take 8 (drop 9 b))\<rparr>)"

definition u64 :: "bytes \<Rightarrow> uint64" where
  "u64 b = (if length b < 8 then 0 else be_u64 (take 8 b))"

definition checkKS :: "keyspace \<Rightarrow> unit sresult" where
  "checkKS ks =
     (if ks = KSVersion then Inl (gerr_New InvalidArgument ''keyspace V is reserved for versions'') else Inr ())"

text \<open>The loop of \<open>visiblePayload\<close> that keeps the visible chain version with the greatest create timestamp.\<close>

fun bestVersion :: "head option \<Rightarrow> head list \<Rightarrow> uint64 \<Rightarrow> head option" where
  "bestVersion best [] snap = best"
| "bestVersion best (v # chain) snap =
     (if \<not> Visible (hd_create v) (hd_delete v) snap then bestVersion best chain snap
      else if (case best of None \<Rightarrow> True | Some b \<Rightarrow> hd_create v > hd_create b)
      then bestVersion (Some v) chain snap
      else bestVersion best chain snap)"

text \<open>The head comes with the flag that says it was found, here as an option.\<close>

definition visiblePayload :: "head option \<Rightarrow> head list \<Rightarrow> uint64 \<Rightarrow> bytes option" where
  "visiblePayload h chain snap =
     (if (case h of None \<Rightarrow> False | Some h \<Rightarrow> Visible (hd_create h) (hd_delete h) snap)
      then map_option hd_payload h
      else if (case h of None \<Rightarrow> False | Some h \<Rightarrow> hd_create h \<le> snap \<and> hd_delete h \<noteq> 0 \<and> hd_delete h \<le> snap)
      then None
      else map_option hd_payload (bestVersion None chain snap))"

section \<open>Codec lemmas\<close>

lemma unat64_less: "unat (u :: uint64) < 256 ^ 8"
  using unsigned_less [where 'a = nat, of u] by simp

lemma be_u64_put [codec_simps]: "be_u64 (be_put 8 (unat u)) = u"
  unfolding be_u64_def be_get_be_put mod_less [OF unat64_less] by simp

lemma decodeHead_encodeHead [codec_simps]:
  "decodeHead (encodeHead c d p) = \<lparr>hd_create = c, hd_delete = d, hd_payload = p, hd_legacy = False\<rparr>"
  by (simp add: decodeHead_def encodeHead_def headHeader_def codec_simps)

lemma decodeChain_encodeChain [codec_simps]:
  "decodeChain (encodeChain d p) = Inr \<lparr>hd_create = 0, hd_delete = d, hd_payload = p, hd_legacy = False\<rparr>"
  by (simp add: decodeChain_def encodeChain_def codec_simps)

lemma length_chainPrefix [simp]: "length (chainPrefix ks k) = 6 + length k"
  by (simp add: chainPrefix_def)

lemma length_chainKey [simp]: "length (chainKey ks k c) = 14 + length k"
  by (simp add: chainKey_def)

lemma chainPrefix_inj: "chainPrefix ks k = chainPrefix ks' k' \<longleftrightarrow> ks = ks' \<and> k = k'"
proof
  assume eq: "chainPrefix ks k = chainPrefix ks' k'"
  then have "length k = length k'" by (metis add_left_cancel length_chainPrefix)
  with eq show "ks = ks' \<and> k = k'" by (simp add: chainPrefix_def)
qed simp

lemma chainPrefix_take:
  assumes "length k' < 2 ^ 32" and "length k < 2 ^ 32" and "take (length (chainPrefix ks k)) (chainKey ks' k' c) = chainPrefix ks k"
  shows "ks' = ks \<and> k' = k"
proof -
  have "take 6 (take (length (chainPrefix ks k)) (chainKey ks' k' c)) = take 6 (chainPrefix ks k)"
    using assms(3) by (simp only:)
  then have "take 6 (chainKey ks' k' c) = take 6 (chainPrefix ks k)" by simp
  moreover have "take 6 (chainPrefix ks k @ r) = [chainMark, ks] @ be_put 4 (length k mod 2 ^ 32)" for ks k r
  proof -
    have "take 6 (([chainMark, ks] @ be_put 4 n) @ k @ r) = [chainMark, ks] @ be_put 4 n" for n by simp
    then show ?thesis by (simp only: chainPrefix_def append_assoc)
  qed
  ultimately have "be_put 4 (length k' mod 2 ^ 32) = be_put 4 (length k mod 2 ^ 32)"
    unfolding chainKey_def by (metis append_Cons append_Nil append_Nil2 list.inject)
  then have "length k' = length k" using assms(1,2) be_put_inj [of "length k'" 4 "length k"] by simp
  then have "chainPrefix ks' k' = chainPrefix ks k" using assms(3) by (simp add: chainKey_def)
  then show ?thesis by (simp add: chainPrefix_inj)
qed

lemma chainKey_inj:
  "chainKey ks k c = chainKey ks' k' c' \<longleftrightarrow> ks = ks' \<and> k = k' \<and> c = c'"
proof
  assume eq: "chainKey ks k c = chainKey ks' k' c'"
  then have len: "length k = length k'" by (metis add_left_cancel length_chainKey)
  with eq have "ks = ks'" "k = k'" "be_put 8 (unat c) = be_put 8 (unat c')"
    by (simp_all add: chainKey_def chainPrefix_def)
  then show "ks = ks' \<and> k = k' \<and> c = c'" by (metis be_u64_put)
qed simp

lemma chainKey_not_meta [simp]: "chainKey ks k c \<noteq> metaKey" "metaKey \<noteq> chainKey ks k c"
  by (simp_all add: chainKey_def chainPrefix_def metaKey_def)

lemma u64_chainKey [codec_simps]: "u64 (drop (length (chainPrefix ks k)) (chainKey ks k c)) = c"
  by (simp add: chainKey_def u64_def codec_simps)

lemma u64_chainKey_end [codec_simps]: "u64 (drop (length (chainKey ks k c) - 8) (chainKey ks k c)) = c"
  by (simp add: chainKey_def u64_def codec_simps)

text \<open>
  The version records round-trip: heads, chain records and the oracle decode to what was
  encoded, and chain keys of different versions, keys or keyspaces never collide.
\<close>

theorem version_codecs:
  "decodeHead (encodeHead c d p) = \<lparr>hd_create = c, hd_delete = d, hd_payload = p, hd_legacy = False\<rparr>
    \<and> decodeChain (encodeChain d p) = Inr \<lparr>hd_create = 0, hd_delete = d, hd_payload = p, hd_legacy = False\<rparr>
    \<and> decodeOracle (encodeOracle o1) = Inr o1
    \<and> (chainKey ks k c = chainKey ks' k' c' \<longleftrightarrow> ks = ks' \<and> k = k' \<and> c = c')
    \<and> u64 (drop (length (chainPrefix ks k)) (chainKey ks k c)) = c"
  by (simp add: codec_simps chainKey_inj del: length_chainPrefix)
    (simp add: decodeOracle_def encodeOracle_def codec_simps)

end
