(* ===== verification/TxnStore.thy ===== *)
theory TxnStore
  imports TxnVersion
begin

text \<open>
  The storage helpers of the transaction manager, \<^verbatim>\<open>internal/txn/store.go\<close> and the lower half of
  \<^verbatim>\<open>tx.go\<close>, written over the engine interface as the code is: loops over cursors, reading a head
  and its chain, resolving the version visible at a snapshot, and validating and publishing a write
  set inside one engine transaction. A callback that accumulates through a closure takes and
  returns its accumulator.
\<close>

section \<open>Walking cursors\<close>

fun eachRaw_loop :: "('e, 'c) engine_ops \<Rightarrow> nat \<Rightarrow> (bytes \<Rightarrow> bytes \<Rightarrow> 'a \<Rightarrow> 'a sresult) \<Rightarrow> 'e \<Rightarrow> 'c \<Rightarrow> bool \<Rightarrow> 'a
    \<Rightarrow> 'e \<times> 'a sresult" where
  "eachRaw_loop ops 0 fn e c ok acc = (e, Inl ErrFuel)"
| "eachRaw_loop ops (Suc n) fn e c ok acc =
     (if ok then
        (case fn (ops_Key ops e c) (ops_Value ops e c) acc of
           Inl err \<Rightarrow> (fst (ops_CursorClose ops e c), Inl err)
         | Inr acc \<Rightarrow> (case ops_Next ops e c of (e, c, ok) \<Rightarrow> eachRaw_loop ops n fn e c ok acc))
      else
        (case ops_CursorClose ops e c of
           (e, c, None) \<Rightarrow> (e, Inr acc)
         | (e, c, Some err) \<Rightarrow> (e, Inl err)))"

definition eachRaw :: "('e, 'c) engine_ops \<Rightarrow> 'e \<Rightarrow> nat \<Rightarrow> keyspace \<Rightarrow> (bytes \<Rightarrow> bytes \<Rightarrow> 'a \<Rightarrow> 'a sresult) \<Rightarrow> 'a
    \<Rightarrow> 'e \<times> 'a sresult" where
  "eachRaw ops e h ks fn acc =
     sbind (ops_Cursor ops e h ks) (\<lambda>e c.
       case ops_Seek ops e c None of
         (e, c, ok) \<Rightarrow> eachRaw_loop ops (ops_bound ops e h + 1) fn e c ok acc)"

definition eachHead :: "('e, 'c) engine_ops \<Rightarrow> 'e \<Rightarrow> nat \<Rightarrow> keyspace \<Rightarrow> (bytes \<Rightarrow> head \<Rightarrow> 'a \<Rightarrow> 'a sresult) \<Rightarrow> 'a
    \<Rightarrow> 'e \<times> 'a sresult" where
  "eachHead ops e h ks fn acc = eachRaw ops e h ks (\<lambda>key v acc. fn key (decodeHead v) acc) acc"

fun eachChain_loop :: "('e, 'c) engine_ops \<Rightarrow> nat \<Rightarrow> (bytes \<Rightarrow> head \<Rightarrow> 'a \<Rightarrow> 'a sresult) \<Rightarrow> 'e \<Rightarrow> 'c \<Rightarrow> bool \<Rightarrow> 'a
    \<Rightarrow> 'e \<times> 'a sresult" where
  "eachChain_loop ops 0 fn e c ok acc = (e, Inl ErrFuel)"
| "eachChain_loop ops (Suc n) fn e c ok acc =
     (let k = ops_Key ops e c in
      if ok \<and> \<not> (length k = 0 \<or> k ! 0 \<noteq> chainMark) then
        (case decodeChain (ops_Value ops e c) of
           Inl err \<Rightarrow> (fst (ops_CursorClose ops e c), Inl err)
         | Inr h \<Rightarrow>
             let h = (if length k \<ge> 8 then h\<lparr>hd_create := u64 (drop (length k - 8) k)\<rparr> else h) in
             (case fn k h acc of
                Inl err \<Rightarrow> (fst (ops_CursorClose ops e c), Inl err)
              | Inr acc \<Rightarrow> (case ops_Next ops e c of (e, c, ok) \<Rightarrow> eachChain_loop ops n fn e c ok acc)))
      else
        (case ops_CursorClose ops e c of
           (e, c, None) \<Rightarrow> (e, Inr acc)
         | (e, c, Some err) \<Rightarrow> (e, Inl err)))"

definition eachChain :: "('e, 'c) engine_ops \<Rightarrow> 'e \<Rightarrow> nat \<Rightarrow> (bytes \<Rightarrow> head \<Rightarrow> 'a \<Rightarrow> 'a sresult) \<Rightarrow> 'a
    \<Rightarrow> 'e \<times> 'a sresult" where
  "eachChain ops e h fn acc =
     sbind (ops_Cursor ops e h KSVersion) (\<lambda>e c.
       case ops_Seek ops e c (Some [chainMark]) of
         (e, c, ok) \<Rightarrow> eachChain_loop ops (ops_bound ops e h + 1) fn e c ok acc)"

section \<open>Reading versions\<close>

definition readHead :: "('e, 'c) engine_ops \<Rightarrow> 'e \<Rightarrow> nat \<Rightarrow> keyspace \<Rightarrow> bytes \<Rightarrow> 'e \<times> head option sresult" where
  "readHead ops e h ks key = (case ops_Get ops e h ks key of
     (e, Inl err) \<Rightarrow> if isNotFound err then (e, Inr None) else (e, Inl err)
   | (e, Inr raw) \<Rightarrow> (e, Inr (Some (decodeHead raw))))"

fun loadChain_loop :: "('e, 'c) engine_ops \<Rightarrow> nat \<Rightarrow> bytes \<Rightarrow> 'e \<Rightarrow> 'c \<Rightarrow> bool \<Rightarrow> head list \<Rightarrow> 'e \<times> head list sresult" where
  "loadChain_loop ops 0 prefix e c ok out = (e, Inl ErrFuel)"
| "loadChain_loop ops (Suc n) prefix e c ok out =
     (let k = ops_Key ops e c in
      if ok \<and> \<not> (take (length prefix) k \<noteq> prefix \<or> length k \<noteq> length prefix + 8) then
        (case decodeChain (ops_Value ops e c) of
           Inl err \<Rightarrow> (fst (ops_CursorClose ops e c), Inl err)
         | Inr h \<Rightarrow>
             (case ops_Next ops e c of (e, c, ok) \<Rightarrow>
                loadChain_loop ops n prefix e c ok (out @ [h\<lparr>hd_create := u64 (drop (length prefix) k)\<rparr>])))
      else
        (case ops_CursorClose ops e c of
           (e, c, None) \<Rightarrow> (e, Inr out)
         | (e, c, Some err) \<Rightarrow> (e, Inl err)))"

definition loadChain :: "('e, 'c) engine_ops \<Rightarrow> 'e \<Rightarrow> nat \<Rightarrow> keyspace \<Rightarrow> bytes \<Rightarrow> 'e \<times> head list sresult" where
  "loadChain ops e h ks key =
     (let prefix = chainPrefix ks key in
      sbind (ops_Cursor ops e h KSVersion) (\<lambda>e c.
        case ops_Seek ops e c (Some prefix) of
          (e, c, ok) \<Rightarrow> loadChain_loop ops (ops_bound ops e h + 1) prefix e c ok []))"

definition resolve :: "('e, 'c) engine_ops \<Rightarrow> 'e \<Rightarrow> nat \<Rightarrow> keyspace \<Rightarrow> bytes \<Rightarrow> head option \<Rightarrow> uint64
    \<Rightarrow> 'e \<times> bytes option sresult" where
  "resolve ops e s ks key h snap =
     (case h of
        None \<Rightarrow> (e, Inr None)
      | Some hv \<Rightarrow>
          if Visible (hd_create hv) (hd_delete hv) snap then (e, Inr (Some (hd_payload hv)))
          else if hd_create hv \<le> snap \<and> hd_delete hv \<noteq> 0 \<and> hd_delete hv \<le> snap then (e, Inr None)
          else sbind (loadChain ops e s ks key) (\<lambda>e chain. (e, Inr (visiblePayload h chain snap))))"

definition readVersion :: "('e, 'c) engine_ops \<Rightarrow> 'e \<Rightarrow> keyspace \<Rightarrow> bytes \<Rightarrow> uint64 \<Rightarrow> 'e \<times> bytes sresult" where
  "readVersion ops e ks key snap =
     sbind (ops_Begin ops e True) (\<lambda>e s.
       case sbind (readHead ops e s ks key) (\<lambda>e h.
            sbind (resolve ops e s ks key h snap) (\<lambda>e payload.
              (e, case payload of None \<Rightarrow> Inl ErrNotFound | Some p \<Rightarrow> Inr p))) of
         (e, r) \<Rightarrow> (fst (ops_Rollback ops e s), r))"

section \<open>Validating and publishing a write set\<close>

record txWriteOp =
  to_val :: bytes
  to_del :: bool
  to_unique :: bool
  to_shadowed :: bool

type_synonym txWrites = "(keyspace, (bytes, txWriteOp) gomap) gomap"

definition validate_op :: "('e, 'c) engine_ops \<Rightarrow> 'e \<Rightarrow> nat \<Rightarrow> uint64 \<Rightarrow> keyspace \<Rightarrow> bytes \<Rightarrow> txWriteOp
    \<Rightarrow> sterr option \<Rightarrow> 'e \<times> sterr option sresult" where
  "validate_op ops e s snap ks k op conflict =
     sbind (readHead ops e s ks k) (\<lambda>e h.
       case h of
         None \<Rightarrow> (e, Inr conflict)
       | Some h \<Rightarrow>
           if hd_create h > snap \<or> (hd_delete h \<noteq> 0 \<and> hd_delete h > snap) then
             (if to_unique op
              then (e, Inl (gerr_New ConstraintViolation ''unique key was committed by another transaction''))
              else (e, Inr (case conflict of None \<Rightarrow> Some (gerr_New Conflict ''write conflict'') | Some c \<Rightarrow> Some c)))
           else if to_unique op \<and> \<not> to_del op \<and> hd_delete h = 0 \<and> \<not> to_shadowed op
           then (e, Inl (gerr_New ConstraintViolation ''unique key already exists''))
           else (e, Inr conflict))"

fun validate_ops :: "('e, 'c) engine_ops \<Rightarrow> 'e \<Rightarrow> nat \<Rightarrow> uint64 \<Rightarrow> keyspace \<Rightarrow> (bytes, txWriteOp) gomap
    \<Rightarrow> sterr option \<Rightarrow> 'e \<times> sterr option sresult" where
  "validate_ops ops e s snap ks [] conflict = (e, Inr conflict)"
| "validate_ops ops e s snap ks ((k, op) # rest) conflict =
     sbind (validate_op ops e s snap ks k op conflict) (\<lambda>e conflict. validate_ops ops e s snap ks rest conflict)"

fun validate_loop :: "('e, 'c) engine_ops \<Rightarrow> 'e \<Rightarrow> nat \<Rightarrow> uint64 \<Rightarrow> txWrites \<Rightarrow> sterr option
    \<Rightarrow> 'e \<times> sterr option sresult" where
  "validate_loop ops e s snap [] conflict = (e, Inr conflict)"
| "validate_loop ops e s snap ((ks, kops) # rest) conflict =
     sbind (validate_ops ops e s snap ks kops conflict) (\<lambda>e conflict. validate_loop ops e s snap rest conflict)"

definition validate :: "('e, 'c) engine_ops \<Rightarrow> 'e \<Rightarrow> nat \<Rightarrow> uint64 \<Rightarrow> txWrites \<Rightarrow> 'e \<times> unit sresult" where
  "validate ops e s snap writes =
     sbind (validate_loop ops e s snap writes None) (\<lambda>e conflict.
       (e, case conflict of None \<Rightarrow> Inr () | Some c \<Rightarrow> Inl c))"

definition archive :: "('e, 'c) engine_ops \<Rightarrow> 'e \<Rightarrow> nat \<Rightarrow> keyspace \<Rightarrow> bytes \<Rightarrow> head \<Rightarrow> uint64 \<Rightarrow> 'e \<times> unit sresult" where
  "archive ops e s ks key h cts =
     (let del = (if hd_delete h = 0 then cts else hd_delete h) in
      ops_Put ops e s KSVersion (chainKey ks key (hd_create h)) (encodeChain del (hd_payload h)))"

definition publish_op :: "('e, 'c) engine_ops \<Rightarrow> 'e \<Rightarrow> nat \<Rightarrow> uint64 \<Rightarrow> keyspace \<Rightarrow> bytes \<Rightarrow> txWriteOp \<Rightarrow> int
    \<Rightarrow> 'e \<times> int sresult" where
  "publish_op ops e s cts ks key op delta =
     sbind (readHead ops e s ks key) (\<lambda>e h.
       let wasLive = (case h of None \<Rightarrow> False | Some h \<Rightarrow> hd_delete h = 0) in
       if to_del op then
         (case h of
            None \<Rightarrow> (e, Inr delta)
          | Some hv \<Rightarrow>
              if hd_delete hv \<noteq> 0 then (e, Inr delta)
              else sbind (ops_Put ops e s ks key (encodeHead (hd_create hv) cts (hd_payload hv))) (\<lambda>e _.
                (e, Inr (if wasLive then delta - 1 else delta))))
       else
         sbind (case h of None \<Rightarrow> (e, Inr ()) | Some hv \<Rightarrow> archive ops e s ks key hv cts) (\<lambda>e _.
         sbind (ops_Put ops e s ks key (encodeHead cts 0 (to_val op))) (\<lambda>e _.
           (e, Inr (if \<not> wasLive then delta + 1 else delta)))))"

fun publish_ops :: "('e, 'c) engine_ops \<Rightarrow> 'e \<Rightarrow> nat \<Rightarrow> uint64 \<Rightarrow> keyspace \<Rightarrow> (bytes, txWriteOp) gomap \<Rightarrow> int
    \<Rightarrow> 'e \<times> int sresult" where
  "publish_ops ops e s cts ks [] delta = (e, Inr delta)"
| "publish_ops ops e s cts ks ((k, op) # rest) delta =
     sbind (publish_op ops e s cts ks k op delta) (\<lambda>e delta. publish_ops ops e s cts ks rest delta)"

fun publish_loop :: "('e, 'c) engine_ops \<Rightarrow> 'e \<Rightarrow> nat \<Rightarrow> uint64 \<Rightarrow> txWrites \<Rightarrow> int \<Rightarrow> 'e \<times> int sresult" where
  "publish_loop ops e s cts [] delta = (e, Inr delta)"
| "publish_loop ops e s cts ((ks, kops) # rest) delta =
     sbind (publish_ops ops e s cts ks kops delta) (\<lambda>e delta. publish_loop ops e s cts rest delta)"

definition publish :: "('e, 'c) engine_ops \<Rightarrow> 'e \<Rightarrow> nat \<Rightarrow> uint64 \<Rightarrow> txWrites \<Rightarrow> 'e \<times> int sresult" where
  "publish ops e s cts writes = publish_loop ops e s cts writes 0"

section \<open>Opening a store\<close>

definition userKeyspaces :: "keyspace list" where
  "userKeyspaces = [KSNode, KSEdge, KSOut, KSIn, KSLabel, KSEdgeType, KSProp, KSCatalog]"

definition readOracle :: "('e, 'c) engine_ops \<Rightarrow> 'e \<Rightarrow> 'e \<times> txOracle option sresult" where
  "readOracle ops e =
     sbind (ops_Begin ops e True) (\<lambda>e s.
       case (case ops_Get ops e s KSVersion metaKey of
               (e, Inl err) \<Rightarrow> if isNotFound err then (e, Inr None) else (e, Inl err)
             | (e, Inr raw) \<Rightarrow> (case decodeOracle raw of Inl err \<Rightarrow> (e, Inl err) | Inr o1 \<Rightarrow> (e, Inr (Some o1)))) of
         (e, r) \<Rightarrow> (fst (ops_Rollback ops e s), r))"

definition loadOracle :: "('e, 'c) engine_ops \<Rightarrow> 'e \<Rightarrow> 'e \<times> txOracle sresult" where
  "loadOracle ops e =
     sbind (readOracle ops e) (\<lambda>e o1. case o1 of
       None \<Rightarrow> (e, Inl (gerr_New Internal ''mvcc oracle is missing after open''))
     | Some o1 \<Rightarrow> (e, Inr o1))"

text \<open>The scan of \<open>migrate\<close>: the keys to wrap, the greatest create timestamp, and whether anything was seen.\<close>

type_synonym scan = "(keyspace \<times> bytes \<times> bytes) list \<times> uint64 \<times> bool"

definition migrate_fn :: "keyspace \<Rightarrow> bytes \<Rightarrow> bytes \<Rightarrow> scan \<Rightarrow> scan sresult" where
  "migrate_fn ks key v acc = (case acc of (wrap, maxCreate, saw) \<Rightarrow>
     let h = decodeHead v in
     if \<not> hd_legacy h then Inr (wrap, if hd_create h > maxCreate then hd_create h else maxCreate, True)
     else Inr (wrap @ [(ks, key, hd_payload h)], maxCreate, True))"

fun migrate_scan :: "('e, 'c) engine_ops \<Rightarrow> 'e \<Rightarrow> nat \<Rightarrow> keyspace list \<Rightarrow> scan \<Rightarrow> 'e \<times> scan sresult" where
  "migrate_scan ops e s [] acc = (e, Inr acc)"
| "migrate_scan ops e s (ks # rest) acc =
     sbind (eachRaw ops e s ks (migrate_fn ks) acc) (\<lambda>e acc. migrate_scan ops e s rest acc)"

fun migrate_wrap :: "('e, 'c) engine_ops \<Rightarrow> 'e \<Rightarrow> nat \<Rightarrow> (keyspace \<times> bytes \<times> bytes) list \<Rightarrow> 'e \<times> unit sresult" where
  "migrate_wrap ops e s [] = (e, Inr ())"
| "migrate_wrap ops e s ((ks, key, payload) # rest) =
     sbind (ops_Put ops e s ks key (encodeHead 1 0 payload)) (\<lambda>e _. migrate_wrap ops e s rest)"

definition migrate :: "('e, 'c) engine_ops \<Rightarrow> 'e \<Rightarrow> 'e \<times> unit sresult" where
  "migrate ops e =
     sbind (readOracle ops e) (\<lambda>e o1.
       case o1 of
         Some _ \<Rightarrow> (e, Inr ())
       | None \<Rightarrow>
           sbind (ops_Begin ops e False) (\<lambda>e s.
             case
               sbind (migrate_scan ops e s userKeyspaces ([], 0, False)) (\<lambda>e (wrap, maxCreate, saw).
               sbind (migrate_wrap ops e s wrap) (\<lambda>e _.
                 let maxCreate = (if wrap \<noteq> [] \<and> maxCreate < 1 then 1 else maxCreate);
                     o1 = (if saw then
                             let maxCreate = (if maxCreate = 0 then 1 else maxCreate) in
                             \<lparr>or_nextTxn = maxCreate + 1, or_commitTS = maxCreate\<rparr>
                           else \<lparr>or_nextTxn = 1, or_commitTS = 0\<rparr>) in
                 sbind (ops_Put ops e s KSVersion metaKey (encodeOracle o1)) (\<lambda>e _. ops_Commit ops e s)))
             of
               (e, Inr _) \<Rightarrow> (e, Inr ())
             | (e, Inl err) \<Rightarrow> (fst (ops_Rollback ops e s), Inl err)))"

fun countLive_loop :: "('e, 'c) engine_ops \<Rightarrow> 'e \<Rightarrow> nat \<Rightarrow> keyspace list \<Rightarrow> nat \<Rightarrow> 'e \<times> nat sresult" where
  "countLive_loop ops e s [] n = (e, Inr n)"
| "countLive_loop ops e s (ks # rest) n =
     sbind (eachHead ops e s ks (\<lambda>_ h n. Inr (if hd_delete h = 0 then n + 1 else n)) n)
       (\<lambda>e n. countLive_loop ops e s rest n)"

definition countLive :: "('e, 'c) engine_ops \<Rightarrow> 'e \<Rightarrow> keyspace list \<Rightarrow> 'e \<times> nat sresult" where
  "countLive ops e spaces =
     sbind (ops_Begin ops e True) (\<lambda>e s.
       case countLive_loop ops e s spaces 0 of (e, r) \<Rightarrow> (fst (ops_Rollback ops e s), r))"

end
