(* ===== verification/Txn.thy ===== *)
theory Txn
  imports TxnStore
begin

text \<open>
  The transaction manager, \<^verbatim>\<open>internal/txn/manager.go\<close>, \<^verbatim>\<open>tx.go\<close> and \<^verbatim>\<open>cursor.go\<close>, over an engine
  interface \<open>ops\<close>. A transaction is a handle into the manager's table, because \<open>Crash\<close>, \<open>Close\<close>
  and the idle timeout finish transactions their owners still hold; a handle no \<open>Begin\<close> returned
  behaves as a finished one. Each method is one step on the state (the mutexes make it so, apart
  from the two re-reads of \<open>done\<close> inside \<open>Commit\<close>, which are kept). The clock is an argument:
  \<open>now\<close> in nanoseconds, with 0 the zero \<open>time.Time\<close>. The goroutine of \<open>startGC\<close> is a step
  \<open>gcTick\<close> that can happen at any moment while \<open>mg_gc\<close> holds.
\<close>

section \<open>State\<close>

record txOptions =
  MaxOpenTxns :: int
  MaxWriteSet :: int
  IdleTimeout :: int
  GCInterval :: int

record txTx =
  tt_id :: uint64
  tt_snapshot :: uint64
  tt_commitTS :: uint64
  tt_ro :: bool
  tt_done :: bool
  tt_writes :: txWrites
  tt_marks :: "txWrites list"
  tt_last :: int
  tt_started :: int

record 'e manager =
  mg_eng :: 'e
  mg_opt :: txOptions
  mg_hooks :: hooks
  mg_nextTxnID :: uint64
  mg_commitTS :: uint64
  mg_liveKeys :: int
  mg_open :: "nat list"
  mg_txs :: "nat \<rightharpoonup> txTx"
  mg_next :: nat
  mg_spaces :: "keyspace list"
  mg_commits :: uint64
  mg_rollbacks :: uint64
  mg_reclaimed :: uint64
  mg_closed :: bool
  mg_gc :: bool

record mvccStats =
  VersionsReclaimed :: uint64
  OldestSnapshotAge :: int
  OpenTxns :: nat
  Stats_CommitTS :: uint64
  LiveKeys :: int

definition defaultMaxOpen :: int where "defaultMaxOpen = 1024"
definition defaultMaxWrite :: int where "defaultMaxWrite = 100000"

definition mtx_of :: "'e manager \<Rightarrow> nat \<Rightarrow> txTx" where
  "mtx_of m t = (case mg_txs m t of
     Some x \<Rightarrow> x
   | None \<Rightarrow> \<lparr>tt_id = 0, tt_snapshot = 0, tt_commitTS = 0, tt_ro = True, tt_done = True, tt_writes = [],
       tt_marks = [], tt_last = 0, tt_started = 0\<rparr>)"

definition set_mtx :: "'e manager \<Rightarrow> nat \<Rightarrow> txTx \<Rightarrow> 'e manager" where
  "set_mtx m t x = m\<lparr>mg_txs := (mg_txs m)(t \<mapsto> x)\<rparr>"

text \<open>A call on the engine, with the manager's other fields carried along.\<close>

definition on_eng :: "'e manager \<Rightarrow> 'e \<times> 'a sresult \<Rightarrow> 'e manager \<times> 'a sresult" where
  "on_eng m r = (m\<lparr>mg_eng := fst r\<rparr>, snd r)"

section \<open>Write sets\<close>

definition ops_at :: "txWrites \<Rightarrow> keyspace \<Rightarrow> (bytes, txWriteOp) gomap" where
  "ops_at w ks = (case map_of w ks of None \<Rightarrow> [] | Some kops \<Rightarrow> kops)"

definition hasWrites :: "txWrites \<Rightarrow> bool" where
  "hasWrites w \<longleftrightarrow> list_ex (\<lambda>kops. length (snd kops) > 0) w"

definition writeCount :: "txWrites \<Rightarrow> nat" where
  "writeCount w = sum_list (map (\<lambda>kops. length (snd kops)) w)"

definition set_op :: "txWrites \<Rightarrow> keyspace \<Rightarrow> bytes \<Rightarrow> txWriteOp \<Rightarrow> txWrites" where
  "set_op w ks key op = AList.update ks (AList.update key op (ops_at w ks)) w"

text \<open>The room for one more key: the write set with a map for the keyspace, or the error.\<close>

definition reserveLocked :: "txOptions \<Rightarrow> txWrites \<Rightarrow> keyspace \<Rightarrow> bytes \<Rightarrow> txWrites sresult" where
  "reserveLocked opt w ks key =
     (if map_of (ops_at w ks) key \<noteq> None then Inr w
      else if MaxWriteSet opt > 0 \<and> int (writeCount w) \<ge> MaxWriteSet opt
      then Inl (gerr_New ResourceExhausted ''transaction write set is full'')
      else Inr (if ops_at w ks = [] then AList.update ks [] w else w))"

section \<open>The manager\<close>

definition normalize :: "txOptions \<Rightarrow> txOptions" where
  "normalize opt =
     (let opt = (if MaxOpenTxns opt = 0 then opt\<lparr>MaxOpenTxns := defaultMaxOpen\<rparr> else opt) in
      if MaxWriteSet opt = 0 then opt\<lparr>MaxWriteSet := defaultMaxWrite\<rparr> else opt)"

definition startGC :: "'e manager \<Rightarrow> 'e manager" where
  "startGC m = (if GCInterval (mg_opt m) \<le> 0 then m else m\<lparr>mg_gc := True\<rparr>)"

definition mgr_Open :: "('e, 'c) engine_ops \<Rightarrow> 'e option \<Rightarrow> txOptions \<Rightarrow> 'e option \<times> 'e manager sresult" where
  "mgr_Open ops eng opt =
     (case eng of
        None \<Rightarrow> (None, Inl (gerr_New InvalidArgument ''engine is nil''))
      | Some e \<Rightarrow>
          (case sbind (migrate ops e) (\<lambda>e _.
                sbind (loadOracle ops e) (\<lambda>e o1.
                sbind (countLive ops e userKeyspaces) (\<lambda>e n.
                  (e, Inr (startGC
                    \<lparr>mg_eng = e, mg_opt = normalize opt, mg_hooks = no_hooks,
                     mg_nextTxnID = (if or_nextTxn o1 = 0 then 1 else or_nextTxn o1),
                     mg_commitTS = or_commitTS o1, mg_liveKeys = int n, mg_open = [], mg_txs = Map.empty,
                     mg_next = 0, mg_spaces = userKeyspaces, mg_commits = 0, mg_rollbacks = 0,
                     mg_reclaimed = 0, mg_closed = False, mg_gc = False\<rparr>))))) of
             (e, r) \<Rightarrow> (Some e, r)))"

definition mgr_Begin :: "'e manager \<Rightarrow> int \<Rightarrow> bool \<Rightarrow> 'e manager \<times> nat sresult" where
  "mgr_Begin m now readOnly =
     (if mg_closed m then (m, Inl ErrClosed)
      else if MaxOpenTxns (mg_opt m) > 0 \<and> int (length (mg_open m)) \<ge> MaxOpenTxns (mg_opt m)
      then (m, Inl (gerr_New ResourceExhausted ''too many open transactions''))
      else
        let t = mg_next m;
            x = \<lparr>tt_id = mg_nextTxnID m, tt_snapshot = mg_commitTS m, tt_commitTS = 0, tt_ro = readOnly,
                 tt_done = False, tt_writes = [], tt_marks = [], tt_last = now, tt_started = now\<rparr> in
        ((set_mtx m t x)\<lparr>mg_nextTxnID := mg_nextTxnID m + 1, mg_open := t # mg_open m, mg_next := t + 1\<rparr>, Inr t))"

definition mgr_Sync :: "('e, 'c) engine_ops \<Rightarrow> 'e manager \<Rightarrow> unit sresult" where
  "mgr_Sync ops m = (if mg_closed m then Inl ErrClosed else ops_Sync ops (mg_eng m))"

definition mgr_Stats :: "'e manager \<Rightarrow> engine_stats" where
  "mgr_Stats m = \<lparr>Stats_Keys = mg_liveKeys m, Stats_Commits = mg_commits m, Stats_Rollbacks = mg_rollbacks m\<rparr>"

definition oldestAgeLocked :: "'e manager \<Rightarrow> int \<Rightarrow> int" where
  "oldestAgeLocked m now =
     (let oldest = foldl (\<lambda>oldest t. if oldest = 0 \<or> tt_started (mtx_of m t) < oldest
                           then tt_started (mtx_of m t) else oldest) 0 (mg_open m) in
      if oldest = 0 then 0 else now - oldest)"

definition mgr_MVCCStats :: "'e manager \<Rightarrow> int \<Rightarrow> mvccStats" where
  "mgr_MVCCStats m now = \<lparr>VersionsReclaimed = mg_reclaimed m, OldestSnapshotAge = oldestAgeLocked m now,
     OpenTxns = length (mg_open m), Stats_CommitTS = mg_commitTS m, LiveKeys = mg_liveKeys m\<rparr>"

definition mgr_SetHooks :: "'e manager \<Rightarrow> hooks \<Rightarrow> 'e manager" where
  "mgr_SetHooks m h = m\<lparr>mg_hooks := h\<rparr>"

definition logAbort :: "('e, 'c) engine_ops \<Rightarrow> 'e manager \<Rightarrow> uint64 \<Rightarrow> 'e manager" where
  "logAbort ops m txnID = m\<lparr>mg_eng := ops_LogAbort ops (mg_eng m) txnID\<rparr>"

definition crash_tx :: "('e, 'c) engine_ops \<Rightarrow> 'e manager \<Rightarrow> nat \<Rightarrow> 'e manager" where
  "crash_tx ops m t =
     (let x = mtx_of m t;
          m = set_mtx m t (x\<lparr>tt_done := True, tt_writes := []\<rparr>) in
      if hasWrites (tt_writes x) then logAbort ops m (tt_id x) else m)"

definition mgr_Crash :: "('e, 'c) engine_ops \<Rightarrow> 'e manager \<Rightarrow> 'e manager \<times> unit sresult" where
  "mgr_Crash ops m =
     (if mg_closed m then (m, Inl ErrClosed)
      else
        (foldl (crash_tx ops)
           (m\<lparr>mg_open := [], mg_rollbacks := mg_rollbacks m + word_of_nat (length (mg_open m))\<rparr>) (mg_open m),
         Inr ()))"

definition mgr_Close :: "('e, 'c) engine_ops \<Rightarrow> 'e manager \<Rightarrow> 'e manager \<times> unit sresult" where
  "mgr_Close ops m =
     (if mg_closed m then (m, Inr ())
      else
        let m' = foldl (\<lambda>m t. set_mtx m t ((mtx_of m t)\<lparr>tt_done := True, tt_writes := []\<rparr>))
                   (m\<lparr>mg_closed := True, mg_open := [], mg_gc := False\<rparr>) (mg_open m) in
        on_eng m' (ops_Close ops (mg_eng m')))"

definition drop_tx :: "'e manager \<Rightarrow> nat \<Rightarrow> bool \<Rightarrow> 'e manager" where
  "drop_tx m t rollback =
     (let m = m\<lparr>mg_open := removeAll t (mg_open m)\<rparr> in
      if rollback then m\<lparr>mg_rollbacks := mg_rollbacks m + 1\<rparr> else m)"

definition noteSpace :: "'e manager \<Rightarrow> keyspace \<Rightarrow> 'e manager" where
  "noteSpace m ks =
     (if ks \<in> set [KSNode, KSEdge, KSOut, KSIn, KSLabel, KSEdgeType, KSProp, KSCatalog] then m
      else if ks \<in> set (mg_spaces m) then m
      else m\<lparr>mg_spaces := mg_spaces m @ [ks]\<rparr>)"

section \<open>Transactions\<close>

definition touch :: "'e manager \<Rightarrow> int \<Rightarrow> nat \<Rightarrow> 'e manager \<times> unit sresult" where
  "touch m now t =
     (let x = mtx_of m t in
      if tt_done x then (m, Inl ErrDone)
      else if IdleTimeout (mg_opt m) > 0 \<and> tt_last x \<noteq> 0 \<and> now - tt_last x > IdleTimeout (mg_opt m) then
        (drop_tx (set_mtx m t (x\<lparr>tt_done := True, tt_writes := []\<rparr>)) t True,
         Inl (gerr_New ResourceExhausted ''transaction idle timeout''))
      else (set_mtx m t (x\<lparr>tt_last := now\<rparr>), Inr ()))"

text \<open>The prologue of every access: the reserved keyspace, then the idle check.\<close>

definition enter :: "'e manager \<Rightarrow> int \<Rightarrow> nat \<Rightarrow> keyspace \<Rightarrow> 'e manager \<times> unit sresult" where
  "enter m now t ks = sbind (m, checkKS ks) (\<lambda>m _. touch m now t)"

definition readAt :: "('e, 'c) engine_ops \<Rightarrow> 'e manager \<Rightarrow> keyspace \<Rightarrow> bytes \<Rightarrow> uint64 \<Rightarrow> 'e manager \<times> bytes sresult" where
  "readAt ops m ks key snap = on_eng m (readVersion ops (mg_eng m) ks key snap)"

definition tx_Get :: "('e, 'c) engine_ops \<Rightarrow> 'e manager \<Rightarrow> int \<Rightarrow> nat \<Rightarrow> keyspace \<Rightarrow> bytes
    \<Rightarrow> 'e manager \<times> bytes sresult" where
  "tx_Get ops m now t ks key =
     sbind (enter m now t ks) (\<lambda>m _.
       let x = mtx_of m t in
       if tt_done x then (m, Inl ErrDone)
       else case map_of (ops_at (tt_writes x) ks) key of
         Some op \<Rightarrow> (m, if to_del op then Inl ErrNotFound else Inr (to_val op))
       | None \<Rightarrow> readAt ops m ks key (tt_snapshot x))"

definition tx_put :: "'e manager \<Rightarrow> int \<Rightarrow> nat \<Rightarrow> keyspace \<Rightarrow> bytes \<Rightarrow> bytes \<Rightarrow> bool \<Rightarrow> 'e manager \<times> unit sresult" where
  "tx_put m now t ks key v unique =
     sbind (enter m now t ks) (\<lambda>m _.
       let x = mtx_of m t in
       if tt_done x then (m, Inl ErrDone)
       else if tt_ro x then (m, Inl ErrReadOnly)
       else sbind (m, reserveLocked (mg_opt m) (tt_writes x) ks key) (\<lambda>m w.
         let op = (case map_of (ops_at w ks) key of
                     None \<Rightarrow> \<lparr>to_val = v, to_del = False, to_unique = unique, to_shadowed = False\<rparr>
                   | Some prev \<Rightarrow> \<lparr>to_val = v, to_del = False, to_unique = unique \<or> to_unique prev,
                       to_shadowed = to_shadowed prev \<or> to_del prev\<rparr>) in
         (noteSpace (set_mtx m t (x\<lparr>tt_writes := set_op w ks key op\<rparr>)) ks, Inr ())))"

definition tx_Put :: "'e manager \<Rightarrow> int \<Rightarrow> nat \<Rightarrow> keyspace \<Rightarrow> bytes \<Rightarrow> bytes \<Rightarrow> 'e manager \<times> unit sresult" where
  "tx_Put m now t ks key v = tx_put m now t ks key v False"

definition tx_InsertUnique :: "('e, 'c) engine_ops \<Rightarrow> 'e manager \<Rightarrow> int \<Rightarrow> nat \<Rightarrow> keyspace \<Rightarrow> bytes \<Rightarrow> bytes
    \<Rightarrow> 'e manager \<times> unit sresult" where
  "tx_InsertUnique ops m now t ks key v =
     sbind (enter m now t ks) (\<lambda>m _.
       let x = mtx_of m t in
       if tt_done x then (m, Inl ErrDone)
       else if tt_ro x then (m, Inl ErrReadOnly)
       else case map_of (ops_at (tt_writes x) ks) key of
         Some op \<Rightarrow>
           if \<not> to_del op then (m, Inl (gerr_New ConstraintViolation ''unique key already exists''))
           else tx_put m now t ks key v True
       | None \<Rightarrow>
           (case readAt ops m ks key (tt_snapshot x) of
              (m, Inr _) \<Rightarrow> (m, Inl (gerr_New ConstraintViolation ''unique key already exists''))
            | (m, Inl err) \<Rightarrow> if \<not> isNotFound err then (m, Inl err) else tx_put m now t ks key v True))"

definition tx_DeferUnique :: "'e manager \<Rightarrow> int \<Rightarrow> nat \<Rightarrow> keyspace \<Rightarrow> bytes \<Rightarrow> bytes \<Rightarrow> 'e manager \<times> unit sresult" where
  "tx_DeferUnique m now t ks key v = tx_put m now t ks key v True"

definition tx_Delete :: "'e manager \<Rightarrow> int \<Rightarrow> nat \<Rightarrow> keyspace \<Rightarrow> bytes \<Rightarrow> 'e manager \<times> unit sresult" where
  "tx_Delete m now t ks key =
     sbind (enter m now t ks) (\<lambda>m _.
       let x = mtx_of m t in
       if tt_done x then (m, Inl ErrDone)
       else if tt_ro x then (m, Inl ErrReadOnly)
       else sbind (m, reserveLocked (mg_opt m) (tt_writes x) ks key) (\<lambda>m w.
         (set_mtx m t (x\<lparr>tt_writes := set_op w ks key
            \<lparr>to_val = [], to_del = True, to_unique = False, to_shadowed = False\<rparr>\<rparr>), Inr ())))"

definition finish :: "'e manager \<Rightarrow> nat \<Rightarrow> bool \<Rightarrow> 'e manager" where
  "finish m t rollback =
     (let m = set_mtx m t ((mtx_of m t)\<lparr>tt_done := True, tt_writes := [], tt_marks := []\<rparr>);
          m = m\<lparr>mg_open := removeAll t (mg_open m)\<rparr> in
      if rollback then m\<lparr>mg_rollbacks := mg_rollbacks m + 1\<rparr> else m\<lparr>mg_commits := mg_commits m + 1\<rparr>)"

text \<open>
  The engine part of \<open>Commit\<close>: one engine transaction that validates, publishes at the next
  timestamp, records the oracle and commits. A failure after \<open>Begin\<close> rolls it back. \<open>crashed\<close> is
  the second re-read of \<open>done\<close>.
\<close>

definition commitStore :: "('e, 'c) engine_ops \<Rightarrow> 'e \<Rightarrow> uint64 \<Rightarrow> txWrites \<Rightarrow> uint64 \<Rightarrow> uint64 \<Rightarrow> bool
    \<Rightarrow> 'e \<times> int sresult" where
  "commitStore ops e snap writes cts nextTxn crashed =
     sbind (ops_Begin ops e False) (\<lambda>e s.
       case
         sbind (validate ops e s snap writes) (\<lambda>e _.
         sbind (publish ops e s cts writes) (\<lambda>e delta.
         sbind (ops_Put ops e s KSVersion metaKey (encodeOracle \<lparr>or_nextTxn = nextTxn, or_commitTS = cts\<rparr>)) (\<lambda>e _.
         if crashed then (e, Inl ErrDone)
         else sbind (ops_Commit ops e s) (\<lambda>e _. (e, Inr delta)))))
       of
         (e, Inr delta) \<Rightarrow> (e, Inr delta)
       | (e, Inl err) \<Rightarrow> (fst (ops_Rollback ops e s), Inl err))"

definition tx_Commit :: "('e, 'c) engine_ops \<Rightarrow> 'e manager \<Rightarrow> int \<Rightarrow> nat \<Rightarrow> 'e manager \<times> unit sresult" where
  "tx_Commit ops m now t =
     sbind (touch m now t) (\<lambda>m _.
       let x = mtx_of m t; writes = tt_writes x in
       if tt_done x then (m, Inl ErrDone)
       else if tt_ro x \<or> \<not> hasWrites writes then (finish m t False, Inr ())
       else if tt_done (mtx_of m t) then (m, Inl ErrDone)
       else case run_hook (BeforeCommit (mg_hooks m)) of
         Some err \<Rightarrow> (m, Inl err)
       | None \<Rightarrow>
           let cts = mg_commitTS m + 1 in
           sbind (on_eng m (commitStore ops (mg_eng m) (tt_snapshot x) writes cts (mg_nextTxnID m)
                    (tt_done (mtx_of m t)))) (\<lambda>m delta.
             let m = m\<lparr>mg_commitTS := cts, mg_liveKeys := mg_liveKeys m + delta, mg_commits := mg_commits m + 1,
                       mg_open := removeAll t (mg_open m)\<rparr>;
                 m = set_mtx m t ((mtx_of m t)\<lparr>tt_done := True, tt_writes := [], tt_marks := [], tt_commitTS := cts\<rparr>) in
             (m, case run_hook (AfterCommit (mg_hooks m)) of None \<Rightarrow> Inr () | Some err \<Rightarrow> Inl err)))"

definition tx_Rollback :: "('e, 'c) engine_ops \<Rightarrow> 'e manager \<Rightarrow> nat \<Rightarrow> 'e manager \<times> unit sresult" where
  "tx_Rollback ops m t =
     (let x = mtx_of m t in
      if tt_done x then (m, Inl ErrDone)
      else
        let had = (hasWrites (tt_writes x) \<and> \<not> tt_ro x);
            m = drop_tx (set_mtx m t (x\<lparr>tt_done := True, tt_writes := [], tt_marks := []\<rparr>)) t True in
        (if had then logAbort ops m (tt_id x) else m, Inr ()))"

definition tx_Mark :: "'e manager \<Rightarrow> int \<Rightarrow> nat \<Rightarrow> 'e manager \<times> nat sresult" where
  "tx_Mark m now t =
     sbind (touch m now t) (\<lambda>m _.
       let x = mtx_of m t in
       if tt_done x then (m, Inl ErrDone)
       else (set_mtx m t (x\<lparr>tt_marks := tt_marks x @ [tt_writes x]\<rparr>), Inr (length (tt_marks x) + 1)))"

definition tx_RollbackTo :: "'e manager \<Rightarrow> int \<Rightarrow> nat \<Rightarrow> int \<Rightarrow> 'e manager \<times> unit sresult" where
  "tx_RollbackTo m now t mark =
     sbind (touch m now t) (\<lambda>m _.
       let x = mtx_of m t in
       if tt_done x then (m, Inl ErrDone)
       else if mark < 1 \<or> mark > int (length (tt_marks x))
       then (m, Inl (gerr_New InvalidArgument ''savepoint is out of range''))
       else (set_mtx m t (x\<lparr>tt_writes := tt_marks x ! (nat mark - 1), tt_marks := take (nat mark - 1) (tt_marks x)\<rparr>),
             Inr ()))"

section \<open>Cursors\<close>

record txCursor =
  xc_tx :: nat
  xc_ks :: keyspace
  xc_keys :: "bytes list"
  xc_vals :: "bytes list"
  xc_idx :: int
  xc_closed :: bool
  xc_err :: "sterr option"

definition tx_Cursor :: "'e manager \<Rightarrow> int \<Rightarrow> nat \<Rightarrow> keyspace \<Rightarrow> 'e manager \<times> txCursor sresult" where
  "tx_Cursor m now t ks =
     sbind (enter m now t ks) (\<lambda>m _.
       if tt_done (mtx_of m t) then (m, Inl ErrDone)
       else (m, Inr \<lparr>xc_tx = t, xc_ks = ks, xc_keys = [], xc_vals = [], xc_idx = -1, xc_closed = False, xc_err = None\<rparr>))"

text \<open>The loop of \<open>materialize\<close> over the heads, and the overlay keys that no head has.\<close>

fun mat_base :: "('e, 'c) engine_ops \<Rightarrow> 'e \<Rightarrow> nat \<Rightarrow> keyspace \<Rightarrow> uint64 \<Rightarrow> (bytes, txWriteOp) gomap
    \<Rightarrow> (bytes \<times> head) list \<Rightarrow> (bytes \<times> bytes) list \<Rightarrow> 'e \<times> (bytes \<times> bytes) list sresult" where
  "mat_base ops e s ks snap overlay [] base = (e, Inr base)"
| "mat_base ops e s ks snap overlay ((k, h) # heads) base =
     sbind (resolve ops e s ks k (Some h) snap) (\<lambda>e payload.
       mat_base ops e s ks snap overlay heads
         (case map_of overlay k of
            Some op \<Rightarrow> if to_del op then base else base @ [(k, to_val op)]
          | None \<Rightarrow> (case payload of None \<Rightarrow> base | Some p \<Rightarrow> base @ [(k, p)])))"

definition mat_extra :: "(bytes, txWriteOp) gomap \<Rightarrow> bytes list \<Rightarrow> (bytes \<times> bytes) list" where
  "mat_extra overlay seen =
     sort_key fst (map (\<lambda>(s, op). (s, to_val op)) (filter (\<lambda>(s, op). \<not> to_del op \<and> s \<notin> set seen) overlay))"

definition matStore :: "('e, 'c) engine_ops \<Rightarrow> 'e \<Rightarrow> keyspace \<Rightarrow> uint64 \<Rightarrow> (bytes, txWriteOp) gomap
    \<Rightarrow> 'e \<times> (bytes \<times> bytes) list sresult" where
  "matStore ops e ks snap overlay =
     sbind (ops_Begin ops e True) (\<lambda>e s.
       case
         sbind (eachHead ops e s ks (\<lambda>key h acc. Inr (acc @ [(key, h)])) []) (\<lambda>e heads.
         sbind (mat_base ops e s ks snap overlay heads []) (\<lambda>e base.
           (e, Inr (mergeKV base (mat_extra overlay (map fst heads))))))
       of (e, r) \<Rightarrow> (fst (ops_Rollback ops e s), r))"

definition tx_materialize :: "('e, 'c) engine_ops \<Rightarrow> 'e manager \<Rightarrow> nat \<Rightarrow> keyspace
    \<Rightarrow> 'e manager \<times> (bytes \<times> bytes) list sresult" where
  "tx_materialize ops m t ks =
     (let x = mtx_of m t in
      if tt_done x then (m, Inl ErrDone)
      else on_eng m (matStore ops (mg_eng m) ks (tt_snapshot x) (ops_at (tt_writes x) ks)))"

definition xc_usable :: "'e manager \<Rightarrow> txCursor \<Rightarrow> bool" where
  "xc_usable m c = (if xc_closed c \<or> xc_err c \<noteq> None then False else \<not> tt_done (mtx_of m (xc_tx c)))"

definition xc_positioned :: "'e manager \<Rightarrow> txCursor \<Rightarrow> bool" where
  "xc_positioned m c \<longleftrightarrow> xc_usable m c \<and> xc_idx c \<ge> 0 \<and> xc_idx c < int (length (xc_keys c))"

definition xc_Seek :: "('e, 'c) engine_ops \<Rightarrow> 'e manager \<Rightarrow> txCursor \<Rightarrow> bytes option
    \<Rightarrow> 'e manager \<times> txCursor \<times> bool" where
  "xc_Seek ops m c target =
     (if \<not> xc_usable m c then (m, c\<lparr>xc_idx := -1\<rparr>, False)
      else case tx_materialize ops m (xc_tx c) (xc_ks c) of
        (m, Inl err) \<Rightarrow> (m, c\<lparr>xc_err := Some err, xc_idx := -1\<rparr>, False)
      | (m, Inr kvs) \<Rightarrow>
          let c = c\<lparr>xc_keys := map fst kvs, xc_vals := map snd kvs\<rparr>;
              i = (case target of
                     None \<Rightarrow> 0
                   | Some tg \<Rightarrow> sortSearch (length (xc_keys c)) (\<lambda>n. bytesCompare (xc_keys c ! n) tg \<ge> 0)) in
          if i \<ge> length (xc_keys c) then (m, c\<lparr>xc_idx := -1\<rparr>, False)
          else (m, c\<lparr>xc_idx := int i\<rparr>, True))"

definition xc_SeekReverse :: "('e, 'c) engine_ops \<Rightarrow> 'e manager \<Rightarrow> txCursor \<Rightarrow> bytes option
    \<Rightarrow> 'e manager \<times> txCursor \<times> bool" where
  "xc_SeekReverse ops m c target =
     (if \<not> xc_usable m c then (m, c\<lparr>xc_idx := -1\<rparr>, False)
      else case tx_materialize ops m (xc_tx c) (xc_ks c) of
        (m, Inl err) \<Rightarrow> (m, c\<lparr>xc_err := Some err, xc_idx := -1\<rparr>, False)
      | (m, Inr kvs) \<Rightarrow>
          let c = c\<lparr>xc_keys := map fst kvs, xc_vals := map snd kvs\<rparr> in
          if length (xc_keys c) = 0 then (m, c\<lparr>xc_idx := -1\<rparr>, False)
          else case target of
            None \<Rightarrow> (m, c\<lparr>xc_idx := int (length (xc_keys c)) - 1\<rparr>, True)
          | Some tg \<Rightarrow>
              let i = sortSearch (length (xc_keys c)) (\<lambda>n. bytesCompare (xc_keys c ! n) tg > 0) in
              if i = 0 then (m, c\<lparr>xc_idx := -1\<rparr>, False) else (m, c\<lparr>xc_idx := int i - 1\<rparr>, True))"

definition xc_Next :: "'e manager \<Rightarrow> txCursor \<Rightarrow> txCursor \<times> bool" where
  "xc_Next m c =
     (if \<not> xc_usable m c \<or> xc_idx c < 0 then (c\<lparr>xc_idx := -1\<rparr>, False)
      else
        let c = c\<lparr>xc_idx := xc_idx c + 1\<rparr> in
        if xc_idx c \<ge> int (length (xc_keys c)) then (c\<lparr>xc_idx := -1\<rparr>, False) else (c, True))"

definition xc_Prev :: "'e manager \<Rightarrow> txCursor \<Rightarrow> txCursor \<times> bool" where
  "xc_Prev m c =
     (if \<not> xc_usable m c \<or> xc_idx c < 0 then (c\<lparr>xc_idx := -1\<rparr>, False)
      else
        let c = c\<lparr>xc_idx := xc_idx c - 1\<rparr> in
        if xc_idx c < 0 then (c\<lparr>xc_idx := -1\<rparr>, False) else (c, True))"

definition xc_Key :: "'e manager \<Rightarrow> txCursor \<Rightarrow> bytes" where
  "xc_Key m c = (if \<not> xc_positioned m c then [] else xc_keys c ! nat (xc_idx c))"

definition xc_Value :: "'e manager \<Rightarrow> txCursor \<Rightarrow> bytes" where
  "xc_Value m c = (if \<not> xc_positioned m c then [] else xc_vals c ! nat (xc_idx c))"

definition xc_Close :: "txCursor \<Rightarrow> txCursor \<times> sterr option" where
  "xc_Close c = (c\<lparr>xc_closed := True, xc_idx := -1, xc_err := None\<rparr>, xc_err c)"

section \<open>Vacuum\<close>

text \<open>
  A context is the sequence of answers its \<open>Err\<close> gives; a nil context is the background one, which
  never fails. The scans collect the heads and chain records that no snapshot from \<open>oldest\<close> on reads.
\<close>

type_synonym ctx = "(nat \<Rightarrow> sterr option) option"

definition ctx_Err :: "ctx \<Rightarrow> nat \<Rightarrow> sterr option" where
  "ctx_Err ctx n = (case ctx of None \<Rightarrow> None | Some f \<Rightarrow> f n)"

fun vac_heads :: "('e, 'c) engine_ops \<Rightarrow> 'e \<Rightarrow> nat \<Rightarrow> ctx \<Rightarrow> nat \<Rightarrow> uint64 \<Rightarrow> keyspace list
    \<Rightarrow> (keyspace \<times> bytes) list \<Rightarrow> 'e \<times> (keyspace \<times> bytes) list sresult" where
  "vac_heads ops e s ctx n oldest [] heads = (e, Inr heads)"
| "vac_heads ops e s ctx n oldest (ks # spaces) heads =
     (case ctx_Err ctx n of
        Some err \<Rightarrow> (e, Inl err)
      | None \<Rightarrow>
          sbind (eachHead ops e s ks (\<lambda>key h heads.
              Inr (if hd_delete h \<noteq> 0 \<and> hd_delete h \<le> oldest then heads @ [(ks, key)] else heads)) heads)
            (\<lambda>e heads. vac_heads ops e s ctx (n + 1) oldest spaces heads))"

definition vac_chains :: "('e, 'c) engine_ops \<Rightarrow> 'e \<Rightarrow> nat \<Rightarrow> uint64 \<Rightarrow> 'e \<times> bytes list sresult" where
  "vac_chains ops e s oldest =
     eachChain ops e s (\<lambda>key h chains.
       Inr (if hd_delete h \<noteq> 0 \<and> hd_delete h \<le> oldest then chains @ [key] else chains)) []"

fun vac_delete :: "('e, 'c) engine_ops \<Rightarrow> 'e \<Rightarrow> nat \<Rightarrow> (keyspace \<times> bytes) list \<Rightarrow> 'e \<times> unit sresult" where
  "vac_delete ops e s [] = (e, Inr ())"
| "vac_delete ops e s ((ks, k) # rest) = sbind (ops_Delete ops e s ks k) (\<lambda>e _. vac_delete ops e s rest)"

definition vacScan :: "('e, 'c) engine_ops \<Rightarrow> 'e \<Rightarrow> ctx \<Rightarrow> uint64 \<Rightarrow> keyspace list
    \<Rightarrow> 'e \<times> ((keyspace \<times> bytes) list \<times> bytes list) sresult" where
  "vacScan ops e ctx oldest spaces =
     sbind (ops_Begin ops e True) (\<lambda>e s.
       case
         sbind (vac_heads ops e s ctx 1 oldest spaces []) (\<lambda>e heads.
         sbind (vac_chains ops e s oldest) (\<lambda>e chains. (e, Inr (heads, chains))))
       of
         (e, Inl err) \<Rightarrow> (fst (ops_Rollback ops e s), Inl err)
       | (e, Inr r) \<Rightarrow> sbind (ops_Rollback ops e s) (\<lambda>e _. (e, Inr r)))"

definition vacStore :: "('e, 'c) engine_ops \<Rightarrow> 'e \<Rightarrow> ctx \<Rightarrow> uint64 \<Rightarrow> keyspace list \<Rightarrow> 'e \<times> nat sresult" where
  "vacStore ops e ctx oldest spaces =
     sbind (vacScan ops e ctx oldest spaces) (\<lambda>e (heads, chains).
       if length heads = 0 \<and> length chains = 0 then (e, Inr 0)
       else
         sbind (ops_Begin ops e False) (\<lambda>e s.
           case
             sbind (vac_delete ops e s heads) (\<lambda>e _.
             sbind (vac_delete ops e s (map (\<lambda>k. (KSVersion, k)) chains)) (\<lambda>e _. ops_Commit ops e s))
           of
             (e, Inl err) \<Rightarrow> (fst (ops_Rollback ops e s), Inl err)
           | (e, Inr _) \<Rightarrow> (e, Inr (length heads + length chains))))"

definition oldestSnapshot :: "'e manager \<Rightarrow> uint64" where
  "oldestSnapshot m =
     foldl (\<lambda>oldest t. if tt_snapshot (mtx_of m t) < oldest then tt_snapshot (mtx_of m t) else oldest)
       (mg_commitTS m) (mg_open m)"

definition mgr_Vacuum :: "('e, 'c) engine_ops \<Rightarrow> 'e manager \<Rightarrow> ctx \<Rightarrow> 'e manager \<times> uint64 sresult" where
  "mgr_Vacuum ops m ctx =
     (case ctx_Err ctx 0 of
        Some err \<Rightarrow> (m, Inl err)
      | None \<Rightarrow>
          if mg_closed m then (m, Inl ErrClosed)
          else
            sbind (on_eng m (vacStore ops (mg_eng m) ctx (oldestSnapshot m) (mg_spaces m))) (\<lambda>m n.
              if n = 0 then (m, Inr 0)
              else (m\<lparr>mg_reclaimed := mg_reclaimed m + word_of_nat n\<rparr>, Inr (word_of_nat n))))"

definition gcTick :: "('e, 'c) engine_ops \<Rightarrow> 'e manager \<Rightarrow> 'e manager" where
  "gcTick ops m = (if mg_gc m then fst (mgr_Vacuum ops m None) else m)"

definition HistoricVersions :: "('e, 'c) engine_ops \<Rightarrow> 'e manager \<Rightarrow> 'e manager \<times> nat sresult" where
  "HistoricVersions ops m =
     on_eng m (sbind (ops_Begin ops (mg_eng m) True) (\<lambda>e s.
       case eachChain ops e s (\<lambda>k h n. Inr (n + 1)) 0 of (e, r) \<Rightarrow> (fst (ops_Rollback ops e s), r)))"

end
