(* ===== verification/TxnSnapshot.thy ===== *)
theory TxnSnapshot
  imports Txn
begin

text \<open>
  What the transaction manager's storage helpers compute, for every engine that keeps the contract
  \<open>kv_engine\<close>. \<open>snap_read V ks k s\<close> is the value of a key at a snapshot, read off the contents \<open>V\<close>
  of the store; \<open>mvcc_inv V T\<close> is the shape of a store whose last commit is \<open>T\<close>. The lemmas show
  that \<open>readVersion\<close> and \<open>matStore\<close> compute \<open>snap_read\<close>, that \<open>commitStore\<close> changes it only from the
  new timestamp on, and that \<open>vacStore\<close> keeps it for every snapshot that can still be open.
\<close>

section \<open>Keys with a common prefix\<close>

abbreviation has_prefix :: "bytes \<Rightarrow> bytes \<Rightarrow> bool" where
  "has_prefix p x \<equiv> take (length p) x = p"

lemma between_prefix:
  fixes p :: bytes
  shows "p \<le> y \<Longrightarrow> y \<le> p @ r \<Longrightarrow> has_prefix p y"
proof (induction p arbitrary: y)
  case (Cons a p)
  then show ?case by (cases y) auto
qed simp

lemma has_prefix_ge: "has_prefix p x \<Longrightarrow> p \<le> x"
  by (metis append_take_drop_id prefix_le)

lemma prefix_block: "p \<le> y \<Longrightarrow> \<not> has_prefix p y \<Longrightarrow> y \<le> z \<Longrightarrow> \<not> has_prefix p z"
  by (metis append_take_drop_id between_prefix)

lemma takeWhile_prefix_block:
  assumes "sorted_wrt (<) (map fst xs)" and "\<forall>x\<in>set xs. p \<le> fst x"
  shows "takeWhile (\<lambda>x. has_prefix p (fst x)) xs = filter (\<lambda>x. has_prefix p (fst x)) xs"
  using assms
proof (induction xs)
  case (Cons x xs)
  show ?case
  proof (cases "has_prefix p (fst x)")
    case False
    then have "\<not> has_prefix p (fst y)" if "y \<in> set xs" for y
    proof -
      have "fst x \<le> fst y" "p \<le> fst x" using that Cons.prems by (auto intro: less_imp_le)
      with False show ?thesis by (metis prefix_block)
    qed
    with False show ?thesis by simp
  qed (use Cons in auto)
qed simp

lemma seek_prefix_block:
  assumes "sorted_wrt (<) (map fst xs)"
  shows "takeWhile (\<lambda>x. has_prefix p (fst x)) (filter (\<lambda>x. p \<le> fst x) xs) = filter (\<lambda>x. has_prefix p (fst x)) xs"
proof -
  have "sorted_wrt (<) (map fst (filter (\<lambda>x. p \<le> fst x) xs))"
    using assms by (simp add: sorted_wrt_map sorted_wrt_filter)
  then have "takeWhile (\<lambda>x. has_prefix p (fst x)) (filter (\<lambda>x. p \<le> fst x) xs)
      = filter (\<lambda>x. has_prefix p (fst x)) (filter (\<lambda>x. p \<le> fst x) xs)"
    by (rule takeWhile_prefix_block) simp
  also have "\<dots> = filter (\<lambda>x. has_prefix p (fst x)) xs"
    by (simp, rule filter_cong) (auto intro: has_prefix_ge)
  finally show ?thesis .
qed

lemma entries_mem: "entries m xs \<Longrightarrow> x \<in> set xs \<longleftrightarrow> m (fst x) = Some (snd x)"
proof -
  assume e: "entries m xs"
  then have "distinct (map fst xs)" by (auto simp: entries_def strict_sorted_iff)
  then have "x \<in> set xs \<longleftrightarrow> map_of xs (fst x) = Some (snd x)" by (cases x) simp
  with e show ?thesis by (simp add: entries_def)
qed

section \<open>The history a store holds\<close>

definition head_at :: "kvview \<Rightarrow> keyspace \<Rightarrow> bytes \<Rightarrow> head option" where
  "head_at V ks k = map_option decodeHead (V ks k)"

definition chain_at :: "kvview \<Rightarrow> keyspace \<Rightarrow> bytes \<Rightarrow> uint64 \<Rightarrow> (uint64 \<times> bytes) option" where
  "chain_at V ks k c = map_option (\<lambda>raw. (be_u64 (take 8 raw), drop 8 raw)) (V KSVersion (chainKey ks k c))"

definition chain_visible :: "kvview \<Rightarrow> keyspace \<Rightarrow> bytes \<Rightarrow> uint64 \<Rightarrow> uint64 set" where
  "chain_visible V ks k s = {c. case chain_at V ks k c of None \<Rightarrow> False | Some (d, p) \<Rightarrow> Visible c d s}"

definition snap_read :: "kvview \<Rightarrow> keyspace \<Rightarrow> bytes \<Rightarrow> uint64 \<Rightarrow> bytes option" where
  "snap_read V ks k s = (case head_at V ks k of
     None \<Rightarrow> None
   | Some h \<Rightarrow>
       if Visible (hd_create h) (hd_delete h) s then Some (hd_payload h)
       else if hd_create h \<le> s then None
       else if chain_visible V ks k s = {} then None
       else map_option snd (chain_at V ks k (Max (chain_visible V ks k s))))"

abbreviation small :: "bytes \<Rightarrow> bool" where
  "small k \<equiv> length k < 2 ^ 32"

definition key_inv :: "kvview \<Rightarrow> uint64 \<Rightarrow> keyspace \<Rightarrow> bytes \<Rightarrow> bool" where
  "key_inv V T ks k \<longleftrightarrow> (case head_at V ks k of
     None \<Rightarrow> \<forall>c. chain_at V ks k c = None
   | Some h \<Rightarrow> small k \<and> hd_create h \<le> T \<and> (hd_delete h \<noteq> 0 \<longrightarrow> hd_create h < hd_delete h \<and> hd_delete h \<le> T)
       \<and> (\<forall>c d p. chain_at V ks k c = Some (d, p) \<longrightarrow> c < d \<and> d \<le> hd_create h))"

definition chain_keys_ok :: "kvview \<Rightarrow> bool" where
  "chain_keys_ok V \<longleftrightarrow> (\<forall>key raw. V KSVersion key = Some raw \<longrightarrow> key = metaKey
     \<or> (\<exists>ks k c. key = chainKey ks k c \<and> ks \<noteq> KSVersion \<and> small k \<and> 8 \<le> length raw))"

definition mvcc_inv :: "kvview \<Rightarrow> uint64 \<Rightarrow> bool" where
  "mvcc_inv V T \<longleftrightarrow> chain_keys_ok V \<and> (\<forall>ks k. ks \<noteq> KSVersion \<longrightarrow> key_inv V T ks k)"

lemma Visible_iff: "Visible c d s \<longleftrightarrow> c \<le> s \<and> (d = 0 \<or> s < d)"
  by (auto simp: Visible_def)

lemma head_at_upd: "head_at (upd_view V ks k v) ks' k' = (if ks' = ks \<and> k' = k then map_option decodeHead v else head_at V ks' k')"
  by (simp add: head_at_def upd_view_apply)

lemma chain_at_upd_head: "ks \<noteq> KSVersion \<Longrightarrow> chain_at (upd_view V ks k v) = chain_at V"
  by (intro ext) (simp add: chain_at_def upd_view_apply)

lemma chain_at_upd_chain:
  "chain_at (upd_view V KSVersion (chainKey ks k c) (Some (encodeChain d p))) ks' k' c'
    = (if ks' = ks \<and> k' = k \<and> c' = c then Some (d, p) else chain_at V ks' k' c')"
  by (auto simp: chain_at_def upd_view_apply chainKey_inj encodeChain_def be_u64_put)

lemma chain_at_upd_meta [simp]: "chain_at (upd_view V KSVersion metaKey v) = chain_at V"
  by (intro ext) (simp add: chain_at_def upd_view_apply)

section \<open>The best version of a chain\<close>

lemma bestVersion_cases:
  assumes "bestVersion b xs s = r"
  shows "r = None \<and> b = None \<and> (\<forall>x\<in>set xs. \<not> Visible (hd_create x) (hd_delete x) s)
    \<or> (\<exists>h. r = Some h \<and> (b = Some h \<or> h \<in> set xs \<and> Visible (hd_create h) (hd_delete h) s)
        \<and> (\<forall>x\<in>set xs. Visible (hd_create x) (hd_delete x) s \<longrightarrow> hd_create x \<le> hd_create h)
        \<and> (\<forall>h'. b = Some h' \<longrightarrow> hd_create h' \<le> hd_create h))"
  using assms
proof (induction b xs s rule: bestVersion.induct)
  case (2 best v chain snap)
  show ?case
  proof (cases "Visible (hd_create v) (hd_delete v) snap")
    case False
    then show ?thesis using 2 by auto
  next
    case True
    show ?thesis
    proof (cases "case best of None \<Rightarrow> True | Some b \<Rightarrow> hd_create b < hd_create v")
      case better: True
      then have "r = bestVersion (Some v) chain snap" using 2(4) True by simp
      from "2.IH"(2) [OF _ _ this [symmetric]] True better show ?thesis
        by (auto split: option.splits)
    next
      case worse: False
      then have "r = bestVersion best chain snap" using 2(4) True by simp
      from "2.IH"(3) [OF _ _ this [symmetric]] True worse show ?thesis
        by (auto split: option.splits)
    qed
  qed
qed auto

definition chain_head :: "bytes \<Rightarrow> bytes \<times> bytes \<Rightarrow> head" where
  "chain_head prefix x = \<lparr>hd_create = u64 (drop (length prefix) (fst x)), hd_delete = be_u64 (take 8 (snd x)),
     hd_payload = drop 8 (snd x), hd_legacy = False\<rparr>"

definition chain_list :: "keyspace \<Rightarrow> bytes \<Rightarrow> (bytes \<times> bytes) list \<Rightarrow> head list" where
  "chain_list ks k xs = map (chain_head (chainPrefix ks k)) (filter (\<lambda>x. has_prefix (chainPrefix ks k) (fst x)) xs)"

lemma chainPrefix_of_chainKey: "has_prefix (chainPrefix ks k) (chainKey ks k c)"
  by (simp add: chainKey_def del: length_chainPrefix)

lemma meta_not_prefixed: "\<not> has_prefix (chainPrefix ks k) metaKey"
proof
  assume "has_prefix (chainPrefix ks k) metaKey"
  then have "length (chainPrefix ks k) \<le> length metaKey" by (metis length_take min.cobounded1)
  then show False by (simp add: metaKey_def)
qed

lemma chain_entry:
  assumes "chain_keys_ok V" and "V KSVersion key = Some raw" and "small k" and "has_prefix (chainPrefix ks k) key"
  shows "8 \<le> length raw \<and> (\<exists>c. key = chainKey ks k c)"
proof -
  have "key \<noteq> metaKey" using assms(4) meta_not_prefixed by metis
  with assms(1,2) obtain ks' k' c where *: "key = chainKey ks' k' c" "small k'" "8 \<le> length raw"
    unfolding chain_keys_ok_def by metis
  with chainPrefix_take [of k' k ks ks' c] assms(3,4) show ?thesis by auto
qed

lemma set_chain_list:
  assumes "chain_keys_ok V" and "small k" and "entries (V KSVersion) xs"
  shows "set (chain_list ks k xs)
    = {\<lparr>hd_create = c, hd_delete = d, hd_payload = p, hd_legacy = False\<rparr> | c d p. chain_at V ks k c = Some (d, p)}"
    (is "?L = ?R")
proof -
  let ?p = "chainPrefix ks k"
  have mem: "(key, raw) \<in> set xs \<longleftrightarrow> V KSVersion key = Some raw" for key raw
    using entries_mem [OF assms(3), of "(key, raw)"] by simp
  have conv: "chain_head ?p (chainKey ks k c, raw)
      = \<lparr>hd_create = c, hd_delete = be_u64 (take 8 raw), hd_payload = drop 8 raw, hd_legacy = False\<rparr>" for c raw
    by (simp add: chain_head_def codec_simps del: length_chainPrefix)
  have "?L = {chain_head ?p (key, raw) | key raw. V KSVersion key = Some raw \<and> has_prefix ?p key}"
    by (auto simp: chain_list_def mem simp del: length_chainPrefix) force
  also have "\<dots> = {chain_head ?p (chainKey ks k c, raw) | c raw. V KSVersion (chainKey ks k c) = Some raw}"
    using chain_entry [OF assms(1) _ assms(2)] chainPrefix_of_chainKey by fastforce
  also have "\<dots> = ?R" unfolding conv by (auto simp: chain_at_def)
  finally show ?thesis .
qed

lemma best_chain_read:
  assumes "chain_keys_ok V" and "small k" and "entries (V KSVersion) xs"
  shows "map_option hd_payload (bestVersion None (chain_list ks k xs) s)
    = (if chain_visible V ks k s = {} then None
       else map_option snd (chain_at V ks k (Max (chain_visible V ks k s))))"
proof -
  let ?L = "chain_list ks k xs" and ?C = "chain_visible V ks k s"
  note mem = set_chain_list [OF assms, of ks]
  have fin: "finite ?C" by simp
  have vis: "c \<in> ?C \<longleftrightarrow> (\<exists>d p. chain_at V ks k c = Some (d, p) \<and> Visible c d s)" for c
    by (auto simp: chain_visible_def split: option.splits)
  show ?thesis
  proof (cases "bestVersion None ?L s")
    case None
    with bestVersion_cases [of None ?L s None] have "\<forall>x\<in>set ?L. \<not> Visible (hd_create x) (hd_delete x) s" by simp
    then have "?C = {}" unfolding mem by (fastforce simp: vis)
    with None show ?thesis by simp
  next
    case (Some h)
    with bestVersion_cases [of None ?L s "Some h"] have h: "h \<in> set ?L" "Visible (hd_create h) (hd_delete h) s"
      and max: "\<And>x. x \<in> set ?L \<Longrightarrow> Visible (hd_create x) (hd_delete x) s \<Longrightarrow> hd_create x \<le> hd_create h" by auto
    from h obtain c d p where eq: "h = \<lparr>hd_create = c, hd_delete = d, hd_payload = p, hd_legacy = False\<rparr>"
      "chain_at V ks k c = Some (d, p)" unfolding mem by auto
    with h have "c \<in> ?C" by (auto simp: vis)
    moreover have "c' \<le> c" if "c' \<in> ?C" for c'
    proof -
      from that obtain d' p' where "chain_at V ks k c' = Some (d', p')" "Visible c' d' s" by (auto simp: vis)
      with max [of "\<lparr>hd_create = c', hd_delete = d', hd_payload = p', hd_legacy = False\<rparr>"] eq show ?thesis
        unfolding mem by auto
    qed
    ultimately have "Max ?C = c" "?C \<noteq> {}" using fin by (auto intro: Max_eqI)
    with Some eq show ?thesis by simp
  qed
qed

section \<open>Loops over a cursor\<close>

fun fold_res :: "(bytes \<Rightarrow> bytes \<Rightarrow> 'a \<Rightarrow> 'a sresult) \<Rightarrow> (bytes \<times> bytes) list \<Rightarrow> 'a \<Rightarrow> 'a sresult" where
  "fold_res fn [] acc = Inr acc"
| "fold_res fn (x # xs) acc = bind_res (fn (fst x) (snd x) acc) (fold_res fn xs)"

lemma fold_res_total:
  "(\<And>k v acc. fn k v acc = Inr (g k v acc)) \<Longrightarrow> fold_res fn xs acc = Inr (foldl (\<lambda>acc x. g (fst x) (snd x) acc) acc xs)"
  by (induction xs arbitrary: acc) auto

context kv_engine
begin

lemma close_engine: "inv e \<Longrightarrow> live e (curtx c) \<Longrightarrow> fst (ops_CursorClose ops e c) = e"
  using close_ok by fastforce

lemma eachRaw_loop_fold:
  "\<lbrakk>inv e; live e (curtx c); length (rest e c) < n\<rbrakk>
    \<Longrightarrow> eachRaw_loop ops n fn e c (rest e c \<noteq> []) acc = (e, fold_res fn (rest e c) acc)"
proof (induction n arbitrary: c acc)
  case (Suc n)
  show ?case
  proof (cases "rest e c")
    case Nil
    with Suc.prems close_ok [of e c] show ?thesis by auto
  next
    case (Cons x xs)
    with Suc.prems next_ok [of e c x xs] obtain c' where n: "ops_Next ops e c = (e, c', xs \<noteq> [])"
      "curtx c' = curtx c" "rest e c' = xs" by blast
    have k: "ops_Key ops e c = fst x" "ops_Value ops e c = snd x" using key_ok Suc.prems Cons by blast+
    have IH: "eachRaw_loop ops n fn e c' (xs \<noteq> []) a = (e, fold_res fn xs a)" for a
      using Suc.IH [of c' a] Suc.prems n Cons by auto
    show ?thesis by (cases "fn (fst x) (snd x) acc") (simp_all add: Cons k n IH close_engine Suc.prems)
  qed
qed simp

lemma eachRaw_fold:
  assumes "inv e" and "live e h"
  obtains xs where "entries (view e h ks) xs" and "eachRaw ops e h ks fn acc = (e, fold_res fn xs acc)"
proof -
  obtain c where c: "ops_Cursor ops e h ks = (e, Inr c)" "curtx c = h" "curks c = ks" "curopen c"
    using cursor_ok [OF assms] by blast
  with seek_ok [of e c None] assms obtain c' xs where s: "entries (view e h ks) xs"
    "ops_Seek ops e c None = (e, c', rest e c' \<noteq> [])" "curtx c' = h" "rest e c' = xs" "length xs \<le> ops_bound ops e h"
    by auto
  with eachRaw_loop_fold [of e c' "ops_bound ops e h + 1" fn acc] assms
  have "eachRaw ops e h ks fn acc = (e, fold_res fn xs acc)" by (simp add: eachRaw_def c)
  with s(1) that show thesis by blast
qed

lemma loadChain_loop_list:
  "\<lbrakk>inv e; live e (curtx c); length (rest e c) < n; \<forall>x\<in>set (takeWhile P (rest e c)). 8 \<le> length (snd x);
    P = (\<lambda>x. has_prefix prefix (fst x) \<and> length (fst x) = length prefix + 8)\<rbrakk>
    \<Longrightarrow> loadChain_loop ops n prefix e c (rest e c \<noteq> []) out = (e, Inr (out @ map (chain_head prefix) (takeWhile P (rest e c))))"
proof (induction n arbitrary: c out)
  case (Suc n)
  show ?case
  proof (cases "rest e c")
    case Nil
    with Suc.prems close_ok [of e c] show ?thesis by (auto simp: Let_def)
  next
    case (Cons x xs)
    with Suc.prems next_ok [of e c x xs] obtain c' where n: "ops_Next ops e c = (e, c', xs \<noteq> [])"
      "curtx c' = curtx c" "rest e c' = xs" by blast
    have k: "ops_Key ops e c = fst x" "ops_Value ops e c = snd x" using key_ok Suc.prems Cons by blast+
    show ?thesis
    proof (cases "P x")
      case True
      then have "8 \<le> length (snd x)" and all: "\<forall>x\<in>set (takeWhile P xs). 8 \<le> length (snd x)"
        using Suc.prems(4) Cons by auto
      then have d: "decodeChain (snd x) = Inr \<lparr>hd_create = 0, hd_delete = be_u64 (take 8 (snd x)),
          hd_payload = drop 8 (snd x), hd_legacy = False\<rparr>" by (simp add: decodeChain_def)
      have IH: "loadChain_loop ops n prefix e c' (xs \<noteq> []) o1 = (e, Inr (o1 @ map (chain_head prefix) (takeWhile P xs)))" for o1
        using Suc.IH [of c' o1] Suc.prems n Cons all by auto
      show ?thesis using True by (simp add: Cons k n Suc.prems(5) Let_def d IH chain_head_def)
    next
      case False
      with close_ok [of e c] Suc.prems show ?thesis by (auto simp: Cons k Let_def)
    qed
  qed
qed simp

lemma loadChain_list:
  assumes "inv e" and "live e h" and "chain_keys_ok (view e h)" and "small k"
  obtains xs where "entries (view e h KSVersion) xs" and "loadChain ops e h ks k = (e, Inr (chain_list ks k xs))"
proof -
  let ?p = "chainPrefix ks k" and ?V = "view e h"
  let ?P = "\<lambda>x. has_prefix ?p (fst x) \<and> length (fst x) = length ?p + 8"
  obtain c where c: "ops_Cursor ops e h KSVersion = (e, Inr c)" "curtx c = h" "curks c = KSVersion" "curopen c"
    using cursor_ok [OF assms(1,2)] by blast
  with seek_ok [of e c "Some ?p"] assms obtain c' xs where s: "entries (?V KSVersion) xs"
    "ops_Seek ops e c (Some ?p) = (e, c', rest e c' \<noteq> [])" "curtx c' = h"
    "rest e c' = filter (\<lambda>x. ?p \<le> fst x) xs" "length xs \<le> ops_bound ops e h"
    by auto
  have entry: "8 \<le> length (snd x) \<and> length (fst x) = length ?p + 8" if "x \<in> set xs" "has_prefix ?p (fst x)" for x
  proof -
    have "?V KSVersion (fst x) = Some (snd x)" using entries_mem [OF s(1)] that(1) by blast
    from chain_entry [OF assms(3) this assms(4) that(2)] show ?thesis by auto
  qed
  have tw: "takeWhile ?P (rest e c') = filter (\<lambda>x. has_prefix ?p (fst x)) xs"
  proof -
    have "takeWhile ?P (rest e c') = takeWhile (\<lambda>x. has_prefix ?p (fst x)) (rest e c')"
      by (rule takeWhile_cong) (use s(4) entry in auto)
    also have "\<dots> = filter (\<lambda>x. has_prefix ?p (fst x)) xs"
      unfolding s(4) by (rule seek_prefix_block) (use s(1) in \<open>simp add: entries_def\<close>)
    finally show ?thesis .
  qed
  have len: "length (rest e c') < ops_bound ops e h + 1"
    unfolding s(4) using s(5) length_filter_le [of "\<lambda>x. ?p \<le> fst x" xs] by linarith
  have live: "live e (curtx c')" using assms(2) s(3) by simp
  have long: "\<forall>x\<in>set (takeWhile ?P (rest e c')). 8 \<le> length (snd x)" unfolding tw using entry by auto
  have "loadChain_loop ops (ops_bound ops e h + 1) ?p e c' (rest e c' \<noteq> []) []
      = (e, Inr (map (chain_head ?p) (filter (\<lambda>x. has_prefix ?p (fst x)) xs)))"
    using loadChain_loop_list [OF assms(1) live len long refl, of "[]"] unfolding tw append_Nil .
  then have "loadChain ops e h ks k = (e, Inr (chain_list ks k xs))"
    by (simp add: loadChain_def c s(2) chain_list_def Let_def del: length_chainPrefix)
  with s(1) that show thesis by blast
qed

lemma readHead_view: "inv e \<Longrightarrow> live e h \<Longrightarrow> readHead ops e h ks k = (e, Inr (head_at (view e h) ks k))"
  by (simp add: readHead_def get_ok head_at_def split: option.splits)

lemma resolve_read:
  assumes "inv e" and "live e h" and "mvcc_inv (view e h) T" and "ks \<noteq> KSVersion"
  shows "resolve ops e h ks k (head_at (view e h) ks k) s = (e, Inr (snap_read (view e h) ks k s))"
proof (cases "head_at (view e h) ks k")
  case None
  then show ?thesis by (simp add: resolve_def snap_read_def)
next
  case (Some hv)
  have ok: "chain_keys_ok (view e h)" and "key_inv (view e h) T ks k" using assms(3,4) by (simp_all add: mvcc_inv_def)
  then have sm: "small k" by (simp add: key_inv_def Some)
  from loadChain_list [OF assms(1,2) ok sm] obtain xs where
    xs: "entries (view e h KSVersion) xs" "loadChain ops e h ks k = (e, Inr (chain_list ks k xs))" by blast
  show ?thesis
    by (auto simp: Some resolve_def snap_read_def xs(2) visiblePayload_def Visible_iff best_chain_read [OF ok sm xs(1)])
qed

lemma readVersion_read:
  assumes "inv e" and "usable e" and "mvcc_inv (committed e) T" and "ks \<noteq> KSVersion"
  obtains e' where "inv e'" and "usable e'" and "committed e' = committed e"
    and "readVersion ops e ks k s
      = (e', case snap_read (committed e) ks k s of None \<Rightarrow> Inl ErrNotFound | Some p \<Rightarrow> Inr p)"
proof -
  from begin_ok [OF assms(1,2), of True] obtain e1 h where b: "ops_Begin ops e True = (e1, Inr h)" "inv e1"
    "usable e1" "committed e1 = committed e" "live e1 h" "view e1 h = committed e" by blast
  from rollback_ok [OF b(2,5)] obtain e2 where r: "ops_Rollback ops e1 h = (e2, Inr ())" "inv e2" "usable e2"
    "committed e2 = committed e" using b by auto
  have "readVersion ops e ks k s = (e2, case snap_read (committed e) ks k s of None \<Rightarrow> Inl ErrNotFound | Some p \<Rightarrow> Inr p)"
    using resolve_read [OF b(2,5), of T ks k s] assms b(6) r(1)
    by (simp add: readVersion_def b(1) readHead_view [OF b(2,5)])
  with r(2-4) that show thesis by blast
qed

end

end
