(* ===== verification/TxnPublish.thy ===== *)
theory TxnPublish
  imports TxnSnapshot
begin

text \<open>
  Commit and vacuum on the contents of the store. \<open>pub_view\<close> and \<open>vac_view\<close> are what \<open>publish_op\<close>
  and the deletions of \<open>vacStore\<close> do to the contents, and the lemmas say what that does to the
  value each snapshot reads.
\<close>

section \<open>Publishing one write\<close>

definition op_value :: "txWriteOp \<Rightarrow> bytes option" where
  "op_value op = (if to_del op then None else Some (to_val op))"

definition pub_view :: "uint64 \<Rightarrow> kvview \<Rightarrow> keyspace \<times> bytes \<times> txWriteOp \<Rightarrow> kvview" where
  "pub_view cts V w = (case w of (ks, k, op) \<Rightarrow>
     case head_at V ks k of
       None \<Rightarrow> if to_del op then V else upd_view V ks k (Some (encodeHead cts 0 (to_val op)))
     | Some h \<Rightarrow>
         if to_del op then
           (if hd_delete h \<noteq> 0 then V else upd_view V ks k (Some (encodeHead (hd_create h) cts (hd_payload h))))
         else
           upd_view (upd_view V KSVersion (chainKey ks k (hd_create h))
               (Some (encodeChain (if hd_delete h = 0 then cts else hd_delete h) (hd_payload h))))
             ks k (Some (encodeHead cts 0 (to_val op))))"

text \<open>The key was last written before \<open>cts\<close>.\<close>

definition fresh :: "kvview \<Rightarrow> uint64 \<Rightarrow> keyspace \<Rightarrow> bytes \<Rightarrow> bool" where
  "fresh V cts ks k \<longleftrightarrow> (\<forall>h. head_at V ks k = Some h \<longrightarrow> hd_create h < cts \<and> hd_delete h < cts)"

lemma pub_view_other:
  assumes "ks \<noteq> KSVersion" and "ks' \<noteq> KSVersion" and "(ks', k') \<noteq> (ks, k)"
  shows "head_at (pub_view cts V (ks, k, op)) ks' k' = head_at V ks' k'"
    and "chain_at (pub_view cts V (ks, k, op)) ks' k' = chain_at V ks' k'"
proof -
  show "head_at (pub_view cts V (ks, k, op)) ks' k' = head_at V ks' k'"
    using assms by (auto simp: pub_view_def head_at_upd split: option.splits)
  show "chain_at (pub_view cts V (ks, k, op)) ks' k' = chain_at V ks' k'"
    using assms by (auto intro!: ext simp: pub_view_def chain_at_upd_head chain_at_upd_chain split: option.splits)
qed

lemma snap_read_cong:
  "head_at V ks k = head_at V' ks k \<Longrightarrow> chain_at V ks k = chain_at V' ks k \<Longrightarrow> snap_read V ks k s = snap_read V' ks k s"
  unfolding snap_read_def chain_visible_def by (simp only:)

lemma key_inv_cong:
  "head_at V ks k = head_at V' ks k \<Longrightarrow> chain_at V ks k = chain_at V' ks k \<Longrightarrow> key_inv V T ks k = key_inv V' T ks k"
  unfolding key_inv_def by (simp only:)

lemma chain_keys_pub:
  assumes "chain_keys_ok V" and "ks \<noteq> KSVersion" and "small k"
  shows "chain_keys_ok (pub_view cts V (ks, k, op))"
  using assms
  by (auto simp: chain_keys_ok_def pub_view_def upd_view_apply encodeChain_def split: option.splits)

lemma word_pos_iff: "(0 :: 'a::len word) < x \<longleftrightarrow> x \<noteq> 0"
  by (simp add: word_neq_0_conv)

lemma key_inv_pub:
  assumes inv: "key_inv V cts ks k" and ks: "ks \<noteq> KSVersion" "small k" and "fresh V cts ks k" and cts: "0 < cts"
  shows "key_inv (pub_view cts V (ks, k, op)) cts ks k"
proof (cases "head_at V ks k")
  case None
  then show ?thesis using assms
    by (auto simp: key_inv_def pub_view_def head_at_upd chain_at_upd_head decodeHead_encodeHead)
next
  case (Some h)
  then have lt: "hd_create h < cts" "hd_delete h < cts" using assms(4) by (auto simp: fresh_def)
  have chain: "c < d \<and> d \<le> hd_create h" if "chain_at V ks k c = Some (d, p)" for c d p
    using inv Some that by (auto simp: key_inv_def)
  have del: "hd_delete h \<noteq> 0 \<Longrightarrow> hd_create h < hd_delete h" using inv Some by (auto simp: key_inv_def)
  have le: "c < d \<and> d \<le> cts" if "chain_at V ks k c = Some (d, p)" for c d p
    using chain [OF that] lt(1) by auto
  show ?thesis
  proof (cases "to_del op")
    case True
    then show ?thesis using inv Some ks lt
      by (auto simp: key_inv_def pub_view_def head_at_upd chain_at_upd_head decodeHead_encodeHead)
  next
    case False
    then show ?thesis using Some ks lt del le
      by (auto simp: key_inv_def pub_view_def head_at_upd chain_at_upd_head chain_at_upd_chain decodeHead_encodeHead
          less_imp_le split: if_splits)
  qed
qed

lemma mvcc_inv_pub:
  assumes "mvcc_inv V cts" and "ks \<noteq> KSVersion" and "small k" and "fresh V cts ks k" and "0 < cts"
  shows "mvcc_inv (pub_view cts V (ks, k, op)) cts"
proof -
  have "key_inv (pub_view cts V (ks, k, op)) cts ks' k'" if "ks' \<noteq> KSVersion" for ks' k'
  proof (cases "(ks', k') = (ks, k)")
    case True
    then show ?thesis using key_inv_pub [of V cts ks k op] assms by (auto simp: mvcc_inv_def)
  next
    case False
    with key_inv_cong [OF pub_view_other [OF assms(2) that False]] assms(1) that show ?thesis
      by (auto simp: mvcc_inv_def)
  qed
  with chain_keys_pub [OF _ assms(2,3)] assms(1) show ?thesis by (auto simp: mvcc_inv_def)
qed

text \<open>
  The value read at a snapshot below \<open>cts\<close> survives the archiving of the head; from \<open>cts\<close> on it is
  the written one.
\<close>

lemma chain_visible_le: "c \<in> chain_visible V ks k s \<Longrightarrow> c \<le> s"
  by (auto simp: chain_visible_def Visible_iff split: option.splits)

lemma Max_insert_top: "finite C \<Longrightarrow> \<forall>c\<in>C. c \<le> a \<Longrightarrow> Max (insert a C) = (a :: 'a::linorder)"
  by (rule Max_eqI) auto

lemma snap_read_put:
  assumes inv: "key_inv V cts ks k" and ks: "ks \<noteq> KSVersion" and "fresh V cts ks k"
    and put: "\<not> to_del op" and "s < cts"
  shows "snap_read (pub_view cts V (ks, k, op)) ks k s = snap_read V ks k s"
proof (cases "head_at V ks k")
  case None
  then show ?thesis using inv ks put \<open>s < cts\<close>
    by (auto simp: key_inv_def snap_read_def pub_view_def head_at_upd chain_at_upd_head decodeHead_encodeHead
        Visible_iff chain_visible_def)
next
  case (Some h)
  let ?V = "pub_view cts V (ks, k, op)" and ?c = "hd_create h"
  let ?d = "if hd_delete h = 0 then cts else hd_delete h"
  have lt: "?c < cts" "hd_delete h < cts" using assms(3) Some by (auto simp: fresh_def)
  have chain: "c < d \<and> d \<le> ?c" if "chain_at V ks k c = Some (d, p)" for c d p
    using inv Some that by (auto simp: key_inv_def)
  then have old: "chain_at V ks k ?c = None"
    by (metis not_None_eq old.prod.exhaust leD)
  have head: "head_at ?V ks k = Some \<lparr>hd_create = cts, hd_delete = 0, hd_payload = to_val op, hd_legacy = False\<rparr>"
    using Some ks put by (simp add: pub_view_def head_at_upd decodeHead_encodeHead)
  have ch: "chain_at ?V ks k c = (if c = ?c then Some (?d, hd_payload h) else chain_at V ks k c)" for c
    using Some ks put by (simp add: pub_view_def chain_at_upd_head chain_at_upd_chain)
  have vis: "chain_visible ?V ks k s = (if Visible ?c (hd_delete h) s then insert ?c (chain_visible V ks k s)
      else chain_visible V ks k s)"
    using \<open>s < cts\<close> old by (auto simp: chain_visible_def ch Visible_iff split: if_splits option.splits)
  have read: "snap_read ?V ks k s = (if chain_visible ?V ks k s = {} then None
      else map_option snd (chain_at ?V ks k (Max (chain_visible ?V ks k s))))"
  proof -
    have "\<not> cts \<le> s" using \<open>s < cts\<close> by simp
    then show ?thesis by (simp add: snap_read_def head Visible_iff)
  qed
  consider (visible) "Visible ?c (hd_delete h) s" | (dead) "\<not> Visible ?c (hd_delete h) s" "?c \<le> s" | (new) "s < ?c"
    by fastforce
  then show ?thesis
  proof cases
    case visible
    have "Max (insert ?c (chain_visible V ks k s)) = ?c"
    proof (rule Max_insert_top)
      show "\<forall>c\<in>chain_visible V ks k s. c \<le> ?c"
        using chain by (fastforce simp: chain_visible_def split: option.splits)
    qed simp
    then show ?thesis unfolding read vis using visible Some by (simp add: ch snap_read_def)
  next
    case dead
    have "chain_visible V ks k s = {}"
      using chain dead(2) by (fastforce simp: chain_visible_def Visible_iff split: option.splits)
    then show ?thesis unfolding read vis using dead Some by (simp add: snap_read_def)
  next
    case new
    then have "\<not> Visible ?c (hd_delete h) s" "\<not> ?c \<le> s" by (auto simp: Visible_iff)
    moreover have "Max (chain_visible V ks k s) \<noteq> ?c" if "chain_visible V ks k s \<noteq> {}"
      using chain_visible_le [OF Max_in [OF _ that]] new by auto
    ultimately show ?thesis unfolding read vis using new Some by (simp add: ch snap_read_def)
  qed
qed

lemma snap_read_pub:
  assumes "mvcc_inv V cts" and ks: "ks \<noteq> KSVersion" and "small k" and "fresh V cts ks k" and "0 < cts"
    and ks': "ks' \<noteq> KSVersion"
  shows "snap_read (pub_view cts V (ks, k, op)) ks' k' s
    = (if (ks', k') = (ks, k) \<and> cts \<le> s then op_value op else snap_read V ks' k' s)"
proof (cases "(ks', k') = (ks, k)")
  case False
  with snap_read_cong [OF pub_view_other [OF ks ks' False]] show ?thesis by auto
next
  case True
  have inv: "key_inv V cts ks k" using assms(1) ks by (auto simp: mvcc_inv_def)
  show ?thesis
  proof (cases "to_del op")
    case False
    then show ?thesis
      using True snap_read_put [OF inv ks assms(4) False, of s] ks \<open>0 < cts\<close>
      by (auto simp: op_value_def snap_read_def pub_view_def head_at_upd decodeHead_encodeHead Visible_iff
          split: option.splits)
  next
    case del: True
    show ?thesis
    proof (cases "head_at V ks k")
      case None
      then show ?thesis using True del by (simp add: op_value_def snap_read_def pub_view_def)
    next
      case (Some h)
      then have "hd_create h < cts" "hd_delete h < cts" using assms(4) by (auto simp: fresh_def)
      then show ?thesis using True del Some ks \<open>0 < cts\<close>
        by (auto simp: op_value_def snap_read_def pub_view_def head_at_upd decodeHead_encodeHead Visible_iff
            chain_visible_def chain_at_upd_head)
    qed
  qed
qed

section \<open>Publishing a write set\<close>

definition all_ops :: "txWrites \<Rightarrow> (keyspace \<times> bytes \<times> txWriteOp) list" where
  "all_ops w = concat (map (\<lambda>(ks, kops). map (\<lambda>(k, op). (ks, k, op)) kops) w)"

definition op_key :: "keyspace \<times> bytes \<times> txWriteOp \<Rightarrow> keyspace \<times> bytes" where
  "op_key w = (fst w, fst (snd w))"

definition writes_wf :: "txWrites \<Rightarrow> bool" where
  "writes_wf w \<longleftrightarrow> distinct (map fst w) \<and> (\<forall>(ks, kops) \<in> set w. ks \<noteq> KSVersion \<and> distinct (map fst kops)
     \<and> (\<forall>(k, op) \<in> set kops. small k))"

definition written :: "txWrites \<Rightarrow> keyspace \<Rightarrow> bytes \<Rightarrow> txWriteOp option" where
  "written w ks k = map_of (ops_at w ks) k"

lemma all_ops_simps [simp]:
  "all_ops [] = []"
  "all_ops ((ks, kops) # w) = map (\<lambda>(k, op). (ks, k, op)) kops @ all_ops w"
  by (simp_all add: all_ops_def)

lemma set_all_ops: "(ks, k, op) \<in> set (all_ops w) \<longleftrightarrow> (\<exists>kops. (ks, kops) \<in> set w \<and> (k, op) \<in> set kops)"
  by (auto simp: all_ops_def)

lemma writes_wf_Cons:
  "writes_wf ((ks, kops) # w) \<longleftrightarrow> ks \<notin> fst ` set w \<and> ks \<noteq> KSVersion \<and> distinct (map fst kops)
    \<and> (\<forall>(k, op) \<in> set kops. small k) \<and> writes_wf w"
  by (auto simp: writes_wf_def)

lemma all_ops_distinct: "writes_wf w \<Longrightarrow> distinct (map op_key (all_ops w))"
proof (induction w)
  case (Cons x w)
  obtain ks kops where x: "x = (ks, kops)" by fastforce
  have "map op_key (all_ops (x # w)) = map (Pair ks) (map fst kops) @ map op_key (all_ops w)"
    by (auto simp: x op_key_def)
  moreover have "distinct (map (Pair ks) (map fst kops))"
    using Cons.prems by (simp add: x writes_wf_Cons distinct_map inj_on_def)
  moreover have "set (map (Pair ks) (map fst kops)) \<inter> set (map op_key (all_ops w)) = {}"
    using Cons.prems by (force simp: x writes_wf_Cons op_key_def set_all_ops image_iff)
  moreover have "distinct (map op_key (all_ops w))" using Cons by (simp add: x writes_wf_Cons)
  ultimately show ?case by (simp only: distinct_append)
qed simp

lemma all_ops_wf: "writes_wf w \<Longrightarrow> (ks, k, op) \<in> set (all_ops w) \<Longrightarrow> ks \<noteq> KSVersion \<and> small k"
  by (fastforce simp: set_all_ops writes_wf_def)

lemma written_all_ops: "writes_wf w \<Longrightarrow> written w ks k = Some op \<longleftrightarrow> (ks, k, op) \<in> set (all_ops w)"
proof -
  assume wf: "writes_wf w"
  show ?thesis
  proof
    assume "written w ks k = Some op"
    then obtain kops where "map_of w ks = Some kops" "map_of kops k = Some op"
      by (auto simp: written_def ops_at_def split: option.splits)
    then show "(ks, k, op) \<in> set (all_ops w)" by (auto simp: set_all_ops dest: map_of_SomeD)
  next
    assume "(ks, k, op) \<in> set (all_ops w)"
    then obtain kops where m: "(ks, kops) \<in> set w" "(k, op) \<in> set kops" by (auto simp: set_all_ops)
    with wf have "distinct (map fst w)" "distinct (map fst kops)" by (auto simp: writes_wf_def)
    with m show "written w ks k = Some op" by (simp add: written_def ops_at_def)
  qed
qed

lemma publish_all:
  assumes "mvcc_inv V cts" and "0 < cts" and "distinct (map op_key ws)"
    and "\<forall>(ks, k, op) \<in> set ws. ks \<noteq> KSVersion \<and> small k \<and> fresh V cts ks k"
  shows "mvcc_inv (foldl (pub_view cts) V ws) cts \<and> (\<forall>ks k s. ks \<noteq> KSVersion \<longrightarrow>
      snap_read (foldl (pub_view cts) V ws) ks k s
      = (case map_of (map (\<lambda>w. (op_key w, snd (snd w))) ws) (ks, k) of
           Some op \<Rightarrow> if cts \<le> s then op_value op else snap_read V ks k s
         | None \<Rightarrow> snap_read V ks k s))"
  using assms
proof (induction ws arbitrary: V)
  case (Cons w ws)
  obtain ks0 k0 op0 where w: "w = (ks0, k0, op0)" by (metis prod_cases3)
  let ?V = "pub_view cts V w"
  have w0: "ks0 \<noteq> KSVersion" "small k0" "fresh V cts ks0 k0" using Cons.prems by (auto simp: w)
  have inv: "mvcc_inv ?V cts" unfolding w by (rule mvcc_inv_pub) (use Cons.prems w0 in auto)
  have fr: "\<forall>(ks, k, op) \<in> set ws. ks \<noteq> KSVersion \<and> small k \<and> fresh ?V cts ks k"
  proof (intro ballI, clarify)
    fix ks k op assume m: "(ks, k, op) \<in> set ws"
    then have ok: "ks \<noteq> KSVersion" "small k" "fresh V cts ks k" using Cons.prems(4) by auto
    have "(ks, k) \<noteq> (ks0, k0)" using m Cons.prems(3) by (force simp: w op_key_def)
    from pub_view_other(1) [OF w0(1) ok(1) this] ok show "ks \<noteq> KSVersion \<and> small k \<and> fresh ?V cts ks k"
      by (simp add: fresh_def w)
  qed
  have d: "distinct (map op_key ws)" using Cons.prems by simp
  have new: "map_of (map (\<lambda>w. (op_key w, snd (snd w))) ws) (ks0, k0) = None"
    using Cons.prems(3) by (auto simp: w op_key_def map_of_eq_None_iff image_iff)
  note IH = Cons.IH [OF inv Cons.prems(2) d fr]
  have read: "snap_read ?V ks k s = (if (ks, k) = (ks0, k0) \<and> cts \<le> s then op_value op0 else snap_read V ks k s)"
    if "ks \<noteq> KSVersion" for ks k s
    unfolding w by (rule snap_read_pub [OF Cons.prems(1) w0 Cons.prems(2) that])
  show ?case
  proof (intro conjI allI impI)
    show "mvcc_inv (foldl (pub_view cts) V (w # ws)) cts" using IH by simp
    fix ks k s assume ks: "ks \<noteq> KSVersion"
    let ?m = "map (\<lambda>w. (op_key w, snd (snd w)))"
    have "snap_read (foldl (pub_view cts) V (w # ws)) ks k s
        = (case map_of (?m ws) (ks, k) of
             Some op \<Rightarrow> if cts \<le> s then op_value op else snap_read ?V ks k s
           | None \<Rightarrow> snap_read ?V ks k s)" using IH ks by simp
    moreover have "map_of (?m (w # ws)) (ks, k) = (if (ks, k) = (ks0, k0) then Some op0 else map_of (?m ws) (ks, k))"
      by (simp add: w op_key_def)
    ultimately show "snap_read (foldl (pub_view cts) V (w # ws)) ks k s
        = (case map_of (?m (w # ws)) (ks, k) of
             Some op \<Rightarrow> if cts \<le> s then op_value op else snap_read V ks k s
           | None \<Rightarrow> snap_read V ks k s)"
      using new by (simp only: read [OF ks] split: if_splits option.splits) auto
  qed
qed simp

lemma option_eqI: "(\<And>x. a = Some x \<longleftrightarrow> b = Some x) \<Longrightarrow> a = b"
  by (cases a; cases b) auto

lemma written_map_of: "writes_wf w \<Longrightarrow> map_of (map (\<lambda>w. (op_key w, snd (snd w))) (all_ops w)) (ks, k) = written w ks k"
proof -
  assume wf: "writes_wf w"
  let ?m = "map (\<lambda>w. (op_key w, snd (snd w))) (all_ops w)"
  have d: "distinct (map fst ?m)" using all_ops_distinct [OF wf] by (simp add: comp_def)
  have m: "((ks, k), op) \<in> set ?m \<longleftrightarrow> (ks, k, op) \<in> set (all_ops w)" for op
    by (force simp: op_key_def image_iff)
  have "map_of ?m (ks, k) = Some op \<longleftrightarrow> written w ks k = Some op" for op
    unfolding written_all_ops [OF wf] m [symmetric] using map_of_eq_Some_iff [OF d] by blast
  then show ?thesis by (rule option_eqI)
qed

section \<open>Validation\<close>

text \<open>What \<open>validate\<close> answers, as a function of the contents of the store.\<close>

fun valid_res :: "kvview \<Rightarrow> uint64 \<Rightarrow> (keyspace \<times> bytes \<times> txWriteOp) list \<Rightarrow> sterr option \<Rightarrow> sterr option sresult" where
  "valid_res V snap [] conflict = Inr conflict"
| "valid_res V snap ((ks, k, op) # ws) conflict = (case head_at V ks k of
     None \<Rightarrow> valid_res V snap ws conflict
   | Some h \<Rightarrow>
       if hd_create h > snap \<or> (hd_delete h \<noteq> 0 \<and> hd_delete h > snap) then
         (if to_unique op
          then Inl (gerr_New ConstraintViolation ''unique key was committed by another transaction'')
          else valid_res V snap ws (case conflict of None \<Rightarrow> Some (gerr_New Conflict ''write conflict'') | Some c \<Rightarrow> Some c))
       else if to_unique op \<and> \<not> to_del op \<and> hd_delete h = 0 \<and> \<not> to_shadowed op
       then Inl (gerr_New ConstraintViolation ''unique key already exists'')
       else valid_res V snap ws conflict)"

definition changed_since :: "kvview \<Rightarrow> uint64 \<Rightarrow> keyspace \<Rightarrow> bytes \<Rightarrow> bool" where
  "changed_since V snap ks k \<longleftrightarrow> (\<exists>h. head_at V ks k = Some h \<and> (hd_create h > snap \<or> hd_delete h > snap))"

definition unique_clash :: "kvview \<Rightarrow> uint64 \<Rightarrow> keyspace \<times> bytes \<times> txWriteOp \<Rightarrow> bool" where
  "unique_clash V snap w = (case w of (ks, k, op) \<Rightarrow> to_unique op \<and>
     (changed_since V snap ks k \<or> \<not> to_del op \<and> \<not> to_shadowed op
        \<and> (\<exists>h. head_at V ks k = Some h \<and> hd_delete h = 0)))"

lemma changed_iff: "hd_create h > snap \<or> (hd_delete h \<noteq> 0 \<and> hd_delete h > snap) \<longleftrightarrow> hd_create h > snap \<or> hd_delete h > snap"
  by auto

lemma valid_res_cases:
  "(\<exists>w\<in>set ws. unique_clash V snap w) \<and> (\<exists>msg. valid_res V snap ws c = Inl (gerr_New ConstraintViolation msg))
   \<or> (\<forall>w\<in>set ws. \<not> unique_clash V snap w) \<and> valid_res V snap ws c = Inr
       (if c = None \<and> (\<exists>(ks, k, op)\<in>set ws. changed_since V snap ks k) then Some (gerr_New Conflict ''write conflict'') else c)"
proof (induction ws arbitrary: c)
  case (Cons w ws)
  obtain ks k op where w: "w = (ks, k, op)" by (metis prod_cases3)
  note IH = Cons.IH [of c] Cons.IH [of "case c of None \<Rightarrow> Some (gerr_New Conflict ''write conflict'') | Some c \<Rightarrow> Some c"]
  show ?case
  proof (cases "head_at V ks k")
    case None
    then have "\<not> changed_since V snap ks k" "\<not> unique_clash V snap w"
      by (auto simp: w changed_since_def unique_clash_def)
    with IH(1) None show ?thesis by (auto simp: w)
  next
    case (Some h)
    have ch: "changed_since V snap ks k \<longleftrightarrow> hd_create h > snap \<or> (hd_delete h \<noteq> 0 \<and> hd_delete h > snap)"
      using Some by (auto simp: changed_since_def)
    have cl: "unique_clash V snap w \<longleftrightarrow> to_unique op
        \<and> (changed_since V snap ks k \<or> \<not> to_del op \<and> \<not> to_shadowed op \<and> hd_delete h = 0)"
      using Some by (auto simp: w unique_clash_def)
    consider (c1) "changed_since V snap ks k" "to_unique op" | (c2) "changed_since V snap ks k" "\<not> to_unique op"
      | (c3) "\<not> changed_since V snap ks k" "unique_clash V snap w"
      | (c4) "\<not> changed_since V snap ks k" "\<not> unique_clash V snap w" by blast
    then show ?thesis
    proof cases
      case c1
      then show ?thesis using cl by (auto simp: w Some ch)
    next
      case c2
      then have "valid_res V snap (w # ws) c
          = valid_res V snap ws (case c of None \<Rightarrow> Some (gerr_New Conflict ''write conflict'') | Some c \<Rightarrow> Some c)"
        unfolding ch by (simp add: w Some)
      moreover have "\<not> unique_clash V snap w" using c2 cl by simp
      ultimately show ?thesis using IH(2) c2 by (auto simp: w split: option.splits if_splits)
    next
      case c3
      then show ?thesis using cl by (auto simp: w Some ch)
    next
      case c4
      then have "valid_res V snap (w # ws) c = valid_res V snap ws c"
        unfolding cl ch by (auto simp: w Some)
      then show ?thesis using IH(1) c4 by (auto simp: w)
    qed
  qed
qed simp

section \<open>The engine transaction of a commit\<close>

lemma mvcc_inv_head:
  assumes "mvcc_inv V T" and "ks \<noteq> KSVersion" and "head_at V ks k = Some h"
  shows "small k" and "hd_create h \<le> T" and "hd_delete h \<noteq> 0 \<Longrightarrow> hd_create h < hd_delete h \<and> hd_delete h \<le> T"
    and "chain_at V ks k c = Some (d, p) \<Longrightarrow> c < d \<and> d \<le> hd_create h"
proof -
  have "key_inv V T ks k" using assms(1,2) by (simp add: mvcc_inv_def)
  then show "small k" and "hd_create h \<le> T" and "hd_delete h \<noteq> 0 \<Longrightarrow> hd_create h < hd_delete h \<and> hd_delete h \<le> T"
    and "chain_at V ks k c = Some (d, p) \<Longrightarrow> c < d \<and> d \<le> hd_create h"
    by (auto simp: key_inv_def assms(3))
qed

lemma mvcc_inv_fresh:
  assumes "mvcc_inv V T" and "T < cts" and "ks \<noteq> KSVersion"
  shows "fresh V cts ks k"
proof (unfold fresh_def, intro allI impI)
  fix h assume "head_at V ks k = Some h"
  then have "hd_create h \<le> T" "hd_delete h \<noteq> 0 \<longrightarrow> hd_delete h \<le> T"
    using mvcc_inv_head [OF assms(1,3)] by blast+
  moreover have "0 < cts" using assms(2) by (metis word_gt_0 not_less_iff_gr_or_eq word_zero_le leD)
  ultimately show "hd_create h < cts \<and> hd_delete h < cts"
    using assms(2) by (metis order_le_less_trans)
qed

lemma mvcc_inv_mono:
  assumes "mvcc_inv V T" and "T \<le> T'"
  shows "mvcc_inv V T'"
proof -
  have "key_inv V T' ks k" if "key_inv V T ks k" for ks k
    using that assms(2) by (auto simp: key_inv_def split: option.splits intro: order_trans)
  with assms(1) show ?thesis by (auto simp: mvcc_inv_def)
qed

lemma meta_upd:
  "chain_keys_ok V \<Longrightarrow> chain_keys_ok (upd_view V KSVersion metaKey v)"
  "ks \<noteq> KSVersion \<Longrightarrow> head_at (upd_view V KSVersion metaKey v) ks k = head_at V ks k"
  by (auto simp: chain_keys_ok_def upd_view_apply head_at_def)

lemma mvcc_inv_meta: "mvcc_inv V T \<Longrightarrow> mvcc_inv (upd_view V KSVersion metaKey v) T"
proof -
  assume inv: "mvcc_inv V T"
  have "key_inv (upd_view V KSVersion metaKey v) T ks k" if "ks \<noteq> KSVersion" for ks k
    using key_inv_cong [OF meta_upd(2) [OF that] fun_cong [OF fun_cong [OF chain_at_upd_meta]]] inv that
    by (simp add: mvcc_inv_def)
  with inv meta_upd(1) show ?thesis by (simp add: mvcc_inv_def)
qed

lemma snap_read_meta: "ks \<noteq> KSVersion \<Longrightarrow> snap_read (upd_view V KSVersion metaKey v) ks k s = snap_read V ks k s"
  by (rule snap_read_cong) (simp_all add: meta_upd)

text \<open>The change in the number of live keys that \<open>publish\<close> reports.\<close>

definition pub_delta :: "kvview \<Rightarrow> keyspace \<times> bytes \<times> txWriteOp \<Rightarrow> int" where
  "pub_delta V w = (case w of (ks, k, op) \<Rightarrow>
     (let wasLive = (case head_at V ks k of None \<Rightarrow> False | Some h \<Rightarrow> hd_delete h = 0) in
      if to_del op then (if wasLive then -1 else 0) else (if wasLive then 0 else 1)))"

fun pub_deltas :: "uint64 \<Rightarrow> kvview \<Rightarrow> (keyspace \<times> bytes \<times> txWriteOp) list \<Rightarrow> int" where
  "pub_deltas cts V [] = 0"
| "pub_deltas cts V (w # ws) = pub_delta V w + pub_deltas cts (pub_view cts V w) ws"

lemma sbind_assoc: "sbind (sbind r f) g = sbind r (\<lambda>e x. sbind (f e x) g)"
  by (cases "(r, f)" rule: sbind.cases) auto

lemma sbind_congI: "(\<And>e x. f e x = g e x) \<Longrightarrow> sbind r f = sbind r g"
  by presburger

definition validity :: "kvview \<Rightarrow> uint64 \<Rightarrow> txWrites \<Rightarrow> unit sresult" where
  "validity V snap w = bind_res (valid_res V snap (all_ops w) None) (\<lambda>c. case c of None \<Rightarrow> Inr () | Some err \<Rightarrow> Inl err)"

definition published :: "uint64 \<Rightarrow> uint64 \<Rightarrow> kvview \<Rightarrow> txWrites \<Rightarrow> kvview" where
  "published cts nextTxn V w = upd_view (foldl (pub_view cts) V (all_ops w)) KSVersion metaKey
     (Some (encodeOracle \<lparr>or_nextTxn = nextTxn, or_commitTS = cts\<rparr>))"

lemma published_snap:
  assumes "mvcc_inv V T" and "T < cts" and "writes_wf w"
  shows "mvcc_inv (published cts n V w) cts"
    and "ks \<noteq> KSVersion \<Longrightarrow> snap_read (published cts n V w) ks k s
      = (case written w ks k of Some op \<Rightarrow> if cts \<le> s then op_value op else snap_read V ks k s
         | None \<Rightarrow> snap_read V ks k s)"
proof -
  have inv: "mvcc_inv V cts" using mvcc_inv_mono assms(1,2) by auto
  have pos: "0 < cts" using assms(2) word_zero_le [of T] by (meson order_le_less_trans)
  have fr: "\<forall>(ks, k, op) \<in> set (all_ops w). ks \<noteq> KSVersion \<and> small k \<and> fresh V cts ks k"
    using all_ops_wf [OF assms(3)] mvcc_inv_fresh [OF assms(1,2)] by fastforce
  note all = publish_all [OF inv pos all_ops_distinct [OF assms(3)] fr]
  show "mvcc_inv (published cts n V w) cts" using all by (simp add: published_def mvcc_inv_meta)
  show "ks \<noteq> KSVersion \<Longrightarrow> snap_read (published cts n V w) ks k s
      = (case written w ks k of Some op \<Rightarrow> if cts \<le> s then op_value op else snap_read V ks k s
         | None \<Rightarrow> snap_read V ks k s)"
    using all by (simp add: published_def snap_read_meta written_map_of [OF assms(3)])
qed

context kv_engine
begin

text \<open>\<open>writes_to e e' s V\<close>: from \<open>e\<close> the writable transaction \<open>s\<close> went on to see \<open>V\<close>, and nothing else changed.\<close>

definition writes_to :: "'e \<Rightarrow> 'e \<Rightarrow> nat \<Rightarrow> kvview \<Rightarrow> bool" where
  "writes_to e e' s V \<longleftrightarrow> inv e' \<and> usable e' = usable e \<and> committed e' = committed e \<and> writable e' s
     \<and> exclusive e' s = exclusive e s \<and> view e' s = V"

lemma writes_to_refl: "inv e \<Longrightarrow> writable e s \<Longrightarrow> writes_to e e s (view e s)"
  by (simp add: writes_to_def)

lemma writes_to_trans: "writes_to e e' s V \<Longrightarrow> writes_to e' e'' s V' \<Longrightarrow> writes_to e e'' s V'"
  by (auto simp: writes_to_def)

lemma put_writes:
  assumes "inv e" and "writable e s"
  obtains e' where "ops_Put ops e s ks k v = (e', Inr ())" and "writes_to e e' s (upd_view (view e s) ks k (Some v))"
  using put_ok [OF assms, of ks k v] that by (auto simp: writes_to_def)

lemma delete_writes:
  assumes "inv e" and "writable e s"
  obtains e' where "ops_Delete ops e s ks k = (e', Inr ())" and "writes_to e e' s (upd_view (view e s) ks k None)"
  using delete_ok [OF assms, of ks k] that by (auto simp: writes_to_def)

lemma publish_op_view:
  assumes "inv e" and "writable e s" and "ks \<noteq> KSVersion"
  obtains e' where "publish_op ops e s cts ks k op delta = (e', Inr (delta + pub_delta (view e s) (ks, k, op)))"
    and "writes_to e e' s (pub_view cts (view e s) (ks, k, op))"
proof (cases "head_at (view e s) ks k")
  case None
  note rh = readHead_view [OF assms(1) writable_live [OF assms(2)], of ks k]
  show thesis
  proof (cases "to_del op")
    case True
    then show thesis
      using that [of e] writes_to_refl [OF assms(1,2)] None rh
      by (simp add: publish_op_def pub_view_def pub_delta_def Let_def)
  next
    case False
    obtain e' where e': "ops_Put ops e s ks k (encodeHead cts 0 (to_val op)) = (e', Inr ())"
      "writes_to e e' s (upd_view (view e s) ks k (Some (encodeHead cts 0 (to_val op))))"
      using put_writes [OF assms(1,2)] by blast
    show thesis
      using that [of e'] e' None rh False by (simp add: publish_op_def pub_view_def pub_delta_def Let_def)
  qed
next
  case (Some h)
  note rh = readHead_view [OF assms(1) writable_live [OF assms(2)], of ks k]
  show thesis
  proof (cases "to_del op")
    case True
    obtain e' where e': "ops_Put ops e s ks k (encodeHead (hd_create h) cts (hd_payload h)) = (e', Inr ())"
      "writes_to e e' s (upd_view (view e s) ks k (Some (encodeHead (hd_create h) cts (hd_payload h))))"
      using put_writes [OF assms(1,2)] by blast
    show thesis
    proof (cases "hd_delete h = 0")
      case live: True
      show thesis by (rule that [of e']) (use e' Some rh True live in \<open>simp_all add: publish_op_def pub_view_def pub_delta_def Let_def\<close>)
    next
      case dead: False
      show thesis
        by (rule that [of e]) (use writes_to_refl [OF assms(1,2)] Some rh True dead in
            \<open>simp_all add: publish_op_def pub_view_def pub_delta_def Let_def\<close>)
    qed
  next
    case False
    let ?d = "if hd_delete h = 0 then cts else hd_delete h" and ?k = "chainKey ks k (hd_create h)"
    let ?V = "upd_view (view e s) KSVersion ?k (Some (encodeChain ?d (hd_payload h)))"
    obtain e1 where e1: "ops_Put ops e s KSVersion ?k (encodeChain ?d (hd_payload h)) = (e1, Inr ())"
      "writes_to e e1 s ?V" using put_writes [OF assms(1,2)] by blast
    then have "inv e1" "writable e1 s" "view e1 s = ?V" by (auto simp: writes_to_def)
    then obtain e2 where e2: "ops_Put ops e1 s ks k (encodeHead cts 0 (to_val op)) = (e2, Inr ())"
      "writes_to e1 e2 s (upd_view ?V ks k (Some (encodeHead cts 0 (to_val op))))"
      using put_writes [of e1 s] by metis
    have "archive ops e s ks k h cts = (e1, Inr ())" using e1(1) by (simp add: archive_def Let_def)
    then show thesis
      using that [of e2] e2(1) writes_to_trans [OF e1(2) e2(2)] Some rh False
      by (simp add: publish_op_def pub_view_def pub_delta_def Let_def)
  qed
qed

fun publish_list :: "'e \<Rightarrow> nat \<Rightarrow> uint64 \<Rightarrow> (keyspace \<times> bytes \<times> txWriteOp) list \<Rightarrow> int \<Rightarrow> 'e \<times> int sresult" where
  "publish_list e s cts [] delta = (e, Inr delta)"
| "publish_list e s cts ((ks, k, op) # ws) delta =
     sbind (publish_op ops e s cts ks k op delta) (\<lambda>e delta. publish_list e s cts ws delta)"

lemma publish_list_append:
  "publish_list e s cts (xs @ ys) delta = sbind (publish_list e s cts xs delta) (\<lambda>e delta. publish_list e s cts ys delta)"
  by (induction e s cts xs delta rule: publish_list.induct) (auto simp: sbind_assoc intro!: sbind_congI)

lemma publish_ops_list: "publish_ops ops e s cts ks kops delta = publish_list e s cts (map (\<lambda>(k, op). (ks, k, op)) kops) delta"
  by (induction kops arbitrary: e delta) (auto intro!: sbind_congI)

lemma publish_flat: "publish ops e s cts w = publish_list e s cts (all_ops w) 0"
proof -
  have "publish_loop ops e s cts w delta = publish_list e s cts (all_ops w) delta" for e delta
    by (induction w arbitrary: e delta) (auto simp: publish_ops_list publish_list_append intro!: sbind_congI)
  then show ?thesis by (simp add: publish_def)
qed

lemma publish_list_view:
  assumes "inv e" and "writable e s" and "\<forall>w\<in>set ws. fst w \<noteq> KSVersion"
  shows "\<exists>e'. publish_list e s cts ws delta = (e', Inr (delta + pub_deltas cts (view e s) ws))
    \<and> writes_to e e' s (foldl (pub_view cts) (view e s) ws)"
  using assms
proof (induction ws arbitrary: e delta)
  case Nil
  then show ?case by (simp add: writes_to_refl)
next
  case (Cons w ws)
  obtain ks k op where w: "w = (ks, k, op)" by (metis prod_cases3)
  with Cons.prems obtain e1 where e1: "publish_op ops e s cts ks k op delta = (e1, Inr (delta + pub_delta (view e s) w))"
    "writes_to e e1 s (pub_view cts (view e s) w)" using publish_op_view [of e s ks cts k op delta] by auto
  then have v: "inv e1" "writable e1 s" "view e1 s = pub_view cts (view e s) w" by (auto simp: writes_to_def)
  from Cons.IH [OF v(1,2), of "delta + pub_delta (view e s) w"] Cons.prems v(3) obtain e2 where
    "publish_list e1 s cts ws (delta + pub_delta (view e s) w)
      = (e2, Inr (delta + pub_delta (view e s) w + pub_deltas cts (pub_view cts (view e s) w) ws))"
    "writes_to e1 e2 s (foldl (pub_view cts) (pub_view cts (view e s) w) ws)" by auto
  then show ?case using writes_to_trans [OF e1(2)] e1(1) by (auto simp: w)
qed

fun validate_list :: "'e \<Rightarrow> nat \<Rightarrow> uint64 \<Rightarrow> (keyspace \<times> bytes \<times> txWriteOp) list \<Rightarrow> sterr option \<Rightarrow> 'e \<times> sterr option sresult" where
  "validate_list e s snap [] conflict = (e, Inr conflict)"
| "validate_list e s snap ((ks, k, op) # ws) conflict =
     sbind (validate_op ops e s snap ks k op conflict) (\<lambda>e conflict. validate_list e s snap ws conflict)"

lemma validate_list_append:
  "validate_list e s snap (xs @ ys) c = sbind (validate_list e s snap xs c) (\<lambda>e c. validate_list e s snap ys c)"
  by (induction e s snap xs c rule: validate_list.induct) (auto simp: sbind_assoc intro!: sbind_congI)

lemma validate_loop_flat: "validate_loop ops e s snap w c = validate_list e s snap (all_ops w) c"
proof -
  have ops: "validate_ops ops e s snap ks kops c = validate_list e s snap (map (\<lambda>(k, op). (ks, k, op)) kops) c" for e ks kops c
    by (induction kops arbitrary: e c) (auto intro!: sbind_congI)
  show ?thesis by (induction w arbitrary: e c) (auto simp: ops validate_list_append intro!: sbind_congI)
qed

lemma validate_list_res:
  "inv e \<Longrightarrow> live e s \<Longrightarrow> validate_list e s snap ws c = (e, valid_res (view e s) snap ws c)"
  by (induction "view e s" snap ws c rule: valid_res.induct)
    (auto simp: validate_op_def readHead_view split: option.splits)

lemma validate_res:
  "inv e \<Longrightarrow> live e s \<Longrightarrow> validate ops e s snap w = (e, bind_res (valid_res (view e s) snap (all_ops w) None)
      (\<lambda>c. case c of None \<Rightarrow> Inr () | Some err \<Rightarrow> Inl err))"
  by (cases "valid_res (view e s) snap (all_ops w) None") (simp_all add: validate_def validate_loop_flat validate_list_res)

text \<open>The engine is as usable as before and holds the same contents.\<close>

definition same :: "'e \<Rightarrow> 'e \<Rightarrow> bool" where
  "same e e' \<longleftrightarrow> inv e' \<and> usable e' = usable e \<and> committed e' = committed e"

lemma rollback_same: "writes_to e e' s V \<Longrightarrow> \<exists>e''. ops_Rollback ops e' s = (e'', Inr ()) \<and> same e e''"
  using rollback_ok [of e' s] writable_live by (auto simp: writes_to_def same_def)

lemma begin_writable:
  assumes "inv e" and "usable e"
  obtains e1 s where "ops_Begin ops e False = (e1, Inr s)" and "same e e1" and "writes_to e1 e1 s (committed e)"
    and "exclusive e1 s" and "usable e1"
  using begin_ok [OF assms, of False] that assms by (auto simp: writes_to_def same_def)

lemma commitStore_ok:
  assumes "inv e" and "usable e" and "writes_wf w" and "validity (committed e) snap w = Inr ()"
  obtains e' where "commitStore ops e snap w cts nextTxn False = (e', Inr (pub_deltas cts (committed e) (all_ops w)))"
    and "inv e'" and "usable e'" and "committed e' = published cts nextTxn (committed e) w"
proof -
  obtain e1 s where b: "ops_Begin ops e False = (e1, Inr s)" "same e e1" "writes_to e1 e1 s (committed e)"
    "exclusive e1 s" "usable e1" using begin_writable [OF assms(1,2)] by blast
  have e1: "inv e1" "writable e1 s" "live e1 s" "view e1 s = committed e"
    using b(3) writable_live by (auto simp: writes_to_def)
  have v: "validate ops e1 s snap w = (e1, Inr ())"
    using validate_res [OF e1(1,3)] assms(4) by (simp add: validity_def e1(4))
  have "\<forall>w\<in>set (all_ops w). fst w \<noteq> KSVersion" using all_ops_wf [OF assms(3)] by auto
  from publish_list_view [OF e1(1,2) this, of cts 0] obtain e2 where
    p: "publish ops e1 s cts w = (e2, Inr (pub_deltas cts (committed e) (all_ops w)))"
      "writes_to e1 e2 s (foldl (pub_view cts) (committed e) (all_ops w))"
    by (auto simp: publish_flat e1(4))
  then have e2: "inv e2" "writable e2 s" and v2: "view e2 s = foldl (pub_view cts) (committed e) (all_ops w)"
    by (auto simp: writes_to_def)
  obtain e3 where q: "ops_Put ops e2 s KSVersion metaKey (encodeOracle \<lparr>or_nextTxn = nextTxn, or_commitTS = cts\<rparr>) = (e3, Inr ())"
    "writes_to e2 e3 s (published cts nextTxn (committed e) w)"
    using put_writes [OF e2, of KSVersion metaKey] unfolding published_def v2 by blast
  from writes_to_trans [OF p(2) q(2)] b(4,5) have e3: "inv e3" "usable e3" "writable e3 s" "exclusive e3 s"
    "view e3 s = published cts nextTxn (committed e) w" by (auto simp: writes_to_def)
  from commit_ok [OF e3(1-4)] obtain e4 where c: "ops_Commit ops e3 s = (e4, Inr ())" "inv e4" "usable e4"
    "committed e4 = published cts nextTxn (committed e) w" using e3(5) by auto
  show thesis by (rule that [OF _ c(2-4)]) (simp add: commitStore_def b(1) v p(1) q(1) c(1))
qed

lemma commitStore_refused:
  assumes "inv e" and "usable e" and "validity (committed e) snap w = Inl err"
  obtains e' where "commitStore ops e snap w cts nextTxn b = (e', Inl err)" and "same e e'"
proof -
  obtain e1 s where b: "ops_Begin ops e False = (e1, Inr s)" "same e e1" "writes_to e1 e1 s (committed e)"
    using begin_writable [OF assms(1,2)] by blast
  have e1: "inv e1" "live e1 s" "view e1 s = committed e"
    using b(3) writable_live by (auto simp: writes_to_def)
  have v: "validate ops e1 s snap w = (e1, Inl err)"
    using validate_res [OF e1(1,2)] assms(3) by (simp add: validity_def e1(3))
  from rollback_same [OF b(3)] obtain e2 where "ops_Rollback ops e1 s = (e2, Inr ())" "same e1 e2" by blast
  with that [of e2] b(2) show thesis by (simp add: commitStore_def b(1) v same_def)
qed

end

text \<open>
  Validation passes exactly when no written key changed since the snapshot and no unique key
  clashes; a clash wins over a conflict.
\<close>

lemma validity_cases:
  "validity V snap w = Inr () \<longleftrightarrow> (\<forall>(ks, k, op)\<in>set (all_ops w). \<not> changed_since V snap ks k)
      \<and> (\<forall>x\<in>set (all_ops w). \<not> unique_clash V snap x)"
  "validity V snap w = Inl err \<Longrightarrow> IsCode err ConstraintViolation \<and> (\<exists>x\<in>set (all_ops w). unique_clash V snap x)
      \<or> IsCode err Conflict \<and> (\<exists>(ks, k, op)\<in>set (all_ops w). changed_since V snap ks k)
          \<and> (\<forall>x\<in>set (all_ops w). \<not> unique_clash V snap x)"
  using valid_res_cases [of "all_ops w" V snap None]
  by (auto simp: validity_def gerr_New_def IsCode_def split: if_splits)

lemma unchanged_read:
  assumes "mvcc_inv V T" and "ks \<noteq> KSVersion" and "\<not> changed_since V snap ks k" and "snap \<le> s"
  shows "snap_read V ks k s = snap_read V ks k snap"
proof (cases "head_at V ks k")
  case (Some h)
  then have "hd_create h \<le> snap" "hd_delete h \<le> snap" using assms(3) by (auto simp: changed_since_def)
  moreover from this have "hd_create h \<le> s" "hd_delete h \<le> s" using assms(4) by auto
  ultimately show ?thesis using Some by (auto simp: snap_read_def Visible_iff)
qed (simp add: snap_read_def)

end
