(* ===== verification/TxnVacuum.thy ===== *)
theory TxnVacuum
  imports TxnPublish
begin

text \<open>
  Vacuum and cursor materialisation on the contents of the store: which records \<open>vacStore\<close> removes,
  that no snapshot from \<open>oldest\<close> on notices, and that \<open>matStore\<close> lists the snapshot with the
  transaction's own writes over it, in key order.
\<close>

section \<open>What vacuum removes\<close>

definition marked :: "bytes \<Rightarrow> bool" where
  "marked key \<longleftrightarrow> has_prefix [chainMark] key"

lemma marked_iff: "marked key \<longleftrightarrow> \<not> (length key = 0 \<or> key ! 0 \<noteq> chainMark)"
  by (cases key) (auto simp: marked_def)

definition dead_at :: "uint64 \<Rightarrow> uint64 \<Rightarrow> bool" where
  "dead_at oldest d \<longleftrightarrow> d \<noteq> 0 \<and> d \<le> oldest"

definition dead_heads :: "kvview \<Rightarrow> uint64 \<Rightarrow> keyspace set \<Rightarrow> (keyspace \<times> bytes) set" where
  "dead_heads V oldest spaces = {(ks, k). ks \<in> spaces \<and> (\<exists>h. head_at V ks k = Some h \<and> dead_at oldest (hd_delete h))}"

definition dead_chains :: "kvview \<Rightarrow> uint64 \<Rightarrow> bytes set" where
  "dead_chains V oldest = {key. marked key \<and>
     (\<exists>raw. V KSVersion key = Some raw \<and> dead_at oldest (be_u64 (take 8 raw)))}"

definition remove :: "kvview \<Rightarrow> (keyspace \<times> bytes) set \<Rightarrow> kvview" where
  "remove V D = (\<lambda>ks k. if (ks, k) \<in> D then None else V ks k)"

definition vac_view :: "kvview \<Rightarrow> uint64 \<Rightarrow> keyspace set \<Rightarrow> kvview" where
  "vac_view V oldest spaces = remove V (dead_heads V oldest spaces \<union> Pair KSVersion ` dead_chains V oldest)"

lemma remove_empty [simp]: "remove V {} = V"
  by (simp add: remove_def)

lemma remove_insert: "remove (upd_view V ks k None) D = remove V (insert (ks, k) D)"
  by (auto simp: remove_def upd_view_def fun_eq_iff)

lemma chainKey_marked [simp]: "marked (chainKey ks k c)"
  by (simp add: chainKey_def chainPrefix_def marked_def)

lemma head_at_vac:
  assumes "ks \<noteq> KSVersion"
  shows "head_at (vac_view V oldest spaces) ks k
    = (case head_at V ks k of None \<Rightarrow> None
       | Some h \<Rightarrow> if ks \<in> spaces \<and> dead_at oldest (hd_delete h) then None else Some h)"
  using assms by (auto simp: vac_view_def remove_def head_at_def dead_heads_def split: option.splits)

lemma chain_at_vac:
  assumes "KSVersion \<notin> spaces"
  shows "chain_at (vac_view V oldest spaces) ks k c
    = (case chain_at V ks k c of None \<Rightarrow> None | Some (d, p) \<Rightarrow> if dead_at oldest d then None else Some (d, p))"
  using assms
  by (auto simp: vac_view_def remove_def chain_at_def dead_heads_def dead_chains_def split: option.splits)

lemma chain_visible_vac:
  assumes "KSVersion \<notin> spaces" and "oldest \<le> s"
  shows "chain_visible (vac_view V oldest spaces) ks k s = chain_visible V ks k s"
proof -
  have "\<not> Visible c d s" if "dead_at oldest d" for c d
    using that assms(2) by (auto simp: dead_at_def Visible_iff)
  then show ?thesis
    by (auto simp: chain_visible_def chain_at_vac [OF assms(1)] split: option.splits if_splits)
qed

lemma chain_visibleD: "c \<in> chain_visible V ks k s \<Longrightarrow> \<exists>d p. chain_at V ks k c = Some (d, p) \<and> Visible c d s"
  by (auto simp: chain_visible_def split: option.splits)

lemma snap_read_vac:
  assumes inv: "mvcc_inv V T" and ks: "ks \<noteq> KSVersion" and sp: "KSVersion \<notin> spaces" and s: "oldest \<le> s"
  shows "snap_read (vac_view V oldest spaces) ks k s = snap_read V ks k s"
proof (cases "head_at V ks k")
  case None
  then show ?thesis by (simp add: snap_read_def head_at_vac [OF ks])
next
  case (Some h)
  show ?thesis
  proof (cases "dead_at oldest (hd_delete h)")
    case True
    then have "hd_delete h \<noteq> 0" "hd_delete h \<le> s" using s by (auto simp: dead_at_def)
    moreover from this have "hd_create h \<le> s" using mvcc_inv_head(3) [OF inv ks Some] by auto
    ultimately show ?thesis using Some by (auto simp: snap_read_def head_at_vac [OF ks] Visible_iff)
  next
    case False
    let ?C = "chain_visible V ks k s"
    have "chain_at (vac_view V oldest spaces) ks k (Max ?C) = chain_at V ks k (Max ?C)" if "?C \<noteq> {}"
    proof -
      have "Max ?C \<in> ?C" using that by simp
      then obtain d p where "chain_at V ks k (Max ?C) = Some (d, p)" "Visible (Max ?C) d s"
        using chain_visibleD by blast
      then show ?thesis using s by (auto simp: chain_at_vac [OF sp] dead_at_def Visible_iff)
    qed
    then show ?thesis using Some False
      by (auto simp: snap_read_def head_at_vac [OF ks] chain_visible_vac [OF sp s])
  qed
qed

lemma mvcc_inv_vac:
  assumes inv: "mvcc_inv V T" and sp: "KSVersion \<notin> spaces"
  shows "mvcc_inv (vac_view V oldest spaces) T"
proof -
  have "key_inv (vac_view V oldest spaces) T ks k" if ks: "ks \<noteq> KSVersion" for ks k
  proof (cases "head_at V ks k")
    case None
    moreover have "key_inv V T ks k" using inv ks by (simp add: mvcc_inv_def)
    ultimately have "chain_at V ks k c = None" for c by (simp add: key_inv_def)
    with None show ?thesis by (simp add: key_inv_def head_at_vac [OF ks] chain_at_vac [OF sp])
  next
    case (Some h)
    note head = mvcc_inv_head [OF inv ks Some]
    have gone: "dead_at oldest d" if "dead_at oldest (hd_delete h)" "chain_at V ks k c = Some (d, p)" for c d p
    proof -
      have "c < d" "d \<le> hd_create h" "hd_create h < hd_delete h" "hd_delete h \<le> oldest"
        using head(3,4) that by (auto simp: dead_at_def)
      then show ?thesis by (auto simp: dead_at_def)
    qed
    show ?thesis
    proof (cases "ks \<in> spaces \<and> dead_at oldest (hd_delete h)")
      case True
      then have "chain_at (vac_view V oldest spaces) ks k c = None" for c
        using gone [of c] by (cases "chain_at V ks k c") (auto simp: chain_at_vac [OF sp])
      with True show ?thesis by (simp add: key_inv_def head_at_vac [OF ks] Some)
    next
      case False
      have "chain_at (vac_view V oldest spaces) ks k c = Some (d, p) \<Longrightarrow> c < d \<and> d \<le> hd_create h" for c d p
        using head(4) [of c d p] by (cases "chain_at V ks k c") (auto simp: chain_at_vac [OF sp] split: if_splits)
      with False head(1-3) show ?thesis by (auto simp: key_inv_def head_at_vac [OF ks] Some)
    qed
  qed
  moreover have "chain_keys_ok (vac_view V oldest spaces)"
    using inv unfolding mvcc_inv_def chain_keys_ok_def vac_view_def remove_def by (metis option.distinct(1))
  ultimately show ?thesis by (simp add: mvcc_inv_def)
qed

section \<open>The scans\<close>

lemma foldl_collect:
  "foldl (\<lambda>acc x. if P x then acc @ [f x] else acc) acc xs = acc @ map f (filter P xs)"
  by (induction xs arbitrary: acc) auto

context kv_engine
begin

lemma eachHead_fold:
  assumes "inv e" and "live e h"
  obtains xs where "entries (view e h ks) xs"
    and "eachHead ops e h ks (\<lambda>k v acc. Inr (g k v acc)) acc = (e, Inr (foldl (\<lambda>acc x. g (fst x) (decodeHead (snd x)) acc) acc xs))"
proof -
  obtain xs where xs: "entries (view e h ks) xs"
    "eachRaw ops e h ks (\<lambda>key v acc. Inr (g key (decodeHead v) acc)) acc
      = (e, fold_res (\<lambda>key v acc. Inr (g key (decodeHead v) acc)) xs acc)"
    by (rule eachRaw_fold [OF assms, of ks "\<lambda>key v acc. Inr (g key (decodeHead v) acc)" acc])
  moreover have "fold_res (\<lambda>key v acc. Inr (g key (decodeHead v) acc)) xs acc
      = Inr (foldl (\<lambda>acc x. g (fst x) (decodeHead (snd x)) acc) acc xs)"
    by (rule fold_res_total) (rule refl)
  ultimately show thesis using that by (simp add: eachHead_def)
qed

text \<open>A cancelled context stops the scan; a context that is never cancelled does not.\<close>

lemma vac_heads_set:
  assumes "inv e" and "live e h"
  shows "(\<exists>err i. ctx_Err ctx i = Some err \<and> vac_heads ops e h ctx n oldest spaces heads = (e, Inl err))
    \<or> (\<exists>out. vac_heads ops e h ctx n oldest spaces heads = (e, Inr (heads @ out))
        \<and> set out = dead_heads (view e h) oldest (set spaces))"
proof (induction spaces arbitrary: n heads)
  case Nil
  show ?case by (simp add: dead_heads_def)
next
  case (Cons ks spaces)
  let ?P = "\<lambda>x. hd_delete (decodeHead (snd x)) \<noteq> 0 \<and> hd_delete (decodeHead (snd x)) \<le> oldest"
  obtain xs where xs: "entries (view e h ks) xs"
    "eachHead ops e h ks (\<lambda>key h heads. Inr (if hd_delete h \<noteq> 0 \<and> hd_delete h \<le> oldest then heads @ [(ks, key)] else heads)) heads
      = (e, Inr (foldl (\<lambda>acc x. if ?P x then acc @ [(ks, fst x)] else acc) heads xs))"
    by (rule eachHead_fold [OF assms(1,2), where g = "\<lambda>k h heads. if hd_delete h \<noteq> 0 \<and> hd_delete h \<le> oldest
      then heads @ [(ks, k)] else heads" and ks = ks and acc = heads])
  let ?new = "map (\<lambda>x. (ks, fst x)) (filter ?P xs)"
  have new: "set ?new = dead_heads (view e h) oldest {ks}"
    using entries_mem [OF xs(1)] by (force simp: dead_heads_def dead_at_def head_at_def image_iff)
  have ins: "dead_heads (view e h) oldest (insert ks (set spaces))
      = dead_heads (view e h) oldest {ks} \<union> dead_heads (view e h) oldest (set spaces)"
    by (auto simp: dead_heads_def)
  show ?case
  proof (cases "ctx_Err ctx n")
    case None
    then have step: "vac_heads ops e h ctx n oldest (ks # spaces) heads
        = vac_heads ops e h ctx (n + 1) oldest spaces (heads @ ?new)"
      by (simp add: xs(2) foldl_collect)
    from Cons.IH [of "n + 1" "heads @ ?new"] show ?thesis
    proof (elim disjE exE conjE)
      fix out assume "vac_heads ops e h ctx (n + 1) oldest spaces (heads @ ?new) = (e, Inr ((heads @ ?new) @ out))"
        "set out = dead_heads (view e h) oldest (set spaces)"
      then show ?thesis unfolding step using new ins by (intro disjI2 exI [of _ "?new @ out"]) simp
    qed (unfold step, blast)
  qed auto
qed

lemma eachChain_loop_fold:
  assumes "inv e"
  shows "\<lbrakk>live e (curtx c); length (rest e c) < n;
      \<forall>x\<in>set (takeWhile (\<lambda>x. marked (fst x)) (rest e c)). 8 \<le> length (snd x)\<rbrakk>
    \<Longrightarrow> eachChain_loop ops n (\<lambda>k v acc. Inr (g k (hd_delete v) acc)) e c (rest e c \<noteq> []) acc
      = (e, Inr (foldl (\<lambda>acc x. g (fst x) (be_u64 (take 8 (snd x))) acc) acc
          (takeWhile (\<lambda>x. marked (fst x)) (rest e c))))"
proof (induction n arbitrary: c acc)
  case (Suc n)
  show ?case
  proof (cases "rest e c")
    case Nil
    with Suc.prems close_ok [of e c] assms show ?thesis by (auto simp: Let_def)
  next
    case (Cons x xs)
    with Suc.prems next_ok [of e c x xs] assms(1) obtain c' where n: "ops_Next ops e c = (e, c', xs \<noteq> [])"
      "curtx c' = curtx c" "rest e c' = xs" by blast
    have k: "ops_Key ops e c = fst x" "ops_Value ops e c = snd x" using key_ok assms(1) Suc.prems Cons by blast+
    show ?thesis
    proof (cases "marked (fst x)")
      case True
      then have len: "8 \<le> length (snd x)" using Suc.prems(3) Cons by auto
      have IH: "eachChain_loop ops n (\<lambda>k v acc. Inr (g k (hd_delete v) acc)) e c' (xs \<noteq> []) a
          = (e, Inr (foldl (\<lambda>acc x. g (fst x) (be_u64 (take 8 (snd x))) acc) a
              (takeWhile (\<lambda>x. marked (fst x)) xs)))" for a
        using Suc.IH [of c' a] Suc.prems n Cons True by simp
      show ?thesis
        using True [unfolded marked_iff] True len by (simp add: Cons k n Let_def decodeChain_def IH)
    next
      case False
      with close_ok [of e c] assms Suc.prems show ?thesis
        using False [unfolded marked_iff] by (auto simp: Cons k Let_def)
    qed
  qed
qed simp

lemma chain_marked_long:
  assumes "chain_keys_ok V" and "V KSVersion key = Some raw" and "marked key"
  shows "8 \<le> length raw"
proof -
  have "key \<noteq> metaKey" using assms(3) by (auto simp: metaKey_def chainMark_def marked_def)
  with assms(1,2) show ?thesis unfolding chain_keys_ok_def by metis
qed

lemma eachChain_fold:
  assumes "inv e" and "live e h" and "chain_keys_ok (view e h)"
  obtains xs where "entries (view e h KSVersion) xs"
    and "eachChain ops e h (\<lambda>k v acc. Inr (g k (hd_delete v) acc)) acc = (e, Inr (foldl (\<lambda>acc x. g (fst x) (be_u64 (take 8 (snd x))) acc) acc
          (filter (\<lambda>x. marked (fst x)) xs)))"
proof -
  obtain c where c: "ops_Cursor ops e h KSVersion = (e, Inr c)" "curtx c = h" "curks c = KSVersion" "curopen c"
    using cursor_ok [OF assms(1,2)] by blast
  with seek_ok [of e c "Some [chainMark]"] assms(1,2) obtain c' xs where s: "entries (view e h KSVersion) xs"
    "ops_Seek ops e c (Some [chainMark]) = (e, c', rest e c' \<noteq> [])" "curtx c' = h"
    "rest e c' = filter (\<lambda>x. [chainMark] \<le> fst x) xs" "length xs \<le> ops_bound ops e h"
    by auto
  have tw: "takeWhile (\<lambda>x. marked (fst x)) (rest e c') = filter (\<lambda>x. marked (fst x)) xs"
    unfolding s(4) by (rule seek_prefix_block [where p = "[chainMark]", folded marked_def]) (use s(1) in \<open>simp add: entries_def\<close>)
  have live: "live e (curtx c')" using assms(2) s(3) by simp
  have len: "length (rest e c') < ops_bound ops e h + 1"
    unfolding s(4) using s(5) length_filter_le [of "\<lambda>x. [chainMark] \<le> fst x" xs] by linarith
  have long: "\<forall>x\<in>set (takeWhile (\<lambda>x. marked (fst x)) (rest e c')). 8 \<le> length (snd x)"
    unfolding tw using chain_marked_long [OF assms(3)] entries_mem [OF s(1)] by auto
  have "eachChain_loop ops (ops_bound ops e h + 1) (\<lambda>k v acc. Inr (g k (hd_delete v) acc)) e c' (rest e c' \<noteq> []) acc
      = (e, Inr (foldl (\<lambda>acc x. g (fst x) (be_u64 (take 8 (snd x))) acc) acc
          (filter (\<lambda>x. marked (fst x)) xs)))"
    using eachChain_loop_fold [OF assms(1) live len long] unfolding tw .
  then have "eachChain ops e h (\<lambda>k v acc. Inr (g k (hd_delete v) acc)) acc = (e, Inr (foldl (\<lambda>acc x. g (fst x) (be_u64 (take 8 (snd x))) acc) acc
          (filter (\<lambda>x. marked (fst x)) xs)))"
    by (simp add: eachChain_def c s(2))
  with s(1) that show thesis by blast
qed

lemma vac_chains_set:
  assumes "inv e" and "live e h" and "chain_keys_ok (view e h)"
  obtains out where "vac_chains ops e h oldest = (e, Inr out)" and "set out = dead_chains (view e h) oldest"
proof -
  let ?P = "\<lambda>x. be_u64 (take 8 (snd x)) \<noteq> 0 \<and> be_u64 (take 8 (snd x)) \<le> oldest"
  obtain xs where xs: "entries (view e h KSVersion) xs"
    "vac_chains ops e h oldest = (e, Inr (foldl (\<lambda>acc x. if ?P x then acc @ [fst x] else acc) []
      (filter (\<lambda>x. marked (fst x)) xs)))"
    unfolding vac_chains_def
    by (rule eachChain_fold [OF assms, where g = "\<lambda>k d chains. if d \<noteq> 0 \<and> d \<le> oldest then chains @ [k] else chains"
      and acc = "[]"])
  let ?out = "map fst (filter ?P (filter (\<lambda>x. marked (fst x)) xs))"
  have "set ?out = dead_chains (view e h) oldest"
    using entries_mem [OF xs(1)] by (force simp: dead_chains_def dead_at_def image_iff)
  then show thesis using that [of ?out] xs(2) by (simp only: foldl_collect append_Nil)
qed

lemma vac_delete_view:
  assumes "inv e" and "writable e s"
  shows "\<exists>e'. vac_delete ops e s ds = (e', Inr ()) \<and> writes_to e e' s (remove (view e s) (set ds))"
  using assms
proof (induction ds arbitrary: e)
  case Nil
  then show ?case by (simp add: writes_to_refl)
next
  case (Cons d ds)
  obtain ks k where d: "d = (ks, k)" by fastforce
  obtain e1 where e1: "ops_Delete ops e s ks k = (e1, Inr ())" "writes_to e e1 s (upd_view (view e s) ks k None)"
    using delete_writes [OF Cons.prems] by blast
  then have "inv e1" "writable e1 s" "view e1 s = upd_view (view e s) ks k None" by (auto simp: writes_to_def)
  with Cons.IH [of e1] obtain e2 where "vac_delete ops e1 s ds = (e2, Inr ())"
    "writes_to e1 e2 s (remove (view e s) (insert (ks, k) (set ds)))" by (auto simp: remove_insert)
  with e1 writes_to_trans [OF e1(2)] show ?case by (auto simp: d)
qed

lemma begin_readable:
  assumes "inv e" and "usable e"
  obtains e1 s where "ops_Begin ops e True = (e1, Inr s)" and "same e e1" and "inv e1" and "live e1 s"
    and "view e1 s = committed e"
  using begin_ok [OF assms, of True] that assms by (auto simp: same_def)

lemma rollback_reader:
  assumes "same e e1" and "live e1 s"
  obtains e2 where "ops_Rollback ops e1 s = (e2, Inr ())" and "same e e2"
  using rollback_ok [of e1 s] assms that by (auto simp: same_def)

lemma vacScan_sets:
  assumes "inv e" and "usable e" and "chain_keys_ok (committed e)"
  obtains (cancelled) e' err i where "vacScan ops e ctx oldest spaces = (e', Inl err)" and "same e e'" and "ctx_Err ctx i = Some err"
  | (scanned) e' heads chains where "vacScan ops e ctx oldest spaces = (e', Inr (heads, chains))" and "same e e'"
    and "set heads = dead_heads (committed e) oldest (set spaces)" and "set chains = dead_chains (committed e) oldest"
proof -
  obtain e1 s where b: "ops_Begin ops e True = (e1, Inr s)" "same e e1" "inv e1" "live e1 s" "view e1 s = committed e"
    using begin_readable [OF assms(1,2)] by blast
  from rollback_reader [OF b(2,4)] obtain e2 where r: "ops_Rollback ops e1 s = (e2, Inr ())" "same e e2" by blast
  from vac_chains_set [OF b(3,4)] b(5) assms(3) obtain chains where
    c: "vac_chains ops e1 s oldest = (e1, Inr chains)" "set chains = dead_chains (committed e) oldest" by auto
  from vac_heads_set [OF b(3,4), of ctx "Suc 0" oldest spaces "[]"] show thesis
  proof (elim disjE exE conjE)
    fix err i assume "ctx_Err ctx i = Some err" "vac_heads ops e1 s ctx (Suc 0) oldest spaces [] = (e1, Inl err)"
    then show thesis using cancelled [of e2 err i] r by (simp add: vacScan_def b(1))
  next
    fix heads assume "vac_heads ops e1 s ctx (Suc 0) oldest spaces [] = (e1, Inr ([] @ heads))"
      "set heads = dead_heads (view e1 s) oldest (set spaces)"
    then show thesis using scanned [OF _ r(2) _ c(2)] b(5) by (simp add: vacScan_def b(1) c(1) r(1))
  qed
qed

lemma vacStore_ok:
  assumes "inv e" and "usable e" and "chain_keys_ok (committed e)"
  obtains (cancelled) e' err i where "vacStore ops e ctx oldest spaces = (e', Inl err)" and "same e e'" and "ctx_Err ctx i = Some err"
  | (vacuumed) e' n where "vacStore ops e ctx oldest spaces = (e', Inr n)" and "inv e'" and "usable e'"
    and "committed e' = vac_view (committed e) oldest (set spaces)"
proof (rule vacScan_sets [OF assms, of ctx oldest spaces], goal_cases)
  case (1 e' err i)
  then show thesis using that(1) [of e' err i] by (simp add: vacStore_def)
next
  case prems: (2 e1 heads chains)
  note v = prems(3-6)
  have e1: "inv e1" "usable e1" "committed e1 = committed e" using v(2) assms(2) by (auto simp: same_def)
  show thesis
  proof (cases "heads = [] \<and> chains = []")
    case True
    with v have "vac_view (committed e) oldest (set spaces) = committed e" by (simp add: vac_view_def)
    then show thesis using that(2) [of e1 0] e1 True by (simp add: vacStore_def v(1))
  next
    case False
    obtain e2 s where b: "ops_Begin ops e1 False = (e2, Inr s)" "writes_to e2 e2 s (committed e)"
      "exclusive e2 s" "usable e2" using begin_writable [OF e1(1,2)] e1(3) by metis
    then have e2: "inv e2" "writable e2 s" "view e2 s = committed e" by (auto simp: writes_to_def)
    from vac_delete_view [OF e2(1,2), of heads] obtain e3 where
      d1: "vac_delete ops e2 s heads = (e3, Inr ())" "writes_to e2 e3 s (remove (committed e) (set heads))"
      using e2(3) by auto
    then have e3: "inv e3" "writable e3 s" "view e3 s = remove (committed e) (set heads)" by (auto simp: writes_to_def)
    have "remove (remove (committed e) (set heads)) (set (map (Pair KSVersion) chains))
        = vac_view (committed e) oldest (set spaces)"
      using v(3,4) by (auto simp: vac_view_def remove_def fun_eq_iff)
    with vac_delete_view [OF e3(1,2), of "map (Pair KSVersion) chains"] e3(3) obtain e4 where
      d2: "vac_delete ops e3 s (map (\<lambda>k. (KSVersion, k)) chains) = (e4, Inr ())"
        "writes_to e3 e4 s (vac_view (committed e) oldest (set spaces))"
      by auto
    from writes_to_trans [OF d1(2) d2(2)] b(3,4) have e4: "inv e4" "usable e4" "writable e4 s" "exclusive e4 s"
      "view e4 s = vac_view (committed e) oldest (set spaces)" by (auto simp: writes_to_def)
    from commit_ok [OF e4(1-4)] obtain e5 where c: "ops_Commit ops e4 s = (e5, Inr ())" "inv e5" "usable e5"
      "committed e5 = vac_view (committed e) oldest (set spaces)" using e4(5) by auto
    show thesis
      by (rule that(2) [of e5 "length heads + length chains", OF _ c(2-4)]) (use False in \<open>auto simp: vacStore_def v(1) b(1) d1(1) d2(1) c(1)\<close>)
  qed
qed

end

section \<open>Materialising a keyspace\<close>

text \<open>What a transaction with the overlay sees of one keyspace at a snapshot.\<close>

definition tx_sees :: "kvview \<Rightarrow> (bytes, txWriteOp) gomap \<Rightarrow> uint64 \<Rightarrow> keyspace \<Rightarrow> bytes \<Rightarrow> bytes option" where
  "tx_sees V overlay snap ks k = (case map_of overlay k of Some op \<Rightarrow> op_value op | None \<Rightarrow> snap_read V ks k snap)"

definition seen_item :: "(bytes \<Rightarrow> bytes option) \<Rightarrow> bytes \<Rightarrow> (bytes \<times> bytes) list" where
  "seen_item m k = (case m k of None \<Rightarrow> [] | Some v \<Rightarrow> [(k, v)])"

lemma seen_items_set: "(k, v) \<in> set (concat (map (seen_item m) keys)) \<longleftrightarrow> k \<in> set keys \<and> m k = Some v"
  by (auto simp: seen_item_def split: option.splits)

lemma seen_items_sorted:
  "sorted_wrt (<) keys \<Longrightarrow> sorted_wrt (<) (map fst (concat (map (seen_item m) keys)))"
proof (induction keys)
  case (Cons k keys)
  let ?rest = "concat (map (seen_item m) keys)"
  have "k < fst x" if "x \<in> set ?rest" for x
    using that seen_items_set [of "fst x" "snd x"] Cons.prems by simp
  moreover have "seen_item m k = [] \<or> (\<exists>v. seen_item m k = [(k, v)])"
    by (simp add: seen_item_def split: option.split)
  moreover have "sorted_wrt (<) (map fst ?rest)" using Cons by simp
  ultimately show ?case by (simp only: list.map concat.simps) (elim disjE exE; simp del: set_concat)
qed simp

lemma mat_extra_set:
  "distinct (map fst overlay) \<Longrightarrow> (k, v) \<in> set (mat_extra overlay keys) \<longleftrightarrow>
     k \<notin> set keys \<and> (\<exists>op. map_of overlay k = Some op \<and> op_value op = Some v)"
  by (auto simp: mat_extra_def op_value_def map_of_eq_Some_iff split: if_splits)

lemma distinct_sort_fst: "distinct (map fst xs) \<Longrightarrow> distinct (map fst (sort_key fst xs))"
  unfolding distinct_map set_sort by simp

lemma mat_extra_sorted:
  assumes "distinct (map fst overlay)"
  shows "sorted_wrt (<) (map fst (mat_extra overlay keys))"
proof -
  let ?x = "map (\<lambda>(s, op). (s, to_val op)) (filter (\<lambda>(s, op). \<not> to_del op \<and> s \<notin> set keys) overlay)"
  have "distinct (map fst ?x)" using assms by (induction overlay) force+
  moreover from this have "distinct (map fst (sort_key fst ?x))" by (rule distinct_sort_fst)
  ultimately show ?thesis unfolding mat_extra_def strict_sorted_iff by simp
qed

lemma mat_entries:
  assumes "distinct (map fst overlay)" and "sorted_wrt (<) keys"
    and "\<And>k. m k \<noteq> None \<Longrightarrow> k \<notin> set keys \<Longrightarrow> map_of overlay k \<noteq> None"
    and "\<And>k op. map_of overlay k = Some op \<Longrightarrow> m k = op_value op"
  shows "entries m (mergeKV (concat (map (seen_item m) keys)) (mat_extra overlay keys))"
proof (rule entriesI)
  let ?b = "concat (map (seen_item m) keys)" and ?x = "mat_extra overlay keys"
  have "fst y \<in> set keys" if "y \<in> set ?b" for y using that seen_items_set [of "fst y" "snd y"] by simp
  moreover have "fst y \<notin> set keys" if "y \<in> set ?x" for y
    using that mat_extra_set [OF assms(1), of "fst y" "snd y"] by simp
  ultimately have "fst ` set ?b \<inter> fst ` set ?x = {}" by (rule disjoint_images)
  then show "sorted_wrt (<) (map fst (mergeKV ?b ?x))"
    by (rule sorted_mergeKV [OF seen_items_sorted [OF assms(2)] mat_extra_sorted [OF assms(1)]])
  show "(k, v) \<in> set (mergeKV ?b ?x) \<longleftrightarrow> m k = Some v" for k v
    unfolding set_mergeKV Un_iff seen_items_set mat_extra_set [OF assms(1)]
    using assms(3) [of k] assms(4) [of k] by (cases "map_of overlay k"; cases "m k") auto
qed

context kv_engine
begin

lemma mat_base_items:
  assumes "inv e" and "live e s" and "mvcc_inv (view e s) T" and "ks \<noteq> KSVersion"
    and "\<forall>(k, h)\<in>set heads. head_at (view e s) ks k = Some h"
  shows "mat_base ops e s ks snap overlay heads base
    = (e, Inr (base @ concat (map (seen_item (tx_sees (view e s) overlay snap ks)) (map fst heads))))"
  using assms(5)
proof (induction heads arbitrary: base)
  case (Cons x heads)
  obtain k h where x: "x = (k, h)" by fastforce
  with Cons.prems have h: "head_at (view e s) ks k = Some h" by simp
  have r: "resolve ops e s ks k (Some h) snap = (e, Inr (snap_read (view e s) ks k snap))"
    using resolve_read [OF assms(1-4), of k snap] h by simp
  show ?case
    using Cons by (auto simp: x r tx_sees_def seen_item_def op_value_def split: option.splits)
qed simp

lemma matStore_entries:
  assumes "inv e" and "usable e" and "mvcc_inv (committed e) T" and "ks \<noteq> KSVersion" and "distinct (map fst overlay)"
  obtains e' xs where "matStore ops e ks snap overlay = (e', Inr xs)" and "same e e'"
    and "entries (tx_sees (committed e) overlay snap ks) xs"
proof -
  obtain e1 s where b: "ops_Begin ops e True = (e1, Inr s)" "same e e1" "inv e1" "live e1 s" "view e1 s = committed e"
    using begin_readable [OF assms(1,2)] by blast
  let ?V = "committed e" and ?m = "tx_sees (committed e) overlay snap ks"
  obtain xs where xs0: "entries (view e1 s ks) xs" and xs: "eachHead ops e1 s ks (\<lambda>key h acc. Inr (acc @ [(key, h)])) []
      = (e1, Inr (foldl (\<lambda>acc x. acc @ [(fst x, decodeHead (snd x))]) [] xs))"
    by (rule eachHead_fold [OF b(3,4), where g = "\<lambda>key h acc. acc @ [(key, h)]" and ks = ks and acc = "[]"])
  note xs = xs0 [unfolded b(5)] xs
  let ?hs = "map (\<lambda>x. (fst x, decodeHead (snd x))) xs"
  have fold: "foldl (\<lambda>acc x. acc @ [(fst x, decodeHead (snd x))]) [] xs = ?hs"
    using foldl_collect [of "\<lambda>_. True" "\<lambda>x. (fst x, decodeHead (snd x))" "[]" xs] by simp
  have keys: "map fst ?hs = map fst xs" by simp
  have "\<forall>(k, h)\<in>set ?hs. head_at (view e1 s) ks k = Some h"
    using entries_mem [OF xs(1)] by (auto simp: head_at_def b(5))
  with mat_base_items [OF b(3,4) _ assms(4), of T ?hs snap overlay "[]"] assms(3) b(5)
  have base: "mat_base ops e1 s ks snap overlay ?hs [] = (e1, Inr (concat (map (seen_item ?m) (map fst xs))))"
    unfolding keys by simp
  have srt: "sorted_wrt (<) (map fst xs)" using xs(1) by (simp add: entries_def)
  have dom: "k \<in> set (map fst xs) \<longleftrightarrow> ?V ks k \<noteq> None" for k
    using xs(1) map_of_eq_None_iff [of xs k] by (simp add: entries_def)
  have "entries ?m (mergeKV (concat (map (seen_item ?m) (map fst xs))) (mat_extra overlay (map fst xs)))"
  proof (rule mat_entries [OF assms(5) srt])
    show "map_of overlay k \<noteq> None" if "?m k \<noteq> None" "k \<notin> set (map fst xs)" for k
      using that unfolding dom by (auto simp: tx_sees_def snap_read_def head_at_def split: option.splits)
    show "?m k = op_value op" if "map_of overlay k = Some op" for k op using that by (simp add: tx_sees_def)
  qed
  moreover obtain e2 where r: "ops_Rollback ops e1 s = (e2, Inr ())" "same e e2" using rollback_reader [OF b(2,4)] by blast
  moreover have "matStore ops e ks snap overlay
      = (e2, Inr (mergeKV (concat (map (seen_item ?m) (map fst xs))) (mat_extra overlay (map fst xs))))"
    unfolding matStore_def b(1) sbind.simps xs(2) fold base keys by (simp add: r(1))
  ultimately show thesis using that by blast
qed

end

end
