(* ===== verification/TxnManager.thy ===== *)
theory TxnManager
  imports TxnVacuum
begin

text \<open>
  The invariant of the transaction manager and what every method keeps of it, for any engine with
  the contract \<open>kv_engine\<close>. \<open>mgr_do\<close> runs one call, so that a list of calls is any interleaving of
  the methods of any transactions; \<open>step_ok\<close> is what each call guarantees to the transactions that
  are still open afterwards.
\<close>

section \<open>The invariant\<close>

abbreviation is_open :: "'e manager \<Rightarrow> nat \<Rightarrow> bool" where
  "is_open m t \<equiv> \<not> tt_done (mtx_of m t)"

abbreviation snap_of :: "'e manager \<Rightarrow> nat \<Rightarrow> uint64" where
  "snap_of m t \<equiv> tt_snapshot (mtx_of m t)"

definition tx_ok :: "uint64 \<Rightarrow> txTx \<Rightarrow> bool" where
  "tx_ok T x \<longleftrightarrow> tt_snapshot x \<le> T \<and> writes_wf (tt_writes x) \<and> (\<forall>w\<in>set (tt_marks x). writes_wf w)"

definition txs_ok :: "'e manager \<Rightarrow> bool" where
  "txs_ok m \<longleftrightarrow> distinct (mg_open m) \<and> (\<forall>t. t \<in> set (mg_open m) \<longleftrightarrow> is_open m t)
     \<and> (\<forall>t. is_open m t \<longrightarrow> t < mg_next m \<and> tx_ok (mg_commitTS m) (mtx_of m t))
     \<and> KSVersion \<notin> set (mg_spaces m) \<and> (mg_closed m \<longrightarrow> mg_open m = [])"

definition oracle_ok :: "kvview \<Rightarrow> uint64 \<Rightarrow> bool" where
  "oracle_ok V T \<longleftrightarrow> (\<exists>n. V KSVersion metaKey = Some (encodeOracle \<lparr>or_nextTxn = n, or_commitTS = T\<rparr>))"

definition store_ok :: "('e \<Rightarrow> bool) \<Rightarrow> ('e \<Rightarrow> bool) \<Rightarrow> ('e \<Rightarrow> kvview) \<Rightarrow> 'e manager \<Rightarrow> bool" where
  "store_ok einv eusable ecomm m \<longleftrightarrow> einv (mg_eng m) \<and> eusable (mg_eng m)
     \<and> mvcc_inv (ecomm (mg_eng m)) (mg_commitTS m) \<and> oracle_ok (ecomm (mg_eng m)) (mg_commitTS m)"

lemma oracle_published: "oracle_ok (published cts n V w) cts"
  by (auto simp: oracle_ok_def published_def upd_view_apply)

lemma oracle_vac: "KSVersion \<notin> sp \<Longrightarrow> oracle_ok V T \<Longrightarrow> oracle_ok (vac_view V old sp) T"
  by (auto simp: oracle_ok_def vac_view_def remove_def dead_heads_def dead_chains_def marked_def metaKey_def chainMark_def)

definition mgr_inv :: "('e \<Rightarrow> bool) \<Rightarrow> ('e \<Rightarrow> bool) \<Rightarrow> ('e \<Rightarrow> kvview) \<Rightarrow> 'e manager \<Rightarrow> bool" where
  "mgr_inv einv eusable ecomm m \<longleftrightarrow> txs_ok m \<and> (mg_closed m \<or> store_ok einv eusable ecomm m)"

lemma mtx_of_set [simp]: "mtx_of (set_mtx m t x) t' = (if t' = t then x else mtx_of m t')"
  by (simp add: mtx_of_def set_mtx_def)

lemma mtx_of_update [simp]:
  "mtx_of (m\<lparr>mg_eng := e\<rparr>) = mtx_of m" "mtx_of (m\<lparr>mg_open := l\<rparr>) = mtx_of m"
  "mtx_of (m\<lparr>mg_rollbacks := u\<rparr>) = mtx_of m" "mtx_of (m\<lparr>mg_commits := u\<rparr>) = mtx_of m"
  "mtx_of (m\<lparr>mg_reclaimed := u\<rparr>) = mtx_of m" "mtx_of (m\<lparr>mg_spaces := sp\<rparr>) = mtx_of m"
  "mtx_of (m\<lparr>mg_hooks := hk\<rparr>) = mtx_of m" "mtx_of (m\<lparr>mg_liveKeys := z\<rparr>) = mtx_of m"
  "mtx_of (m\<lparr>mg_nextTxnID := u\<rparr>) = mtx_of m" "mtx_of (m\<lparr>mg_commitTS := u\<rparr>) = mtx_of m"
  "mtx_of (m\<lparr>mg_next := n\<rparr>) = mtx_of m" "mtx_of (m\<lparr>mg_closed := b\<rparr>) = mtx_of m"
  "mtx_of (m\<lparr>mg_gc := b\<rparr>) = mtx_of m"
  by (simp_all add: mtx_of_def fun_eq_iff)

lemma set_mtx_fields [simp]:
  "mg_eng (set_mtx m t x) = mg_eng m" "mg_opt (set_mtx m t x) = mg_opt m" "mg_hooks (set_mtx m t x) = mg_hooks m"
  "mg_nextTxnID (set_mtx m t x) = mg_nextTxnID m" "mg_commitTS (set_mtx m t x) = mg_commitTS m"
  "mg_liveKeys (set_mtx m t x) = mg_liveKeys m" "mg_open (set_mtx m t x) = mg_open m" "mg_next (set_mtx m t x) = mg_next m"
  "mg_spaces (set_mtx m t x) = mg_spaces m" "mg_closed (set_mtx m t x) = mg_closed m" "mg_gc (set_mtx m t x) = mg_gc m"
  "mg_rollbacks (set_mtx m t x) = mg_rollbacks m" "mg_commits (set_mtx m t x) = mg_commits m"
  by (simp_all add: set_mtx_def)

section \<open>One call\<close>

datatype mcall = CBegin int bool | CGet int nat keyspace bytes | CPut int nat keyspace bytes bytes
  | CInsertUnique int nat keyspace bytes bytes | CDeferUnique int nat keyspace bytes bytes
  | CDelete int nat keyspace bytes | CCommit int nat | CRollback nat | CMark int nat | CRollbackTo int nat int
  | CCursor int nat keyspace | CSeek txCursor "bytes option" | CSeekReverse txCursor "bytes option"
  | CVacuum ctx | CGcTick | CCrash | CClose | CSetHooks hooks | CHistoric

fun mgr_do :: "('e, 'c) engine_ops \<Rightarrow> mcall \<Rightarrow> 'e manager \<Rightarrow> 'e manager" where
  "mgr_do ops (CBegin now ro) m = fst (mgr_Begin m now ro)"
| "mgr_do ops (CGet now t ks k) m = fst (tx_Get ops m now t ks k)"
| "mgr_do ops (CPut now t ks k v) m = fst (tx_Put m now t ks k v)"
| "mgr_do ops (CInsertUnique now t ks k v) m = fst (tx_InsertUnique ops m now t ks k v)"
| "mgr_do ops (CDeferUnique now t ks k v) m = fst (tx_DeferUnique m now t ks k v)"
| "mgr_do ops (CDelete now t ks k) m = fst (tx_Delete m now t ks k)"
| "mgr_do ops (CCommit now t) m = fst (tx_Commit ops m now t)"
| "mgr_do ops (CRollback t) m = fst (tx_Rollback ops m t)"
| "mgr_do ops (CMark now t) m = fst (tx_Mark m now t)"
| "mgr_do ops (CRollbackTo now t n) m = fst (tx_RollbackTo m now t n)"
| "mgr_do ops (CCursor now t ks) m = fst (tx_Cursor m now t ks)"
| "mgr_do ops (CSeek c tg) m = fst (xc_Seek ops m c tg)"
| "mgr_do ops (CSeekReverse c tg) m = fst (xc_SeekReverse ops m c tg)"
| "mgr_do ops (CVacuum ctx) m = fst (mgr_Vacuum ops m ctx)"
| "mgr_do ops CGcTick m = gcTick ops m"
| "mgr_do ops CCrash m = fst (mgr_Crash ops m)"
| "mgr_do ops CClose m = fst (mgr_Close ops m)"
| "mgr_do ops (CSetHooks h) m = mgr_SetHooks m h"
| "mgr_do ops CHistoric m = fst (HistoricVersions ops m)"

text \<open>
  Keys shorter than \<open>2 ^ 32\<close> bytes, the range of the length field of a chain key; cursors of a user
  keyspace, the only ones \<open>tx_Cursor\<close> returns; and the commit timestamp not yet at its last value.
\<close>

fun call_ok :: "'e manager \<Rightarrow> mcall \<Rightarrow> bool" where
  "call_ok m (CPut now t ks k v) \<longleftrightarrow> small k"
| "call_ok m (CInsertUnique now t ks k v) \<longleftrightarrow> small k"
| "call_ok m (CDeferUnique now t ks k v) \<longleftrightarrow> small k"
| "call_ok m (CDelete now t ks k) \<longleftrightarrow> small k"
| "call_ok m (CCommit now t) \<longleftrightarrow> mg_commitTS m < mg_commitTS m + 1"
| "call_ok m (CSeek c tg) \<longleftrightarrow> xc_ks c \<noteq> KSVersion"
| "call_ok m (CSeekReverse c tg) \<longleftrightarrow> xc_ks c \<noteq> KSVersion"
| "call_ok m _ \<longleftrightarrow> True"

definition mgr_run :: "('e, 'c) engine_ops \<Rightarrow> 'e manager \<Rightarrow> mcall list \<Rightarrow> 'e manager" where
  "mgr_run ops m cs = foldl (\<lambda>m c. mgr_do ops c m) m cs"

fun calls_ok :: "('e, 'c) engine_ops \<Rightarrow> 'e manager \<Rightarrow> mcall list \<Rightarrow> bool" where
  "calls_ok ops m [] \<longleftrightarrow> True"
| "calls_ok ops m (c # cs) \<longleftrightarrow> call_ok m c \<and> calls_ok ops (mgr_do ops c m) cs"

section \<open>What a call guarantees\<close>

definition step_ok :: "('e \<Rightarrow> bool) \<Rightarrow> ('e \<Rightarrow> bool) \<Rightarrow> ('e \<Rightarrow> kvview) \<Rightarrow> 'e manager \<Rightarrow> 'e manager \<Rightarrow> bool" where
  "step_ok einv eusable ecomm m m' \<longleftrightarrow> mgr_inv einv eusable ecomm m' \<and> mg_next m \<le> mg_next m'
     \<and> (mg_closed m \<longrightarrow> mg_closed m') \<and> mg_commitTS m \<le> mg_commitTS m'
     \<and> (\<forall>t. is_open m' t \<and> t < mg_next m \<longrightarrow> is_open m t \<and> snap_of m' t = snap_of m t
          \<and> (\<forall>ks k. ks \<noteq> KSVersion \<longrightarrow> snap_read (ecomm (mg_eng m')) ks k (snap_of m t)
               = snap_read (ecomm (mg_eng m)) ks k (snap_of m t)))"

context kv_engine
begin

abbreviation minv :: "'e manager \<Rightarrow> bool" where "minv \<equiv> mgr_inv inv usable committed"
abbreviation sok :: "'e manager \<Rightarrow> 'e manager \<Rightarrow> bool" where "sok \<equiv> step_ok inv usable committed"

lemma sok_refl: "minv m \<Longrightarrow> sok m m"
  by (simp add: step_ok_def)

lemma sok_minv: "sok m m' \<Longrightarrow> minv m'"
  by (simp add: step_ok_def)

lemma sok_trans: "sok m m' \<Longrightarrow> sok m' m'' \<Longrightarrow> sok m m''"
  unfolding step_ok_def by (auto intro: order_trans order_less_le_trans)

lemma minv_open: "minv m \<Longrightarrow> is_open m t \<Longrightarrow> store_ok inv usable committed m \<and> tx_ok (mg_commitTS m) (mtx_of m t)
    \<and> t < mg_next m \<and> \<not> mg_closed m"
  by (auto simp: mgr_inv_def txs_ok_def)

lemma sok_set:
  assumes "minv m" and "is_open m t" and "\<not> tt_done x" and "tt_snapshot x = snap_of m t" and "tx_ok (mg_commitTS m) x"
  shows "sok m (set_mtx m t x)"
  using assms by (auto simp: step_ok_def mgr_inv_def txs_ok_def store_ok_def)

lemma sok_finish:
  assumes "minv m" and "tt_done x"
  shows "sok m ((set_mtx m t x)\<lparr>mg_open := removeAll t (mg_open m)\<rparr>)"
  using assms by (auto simp: step_ok_def mgr_inv_def txs_ok_def store_ok_def distinct_removeAll)

lemma sok_eng: "minv m \<Longrightarrow> mg_closed m \<or> same (mg_eng m) e \<Longrightarrow> sok m (m\<lparr>mg_eng := e\<rparr>)"
  by (auto simp: step_ok_def mgr_inv_def txs_ok_def store_ok_def same_def)

lemma sok_counters [simp]:
  "sok m (m'\<lparr>mg_rollbacks := u\<rparr>) = sok m m'" "sok m (m'\<lparr>mg_commits := u\<rparr>) = sok m m'"
  "sok m (m'\<lparr>mg_reclaimed := u\<rparr>) = sok m m'" "sok m (m'\<lparr>mg_hooks := hk\<rparr>) = sok m m'"
  "sok m (m'\<lparr>mg_liveKeys := z\<rparr>) = sok m m'" "sok m (m'\<lparr>mg_nextTxnID := u\<rparr>) = sok m m'"
  "sok m (m'\<lparr>mg_gc := b\<rparr>) = sok m m'"
  by (simp_all add: step_ok_def mgr_inv_def txs_ok_def store_ok_def)

subsection \<open>Transactions\<close>

lemma sbind_sok:
  "sok m (fst r) \<Longrightarrow> (\<And>m1 x. r = (m1, Inr x) \<Longrightarrow> sok m (fst (f m1 x))) \<Longrightarrow> sok m (fst (sbind r f))"
  by (cases "(r, f)" rule: sbind.cases) auto

lemma sok_drop:
  assumes "minv m" and "tt_done x"
  shows "sok m (drop_tx (set_mtx m t x) t b)"
  using sok_finish [OF assms, of t] by (simp add: drop_tx_def Let_def)

lemma touch_cases:
  assumes "minv m"
  obtains (refused) m' err where "touch m now t = (m', Inl err)" and "sok m m'"
  | (touched) "touch m now t = (set_mtx m t ((mtx_of m t)\<lparr>tt_last := now\<rparr>), Inr ())" and "is_open m t"
    and "sok m (set_mtx m t ((mtx_of m t)\<lparr>tt_last := now\<rparr>))"
proof (cases "tt_done (mtx_of m t)")
  case True
  then show thesis using refused [of m ErrDone] sok_refl [OF assms] by (simp add: touch_def)
next
  case False
  show thesis
  proof (cases "IdleTimeout (mg_opt m) > 0 \<and> tt_last (mtx_of m t) \<noteq> 0 \<and> now - tt_last (mtx_of m t) > IdleTimeout (mg_opt m)")
    case True
    then show thesis
      using refused False sok_drop [OF assms, of "(mtx_of m t)\<lparr>tt_done := True, tt_writes := []\<rparr>" t True]
      by (simp add: touch_def)
  next
    case quick: False
    have "sok m (set_mtx m t ((mtx_of m t)\<lparr>tt_last := now\<rparr>))"
      using sok_set [OF assms False] minv_open [OF assms False] False by (simp add: tx_ok_def)
    then show thesis using touched False quick by (simp add: touch_def Let_def)
  qed
qed

lemma touch_sok: "minv m \<Longrightarrow> sok m (fst (touch m now t))"
  by (rule touch_cases [of m now t]) auto

lemma enter_cases:
  assumes "minv m"
  obtains (refused) m' err where "enter m now t ks = (m', Inl err)" and "sok m m'"
  | (entered) "enter m now t ks = (set_mtx m t ((mtx_of m t)\<lparr>tt_last := now\<rparr>), Inr ())" and "is_open m t"
    and "sok m (set_mtx m t ((mtx_of m t)\<lparr>tt_last := now\<rparr>))" and "ks \<noteq> KSVersion"
proof (cases "ks = KSVersion")
  case True
  then show thesis using refused [of m] sok_refl [OF assms] by (simp add: enter_def checkKS_def)
next
  case False
  show thesis
    by (rule touch_cases [OF assms, of now t])
      (use refused entered False in \<open>auto simp: enter_def checkKS_def\<close>)
qed

lemma readAt_read:
  assumes "minv m" and "\<not> mg_closed m" and "ks \<noteq> KSVersion"
  obtains m' where "readAt ops m ks k s
      = (m', case snap_read (committed (mg_eng m)) ks k s of None \<Rightarrow> Inl ErrNotFound | Some p \<Rightarrow> Inr p)"
    and "sok m m'" and "mtx_of m' = mtx_of m" and "mg_opt m' = mg_opt m"
proof -
  have st: "inv (mg_eng m)" "usable (mg_eng m)" "mvcc_inv (committed (mg_eng m)) (mg_commitTS m)"
    using assms(1,2) by (auto simp: mgr_inv_def store_ok_def)
  obtain e' where e': "inv e'" "usable e'" "committed e' = committed (mg_eng m)"
    "readVersion ops (mg_eng m) ks k s
      = (e', case snap_read (committed (mg_eng m)) ks k s of None \<Rightarrow> Inl ErrNotFound | Some p \<Rightarrow> Inr p)"
    using readVersion_read [OF st assms(3)] by blast
  have "sok m (m\<lparr>mg_eng := e'\<rparr>)" using sok_eng [OF assms(1)] e' st(2) by (auto simp: same_def)
  then show thesis using that [of "m\<lparr>mg_eng := e'\<rparr>"] e'(4) by (simp add: readAt_def on_eng_def)
qed

lemma tx_Get_sok:
  assumes "minv m"
  shows "sok m (fst (tx_Get ops m now t ks k))"
proof (rule enter_cases [OF assms, of now t ks], goal_cases)
  case (1 m' err)
  then show ?case by (simp add: tx_Get_def)
next
  case 2
  let ?m = "set_mtx m t ((mtx_of m t)\<lparr>tt_last := now\<rparr>)"
  have inv: "minv ?m" and op: "\<not> mg_closed ?m"
    using sok_minv [OF 2(3)] minv_open [OF assms 2(2)] by auto
  obtain m' where "readAt ops ?m ks k (snap_of m t) = (m', case snap_read (committed (mg_eng ?m)) ks k (snap_of m t) of None \<Rightarrow> Inl ErrNotFound | Some p \<Rightarrow> Inr p)"
    "sok ?m m'" using readAt_read [OF inv op 2(4)] by blast
  then show ?case using 2 sok_trans [OF 2(3)] by (simp add: tx_Get_def Let_def split: option.split)
qed

text \<open>Buffering a write keeps the write set well formed.\<close>

lemma ops_at_wf: "writes_wf w \<Longrightarrow> distinct (map fst (ops_at w ks)) \<and> (\<forall>(k, op)\<in>set (ops_at w ks). small k)"
  by (auto simp: ops_at_def writes_wf_def dest: map_of_SomeD split: option.split)

lemma writes_wf_update:
  assumes "writes_wf w" and "ks \<noteq> KSVersion" and "distinct (map fst kops)" and "\<forall>(k, op)\<in>set kops. small k"
  shows "writes_wf (AList.update ks kops w)"
  unfolding writes_wf_def
proof (intro conjI ballI)
  show "distinct (map fst (AList.update ks kops w))" using assms(1) by (simp add: writes_wf_def distinct_update)
  fix x assume "x \<in> set (AList.update ks kops w)"
  then have "x = (ks, kops) \<or> x \<in> set w" by (rule update_mem)
  then show "case x of (ks, kops) \<Rightarrow> ks \<noteq> KSVersion \<and> distinct (map fst kops) \<and> (\<forall>(k, op)\<in>set kops. small k)"
    using assms by (auto simp: writes_wf_def)
qed

lemma set_op_wf:
  assumes "writes_wf w" and "ks \<noteq> KSVersion" and "small k"
  shows "writes_wf (set_op w ks k op)"
  unfolding set_op_def
proof (rule writes_wf_update [OF assms(1,2)])
  show "distinct (map fst (AList.update k op (ops_at w ks)))"
    using ops_at_wf [OF assms(1), of ks] by (simp add: distinct_update)
  show "\<forall>(k, op)\<in>set (AList.update k op (ops_at w ks)). small k"
    using ops_at_wf [OF assms(1), of ks] assms(3) by (auto dest!: update_mem)
qed

lemma reserve_wf: "writes_wf w \<Longrightarrow> ks \<noteq> KSVersion \<Longrightarrow> reserveLocked opt w ks k = Inr w' \<Longrightarrow> writes_wf w'"
  by (auto simp: reserveLocked_def intro: writes_wf_update split: if_splits)

lemma sok_write:
  assumes "minv m" and "is_open m t" and "writes_wf w"
  shows "sok m (set_mtx m t ((mtx_of m t)\<lparr>tt_writes := w\<rparr>))"
  using sok_set [OF assms(1,2)] minv_open [OF assms(1,2)] assms(2,3) by (simp add: tx_ok_def)

lemma open_writes_wf: "minv m \<Longrightarrow> is_open m t \<Longrightarrow> writes_wf (tt_writes (mtx_of m t))"
  using minv_open by (auto simp: tx_ok_def)

lemma noteSpace_sok: "sok m m' \<Longrightarrow> ks \<noteq> KSVersion \<Longrightarrow> sok m (noteSpace m' ks)"
  by (auto simp: noteSpace_def step_ok_def mgr_inv_def txs_ok_def store_ok_def)

lemma tx_put_sok:
  assumes "minv m" and "small k"
  shows "sok m (fst (tx_put m now t ks k v u))"
proof (rule enter_cases [OF assms(1), of now t ks], goal_cases)
  case (1 m' err)
  then show ?case by (simp add: tx_put_def)
next
  case 2
  let ?m = "set_mtx m t ((mtx_of m t)\<lparr>tt_last := now\<rparr>)"
  have inv: "minv ?m" using sok_minv [OF 2(3)] .
  have op: "is_open ?m t" using 2(2) by simp
  have wf: "writes_wf (tt_writes (mtx_of m t))" using open_writes_wf [OF assms(1) 2(2)] .
  have "sok m (noteSpace (set_mtx ?m t ((mtx_of ?m t)\<lparr>tt_writes := set_op w ks k op1\<rparr>)) ks)"
    if "reserveLocked (mg_opt m) (tt_writes (mtx_of m t)) ks k = Inr w" for w op1
    using noteSpace_sok [OF sok_trans [OF 2(3) sok_write [OF inv op set_op_wf [OF reserve_wf [OF wf 2(4) that] 2(4) assms(2)]]] 2(4)] .
  then show ?case using 2 by (cases "reserveLocked (mg_opt m) (tt_writes (mtx_of m t)) ks k") (simp_all add: tx_put_def Let_def)
qed

lemma tx_Delete_sok:
  assumes "minv m" and "small k"
  shows "sok m (fst (tx_Delete m now t ks k))"
proof (rule enter_cases [OF assms(1), of now t ks], goal_cases)
  case (1 m' err)
  then show ?case by (simp add: tx_Delete_def)
next
  case 2
  let ?m = "set_mtx m t ((mtx_of m t)\<lparr>tt_last := now\<rparr>)"
  have inv: "minv ?m" using sok_minv [OF 2(3)] .
  have op: "is_open ?m t" using 2(2) by simp
  have wf: "writes_wf (tt_writes (mtx_of m t))" using open_writes_wf [OF assms(1) 2(2)] .
  have "sok m (set_mtx ?m t ((mtx_of ?m t)\<lparr>tt_writes := set_op w ks k op1\<rparr>))"
    if "reserveLocked (mg_opt m) (tt_writes (mtx_of m t)) ks k = Inr w" for w op1
    using sok_trans [OF 2(3) sok_write [OF inv op set_op_wf [OF reserve_wf [OF wf 2(4) that] 2(4) assms(2)]]] .
  then show ?case using 2 by (cases "reserveLocked (mg_opt m) (tt_writes (mtx_of m t)) ks k") (simp_all add: tx_Delete_def Let_def)
qed

lemma tx_InsertUnique_sok:
  assumes "minv m" and "small k"
  shows "sok m (fst (tx_InsertUnique ops m now t ks k v))"
proof (rule enter_cases [OF assms(1), of now t ks], goal_cases)
  case (1 m' err)
  then show ?case by (simp add: tx_InsertUnique_def)
next
  case 2
  let ?m = "set_mtx m t ((mtx_of m t)\<lparr>tt_last := now\<rparr>)"
  have inv: "minv ?m" and op: "\<not> mg_closed ?m"
    using sok_minv [OF 2(3)] minv_open [OF assms(1) 2(2)] by auto
  obtain m' where r: "readAt ops ?m ks k (snap_of m t) = (m', case snap_read (committed (mg_eng ?m)) ks k (snap_of m t) of None \<Rightarrow> Inl ErrNotFound | Some p \<Rightarrow> Inr p)"
    "sok ?m m'" using readAt_read [OF inv op 2(4)] by blast
  have "sok m (fst (tx_put ?m now t ks k v True))" "sok m (fst (tx_put m' now t ks k v True))" "sok m m'"
    using sok_trans [OF 2(3)] tx_put_sok [OF inv assms(2)] tx_put_sok [OF sok_minv [OF r(2)] assms(2)] r(2) sok_trans by blast+
  then show ?case using 2 r by (auto simp: tx_InsertUnique_def Let_def split: option.split)
qed

lemma finish_sok: "minv m \<Longrightarrow> sok m (finish m t b)"
  using sok_finish [of m "(mtx_of m t)\<lparr>tt_done := True, tt_writes := [], tt_marks := []\<rparr>" t]
  by (simp add: finish_def Let_def)

text \<open>The state a successful commit leaves, before the hook that runs after it.\<close>

definition committed_state :: "'e manager \<Rightarrow> nat \<Rightarrow> 'e \<Rightarrow> int \<Rightarrow> 'e manager" where
  "committed_state m t e delta =
     (let m = m\<lparr>mg_eng := e, mg_commitTS := mg_commitTS m + 1, mg_liveKeys := mg_liveKeys m + delta,
                mg_commits := mg_commits m + 1, mg_open := removeAll t (mg_open m)\<rparr> in
      set_mtx m t ((mtx_of m t)\<lparr>tt_done := True, tt_writes := [], tt_marks := [], tt_commitTS := mg_commitTS m\<rparr>))"

lemma committed_state_sok:
  assumes "minv m" and "is_open m t" and "mg_commitTS m < mg_commitTS m + 1" and "inv e" and "usable e"
    and "writes_wf w" and "committed e = published (mg_commitTS m + 1) n (committed (mg_eng m)) w"
  shows "sok m (committed_state m t e delta)"
proof -
  let ?T = "mg_commitTS m" and ?V = "committed (mg_eng m)" and ?m = "committed_state m t e delta"
  have V: "mvcc_inv ?V ?T" using minv_open [OF assms(1,2)] by (simp add: store_ok_def)
  note pub = published_snap [OF V assms(3,6)]
  have mtx: "mtx_of ?m t' = (if t' = t then (mtx_of m t)\<lparr>tt_done := True, tt_writes := [], tt_marks := [], tt_commitTS := ?T + 1\<rparr>
      else mtx_of m t')" for t' by (simp add: committed_state_def Let_def)
  have f: "mg_eng ?m = e" "mg_commitTS ?m = ?T + 1" "mg_open ?m = removeAll t (mg_open m)" "mg_next ?m = mg_next m"
    "mg_closed ?m = mg_closed m" "mg_spaces ?m = mg_spaces m" by (simp_all add: committed_state_def Let_def)
  have "tx_ok (?T + 1) x" if "tx_ok ?T x" for x using that assms(3) by (auto simp: tx_ok_def intro: order_trans)
  then have "txs_ok ?m" using assms(1) by (auto simp: mgr_inv_def txs_ok_def mtx f distinct_removeAll split: if_splits)
  moreover have "store_ok inv usable committed ?m"
    using assms(4,5) pub(1) oracle_published by (simp add: store_ok_def f assms(7))
  moreover have "snap_read (committed e) ks k (snap_of m t') = snap_read ?V ks k (snap_of m t')"
    if "is_open m t'" "ks \<noteq> KSVersion" for ks k t'
  proof -
    have "snap_of m t' \<le> ?T" using minv_open [OF assms(1) that(1)] by (simp add: tx_ok_def)
    then have "\<not> ?T + 1 \<le> snap_of m t'" using assms(3) by auto
    then show ?thesis using pub(2) [OF that(2)] by (auto simp: assms(7) split: option.split)
  qed
  ultimately show ?thesis using assms(3) by (auto simp: step_ok_def mgr_inv_def mtx f split: if_splits)
qed

lemma commit_cases:
  fixes m :: "'e manager" and t :: nat and now :: int
  assumes "minv m" and "mg_commitTS m < mg_commitTS m + 1"
  defines "m1 \<equiv> set_mtx m t ((mtx_of m t)\<lparr>tt_last := now\<rparr>)" and "w \<equiv> tt_writes (mtx_of m t)"
  obtains (untouched) m' err where "tx_Commit ops m now t = (m', Inl err)" and "sok m m'" and "touch m now t = (m', Inl err)"
  | (nothing) "tx_Commit ops m now t = (finish m1 t False, Inr ())" and "is_open m t" and "sok m m1"
      and "tt_ro (mtx_of m t) \<or> \<not> hasWrites w"
  | (hook) err where "tx_Commit ops m now t = (m1, Inl err)" and "is_open m t" and "sok m m1"
      and "run_hook (BeforeCommit (mg_hooks m)) = Some err"
  | (refused) e' err where "tx_Commit ops m now t = (m1\<lparr>mg_eng := e'\<rparr>, Inl err)" and "is_open m t" and "sok m m1"
      and "same (mg_eng m) e'" and "validity (committed (mg_eng m)) (snap_of m t) w = Inl err"
  | (published) e' where "tx_Commit ops m now t = (committed_state m1 t e' (pub_deltas (mg_commitTS m + 1) (committed (mg_eng m)) (all_ops w)),
        case run_hook (AfterCommit (mg_hooks m)) of None \<Rightarrow> Inr () | Some err \<Rightarrow> Inl err)"
      and "is_open m t" and "sok m m1" and "inv e'" and "usable e'"
      and "committed e' = published (mg_commitTS m + 1) (mg_nextTxnID m) (committed (mg_eng m)) w"
      and "validity (committed (mg_eng m)) (snap_of m t) w = Inr ()" and "hasWrites w" and "\<not> tt_ro (mtx_of m t)"
proof (rule touch_cases [OF assms(1), of now t], goal_cases)
  case prems: (1 m' err)
  then show thesis using untouched [of m' err] by (simp add: tx_Commit_def)
next
  case prems: 2
  note t = prems(6-8) [folded m1_def]
  have x: "mtx_of m1 t = (mtx_of m t)\<lparr>tt_last := now\<rparr>" "mg_eng m1 = mg_eng m" "mg_hooks m1 = mg_hooks m"
    "mg_commitTS m1 = mg_commitTS m" "mg_nextTxnID m1 = mg_nextTxnID m" by (simp_all add: m1_def)
  have st: "inv (mg_eng m)" "usable (mg_eng m)" using minv_open [OF assms(1) t(2)] by (auto simp: store_ok_def)
  have wf: "writes_wf w" unfolding w_def by (rule open_writes_wf [OF assms(1) t(2)])
  show thesis
  proof (cases "tt_ro (mtx_of m t) \<or> \<not> hasWrites w")
    case True
    show thesis by (rule nothing) (use t True in \<open>simp_all add: tx_Commit_def x Let_def w_def\<close>)
  next
    case wr: False
    show thesis
    proof (cases "run_hook (BeforeCommit (mg_hooks m))")
      case (Some err)
      with hook [of err] t wr show thesis by (simp add: tx_Commit_def x Let_def w_def)
    next
      case None
      show thesis
      proof (cases "validity (committed (mg_eng m)) (snap_of m t) w")
        case (Inl err)
        obtain e' where "commitStore ops (mg_eng m) (snap_of m t) w (mg_commitTS m + 1) (mg_nextTxnID m) False = (e', Inl err)"
          "same (mg_eng m) e'" using commitStore_refused [OF st Inl] by blast
        with refused [of e' err] t wr None Inl show thesis by (simp add: tx_Commit_def x Let_def w_def on_eng_def)
      next
        case (Inr u)
        then have valid: "validity (committed (mg_eng m)) (snap_of m t) w = Inr ()" by simp
        obtain e' where e': "commitStore ops (mg_eng m) (snap_of m t) w (mg_commitTS m + 1) (mg_nextTxnID m) False
            = (e', Inr (pub_deltas (mg_commitTS m + 1) (committed (mg_eng m)) (all_ops w)))" "inv e'" "usable e'"
          "committed e' = published (mg_commitTS m + 1) (mg_nextTxnID m) (committed (mg_eng m)) w"
          using commitStore_ok [OF st wf valid] by blast
        with published [of e'] t wr None valid show thesis
          by (simp add: tx_Commit_def x Let_def w_def on_eng_def committed_state_def)
      qed
    qed
  qed
qed

lemma tx_Commit_sok:
  assumes "minv m" and "mg_commitTS m < mg_commitTS m + 1"
  shows "sok m (fst (tx_Commit ops m now t))"
proof (rule commit_cases [OF assms, of now t], goal_cases)
  case (2)
  then show ?case using sok_trans [OF 2(3) finish_sok [OF sok_minv [OF 2(3)]]] by simp
next
  case (4 e' err)
  then show ?case using sok_trans [OF 4(3) sok_eng [OF sok_minv [OF 4(3)]], of e'] by simp
next
  case (5 e')
  let ?m1 = "set_mtx m t ((mtx_of m t)\<lparr>tt_last := now\<rparr>)"
  have "sok ?m1 (committed_state ?m1 t e' (pub_deltas (mg_commitTS m + 1) (committed (mg_eng m)) (all_ops (tt_writes (mtx_of m t)))))"
    by (rule committed_state_sok [OF sok_minv [OF 5(3)] _ _ 5(4,5) open_writes_wf [OF assms(1) 5(2)]])
      (use 5 assms(2) in simp_all)
  then show ?case using 5 sok_trans [OF 5(3)] by simp
qed auto

lemma logAbort_sok: "sok m m' \<Longrightarrow> sok m (logAbort ops m' i)"
proof -
  assume s: "sok m m'"
  have "mg_closed m' \<or> same (mg_eng m') (ops_LogAbort ops (mg_eng m') i)"
    using sok_minv [OF s] log_abort_ok [of "mg_eng m'" i] by (auto simp: mgr_inv_def store_ok_def same_def)
  from sok_trans [OF s sok_eng [OF sok_minv [OF s] this]] show ?thesis by (simp add: logAbort_def)
qed

lemma tx_Rollback_sok: "minv m \<Longrightarrow> sok m (fst (tx_Rollback ops m t))"
  using sok_drop [of m "(mtx_of m t)\<lparr>tt_done := True, tt_writes := [], tt_marks := []\<rparr>" t True] sok_refl [of m]
  by (simp add: tx_Rollback_def Let_def logAbort_sok)

lemma tx_Mark_sok: "minv m \<Longrightarrow> sok m (fst (tx_Mark m now t))"
proof (rule touch_cases [of m now t], simp, goal_cases)
  case (1 m' err)
  then show ?case by (simp add: tx_Mark_def)
next
  case 2
  let ?m = "set_mtx m t ((mtx_of m t)\<lparr>tt_last := now\<rparr>)"
  have "sok ?m (set_mtx ?m t ((mtx_of ?m t)\<lparr>tt_marks := tt_marks (mtx_of ?m t) @ [tt_writes (mtx_of ?m t)]\<rparr>))"
    using minv_open [OF 2(1,3)] 2(3) by (intro sok_set [OF sok_minv [OF 2(4)]]) (auto simp: tx_ok_def)
  then show ?case using 2 sok_trans [OF 2(4)] by (simp add: tx_Mark_def Let_def)
qed

lemma tx_RollbackTo_sok: "minv m \<Longrightarrow> sok m (fst (tx_RollbackTo m now t n))"
proof (rule touch_cases [of m now t], simp, goal_cases)
  case (1 m' err)
  then show ?case by (simp add: tx_RollbackTo_def)
next
  case 2
  let ?m = "set_mtx m t ((mtx_of m t)\<lparr>tt_last := now\<rparr>)" and ?x = "mtx_of m t"
  have "sok ?m (set_mtx ?m t ((mtx_of ?m t)\<lparr>tt_writes := tt_marks ?x ! (nat n - 1), tt_marks := take (nat n - 1) (tt_marks ?x)\<rparr>))"
    if "1 \<le> n" "n \<le> int (length (tt_marks ?x))"
  proof -
    have "tt_marks ?x ! (nat n - 1) \<in> set (tt_marks ?x)" using that by (intro nth_mem) linarith
    then show ?thesis using minv_open [OF 2(1,3)] 2(3)
      by (intro sok_set [OF sok_minv [OF 2(4)]]) (auto simp: tx_ok_def dest: in_set_takeD)
  qed
  then show ?case using 2 sok_trans [OF 2(4)] by (auto simp: tx_RollbackTo_def Let_def)
qed

lemma tx_Cursor_sok: "minv m \<Longrightarrow> sok m (fst (tx_Cursor m now t ks))"
  by (rule enter_cases [of m now t ks]) (auto simp: tx_Cursor_def)

lemma materialize_entries:
  assumes "minv m" and "is_open m t" and "ks \<noteq> KSVersion"
  obtains e' xs where "tx_materialize ops m t ks = (m\<lparr>mg_eng := e'\<rparr>, Inr xs)" and "sok m (m\<lparr>mg_eng := e'\<rparr>)"
    and "entries (tx_sees (committed (mg_eng m)) (ops_at (tt_writes (mtx_of m t)) ks) (snap_of m t) ks) xs"
proof -
  have st: "inv (mg_eng m)" "usable (mg_eng m)" "mvcc_inv (committed (mg_eng m)) (mg_commitTS m)"
    using minv_open [OF assms(1,2)] by (auto simp: store_ok_def)
  have d: "distinct (map fst (ops_at (tt_writes (mtx_of m t)) ks))"
    using ops_at_wf [OF open_writes_wf [OF assms(1,2)]] by blast
  obtain e' xs where x: "matStore ops (mg_eng m) ks (snap_of m t) (ops_at (tt_writes (mtx_of m t)) ks) = (e', Inr xs)"
    "same (mg_eng m) e'" "entries (tx_sees (committed (mg_eng m)) (ops_at (tt_writes (mtx_of m t)) ks) (snap_of m t) ks) xs"
    using matStore_entries [OF st assms(3) d] by blast
  show thesis
    by (rule that [OF _ sok_eng [OF assms(1) disjI2 [OF x(2)]] x(3)])
      (use assms(2) in \<open>simp add: tx_materialize_def Let_def on_eng_def x(1)\<close>)
qed

lemma materialize_sok: "minv m \<Longrightarrow> ks \<noteq> KSVersion \<Longrightarrow> sok m (fst (tx_materialize ops m t ks))"
  by (cases "is_open m t") (auto elim: materialize_entries simp: tx_materialize_def sok_refl)

lemma seek_sok:
  assumes "minv m" and "xc_ks c \<noteq> KSVersion"
  shows "sok m (fst (xc_Seek ops m c tg))" and "sok m (fst (xc_SeekReverse ops m c tg))"
proof -
  obtain m' r where m: "tx_materialize ops m (xc_tx c) (xc_ks c) = (m', r)" by fastforce
  have "sok m m'" using materialize_sok [OF assms, of "xc_tx c"] by (simp add: m)
  then show "sok m (fst (xc_Seek ops m c tg))" "sok m (fst (xc_SeekReverse ops m c tg))"
    using sok_refl [OF assms(1)] by (cases r; auto simp: xc_Seek_def xc_SeekReverse_def m Let_def split: option.split)+
qed

subsection \<open>The manager\<close>

lemma mgr_Begin_sok: "minv m \<Longrightarrow> sok m (fst (mgr_Begin m now ro))"
  by (auto simp: mgr_Begin_def Let_def step_ok_def mgr_inv_def txs_ok_def store_ok_def tx_ok_def writes_wf_def)

lemma oldest_fold:
  fixes T :: "'w::linorder"
  shows "foldl (\<lambda>old t. if f t < old then f t else old) T ts \<le> T
    \<and> (\<forall>t\<in>set ts. foldl (\<lambda>old t. if f t < old then f t else old) T ts \<le> f t)"
proof (induction ts arbitrary: T)
  case (Cons t ts)
  let ?T = "if f t < T then f t else T"
  have "?T \<le> T" "?T \<le> f t" by auto
  with Cons.IH [of ?T] show ?case by (auto intro: order_trans)
qed simp

lemma oldest_le: "minv m \<Longrightarrow> is_open m t \<Longrightarrow> oldestSnapshot m \<le> snap_of m t"
  using oldest_fold [of "snap_of m" "mg_commitTS m" "mg_open m"] by (auto simp: oldestSnapshot_def mgr_inv_def txs_ok_def)

lemma vacuum_cases:
  assumes "minv m"
  obtains (stopped) m' err where "mgr_Vacuum ops m ctx = (m', Inl err)" and "sok m m'" and "mg_closed m \<or> (\<exists>i. ctx_Err ctx i = Some err)"
  | (vacuumed) m' n where "mgr_Vacuum ops m ctx = (m', Inr n)" and "sok m m'" and "\<not> mg_closed m"
    and "mg_commitTS m' = mg_commitTS m" and "mtx_of m' = mtx_of m"
    and "committed (mg_eng m') = vac_view (committed (mg_eng m)) (oldestSnapshot m) (set (mg_spaces m))"
proof (cases "ctx_Err ctx 0 \<noteq> None \<or> mg_closed m")
  case True
  show thesis
  proof (cases "ctx_Err ctx 0")
    case None
    then show thesis using stopped [of m ErrClosed] sok_refl [OF assms] True by (simp add: mgr_Vacuum_def)
  next
    case (Some err)
    then show thesis using stopped [of m err] sok_refl [OF assms] by (auto simp: mgr_Vacuum_def)
  qed
next
  case False
  then have c: "ctx_Err ctx 0 = None" and op: "\<not> mg_closed m" by auto
  let ?old = "oldestSnapshot m" and ?sp = "set (mg_spaces m)" and ?V = "committed (mg_eng m)"
  have st: "inv (mg_eng m)" "usable (mg_eng m)" "mvcc_inv ?V (mg_commitTS m)" and sp: "KSVersion \<notin> ?sp"
    and orc: "oracle_ok ?V (mg_commitTS m)"
    using assms op by (auto simp: mgr_inv_def store_ok_def txs_ok_def)
  from st(3) have ck: "chain_keys_ok ?V" by (simp add: mvcc_inv_def)
  show thesis
  proof (rule vacStore_ok [OF st(1,2) ck, of ctx ?old "mg_spaces m"], goal_cases)
    case (1 e' err i)
    then show thesis
      using stopped [of "m\<lparr>mg_eng := e'\<rparr>" err] sok_eng [OF assms, of e'] c op by (auto simp: mgr_Vacuum_def on_eng_def)
  next
    case (2 e' n)
    have "sok m (m\<lparr>mg_eng := e'\<rparr>)"
      using assms 2(2,3) mvcc_inv_vac [OF st(3) sp] snap_read_vac [OF st(3) _ sp oldest_le [OF assms]]
        oracle_vac [OF sp orc]
      by (auto simp: step_ok_def mgr_inv_def txs_ok_def store_ok_def 2(4))
    then have s: "sok m (m\<lparr>mg_eng := e'\<rparr>)" "sok m (m\<lparr>mg_eng := e', mg_reclaimed := r\<rparr>)" for r by simp_all
    show thesis
    proof (cases "n = 0")
      case True
      show thesis by (rule vacuumed [OF _ s(1) op]) (simp_all add: mgr_Vacuum_def on_eng_def 2(1,4) c op True)
    next
      case False
      show thesis by (rule vacuumed [OF _ s(2) op]) (simp_all add: mgr_Vacuum_def on_eng_def 2(1,4) c op False)
    qed
  qed
qed

lemma mgr_Vacuum_sok: "minv m \<Longrightarrow> sok m (fst (mgr_Vacuum ops m ctx))"
  by (rule vacuum_cases [of m ctx]) auto

lemma crash_fold:
  assumes "mg_closed m \<or> inv (mg_eng m)"
  shows "let m' = foldl (crash_tx ops) m ts in
    (\<forall>t. mtx_of m' t = (if t \<in> set ts then (mtx_of m t)\<lparr>tt_done := True, tt_writes := []\<rparr> else mtx_of m t))
    \<and> mg_open m' = mg_open m \<and> mg_next m' = mg_next m \<and> mg_commitTS m' = mg_commitTS m \<and> mg_closed m' = mg_closed m
    \<and> mg_spaces m' = mg_spaces m \<and> (mg_closed m \<or> same (mg_eng m) (mg_eng m'))"
  using assms
proof (induction ts arbitrary: m)
  case Nil
  then show ?case by (auto simp: same_def)
next
  case (Cons t ts)
  let ?m = "crash_tx ops m t"
  have f: "mtx_of ?m t' = (if t' = t then (mtx_of m t)\<lparr>tt_done := True, tt_writes := []\<rparr> else mtx_of m t')"
    "mg_open ?m = mg_open m" "mg_next ?m = mg_next m" "mg_commitTS ?m = mg_commitTS m" "mg_closed ?m = mg_closed m"
    "mg_spaces ?m = mg_spaces m" for t' by (simp_all add: crash_tx_def Let_def logAbort_def)
  have "mg_closed m \<or> same (mg_eng m) (mg_eng ?m)"
    using Cons.prems log_abort_ok [of "mg_eng m" "tt_id (mtx_of m t)"] by (auto simp: crash_tx_def Let_def logAbort_def same_def)
  with Cons.IH [of ?m] Cons.prems show ?case by (auto simp: f Let_def same_def)
qed

lemma mgr_Crash_sok: "minv m \<Longrightarrow> sok m (fst (mgr_Crash ops m))"
proof -
  assume inv: "minv m"
  show ?thesis
  proof (cases "mg_closed m")
    case True
    then show ?thesis using sok_refl [OF inv] by (simp add: mgr_Crash_def)
  next
    case False
    let ?m = "m\<lparr>mg_open := [], mg_rollbacks := mg_rollbacks m + word_of_nat (length (mg_open m))\<rparr>"
    have "mg_closed ?m \<or> inv (mg_eng ?m)"
      using inv False by (simp add: mgr_inv_def store_ok_def)
    with crash_fold [of ?m "mg_open m"] inv False show ?thesis
      by (auto simp: mgr_Crash_def Let_def step_ok_def mgr_inv_def txs_ok_def store_ok_def same_def split: if_splits)
  qed
qed

lemma close_fold:
  "let m' = foldl (\<lambda>m t. set_mtx m t ((mtx_of m t)\<lparr>tt_done := True, tt_writes := []\<rparr>)) m ts in
    (\<forall>t. mtx_of m' t = (if t \<in> set ts then (mtx_of m t)\<lparr>tt_done := True, tt_writes := []\<rparr> else mtx_of m t))
    \<and> mg_open m' = mg_open m \<and> mg_next m' = mg_next m \<and> mg_commitTS m' = mg_commitTS m \<and> mg_closed m' = mg_closed m
    \<and> mg_spaces m' = mg_spaces m"
  by (induction ts arbitrary: m) (auto simp: Let_def)

lemma mgr_Close_sok:
  assumes "minv m"
  shows "sok m (fst (mgr_Close ops m))"
proof (cases "mg_closed m")
  case True
  then show ?thesis using sok_refl [OF assms] by (simp add: mgr_Close_def)
next
  case False
  let ?m = "m\<lparr>mg_closed := True, mg_open := [], mg_gc := False\<rparr>"
  define m' where "m' = foldl (\<lambda>m t. set_mtx m t ((mtx_of m t)\<lparr>tt_done := True, tt_writes := []\<rparr>)) ?m (mg_open m)"
  note f = close_fold [of ?m "mg_open m", folded m'_def, simplified]
  have fin: "tt_done (mtx_of m' t)" for t
    using f assms by (auto simp: Let_def mgr_inv_def txs_ok_def)
  have c: "mg_closed m'" "mg_open m' = []" "mg_next m' = mg_next m" "mg_commitTS m' = mg_commitTS m" "mg_spaces m' = mg_spaces m"
    using f by (simp_all add: Let_def)
  have "KSVersion \<notin> set (mg_spaces m)" using assms by (simp add: mgr_inv_def txs_ok_def)
  with fin c have "sok m (m'\<lparr>mg_eng := e\<rparr>)" for e by (simp add: step_ok_def mgr_inv_def txs_ok_def)
  then show ?thesis using False by (simp add: mgr_Close_def on_eng_def Let_def m'_def)
qed

lemma HistoricVersions_sok: "minv m \<Longrightarrow> sok m (fst (HistoricVersions ops m))"
proof (cases "mg_closed m")
  case False
  assume inv: "minv m"
  with False have st: "inv (mg_eng m)" "usable (mg_eng m)" "chain_keys_ok (committed (mg_eng m))"
    by (auto simp: mgr_inv_def store_ok_def mvcc_inv_def)
  obtain e1 s where b: "ops_Begin ops (mg_eng m) True = (e1, Inr s)" "same (mg_eng m) e1" "inv e1" "live e1 s"
    "view e1 s = committed (mg_eng m)" using begin_readable [OF st(1,2)] by blast
  have ck: "chain_keys_ok (view e1 s)" using st(3) b(5) by simp
  obtain n :: nat where n: "eachChain ops e1 s (\<lambda>k h n. Inr (n + 1)) 0 = (e1, Inr n)"
    by (rule eachChain_fold [OF b(3,4) ck, where g = "\<lambda>k d n. n + 1" and acc = "0 :: nat"]) blast
  obtain e2 where r: "ops_Rollback ops e1 s = (e2, Inr ())" "same (mg_eng m) e2" using rollback_reader [OF b(2,4)] by blast
  have "sok m (m\<lparr>mg_eng := e2\<rparr>)" using sok_eng [OF inv] r(2) by blast
  then show ?thesis by (simp add: HistoricVersions_def on_eng_def b(1) n [simplified] r(1))
qed (simp add: HistoricVersions_def on_eng_def sok_eng)

theorem mgr_do_sok:
  assumes "minv m" and "call_ok m c"
  shows "sok m (mgr_do ops c m)"
  using assms
  by (cases c)
    (simp_all add: mgr_Begin_sok tx_Get_sok tx_Put_def tx_DeferUnique_def tx_put_sok tx_InsertUnique_sok tx_Delete_sok
      tx_Commit_sok tx_Rollback_sok tx_Mark_sok tx_RollbackTo_sok tx_Cursor_sok seek_sok mgr_Vacuum_sok gcTick_def
      sok_refl mgr_Crash_sok mgr_Close_sok mgr_SetHooks_def HistoricVersions_sok)

theorem mgr_run_sok: "minv m \<Longrightarrow> calls_ok ops m cs \<Longrightarrow> sok m (mgr_run ops m cs)"
proof (induction cs arbitrary: m)
  case Nil
  then show ?case by (simp add: mgr_run_def sok_refl)
next
  case (Cons c cs)
  then have "sok m (mgr_do ops c m)" "sok (mgr_do ops c m) (mgr_run ops (mgr_do ops c m) cs)"
    using mgr_do_sok [of m c] sok_minv by (auto simp del: sok_counters)
  then show ?case using sok_trans by (auto simp: mgr_run_def)
qed

end

end
