(* ===== verification/TxnOpen.thy ===== *)
theory TxnOpen
  imports TxnManager
begin

text \<open>
  Opening a manager: \<open>migrate\<close> wraps a store written before versions existed, and a store with an
  oracle is taken as it is. Both end in a manager that satisfies the invariant, at a snapshot that
  reads what the store held.
\<close>

section \<open>Stores an engine can hold before Open\<close>

definition legacy_store :: "kvview \<Rightarrow> bool" where
  "legacy_store V \<longleftrightarrow> (\<forall>ks k v. V ks k = Some v \<longrightarrow> ks \<in> set userKeyspaces \<and> small k \<and> hd_legacy (decodeHead v))"

definition versioned_store :: "kvview \<Rightarrow> txOracle \<Rightarrow> bool" where
  "versioned_store V o1 \<longleftrightarrow> V KSVersion metaKey = Some (encodeOracle o1) \<and> mvcc_inv V (or_commitTS o1)"

definition wrap_view :: "kvview \<Rightarrow> (keyspace \<times> bytes \<times> bytes) list \<Rightarrow> kvview" where
  "wrap_view V ws = foldl (\<lambda>V (ks, k, p). upd_view V ks k (Some (encodeHead 1 0 p))) V ws"

lemma version_not_user [simp]: "KSVersion \<notin> set userKeyspaces"
  by (simp add: userKeyspaces_def keyspace_defs)

lemma legacy_payload: "hd_legacy (decodeHead v) \<Longrightarrow> hd_payload (decodeHead v) = v"
  by (auto simp: decodeHead_def split: if_splits)

lemma wrap_view_eq:
  "\<lbrakk>\<And>ks k p. (ks, k, p) \<in> set ws \<Longrightarrow> V ks k = Some p\<rbrakk> \<Longrightarrow> distinct (map (\<lambda>(ks, k, p). (ks, k)) ws)
    \<Longrightarrow> wrap_view V ws ks k = (if (ks, k) \<in> (\<lambda>(ks, k, p). (ks, k)) ` set ws then map_option (encodeHead 1 0) (V ks k) else V ks k)"
proof (induction ws arbitrary: V)
  case (Cons w ws)
  obtain ks0 k0 p0 where w: "w = (ks0, k0, p0)" by (metis prod_cases3)
  let ?V = "upd_view V ks0 k0 (Some (encodeHead 1 0 p0))"
  have new: "(ks0, k0) \<notin> (\<lambda>(ks, k, p). (ks, k)) ` set ws" using Cons.prems(2) by (auto simp: w)
  have "?V ks k = Some p" if "(ks, k, p) \<in> set ws" for ks k p
    using that Cons.prems(1) [of ks k p] new by (force simp: upd_view_apply)
  from Cons.IH [OF this] Cons.prems have IH: "wrap_view ?V ws ks k
      = (if (ks, k) \<in> (\<lambda>(ks, k, p). (ks, k)) ` set ws then map_option (encodeHead 1 0) (?V ks k) else ?V ks k)"
    by simp
  have V0: "V ks0 k0 = Some p0" using Cons.prems(1) by (simp add: w)
  have step: "wrap_view V (w # ws) = wrap_view ?V ws" by (simp add: wrap_view_def w)
  show ?case
  proof (cases "(ks, k) = (ks0, k0)")
    case True
    then show ?thesis unfolding step IH using new V0 by (simp add: upd_view_apply w)
  next
    case False
    then show ?thesis unfolding step IH by (auto simp: upd_view_apply w)
  qed
qed (simp add: wrap_view_def)

section \<open>Migration\<close>

definition migrated :: "kvview \<Rightarrow> txOracle \<Rightarrow> kvview" where
  "migrated V o1 = upd_view (\<lambda>ks k. map_option (encodeHead 1 0) (V ks k)) KSVersion metaKey (Some (encodeOracle o1))"

definition first_oracle :: "kvview \<Rightarrow> txOracle" where
  "first_oracle V = (if \<forall>ks k. V ks k = None then \<lparr>or_nextTxn = 1, or_commitTS = 0\<rparr> else \<lparr>or_nextTxn = 2, or_commitTS = 1\<rparr>)"

lemma migrated_head: "legacy_store V \<Longrightarrow> ks \<noteq> KSVersion \<Longrightarrow> head_at (migrated V o1) ks k
    = map_option (\<lambda>p. \<lparr>hd_create = 1, hd_delete = 0, hd_payload = p, hd_legacy = False\<rparr>) (V ks k)"
  by (cases "V ks k") (simp_all add: migrated_def head_at_def upd_view_apply decodeHead_encodeHead)

lemma legacy_version: "legacy_store V \<Longrightarrow> V KSVersion k = None"
  unfolding legacy_store_def by (metis not_None_eq version_not_user)

lemma migrated_ok:
  assumes "legacy_store V"
  shows "versioned_store (migrated V (first_oracle V)) (first_oracle V)"
    and "ks \<noteq> KSVersion \<Longrightarrow> snap_read (migrated V (first_oracle V)) ks k (or_commitTS (first_oracle V)) = V ks k"
proof -
  let ?V = "migrated V (first_oracle V)"
  have chain: "chain_at ?V ks k c = None" for ks k c
    using legacy_version [OF assms] by (simp add: chain_at_def migrated_def upd_view_apply)
  have some: "or_commitTS (first_oracle V) = 1" if "V ks k = Some p" for ks k p
    using that by (auto simp: first_oracle_def)
  have "key_inv ?V (or_commitTS (first_oracle V)) ks k" if "ks \<noteq> KSVersion" for ks k
    using migrated_head [OF assms that, of _ k] some [of ks k] assms
    by (cases "V ks k") (auto simp: key_inv_def chain legacy_store_def)
  moreover have "chain_keys_ok ?V"
    using legacy_version [OF assms] by (auto simp: chain_keys_ok_def migrated_def upd_view_apply split: if_splits)
  ultimately show "versioned_store ?V (first_oracle V)"
    by (simp add: versioned_store_def mvcc_inv_def) (simp add: migrated_def upd_view_apply)
  show "ks \<noteq> KSVersion \<Longrightarrow> snap_read ?V ks k (or_commitTS (first_oracle V)) = V ks k"
    using migrated_head [OF assms, of ks _ k] some [of ks k] by (cases "V ks k") (auto simp: snap_read_def Visible_iff)
qed

lemma migrate_fold:
  assumes "\<forall>x\<in>set xs. hd_legacy (decodeHead (snd x))"
  shows "fold_res (migrate_fn ks) xs (wrap, 0, saw) = Inr (wrap @ map (Pair ks) xs, 0, saw \<or> xs \<noteq> [])"
  using assms
  by (induction xs arbitrary: wrap saw) (auto simp: migrate_fn_def Let_def legacy_payload)

context kv_engine
begin

lemma migrate_scan_all:
  assumes "inv e" and "live e s" and "legacy_store (view e s)" and "distinct spaces"
  shows "\<exists>ws. migrate_scan ops e s spaces (wrap, 0, saw) = (e, Inr (wrap @ ws, 0, saw \<or> ws \<noteq> []))
    \<and> distinct (map (\<lambda>(ks, k, p). (ks, k)) ws) \<and> (\<forall>ks k p. (ks, k, p) \<in> set ws \<longleftrightarrow> ks \<in> set spaces \<and> view e s ks k = Some p)"
  using assms(4)
proof (induction spaces arbitrary: wrap saw)
  case (Cons ks spaces)
  obtain xs where xs: "entries (view e s ks) xs"
    "eachRaw ops e s ks (migrate_fn ks) (wrap, 0, saw) = (e, fold_res (migrate_fn ks) xs (wrap, 0, saw))"
    by (rule eachRaw_fold [OF assms(1,2)])
  note mem = entries_mem [OF xs(1)]
  let ?new = "map (Pair ks) xs"
  have leg: "\<forall>x\<in>set xs. hd_legacy (decodeHead (snd x))" using assms(3) mem by (auto simp: legacy_store_def)
  from Cons.IH [of "wrap @ ?new" "saw \<or> xs \<noteq> []"] Cons.prems obtain ws where
    ws: "migrate_scan ops e s spaces (wrap @ ?new, 0, saw \<or> xs \<noteq> []) = (e, Inr ((wrap @ ?new) @ ws, 0, (saw \<or> xs \<noteq> []) \<or> ws \<noteq> []))"
    "distinct (map (\<lambda>(ks, k, p). (ks, k)) ws)" "\<forall>ks k p. (ks, k, p) \<in> set ws \<longleftrightarrow> ks \<in> set spaces \<and> view e s ks k = Some p"
    by auto
  have d: "distinct (map fst xs)" using xs(1) by (auto simp: entries_def strict_sorted_iff)
  have "map (\<lambda>(ks, k, p). (ks, k)) ?new = map (Pair ks) (map fst xs)" by (simp split: prod.split)
  then have dn: "distinct (map (\<lambda>(ks, k, p). (ks, k)) ?new)" using d by (simp only: distinct_map) (auto simp: inj_on_def)
  have "distinct (map (\<lambda>(ks, k, p). (ks, k)) (?new @ ws))"
    using dn ws(2,3) Cons.prems by (auto simp: image_iff)
  moreover have "(ks', k, p) \<in> set (?new @ ws) \<longleftrightarrow> ks' \<in> set (ks # spaces) \<and> view e s ks' k = Some p" for ks' k p
    using ws(3) mem [of "(k, p)"] by (auto simp: image_iff mem)
  ultimately show ?case
    by (intro exI [of _ "?new @ ws"]) (simp add: xs(2) migrate_fold [OF leg] ws(1) disj_ac)
qed simp

lemma migrate_wrap_view:
  assumes "inv e" and "writable e s"
  shows "\<exists>e'. migrate_wrap ops e s ws = (e', Inr ()) \<and> writes_to e e' s (wrap_view (view e s) ws)"
  using assms
proof (induction ws arbitrary: e)
  case Nil
  then show ?case by (simp add: writes_to_refl wrap_view_def)
next
  case (Cons w ws)
  obtain ks k p where w: "w = (ks, k, p)" by (metis prod_cases3)
  obtain e1 where e1: "ops_Put ops e s ks k (encodeHead 1 0 p) = (e1, Inr ())"
    "writes_to e e1 s (upd_view (view e s) ks k (Some (encodeHead 1 0 p)))" using put_writes [OF Cons.prems] by blast
  then have "inv e1" "writable e1 s" "view e1 s = upd_view (view e s) ks k (Some (encodeHead 1 0 p))"
    by (auto simp: writes_to_def)
  with Cons.IH [of e1] obtain e2 where "migrate_wrap ops e1 s ws = (e2, Inr ())"
    "writes_to e1 e2 s (wrap_view (view e s) (w # ws))" by (auto simp: wrap_view_def w)
  with e1 writes_to_trans [OF e1(2)] show ?case by (auto simp: w)
qed

lemma readOracle_cases:
  assumes "inv e" and "usable e"
  obtains e' where "readOracle ops e = (e', case committed e KSVersion metaKey of None \<Rightarrow> Inr None
      | Some raw \<Rightarrow> bind_res (decodeOracle raw) (\<lambda>o1. Inr (Some o1)))" and "same e e'"
proof -
  obtain e1 s where b: "ops_Begin ops e True = (e1, Inr s)" "same e e1" "inv e1" "live e1 s" "view e1 s = committed e"
    using begin_readable [OF assms] by blast
  obtain e2 where r: "ops_Rollback ops e1 s = (e2, Inr ())" "same e e2" using rollback_reader [OF b(2,4)] by blast
  have "readOracle ops e = (e2, case committed e KSVersion metaKey of None \<Rightarrow> Inr None
      | Some raw \<Rightarrow> bind_res (decodeOracle raw) (\<lambda>o1. Inr (Some o1)))"
  proof (cases "committed e KSVersion metaKey")
    case None
    then show ?thesis by (simp add: readOracle_def b(1,5) get_ok [OF b(3,4)] r(1))
  next
    case (Some raw)
    then show ?thesis by (cases "decodeOracle raw") (simp_all add: readOracle_def b(1,5) get_ok [OF b(3,4)] r(1))
  qed
  with r(2) that show thesis by blast
qed

lemma same_trans: "same e e' \<Longrightarrow> same e' e'' \<Longrightarrow> same e e''"
  by (simp add: same_def)

lemma migrate_legacy:
  assumes "inv e" and "usable e" and "legacy_store (committed e)"
  obtains e' where "migrate ops e = (e', Inr ())" and "inv e'" and "usable e'"
    and "committed e' = migrated (committed e) (first_oracle (committed e))"
proof -
  let ?V = "committed e"
  obtain e0 where o1: "readOracle ops e = (e0, Inr None)" "same e e0"
    using readOracle_cases [OF assms(1,2)] legacy_version [OF assms(3)] by auto
  then have e0: "inv e0" "usable e0" "committed e0 = ?V" using assms(2) by (auto simp: same_def)
  obtain e1 s where b: "ops_Begin ops e0 False = (e1, Inr s)" "writes_to e1 e1 s ?V" "exclusive e1 s" "usable e1"
    using begin_writable [OF e0(1,2)] e0(3) by metis
  then have e1: "inv e1" "writable e1 s" "live e1 s" "view e1 s = ?V" using writable_live by (auto simp: writes_to_def)
  have d: "distinct userKeyspaces" by (simp add: userKeyspaces_def keyspace_defs)
  have leg: "legacy_store (view e1 s)" using assms(3) e1(4) by simp
  obtain ws where ws: "migrate_scan ops e1 s userKeyspaces ([], 0, False) = (e1, Inr (ws, 0, ws \<noteq> []))"
    "distinct (map (\<lambda>(ks, k, p). (ks, k)) ws)" "\<forall>ks k p. (ks, k, p) \<in> set ws \<longleftrightarrow> ks \<in> set userKeyspaces \<and> ?V ks k = Some p"
    using migrate_scan_all [OF e1(1,3) leg d, of "[]" False] e1(4) by auto
  obtain e2 where w: "migrate_wrap ops e1 s ws = (e2, Inr ())" "writes_to e1 e2 s (wrap_view ?V ws)"
    using migrate_wrap_view [OF e1(1,2), of ws] e1(4) by auto
  have wv: "wrap_view ?V ws = (\<lambda>ks k. map_option (encodeHead 1 0) (?V ks k))"
  proof (intro ext)
    fix ks k
    have "(ks, k) \<in> (\<lambda>(ks, k, p). (ks, k)) ` set ws \<longleftrightarrow> ?V ks k \<noteq> None"
      using ws(3) assms(3) by (force simp: image_iff legacy_store_def)
    then show "wrap_view ?V ws ks k = map_option (encodeHead 1 0) (?V ks k)"
      using wrap_view_eq [of ws ?V ks k] ws(2,3) by auto
  qed
  have orc: "(if ws \<noteq> [] then \<lparr>or_nextTxn = 1 + 1, or_commitTS = 1\<rparr> else \<lparr>or_nextTxn = 1, or_commitTS = 0\<rparr>) = first_oracle ?V"
  proof -
    have "ws = [] \<longleftrightarrow> (\<forall>ks k. ?V ks k = None)"
    proof
      assume "ws = []"
      then show "\<forall>ks k. ?V ks k = None" using ws(3) assms(3) by (auto simp: legacy_store_def) (metis not_None_eq)
    next
      assume "\<forall>ks k. ?V ks k = None"
      then show "ws = []" using ws(3) by (cases ws) (auto, metis list.set_intros(1) prod_cases3)
    qed
    then show ?thesis by (auto simp: first_oracle_def)
  qed
  have e2: "inv e2" "writable e2 s" "view e2 s = wrap_view ?V ws" using w(2) by (auto simp: writes_to_def)
  obtain e3 where p: "ops_Put ops e2 s KSVersion metaKey (encodeOracle (first_oracle ?V)) = (e3, Inr ())"
    "writes_to e2 e3 s (migrated ?V (first_oracle ?V))"
    using put_writes [OF e2(1,2), of KSVersion metaKey] unfolding migrated_def e2(3) wv by blast
  from writes_to_trans [OF w(2) p(2)] b(3,4) have e3: "inv e3" "usable e3" "writable e3 s" "exclusive e3 s"
    "view e3 s = migrated ?V (first_oracle ?V)" by (auto simp: writes_to_def)
  from commit_ok [OF e3(1-4)] obtain e4 where c: "ops_Commit ops e3 s = (e4, Inr ())" "inv e4" "usable e4"
    "committed e4 = migrated ?V (first_oracle ?V)" using e3(5) by auto
  have "migrate ops e = (e4, Inr ())"
  proof (cases "ws = []")
    case True
    then have "e2 = e1" using w(1) by simp
    with True p(1) orc show ?thesis by (simp add: migrate_def o1(1) b(1) ws(1) c(1) Let_def)
  next
    case False
    with orc show ?thesis by (simp add: migrate_def o1(1) b(1) ws(1) w(1) p(1) c(1) Let_def)
  qed
  with c(2-4) that show thesis by blast
qed

lemma countLive_total:
  assumes "inv e" and "usable e"
  obtains e' n where "countLive ops e spaces = (e', Inr n)" and "same e e'"
proof -
  obtain e1 s where b: "ops_Begin ops e True = (e1, Inr s)" "same e e1" "inv e1" "live e1 s" "view e1 s = committed e"
    using begin_readable [OF assms] by blast
  have "\<exists>n. countLive_loop ops e1 s spaces n0 = (e1, Inr n)" for n0
  proof (induction spaces arbitrary: n0)
    case (Cons ks spaces)
    obtain n1 where "eachHead ops e1 s ks (\<lambda>_ h n. Inr (if hd_delete h = 0 then n + 1 else n)) n0 = (e1, Inr n1)"
      by (rule eachHead_fold [OF b(3,4), where g = "\<lambda>_ h n. if hd_delete h = 0 then n + 1 else n" and ks = ks and acc = n0]) blast
    with Cons.IH [of n1] show ?case by auto
  qed simp
  then obtain n where n: "countLive_loop ops e1 s spaces 0 = (e1, Inr n)" by blast
  obtain e2 where r: "ops_Rollback ops e1 s = (e2, Inr ())" "same e e2" using rollback_reader [OF b(2,4)] by blast
  show thesis by (rule that [OF _ r(2)]) (simp add: countLive_def b(1) n r(1))
qed

text \<open>Opening a store with an oracle changes nothing in it.\<close>

lemma open_versioned:
  assumes "inv e" and "usable e" and "migrate ops e = (e1, Inr ())" and "inv e1" and "usable e1"
    and "versioned_store (committed e1) o1"
  obtains e2 m where "mgr_Open ops (Some e) opt = (Some e2, Inr m)" and "minv m" and "mg_commitTS m = or_commitTS o1"
    and "committed (mg_eng m) = committed e1" and "\<not> mg_closed m" and "mg_open m = []" and "mg_eng m = e2"
proof -
  have dec: "decodeOracle (encodeOracle o1) = Inr o1" by (simp add: decodeOracle_def encodeOracle_def codec_simps)
  have "loadOracle ops e1 = (fst (loadOracle ops e1), Inr o1) \<and> same e1 (fst (loadOracle ops e1))"
    by (rule readOracle_cases [OF assms(4,5)]) (use assms(6) dec in \<open>simp add: loadOracle_def versioned_store_def\<close>)
  then obtain e2 where l: "loadOracle ops e1 = (e2, Inr o1)" "same e1 e2" by (metis fst_conv)
  then have e2: "inv e2" "usable e2" using assms(5) by (auto simp: same_def)
  obtain e3 n where c: "countLive ops e2 userKeyspaces = (e3, Inr n)" "same e2 e3" using countLive_total [OF e2] by blast
  let ?m = "\<lparr>mg_eng = e3, mg_opt = normalize opt, mg_hooks = no_hooks,
     mg_nextTxnID = (if or_nextTxn o1 = 0 then 1 else or_nextTxn o1), mg_commitTS = or_commitTS o1, mg_liveKeys = int n,
     mg_open = [], mg_txs = Map.empty, mg_next = 0, mg_spaces = userKeyspaces, mg_commits = 0, mg_rollbacks = 0,
     mg_reclaimed = 0, mg_closed = False, mg_gc = False\<rparr>"
  have f: "mg_eng (startGC ?m) = e3" "mg_commitTS (startGC ?m) = or_commitTS o1" "mg_open (startGC ?m) = []"
    "mg_closed (startGC ?m) = False" "mg_spaces (startGC ?m) = userKeyspaces" "mg_txs (startGC ?m) = Map.empty"
    by (simp_all add: startGC_def)
  have s: "same e1 e3" using same_trans [OF l(2) c(2)] .
  have "oracle_ok (committed e1) (or_commitTS o1)" using assms(6) unfolding versioned_store_def oracle_ok_def
    by (metis txOracle.surjective old.unit.exhaust)
  then have "minv (startGC ?m)"
    using s assms(5,6) unfolding mgr_inv_def txs_ok_def store_ok_def f by (auto simp: mtx_of_def f same_def versioned_store_def)
  then show thesis
    using that [of e3 "startGC ?m"] s f by (simp add: mgr_Open_def assms(3) l(1) c(1) same_def)
qed

lemma migrate_versioned:
  assumes "inv e" and "usable e" and "versioned_store (committed e) o1"
  obtains e' where "migrate ops e = (e', Inr ())" and "same e e'"
proof -
  have dec: "decodeOracle (encodeOracle o1) = Inr o1" by (simp add: decodeOracle_def encodeOracle_def codec_simps)
  show thesis
    by (rule readOracle_cases [OF assms(1,2)]) (use that assms(3) dec in \<open>simp add: migrate_def versioned_store_def\<close>)
qed

end

end
