(* ===== verification/TxnProps.thy ===== *)
theory TxnProps
  imports TxnOpen
begin

text \<open>
  What the transaction manager promises its callers, over the memory engine: the properties are
  stated with the manager's own methods, and \<open>spec_commit\<close> is the abstract effect of a commit on the
  history of the database.
\<close>

section \<open>Reachable managers\<close>

inductive mgr_reachable :: "memEngine manager \<Rightarrow> bool" where
  opened: "\<lbrakk>mem_reachable e; mem_usable e; legacy_store (mem_committed e); mgr_Open mem_ops (Some e) opt = (e', Inr m)\<rbrakk>
    \<Longrightarrow> mgr_reachable m"
| called: "\<lbrakk>mgr_reachable m; call_ok m c\<rbrakk> \<Longrightarrow> mgr_reachable (mgr_do mem_ops c m)"

abbreviation mem_mgr_inv :: "memEngine manager \<Rightarrow> bool" where
  "mem_mgr_inv \<equiv> mgr_inv mem_inv mem_usable mem_committed"

lemma open_legacy:
  assumes "mem_inv e" and "mem_usable e" and "legacy_store (mem_committed e)"
  obtains e' m where "mgr_Open mem_ops (Some e) opt = (Some e', Inr m)" and "mem_mgr_inv m" and "\<not> mg_closed m"
    and "mg_commitTS m = or_commitTS (first_oracle (mem_committed e))"
    and "mem_committed (mg_eng m) = migrated (mem_committed e) (first_oracle (mem_committed e))"
proof -
  obtain e1 where e1: "migrate mem_ops e = (e1, Inr ())" "mem_inv e1" "mem_usable e1"
    "mem_committed e1 = migrated (mem_committed e) (first_oracle (mem_committed e))"
    using mem.migrate_legacy [OF assms] by blast
  have v: "versioned_store (mem_committed e1) (first_oracle (mem_committed e))"
    unfolding e1(4) by (rule migrated_ok(1) [OF assms(3)])
  show thesis
    by (rule mem.open_versioned [OF assms(1,2) e1(1-3) v, of opt]) (use that e1(4) in auto)
qed

lemma mgr_reachable_inv: "mgr_reachable m \<Longrightarrow> mem_mgr_inv m"
proof (induction rule: mgr_reachable.induct)
  case (opened e opt e' m)
  show ?case
    by (rule open_legacy [OF mem_reachable_inv [OF opened(1)] opened(2,3), of opt]) (use opened(4) in auto)
next
  case (called m c)
  then show ?case using mem.mgr_do_sok mem.sok_minv by blast
qed

lemma mgr_reachable_run: "mgr_reachable m \<Longrightarrow> calls_ok mem_ops m cs \<Longrightarrow> mgr_reachable (mgr_run mem_ops m cs)"
proof (induction cs arbitrary: m)
  case (Cons c cs)
  then have "mgr_reachable (mgr_do mem_ops c m)" by (auto intro: mgr_reachable.called)
  with Cons.IH Cons.prems show ?case by (simp add: mgr_run_def)
qed (simp add: mgr_run_def)

text \<open>A manager on a new memory engine, with the default limits.\<close>

definition no_options :: txOptions where
  "no_options = \<lparr>MaxOpenTxns = 0, MaxWriteSet = 0, IdleTimeout = 0, GCInterval = 0\<rparr>"

definition new_mgr :: "memEngine manager" where
  "new_mgr = (case mgr_Open mem_ops (Some mem_Open) no_options of (_, Inr m) \<Rightarrow> m)"

lemma mem_Open_legacy: "legacy_store (mem_committed mem_Open)" "mem_usable mem_Open"
  by (simp_all add: legacy_store_def mem_committed_def mem_Open_def snap_view_def mem_usable_def no_hooks_def run_hook_def)

lemma new_mgr_reachable: "mgr_reachable new_mgr"
proof (rule open_legacy [OF mem_inv_init mem_Open_legacy(2,1), of no_options])
  fix e' m assume "mgr_Open mem_ops (Some mem_Open) no_options = (Some e', Inr m)"
  then show ?thesis
    using mgr_reachable.opened [OF mem_reachable.intros(1) mem_Open_legacy(2,1)] by (simp add: new_mgr_def)
qed

text \<open>The equations that run the manager over the memory engine on concrete calls.\<close>

lemmas mem_eval = mem_ops_def mem_Begin_def mem_Open_def mem_Get_def mem_Put_def mem_Delete_def mem_Rollback_def mem_Commit_def
  mem_Cursor_def mc_Seek_def mc_Next_def mc_Key_def mc_Value_def mc_positioned_def mc_usable_def mc_load_def
  mem_materialize_def base_item_def tx_overlay_def extra_items_def mc_Close_def finishLocked_def set_tx_def tx_of_def
  tx_op_def tx_write_def apply_ops_def apply_op_def snapshot_ensure_def space_put_def space_del_def space_search_def mem_bound_def
  keyCount_def no_hooks_def run_hook_def sortSearch_def sortSearchLoop.simps

lemma decodeOracle_encodeOracle [codec_simps]: "decodeOracle (encodeOracle o1) = Inr o1"
  by (simp add: decodeOracle_def encodeOracle_def codec_simps)

lemmas open_eval = mgr_Open_def migrate_def readOracle_def loadOracle_def countLive_def no_options_def normalize_def
  userKeyspaces_def eachRaw_def eachHead_def codec_simps keyspace_defs startGC_def Let_def

lemma new_mgr_fields:
  "mg_commitTS new_mgr = 0" "mg_closed new_mgr = False" "mg_open new_mgr = []" "mg_next new_mgr = 0" "mg_txs new_mgr = Map.empty"
  "mg_hooks new_mgr = no_hooks" "mg_opt new_mgr = \<lparr>MaxOpenTxns = 1024, MaxWriteSet = 100000, IdleTimeout = 0, GCInterval = 0\<rparr>"
  "mg_nextTxnID new_mgr = 1" "mg_liveKeys new_mgr = 0" "mg_spaces new_mgr = userKeyspaces" "mg_gc new_mgr = False"
  "me_current (mg_eng new_mgr) = [(KSVersion, \<lparr>sp_keys = [metaKey],
     sp_vals = [(metaKey, encodeOracle \<lparr>or_nextTxn = 1, or_commitTS = 0\<rparr>)]\<rparr>)]"
  "me_hooks (mg_eng new_mgr) = no_hooks" "me_open (mg_eng new_mgr) = []" "me_next (mg_eng new_mgr) = 4"
  "me_closed (mg_eng new_mgr) = False"
  by (simp_all add: new_mgr_def open_eval mem_eval defaultMaxOpen_def defaultMaxWrite_def)

text \<open>One open transaction that has written one key.\<close>

definition one_put :: "memEngine manager" where
  "one_put = fst (tx_Put (fst (mgr_Begin new_mgr 1 False)) 1 0 KSNode [1] [2])"

lemmas tx_eval = mgr_Begin_def tx_Put_def tx_put_def tx_Delete_def enter_def checkKS_def touch_def reserveLocked_def ops_at_def
  writeCount_def set_op_def noteSpace_def keyspace_defs new_mgr_fields Let_def

lemma one_put_reachable: "mgr_reachable one_put"
proof -
  have "mgr_reachable (mgr_do mem_ops (CPut 1 0 KSNode [1] [2]) (mgr_do mem_ops (CBegin 1 False) new_mgr))"
    by (intro mgr_reachable.called new_mgr_reachable) simp_all
  then show ?thesis by (simp add: one_put_def)
qed

lemma one_put_tx: "mtx_of one_put 0 = \<lparr>tt_id = 1, tt_snapshot = 0, tt_commitTS = 0, tt_ro = False, tt_done = False,
    tt_writes = [(KSNode, [([1], \<lparr>to_val = [2], to_del = False, to_unique = False, to_shadowed = False\<rparr>)])],
    tt_marks = [], tt_last = 1, tt_started = 1\<rparr>"
  "mg_commitTS one_put = 0" "mg_hooks one_put = no_hooks" "mg_closed one_put = False" "mg_next one_put = 1"
  "mg_eng one_put = mg_eng new_mgr" "mg_opt one_put = mg_opt new_mgr" "mg_nextTxnID one_put = 2" "mg_open one_put = [0]"
  by (simp_all add: one_put_def tx_eval)

lemmas commit_eval = tx_Commit_def commitStore_def validate_def validate_op_def readHead_def publish_def publish_op_def
  on_eng_def hasWrites_def touch_def one_put_tx new_mgr_fields keyspace_defs Let_def

lemmas read_eval = readAt_def on_eng_def readVersion_def readHead_def resolve_def head_at_def

lemma one_put_commits: "snd (tx_Commit mem_ops one_put 1 0) = Inr ()"
  by (simp add: commit_eval mem_eval)

section \<open>Reading the history\<close>

text \<open>The value a read at timestamp \<open>s\<close> returns, if any.\<close>

definition hist_of :: "memEngine manager \<Rightarrow> uint64 \<Rightarrow> keyspace \<Rightarrow> bytes \<Rightarrow> bytes option" where
  "hist_of m s ks k = (case snd (readAt mem_ops m ks k s) of Inr v \<Rightarrow> Some v | Inl _ \<Rightarrow> None)"

lemma hist_snap:
  assumes "mem_mgr_inv m" and "\<not> mg_closed m" and "ks \<noteq> KSVersion"
  shows "hist_of m s ks k = snap_read (mem_committed (mg_eng m)) ks k s"
    and "snd (readAt mem_ops m ks k s) = (case hist_of m s ks k of None \<Rightarrow> Inl ErrNotFound | Some v \<Rightarrow> Inr v)"
  by (rule mem.readAt_read [OF assms, where k = k and s = s], simp add: hist_of_def split: option.split)+

lemma later_read:
  assumes "mvcc_inv V T" and "ks \<noteq> KSVersion" and "T \<le> s"
  shows "snap_read V ks k s = snap_read V ks k T"
proof (rule unchanged_read [OF assms(1,2) _ assms(3)])
  show "\<not> changed_since V T ks k"
    using mvcc_inv_head(2,3) [OF assms(1,2)] by (fastforce simp: changed_since_def)
qed

text \<open>The abstract effect of a commit after timestamp \<open>T\<close>: history up to \<open>T\<close> stays, later reads see the writes.\<close>

definition spec_commit :: "uint64 \<Rightarrow> txWrites \<Rightarrow> (uint64 \<Rightarrow> keyspace \<Rightarrow> bytes \<Rightarrow> bytes option)
    \<Rightarrow> uint64 \<Rightarrow> keyspace \<Rightarrow> bytes \<Rightarrow> bytes option" where
  "spec_commit T w H s ks k =
     (if s \<le> T then H s ks k
      else case written w ks k of Some op \<Rightarrow> op_value op | None \<Rightarrow> H T ks k)"

lemma commit_success:
  assumes "mgr_reachable m" and "mg_commitTS m < mg_commitTS m + 1" and "tx_Commit mem_ops m now t = (m', Inr ())"
    and "hasWrites (tt_writes (mtx_of m t))" and "\<not> tt_ro (mtx_of m t)"
  obtains e' where "is_open m t" and "mem_mgr_inv m'" and "mg_eng m' = e'" and "mg_commitTS m' = mg_commitTS m + 1"
    and "mem_committed e' = published (mg_commitTS m + 1) (mg_nextTxnID m) (mem_committed (mg_eng m)) (tt_writes (mtx_of m t))"
    and "validity (mem_committed (mg_eng m)) (snap_of m t) (tt_writes (mtx_of m t)) = Inr ()"
    and "tt_done (mtx_of m' t)" and "tt_commitTS (mtx_of m' t) = mg_commitTS m + 1" and "mg_closed m' = mg_closed m"
proof (rule mem.commit_cases [OF mgr_reachable_inv [OF assms(1)] assms(2), of now t], goal_cases)
  case (5 e')
  have "mem_mgr_inv m'"
    using mem.sok_minv [OF mem.tx_Commit_sok [OF mgr_reachable_inv [OF assms(1)] assms(2), of now t]] assms(3) by simp
  with 5(2-) that [of e'] assms(3) show thesis by (simp add: mem.committed_state_def Let_def)
qed (use assms in auto)

section \<open>Snapshot isolation\<close>

text \<open>
  C7. Every state the transaction manager reaches over the memory engine, by any sequence of calls
  on any transactions, satisfies its invariant: the open registry lists exactly the unfinished
  transactions, every snapshot is at most the commit timestamp, every key's versions form a
  well-ordered chain below its head, and the oracle record holds the commit timestamp.
\<close>

theorem txn_invariant:
  assumes "mgr_reachable m"
  shows "mgr_inv mem_inv mem_usable mem_committed m"
  using assms by (rule mgr_reachable_inv)

theorem txn_invariant_witness: "mgr_inv mem_inv mem_usable mem_committed (mgr_do mem_ops (CBegin 1 False) new_mgr)"
  by (rule txn_invariant) (intro mgr_reachable.called new_mgr_reachable, simp)

text \<open>
  C8. Repeatable reads: whatever calls are made in between (commits and deletes of other
  transactions, vacuum, crashes of others), a transaction that is still open reads from its snapshot
  exactly what it read before.
\<close>

theorem snapshot_stable:
  assumes "mgr_reachable m" and "calls_ok mem_ops m cs" and "t < mg_next m"
    and "\<not> tt_done (mtx_of (mgr_run mem_ops m cs) t)" and "ks \<noteq> KSVersion"
  shows "snd (readAt mem_ops (mgr_run mem_ops m cs) ks k (tt_snapshot (mtx_of (mgr_run mem_ops m cs) t)))
    = snd (readAt mem_ops m ks k (tt_snapshot (mtx_of m t)))"
proof -
  let ?m = "mgr_run mem_ops m cs"
  note inv = mgr_reachable_inv [OF assms(1)]
  have s: "step_ok mem_inv mem_usable mem_committed m ?m" using mem.mgr_run_sok [OF inv assms(2)] .
  then have inv': "mem_mgr_inv ?m" by (rule mem.sok_minv)
  from s assms(3,4) have o: "is_open m t" "snap_of ?m t = snap_of m t"
    "snap_read (mem_committed (mg_eng ?m)) ks k (snap_of m t) = snap_read (mem_committed (mg_eng m)) ks k (snap_of m t)"
    using assms(5) by (auto simp: step_ok_def)
  have c: "\<not> mg_closed m" "\<not> mg_closed ?m" using mem.minv_open [OF inv o(1)] mem.minv_open [OF inv' assms(4)] by auto
  show ?thesis
    unfolding o(2) hist_snap(2) [OF inv c(1) assms(5)] hist_snap(2) [OF inv' c(2) assms(5)]
      hist_snap(1) [OF inv c(1) assms(5)] hist_snap(1) [OF inv' c(2) assms(5)] o(3) ..
qed

theorem snapshot_stable_witness:
  "snd (readAt mem_ops (mgr_run mem_ops one_put [CBegin 2 False, CPut 2 1 KSNode [1] [7], CCommit 3 1, CGcTick]) KSNode [1]
      (tt_snapshot (mtx_of (mgr_run mem_ops one_put [CBegin 2 False, CPut 2 1 KSNode [1] [7], CCommit 3 1, CGcTick]) 0)))
    = snd (readAt mem_ops one_put KSNode [1] (tt_snapshot (mtx_of one_put 0)))"
  by (rule snapshot_stable [OF one_put_reachable])
    (simp_all add: mgr_run_def gcTick_def commit_eval tx_eval mem_eval one_put_def)

text \<open>
  C9. A successful commit refines the abstract one: it takes the next timestamp, every snapshot up
  to the old one reads exactly what it did, and every later read sees the whole write set over the
  latest state. The transaction is finished and knows its timestamp.
\<close>

theorem commit_refines_spec:
  assumes "mgr_reachable m" and "mg_commitTS m < mg_commitTS m + 1" and "tx_Commit mem_ops m now t = (m', Inr ())"
    and "hasWrites (tt_writes (mtx_of m t))" and "\<not> tt_ro (mtx_of m t)"
  shows "mg_commitTS m' = mg_commitTS m + 1
    \<and> (\<forall>s ks k. ks \<noteq> KSVersion \<longrightarrow>
         hist_of m' s ks k = spec_commit (mg_commitTS m) (tt_writes (mtx_of m t)) (hist_of m) s ks k)
    \<and> tt_done (mtx_of m' t) \<and> tt_commitTS (mtx_of m' t) = mg_commitTS m'"
proof -
  let ?T = "mg_commitTS m" and ?w = "tt_writes (mtx_of m t)" and ?V = "mem_committed (mg_eng m)"
  note inv = mgr_reachable_inv [OF assms(1)]
  obtain e' where c: "is_open m t" "mem_mgr_inv m'" "mg_eng m' = e'" "mg_commitTS m' = ?T + 1"
    "mem_committed e' = published (?T + 1) (mg_nextTxnID m) ?V ?w" "tt_done (mtx_of m' t)"
    "tt_commitTS (mtx_of m' t) = ?T + 1" "mg_closed m' = mg_closed m"
    by (rule commit_success [OF assms])
  have op: "\<not> mg_closed m" and V: "mvcc_inv ?V ?T" using mem.minv_open [OF inv c(1)] by (auto simp: store_ok_def)
  have wf: "writes_wf ?w" by (rule mem.open_writes_wf [OF inv c(1)])
  have "hist_of m' s ks k = spec_commit ?T ?w (hist_of m) s ks k" if ks: "ks \<noteq> KSVersion" for s ks k
  proof -
    have h: "hist_of m s ks k = snap_read ?V ks k s" for s using hist_snap(1) [OF inv op ks] .
    have h': "hist_of m' s ks k = snap_read (published (?T + 1) (mg_nextTxnID m) ?V ?w) ks k s"
      using hist_snap(1) [OF c(2) _ ks] op c(3,5,8) by simp
    have le: "?T + 1 \<le> s \<longleftrightarrow> \<not> s \<le> ?T" using assms(2) by (simp add: not_le word_le_nat_alt word_less_nat_alt unat_word_ariths) (unat_arith)
    show ?thesis
      unfolding h' spec_commit_def h published_snap(2) [OF V assms(2) wf ks] le
      using later_read [OF V ks, of s k] by (auto split: option.split)
  qed
  with c show ?thesis by simp
qed

theorem commit_refines_spec_witness:
  "hist_of (fst (tx_Commit mem_ops one_put 1 0)) 1 KSNode [1] = Some [2]
    \<and> mg_commitTS (fst (tx_Commit mem_ops one_put 1 0)) = 1"
proof -
  have "tx_Commit mem_ops one_put 1 0 = (fst (tx_Commit mem_ops one_put 1 0), Inr ())"
    by (metis one_put_commits prod.collapse)
  from commit_refines_spec [OF one_put_reachable _ this] show ?thesis
    by (simp add: one_put_tx hasWrites_def spec_commit_def written_def ops_at_def op_value_def keyspace_defs)
qed



text \<open>
  C11. A commit whose keys another transaction changed since the snapshot is refused with
  \<open>Conflict\<close>, or with \<open>ConstraintViolation\<close> when a unique key is concerned; the database reads
  as before at every timestamp and the transaction stays open with its write set.
\<close>

theorem conflict_refused:
  assumes "mgr_reachable m" and "mg_commitTS m < mg_commitTS m + 1" and "\<not> tt_done (mtx_of m t)"
    and "\<not> tt_ro (mtx_of m t)" and "IdleTimeout (mg_opt m) \<le> 0" and "run_hook (BeforeCommit (mg_hooks m)) = None"
    and "written (tt_writes (mtx_of m t)) ks k = Some op"
    and "hist_of m (mg_commitTS m) ks k \<noteq> hist_of m (tt_snapshot (mtx_of m t)) ks k"
  shows "\<exists>m' err. tx_Commit mem_ops m now t = (m', Inl err) \<and> (IsCode err Conflict \<or> IsCode err ConstraintViolation)
    \<and> \<not> tt_done (mtx_of m' t) \<and> tt_writes (mtx_of m' t) = tt_writes (mtx_of m t) \<and> mg_commitTS m' = mg_commitTS m
    \<and> (\<forall>s ks k. ks \<noteq> KSVersion \<longrightarrow> hist_of m' s ks k = hist_of m s ks k)"
proof -
  let ?T = "mg_commitTS m" and ?w = "tt_writes (mtx_of m t)" and ?V = "mem_committed (mg_eng m)" and ?s = "snap_of m t"
  note inv = mgr_reachable_inv [OF assms(1)]
  have op: "\<not> mg_closed m" and V: "mvcc_inv ?V ?T" and sT: "?s \<le> ?T"
    using mem.minv_open [OF inv assms(3)] by (auto simp: store_ok_def tx_ok_def)
  have wf: "writes_wf ?w" by (rule mem.open_writes_wf [OF inv assms(3)])
  have mem: "(ks, k, op) \<in> set (all_ops ?w)" using written_all_ops [OF wf] assms(7) by blast
  with all_ops_wf [OF wf] have ks: "ks \<noteq> KSVersion" "small k" by blast+
  have ch: "changed_since ?V ?s ks k"
    using unchanged_read [OF V ks(1) _ sT, of k] assms(8) unfolding hist_snap(1) [OF inv op ks(1)] by blast
  have hw: "hasWrites ?w"
    using mem unfolding hasWrites_def list_ex_iff set_all_ops by force
  show ?thesis
  proof (rule mem.commit_cases [OF inv assms(2), of now t], goal_cases)
    case (1 m' err)
    then show ?case using assms(3,5) by (simp add: touch_def Let_def)
  next
    case 2
    then show ?case using assms(4) hw by simp
  next
    case (3 err)
    then show ?case using assms(6) by simp
  next
    case (4 e' err)
    let ?m = "(set_mtx m t ((mtx_of m t)\<lparr>tt_last := now\<rparr>))\<lparr>mg_eng := e'\<rparr>"
    have "mem_mgr_inv ?m" using mem.sok_minv [OF mem.tx_Commit_sok [OF inv assms(2), of now t]] 4(1) by simp
    moreover have "mem_committed e' = ?V" using 4(4) by (simp add: mem.same_def)
    ultimately have "hist_of ?m s ks k = hist_of m s ks k" if "ks \<noteq> KSVersion" for s ks k
      using hist_snap(1) [OF _ _ that, of ?m] hist_snap(1) [OF inv op that] op by simp
    then show ?case using 4 assms(3) validity_cases(2) [OF 4(5)] by auto
  next
    case (5 e')
    then show ?case using ch mem unfolding validity_cases(1) by auto
  qed
qed

text \<open>Two transactions that write the same key, the second already committed.\<close>

definition lost_race :: "memEngine manager" where
  "lost_race = mgr_run mem_ops one_put [CBegin 2 False, CPut 2 1 KSNode [1] [7], CCommit 3 1]"

lemma lost_race_state:
  "mgr_reachable lost_race" "mtx_of lost_race 0 = mtx_of one_put 0" "mg_commitTS lost_race = 1"
  "mg_opt lost_race = mg_opt new_mgr" "mg_hooks lost_race = no_hooks"
proof -
  show "mgr_reachable lost_race"
    unfolding lost_race_def by (rule mgr_reachable_run [OF one_put_reachable]) (simp add: commit_eval tx_eval mem_eval one_put_def)
qed (simp_all add: lost_race_def mgr_run_def commit_eval tx_eval mem_eval one_put_def)

theorem conflict_refused_witness: "\<exists>m' err. tx_Commit mem_ops lost_race 4 0 = (m', Inl err) \<and> \<not> tt_done (mtx_of m' 0)"
proof -
  have "hist_of lost_race 1 KSNode [1] \<noteq> hist_of lost_race 0 KSNode [1]"
  proof -
    let ?m = "mgr_run mem_ops one_put [CBegin 2 False, CPut 2 1 KSNode [1] [7]]"
    have r: "mgr_reachable ?m" by (rule mgr_reachable_run [OF one_put_reachable]) (simp add: commit_eval tx_eval mem_eval one_put_def)
    have c: "tx_Commit mem_ops ?m 3 1 = (lost_race, Inr ())"
      by (rule prod_eqI) (simp_all add: lost_race_def mgr_run_def, simp add: commit_eval tx_eval mem_eval one_put_def)
    have "mtx_of ?m 1 = \<lparr>tt_id = 2, tt_snapshot = 0, tt_commitTS = 0, tt_ro = False, tt_done = False,
        tt_writes = [(KSNode, [([1], \<lparr>to_val = [7], to_del = False, to_unique = False, to_shadowed = False\<rparr>)])],
        tt_marks = [], tt_last = 2, tt_started = 2\<rparr>" "mg_commitTS ?m = 0"
      by (simp_all add: mgr_run_def tx_eval one_put_def)
    with commit_refines_spec [OF r _ c] have h: "hist_of lost_race s KSNode [1] = (if s \<le> 0 then hist_of ?m s KSNode [1] else Some [7])" for s
      by (simp add: hasWrites_def spec_commit_def written_def ops_at_def op_value_def keyspace_defs)
    have "hist_of ?m 0 KSNode [1] = None"
      by (simp add: hist_of_def read_eval mgr_run_def tx_eval mem_eval one_put_def)
    with h [of 0] h [of 1] show ?thesis by simp
  qed
  then show ?thesis
    using conflict_refused [OF lost_race_state(1), of 0 KSNode "[1]" _ 4] lost_race_state
    by (auto simp: one_put_tx new_mgr_fields no_hooks_def run_hook_def written_def ops_at_def)
qed

text \<open>
  C12. Vacuum with a context that is not cancelled always completes; it changes no timestamp and no
  transaction, every snapshot from the oldest open one on reads as before, and no version record
  whose end no open snapshot reaches is left in the chain.
\<close>

theorem vacuum_invisible:
  assumes "mgr_reachable m" and "\<not> mg_closed m"
  shows "\<exists>m' n. mgr_Vacuum mem_ops m None = (m', Inr n) \<and> mg_commitTS m' = mg_commitTS m \<and> mtx_of m' = mtx_of m
    \<and> (\<forall>s ks k. oldestSnapshot m \<le> s \<and> ks \<noteq> KSVersion \<longrightarrow> hist_of m' s ks k = hist_of m s ks k)
    \<and> (\<forall>ks k c d p. chain_at (mem_committed (mg_eng m')) ks k c = Some (d, p) \<longrightarrow> d = 0 \<or> oldestSnapshot m < d)"
proof -
  let ?V = "mem_committed (mg_eng m)" and ?old = "oldestSnapshot m"
  note inv = mgr_reachable_inv [OF assms(1)]
  have V: "mvcc_inv ?V (mg_commitTS m)" and sp: "KSVersion \<notin> set (mg_spaces m)"
    using inv assms(2) by (auto simp: mgr_inv_def store_ok_def txs_ok_def)
  show ?thesis
  proof (rule mem.vacuum_cases [OF inv, of None], goal_cases)
    case (1 m' err)
    then show ?case using assms(2) by (simp add: ctx_Err_def)
  next
    case (2 m' n)
    have inv': "mem_mgr_inv m'" and op': "\<not> mg_closed m'"
      using mem.sok_minv [OF 2(2)] 2(1,3) by (auto simp: mgr_Vacuum_def on_eng_def ctx_Err_def split: sum.splits if_splits prod.splits elim!: sbind.elims)
    have "hist_of m' s ks k = hist_of m s ks k" if "?old \<le> s" "ks \<noteq> KSVersion" for s ks k
      unfolding hist_snap(1) [OF inv' op' that(2)] hist_snap(1) [OF inv assms(2) that(2)] 2(6)
      by (rule snap_read_vac [OF V that(2) sp that(1)])
    moreover have "d = 0 \<or> ?old < d" if "chain_at (mem_committed (mg_eng m')) ks k c = Some (d, p)" for ks k c d p
      using that unfolding 2(6) chain_at_vac [OF sp] by (auto simp: dead_at_def split: option.splits if_splits)
    ultimately show ?case using 2(1,4,5) by blast
  qed
qed

theorem vacuum_invisible_witness: "\<exists>m' n. mgr_Vacuum mem_ops lost_race None = (m', Inr n) \<and> mg_commitTS m' = 1"
  using vacuum_invisible [OF lost_race_state(1)] lost_race_state(3)
  by (auto simp: lost_race_def mgr_run_def commit_eval tx_eval mem_eval one_put_def)

text \<open>
  C34. Opening a store written before versions existed succeeds and reads back every value: the
  manager starts at the snapshot of the wrapped store, which holds exactly the raw values.
\<close>

theorem open_migrates:
  assumes "mem_reachable e" and "mem_usable e" and "legacy_store (mem_committed e)"
  shows "\<exists>e' m. mgr_Open mem_ops (Some e) opt = (Some e', Inr m) \<and> mgr_reachable m
    \<and> (\<forall>ks k. ks \<noteq> KSVersion \<longrightarrow> hist_of m (mg_commitTS m) ks k = mem_committed e ks k)"
proof (rule open_legacy [OF mem_reachable_inv [OF assms(1)] assms(2,3), of opt], goal_cases)
  case (1 e' m)
  then show ?case
    using mgr_reachable.opened [OF assms 1(1)] hist_snap(1) [OF 1(2,3)] migrated_ok(2) [OF assms(3)] by auto
qed

text \<open>A store of one raw value.\<close>

definition raw_store :: memEngine where
  "raw_store = fst (mem_Commit (fst (mem_Put (fst (mem_Begin mem_Open False)) 0 KSNode [1] [2])) 0)"

theorem open_migrates_witness:
  "\<exists>e' m. mgr_Open mem_ops (Some raw_store) no_options = (Some e', Inr m) \<and> hist_of m (mg_commitTS m) KSNode [1] = Some [2]"
proof -
  have "mem_reachable raw_store" unfolding raw_store_def by (intro mem_reachable.intros)
  moreover have c: "mem_committed raw_store = (\<lambda>ks k. if ks = KSNode \<and> k = [1] then Some [2] else None)" "mem_usable raw_store"
    by (auto simp: raw_store_def mem_eval Let_def mem_committed_def snap_view_def space_map_def mem_usable_def fun_eq_iff)
  moreover have "legacy_store (mem_committed raw_store)"
    unfolding c by (auto simp: legacy_store_def userKeyspaces_def decodeHead_def headHeader_def)
  ultimately show ?thesis
    using open_migrates [of raw_store no_options] by (fastforce simp: c keyspace_defs)
qed

text \<open>
  C35. Durability: reopening the engine of any reachable manager gives a manager at the same commit
  timestamp that reads the same at every timestamp. Open transactions and their writes are gone.
\<close>

theorem reopen_keeps_history:
  assumes "mgr_reachable m" and "\<not> mg_closed m"
  shows "\<exists>e' m'. mgr_Open mem_ops (Some (mg_eng m)) opt = (Some e', Inr m') \<and> mg_commitTS m' = mg_commitTS m \<and> mg_open m' = []
    \<and> (\<forall>s ks k. ks \<noteq> KSVersion \<longrightarrow> hist_of m' s ks k = hist_of m s ks k)"
proof -
  note inv = mgr_reachable_inv [OF assms(1)]
  have st: "mem_inv (mg_eng m)" "mem_usable (mg_eng m)" and v: "mvcc_inv (mem_committed (mg_eng m)) (mg_commitTS m)"
    "oracle_ok (mem_committed (mg_eng m)) (mg_commitTS m)"
    using inv assms(2) by (auto simp: mgr_inv_def store_ok_def)
  then obtain n where vs: "versioned_store (mem_committed (mg_eng m)) \<lparr>or_nextTxn = n, or_commitTS = mg_commitTS m\<rparr>"
    by (auto simp: versioned_store_def oracle_ok_def)
  obtain e1 where mg: "migrate mem_ops (mg_eng m) = (e1, Inr ())" "mem.same (mg_eng m) e1"
    using mem.migrate_versioned [OF st vs] by blast
  have e1: "mem_inv e1" "mem_usable e1" "mem_committed e1 = mem_committed (mg_eng m)"
    using mg(2) st(2) by (auto simp: mem.same_def)
  obtain e2 m' where m': "mgr_Open mem_ops (Some (mg_eng m)) opt = (Some e2, Inr m')" "mem_mgr_inv m'"
    "mg_commitTS m' = mg_commitTS m" "mem_committed (mg_eng m') = mem_committed (mg_eng m)" "\<not> mg_closed m'" "mg_open m' = []"
    by (rule mem.open_versioned [OF st mg(1) e1(1,2), of "\<lparr>or_nextTxn = n, or_commitTS = mg_commitTS m\<rparr>" opt])
      (use vs e1(3) in auto)
  have "hist_of m' s ks k = hist_of m s ks k" if "ks \<noteq> KSVersion" for s ks k
    unfolding hist_snap(1) [OF m'(2,5) that] hist_snap(1) [OF inv assms(2) that] m'(4) ..
  with m' show ?thesis by blast
qed

theorem reopen_keeps_history_witness:
  "\<exists>e' m'. mgr_Open mem_ops (Some (mg_eng lost_race)) no_options = (Some e', Inr m') \<and> mg_commitTS m' = 1"
  using reopen_keeps_history [OF lost_race_state(1), of no_options] lost_race_state(3)
  by (auto simp: lost_race_def mgr_run_def commit_eval tx_eval mem_eval one_put_def)

section \<open>A transaction's own view\<close>

text \<open>Its writes over its snapshot.\<close>

definition sees :: "memEngine manager \<Rightarrow> nat \<Rightarrow> keyspace \<Rightarrow> bytes \<Rightarrow> bytes option" where
  "sees m t ks k = (case written (tt_writes (mtx_of m t)) ks k of
     Some op \<Rightarrow> op_value op | None \<Rightarrow> hist_of m (tt_snapshot (mtx_of m t)) ks k)"

text \<open>
  C36. \<open>Get\<close> returns what the transaction sees: its own buffered write if there is one, otherwise the
  value of its snapshot, and \<open>ErrNotFound\<close> for a key it deleted or that has no value.
\<close>

theorem tx_Get_sees:
  assumes "mgr_reachable m" and "\<not> tt_done (mtx_of m t)" and "IdleTimeout (mg_opt m) \<le> 0"
    and "ks \<noteq> KSVersion"
  shows "snd (tx_Get mem_ops m now t ks k) = (case sees m t ks k of None \<Rightarrow> Inl ErrNotFound | Some v \<Rightarrow> Inr v)"
proof -
  let ?m = "set_mtx m t ((mtx_of m t)\<lparr>tt_last := now\<rparr>)"
  note inv = mgr_reachable_inv [OF assms(1)]
  have op: "\<not> mg_closed m" using mem.minv_open [OF inv assms(2)] by blast
  have touch: "touch m now t = (?m, Inr ())" using assms(2,3) by (simp add: touch_def Let_def)
  have "mem_mgr_inv ?m" using mem.touch_sok [OF inv, of now t] mem.sok_minv unfolding touch by simp
  then have r: "snd (readAt mem_ops ?m ks k s) = (case hist_of m s ks k of None \<Rightarrow> Inl ErrNotFound | Some v \<Rightarrow> Inr v)" for s
    using hist_snap [of ?m ks] hist_snap(1) [OF inv op assms(4)] op assms(4) by simp
  show ?thesis
    using assms(2,4) by (simp add: tx_Get_def enter_def checkKS_def touch sees_def written_def op_value_def r Let_def split: option.split)
qed

theorem tx_Get_sees_witness: "snd (tx_Get mem_ops one_put 2 0 KSNode [1]) = Inr [2]"
  using tx_Get_sees [OF one_put_reachable, where t = 0 and ks = KSNode and k = "[1]" and now = 2]
  by (simp add: one_put_tx new_mgr_fields sees_def written_def ops_at_def op_value_def keyspace_defs)

lemma reserve_written: "reserveLocked opt w ks k = Inr w' \<Longrightarrow> written w' = written w"
  by (auto simp: reserveLocked_def written_def ops_at_def fun_eq_iff update_conv' split: if_splits option.splits)

lemma set_op_written: "written (set_op w ks k op) ks' k' = (if ks' = ks \<and> k' = k then Some op else written w ks' k')"
  by (auto simp: written_def set_op_def ops_at_def update_conv' split: option.splits)

text \<open>
  A successful \<open>Put\<close> or \<open>Delete\<close> changes what the transaction sees at that key and nowhere
  else, and changes nothing that any other transaction sees.
\<close>

theorem writes_are_private:
  assumes "tx_Put m now t ks k v = (m', Inr ()) \<and> x = Some v \<or> tx_Delete m now t ks k = (m', Inr ()) \<and> x = None"
  shows "sees m' t' ks' k' = (if t' = t \<and> ks' = ks \<and> k' = k then x else sees m t' ks' k')"
proof -
  let ?w = "tt_writes (mtx_of m t)"
  obtain w op where w: "reserveLocked (mg_opt m) ?w ks k = Inr w" "op_value op = x" and
    m': "mtx_of m' t' = (if t' = t then (mtx_of m t)\<lparr>tt_last := now, tt_writes := set_op w ks k op\<rparr> else mtx_of m t')"
      "mg_eng m' = mg_eng m" for t'
  proof (cases "reserveLocked (mg_opt m) ?w ks k")
    case (Inr w)
    show thesis
      by (rule that [OF Inr, of "if x = None then \<lparr>to_val = [], to_del = True, to_unique = False, to_shadowed = False\<rparr> else
            case map_of (ops_at w ks) k of None \<Rightarrow> \<lparr>to_val = v, to_del = False, to_unique = False, to_shadowed = False\<rparr>
            | Some prev \<Rightarrow> \<lparr>to_val = v, to_del = False, to_unique = to_unique prev, to_shadowed = to_shadowed prev \<or> to_del prev\<rparr>"])
        (use assms Inr in \<open>auto simp: tx_Put_def tx_put_def tx_Delete_def enter_def checkKS_def touch_def noteSpace_def op_value_def Let_def
          split: if_splits option.splits\<close>)
  qed (use assms in \<open>auto simp: tx_Put_def tx_put_def tx_Delete_def enter_def checkKS_def touch_def Let_def split: if_splits\<close>)
  have h: "hist_of m' s ks k = hist_of m s ks k" for s ks k by (simp add: hist_of_def readAt_def on_eng_def m'(2))
  show ?thesis
    using w by (auto simp: sees_def m'(1) h set_op_written reserve_written [OF w(1)] split: option.split)
qed

theorem writes_are_private_witness: "sees (fst (tx_Put one_put 2 0 KSNode [3] [4])) 0 KSNode [3] = Some [4]"
proof -
  have "tx_Put one_put 2 0 KSNode [3] [4] = (fst (tx_Put one_put 2 0 KSNode [3] [4]), Inr ())"
    by (rule prod_eqI) (simp_all add: tx_Put_def tx_put_def enter_def checkKS_def touch_def one_put_tx new_mgr_fields reserveLocked_def
        ops_at_def writeCount_def keyspace_defs Let_def)
  then show ?thesis using writes_are_private [of one_put 2 0 KSNode "[3]" "[4]" _ "Some [4]" 0 KSNode "[3]"] by simp
qed

lemma seek_least:
  fixes xs :: "(bytes \<times> bytes) list"
  assumes "sorted_wrt (<) (map fst xs)" and "i = sortSearch (length xs) (\<lambda>n. bytesCompare (map fst xs ! n) tg \<ge> 0)"
  shows "i < length xs \<longleftrightarrow> (\<exists>x\<in>set xs. tg \<le> fst x)"
    and "i < length xs \<Longrightarrow> tg \<le> fst (xs ! i) \<and> (\<forall>x\<in>set xs. tg \<le> fst x \<longrightarrow> fst (xs ! i) \<le> fst x)"
proof -
  let ?hi = "filter (\<lambda>x. tg \<le> fst x) xs"
  have d: "drop i xs = ?hi" using filter_ge_drop [OF assms(1), of tg] by (simp add: assms(2))
  have "i < length xs \<longleftrightarrow> ?hi \<noteq> []" unfolding d [symmetric] by (simp add: not_le)
  then show "i < length xs \<longleftrightarrow> (\<exists>x\<in>set xs. tg \<le> fst x)" by (auto simp: filter_empty_conv)
  assume i: "i < length xs"
  then have hi: "?hi = xs ! i # drop (Suc i) xs" unfolding d [symmetric] by (rule Cons_nth_drop_Suc [symmetric])
  have "sorted_wrt (<) (map fst ?hi)" using assms(1) by (simp add: sorted_wrt_map sorted_wrt_filter)
  then have le: "fst (xs ! i) \<le> fst x" if "x \<in> set ?hi" for x using that unfolding hi by (auto intro: less_imp_le)
  have "xs ! i \<in> set ?hi" unfolding hi by simp
  with le show "tg \<le> fst (xs ! i) \<and> (\<forall>x\<in>set xs. tg \<le> fst x \<longrightarrow> fst (xs ! i) \<le> fst x)" by auto
qed

text \<open>
  A cursor of an open transaction lands on the least key not below the target that the
  transaction sees, with the value it sees, and fails exactly when there is none.
\<close>

theorem tx_cursor_seek:
  assumes "mgr_reachable m" and "xc_usable m c" and "xc_ks c \<noteq> KSVersion"
  defines "S \<equiv> sees m (xc_tx c) (xc_ks c)"
  shows "case xc_Seek mem_ops m c (Some tg) of (m', c', ok) \<Rightarrow>
    (ok \<longleftrightarrow> (\<exists>k. S k \<noteq> None \<and> tg \<le> k))
    \<and> (ok \<longrightarrow> tg \<le> xc_Key m' c' \<and> S (xc_Key m' c') = Some (xc_Value m' c') \<and> (\<forall>k. S k \<noteq> None \<and> tg \<le> k \<longrightarrow> xc_Key m' c' \<le> k))"
proof -
  note inv = mgr_reachable_inv [OF assms(1)]
  have op: "is_open m (xc_tx c)" using assms(2) by (simp add: xc_usable_def split: if_splits)
  then have nc: "\<not> mg_closed m" using mem.minv_open [OF inv] by blast
  obtain e' xs where x: "tx_materialize mem_ops m (xc_tx c) (xc_ks c) = (m\<lparr>mg_eng := e'\<rparr>, Inr xs)"
    "entries (tx_sees (mem_committed (mg_eng m)) (ops_at (tt_writes (mtx_of m (xc_tx c))) (xc_ks c)) (snap_of m (xc_tx c)) (xc_ks c)) xs"
    using mem.materialize_entries [OF inv op assms(3)] by blast
  have "tx_sees (mem_committed (mg_eng m)) (ops_at (tt_writes (mtx_of m (xc_tx c))) (xc_ks c)) (snap_of m (xc_tx c)) (xc_ks c) = S"
    by (auto simp: S_def sees_def tx_sees_def written_def hist_snap(1) [OF inv nc assms(3)] fun_eq_iff split: option.split)
  with x(2) have xs: "entries S xs" by simp
  have srt: "sorted_wrt (<) (map fst xs)" using xs by (simp add: entries_def)
  define i where "i = sortSearch (length xs) (\<lambda>n. bytesCompare (map fst xs ! n) tg \<ge> 0)"
  note least = seek_least [OF srt i_def]
  have ex: "(\<exists>x\<in>set xs. tg \<le> fst x) \<longleftrightarrow> (\<exists>k. S k \<noteq> None \<and> tg \<le> k)"
    using entries_mem [OF xs] by force
  let ?c = "c\<lparr>xc_keys := map fst xs, xc_vals := map snd xs\<rparr>"
  have seek: "xc_Seek mem_ops m c (Some tg) = (if i \<ge> length xs then (m\<lparr>mg_eng := e'\<rparr>, ?c\<lparr>xc_idx := -1\<rparr>, False)
      else (m\<lparr>mg_eng := e'\<rparr>, ?c\<lparr>xc_idx := int i\<rparr>, True))"
    using assms(2) by (simp add: xc_Seek_def x(1) Let_def i_def)
  show ?thesis
  proof (cases "i < length xs")
    case True
    have us: "xc_usable (m\<lparr>mg_eng := e'\<rparr>) (?c\<lparr>xc_idx := int i\<rparr>)" using assms(2) by (simp add: xc_usable_def split: if_splits)
    then have kv: "xc_Key (m\<lparr>mg_eng := e'\<rparr>) (?c\<lparr>xc_idx := int i\<rparr>) = fst (xs ! i)"
      "xc_Value (m\<lparr>mg_eng := e'\<rparr>) (?c\<lparr>xc_idx := int i\<rparr>) = snd (xs ! i)"
      using True by (simp_all add: xc_Key_def xc_Value_def xc_positioned_def)
    have "S (fst (xs ! i)) = Some (snd (xs ! i))" using entries_mem [OF xs, of "xs ! i"] True by simp
    moreover have "fst (xs ! i) \<le> k" if "S k \<noteq> None" "tg \<le> k" for k
      using that least(2) [OF True] entries_mem [OF xs, of "(k, the (S k))"] by fastforce
    moreover have "\<exists>k. S k \<noteq> None \<and> tg \<le> k" using True unfolding least(1) ex .
    moreover have "tg \<le> fst (xs ! i)" using least(2) [OF True] by (rule conjunct1)
    moreover have "xc_Seek mem_ops m c (Some tg) = (m\<lparr>mg_eng := e'\<rparr>, ?c\<lparr>xc_idx := int i\<rparr>, True)" using seek True by simp
    ultimately show ?thesis by (simp add: kv)
  next
    case False
    moreover from this have "\<not> (\<exists>k. S k \<noteq> None \<and> tg \<le> k)" unfolding least(1) ex .
    ultimately show ?thesis unfolding seek by simp
  qed
qed

theorem tx_cursor_seek_witness:
  "snd (snd (xc_Seek mem_ops one_put \<lparr>xc_tx = 0, xc_ks = KSNode, xc_keys = [], xc_vals = [], xc_idx = -1, xc_closed = False,
     xc_err = None\<rparr> (Some [0]))) = True"
proof -
  let ?c = "\<lparr>xc_tx = 0, xc_ks = KSNode, xc_keys = [], xc_vals = [], xc_idx = -1, xc_closed = False, xc_err = None\<rparr>"
  have "xc_usable one_put ?c" "xc_ks ?c \<noteq> KSVersion" by (simp_all add: xc_usable_def one_put_tx keyspace_defs)
  from tx_cursor_seek [OF one_put_reachable this, of "[0]"] have
    "snd (snd (xc_Seek mem_ops one_put ?c (Some [0]))) \<longleftrightarrow> (\<exists>k. sees one_put 0 KSNode k \<noteq> None \<and> [0] \<le> k)"
    by (auto split: prod.splits)
  moreover have "sees one_put 0 KSNode [1] = Some [2]"
    by (simp add: sees_def one_put_tx written_def ops_at_def op_value_def)
  moreover have "[0] \<le> ([1] :: bytes)" by simp
  ultimately show ?thesis by (metis option.distinct(1))
qed

section \<open>Refusals and savepoints\<close>



fun tx_run :: "'e manager \<Rightarrow> int \<Rightarrow> nat \<Rightarrow> (keyspace \<times> bytes \<times> bytes option) list \<Rightarrow> 'e manager" where
  "tx_run m now t [] = m"
| "tx_run m now t ((ks, k, None) # ws) = tx_run (fst (tx_Delete m now t ks k)) now t ws"
| "tx_run m now t ((ks, k, Some v) # ws) = tx_run (fst (tx_Put m now t ks k v)) now t ws"

lemma sbind_fst_cases: "fst (sbind r f) = (case r of (e, Inl x) \<Rightarrow> e | (e, Inr x) \<Rightarrow> fst (f e x))"
  by (cases "(r, f)" rule: sbind.cases) auto

lemma tx_write_keeps:
  assumes "\<not> tt_done (mtx_of m t)" and "IdleTimeout (mg_opt m) \<le> 0"
    and "m' = fst (tx_Delete m now t ks k) \<or> m' = fst (tx_Put m now t ks k v)"
  shows "\<not> tt_done (mtx_of m' t)" and "mg_opt m' = mg_opt m" and "tt_marks (mtx_of m' t) = tt_marks (mtx_of m t)"
  using assms
  by (auto simp: tx_Delete_def tx_Put_def tx_put_def enter_def checkKS_def touch_def noteSpace_def sbind_fst_cases Let_def
      split: if_splits sum.splits option.splits)

lemma tx_run_fields:
  "\<not> tt_done (mtx_of m t) \<Longrightarrow> IdleTimeout (mg_opt m) \<le> 0 \<Longrightarrow> \<not> tt_done (mtx_of (tx_run m now t ws) t)
    \<and> mg_opt (tx_run m now t ws) = mg_opt m \<and> tt_marks (mtx_of (tx_run m now t ws) t) = tt_marks (mtx_of m t)"
proof (induction m now t ws rule: tx_run.induct)
  case (2 m now t ks k ws)
  then show ?case using tx_write_keeps [of m t "fst (tx_Delete m now t ks k)" now ks k "[]"] by simp
next
  case (3 m now t ks k v ws)
  then show ?case using tx_write_keeps [of m t "fst (tx_Put m now t ks k v)" now ks k v] by simp
qed simp

text \<open>
  Savepoints: after \<open>Mark\<close>, any sequence of puts and deletes, then \<open>RollbackTo\<close> that mark, the
  transaction has exactly the write set and the savepoints it had before \<open>Mark\<close>.
\<close>

theorem tx_savepoint_restores:
  assumes "\<not> tt_done (mtx_of m t)" and "IdleTimeout (mg_opt m) \<le> 0"
  shows "\<exists>m1 m2. tx_Mark m now t = (m1, Inr (length (tt_marks (mtx_of m t)) + 1))
    \<and> tx_RollbackTo (tx_run m1 now t ws) now t (int (length (tt_marks (mtx_of m t)) + 1)) = (m2, Inr ())
    \<and> tt_writes (mtx_of m2 t) = tt_writes (mtx_of m t) \<and> tt_marks (mtx_of m2 t) = tt_marks (mtx_of m t)
    \<and> \<not> tt_done (mtx_of m2 t)"
proof -
  let ?x = "mtx_of m t"
  let ?m1 = "set_mtx (set_mtx m t (?x\<lparr>tt_last := now\<rparr>)) t (?x\<lparr>tt_last := now, tt_marks := tt_marks ?x @ [tt_writes ?x]\<rparr>)"
  have m1: "tx_Mark m now t = (?m1, Inr (length (tt_marks ?x) + 1))"
    using assms by (simp add: tx_Mark_def touch_def Let_def)
  have "\<not> tt_done (mtx_of ?m1 t)" "IdleTimeout (mg_opt ?m1) \<le> 0" using assms by simp_all
  from tx_run_fields [OF this, of now ws] have f: "\<not> tt_done (mtx_of (tx_run ?m1 now t ws) t)"
    "mg_opt (tx_run ?m1 now t ws) = mg_opt m" "tt_marks (mtx_of (tx_run ?m1 now t ws) t) = tt_marks ?x @ [tt_writes ?x]"
    by simp_all
  show ?thesis
    unfolding m1 using f assms(2) by (auto simp: tx_RollbackTo_def touch_def Let_def nth_append)
qed

theorem tx_savepoint_restores_witness:
  "\<exists>m1 m2. tx_Mark one_put 2 0 = (m1, Inr 1) \<and> tx_RollbackTo (tx_run m1 2 0 [(KSNode, [1], None)]) 2 0 1 = (m2, Inr ())"
  using tx_savepoint_restores [of one_put 0 2 "[(KSNode, [1], None)]"] by (auto simp: one_put_tx new_mgr_fields)

end
