(* ===== verification/WalFiles.thy ===== *)
theory WalFiles
  imports Storage "HOL-Library.Sublist"
begin

text \<open>
  The part of Go's \<^verbatim>\<open>os\<close> package and of the operating system that \<^verbatim>\<open>internal/wal\<close> uses: one
  directory of files, each with the bytes written so far and the bytes that the last \<^verbatim>\<open>Sync\<close> made
  durable. An open file is the index of its inode, so a file that was removed stays readable
  through a handle. Paths are names in the directory of the log.

  Every call may fail. \<open>fs_faults\<close> says which calls do: call number \<open>n\<close> fails when
  \<open>fs_faults fs n\<close> is \<open>Some k\<close>, and a write that fails has stored \<open>k\<close> bytes
  first, but not all of them. Theorems that
  hold for every \<open>fs_faults\<close> hold for every pattern of input and output errors. The archive hook
  of the log is the caller's code; its outcome is drawn from the same source.

  \<open>crashed fs fs'\<close> is what a crash may leave: the entries of the directory survive, and of a file
  the bytes that its contents and its durable contents agree on, followed by some of the rest of
  one of the two. A file that only grew since its last \<^verbatim>\<open>Sync\<close> keeps the durable bytes and a prefix
  of what was appended.
\<close>

section \<open>Files\<close>

record wfile =
  wf_data :: bytes
  wf_synced :: bytes

datatype dirent = DFile nat | DDir

record fsys =
  fs_inodes :: "wfile list"
  fs_dir :: "(gostring, dirent) gomap"
  fs_faults :: "nat \<Rightarrow> nat option"
  fs_calls :: nat
  fs_archived :: "uint64 list"

definition EIO :: sterr where "EIO = ErrText ''input/output error''"
definition EOF :: sterr where "EOF = ErrText ''EOF''"
definition ErrUnexpectedEOF :: sterr where "ErrUnexpectedEOF = ErrText ''unexpected EOF''"
definition ErrExist :: sterr where "ErrExist = ErrText ''file already exists''"
definition ErrNotExist :: sterr where "ErrNotExist = ErrText ''file does not exist''"

definition no_faults :: "nat \<Rightarrow> nat option" where "no_faults n = None"

definition os_call :: "fsys \<Rightarrow> fsys \<times> nat option" where
  "os_call fs = (fs\<lparr>fs_calls := Suc (fs_calls fs)\<rparr>, fs_faults fs (fs_calls fs))"

text \<open>A call that fails without any effect, or does \<open>act\<close>.\<close>

definition os_try :: "fsys \<Rightarrow> (fsys \<Rightarrow> fsys \<times> 'a sresult) \<Rightarrow> fsys \<times> 'a sresult" where
  "os_try fs act = (case os_call fs of (fs, Some _) \<Rightarrow> (fs, Inl EIO) | (fs, None) \<Rightarrow> act fs)"

definition fdata :: "fsys \<Rightarrow> nat \<Rightarrow> bytes" where
  "fdata fs i = (if i < length (fs_inodes fs) then wf_data (fs_inodes fs ! i) else [])"

definition fsynced :: "fsys \<Rightarrow> nat \<Rightarrow> bytes" where
  "fsynced fs i = (if i < length (fs_inodes fs) then wf_synced (fs_inodes fs ! i) else [])"

definition set_data :: "fsys \<Rightarrow> nat \<Rightarrow> bytes \<Rightarrow> fsys" where
  "set_data fs i d = fs\<lparr>fs_inodes := (fs_inodes fs)[i := \<lparr>wf_data = d, wf_synced = fsynced fs i\<rparr>]\<rparr>"

definition os_MkdirAll :: "fsys \<Rightarrow> fsys \<times> unit sresult" where
  "os_MkdirAll fs = os_try fs (\<lambda>fs. (fs, Inr ()))"

text \<open>The names in the directory, in order, each with the flag \<^verbatim>\<open>IsDir\<close>.\<close>

definition os_ReadDir :: "fsys \<Rightarrow> fsys \<times> (gostring \<times> bool) list sresult" where
  "os_ReadDir fs = os_try fs (\<lambda>fs. (fs, Inr (map (\<lambda>(n, e). (n, e = DDir)) (sort_key fst (fs_dir fs)))))"

definition os_Create :: "fsys \<Rightarrow> gostring \<Rightarrow> fsys \<times> nat sresult" where
  "os_Create fs name = os_try fs (\<lambda>fs.
     if map_of (fs_dir fs) name \<noteq> None then (fs, Inl ErrExist)
     else (fs\<lparr>fs_inodes := fs_inodes fs @ [\<lparr>wf_data = [], wf_synced = []\<rparr>],
              fs_dir := AList.update name (DFile (length (fs_inodes fs))) (fs_dir fs)\<rparr>,
           Inr (length (fs_inodes fs))))"

definition os_Open :: "fsys \<Rightarrow> gostring \<Rightarrow> fsys \<times> nat sresult" where
  "os_Open fs name = os_try fs (\<lambda>fs.
     case map_of (fs_dir fs) name of Some (DFile i) \<Rightarrow> (fs, Inr i) | _ \<Rightarrow> (fs, Inl ErrNotExist))"

definition os_Size :: "fsys \<Rightarrow> nat \<Rightarrow> fsys \<times> nat sresult" where
  "os_Size fs i = os_try fs (\<lambda>fs. (fs, Inr (length (fdata fs i))))"

definition os_Seek :: "fsys \<Rightarrow> fsys \<times> unit sresult" where
  "os_Seek fs = os_try fs (\<lambda>fs. (fs, Inr ()))"

text \<open>A write at the end of the file: the number of bytes stored, and the error of a short write.\<close>

definition os_Write :: "fsys \<Rightarrow> nat \<Rightarrow> bytes \<Rightarrow> fsys \<times> nat \<times> sterr option" where
  "os_Write fs i p = (case os_call fs of
     (fs, Some k) \<Rightarrow>
       let q = take (min k (length p - 1)) p in (set_data fs i (fdata fs i @ q), length q, Some EIO)
   | (fs, None) \<Rightarrow> (set_data fs i (fdata fs i @ p), length p, None))"

text \<open>\<^verbatim>\<open>ReadAt\<close> of \<open>n > 0\<close> bytes: fewer bytes come with an error, at the end of the file with \<^verbatim>\<open>io.EOF\<close>.\<close>

definition os_ReadAt :: "fsys \<Rightarrow> nat \<Rightarrow> nat \<Rightarrow> nat \<Rightarrow> fsys \<times> bytes \<times> sterr option" where
  "os_ReadAt fs i n off = (case os_call fs of
     (fs, Some k) \<Rightarrow> (fs, take (min k (n - 1)) (drop off (fdata fs i)), Some EIO)
   | (fs, None) \<Rightarrow>
       let b = take n (drop off (fdata fs i)) in (fs, b, if length b < n then Some EOF else None))"

definition os_Sync :: "fsys \<Rightarrow> nat \<Rightarrow> fsys \<times> unit sresult" where
  "os_Sync fs i = os_try fs (\<lambda>fs.
     (fs\<lparr>fs_inodes := (fs_inodes fs)[i := \<lparr>wf_data = fdata fs i, wf_synced = fdata fs i\<rparr>]\<rparr>, Inr ()))"

definition os_Truncate :: "fsys \<Rightarrow> nat \<Rightarrow> nat \<Rightarrow> fsys \<times> unit sresult" where
  "os_Truncate fs i n = os_try fs (\<lambda>fs. (set_data fs i (take n (fdata fs i)), Inr ()))"

definition os_Close :: "fsys \<Rightarrow> fsys \<times> unit sresult" where
  "os_Close fs = os_try fs (\<lambda>fs. (fs, Inr ()))"

definition os_Remove :: "fsys \<Rightarrow> gostring \<Rightarrow> fsys \<times> unit sresult" where
  "os_Remove fs name = os_try fs (\<lambda>fs.
     if map_of (fs_dir fs) name = None then (fs, Inl ErrNotExist)
     else (fs\<lparr>fs_dir := AList.delete name (fs_dir fs)\<rparr>, Inr ()))"

text \<open>Opening, syncing and closing the directory itself.\<close>

definition os_Dir :: "fsys \<Rightarrow> fsys \<times> unit sresult" where
  "os_Dir fs = os_try fs (\<lambda>fs. (fs, Inr ()))"

definition os_Archive :: "fsys \<Rightarrow> uint64 \<Rightarrow> fsys \<times> unit sresult" where
  "os_Archive fs num = os_try fs (\<lambda>fs. (fs\<lparr>fs_archived := fs_archived fs @ [num]\<rparr>, Inr ()))"

section \<open>Crashes\<close>

definition file_crash :: "wfile \<Rightarrow> bytes \<Rightarrow> bool" where
  "file_crash f c \<longleftrightarrow> (prefix c (wf_data f) \<or> prefix c (wf_synced f)) \<and>
     (\<forall>p. prefix p (wf_data f) \<and> prefix p (wf_synced f) \<longrightarrow> prefix p c)"

definition crashed :: "fsys \<Rightarrow> fsys \<Rightarrow> bool" where
  "crashed fs fs' \<longleftrightarrow> fs_dir fs' = fs_dir fs \<and>
     list_all2 (\<lambda>f f'. file_crash f (wf_data f') \<and> wf_synced f' = wf_data f') (fs_inodes fs) (fs_inodes fs')"

end
