(* ===== verification/WalRecord.thy ===== *)
theory WalRecord
  imports WalFiles
begin

text \<open>
  The frames of the write-ahead log, \<^verbatim>\<open>internal/wal/record.go\<close>: the record frame and the segment
  header, each with its CRC-32C, and the payloads of the record types. The checksum is the one of
  Go's \<^verbatim>\<open>hash/crc32\<close> for the Castagnoli polynomial, bit by bit instead of by table.
\<close>

section \<open>Checksum\<close>

definition crc_bit :: "uint32 \<Rightarrow> uint32" where
  "crc_bit c = (if c AND 1 = 1 then drop_bit 1 c XOR 0x82F63B78 else drop_bit 1 c)"

definition crc_byte :: "uint32 \<Rightarrow> byte \<Rightarrow> uint32" where
  "crc_byte c b = (crc_bit ^^ 8) (c XOR ucast b)"

definition crcChecksum :: "bytes \<Rightarrow> uint32" where
  "crcChecksum b = NOT (foldl crc_byte (NOT 0) b)"

section \<open>Records\<close>

type_synonym LSN = uint64
type_synonym rtype = uint16

definition Magic :: bytes where "Magic = [71, 82, 87, 76]"
definition FormatVersion :: uint16 where "FormatVersion = 1"
definition MaxPayload :: nat where "MaxPayload = 16777216"
definition DefaultSegmentSize :: int where "DefaultSegmentSize = 67108864"

definition TypePageWrite :: rtype where "TypePageWrite = 1"
definition TypeTreeInsert :: rtype where "TypeTreeInsert = 2"
definition TypeTreeDelete :: rtype where "TypeTreeDelete = 3"
definition TypeTxnBegin :: rtype where "TypeTxnBegin = 4"
definition TypeTxnCommit :: rtype where "TypeTxnCommit = 5"
definition TypeTxnAbort :: rtype where "TypeTxnAbort = 6"
definition TypeCheckpoint :: rtype where "TypeCheckpoint = 7"

definition headerSize :: nat where "headerSize = 28"
definition recordHeader :: nat where "recordHeader = 24"
definition crcSize :: nat where "crcSize = 4"

lemmas wal_sizes = headerSize_def recordHeader_def crcSize_def

record Record =
  r_LSN :: LSN
  r_TxnID :: uint64
  r_Type :: rtype
  r_Payload :: bytes

definition Record_Size :: "Record \<Rightarrow> nat" where
  "Record_Size r = recordHeader + length (r_Payload r) + crcSize"

definition validType :: "rtype \<Rightarrow> bool" where
  "validType t \<longleftrightarrow> t \<ge> TypePageWrite \<and> t \<le> TypeCheckpoint"

definition wal_appendRecord :: "bytes \<Rightarrow> LSN \<Rightarrow> uint64 \<Rightarrow> rtype \<Rightarrow> bytes \<Rightarrow> bytes" where
  "wal_appendRecord dst lsn txn typ payload =
     (let frame = le_put 8 (unat lsn) @ le_put 8 (unat txn) @ le_put 2 (unat typ) @ [0, 0]
            @ le_put 4 (length payload) @ payload in
      dst @ frame @ le_put 4 (unat (crcChecksum frame)))"

definition encodeHeader :: "uint64 \<Rightarrow> LSN \<Rightarrow> bytes" where
  "encodeHeader num first =
     (let b = Magic @ le_put 2 (unat FormatVersion) @ [0, 0] @ le_put 8 (unat num) @ le_put 8 (unat first) in
      b @ le_put 4 (unat (crcChecksum b)))"

text \<open>The little-endian number at an offset, as \<^verbatim>\<open>binary.LittleEndian.Uint\<close> reads a slice.\<close>

definition le_at :: "nat \<Rightarrow> nat \<Rightarrow> bytes \<Rightarrow> nat" where
  "le_at k off b = le_get (take k (drop off b))"

section \<open>Payloads\<close>

definition corruption :: "string \<Rightarrow> sterr" where
  "corruption msg = gerr_New Corruption msg"

definition EncodePageWrite :: "uint64 \<Rightarrow> bytes \<Rightarrow> bytes sresult" where
  "EncodePageWrite pageID img =
     (if length img = 0 then Inl (gerr_New InvalidArgument ''page image is empty'')
      else Inr (le_put 8 (unat pageID) @ img))"

definition DecodePageWrite :: "bytes \<Rightarrow> (uint64 \<times> bytes) sresult" where
  "DecodePageWrite payload =
     (if length payload < 8 then Inl (corruption ''page write payload is truncated'')
      else
        let pageID = word_of_nat (le_at 8 0 payload); img = drop 8 payload in
        if length img = 0 then Inl (corruption ''page write image is empty'') else Inr (pageID, img))"

definition EncodeTreeInsert :: "byte \<Rightarrow> bytes \<Rightarrow> bytes \<Rightarrow> bytes" where
  "EncodeTreeInsert ks key v = [ks] @ le_put 4 (length key) @ key @ le_put 4 (length v) @ v"

definition DecodeTreeInsert :: "bytes \<Rightarrow> (byte \<times> bytes \<times> bytes) sresult" where
  "DecodeTreeInsert payload =
     (if length payload < 1 + 4 then Inl (corruption ''tree insert payload is truncated'')
      else
        let ks = payload ! 0; keyLen = le_at 4 1 payload in
        if 5 + keyLen + 4 > length payload then Inl (corruption ''tree insert key is truncated'')
        else
          let key = take keyLen (drop 5 payload); off = 5 + keyLen; valLen = le_at 4 off payload; off = off + 4 in
          if off + valLen \<noteq> length payload then Inl (corruption ''tree insert value is truncated'')
          else Inr (ks, key, take valLen (drop off payload)))"

definition EncodeTreeDelete :: "byte \<Rightarrow> bytes \<Rightarrow> bytes" where
  "EncodeTreeDelete ks key = [ks] @ le_put 4 (length key) @ key"

definition DecodeTreeDelete :: "bytes \<Rightarrow> (byte \<times> bytes) sresult" where
  "DecodeTreeDelete payload =
     (if length payload < 5 then Inl (corruption ''tree delete payload is truncated'')
      else
        let ks = payload ! 0; keyLen = le_at 4 1 payload in
        if 5 + keyLen \<noteq> length payload then Inl (corruption ''tree delete key is truncated'')
        else Inr (ks, drop 5 payload))"

definition EncodeCheckpoint :: "int64 \<Rightarrow> bytes" where
  "EncodeCheckpoint unixNano = le_put 8 (unat unixNano)"

definition DecodeCheckpoint :: "bytes \<Rightarrow> int64 sresult" where
  "DecodeCheckpoint payload =
     (if length payload \<noteq> 8 then Inl (corruption ''checkpoint payload has the wrong length'')
      else Inr (word_of_nat (le_at 8 0 payload)))"

section \<open>Reading a file\<close>

text \<open>The bytes read, the rest of the buffer still zero, and the error.\<close>

function readFullAt_loop :: "fsys \<Rightarrow> nat \<Rightarrow> nat \<Rightarrow> nat \<Rightarrow> bytes \<Rightarrow> fsys \<times> bytes \<times> sterr option" where
  "readFullAt_loop fs i len off p =
     (if length p < len then
        (case os_ReadAt fs i (len - length p) (off + length p) of
           (fs, b, err) \<Rightarrow>
             let p = p @ b in
             if length p = len then (fs, p, None)
             else case err of
               Some e \<Rightarrow> (fs, p @ replicate (len - length p) 0, Some e)
             | None \<Rightarrow> if length b = 0 then (fs, p @ replicate (len - length p) 0, Some ErrUnexpectedEOF)
                       else readFullAt_loop fs i len off p)
      else (fs, p, None))"
  by pat_completeness auto

termination
  by (relation "measure (\<lambda>(fs, i, len, off, p). len - length p)") (auto intro!: diff_less_mono2)

declare readFullAt_loop.simps [simp del]

definition readFullAt :: "fsys \<Rightarrow> nat \<Rightarrow> nat \<Rightarrow> nat \<Rightarrow> fsys \<times> bytes \<times> sterr option" where
  "readFullAt fs i len off = readFullAt_loop fs i len off []"

end
