(* ===== verification/WalLog.thy ===== *)
theory WalLog
  imports WalRecord
begin

text \<open>
  The segmented write-ahead log, \<^verbatim>\<open>internal/wal/log.go\<close>: opening and repairing the segments of a
  directory, appending, group commit, rotation with the archive hook, truncation, and closing.

  The state of the log carries the file system it works on (\<open>l_fs\<close>). A \<open>Sync\<close> runs in two
  critical sections: \<open>Sync_enter\<close> decides between returning, queueing behind a flush and leading
  one, and \<open>flushLeader\<close> is the leader's second section after the pause; \<open>l_results\<close> holds what
  has been sent on the channels of the waiters. The test hooks \<^verbatim>\<open>delayFn\<close>, \<^verbatim>\<open>writeHook\<close> and
  \<^verbatim>\<open>syncHook\<close>, nil in production, are not part of the model; a failing write or sync is a fault
  of the file system. File sizes and offsets are natural numbers; LSNs wrap at 64 bits.
\<close>

section \<open>Segment names\<close>

fun decimal :: "nat \<Rightarrow> gostring" where
  "decimal n = (if n < 10 then [word_of_nat (48 + n)] else decimal (n div 10) @ [word_of_nat (48 + n mod 10)])"

declare decimal.simps [simp del]

definition dec_str :: "nat \<Rightarrow> string" where
  "dec_str n = map (\<lambda>b. char_of (unat b)) (decimal n)"

definition int_str :: "int \<Rightarrow> string" where
  "int_str n = (if n < 0 then ''-'' @ dec_str (nat (- n)) else dec_str (nat n))"

definition name_str :: "gostring \<Rightarrow> string" where
  "name_str s = map (\<lambda>b. char_of (unat b)) s"

definition wal_suffix :: gostring where "wal_suffix = [46, 119, 97, 108]"

definition segmentName :: "uint64 \<Rightarrow> gostring" where
  "segmentName n = (let d = decimal (unat n) in replicate (12 - length d) 48 @ d @ wal_suffix)"

text \<open>\<^verbatim>\<open>strconv.ParseUint\<close> of a string of decimal digits, none or too large being an error.\<close>

definition parseUint :: "gostring \<Rightarrow> uint64 option" where
  "parseUint s =
     (let n = foldl (\<lambda>n c. 10 * n + (unat c - 48)) 0 s in if s = [] \<or> n \<ge> 2 ^ 64 then None else Some (word_of_nat n))"

definition parseSegmentName :: "gostring \<Rightarrow> uint64 option" where
  "parseSegmentName name =
     (if length name \<noteq> 12 + length wal_suffix \<or> drop 12 name \<noteq> wal_suffix then None
      else if list_ex (\<lambda>c. c < 48 \<or> c > 57) (take 12 name) then None
      else case parseUint (take 12 name) of
        None \<Rightarrow> None
      | Some n \<Rightarrow> if n = 0 \<or> segmentName n \<noteq> name then None else Some n)"

fun list_ordered :: "uint64 list \<Rightarrow> bool" where
  "list_ordered (a # b # ns) \<longleftrightarrow> \<not> b < a \<and> list_ordered (b # ns)"
| "list_ordered _ \<longleftrightarrow> True"

fun list_skip :: "uint64 list \<Rightarrow> uint64 option" where
  "list_skip (a # b # ns) = (if b \<noteq> a + 1 then Some (a + 1) else list_skip (b # ns))"
| "list_skip _ = None"

definition listSegments :: "fsys \<Rightarrow> fsys \<times> gostring list sresult" where
  "listSegments fs = (case os_ReadDir fs of
     (fs, Inl err) \<Rightarrow> (fs, Inl (gerr_Wrap Unavailable ''read wal directory'' err))
   | (fs, Inr ents) \<Rightarrow>
       let names = map fst (filter (\<lambda>(n, d). \<not> d \<and> parseSegmentName n \<noteq> None) ents);
           nums = map (\<lambda>n. the (parseSegmentName n)) names in
       (fs, if \<not> list_ordered nums then Inl (corruption ''wal segment names are out of order'')
            else case list_skip nums of
              Some n \<Rightarrow> Inl (corruption (''wal segment numbers skip '' @ dec_str (unat n)))
            | None \<Rightarrow> Inr names))"

section \<open>Repairing a segment\<close>

text \<open>A call of the file system whose error is wrapped.\<close>

definition wrapped :: "string \<Rightarrow> fsys \<times> 'a sresult \<Rightarrow> fsys \<times> 'a sresult" where
  "wrapped msg p = (case p of (fs, Inl err) \<Rightarrow> (fs, Inl (gerr_Wrap Unavailable msg err)) | (fs, Inr x) \<Rightarrow> (fs, Inr x))"

definition syncDir :: "fsys \<Rightarrow> fsys \<times> unit sresult" where
  "syncDir fs =
     sbind (wrapped ''open wal directory'' (os_Dir fs)) (\<lambda>fs _.
       case os_Dir fs of (fs, serr) \<Rightarrow>
       case os_Dir fs of (fs, cerr) \<Rightarrow>
         (fs, case serr of
                Inl e \<Rightarrow> Inl (gerr_Wrap Unavailable ''sync wal directory'' e)
              | Inr _ \<Rightarrow> (case cerr of
                  Inl e \<Rightarrow> Inl (gerr_Wrap Unavailable ''close wal directory'' e)
                | Inr _ \<Rightarrow> Inr ())))"

definition lsn_err :: "string \<Rightarrow> LSN \<Rightarrow> string \<Rightarrow> sterr" where
  "lsn_err msg lsn rest = corruption (msg @ dec_str (unat lsn) @ rest)"

definition seg_err :: "uint64 \<Rightarrow> string \<Rightarrow> sterr" where
  "seg_err num rest = corruption (''wal segment '' @ dec_str (unat num) @ rest)"

definition readHeader :: "fsys \<Rightarrow> nat \<Rightarrow> nat \<Rightarrow> uint64 \<Rightarrow> LSN \<Rightarrow> bool \<Rightarrow> fsys \<times> (LSN \<times> bool) sresult" where
  "readHeader fs f sz num expect allowTorn =
     (let n = (if headerSize > sz then sz else headerSize) in
      case (if n > 0 then readFullAt fs f n 0 else (fs, [], None)) of
        (fs, buf, err) \<Rightarrow>
          (fs,
           if err \<noteq> None \<and> err \<noteq> Some EOF then Inl (gerr_Wrap Unavailable ''read wal header'' (the err))
           else if length buf \<ge> 4 \<and> take 4 buf \<noteq> Magic
           then Inl (gerr_New InvalidArgument ''wal segment has a bad magic'')
           else
             let version = (word_of_nat (le_at 2 4 buf) :: uint16) in
             if length buf \<ge> 6 \<and> version > FormatVersion
             then Inl (gerr_New InvalidArgument (''wal format version '' @ dec_str (unat version)
                    @ '' is newer than supported version '' @ dec_str (unat FormatVersion)))
             else if length buf \<ge> 6 \<and> version \<noteq> FormatVersion \<and> (length buf \<ge> headerSize \<or> version \<noteq> 0)
             then Inl (gerr_New InvalidArgument (''wal format version '' @ dec_str (unat version)
                    @ '' is not supported (this build reads version '' @ dec_str (unat FormatVersion) @ '')''))
             else if length buf < headerSize
             then (if \<not> allowTorn then Inl (seg_err num '' has a short header'') else Inr (0, True))
             else if crcChecksum (take 24 buf) \<noteq> word_of_nat (le_at 4 24 buf)
             then (if allowTorn \<and> sz = headerSize then Inr (0, True)
                   else Inl (seg_err num '' checksum mismatch''))
             else
               let fileNum = (word_of_nat (le_at 8 8 buf) :: uint64) in
               if fileNum \<noteq> num then Inl (seg_err num ('' is numbered '' @ dec_str (unat fileNum)))
               else
                 let first = (word_of_nat (le_at 8 16 buf) :: LSN) in
                 if expect \<noteq> 0 \<and> first \<noteq> expect
                 then Inl (seg_err num ('' starts at lsn '' @ dec_str (unat first) @ '', want '' @ dec_str (unat expect)))
                 else Inr (first, False)))"

text \<open>The end of the last whole record and, for a torn tail, the offset where it starts.\<close>

function scan_loop :: "fsys \<Rightarrow> nat \<Rightarrow> nat \<Rightarrow> bool \<Rightarrow> nat \<Rightarrow> LSN \<Rightarrow> fsys \<times> (LSN \<times> nat) sresult" where
  "scan_loop fs f fileSize allowTorn off lsn =
     (if off < fileSize then
        if fileSize - off < recordHeader then
          (fs, if \<not> allowTorn then Inl (lsn_err ''wal record at lsn '' lsn '' is truncated'') else Inr (lsn, off))
        else case readFullAt fs f recordHeader off of
          (fs, hdr, Some err) \<Rightarrow> (fs, Inl (gerr_Wrap Unavailable ''read wal record'' err))
        | (fs, hdr, None) \<Rightarrow>
            let payLen = le_at 4 20 hdr in
            if payLen > MaxPayload then
              (fs, if \<not> allowTorn then Inl (lsn_err ''wal record at lsn '' lsn ('' has length '' @ dec_str payLen))
                   else Inr (lsn, off))
            else
              let total = recordHeader + payLen + crcSize in
              if off + total > fileSize then
                (fs, if \<not> allowTorn then Inl (lsn_err ''wal record at lsn '' lsn '' is truncated'') else Inr (lsn, off))
              else case readFullAt fs f total off of
                (fs, buf, Some err) \<Rightarrow> (fs, Inl (gerr_Wrap Unavailable ''read wal record'' err))
              | (fs, buf, None) \<Rightarrow>
                  let recLSN = (word_of_nat (le_at 8 0 buf) :: LSN); typ = (word_of_nat (le_at 2 16 buf) :: rtype) in
                  if crcChecksum (take (length buf - crcSize) buf) \<noteq> word_of_nat (le_at 4 (length buf - crcSize) buf)
                  then (fs, Inl (lsn_err ''wal record at lsn '' lsn '' checksum mismatch''))
                  else if recLSN \<noteq> lsn
                  then (fs, Inl (lsn_err ''wal record lsn '' recLSN ('', want '' @ dec_str (unat lsn))))
                  else if \<not> validType typ
                  then (fs, Inl (lsn_err ''wal record at lsn '' lsn ('' has type '' @ dec_str (unat typ))))
                  else scan_loop fs f fileSize allowTorn (off + total) (lsn + word_of_nat total)
      else (fs, Inr (lsn, 0)))"
  by pat_completeness auto

termination
  by (relation "measure (\<lambda>(fs, f, fileSize, allowTorn, off, lsn). fileSize - off)") (auto simp: wal_sizes)

declare scan_loop.simps [simp del]

definition scanRecords :: "fsys \<Rightarrow> nat \<Rightarrow> nat \<Rightarrow> LSN \<Rightarrow> bool \<Rightarrow> fsys \<times> (LSN \<times> nat) sresult" where
  "scanRecords fs f fileSize first allowTorn = scan_loop fs f fileSize allowTorn headerSize first"

text \<open>The deferred \<^verbatim>\<open>f.Close\<close> of \<open>repairSegment\<close>, whose error is dropped.\<close>

definition deferClose :: "fsys \<times> 'a sresult \<Rightarrow> fsys \<times> 'a sresult" where
  "deferClose p = (case p of (fs, r) \<Rightarrow> (fst (os_Close fs), r))"

text \<open>\<open>repairFile\<close> is the body of \<open>repairSegment\<close> once the file is open.\<close>

definition repairFile :: "fsys \<Rightarrow> nat \<Rightarrow> gostring \<Rightarrow> uint64 \<Rightarrow> LSN \<Rightarrow> bool \<Rightarrow> fsys \<times> (LSN \<times> LSN \<times> bool) sresult" where
  "repairFile fs f path num expect last1 =
     sbind (wrapped ''stat wal segment'' (os_Size fs f)) (\<lambda>fs sz.
     sbind (readHeader fs f sz num expect last1) (\<lambda>fs (first, tornHeader).
       if tornHeader then
         (if \<not> last1 then (fs, Inl (seg_err num '' has a torn header''))
          else
            sbind (wrapped ''close torn wal segment'' (os_Close fs)) (\<lambda>fs _.
            sbind (wrapped ''remove torn wal segment'' (os_Remove fs path)) (\<lambda>fs _.
              (fs, Inr (expect, expect, True)))))
       else
         sbind (scanRecords fs f sz first last1) (\<lambda>fs (end1, tornAt).
           if tornAt > 0 then
             sbind (wrapped ''truncate torn wal tail'' (os_Truncate fs f tornAt)) (\<lambda>fs _.
             sbind (wrapped ''sync truncated wal segment'' (os_Sync fs f)) (\<lambda>fs _.
               (fs, Inr (first, end1, False))))
           else (fs, Inr (first, end1, False)))))"

definition repairSegment :: "fsys \<Rightarrow> gostring \<Rightarrow> uint64 \<Rightarrow> LSN \<Rightarrow> bool \<Rightarrow> fsys \<times> (LSN \<times> LSN \<times> bool) sresult" where
  "repairSegment fs path num expect last1 =
     sbind (wrapped ''open wal segment'' (os_Open fs path)) (\<lambda>fs f.
       deferClose (repairFile fs f path num expect last1))"

section \<open>The log\<close>

record SegmentInfo =
  si_Number :: uint64
  si_Path :: gostring
  si_First :: LSN
  si_End :: LSN

record walOptions =
  wo_SegmentSize :: int
  wo_GroupCommit :: int
  wo_Archiver :: bool
  wo_NoFsync :: bool

record waiter =
  w_end :: LSN
  w_errc :: nat

record Log =
  l_fs :: fsys
  l_segSize :: int
  l_group :: int
  l_archiver :: bool
  l_noFsync :: bool
  l_seg :: "nat option"
  l_path :: gostring
  l_segNum :: uint64
  l_segFirst :: LSN
  l_segLen :: nat
  l_syncedOff :: nat
  l_sealed :: "SegmentInfo list"
  l_pending :: "SegmentInfo option"
  l_next :: LSN
  l_fileEnd :: LSN
  l_durable :: LSN
  l_buf :: bytes
  l_flushing :: bool
  l_waiters :: "waiter list"
  l_results :: "(nat \<times> unit sresult) list"
  l_closed :: bool
  l_broken :: "sterr option"

definition wal_ErrClosed :: sterr where "wal_ErrClosed = ErrText ''wal: closed''"

definition on_fs :: "Log \<Rightarrow> fsys \<times> 'a sresult \<Rightarrow> Log \<times> 'a sresult" where
  "on_fs l p = (case p of (fs, r) \<Rightarrow> (l\<lparr>l_fs := fs\<rparr>, r))"

definition wal_normalize :: "walOptions \<Rightarrow> walOptions sresult" where
  "wal_normalize opt =
     (let opt = (if wo_SegmentSize opt = 0 then opt\<lparr>wo_SegmentSize := DefaultSegmentSize\<rparr> else opt) in
      if wo_SegmentSize opt \<le> int headerSize
      then Inl (gerr_New InvalidArgument (''wal segment size '' @ int_str (wo_SegmentSize opt) @ '' is too small''))
      else
        let opt = (if wo_GroupCommit opt = 0 then opt\<lparr>wo_GroupCommit := 1000000\<rparr> else opt) in
        if wo_GroupCommit opt < 0
        then Inl (gerr_New InvalidArgument ''wal group commit delay is negative'')
        else Inr opt)"

text \<open>The file of a new segment with its header, the file system part of \<open>createSegment\<close>.\<close>

definition createFile :: "fsys \<Rightarrow> gostring \<Rightarrow> bytes \<Rightarrow> fsys \<times> nat sresult" where
  "createFile fs path hdr =
     sbind (wrapped ''create wal segment'' (os_Create fs path)) (\<lambda>fs f.
       case os_Write fs f hdr of
         (fs, n, Some err) \<Rightarrow>
           (fst (os_Remove (fst (os_Close fs)) path), Inl (gerr_Wrap Unavailable ''write wal segment header'' err))
       | (fs, n, None) \<Rightarrow>
         (case os_Sync fs f of
            (fs, Inl err) \<Rightarrow>
              (fst (os_Remove (fst (os_Close fs)) path), Inl (gerr_Wrap Unavailable ''sync wal segment header'' err))
          | (fs, Inr _) \<Rightarrow>
            (case syncDir fs of
               (fs, Inl err) \<Rightarrow> (fst (os_Close fs), Inl err)
             | (fs, Inr _) \<Rightarrow> (fs, Inr f))))"

definition createSegment :: "Log \<Rightarrow> uint64 \<Rightarrow> LSN \<Rightarrow> Log \<times> unit sresult" where
  "createSegment l num first =
     (let path = segmentName num in
      sbind (on_fs l (createFile (l_fs l) path (encodeHeader num first))) (\<lambda>l f.
        (l\<lparr>l_seg := Some f, l_path := path, l_segNum := num, l_segFirst := first, l_segLen := headerSize,
           l_syncedOff := headerSize, l_fileEnd := first\<rparr>, Inr ())))"

definition reopenLast :: "Log \<Rightarrow> gostring \<Rightarrow> uint64 \<Rightarrow> LSN \<Rightarrow> LSN \<Rightarrow> Log \<times> unit sresult" where
  "reopenLast l path num first end1 =
     sbind (on_fs l (wrapped ''open wal segment'' (os_Open (l_fs l) path))) (\<lambda>l f.
       case on_fs l (wrapped ''stat wal segment'' (os_Size (l_fs l) f)) of
         (l, Inl err) \<Rightarrow> (l\<lparr>l_fs := fst (os_Close (l_fs l))\<rparr>, Inl err)
       | (l, Inr sz) \<Rightarrow>
         (case on_fs l (wrapped ''seek wal segment'' (os_Seek (l_fs l))) of
            (l, Inl err) \<Rightarrow> (l\<lparr>l_fs := fst (os_Close (l_fs l))\<rparr>, Inl err)
          | (l, Inr _) \<Rightarrow>
            (l\<lparr>l_seg := Some f, l_path := path, l_segNum := num, l_segFirst := first, l_segLen := sz,
               l_syncedOff := sz, l_fileEnd := end1, l_next := end1, l_durable := end1\<rparr>, Inr ())))"

fun Open_loop :: "Log \<Rightarrow> gostring list \<Rightarrow> LSN \<Rightarrow> Log \<times> unit sresult" where
  "Open_loop l [] expect = (l, Inr ())"
| "Open_loop l (name # rest) expect =
     (case parseSegmentName name of
        None \<Rightarrow> (l, Inl (corruption (''wal segment name '' @ name_str name @ '' is not a segment'')))
      | Some num \<Rightarrow>
          let last1 = (rest = []) in
          sbind (on_fs l (repairSegment (l_fs l) name num expect last1)) (\<lambda>l (first, end1, deleted).
            if deleted then
              (if \<not> last1 then (l, Inl (seg_err num '' lost its header'')) else (l, Inr ()))
            else if last1 then
              sbind (reopenLast l name num first end1) (\<lambda>l _. Open_loop l rest end1)
            else
              Open_loop (l\<lparr>l_sealed := l_sealed l @ [\<lparr>si_Number = num, si_Path = name, si_First = first, si_End = end1\<rparr>]\<rparr>)
                rest end1))"

definition newLog :: "fsys \<Rightarrow> walOptions \<Rightarrow> Log" where
  "newLog fs opt =
     \<lparr>l_fs = fs, l_segSize = wo_SegmentSize opt, l_group = wo_GroupCommit opt, l_archiver = wo_Archiver opt,
      l_noFsync = wo_NoFsync opt, l_seg = None, l_path = [], l_segNum = 0, l_segFirst = 0, l_segLen = 0,
      l_syncedOff = 0, l_sealed = [], l_pending = None, l_next = 1, l_fileEnd = 1, l_durable = 1, l_buf = [],
      l_flushing = False, l_waiters = [], l_results = [], l_closed = False, l_broken = None\<rparr>"

definition Open_tail :: "Log \<Rightarrow> Log \<times> unit sresult" where
  "Open_tail l =
     (if l_seg l = None then
        let (num, first) = (if l_sealed l \<noteq> [] then (si_Number (last (l_sealed l)) + 1, si_End (last (l_sealed l))) else (1, 1)) in
        createSegment (l\<lparr>l_next := first, l_fileEnd := first, l_durable := first\<rparr>) num first
      else (l, Inr ()))"

text \<open>The file system that a call of \<open>Open\<close> leaves is in the log it returns, also when it fails.\<close>

definition wal_Open :: "fsys \<Rightarrow> gostring \<Rightarrow> walOptions \<Rightarrow> Log \<times> unit sresult" where
  "wal_Open fs dir opt =
     (if dir = [] then (newLog fs opt, Inl (gerr_New InvalidArgument ''wal directory is empty''))
      else case wal_normalize opt of
        Inl err \<Rightarrow> (newLog fs opt, Inl err)
      | Inr opt \<Rightarrow>
          sbind (on_fs (newLog fs opt) (wrapped ''create wal directory'' (os_MkdirAll fs))) (\<lambda>l _.
          sbind (on_fs l (listSegments (l_fs l))) (\<lambda>l names.
            if length names = 0 then createSegment l 1 1
            else sbind (Open_loop l names 0) (\<lambda>l _. Open_tail l))))"

definition wal_Append :: "Log \<Rightarrow> rtype \<Rightarrow> uint64 \<Rightarrow> bytes \<Rightarrow> Log \<times> LSN sresult" where
  "wal_Append l typ txnID payload =
     (if \<not> validType typ then (l, Inl (gerr_New InvalidArgument (''wal record type '' @ dec_str (unat typ) @ '' is unknown'')))
      else if length payload > MaxPayload then (l, Inl (gerr_New InvalidArgument (''wal payload is '' @ dec_str (length payload) @ '' bytes, max '' @ dec_str MaxPayload)))
      else if l_closed l then (l, Inl wal_ErrClosed)
      else case l_broken l of
        Some err \<Rightarrow> (l, Inl err)
      | None \<Rightarrow>
          let lsn = l_next l in
          (l\<lparr>l_buf := wal_appendRecord (l_buf l) lsn txnID typ payload,
             l_next := l_next l + word_of_nat (recordHeader + length payload + crcSize)\<rparr>, Inr lsn))"

definition encodedLen :: "bytes \<Rightarrow> nat sresult" where
  "encodedLen b =
     (if length b < recordHeader then Inl (gerr_New Internal ''buffered wal record is truncated'')
      else
        let n = le_at 4 20 b in
        if n > MaxPayload then Inl (gerr_New Internal ''buffered wal record has a bad length'')
        else
          let total = recordHeader + n + crcSize in
          if total > length b then Inl (gerr_New Internal ''buffered wal record is truncated'') else Inr total)"

definition mustRotate :: "Log \<Rightarrow> nat \<Rightarrow> bool" where
  "mustRotate l n = (if l_seg l = None \<or> l_segLen l \<le> headerSize then False else int (l_segLen l) + int n > l_segSize l)"

definition syncFile :: "Log \<Rightarrow> Log \<times> unit sresult" where
  "syncFile l =
     (case l_seg l of
        None \<Rightarrow> (l, Inr ())
      | Some f \<Rightarrow>
          if l_noFsync l then (l\<lparr>l_syncedOff := l_segLen l\<rparr>, Inr ())
          else sbind (on_fs l (wrapped ''sync wal segment'' (os_Sync (l_fs l) f))) (\<lambda>l _.
            (l\<lparr>l_syncedOff := l_segLen l\<rparr>, Inr ())))"

definition writeFull :: "Log \<Rightarrow> bytes \<Rightarrow> Log \<times> unit sresult" where
  "writeFull l p =
     (case l_seg l of
        None \<Rightarrow> (l, Inl (gerr_New Internal ''wal segment is not open''))
      | Some f \<Rightarrow> (case os_Write (l_fs l) f p of
          (fs, n, err) \<Rightarrow>
            let l = l\<lparr>l_fs := fs\<rparr> in
            if n \<noteq> length p then (l, Inl (case err of None \<Rightarrow> gerr_New Unavailable ''short wal write'' | Some e \<Rightarrow> e))
            else case err of
              Some e \<Rightarrow> (l, Inl e)
            | None \<Rightarrow> (l\<lparr>l_segLen := l_segLen l + n, l_fileEnd := l_fileEnd l + word_of_nat n\<rparr>, Inr ())))"

definition archiveHook :: "Log \<Rightarrow> SegmentInfo \<Rightarrow> Log \<times> unit sresult" where
  "archiveHook l info = (if l_archiver l then on_fs l (os_Archive (l_fs l) (si_Number info)) else (l, Inr ()))"

definition rotateLocked :: "Log \<Rightarrow> Log \<times> unit sresult" where
  "rotateLocked l =
     (case syncFile l of
        (l, Inl err) \<Rightarrow> (l\<lparr>l_broken := Some err\<rparr>, Inl err)
      | (l, Inr _) \<Rightarrow>
          let l = l\<lparr>l_durable := l_fileEnd l\<rparr>;
              info = \<lparr>si_Number = l_segNum l, si_Path = l_path l, si_First = l_segFirst l, si_End = l_fileEnd l\<rparr>;
              l = l\<lparr>l_sealed := l_sealed l @ [info]\<rparr> in
          case (if l_seg l \<noteq> None then on_fs l (os_Close (l_fs l)) else (l, Inr ())) of
            (l, Inl err) \<Rightarrow> (l\<lparr>l_pending := Some info, l_seg := None, l_path := [], l_syncedOff := 0\<rparr>, Inl err)
          | (l, Inr _) \<Rightarrow>
              let l = l\<lparr>l_seg := None, l_path := [], l_syncedOff := 0\<rparr> in
              case archiveHook l info of
                (l, Inl err) \<Rightarrow> (l\<lparr>l_pending := Some info\<rparr>, Inl err)
              | (l, Inr _) \<Rightarrow>
                  (case createSegment l (si_Number info + 1) (si_End info) of
                     (l, Inl err) \<Rightarrow> (l\<lparr>l_pending := Some info\<rparr>, Inl err)
                   | (l, Inr _) \<Rightarrow> (l, Inr ())))"

definition finishPendingLocked :: "Log \<Rightarrow> Log \<times> unit sresult" where
  "finishPendingLocked l =
     (case l_pending l of
        None \<Rightarrow> (l, Inr ())
      | Some info \<Rightarrow>
          sbind (archiveHook l info) (\<lambda>l _.
          sbind (if l_seg l = None then createSegment l (si_Number info + 1) (si_End info) else (l, Inr ())) (\<lambda>l _.
            (l\<lparr>l_pending := None\<rparr>, Inr ()))))"

text \<open>The loop of \<open>flushLocked\<close>; \<open>b\<close> is what is left of the buffer, \<^verbatim>\<open>l.buf[off:]\<close>.\<close>

function flush_loop :: "Log \<Rightarrow> bytes \<Rightarrow> Log \<times> unit sresult" where
  "flush_loop l b =
     (if 0 < length b then
        case encodedLen b of
          Inl err \<Rightarrow> (l\<lparr>l_broken := Some err\<rparr>, Inl err)
        | Inr n \<Rightarrow>
            (case (if mustRotate l n then rotateLocked l else (l, Inr ())) of
               (l, Inl err) \<Rightarrow> (l\<lparr>l_buf := b\<rparr>, Inl err)
             | (l, Inr _) \<Rightarrow>
               (case writeFull l (take n b) of
                  (l, Inl err) \<Rightarrow> (l\<lparr>l_broken := Some err, l_buf := b\<rparr>, Inl err)
                | (l, Inr _) \<Rightarrow> flush_loop l (drop n b)))
      else (l, Inr ()))"
  by pat_completeness auto

termination
  by (relation "measure (\<lambda>(l, b). length b)")
     (auto simp: encodedLen_def wal_sizes Let_def split: if_splits)

declare flush_loop.simps [simp del]

definition flushLocked :: "Log \<Rightarrow> Log \<times> unit sresult" where
  "flushLocked l =
     sbind (finishPendingLocked l) (\<lambda>l _.
     sbind (flush_loop l (l_buf l)) (\<lambda>l _.
       if l_seg l = None then (l\<lparr>l_buf := [], l_durable := l_fileEnd l\<rparr>, Inr ())
       else case syncFile l of
         (l, Inl err) \<Rightarrow> (l\<lparr>l_broken := Some err, l_buf := []\<rparr>, Inl err)
       | (l, Inr _) \<Rightarrow> (l\<lparr>l_buf := [], l_durable := l_fileEnd l\<rparr>, Inr ())))"

definition batchDelay :: "Log \<Rightarrow> int" where
  "batchDelay l = (let others = length (l_waiters l) in if others > 0 \<and> l_group l > 0 then l_group l else 0)"

definition flushLeader :: "Log \<Rightarrow> Log \<times> unit sresult" where
  "flushLeader l = (case flushLocked l of (l, r) \<Rightarrow>
     (l\<lparr>l_results := l_results l @ map (\<lambda>w. (w_errc w, r)) (l_waiters l), l_waiters := [], l_flushing := False\<rparr>, r))"

datatype syncTurn = SyncReturn "unit sresult" | SyncWait | SyncLead

definition Sync_enter :: "Log \<Rightarrow> nat \<Rightarrow> Log \<times> syncTurn" where
  "Sync_enter l ch =
     (if l_closed l then (l, SyncReturn (Inl wal_ErrClosed))
      else case l_broken l of
        Some err \<Rightarrow> (l, SyncReturn (Inl err))
      | None \<Rightarrow>
          if length (l_buf l) = 0 \<and> l_pending l = None \<and> l_durable l \<ge> l_next l then (l, SyncReturn (Inr ()))
          else if l_flushing l then (l\<lparr>l_waiters := l_waiters l @ [\<lparr>w_end = l_next l, w_errc = ch\<rparr>]\<rparr>, SyncWait)
          else (l\<lparr>l_flushing := True\<rparr>, SyncLead))"

text \<open>A \<open>Sync\<close> that no other call interrupts; behind a flush of another caller it blocks (\<open>None\<close>).\<close>

definition wal_Sync :: "Log \<Rightarrow> nat \<Rightarrow> Log \<times> unit sresult option" where
  "wal_Sync l ch = (case Sync_enter l ch of
     (l, SyncReturn r) \<Rightarrow> (l, Some r)
   | (l, SyncWait) \<Rightarrow> (l, None)
   | (l, SyncLead) \<Rightarrow> (case flushLeader l of (l, r) \<Rightarrow> (l, Some r)))"

definition Durable :: "Log \<Rightarrow> LSN" where "Durable l = l_durable l"
definition End :: "Log \<Rightarrow> LSN" where "End l = l_next l"

text \<open>The second critical section of \<open>Close\<close>, after its \<open>Sync\<close> has returned \<open>syncErr\<close>.\<close>

definition Close_finish :: "Log \<Rightarrow> unit sresult \<Rightarrow> Log \<times> unit sresult" where
  "Close_finish l syncErr =
     (if l_closed l then (l, syncErr)
      else
        case (if l_seg l \<noteq> None then on_fs l (os_Close (l_fs l)) else (l, Inr ())) of
          (l, cerr) \<Rightarrow>
            (l\<lparr>l_closed := True, l_seg := None\<rparr>, case syncErr of Inl e \<Rightarrow> Inl e | Inr _ \<Rightarrow> cerr))"

definition wal_Close :: "Log \<Rightarrow> nat \<Rightarrow> Log \<times> unit sresult option" where
  "wal_Close l ch =
     (if l_closed l then (l, Some (Inr ()))
      else case wal_Sync l ch of
        (l, None) \<Rightarrow> (l, None)
      | (l, Some r) \<Rightarrow> (case Close_finish l r of (l, r) \<Rightarrow> (l, Some r)))"

fun Truncate_loop :: "Log \<Rightarrow> LSN \<Rightarrow> SegmentInfo list \<Rightarrow> SegmentInfo list \<Rightarrow> Log \<times> unit sresult" where
  "Truncate_loop l before [] keep = (let l = l\<lparr>l_sealed := keep\<rparr> in on_fs l (syncDir (l_fs l)))"
| "Truncate_loop l before (s # rest) keep =
     (let pending = (case l_pending l of None \<Rightarrow> False | Some p \<Rightarrow> si_Number s = si_Number p) in
      if pending \<or> si_End s > before then Truncate_loop l before rest (keep @ [s])
      else case os_Remove (l_fs l) (si_Path s) of
        (fs, r) \<Rightarrow>
          let l = l\<lparr>l_fs := fs\<rparr> in
          (case r of
             Inl err \<Rightarrow>
               if err \<noteq> ErrNotExist
               then (l\<lparr>l_sealed := keep @ s # rest\<rparr>, Inl (gerr_Wrap Unavailable ''remove wal segment'' err))
               else Truncate_loop l before rest keep
           | Inr _ \<Rightarrow> Truncate_loop l before rest keep))"

definition wal_Truncate :: "Log \<Rightarrow> LSN \<Rightarrow> Log \<times> unit sresult" where
  "wal_Truncate l before =
     (if l_closed l then (l, Inl wal_ErrClosed) else Truncate_loop l before (l_sealed l) [])"

definition Abandon :: "Log \<Rightarrow> Log" where
  "Abandon l =
     (if l_closed l then l
      else
        let l = l\<lparr>l_closed := True, l_buf := [], l_flushing := False,
                  l_results := l_results l @ map (\<lambda>w. (w_errc w, Inl wal_ErrClosed)) (l_waiters l), l_waiters := []\<rparr> in
        if l_seg l \<noteq> None then l\<lparr>l_fs := fst (os_Close (l_fs l)), l_seg := None\<rparr> else l)"

end
