(* ===== verification/WalReader.thy ===== *)
theory WalReader
  imports WalLog
begin

text \<open>
  The reader of the log, \<^verbatim>\<open>internal/wal/reader.go\<close>. A reader shares the file system of its log and
  holds handles of the segment files, with the LSN range and the number of bytes it may read of each.
  Its loops end because every record moves the offset and every exhausted segment the index.
\<close>

record rseg =
  rs_f :: nat
  rs_first :: LSN
  rs_end :: LSN
  rs_pos :: LSN
  rs_limit :: nat

record Reader =
  rd_segs :: "rseg list"
  rd_si :: nat
  rd_off :: nat
  rd_held :: "Record option"
  rd_err :: "sterr option"
  rd_closed :: bool

fun errorsIs :: "sterr \<Rightarrow> sterr \<Rightarrow> bool" where
  "errorsIs (GErr c m (Some e)) t \<longleftrightarrow> GErr c m (Some e) = t \<or> errorsIs e t"
| "errorsIs e t \<longleftrightarrow> e = t"

definition openSpan :: "fsys \<Rightarrow> gostring \<Rightarrow> LSN \<Rightarrow> LSN \<Rightarrow> nat \<Rightarrow> fsys \<times> rseg sresult" where
  "openSpan fs path first end1 limit =
     sbind (wrapped ''open wal segment'' (os_Open fs path)) (\<lambda>fs f.
       case wrapped ''stat wal segment'' (os_Size fs f) of
         (fs, Inl err) \<Rightarrow> (fst (os_Close fs), Inl err)
       | (fs, Inr sz) \<Rightarrow>
           let limit = (if limit = 0 \<or> limit > sz then sz else limit) in
           if limit < headerSize
           then (fst (os_Close fs), Inl (corruption (''wal segment '' @ name_str path @ '' has a short header'')))
           else (fs, Inr \<lparr>rs_f = f, rs_first = first, rs_end = end1, rs_pos = first, rs_limit = limit\<rparr>))"

fun closeSpans :: "fsys \<Rightarrow> rseg list \<Rightarrow> fsys" where
  "closeSpans fs [] = fs"
| "closeSpans fs (s # segs) = closeSpans (fst (os_Close fs)) segs"

definition currentSpan :: "Log \<Rightarrow> (SegmentInfo \<times> nat) option" where
  "currentSpan l =
     (if l_path l = [] \<or> l_syncedOff l \<le> headerSize then None
      else if list_ex (\<lambda>s. si_Number s = l_segNum l) (l_sealed l) then None
      else Some (\<lparr>si_Number = l_segNum l, si_Path = l_path l, si_First = l_segFirst l,
                  si_End = l_segFirst l + word_of_nat (l_syncedOff l - headerSize)\<rparr>, l_syncedOff l))"

fun openSpans :: "fsys \<Rightarrow> (SegmentInfo \<times> nat) list \<Rightarrow> rseg list \<Rightarrow> fsys \<times> rseg list sresult" where
  "openSpans fs [] spans = (fs, Inr spans)"
| "openSpans fs ((info, limit) # infos) spans =
     (case openSpan fs (si_Path info) (si_First info) (si_End info) limit of
        (fs, Inl err) \<Rightarrow> (closeSpans fs spans, Inl err)
      | (fs, Inr seg) \<Rightarrow> openSpans fs infos (spans @ [seg]))"

definition Reader_reset :: "Reader \<Rightarrow> Reader" where
  "Reader_reset r =
     r\<lparr>rd_si := 0, rd_off := headerSize, rd_held := None, rd_err := None,
       rd_segs := map (\<lambda>s. s\<lparr>rs_pos := rs_first s\<rparr>) (rd_segs r)\<rparr>"

definition Log_Reader :: "Log \<Rightarrow> Log \<times> Reader sresult" where
  "Log_Reader l =
     sbind (on_fs l (openSpans (l_fs l) (map (\<lambda>info. (info, 0)) (l_sealed l)
         @ (case currentSpan l of None \<Rightarrow> [] | Some p \<Rightarrow> [p])) [])) (\<lambda>l spans.
       (l, Inr (Reader_reset \<lparr>rd_segs = spans, rd_si = 0, rd_off = 0, rd_held = None, rd_err = None, rd_closed = False\<rparr>)))"

definition readRecord :: "fsys \<Rightarrow> nat \<Rightarrow> nat \<Rightarrow> nat \<Rightarrow> LSN \<Rightarrow> fsys \<times> (Record \<times> nat) sresult" where
  "readRecord fs f off limit expect =
     (if limit - off < recordHeader then (fs, Inl (lsn_err ''wal record at lsn '' expect '' is truncated''))
      else case readFullAt fs f recordHeader off of
        (fs, hdr, Some err) \<Rightarrow> (fs, Inl (gerr_Wrap Unavailable ''read wal record'' err))
      | (fs, hdr, None) \<Rightarrow>
          let payLen = le_at 4 20 hdr in
          if payLen > MaxPayload
          then (fs, Inl (lsn_err ''wal record at lsn '' expect ('' has length '' @ dec_str payLen)))
          else
            let total = recordHeader + payLen + crcSize in
            if off + total > limit then (fs, Inl (lsn_err ''wal record at lsn '' expect '' is truncated''))
            else case readFullAt fs f total off of
              (fs, buf, Some err) \<Rightarrow> (fs, Inl (gerr_Wrap Unavailable ''read wal record'' err))
            | (fs, buf, None) \<Rightarrow>
                if crcChecksum (take (length buf - crcSize) buf) \<noteq> word_of_nat (le_at 4 (length buf - crcSize) buf)
                then (fs, Inl (lsn_err ''wal record at lsn '' expect '' checksum mismatch''))
                else
                  let rec1 = \<lparr>r_LSN = word_of_nat (le_at 8 0 buf), r_TxnID = word_of_nat (le_at 8 8 buf),
                              r_Type = word_of_nat (le_at 2 16 buf), r_Payload = take payLen (drop recordHeader buf)\<rparr> in
                  if r_LSN rec1 \<noteq> expect
                  then (fs, Inl (lsn_err ''wal record lsn '' (r_LSN rec1) ('', want '' @ dec_str (unat expect))))
                  else if \<not> validType (r_Type rec1)
                  then (fs, Inl (lsn_err ''wal record at lsn '' expect ('' has type '' @ dec_str (unat (r_Type rec1)))))
                  else (fs, Inr (rec1, off + total)))"

function Next_loop :: "fsys \<Rightarrow> Reader \<Rightarrow> (fsys \<times> Reader) \<times> Record sresult" where
  "Next_loop fs r =
     (if rd_si r < length (rd_segs r) then
        let seg = rd_segs r ! rd_si r in
        if rd_off r \<ge> rs_limit seg then
          if rs_pos seg \<noteq> rs_end seg then
            let err = lsn_err ''wal segment ended at lsn '' (rs_pos seg) ('', want '' @ dec_str (unat (rs_end seg))) in
            ((fs, r\<lparr>rd_err := Some err\<rparr>), Inl err)
          else Next_loop fs (r\<lparr>rd_si := Suc (rd_si r), rd_off := headerSize\<rparr>)
        else case readRecord fs (rs_f seg) (rd_off r) (rs_limit seg) (rs_pos seg) of
          (fs, Inl err) \<Rightarrow> ((fs, r\<lparr>rd_err := Some err\<rparr>), Inl err)
        | (fs, Inr (rec1, next1)) \<Rightarrow>
            ((fs, r\<lparr>rd_off := next1,
                    rd_segs := (rd_segs r)[rd_si r := seg\<lparr>rs_pos := r_LSN rec1 + word_of_nat (Record_Size rec1)\<rparr>]\<rparr>),
             Inr rec1)
      else ((fs, r), Inl EOF))"
  by pat_completeness auto

termination
  by (relation "measure (\<lambda>(fs, r). length (rd_segs r) - rd_si r)") auto

declare Next_loop.simps [simp del]

definition Reader_Next :: "fsys \<Rightarrow> Reader \<Rightarrow> (fsys \<times> Reader) \<times> Record sresult" where
  "Reader_Next fs r =
     (if rd_closed r then ((fs, r), Inl wal_ErrClosed)
      else case rd_err r of
        Some err \<Rightarrow> ((fs, r), Inl err)
      | None \<Rightarrow> (case rd_held r of
          Some rec1 \<Rightarrow> ((fs, r\<lparr>rd_held := None\<rparr>), Inr rec1)
        | None \<Rightarrow> Next_loop fs r))"

text \<open>What a successful \<open>Next\<close> consumes.\<close>

definition reader_order :: "((fsys \<times> Reader) \<times> (fsys \<times> Reader)) set" where
  "reader_order = measures [\<lambda>(fs, r). length (rd_segs r) - rd_si r,
     \<lambda>(fs, r). (if rd_si r < length (rd_segs r) then rs_limit (rd_segs r ! rd_si r) else 0) - rd_off r,
     \<lambda>(fs, r). if rd_held r = None then 0 else 1]"

lemma wf_reader_order [simp]: "wf reader_order"
  by (simp add: reader_order_def)

lemma readRecord_moves:
  assumes "readRecord fs f off limit expect = (fs', Inr (rec1, next1))"
  shows "off < next1 \<and> next1 \<le> limit"
  using assms unfolding readRecord_def Let_def
  by (auto simp: wal_sizes split: if_splits prod.splits option.splits)

lemma Next_loop_decreases:
  "Next_loop fs r = ((fs', r'), Inr rec1) \<Longrightarrow> ((fs', r'), (fs, r)) \<in> reader_order"
proof (induction fs r rule: Next_loop.induct)
  case (1 fs r)
  note eq = 1(2) [unfolded Next_loop.simps [of fs r]]
  show ?case
  proof (cases "rd_si r < length (rd_segs r)")
    case False
    with eq show ?thesis by simp
  next
    case si: True
    let ?seg = "rd_segs r ! rd_si r"
    show ?thesis
    proof (cases "rd_off r \<ge> rs_limit ?seg")
      case off: True
      have pos: "rs_pos ?seg = rs_end ?seg"
        using eq si off by (auto simp: Let_def split: if_splits)
      then have "((fs', r'), (fs, r\<lparr>rd_si := Suc (rd_si r), rd_off := headerSize\<rparr>)) \<in> reader_order"
        using 1(1) [OF si refl off] eq si off by (simp add: Let_def)
      with si show ?thesis unfolding reader_order_def by auto
    next
      case off: False
      obtain fs1 next1 where rr: "readRecord fs (rs_f ?seg) (rd_off r) (rs_limit ?seg) (rs_pos ?seg) = (fs1, Inr (rec1, next1))"
        and r': "r' = r\<lparr>rd_off := next1,
          rd_segs := (rd_segs r)[rd_si r := ?seg\<lparr>rs_pos := r_LSN rec1 + word_of_nat (Record_Size rec1)\<rparr>]\<rparr>"
        using eq si off by (auto simp: Let_def split: prod.splits sum.splits)
      with si off readRecord_moves [OF rr] show ?thesis
        unfolding reader_order_def by auto
    qed
  qed
qed

lemma Reader_Next_decreases:
  assumes "Reader_Next fs r = ((fs', r'), Inr rec1)"
  shows "((fs', r'), (fs, r)) \<in> reader_order"
proof (cases "rd_held r")
  case None
  with assms show ?thesis
    by (auto simp: Reader_Next_def split: if_splits option.splits intro: Next_loop_decreases)
next
  case (Some x)
  with assms show ?thesis
    by (auto simp: Reader_Next_def reader_order_def split: if_splits option.splits)
qed

text \<open>\<open>Seek\<close> scans from the start; \<open>readAll\<close> is a caller that takes every record up to an error.\<close>

function Seek_loop :: "fsys \<Rightarrow> Reader \<Rightarrow> LSN \<Rightarrow> (fsys \<times> Reader) \<times> unit sresult" where
  "Seek_loop fs r lsn = (case Reader_Next fs r of
     ((fs, r), Inl err) \<Rightarrow> if errorsIs err EOF then ((fs, r\<lparr>rd_err := None\<rparr>), Inr ()) else ((fs, r), Inl err)
   | ((fs, r), Inr rec1) \<Rightarrow>
       if r_LSN rec1 \<ge> lsn then ((fs, r\<lparr>rd_held := Some rec1\<rparr>), Inr ()) else Seek_loop fs r lsn)"
  by pat_completeness auto

termination
  by (relation "inv_image reader_order (\<lambda>(fs, r, lsn). (fs, r))") (auto intro: Reader_Next_decreases sym)

declare Seek_loop.simps [simp del]

definition Reader_Seek :: "fsys \<Rightarrow> Reader \<Rightarrow> LSN \<Rightarrow> (fsys \<times> Reader) \<times> unit sresult" where
  "Reader_Seek fs r lsn =
     (if rd_closed r then ((fs, r), Inl wal_ErrClosed)
      else Seek_loop fs (Reader_reset r) (if lsn < 1 then 1 else lsn))"

fun Reader_closeAll :: "fsys \<Rightarrow> rseg list \<Rightarrow> sterr option \<Rightarrow> fsys \<times> unit sresult" where
  "Reader_closeAll fs [] err = (fs, case err of None \<Rightarrow> Inr () | Some e \<Rightarrow> Inl e)"
| "Reader_closeAll fs (s # segs) err = (case os_Close fs of
     (fs, Inl cerr) \<Rightarrow> Reader_closeAll fs segs (if err = None then Some cerr else err)
   | (fs, Inr _) \<Rightarrow> Reader_closeAll fs segs err)"

definition Reader_Close :: "fsys \<Rightarrow> Reader \<Rightarrow> (fsys \<times> Reader) \<times> unit sresult" where
  "Reader_Close fs r =
     (if rd_closed r then ((fs, r), Inr ())
      else case Reader_closeAll fs (rd_segs r) None of (fs, res) \<Rightarrow> ((fs, r\<lparr>rd_closed := True\<rparr>), res))"

function readAll :: "fsys \<Rightarrow> Reader \<Rightarrow> Record list \<times> sterr" where
  "readAll fs r = (case Reader_Next fs r of
     ((fs, r), Inl err) \<Rightarrow> ([], err)
   | ((fs, r), Inr rec1) \<Rightarrow> (case readAll fs r of (recs, err) \<Rightarrow> (rec1 # recs, err)))"
  by pat_completeness auto

termination
  by (relation "reader_order") (auto intro: Reader_Next_decreases sym)

declare readAll.simps [simp del]

end
