(* ===== verification/WalFrames.thy ===== *)
theory WalFrames
  imports WalReader
begin

text \<open>
  What the bytes of a segment mean: a header followed by the frames of records whose LSNs follow on
  from one another (\<open>chain\<close>), and possibly the beginning of one more frame (\<open>torn\<close>). Reading such
  bytes back, with or without faults, and the names of segments.
\<close>

section \<open>Frames\<close>

definition frame :: "Record \<Rightarrow> bytes" where
  "frame r = wal_appendRecord [] (r_LSN r) (r_TxnID r) (r_Type r) (r_Payload r)"

definition rec_ok :: "Record \<Rightarrow> bool" where
  "rec_ok r \<longleftrightarrow> validType (r_Type r) \<and> length (r_Payload r) \<le> MaxPayload"

abbreviation frames :: "Record list \<Rightarrow> bytes" where
  "frames rs \<equiv> concat (map frame rs)"

abbreviation endof :: "LSN \<Rightarrow> Record list \<Rightarrow> LSN" where
  "endof e rs \<equiv> e + word_of_nat (length (frames rs))"

fun chain :: "LSN \<Rightarrow> Record list \<Rightarrow> bool" where
  "chain e [] \<longleftrightarrow> True"
| "chain e (r # rs) \<longleftrightarrow> r_LSN r = e \<and> rec_ok r \<and> chain (e + word_of_nat (length (frame r))) rs"

definition torn :: "bytes \<Rightarrow> bool" where
  "torn t \<longleftrightarrow> (\<exists>r. rec_ok r \<and> strict_prefix t (frame r))"

definition seg_bytes :: "uint64 \<Rightarrow> LSN \<Rightarrow> Record list \<Rightarrow> bytes" where
  "seg_bytes num first rs = encodeHeader num first @ frames rs"

lemma wal_appendRecord_frame:
  "wal_appendRecord dst lsn txn typ payload = dst @ frame \<lparr>r_LSN = lsn, r_TxnID = txn, r_Type = typ, r_Payload = payload\<rparr>"
  by (simp add: frame_def wal_appendRecord_def Let_def)

lemma length_frame [simp]: "length (frame r) = 28 + length (r_Payload r)"
  by (simp add: frame_def wal_appendRecord_def Let_def)

lemma Record_Size_frame: "Record_Size r = length (frame r)"
  by (simp add: Record_Size_def wal_sizes)

lemma length_encodeHeader [simp]: "length (encodeHeader num first) = 28"
  by (simp add: encodeHeader_def Magic_def Let_def)

lemma length_seg_bytes [simp]: "length (seg_bytes num first rs) = 28 + length (frames rs)"
  by (simp add: seg_bytes_def)

lemma seg_bytes_Nil [simp]: "seg_bytes num first [] = encodeHeader num first"
  by (simp add: seg_bytes_def)

lemma seg_bytes_append: "seg_bytes num first (rs @ rs') = seg_bytes num first rs @ frames rs'"
  by (simp add: seg_bytes_def)

lemma chain_append [simp]: "chain e (rs @ rs') \<longleftrightarrow> chain e rs \<and> chain (endof e rs) rs'"
  by (induction rs arbitrary: e) (auto simp: add.assoc)

lemma chain_take: "chain e rs \<Longrightarrow> chain e (take k rs)"
  by (metis append_take_drop_id chain_append)

lemma chain_rec_ok: "chain e rs \<Longrightarrow> r \<in> set rs \<Longrightarrow> rec_ok r"
  by (induction rs arbitrary: e) auto

lemma rec_ok_default: "rec_ok \<lparr>r_LSN = e, r_TxnID = 0, r_Type = 1, r_Payload = []\<rparr>"
  by (simp add: rec_ok_def validType_def TypePageWrite_def TypeCheckpoint_def)

lemma torn_Nil [simp]: "torn []"
proof -
  have "frame r \<noteq> []" for r by (metis length_frame list.size(3) add_is_0 zero_neq_numeral)
  then show ?thesis unfolding torn_def using rec_ok_default by (metis strict_prefix_simps(2) neq_Nil_conv)
qed

lemma torn_prefix: "torn t \<Longrightarrow> prefix t' t \<Longrightarrow> torn t'"
  unfolding torn_def by (meson prefix_order.le_less_trans)

section \<open>Fields\<close>

lemma le_at_append [simp]:
  "length a = off \<Longrightarrow> le_at k off (a @ b) = le_at k 0 b"
  by (simp add: le_at_def)

lemma le_at_shift: "length a \<le> off \<Longrightarrow> le_at k off (a @ b) = le_at k (off - length a) b"
  by (simp add: le_at_def)

lemma le_at_put [simp]: "le_at k 0 (le_put k n @ b) = n mod 256 ^ k" "le_at k 0 (le_put k n) = n mod 256 ^ k"
  by (simp_all add: le_at_def le_get_le_put)

lemma le_at_take: "off + k \<le> n \<Longrightarrow> le_at k off (take n b) = le_at k off b"
  by (simp add: le_at_def take_drop min_def)

lemma frame_fields:
  assumes "length (r_Payload r) \<le> MaxPayload"
  shows "word_of_nat (le_at 8 0 (frame r @ x)) = r_LSN r"
    and "word_of_nat (le_at 8 8 (frame r @ x)) = r_TxnID r"
    and "word_of_nat (le_at 2 16 (frame r @ x)) = r_Type r"
    and "le_at 4 20 (frame r @ x) = length (r_Payload r)"
    and "take (length (r_Payload r)) (drop 24 (frame r)) = r_Payload r"
    and "crcChecksum (take (24 + length (r_Payload r)) (frame r)) = word_of_nat (le_at 4 (24 + length (r_Payload r)) (frame r))"
proof -
  let ?p = "r_Payload r"
  have lsn: "unat (w :: uint64) mod 256 ^ 8 = unat w" for w
    using unsigned_less [where 'a = nat, of w] by simp
  have ty: "unat (w :: uint16) mod 256 ^ 2 = unat w" for w
    using unsigned_less [where 'a = nat, of w] by simp
  have crc: "unat (w :: uint32) mod 4294967296 = unat w" for w
    using unsigned_less [where 'a = nat, of w] by simp
  have len: "length ?p mod 256 ^ 4 = length ?p"
    using assms by (simp add: MaxPayload_def)
  note fr = frame_def wal_appendRecord_def Let_def
  show "word_of_nat (le_at 8 0 (frame r @ x)) = r_LSN r"
    unfolding fr append_assoc append_Nil le_at_put lsn by simp
  have "le_at 8 8 (frame r @ x) = unat (r_TxnID r)"
    unfolding fr append_assoc append_Nil by (subst le_at_append) (simp_all only: length_le_put le_at_put lsn)
  then show "word_of_nat (le_at 8 8 (frame r @ x)) = r_TxnID r" by simp
  have "le_at 2 16 (frame r @ x) = le_at 2 8 (drop 8 (frame r @ x))"
    by (simp add: le_at_def)
  also have "drop 8 (frame r @ x) = le_put 8 (unat (r_TxnID r)) @ le_put 2 (unat (r_Type r)) @ drop 18 (frame r @ x)"
    by (simp add: fr)
  also have "le_at 2 8 \<dots> = unat (r_Type r)"
    by (subst le_at_append) (simp_all only: length_le_put le_at_put ty)
  finally show "word_of_nat (le_at 2 16 (frame r @ x)) = r_Type r" by simp
  have "le_at 4 20 (frame r @ x) = le_at 4 0 (drop 20 (frame r @ x))"
    by (simp add: le_at_def)
  also have "drop 20 (frame r @ x) = le_put 4 (length ?p) @ drop 24 (frame r @ x)"
    by (simp add: fr)
  finally show "le_at 4 20 (frame r @ x) = length ?p" unfolding le_at_put len .
  show "take (length ?p) (drop 24 (frame r)) = ?p"
    by (simp add: fr)
  define b where "b = le_put 8 (unat (r_LSN r)) @ le_put 8 (unat (r_TxnID r)) @ le_put 2 (unat (r_Type r)) @ [0, 0]
            @ le_put 4 (length ?p) @ ?p"
  have "frame r = b @ le_put 4 (unat (crcChecksum b))" "length b = 24 + length ?p"
    by (simp_all add: fr b_def)
  then show "crcChecksum (take (24 + length ?p) (frame r)) = word_of_nat (le_at 4 (24 + length ?p) (frame r))"
    by (simp add: le_at_def le_get_le_put crc)
qed

lemma header_fields:
  shows "take 4 (encodeHeader num first) = Magic"
    and "word_of_nat (le_at 2 4 (encodeHeader num first)) = FormatVersion"
    and "word_of_nat (le_at 8 8 (encodeHeader num first)) = num"
    and "word_of_nat (le_at 8 16 (encodeHeader num first)) = first"
    and "crcChecksum (take 24 (encodeHeader num first)) = word_of_nat (le_at 4 24 (encodeHeader num first))"
proof -
  have lsn: "unat (w :: uint64) mod 256 ^ 8 = unat w" for w
    using unsigned_less [where 'a = nat, of w] by simp
  have crc: "unat (w :: uint32) mod 4294967296 = unat w" for w
    using unsigned_less [where 'a = nat, of w] by simp
  define b where "b = Magic @ le_put 2 (unat FormatVersion) @ [0, 0] @ le_put 8 (unat num) @ le_put 8 (unat first)"
  have h: "encodeHeader num first = b @ le_put 4 (unat (crcChecksum b))" and lb: "length b = 24"
    by (simp_all add: encodeHeader_def b_def Magic_def Let_def)
  show "take 4 (encodeHeader num first) = Magic"
    unfolding h by (simp add: b_def Magic_def)
  show "word_of_nat (le_at 2 4 (encodeHeader num first)) = FormatVersion"
    unfolding h b_def append_assoc
    by (subst le_at_append) (simp_all add: Magic_def FormatVersion_def)
  have "le_at 8 8 (encodeHeader num first) = le_at 8 0 (le_put 8 (unat num) @ drop 16 (encodeHeader num first))"
    unfolding h le_at_def by (simp add: b_def Magic_def)
  then show "word_of_nat (le_at 8 8 (encodeHeader num first)) = num"
    unfolding le_at_put lsn by simp
  have "le_at 8 16 (encodeHeader num first) = le_at 8 0 (le_put 8 (unat first) @ drop 24 (encodeHeader num first))"
    unfolding h le_at_def by (simp add: b_def Magic_def)
  then show "word_of_nat (le_at 8 16 (encodeHeader num first)) = first"
    unfolding le_at_put lsn by simp
  show "crcChecksum (take 24 (encodeHeader num first)) = word_of_nat (le_at 4 24 (encodeHeader num first))"
    unfolding h by (simp add: lb le_at_def le_get_le_put crc)
qed

section \<open>Cutting a segment\<close>

text \<open>A prefix of whole frames and a torn one is again whole frames and a torn one.\<close>

lemma torn_strict_frame: "rec_ok r \<Longrightarrow> prefix c (frame r) \<Longrightarrow> c \<noteq> frame r \<Longrightarrow> torn c"
  unfolding torn_def by (auto simp: strict_prefix_def)

lemma frames_cut:
  assumes "chain e rs" "torn t" "prefix c (frames rs @ t)"
  shows "\<exists>k t'. k \<le> length rs \<and> c = frames (take k rs) @ t' \<and> torn t'"
  using assms
proof (induction rs arbitrary: e c)
  case Nil
  then show ?case using torn_prefix by auto
next
  case (Cons r rs)
  show ?case
  proof (cases "prefix (frame r) c")
    case True
    then obtain c' where c: "c = frame r @ c'" by (auto elim: prefixE)
    with Cons.prems have "prefix c' (frames rs @ t)" by simp
    moreover have "chain (e + word_of_nat (length (frame r))) rs" using Cons.prems(1) by simp
    ultimately obtain k t' where "k \<le> length rs" "c' = frames (take k rs) @ t'" "torn t'"
      using Cons.IH Cons.prems(2) by blast
    with c show ?thesis by (intro exI [of _ "Suc k"] exI [of _ t']) simp
  next
    case False
    from Cons.prems(3) have "prefix c (frame r @ (frames rs @ t))" by simp
    with False have "prefix c (frame r)" "c \<noteq> frame r"
      by (auto simp: prefix_append)
    with Cons.prems(1) have "torn c" by (auto intro: torn_strict_frame)
    then show ?thesis by (intro exI [of _ 0] exI [of _ c]) simp
  qed
qed

lemma torn_not_frame: "torn t \<Longrightarrow> prefix (frame r) t \<Longrightarrow> rec_ok r \<Longrightarrow> False"
proof -
  assume "torn t" "prefix (frame r) t" "rec_ok r"
  then obtain r' where r': "rec_ok r'" "strict_prefix (frame r) (frame r')"
    unfolding torn_def by (auto dest: prefix_order.le_less_trans)
  then obtain x where x: "frame r' = frame r @ x" "x \<noteq> []" by (auto elim!: strict_prefixE')
  have "length (r_Payload r') = length (r_Payload r)"
    using frame_fields(4) [of r x] frame_fields(4) [of r' "[]"] x(1) r'(1) \<open>rec_ok r\<close>
    by (simp add: rec_ok_def)
  then have "length (frame r') = length (frame r)" by simp
  with x show False by simp
qed

lemma frames_cut_ge:
  assumes "chain e rs" "torn t'" "k \<le> length rs" "s \<le> length rs"
    and "prefix (frames (take s rs)) (frames (take k rs) @ t')"
  shows "s \<le> k"
proof (rule ccontr)
  assume "\<not> s \<le> k"
  then have ks: "k < s" by simp
  then have k: "k < length rs" using assms(4) by simp
  have "take (Suc k) (take s rs) = take (Suc k) rs" using ks by (simp add: min_def)
  then have "frames (take s rs) = frames (take (Suc k) rs) @ frames (drop (Suc k) (take s rs))"
    by (metis append_take_drop_id concat_append map_append)
  also have "frames (take (Suc k) rs) = frames (take k rs) @ frame (rs ! k)"
    using k by (simp add: take_Suc_conv_app_nth)
  finally have "prefix (frame (rs ! k)) t'"
    using assms(5) by (simp add: prefix_order.trans [OF prefixI])
  with assms(1,2) k show False
    by (metis chain_rec_ok nth_mem torn_not_frame)
qed

section \<open>Calls that change nothing\<close>

text \<open>Only the number of calls moved, as after a read.\<close>

definition quiet :: "fsys \<Rightarrow> fsys \<Rightarrow> bool" where
  "quiet fs fs' \<longleftrightarrow> fs_inodes fs' = fs_inodes fs \<and> fs_dir fs' = fs_dir fs \<and> fs_faults fs' = fs_faults fs
     \<and> fs_archived fs' = fs_archived fs"

lemma quiet_refl [simp]: "quiet fs fs"
  by (simp add: quiet_def)

lemma quiet_trans: "quiet fs fs' \<Longrightarrow> quiet fs' fs'' \<Longrightarrow> quiet fs fs''"
  by (simp add: quiet_def)

lemma quiet_data: "quiet fs fs' \<Longrightarrow> fdata fs' i = fdata fs i \<and> fsynced fs' i = fsynced fs i"
  by (simp add: quiet_def fdata_def fsynced_def)

lemma quiet_faults: "quiet fs fs' \<Longrightarrow> fs_faults fs' = fs_faults fs"
  by (simp add: quiet_def)

lemma os_call_cases:
  assumes "os_call fs = (fs', k)"
  shows "quiet fs fs'" "fs_faults fs = no_faults \<Longrightarrow> k = None"
  using assms by (auto simp: os_call_def quiet_def no_faults_def)

lemma os_try_cases:
  assumes "os_try fs act = (fs', r)"
  obtains (fault) "quiet fs fs'" "r = Inl EIO" "fs_faults fs \<noteq> no_faults"
  | (act) fs1 where "quiet fs fs1" "act fs1 = (fs', r)"
  using assms os_call_cases [of fs] unfolding os_try_def by (auto split: prod.splits option.splits)

text \<open>The result of a call that only looks: it is \<open>x\<close>, or an error that a fault caused.\<close>

definition looks :: "fsys \<Rightarrow> 'a \<Rightarrow> fsys \<times> 'a sresult \<Rightarrow> bool" where
  "looks fs x p \<longleftrightarrow> quiet fs (fst p) \<and> (snd p = Inr x \<or> fs_faults fs \<noteq> no_faults \<and> (\<exists>e. snd p = Inl e))"

lemma looks_Inl: "fs_faults fs \<noteq> no_faults \<Longrightarrow> quiet fs fs' \<Longrightarrow> looks fs x (fs', Inl e)"
  and looks_Inr: "quiet fs fs' \<Longrightarrow> looks fs x (fs', Inr x)"
  by (auto simp: looks_def)

lemma looks_quiet: "quiet fs fs' \<Longrightarrow> looks fs' x p \<Longrightarrow> looks fs x p"
  by (auto simp: looks_def dest: quiet_trans quiet_faults)

lemma looks_sbind:
  assumes "looks fs x p" "\<And>fs'. quiet fs fs' \<Longrightarrow> looks fs' y (f fs' x)"
  shows "looks fs y (sbind p f)"
proof (cases p)
  case (Pair fs' r)
  with assms(1) have q: "quiet fs fs'" by (simp add: looks_def)
  show ?thesis
  proof (cases r)
    case (Inl e)
    with assms(1) Pair show ?thesis by (auto simp: looks_def)
  next
    case (Inr z)
    with assms(1) Pair have "z = x" by (auto simp: looks_def)
    with assms(2) q Pair Inr show ?thesis by (auto intro: looks_quiet)
  qed
qed

lemma looks_wrapped: "looks fs x p \<Longrightarrow> looks fs x (wrapped msg p)"
  by (cases p) (auto simp: looks_def wrapped_def split: sum.splits)

lemma looks_try:
  assumes "\<And>fs'. quiet fs fs' \<Longrightarrow> looks fs' x (act fs')"
  shows "looks fs x (os_try fs act)"
proof -
  obtain fs' r where eq: "os_try fs act = (fs', r)" by (cases "os_try fs act")
  then show ?thesis
  proof (cases rule: os_try_cases)
    case fault
    then show ?thesis unfolding eq by (simp add: looks_Inl)
  next
    case (act fs1)
    then show ?thesis unfolding eq using assms looks_quiet by metis
  qed
qed

lemma looks_os:
  "looks fs () (os_MkdirAll fs)" "looks fs (length (fdata fs i)) (os_Size fs i)" "looks fs () (os_Seek fs)"
  "looks fs () (os_Close fs)" "looks fs () (os_Dir fs)"
  unfolding os_MkdirAll_def os_Size_def os_Seek_def os_Close_def os_Dir_def
  by (rule looks_try, simp add: looks_Inr quiet_data)+

lemma looks_Open: "map_of (fs_dir fs) name = Some (DFile i) \<Longrightarrow> looks fs i (os_Open fs name)"
  unfolding os_Open_def by (rule looks_try) (simp add: looks_Inr quiet_def)

lemma looks_syncDir: "looks fs () (syncDir fs)"
  unfolding syncDir_def
proof (rule looks_sbind [OF looks_wrapped [OF looks_os(5)]])
  fix fs' :: fsys
  obtain fs1 r1 where c1: "os_Dir fs' = (fs1, r1)" by (cases "os_Dir fs'")
  obtain fs2 r2 where c2: "os_Dir fs1 = (fs2, r2)" by (cases "os_Dir fs1")
  have "looks fs' () (fs1, r1)" "looks fs1 () (fs2, r2)" using looks_os(5) c1 c2 by metis+
  then show "looks fs' () (case os_Dir fs' of (fs, serr) \<Rightarrow> case os_Dir fs of (fs, cerr) \<Rightarrow>
         (fs, case serr of
                Inl e \<Rightarrow> Inl (gerr_Wrap Unavailable ''sync wal directory'' e)
              | Inr _ \<Rightarrow> (case cerr of
                  Inl e \<Rightarrow> Inl (gerr_Wrap Unavailable ''close wal directory'' e)
                | Inr _ \<Rightarrow> Inr ())))"
    unfolding c1 c2 looks_def by (auto simp: c2 dest: quiet_trans quiet_faults)
qed

lemma readFullAt_cases:
  assumes "readFullAt fs i n off = (fs', b, err)" "0 < n" "off + n \<le> length (fdata fs i)"
  shows "quiet fs fs'" "err = None \<Longrightarrow> b = take n (drop off (fdata fs i))"
    "fs_faults fs = no_faults \<Longrightarrow> err = None" "err \<noteq> Some EOF"
proof -
  obtain fs1 k where c: "os_call fs = (fs1, k)" by (cases "os_call fs")
  note q = os_call_cases [OF c]
  have "quiet fs fs' \<and> (err = None \<longrightarrow> b = take n (drop off (fdata fs i))) \<and>
      (fs_faults fs = no_faults \<longrightarrow> err = None) \<and> err \<noteq> Some EOF"
  proof (cases k)
    case None
    with assms(3) c q have "os_ReadAt fs i n off = (fs1, take n (drop off (fdata fs i)), None)"
      by (simp add: os_ReadAt_def quiet_data)
    with assms q show ?thesis
      unfolding readFullAt_def readFullAt_loop.simps [of fs i n off "[]"] by auto
  next
    case (Some m)
    define d where "d = take (min m (n - 1)) (drop off (fdata fs i))"
    have "os_ReadAt fs i n off = (fs1, d, Some EIO)" "length d < n"
      using Some c q assms(2) by (auto simp: os_ReadAt_def quiet_data d_def)
    with assms(1,2) q Some show ?thesis
      unfolding readFullAt_def readFullAt_loop.simps [of fs i n off "[]"] by (auto simp: EIO_def EOF_def)
  qed
  then show "quiet fs fs'" "err = None \<Longrightarrow> b = take n (drop off (fdata fs i))"
    "fs_faults fs = no_faults \<Longrightarrow> err = None" "err \<noteq> Some EOF" by auto
qed

section \<open>Scanning a segment\<close>

lemma frame_at:
  assumes "d = pre @ frame r @ post" "length pre = off"
  shows "take (28 + length (r_Payload r)) (drop off d) = frame r"
    and "take 24 (drop off d) = take 24 (frame r)"
    and "off + (28 + length (r_Payload r)) \<le> length d"
  using assms by simp_all

lemma payLen_at:
  assumes "rec_ok r" "prefix h (frame r)" "24 \<le> length h"
  shows "le_at 4 20 h = length (r_Payload r)"
proof -
  from assms(2) have "h = take (length h) (frame r)" by (metis prefix_def append_eq_conv_conj)
  then have "le_at 4 20 h = le_at 4 20 (frame r)"
    using le_at_take [of 20 4 "length h" "frame r"] assms(3) by simp
  with frame_fields(4) [of r "[]"] assms(1) show ?thesis by (simp add: rec_ok_def)
qed

lemma scan_torn:
  assumes d: "fdata fs f = pre @ t" "length pre = off" "torn t" "t \<noteq> []"
  shows "looks fs (lsn, off) (scan_loop fs f (length (fdata fs f)) True off lsn)"
proof -
  from d(3) obtain r where r: "rec_ok r" "strict_prefix t (frame r)" by (auto simp: torn_def)
  have len: "length t < 28 + length (r_Payload r)"
    using r(2) prefix_length_less by fastforce
  show ?thesis
  proof (cases "length t < 24")
    case True
    with d show ?thesis
      unfolding scan_loop.simps [of fs f _ True off] by (auto simp: wal_sizes intro: looks_Inr)
  next
    case False
    obtain fs1 h e where rd: "readFullAt fs f 24 off = (fs1, h, e)" by (cases "readFullAt fs f 24 off")
    note c = readFullAt_cases [OF rd]
    have h: "le_at 4 20 h = length (r_Payload r)" if "e = None"
    proof (rule payLen_at [OF r(1)])
      show "prefix h (frame r)" "24 \<le> length h"
        using c(2) that d False r(2)
        by (auto simp: strict_prefix_def intro: prefix_order.trans [OF take_is_prefix])
    qed
    have "le_at 4 20 h \<le> MaxPayload" if "e = None" using h that r(1) by (simp add: rec_ok_def)
    with False d len h rd c show ?thesis
      unfolding scan_loop.simps [of fs f _ True off]
      by (cases e) (auto simp: wal_sizes Let_def intro!: looks_Inl looks_Inr)
  qed
qed

lemma scan_loop_frame:
  assumes d: "fdata fs f = pre @ frame r @ post" "length pre = off" and r: "rec_ok r" "r_LSN r = lsn"
    and IH: "\<And>fs'. quiet fs fs' \<Longrightarrow>
      looks fs' x (scan_loop fs' f (length (fdata fs f)) tn (off + length (frame r)) (lsn + word_of_nat (length (frame r))))"
  shows "looks fs x (scan_loop fs f (length (fdata fs f)) tn off lsn)"
proof -
  obtain fs1 h e where rd: "readFullAt fs f 24 off = (fs1, h, e)" by (cases "readFullAt fs f 24 off")
  note at = frame_at [OF d]
  note c = readFullAt_cases [OF rd]
  have bnd: "off + 24 \<le> length (fdata fs f)" "off < length (fdata fs f)" "\<not> length (fdata fs f) - off < 24"
    using at(3) by simp_all
  show ?thesis
  proof (cases e)
    case (Some err)
    with rd c bnd show ?thesis
      unfolding scan_loop.simps [of fs f _ tn off] by (auto simp: wal_sizes intro: looks_Inl)
  next
    case None
    then have pl: "le_at 4 20 h = length (r_Payload r)" "length (r_Payload r) \<le> MaxPayload"
      using payLen_at [OF r(1), of h] c(2) at(2) bnd r(1) by (auto simp: take_is_prefix rec_ok_def)
    obtain fs2 b e2 where rd2: "readFullAt fs1 f (28 + length (r_Payload r)) off = (fs2, b, e2)"
      by (cases "readFullAt fs1 f (28 + length (r_Payload r)) off")
    have q1: "quiet fs fs1" and d1: "fdata fs1 f = fdata fs f" using c bnd quiet_data by auto
    note c2 = readFullAt_cases [OF rd2, unfolded d1]
    have q2: "quiet fs fs2" using q1 c2(1) at(3) quiet_trans by auto
    show ?thesis
    proof (cases e2)
      case (Some err)
      with None rd rd2 c2 at(3) bnd pl q1 q2 quiet_faults [OF q1] show ?thesis
        unfolding scan_loop.simps [of fs f _ tn off]
        by (auto simp: wal_sizes Let_def intro!: looks_Inl)
    next
      case ok: None
      then have b: "b = frame r" using c2(2) at by simp
      have "scan_loop fs f (length (fdata fs f)) tn off lsn
          = scan_loop fs2 f (length (fdata fs f)) tn (off + length (frame r)) (lsn + word_of_nat (length (frame r)))"
        using None ok rd rd2 at(3) bnd pl r frame_fields(1-4) [OF pl(2), of "[]"] frame_fields(5,6) [OF pl(2)]
        unfolding scan_loop.simps [of fs f _ tn off]
        by (simp add: wal_sizes Let_def b rec_ok_def add.commute add.left_commute)
      then show ?thesis using IH [OF q2] q2 looks_quiet by metis
    qed
  qed
qed

lemma scan_loop_looks:
  assumes "fdata fs f = pre @ frames rs @ t" "length pre = off" "chain lsn rs" "torn t" "t = [] \<or> tn"
  shows "looks fs (endof lsn rs, if t = [] then 0 else off + length (frames rs))
    (scan_loop fs f (length (fdata fs f)) tn off lsn)"
  using assms
proof (induction rs arbitrary: fs pre off lsn)
  case Nil
  then show ?case
    using scan_torn [of fs f pre t off lsn] scan_loop.simps [of fs f _ tn off lsn]
    by (cases "t = []") (auto intro: looks_Inr)
next
  case (Cons r rs)
  have "looks fs (endof lsn (r # rs), if t = [] then 0 else off + length (frames (r # rs)))
      (scan_loop fs f (length (fdata fs f)) tn off lsn)"
  proof (rule scan_loop_frame [of fs f pre r "frames rs @ t"])
    fix fs' assume q: "quiet fs fs'"
    then have d: "fdata fs' f = (pre @ frame r) @ frames rs @ t" "fdata fs f = fdata fs' f"
      using quiet_data Cons.prems(1) by auto
    have "chain (lsn + word_of_nat (length (frame r))) rs" using Cons.prems(3) by simp
    from Cons.IH [OF d(1) _ this Cons.prems(4,5), of "off + length (frame r)"] Cons.prems(2) d(2)
    show "looks fs' (endof lsn (r # rs), if t = [] then 0 else off + length (frames (r # rs)))
        (scan_loop fs' f (length (fdata fs f)) tn (off + length (frame r)) (lsn + word_of_nat (length (frame r))))"
      by (cases "t = []") (simp_all add: add.assoc)
  qed (use Cons.prems in auto)
  then show ?case .
qed

lemma readRecord_looks:
  assumes d: "fdata fs f = pre @ frame r @ post" "length pre = off" and r: "rec_ok r" "r_LSN r = lsn"
    and limit: "off + length (frame r) \<le> limit"
  shows "looks fs (r, off + length (frame r)) (readRecord fs f off limit lsn)"
proof -
  obtain fs1 h e where rd: "readFullAt fs f 24 off = (fs1, h, e)" by (cases "readFullAt fs f 24 off")
  note at = frame_at [OF d]
  note c = readFullAt_cases [OF rd]
  have bnd: "off + 24 \<le> length (fdata fs f)" "\<not> limit - off < 24"
    using at(3) limit by simp_all
  show ?thesis
  proof (cases e)
    case (Some err)
    with rd c bnd show ?thesis
      unfolding readRecord_def by (auto simp: wal_sizes intro: looks_Inl)
  next
    case None
    then have pl: "le_at 4 20 h = length (r_Payload r)" "length (r_Payload r) \<le> MaxPayload"
      using payLen_at [OF r(1), of h] c(2) at(2) bnd r(1) by (auto simp: take_is_prefix rec_ok_def)
    obtain fs2 b e2 where rd2: "readFullAt fs1 f (28 + length (r_Payload r)) off = (fs2, b, e2)"
      by (cases "readFullAt fs1 f (28 + length (r_Payload r)) off")
    have q1: "quiet fs fs1" and d1: "fdata fs1 f = fdata fs f" using c bnd quiet_data by auto
    note c2 = readFullAt_cases [OF rd2, unfolded d1]
    have q2: "quiet fs fs2" using q1 c2(1) at(3) quiet_trans by auto
    show ?thesis
    proof (cases e2)
      case (Some err)
      with None rd rd2 c2 at(3) bnd pl q1 q2 limit quiet_faults [OF q1] show ?thesis
        unfolding readRecord_def by (auto simp: wal_sizes Let_def intro!: looks_Inl)
    next
      case ok: None
      then have b: "b = frame r" using c2(2) at by simp
      have "readRecord fs f off limit lsn = (fs2, Inr (r, off + length (frame r)))"
        using None ok rd rd2 at(3) bnd pl r limit
          frame_fields(1-4) [OF pl(2), of "[]"] frame_fields(5,6) [OF pl(2)]
        unfolding readRecord_def
        by (simp add: wal_sizes Let_def b rec_ok_def add.commute add.left_commute)
      then show ?thesis using q2 looks_Inr by metis
    qed
  qed
qed

lemma readHeader_looks:
  assumes d: "fdata fs f = encodeHeader num first @ rest" and e: "expect = 0 \<or> expect = first"
  shows "looks fs (first, False) (readHeader fs f (length (fdata fs f)) num expect tn)"
proof -
  obtain fs1 b err where rd: "readFullAt fs f 28 0 = (fs1, b, err)" by (cases "readFullAt fs f 28 0")
  note c = readFullAt_cases [OF rd]
  have n: "(if headerSize > length (fdata fs f) then length (fdata fs f) else headerSize) = 28"
    using d by (simp add: wal_sizes)
  show ?thesis
  proof (cases err)
    case None
    with c d have b: "b = encodeHeader num first" by simp
    from None rd d c e show ?thesis
      unfolding readHeader_def n by (auto simp: Let_def header_fields b wal_sizes FormatVersion_def intro: looks_Inr)
  next
    case (Some x)
    with rd d c show ?thesis
      unfolding readHeader_def n by (auto simp: Let_def intro: looks_Inl)
  qed
qed

lemma readHeader_torn:
  assumes d: "strict_prefix (fdata fs f) (encodeHeader num first)"
  shows "looks fs (0, True) (readHeader fs f (length (fdata fs f)) num expect True)"
proof -
  let ?n = "length (fdata fs f)"
  have n: "?n < 28" using prefix_length_less [OF d] by simp
  have tk: "fdata fs f = take ?n (encodeHeader num first)"
    using d by (metis append_eq_conv_conj prefix_def strict_prefix_def)
  have magic: "take 4 (fdata fs f) = Magic" if "4 \<le> ?n"
    using that header_fields(1) [of num first] by (subst tk) (simp add: min_def)
  have version: "word_of_nat (le_at 2 4 (fdata fs f)) = FormatVersion" if "6 \<le> ?n"
    using that header_fields(2) [of num first] le_at_take [of 4 2 ?n "encodeHeader num first"] tk by simp
  obtain fs1 b err where rd: "(if ?n > 0 then readFullAt fs f ?n 0 else (fs, [], None)) = (fs1, b, err)"
    by (cases "if ?n > 0 then readFullAt fs f ?n 0 else (fs, [], None)")
  have c: "quiet fs fs1" "err = None \<Longrightarrow> b = fdata fs f" "fs_faults fs = no_faults \<Longrightarrow> err = None" "err \<noteq> Some EOF"
    using rd readFullAt_cases [of fs f ?n 0 fs1 b err] by (auto split: if_splits)
  show ?thesis
  proof (cases err)
    case None
    with c have b: "b = fdata fs f" by simp
    show ?thesis
      unfolding readHeader_def using n magic version rd c None
      by (auto simp: Let_def b wal_sizes intro: looks_Inr)
  next
    case (Some x)
    with c n rd show ?thesis
      unfolding readHeader_def by (auto simp: Let_def wal_sizes intro: looks_Inl)
  qed
qed

section \<open>Segment names\<close>

fun digits :: "nat \<Rightarrow> nat \<Rightarrow> gostring" where
  "digits 0 n = []"
| "digits (Suc k) n = digits k (n div 10) @ [word_of_nat (48 + n mod 10)]"

lemma length_digits [simp]: "length (digits k n) = k"
  by (induction k arbitrary: n) auto

lemma digits_0: "digits k 0 = replicate k 48"
  by (induction k) (auto simp: replicate_append_same)

lemma length_decimal: "n < 10 ^ k \<Longrightarrow> 0 < k \<Longrightarrow> length (decimal n) \<le> k"
proof (induction k arbitrary: n)
  case (Suc k)
  show ?case
  proof (cases "n < 10")
    case True
    then show ?thesis by (simp add: decimal.simps [of n])
  next
    case False
    with Suc.prems have "n div 10 < 10 ^ k" "0 < k" by (auto intro!: Nat.gr0I)
    with Suc.IH False show ?thesis by (simp add: decimal.simps [of n])
  qed
qed simp

lemma padded_decimal: "n < 10 ^ k \<Longrightarrow> 0 < k \<Longrightarrow> replicate (k - length (decimal n)) 48 @ decimal n = digits k n"
proof (induction k arbitrary: n)
  case (Suc k)
  show ?case
  proof (cases "n < 10")
    case True
    then show ?thesis by (simp add: decimal.simps [of n] digits_0)
  next
    case False
    with Suc.prems have "n div 10 < 10 ^ k" "0 < k" by (auto intro!: Nat.gr0I)
    with Suc.IH False show ?thesis by (simp add: decimal.simps [of n])
  qed
qed simp

lemma unat_digit: "d < 10 \<Longrightarrow> unat (word_of_nat (48 + d) :: byte) = 48 + d"
  by (simp add: unsigned_of_nat take_bit_eq_mod del: of_nat_add)

lemma digits_range: "c \<in> set (digits k n) \<Longrightarrow> 48 \<le> unat c \<and> unat c \<le> 57"
proof (induction k arbitrary: n)
  case (Suc k)
  then show ?case using unat_digit [of "n mod 10"] by (auto simp del: of_nat_add)
qed simp

lemma digits_value:
  "foldl (\<lambda>n c. 10 * n + (unat c - 48)) a (digits k n) = a * 10 ^ k + n mod 10 ^ k"
proof (induction k arbitrary: n)
  case (Suc k)
  have "n mod 10 ^ Suc k = 10 * (n div 10 mod 10 ^ k) + n mod 10"
    by (simp add: mod_mult2_eq)
  with Suc unat_digit [of "n mod 10"] show ?case by (simp del: of_nat_add)
qed simp

lemma snoc_less:
  fixes xs ys :: "'a::linorder list"
  assumes "length xs = length ys"
  shows "xs @ [a] < ys @ [b] \<longleftrightarrow> xs < ys \<or> xs = ys \<and> a < b"
  using assms by (induction xs ys rule: list_induct2) auto

lemma digits_inj:
  assumes "m < 10 ^ k" "n < 10 ^ k"
  shows "digits k m = digits k n \<longleftrightarrow> m = n"
proof
  assume "digits k m = digits k n"
  then have "m mod 10 ^ k = n mod 10 ^ k"
    using digits_value [of 0 k m] digits_value [of 0 k n] by simp
  with assms show "m = n" by simp
qed simp

lemma digits_less: "m < 10 ^ k \<Longrightarrow> n < 10 ^ k \<Longrightarrow> digits k m < digits k n \<longleftrightarrow> m < n"
proof (induction k arbitrary: m n)
  case (Suc k)
  then have b: "m div 10 < 10 ^ k" "n div 10 < 10 ^ k" by auto
  have d: "(word_of_nat (48 + m mod 10) :: byte) < word_of_nat (48 + n mod 10) \<longleftrightarrow> m mod 10 < n mod 10"
    unfolding word_less_nat_alt using unat_digit [of "m mod 10"] unat_digit [of "n mod 10"] by simp
  have "digits (Suc k) m < digits (Suc k) n \<longleftrightarrow> m div 10 < n div 10 \<or> m div 10 = n div 10 \<and> m mod 10 < n mod 10"
    unfolding digits.simps by (subst snoc_less) (simp_all only: length_digits Suc.IH [OF b] digits_inj [OF b] d)
  also have "\<dots> \<longleftrightarrow> m < n"
  proof -
    have "a < c \<or> a = c \<and> p < q \<longleftrightarrow> 10 * a + p < 10 * c + q" if "p < 10" "q < 10" for a c p q :: nat
      using that by arith
    from this [of "m mod 10" "n mod 10" "m div 10" "n div 10"] show ?thesis by simp
  qed
  finally show ?case .
qed simp

definition seg_num_ok :: "uint64 \<Rightarrow> bool" where
  "seg_num_ok n \<longleftrightarrow> 0 < unat n \<and> unat n < 10 ^ 12"

lemma segmentName_digits: "seg_num_ok n \<Longrightarrow> segmentName n = digits 12 (unat n) @ wal_suffix"
  using padded_decimal [of "unat n" 12] by (simp add: segmentName_def seg_num_ok_def Let_def)

lemma segmentName_inj: "seg_num_ok m \<Longrightarrow> seg_num_ok n \<Longrightarrow> segmentName m = segmentName n \<longleftrightarrow> m = n"
  by (simp add: segmentName_digits digits_inj seg_num_ok_def word_unat_eq_iff)

lemma segmentName_less: "seg_num_ok m \<Longrightarrow> seg_num_ok n \<Longrightarrow> segmentName m < segmentName n \<longleftrightarrow> m < n"
proof -
  assume "seg_num_ok m" "seg_num_ok n"
  moreover have "a @ s < b @ s \<longleftrightarrow> a < b" if "length a = length b" for a b s :: bytes
    using that by (induction a b rule: list_induct2) auto
  ultimately show ?thesis
    by (simp add: segmentName_digits digits_less seg_num_ok_def word_less_nat_alt)
qed

lemma parse_segmentName: "seg_num_ok n \<Longrightarrow> parseSegmentName (segmentName n) = Some n"
proof -
  assume ok: "seg_num_ok n"
  have "parseUint (digits 12 (unat n)) = Some n"
    using ok digits_value [of 0 12 "unat n"]
    by (auto simp: parseUint_def seg_num_ok_def Let_def)
  moreover have "\<not> list_ex (\<lambda>c. c < 48 \<or> c > 57) (digits 12 (unat n))"
    using digits_range [of _ 12 "unat n"] by (force simp: list_ex_iff word_less_nat_alt)
  moreover have "n \<noteq> 0" using ok by (auto simp: seg_num_ok_def)
  ultimately show ?thesis
    using segmentName_digits [OF ok] by (simp add: parseSegmentName_def wal_suffix_def)
qed

lemma parse_SomeD: "parseSegmentName name = Some n \<Longrightarrow> name = segmentName n \<and> seg_num_ok n"
proof -
  assume p: "parseSegmentName name = Some n"
  then have name: "segmentName n = name" "n \<noteq> 0" and len: "length name = 16"
    by (auto simp: parseSegmentName_def wal_suffix_def split: if_splits option.splits)
  have "unat n < 10 ^ 12"
  proof (rule ccontr)
    assume big: "\<not> unat n < 10 ^ 12"
    have "k < length (decimal m)" if "10 ^ k \<le> m" for k m
      using that
    proof (induction k arbitrary: m)
      case 0
      then show ?case by (simp add: decimal.simps [of m])
    next
      case (Suc k)
      have "10 ^ k * 10 \<le> m" using Suc.prems by (simp add: mult.commute)
      then have le: "10 ^ k \<le> m div 10" by (simp add: less_eq_div_iff_mult_less_eq)
      moreover have "(1::nat) \<le> 10 ^ k" by simp
      ultimately have "1 \<le> m div 10" by (rule le_trans [rotated])
      then have "\<not> m < 10" by (cases "m < 10") simp_all
      with Suc.IH [OF le] show ?case by (simp add: decimal.simps [of m])
    qed
    from this [of 12 "unat n"] big have "12 < length (decimal (unat n))" by simp
    then have "16 < length (segmentName n)" by (simp add: segmentName_def wal_suffix_def Let_def)
    with name len show False by simp
  qed
  with name show ?thesis by (auto simp: seg_num_ok_def unat_gt_0)
qed

end
