(* ===== verification/WalDisk.thy ===== *)
theory WalDisk
  imports WalFrames
begin

text \<open>
  Directories of segments. \<open>disk\<close> says what a directory holds between two runs of the log: whole
  segments that follow on from one another, and a last file of which only a lower bound \<open>low\<close> is
  certain and which may end in a torn frame or even a torn header. A crash keeps \<open>disk\<close>, and so
  does an \<open>Open\<close> that fails half-way; an \<open>Open\<close> that succeeds makes the log \<open>live\<close>.
\<close>

section \<open>What the directory holds\<close>

type_synonym wseg = "uint64 \<times> LSN \<times> Record list"

abbreviation recs :: "wseg list \<Rightarrow> Record list" where
  "recs ss \<equiv> concat (map (\<lambda>(num, first, rs). rs) ss)"

definition fs_wf :: "fsys \<Rightarrow> bool" where
  "fs_wf fs \<longleftrightarrow> distinct (map fst (fs_dir fs)) \<and>
     (\<forall>n i. map_of (fs_dir fs) n = Some (DFile i) \<longrightarrow> i < length (fs_inodes fs)) \<and>
     (\<forall>n n' i. map_of (fs_dir fs) n = Some (DFile i) \<longrightarrow> map_of (fs_dir fs) n' = Some (DFile i) \<longrightarrow> n = n') \<and>
     (\<forall>n. map_of (fs_dir fs) (segmentName n) \<noteq> Some DDir)"

definition seg_file :: "fsys \<Rightarrow> uint64 \<Rightarrow> nat \<Rightarrow> bool" where
  "seg_file fs num i \<longleftrightarrow> map_of (fs_dir fs) (segmentName num) = Some (DFile i)"

definition seg_nums :: "fsys \<Rightarrow> uint64 set" where
  "seg_nums fs = {n. seg_num_ok n \<and> (\<exists>i. seg_file fs n i)}"

definition whole :: "fsys \<Rightarrow> wseg \<Rightarrow> bool" where
  "whole fs sg \<longleftrightarrow> (case sg of (num, first, rs) \<Rightarrow> rs \<noteq> [] \<and>
     (\<exists>i. seg_file fs num i \<and> fdata fs i = seg_bytes num first rs \<and> fsynced fs i = seg_bytes num first rs))"

fun segs_ok :: "wseg list \<Rightarrow> bool" where
  "segs_ok [] \<longleftrightarrow> True"
| "segs_ok [(n, f, rs)] \<longleftrightarrow> chain f rs \<and> seg_num_ok n"
| "segs_ok ((n, f, rs) # (n', f', rs') # ss) \<longleftrightarrow>
     chain f rs \<and> seg_num_ok n \<and> n' = n + 1 \<and> f' = endof f rs \<and> segs_ok ((n', f', rs') # ss)"

text \<open>
  Of the last segment, \<open>g\<close> says what is certain: nothing, not even the header (\<open>None\<close>), or the
  header and a number of records. The contents are the records of the segment and a torn frame, or
  a torn header; the durable contents lie between what is certain and that.
\<close>

definition low :: "uint64 \<Rightarrow> LSN \<Rightarrow> Record list \<Rightarrow> nat option \<Rightarrow> bytes" where
  "low num first rs g = (case g of None \<Rightarrow> [] | Some s \<Rightarrow> seg_bytes num first (take s rs))"

definition sure :: "nat option \<Rightarrow> nat" where
  "sure g = (case g of None \<Rightarrow> 0 | Some s \<Rightarrow> s)"

definition g_ok :: "Record list \<Rightarrow> nat option \<Rightarrow> bool" where
  "g_ok rs g \<longleftrightarrow> (case g of None \<Rightarrow> True | Some s \<Rightarrow> s \<le> length rs)"

definition image_of :: "uint64 \<Rightarrow> LSN \<Rightarrow> Record list \<Rightarrow> nat option \<Rightarrow> bytes \<Rightarrow> bool" where
  "image_of num first rs g b \<longleftrightarrow> prefix (low num first rs g) b \<and> (\<exists>k t. torn t \<and> prefix b (seg_bytes num first (take k rs) @ t))"

definition data_of :: "uint64 \<Rightarrow> LSN \<Rightarrow> Record list \<Rightarrow> nat option \<Rightarrow> bytes \<Rightarrow> bool" where
  "data_of num first rs g b \<longleftrightarrow>
     (\<exists>t. torn t \<and> b = seg_bytes num first rs @ t) \<or> (g = None \<and> rs = [] \<and> strict_prefix b (encodeHeader num first))"

definition tail_ok :: "fsys \<Rightarrow> wseg \<Rightarrow> nat option \<Rightarrow> bool" where
  "tail_ok fs sg g \<longleftrightarrow> (case sg of (num, first, rs) \<Rightarrow> g_ok rs g \<and>
     (\<exists>i. seg_file fs num i \<and> data_of num first rs g (fdata fs i) \<and> image_of num first rs g (fsynced fs i)))"

definition disk :: "fsys \<Rightarrow> wseg list \<Rightarrow> wseg \<Rightarrow> nat option \<Rightarrow> bool" where
  "disk fs ss sg g \<longleftrightarrow> fs_wf fs \<and> segs_ok (ss @ [sg]) \<and> (\<forall>s\<in>set ss. whole fs s) \<and> tail_ok fs sg g
     \<and> seg_nums fs = fst ` set (ss @ [sg])"

definition fresh :: "fsys \<Rightarrow> bool" where
  "fresh fs \<longleftrightarrow> fs_wf fs \<and> seg_nums fs = {}"

text \<open>
  The directory holds the records \<open>all\<close>, in segments from number \<open>n0\<close> and LSN \<open>base\<close> on, the first
  \<open>d\<close> of them for certain.
\<close>

definition start :: "wseg list \<Rightarrow> uint64 \<times> LSN" where
  "start ss = (case hd ss of (num, first, rs) \<Rightarrow> (num, first))"

definition stored :: "fsys \<Rightarrow> uint64 \<Rightarrow> LSN \<Rightarrow> Record list \<Rightarrow> nat \<Rightarrow> bool" where
  "stored fs n0 base all d \<longleftrightarrow>
     (fresh fs \<and> n0 = 1 \<and> base = 1 \<and> all = [] \<and> d = 0) \<or>
     (\<exists>ss num first rs g. disk fs ss (num, first, rs) g \<and> all = recs ss @ rs \<and>
        d \<le> length (recs ss) + sure g \<and> start (ss @ [(num, first, rs)]) = (n0, base) \<and>
        (g = None \<and> ss = [] \<longrightarrow> num = 1 \<and> first = 1))"

lemma segs_ok_Cons: "segs_ok (s # ss) \<Longrightarrow> segs_ok ss"
  by (cases s; cases ss) auto

lemma segs_ok_snoc:
  "segs_ok (ss @ [(n, f, rs)]) \<longleftrightarrow> segs_ok ss \<and> chain f rs \<and> seg_num_ok n \<and>
     (ss \<noteq> [] \<longrightarrow> (case last ss of (n', f', rs') \<Rightarrow> n = n' + 1 \<and> f = endof f' rs'))"
  by (induction ss rule: segs_ok.induct) auto

lemma stored_diskI:
  assumes "disk fs ss (num, first, rs) g" "start (ss @ [(num, first, rs)]) = (n0, base)"
    "g = None \<Longrightarrow> ss = [] \<Longrightarrow> num = 1 \<and> first = 1"
    "all = recs ss @ rs" "d \<le> length (recs ss) + sure g"
  shows "stored fs n0 base all d"
  unfolding stored_def using assms by blast

section \<open>Crashes\<close>

lemma crashed_file:
  assumes "crashed fs fs'"
  shows "fs_dir fs' = fs_dir fs" "length (fs_inodes fs') = length (fs_inodes fs)"
    and "fsynced fs' i = fdata fs' i"
    and "prefix (fdata fs' i) (fdata fs i) \<or> prefix (fdata fs' i) (fsynced fs i)"
    and "prefix p (fdata fs i) \<Longrightarrow> prefix p (fsynced fs i) \<Longrightarrow> prefix p (fdata fs' i)"
  using assms by (auto simp: crashed_def list_all2_conv_all_nth fdata_def fsynced_def file_crash_def)

lemma image_cases:
  assumes im: "image_of num first rs g b" and ch: "chain first rs" and g: "g_ok rs g"
  obtains (torn_header) "g = None" "strict_prefix b (encodeHeader num first)"
  | (records) k t where "sure g \<le> k" "k \<le> length rs" "b = seg_bytes num first (take k rs) @ t" "torn t"
proof (cases "prefix (encodeHeader num first) b")
  case False
  have "g = None" using im False unfolding image_of_def low_def seg_bytes_def
    by (cases g) (auto dest: append_prefixD)
  moreover have "prefix b (encodeHeader num first)"
    using im False unfolding image_of_def seg_bytes_def by (auto simp: prefix_append)
  ultimately show ?thesis using torn_header False by (auto simp: strict_prefix_def)
next
  case True
  then obtain c where c: "b = encodeHeader num first @ c" by (auto elim: prefixE)
  from im obtain t m where "torn t" "prefix c (frames (take m rs) @ t)" unfolding image_of_def c seg_bytes_def by auto
  then obtain k' t' where k': "k' \<le> length (take m rs)" "c = frames (take k' (take m rs)) @ t'" "torn t'"
    using frames_cut [OF chain_take [OF ch]] by blast
  define k where "k = min k' m"
  have k: "k \<le> length rs" "c = frames (take k rs) @ t'" "torn t'" using k' by (auto simp: k_def)
  moreover have "sure g \<le> k"
  proof (cases g)
    case (Some s)
    then show ?thesis
      using im g k frames_cut_ge [OF ch k(3,1), of s]
      by (auto simp: image_of_def low_def c seg_bytes_def sure_def g_ok_def)
  qed (simp add: sure_def)
  ultimately show ?thesis using records c by (auto simp: seg_bytes_def)
qed

lemma low_take: "g_ok rs g \<Longrightarrow> sure g \<le> k \<Longrightarrow> low num first (take k rs) g = low num first rs g"
  by (cases g) (auto simp: low_def sure_def min_def g_ok_def)

lemma g_ok_take: "g_ok rs g \<Longrightarrow> sure g \<le> k \<Longrightarrow> g_ok (take k rs) g"
  by (cases g) (auto simp: sure_def g_ok_def)

text \<open>What any prefix of the contents that keeps the certain part is made of.\<close>

lemma image_of_data: "data_of num first rs g b \<Longrightarrow> prefix (low num first rs g) b \<Longrightarrow> image_of num first rs g b"
  unfolding data_of_def image_of_def seg_bytes_def
  by (auto simp: strict_prefix_def intro: exI [of _ "[]"] intro!: prefix_prefix exI [of _ "length rs"])

lemma image_of_extend: "image_of num first rs g b \<Longrightarrow> g_ok rs g \<Longrightarrow> image_of num first (rs @ rs') g b"
proof -
  assume im: "image_of num first rs g b" and g: "g_ok rs g"
  have "low num first (rs @ rs') g = low num first rs g"
    using g by (cases g) (auto simp: low_def g_ok_def)
  moreover obtain k t where "torn t" "prefix b (seg_bytes num first (take k rs) @ t)"
    using im by (auto simp: image_of_def)
  then have "torn t \<and> prefix b (seg_bytes num first (take (min k (length rs)) (rs @ rs')) @ t)"
    by (cases "k \<le> length rs") (auto simp: min_def)
  then have "\<exists>k t. torn t \<and> prefix b (seg_bytes num first (take k (rs @ rs')) @ t)" by blast
  ultimately show ?thesis using im unfolding image_of_def by simp
qed

lemma data_of_low: "data_of num first rs g b \<Longrightarrow> g_ok rs g \<Longrightarrow> prefix (low num first rs g) b"
proof -
  assume d: "data_of num first rs g b" and g: "g_ok rs g"
  have "prefix (seg_bytes num first (take s rs)) (seg_bytes num first rs @ t)" for s t
    using seg_bytes_append [of num first "take s rs" "drop s rs"] by (auto intro: prefix_prefix)
  with d g show ?thesis by (cases g) (auto simp: data_of_def low_def)
qed

lemma image_shrinks:
  assumes im: "image_of num first rs g b" and ch: "chain first rs" and g: "g_ok rs g"
  obtains k where "sure g \<le> k" "k \<le> length rs" "data_of num first (take k rs) g b" "image_of num first (take k rs) g b"
    "g_ok (take k rs) g" "chain first (take k rs)"
proof (cases rule: image_cases [OF im ch g])
  case 1
  then have d: "data_of num first (take 0 rs) g b" "prefix (low num first (take 0 rs) g) b" by (auto simp: data_of_def low_def)
  show ?thesis
    by (rule that [of 0, OF _ _ d(1) image_of_data [OF d]]) (use 1 in \<open>auto simp: sure_def g_ok_def\<close>)
next
  case (2 k t)
  then have d: "data_of num first (take k rs) g b" by (auto simp: data_of_def)
  moreover have "image_of num first (take k rs) g b"
    using image_of_data [OF d] im 2 low_take [OF g 2(1)] by (simp add: image_of_def)
  ultimately show ?thesis using that 2 chain_take [OF ch] g_ok_take [OF g] by blast
qed

lemma crashed_image:
  assumes "crashed fs fs'" "image_of num first rs g (fdata fs i)" "image_of num first rs g (fsynced fs i)"
  shows "image_of num first rs g (fdata fs' i)" "fsynced fs' i = fdata fs' i"
  using assms(2,3) crashed_file(3,4) [OF assms(1), of i] crashed_file(5) [OF assms(1), of "low num first rs g" i]
  unfolding image_of_def by (auto intro: prefix_order.trans)

lemma crashed_same:
  assumes "crashed fs fs'" "fdata fs i = b" "fsynced fs i = b"
  shows "fdata fs' i = b" "fsynced fs' i = b"
  using assms(2,3) crashed_file(3,4) [OF assms(1), of i] crashed_file(5) [OF assms(1), of b i]
  by (auto intro: prefix_order.antisym)

lemma crashed_seg:
  assumes "crashed fs fs'"
  shows "seg_file fs' = seg_file fs" "seg_nums fs' = seg_nums fs" "fs_wf fs' = fs_wf fs"
  using crashed_file(1,2) [OF assms] by (auto simp: seg_file_def seg_nums_def fs_wf_def fun_eq_iff)

lemma crashed_whole: "crashed fs fs' \<Longrightarrow> whole fs s \<Longrightarrow> whole fs' s"
  by (cases s) (auto simp: whole_def crashed_seg dest: crashed_same)

lemma disk_image:
  assumes "disk fs ss (num, first, rs) g" "seg_file fs num i"
  shows "image_of num first rs g (fdata fs i)" "image_of num first rs g (fsynced fs i)"
    "data_of num first rs g (fdata fs i)" "g_ok rs g" "chain first rs"
  using assms image_of_data data_of_low by (auto simp: disk_def tail_ok_def seg_file_def segs_ok_snoc)

lemma crashed_disk:
  assumes cr: "crashed fs fs'" and d: "disk fs ss (num, first, rs) g"
  obtains k where "sure g \<le> k" "k \<le> length rs" "disk fs' ss (num, first, take k rs) g"
proof -
  obtain i where i: "seg_file fs num i" using d by (auto simp: disk_def tail_ok_def)
  note im = disk_image [OF d i]
  note c = crashed_image [OF cr im(1,2)]
  obtain k where k: "sure g \<le> k" "k \<le> length rs" "data_of num first (take k rs) g (fdata fs' i)"
    "image_of num first (take k rs) g (fdata fs' i)" "g_ok (take k rs) g" "chain first (take k rs)"
    by (rule image_shrinks [OF c(1) im(5,4)])
  have "disk fs' ss (num, first, take k rs) g"
    using d k i c(2) crashed_seg [OF cr] crashed_whole [OF cr]
    by (auto simp: disk_def tail_ok_def segs_ok_snoc)
  with k that show ?thesis by blast
qed

lemma crashed_stored:
  assumes "crashed fs fs'" "stored fs n0 base all d"
  obtains k where "d \<le> k" "k \<le> length all" "stored fs' n0 base (take k all) d"
proof -
  from assms(2) consider (fresh) "fresh fs" "n0 = 1" "base = 1" "all = []" "d = 0"
    | (disk) ss num first rs g where "disk fs ss (num, first, rs) g" "all = recs ss @ rs" "d \<le> length (recs ss) + sure g"
        "start (ss @ [(num, first, rs)]) = (n0, base)" "g = None \<and> ss = [] \<longrightarrow> num = 1 \<and> first = 1"
    unfolding stored_def by blast
  then show ?thesis
  proof cases
    case fresh
    then show ?thesis using that [of 0] crashed_seg [OF assms(1)] by (simp add: stored_def fresh_def)
  next
    case (disk ss num first rs g)
    obtain k where k: "sure g \<le> k" "k \<le> length rs" "disk fs' ss (num, first, take k rs) g"
      by (rule crashed_disk [OF assms(1) disk(1)])
    moreover have "start (ss @ [(num, first, take k rs)]) = (n0, base)"
      using disk(4) by (cases ss) (auto simp: start_def)
    ultimately have "stored fs' n0 base (recs ss @ take k rs) d" using disk by (intro stored_diskI) auto
    then show ?thesis using that [of "length (recs ss) + k"] disk k(1,2) by simp
  qed
qed

lemma quiet_seg:
  assumes "quiet fs fs'"
  shows "seg_file fs' = seg_file fs" "seg_nums fs' = seg_nums fs" "fs_wf fs' = fs_wf fs"
  using assms by (auto simp: quiet_def seg_file_def seg_nums_def fs_wf_def fun_eq_iff)

lemma quiet_whole: "quiet fs fs' \<Longrightarrow> whole fs' s = whole fs s"
  by (simp add: whole_def quiet_seg quiet_data)

lemma quiet_disk: "quiet fs fs' \<Longrightarrow> disk fs' ss sg g = disk fs ss sg g"
  by (simp add: disk_def tail_ok_def quiet_seg quiet_whole quiet_data)

lemma stored_mono: "stored fs n0 base all d \<Longrightarrow> d' \<le> d \<Longrightarrow> stored fs n0 base all d'"
  unfolding stored_def by (elim disjE exE conjE, simp, blast intro: le_trans)

lemma quiet_stored: "quiet fs fs' \<Longrightarrow> stored fs' n0 base all d = stored fs n0 base all d"
  by (simp add: stored_def fresh_def quiet_seg quiet_disk)

section \<open>Listing\<close>

lemma seg_num_Suc: "seg_num_ok n \<Longrightarrow> seg_num_ok (n + 1) \<Longrightarrow> n < n + 1 \<and> unat (n + 1) = unat n + 1"
proof -
  assume "seg_num_ok n"
  then have "unat n + 1 < 2 ^ 64" by (simp add: seg_num_ok_def)
  then have "unat (n + 1) = unat n + 1" by (simp add: unat_word_ariths)
  then show ?thesis by (simp add: word_less_nat_alt)
qed

lemma segs_ok_nums:
  assumes "segs_ok ss"
  shows "sorted (map fst ss)" "distinct (map fst ss)" "\<forall>n\<in>set (map fst ss). seg_num_ok n"
    "list_ordered (map fst ss)" "list_skip (map fst ss) = None"
proof -
  have "sorted_wrt (<) (map fst ss) \<and> (\<forall>n\<in>set (map fst ss). seg_num_ok n) \<and>
      list_ordered (map fst ss) \<and> list_skip (map fst ss) = None"
    using assms
  proof (induction ss rule: segs_ok.induct)
    case (3 n f rs n' f' rs' ss)
    have "segs_ok ((n', f', rs') # ss)" using 3(2) unfolding segs_ok.simps by blast
    from 3(1) [OF this] have ih: "sorted_wrt (<) (n' # map fst ss)" "\<forall>m\<in>set (n' # map fst ss). seg_num_ok m"
      "list_ordered (n' # map fst ss)" "list_skip (n' # map fst ss) = None" by simp_all
    have n: "seg_num_ok n" "n' = n + 1" using 3(2) by simp_all
    with ih(2) seg_num_Suc [of n] have "n < n'" by simp
    with ih n show ?case by auto
  qed auto
  then show "sorted (map fst ss)" "distinct (map fst ss)" "\<forall>n\<in>set (map fst ss). seg_num_ok n"
    "list_ordered (map fst ss)" "list_skip (map fst ss) = None"
    by (auto simp: strict_sorted_iff)
qed

lemma listSegments_looks:
  assumes wf: "fs_wf fs" and ss: "segs_ok ss" "seg_nums fs = fst ` set ss"
  shows "looks fs (map segmentName (map fst ss)) (listSegments fs)"
proof -
  define names where "names = map fst (filter (\<lambda>(n, d). \<not> d \<and> parseSegmentName n \<noteq> None)
    (map (\<lambda>(n, e). (n, e = DDir)) (sort_key fst (fs_dir fs))))"
  have dist: "distinct (map fst (fs_dir fs))" using wf by (simp add: fs_wf_def)
  have "set names = {n. (\<exists>i. (n, DFile i) \<in> set (fs_dir fs)) \<and> parseSegmentName n \<noteq> None}"
  proof -
    have "e = DDir \<longleftrightarrow> (\<forall>i. e \<noteq> DFile i)" for e by (cases e) auto
    then show ?thesis unfolding names_def by (force simp: image_iff)
  qed
  also have "\<dots> = segmentName ` seg_nums fs"
    using dist parse_segmentName parse_SomeD by (fastforce simp: seg_nums_def seg_file_def)
  finally have set_names: "set names = set (map segmentName (map fst ss))" using ss(2) by auto
  have names_f: "names = map fst (filter (\<lambda>(n, e). e \<noteq> DDir \<and> parseSegmentName n \<noteq> None) (sort_key fst (fs_dir fs)))"
    unfolding names_def by (simp add: filter_map comp_def case_prod_unfold)
  have sorted_names: "sorted names" "distinct names"
    unfolding names_f using dist by (auto simp: distinct_map sorted_filter distinct_map_filter intro: inj_on_subset)
  have "sorted_wrt (<) (map segmentName ns)" if "sorted_wrt (<) ns" "\<forall>n\<in>set ns. seg_num_ok n" for ns
    using that by (induction ns) (auto simp: segmentName_less)
  then have "sorted_wrt (<) (map segmentName (map fst ss))"
    using segs_ok_nums(1-3) [OF ss(1)] by (metis strict_sorted_iff)
  then have "names = map segmentName (map fst ss)"
    using sorted_names set_names by (intro sorted_distinct_set_unique) (auto simp: strict_sorted_iff)
  moreover have "map (\<lambda>n. the (parseSegmentName n)) (map segmentName (map fst ss)) = map fst ss"
    using segs_ok_nums(3) [OF ss(1)] by (auto simp: parse_segmentName)
  ultimately have nums: "map (\<lambda>n. the (parseSegmentName n)) names = map fst ss" by simp
  have rd: "looks fs (map (\<lambda>(n, e). (n, e = DDir)) (sort_key fst (fs_dir fs))) (os_ReadDir fs)"
    unfolding os_ReadDir_def by (rule looks_try) (simp add: looks_Inr quiet_def)
  obtain fs' r where c: "os_ReadDir fs = (fs', r)" by (cases "os_ReadDir fs")
  have "listSegments fs = (fs', Inr names)"
    if "r = Inr (map (\<lambda>(n, e). (n, e = DDir)) (sort_key fst (fs_dir fs)))"
    unfolding listSegments_def c that prod.case sum.case Let_def names_def [symmetric] nums
    using segs_ok_nums(4,5) [OF ss(1)] by simp
  then show ?thesis
    using rd \<open>names = map segmentName (map fst ss)\<close> by (auto simp: looks_def listSegments_def c)
qed

section \<open>Changing one file\<close>

definition upd :: "fsys \<Rightarrow> nat \<Rightarrow> bytes \<Rightarrow> bytes \<Rightarrow> fsys" where
  "upd fs i d sy = fs\<lparr>fs_inodes := (fs_inodes fs)[i := \<lparr>wf_data = d, wf_synced = sy\<rparr>]\<rparr>"

lemma upd_data:
  "i < length (fs_inodes fs) \<Longrightarrow> fdata (upd fs i d sy) j = (if j = i then d else fdata fs j)"
  "i < length (fs_inodes fs) \<Longrightarrow> fsynced (upd fs i d sy) j = (if j = i then sy else fsynced fs j)"
  by (auto simp: upd_def fdata_def fsynced_def)

lemma upd_seg [simp]:
  "seg_file (upd fs i d sy) = seg_file fs" "seg_nums (upd fs i d sy) = seg_nums fs"
  "fs_wf (upd fs i d sy) = fs_wf fs" "fs_faults (upd fs i d sy) = fs_faults fs"
  "fs_archived (upd fs i d sy) = fs_archived fs"
  by (auto simp: upd_def seg_file_def seg_nums_def fs_wf_def fun_eq_iff)

lemma set_data_upd: "set_data fs i d = upd fs i d (fsynced fs i)"
  by (simp add: set_data_def upd_def)

lemma seg_file_inode: "fs_wf fs \<Longrightarrow> seg_file fs n i \<Longrightarrow> i < length (fs_inodes fs)"
  by (simp add: fs_wf_def seg_file_def)

lemma seg_file_unique: "seg_file fs n i \<Longrightarrow> seg_file fs n j \<Longrightarrow> i = j"
  by (simp add: seg_file_def)

lemma seg_file_inj: "fs_wf fs \<Longrightarrow> seg_file fs n i \<Longrightarrow> seg_file fs m i \<Longrightarrow> seg_num_ok n \<Longrightarrow> seg_num_ok m \<Longrightarrow> n = m"
  unfolding fs_wf_def seg_file_def by (metis segmentName_inj)

lemma whole_upd:
  assumes "fs_wf fs" "seg_file fs num i" "seg_num_ok num" "whole fs sg" "seg_num_ok (fst sg)" "fst sg \<noteq> num"
  shows "whole (upd fs i d sy) sg"
proof -
  obtain n f rs where sg: "sg = (n, f, rs)" by (cases sg)
  with assms(4) obtain j where j: "seg_file fs n j" "rs \<noteq> []" "fdata fs j = seg_bytes n f rs" "fsynced fs j = seg_bytes n f rs"
    by (auto simp: whole_def)
  have "j \<noteq> i" using seg_file_inj [OF assms(1,2)] j(1) assms(3,5,6) sg by auto
  with j show ?thesis using upd_data [OF seg_file_inode [OF assms(1,2)]] by (auto simp: whole_def sg)
qed

lemma segs_ok_last:
  assumes "segs_ok (ss @ [sg])"
  shows "seg_num_ok (fst sg)" "fst sg \<notin> fst ` set ss" "s \<in> set ss \<Longrightarrow> seg_num_ok (fst s)"
  using segs_ok_nums(2,3) [OF assms] by auto

lemma disk_upd:
  assumes d: "disk fs ss (num, first, rs) g" "seg_file fs num i" and g: "g_ok rs' g'"
    and im: "data_of num first rs' g' d" "image_of num first rs' g' sy" and ch: "chain first rs'"
  shows "disk (upd fs i d sy) ss (num, first, rs') g'"
proof -
  from d have wf: "fs_wf fs" and ok: "segs_ok (ss @ [(num, first, rs)])" and wh: "\<forall>s\<in>set ss. whole fs s"
    and nums: "seg_nums fs = fst ` set (ss @ [(num, first, rs)])"
    by (auto simp: disk_def)
  note l = segs_ok_last [OF ok, simplified]
  have "\<forall>s\<in>set ss. whole (upd fs i d sy) s"
    using wh l by (auto intro!: whole_upd [OF wf d(2)])
  moreover have "segs_ok (ss @ [(num, first, rs')])" using ok ch by (simp add: segs_ok_snoc)
  moreover have "tail_ok (upd fs i d sy) (num, first, rs') g'"
    using d(2) g im upd_data [OF seg_file_inode [OF wf d(2)]] by (auto simp: tail_ok_def)
  ultimately show ?thesis using wf nums by (simp add: disk_def)
qed

section \<open>Creating and removing a file\<close>

definition closed_disk :: "fsys \<Rightarrow> wseg list \<Rightarrow> bool" where
  "closed_disk fs ss \<longleftrightarrow> fs_wf fs \<and> segs_ok ss \<and> (\<forall>s\<in>set ss. whole fs s) \<and> seg_nums fs = fst ` set ss"

lemma closed_disk_quiet: "quiet fs fs' \<Longrightarrow> closed_disk fs' ss = closed_disk fs ss"
  by (simp add: closed_disk_def quiet_seg quiet_whole)

lemma image_of_whole: "image_of num first rs (Some (length rs)) (seg_bytes num first rs)"
  unfolding image_of_def by (auto simp: low_def intro: exI [of _ "[]"] intro!: exI [of _ "length rs"])

lemma data_of_whole: "data_of num first rs g (seg_bytes num first rs)"
  by (auto simp: data_of_def)

lemma closed_disk_snoc:
  "closed_disk fs (ss @ [(num, first, rs)]) \<Longrightarrow> disk fs ss (num, first, rs) (Some (length rs))"
  unfolding closed_disk_def disk_def tail_ok_def
  by (auto simp: whole_def [of fs "(num, first, rs)"] image_of_whole data_of_whole g_ok_def)

definition add_file :: "fsys \<Rightarrow> gostring \<Rightarrow> bytes \<Rightarrow> bytes \<Rightarrow> fsys" where
  "add_file fs name d sy = fs\<lparr>fs_inodes := fs_inodes fs @ [\<lparr>wf_data = d, wf_synced = sy\<rparr>],
     fs_dir := AList.update name (DFile (length (fs_inodes fs))) (fs_dir fs)\<rparr>"

definition drop_name :: "fsys \<Rightarrow> gostring \<Rightarrow> fsys" where
  "drop_name fs name = fs\<lparr>fs_dir := AList.delete name (fs_dir fs)\<rparr>"

lemma add_file_simps [simp]:
  "fdata (add_file fs name d sy) (length (fs_inodes fs)) = d"
  "fsynced (add_file fs name d sy) (length (fs_inodes fs)) = sy"
  "i < length (fs_inodes fs) \<Longrightarrow> fdata (add_file fs name d sy) i = fdata fs i"
  "i < length (fs_inodes fs) \<Longrightarrow> fsynced (add_file fs name d sy) i = fsynced fs i"
  "fs_faults (add_file fs name d sy) = fs_faults fs"
  by (auto simp: add_file_def fdata_def fsynced_def nth_append)

lemma add_file_wf:
  assumes "fs_wf fs" shows "fs_wf (add_file fs name d sy)"
  using assms unfolding fs_wf_def add_file_def
  by (auto simp: AList.update_conv' AList.distinct_update split: if_splits)
    (metis less_SucI, metis less_irrefl, metis less_irrefl)

lemma add_file_seg:
  assumes wf: "fs_wf fs" and num: "seg_num_ok num"
  shows "seg_file (add_file fs (segmentName num) d sy) num (length (fs_inodes fs))"
    and "m \<noteq> num \<Longrightarrow> seg_num_ok m \<Longrightarrow> seg_file (add_file fs (segmentName num) d sy) m i = seg_file fs m i"
    and "seg_nums (add_file fs (segmentName num) d sy) = insert num (seg_nums fs)"
  using num by (auto simp: seg_file_def seg_nums_def add_file_def AList.update_conv' segmentName_inj split: if_splits)

lemma add_file_disk:
  assumes cd: "closed_disk fs ss" and ok: "segs_ok (ss @ [(num, first, [])])"
    and im: "data_of num first [] g d" "image_of num first [] g sy" and g: "g_ok [] g"
  shows "disk (add_file fs (segmentName num) d sy) ss (num, first, []) g"
proof -
  note l = segs_ok_last [OF ok, simplified]
  from cd have wf: "fs_wf fs" and wh: "\<forall>s\<in>set ss. whole fs s" and nums: "seg_nums fs = fst ` set ss"
    by (auto simp: closed_disk_def)
  note af = add_file_seg [OF wf l(1)]
  have "whole (add_file fs (segmentName num) d sy) s" if s: "s \<in> set ss" for s
  proof -
    obtain n f rs where eq: "s = (n, f, rs)" by (cases s)
    then obtain j where j: "seg_file fs n j" "rs \<noteq> []" "fdata fs j = seg_bytes n f rs" "fsynced fs j = seg_bytes n f rs"
      using wh s by (auto simp: whole_def)
    have "n \<noteq> num" "seg_num_ok n" using l(2,3) s eq by force+
    with j af(2) seg_file_inode [OF wf j(1)] show ?thesis by (auto simp: whole_def eq)
  qed
  then show ?thesis
    unfolding disk_def using ok add_file_wf [OF wf] af(1,3) nums im g
    by (auto simp: tail_ok_def intro!: exI [of _ "length (fs_inodes fs)"])
qed

lemma drop_name_data [simp]: "fdata (drop_name fs n) i = fdata fs i" "fsynced (drop_name fs n) i = fsynced fs i"
  "fs_faults (drop_name fs n) = fs_faults fs"
  by (simp_all add: drop_name_def fdata_def fsynced_def)

lemma drop_name_wf: "fs_wf fs \<Longrightarrow> fs_wf (drop_name fs n)"
  unfolding fs_wf_def drop_name_def
  by (auto simp: AList.delete_conv' AList.distinct_delete split: if_splits)

lemma drop_name_seg:
  assumes "seg_num_ok num"
  shows "m \<noteq> num \<Longrightarrow> seg_num_ok m \<Longrightarrow> seg_file (drop_name fs (segmentName num)) m i = seg_file fs m i"
    and "seg_nums (drop_name fs (segmentName num)) = seg_nums fs - {num}"
  using assms by (auto simp: seg_file_def seg_nums_def drop_name_def AList.delete_conv' segmentName_inj)

lemma drop_name_whole:
  assumes "seg_num_ok num" "whole fs s" "fst s \<noteq> num" "seg_num_ok (fst s)"
  shows "whole (drop_name fs (segmentName num)) s"
  using assms by (cases s) (auto simp: whole_def drop_name_seg)

lemma drop_tail_disk:
  assumes "disk fs ss (num, first, rs) g"
  shows "closed_disk (drop_name fs (segmentName num)) ss"
proof -
  from assms have ok: "segs_ok (ss @ [(num, first, rs)])" by (simp add: disk_def)
  note l = segs_ok_last [OF ok, simplified]
  have "whole (drop_name fs (segmentName num)) s" if "s \<in> set ss" for s
    using assms l that by (intro drop_name_whole) (auto simp: disk_def)
  then show ?thesis
    using assms ok l drop_name_seg(2) [OF l(1)] by (auto simp: closed_disk_def disk_def drop_name_wf segs_ok_snoc)
qed

lemma closed_disk_next:
  assumes "closed_disk fs ss" "segs_ok (ss @ [(num, first, [])])"
  shows "map_of (fs_dir fs) (segmentName num) = None"
proof -
  have "num \<notin> seg_nums fs" using assms segs_ok_last(2) [OF assms(2)] by (auto simp: closed_disk_def)
  moreover have "seg_num_ok num" using segs_ok_last(1) [OF assms(2)] by simp
  ultimately have "map_of (fs_dir fs) (segmentName num) \<noteq> Some (DFile i)" for i
    by (auto simp: seg_nums_def seg_file_def)
  moreover have "map_of (fs_dir fs) (segmentName num) \<noteq> Some DDir" using assms(1) by (simp add: closed_disk_def fs_wf_def)
  ultimately show ?thesis by (metis dirent.exhaust not_Some_eq)
qed

text \<open>What is left when the file of a new segment could not be finished: nothing, or a torn header.\<close>

definition left_over :: "fsys \<Rightarrow> wseg list \<Rightarrow> uint64 \<Rightarrow> LSN \<Rightarrow> bool" where
  "left_over fs ss num first \<longleftrightarrow> closed_disk fs ss \<or> disk fs ss (num, first, []) None"

lemma left_over_quiet: "quiet fs fs' \<Longrightarrow> left_over fs' ss num first = left_over fs ss num first"
  by (simp add: left_over_def closed_disk_quiet quiet_disk)

lemma header_images:
  assumes "prefix b (encodeHeader num first)"
  shows "data_of num first [] None b" "image_of num first [] None b" "g_ok [] None"
  using assms by (auto simp: data_of_def image_of_def low_def g_ok_def strict_prefix_def intro!: exI [of _ "[]"])

lemma header_image: "image_of num first [] (Some 0) (encodeHeader num first)" "g_ok [] (Some 0)"
  using image_of_whole [of num first "[]"] by (simp_all add: g_ok_def)

lemma disk_unsure:
  assumes "disk fs ss (num, first, []) g"
  shows "disk fs ss (num, first, []) None"
proof -
  obtain i where i: "seg_file fs num i" using assms by (auto simp: disk_def tail_ok_def)
  note im = disk_image [OF assms i]
  have "data_of num first [] None (fdata fs i)" "image_of num first [] None (fsynced fs i)"
    using im(2,3) by (auto simp: data_of_def image_of_def low_def)
  with assms i show ?thesis by (auto simp: disk_def tail_ok_def g_ok_def)
qed

lemma add_file_left:
  assumes "closed_disk fs ss" "segs_ok (ss @ [(num, first, [])])" "prefix d (encodeHeader num first)" "prefix sy (encodeHeader num first)"
  shows "disk (add_file fs (segmentName num) d sy) ss (num, first, []) None"
  using add_file_disk [OF assms(1,2) header_images(1) header_images(2,3)] assms(3,4) by simp

lemma remove_cases:
  assumes "os_Remove fs name = (fs', r)"
  shows "quiet fs fs' \<or> quiet (drop_name fs name) fs'"
  using assms unfolding os_Remove_def
  by (elim os_try_cases) (auto simp: quiet_def drop_name_def split: if_splits)

lemma remove_known:
  assumes "os_Remove fs name = (fs', r)" "map_of (fs_dir fs) name \<noteq> None"
  obtains (ok) "r = Inr ()" "quiet (drop_name fs name) fs'"
  | (fault) "fs_faults fs \<noteq> no_faults" "r = Inl EIO" "quiet fs fs'"
  using assms(1) unfolding os_Remove_def
proof (cases rule: os_try_cases)
  case fault
  then show ?thesis using that(2) by simp
next
  case (act fs1)
  then have "fs' = drop_name fs1 name" "r = Inr ()" using assms(2) by (auto simp: quiet_def drop_name_def)
  then show ?thesis using that(1) act(1) by (simp add: quiet_def drop_name_def)
qed

lemma drop_name_quiet: "quiet fs fs' \<Longrightarrow> quiet (drop_name fs name) (drop_name fs' name)"
  by (simp add: quiet_def drop_name_def)

lemma left_over_remove:
  assumes "disk fs ss (num, first, []) None" "quiet fs fs1" "os_Remove fs1 (segmentName num) = (fs', r)"
  shows "left_over fs' ss num first"
proof -
  have d1: "disk fs1 ss (num, first, []) None" using assms(1,2) quiet_disk by simp
  from remove_cases [OF assms(3)] show ?thesis
  proof
    assume "quiet fs1 fs'"
    with d1 show ?thesis by (simp add: left_over_def quiet_disk)
  next
    assume "quiet (drop_name fs1 (segmentName num)) fs'"
    with drop_tail_disk [OF d1] show ?thesis by (simp add: left_over_def closed_disk_quiet)
  qed
qed

lemma quiet_close: "quiet fs (fst (os_Close fs))"
  using looks_os(4) [of fs] by (simp add: looks_def)

lemma add_upd: "upd (add_file fs name d0 s0) (length (fs_inodes fs)) d sy = add_file fs name d sy"
  by (simp add: upd_def add_file_def)

lemma quiet_upd: "quiet fs fs' \<Longrightarrow> quiet (upd fs i d sy) (upd fs' i d sy)"
  by (simp add: quiet_def upd_def)

lemma write_cases:
  assumes "os_Write fs i p = (fs', n, err)"
  obtains (ok) "err = None" "n = length p" "quiet (upd fs i (fdata fs i @ p) (fsynced fs i)) fs'"
  | (fault) k where "fs_faults fs \<noteq> no_faults" "err = Some EIO" "n = min k (length p - 1)"
      "quiet (upd fs i (fdata fs i @ take (min k (length p - 1)) p) (fsynced fs i)) fs'"
proof -
  obtain fs1 k where c: "os_call fs = (fs1, k)" by (cases "os_call fs")
  note q = os_call_cases [OF c] quiet_data [OF os_call_cases(1) [OF c], of i]
  show ?thesis
  proof (cases k)
    case None
    with c q assms show ?thesis by (intro ok) (auto simp: os_Write_def set_data_upd quiet_upd)
  next
    case (Some m)
    with c q assms show ?thesis by (intro fault [of m]) (auto simp: os_Write_def set_data_upd quiet_upd Let_def)
  qed
qed

lemma sync_cases:
  assumes "os_Sync fs i = (fs', r)"
  obtains (ok) "r = Inr ()" "quiet (upd fs i (fdata fs i) (fdata fs i)) fs'"
  | (fault) "fs_faults fs \<noteq> no_faults" "r = Inl EIO" "quiet fs fs'"
  using assms unfolding os_Sync_def
proof (cases rule: os_try_cases)
  case fault
  then show ?thesis using that(2) by simp
next
  case (act fs1)
  then have "fs' = upd fs1 i (fdata fs i) (fdata fs i)" "r = Inr ()"
    using quiet_data [OF act(1), of i] by (auto simp: upd_def)
  then show ?thesis using that(1) quiet_upd [OF act(1)] by simp
qed

lemma create_cases:
  assumes "os_Create fs name = (fs', r)" "map_of (fs_dir fs) name = None"
  obtains (ok) "r = Inr (length (fs_inodes fs))" "quiet (add_file fs name [] []) fs'"
  | (fault) "fs_faults fs \<noteq> no_faults" "r = Inl EIO" "quiet fs fs'"
  using assms unfolding os_Create_def
  by (elim os_try_cases) (auto simp: add_file_def quiet_def)

lemma createFile_cases:
  assumes cd: "closed_disk fs ss" and ok: "segs_ok (ss @ [(num, first, [])])"
    and c: "createFile fs (segmentName num) (encodeHeader num first) = (fs', r)"
  obtains (made) i where "r = Inr i" "disk fs' ss (num, first, []) (Some 0)" "seg_file fs' num i"
      "fdata fs' i = encodeHeader num first" "fsynced fs' i = encodeHeader num first" "fs_faults fs' = fs_faults fs"
  | (failed) e where "r = Inl e" "fs_faults fs \<noteq> no_faults" "left_over fs' ss num first"
proof -
  let ?h = "encodeHeader num first" and ?name = "segmentName num" and ?i = "length (fs_inodes fs)"
  have ok_num: "seg_num_ok num" using segs_ok_last(1) [OF ok] by simp
  have wf: "fs_wf fs" using cd by (simp add: closed_disk_def)
  obtain fs1 r1 where c1: "os_Create fs ?name = (fs1, r1)" by (cases "os_Create fs ?name")
  from create_cases [OF c1 closed_disk_next [OF cd ok]] consider
    (ok) "r1 = Inr ?i" "quiet (add_file fs ?name [] []) fs1" | (bad) "fs_faults fs \<noteq> no_faults" "r1 = Inl EIO" "quiet fs fs1" by metis
  then show ?thesis
  proof cases
    case bad
    then show ?thesis using c c1 cd failed
      by (auto simp: createFile_def wrapped_def left_over_def closed_disk_quiet)
  next
    case ok1: ok
    have d1: "fdata fs1 ?i = []" "fsynced fs1 ?i = []" using quiet_data [OF ok1(2), of ?i] by simp_all
    obtain fs2 n e2 where c2: "os_Write fs1 ?i ?h = (fs2, n, e2)" by (cases "os_Write fs1 ?i ?h")
    have faults1: "fs_faults fs1 = fs_faults fs" using quiet_faults [OF ok1(2)] by simp
    have adds: "quiet (add_file fs ?name d sy) (upd fs1 ?i d sy)" for d sy
      using quiet_upd [OF ok1(2), of ?i d sy] by (simp add: add_upd)
    show ?thesis
    proof (cases rule: write_cases [OF c2])
      case (2 k)
      let ?t = "take (min k (length ?h - 1)) ?h"
      have q2: "quiet (add_file fs ?name ?t []) fs2"
        using 2(4) d1 quiet_trans [OF adds] by simp
      have dk: "disk fs2 ss (num, first, []) None"
        using add_file_left [OF cd ok, of ?t "[]"] quiet_disk [OF q2]
        by (simp add: take_is_prefix)
      obtain fs3 r3 where c3: "os_Remove (fst (os_Close fs2)) ?name = (fs3, r3)"
        by (cases "os_Remove (fst (os_Close fs2)) ?name")
      have "left_over fs3 ss num first" by (rule left_over_remove [OF dk quiet_close c3])
      with 2(1,2) c c1 c2 c3 ok1(1) faults1 show ?thesis
        using failed by (auto simp: createFile_def wrapped_def)
    next
      case 1
      have q2: "quiet (add_file fs ?name ?h []) fs2"
        using 1(3) d1 quiet_trans [OF adds] by simp
      have dk: "disk fs2 ss (num, first, []) None"
        using add_file_left [OF cd ok, of ?h "[]"] quiet_disk [OF q2] by simp
      have d2: "fdata fs2 ?i = ?h" using quiet_data [OF q2, of ?i] by simp
      have faults2: "fs_faults fs2 = fs_faults fs" using quiet_faults [OF q2] by simp
      obtain fs3 r3 where c3: "os_Sync fs2 ?i = (fs3, r3)" by (cases "os_Sync fs2 ?i")
      show ?thesis
      proof (cases rule: sync_cases [OF c3])
        case 2
        obtain fs4 r4 where c4: "os_Remove (fst (os_Close fs3)) ?name = (fs4, r4)"
          by (cases "os_Remove (fst (os_Close fs3)) ?name")
        have "left_over fs4 ss num first"
          by (rule left_over_remove [OF dk quiet_trans [OF 2(3) quiet_close] c4])
        with 2 1 c c1 c2 c3 c4 ok1(1) faults2 show ?thesis
          using failed by (auto simp: createFile_def wrapped_def)
      next
        case synced: 1
        have "quiet (add_file fs ?name ?h ?h) (upd fs2 ?i ?h ?h)"
          using quiet_upd [OF q2, of ?i ?h ?h] by (simp add: add_upd)
        then have q3: "quiet (add_file fs ?name ?h ?h) fs3"
          using synced(2) d2 quiet_trans by simp
        obtain fs4 r4 where c4: "syncDir fs3 = (fs4, r4)" by (cases "syncDir fs3")
        have l4: "quiet fs3 fs4" "r4 = Inr () \<or> fs_faults fs3 \<noteq> no_faults \<and> (\<exists>e. r4 = Inl e)"
          using looks_syncDir [of fs3] c4 by (auto simp: looks_def)
        have q4: "quiet (add_file fs ?name ?h ?h) fs4" using q3 l4(1) quiet_trans by blast
        have dk4: "disk (add_file fs ?name ?h ?h) ss (num, first, []) (Some 0)"
          using add_file_disk [OF cd ok data_of_whole [of num first "[]", simplified] header_image] .
        show ?thesis
        proof (cases r4)
          case (Inr u)
          have "seg_file fs4 num ?i" "fdata fs4 ?i = ?h" "fsynced fs4 ?i = ?h"
            using quiet_seg(1) [OF q4] quiet_data [OF q4, of ?i] add_file_seg(1) [OF wf ok_num] by simp_all
          with Inr 1 synced c c1 c2 c3 c4 ok1(1) dk4 quiet_disk [OF q4] quiet_faults [OF q4] show ?thesis
            using made by (auto simp: createFile_def wrapped_def)
        next
          case (Inl e)
          have "quiet (add_file fs ?name ?h ?h) (fst (os_Close fs4))" using q4 quiet_close quiet_trans by blast
          then have "left_over (fst (os_Close fs4)) ss num first"
            using disk_unsure [OF dk4] by (simp add: left_over_def quiet_disk)
          moreover have "fs_faults fs \<noteq> no_faults" using l4(2) Inl quiet_faults [OF q3] by auto
          ultimately show ?thesis
            using Inl 1 synced c c1 c2 c3 c4 ok1(1) failed by (auto simp: createFile_def wrapped_def)
        qed
      qed
    qed
  qed
qed

lemma disk_closed:
  assumes "disk fs ss (num, first, rs) g" "seg_file fs num i" "rs \<noteq> []"
    "fdata fs i = seg_bytes num first rs" "fsynced fs i = seg_bytes num first rs"
  shows "closed_disk fs (ss @ [(num, first, rs)])"
  using assms by (auto simp: disk_def closed_disk_def whole_def)

end
