(* ===== verification/WalRecover.thy ===== *)
theory WalRecover
  imports WalDisk
begin

text \<open>
  Opening a log. A log that is open is \<open>live\<close>: its fields describe the files, its buffer holds
  whole frames, and between two segments it remembers the sealed one as pending. \<open>Open\<close> turns every
  directory that a crash or a failed \<open>Open\<close> can leave into a live log over the records it stores.
\<close>

section \<open>Open logs\<close>

definition info_of :: "wseg \<Rightarrow> SegmentInfo" where
  "info_of sg = (case sg of (num, first, rs) \<Rightarrow>
     \<lparr>si_Number = num, si_Path = segmentName num, si_First = first, si_End = endof first rs\<rparr>)"

definition active :: "Log \<Rightarrow> wseg list \<Rightarrow> Record list \<Rightarrow> nat option \<Rightarrow> nat \<Rightarrow> nat \<Rightarrow> bool" where
  "active l ss act g q i \<longleftrightarrow>
     l_seg l = Some i \<and> l_sealed l = map info_of ss \<and> l_pending l = None \<and> l_path l = segmentName (l_segNum l) \<and>
     disk (l_fs l) ss (l_segNum l, l_segFirst l, act) g \<and> seg_file (l_fs l) (l_segNum l) i \<and>
     (\<exists>t. torn t \<and> fdata (l_fs l) i = seg_bytes (l_segNum l) (l_segFirst l) act @ t \<and> (l_broken l = None \<longrightarrow> t = [])) \<and>
     sure g \<le> q \<and> q \<le> length act \<and> (g = None \<and> ss = [] \<longrightarrow> l_segNum l = 1 \<and> l_segFirst l = 1) \<and>
     l_segLen l = 28 + length (frames act) \<and> l_syncedOff l = 28 + length (frames (take q act)) \<and>
     l_fileEnd l = endof (l_segFirst l) act \<and> l_durable l = endof (l_segFirst l) (take q act)"

definition between :: "Log \<Rightarrow> wseg list \<Rightarrow> bool" where
  "between l ss \<longleftrightarrow>
     (\<exists>num first rs. ss \<noteq> [] \<and> last ss = (num, first, rs) \<and> l_seg l = None \<and> l_sealed l = map info_of ss \<and>
        l_pending l = Some (info_of (last ss)) \<and> segs_ok (ss @ [(num + 1, endof first rs, [])]) \<and>
        left_over (l_fs l) ss (num + 1) (endof first rs) \<and> (\<forall>s\<in>set ss. whole (l_fs l) s) \<and>
        l_path l = [] \<and> l_syncedOff l = 0 \<and>
        l_fileEnd l = endof first rs \<and> l_durable l = endof first rs)"

text \<open>
  The log holds the records \<open>all\<close> in its files, the first \<open>d\<close> of them durably and the first \<open>c\<close> of
  them durably by its own account, and \<open>bs\<close> in its buffer. The bound keeps segment numbers within
  the twelve digits of a segment name.
\<close>

definition live :: "Log \<Rightarrow> uint64 \<Rightarrow> LSN \<Rightarrow> Record list \<Rightarrow> nat \<Rightarrow> nat \<Rightarrow> Record list \<Rightarrow> bool" where
  "live l n0 base all d c bs \<longleftrightarrow>
     \<not> l_noFsync l \<and> l_buf l = frames bs \<and> chain (l_fileEnd l) bs \<and> l_next l = endof (l_fileEnd l) bs \<and>
     unat n0 + length all + length bs + 2 \<le> 10 ^ 12 \<and>
     ((\<exists>ss act g q i. active l ss act g q i \<and> all = recs ss @ act \<and> d = length (recs ss) + sure g \<and>
         c = length (recs ss) + q \<and> start (ss @ [(l_segNum l, l_segFirst l, act)]) = (n0, base)) \<or>
      (\<exists>ss. between l ss \<and> all = recs ss \<and> d = length all \<and> c = length all \<and> start ss = (n0, base)))"

lemma start_snoc [simp]: "start (ss @ [(n, f, rs)]) = (if ss = [] then (n, f) else start ss)"
  by (cases ss) (auto simp: start_def)

lemma start_single [simp]: "start [(n, f, rs)] = (n, f)"
  by (simp add: start_def)

lemma segs_ok_ConsD:
  assumes "segs_ok ((n, f, rs) # ss @ [sg])"
  shows "segs_ok (ss @ [sg])" "seg_num_ok n" "chain f rs" "snd (start (ss @ [sg])) = endof f rs" "fst (start (ss @ [sg])) = n + 1"
proof -
  obtain n' f' rs' ss' where eq: "ss @ [sg] = (n', f', rs') # ss'"
    by (cases "ss @ [sg]") auto
  show "segs_ok (ss @ [sg])" "seg_num_ok n" "chain f rs" "snd (start (ss @ [sg])) = endof f rs" "fst (start (ss @ [sg])) = n + 1"
    using assms unfolding eq segs_ok.simps start_def by auto
qed

lemma closed_disk_stored:
  assumes "closed_disk fs ss" "ss \<noteq> []"
  shows "stored fs (fst (start ss)) (snd (start ss)) (recs ss) (length (recs ss))"
proof -
  obtain num first rs ss' where ss: "ss = ss' @ [(num, first, rs)]"
    using assms(2) by (metis append_butlast_last_id prod_cases3)
  show ?thesis
    by (rule stored_diskI [OF closed_disk_snoc [OF assms(1) [unfolded ss]]]) (auto simp: ss sure_def start_def)
qed

lemma left_over_stored:
  assumes "left_over fs ss num first" "ss \<noteq> []"
  shows "stored fs (fst (start ss)) (snd (start ss)) (recs ss) (length (recs ss))"
  using assms(1) unfolding left_over_def
proof
  assume "disk fs ss (num, first, []) None"
  then show ?thesis by (rule stored_diskI) (use assms(2) in \<open>auto simp: sure_def\<close>)
qed (use assms(2) closed_disk_stored in blast)

lemma live_stored: "live l n0 base all d c bs \<Longrightarrow> stored (l_fs l) n0 base all d"
proof -
  assume l: "live l n0 base all d c bs"
  then consider (active) ss act g q i where "active l ss act g q i" "all = recs ss @ act" "d = length (recs ss) + sure g"
      "start (ss @ [(l_segNum l, l_segFirst l, act)]) = (n0, base)"
    | (between) ss where "between l ss" "all = recs ss" "d = length all" "start ss = (n0, base)"
    unfolding live_def by blast
  then show ?thesis
  proof cases
    case (active ss act g q i)
    show ?thesis
      by (rule stored_diskI [of _ ss "l_segNum l" "l_segFirst l" act g]) (use active in \<open>simp_all add: active_def\<close>)
  next
    case (between ss)
    then show ?thesis using left_over_stored [of "l_fs l" ss] by (auto simp: between_def)
  qed
qed

lemma storedE:
  assumes "stored fs n0 base all d"
  obtains (fresh) "closed_disk fs []" "n0 = 1" "base = 1" "all = []" "d = 0"
  | (disk) ss num first rs g where "disk fs ss (num, first, rs) g" "all = recs ss @ rs" "d \<le> length (recs ss) + sure g"
      "start (ss @ [(num, first, rs)]) = (n0, base)" "g = None \<Longrightarrow> ss = [] \<Longrightarrow> num = 1 \<and> first = 1"
  using assms unfolding stored_def
proof (elim disjE exE conjE)
  assume "fresh fs" "n0 = 1" "base = 1" "all = []" "d = 0"
  then show ?thesis using fresh by (simp add: fresh_def closed_disk_def)
next
  fix ss num first rs g
  assume "disk fs ss (num, first, rs) g" "all = recs ss @ rs" "d \<le> length (recs ss) + sure g"
    "start (ss @ [(num, first, rs)]) = (n0, base)" "g = None \<and> ss = [] \<longrightarrow> num = 1 \<and> first = 1"
  then show ?thesis using disk by metis
qed

section \<open>Repairing\<close>

lemma looks_deferClose: "looks fs x p \<Longrightarrow> looks fs x (deferClose p)"
  by (cases p) (auto simp: deferClose_def looks_def intro: quiet_trans quiet_close)

lemma repairFile_whole:
  assumes "fdata fs i = seg_bytes num first rs" "chain first rs" "expect = 0 \<or> expect = first"
  shows "looks fs (first, endof first rs, False) (repairFile fs i (segmentName num) num expect tn)"
  unfolding repairFile_def
proof (intro looks_sbind [OF looks_wrapped [OF looks_os(2)]], goal_cases)
  case (1 fs2)
  have d2: "fdata fs2 i = encodeHeader num first @ frames rs @ []" "fdata fs i = fdata fs2 i"
    using quiet_data [OF 1] assms(1) by (simp_all add: seg_bytes_def)
  have h: "looks fs2 (first, False) (readHeader fs2 i (length (fdata fs i)) num expect tn)"
    unfolding d2(2) by (rule readHeader_looks [OF d2(1) assms(3)])
  have sc: "looks fs3 (endof first rs, 0) (scanRecords fs3 i (length (fdata fs i)) first tn)" if q3: "quiet fs2 fs3" for fs3
  proof -
    have d3: "fdata fs3 i = encodeHeader num first @ frames rs @ []" "fdata fs i = fdata fs3 i"
      using quiet_data [OF q3] d2 by simp_all
    from scan_loop_looks [OF d3(1) _ assms(2), of 28 tn] show ?thesis
      unfolding scanRecords_def d3(2) by (simp add: wal_sizes)
  qed
  show ?case
    by (rule looks_sbind [OF h]) (simp, rule looks_sbind [OF sc], auto intro: looks_Inr)
qed

lemma repair_looks:
  assumes "seg_file fs num i" "\<And>fs'. quiet fs fs' \<Longrightarrow> looks fs' x (repairFile fs' i (segmentName num) num expect tn)"
  shows "looks fs x (repairSegment fs (segmentName num) num expect tn)"
  unfolding repairSegment_def using assms(1)
  by (intro looks_sbind [OF looks_wrapped [OF looks_Open]] looks_deferClose) (auto simp: seg_file_def intro: assms(2))

lemma repair_whole:
  assumes "whole fs (num, first, rs)" "chain first rs" "expect = 0 \<or> expect = first"
  shows "looks fs (first, endof first rs, False) (repairSegment fs (segmentName num) num expect tn)"
proof -
  obtain i where i: "seg_file fs num i" "fdata fs i = seg_bytes num first rs" using assms(1) by (auto simp: whole_def)
  show ?thesis
    by (rule repair_looks [OF i(1)], rule repairFile_whole) (use i(2) assms(2,3) quiet_data in auto)
qed

lemma truncate_cases:
  assumes "os_Truncate fs i n = (fs', r)"
  obtains (ok) "r = Inr ()" "quiet (upd fs i (take n (fdata fs i)) (fsynced fs i)) fs'"
  | (fault) "fs_faults fs \<noteq> no_faults" "r = Inl EIO" "quiet fs fs'"
  using assms unfolding os_Truncate_def
proof (cases rule: os_try_cases)
  case fault
  then show ?thesis using that(2) by simp
next
  case (act fs1)
  then have "fs' = upd fs1 i (take n (fdata fs i)) (fsynced fs i)" "r = Inr ()"
    using quiet_data [OF act(1), of i] by (auto simp: set_data_upd)
  then show ?thesis using that(1) quiet_upd [OF act(1)] by simp
qed

text \<open>Running on past a call that only looks.\<close>

lemma looks_sbindE:
  assumes "looks fs x p" "sbind p f = (fs', r)"
  obtains (error) e where "r = Inl e" "quiet fs fs'" "fs_faults fs \<noteq> no_faults"
  | (go) fs1 where "quiet fs fs1" "f fs1 x = (fs', r)"
  using assms by (cases p; cases "snd p") (auto simp: looks_def)

lemma sbind_wrappedE:
  assumes "sbind (wrapped msg p) f = (fs', r)"
  obtains (error) e where "r = Inl (gerr_Wrap Unavailable msg e)" "p = (fs', Inl e)"
  | (go) fs1 x where "p = (fs1, Inr x)" "f fs1 x = (fs', r)"
  using assms by (cases p; cases "snd p") (auto simp: wrapped_def)

lemma repairFile_torn_header:
  assumes d: "disk fs ss (num, first, rs) g" "seg_file fs num i" and h: "strict_prefix (fdata fs i) (encodeHeader num first)"
    and c: "repairFile fs i (segmentName num) num expect True = (fs', r)"
  shows "(\<exists>e. r = Inl e \<and> quiet fs fs' \<and> fs_faults fs \<noteq> no_faults) \<or>
    r = Inr (expect, expect, True) \<and> closed_disk fs' ss \<and> fs_faults fs' = fs_faults fs"
  using looks_wrapped [OF looks_os(2) [of fs i]] c [unfolded repairFile_def]
proof (cases rule: looks_sbindE)
  case start: (go fs1)
  have h1: "strict_prefix (fdata fs1 i) (encodeHeader num first)" "fdata fs i = fdata fs1 i" using quiet_data [OF start(1)] h by simp_all
  have "looks fs1 (0, True) (readHeader fs1 i (length (fdata fs i)) num expect True)"
    unfolding h1(2) by (rule readHeader_torn [OF h1(1)])
  from this start(2) show ?thesis
  proof (cases rule: looks_sbindE)
    case (go fs2)
    from looks_wrapped [OF looks_os(4) [of fs2]] go(2) [simplified] show ?thesis
    proof (cases rule: looks_sbindE)
      case cl: (go fs3)
      have q: "quiet fs fs3" using start(1) go(1) cl(1) quiet_trans by blast
      have m: "map_of (fs_dir fs3) (segmentName num) \<noteq> None" using d(2) q by (simp add: seg_file_def quiet_def)
      from cl(2) [simplified] show ?thesis
      proof (cases rule: sbind_wrappedE)
        case (error e)
        with m have "quiet fs3 fs'" "fs_faults fs3 \<noteq> no_faults" by (auto elim: remove_known)
        with error(1) show ?thesis using quiet_trans [OF q] quiet_faults [OF q] by simp
      next
        case rm: (go fs4 x)
        with m have "quiet (drop_name fs3 (segmentName num)) fs4" by (auto elim: remove_known)
        then have "quiet (drop_name fs (segmentName num)) fs4" using drop_name_quiet [OF q] quiet_trans by blast
        moreover have "fs4 = fs'" "r = Inr (expect, expect, True)" using rm(2) by simp_all
        ultimately show ?thesis
          using drop_tail_disk [OF d(1)] closed_disk_quiet quiet_faults by (metis drop_name_data(3))
      qed
    qed (use start(1) go(1) quiet_trans quiet_faults in metis)
  qed (use start(1) quiet_trans quiet_faults in metis)
qed simp

lemma repairFile_torn_tail:
  assumes d: "disk fs ss (num, first, rs) g" "seg_file fs num i" and t: "fdata fs i = seg_bytes num first rs @ t" "torn t" "t \<noteq> []"
    and e: "expect = 0 \<or> expect = first" and c: "repairFile fs i (segmentName num) num expect True = (fs', r)"
  shows "(\<exists>e. r = Inl e \<and> disk fs' ss (num, first, rs) g \<and> fs_faults fs \<noteq> no_faults) \<or>
    r = Inr (first, endof first rs, False) \<and> quiet (upd fs i (seg_bytes num first rs) (seg_bytes num first rs)) fs'"
  using looks_wrapped [OF looks_os(2) [of fs i]] c [unfolded repairFile_def]
proof (cases rule: looks_sbindE)
  case start: (go fs1)
  have d1: "fdata fs1 i = encodeHeader num first @ frames rs @ t" "fdata fs i = fdata fs1 i"
    using quiet_data [OF start(1)] t by (simp_all add: seg_bytes_def)
  have "looks fs1 (first, False) (readHeader fs1 i (length (fdata fs i)) num expect True)"
    unfolding d1(2) by (rule readHeader_looks [OF d1(1) e])
  from this start(2) show ?thesis
  proof (cases rule: looks_sbindE)
    case (go fs2)
    have d2: "fdata fs2 i = encodeHeader num first @ frames rs @ t" "fdata fs i = fdata fs2 i"
      using quiet_data [OF go(1)] d1 by simp_all
    have "looks fs2 (endof first rs, 28 + length (frames rs)) (scanRecords fs2 i (length (fdata fs i)) first True)"
      using scan_loop_looks [OF d2(1) _ disk_image(5) [OF d] t(2), of 28 True] t(3)
      unfolding scanRecords_def d2(2) by (simp add: wal_sizes)
    from this go(2) [simplified] show ?thesis
    proof (cases rule: looks_sbindE)
      case sc: (go fs3)
      have q3: "quiet fs fs3" using start(1) go(1) sc(1) quiet_trans by blast
      have dk: "disk (upd fs i (seg_bytes num first rs) (fsynced fs i)) ss (num, first, rs) g"
        by (rule disk_upd [OF d disk_image(4) [OF d] data_of_whole disk_image(2,5) [OF d]])
      from sc(2) [simplified] show ?thesis
      proof (cases rule: sbind_wrappedE)
        case (error x)
        with q3 d show ?thesis
          using quiet_trans quiet_disk quiet_faults [OF q3] by (cases rule: truncate_cases [OF error(2)]) auto
      next
        case trunc: (go fs4 x)
        have tk: "take (28 + length (frames rs)) (fdata fs3 i) = seg_bytes num first rs"
          using quiet_data [OF q3, of i] t by simp
        from trunc(1) have "quiet (upd fs3 i (seg_bytes num first rs) (fsynced fs3 i)) fs4"
          by (cases rule: truncate_cases) (simp_all add: tk)
        then have q4: "quiet (upd fs i (seg_bytes num first rs) (fsynced fs i)) fs4"
          using quiet_trans [OF quiet_upd [OF q3]] quiet_data [OF q3] by simp
        have wf: "fs_wf fs" using d(1) by (simp add: disk_def)
        have d4: "fdata fs4 i = seg_bytes num first rs"
          using quiet_data [OF q4, of i] upd_data(1) [OF seg_file_inode [OF wf d(2)]] by simp
        from trunc(2) [simplified] show ?thesis
        proof (cases rule: sbind_wrappedE)
          case (error y)
          then have "quiet fs4 fs'" "fs_faults fs4 \<noteq> no_faults" by (auto elim: sync_cases)
          with error(1) dk show ?thesis using quiet_disk [OF quiet_trans [OF q4]] quiet_faults [OF q4] by auto
        next
          case (go fs5 y)
          from go(1) have "quiet (upd fs4 i (seg_bytes num first rs) (seg_bytes num first rs)) fs5"
            by (cases rule: sync_cases) (simp_all add: d4)
          moreover have "quiet (upd fs i (seg_bytes num first rs) (seg_bytes num first rs)) (upd fs4 i (seg_bytes num first rs) (seg_bytes num first rs))"
            using quiet_upd [OF q4, of i "seg_bytes num first rs" "seg_bytes num first rs"] by (simp add: upd_def)
          ultimately show ?thesis using go(2) quiet_trans by fastforce
        qed
      qed
    next
      case (error e1)
      have "quiet fs fs2" using start(1) go(1) quiet_trans by blast
      with error d(1) show ?thesis
        using quiet_disk [OF quiet_trans [OF \<open>quiet fs fs2\<close> error(2)]] quiet_faults [OF \<open>quiet fs fs2\<close>] by simp
    qed
  next
    case (error e1)
    then show ?thesis
      using d(1) quiet_disk [OF quiet_trans [OF start(1) error(2)]] quiet_faults [OF start(1)] by simp
  qed
next
  case (error e1)
  then show ?thesis using d(1) quiet_disk [OF error(2)] by simp
qed

lemma deferCloseE:
  assumes "deferClose p = (fs', r)"
  obtains fs1 where "p = (fs1, r)" "quiet fs1 fs'"
  using assms by (cases p) (auto simp: deferClose_def quiet_close)

lemma disk_synced:
  assumes d: "disk fs ss (num, first, rs) g" "seg_file fs num i"
    and b: "fdata fs i = seg_bytes num first rs" "fsynced fs i = seg_bytes num first rs"
  shows "disk fs ss (num, first, rs) (Some (length rs))"
  using d b by (auto simp: disk_def tail_ok_def image_of_whole data_of_whole g_ok_def)

lemma disk_sure: "disk fs ss (num, first, rs) g \<Longrightarrow> sure g \<le> length rs"
  by (cases g) (auto simp: disk_def tail_ok_def g_ok_def sure_def)

lemma repairFile_tail:
  assumes d: "disk fs ss (num, first, rs) g" "seg_file fs num i" and e: "expect = 0 \<or> expect = first"
    and c: "repairFile fs i (segmentName num) num expect True = (fs', r)"
  obtains (error) err where "r = Inl err" "disk fs' ss (num, first, rs) g" "fs_faults fs \<noteq> no_faults"
  | (gone) "r = Inr (expect, expect, True)" "rs = []" "g = None" "closed_disk fs' ss" "fs_faults fs' = fs_faults fs"
  | (ok) g' where "r = Inr (first, endof first rs, False)" "disk fs' ss (num, first, rs) g'" "sure g \<le> sure g'"
      "g' = None \<Longrightarrow> g = None" "seg_file fs' num i" "fdata fs' i = seg_bytes num first rs"
      "fs_faults fs' = fs_faults fs" "fsynced fs i = fdata fs i \<Longrightarrow> g' = Some (length rs)"
proof -
  note im = disk_image [OF d]
  have sure: "sure g \<le> length rs" using im(4) by (cases g) (auto simp: g_ok_def sure_def)
  from im(3) consider (header) "g = None" "rs = []" "strict_prefix (fdata fs i) (encodeHeader num first)"
    | (whole) "fdata fs i = seg_bytes num first rs"
    | (torn) t where "torn t" "t \<noteq> []" "fdata fs i = seg_bytes num first rs @ t"
    unfolding data_of_def by fastforce
  then show ?thesis
  proof cases
    case header
    then show ?thesis
      using repairFile_torn_header [OF d header(3) c] error gone d(1) quiet_disk by blast
  next
    case whole
    have lk: "looks fs (first, endof first rs, False) (fs', r)"
      using repairFile_whole [OF whole im(5) e, of True] c by simp
    then have q: "quiet fs fs'" by (simp add: looks_def)
    note q' = quiet_seg(1) [OF q] quiet_data [OF q, of i] quiet_faults [OF q] quiet_disk [OF q]
    show ?thesis
    proof (cases r)
      case (Inl err)
      with lk d(1) q' error show ?thesis by (auto simp: looks_def)
    next
      case (Inr x)
      then have r: "r = Inr (first, endof first rs, False)" using lk by (simp add: looks_def)
      show ?thesis
      proof (cases "fsynced fs i = fdata fs i")
        case True
        show ?thesis
          by (rule ok [of "Some (length rs)"])
             (use True r q' d whole sure disk_synced [OF d whole] in \<open>auto simp: sure_def\<close>)
      next
        case False
        show ?thesis by (rule ok [of g]) (use False r q' d whole in auto)
      qed
    qed
  next
    case (torn t)
    let ?b = "seg_bytes num first rs"
    from repairFile_torn_tail [OF d torn(3,1,2) e c] show ?thesis
    proof (elim disjE exE conjE)
      assume r: "r = Inr (first, endof first rs, False)" and q: "quiet (upd fs i ?b ?b) fs'"
      have "disk (upd fs i ?b ?b) ss (num, first, rs) (Some (length rs))"
        by (rule disk_upd [OF d _ data_of_whole image_of_whole im(5)]) (simp add: g_ok_def)
      moreover have "fdata (upd fs i ?b ?b) i = ?b"
        using upd_data(1) [OF seg_file_inode [OF _ d(2)]] d(1) by (simp add: disk_def)
      ultimately show ?thesis
        using r sure d(2) quiet_disk [OF q] quiet_seg(1) [OF q] quiet_data [OF q, of i] quiet_faults [OF q]
        by (intro ok [of "Some (length rs)"]) (auto simp: sure_def)
    qed (use error in blast)
  qed
qed

lemma repair_tail:
  assumes d: "disk fs ss (num, first, rs) g" "seg_file fs num i" and e: "expect = 0 \<or> expect = first"
    and c: "repairSegment fs (segmentName num) num expect True = (fs', r)"
  obtains (error) err where "r = Inl err" "disk fs' ss (num, first, rs) g" "fs_faults fs \<noteq> no_faults"
  | (gone) "r = Inr (expect, expect, True)" "rs = []" "g = None" "closed_disk fs' ss" "fs_faults fs' = fs_faults fs"
  | (ok) g' where "r = Inr (first, endof first rs, False)" "disk fs' ss (num, first, rs) g'" "sure g \<le> sure g'"
      "g' = None \<Longrightarrow> g = None" "seg_file fs' num i" "fdata fs' i = seg_bytes num first rs"
      "fs_faults fs' = fs_faults fs" "fsynced fs i = fdata fs i \<Longrightarrow> g' = Some (length rs)"
proof -
  have m: "map_of (fs_dir fs) (segmentName num) = Some (DFile i)" using d(2) by (simp add: seg_file_def)
  from looks_wrapped [OF looks_Open [OF m]] c [unfolded repairSegment_def] show ?thesis
  proof (cases rule: looks_sbindE)
    case (error e1)
    then show ?thesis using that(1) d(1) quiet_disk [OF error(2)] by simp
  next
    case (go fs1)
    from go(2) obtain fs2 where c2: "repairFile fs1 i (segmentName num) num expect True = (fs2, r)" and q2: "quiet fs2 fs'"
      by (rule deferCloseE)
    have d1: "disk fs1 ss (num, first, rs) g" "seg_file fs1 num i" and sy: "fsynced fs1 i = fsynced fs i" "fdata fs1 i = fdata fs i"
      and f1: "fs_faults fs1 = fs_faults fs"
      using d quiet_disk [OF go(1)] quiet_seg(1) [OF go(1)] quiet_data [OF go(1)] quiet_faults [OF go(1)] by simp_all
    note q2' = quiet_disk [OF q2] quiet_seg(1) [OF q2] quiet_data [OF q2, of i] quiet_faults [OF q2] closed_disk_quiet [OF q2]
    show ?thesis
    proof (cases rule: repairFile_tail [OF d1 e c2])
      case (1 err)
      then show ?thesis using that(1) q2' f1 by simp
    next
      case 2
      then show ?thesis using that(2) q2' f1 by simp
    next
      case (3 g')
      show ?thesis by (rule that(3) [of g']) (use 3 q2' f1 sy in auto)
    qed
  qed
qed

section \<open>Opening\<close>

lemma on_fs_sbindE:
  assumes "looks (l_fs l) x p" "sbind (on_fs l p) f = (l', r)"
  obtains (error) e fs1 where "r = Inl e" "l' = l\<lparr>l_fs := fs1\<rparr>" "quiet (l_fs l) fs1" "fs_faults (l_fs l) \<noteq> no_faults"
  | (go) fs1 where "quiet (l_fs l) fs1" "f (l\<lparr>l_fs := fs1\<rparr>) x = (l', r)"
  using assms by (cases p; cases "snd p") (auto simp: looks_def on_fs_def)

lemma reopenLast_cases:
  assumes i: "seg_file (l_fs l) num i" and c: "reopenLast l (segmentName num) num first end1 = (l', r)"
  obtains (error) e where "r = Inl e" "quiet (l_fs l) (l_fs l')" "fs_faults (l_fs l) \<noteq> no_faults"
  | (ok) fs1 where "quiet (l_fs l) fs1" "r = Inr ()"
      "l' = l\<lparr>l_fs := fs1, l_seg := Some i, l_path := segmentName num, l_segNum := num, l_segFirst := first,
        l_segLen := length (fdata (l_fs l) i), l_syncedOff := length (fdata (l_fs l) i),
        l_fileEnd := end1, l_next := end1, l_durable := end1\<rparr>"
proof -
  have m: "map_of (fs_dir (l_fs l)) (segmentName num) = Some (DFile i)" using i by (simp add: seg_file_def)
  from looks_wrapped [OF looks_Open [OF m]] c [unfolded reopenLast_def] show ?thesis
  proof (cases rule: on_fs_sbindE)
    case (error e fs1)
    then show ?thesis using that(1) by simp
  next
    case (go fs1)
    obtain fs2 r2 where c2: "wrapped ''stat wal segment'' (os_Size fs1 i) = (fs2, r2)"
      by (cases "wrapped ''stat wal segment'' (os_Size fs1 i)")
    have l2: "looks fs1 (length (fdata fs1 i)) (fs2, r2)" using looks_wrapped [OF looks_os(2)] c2 by metis
    have q2: "quiet (l_fs l) fs2" using l2 go(1) quiet_trans by (auto simp: looks_def)
    note f1 = quiet_faults [OF go(1)] quiet_data [OF go(1), of i]
    show ?thesis
    proof (cases r2)
      case (Inl e)
      have "quiet (l_fs l) (fst (os_Close fs2))" using q2 quiet_close quiet_trans by blast
      moreover have "fs_faults (l_fs l) \<noteq> no_faults" using l2 Inl f1 by (simp add: looks_def)
      ultimately show ?thesis using that(1) go(2) c2 Inl by (auto simp: on_fs_def)
    next
      case (Inr sz)
      then have sz: "sz = length (fdata (l_fs l) i)" using l2 f1 by (simp add: looks_def)
      obtain fs3 r3 where c3: "wrapped ''seek wal segment'' (os_Seek fs2) = (fs3, r3)"
        by (cases "wrapped ''seek wal segment'' (os_Seek fs2)")
      have l3: "looks fs2 () (fs3, r3)" using looks_wrapped [OF looks_os(3)] c3 by metis
      have q3: "quiet (l_fs l) fs3" using l3 q2 quiet_trans by (auto simp: looks_def)
      show ?thesis
      proof (cases r3)
        case (Inl e)
        have "quiet (l_fs l) (fst (os_Close fs3))" using q3 quiet_close quiet_trans by blast
        moreover have "fs_faults (l_fs l) \<noteq> no_faults" using l3 Inl quiet_faults [OF q2] by (simp add: looks_def)
        ultimately show ?thesis using that(1) go(2) c2 c3 Inl \<open>r2 = Inr sz\<close> by (auto simp: on_fs_def)
      next
        case (Inr u)
        show ?thesis using that(2) [OF q3] go(2) c2 c3 Inr \<open>r2 = Inr sz\<close> sz by (auto simp: on_fs_def)
      qed
    qed
  qed
qed

lemma createSegment_cases:
  assumes cd: "closed_disk (l_fs l) ss" and ok: "segs_ok (ss @ [(num, first, [])])"
    and c: "createSegment l num first = (l', r)"
  obtains (error) e fs1 where "r = Inl e" "l' = l\<lparr>l_fs := fs1\<rparr>" "left_over fs1 ss num first" "fs_faults (l_fs l) \<noteq> no_faults"
  | (made) i fs1 where "r = Inr ()" "disk fs1 ss (num, first, []) (Some 0)" "seg_file fs1 num i"
      "fdata fs1 i = encodeHeader num first"
      "l' = l\<lparr>l_fs := fs1, l_seg := Some i, l_path := segmentName num, l_segNum := num, l_segFirst := first,
        l_segLen := 28, l_syncedOff := 28, l_fileEnd := first\<rparr>" "fs_faults fs1 = fs_faults (l_fs l)"
proof -
  obtain fs1 r1 where c1: "createFile (l_fs l) (segmentName num) (encodeHeader num first) = (fs1, r1)"
    by (cases "createFile (l_fs l) (segmentName num) (encodeHeader num first)")
  show ?thesis
  proof (cases rule: createFile_cases [OF cd ok c1])
    case (1 i)
    then show ?thesis using made [of fs1 i] c c1 by (auto simp: createSegment_def on_fs_def wal_sizes)
  next
    case (2 e)
    then show ?thesis using error [of e fs1] c c1 by (auto simp: createSegment_def on_fs_def)
  qed
qed

lemma left_over_stored_at:
  assumes "left_over fs ss num first" "start (ss @ [(num, first, [])]) = (n0, base)" "ss = [] \<Longrightarrow> num = 1 \<and> first = 1"
  shows "stored fs n0 base (recs ss) (length (recs ss))"
proof (cases "ss = []")
  case False
  with assms left_over_stored [OF assms(1)] show ?thesis by simp
next
  case True
  with assms(3) have f: "num = 1" "first = 1" by auto
  from assms(1) [unfolded left_over_def] show ?thesis
  proof
    assume "closed_disk fs ss"
    with True assms(2) f show ?thesis by (simp add: stored_def closed_disk_def fresh_def)
  next
    assume "disk fs ss (num, first, []) None"
    then show ?thesis using assms(2) f by (intro stored_diskI [of fs ss num first "[]" None]) (auto simp: sure_def)
  qed
qed

text \<open>A log that has just got a new segment behind the whole segments \<open>ss\<close>.\<close>

lemma created_active:
  assumes "disk fs1 ss (num, first, []) (Some 0)" "seg_file fs1 num i" "fdata fs1 i = encodeHeader num first"
    and "l_seg l = Some i" "l_path l = segmentName num" "l_segNum l = num" "l_segFirst l = first" "l_segLen l = 28"
      "l_syncedOff l = 28" "l_fileEnd l = first" "l_durable l = first" "l_fs l = fs1"
      "l_sealed l = map info_of ss" "l_pending l = None"
  shows "active l ss [] (Some 0) 0 i"
  using assms unfolding active_def by (auto simp: sure_def intro: exI [of _ "[]"])

lemma Open_loop_sealed:
  assumes "segs_ok (ss @ [sg])" "\<forall>s\<in>set ss. whole (l_fs l) s" "expect = 0 \<or> expect = snd (start (ss @ [sg]))"
    and "Open_loop l (map segmentName (map fst ss) @ [segmentName (fst sg)]) expect = (l', r)"
  obtains (error) e where "r = Inl e" "quiet (l_fs l) (l_fs l')" "fs_faults (l_fs l) \<noteq> no_faults"
  | (go) fs1 ex where "quiet (l_fs l) fs1" "ex = 0 \<or> ex = fst (snd sg)"
      "Open_loop (l\<lparr>l_fs := fs1, l_sealed := l_sealed l @ map info_of ss\<rparr>) [segmentName (fst sg)] ex = (l', r)"
  using assms
proof (induction ss arbitrary: l expect thesis)
  case Nil
  show ?case
    by (rule Nil.prems(2) [of "l_fs l" expect])
       (use Nil.prems(5,6) in \<open>auto simp: start_def split: prod.splits\<close>)
next
  case (Cons s ss)
  obtain num first rs where s: "s = (num, first, rs)" by (cases s)
  have "segs_ok ((num, first, rs) # ss @ [sg])" using Cons.prems(3) s by simp
  note ok' = segs_ok_ConsD [OF this]
  have w: "whole (l_fs l) (num, first, rs)" using Cons.prems(4) s by simp
  have ex: "expect = 0 \<or> expect = first" using Cons.prems(5) s by (simp add: start_def)
  have step: "sbind (on_fs l (repairSegment (l_fs l) (segmentName num) num expect False))
      (\<lambda>l (first, end1, deleted).
            if deleted then (l, Inl (seg_err num '' lost its header''))
            else Open_loop (l\<lparr>l_sealed := l_sealed l @ [\<lparr>si_Number = num, si_Path = segmentName num, si_First = first, si_End = end1\<rparr>]\<rparr>)
                (map segmentName (map fst ss) @ [segmentName (fst sg)]) end1) = (l', r)"
    using Cons.prems(6) by (simp add: s parse_segmentName [OF ok'(2)] case_prod_unfold cong: if_cong)
  show ?case
    using repair_whole [OF w ok'(3) ex, of False] step
  proof (cases rule: on_fs_sbindE)
    case (error e fs1)
    then show ?thesis using Cons.prems(1) by simp
  next
    case (go fs1)
    let ?l = "l\<lparr>l_fs := fs1, l_sealed := l_sealed l @ [info_of s]\<rparr>"
    have lp: "Open_loop ?l (map segmentName (map fst ss) @ [segmentName (fst sg)]) (endof first rs) = (l', r)"
      using go(2) by (simp add: info_of_def s)
    have wl: "\<forall>s\<in>set ss. whole (l_fs ?l) s" using Cons.prems(4) quiet_whole [OF go(1)] by simp
    show ?thesis
    proof (rule Cons.IH [where l = ?l and expect = "endof first rs"])
      fix e assume "r = Inl e" "quiet (l_fs ?l) (l_fs l')" "fs_faults (l_fs ?l) \<noteq> no_faults"
      then show ?thesis using Cons.prems(1) quiet_trans [OF go(1)] quiet_faults [OF go(1)] by simp
    next
      fix fs2 ex assume "quiet (l_fs ?l) fs2" "ex = 0 \<or> ex = fst (snd sg)"
        "Open_loop (?l\<lparr>l_fs := fs2, l_sealed := l_sealed ?l @ map info_of ss\<rparr>) [segmentName (fst sg)] ex = (l', r)"
      then show ?thesis using Cons.prems(2) [of fs2 ex] quiet_trans [OF go(1)] by simp
    qed (use ok' lp wl in auto)
  qed
qed

text \<open>The last segment, and the new one when it had to be removed.\<close>

definition opened :: "Log \<Rightarrow> bool" where
  "opened l \<longleftrightarrow> \<not> l_noFsync l \<and> l_pending l = None \<and> l_buf l = [] \<and> \<not> l_flushing l \<and> l_waiters l = [] \<and> \<not> l_closed l \<and> l_broken l = None"

lemma Open_tail_create:
  assumes cd: "closed_disk (l_fs l) ss" and l: "l_seg l = None" "l_sealed l = map info_of ss" "opened l"
    and sg: "segs_ok (ss @ [(num, first, [])])" "ss = [] \<Longrightarrow> num = 1 \<and> first = 1"
    and c: "Open_tail l = (l', r)"
  obtains (error) e where "r = Inl e" "left_over (l_fs l') ss num first" "fs_faults (l_fs l) \<noteq> no_faults"
  | (ok) i where "r = Inr ()" "active l' ss [] (Some 0) 0 i" "opened l'" "l_next l' = first" "l_segNum l' = num" "l_segFirst l' = first"
proof -
  have nf: "(if l_sealed l \<noteq> [] then (si_Number (last (l_sealed l)) + 1, si_End (last (l_sealed l))) else (1, 1)) = (num, first)"
    using sg l(2) by (auto simp: segs_ok_snoc last_map info_of_def split: prod.splits)
  have eq: "createSegment (l\<lparr>l_next := first, l_fileEnd := first, l_durable := first\<rparr>) num first = (l', r)"
    using c l(1) unfolding Open_tail_def nf by simp
  have cd': "closed_disk (l_fs (l\<lparr>l_next := first, l_fileEnd := first, l_durable := first\<rparr>)) ss" using cd by simp
  show ?thesis
  proof (cases rule: createSegment_cases [OF cd' sg(1) eq])
    case (1 e fs1)
    then show ?thesis using that(1) by simp
  next
    case (2 i fs1)
    show ?thesis
      by (rule that(2) [of i], fact 2(1), rule created_active [OF 2(2-4)])
         (use 2(5) l in \<open>auto simp: opened_def\<close>)
  qed
qed

lemma Open_last:
  assumes d: "disk (l_fs l) ss (num, first, rs) g" "seg_file (l_fs l) num i"
    and l: "l_seg l = None" "l_sealed l = map info_of ss" "opened l" and e: "expect = 0 \<or> expect = first"
    and g: "g = None \<Longrightarrow> ss = [] \<Longrightarrow> num = 1 \<and> first = 1"
    and c: "sbind (Open_loop l [segmentName num] expect) (\<lambda>l _. Open_tail l) = (l', r)"
    and st: "start (ss @ [(num, first, rs)]) = (n0, base)"
  obtains (error) err where "r = Inl err" "stored (l_fs l') n0 base (recs ss @ rs) (length (recs ss) + sure g)"
      "fs_faults (l_fs l) \<noteq> no_faults"
  | (ok) g' i' where "r = Inr ()" "active l' ss rs g' (length rs) i'" "opened l'" "l_next l' = endof first rs"
      "l_segNum l' = num" "l_segFirst l' = first" "sure g \<le> sure g'"
      "fsynced (l_fs l) i = fdata (l_fs l) i \<Longrightarrow> sure g' = length rs"
proof -
  have num: "seg_num_ok num" using d(1) by (auto simp: disk_def segs_ok_snoc)
  obtain fs1 r1 where c1: "repairSegment (l_fs l) (segmentName num) num expect True = (fs1, r1)"
    by (cases "repairSegment (l_fs l) (segmentName num) num expect True")
  let ?l1 = "l\<lparr>l_fs := fs1\<rparr>"
  show ?thesis
  proof (cases rule: repair_tail [OF d e c1])
    case (1 err)
    then have "stored fs1 n0 base (recs ss @ rs) (length (recs ss) + sure g)"
      using g st by (intro stored_diskI [of fs1 ss num first rs g]) auto
    with 1 c c1 show ?thesis using that(1) by (auto simp: parse_segmentName [OF num] on_fs_def)
  next
    case 2
    have "Open_tail ?l1 = (l', r)"
      using c c1 2(1) by (simp add: parse_segmentName [OF num] on_fs_def)
    note ot = this
    have sgs: "segs_ok (ss @ [(num, first, [])])" using d(1) 2(2) by (simp add: disk_def)
    show ?thesis
    proof (rule Open_tail_create [of ?l1 ss num first l' r])
      fix e assume "r = Inl e" "left_over (l_fs l') ss num first" "fs_faults (l_fs ?l1) \<noteq> no_faults"
      then show ?thesis using that(1) left_over_stored_at [of "l_fs l'" ss num first n0 base] st g 2 by (auto simp: sure_def)
    next
      fix i assume "r = Inr ()" "active l' ss [] (Some 0) 0 i" "opened l'" "l_next l' = first" "l_segNum l' = num" "l_segFirst l' = first"
      then show ?thesis using that(2) [of "Some 0" i] 2 by (auto simp: sure_def)
    qed (use 2 l g ot sgs in \<open>auto simp: opened_def\<close>)
  next
    case (3 g')
    have "sbind (reopenLast ?l1 (segmentName num) num first (endof first rs)) (\<lambda>l _. Open_tail l) = (l', r)"
      using c c1 3(1)
      by (cases "reopenLast ?l1 (segmentName num) num first (endof first rs)"; cases "snd (reopenLast ?l1 (segmentName num) num first (endof first rs))")
         (auto simp: parse_segmentName [OF num] on_fs_def)
    then obtain l2 r2 where c2: "reopenLast ?l1 (segmentName num) num first (endof first rs) = (l2, r2)"
      and r2: "sbind (l2, r2) (\<lambda>l _. Open_tail l) = (l', r)" by (metis surj_pair)
    have i1: "seg_file (l_fs ?l1) num i" using 3(5) by simp
    show ?thesis
    proof (cases rule: reopenLast_cases [OF i1 c2])
      case (1 e)
      have "stored fs1 n0 base (recs ss @ rs) (length (recs ss) + sure g)"
        using 3(2-4) g st by (intro stored_diskI [of fs1 ss num first rs g']) auto
      with 1 r2 show ?thesis using that(1) 3(7) quiet_stored [of fs1 "l_fs l2"] by auto
    next
      case (2 fs2)
      have "Open_tail l2 = (l2, Inr ())" using 2(3) by (simp add: Open_tail_def)
      then have l': "l' = l2" "r = Inr ()" using r2 2(2) by simp_all
      have q: "quiet fs1 fs2" using 2(1) by simp
      have dk: "disk fs2 ss (num, first, rs) g'" "seg_file fs2 num i" "fdata fs2 i = seg_bytes num first rs @ []"
        using 3 quiet_disk [OF q] quiet_seg(1) [OF q] quiet_data [OF q, of i] by simp_all
      have "active l' ss rs g' (length rs) i"
        unfolding active_def l' 2(3)
        using dk l(2,3) g 3(4,6) disk_sure [OF dk(1)] by (simp add: opened_def)
      then show ?thesis
        using that(2) [of g' i] 2(3) 3 l l' by (auto simp: opened_def sure_def)
    qed
  qed
qed

lemma opened_newLog: "\<not> wo_NoFsync opt \<Longrightarrow> opened (newLog fs opt)"
  by (simp add: opened_def newLog_def)

lemma normalize_NoFsync: "wal_normalize opt = Inr opt' \<Longrightarrow> wo_NoFsync opt' = wo_NoFsync opt"
  by (auto simp: wal_normalize_def Let_def split: if_splits)

lemma opened_live:
  assumes "active l ss act g (length act) i" "opened l" "l_next l = l_fileEnd l"
    and "start (ss @ [(l_segNum l, l_segFirst l, act)]) = (n0, base)" "unat n0 + length (recs ss @ act) + 2 \<le> 10 ^ 12"
  shows "live l n0 base (recs ss @ act) (length (recs ss) + sure g) (length (recs ss @ act)) []"
proof -
  have "\<exists>ss' act' g' q' i'. active l ss' act' g' q' i' \<and> recs ss @ act = recs ss' @ act' \<and>
      length (recs ss) + sure g = length (recs ss') + sure g' \<and> length (recs ss @ act) = length (recs ss') + q' \<and>
      start (ss' @ [(l_segNum l, l_segFirst l, act')]) = (n0, base)"
    by (rule exI [of _ ss], rule exI [of _ act], rule exI [of _ g], rule exI [of _ "length act"], rule exI [of _ i])
       (use assms(1,4) in simp)
  then show ?thesis
    unfolding live_def using assms(2,3,5) by (simp only: opened_def) simp
qed

lemma Open_disk:
  assumes d: "disk fs ss (num, first, rs) g" and g: "g = None \<Longrightarrow> ss = [] \<Longrightarrow> num = 1 \<and> first = 1"
    and st: "start (ss @ [(num, first, rs)]) = (n0, base)"
    and l: "l_fs l = fs" "l_seg l = None" "l_sealed l = []" "opened l"
    and c: "sbind (Open_loop l (map segmentName (map fst (ss @ [(num, first, rs)]))) 0) (\<lambda>l _. Open_tail l) = (l', r)"
    and small: "unat n0 + length (recs ss @ rs) + 2 \<le> 10 ^ 12"
  obtains (error) e where "r = Inl e" "stored (l_fs l') n0 base (recs ss @ rs) (length (recs ss) + sure g)" "fs_faults fs \<noteq> no_faults"
  | (ok) d' where "r = Inr ()" "live l' n0 base (recs ss @ rs) d' (length (recs ss @ rs)) []" "length (recs ss) + sure g \<le> d'" "opened l'"
      "\<forall>i. fsynced fs i = fdata fs i \<Longrightarrow> d' = length (recs ss @ rs)"
proof -
  have ok: "segs_ok (ss @ [(num, first, rs)])" and wh: "\<forall>s\<in>set ss. whole (l_fs l) s" using d l(1) by (auto simp: disk_def)
  have lp: "Open_loop l (map segmentName (map fst ss) @ [segmentName (fst (num, first, rs))]) 0 = (l1, r1)
      \<Longrightarrow> sbind (l1, r1) (\<lambda>l _. Open_tail l) = (l', r)" for l1 r1
    using c by simp
  obtain l1 r1 where c1: "Open_loop l (map segmentName (map fst ss) @ [segmentName (fst (num, first, rs))]) 0 = (l1, r1)"
    by (cases "Open_loop l (map segmentName (map fst ss) @ [segmentName (fst (num, first, rs))]) 0")
  obtain i where i: "seg_file fs num i" using d by (auto simp: disk_def tail_ok_def)
  have dst: "stored fs n0 base (recs ss @ rs) (length (recs ss) + sure g)"
    using g st by (intro stored_diskI [OF d]) auto
  show ?thesis
  proof (cases rule: Open_loop_sealed [OF ok wh disjI1 [OF refl] c1])
    case (1 e)
    have q: "quiet fs (l_fs l1)" using 1(2) l(1) by simp
    show ?thesis using that(1) [of e] 1 l(1) lp [OF c1] dst quiet_stored [OF q] by auto
  next
    case (2 fs1 ex)
    let ?l = "l\<lparr>l_fs := fs1, l_sealed := l_sealed l @ map info_of ss\<rparr>"
    have q: "quiet fs fs1" using 2(1) l(1) by simp
    have d1: "disk (l_fs ?l) ss (num, first, rs) g" "seg_file (l_fs ?l) num i"
      using d i quiet_disk [OF q] quiet_seg(1) [OF q] by simp_all
    have l1: "l_seg ?l = None" "l_sealed ?l = map info_of ss" "opened ?l" using l by (simp_all add: opened_def)
    have cl: "sbind (Open_loop ?l [segmentName num] ex) (\<lambda>l _. Open_tail l) = (l', r)"
      using 2(3) lp [OF c1] by simp
    have ex: "ex = 0 \<or> ex = first" using 2(2) by simp
    show ?thesis
    proof (cases rule: Open_last [OF d1 l1 ex g cl st])
      case (3 err)
      then show ?thesis using that(1) quiet_faults [OF q] by simp
    next
      case (4 g' i')
      have "live l' n0 base (recs ss @ rs) (length (recs ss) + sure g') (length (recs ss @ rs)) []"
        using 4 st small by (intro opened_live [of l' ss rs g' i']) (auto simp: active_def)
      moreover have "length (recs ss) + sure g' = length (recs ss @ rs)" if "\<forall>i. fsynced fs i = fdata fs i"
        using 4(8) that quiet_data [OF q] by simp
      ultimately show ?thesis using that(2) 4 by auto
    qed simp_all
  qed
qed

lemma Open_cases:
  assumes s: "stored fs n0 base all d" and c: "wal_Open fs dir opt = (l, r)" and nf: "\<not> wo_NoFsync opt"
    and small: "unat n0 + length all + 2 \<le> 10 ^ 12"
  obtains (error) e where "r = Inl e" "stored (l_fs l) n0 base all d"
      "fs_faults fs \<noteq> no_faults \<or> dir = [] \<or> (\<exists>e. wal_normalize opt = Inl e)"
  | (ok) d' where "r = Inr ()" "live l n0 base all d' (length all) []" "d \<le> d'" "opened l"
      "\<forall>i. fsynced fs i = fdata fs i \<Longrightarrow> d' = length all"
proof (cases "dir = [] \<or> (\<exists>e. wal_normalize opt = Inl e)")
  case True
  then have "l = newLog fs opt \<and> (\<exists>e. r = Inl e)"
    using c by (cases "dir = []") (auto simp: wal_Open_def)
  with True s show ?thesis using that(1) by (auto simp: newLog_def)
next
  case False
  then obtain opt' where opt': "wal_normalize opt = Inr opt'" by (cases "wal_normalize opt") auto
  let ?l = "newLog fs opt'"
  have op: "opened ?l" using nf normalize_NoFsync [OF opt'] opened_newLog by simp
  have lfs: "l_fs ?l = fs" "l_seg ?l = None" "l_sealed ?l = []" by (simp_all add: newLog_def)
  have c1: "sbind (on_fs ?l (wrapped ''create wal directory'' (os_MkdirAll fs))) (\<lambda>l _.
          sbind (on_fs l (listSegments (l_fs l))) (\<lambda>l names.
            if length names = 0 then createSegment l 1 1
            else sbind (Open_loop l names 0) (\<lambda>l _. Open_tail l))) = (l, r)"
    using c False opt' by (simp add: wal_Open_def)
  have lk: "looks (l_fs ?l) () (wrapped ''create wal directory'' (os_MkdirAll fs))"
    unfolding lfs by (rule looks_wrapped [OF looks_os(1)])
  from lk c1 show ?thesis
  proof (cases rule: on_fs_sbindE)
    case (error e fs1)
    then show ?thesis using that(1) s lfs quiet_stored [of fs fs1] by simp
  next
    case (go fs1)
    let ?l1 = "?l\<lparr>l_fs := fs1\<rparr>"
    have q1: "quiet fs fs1" using go(1) lfs by simp
    have s1: "stored fs1 n0 base all d" using s quiet_stored [OF q1] by simp
    from s1 show ?thesis
    proof (cases rule: storedE)
      case fresh
      have "looks (l_fs ?l1) [] (listSegments fs1)"
        using listSegments_looks [of fs1 "[]"] fresh(1) by (simp add: closed_disk_def)
      from this go(2) [simplified] show ?thesis
      proof (cases rule: on_fs_sbindE)
        case (error e fs2)
        then show ?thesis using that(1) s1 quiet_stored [of fs1 fs2] quiet_faults [OF q1] by simp
      next
        case l2: (go fs2)
        let ?l2 = "?l1\<lparr>l_fs := fs2\<rparr>"
        have cd: "closed_disk (l_fs ?l2) []" using fresh(1) closed_disk_quiet [of fs1 fs2 "[]"] l2(1) by simp
        have sg: "segs_ok ([] @ [(1, 1, [])])" by (simp add: seg_num_ok_def)
        have cr: "createSegment ?l2 1 1 = (l, r)" using l2(2) by simp
        show ?thesis
        proof (cases rule: createSegment_cases [OF cd sg cr])
          case (1 e fs3)
          then show ?thesis
            using that(1) [of e] left_over_stored_at [of fs3 "[]" 1 1 1 1] fresh quiet_faults [OF q1] quiet_faults [of fs1 fs2] l2(1)
            by simp
        next
          case (2 i fs3)
          have "active l [] [] (Some 0) 0 i"
            by (rule created_active [OF 2(2-4)]) (use 2(5) in \<open>simp_all add: newLog_def\<close>)
          then have "live l 1 1 [] 0 0 []"
            using opened_live [of l "[]" "[]" "Some 0" i 1 1] 2(5) op by (simp add: opened_def sure_def newLog_def)
          moreover have "opened l" using op 2(5) by (simp add: opened_def)
          ultimately show ?thesis using that(2) 2(1) fresh by simp
        qed
      qed
    next
      case (disk ss num first rs g)
      have "looks (l_fs ?l1) (map segmentName (map fst (ss @ [(num, first, rs)]))) (listSegments fs1)"
        using listSegments_looks [of fs1 "ss @ [(num, first, rs)]"] disk(1) by (simp add: disk_def)
      from this go(2) [simplified] show ?thesis
      proof (cases rule: on_fs_sbindE)
        case (error e fs2)
        then show ?thesis using that(1) s1 quiet_stored [of fs1 fs2] quiet_faults [OF q1] by simp
      next
        case l2: (go fs2)
        let ?l2 = "?l1\<lparr>l_fs := fs2\<rparr>"
        have q2: "quiet fs1 fs2" using l2(1) by simp
        have d2: "disk fs2 ss (num, first, rs) g" using disk(1) quiet_disk [OF q2] by simp
        have l2': "l_fs ?l2 = fs2" "l_seg ?l2 = None" "l_sealed ?l2 = []" "opened ?l2"
          using op by (simp_all add: newLog_def opened_def)
        have lp: "sbind (Open_loop ?l2 (map segmentName (map fst (ss @ [(num, first, rs)]))) 0) (\<lambda>l _. Open_tail l) = (l, r)"
          using l2(2) by simp
        have sm: "unat n0 + length (recs ss @ rs) + 2 \<le> 10 ^ 12" using small disk(2) by simp
        show ?thesis
        proof (cases rule: Open_disk [OF d2 disk(5) disk(4) l2' lp sm])
          case (3 e)
          have "stored (l_fs l) n0 base all d" using stored_mono [OF 3(2) disk(3)] disk(2) by simp
          then show ?thesis using that(1) 3(1,3) quiet_faults [OF q1] quiet_faults [OF q2] by simp
        next
          case (4 d')
          have "\<forall>i. fsynced fs i = fdata fs i \<Longrightarrow> d' = length all"
            using 4(5) quiet_data [OF q1] quiet_data [OF q2] disk(2) by simp
          then show ?thesis using that(2) 4 disk(2,3) by simp
        qed simp_all
      qed
    qed
  qed
qed

end
