(* ===== verification/WalLive.thy ===== *)
theory WalLive
  imports WalRecover
begin

text \<open>
  The operations of an open log keep it \<open>live\<close>: \<open>Append\<close> adds to the buffer, a flush moves records
  from the buffer to the files and, when it succeeds, makes all of them durable, \<open>Truncate\<close> drops
  whole segments from the front. A flush that fails has moved some of the records.
\<close>

section \<open>Writing and syncing the active segment\<close>

lemma active_data:
  assumes "active l ss act g q i" "l_broken l = None"
  shows "fdata (l_fs l) i = seg_bytes (l_segNum l) (l_segFirst l) act"
  using assms by (auto simp: active_def)

lemma torn_part: "rec_ok r \<Longrightarrow> torn (take (min k (length (frame r) - 1)) (frame r))"
proof -
  assume r: "rec_ok r"
  have "length (take (min k (length (frame r) - 1)) (frame r)) < length (frame r)" by simp
  then show ?thesis using torn_strict_frame [OF r take_is_prefix] by (metis less_irrefl)
qed

lemma disk_write:
  assumes d: "disk fs ss (num, first, act) g" "seg_file fs num i" and ch: "chain first (act @ rs)" and t: "torn t"
  shows "disk (upd fs i (seg_bytes num first (act @ rs) @ t) (fsynced fs i)) ss (num, first, act @ rs) g"
proof (rule disk_upd [OF d])
  note im = disk_image [OF d]
  show "g_ok (act @ rs) g" using im(4) by (cases g) (auto simp: g_ok_def)
  show "data_of num first (act @ rs) g (seg_bytes num first (act @ rs) @ t)" using t by (auto simp: data_of_def)
  show "image_of num first (act @ rs) g (fsynced fs i)" by (rule image_of_extend [OF im(2,4)])
qed (rule ch)

lemma writeFull_cases:
  assumes a: "active l ss act g q i" and br: "l_broken l = None" and r: "rec_ok r" "r_LSN r = l_fileEnd l"
    and c: "writeFull l (frame r) = (l', res)"
  obtains (ok) fs1 where "res = Inr ()" "fs_faults fs1 = fs_faults (l_fs l)"
      "l' = l\<lparr>l_fs := fs1, l_segLen := l_segLen l + length (frame r), l_fileEnd := l_fileEnd l + word_of_nat (length (frame r))\<rparr>"
      "active l' ss (act @ [r]) g q i"
  | (error) e fs1 where "res = Inl e" "l' = l\<lparr>l_fs := fs1\<rparr>" "fs_faults (l_fs l) \<noteq> no_faults"
      "active (l'\<lparr>l_broken := Some e\<rparr>) ss act g q i"
proof -
  let ?num = "l_segNum l" and ?first = "l_segFirst l"
  have d: "disk (l_fs l) ss (?num, ?first, act) g" "seg_file (l_fs l) ?num i" and seg: "l_seg l = Some i"
    using a by (auto simp: active_def)
  have wf: "i < length (fs_inodes (l_fs l))" using d seg_file_inode by (auto simp: disk_def)
  note dat = active_data [OF a br]
  have ch: "chain ?first (act @ [r])" using disk_image(5) [OF d] r a by (auto simp: active_def)
  obtain fs1 n err where w: "os_Write (l_fs l) i (frame r) = (fs1, n, err)" by (cases "os_Write (l_fs l) i (frame r)")
  show ?thesis
  proof (cases rule: write_cases [OF w])
    case 1
    have q: "quiet (upd (l_fs l) i (seg_bytes ?num ?first (act @ [r]) @ []) (fsynced (l_fs l) i)) fs1"
      using 1(3) dat by (simp add: seg_bytes_append)
    have dk: "disk fs1 ss (?num, ?first, act @ [r]) g"
      using disk_write [OF d ch torn_Nil] quiet_disk [OF q] by simp
    have "seg_file fs1 ?num i" "fdata fs1 i = seg_bytes ?num ?first (act @ [r])"
      using quiet_seg(1) [OF q] quiet_data [OF q, of i] d(2) upd_data(1) [OF wf] by simp_all
    moreover have "l' = l\<lparr>l_fs := fs1, l_segLen := l_segLen l + length (frame r), l_fileEnd := l_fileEnd l + word_of_nat (length (frame r))\<rparr>"
      "res = Inr ()"
      using c w 1 seg by (auto simp: writeFull_def Let_def)
    ultimately show ?thesis
      using that(1) [of fs1] a dk quiet_faults [OF q] unfolding active_def
      by (auto simp: add.assoc)
  next
    case (2 k)
    let ?t = "take (min k (length (frame r) - 1)) (frame r)"
    have t: "torn ?t" by (rule torn_part [OF r(1)])
    have q: "quiet (upd (l_fs l) i (seg_bytes ?num ?first (act @ []) @ ?t) (fsynced (l_fs l) i)) fs1"
      using 2(4) dat by simp
    have dk: "disk fs1 ss (?num, ?first, act) g"
      using disk_write [OF d _ t, of "[]"] disk_image(5) [OF d] quiet_disk [OF q] by simp
    have f: "seg_file fs1 ?num i" "fdata fs1 i = seg_bytes ?num ?first act @ ?t"
      using quiet_seg(1) [OF q] quiet_data [OF q, of i] d(2) upd_data(1) [OF wf] by simp_all
    have l': "l' = l\<lparr>l_fs := fs1\<rparr>" "res = Inl EIO"
      using c w 2 seg by (auto simp: writeFull_def Let_def split: if_splits)
    have "active (l'\<lparr>l_broken := Some EIO\<rparr>) ss act g q i"
      using a dk f t l' unfolding active_def by auto
    then show ?thesis using that(2) l' 2(1) by blast
  qed
qed

lemma syncFile_cases:
  assumes a: "active l ss act g q i" and br: "l_broken l = None" and nf: "\<not> l_noFsync l" and c: "syncFile l = (l', res)"
  obtains (ok) fs1 where "res = Inr ()" "l' = l\<lparr>l_fs := fs1, l_syncedOff := l_segLen l\<rparr>" "fs_faults fs1 = fs_faults (l_fs l)"
      "active (l'\<lparr>l_durable := l_fileEnd l\<rparr>) ss act (Some (length act)) (length act) i"
      "fdata fs1 i = seg_bytes (l_segNum l) (l_segFirst l) act" "fsynced fs1 i = seg_bytes (l_segNum l) (l_segFirst l) act"
  | (error) e fs1 where "res = Inl e" "l' = l\<lparr>l_fs := fs1\<rparr>" "fs_faults (l_fs l) \<noteq> no_faults" "active l' ss act g q i"
proof -
  let ?num = "l_segNum l" and ?first = "l_segFirst l"
  let ?b = "seg_bytes ?num ?first act"
  have d: "disk (l_fs l) ss (?num, ?first, act) g" "seg_file (l_fs l) ?num i" and seg: "l_seg l = Some i"
    using a by (auto simp: active_def)
  have wf: "i < length (fs_inodes (l_fs l))" using d seg_file_inode by (auto simp: disk_def)
  note dat = active_data [OF a br]
  obtain fs1 r1 where s: "os_Sync (l_fs l) i = (fs1, r1)" by (cases "os_Sync (l_fs l) i")
  show ?thesis
  proof (cases rule: sync_cases [OF s])
    case 1
    have q: "quiet (upd (l_fs l) i ?b ?b) fs1" using 1(2) dat by simp
    have dk: "disk fs1 ss (?num, ?first, act) (Some (length act))"
      using disk_upd [OF d _ data_of_whole image_of_whole disk_image(5) [OF d]] quiet_disk [OF q] by (simp add: g_ok_def)
    have f: "seg_file fs1 ?num i" "fdata fs1 i = ?b" "fsynced fs1 i = ?b"
      using quiet_seg(1) [OF q] quiet_data [OF q, of i] d(2) upd_data [OF wf] by simp_all
    have l': "l' = l\<lparr>l_fs := fs1, l_syncedOff := l_segLen l\<rparr>" "res = Inr ()"
      using c s 1 seg nf by (auto simp: syncFile_def wrapped_def on_fs_def)
    have "active (l'\<lparr>l_durable := l_fileEnd l\<rparr>) ss act (Some (length act)) (length act) i"
      using a dk f l' br unfolding active_def by (auto simp: sure_def)
    then show ?thesis using that(1) l' f quiet_faults [OF q] by simp
  next
    case 2
    then have l': "l' = l\<lparr>l_fs := fs1\<rparr>" "\<exists>e. res = Inl e"
      using c s seg nf by (auto simp: syncFile_def wrapped_def on_fs_def)
    have "active l' ss act g q i"
      using a quiet_disk [OF 2(3)] quiet_seg(1) [OF 2(3)] quiet_data [OF 2(3), of i] l' unfolding active_def by auto
    then show ?thesis using that(2) l' 2(1) by blast
  qed
qed

lemma active_broken: "active l ss act g q i \<Longrightarrow> active (l\<lparr>l_broken := Some e\<rparr>) ss act g q i"
  by (auto simp: active_def)

lemma active_buf [simp]: "active (l\<lparr>l_buf := b\<rparr>) ss act g q i = active l ss act g q i"
  by (simp add: active_def)

lemma active_quiet:
  "active l ss act g q i \<Longrightarrow> quiet (l_fs l) fs1 \<Longrightarrow> active (l\<lparr>l_fs := fs1\<rparr>) ss act g q i"
  using quiet_disk [of "l_fs l" fs1] quiet_seg(1) [of "l_fs l" fs1] quiet_data [of "l_fs l" fs1 i]
  by (auto simp: active_def)

section \<open>Between two segments\<close>

definition keeps :: "Log \<Rightarrow> Log \<Rightarrow> bool" where
  "keeps l l' \<longleftrightarrow> l_next l' = l_next l \<and> l_noFsync l' = l_noFsync l \<and> l_closed l' = l_closed l \<and>
     l_waiters l' = l_waiters l \<and> l_flushing l' = l_flushing l \<and> l_results l' = l_results l"

lemma keeps_refl [simp]: "keeps l l"
  by (simp add: keeps_def)

lemma keeps_trans: "keeps l l' \<Longrightarrow> keeps l' l'' \<Longrightarrow> keeps l l''"
  by (simp add: keeps_def)

lemma archive_cases:
  assumes "archiveHook l info = (l', r)"
  obtains (ok) fs1 where "r = Inr ()" "l' = l\<lparr>l_fs := fs1\<rparr>" "fs_inodes fs1 = fs_inodes (l_fs l)" "fs_dir fs1 = fs_dir (l_fs l)"
      "fs_faults fs1 = fs_faults (l_fs l)"
  | (error) e fs1 where "r = Inl e" "l' = l\<lparr>l_fs := fs1\<rparr>" "quiet (l_fs l) fs1" "fs_faults (l_fs l) \<noteq> no_faults"
proof (cases "l_archiver l")
  case False
  then show ?thesis using assms that(1) [of "l_fs l"] by (simp add: archiveHook_def)
next
  case True
  obtain fs1 r1 where a: "os_Archive (l_fs l) (si_Number info) = (fs1, r1)" by (cases "os_Archive (l_fs l) (si_Number info)")
  then have l': "l' = l\<lparr>l_fs := fs1\<rparr>" "r = r1" using assms True by (simp_all add: archiveHook_def on_fs_def)
  from a [unfolded os_Archive_def] show ?thesis
  proof (cases rule: os_try_cases)
    case fault
    then show ?thesis using that(2) l' by simp
  next
    case (act fs2)
    then show ?thesis using that(1) [of fs1] l' by (auto simp: quiet_def)
  qed
qed

lemma same_files:
  assumes "fs_inodes fs1 = fs_inodes fs" "fs_dir fs1 = fs_dir fs"
  shows "closed_disk fs1 ss = closed_disk fs ss" "disk fs1 ss sg g = disk fs ss sg g"
    "left_over fs1 ss num first = left_over fs ss num first" "whole fs1 s = whole fs s"
proof -
  have e: "seg_file fs1 = seg_file fs" "seg_nums fs1 = seg_nums fs" "fs_wf fs1 = fs_wf fs" "fdata fs1 = fdata fs" "fsynced fs1 = fsynced fs"
    using assms by (auto simp: seg_file_def seg_nums_def fs_wf_def fdata_def fsynced_def fun_eq_iff)
  then have w: "whole fs1 s = whole fs s" for s by (simp add: whole_def)
  with e show c: "closed_disk fs1 ss = closed_disk fs ss" and d: "disk fs1 ss sg g = disk fs ss sg g"
    by (simp_all add: closed_disk_def disk_def tail_ok_def)
  show "left_over fs1 ss num first = left_over fs ss num first"
    using e w by (simp add: left_over_def closed_disk_def disk_def tail_ok_def)
  show "whole fs1 s = whole fs s" by (rule w)
qed

lemma closed_disk_left: "closed_disk fs ss \<Longrightarrow> left_over fs ss num first"
  by (simp add: left_over_def)

lemma left_over_whole: "left_over fs ss num first \<Longrightarrow> s \<in> set ss \<Longrightarrow> whole fs s"
  by (auto simp: left_over_def closed_disk_def disk_def)

lemma segs_ok_next: "segs_ok (ss @ [(n, f, rs)]) \<Longrightarrow> seg_num_ok (n + 1) \<Longrightarrow> segs_ok ((ss @ [(n, f, rs)]) @ [(n + 1, endof f rs, [])])"
  by (subst segs_ok_snoc) simp

definition sealed_off :: "Log \<Rightarrow> wseg list \<Rightarrow> LSN \<Rightarrow> bool" where
  "sealed_off l ss e \<longleftrightarrow> l_seg l = None \<and> l_sealed l = map info_of ss \<and> l_pending l = None \<and> l_path l = [] \<and>
     l_syncedOff l = 0 \<and> l_fileEnd l = e \<and> l_durable l = e \<and> l_broken l = None"

lemma rotate_create_cases:
  assumes cd: "closed_disk (l_fs l) (ss @ [(num, first, act)])"
    and sg: "segs_ok ((ss @ [(num, first, act)]) @ [(num + 1, endof first act, [])])"
    and so: "sealed_off l (ss @ [(num, first, act)]) (endof first act)"
    and c: "(case archiveHook l (info_of (num, first, act)) of
                (l, Inl err) \<Rightarrow> (l\<lparr>l_pending := Some (info_of (num, first, act))\<rparr>, Inl err)
              | (l, Inr _) \<Rightarrow>
                  (case createSegment l (num + 1) (endof first act) of
                     (l, Inl err) \<Rightarrow> (l\<lparr>l_pending := Some (info_of (num, first, act))\<rparr>, Inl err)
                   | (l, Inr _) \<Rightarrow> (l, Inr ()))) = (l', res)"
  obtains (ok) i' where "res = Inr ()" "active l' (ss @ [(num, first, act)]) [] (Some 0) 0 i'" "keeps l l'"
      "fs_faults (l_fs l') = fs_faults (l_fs l)" "l_broken l' = None" "l_buf l' = l_buf l"
  | (btw) e where "res = Inl e" "between l' (ss @ [(num, first, act)])" "keeps l l'" "fs_faults (l_fs l) \<noteq> no_faults"
      "l_broken l' = None" "l_buf l' = l_buf l"
proof -
  let ?info = "info_of (num, first, act)" and ?ss = "ss @ [(num, first, act)]"
  note l = so [unfolded sealed_off_def]
  obtain l1 r1 where a: "archiveHook l ?info = (l1, r1)" by (cases "archiveHook l ?info")
  have btw': "between (l\<lparr>l_fs := fs1, l_pending := Some ?info\<rparr>) ?ss" if "left_over fs1 ?ss (num + 1) (endof first act)" for fs1
    using that l sg left_over_whole [OF that] unfolding between_def by auto
  show ?thesis
  proof (cases rule: archive_cases [OF a])
    case (2 e fs1)
    have "left_over fs1 ?ss (num + 1) (endof first act)"
      using closed_disk_left cd closed_disk_quiet [OF 2(3)] by blast
    then show ?thesis using btw [of e] btw' c a 2 l by (auto simp: keeps_def)
  next
    case (1 fs1)
    have cd1: "closed_disk (l_fs l1) ?ss" using cd same_files(1) [OF 1(3,4)] 1(2) by simp
    obtain l2 r2 where cr: "createSegment l1 (num + 1) (endof first act) = (l2, r2)"
      by (cases "createSegment l1 (num + 1) (endof first act)")
    show ?thesis
    proof (cases rule: createSegment_cases [OF cd1 sg cr])
      case (1 e fs2)
      have "left_over fs2 ?ss (num + 1) (endof first act)" using 1(3) by simp
      from btw' [OF this] show ?thesis
        using btw [of e] c a cr 1 \<open>r1 = Inr ()\<close> \<open>l1 = l\<lparr>l_fs := fs1\<rparr>\<close> \<open>fs_faults fs1 = fs_faults (l_fs l)\<close> l by (auto simp: keeps_def)
    next
      case (2 i' fs2)
      have "active l2 ?ss [] (Some 0) 0 i'"
        by (rule created_active [OF 2(2-4)]) (use 2(5) \<open>l1 = l\<lparr>l_fs := fs1\<rparr>\<close> l in simp_all)
      then show ?thesis
        using ok [of i'] c a cr 2 \<open>r1 = Inr ()\<close> \<open>l1 = l\<lparr>l_fs := fs1\<rparr>\<close> \<open>fs_faults fs1 = fs_faults (l_fs l)\<close> l
        by (auto simp: keeps_def)
    qed
  qed
qed

lemma rotate_cases:
  assumes a: "active l ss act g q i" and br: "l_broken l = None" and nf: "\<not> l_noFsync l" and act: "act \<noteq> []"
    and num: "seg_num_ok (l_segNum l + 1)" and c: "rotateLocked l = (l', res)"
  obtains (ok) i' where "res = Inr ()" "active l' (ss @ [(l_segNum l, l_segFirst l, act)]) [] (Some 0) 0 i'" "keeps l l'"
      "fs_faults (l_fs l') = fs_faults (l_fs l)" "l_broken l' = None" "l_buf l' = l_buf l"
  | (failed) e where "res = Inl e" "active l' ss act g q i" "keeps l l'" "fs_faults (l_fs l) \<noteq> no_faults"
      "l_segNum l' = l_segNum l" "l_segFirst l' = l_segFirst l" "l_fileEnd l' = l_fileEnd l" "l_buf l' = l_buf l"
  | (btw) e where "res = Inl e" "between l' (ss @ [(l_segNum l, l_segFirst l, act)])" "keeps l l'" "fs_faults (l_fs l) \<noteq> no_faults"
      "l_broken l' = None" "l_buf l' = l_buf l"
proof -
  let ?num = "l_segNum l" and ?first = "l_segFirst l"
  let ?ss = "ss @ [(?num, ?first, act)]" and ?info = "info_of (?num, ?first, act)"
  obtain l1 r1 where s: "syncFile l = (l1, r1)" by (cases "syncFile l")
  show ?thesis
  proof (cases rule: syncFile_cases [OF a br nf s])
    case (2 e fs1)
    then show ?thesis using failed [of e] active_broken [OF 2(4)] c s by (auto simp: rotateLocked_def keeps_def)
  next
    case (1 fs1)
    have ai: "l_fileEnd l = endof ?first act" "l_path l = segmentName ?num" "l_sealed l = map info_of ss" "l_seg l = Some i" "l_pending l = None"
      using a by (auto simp: active_def)
    have d1: "disk fs1 ss (?num, ?first, act) (Some (length act))" "seg_file fs1 ?num i" using 1(2,4) by (auto simp: active_def)
    have cd: "closed_disk fs1 ?ss" by (rule disk_closed [OF d1 act 1(5,6)])
    have sg: "segs_ok (?ss @ [(?num + 1, endof ?first act, [])])"
      by (rule segs_ok_next) (use d1(1) num in \<open>simp_all add: disk_def\<close>)
    obtain fs2 r2 where cl: "os_Close fs1 = (fs2, r2)" by (cases "os_Close fs1")
    have q: "quiet fs1 fs2" "r2 = Inr () \<or> fs_faults fs1 \<noteq> no_faults \<and> (\<exists>e. r2 = Inl e)"
      using looks_os(4) [of fs1] cl by (auto simp: looks_def)
    have cd2: "closed_disk fs2 ?ss" using cd closed_disk_quiet [OF q(1)] by simp
    let ?l2 = "l\<lparr>l_durable := l_fileEnd l, l_sealed := map info_of ?ss, l_fs := fs2, l_seg := None, l_path := [], l_syncedOff := 0\<rparr>"
    have info: "?info = \<lparr>si_Number = ?num, si_Path = l_path l, si_First = ?first, si_End = l_fileEnd l\<rparr>"
      by (simp add: info_of_def ai)
    show ?thesis
    proof (cases r2)
      case (Inl e)
      have "l' = ?l2\<lparr>l_pending := Some ?info\<rparr>" "res = Inl e"
        using c s 1(1,2) cl Inl ai info by (auto simp: rotateLocked_def on_fs_def Let_def)
      moreover have "between (?l2\<lparr>l_pending := Some ?info\<rparr>) ?ss"
        using sg ai closed_disk_left [OF cd2] cd2 unfolding between_def by (auto simp: closed_disk_def)
      ultimately show ?thesis using btw [of e] q(2) Inl 1(3) br by (auto simp: keeps_def)
    next
      case (Inr u)
      have cc: "(case archiveHook ?l2 ?info of
                (l, Inl err) \<Rightarrow> (l\<lparr>l_pending := Some ?info\<rparr>, Inl err)
              | (l, Inr _) \<Rightarrow>
                  (case createSegment l (?num + 1) (endof ?first act) of
                     (l, Inl err) \<Rightarrow> (l\<lparr>l_pending := Some ?info\<rparr>, Inl err)
                   | (l, Inr _) \<Rightarrow> (l, Inr ()))) = (l', res)"
        using c s 1(1,2) cl Inr ai unfolding info_of_def prod.case
        by (simp add: rotateLocked_def on_fs_def Let_def info_of_def)
      have f: "fs_faults (l_fs ?l2) = fs_faults (l_fs l)" using 1(3) quiet_faults [OF q(1)] by simp
      have k: "keeps l ?l2" by (simp add: keeps_def)
      have so: "sealed_off ?l2 ?ss (endof ?first act)" using ai br by (simp add: sealed_off_def)
      have cd3: "closed_disk (l_fs ?l2) ?ss" using cd2 by simp
      show ?thesis
      proof (cases rule: rotate_create_cases [OF cd3 sg so cc])
        case (1 i')
        then show ?thesis using ok [of i'] f keeps_trans [OF k] by simp
      next
        case (2 e)
        then show ?thesis using btw [of e] f keeps_trans [OF k] by simp
      qed
    qed
  qed
qed

lemma segs_count:
  "segs_ok (ss @ [(num, first, rs)]) \<Longrightarrow> unat num = unat (fst (start (ss @ [(num, first, rs)]))) + length ss"
proof (induction ss)
  case (Cons s ss)
  obtain n f rs' where s: "s = (n, f, rs')" by (cases s)
  have "segs_ok ((n, f, rs') # ss @ [(num, first, rs)])" using Cons.prems s by simp
  note d = segs_ok_ConsD [OF this]
  have "seg_num_ok (n + 1)" using segs_ok_nums(3) [OF d(1)] d(5) by (cases ss) (auto simp: start_def)
  then have "unat (n + 1) = unat n + 1" using seg_num_Suc [OF d(2)] by simp
  with Cons.IH [OF d(1)] d(5) show ?case by (simp add: s start_def)
qed simp

lemma recs_count: "\<forall>s\<in>set ss. whole fs s \<Longrightarrow> length ss \<le> length (recs ss)"
proof (induction ss)
  case (Cons s ss)
  then have "snd (snd s) \<noteq> []" by (auto simp: whole_def split: prod.splits)
  then have "1 \<le> length (snd (snd s))" by (cases "snd (snd s)") auto
  with Cons show ?case by (auto split: prod.splits)
qed simp

lemma next_num_ok:
  assumes "active l ss act g q i" "act \<noteq> []" "start (ss @ [(l_segNum l, l_segFirst l, act)]) = (n0, base)"
    "unat n0 + length (recs ss @ act) + m + 2 \<le> 10 ^ 12"
  shows "seg_num_ok (l_segNum l + 1)"
proof -
  have d: "disk (l_fs l) ss (l_segNum l, l_segFirst l, act) g" using assms(1) by (simp add: active_def)
  then have "unat (l_segNum l) = unat n0 + length ss"
    using segs_count [of ss "l_segNum l" "l_segFirst l" act] assms(3) by (simp add: disk_def)
  moreover have "length ss \<le> length (recs ss)" using recs_count d by (auto simp: disk_def)
  moreover have "1 \<le> length act" using assms(2) by (cases act) auto
  ultimately have lt: "unat (l_segNum l) + 1 < 10 ^ 12" using assms(4) by simp
  then have "unat (l_segNum l + 1) = unat (l_segNum l) + 1" by (simp add: unat_word_ariths)
  with lt show ?thesis by (simp add: seg_num_ok_def)
qed

section \<open>Flushing\<close>

lemma createSegment_exists:
  assumes "map_of (fs_dir (l_fs l)) (segmentName num) \<noteq> None" "createSegment l num first = (l', r)"
  obtains e fs1 where "r = Inl e" "l' = l\<lparr>l_fs := fs1\<rparr>" "quiet (l_fs l) fs1"
proof -
  obtain fs1 r1 where c: "os_Create (l_fs l) (segmentName num) = (fs1, r1)" by (cases "os_Create (l_fs l) (segmentName num)")
  have "quiet (l_fs l) fs1 \<and> (\<exists>e. r1 = Inl e)"
    using c [unfolded os_Create_def]
  proof (cases rule: os_try_cases)
    case (act fs2)
    have "fs_dir fs2 = fs_dir (l_fs l)" using act(1) by (simp add: quiet_def)
    then show ?thesis using act assms(1) by auto
  qed simp
  then show ?thesis
    using that assms(2) c by (auto simp: createSegment_def createFile_def wrapped_def on_fs_def)
qed

lemma finishPending_cases:
  assumes b: "between l ss" and br: "l_broken l = None" and c: "finishPendingLocked l = (l', r)"
  obtains (ok) i where "r = Inr ()" "active l' ss [] (Some 0) 0 i" "keeps l l'" "l_broken l' = None" "l_buf l' = l_buf l"
      "l_fileEnd l' = l_fileEnd l"
  | (btw) e where "r = Inl e" "between l' ss" "keeps l l'" "l_broken l' = None" "l_buf l' = l_buf l" "l_fileEnd l' = l_fileEnd l"
proof -
  from b obtain num first rs where ls: "ss \<noteq> []" "last ss = (num, first, rs)" and seg: "l_seg l = None"
    and pend: "l_pending l = Some (info_of (num, first, rs))" and sg: "segs_ok (ss @ [(num + 1, endof first rs, [])])"
    and left: "left_over (l_fs l) ss (num + 1) (endof first rs)" and fe: "l_fileEnd l = endof first rs" "l_durable l = endof first rs"
    and sealed: "l_sealed l = map info_of ss" and pth: "l_path l = []" "l_syncedOff l = 0"
    by (auto simp: between_def)
  have btw': "between (l\<lparr>l_fs := fs1\<rparr>) ss" if "left_over fs1 ss (num + 1) (endof first rs)" for fs1
    using that b ls left_over_whole [OF that] unfolding between_def by auto
  have info: "si_Number (info_of (num, first, rs)) = num" "si_End (info_of (num, first, rs)) = endof first rs"
    by (simp_all add: info_of_def)
  obtain l1 r1 where a: "archiveHook l (info_of (num, first, rs)) = (l1, r1)" by (cases "archiveHook l (info_of (num, first, rs))")
  show ?thesis
  proof (cases rule: archive_cases [OF a])
    case (2 e fs1)
    have "between (l\<lparr>l_fs := fs1\<rparr>) ss" using btw' left left_over_quiet [OF 2(3)] by simp
    then show ?thesis using btw [of e] c pend a 2 br by (auto simp: finishPendingLocked_def keeps_def)
  next
    case (1 fs1)
    have left1: "left_over fs1 ss (num + 1) (endof first rs)" using left same_files(3) [OF 1(3,4)] by simp
    obtain l2 r2 where cr: "createSegment l1 (num + 1) (endof first rs) = (l2, r2)"
      by (cases "createSegment l1 (num + 1) (endof first rs)")
    have eq: "sbind (l2, r2) (\<lambda>l _. (l\<lparr>l_pending := None\<rparr>, Inr ())) = (l', r)"
      using c pend a 1(1,2) seg cr by (simp add: finishPendingLocked_def info)
    show ?thesis
    proof (cases "closed_disk fs1 ss")
      case True
      then have cd: "closed_disk (l_fs l1) ss" using 1(2) by simp
      show ?thesis
      proof (cases rule: createSegment_cases [OF cd sg cr])
        case (1 e fs2)
        have "between (l\<lparr>l_fs := fs2\<rparr>) ss" using btw' 1(3) by simp
        then show ?thesis using btw [of e] eq 1 \<open>l1 = l\<lparr>l_fs := fs1\<rparr>\<close> br by (auto simp: keeps_def)
      next
        case (2 i fs2)
        have "active (l2\<lparr>l_pending := None\<rparr>) ss [] (Some 0) 0 i"
          by (rule created_active [OF 2(2-4)]) (use 2(5) \<open>l1 = l\<lparr>l_fs := fs1\<rparr>\<close> fe sealed in simp_all)
        then show ?thesis using ok [of i] eq 2(1,5) \<open>l1 = l\<lparr>l_fs := fs1\<rparr>\<close> br fe by (auto simp: keeps_def)
      qed
    next
      case False
      then have "disk fs1 ss (num + 1, endof first rs, []) None" using left1 by (simp add: left_over_def)
      then have "map_of (fs_dir (l_fs l1)) (segmentName (num + 1)) \<noteq> None"
        using 1(2) by (auto simp: disk_def tail_ok_def seg_file_def)
      from createSegment_exists [OF this cr] obtain e fs2 where x: "r2 = Inl e" "l2 = l1\<lparr>l_fs := fs2\<rparr>" "quiet fs1 fs2"
        using 1(2) by auto
      have "between (l\<lparr>l_fs := fs2\<rparr>) ss" using btw' left1 left_over_quiet [OF x(3)] by simp
      then show ?thesis using btw [of e] eq x 1(2) br by (auto simp: keeps_def)
    qed
  qed
qed

text \<open>Every frame of the buffer has the length its header says.\<close>

lemma encodedLen_frame: "rec_ok r \<Longrightarrow> encodedLen (frame r @ b) = Inr (length (frame r))"
  using frame_fields(4) [of r b] by (simp add: encodedLen_def rec_ok_def wal_sizes Let_def)

lemma frame_neq_Nil [simp]: "frame r \<noteq> []"
  by (metis length_frame list.size(3) add_is_0 zero_neq_numeral)

text \<open>
  The state of a log between two writes of a flush: \<open>active\<close> with the buffer aside.
\<close>

definition flushable :: "Log \<Rightarrow> uint64 \<Rightarrow> LSN \<Rightarrow> Record list \<Rightarrow> nat \<Rightarrow> Record list \<Rightarrow> bool" where
  "flushable l n0 base all d bs \<longleftrightarrow> l_broken l = None \<and> \<not> l_noFsync l \<and> chain (l_fileEnd l) bs \<and> l_next l = endof (l_fileEnd l) bs \<and>
     unat n0 + length all + length bs + 2 \<le> 10 ^ 12 \<and>
     (\<exists>ss act g q i. active l ss act g q i \<and> all = recs ss @ act \<and> d \<le> length (recs ss) + sure g \<and>
        start (ss @ [(l_segNum l, l_segFirst l, act)]) = (n0, base))"

lemma flushableI:
  assumes "active l ss act g q i" "all = recs ss @ act" "d \<le> length (recs ss) + sure g"
    "start (ss @ [(l_segNum l, l_segFirst l, act)]) = (n0, base)" "l_broken l = None" "\<not> l_noFsync l" "chain (l_fileEnd l) bs"
    "l_next l = endof (l_fileEnd l) bs" "unat n0 + length all + length bs + 2 \<le> 10 ^ 12"
  shows "flushable l n0 base all d bs"
  unfolding flushable_def using assms by blast

lemma live_activeI:
  assumes "active l ss act g q i" "\<not> l_noFsync l" "l_buf l = frames bs" "chain (l_fileEnd l) bs" "l_next l = endof (l_fileEnd l) bs"
    "unat n0 + length (recs ss @ act) + length bs + 2 \<le> 10 ^ 12" "start (ss @ [(l_segNum l, l_segFirst l, act)]) = (n0, base)"
  shows "live l n0 base (recs ss @ act) (length (recs ss) + sure g) (length (recs ss) + q) bs"
proof -
  have "\<exists>ss' act' g' q' i'. active l ss' act' g' q' i' \<and> recs ss @ act = recs ss' @ act' \<and>
      length (recs ss) + sure g = length (recs ss') + sure g' \<and> length (recs ss) + q = length (recs ss') + q' \<and>
      start (ss' @ [(l_segNum l, l_segFirst l, act')]) = (n0, base)"
    by (rule exI [of _ ss], rule exI [of _ act], rule exI [of _ g], rule exI [of _ q], rule exI [of _ i])
       (use assms(1,7) in simp)
  then show ?thesis unfolding live_def using assms(2-6) by simp
qed

lemma live_betweenI:
  assumes "between l ss" "\<not> l_noFsync l" "l_buf l = frames bs" "chain (l_fileEnd l) bs" "l_next l = endof (l_fileEnd l) bs"
    "unat n0 + length (recs ss) + length bs + 2 \<le> 10 ^ 12" "start ss = (n0, base)"
  shows "live l n0 base (recs ss) (length (recs ss)) (length (recs ss)) bs"
  unfolding live_def using assms by blast

lemma between_fileEnd: "between l (ss @ [(num, first, rs)]) \<Longrightarrow> l_fileEnd l = endof first rs"
  by (auto simp: between_def)

text \<open>Rotating before a write, when the segment is full.\<close>

lemma mustRotate_cases:
  assumes f: "flushable l n0 base all d bs" and c: "(if mustRotate l n then rotateLocked l else (l, Inr ())) = (l', res)"
  obtains (ok) "res = Inr ()" "flushable l' n0 base all d bs" "keeps l l'" "fs_faults (l_fs l') = fs_faults (l_fs l)"
  | (failed) e d' c' where "res = Inl e" "live (l'\<lparr>l_buf := frames bs\<rparr>) n0 base all d' c' bs" "d \<le> d'" "keeps l l'"
      "fs_faults (l_fs l) \<noteq> no_faults"
proof (cases "mustRotate l n")
  case False
  then show ?thesis using ok f c by simp
next
  case True
  from f obtain ss act g q i where a: "active l ss act g q i" "all = recs ss @ act" "d \<le> length (recs ss) + sure g"
    "start (ss @ [(l_segNum l, l_segFirst l, act)]) = (n0, base)"
    and br: "l_broken l = None" "\<not> l_noFsync l" and ch: "chain (l_fileEnd l) bs" "l_next l = endof (l_fileEnd l) bs"
    and sm: "unat n0 + length all + length bs + 2 \<le> 10 ^ 12"
    unfolding flushable_def by blast
  have fe: "l_fileEnd l = endof (l_segFirst l) act" using a(1) by (simp add: active_def)
  have act: "act \<noteq> []" using True a(1) by (auto simp: mustRotate_def active_def wal_sizes split: if_splits)
  have num: "seg_num_ok (l_segNum l + 1)" by (rule next_num_ok [OF a(1) act a(4)]) (use sm a(2) in simp)
  have rc: "rotateLocked l = (l', res)" using True c by simp
  let ?ss = "ss @ [(l_segNum l, l_segFirst l, act)]"
  have all: "all = recs ?ss" "d \<le> length (recs ?ss)" using a disk_sure [of "l_fs l" ss] by (auto simp: active_def)
  show ?thesis
  proof (cases rule: rotate_cases [OF a(1) br act num rc])
    case (1 i')
    have "segs_ok (?ss @ [(l_segNum l', l_segFirst l', [])])" using 1(2) by (simp add: active_def disk_def)
    then have e: "l_fileEnd l' = l_segFirst l'" "l_segFirst l' = endof (l_segFirst l) act"
      using 1(2) segs_ok_snoc [of ?ss] by (auto simp: active_def)
    have "start (?ss @ [(l_segNum l', l_segFirst l', [])]) = (n0, base)" using a(4) start_snoc [of ?ss] by simp
    then have "flushable l' n0 base all d bs"
      using flushableI [OF 1(2)] 1 br ch sm all e fe by (auto simp: keeps_def sure_def)
    then show ?thesis using ok 1 by simp
  next
    case (2 e)
    have "live (l'\<lparr>l_buf := frames bs\<rparr>) n0 base (recs ss @ act) (length (recs ss) + sure g) (length (recs ss) + q) bs"
      by (rule live_activeI [of _ _ _ _ _ i]) (use 2 br ch sm a in \<open>auto simp: keeps_def\<close>)
    then show ?thesis using failed 2 a(2,3) by blast
  next
    case (3 e)
    have "live (l'\<lparr>l_buf := frames bs\<rparr>) n0 base (recs ?ss) (length (recs ?ss)) (length (recs ?ss)) bs"
    proof (rule live_betweenI)
      show "between (l'\<lparr>l_buf := frames bs\<rparr>) ?ss" using 3(2) by (simp add: between_def)
    qed (use 3 br ch sm a(4) all between_fileEnd [OF 3(2)] fe in \<open>auto simp: keeps_def\<close>)
    then show ?thesis using failed 3 all by blast
  qed
qed


section \<open>Flushing the buffer\<close>

lemma flushable_write:
  assumes f: "flushable l n0 base all d (r # bs)" and c: "writeFull l (frame r) = (l', res)"
  obtains (ok) "res = Inr ()" "flushable l' n0 base (all @ [r]) d bs" "keeps l l'" "fs_faults (l_fs l') = fs_faults (l_fs l)"
  | (failed) e d' c' where "res = Inl e" "live (l'\<lparr>l_broken := Some e, l_buf := frames (r # bs)\<rparr>) n0 base all d' c' (r # bs)" "d \<le> d'"
      "keeps l l'" "fs_faults (l_fs l) \<noteq> no_faults"
proof -
  from f obtain ss act g q i where a: "active l ss act g q i" "all = recs ss @ act" "d \<le> length (recs ss) + sure g"
    "start (ss @ [(l_segNum l, l_segFirst l, act)]) = (n0, base)"
    and br: "l_broken l = None" "\<not> l_noFsync l" and ch: "chain (l_fileEnd l) (r # bs)" "l_next l = endof (l_fileEnd l) (r # bs)"
    and sm: "unat n0 + length all + length (r # bs) + 2 \<le> 10 ^ 12"
    unfolding flushable_def by blast
  have r: "rec_ok r" "r_LSN r = l_fileEnd l" using ch(1) by simp_all
  show ?thesis
  proof (cases rule: writeFull_cases [OF a(1) br(1) r c])
    case (1 fs1)
    have "flushable l' n0 base (all @ [r]) d bs"
      by (rule flushableI [OF 1(4)]) (use 1(3) br ch sm a in auto)
    then show ?thesis using ok 1(1-3) by (simp add: keeps_def)
  next
    case (2 e fs1)
    have "live (l'\<lparr>l_broken := Some e, l_buf := frames (r # bs)\<rparr>) n0 base (recs ss @ act) (length (recs ss) + sure g) (length (recs ss) + q) (r # bs)"
      by (rule live_activeI [of _ _ _ _ _ i]) (use 2 br ch sm a in \<open>auto simp: active_def\<close>)
    then show ?thesis using failed 2 a(2,3) by (simp add: keeps_def)
  qed
qed

definition flush_failed :: "Log \<Rightarrow> uint64 \<Rightarrow> LSN \<Rightarrow> Record list \<Rightarrow> nat \<Rightarrow> Record list \<Rightarrow> Log \<Rightarrow> bool" where
  "flush_failed l n0 base all d bs l' \<longleftrightarrow> keeps l l' \<and>
     (\<exists>k d' c'. k \<le> length bs \<and> live l' n0 base (all @ take k bs) d' c' (drop k bs) \<and> d \<le> d')"

lemma flush_failed_Cons:
  assumes "flush_failed l1 n0 base (all @ [r]) d bs l'" "keeps l l1"
  shows "flush_failed l n0 base all d (r # bs) l'"
proof -
  from assms(1) obtain k d' c' where "k \<le> length bs" "live l' n0 base (all @ take (Suc k) (r # bs)) d' c' (drop (Suc k) (r # bs))" "d \<le> d'"
    by (auto simp: flush_failed_def)
  moreover have "keeps l l'" using assms keeps_trans [of l l1 l'] by (simp add: flush_failed_def)
  ultimately show ?thesis
    unfolding flush_failed_def by (intro conjI exI [of _ "Suc k"] exI [of _ d'] exI [of _ c']) simp_all
qed

lemma flush_failed_0:
  "keeps l l' \<Longrightarrow> live l' n0 base all d' c' bs \<Longrightarrow> d \<le> d' \<Longrightarrow> flush_failed l n0 base all d bs l'"
  unfolding flush_failed_def by (intro conjI exI [of _ 0] exI [of _ d'] exI [of _ c']) simp_all

lemma flush_loop_cases:
  assumes "flushable l n0 base all d bs" "flush_loop l (frames bs) = (l', res)"
  shows "res = Inr () \<and> flushable l' n0 base (all @ bs) d [] \<and> keeps l l' \<and> fs_faults (l_fs l') = fs_faults (l_fs l) \<or>
    (\<exists>e. res = Inl e) \<and> flush_failed l n0 base all d bs l' \<and> fs_faults (l_fs l) \<noteq> no_faults"
  using assms
proof (induction bs arbitrary: l all)
  case Nil
  then show ?case by (simp add: flush_loop.simps)
next
  case (Cons r bs)
  have r: "rec_ok r" using Cons.prems(1) by (simp add: flushable_def)
  obtain l1 r1 where m: "(if mustRotate l (length (frame r)) then rotateLocked l else (l, Inr ())) = (l1, r1)" by fastforce
  obtain l2 r2 where w: "writeFull l1 (frame r) = (l2, r2)" by fastforce
  have "flush_loop l (frames (r # bs)) = (case r1 of Inl e \<Rightarrow> (l1\<lparr>l_buf := frames (r # bs)\<rparr>, Inl e) | Inr _ \<Rightarrow>
      (case r2 of Inl e \<Rightarrow> (l2\<lparr>l_broken := Some e, l_buf := frames (r # bs)\<rparr>, Inl e) | Inr _ \<Rightarrow> flush_loop l2 (frames bs)))"
    using r m w by (subst flush_loop.simps) (simp add: encodedLen_frame split: sum.split)
  note eq = trans [OF Cons.prems(2) [symmetric] this]
  show ?case
  proof (cases rule: mustRotate_cases [OF Cons.prems(1) m])
    case (2 e d' c')
    then have "keeps l (l1\<lparr>l_buf := frames (r # bs)\<rparr>)" by (simp add: keeps_def)
    from flush_failed_0 [OF this 2(2,3)] 2 eq show ?thesis by auto
  next
    case 1
    show ?thesis
    proof (cases rule: flushable_write [OF 1(2) w])
      case w2: (2 e d' c')
      have "keeps l (l2\<lparr>l_broken := Some e, l_buf := frames (r # bs)\<rparr>)" using w2(4) 1(3) by (simp add: keeps_def)
      from flush_failed_0 [OF this w2(2,3)] show ?thesis using w2 1 eq by auto
    next
      case w1: 1
      have k: "keeps l l2" using keeps_trans [OF 1(3) w1(3)] .
      have "flush_loop l2 (frames bs) = (l', res)" using eq 1(1) w1(1) by simp
      from Cons.IH [OF w1(2) this] show ?thesis
        using flush_failed_Cons [OF _ k] keeps_trans [OF k] 1(4) w1(4) by auto
    qed
  qed
qed


lemma flushable_live: "flushable l n0 base all d bs \<Longrightarrow> l_buf l = frames bs \<Longrightarrow> \<exists>d' c'. live l n0 base all d' c' bs \<and> d \<le> d'"
proof -
  assume f: "flushable l n0 base all d bs" and b: "l_buf l = frames bs"
  from f obtain ss act g q i where a: "active l ss act g q i" "all = recs ss @ act" "d \<le> length (recs ss) + sure g"
    "start (ss @ [(l_segNum l, l_segFirst l, act)]) = (n0, base)"
    and r: "\<not> l_noFsync l" "chain (l_fileEnd l) bs" "l_next l = endof (l_fileEnd l) bs" "unat n0 + length all + length bs + 2 \<le> 10 ^ 12"
    unfolding flushable_def by blast
  then show ?thesis using live_activeI [OF a(1) r(1) b r(2,3)] by blast
qed

lemma flush_sync_cases:
  assumes f: "flushable l n0 base all d []" and c: "syncFile l = (l', res)"
  obtains (ok) "res = Inr ()" "live (l'\<lparr>l_buf := [], l_durable := l_fileEnd l'\<rparr>) n0 base all (length all) (length all) []" "keeps l l'"
      "l_next l' = l_fileEnd l'" "l_pending l' = None" "l_broken l' = None" "fs_faults (l_fs l') = fs_faults (l_fs l)"
  | (failed) e d' c' where "res = Inl e" "live (l'\<lparr>l_broken := Some e, l_buf := []\<rparr>) n0 base all d' c' []" "d \<le> d'" "keeps l l'"
      "fs_faults (l_fs l) \<noteq> no_faults"
proof -
  from f obtain ss act g q i where a: "active l ss act g q i" "all = recs ss @ act" "d \<le> length (recs ss) + sure g"
    "start (ss @ [(l_segNum l, l_segFirst l, act)]) = (n0, base)"
    and br: "l_broken l = None" "\<not> l_noFsync l" and ch: "l_next l = l_fileEnd l" and sm: "unat n0 + length all + 2 \<le> 10 ^ 12"
    unfolding flushable_def by auto
  show ?thesis
  proof (cases rule: syncFile_cases [OF a(1) br c])
    case (1 fs1)
    let ?l = "l'\<lparr>l_buf := [], l_durable := l_fileEnd l'\<rparr>"
    have ac: "active ?l ss act (Some (length act)) (length act) i" using 1(2,4) by (simp add: active_def)
    have "live ?l n0 base (recs ss @ act) (length (recs ss) + sure (Some (length act))) (length (recs ss) + length act) []"
      by (rule live_activeI [OF ac]) (use 1(2) br ch sm a in auto)
    then show ?thesis using ok 1 a(1,2) ch br by (simp add: keeps_def sure_def active_def)
  next
    case (2 e fs1)
    let ?l = "l'\<lparr>l_broken := Some e, l_buf := []\<rparr>"
    have ac: "active ?l ss act g q i" using active_broken [OF 2(4)] by simp
    have "live ?l n0 base (recs ss @ act) (length (recs ss) + sure g) (length (recs ss) + q) []"
      by (rule live_activeI [OF ac]) (use 2(2) br ch sm a in auto)
    then show ?thesis using failed 2 a(2,3) by (simp add: keeps_def)
  qed
qed

lemma finishPending_live:
  assumes l: "live l n0 base all d c bs" and br: "l_broken l = None" and fp: "finishPendingLocked l = (l', r)"
  obtains (ok) "r = Inr ()" "flushable l' n0 base all d bs" "keeps l l'" "l_buf l' = frames bs" "l_pending l = None \<longrightarrow> l' = l"
  | (failed) e where "r = Inl e" "live l' n0 base all d c bs" "keeps l l'" "l_pending l \<noteq> None"
proof -
  have b: "\<not> l_noFsync l" "l_buf l = frames bs" "chain (l_fileEnd l) bs" "l_next l = endof (l_fileEnd l) bs"
    "unat n0 + length all + length bs + 2 \<le> 10 ^ 12"
    using l by (auto simp: live_def)
  from l consider (act) ss act g q i where "active l ss act g q i" "all = recs ss @ act" "d = length (recs ss) + sure g"
      "start (ss @ [(l_segNum l, l_segFirst l, act)]) = (n0, base)"
    | (btw) ss where "between l ss" "all = recs ss" "d = length all" "c = length all" "start ss = (n0, base)"
    unfolding live_def by blast
  then show ?thesis
  proof cases
    case act
    then have "l_pending l = None" by (simp add: active_def)
    then have "r = Inr ()" "l' = l" using fp by (auto simp: finishPendingLocked_def)
    moreover have "flushable l n0 base all d bs" by (rule flushableI [OF act(1)]) (use act b br in auto)
    ultimately show ?thesis using ok b by simp
  next
    case btw
    then have p: "l_pending l \<noteq> None" by (auto simp: between_def)
    show ?thesis
    proof (cases rule: finishPending_cases [OF btw(1) br fp])
      case (1 i)
      have ne: "ss \<noteq> []" using btw(1) by (auto simp: between_def)
      have "flushable l' n0 base all d bs"
        by (rule flushableI [OF 1(2)]) (use 1 btw b ne in \<open>auto simp: keeps_def sure_def\<close>)
      then show ?thesis using ok 1 b p by simp
    next
      case (2 e)
      have "live l' n0 base (recs ss) (length (recs ss)) (length (recs ss)) bs"
        by (rule live_betweenI [OF 2(2)]) (use 2 btw b in \<open>auto simp: keeps_def\<close>)
      then show ?thesis using failed 2 p btw by simp
    qed
  qed
qed

lemma flushLocked_cases:
  assumes l: "live l n0 base all d c bs" and br: "l_broken l = None" and fl: "flushLocked l = (l', r)"
  obtains (ok) "r = Inr ()" "live l' n0 base (all @ bs) (length (all @ bs)) (length (all @ bs)) []" "keeps l l'"
      "l_durable l' = l_next l'" "l_pending l' = None" "l_broken l' = None"
      "l_pending l = None \<longrightarrow> fs_faults (l_fs l') = fs_faults (l_fs l)"
  | (failed) e where "r = Inl e" "flush_failed l n0 base all d bs l'" "l_pending l = None \<longrightarrow> fs_faults (l_fs l) \<noteq> no_faults"
proof -
  obtain l1 r1 where fp: "finishPendingLocked l = (l1, r1)" by fastforce
  show ?thesis
  proof (cases rule: finishPending_live [OF l br fp])
    case (2 e)
    then show ?thesis using failed flush_failed_0 [OF 2(3,2)] fl fp by (auto simp: flushLocked_def )
  next
    case 1
    obtain l2 r2 where lp: "flush_loop l1 (frames bs) = (l2, r2)" by fastforce
    consider (ok2) "r2 = Inr ()" "flushable l2 n0 base (all @ bs) d []" "keeps l1 l2" "fs_faults (l_fs l2) = fs_faults (l_fs l1)"
      | (bad2) e where "r2 = Inl e" "flush_failed l1 n0 base all d bs l2" "fs_faults (l_fs l1) \<noteq> no_faults"
      using flush_loop_cases [OF 1(2) lp] by blast
    then show ?thesis
    proof cases
      case (bad2 e)
      have "flush_failed l n0 base all d bs l2" using bad2(2) keeps_trans [OF 1(3)] by (auto simp: flush_failed_def)
      then show ?thesis using failed bad2 fl fp lp 1 by (auto simp: flushLocked_def )
    next
      case ok2
      obtain l3 r3 where sy: "syncFile l2 = (l3, r3)" by fastforce
      have sg: "l_seg l2 \<noteq> None" using ok2(2) by (auto simp: flushable_def active_def)
      have eq: "(l', r) = (case r3 of Inl e \<Rightarrow> (l3\<lparr>l_broken := Some e, l_buf := []\<rparr>, Inl e) | Inr _ \<Rightarrow> (l3\<lparr>l_buf := [], l_durable := l_fileEnd l3\<rparr>, Inr ()))"
        using fl fp lp sy sg 1 ok2 by (auto simp: flushLocked_def  split: sum.splits)
      have k: "keeps l l2" using keeps_trans [OF 1(3) ok2(3)] .
      show ?thesis
      proof (cases rule: flush_sync_cases [OF ok2(2) sy])
        case s1: 1
        then show ?thesis using ok eq keeps_trans [OF k s1(3)] 1(5) ok2(4) by (auto simp: keeps_def)
      next
        case (2 e d' c')
        have "keeps l l'" using keeps_trans [OF k 2(4)] eq 2(1) by (simp add: keeps_def)
        moreover have "live l' n0 base (all @ take (length bs) bs) d' c' (drop (length bs) bs)" using 2 eq by simp
        ultimately have "flush_failed l n0 base all d bs l'" using 2(3) unfolding flush_failed_def by blast
        then show ?thesis using failed 2 eq 1(5) ok2(4) by auto
      qed
    qed
  qed
qed

end
