(* ===== verification/WalTruncate.thy ===== *)
theory WalTruncate
  imports WalLive
begin

text \<open>
  \<open>Append\<close> adds a record to the buffer. \<open>Truncate\<close> removes segments from the front: as LSNs grow
  along the log, the segments that end below its argument are the first ones, and a removal that
  fails stops it. Segments that stay keep their records.
\<close>

section \<open>Appending\<close>

lemma Append_cases:
  assumes l: "live l n0 base all d c bs" and ap: "wal_Append l ty txn payload = (l', r)"
    and room: "unat n0 + length all + length bs + 3 \<le> 10 ^ 12"
  obtains (ok) x where "x = \<lparr>r_LSN = l_next l, r_TxnID = txn, r_Type = ty, r_Payload = payload\<rparr>" "r = Inr (l_next l)"
      "live l' n0 base all d c (bs @ [x])" "l_next l' = l_next l + word_of_nat (Record_Size x)" "l_broken l = None" "\<not> l_closed l"
      "l' = l\<lparr>l_buf := l_buf l', l_next := l_next l'\<rparr>"
  | (refused) e where "r = Inl e" "l' = l"
proof (cases "validType ty \<and> length payload \<le> MaxPayload \<and> \<not> l_closed l \<and> l_broken l = None")
  case False
  then show ?thesis using ap refused by (auto simp: wal_Append_def split: if_splits option.splits)
next
  case True
  define x where "x = \<lparr>r_LSN = l_next l, r_TxnID = txn, r_Type = ty, r_Payload = payload\<rparr>"
  have x: "rec_ok x" "r_LSN x = l_next l" using True by (simp_all add: x_def rec_ok_def)
  have l': "l' = l\<lparr>l_buf := l_buf l @ frame x, l_next := l_next l + word_of_nat (length (frame x))\<rparr>" "r = Inr (l_next l)"
    using ap True by (auto simp: wal_Append_def wal_appendRecord_frame x_def wal_sizes Let_def)
  have "live l' n0 base all d c (bs @ [x])"
    using l x room unfolding live_def l'(1) active_def between_def by (simp add: add.assoc)
  then show ?thesis using ok [OF x_def l'(2)] l'(1) True by (simp add: Record_Size_frame)
qed

section \<open>LSNs without wrap-around\<close>

lemma endof_unat:
  "unat base + length (frames xs) < 2 ^ 64 \<Longrightarrow> unat (endof base xs) = unat base + length (frames xs)"
  by (simp add: unat_word_ariths unat_of_nat)

lemma chain_below:
  assumes "chain base xs" "unat base + length (frames xs) < 2 ^ 64" "x \<in> set xs"
  shows "r_LSN x < endof base xs" "base \<le> r_LSN x"
proof -
  from assms(3) obtain us vs where xs: "xs = us @ x # vs" by (meson split_list)
  have u: "unat (endof base us) = unat base + length (frames us)" using endof_unat assms(2) xs by simp
  have "r_LSN x = endof base us" using assms(1) xs by simp
  then show "r_LSN x < endof base xs" "base \<le> r_LSN x"
    using u endof_unat [OF assms(2)] xs by (simp_all add: word_less_nat_alt word_le_nat_alt)
qed

definition seg_end :: "wseg \<Rightarrow> LSN" where
  "seg_end sg = (case sg of (num, first, rs) \<Rightarrow> endof first rs)"

lemma info_of_simps [simp]: "si_Number (info_of sg) = fst sg" "si_Path (info_of sg) = segmentName (fst sg)" "si_End (info_of sg) = seg_end sg"
  by (simp_all add: info_of_def seg_end_def split: prod.splits)

lemma segs_ok_chain:
  assumes "segs_ok ss" "ss \<noteq> []"
  shows "chain (snd (start ss)) (recs ss) \<and> seg_end (last ss) = endof (snd (start ss)) (recs ss)"
  using assms
proof (induction ss rule: segs_ok.induct)
  case (3 n f rs n' f' rs' ss)
  then show ?case by (auto simp: start_def add.assoc)
qed (auto simp: start_def seg_end_def)

lemma segs_ok_prefix: "segs_ok (us @ vs) \<Longrightarrow> segs_ok us"
proof (induction us rule: segs_ok.induct)
  case (2 n f rs)
  then show ?case by (cases vs) auto
qed auto

lemma segs_ok_ends:
  assumes "segs_ok (us @ vs)" "us \<noteq> []"
  shows "seg_end (last us) = endof (snd (start (us @ vs))) (recs us)"
  using segs_ok_chain [OF segs_ok_prefix [OF assms(1)] assms(2)] assms(2) by (cases us) (simp_all add: start_def)

lemma segs_ok_sorted:
  assumes "segs_ok ss" "unat (snd (start ss)) + length (frames (recs ss)) < 2 ^ 64" "ss = us @ s # vs" "t \<in> set vs"
  shows "seg_end s \<le> seg_end t"
proof -
  from assms(4) obtain us' vs' where vs: "vs = us' @ t # vs'" by (meson split_list)
  have s: "seg_end s = endof (snd (start ss)) (recs (us @ [s]))" using segs_ok_ends [of "us @ [s]" vs] assms(1,3) by simp
  have t: "seg_end t = endof (snd (start ss)) (recs (us @ s # us' @ [t]))"
    using segs_ok_ends [of "us @ s # us' @ [t]" vs'] assms(1,3) vs by simp
  have "unat (seg_end s) = unat (snd (start ss)) + length (frames (recs (us @ [s])))"
    unfolding s by (rule endof_unat) (use assms(2,3) vs in simp)
  moreover have "unat (seg_end t) = unat (snd (start ss)) + length (frames (recs (us @ s # us' @ [t])))"
    unfolding t by (rule endof_unat) (use assms(2,3) vs in simp)
  ultimately show ?thesis by (simp add: word_le_nat_alt)
qed

section \<open>Removing segments\<close>

definition stays :: "Log \<Rightarrow> LSN \<Rightarrow> wseg \<Rightarrow> bool" where
  "stays l before s \<longleftrightarrow> (case l_pending l of None \<Rightarrow> False | Some p \<Rightarrow> fst s = si_Number p) \<or> seg_end s > before"

lemma stays_fs [simp]: "stays (l\<lparr>l_fs := fs\<rparr>) = stays l"
  by (simp add: stays_def fun_eq_iff)

lemma Truncate_loop_Cons:
  "Truncate_loop l before (map info_of (s # ss)) keep =
     (if stays l before s then Truncate_loop l before (map info_of ss) (keep @ [info_of s])
      else case os_Remove (l_fs l) (segmentName (fst s)) of
        (fs, Inl err) \<Rightarrow> if err \<noteq> ErrNotExist
          then (l\<lparr>l_fs := fs, l_sealed := keep @ info_of s # map info_of ss\<rparr>, Inl (gerr_Wrap Unavailable ''remove wal segment'' err))
          else Truncate_loop (l\<lparr>l_fs := fs\<rparr>) before (map info_of ss) keep
      | (fs, Inr _) \<Rightarrow> Truncate_loop (l\<lparr>l_fs := fs\<rparr>) before (map info_of ss) keep)"
  by (cases "l_pending l") (simp_all add: stays_def Let_def)

lemma Truncate_loop_stay:
  assumes "\<forall>s\<in>set ss. stays l before s"
  shows "Truncate_loop l before (map info_of ss) keep = on_fs (l\<lparr>l_sealed := keep @ map info_of ss\<rparr>) (syncDir (l_fs l))"
  using assms
proof (induction ss arbitrary: keep)
  case (Cons s ss)
  then show ?case unfolding Truncate_loop_Cons by simp
qed (simp add: Let_def)

text \<open>What \<open>Truncate_loop\<close> leaves: the segments from some position on, in a directory that satisfies \<open>P\<close>.\<close>

definition dropped :: "(fsys \<Rightarrow> wseg list \<Rightarrow> bool) \<Rightarrow> Log \<Rightarrow> LSN \<Rightarrow> wseg list \<Rightarrow> Log \<Rightarrow> unit sresult \<Rightarrow> nat \<Rightarrow> fsys \<Rightarrow> bool" where
  "dropped P l before ss l' r n fs \<longleftrightarrow> n \<le> length ss \<and> P fs (drop n ss) \<and>
     l' = l\<lparr>l_fs := fs, l_sealed := map info_of (drop n ss)\<rparr> \<and> (\<forall>s\<in>set (take n ss). \<not> stays l before s) \<and>
     fs_faults fs = fs_faults (l_fs l) \<and>
     (fs_faults (l_fs l) = no_faults \<longrightarrow> r = Inr () \<and> (\<forall>s\<in>set (drop n ss). stays l before s))"

lemma dropped_none:
  assumes "P fs' ss" "quiet fs fs'" "l' = l\<lparr>l_fs := fs', l_sealed := map info_of ss\<rparr>" "l_fs l = fs"
    "fs_faults fs = no_faults \<Longrightarrow> r = Inr () \<and> (\<forall>s\<in>set ss. stays l before s)"
  shows "dropped P l before ss l' r 0 fs'"
  using assms by (simp add: dropped_def quiet_def)

lemma Truncate_loop_cases:
  assumes "P (l_fs l) ss"
    and step: "\<And>fs s ss. P fs (s # ss) \<Longrightarrow> \<not> stays l before s \<Longrightarrow>
      map_of (fs_dir fs) (segmentName (fst s)) \<noteq> None \<and> P (drop_name fs (segmentName (fst s))) ss"
    and qt: "\<And>fs fs' ss. P fs ss \<Longrightarrow> quiet fs fs' \<Longrightarrow> P fs' ss"
    and "sorted_wrt (\<lambda>s t. stays l before s \<longrightarrow> stays l before t) ss"
    and "Truncate_loop l before (map info_of ss) [] = (l', r)"
  shows "\<exists>n fs. dropped P l before ss l' r n fs"
  using assms(1,2,4,5)
proof (induction ss arbitrary: l)
  case Nil
  obtain fs1 r1 where s: "syncDir (l_fs l) = (fs1, r1)" by fastforce
  have q: "quiet (l_fs l) fs1" using s looks_syncDir [of "l_fs l"] by (auto simp: looks_def)
  have "dropped P l before [] l' r 0 fs1"
    by (rule dropped_none [of P, OF qt [OF Nil.prems(1) q] q]) (use s Nil.prems(4) looks_syncDir [of "l_fs l"] in \<open>auto simp: looks_def on_fs_def\<close>)
  then show ?case by blast
next
  case (Cons s ss)
  show ?case
  proof (cases "stays l before s")
    case True
    then have st: "\<forall>s\<in>set (s # ss). stays l before s" using Cons.prems(3) by auto
    obtain fs1 r1 where s: "syncDir (l_fs l) = (fs1, r1)" by fastforce
    have q: "quiet (l_fs l) fs1" using s looks_syncDir [of "l_fs l"] by (auto simp: looks_def)
    have "dropped P l before (s # ss) l' r 0 fs1"
      by (rule dropped_none [of P, OF qt [OF Cons.prems(1) q] q])
         (use s st Cons.prems(4) Truncate_loop_stay [OF st] looks_syncDir [of "l_fs l"] in \<open>auto simp: looks_def on_fs_def\<close>)
    then show ?thesis by blast
  next
    case False
    obtain fs1 r1 where rm: "os_Remove (l_fs l) (segmentName (fst s)) = (fs1, r1)" by fastforce
    note st = Cons.prems(2) [OF Cons.prems(1) False]
    from st have nn: "map_of (fs_dir (l_fs l)) (segmentName (fst s)) \<noteq> None" by blast
    note eq = Cons.prems(4) [unfolded Truncate_loop_Cons rm]
    show ?thesis
    proof (cases rule: remove_known [OF rm nn])
      case 1
      let ?l = "l\<lparr>l_fs := fs1\<rparr>"
      have P1: "P (l_fs ?l) ss" using qt [OF conjunct2 [OF st] 1(2)] by simp
      have "\<exists>n fs. dropped P ?l before ss l' r n fs"
      proof (rule Cons.IH [OF P1])
        show "Truncate_loop ?l before (map info_of ss) [] = (l', r)" using eq False 1(1) by simp
      qed (use Cons.prems(2,3) in auto)
      then obtain n fs where "dropped P ?l before ss l' r n fs" by blast
      then have "dropped P l before (s # ss) l' r (Suc n) fs" using False 1(2) by (auto simp: dropped_def quiet_def)
      then show ?thesis by blast
    next
      case 2
      have "dropped P l before (s # ss) l' r 0 fs1"
        by (rule dropped_none [of P, OF qt [OF Cons.prems(1) 2(3)] 2(3)]) (use 2 eq False in \<open>auto simp: EIO_def ErrNotExist_def\<close>)
      then show ?thesis by blast
    qed
  qed
qed


text \<open>The first segment of a directory can go when others follow.\<close>

lemma drop_front_disk:
  assumes "disk fs (s # ss) (num, first, rs) g"
  shows "map_of (fs_dir fs) (segmentName (fst s)) \<noteq> None"
    and "disk (drop_name fs (segmentName (fst s))) ss (num, first, rs) g"
    and "seg_file fs num i \<Longrightarrow> seg_file (drop_name fs (segmentName (fst s))) num i"
proof -
  let ?fs = "drop_name fs (segmentName (fst s))"
  from assms have wf: "fs_wf fs" and ok: "segs_ok (s # ss @ [(num, first, rs)])" and wh: "\<forall>t\<in>set (s # ss). whole fs t"
    and tl: "tail_ok fs (num, first, rs) g" and nums: "seg_nums fs = fst ` set (s # ss @ [(num, first, rs)])"
    by (auto simp: disk_def)
  note n = segs_ok_nums(2,3) [OF ok]
  have s: "seg_num_ok (fst s)" "fst s \<notin> fst ` set (ss @ [(num, first, rs)])" using n by auto
  show "map_of (fs_dir fs) (segmentName (fst s)) \<noteq> None" using wh by (cases s) (auto simp: whole_def seg_file_def)
  show fl: "seg_file ?fs num i" if "seg_file fs num i" for i
    using drop_name_seg(1) [OF s(1)] that s(2) n by auto
  have "\<forall>t\<in>set ss. whole ?fs t" using wh s n by (auto intro!: drop_name_whole simp: image_iff)
  moreover have "tail_ok ?fs (num, first, rs) g" using tl fl by (auto simp: tail_ok_def)
  moreover have "seg_nums ?fs = fst ` set (ss @ [(num, first, rs)])" using nums s drop_name_seg(2) [OF s(1)] by auto
  ultimately show "disk ?fs ss (num, first, rs) g"
    using wf segs_ok_Cons [OF ok] by (simp add: disk_def drop_name_wf)
qed

lemma drop_front_closed:
  assumes "closed_disk fs (s # ss)"
  shows "map_of (fs_dir fs) (segmentName (fst s)) \<noteq> None" and "closed_disk (drop_name fs (segmentName (fst s))) ss"
proof -
  from assms have wf: "fs_wf fs" and ok: "segs_ok (s # ss)" and wh: "\<forall>t\<in>set (s # ss). whole fs t" and nums: "seg_nums fs = fst ` set (s # ss)"
    by (auto simp: closed_disk_def)
  note n = segs_ok_nums(2,3) [OF ok]
  have s: "seg_num_ok (fst s)" "fst s \<notin> fst ` set ss" using n by auto
  show "map_of (fs_dir fs) (segmentName (fst s)) \<noteq> None" using wh by (cases s) (auto simp: whole_def seg_file_def)
  have "\<forall>t\<in>set ss. whole (drop_name fs (segmentName (fst s))) t" using wh s n by (auto intro!: drop_name_whole simp: image_iff)
  then show "closed_disk (drop_name fs (segmentName (fst s))) ss"
    using wf segs_ok_Cons [OF ok] nums s drop_name_seg(2) [OF s(1)] by (auto simp: closed_disk_def drop_name_wf)
qed

lemma active_drop:
  assumes "active (l\<lparr>l_fs := fs, l_sealed := map info_of (s # ss)\<rparr>) (s # ss) act g q i" "g \<noteq> None"
  shows "map_of (fs_dir fs) (segmentName (fst s)) \<noteq> None"
    and "active (l\<lparr>l_fs := drop_name fs (segmentName (fst s)), l_sealed := map info_of ss\<rparr>) ss act g q i"
proof -
  have d: "disk fs (s # ss) (l_segNum l, l_segFirst l, act) g" "seg_file fs (l_segNum l) i" using assms by (auto simp: active_def)
  note f = drop_front_disk [OF d(1)]
  show "map_of (fs_dir fs) (segmentName (fst s)) \<noteq> None" by (rule f(1))
  show "active (l\<lparr>l_fs := drop_name fs (segmentName (fst s)), l_sealed := map info_of ss\<rparr>) ss act g q i"
    using assms f(2) f(3) [OF d(2)] by (auto simp: active_def)
qed

lemma left_over_drop:
  assumes "left_over fs (s # ss) num first"
  shows "map_of (fs_dir fs) (segmentName (fst s)) \<noteq> None" and "left_over (drop_name fs (segmentName (fst s))) ss num first"
  using assms drop_front_disk(1,2) [of fs s ss] drop_front_closed [of fs s ss] by (auto simp: left_over_def)

lemma between_drop:
  assumes "between (l\<lparr>l_fs := fs, l_sealed := map info_of (s # ss)\<rparr>) (s # ss)" "\<not> stays l before s"
  shows "map_of (fs_dir fs) (segmentName (fst s)) \<noteq> None"
    and "between (l\<lparr>l_fs := drop_name fs (segmentName (fst s)), l_sealed := map info_of ss\<rparr>) ss"
proof -
  from assms(1) obtain num first rs where b: "last (s # ss) = (num, first, rs)" "l_seg l = None"
    "l_pending l = Some (info_of (last (s # ss)))" "segs_ok (s # ss @ [(num + 1, endof first rs, [])])"
    "left_over fs (s # ss) (num + 1) (endof first rs)"
    "l_path l = []" "l_syncedOff l = 0" "l_fileEnd l = endof first rs" "l_durable l = endof first rs"
    unfolding between_def by auto
  have ne: "ss \<noteq> []" using assms(2) b(3) by (auto simp: stays_def)
  note lo = left_over_drop [OF b(5)]
  show "map_of (fs_dir fs) (segmentName (fst s)) \<noteq> None" by (rule lo(1))
  show "between (l\<lparr>l_fs := drop_name fs (segmentName (fst s)), l_sealed := map info_of ss\<rparr>) ss"
    unfolding between_def using b ne segs_ok_Cons [OF b(4)] lo(2) left_over_whole [OF lo(2)]
    by (intro exI [of _ num] exI [of _ first] exI [of _ rs]) simp
qed

text \<open>\<open>header_durable\<close>: a \<^verbatim>\<open>Sync\<close> has covered the header of the active segment.\<close>

definition header_durable :: "Log \<Rightarrow> bool" where
  "header_durable l = (case l_seg l of None \<Rightarrow> True | Some i \<Rightarrow> headerSize \<le> length (fsynced (l_fs l) i))"

lemma image_of_header:
  assumes "image_of num first rs None b" "28 \<le> length b"
  shows "image_of num first rs (Some 0) b"
proof -
  obtain k t where k: "torn t" "prefix b (encodeHeader num first @ frames (take k rs) @ t)"
    using assms(1) by (auto simp: image_of_def seg_bytes_def)
  then have "prefix (encodeHeader num first) b"
    by (metis assms(2) length_encodeHeader prefix_length_prefix prefixI)
  then show ?thesis using assms(1) by (simp add: image_of_def low_def)
qed

lemma active_header:
  assumes "active l ss act g q i" "header_durable l"
  obtains g' where "active l ss act g' q i" "sure g' = sure g" "g' \<noteq> None"
proof (cases g)
  case None
  have d: "disk (l_fs l) ss (l_segNum l, l_segFirst l, act) None" "seg_file (l_fs l) (l_segNum l) i" "l_seg l = Some i"
    using assms(1) None by (auto simp: active_def)
  have len: "28 \<le> length (fsynced (l_fs l) i)" using assms(2) d(3) by (simp add: header_durable_def wal_sizes)
  note im = disk_image [OF d(1,2)]
  obtain t where t: "torn t" "fdata (l_fs l) i = seg_bytes (l_segNum l) (l_segFirst l) act @ t" using assms(1) by (auto simp: active_def)
  have "tail_ok (l_fs l) (l_segNum l, l_segFirst l, act) (Some 0)"
    using d(2) t image_of_header [OF im(2) len] by (auto simp: tail_ok_def g_ok_def data_of_def)
  then have "disk (l_fs l) ss (l_segNum l, l_segFirst l, act) (Some 0)" using d(1) by (simp add: disk_def)
  then have "active l ss act (Some 0) q i" using assms(1) by (simp add: active_def sure_def)
  then show ?thesis using that [of "Some 0"] None by (simp add: sure_def)
qed (use assms that in auto)


lemma start_drop:
  assumes "segs_ok ss" "n < length ss"
  shows "unat (fst (start (drop n ss))) = unat (fst (start ss)) + n \<and> snd (start (drop n ss)) = endof (snd (start ss)) (recs (take n ss))"
  using assms
proof (induction n arbitrary: ss)
  case (Suc n)
  then obtain a f rs a' f' rs' ss' where ss: "ss = (a, f, rs) # (a', f', rs') # ss'"
    by (cases ss rule: segs_ok.cases) auto
  have a: "unat (a + 1) = unat a + 1" using Suc.prems(1) ss seg_num_Suc [of a] segs_ok_nums(3) [OF Suc.prems(1)] by auto
  have "segs_ok ((a', f', rs') # ss')" "n < length ((a', f', rs') # ss')" using Suc.prems ss by auto
  from Suc.IH [OF this] show ?case using Suc.prems(1) a ss by (simp add: start_def add.assoc)
qed (simp add: start_def)

lemma segs_take_below:
  assumes "segs_ok ss" "unat (snd (start ss)) + length (frames (recs ss)) < 2 ^ 64" "\<forall>s\<in>set (take n ss). seg_end s \<le> before"
    "x \<in> set (recs (take n ss))"
  shows "r_LSN x < before"
proof -
  from assms(4) obtain s where s: "s \<in> set (take n ss)" "x \<in> set (snd (snd s))" by (auto split: prod.splits)
  then obtain us vs where ss: "take n ss = us @ s # vs" by (meson split_list)
  then obtain ws where eq: "ss = (us @ [s]) @ ws" using append_take_drop_id [of n ss] by (metis append.assoc append_Cons append_Nil)
  have ok: "segs_ok (us @ [s])" using segs_ok_prefix assms(1) unfolding eq by blast
  have st: "start (us @ [s]) = start ss" unfolding eq by (cases us) (simp_all add: start_def)
  have ch: "chain (snd (start ss)) (recs (us @ [s]))" "seg_end s = endof (snd (start ss)) (recs (us @ [s]))"
    using segs_ok_chain [OF ok] st by auto
  have "x \<in> set (recs (us @ [s]))" using s(2) by (cases s) simp
  moreover have "unat (snd (start ss)) + length (frames (recs (us @ [s]))) < 2 ^ 64"
    using assms(2) by (simp add: eq)
  ultimately have "r_LSN x < seg_end s" using chain_below(1) [OF ch(1)] ch(2) by simp
  then show ?thesis using assms(3) s(1) by force
qed

lemma stays_sorted:
  assumes "segs_ok ss" "unat (snd (start ss)) + length (frames (recs ss)) < 2 ^ 64"
    "\<And>p. l_pending l = Some p \<Longrightarrow> ss \<noteq> [] \<and> p = info_of (last ss)"
  shows "sorted_wrt (\<lambda>s t. stays l before s \<longrightarrow> stays l before t) ss"
proof -
  have "stays l before t" if eq: "ss = us @ s # vs" and t: "t \<in> set vs" and st: "stays l before s" for us vs s t
  proof -
    have "fst s \<notin> fst ` set vs" using segs_ok_nums(2) [OF assms(1)] eq by auto
    moreover have "last ss \<in> set vs" using eq t by auto
    ultimately have "fst s \<noteq> fst (last ss)" by auto
    then have "before < seg_end s" using st assms(3) by (auto simp: stays_def split: option.splits)
    then have "before < seg_end t" using segs_ok_sorted [OF assms(1,2) eq t] by simp
    then show ?thesis by (simp add: stays_def)
  qed
  note * = this
  show ?thesis unfolding sorted_wrt_iff_nth_less
  proof (intro allI impI)
    fix i j assume ij: "i < j" "j < length ss" and st: "stays l before (ss ! i)"
    have "ss ! j \<in> set (drop (Suc i) ss)" using ij nth_mem [of "j - Suc i" "drop (Suc i) ss"] by simp
    then show "stays l before (ss ! j)" using * [OF id_take_nth_drop _ st] ij by simp
  qed
qed

definition truncated :: "uint64 \<Rightarrow> LSN \<Rightarrow> LSN \<Rightarrow> Record list \<Rightarrow> nat \<Rightarrow> nat \<Rightarrow> Record list \<Rightarrow> Log \<Rightarrow> bool" where
  "truncated n0 base before all d c bs l' \<longleftrightarrow>
     (\<exists>t n0'. t \<le> d \<and> t \<le> length all \<and> unat n0' \<le> unat n0 + t \<and> live l' n0' (endof base (take t all)) (drop t all) (d - t) (c - t) bs \<and> (\<forall>x\<in>set (take t all). r_LSN x < before))"

lemma recs_take_count: "\<forall>s\<in>set ss. snd (snd s) \<noteq> [] \<Longrightarrow> n \<le> length ss \<Longrightarrow> n \<le> length (recs (take n ss))"
proof (induction n arbitrary: ss)
  case (Suc n)
  then obtain s ss' where ss: "ss = s # ss'" by (cases ss) auto
  with Suc.IH [of ss'] Suc.prems have "n \<le> length (recs (take n ss'))" by simp
  moreover have "1 \<le> length (snd (snd s))" using Suc.prems(1) ss by (cases "snd (snd s)") auto
  ultimately show ?case using ss by (cases s) simp
qed simp

lemma recs_split: "recs ss = recs (take n ss) @ recs (drop n ss)"
  by (metis append_take_drop_id concat_append map_append)

lemma truncatedI:
  assumes "live l' n0' (endof base a) b d' c' bs" "\<forall>x\<in>set a. r_LSN x < before" "unat n0' \<le> unat n0 + length a"
  shows "truncated n0 base before (a @ b) (length a + d') (length a + c') bs l'"
  unfolding truncated_def by (intro exI [of _ "length a"] exI [of _ n0']) (use assms in simp)

lemma truncated_active:
  assumes a: "active l' (drop n ss) act g q i" and nf: "\<not> l_noFsync l'" "l_buf l' = frames bs" "chain (l_fileEnd l') bs" "l_next l' = endof (l_fileEnd l') bs"
    and ok: "segs_ok (ss @ [(l_segNum l', l_segFirst l', act)])" "start (ss @ [(l_segNum l', l_segFirst l', act)]) = (n0, base)"
    and wh: "\<forall>s\<in>set ss. snd (snd s) \<noteq> []" and n: "n \<le> length ss"
    and sm: "unat n0 + length (recs ss @ act) + length bs + 2 \<le> 10 ^ 12" "unat base + length (frames (recs ss @ act)) < 2 ^ 64"
    and below: "\<forall>s\<in>set (take n ss). seg_end s \<le> before"
  shows "truncated n0 base before (recs ss @ act) (length (recs ss) + sure g) (length (recs ss) + q) bs l'"
proof -
  let ?sg = "(l_segNum l', l_segFirst l', act)"
  let ?t = "length (recs (take n ss))"
  note rs = recs_split [of ss n]
  note len = recs_take_count [OF wh n]
  have st: "unat (fst (start (drop n ss @ [?sg]))) = unat n0 + n" "snd (start (drop n ss @ [?sg])) = endof base (recs (take n ss))"
    using start_drop [OF ok(1), of n] ok(2) n by simp_all
  have "live l' (fst (start (drop n ss @ [?sg]))) (endof base (recs (take n ss))) (recs (drop n ss) @ act)
      (length (recs (drop n ss)) + sure g) (length (recs (drop n ss)) + q) bs"
    by (rule live_activeI [OF a nf]) (use sm(1) st len rs in \<open>auto simp: prod_eq_iff simp del: start_snoc\<close>)
  moreover have "\<forall>x\<in>set (recs (take n ss)). r_LSN x < before"
    using segs_take_below [OF ok(1), of n before] below n sm(2) ok(2) by simp
  moreover have "unat (fst (start (drop n ss @ [?sg]))) \<le> unat n0 + ?t" using st(1) len by simp
  ultimately show ?thesis
    unfolding rs using truncatedI by (metis (no_types, lifting) append.assoc add.assoc length_append)
qed


lemma truncated_between:
  assumes b: "between l' (drop n ss)" and nf: "\<not> l_noFsync l'" "l_buf l' = frames bs" "chain (l_fileEnd l') bs" "l_next l' = endof (l_fileEnd l') bs"
    and ok: "segs_ok ss" "start ss = (n0, base)" and wh: "\<forall>s\<in>set ss. snd (snd s) \<noteq> []" and n: "n \<le> length ss"
    and sm: "unat n0 + length (recs ss) + length bs + 2 \<le> 10 ^ 12" "unat base + length (frames (recs ss)) < 2 ^ 64"
    and below: "\<forall>s\<in>set (take n ss). seg_end s \<le> before"
  shows "truncated n0 base before (recs ss) (length (recs ss)) (length (recs ss)) bs l'"
proof -
  let ?t = "length (recs (take n ss))"
  note len = recs_take_count [OF wh n] and rs = recs_split [of ss n]
  have n': "n < length ss" using b by (auto simp: between_def)
  have st: "unat (fst (start (drop n ss))) = unat n0 + n" "snd (start (drop n ss)) = endof base (recs (take n ss))"
    using start_drop [OF ok(1) n'] ok(2) by simp_all
  have "live l' (fst (start (drop n ss))) (endof base (recs (take n ss))) (recs (drop n ss)) (length (recs (drop n ss))) (length (recs (drop n ss))) bs"
    by (rule live_betweenI [OF b nf]) (use sm(1) st len rs in \<open>auto simp: prod_eq_iff\<close>)
  moreover have "\<forall>x\<in>set (recs (take n ss)). r_LSN x < before"
    using segs_take_below [OF ok(1), of n before] below sm(2) ok(2) by simp
  moreover have "unat (fst (start (drop n ss))) \<le> unat n0 + ?t" using st(1) len by simp
  ultimately show ?thesis
    unfolding rs using truncatedI by (metis (no_types, lifting) length_append)
qed

lemma stays_end: "\<forall>s\<in>set xs. \<not> stays l before s \<Longrightarrow> \<forall>s\<in>set xs. seg_end s \<le> before"
  by (auto simp: stays_def)

lemma stays_info:
  "stays l before s \<longleftrightarrow> (case l_pending l of None \<Rightarrow> False | Some p \<Rightarrow> si_Number (info_of s) = si_Number p) \<or> before < si_End (info_of s)"
  by (simp add: stays_def cong: option.case_cong)

lemma Truncate_cases:
  assumes l: "live l n0 base all d c bs" and hd: "header_durable l" and sm: "unat base + length (frames all) < 2 ^ 64"
    and cl: "\<not> l_closed l" and tr: "wal_Truncate l before = (l', r)"
  shows "truncated n0 base before all d c bs l' \<and> l' = l\<lparr>l_fs := l_fs l', l_sealed := l_sealed l'\<rparr> \<and>
    fs_faults (l_fs l') = fs_faults (l_fs l) \<and> (fs_faults (l_fs l) = no_faults \<longrightarrow> r = Inr () \<and>
      (\<forall>s\<in>set (l_sealed l'). (case l_pending l of None \<Rightarrow> False | Some p \<Rightarrow> si_Number s = si_Number p) \<or> before < si_End s))"
proof -
  have b: "\<not> l_noFsync l" "l_buf l = frames bs" "chain (l_fileEnd l) bs" "l_next l = endof (l_fileEnd l) bs"
    "unat n0 + length all + length bs + 2 \<le> 10 ^ 12"
    using l by (auto simp: live_def)
  have eq: "Truncate_loop l before (l_sealed l) [] = (l', r)" using tr cl by (simp add: wal_Truncate_def)
  from l consider (act) ss act g q i where "active l ss act g q i" "all = recs ss @ act" "d = length (recs ss) + sure g"
      "c = length (recs ss) + q" "start (ss @ [(l_segNum l, l_segFirst l, act)]) = (n0, base)"
    | (btw) ss where "between l ss" "all = recs ss" "d = length all" "c = length all" "start ss = (n0, base)"
    unfolding live_def by blast
  then show ?thesis
  proof cases
    case act
    obtain g' where g: "active l ss act g' q i" "sure g' = sure g" "g' \<noteq> None" by (rule active_header [OF act(1) hd])
    let ?sg = "(l_segNum l, l_segFirst l, act)"
    let ?P = "\<lambda>fs ss. active (l\<lparr>l_fs := fs, l_sealed := map info_of ss\<rparr>) ss act g' q i"
    have ai: "l_sealed l = map info_of ss" "disk (l_fs l) ss ?sg g'" "l_pending l = None" using g(1) by (auto simp: active_def)
    have ok: "segs_ok (ss @ [?sg])" "\<forall>s\<in>set ss. snd (snd s) \<noteq> []" using ai(2) by (auto simp: disk_def whole_def)
    have "sorted_wrt (\<lambda>s t. stays l before s \<longrightarrow> stays l before t) (ss @ [?sg])"
      by (rule stays_sorted [OF ok(1)]) (use sm act ai in auto)
    then have so: "sorted_wrt (\<lambda>s t. stays l before s \<longrightarrow> stays l before t) ss" by (simp add: sorted_wrt_append)
    have "l\<lparr>l_sealed := map info_of ss\<rparr> = l" using ai(1) by simp
    then have P: "?P (l_fs l) ss" using g(1) by simp
    have "\<exists>n fs. dropped ?P l before ss l' r n fs"
    proof (rule Truncate_loop_cases [of ?P, OF P _ _ so])
      show "?P fs' ss" if "?P fs ss" "quiet fs fs'" for fs fs' ss using active_quiet [OF that(1), of fs'] that(2) by (simp add: active_def)
    qed (use active_drop g(3) eq ai(1) in auto)
    then obtain n fs where n: "dropped ?P l before ss l' r n fs" by blast
    then have l': "l' = l\<lparr>l_fs := fs, l_sealed := map info_of (drop n ss)\<rparr>" by (simp add: dropped_def)
    have "truncated n0 base before (recs ss @ act) (length (recs ss) + sure g') (length (recs ss) + q) bs l'"
      by (rule truncated_active) (use n l' b ok act sm stays_end [of "take n ss" l before] in \<open>auto simp: dropped_def\<close>)
    then show ?thesis using n l' act g(2) by (auto simp: dropped_def stays_info)
  next
    case btw
    let ?P = "\<lambda>fs ss. between (l\<lparr>l_fs := fs, l_sealed := map info_of ss\<rparr>) ss"
    have bi: "l_sealed l = map info_of ss" "\<forall>s\<in>set ss. snd (snd s) \<noteq> []" "segs_ok ss" "ss \<noteq> []" "l_pending l = Some (info_of (last ss))"
      using btw(1) segs_ok_prefix by (auto simp: between_def whole_def)
    have so: "sorted_wrt (\<lambda>s t. stays l before s \<longrightarrow> stays l before t) ss"
      by (rule stays_sorted [OF bi(3)]) (use sm btw bi in auto)
    have "l\<lparr>l_sealed := map info_of ss\<rparr> = l" using bi(1) by simp
    then have P: "?P (l_fs l) ss" using btw(1) by simp
    have "\<exists>n fs. dropped ?P l before ss l' r n fs"
    proof (rule Truncate_loop_cases [of ?P, OF P _ _ so])
      show "?P fs' ss" if "?P fs ss" "quiet fs fs'" for fs fs' ss
        using that by (auto simp: between_def left_over_quiet quiet_whole)
    qed (use between_drop eq bi(1) in auto)
    then obtain n fs where n: "dropped ?P l before ss l' r n fs" by blast
    then have l': "l' = l\<lparr>l_fs := fs, l_sealed := map info_of (drop n ss)\<rparr>" by (simp add: dropped_def)
    have "truncated n0 base before (recs ss) (length (recs ss)) (length (recs ss)) bs l'"
      by (rule truncated_between) (use n l' b bi btw sm stays_end [of "take n ss" l before] in \<open>auto simp: dropped_def\<close>)
    then show ?thesis using n l' btw by (auto simp: dropped_def stays_info)
  qed
qed

end
