(* ===== verification/WalReading.thy ===== *)
theory WalReading
  imports WalLive
begin

text \<open>
  A reader returns the records of its spans in order, and a seek skips the records below its
  argument. What a reader returns is fixed when it is opened: it depends only on the bytes of its
  spans, which neither a flush nor a truncation of the log changes.
\<close>

section \<open>What a reader has still to return\<close>

fun pending :: "fsys \<Rightarrow> nat \<Rightarrow> rseg list \<Rightarrow> Record list \<Rightarrow> bool" where
  "pending fs off [] out \<longleftrightarrow> out = []"
| "pending fs off (s # segs) out \<longleftrightarrow> (\<exists>pre rs post out'. fdata fs (rs_f s) = pre @ frames rs @ post \<and> length pre = off \<and>
     rs_limit s = off + length (frames rs) \<and> chain (rs_pos s) rs \<and> rs_end s = endof (rs_pos s) rs \<and>
     out = rs @ out' \<and> pending fs headerSize segs out')"

definition spans :: "fsys \<Rightarrow> rseg list \<Rightarrow> Record list \<Rightarrow> bool" where
  "spans fs segs out \<longleftrightarrow> pending fs headerSize (map (\<lambda>s. s\<lparr>rs_pos := rs_first s\<rparr>) segs) out"

definition reading :: "fsys \<Rightarrow> Reader \<Rightarrow> Record list \<Rightarrow> Record list \<Rightarrow> bool" where
  "reading fs r all out \<longleftrightarrow> \<not> rd_closed r \<and> rd_err r = None \<and> spans fs (rd_segs r) all \<and>
     (case rd_held r of
        None \<Rightarrow> pending fs (rd_off r) (drop (rd_si r) (rd_segs r)) out
      | Some x \<Rightarrow> \<exists>out'. out = x # out' \<and> pending fs (rd_off r) (drop (rd_si r) (rd_segs r)) out')"

lemma pending_quiet: "quiet fs fs' \<Longrightarrow> pending fs' off segs out = pending fs off segs out"
  by (induction segs arbitrary: off out) (simp_all add: quiet_data)

lemma spans_quiet: "quiet fs fs' \<Longrightarrow> spans fs' segs out = spans fs segs out"
  by (simp add: spans_def pending_quiet)

lemma spans_pos:
  "i < length segs \<Longrightarrow> spans fs (segs[i := (segs ! i)\<lparr>rs_pos := p\<rparr>]) out = spans fs segs out"
proof -
  assume "i < length segs"
  then have "map (\<lambda>s. s\<lparr>rs_pos := rs_first s\<rparr>) (segs[i := (segs ! i)\<lparr>rs_pos := p\<rparr>]) = map (\<lambda>s. s\<lparr>rs_pos := rs_first s\<rparr>) segs"
    by (intro nth_equalityI) (auto simp: nth_list_update)
  then show ?thesis by (simp add: spans_def)
qed

lemma Next_loop_pending:
  assumes "pending fs (rd_off r) (drop (rd_si r) (rd_segs r)) out" "spans fs (rd_segs r) all" "Next_loop fs r = ((fs', r'), res)"
  shows "quiet fs fs' \<and> rd_closed r' = rd_closed r \<and> rd_held r' = rd_held r \<and> spans fs' (rd_segs r') all \<and>
    (case out of [] \<Rightarrow> res = Inl EOF \<and> rd_err r' = rd_err r \<and> pending fs' (rd_off r') (drop (rd_si r') (rd_segs r')) []
     | x # out' \<Rightarrow> (res = Inr x \<and> rd_err r' = rd_err r \<and> pending fs' (rd_off r') (drop (rd_si r') (rd_segs r')) out') \<or>
        (fs_faults fs \<noteq> no_faults \<and> (\<exists>e. res = Inl e)))"
  using assms
proof (induction fs r rule: Next_loop.induct)
  case (1 fs r)
  show ?case
  proof (cases "rd_si r < length (rd_segs r)")
    case False
    then have "fs' = fs" "r' = r" "res = Inl EOF" using "1.prems"(3) by (auto simp: Next_loop.simps [of fs r])
    moreover have "out = []" using False "1.prems"(1) by simp
    ultimately show ?thesis using "1.prems"(1,2) by simp
  next
    case si: True
    let ?s = "rd_segs r ! rd_si r"
    have dr: "drop (rd_si r) (rd_segs r) = ?s # drop (Suc (rd_si r)) (rd_segs r)" using si by (simp add: Cons_nth_drop_Suc)
    from "1.prems"(1) [unfolded dr] obtain pre rs post out' where p: "fdata fs (rs_f ?s) = pre @ frames rs @ post" "length pre = rd_off r"
      "rs_limit ?s = rd_off r + length (frames rs)" "chain (rs_pos ?s) rs" "rs_end ?s = endof (rs_pos ?s) rs"
      "out = rs @ out'" "pending fs headerSize (drop (Suc (rd_si r)) (rd_segs r)) out'" by auto
    show ?thesis
    proof (cases rs)
      case Nil
      let ?r = "r\<lparr>rd_si := Suc (rd_si r), rd_off := headerSize\<rparr>"
      have off: "rs_limit ?s \<le> rd_off r" "\<not> rs_pos ?s \<noteq> rs_end ?s" using p Nil by auto
      have eq: "Next_loop fs ?r = ((fs', r'), res)" using "1.prems"(3) si off by (subst (asm) Next_loop.simps) (simp add: Let_def)
      have "pending fs (rd_off ?r) (drop (rd_si ?r) (rd_segs ?r)) out" using p Nil by simp
      from "1.IH" [OF si refl off this _ eq] "1.prems"(2) show ?thesis by (simp cong: list.case_cong)
    next
      case (Cons x rs')
      have x: "rec_ok x" "r_LSN x = rs_pos ?s" "chain (endof (rs_pos ?s) [x]) rs'" using p(4) Cons by auto
      have off: "\<not> rs_limit ?s \<le> rd_off r" using p(3) Cons by simp
      obtain fs1 r1 where rr: "readRecord fs (rs_f ?s) (rd_off r) (rs_limit ?s) (rs_pos ?s) = (fs1, r1)" by fastforce
      have "looks fs (x, rd_off r + length (frame x)) (fs1, r1)"
        using readRecord_looks [OF _ p(2) x(1,2), of fs "rs_f ?s" "frames rs' @ post" "rs_limit ?s"] p(1,3) Cons rr by simp
      then consider (ok) "r1 = Inr (x, rd_off r + length (frame x))" "quiet fs fs1"
        | (bad) e where "r1 = Inl e" "fs_faults fs \<noteq> no_faults" "quiet fs fs1" by (auto simp: looks_def)
      then show ?thesis
      proof cases
        case ok
        let ?s' = "?s\<lparr>rs_pos := r_LSN x + word_of_nat (Record_Size x)\<rparr>"
        have r': "fs' = fs1" "res = Inr x" "r' = r\<lparr>rd_off := rd_off r + length (frame x), rd_segs := (rd_segs r)[rd_si r := ?s']\<rparr>"
          using "1.prems"(3) si off rr ok(1) by (auto simp: Next_loop.simps [of fs r] Let_def)
        have "drop (rd_si r) ((rd_segs r)[rd_si r := ?s']) = ?s' # drop (Suc (rd_si r)) (rd_segs r)"
          using si by (simp add: drop_update_swap dr)
        moreover have "pending fs (rd_off r + length (frame x)) (?s' # drop (Suc (rd_si r)) (rd_segs r)) (rs' @ out')"
          unfolding pending.simps
          by (rule exI [of _ "pre @ frame x"], rule exI [of _ rs'], rule exI [of _ post], rule exI [of _ out'])
             (use p x Cons in \<open>simp add: Record_Size_frame add.assoc\<close>)
        ultimately show ?thesis
          using r' ok(2) p(6) Cons "1.prems"(2) spans_pos [OF si] by (simp add: pending_quiet [OF ok(2)] spans_quiet [OF ok(2)] del: pending.simps)
      next
        case (bad e)
        then have "fs' = fs1" "res = Inl e" "r' = r\<lparr>rd_err := Some e\<rparr>"
          using "1.prems"(3) si off rr by (auto simp: Next_loop.simps [of fs r] Let_def)
        then show ?thesis using bad p(6) Cons "1.prems"(2) by (simp add: spans_quiet [OF bad(3)])
      qed
    qed
  qed
qed


lemma Reader_Next_reading:
  assumes r: "reading fs r all out" and nx: "Reader_Next fs r = ((fs', r'), res)"
  shows "quiet fs fs' \<and>
    (case out of [] \<Rightarrow> res = Inl EOF \<and> reading fs' r' all []
     | x # out' \<Rightarrow> (res = Inr x \<and> rd_held r' = None \<and> reading fs' r' all out') \<or> (fs_faults fs \<noteq> no_faults \<and> (\<exists>e. res = Inl e)))"
proof (cases "rd_held r")
  case None
  then have p: "pending fs (rd_off r) (drop (rd_si r) (rd_segs r)) out" "spans fs (rd_segs r) all" "\<not> rd_closed r" "rd_err r = None"
    using r by (auto simp: reading_def)
  then have "Next_loop fs r = ((fs', r'), res)" using nx None by (simp add: Reader_Next_def)
  from Next_loop_pending [OF p(1,2) this] p None show ?thesis by (cases out) (auto simp: reading_def)
next
  case (Some x)
  then show ?thesis using r nx by (auto simp: reading_def Reader_Next_def)
qed

lemma readAll_reading:
  "reading fs r all out \<Longrightarrow> readAll fs r = (xs, e) \<Longrightarrow> prefix xs out \<and> (fs_faults fs = no_faults \<longrightarrow> xs = out \<and> e = EOF)"
proof (induction fs r arbitrary: xs e out rule: readAll.induct)
  case (1 fs r)
  obtain fs' r' res where nx: "Reader_Next fs r = ((fs', r'), res)" by (metis prod.exhaust)
  note n = Reader_Next_reading [OF "1.prems"(1) nx]
  show ?case
  proof (cases res)
    case (Inl err)
    then have "xs = []" "e = err" using "1.prems"(2) nx by (auto simp: readAll.simps [of fs r])
    then show ?thesis using n Inl by (auto split: list.splits)
  next
    case (Inr x)
    then obtain out' where o: "out = x # out'" "reading fs' r' all out'" using n by (auto split: list.splits)
    obtain ys e' where ra: "readAll fs' r' = (ys, e')" by fastforce
    then have "xs = x # ys" "e = e'" using "1.prems"(2) nx Inr by (auto simp: readAll.simps [of fs r])
    moreover have "prefix ys out' \<and> (fs_faults fs' = no_faults \<longrightarrow> ys = out' \<and> e' = EOF)"
      by (rule "1.IH" [OF nx [symmetric] _ _ o(2) ra]) (use Inr in auto)
    ultimately show ?thesis using o(1) n by (auto simp: quiet_def)
  qed
qed

lemma Seek_loop_reading:
  "reading fs r all out \<Longrightarrow> fs_faults fs = no_faults \<Longrightarrow> Seek_loop fs r lsn = ((fs', r'), res) \<Longrightarrow>
     quiet fs fs' \<and> res = Inr () \<and> reading fs' r' all (dropWhile (\<lambda>x. r_LSN x < lsn) out)"
proof (induction fs r lsn arbitrary: out rule: Seek_loop.induct)
  case (1 fs r lsn)
  obtain fs1 r1 res1 where nx: "Reader_Next fs r = ((fs1, r1), res1)" by (metis prod.exhaust)
  note n = Reader_Next_reading [OF "1.prems"(1) nx]
  note eq = "1.prems"(3) [unfolded Seek_loop.simps [of fs r] nx]
  show ?case
  proof (cases out)
    case Nil
    then show ?thesis using n eq by (auto simp: EOF_def reading_def split: option.splits)
  next
    case (Cons x out')
    then have x: "res1 = Inr x" "rd_held r1 = None" "reading fs1 r1 all out'" "quiet fs fs1" using n "1.prems"(2) by auto
    show ?thesis
    proof (cases "lsn \<le> r_LSN x")
      case True
      then show ?thesis using eq x Cons by (auto simp: reading_def)
    next
      case False
      have ff: "fs_faults fs1 = no_faults" using x(4) "1.prems"(2) by (simp add: quiet_def)
      have "quiet fs1 fs' \<and> res = Inr () \<and> reading fs' r' all (dropWhile (\<lambda>x. r_LSN x < lsn) out')"
        by (rule "1.IH" [OF nx [symmetric] _ _ _ x(3) ff]) (use eq x False in auto)
      then show ?thesis using Cons False x(4) by (auto intro: quiet_trans)
    qed
  qed
qed

lemma Reader_reset_reading:
  assumes "spans fs (rd_segs r) all" "\<not> rd_closed r"
  shows "reading fs (Reader_reset r) all all"
proof -
  let ?f = "\<lambda>s. s\<lparr>rs_pos := rs_first s\<rparr>"
  have "map ?f (map ?f (rd_segs r)) = map ?f (rd_segs r)" by simp
  then show ?thesis using assms by (simp add: reading_def Reader_reset_def spans_def del: map_map)
qed

lemma Reader_Seek_reading:
  assumes "reading fs r all out" "fs_faults fs = no_faults" "Reader_Seek fs r lsn = ((fs', r'), res)"
  shows "quiet fs fs' \<and> res = Inr () \<and> reading fs' r' all (dropWhile (\<lambda>x. r_LSN x < max 1 lsn) all)"
proof -
  have rd: "reading fs (Reader_reset r) all all" by (rule Reader_reset_reading) (use assms(1) in \<open>auto simp: reading_def\<close>)
  have "Seek_loop fs (Reader_reset r) (if lsn < 1 then 1 else lsn) = ((fs', r'), res)"
    using assms(1,3) by (auto simp: Reader_Seek_def reading_def)
  moreover have "(if lsn < 1 then 1 else lsn) = max 1 lsn" by (simp add: max_def not_le)
  ultimately have "Seek_loop fs (Reader_reset r) (max 1 lsn) = ((fs', r'), res)" by simp
  then show ?thesis by (rule Seek_loop_reading [OF rd assms(2)])
qed

section \<open>Opening a reader\<close>

lemma openSpan_looks:
  assumes f: "map_of (fs_dir fs) path = Some (DFile i)" and sz: "headerSize \<le> lim" "lim \<le> length (fdata fs i)" "limit = 0 \<and> lim = length (fdata fs i) \<or> limit = lim"
  shows "looks fs \<lparr>rs_f = i, rs_first = first, rs_end = e, rs_pos = first, rs_limit = lim\<rparr> (openSpan fs path first e limit)"
  unfolding openSpan_def
proof (rule looks_sbind [OF looks_wrapped [OF looks_Open [OF f]]])
  fix fs' assume q: "quiet fs fs'"
  obtain fs1 r1 where s: "wrapped ''stat wal segment'' (os_Size fs' i) = (fs1, r1)" by fastforce
  have lk: "looks fs' (length (fdata fs i)) (fs1, r1)" using looks_wrapped [OF looks_os(2) [of fs' i]] s quiet_data(1) [OF q, of i] by metis
  have lim: "(if limit = 0 \<or> length (fdata fs i) < limit then length (fdata fs i) else limit) = lim" using sz by (auto simp: wal_sizes)
  show "looks fs' \<lparr>rs_f = i, rs_first = first, rs_end = e, rs_pos = first, rs_limit = lim\<rparr>
    (case wrapped ''stat wal segment'' (os_Size fs' i) of
       (fs, Inl err) \<Rightarrow> (fst (os_Close fs), Inl err)
     | (fs, Inr sz) \<Rightarrow>
         let limit = (if limit = 0 \<or> limit > sz then sz else limit) in
         if limit < headerSize
         then (fst (os_Close fs), Inl (corruption (''wal segment '' @ name_str path @ '' has a short header'')))
         else (fs, Inr \<lparr>rs_f = i, rs_first = first, rs_end = e, rs_pos = first, rs_limit = limit\<rparr>))"
    unfolding s using lk lim sz(1) quiet_trans [OF _ quiet_close [of fs1]] by (auto simp: looks_def Let_def)
qed


text \<open>\<open>span_of\<close>: a path and its range name a file that holds the records \<open>rs\<close> after its header.\<close>

definition span_of :: "fsys \<Rightarrow> SegmentInfo \<times> nat \<Rightarrow> nat \<Rightarrow> Record list \<Rightarrow> bool" where
  "span_of fs p i rs \<longleftrightarrow> (case p of (info, limit) \<Rightarrow>
     map_of (fs_dir fs) (si_Path info) = Some (DFile i) \<and> chain (si_First info) rs \<and> si_End info = endof (si_First info) rs \<and>
     (\<exists>pre post. length pre = headerSize \<and> fdata fs i = pre @ frames rs @ post \<and>
        (limit = headerSize + length (frames rs) \<or> limit = 0 \<and> post = [])))"

definition rseg_of :: "SegmentInfo \<times> nat \<Rightarrow> nat \<Rightarrow> Record list \<Rightarrow> rseg" where
  "rseg_of p i rs = (case p of (info, limit) \<Rightarrow>
     \<lparr>rs_f = i, rs_first = si_First info, rs_end = si_End info, rs_pos = si_First info, rs_limit = headerSize + length (frames rs)\<rparr>)"

lemma span_of_quiet: "quiet fs fs' \<Longrightarrow> span_of fs' p i rs = span_of fs p i rs"
  by (simp add: span_of_def quiet_data) (simp add: quiet_def)

lemma openSpan_span:
  assumes "span_of fs (info, limit) i rs"
  shows "looks fs (rseg_of (info, limit) i rs) (openSpan fs (si_Path info) (si_First info) (si_End info) limit)"
  using assms openSpan_looks [of fs "si_Path info" i "headerSize + length (frames rs)" limit "si_First info" "si_End info"]
  by (auto simp: span_of_def rseg_of_def wal_sizes)

lemma openSpans_looks:
  assumes "list_all2 (\<lambda>p (i, rs). span_of fs p i rs) infos xs"
  shows "looks fs (acc @ map2 (\<lambda>p (i, rs). rseg_of p i rs) infos xs) (openSpans fs infos acc)"
  using assms
proof (induction infos arbitrary: fs acc xs)
  case Nil
  then show ?case by (simp add: looks_def)
next
  case (Cons p infos fs acc ys)
  from Cons.prems obtain x xs where ys: "ys = x # xs" and x: "(\<lambda>(i, rs). span_of fs p i rs) x"
    and xs: "list_all2 (\<lambda>p (i, rs). span_of fs p i rs) infos xs" by (auto simp: list_all2_Cons1)
  obtain info limit i rs where px: "p = (info, limit)" "x = (i, rs)" by (metis prod.exhaust)
  obtain fs1 r1 where op: "openSpan fs (si_Path info) (si_First info) (si_End info) limit = (fs1, r1)" by fastforce
  have sp: "span_of fs (info, limit) i rs" using x px by simp
  have lk: "looks fs (rseg_of p i rs) (fs1, r1)" using openSpan_span [OF sp] px(1) op by simp
  have cq: "quiet fs (closeSpans fs1 acc)" if "quiet fs fs1"
    using that by (induction acc arbitrary: fs1) (simp, metis closeSpans.simps(2) quiet_trans quiet_close)
  show ?case
  proof (cases r1)
    case (Inl e)
    then show ?thesis using lk op px ys cq by (auto simp: looks_def)
  next
    case (Inr seg)
    then have q: "quiet fs fs1" "seg = rseg_of p i rs" using lk by (auto simp: looks_def)
    have "list_all2 (\<lambda>p (i, rs). span_of fs1 p i rs) infos xs" using xs span_of_quiet [OF q(1)] by simp
    from Cons.IH [OF this, of "acc @ [seg]"] show ?thesis using q op px ys Inr looks_quiet [OF q(1)] by simp
  qed
qed

lemma spans_of:
  assumes "list_all2 (\<lambda>p (i, rs). span_of fs p i rs) infos xs"
  shows "spans fs (map2 (\<lambda>p (i, rs). rseg_of p i rs) infos xs) (concat (map snd xs))"
  using assms unfolding spans_def
proof (induction infos xs rule: list_all2_induct)
  case (Cons p infos x xs)
  obtain info limit i rs where px: "p = (info, limit)" "x = (i, rs)" by (metis prod.exhaust)
  obtain pre post where "length pre = headerSize" "fdata fs i = pre @ frames rs @ post" using Cons.hyps(1) px by (auto simp: span_of_def)
  then show ?case using Cons px by (auto simp: rseg_of_def span_of_def)
qed simp

text \<open>A reader of a live log: the records that the log accounts as durable.\<close>

lemma whole_span:
  assumes "whole fs sg" "segs_ok [sg]"
  shows "\<exists>i. span_of fs (info_of sg, 0) i (snd (snd sg))"
proof -
  obtain num first rs where sg: "sg = (num, first, rs)" by (cases sg)
  then obtain i where "seg_file fs num i" "fdata fs i = encodeHeader num first @ frames rs" using assms(1) by (auto simp: whole_def seg_bytes_def)
  then have "span_of fs (info_of sg, 0) i rs"
    using assms(2) sg by (auto simp: span_of_def info_of_def seg_file_def wal_sizes intro!: exI [of _ "encodeHeader num first"])
  then show ?thesis using sg by auto
qed

lemma whole_spans:
  assumes "\<forall>s\<in>set ss. whole fs s" "\<forall>s\<in>set ss. segs_ok [s]"
  shows "\<exists>xs. list_all2 (\<lambda>p (i, rs). span_of fs p i rs) (map (\<lambda>info. (info, 0)) (map info_of ss)) xs \<and> concat (map snd xs) = recs ss"
  using assms
proof (induction ss)
  case (Cons s ss)
  obtain i where "span_of fs (info_of s, 0) i (snd (snd s))" using whole_span [of fs s] Cons.prems by auto
  moreover obtain xs where "list_all2 (\<lambda>p (i, rs). span_of fs p i rs) (map (\<lambda>info. (info, 0)) (map info_of ss)) xs" "concat (map snd xs) = recs ss"
    using Cons by auto
  ultimately show ?case by (intro exI [of _ "(i, snd (snd s)) # xs"]) (simp split: prod.splits)
qed simp


lemma segs_ok_each: "segs_ok ss \<Longrightarrow> \<forall>s\<in>set ss. segs_ok [s]"
  by (induction ss rule: segs_ok.induct) auto

lemma live_spans:
  assumes "live l n0 base all d c bs"
  shows "\<exists>xs. list_all2 (\<lambda>p (i, rs). span_of (l_fs l) p i rs)
      (map (\<lambda>info. (info, 0)) (l_sealed l) @ (case currentSpan l of None \<Rightarrow> [] | Some p \<Rightarrow> [p])) xs \<and> concat (map snd xs) = take c all"
proof -
  from assms consider (act) ss act g q i where "active l ss act g q i" "all = recs ss @ act" "c = length (recs ss) + q"
    | (btw) ss where "between l ss" "all = recs ss" "c = length all"
    unfolding live_def by blast
  then show ?thesis
  proof cases
    case act
    let ?sg = "(l_segNum l, l_segFirst l, act)"
    from act(1) have a: "l_sealed l = map info_of ss" "disk (l_fs l) ss ?sg g" "seg_file (l_fs l) (l_segNum l) i" "q \<le> length act"
      "l_syncedOff l = 28 + length (frames (take q act))" "l_path l = segmentName (l_segNum l)"
      and t: "\<exists>t. fdata (l_fs l) i = seg_bytes (l_segNum l) (l_segFirst l) act @ t"
      by (auto simp: active_def)
    have ok: "segs_ok (ss @ [?sg])" and wh: "\<forall>s\<in>set ss. whole (l_fs l) s" using a(2) by (auto simp: disk_def)
    have eo: "\<forall>s\<in>set ss. segs_ok [s]" "chain (l_segFirst l) act" using segs_ok_each [OF ok] by auto
    obtain xs where xs: "list_all2 (\<lambda>p (i, rs). span_of (l_fs l) p i rs) (map (\<lambda>info. (info, 0)) (map info_of ss)) xs" "concat (map snd xs) = recs ss"
      using whole_spans [OF wh eo(1)] by blast
    have tk: "take c all = recs ss @ take q act" using act a(4) by simp
    show ?thesis
    proof (cases "take q act = []")
      case True
      then have "currentSpan l = None" using a(5) by (simp add: currentSpan_def wal_sizes)
      then show ?thesis using xs a(1) tk True by auto
    next
      case False
      let ?info = "\<lparr>si_Number = l_segNum l, si_Path = l_path l, si_First = l_segFirst l, si_End = l_segFirst l + word_of_nat (l_syncedOff l - headerSize)\<rparr>"
      have "0 < length (frames (take q act))" using False by (cases "take q act") auto
      moreover have "\<not> list_ex (\<lambda>s. si_Number s = l_segNum l) (map info_of ss)"
        using segs_ok_last(2) [OF ok] by (auto simp: list_ex_iff info_of_def image_iff split: prod.splits)
      moreover have "l_path l \<noteq> []" using a(6) by (simp add: segmentName_def wal_suffix_def Let_def)
      ultimately have cs: "currentSpan l = Some (?info, l_syncedOff l)" using a(1,5) by (simp add: currentSpan_def wal_sizes)
      obtain t where "fdata (l_fs l) i = encodeHeader (l_segNum l) (l_segFirst l) @ frames (take q act) @ frames (drop q act) @ t"
        using t by (metis append.assoc append_take_drop_id concat_append map_append seg_bytes_def)
      then have "\<exists>pre post. length pre = headerSize \<and> fdata (l_fs l) i = pre @ frames (take q act) @ post"
        by (intro exI [of _ "encodeHeader (l_segNum l) (l_segFirst l)"] exI [of _ "frames (drop q act) @ t"]) (simp add: wal_sizes)
      then have "span_of (l_fs l) (?info, l_syncedOff l) i (take q act)"
        using a(3,5,6) chain_take [OF eo(2), of q] by (simp add: span_of_def seg_file_def wal_sizes)
      then show ?thesis using cs xs a(1) tk by (intro exI [of _ "xs @ [(i, take q act)]"]) (auto simp: list_all2_appendI)
    qed
  next
    case btw
    then have b: "l_sealed l = map info_of ss" "\<forall>s\<in>set ss. whole (l_fs l) s" "segs_ok ss" "currentSpan l = None"
      by (auto simp: between_def currentSpan_def segs_ok_snoc)
    from whole_spans [OF b(2) segs_ok_each [OF b(3)]] show ?thesis using b btw by auto
  qed
qed

lemma Log_Reader_cases:
  assumes l: "live l n0 base all d c bs" and rd: "Log_Reader l = (l', res)"
  obtains (ok) r where "res = Inr r" "l' = l\<lparr>l_fs := l_fs l'\<rparr>" "quiet (l_fs l) (l_fs l')" "reading (l_fs l') r (take c all) (take c all)"
  | (failed) e where "res = Inl e" "l' = l\<lparr>l_fs := l_fs l'\<rparr>" "quiet (l_fs l) (l_fs l')" "fs_faults (l_fs l) \<noteq> no_faults"
proof -
  let ?infos = "map (\<lambda>info. (info, 0)) (l_sealed l) @ (case currentSpan l of None \<Rightarrow> [] | Some p \<Rightarrow> [p])"
  obtain xs where xs: "list_all2 (\<lambda>p (i, rs). span_of (l_fs l) p i rs) ?infos xs" "concat (map snd xs) = take c all"
    using live_spans [OF l] by blast
  let ?segs = "map2 (\<lambda>p (i, rs). rseg_of p i rs) ?infos xs"
  obtain fs1 r1 where op: "openSpans (l_fs l) ?infos [] = (fs1, r1)" by fastforce
  have "looks (l_fs l) ?segs (fs1, r1)" using openSpans_looks [OF xs(1), of "[]"] op by simp
  then consider (ok1) "r1 = Inr ?segs" "quiet (l_fs l) fs1" | (bad) e where "r1 = Inl e" "quiet (l_fs l) fs1" "fs_faults (l_fs l) \<noteq> no_faults"
    by (auto simp: looks_def)
  then show ?thesis
  proof cases
    case ok1
    let ?r = "\<lparr>rd_segs = ?segs, rd_si = 0, rd_off = 0, rd_held = None, rd_err = None, rd_closed = False\<rparr>"
    have "l' = l\<lparr>l_fs := fs1\<rparr>" "res = Inr (Reader_reset ?r)" using rd op ok1(1) by (auto simp: Log_Reader_def on_fs_def)
    moreover have "reading fs1 (Reader_reset ?r) (take c all) (take c all)"
      by (rule Reader_reset_reading) (use spans_of [OF xs(1)] xs(2) in \<open>simp_all add: spans_quiet [OF ok1(2)]\<close>)
    ultimately show ?thesis using ok ok1(2) by simp
  next
    case (bad e)
    then have "l' = l\<lparr>l_fs := fs1\<rparr>" "res = Inl e" using rd op by (auto simp: Log_Reader_def on_fs_def)
    then show ?thesis using failed bad by simp
  qed
qed

end
