(* ===== verification/WalRun.thy ===== *)
theory WalRun
  imports WalTruncate WalReading
begin

text \<open>
  The log in operation. \<open>wal_run st H D B\<close>: the program and its directory can reach the state \<open>st\<close>
  (an open log, or a directory without one), after appending the records \<open>H\<close>, of which the first \<open>D\<close>
  were acknowledged by a flush that returned no error, and after truncations up to LSN \<open>B\<close>. Records
  that an \<open>Open\<close> did not find leave \<open>H\<close>. Every system call may fail, \<open>Sync\<close> is cut where
  the code releases its mutex, and a crash may come between any two steps. The guards of \<open>Append\<close>
  keep LSNs within 64 bits and segment numbers within twelve digits; the guard of \<open>Truncate\<close> asks for the
  header of the active segment to be durable, as it is unless the segment was left by a process that
  died before its first \<^verbatim>\<open>Sync\<close>.
\<close>

datatype wst = Up Log | Down fsys

fun disk_of :: "wst \<Rightarrow> fsys" where
  "disk_of (Up l) = l_fs l"
| "disk_of (Down fs) = fs"

inductive wal_run :: "wst \<Rightarrow> Record list \<Rightarrow> nat \<Rightarrow> LSN \<Rightarrow> bool" where
  run_new: "fresh fs \<Longrightarrow> wal_run (Down fs) [] 0 0"
| run_crash: "wal_run st H D B \<Longrightarrow> crashed (disk_of st) fs \<Longrightarrow> wal_run (Down fs) H D B"
| run_open: "wal_run (Down fs) H D B \<Longrightarrow> \<not> wo_NoFsync opt \<Longrightarrow> wal_Open fs dir opt = (l, Inr ()) \<Longrightarrow>
    wal_run (Up l) (filter (\<lambda>x. r_LSN x < End l) H) D B"
| run_no_open: "wal_run (Down fs) H D B \<Longrightarrow> \<not> wo_NoFsync opt \<Longrightarrow> wal_Open fs dir opt = (l, Inl e) \<Longrightarrow> wal_run (Down (l_fs l)) H D B"
| run_append: "wal_run (Up l) H D B \<Longrightarrow> wal_Append l ty txn payload = (l', Inr lsn) \<Longrightarrow>
    x = \<lparr>r_LSN = lsn, r_TxnID = txn, r_Type = ty, r_Payload = payload\<rparr> \<Longrightarrow>
    unat lsn + Record_Size x < 2 ^ 64 \<Longrightarrow> length H + 4 \<le> 10 ^ 12 \<Longrightarrow> wal_run (Up l') (H @ [x]) D B"
| run_sync: "wal_run (Up l) H D B \<Longrightarrow> Sync_enter l ch = (l', turn) \<Longrightarrow> wal_run (Up l') H D B"
| run_flush: "wal_run (Up l) H D B \<Longrightarrow> l_flushing l \<Longrightarrow> flushLeader l = (l', r) \<Longrightarrow>
    wal_run (Up l') H (case r of Inr _ \<Rightarrow> length H | Inl _ \<Rightarrow> D) B"
| run_truncate: "wal_run (Up l) H D B \<Longrightarrow> header_durable l \<Longrightarrow> wal_Truncate l before = (l', r) \<Longrightarrow> wal_run (Up l') H D (max B before)"
| run_read: "wal_run (Up l) H D B \<Longrightarrow> Log_Reader l = (l', r) \<Longrightarrow> wal_run (Up l') H D B"
| run_close: "wal_run (Up l) H D B \<Longrightarrow> wal_Close l ch = (l', Some r) \<Longrightarrow>
    wal_run (Down (l_fs l')) H D B"
| run_abandon: "wal_run (Up l) H D B \<Longrightarrow> wal_run (Down (l_fs (Abandon l))) H D B"

section \<open>The invariant\<close>

definition history :: "Record list \<Rightarrow> nat \<Rightarrow> LSN \<Rightarrow> uint64 \<Rightarrow> LSN \<Rightarrow> bool" where
  "history H T B n0 base \<longleftrightarrow> chain 1 H \<and> 1 + length (frames H) < 2 ^ 64 \<and> length H + 3 \<le> 10 ^ 12 \<and> T \<le> length H \<and>
     (\<forall>x\<in>set (take T H). r_LSN x < B) \<and> unat n0 \<le> 1 + T \<and> base = endof 1 (take T H)"

definition calm :: "Log \<Rightarrow> bool" where
  "calm l \<longleftrightarrow> \<not> l_closed l \<and> (l_flushing l \<longrightarrow> l_broken l = None) \<and> (\<not> l_flushing l \<longrightarrow> l_waiters l = []) \<and>
     (\<forall>w\<in>set (l_waiters l). w_end w \<le> l_next l)"

fun run_inv :: "wst \<Rightarrow> Record list \<Rightarrow> nat \<Rightarrow> LSN \<Rightarrow> bool" where
  "run_inv (Up l) H D B \<longleftrightarrow> calm l \<and> (\<exists>T n0 base all d c bs. live l n0 base all d c bs \<and> history H T B n0 base \<and>
     drop T H = all @ bs \<and> D \<le> T + d)"
| "run_inv (Down fs) H D B \<longleftrightarrow> (\<exists>T n0 base all d. stored fs n0 base all d \<and> history H T B n0 base \<and>
     prefix all (drop T H) \<and> D \<le> T + d)"

lemma live_ends:
  assumes "live l n0 base all d c bs"
  shows "l_fileEnd l = endof base all \<and> l_next l = endof base (all @ bs) \<and> l_durable l = endof base (take c all) \<and> chain base all \<and>
    d \<le> c \<and> c \<le> length all"
proof -
  have nx: "l_next l = endof (l_fileEnd l) bs" using assms by (simp add: live_def)
  from assms consider (act) ss act g q i where "active l ss act g q i" "all = recs ss @ act" "c = length (recs ss) + q" "d = length (recs ss) + sure g"
      "start (ss @ [(l_segNum l, l_segFirst l, act)]) = (n0, base)"
    | (btw) ss where "between l ss" "all = recs ss" "d = length all" "c = length all" "start ss = (n0, base)"
    unfolding live_def by blast
  then show ?thesis
  proof cases
    case act
    let ?sg = "(l_segNum l, l_segFirst l, act)"
    have a: "segs_ok (ss @ [?sg])" "l_fileEnd l = endof (l_segFirst l) act" "l_durable l = endof (l_segFirst l) (take q act)" "q \<le> length act" "sure g \<le> q"
      using act(1) by (auto simp: active_def disk_def)
    have ch: "chain base (recs ss @ act)" "endof (l_segFirst l) act = endof base (recs ss @ act)"
      using segs_ok_chain [OF a(1)] act(5) by (auto simp: seg_end_def)
    then have f: "l_segFirst l = endof base (recs ss)" by (simp add: add.assoc)
    show ?thesis
      using a act(2-4) ch nx f by (simp add: add.assoc)
  next
    case btw
    then obtain num first rs where b: "segs_ok ss" "ss \<noteq> []" "last ss = (num, first, rs)" "l_fileEnd l = endof first rs" "l_durable l = endof first rs"
      using segs_ok_prefix by (auto simp: between_def)
    have "chain base (recs ss)" "endof first rs = endof base (recs ss)" using segs_ok_chain [OF b(1,2)] btw(5) b(3) by (auto simp: seg_end_def)
    then show ?thesis
      using b btw(2-4) nx by (simp add: add.assoc)
  qed
qed

lemma live_next:
  assumes "live l n0 base all d c bs"
  shows "l_fileEnd l = endof base all" "l_next l = endof base (all @ bs)" "l_durable l = endof base (take c all)" "chain base all"
    "d \<le> length all" "c \<le> length all" "d \<le> c"
  using live_ends [OF assms] le_trans by blast+

lemma chain_filter:
  assumes "chain base H" "unat base + length (frames H) < 2 ^ 64"
  shows "filter (\<lambda>x. r_LSN x < endof base (take k H)) H = take k H"
proof -
  have eq: "H = take k H @ drop k H" by simp
  have ch: "chain base (take k H)" "chain (endof base (take k H)) (drop k H)"
    using assms(1) chain_append [of base "take k H" "drop k H"] by simp_all
  have len: "unat base + length (frames (take k H)) + length (frames (drop k H)) < 2 ^ 64"
    using assms(2) by (metis append_take_drop_id concat_append length_append map_append add.assoc)
  then have u: "unat (endof base (take k H)) = unat base + length (frames (take k H))" using endof_unat [of base "take k H"] by simp
  have "\<forall>x\<in>set (take k H). r_LSN x < endof base (take k H)" using chain_below(1) [OF ch(1)] len by simp
  moreover have "\<forall>x\<in>set (drop k H). \<not> r_LSN x < endof base (take k H)" using chain_below(2) [OF ch(2)] len u by (auto simp: not_less)
  ultimately show ?thesis by (subst (2) eq) (simp only: filter_append, simp)
qed


section \<open>Every step keeps the invariant\<close>

lemma run_inv_down: "run_inv st H D B \<Longrightarrow> quiet (disk_of st) fs \<Longrightarrow> run_inv (Down fs) H D B"
proof (cases st)
  case (Up l)
  assume inv: "run_inv st H D B" and q: "quiet (disk_of st) fs"
  then obtain T n0 base all d c bs where l: "live l n0 base all d c bs" "history H T B n0 base" "drop T H = all @ bs" "D \<le> T + d"
    using Up by auto
  have "stored fs n0 base all d" using live_stored [OF l(1)] quiet_stored [of "l_fs l" fs] q Up by simp
  moreover have "prefix all (drop T H)" using l(3) by simp
  ultimately show ?thesis using l(2,4) unfolding run_inv.simps by blast
next
  case (Down fs')
  then show "run_inv st H D B \<Longrightarrow> quiet (disk_of st) fs \<Longrightarrow> ?thesis" using quiet_stored [of fs' fs] by auto
qed

lemma run_inv_crash:
  assumes "run_inv st H D B" "crashed (disk_of st) fs"
  shows "run_inv (Down fs) H D B"
proof -
  have "run_inv (Down (disk_of st)) H D B" by (rule run_inv_down [OF assms(1)]) simp
  then obtain T n0 base all d where s: "stored (disk_of st) n0 base all d" "history H T B n0 base" "prefix all (drop T H)" "D \<le> T + d"
    by auto
  obtain k where k: "d \<le> k" "k \<le> length all" "stored fs n0 base (take k all) d" by (rule crashed_stored [OF assms(2) s(1)])
  have "prefix (take k all) (drop T H)" using s(3) take_is_prefix prefix_order.trans by blast
  then show ?thesis using k(3) s(2,4) unfolding run_inv.simps by blast
qed

lemma history_small: "history H T B n0 base \<Longrightarrow> length all \<le> length H - T \<Longrightarrow> unat n0 + length all + 2 \<le> 10 ^ 12"
  by (auto simp: history_def)

lemma history_room: "history H T B n0 base \<Longrightarrow> drop T H = all @ bs \<Longrightarrow> length H + 4 \<le> 10 ^ 12 \<Longrightarrow> unat n0 + length all + length bs + 3 \<le> 10 ^ 12"
  by (auto simp: history_def dest!: arg_cong [of _ _ length])

lemma history_base: "history H T B n0 base \<Longrightarrow> unat base = 1 + length (frames (take T H)) \<and> chain base (drop T H) \<and>
    1 + length (frames (take T H)) + length (frames (drop T H)) < 2 ^ 64"
proof -
  assume h: "history H T B n0 base"
  then have len: "1 + length (frames (take T H)) + length (frames (drop T H)) < 2 ^ 64"
    unfolding history_def by (metis append_take_drop_id concat_append length_append map_append add.assoc)
  have "chain 1 (take T H @ drop T H)" using h by (simp add: history_def)
  then have "chain base (drop T H)" using h unfolding chain_append history_def by blast
  then show ?thesis using len h endof_unat [of 1 "take T H"] by (simp add: history_def)
qed

lemma history_take:
  assumes "history H T B n0 base" "T \<le> k"
  shows "history (take k H) T B n0 base"
proof -
  have "chain 1 (take k H)" using assms(1) chain_take by (auto simp: history_def)
  moreover have "frames H = frames (take k H) @ frames (drop k H)" by (metis append_take_drop_id concat_append map_append)
  then have "length (frames (take k H)) \<le> length (frames H)" by simp
  ultimately show ?thesis using assms by (auto simp: history_def min_def)
qed

lemma run_inv_open:
  assumes "run_inv (Down fs) H D B" "\<not> wo_NoFsync opt" "wal_Open fs dir opt = (l, Inr ())"
  shows "run_inv (Up l) (filter (\<lambda>x. r_LSN x < End l) H) D B"
proof -
  from assms(1) obtain T n0 base all d where s: "stored fs n0 base all d" "history H T B n0 base" "prefix all (drop T H)" "D \<le> T + d"
    by auto
  have sm: "unat n0 + length all + 2 \<le> 10 ^ 12" by (rule history_small [OF s(2)]) (use prefix_length_le [OF s(3)] in simp)
  show ?thesis
  proof (cases rule: Open_cases [OF s(1) assms(3,2) sm])
    case (2 d')
    let ?k = "T + length all"
    have all: "all = take (length all) (drop T H)" using s(3) by (metis append_eq_conv_conj prefix_def)
    have tk: "take ?k H = take T H @ all" using all by (simp add: take_add)
    have h: "chain 1 H" "1 + length (frames H) < 2 ^ 64" "T \<le> length H" "base = endof 1 (take T H)" using s(2) by (auto simp: history_def)
    have k: "?k \<le> length H" using prefix_length_le [OF s(3)] h(3) by simp
    have "End l = endof 1 (take ?k H)" using live_next(2) [OF 2(2)] h(4) tk by (simp add: End_def add.assoc)
    then have fl: "filter (\<lambda>x. r_LSN x < End l) H = take ?k H" using chain_filter [of 1 H ?k] h(1,2) by simp
    have "history (take ?k H) T B n0 base" by (rule history_take [OF s(2)]) simp
    moreover have "drop T (take ?k H) = all @ []" using tk h(3) by simp
    moreover have "calm l" using 2(4) by (simp add: calm_def opened_def)
    ultimately show ?thesis unfolding fl run_inv.simps using 2(2,3) s(4) by (meson add_le_cancel_left le_trans)
  qed simp
qed

lemma run_inv_no_open:
  assumes "run_inv (Down fs) H D B" "\<not> wo_NoFsync opt" "wal_Open fs dir opt = (l, Inl e)"
  shows "run_inv (Down (l_fs l)) H D B"
proof -
  from assms(1) obtain T n0 base all d where s: "stored fs n0 base all d" "history H T B n0 base" "prefix all (drop T H)" "D \<le> T + d"
    by auto
  have sm: "unat n0 + length all + 2 \<le> 10 ^ 12" by (rule history_small [OF s(2)]) (use prefix_length_le [OF s(3)] in simp)
  show ?thesis
  proof (cases rule: Open_cases [OF s(1) assms(3,2) sm])
    case (1 e')
    then show ?thesis using s(2-4) unfolding run_inv.simps by blast
  qed simp
qed

lemma run_inv_append:
  assumes "run_inv (Up l) H D B" "wal_Append l ty txn payload = (l', Inr lsn)"
    "x = \<lparr>r_LSN = lsn, r_TxnID = txn, r_Type = ty, r_Payload = payload\<rparr>" "unat lsn + Record_Size x < 2 ^ 64" "length H + 4 \<le> 10 ^ 12"
  shows "run_inv (Up l') (H @ [x]) D B"
proof -
  from assms(1) obtain T n0 base all d c bs where l: "live l n0 base all d c bs" "history H T B n0 base" "drop T H = all @ bs" "D \<le> T + d" "calm l"
    by auto
  show ?thesis
  proof (cases rule: Append_cases [OF l(1) assms(2) history_room [OF l(2,3) assms(5)]])
    case (1 y)
    have y: "y = x" "lsn = l_next l" using 1(1,2) assms(3) by auto
    have h: "chain 1 H" "1 + length (frames H) < 2 ^ 64" "T \<le> length H" "base = endof 1 (take T H)" using l(2) by (auto simp: history_def)
    have "frames H = frames (take T H) @ frames (all @ bs)" unfolding l(3) [symmetric] by (metis append_take_drop_id concat_append map_append)
    then have nx: "l_next l = endof 1 H" using live_next(2) [OF l(1)] h(4) by (simp add: add.assoc)
    have u: "unat (l_next l) = 1 + length (frames H)" unfolding nx using endof_unat [of 1 H] h(2) by simp
    have x: "rec_ok x" "r_LSN x = endof 1 H" using 1(3) y nx assms(3) by (auto simp: live_def)
    have "history (H @ [x]) T B n0 base"
      using l(2) assms(4,5) u y(2) x by (simp add: history_def Record_Size_frame)
    moreover have "drop T (H @ [x]) = all @ bs @ [x]" using l(3) h(3) by simp
    moreover have "calm l'"
    proof -
      have "l_next l \<le> l_next l'" using 1(4) assms(4) y u by (simp add: word_le_nat_alt unat_word_ariths unat_of_nat)
      moreover have "l_closed l' = l_closed l" "l_flushing l' = l_flushing l" "l_broken l' = l_broken l" "l_waiters l' = l_waiters l"
        using arg_cong [OF 1(7), of l_closed] arg_cong [OF 1(7), of l_flushing] arg_cong [OF 1(7), of l_broken] arg_cong [OF 1(7), of l_waiters]
        by simp_all
      ultimately show ?thesis using l(5) by (auto simp: calm_def)
    qed
    ultimately show ?thesis using 1(3) l(4) y(1) unfolding run_inv.simps by blast
  qed simp
qed


lemma live_other [simp]:
  "live (l\<lparr>l_flushing := b\<rparr>) n0 base all d c bs = live l n0 base all d c bs"
  "live (l\<lparr>l_waiters := ws\<rparr>) n0 base all d c bs = live l n0 base all d c bs"
  "live (l\<lparr>l_results := rs\<rparr>) n0 base all d c bs = live l n0 base all d c bs"
  by (simp_all add: live_def active_def between_def)

lemma run_inv_sync:
  assumes "run_inv (Up l) H D B" "Sync_enter l ch = (l', turn)"
  shows "run_inv (Up l') H D B"
proof -
  have "calm l" using assms(1) by simp
  moreover have "l' = l \<or> l' = l\<lparr>l_flushing := True\<rparr> \<and> l_broken l = None \<and> \<not> l_flushing l \<or>
      l' = l\<lparr>l_waiters := l_waiters l @ [\<lparr>w_end = l_next l, w_errc = ch\<rparr>]\<rparr> \<and> l_flushing l"
    using assms(2) [symmetric] unfolding Sync_enter_def
    by (cases "l_closed l"; cases "l_broken l"; cases "length (l_buf l) = 0 \<and> l_pending l = None \<and> l_durable l \<ge> l_next l"; cases "l_flushing l")
       (simp_all only: if_True if_False option.case prod.inject simp_thms not_False_eq_True)
  then have "(\<forall>n0 base all d c bs. live l' n0 base all d c bs = live l n0 base all d c bs) \<and> (calm l \<longrightarrow> calm l')"
    by (elim disjE conjE) (simp_all add: calm_def)
  ultimately show ?thesis using assms(1) by simp
qed

definition after_flush :: "Log \<Rightarrow> Record list \<Rightarrow> unit sresult \<Rightarrow> Log \<Rightarrow> bool" where
  "after_flush l H r l' \<longleftrightarrow> End l' = End l \<and> l_waiters l' = [] \<and> \<not> l_flushing l' \<and>
     l_results l' = l_results l @ map (\<lambda>w. (w_errc w, r)) (l_waiters l) \<and>
     (r = Inr () \<longrightarrow> Durable l' = End l' \<and> (\<forall>w\<in>set (l_waiters l). w_end w \<le> Durable l')) \<and>
     (l_pending l = None \<and> r = Inr () \<longrightarrow> fs_faults (l_fs l') = fs_faults (l_fs l)) \<and>
     (l_pending l = None \<and> fs_faults (l_fs l) = no_faults \<longrightarrow> r = Inr ())"

lemma flushLeader_inv:
  assumes "run_inv (Up l) H D B" "l_flushing l" "flushLeader l = (l', r)"
  shows "run_inv (Up l') H (case r of Inr _ \<Rightarrow> length H | Inl _ \<Rightarrow> D) B \<and> after_flush l H r l'"
proof -
  from assms(1) obtain T n0 base all d c bs where l: "live l n0 base all d c bs" "history H T B n0 base" "drop T H = all @ bs" "D \<le> T + d" "calm l"
    by auto
  have br: "l_broken l = None" using l(5) assms(2) by (simp add: calm_def)
  obtain l1 r1 where fl: "flushLocked l = (l1, r1)" by fastforce
  have l': "l' = l1\<lparr>l_results := l_results l1 @ map (\<lambda>w. (w_errc w, r)) (l_waiters l1), l_waiters := [], l_flushing := False\<rparr>" "r = r1"
    using assms(3) fl by (auto simp: flushLeader_def)
  have same: "live l' n0 base all d c bs = live l1 n0 base all d c bs" for n0 base all d c bs unfolding l'(1) by simp
  have T: "T + length (all @ bs) = length H" using l(2,3) by (metis history_def append_take_drop_id length_append length_take min.absorb2)
  show ?thesis
  proof (cases rule: flushLocked_cases [OF l(1) br fl])
    case 1
    have k: "keeps l l1" by (rule 1(3))
    have "calm l'" using l(5) k l' by (simp add: calm_def keeps_def)
    moreover have "live l' n0 base (all @ bs) (length (all @ bs)) (length (all @ bs)) []" using 1(2) same by simp
    moreover have "drop T H = (all @ bs) @ []" using l(3) by simp
    ultimately have "run_inv (Up l') H (length H) B" using l(2) T unfolding run_inv.simps by (metis le_refl)
    moreover have "after_flush l H r l'"
      using k 1 l' l(5) by (auto simp: after_flush_def keeps_def calm_def Durable_def End_def)
    ultimately show ?thesis using 1(1) l'(2) by simp
  next
    case (2 e)
    then obtain k d' c' where k: "k \<le> length bs" "live l1 n0 base (all @ take k bs) d' c' (drop k bs)" "d \<le> d'" "keeps l l1"
      by (auto simp: flush_failed_def)
    have "calm l'" using l(5) k(4) l' by (simp add: calm_def keeps_def)
    moreover have "live l' n0 base (all @ take k bs) d' c' (drop k bs)" using k(2) same by simp
    moreover have "drop T H = (all @ take k bs) @ drop k bs" using l(3) by simp
    ultimately have "run_inv (Up l') H D B" using l(2,4) k(3) unfolding run_inv.simps by (meson add_le_cancel_left le_trans)
    moreover have "after_flush l H r l'"
      using k(4) 2 l' by (auto simp: after_flush_def keeps_def Durable_def End_def)
    ultimately show ?thesis using 2(1) l'(2) by simp
  qed
qed

lemma run_inv_weaken: "run_inv st H D B \<Longrightarrow> D' \<le> D \<Longrightarrow> run_inv st H D' B"
  by (cases st) (auto intro: le_trans, (meson le_trans)+)

lemma run_inv_length: "run_inv st H D B \<Longrightarrow> D \<le> length H"
proof (cases st)
  case (Up l)
  assume "run_inv st H D B"
  with Up obtain T n0 base all d c bs where l: "live l n0 base all d c bs" "history H T B n0 base" "drop T H = all @ bs" "D \<le> T + d" by auto
  have "length H - T = length all + length bs" using l(3) by (metis length_append length_drop)
  then show ?thesis using live_next(5) [OF l(1)] l(2,4) by (auto simp: history_def)
next
  case (Down fs)
  assume "run_inv st H D B"
  with Down obtain T n0 base all d where l: "stored fs n0 base all d" "history H T B n0 base" "prefix all (drop T H)" "D \<le> T + d" by auto
  have "d \<le> length all" using l(1) disk_sure unfolding stored_def by fastforce
  then show ?thesis using l prefix_length_le [OF l(3)] by (auto simp: history_def)
qed

lemma run_inv_truncate:
  assumes "run_inv (Up l) H D B" "header_durable l" "wal_Truncate l before = (l', r)"
  shows "run_inv (Up l') H D (max B before)"
proof -
  from assms(1) obtain T n0 base all d c bs where l: "live l n0 base all d c bs" "history H T B n0 base" "drop T H = all @ bs" "D \<le> T + d" "calm l"
    by auto
  have cl: "\<not> l_closed l" using l(5) by (simp add: calm_def)
  have sm: "unat base + length (frames all) < 2 ^ 64" using history_base [OF l(2)] l(3) by simp
  note tr = Truncate_cases [OF l(1) assms(2) sm cl assms(3)]
  then obtain t n0' where t: "t \<le> d" "t \<le> length all" "unat n0' \<le> unat n0 + t" "live l' n0' (endof base (take t all)) (drop t all) (d - t) (c - t) bs"
    "\<forall>x\<in>set (take t all). r_LSN x < before" by (auto simp: truncated_def)
  have tk: "take (T + t) H = take T H @ take t all" using l(3) t(2) by (simp add: take_add)
  have dr: "drop (T + t) H = drop t all @ bs" using l(3) t(2) by (metis add.commute append_eq_append_conv_if drop_append drop_drop diff_is_0_eq drop0)
  have len: "length H - T = length all + length bs" using l(3) by (metis length_append length_drop)
  have "history H (T + t) (max B before) n0' (endof base (take t all))"
    using l(2) t(2,3,5) len unfolding history_def tk by (auto simp: less_max_iff_disj add.assoc)
  moreover have "calm l'"
  proof -
    have eq: "l' = l\<lparr>l_fs := l_fs l', l_sealed := l_sealed l'\<rparr>" using tr by blast
    show ?thesis using l(5) arg_cong [OF eq, of l_closed] arg_cong [OF eq, of l_flushing] arg_cong [OF eq, of l_broken]
      arg_cong [OF eq, of l_waiters] arg_cong [OF eq, of l_next] by (simp add: calm_def)
  qed
  ultimately show ?thesis using t(1,4) dr l(4) unfolding run_inv.simps
    by (intro conjI exI [of _ "T + t"] exI [of _ n0'] exI [of _ "endof base (take t all)"] exI [of _ "drop t all"] exI [of _ "d - t"] exI [of _ "c - t"] exI [of _ bs]) simp_all
qed


lemma live_quiet:
  assumes l: "live l n0 base all d c bs" and q: "quiet (l_fs l) fs1"
  shows "live (l\<lparr>l_fs := fs1\<rparr>) n0 base all d c bs"
proof -
  have b: "\<not> l_noFsync (l\<lparr>l_fs := fs1\<rparr>)" "l_buf (l\<lparr>l_fs := fs1\<rparr>) = frames bs" "chain (l_fileEnd (l\<lparr>l_fs := fs1\<rparr>)) bs"
    "l_next (l\<lparr>l_fs := fs1\<rparr>) = endof (l_fileEnd (l\<lparr>l_fs := fs1\<rparr>)) bs" "unat n0 + length all + length bs + 2 \<le> 10 ^ 12"
    using l by (auto simp: live_def)
  from l consider (act) ss act g q i where "active l ss act g q i" "all = recs ss @ act" "d = length (recs ss) + sure g"
      "c = length (recs ss) + q" "start (ss @ [(l_segNum l, l_segFirst l, act)]) = (n0, base)"
    | (btw) ss where "between l ss" "all = recs ss" "d = length all" "c = length all" "start ss = (n0, base)"
    unfolding live_def by blast
  then show ?thesis
  proof cases
    case act
    from live_activeI [OF active_quiet [OF act(1) q] b(1-4)] show ?thesis using act b(5) by simp
  next
    case btw
    have "between (l\<lparr>l_fs := fs1\<rparr>) ss" using btw(1) q by (auto simp: between_def left_over_quiet quiet_whole)
    from live_betweenI [OF this b(1-4)] show ?thesis using btw b(5) by simp
  qed
qed

lemma run_inv_read:
  assumes "run_inv (Up l) H D B" "Log_Reader l = (l', r)"
  shows "run_inv (Up l') H D B"
proof -
  from assms(1) obtain T n0 base all d c bs where l: "live l n0 base all d c bs" "history H T B n0 base" "drop T H = all @ bs" "D \<le> T + d" "calm l"
    by auto
  have eq: "l' = l\<lparr>l_fs := l_fs l'\<rparr>" "quiet (l_fs l) (l_fs l')" by (cases rule: Log_Reader_cases [OF l(1) assms(2)]; assumption)+
  have "calm l'" by (subst eq(1)) (use l(5) in \<open>simp add: calm_def\<close>)
  moreover have "live l' n0 base all d c bs" by (subst eq(1)) (rule live_quiet [OF l(1) eq(2)])
  ultimately show ?thesis using l(2-4) unfolding run_inv.simps by blast
qed

lemma run_inv_Sync:
  assumes "run_inv (Up l) H D B" "wal_Sync l ch = (l', r)"
  shows "run_inv (Up l') H D B"
proof -
  obtain l1 t where se: "Sync_enter l ch = (l1, t)" by fastforce
  note i1 = run_inv_sync [OF assms(1) se]
  show ?thesis
  proof (cases t)
    case SyncLead
    obtain l2 r2 where fl: "flushLeader l1 = (l2, r2)" by fastforce
    have "l_flushing l1" using se SyncLead by (auto simp: Sync_enter_def split: if_splits option.splits)
    from flushLeader_inv [OF i1 this fl] have "run_inv (Up l2) H (case r2 of Inr _ \<Rightarrow> length H | Inl _ \<Rightarrow> D) B" by blast
    then have "run_inv (Up l2) H D B" by (rule run_inv_weaken) (use run_inv_length [OF i1] in \<open>auto split: sum.split\<close>)
    then show ?thesis using assms(2) se SyncLead fl by (simp add: wal_Sync_def)
  qed (use i1 assms(2) se in \<open>auto simp: wal_Sync_def\<close>)
qed

lemma run_inv_close:
  assumes "run_inv (Up l) H D B" "wal_Close l ch = (l', Some r)"
  shows "run_inv (Down (l_fs l')) H D B"
proof -
  have cl: "\<not> l_closed l" using assms(1) by (simp add: calm_def)
  obtain l1 r1 where sy: "wal_Sync l ch = (l1, r1)" by fastforce
  note i1 = run_inv_Sync [OF assms(1) sy]
  have "quiet (l_fs l1) (l_fs l')"
    using assms(2) sy cl quiet_close [of "l_fs l1"]
    by (cases "os_Close (l_fs l1)") (auto simp: wal_Close_def Close_finish_def on_fs_def split: option.splits if_splits)
  then show ?thesis using run_inv_down [OF i1] by simp
qed

lemma run_inv_abandon: "run_inv (Up l) H D B \<Longrightarrow> run_inv (Down (l_fs (Abandon l))) H D B"
  by (erule run_inv_down) (auto simp: Abandon_def Let_def quiet_close)

lemma run_inv_new: "fresh fs \<Longrightarrow> run_inv (Down fs) [] 0 0"
  unfolding run_inv.simps
  by (intro exI [of _ "0::nat"] exI [of _ "1::uint64"] exI [of _ "1::LSN"] exI [of _ "[]::Record list"]) (simp add: stored_def history_def)

lemma wal_run_inv: "wal_run st H D B \<Longrightarrow> run_inv st H D B"
  by (induction rule: wal_run.induct)
     (blast intro: run_inv_new run_inv_crash run_inv_open run_inv_no_open run_inv_append run_inv_sync run_inv_truncate run_inv_read
        run_inv_close run_inv_abandon conjunct1 [OF flushLeader_inv])+

section \<open>What a reader of the log returns\<close>

definition readLog :: "Log \<Rightarrow> Record list \<times> sterr" where
  "readLog l = (case Log_Reader l of (l, Inr r) \<Rightarrow> readAll (l_fs l) r | (l, Inl e) \<Rightarrow> ([], e))"

lemma readLog_live:
  assumes "live l n0 base all d c bs" "fs_faults (l_fs l) = no_faults"
  shows "readLog l = (take c all, EOF)"
proof -
  obtain l' res where rd: "Log_Reader l = (l', res)" by fastforce
  show ?thesis
  proof (cases rule: Log_Reader_cases [OF assms(1) rd])
    case (1 r)
    obtain xs e where ra: "readAll (l_fs l') r = (xs, e)" by fastforce
    have "fs_faults (l_fs l') = no_faults" using 1(3) assms(2) by (simp add: quiet_def)
    then show ?thesis using readAll_reading [OF 1(4) ra] rd 1(1) ra by (simp add: readLog_def)
  qed (use assms(2) in simp)
qed

end
