(* ===== verification/WalFaults.thy ===== *)
theory WalFaults
  imports WalFrames
begin

text \<open>
  \<open>Open\<close> leaves the fault schedule of the file system as it is: a directory without faults is opened
  into a log without faults.
\<close>

lemma fst_sbind:
  assumes "G (fst p) = g" "\<And>e x. G e = g \<Longrightarrow> G (fst (f e x)) = g"
  shows "G (fst (sbind p f)) = g"
  proof -
  obtain e r where "p = (e, r)" by fastforce
  then show ?thesis using assms by (cases r) auto
qed

lemma os_try_faults: "(\<And>fs'. fs_faults fs' = fs_faults fs \<Longrightarrow> fs_faults (fst (act fs')) = fs_faults fs) \<Longrightarrow> fs_faults (fst (os_try fs act)) = fs_faults fs"
  by (auto simp: os_try_def os_call_def split: option.splits)

lemma os_faults [simp]:
  "fs_faults (fst (os_MkdirAll fs)) = fs_faults fs" "fs_faults (fst (os_ReadDir fs)) = fs_faults fs"
  "fs_faults (fst (os_Create fs n)) = fs_faults fs" "fs_faults (fst (os_Open fs n)) = fs_faults fs"
  "fs_faults (fst (os_Size fs i)) = fs_faults fs" "fs_faults (fst (os_Seek fs)) = fs_faults fs"
  "fs_faults (fst (os_Sync fs i)) = fs_faults fs" "fs_faults (fst (os_Truncate fs i k)) = fs_faults fs"
  "fs_faults (fst (os_Close fs)) = fs_faults fs" "fs_faults (fst (os_Remove fs n)) = fs_faults fs" "fs_faults (fst (os_Dir fs)) = fs_faults fs"
  unfolding os_MkdirAll_def os_ReadDir_def os_Create_def os_Open_def os_Size_def os_Seek_def os_Sync_def os_Truncate_def os_Close_def
    os_Remove_def os_Dir_def
  by (rule os_try_faults; simp add: set_data_def split: option.split dirent.split)+

lemma os_Write_faults [simp]: "fs_faults (fst (os_Write fs i p)) = fs_faults fs"
  by (simp add: os_Write_def os_call_def set_data_def Let_def split: option.split)

lemma os_ReadAt_faults [simp]: "fs_faults (fst (os_ReadAt fs i n off)) = fs_faults fs"
  by (simp add: os_ReadAt_def os_call_def Let_def split: option.split)

lemma faults_fst: "f = (fs', r) \<Longrightarrow> fs_faults (fst f) = g \<Longrightarrow> fs_faults fs' = g"
  by simp

lemma wrapped_faults [simp]: "fst (wrapped msg p) = fst p"
  by (cases p) (auto simp: wrapped_def split: sum.split)

lemma on_fs_faults [simp]: "l_fs (fst (on_fs l p)) = fst p"
  by (cases p) (simp add: on_fs_def)

lemma readFullAt_faults [simp]: "fs_faults (fst (readFullAt fs i n off)) = fs_faults fs"
proof -
  have "fs_faults (fst (readFullAt_loop fs i n off p)) = fs_faults fs" for p
  proof (induction fs i n off p rule: readFullAt_loop.induct)
    case (1 fs i len off p)
    obtain fs' b err where r: "os_ReadAt fs i (len - length p) (off + length p) = (fs', b, err)" by (metis prod.exhaust)
    have f: "fs_faults fs' = fs_faults fs" using faults_fst [OF r] by simp
    show ?case
      using "1.IH" [OF _ r [symmetric] refl refl] f by (subst readFullAt_loop.simps) (auto simp: r Let_def split: option.split)
  qed
  then show ?thesis by (simp add: readFullAt_def)
qed

lemma readHeader_faults [simp]: "fs_faults (fst (readHeader fs f sz num expect tn)) = fs_faults fs"
proof -
  obtain fs' b err where r: "(if (if headerSize > sz then sz else headerSize) > 0 then readFullAt fs f (if headerSize > sz then sz else headerSize) 0 else (fs, [], None)) = (fs', b, err)"
    by (metis prod.exhaust)
  then have "fs_faults fs' = fs_faults fs" using readFullAt_faults by (metis fst_conv)
  then show ?thesis unfolding readHeader_def Let_def by (simp add: r)
qed

lemma scan_loop_faults [simp]: "fs_faults (fst (scan_loop fs f sz tn off lsn)) = fs_faults fs"
proof (induction fs f sz tn off lsn rule: scan_loop.induct)
  case (1 fs f sz tn off lsn)
  obtain fs1 b1 e1 where r1: "readFullAt fs f recordHeader off = (fs1, b1, e1)" by (metis prod.exhaust)
  define total where "total = recordHeader + le_at 4 20 b1 + crcSize"
  obtain fs2 b2 e2 where r2: "readFullAt fs1 f total off = (fs2, b2, e2)" by (metis prod.exhaust)
  have f: "fs_faults fs1 = fs_faults fs" "fs_faults fs2 = fs_faults fs" using faults_fst [OF r1] faults_fst [OF r2] by simp_all
  show ?case
  proof (cases "fs_faults (fst (scan_loop fs2 f sz tn (off + total) (lsn + word_of_nat total))) = fs_faults fs")
    case True
    then show ?thesis using f by (subst scan_loop.simps) (auto simp: r1 r2 Let_def total_def [symmetric] split: option.split)
  next
    case False
    then show ?thesis
      using "1.IH" [OF _ _ r1 [symmetric] refl _ refl] f r1 r2
      by (subst scan_loop.simps) (auto simp: Let_def total_def [symmetric] split: option.split; blast)
  qed
qed


lemma repairFile_faults: "fs_faults (fst (repairFile fs f path num expect last1)) = fs_faults fs"
  unfolding repairFile_def
  by (rule fst_sbind [of fs_faults], simp, rule fst_sbind [of fs_faults], simp)
     (auto simp: scanRecords_def split: prod.split intro!: fst_sbind [of fs_faults])

lemma repairSegment_faults [simp]: "fs_faults (fst (repairSegment fs path num expect last1)) = fs_faults fs"
  unfolding repairSegment_def
  by (rule fst_sbind [of fs_faults], simp) (auto simp: deferClose_def repairFile_faults split: prod.split dest: arg_cong [of _ _ "\<lambda>p. fs_faults (fst p)"])

lemma syncDir_faults [simp]: "fs_faults (fst (syncDir fs)) = fs_faults fs"
  using looks_syncDir [of fs] by (simp add: looks_def quiet_def)

lemma createFile_faults [simp]: "fs_faults (fst (createFile fs path hdr)) = fs_faults fs"
  unfolding createFile_def
proof (rule fst_sbind [of fs_faults], simp)
  fix fs1 :: fsys and f assume g: "fs_faults fs1 = fs_faults fs"
  obtain fs2 n err where w: "os_Write fs1 f hdr = (fs2, n, err)" by (metis prod.exhaust)
  obtain fs3 r3 where y: "os_Sync fs2 f = (fs3, r3)" by fastforce
  obtain fs4 r4 where d: "syncDir fs3 = (fs4, r4)" by fastforce
  have "fs_faults fs2 = fs_faults fs" "fs_faults fs3 = fs_faults fs" "fs_faults fs4 = fs_faults fs"
    using faults_fst [OF w] faults_fst [OF y] faults_fst [OF d] g by simp_all
  then show "fs_faults (fst (case os_Write fs1 f hdr of
         (fs, n, Some err) \<Rightarrow>
           (fst (os_Remove (fst (os_Close fs)) path), Inl (gerr_Wrap Unavailable ''write wal segment header'' err))
       | (fs, n, None) \<Rightarrow>
         (case os_Sync fs f of
            (fs, Inl err) \<Rightarrow>
              (fst (os_Remove (fst (os_Close fs)) path), Inl (gerr_Wrap Unavailable ''sync wal segment header'' err))
          | (fs, Inr _) \<Rightarrow>
            (case syncDir fs of
               (fs, Inl err) \<Rightarrow> (fst (os_Close fs), Inl err)
             | (fs, Inr _) \<Rightarrow> (fs, Inr f))))) = fs_faults fs"
    by (simp add: w y d split: option.split sum.split)
qed

lemma createSegment_faults: "fs_faults (l_fs (fst (createSegment l num first))) = fs_faults (l_fs l)"
  unfolding createSegment_def Let_def by (rule fst_sbind [of "\<lambda>l. fs_faults (l_fs l)"]) simp_all

lemma reopenLast_faults: "fs_faults (l_fs (fst (reopenLast l path num first end1))) = fs_faults (l_fs l)"
  unfolding reopenLast_def
proof (rule fst_sbind [of "\<lambda>l. fs_faults (l_fs l)"], simp)
  fix l1 :: Log and f assume g: "fs_faults (l_fs l1) = fs_faults (l_fs l)"
  obtain l2 r2 where s: "on_fs l1 (wrapped ''stat wal segment'' (os_Size (l_fs l1) f)) = (l2, r2)" by fastforce
  obtain l3 r3 where k: "on_fs l2 (wrapped ''seek wal segment'' (os_Seek (l_fs l2))) = (l3, r3)" by fastforce
  have "fs_faults (l_fs l2) = fs_faults (l_fs l)" "fs_faults (l_fs l3) = fs_faults (l_fs l)"
    using arg_cong [OF s, of "\<lambda>p. fs_faults (l_fs (fst p))"] arg_cong [OF k, of "\<lambda>p. fs_faults (l_fs (fst p))"] g by simp_all
  then show "fs_faults (l_fs (fst (case on_fs l1 (wrapped ''stat wal segment'' (os_Size (l_fs l1) f)) of
         (l, Inl err) \<Rightarrow> (l\<lparr>l_fs := fst (os_Close (l_fs l))\<rparr>, Inl err)
       | (l, Inr sz) \<Rightarrow>
         (case on_fs l (wrapped ''seek wal segment'' (os_Seek (l_fs l))) of
            (l, Inl err) \<Rightarrow> (l\<lparr>l_fs := fst (os_Close (l_fs l))\<rparr>, Inl err)
          | (l, Inr _) \<Rightarrow>
            (l\<lparr>l_seg := Some f, l_path := path, l_segNum := num, l_segFirst := first, l_segLen := sz,
               l_syncedOff := sz, l_fileEnd := end1, l_next := end1, l_durable := end1\<rparr>, Inr ()))))) = fs_faults (l_fs l)"
    by (simp add: s k split: sum.split)
qed

lemma Open_loop_faults: "fs_faults (l_fs (fst (Open_loop l names expect))) = fs_faults (l_fs l)"
proof (induction names arbitrary: l expect)
  case (Cons name rest)
  have "fs_faults (l_fs (fst (sbind (reopenLast l1 name num first end1) (\<lambda>l _. Open_loop l rest end1)))) = fs_faults (l_fs l1)" for l1 num first end1
    by (rule fst_sbind [of "\<lambda>l. fs_faults (l_fs l)"]) (simp_all add: reopenLast_faults Cons.IH)
  then show ?case
    by (auto simp: Let_def Cons.IH reopenLast_faults split: option.split intro!: fst_sbind [of "\<lambda>l. fs_faults (l_fs l)"])
qed simp

lemma Open_faults: "fs_faults (l_fs (fst (wal_Open fs dir opt))) = fs_faults fs"
proof -
  have t: "fs_faults (l_fs (fst (Open_tail l))) = fs_faults (l_fs l)" for l
    by (simp add: Open_tail_def createSegment_faults)
  have "fs_faults (fst (listSegments fs)) = fs_faults fs" for fs
  proof -
    obtain fs1 r1 where r: "os_ReadDir fs = (fs1, r1)" by fastforce
    have "fs_faults fs1 = fs_faults fs" using faults_fst [OF r] by simp
    then show ?thesis by (auto simp: r listSegments_def Let_def split: sum.split)
  qed
  then show ?thesis unfolding wal_Open_def
    by (auto simp: newLog_def createSegment_faults Open_loop_faults t split: sum.split intro!: fst_sbind [of "\<lambda>l. fs_faults (l_fs l)"])
qed

end
