(* ===== verification/WalProps.thy ===== *)
theory WalProps
  imports WalRun WalFaults
begin

text \<open>
  The properties of the write-ahead log, over all runs with crashes and faults, and a concrete run
  that meets their hypotheses: open an empty directory, append a commit record, sync.
\<close>

section \<open>A run\<close>

definition dir0 :: fsys where
  "dir0 = \<lparr>fs_inodes = [], fs_dir = [], fs_faults = no_faults, fs_calls = 0, fs_archived = []\<rparr>"

definition opt0 :: walOptions where
  "opt0 = \<lparr>wo_SegmentSize = 0, wo_GroupCommit = 0, wo_Archiver = False, wo_NoFsync = False\<rparr>"

definition rec0 :: Record where
  "rec0 = \<lparr>r_LSN = 1, r_TxnID = 7, r_Type = TypeTxnCommit, r_Payload = [1, 2, 3]\<rparr>"

definition log1 :: Log where "log1 = fst (wal_Open dir0 [119] opt0)"
definition log2 :: Log where "log2 = fst (wal_Append log1 TypeTxnCommit 7 [1, 2, 3])"
definition log3 :: Log where "log3 = fst (Sync_enter log2 0)"
definition log4 :: Log where "log4 = fst (flushLeader log3)"



lemma fresh_dir0: "fresh dir0"
  by (simp add: fresh_def fs_wf_def seg_nums_def seg_file_def dir0_def)

lemma opt0_normal: "\<exists>opt. wal_normalize opt0 = Inr opt" "\<not> wo_NoFsync opt0"
  by (simp_all add: wal_normalize_def opt0_def DefaultSegmentSize_def wal_sizes Let_def)

lemma log1_run: "wal_Open dir0 [119] opt0 = (log1, Inr ())" "wal_run (Up log1) [] 0 0" "live log1 1 1 [] 0 0 []" "opened log1"
proof -
  have s: "stored dir0 1 1 [] 0" using fresh_dir0 by (simp add: stored_def)
  obtain r where c: "wal_Open dir0 [119] opt0 = (log1, r)" by (metis log1_def prod.collapse)
  have ff: "fs_faults dir0 = no_faults" by (simp add: dir0_def)
  have sm: "unat (1::uint64) + length ([]::Record list) + 2 \<le> 10 ^ 12" by simp
  have ok: "r = Inr ()" "live log1 1 1 [] 0 0 []" "opened log1"
    by (cases rule: Open_cases [OF s c opt0_normal(2) sm]; use ff opt0_normal(1) live_next(5) in force)+
  show "wal_Open dir0 [119] opt0 = (log1, Inr ())" "live log1 1 1 [] 0 0 []" "opened log1" using ok c by simp_all
  show "wal_run (Up log1) [] 0 0"
    using run_open [OF run_new [OF fresh_dir0] opt0_normal(2)] c ok(1) by fastforce
qed

lemma log1_faults: "fs_faults (l_fs log1) = no_faults"
  using Open_faults [of dir0 "[119]" opt0] by (simp add: log1_def dir0_def)

lemma log2_run: "wal_Append log1 TypeTxnCommit 7 [1, 2, 3] = (log2, Inr 1)" "wal_run (Up log2) [rec0] 0 0"
  "l_fs log2 = l_fs log1" "opened (log2\<lparr>l_buf := []\<rparr>)" "l_buf log2 \<noteq> []"
proof -
  have l1: "l_next log1 = 1" "\<not> l_closed log1" "l_broken log1 = None" "l_buf log1 = []"
    using live_next(2) [OF log1_run(3)] log1_run(4) by (auto simp: opened_def)
  have "validType TypeTxnCommit" by (simp add: validType_def TypeTxnCommit_def TypePageWrite_def TypeCheckpoint_def)
  then have ap: "wal_Append log1 TypeTxnCommit 7 [1, 2, 3] = (log1\<lparr>l_buf := frame rec0, l_next := 32\<rparr>, Inr 1)"
    using l1 by (simp add: wal_Append_def MaxPayload_def wal_appendRecord_frame rec0_def wal_sizes Let_def)
  then have l2: "log2 = log1\<lparr>l_buf := frame rec0, l_next := 32\<rparr>" by (simp add: log2_def)
  then show a: "wal_Append log1 TypeTxnCommit 7 [1, 2, 3] = (log2, Inr 1)" using ap by simp
  show "l_fs log2 = l_fs log1" "opened (log2\<lparr>l_buf := []\<rparr>)" "l_buf log2 \<noteq> []"
    unfolding l2 using log1_run(4) by (simp_all add: opened_def)
  show "wal_run (Up log2) [rec0] 0 0"
    using run_append [OF log1_run(2) a rec0_def] by (simp add: Record_Size_def rec0_def wal_sizes)
qed

lemma log3_run: "log3 = log2\<lparr>l_flushing := True\<rparr>" "wal_run (Up log3) [rec0] 0 0" "l_pending log3 = None" "fs_faults (l_fs log3) = no_faults"
  "l_flushing log3"
proof -
  have l2: "\<not> l_closed log2" "l_broken log2 = None" "\<not> l_flushing log2" "l_pending log2 = None"
    using log2_run(4) by (simp_all add: opened_def)
  have se: "Sync_enter log2 0 = (log2\<lparr>l_flushing := True\<rparr>, SyncLead)"
    using l2 log2_run(5) by (simp add: Sync_enter_def)
  then show l3: "log3 = log2\<lparr>l_flushing := True\<rparr>" by (simp add: log3_def)
  show "wal_run (Up log3) [rec0] 0 0" using run_sync [OF log2_run(2) se] l3 by simp
  show "l_pending log3 = None" "fs_faults (l_fs log3) = no_faults" "l_flushing log3" unfolding l3 using l2 log1_faults log2_run(3) by simp_all
qed

lemma log4_run: "flushLeader log3 = (log4, Inr ())" "wal_run (Up log4) [rec0] 1 0" "fs_faults (l_fs log4) = no_faults" "Durable log4 = End log4"
proof -
  obtain r where fl: "flushLeader log3 = (log4, r)" by (metis log4_def prod.collapse)
  have a: "after_flush log3 [rec0] r log4" using flushLeader_inv [OF wal_run_inv [OF log3_run(2)] log3_run(5) fl] by blast
  then have r: "r = Inr ()" using log3_run(3,4) by (simp add: after_flush_def)
  then show f: "flushLeader log3 = (log4, Inr ())" using fl by simp
  show "wal_run (Up log4) [rec0] 1 0" using run_flush [OF log3_run(2,5) f] by simp
  show "fs_faults (l_fs log4) = no_faults" "Durable log4 = End log4" using a r log3_run(3,4) by (simp_all add: after_flush_def)
qed

section \<open>Recovery\<close>




section \<open>Flushing\<close>



section \<open>LSNs\<close>





section \<open>Reading\<close>

text \<open>
  C31. A reader of an open log returns, in order and each once, the appended records below \<open>Durable\<close>, except
  some at the front that were truncated; every acknowledged record is below \<open>Durable\<close>.
\<close>

theorem wal_reads:
  assumes "wal_run (Up l) H D B" "fs_faults (l_fs l) = no_faults"
  shows "\<exists>t. readLog l = (filter (\<lambda>x. r_LSN x < Durable l) (drop t H), EOF) \<and> (\<forall>x\<in>set (take t H). r_LSN x < B) \<and>
    (\<forall>x\<in>set (take D H). r_LSN x < Durable l)"
proof -
  from wal_run_inv [OF assms(1)] obtain T n0 base all d c bs where l: "live l n0 base all d c bs" "history H T B n0 base" "drop T H = all @ bs"
    "D \<le> T + d" by auto
  note n = live_next [OF l(1)]
  have b: "chain base (drop T H)" "unat base + length (frames (drop T H)) < 2 ^ 64" using history_base [OF l(2)] by auto
  have c: "take c (drop T H) = take c all" using l(3) n(6) by simp
  have "filter (\<lambda>x. r_LSN x < Durable l) (drop T H) = take c all"
    using chain_filter [OF b, of c] c n(3) by (simp add: Durable_def)
  moreover have "\<forall>x\<in>set (take T H). r_LSN x < B" using l(2) by (simp add: history_def)
  moreover have "r_LSN x < Durable l" if "x \<in> set (take D H)" for x
  proof -
    have h: "chain 1 H" "unat (1::LSN) + length (frames H) < 2 ^ 64" "base = endof 1 (take T H)" using l(2) by (auto simp: history_def)
    have "x \<in> set (take (T + c) H)" using that l(4) n(7) set_take_subset_set_take [of D "T + c" H] by auto
    then have "x \<in> set (filter (\<lambda>x. r_LSN x < endof 1 (take (T + c) H)) H)" unfolding chain_filter [OF h(1,2), of "T + c"] .
    then have "r_LSN x < endof 1 (take (T + c) H)" by simp
    moreover have "endof 1 (take (T + c) H) = Durable l" using n(3) c h(3) by (simp add: Durable_def take_add add.assoc)
    ultimately show ?thesis by simp
  qed
  ultimately show ?thesis using readLog_live [OF l(1) assms(2)] by (intro exI [of _ T]) simp
qed

theorem wal_reads_witness: "readLog log4 = ([rec0], EOF)"
proof -
  obtain t where t: "readLog log4 = (filter (\<lambda>x. r_LSN x < Durable log4) (drop t [rec0]), EOF)" "\<forall>x\<in>set (take t [rec0]). r_LSN x < 0"
    "\<forall>x\<in>set (take 1 [rec0]). r_LSN x < Durable log4"
    using wal_reads [OF log4_run(2,3)] by auto
  have "t = 0" using t(2) by (cases t) simp_all
  then show ?thesis using t(1,3) by simp
qed


text \<open>
  A seek puts a reader before the first record at or after an LSN, whatever it has read
  before: what it then returns is what the log holds from there on.
\<close>

theorem wal_seek:
  assumes "wal_run (Up l) H D B" "fs_faults (l_fs l) = no_faults"
  shows "\<exists>l' r fs' r'. Log_Reader l = (l', Inr r) \<and> Reader_Seek (l_fs l') r lsn = ((fs', r'), Inr ()) \<and>
    readAll fs' r' = (dropWhile (\<lambda>x. r_LSN x < max 1 lsn) (fst (readLog l)), EOF)"
proof -
  from wal_run_inv [OF assms(1)] obtain T n0 base all d c bs where l: "live l n0 base all d c bs" by auto
  obtain l' res where rd: "Log_Reader l = (l', res)" by fastforce
  show ?thesis
  proof (cases rule: Log_Reader_cases [OF l rd])
    case (1 r)
    obtain fs' r' sr where sk: "Reader_Seek (l_fs l') r lsn = ((fs', r'), sr)" by (metis prod.exhaust)
    have ff: "fs_faults (l_fs l') = no_faults" using 1(3) assms(2) by (simp add: quiet_def)
    note s = Reader_Seek_reading [OF 1(4) ff sk]
    obtain xs e where ra: "readAll fs' r' = (xs, e)" by fastforce
    have "fs_faults fs' = no_faults" using s ff by (simp add: quiet_def)
    then have "xs = dropWhile (\<lambda>x. r_LSN x < max 1 lsn) (take c all)" "e = EOF" using readAll_reading [OF _ ra] s by blast+
    then show ?thesis using rd 1(1) sk s ra readLog_live [OF l assms(2)] by simp
  qed (use assms(2) in simp)
qed

theorem wal_seek_witness:
  "\<exists>l' r fs' r'. Log_Reader log4 = (l', Inr r) \<and> Reader_Seek (l_fs l') r 2 = ((fs', r'), Inr ()) \<and>
    readAll fs' r' = (dropWhile (\<lambda>x. r_LSN x < max 1 2) (fst (readLog log4)), EOF)"
  by (rule wal_seek [OF log4_run(2,3), of 2])

section \<open>Truncating\<close>

text \<open>
  A truncation that no system call disturbs removes records only at the front of the log and only below its
  argument; it changes neither end of the log, and it leaves no sealed segment that lies wholly below
  its argument, except one whose rotation is unfinished.
\<close>

theorem wal_truncates:
  assumes "wal_run (Up l) H D B" "header_durable l" "fs_faults (l_fs l) = no_faults" "wal_Truncate l before = (l', r)"
  shows "r = Inr () \<and> End l' = End l \<and> Durable l' = Durable l \<and>
    (\<exists>t. readLog l' = (drop t (fst (readLog l)), EOF) \<and> (\<forall>x\<in>set (take t (fst (readLog l))). r_LSN x < before)) \<and>
    (\<forall>s\<in>set (l_sealed l'). (case l_pending l of None \<Rightarrow> False | Some p \<Rightarrow> si_Number s = si_Number p) \<or> before < si_End s)"
proof -
  from wal_run_inv [OF assms(1)] obtain T n0 base all d c bs where l: "live l n0 base all d c bs" "history H T B n0 base" "drop T H = all @ bs"
    "calm l" by auto
  have sm: "unat base + length (frames all) < 2 ^ 64" using history_base [OF l(2)] l(3) by simp
  have cl: "\<not> l_closed l" using l(4) by (simp add: calm_def)
  note tr = Truncate_cases [OF l(1) assms(2) sm cl assms(4)]
  then obtain t n0' where t: "t \<le> d" "live l' n0' (endof base (take t all)) (drop t all) (d - t) (c - t) bs" "\<forall>x\<in>set (take t all). r_LSN x < before"
    by (auto simp: truncated_def)
  have eq: "l' = l\<lparr>l_fs := l_fs l', l_sealed := l_sealed l'\<rparr>" using tr by blast
  have "End l' = End l" "Durable l' = Durable l" using arg_cong [OF eq, of l_next] arg_cong [OF eq, of l_durable] by (simp_all add: End_def Durable_def)
  moreover have "readLog l' = (take (c - t) (drop t all), EOF)" using readLog_live [OF t(2)] tr assms(3) by simp
  moreover have "take (c - t) (drop t all) = drop t (take c all)" by (simp add: drop_take)
  moreover have "\<forall>x\<in>set (take t (take c all)). r_LSN x < before" using t(3) set_take_subset_set_take [of "min t c" t all] by auto
  ultimately show ?thesis using tr assms(3) readLog_live [OF l(1) assms(3)] by (intro conjI exI [of _ t]) auto
qed

lemmas os_defs = os_MkdirAll_def os_ReadDir_def os_Create_def os_Write_def os_Sync_def os_Dir_def os_try_def os_call_def no_faults_def
  set_data_def fdata_def fsynced_def

lemma log1_eq:
  "\<exists>k. log1 = \<lparr>l_fs = \<lparr>fs_inodes = [\<lparr>wf_data = encodeHeader 1 1, wf_synced = encodeHeader 1 1\<rparr>], fs_dir = [(segmentName 1, DFile 0)],
      fs_faults = no_faults, fs_calls = k, fs_archived = []\<rparr>, l_segSize = DefaultSegmentSize, l_group = 1000000, l_archiver = False,
      l_noFsync = False, l_seg = Some 0, l_path = segmentName 1, l_segNum = 1, l_segFirst = 1, l_segLen = 28,
      l_syncedOff = 28, l_sealed = [], l_pending = None, l_next = 1, l_fileEnd = 1, l_durable = 1, l_buf = [],
      l_flushing = False, l_waiters = [], l_results = [], l_closed = False, l_broken = None\<rparr>"
  by (simp add: log1_def wal_Open_def wal_normalize_def opt0_def newLog_def on_fs_def wrapped_def listSegments_def createSegment_def createFile_def syncDir_def
      os_defs dir0_def DefaultSegmentSize_def wal_sizes Let_def)

lemma log4_header: "header_durable log4"
proof -
  obtain k where l1: "log1 = \<lparr>l_fs = \<lparr>fs_inodes = [\<lparr>wf_data = encodeHeader 1 1, wf_synced = encodeHeader 1 1\<rparr>], fs_dir = [(segmentName 1, DFile 0)],
      fs_faults = no_faults, fs_calls = k, fs_archived = []\<rparr>, l_segSize = DefaultSegmentSize, l_group = 1000000, l_archiver = False,
      l_noFsync = False, l_seg = Some 0, l_path = segmentName 1, l_segNum = 1, l_segFirst = 1, l_segLen = 28,
      l_syncedOff = 28, l_sealed = [], l_pending = None, l_next = 1, l_fileEnd = 1, l_durable = 1, l_buf = [],
      l_flushing = False, l_waiters = [], l_results = [], l_closed = False, l_broken = None\<rparr>"
    using log1_eq by blast
  have ok: "validType TypeTxnCommit" "rec_ok rec0"
    by (simp_all add: rec_ok_def rec0_def MaxPayload_def validType_def TypeTxnCommit_def TypePageWrite_def TypeCheckpoint_def)
  have l2: "log2 = log1\<lparr>l_buf := frame rec0, l_next := 32\<rparr>"
    by (simp add: log2_def l1 wal_Append_def ok MaxPayload_def wal_appendRecord_frame rec0_def wal_sizes Let_def)
  have "length (frame rec0) = 31" by (simp add: rec0_def)
  then show ?thesis
    unfolding log4_def log3_run(1) l2 l1
    by (simp add: flushLeader_def flushLocked_def finishPendingLocked_def flush_loop.simps [of _ "frame rec0"] flush_loop.simps [of _ "[]"]
        encodedLen_frame [OF ok(2), of "[]", simplified] mustRotate_def writeFull_def syncFile_def wrapped_def on_fs_def os_defs header_durable_def wal_sizes Let_def)
qed

theorem wal_truncates_witness:
  "\<exists>l'. wal_Truncate log4 32 = (l', Inr ()) \<and> End l' = End log4 \<and> Durable l' = Durable log4 \<and>
    (\<exists>t. readLog l' = (drop t (fst (readLog log4)), EOF) \<and> (\<forall>x\<in>set (take t (fst (readLog log4))). r_LSN x < 32))"
proof -
  obtain l' r where tr: "wal_Truncate log4 32 = (l', r)" by fastforce
  then show ?thesis using wal_truncates [OF log4_run(2) log4_header log4_run(3) tr] by blast
qed

section \<open>Bytes\<close>

lemma unat_bound_64: "unat (w::uint64) < 18446744073709551616"
  using unsigned_less [of w] by simp

text \<open>
  Scanning the last segment of a log, whose bytes are a header, the frames of records with
  consecutive LSNs and possibly the beginning of one more frame, finds the end of the records and the place
  where the torn frame starts.
\<close>

theorem wal_scan_torn:
  assumes "fdata fs f = encodeHeader num first @ frames rs @ t" "chain first rs" "torn t" "fs_faults fs = no_faults"
  shows "snd (scanRecords fs f (length (fdata fs f)) first True) = Inr (endof first rs, if t = [] then 0 else headerSize + length (frames rs))"
  using scan_loop_looks [OF assms(1) _ assms(2,3), of 28 True] assms(4) by (auto simp: scanRecords_def looks_def wal_sizes)

theorem wal_scan_torn_witness:
  "snd (scanRecords (dir0\<lparr>fs_inodes := [\<lparr>wf_data = encodeHeader 1 1 @ frame rec0 @ take 5 (frame rec0), wf_synced = []\<rparr>]\<rparr>) 0 64 1 True) = Inr (32, 59)"
proof -
  let ?fs = "dir0\<lparr>fs_inodes := [\<lparr>wf_data = encodeHeader 1 1 @ frame rec0 @ take 5 (frame rec0), wf_synced = []\<rparr>]\<rparr>"
  have r: "rec_ok rec0" by (simp add: rec_ok_def rec0_def MaxPayload_def validType_def TypeTxnCommit_def TypePageWrite_def TypeCheckpoint_def)
  have len: "length (frame rec0) = 31" by (simp add: rec0_def)
  have t: "torn (take 5 (frame rec0))" using torn_part [OF r, of 5] len by simp
  have f: "fdata ?fs 0 = encodeHeader 1 1 @ frames [rec0] @ take 5 (frame rec0)" "fs_faults ?fs = no_faults" by (simp_all add: fdata_def dir0_def)
  have "chain 1 [rec0]" "length (fdata ?fs 0) = 64" "take 5 (frame rec0) \<noteq> []" unfolding f(1) using r len by (simp_all add: rec0_def)
  then show ?thesis using wal_scan_torn [OF f(1) _ t f(2)] len by (simp add: wal_sizes)
qed

text \<open>
  C33. A record read back from a segment is the record that was appended, and the payloads of page writes, tree
  insertions and deletions and checkpoints decode to what was encoded.
\<close>

theorem wal_round_trips:
  assumes "rec_ok r" "fdata fs f = pre @ frame r @ post" "fs_faults fs = no_faults" "length key < 2 ^ 32" "length v < 2 ^ 32" "img \<noteq> []"
  shows "snd (readRecord fs f (length pre) (length (fdata fs f)) (r_LSN r)) = Inr (r, length pre + Record_Size r) \<and>
    (\<exists>b. EncodePageWrite page img = Inr b \<and> DecodePageWrite b = Inr (page, img)) \<and>
    DecodeTreeInsert (EncodeTreeInsert ks key v) = Inr (ks, key, v) \<and>
    DecodeTreeDelete (EncodeTreeDelete ks key) = Inr (ks, key) \<and>
    DecodeCheckpoint (EncodeCheckpoint nano) = Inr nano"
proof (intro conjI)
  have u: "unat (w::uint64) mod 18446744073709551616 = unat w" for w using unat_bound_64 [of w] by simp
  show "snd (readRecord fs f (length pre) (length (fdata fs f)) (r_LSN r)) = Inr (r, length pre + Record_Size r)"
    using readRecord_looks [OF assms(2) refl assms(1) refl, of "length (fdata fs f)"] assms(2,3) by (auto simp: looks_def Record_Size_frame)
  show "\<exists>b. EncodePageWrite page img = Inr b \<and> DecodePageWrite b = Inr (page, img)"
    using assms(6) by (simp add: EncodePageWrite_def DecodePageWrite_def Let_def u)
  show "DecodeTreeInsert (EncodeTreeInsert ks key v) = Inr (ks, key, v)"
  proof -
    let ?a = "ks # le_put 4 (length key)" and ?b = "EncodeTreeInsert ks key v"
    have e: "?b = ?a @ key @ le_put 4 (length v) @ v" "length ?a = 5" by (simp_all add: EncodeTreeInsert_def)
    have k: "le_at 4 1 ?b = length key"
      using le_at_append [of "[ks]" 1 4 "le_put 4 (length key) @ key @ le_put 4 (length v) @ v"] assms(4) by (simp add: EncodeTreeInsert_def)
    have n: "le_at 4 (5 + length key) ?b = length v"
      using le_at_append [of "?a @ key" "5 + length key" 4 "le_put 4 (length v) @ v"] assms(5) by (simp add: EncodeTreeInsert_def)
    have d: "drop 5 ?b = key @ le_put 4 (length v) @ v" "drop (9 + length key) ?b = v"
      using e drop_append [of 5 ?a] drop_append [of "9 + length key" "?a @ key @ le_put 4 (length v)" v] by simp_all
    have "?b ! 0 = ks" "length ?b = 9 + length key + length v" by (simp_all add: EncodeTreeInsert_def)
    then show ?thesis using k n d by (simp add: DecodeTreeInsert_def Let_def)
  qed
  show "DecodeTreeDelete (EncodeTreeDelete ks key) = Inr (ks, key)"
  proof -
    have "le_at 4 1 (EncodeTreeDelete ks key) = length key"
      using le_at_append [of "[ks]" 1 4 "le_put 4 (length key) @ key"] assms(4) by (simp add: EncodeTreeDelete_def)
    moreover have "drop 5 (EncodeTreeDelete ks key) = key" using drop_append [of 5 "ks # le_put 4 (length key)" key] by (simp add: EncodeTreeDelete_def)
    moreover have "EncodeTreeDelete ks key ! 0 = ks" "length (EncodeTreeDelete ks key) = 5 + length key" by (simp_all add: EncodeTreeDelete_def)
    ultimately show ?thesis by (simp add: DecodeTreeDelete_def Let_def)
  qed
  show "DecodeCheckpoint (EncodeCheckpoint nano) = Inr nano"
    by (simp add: EncodeCheckpoint_def DecodeCheckpoint_def u)
qed

theorem wal_round_trips_witness:
  "snd (readRecord (dir0\<lparr>fs_inodes := [\<lparr>wf_data = frame rec0, wf_synced = []\<rparr>]\<rparr>) 0 0 31 1) = Inr (rec0, 31) \<and>
    DecodeTreeInsert (EncodeTreeInsert 2 [1, 2] [3]) = Inr (2, [1, 2], [3])"
proof -
  let ?fs = "dir0\<lparr>fs_inodes := [\<lparr>wf_data = frame rec0, wf_synced = []\<rparr>]\<rparr>"
  have r: "rec_ok rec0" by (simp add: rec_ok_def rec0_def MaxPayload_def validType_def TypeTxnCommit_def TypePageWrite_def TypeCheckpoint_def)
  have f: "fdata ?fs 0 = [] @ frame rec0 @ []" "fs_faults ?fs = no_faults" by (simp_all add: fdata_def dir0_def)
  have n: "length (fdata ?fs 0) = 31" "r_LSN rec0 = 1" "Record_Size rec0 = 31" unfolding f(1) by (simp_all add: rec0_def Record_Size_def wal_sizes)
  show ?thesis using wal_round_trips [OF r f, of "[1, 2]" "[3]" "[0]" 0 2 0] n by simp
qed

text \<open>
  A \<open>Sync\<close> that has become the leader and waits for its batch when the log is abandoned returns no error,
  although the records it was called for were dropped.
\<close>

lemma abandoned_leader:
  assumes "l_flushing l" "\<not> l_closed l" "l_pending l = None"
  shows "snd (flushLeader (Abandon l)) = Inr () \<and> l_buf (fst (flushLeader (Abandon l))) = [] \<and>
    fs_inodes (l_fs (fst (flushLeader (Abandon l)))) = fs_inodes (l_fs l)"
proof -
  have "l_pending (Abandon l) = None" "l_buf (Abandon l) = []" "l_seg (Abandon l) = None" "fs_inodes (l_fs (Abandon l)) = fs_inodes (l_fs l)"
    using assms quiet_close [of "l_fs l"] by (auto simp: Abandon_def Let_def quiet_def)
  then show ?thesis by (simp add: flushLeader_def flushLocked_def finishPendingLocked_def flush_loop.simps)
qed

end
