(* ===== verification/GraphKeys.thy ===== *)
theory GraphKeys
  imports RecordCodec Storage
begin

text \<open>
  Keys and records of the graph store: \<^verbatim>\<open>storage/graphstore/keys.go\<close>, \<^verbatim>\<open>record.go\<close> and the error
  values of \<^verbatim>\<open>error.go\<close>, with the prefix scan of \<^verbatim>\<open>store.go\<close>. Functions that use a \<^verbatim>\<open>storage.Tx\<close> take
  the dictionary of its methods, the state of the engine and the handle of the transaction, and
  return the state they leave. The reader \<^verbatim>\<open>rbuf\<close> is the bytes it has left. A name is interned under
  a catalog record and a reverse record, and a counter gives the next id.
\<close>

section \<open>Errors\<close>

definition corrupt :: "string \<Rightarrow> sterr" where
  "corrupt what = ErrText (''graphstore: corrupt '' @ what)"

fun IsNotFound :: "sterr \<Rightarrow> bool" where
  "IsNotFound (GraphNotFound what i) = True"
| "IsNotFound (GErr code m (Some e)) = IsNotFound e"
| "IsNotFound e = False"

section \<open>Keys\<close>

definition catProp :: byte where "catProp = 1"
definition catLabel :: byte where "catLabel = 2"
definition catEdgeType :: byte where "catEdgeType = 3"
definition catNextNode :: byte where "catNextNode = 4"
definition catNextEdge :: byte where "catNextEdge = 5"
definition catNextProp :: byte where "catNextProp = 6"
definition catNextLabel :: byte where "catNextLabel = 7"
definition catNextType :: byte where "catNextType = 8"
definition catPropRev :: byte where "catPropRev = 0x81"
definition catLabelRev :: byte where "catLabelRev = 0x82"
definition catTypeRev :: byte where "catTypeRev = 0x83"
definition catUniqueDef :: byte where "catUniqueDef = 0x10"
definition catUniqueIdx :: byte where "catUniqueIdx = 0x11"

lemmas cat_defs = catProp_def catLabel_def catEdgeType_def catNextNode_def catNextEdge_def catNextProp_def catNextLabel_def
  catNextType_def catPropRev_def catLabelRev_def catTypeRev_def catUniqueDef_def catUniqueIdx_def

definition idKey :: "uint64 \<Rightarrow> bytes" where
  "idKey i = be_put 8 (unat i)"

definition outKey :: "uint64 \<Rightarrow> uint32 \<Rightarrow> uint64 \<Rightarrow> uint64 \<Rightarrow> bytes" where
  "outKey from1 typeID to edgeID = be_put 8 (unat from1) @ be_put 4 (unat typeID) @ be_put 8 (unat to) @ be_put 8 (unat edgeID)"

definition inKey :: "uint64 \<Rightarrow> uint32 \<Rightarrow> uint64 \<Rightarrow> uint64 \<Rightarrow> bytes" where
  "inKey to typeID from1 edgeID = be_put 8 (unat to) @ be_put 4 (unat typeID) @ be_put 8 (unat from1) @ be_put 8 (unat edgeID)"

definition labelKey :: "uint32 \<Rightarrow> uint64 \<Rightarrow> bytes" where
  "labelKey labelID nodeID = be_put 4 (unat labelID) @ be_put 8 (unat nodeID)"

definition typeKey :: "uint32 \<Rightarrow> uint64 \<Rightarrow> bytes" where
  "typeKey typeID edgeID = be_put 4 (unat typeID) @ be_put 8 (unat edgeID)"

definition propIndexPrefix :: "uint32 \<Rightarrow> val \<Rightarrow> bytes" where
  "propIndexPrefix propID v = be_put 4 (unat propID) @ EncodeKey v"

definition propIndexKey :: "uint32 \<Rightarrow> val \<Rightarrow> uint64 \<Rightarrow> bytes" where
  "propIndexKey propID v nodeID = propIndexPrefix propID v @ be_put 8 (unat nodeID)"

definition catalogKey :: "byte \<Rightarrow> gostring \<Rightarrow> bytes" where
  "catalogKey kind1 name = [kind1] @ putUvarint (length name) @ name"

definition revKey :: "byte \<Rightarrow> uint32 \<Rightarrow> bytes" where
  "revKey kind1 i = kind1 # be_put 4 (unat i)"

definition parseAdj :: "bytes \<Rightarrow> (uint64 \<times> uint32 \<times> uint64 \<times> uint64) option" where
  "parseAdj k =
     (if length k \<noteq> 28 then None
      else Some (word_of_nat (be_get (take 8 k)), word_of_nat (be_get (take 4 (drop 8 k))),
                 word_of_nat (be_get (take 8 (drop 12 k))), word_of_nat (be_get (take 8 (drop 20 k)))))"

section \<open>Counters and names\<close>

definition readCounter :: "('e, 'c) engine_ops \<Rightarrow> 'e \<Rightarrow> nat \<Rightarrow> byte \<Rightarrow> 'e \<times> uint64 sresult" where
  "readCounter ops e h kind1 = (case ops_Get ops e h KSCatalog (catalogKey kind1 []) of
     (e, Inl err) \<Rightarrow> (e, if isNotFound err then Inr 1 else Inl err)
   | (e, Inr raw) \<Rightarrow> (e, if length raw \<noteq> 8 then Inl (corrupt ''counter'') else Inr (word_of_nat (be_get raw))))"

definition writeCounter :: "('e, 'c) engine_ops \<Rightarrow> 'e \<Rightarrow> nat \<Rightarrow> byte \<Rightarrow> uint64 \<Rightarrow> 'e \<times> unit sresult" where
  "writeCounter ops e h kind1 next1 = ops_Put ops e h KSCatalog (catalogKey kind1 []) (be_put 8 (unat next1))"

definition alloc :: "('e, 'c) engine_ops \<Rightarrow> 'e \<Rightarrow> nat \<Rightarrow> byte \<Rightarrow> 'e \<times> uint64 sresult" where
  "alloc ops e h kind1 =
     sbind (readCounter ops e h kind1) (\<lambda>e next1.
     sbind (writeCounter ops e h kind1 (next1 + 1)) (\<lambda>e _. (e, Inr next1)))"

definition putName :: "('e, 'c) engine_ops \<Rightarrow> 'e \<Rightarrow> nat \<Rightarrow> byte \<Rightarrow> byte \<Rightarrow> gostring \<Rightarrow> uint32 \<Rightarrow> 'e \<times> unit sresult" where
  "putName ops e h kind1 rev1 name i =
     sbind (ops_Put ops e h KSCatalog (catalogKey kind1 name) (be_put 4 (unat i))) (\<lambda>e _.
       ops_Put ops e h KSCatalog (revKey rev1 i) name)"

definition intern :: "('e, 'c) engine_ops \<Rightarrow> 'e \<Rightarrow> nat \<Rightarrow> byte \<Rightarrow> byte \<Rightarrow> byte \<Rightarrow> gostring \<Rightarrow> 'e \<times> uint32 sresult" where
  "intern ops e h kind1 rev1 counter name = (case ops_Get ops e h KSCatalog (catalogKey kind1 name) of
     (e, Inr raw) \<Rightarrow> (e, if length raw \<noteq> 4 then Inl (corrupt ''catalog id'') else Inr (word_of_nat (be_get raw)))
   | (e, Inl err) \<Rightarrow>
       if \<not> isNotFound err then (e, Inl err)
       else sbind (readCounter ops e h counter) (\<lambda>e next1.
         let next1 = (if next1 = 0 then 1 else next1) in
         if unat next1 > 2 ^ 32 - 1 then (e, Inl (corrupt ''catalog id space''))
         else
           let i = (ucast next1 :: uint32) in
           sbind (putName ops e h kind1 rev1 name i) (\<lambda>e _.
           sbind (writeCounter ops e h counter (next1 + 1)) (\<lambda>e _. (e, Inr i)))))"

definition catName :: "('e, 'c) engine_ops \<Rightarrow> 'e \<Rightarrow> nat \<Rightarrow> byte \<Rightarrow> uint32 \<Rightarrow> 'e \<times> gostring option sresult" where
  "catName ops e h rev1 i =
     (if i = 0 then (e, Inr None)
      else case ops_Get ops e h KSCatalog (revKey rev1 i) of
        (e, Inl err) \<Rightarrow> (e, if isNotFound err then Inr None else Inl err)
      | (e, Inr raw) \<Rightarrow> (e, Inr (Some raw)))"

definition lookupName :: "('e, 'c) engine_ops \<Rightarrow> 'e \<Rightarrow> nat \<Rightarrow> byte \<Rightarrow> gostring \<Rightarrow> 'e \<times> uint32 option sresult" where
  "lookupName ops e h kind1 name = (case ops_Get ops e h KSCatalog (catalogKey kind1 name) of
     (e, Inl err) \<Rightarrow> (e, if isNotFound err then Inr None else Inl err)
   | (e, Inr raw) \<Rightarrow> (e, if length raw \<noteq> 4 then Inl (corrupt ''catalog id'') else Inr (Some (word_of_nat (be_get raw)))))"

section \<open>Scanning a prefix\<close>

definition hasPrefix :: "bytes \<Rightarrow> bytes \<Rightarrow> bool" where
  "hasPrefix k p \<longleftrightarrow> take (length p) k = p"

text \<open>The loops over a cursor end within \<open>ops_bound + 1\<close> rounds. The second, deferred \<^verbatim>\<open>Close\<close> has no effect.\<close>

definition closeCursor :: "('e, 'c) engine_ops \<Rightarrow> 'e \<Rightarrow> 'c \<Rightarrow> 'a \<Rightarrow> 'e \<times> 'a sresult" where
  "closeCursor ops e c x = (case ops_CursorClose ops e c of (e, c, None) \<Rightarrow> (e, Inr x) | (e, c, Some err) \<Rightarrow> (e, Inl err))"

fun scan_keys :: "('e, 'c) engine_ops \<Rightarrow> nat \<Rightarrow> 'e \<Rightarrow> 'c \<Rightarrow> (bytes \<Rightarrow> bool) \<Rightarrow> bytes list \<Rightarrow> 'e \<times> bytes list sresult" where
  "scan_keys ops 0 e c keep out = (e, Inl ErrFuel)"
| "scan_keys ops (Suc n) e c keep out =
     (let k = ops_Key ops e c in
      if \<not> keep k then closeCursor ops e c out
      else case ops_Next ops e c of
        (e, c, ok) \<Rightarrow> if \<not> ok then closeCursor ops e c (out @ [k]) else scan_keys ops n e c keep (out @ [k]))"

definition scanPrefix :: "('e, 'c) engine_ops \<Rightarrow> 'e \<Rightarrow> nat \<Rightarrow> keyspace \<Rightarrow> bytes option \<Rightarrow> 'e \<times> bytes list sresult" where
  "scanPrefix ops e h ks pre =
     sbind (ops_Cursor ops e h ks) (\<lambda>e c.
       case ops_Seek ops e c pre of
         (e, c, ok) \<Rightarrow>
           if \<not> ok then closeCursor ops e c []
           else scan_keys ops (ops_bound ops e h + 1) e c (\<lambda>k. case pre of None \<Rightarrow> True | Some p \<Rightarrow> hasPrefix k p) [])"

section \<open>Records\<close>

record Prop =
  p_ID :: uint32
  p_Name :: gostring
  p_Value :: val

definition nodeRecVersion :: byte where "nodeRecVersion = 1"

fun appendPropList :: "bytes \<Rightarrow> Prop list \<Rightarrow> bytes" where
  "appendPropList w [] = w"
| "appendPropList w (p # ps) =
     (let w = w @ putUvarint (unat (p_ID p)); rec1 = EncodeRecord (p_Value p) in
      appendPropList (w @ putUvarint (length rec1) @ rec1) ps)"

definition appendProps :: "bytes \<Rightarrow> Prop list \<Rightarrow> bytes" where
  "appendProps w props = appendPropList (w @ putUvarint (length props)) props"

definition encodeNode :: "uint32 list \<Rightarrow> Prop list \<Rightarrow> bytes" where
  "encodeNode labelIDs props =
     appendProps (foldl (\<lambda>w i. w @ putUvarint (unat i)) ([nodeRecVersion] @ putUvarint (length labelIDs)) labelIDs) props"

definition encodeEdge :: "uint64 \<Rightarrow> uint64 \<Rightarrow> uint32 \<Rightarrow> Prop list \<Rightarrow> bytes" where
  "encodeEdge from1 to typeID props =
     appendProps ([nodeRecVersion] @ putUvarint (unat from1) @ putUvarint (unat to) @ putUvarint (unat typeID)) props"

definition rbuf_byte :: "bytes \<Rightarrow> (byte \<times> bytes) sresult" where
  "rbuf_byte r = (case r of [] \<Rightarrow> Inl (corrupt ''truncated record'') | c # r \<Rightarrow> Inr (c, r))"

definition rbuf_uvar :: "bytes \<Rightarrow> (nat \<times> bytes) sresult" where
  "rbuf_uvar r = (case Uvarint r of (v, n) \<Rightarrow> if n \<le> 0 then Inl (corrupt ''truncated varint'') else Inr (v, drop (nat n) r))"

definition sizeofUint32 :: nat where "sizeofUint32 = 4"
definition sizeofProp :: nat where "sizeofProp = 208"

definition gs_make :: "nat \<Rightarrow> nat \<Rightarrow> unit sresult" where
  "gs_make elemsize n = (case makeslice elemsize n of Inl (Panic m) \<Rightarrow> Inl (ErrPanic m) | _ \<Rightarrow> Inr ())"

fun rbuf_labels :: "nat \<Rightarrow> bytes \<Rightarrow> uint32 list \<Rightarrow> (uint32 list \<times> bytes) sresult" where
  "rbuf_labels 0 r labels = Inr (labels, r)"
| "rbuf_labels (Suc n) r labels =
     bind_res (rbuf_uvar r) (\<lambda>(i, r).
       if i > 2 ^ 32 - 1 then Inl (corrupt ''label id'') else rbuf_labels n r (labels @ [word_of_nat i]))"

fun rbuf_props_loop :: "nat \<Rightarrow> bytes \<Rightarrow> Prop list \<Rightarrow> (Prop list \<times> bytes) sresult" where
  "rbuf_props_loop 0 r out = Inr (out, r)"
| "rbuf_props_loop (Suc n) r out =
     bind_res (rbuf_uvar r) (\<lambda>(i, r).
       if i > 2 ^ 32 - 1 then Inl (corrupt ''property id'')
       else bind_res (rbuf_uvar r) (\<lambda>(ln, r).
         if length r < ln then Inl (corrupt ''property value'')
         else case DecodeRecord (take ln r) of
           Inl (Panic m) \<Rightarrow> Inl (ErrPanic m)
         | Inl err \<Rightarrow> Inl (corrupt ''property value'')
         | Inr v \<Rightarrow> rbuf_props_loop n (drop ln r) (out @ [\<lparr>p_ID = word_of_nat i, p_Name = [], p_Value = v\<rparr>])))"

definition rbuf_props :: "bytes \<Rightarrow> (Prop list \<times> bytes) sresult" where
  "rbuf_props r =
     bind_res (rbuf_uvar r) (\<lambda>(n, r). bind_res (gs_make sizeofProp n) (\<lambda>_. rbuf_props_loop n r []))"

definition decodeNode :: "bytes \<Rightarrow> (uint32 list \<times> Prop list) sresult" where
  "decodeNode b =
     bind_res (rbuf_byte b) (\<lambda>(ver, r).
       if ver \<noteq> nodeRecVersion then Inl (corrupt ''node record version'')
       else bind_res (rbuf_uvar r) (\<lambda>(n, r).
         bind_res (gs_make sizeofUint32 n) (\<lambda>_.
         bind_res (rbuf_labels n r []) (\<lambda>(labels, r).
         bind_res (rbuf_props r) (\<lambda>(props, r).
           if length r \<noteq> 0 then Inl (corrupt ''node record'') else Inr (labels, props))))))"

record decodedEdge =
  de_From :: uint64
  de_To :: uint64
  de_TypeID :: uint32
  de_Props :: "Prop list"

definition decodeEdge :: "bytes \<Rightarrow> decodedEdge sresult" where
  "decodeEdge b =
     bind_res (rbuf_byte b) (\<lambda>(ver, r).
       if ver \<noteq> nodeRecVersion then Inl (corrupt ''edge record version'')
       else bind_res (rbuf_uvar r) (\<lambda>(from1, r).
         bind_res (rbuf_uvar r) (\<lambda>(to, r).
         bind_res (rbuf_uvar r) (\<lambda>(typeID, r).
           if typeID > 2 ^ 32 - 1 then Inl (corrupt ''edge type id'')
           else bind_res (rbuf_props r) (\<lambda>(props, r).
             if length r \<noteq> 0 then Inl (corrupt ''edge record'')
             else Inr \<lparr>de_From = word_of_nat from1, de_To = word_of_nat to, de_TypeID = word_of_nat typeID, de_Props = props\<rparr>)))))"

end
