(* ===== verification/CatalogStore.thy ===== *)
theory CatalogStore
  imports GraphKeys
begin

text \<open>
  Declared schema objects in the catalog keyspace: \<^verbatim>\<open>internal/catalog/catalog.go\<close>, \<^verbatim>\<open>encode.go\<close>,
  \<^verbatim>\<open>scan.go\<close> and \<^verbatim>\<open>lock.go\<close>. Each index and constraint is a record under its name; statistics, the format,
  the generation and two counters are records under the empty name. Index and constraint ids, entities
  and states are the small integers the code has.
\<close>

section \<open>Schema objects\<close>

definition cat_FormatVersion :: uint32 where "cat_FormatVersion = 1"

definition KindIndex :: byte where "KindIndex = 0x20"
definition KindConstraint :: byte where "KindConstraint = 0x21"
definition KindStats :: byte where "KindStats = 0x22"
definition KindFormat :: byte where "KindFormat = 0x23"
definition KindNextIndex :: byte where "KindNextIndex = 0x24"
definition KindWriteCount :: byte where "KindWriteCount = 0x25"
definition KindGeneration :: byte where "KindGeneration = 0x26"
definition KindUniqueLock :: byte where "KindUniqueLock = 0x27"

lemmas cat_kind_defs = KindIndex_def KindConstraint_def KindStats_def KindFormat_def KindNextIndex_def KindWriteCount_def
  KindGeneration_def KindUniqueLock_def

definition NodeEntity :: byte where "NodeEntity = 1"
definition EdgeEntity :: byte where "EdgeEntity = 2"
definition Online :: byte where "Online = 1"
definition Populating :: byte where "Populating = 2"
definition Failed :: byte where "Failed = 3"
definition UniqueConstraint :: byte where "UniqueConstraint = 1"
definition ExistsConstraint :: byte where "ExistsConstraint = 2"
definition TypeConstraint :: byte where "TypeConstraint = 3"

definition Entity_String :: "byte \<Rightarrow> string" where
  "Entity_String en = (if en = EdgeEntity then ''edge'' else ''node'')"

definition State_String :: "byte \<Rightarrow> string" where
  "State_String s = (if s = Populating then ''POPULATING'' else if s = Failed then ''FAILED'' else ''ONLINE'')"

definition ConstraintKind_String :: "byte \<Rightarrow> string" where
  "ConstraintKind_String k = (if k = ExistsConstraint then ''exists'' else if k = TypeConstraint then ''type'' else ''unique'')"

record cat_Index =
  ix_ID :: uint32
  ix_Name :: gostring
  ix_Entity :: byte
  ix_Label :: gostring
  ix_Props :: "gostring list"
  ix_Unique :: bool
  ix_State :: byte

record cat_Constraint =
  co_Name :: gostring
  co_Kind :: byte
  co_Entity :: byte
  co_Label :: gostring
  co_Prop :: gostring
  co_TypeName :: gostring
  co_IndexName :: gostring

record Bucket =
  bk_Upper :: bytes
  bk_Count :: int64
  bk_NDV :: int64

record Histogram =
  hi_Count :: int64
  hi_NDV :: int64
  hi_Nulls :: int64
  hi_Min :: bytes
  hi_Max :: bytes
  hi_Buckets :: "Bucket list"

record cat_Stats =
  cs_Nodes :: int64
  cs_Edges :: int64
  cs_Labels :: "(gostring, int64) gomap"
  cs_EdgeTypes :: "(gostring, int64) gomap"
  cs_Props :: "(gostring, Histogram) gomap"

record Schema =
  sc_Format :: uint32
  sc_Generation :: uint64
  sc_Indexes :: "cat_Index list"
  sc_Constraints :: "cat_Constraint list"
  sc_Stats :: cat_Stats

definition IndexByName :: "Schema option \<Rightarrow> gostring \<Rightarrow> cat_Index option" where
  "IndexByName s name = (case s of None \<Rightarrow> None | Some s \<Rightarrow> List.find (\<lambda>ix. ix_Name ix = name) (sc_Indexes s))"

definition ConstraintByName :: "Schema option \<Rightarrow> gostring \<Rightarrow> cat_Constraint option" where
  "ConstraintByName s name = (case s of None \<Rightarrow> None | Some s \<Rightarrow> List.find (\<lambda>c. co_Name c = name) (sc_Constraints s))"

definition OnlineIndexes :: "Schema option \<Rightarrow> byte \<Rightarrow> gostring \<Rightarrow> cat_Index list" where
  "OnlineIndexes s entity label = (case s of None \<Rightarrow> [] | Some s \<Rightarrow>
     filter (\<lambda>ix. \<not> (ix_State ix \<noteq> Online \<or> ix_Entity ix \<noteq> entity) \<and> \<not> (ix_Label ix \<noteq> [] \<and> ix_Label ix \<noteq> label)) (sc_Indexes s))"

definition PropKey :: "bool \<Rightarrow> gostring \<Rightarrow> gostring \<Rightarrow> gostring" where
  "PropKey node label prop = (if node then [110, 58] else [101, 58]) @ label @ [46] @ prop"

section \<open>Encoding\<close>

definition appendString :: "bytes \<Rightarrow> gostring \<Rightarrow> bytes" where
  "appendString buf s = buf @ putUvarint (length s) @ s"

definition takeString :: "bytes \<Rightarrow> (gostring \<times> bytes) sresult" where
  "takeString b = (case Uvarint b of (n, r) \<Rightarrow>
     if r \<le> 0 \<or> length b - nat r < n then Inl (ErrText ''catalog string'')
     else Inr (take n (drop (nat r) b), drop (nat r + n) b))"

definition cat_appendBytes :: "bytes \<Rightarrow> bytes \<Rightarrow> bytes" where
  "cat_appendBytes buf s = buf @ putUvarint (length s) @ s"

definition takeBytes :: "bytes \<Rightarrow> (bytes \<times> bytes) sresult" where
  "takeBytes b = (case Uvarint b of (n, r) \<Rightarrow>
     if r \<le> 0 \<or> length b - nat r < n then Inl (ErrText ''catalog bytes'')
     else Inr (take n (drop (nat r) b), drop (nat r + n) b))"

definition cat_appendU64 :: "bytes \<Rightarrow> uint64 \<Rightarrow> bytes" where
  "cat_appendU64 buf n = buf @ be_put 8 (unat n)"

definition takeU64 :: "bytes \<Rightarrow> (uint64 \<times> bytes) sresult" where
  "takeU64 b = (if length b < 8 then Inl (ErrText ''catalog u64'') else Inr (word_of_nat (be_get (take 8 b)), drop 8 b))"

definition appendI64 :: "bytes \<Rightarrow> int64 \<Rightarrow> bytes" where
  "appendI64 buf n = cat_appendU64 buf n"

definition takeI64 :: "bytes \<Rightarrow> (int64 \<times> bytes) sresult" where
  "takeI64 b = takeU64 b"

definition takeCount :: "string \<Rightarrow> bytes \<Rightarrow> (nat \<times> bytes) sresult" where
  "takeCount msg b = (case Uvarint b of (n, r) \<Rightarrow> if r \<le> 0 then Inl (ErrText msg) else Inr (n, drop (nat r) b))"

definition encodeIndex :: "cat_Index \<Rightarrow> bytes" where
  "encodeIndex ix =
     (let buf = [1] @ be_put 4 (unat (ix_ID ix)) @ [ix_Entity ix, ix_State ix, if ix_Unique ix then 1 else 0];
          buf = appendString buf (ix_Label ix);
          buf = buf @ putUvarint (length (ix_Props ix)) in
      foldl appendString buf (ix_Props ix))"

fun takeStrings :: "nat \<Rightarrow> bytes \<Rightarrow> gostring list \<Rightarrow> (gostring list \<times> bytes) sresult" where
  "takeStrings 0 b out = Inr (out, b)"
| "takeStrings (Suc n) b out = bind_res (takeString b) (\<lambda>(p, b). takeStrings n b (out @ [p]))"

definition decodeIndex :: "gostring \<Rightarrow> bytes \<Rightarrow> cat_Index sresult" where
  "decodeIndex name raw =
     (if length raw < 8 \<or> raw ! 0 \<noteq> 1 then Inl (ErrText ''index record'')
      else bind_res (takeString (drop 8 raw)) (\<lambda>(label, rest).
        bind_res (takeCount ''index record'' rest) (\<lambda>(n, rest).
        bind_res (takeStrings n rest []) (\<lambda>(props, rest).
          Inr \<lparr>ix_ID = word_of_nat (be_get (take 4 (drop 1 raw))), ix_Name = name, ix_Entity = raw ! 5, ix_Label = label,
               ix_Props = props, ix_Unique = (raw ! 7 = 1), ix_State = raw ! 6\<rparr>))))"

definition encodeConstraint :: "cat_Constraint \<Rightarrow> bytes" where
  "encodeConstraint c =
     appendString (appendString (appendString (appendString [1, co_Kind c, co_Entity c] (co_Label c)) (co_Prop c)) (co_TypeName c)) (co_IndexName c)"

definition decodeConstraint :: "gostring \<Rightarrow> bytes \<Rightarrow> cat_Constraint sresult" where
  "decodeConstraint name raw =
     (if length raw < 3 \<or> raw ! 0 \<noteq> 1 then Inl (ErrText ''constraint record'')
      else bind_res (takeString (drop 3 raw)) (\<lambda>(label, rest).
        bind_res (takeString rest) (\<lambda>(prop, rest).
        bind_res (takeString rest) (\<lambda>(tn, rest).
        bind_res (takeString rest) (\<lambda>(ixn, rest).
          Inr \<lparr>co_Name = name, co_Kind = raw ! 1, co_Entity = raw ! 2, co_Label = label, co_Prop = prop,
               co_TypeName = tn, co_IndexName = ixn\<rparr>)))))"

fun appendBuckets :: "bytes \<Rightarrow> Bucket list \<Rightarrow> bytes" where
  "appendBuckets buf [] = buf"
| "appendBuckets buf (b # bs) = appendBuckets (appendI64 (appendI64 (cat_appendBytes buf (bk_Upper b)) (bk_Count b)) (bk_NDV b)) bs"

definition appendHist :: "bytes \<Rightarrow> Histogram \<Rightarrow> bytes" where
  "appendHist buf h =
     (let buf = appendI64 (appendI64 (appendI64 buf (hi_Count h)) (hi_NDV h)) (hi_Nulls h);
          buf = cat_appendBytes (cat_appendBytes buf (hi_Min h)) (hi_Max h) in
      appendBuckets (buf @ putUvarint (length (hi_Buckets h))) (hi_Buckets h))"

fun takeBuckets :: "nat \<Rightarrow> bytes \<Rightarrow> Bucket list \<Rightarrow> (Bucket list \<times> bytes) sresult" where
  "takeBuckets 0 b out = Inr (out, b)"
| "takeBuckets (Suc n) b out =
     bind_res (takeBytes b) (\<lambda>(u, b). bind_res (takeI64 b) (\<lambda>(cnt, b). bind_res (takeI64 b) (\<lambda>(ndv, b).
       takeBuckets n b (out @ [\<lparr>bk_Upper = u, bk_Count = cnt, bk_NDV = ndv\<rparr>]))))"

definition takeHist :: "bytes \<Rightarrow> (Histogram \<times> bytes) sresult" where
  "takeHist b =
     bind_res (takeI64 b) (\<lambda>(cnt, b). bind_res (takeI64 b) (\<lambda>(ndv, b). bind_res (takeI64 b) (\<lambda>(nulls, b).
     bind_res (takeBytes b) (\<lambda>(mn, b). bind_res (takeBytes b) (\<lambda>(mx, b).
     bind_res (takeCount ''histogram'' b) (\<lambda>(n, b).
     bind_res (takeBuckets n b []) (\<lambda>(bks, b).
       Inr (\<lparr>hi_Count = cnt, hi_NDV = ndv, hi_Nulls = nulls, hi_Min = mn, hi_Max = mx, hi_Buckets = bks\<rparr>, b))))))))"

text \<open>The entries of a Go map in the order of its sorted keys.\<close>

definition sorted_entries :: "(gostring, 'v) gomap \<Rightarrow> (gostring \<times> 'v) list" where
  "sorted_entries m = map (\<lambda>k. (k, the (map_of m k))) (sort (map fst m))"

fun appendI64s :: "bytes \<Rightarrow> (gostring \<times> int64) list \<Rightarrow> bytes" where
  "appendI64s buf [] = buf"
| "appendI64s buf ((k, v) # m) = appendI64s (appendI64 (appendString buf k) v) m"

definition appendI64Map :: "bytes \<Rightarrow> (gostring, int64) gomap \<Rightarrow> bytes" where
  "appendI64Map buf m = appendI64s (buf @ putUvarint (length m)) (sorted_entries m)"

fun takeI64s :: "nat \<Rightarrow> bytes \<Rightarrow> (gostring, int64) gomap \<Rightarrow> ((gostring, int64) gomap \<times> bytes) sresult" where
  "takeI64s 0 b out = Inr (out, b)"
| "takeI64s (Suc n) b out =
     bind_res (takeString b) (\<lambda>(k, b). bind_res (takeI64 b) (\<lambda>(v, b). takeI64s n b (AList.update k v out)))"

definition takeI64Map :: "bytes \<Rightarrow> ((gostring, int64) gomap \<times> bytes) sresult" where
  "takeI64Map b = bind_res (takeCount ''stats map'' b) (\<lambda>(n, b). takeI64s n b [])"

fun appendHists :: "bytes \<Rightarrow> (gostring \<times> Histogram) list \<Rightarrow> bytes" where
  "appendHists buf [] = buf"
| "appendHists buf ((k, hg) # m) = appendHists (appendHist (appendString buf k) hg) m"

definition encodeStats :: "cat_Stats \<Rightarrow> bytes" where
  "encodeStats st =
     (let buf = cat_appendU64 (cat_appendU64 [1] (cs_Nodes st)) (cs_Edges st);
          buf = appendI64Map (appendI64Map buf (cs_Labels st)) (cs_EdgeTypes st) in
      appendHists (buf @ putUvarint (length (cs_Props st))) (sorted_entries (cs_Props st)))"

fun takeHists :: "nat \<Rightarrow> bytes \<Rightarrow> (gostring, Histogram) gomap \<Rightarrow> ((gostring, Histogram) gomap \<times> bytes) sresult" where
  "takeHists 0 b out = Inr (out, b)"
| "takeHists (Suc n) b out =
     bind_res (takeString b) (\<lambda>(k, b). bind_res (takeHist b) (\<lambda>(hg, b). takeHists n b (AList.update k hg out)))"

definition emptyStats :: cat_Stats where
  "emptyStats = \<lparr>cs_Nodes = 0, cs_Edges = 0, cs_Labels = [], cs_EdgeTypes = [], cs_Props = []\<rparr>"

definition decodeStats :: "bytes \<Rightarrow> cat_Stats sresult" where
  "decodeStats raw =
     (if length raw = 0 then Inr emptyStats
      else if raw ! 0 \<noteq> 1 then Inl (ErrText ''stats record'')
      else bind_res (takeU64 (drop 1 raw)) (\<lambda>(ns, rest).
        bind_res (takeU64 rest) (\<lambda>(es, rest).
        bind_res (takeI64Map rest) (\<lambda>(labels, rest).
        bind_res (takeI64Map rest) (\<lambda>(types, rest).
        bind_res (takeCount ''stats record'' rest) (\<lambda>(count1, rest).
        bind_res (takeHists count1 rest []) (\<lambda>(props, rest).
          Inr \<lparr>cs_Nodes = ns, cs_Edges = es, cs_Labels = labels, cs_EdgeTypes = types, cs_Props = props\<rparr>)))))))"

section \<open>Records in the store\<close>

definition cat_key :: "byte \<Rightarrow> gostring \<Rightarrow> bytes" where
  "cat_key kind1 name = [kind1] @ putUvarint (length name) @ name"

definition parseName :: "bytes \<Rightarrow> byte \<Rightarrow> gostring option" where
  "parseName k kind1 =
     (if length k = 0 \<or> k ! 0 \<noteq> kind1 then None
      else case Uvarint (drop 1 k) of (n, r) \<Rightarrow>
        if r \<le> 0 then None
        else let rest = drop (1 + nat r) k in if length rest \<noteq> n then None else Some rest)"

definition readU64 :: "('e, 'c) engine_ops \<Rightarrow> 'e \<Rightarrow> nat \<Rightarrow> byte \<Rightarrow> gostring \<Rightarrow> 'e \<times> uint64 sresult" where
  "readU64 ops e h kind1 name = (case ops_Get ops e h KSCatalog (cat_key kind1 name) of
     (e, Inl err) \<Rightarrow> (e, if isNotFound err then Inr 0 else Inl err)
   | (e, Inr raw) \<Rightarrow> (e, if length raw \<noteq> 8 then Inl (ErrText ''catalog counter'') else Inr (word_of_nat (be_get raw))))"

definition writeU64 :: "('e, 'c) engine_ops \<Rightarrow> 'e \<Rightarrow> nat \<Rightarrow> byte \<Rightarrow> gostring \<Rightarrow> uint64 \<Rightarrow> 'e \<times> unit sresult" where
  "writeU64 ops e h kind1 name n = ops_Put ops e h KSCatalog (cat_key kind1 name) (be_put 8 (unat n))"

definition readU32 :: "('e, 'c) engine_ops \<Rightarrow> 'e \<Rightarrow> nat \<Rightarrow> byte \<Rightarrow> gostring \<Rightarrow> 'e \<times> uint32 sresult" where
  "readU32 ops e h kind1 name = (case ops_Get ops e h KSCatalog (cat_key kind1 name) of
     (e, Inl err) \<Rightarrow> (e, if isNotFound err then Inr 0 else Inl err)
   | (e, Inr raw) \<Rightarrow> (e, if length raw \<noteq> 4 then Inl (ErrText ''catalog u32'') else Inr (word_of_nat (be_get raw))))"

definition writeU32 :: "('e, 'c) engine_ops \<Rightarrow> 'e \<Rightarrow> nat \<Rightarrow> byte \<Rightarrow> gostring \<Rightarrow> uint32 \<Rightarrow> 'e \<times> unit sresult" where
  "writeU32 ops e h kind1 name n = ops_Put ops e h KSCatalog (cat_key kind1 name) (be_put 4 (unat n))"

definition newerFormat :: sterr where
  "newerFormat = ErrText ''catalog format is newer than this binary''"

definition ensureFormat :: "('e, 'c) engine_ops \<Rightarrow> 'e \<Rightarrow> nat \<Rightarrow> 'e \<times> unit sresult" where
  "ensureFormat ops e h =
     sbind (readU32 ops e h KindFormat []) (\<lambda>e cur.
       if cur = 0 then writeU32 ops e h KindFormat [] cat_FormatVersion
       else if cur > cat_FormatVersion then (e, Inl newerFormat)
       else (e, Inr ()))"

definition bump :: "('e, 'c) engine_ops \<Rightarrow> 'e \<Rightarrow> nat \<Rightarrow> 'e \<times> unit sresult" where
  "bump ops e h = sbind (readU64 ops e h KindGeneration []) (\<lambda>e n. writeU64 ops e h KindGeneration [] (n + 1))"

definition scanKind :: "('e, 'c) engine_ops \<Rightarrow> 'e \<Rightarrow> nat \<Rightarrow> byte \<Rightarrow> 'e \<times> bytes list sresult" where
  "scanKind ops e h kind1 =
     sbind (ops_Cursor ops e h KSCatalog) (\<lambda>e c.
       case ops_Seek ops e c (Some [kind1]) of
         (e, c, ok) \<Rightarrow>
           if \<not> ok then closeCursor ops e c []
           else scan_keys ops (ops_bound ops e h + 1) e c (\<lambda>k. hasPrefix k [kind1]) [])"

fun listIndexes_loop :: "('e, 'c) engine_ops \<Rightarrow> 'e \<Rightarrow> nat \<Rightarrow> bytes list \<Rightarrow> cat_Index list \<Rightarrow> 'e \<times> cat_Index list sresult" where
  "listIndexes_loop ops e h [] out = (e, Inr out)"
| "listIndexes_loop ops e h (k # keys) out =
     (case parseName k KindIndex of
        None \<Rightarrow> listIndexes_loop ops e h keys out
      | Some name \<Rightarrow>
          sbind (ops_Get ops e h KSCatalog k) (\<lambda>e raw.
            case decodeIndex name raw of
              Inl err \<Rightarrow> (e, Inl err)
            | Inr ix \<Rightarrow> listIndexes_loop ops e h keys (out @ [ix])))"

definition listIndexes :: "('e, 'c) engine_ops \<Rightarrow> 'e \<Rightarrow> nat \<Rightarrow> 'e \<times> cat_Index list sresult" where
  "listIndexes ops e h =
     sbind (scanKind ops e h KindIndex) (\<lambda>e keys.
     sbind (listIndexes_loop ops e h keys []) (\<lambda>e out. (e, Inr (sort_key ix_Name out))))"

fun listConstraints_loop :: "('e, 'c) engine_ops \<Rightarrow> 'e \<Rightarrow> nat \<Rightarrow> bytes list \<Rightarrow> cat_Constraint list \<Rightarrow> 'e \<times> cat_Constraint list sresult" where
  "listConstraints_loop ops e h [] out = (e, Inr out)"
| "listConstraints_loop ops e h (k # keys) out =
     (case parseName k KindConstraint of
        None \<Rightarrow> listConstraints_loop ops e h keys out
      | Some name \<Rightarrow>
          sbind (ops_Get ops e h KSCatalog k) (\<lambda>e raw.
            case decodeConstraint name raw of
              Inl err \<Rightarrow> (e, Inl err)
            | Inr c \<Rightarrow> listConstraints_loop ops e h keys (out @ [c])))"

definition listConstraints :: "('e, 'c) engine_ops \<Rightarrow> 'e \<Rightarrow> nat \<Rightarrow> 'e \<times> cat_Constraint list sresult" where
  "listConstraints ops e h =
     sbind (scanKind ops e h KindConstraint) (\<lambda>e keys.
     sbind (listConstraints_loop ops e h keys []) (\<lambda>e out. (e, Inr (sort_key co_Name out))))"

definition loadStats :: "('e, 'c) engine_ops \<Rightarrow> 'e \<Rightarrow> nat \<Rightarrow> 'e \<times> cat_Stats sresult" where
  "loadStats ops e h = (case ops_Get ops e h KSCatalog (cat_key KindStats []) of
     (e, Inl err) \<Rightarrow> (e, if isNotFound err then Inr emptyStats else Inl err)
   | (e, Inr raw) \<Rightarrow> (e, decodeStats raw))"

definition cat_Load :: "('e, 'c) engine_ops \<Rightarrow> 'e \<Rightarrow> nat \<Rightarrow> 'e \<times> Schema sresult" where
  "cat_Load ops e h =
     sbind (readU32 ops e h KindFormat []) (\<lambda>e format.
       let format = (if format = 0 then cat_FormatVersion else format) in
       if format > cat_FormatVersion then (e, Inl newerFormat)
       else
         sbind (readU64 ops e h KindGeneration []) (\<lambda>e gen.
         sbind (listIndexes ops e h) (\<lambda>e indexes.
         sbind (listConstraints ops e h) (\<lambda>e cons.
         sbind (loadStats ops e h) (\<lambda>e st.
           (e, Inr \<lparr>sc_Format = format, sc_Generation = gen, sc_Indexes = indexes, sc_Constraints = cons, sc_Stats = st\<rparr>))))))"

definition Generation :: "('e, 'c) engine_ops \<Rightarrow> 'e \<Rightarrow> nat \<Rightarrow> 'e \<times> uint64 sresult" where
  "Generation ops e h = readU64 ops e h KindGeneration []"

section \<open>Changing the schema\<close>

definition PutIndex :: "('e, 'c) engine_ops \<Rightarrow> 'e \<Rightarrow> nat \<Rightarrow> cat_Index \<Rightarrow> 'e \<times> unit sresult" where
  "PutIndex ops e h ix =
     (if ix_Name ix = [] \<or> length (ix_Props ix) = 0 then (e, Inl (ErrText ''index needs a name and a property''))
      else
        let ix = (if ix_State ix = 0 then ix\<lparr>ix_State := Online\<rparr> else ix);
            ix = (if ix_Entity ix = 0 then ix\<lparr>ix_Entity := NodeEntity\<rparr> else ix) in
        sbind (ensureFormat ops e h) (\<lambda>e _.
        sbind (ops_Put ops e h KSCatalog (cat_key KindIndex (ix_Name ix)) (encodeIndex ix)) (\<lambda>e _. bump ops e h)))"

definition dropRecord :: "('e, 'c) engine_ops \<Rightarrow> 'e \<Rightarrow> nat \<Rightarrow> bytes \<Rightarrow> 'e \<times> bool sresult" where
  "dropRecord ops e h k = (case ops_Get ops e h KSCatalog k of
     (e, Inl err) \<Rightarrow> (e, if isNotFound err then Inr False else Inl err)
   | (e, Inr _) \<Rightarrow>
       sbind (ops_Delete ops e h KSCatalog k) (\<lambda>e _. sbind (bump ops e h) (\<lambda>e _. (e, Inr True))))"

definition DropIndex :: "('e, 'c) engine_ops \<Rightarrow> 'e \<Rightarrow> nat \<Rightarrow> gostring \<Rightarrow> 'e \<times> bool sresult" where
  "DropIndex ops e h name = dropRecord ops e h (cat_key KindIndex name)"

definition PutConstraint :: "('e, 'c) engine_ops \<Rightarrow> 'e \<Rightarrow> nat \<Rightarrow> cat_Constraint \<Rightarrow> 'e \<times> unit sresult" where
  "PutConstraint ops e h c =
     (if co_Name c = [] \<or> co_Prop c = [] then (e, Inl (ErrText ''constraint needs a name and a property''))
      else
        let c = (if co_Entity c = 0 then c\<lparr>co_Entity := NodeEntity\<rparr> else c);
            c = (if co_Kind c = 0 then c\<lparr>co_Kind := UniqueConstraint\<rparr> else c) in
        sbind (ensureFormat ops e h) (\<lambda>e _.
        sbind (ops_Put ops e h KSCatalog (cat_key KindConstraint (co_Name c)) (encodeConstraint c)) (\<lambda>e _. bump ops e h)))"

definition DropConstraint :: "('e, 'c) engine_ops \<Rightarrow> 'e \<Rightarrow> nat \<Rightarrow> gostring \<Rightarrow> 'e \<times> bool sresult" where
  "DropConstraint ops e h name = dropRecord ops e h (cat_key KindConstraint name)"

definition AllocIndexID :: "('e, 'c) engine_ops \<Rightarrow> 'e \<Rightarrow> nat \<Rightarrow> 'e \<times> uint32 sresult" where
  "AllocIndexID ops e h =
     sbind (readU64 ops e h KindNextIndex []) (\<lambda>e next1.
       let next1 = (if next1 = 0 then 1 else next1) in
       sbind (writeU64 ops e h KindNextIndex [] (next1 + 1)) (\<lambda>e _.
       sbind (bump ops e h) (\<lambda>e _. (e, Inr (ucast next1)))))"

definition PutStats :: "('e, 'c) engine_ops \<Rightarrow> 'e \<Rightarrow> nat \<Rightarrow> cat_Stats \<Rightarrow> 'e \<times> unit sresult" where
  "PutStats ops e h st =
     sbind (ensureFormat ops e h) (\<lambda>e _.
     sbind (ops_Put ops e h KSCatalog (cat_key KindStats []) (encodeStats st)) (\<lambda>e _.
     sbind (writeU64 ops e h KindWriteCount [] 0) (\<lambda>e _. bump ops e h)))"

definition AddWrites :: "('e, 'c) engine_ops \<Rightarrow> 'e \<Rightarrow> nat \<Rightarrow> uint64 \<Rightarrow> 'e \<times> unit sresult" where
  "AddWrites ops e h n =
     (if n = 0 then (e, Inr ())
      else sbind (readU64 ops e h KindWriteCount []) (\<lambda>e cur. writeU64 ops e h KindWriteCount [] (cur + n)))"

definition WriteCount :: "('e, 'c) engine_ops \<Rightarrow> 'e \<Rightarrow> nat \<Rightarrow> 'e \<times> uint64 sresult" where
  "WriteCount ops e h = readU64 ops e h KindWriteCount []"

definition UniqueLockKey :: "uint32 \<Rightarrow> val list \<Rightarrow> bytes" where
  "UniqueLockKey indexID vals = [KindUniqueLock] @ putUvarint (unat indexID) @ EncodeComposite vals"

definition UniqueLockPrefix :: bytes where "UniqueLockPrefix = [KindUniqueLock]"

end
