(* ===== verification/IndexStore.thy ===== *)
theory IndexStore
  imports GraphKeys
begin

text \<open>
  Declared secondary indexes, \<^verbatim>\<open>internal/index/index.go\<close>: entries of the property keyspace that start
  with a marker byte and the index id, followed by the key encoding of the indexed values and the id of
  the entity. Lookups walk the keys that share a prefix. Slicing a key that is too short panics, as in Go.
\<close>

definition Marker :: byte where "Marker = 0xFF"

definition IDPrefix :: "uint32 \<Rightarrow> bytes" where
  "IDPrefix i = Marker # be_put 4 (unat i)"

definition ix_Prefix :: "uint32 \<Rightarrow> val list \<Rightarrow> bytes" where
  "ix_Prefix i vals = (let p = IDPrefix i in if length vals = 0 then p else p @ EncodeComposite vals)"

definition ix_Encode :: "uint32 \<Rightarrow> val list \<Rightarrow> uint64 \<Rightarrow> bytes" where
  "ix_Encode i vals entity = ix_Prefix i vals @ be_put 8 (unat entity)"

definition StartsPrefix :: "uint32 \<Rightarrow> gostring \<Rightarrow> bytes" where
  "StartsPrefix i s =
     (let enc = EncodeKey (VString s);
          enc = (if length enc > 0 \<and> last enc = 0x00 then butlast enc else enc) in
      IDPrefix i @ enc)"

definition ix_Parse :: "bytes \<Rightarrow> (uint32 \<times> val list \<times> uint64) option" where
  "ix_Parse k =
     (if length k < 13 \<or> k ! 0 \<noteq> Marker then None
      else
        let i = word_of_nat (be_get (take 4 (drop 1 k)));
            entity = word_of_nat (be_get (drop (length k - 8) k));
            mid = drop 5 (take (length k - 8) k) in
        if length mid = 0 then Some (i, [], entity)
        else case DecodeComposite mid of Inl err \<Rightarrow> None | Inr vals \<Rightarrow> Some (i, vals, entity))"

definition Indexable :: "val list \<Rightarrow> bool" where
  "Indexable vals = (if length vals = 0 then False else list_all (\<lambda>v. \<not> (kind_of v = KindNull \<or> \<not> Storable v)) vals)"

definition ix_Put :: "('e, 'c) engine_ops \<Rightarrow> 'e \<Rightarrow> nat \<Rightarrow> uint32 \<Rightarrow> val list \<Rightarrow> uint64 \<Rightarrow> 'e \<times> unit sresult" where
  "ix_Put ops e h i vals entity =
     (if \<not> Indexable vals then (e, Inr ()) else ops_Put ops e h KSProp (ix_Encode i vals entity) [])"

definition ix_Delete :: "('e, 'c) engine_ops \<Rightarrow> 'e \<Rightarrow> nat \<Rightarrow> uint32 \<Rightarrow> val list \<Rightarrow> uint64 \<Rightarrow> 'e \<times> unit sresult" where
  "ix_Delete ops e h i vals entity =
     (if \<not> Indexable vals then (e, Inr ()) else ops_Delete ops e h KSProp (ix_Encode i vals entity))"

definition ix_walk :: "('e, 'c) engine_ops \<Rightarrow> 'e \<Rightarrow> nat \<Rightarrow> bytes \<Rightarrow> bytes \<Rightarrow> 'e \<times> bytes list sresult" where
  "ix_walk ops e h start keep =
     sbind (ops_Cursor ops e h KSProp) (\<lambda>e c.
       case ops_Seek ops e c (Some start) of
         (e, c, ok) \<Rightarrow>
           if \<not> ok then closeCursor ops e c []
           else scan_keys ops (ops_bound ops e h + 1) e c (\<lambda>k. hasPrefix k keep) [])"

definition entity_of :: "bytes \<Rightarrow> uint64" where
  "entity_of k = word_of_nat (be_get (drop (length k - 8) k))"

definition collectPrefix :: "('e, 'c) engine_ops \<Rightarrow> 'e \<Rightarrow> nat \<Rightarrow> bytes \<Rightarrow> 'e \<times> uint64 list sresult" where
  "collectPrefix ops e h pre =
     sbind (ix_walk ops e h pre pre) (\<lambda>e keys.
       (e, Inr (map entity_of (filter (\<lambda>k. \<not> (\<not> hasPrefix k pre \<or> length k < 13)) keys))))"

definition ix_Equal :: "('e, 'c) engine_ops \<Rightarrow> 'e \<Rightarrow> nat \<Rightarrow> uint32 \<Rightarrow> val list \<Rightarrow> 'e \<times> uint64 list sresult" where
  "ix_Equal ops e h i vals = (if \<not> Indexable vals then (e, Inr []) else collectPrefix ops e h (ix_Prefix i vals))"

definition PrefixScan :: "('e, 'c) engine_ops \<Rightarrow> 'e \<Rightarrow> nat \<Rightarrow> uint32 \<Rightarrow> val list \<Rightarrow> 'e \<times> uint64 list sresult" where
  "PrefixScan ops e h i vals =
     (if length vals = 0 then collectPrefix ops e h (IDPrefix i)
      else if \<not> Indexable vals then (e, Inr [])
      else collectPrefix ops e h (ix_Prefix i vals))"

definition comparePrefix :: "bytes \<Rightarrow> bytes \<Rightarrow> int" where
  "comparePrefix cp bound =
     (if length cp \<ge> length bound then bytesCompare (take (length bound) cp) bound else bytesCompare cp bound)"

text \<open>The bounds of a range are the encoded composites, \<open>None\<close> where the range is open on that side.\<close>

definition range_skips :: "bytes option \<Rightarrow> bytes option \<Rightarrow> bool \<Rightarrow> bool \<Rightarrow> bytes \<Rightarrow> bool" where
  "range_skips loComp hiComp loInc hiInc cp \<longleftrightarrow>
     (case loComp of None \<Rightarrow> False
      | Some b \<Rightarrow> let cmp = comparePrefix cp b in cmp < 0 \<or> cmp = 0 \<and> \<not> loInc) \<or>
     (case hiComp of None \<Rightarrow> False
      | Some b \<Rightarrow> let cmp = comparePrefix cp b in cmp > 0 \<or> cmp = 0 \<and> \<not> hiInc)"

fun range_loop :: "bytes option \<Rightarrow> bytes option \<Rightarrow> bool \<Rightarrow> bool \<Rightarrow> bytes list \<Rightarrow> uint64 list \<Rightarrow> uint64 list sresult" where
  "range_loop loComp hiComp loInc hiInc [] ids = Inr ids"
| "range_loop loComp hiComp loInc hiInc (k # keys) ids =
     (if length k < 13 then Inl (ErrPanic ''slice bounds out of range'')
      else
        let cp = drop 5 (take (length k - 8) k) in
        if range_skips loComp hiComp loInc hiInc cp then range_loop loComp hiComp loInc hiInc keys ids
        else range_loop loComp hiComp loInc hiInc keys (ids @ [entity_of k]))"

definition ix_Range :: "('e, 'c) engine_ops \<Rightarrow> 'e \<Rightarrow> nat \<Rightarrow> uint32 \<Rightarrow> val list \<Rightarrow> val list \<Rightarrow> bool \<Rightarrow> bool
    \<Rightarrow> 'e \<times> uint64 list sresult" where
  "ix_Range ops e h i lo hi loInc hiInc =
     (if length lo > 0 \<and> \<not> Indexable lo \<or> length hi > 0 \<and> \<not> Indexable hi then (e, Inr [])
      else
        let idPre = IDPrefix i;
            start = (if length lo > 0 then ix_Prefix i lo else idPre);
            loComp = (if length lo > 0 then Some (drop 5 start) else None);
            hiComp = (if length hi > 0 then Some (drop 5 (ix_Prefix i hi)) else None) in
        sbind (ix_walk ops e h start idPre) (\<lambda>e keys. (e, range_loop loComp hiComp loInc hiInc keys [])))"

definition StartsWith :: "('e, 'c) engine_ops \<Rightarrow> 'e \<Rightarrow> nat \<Rightarrow> uint32 \<Rightarrow> gostring \<Rightarrow> 'e \<times> uint64 list sresult" where
  "StartsWith ops e h i s = collectPrefix ops e h (StartsPrefix i s)"

text \<open>Deleting a list of keys, as \<^verbatim>\<open>Drop\<close> here and \<^verbatim>\<open>clearKeyspace\<close> of the graph store do.\<close>

fun deleteKeys :: "('e, 'c) engine_ops \<Rightarrow> 'e \<Rightarrow> nat \<Rightarrow> keyspace \<Rightarrow> bytes list \<Rightarrow> 'e \<times> unit sresult" where
  "deleteKeys ops e h ks [] = (e, Inr ())"
| "deleteKeys ops e h ks (k # keys) = sbind (ops_Delete ops e h ks k) (\<lambda>e _. deleteKeys ops e h ks keys)"

definition ix_Drop :: "('e, 'c) engine_ops \<Rightarrow> 'e \<Rightarrow> nat \<Rightarrow> uint32 \<Rightarrow> 'e \<times> unit sresult" where
  "ix_Drop ops e h i = sbind (ix_walk ops e h (IDPrefix i) (IDPrefix i)) (\<lambda>e keys. deleteKeys ops e h KSProp keys)"

end
