(* ===== verification/GraphStore.thy ===== *)
theory GraphStore
  imports CatalogStore IndexStore
begin

text \<open>
  The graph store, \<^verbatim>\<open>storage/graphstore/store.go\<close> and \<^verbatim>\<open>declared.go\<close>: nodes, edges, adjacency, labels and
  the property index over a \<^verbatim>\<open>storage.Tx\<close>. A Go map argument is an association list, visited in the order
  of the list. \<^verbatim>\<open>sort.Slice\<close> is \<open>sort_key\<close>: where two elements tie its order is one of the possible ones.
\<close>

section \<open>Data\<close>

record Node =
  n_ID :: uint64
  n_Labels :: "gostring list"
  n_Props :: "Prop list"

record Edge =
  e_ID :: uint64
  e_From :: uint64
  e_To :: uint64
  e_Label :: gostring
  e_Props :: "Prop list"

record graph_Stats =
  gs_Nodes :: nat
  gs_Edges :: nat
  gs_Labels :: "gostring list"

record graph_Snapshot =
  sn_Nodes :: "Node list"
  sn_Edges :: "Edge list"
  sn_NextNode :: uint64
  sn_NextEdge :: uint64
  sn_PropKeys :: "gostring list"

record edgeRec =
  er_Edge :: Edge
  er_TypeID :: uint32

definition dataKeyspaces :: "keyspace list" where
  "dataKeyspaces = [KSNode, KSEdge, KSOut, KSIn, KSLabel, KSEdgeType, KSProp, KSCatalog]"

definition notStorable :: "gostring \<Rightarrow> sterr" where
  "notStorable name = GraphInvalid ''property is not storable'' name"

section \<open>Labels and properties\<close>

fun dedup :: "'a list \<Rightarrow> 'a list \<Rightarrow> 'a list" where
  "dedup seen [] = []"
| "dedup seen (l # ls) = (if l \<in> set seen then dedup seen ls else l # dedup (l # seen) ls)"

definition normalizeLabels :: "gostring list \<Rightarrow> gostring list" where
  "normalizeLabels ls = (if length ls = 0 then [] else sort (dedup [] ls))"

definition propsByID :: "(uint32, Prop) gomap \<Rightarrow> Prop list" where
  "propsByID byID = sort_key p_ID (map snd byID)"

definition propsFromNames :: "(gostring, Prop) gomap \<Rightarrow> Prop list" where
  "propsFromNames byName = sort_key p_ID (map snd byName)"

definition internProp :: "('e, 'c) engine_ops \<Rightarrow> 'e \<Rightarrow> nat \<Rightarrow> gostring \<Rightarrow> 'e \<times> uint32 sresult" where
  "internProp ops e h name = intern ops e h catProp catPropRev catNextProp name"

definition PropName :: "('e, 'c) engine_ops \<Rightarrow> 'e \<Rightarrow> nat \<Rightarrow> uint32 \<Rightarrow> 'e \<times> gostring option sresult" where
  "PropName ops e h i = catName ops e h catPropRev i"

fun assignProps_loop :: "('e, 'c) engine_ops \<Rightarrow> 'e \<Rightarrow> nat \<Rightarrow> (gostring \<times> val) list \<Rightarrow> (uint32, Prop) gomap
    \<Rightarrow> 'e \<times> (uint32, Prop) gomap sresult" where
  "assignProps_loop ops e h [] byID = (e, Inr byID)"
| "assignProps_loop ops e h ((name, v) # props) byID =
     (if \<not> Storable v then (e, Inl (notStorable name))
      else sbind (internProp ops e h name) (\<lambda>e i.
        assignProps_loop ops e h props (AList.update i \<lparr>p_ID = i, p_Name = name, p_Value = v\<rparr> byID)))"

definition assignProps :: "('e, 'c) engine_ops \<Rightarrow> 'e \<Rightarrow> nat \<Rightarrow> (gostring, val) gomap \<Rightarrow> 'e \<times> Prop list sresult" where
  "assignProps ops e h props = sbind (assignProps_loop ops e h props []) (\<lambda>e byID. (e, Inr (propsByID byID)))"

fun bindProps_loop :: "('e, 'c) engine_ops \<Rightarrow> 'e \<Rightarrow> nat \<Rightarrow> Prop list \<Rightarrow> (uint32, Prop) gomap
    \<Rightarrow> 'e \<times> (uint32, Prop) gomap sresult" where
  "bindProps_loop ops e h [] byID = (e, Inr byID)"
| "bindProps_loop ops e h (p # props) byID =
     (if \<not> Storable (p_Value p) then (e, Inl (notStorable (p_Name p)))
      else sbind (catName ops e h catPropRev (p_ID p)) (\<lambda>e known.
        case known of
          Some known \<Rightarrow>
            let name = (if p_Name p = [] then known else p_Name p) in
            bindProps_loop ops e h props (AList.update (p_ID p) \<lparr>p_ID = p_ID p, p_Name = name, p_Value = p_Value p\<rparr> byID)
        | None \<Rightarrow>
            sbind (internProp ops e h (p_Name p)) (\<lambda>e i.
              bindProps_loop ops e h props (AList.update i \<lparr>p_ID = i, p_Name = p_Name p, p_Value = p_Value p\<rparr> byID))))"

definition bindProps :: "('e, 'c) engine_ops \<Rightarrow> 'e \<Rightarrow> nat \<Rightarrow> Prop list \<Rightarrow> 'e \<times> Prop list sresult" where
  "bindProps ops e h props = sbind (bindProps_loop ops e h props []) (\<lambda>e byID. (e, Inr (propsByID byID)))"

text \<open>The loop of \<^verbatim>\<open>UpdateNode\<close> and \<^verbatim>\<open>UpdateEdge\<close> that merges new properties over the old ones.\<close>

fun mergeProps_loop :: "('e, 'c) engine_ops \<Rightarrow> 'e \<Rightarrow> nat \<Rightarrow> (gostring \<times> val) list \<Rightarrow> (gostring, Prop) gomap
    \<Rightarrow> 'e \<times> (gostring, Prop) gomap sresult" where
  "mergeProps_loop ops e h [] byName = (e, Inr byName)"
| "mergeProps_loop ops e h ((name, v) # props) byName =
     (if \<not> Storable v then (e, Inl (notStorable name))
      else sbind (internProp ops e h name) (\<lambda>e i.
        mergeProps_loop ops e h props (AList.update name \<lparr>p_ID = i, p_Name = name, p_Value = v\<rparr> byName)))"

definition namedProps :: "Prop list \<Rightarrow> (gostring, Prop) gomap" where
  "namedProps ps = foldl (\<lambda>m p. AList.update (p_Name p) p m) [] ps"

definition dropProps :: "Prop list \<Rightarrow> gostring list \<Rightarrow> Prop list" where
  "dropProps props names = filter (\<lambda>p. p_Name p \<notin> set names) props"

fun internLabels_loop :: "('e, 'c) engine_ops \<Rightarrow> 'e \<Rightarrow> nat \<Rightarrow> gostring list \<Rightarrow> uint32 list \<Rightarrow> 'e \<times> uint32 list sresult" where
  "internLabels_loop ops e h [] out = (e, Inr out)"
| "internLabels_loop ops e h (l # ls) out =
     sbind (intern ops e h catLabel catLabelRev catNextLabel l) (\<lambda>e i. internLabels_loop ops e h ls (out @ [i]))"

definition internLabels :: "('e, 'c) engine_ops \<Rightarrow> 'e \<Rightarrow> nat \<Rightarrow> gostring list \<Rightarrow> 'e \<times> uint32 list sresult" where
  "internLabels ops e h labels = internLabels_loop ops e h labels []"

fun labelNames_loop :: "('e, 'c) engine_ops \<Rightarrow> 'e \<Rightarrow> nat \<Rightarrow> uint32 list \<Rightarrow> gostring list \<Rightarrow> 'e \<times> gostring list sresult" where
  "labelNames_loop ops e h [] out = (e, Inr out)"
| "labelNames_loop ops e h (i # ids) out =
     sbind (catName ops e h catLabelRev i) (\<lambda>e name.
       case name of
         None \<Rightarrow> (e, Inl (corrupt ''label''))
       | Some name \<Rightarrow>
           if name \<in> set out then labelNames_loop ops e h ids out
           else labelNames_loop ops e h ids (out @ [name]))"

definition labelNames :: "('e, 'c) engine_ops \<Rightarrow> 'e \<Rightarrow> nat \<Rightarrow> uint32 list \<Rightarrow> 'e \<times> gostring list sresult" where
  "labelNames ops e h ids = sbind (labelNames_loop ops e h ids []) (\<lambda>e out. (e, Inr (sort out)))"

fun fillPropNames_loop :: "('e, 'c) engine_ops \<Rightarrow> 'e \<Rightarrow> nat \<Rightarrow> Prop list \<Rightarrow> Prop list \<Rightarrow> 'e \<times> Prop list sresult" where
  "fillPropNames_loop ops e h [] done1 = (e, Inr done1)"
| "fillPropNames_loop ops e h (p # props) done1 =
     sbind (catName ops e h catPropRev (p_ID p)) (\<lambda>e name.
       case name of
         None \<Rightarrow> (e, Inl (corrupt ''property key''))
       | Some name \<Rightarrow> fillPropNames_loop ops e h props (done1 @ [p\<lparr>p_Name := name\<rparr>]))"

definition fillPropNames :: "('e, 'c) engine_ops \<Rightarrow> 'e \<Rightarrow> nat \<Rightarrow> Prop list \<Rightarrow> 'e \<times> Prop list sresult" where
  "fillPropNames ops e h props = fillPropNames_loop ops e h props []"

section \<open>Index maintenance\<close>

fun indexLabels_loop :: "('e, 'c) engine_ops \<Rightarrow> 'e \<Rightarrow> nat \<Rightarrow> uint64 \<Rightarrow> uint32 list \<Rightarrow> uint32 list \<Rightarrow> 'e \<times> unit sresult" where
  "indexLabels_loop ops e h nodeID [] seen = (e, Inr ())"
| "indexLabels_loop ops e h nodeID (i # ids) seen =
     (if i \<in> set seen then indexLabels_loop ops e h nodeID ids seen
      else sbind (ops_Put ops e h KSLabel (labelKey i nodeID) []) (\<lambda>e _. indexLabels_loop ops e h nodeID ids (i # seen)))"

definition indexLabels :: "('e, 'c) engine_ops \<Rightarrow> 'e \<Rightarrow> nat \<Rightarrow> uint64 \<Rightarrow> uint32 list \<Rightarrow> 'e \<times> unit sresult" where
  "indexLabels ops e h nodeID labelIDs = indexLabels_loop ops e h nodeID labelIDs []"

fun unindexLabels :: "('e, 'c) engine_ops \<Rightarrow> 'e \<Rightarrow> nat \<Rightarrow> uint64 \<Rightarrow> gostring list \<Rightarrow> 'e \<times> unit sresult" where
  "unindexLabels ops e h nodeID [] = (e, Inr ())"
| "unindexLabels ops e h nodeID (l # ls) =
     sbind (lookupName ops e h catLabel l) (\<lambda>e found.
       case found of
         None \<Rightarrow> unindexLabels ops e h nodeID ls
       | Some i \<Rightarrow> sbind (ops_Delete ops e h KSLabel (labelKey i nodeID)) (\<lambda>e _. unindexLabels ops e h nodeID ls))"

fun indexProps :: "('e, 'c) engine_ops \<Rightarrow> 'e \<Rightarrow> nat \<Rightarrow> uint64 \<Rightarrow> Prop list \<Rightarrow> 'e \<times> unit sresult" where
  "indexProps ops e h nodeID [] = (e, Inr ())"
| "indexProps ops e h nodeID (p # ps) =
     sbind (ops_Put ops e h KSProp (propIndexKey (p_ID p) (p_Value p) nodeID) []) (\<lambda>e _. indexProps ops e h nodeID ps)"

fun unindexProps :: "('e, 'c) engine_ops \<Rightarrow> 'e \<Rightarrow> nat \<Rightarrow> uint64 \<Rightarrow> Prop list \<Rightarrow> 'e \<times> unit sresult" where
  "unindexProps ops e h nodeID [] = (e, Inr ())"
| "unindexProps ops e h nodeID (p # ps) =
     sbind (ops_Delete ops e h KSProp (propIndexKey (p_ID p) (p_Value p) nodeID)) (\<lambda>e _. unindexProps ops e h nodeID ps)"

definition propMap :: "Prop list \<Rightarrow> (gostring, val) gomap" where
  "propMap ps = foldl (\<lambda>m p. AList.update (p_Name p) (p_Value p) m) [] ps"

fun indexValues :: "gostring list \<Rightarrow> (gostring, val) gomap \<Rightarrow> val list option" where
  "indexValues [] m = Some []"
| "indexValues (name # names) m = (case map_of m name of
     None \<Rightarrow> None
   | Some v \<Rightarrow>
       if kind_of v = KindNull \<or> \<not> Storable v then None
       else (case indexValues names m of None \<Rightarrow> None | Some vals \<Rightarrow> Some (v # vals)))"

definition hasLabel :: "gostring list \<Rightarrow> gostring \<Rightarrow> bool" where
  "hasLabel labels label \<longleftrightarrow> label \<in> set labels"

text \<open>The values under which the index holds an entity, \<open>None\<close> where the loop skips the index.\<close>

definition declaredValues :: "byte \<Rightarrow> gostring list \<Rightarrow> gostring \<Rightarrow> (gostring, val) gomap \<Rightarrow> cat_Index \<Rightarrow> val list option" where
  "declaredValues entity labels edgeType pm ix =
     (if ix_State ix \<noteq> Online \<and> ix_State ix \<noteq> Populating then None
      else if ix_Entity ix \<noteq> entity then None
      else if (if entity = NodeEntity then ix_Label ix \<noteq> [] \<and> \<not> hasLabel labels (ix_Label ix)
               else ix_Label ix \<noteq> [] \<and> ix_Label ix \<noteq> edgeType) then None
      else indexValues (ix_Props ix) pm)"

fun touchDeclared_loop :: "('e, 'c) engine_ops \<Rightarrow> 'e \<Rightarrow> nat \<Rightarrow> byte \<Rightarrow> gostring list \<Rightarrow> gostring \<Rightarrow> (gostring, val) gomap
    \<Rightarrow> uint64 \<Rightarrow> bool \<Rightarrow> cat_Index list \<Rightarrow> 'e \<times> unit sresult" where
  "touchDeclared_loop ops e h entity labels edgeType pm i add [] = (e, Inr ())"
| "touchDeclared_loop ops e h entity labels edgeType pm i add (ix # ixs) =
     (case declaredValues entity labels edgeType pm ix of
        None \<Rightarrow> touchDeclared_loop ops e h entity labels edgeType pm i add ixs
      | Some vals \<Rightarrow>
          sbind (if add then ix_Put ops e h (ix_ID ix) vals i else ix_Delete ops e h (ix_ID ix) vals i) (\<lambda>e _.
            touchDeclared_loop ops e h entity labels edgeType pm i add ixs))"

definition touchDeclared :: "('e, 'c) engine_ops \<Rightarrow> 'e \<Rightarrow> nat \<Rightarrow> byte \<Rightarrow> gostring list \<Rightarrow> gostring \<Rightarrow> Prop list
    \<Rightarrow> uint64 \<Rightarrow> bool \<Rightarrow> 'e \<times> unit sresult" where
  "touchDeclared ops e h entity labels edgeType props i add =
     sbind (cat_Load ops e h) (\<lambda>e sch.
       if length (sc_Indexes sch) = 0 then (e, Inr ())
       else touchDeclared_loop ops e h entity labels edgeType (propMap props) i add (sc_Indexes sch))"

definition indexDeclaredNode :: "('e, 'c) engine_ops \<Rightarrow> 'e \<Rightarrow> nat \<Rightarrow> Node \<Rightarrow> 'e \<times> unit sresult" where
  "indexDeclaredNode ops e h n = touchDeclared ops e h NodeEntity (n_Labels n) [] (n_Props n) (n_ID n) True"

definition unindexDeclaredNode :: "('e, 'c) engine_ops \<Rightarrow> 'e \<Rightarrow> nat \<Rightarrow> Node \<Rightarrow> 'e \<times> unit sresult" where
  "unindexDeclaredNode ops e h n = touchDeclared ops e h NodeEntity (n_Labels n) [] (n_Props n) (n_ID n) False"

definition indexDeclaredEdge :: "('e, 'c) engine_ops \<Rightarrow> 'e \<Rightarrow> nat \<Rightarrow> Edge \<Rightarrow> 'e \<times> unit sresult" where
  "indexDeclaredEdge ops e h ed = touchDeclared ops e h EdgeEntity [] (e_Label ed) (e_Props ed) (e_ID ed) True"

definition unindexDeclaredEdge :: "('e, 'c) engine_ops \<Rightarrow> 'e \<Rightarrow> nat \<Rightarrow> Edge \<Rightarrow> 'e \<times> unit sresult" where
  "unindexDeclaredEdge ops e h ed = touchDeclared ops e h EdgeEntity [] (e_Label ed) (e_Props ed) (e_ID ed) False"

definition bumpWrites :: "('e, 'c) engine_ops \<Rightarrow> 'e \<Rightarrow> nat \<Rightarrow> 'e \<times> unit sresult" where
  "bumpWrites ops e h = AddWrites ops e h 1"

section \<open>Writing and reading records\<close>

definition writeNode :: "('e, 'c) engine_ops \<Rightarrow> 'e \<Rightarrow> nat \<Rightarrow> Node \<Rightarrow> 'e \<times> unit sresult" where
  "writeNode ops e h n =
     sbind (internLabels ops e h (n_Labels n)) (\<lambda>e lids.
     sbind (ops_Put ops e h KSNode (idKey (n_ID n)) (encodeNode lids (n_Props n))) (\<lambda>e _.
     sbind (indexLabels ops e h (n_ID n) lids) (\<lambda>e _.
     sbind (indexProps ops e h (n_ID n) (n_Props n)) (\<lambda>e _.
     sbind (indexDeclaredNode ops e h n) (\<lambda>e _. bumpWrites ops e h)))))"

definition writeEdge :: "('e, 'c) engine_ops \<Rightarrow> 'e \<Rightarrow> nat \<Rightarrow> edgeRec \<Rightarrow> 'e \<times> unit sresult" where
  "writeEdge ops e h r =
     (let ed = er_Edge r; t = er_TypeID r in
      sbind (ops_Put ops e h KSEdge (idKey (e_ID ed)) (encodeEdge (e_From ed) (e_To ed) t (e_Props ed))) (\<lambda>e _.
      sbind (ops_Put ops e h KSOut (outKey (e_From ed) t (e_To ed) (e_ID ed)) []) (\<lambda>e _.
      sbind (ops_Put ops e h KSIn (inKey (e_To ed) t (e_From ed) (e_ID ed)) []) (\<lambda>e _.
      sbind (ops_Put ops e h KSEdgeType (typeKey t (e_ID ed)) []) (\<lambda>e _.
      sbind (indexDeclaredEdge ops e h ed) (\<lambda>e _. bumpWrites ops e h))))))"

definition GetNode :: "('e, 'c) engine_ops \<Rightarrow> 'e \<Rightarrow> nat \<Rightarrow> uint64 \<Rightarrow> 'e \<times> Node sresult" where
  "GetNode ops e h i = (case ops_Get ops e h KSNode (idKey i) of
     (e, Inl err) \<Rightarrow> (e, Inl (if isNotFound err then GraphNotFound ''node'' i else err))
   | (e, Inr raw) \<Rightarrow> (case decodeNode raw of
       Inl err \<Rightarrow> (e, Inl err)
     | Inr (labelIDs, props) \<Rightarrow>
         sbind (labelNames ops e h labelIDs) (\<lambda>e labels.
         sbind (fillPropNames ops e h props) (\<lambda>e ps.
           (e, Inr \<lparr>n_ID = i, n_Labels = labels, n_Props = ps\<rparr>)))))"

definition loadEdge :: "('e, 'c) engine_ops \<Rightarrow> 'e \<Rightarrow> nat \<Rightarrow> uint64 \<Rightarrow> 'e \<times> edgeRec sresult" where
  "loadEdge ops e h i = (case ops_Get ops e h KSEdge (idKey i) of
     (e, Inl err) \<Rightarrow> (e, Inl (if isNotFound err then GraphNotFound ''edge'' i else err))
   | (e, Inr raw) \<Rightarrow> (case decodeEdge raw of
       Inl err \<Rightarrow> (e, Inl err)
     | Inr dec \<Rightarrow>
         sbind (catName ops e h catTypeRev (de_TypeID dec)) (\<lambda>e name.
           case name of
             None \<Rightarrow> (e, Inl (corrupt ''edge type''))
           | Some name \<Rightarrow>
               sbind (fillPropNames ops e h (de_Props dec)) (\<lambda>e ps.
                 (e, Inr \<lparr>er_Edge = \<lparr>e_ID = i, e_From = de_From dec, e_To = de_To dec, e_Label = name, e_Props = ps\<rparr>,
                          er_TypeID = de_TypeID dec\<rparr>)))))"

definition GetEdge :: "('e, 'c) engine_ops \<Rightarrow> 'e \<Rightarrow> nat \<Rightarrow> uint64 \<Rightarrow> 'e \<times> Edge sresult" where
  "GetEdge ops e h i = sbind (loadEdge ops e h i) (\<lambda>e r. (e, Inr (er_Edge r)))"

definition incidentKeys :: "bytes list \<Rightarrow> uint64 list" where
  "incidentKeys keys = List.map_filter (\<lambda>k. case parseAdj k of None \<Rightarrow> None | Some (a, t, b, eid) \<Rightarrow> Some eid) keys"

definition incidentEdges :: "('e, 'c) engine_ops \<Rightarrow> 'e \<Rightarrow> nat \<Rightarrow> uint64 \<Rightarrow> 'e \<times> uint64 list sresult" where
  "incidentEdges ops e h nodeID =
     sbind (scanPrefix ops e h KSOut (Some (idKey nodeID))) (\<lambda>e outs.
     sbind (scanPrefix ops e h KSIn (Some (idKey nodeID))) (\<lambda>e ins.
       (e, Inr (incidentKeys outs @ incidentKeys ins))))"

definition Incident :: "('e, 'c) engine_ops \<Rightarrow> 'e \<Rightarrow> nat \<Rightarrow> uint64 \<Rightarrow> 'e \<times> uint64 list sresult" where
  "Incident ops e h nodeID = incidentEdges ops e h nodeID"

section \<open>Nodes\<close>

definition CreateNode :: "('e, 'c) engine_ops \<Rightarrow> 'e \<Rightarrow> nat \<Rightarrow> gostring list \<Rightarrow> (gostring, val) gomap \<Rightarrow> 'e \<times> Node sresult" where
  "CreateNode ops e h labels props =
     (let labels = normalizeLabels labels in
      sbind (assignProps ops e h props) (\<lambda>e ps.
      sbind (alloc ops e h catNextNode) (\<lambda>e i.
        let n = \<lparr>n_ID = i, n_Labels = labels, n_Props = ps\<rparr> in
        sbind (writeNode ops e h n) (\<lambda>e _. (e, Inr n)))))"

definition UpdateNode :: "('e, 'c) engine_ops \<Rightarrow> 'e \<Rightarrow> nat \<Rightarrow> uint64 \<Rightarrow> (gostring, val) gomap \<Rightarrow> 'e \<times> Node sresult" where
  "UpdateNode ops e h i props =
     sbind (GetNode ops e h i) (\<lambda>e n.
       if length props = 0 then (e, Inr n)
       else
         sbind (unindexProps ops e h i (n_Props n)) (\<lambda>e _.
         sbind (unindexDeclaredNode ops e h n) (\<lambda>e _.
         sbind (mergeProps_loop ops e h props (namedProps (n_Props n))) (\<lambda>e byName.
           let n = n\<lparr>n_Props := propsFromNames byName\<rparr> in
           sbind (writeNode ops e h n) (\<lambda>e _. (e, Inr n))))))"

definition rewriteNode :: "('e, 'c) engine_ops \<Rightarrow> 'e \<Rightarrow> nat \<Rightarrow> Node \<Rightarrow> gostring list \<Rightarrow> Prop list \<Rightarrow> 'e \<times> Node sresult" where
  "rewriteNode ops e h n labels props =
     sbind (unindexLabels ops e h (n_ID n) (n_Labels n)) (\<lambda>e _.
     sbind (unindexProps ops e h (n_ID n) (n_Props n)) (\<lambda>e _.
     sbind (unindexDeclaredNode ops e h n) (\<lambda>e _.
       let n = n\<lparr>n_Labels := normalizeLabels labels, n_Props := props\<rparr> in
       sbind (writeNode ops e h n) (\<lambda>e _. (e, Inr n)))))"

definition AddLabels :: "('e, 'c) engine_ops \<Rightarrow> 'e \<Rightarrow> nat \<Rightarrow> uint64 \<Rightarrow> gostring list \<Rightarrow> 'e \<times> Node sresult" where
  "AddLabels ops e h i add = sbind (GetNode ops e h i) (\<lambda>e n. rewriteNode ops e h n (n_Labels n @ add) (n_Props n))"

definition RemoveLabels :: "('e, 'c) engine_ops \<Rightarrow> 'e \<Rightarrow> nat \<Rightarrow> uint64 \<Rightarrow> gostring list \<Rightarrow> 'e \<times> Node sresult" where
  "RemoveLabels ops e h i gone =
     sbind (GetNode ops e h i) (\<lambda>e n. rewriteNode ops e h n (filter (\<lambda>l. l \<notin> set gone) (n_Labels n)) (n_Props n))"

definition ReplaceNodeProps :: "('e, 'c) engine_ops \<Rightarrow> 'e \<Rightarrow> nat \<Rightarrow> uint64 \<Rightarrow> (gostring, val) gomap \<Rightarrow> 'e \<times> Node sresult" where
  "ReplaceNodeProps ops e h i props =
     sbind (GetNode ops e h i) (\<lambda>e n.
     sbind (assignProps ops e h props) (\<lambda>e ps. rewriteNode ops e h n (n_Labels n) ps))"

definition DeleteNodeProps :: "('e, 'c) engine_ops \<Rightarrow> 'e \<Rightarrow> nat \<Rightarrow> uint64 \<Rightarrow> gostring list \<Rightarrow> 'e \<times> Node sresult" where
  "DeleteNodeProps ops e h i names =
     sbind (GetNode ops e h i) (\<lambda>e n. rewriteNode ops e h n (n_Labels n) (dropProps (n_Props n) names))"

section \<open>Edges\<close>

definition DeleteEdge :: "('e, 'c) engine_ops \<Rightarrow> 'e \<Rightarrow> nat \<Rightarrow> uint64 \<Rightarrow> 'e \<times> unit sresult" where
  "DeleteEdge ops e h i =
     sbind (loadEdge ops e h i) (\<lambda>e r.
       let ed = er_Edge r; t = er_TypeID r in
       sbind (unindexDeclaredEdge ops e h ed) (\<lambda>e _.
       sbind (bumpWrites ops e h) (\<lambda>e _.
       sbind (ops_Delete ops e h KSOut (outKey (e_From ed) t (e_To ed) (e_ID ed))) (\<lambda>e _.
       sbind (ops_Delete ops e h KSIn (inKey (e_To ed) t (e_From ed) (e_ID ed))) (\<lambda>e _.
       sbind (ops_Delete ops e h KSEdgeType (typeKey t (e_ID ed))) (\<lambda>e _.
         ops_Delete ops e h KSEdge (idKey (e_ID ed))))))))"

fun deleteEdges :: "('e, 'c) engine_ops \<Rightarrow> 'e \<Rightarrow> nat \<Rightarrow> uint64 list \<Rightarrow> uint64 list \<Rightarrow> 'e \<times> unit sresult" where
  "deleteEdges ops e h [] seen = (e, Inr ())"
| "deleteEdges ops e h (eid # eids) seen =
     (if eid \<in> set seen then deleteEdges ops e h eids seen
      else sbind (DeleteEdge ops e h eid) (\<lambda>e _. deleteEdges ops e h eids (eid # seen)))"

definition DeleteNode :: "('e, 'c) engine_ops \<Rightarrow> 'e \<Rightarrow> nat \<Rightarrow> uint64 \<Rightarrow> 'e \<times> unit sresult" where
  "DeleteNode ops e h i =
     sbind (GetNode ops e h i) (\<lambda>e n.
     sbind (incidentEdges ops e h i) (\<lambda>e eids.
     sbind (deleteEdges ops e h eids []) (\<lambda>e _.
     sbind (unindexLabels ops e h i (n_Labels n)) (\<lambda>e _.
     sbind (unindexProps ops e h i (n_Props n)) (\<lambda>e _.
     sbind (unindexDeclaredNode ops e h n) (\<lambda>e _.
     sbind (bumpWrites ops e h) (\<lambda>e _. ops_Delete ops e h KSNode (idKey i))))))))"

definition needNode :: "('e, 'c) engine_ops \<Rightarrow> 'e \<Rightarrow> nat \<Rightarrow> string \<Rightarrow> uint64 \<Rightarrow> 'e \<times> unit sresult" where
  "needNode ops e h what i = (case GetNode ops e h i of
     (e, Inl err) \<Rightarrow> (e, Inl (if IsNotFound err then GraphNotFound what i else err))
   | (e, Inr _) \<Rightarrow> (e, Inr ()))"

definition CreateEdge :: "('e, 'c) engine_ops \<Rightarrow> 'e \<Rightarrow> nat \<Rightarrow> uint64 \<Rightarrow> uint64 \<Rightarrow> gostring \<Rightarrow> (gostring, val) gomap
    \<Rightarrow> 'e \<times> Edge sresult" where
  "CreateEdge ops e h from1 to label props =
     sbind (needNode ops e h ''from node'' from1) (\<lambda>e _.
     sbind (needNode ops e h ''to node'' to) (\<lambda>e _.
     sbind (assignProps ops e h props) (\<lambda>e ps.
     sbind (alloc ops e h catNextEdge) (\<lambda>e i.
     sbind (intern ops e h catEdgeType catTypeRev catNextType label) (\<lambda>e typeID.
       let ed = \<lparr>e_ID = i, e_From = from1, e_To = to, e_Label = label, e_Props = ps\<rparr> in
       sbind (writeEdge ops e h \<lparr>er_Edge = ed, er_TypeID = typeID\<rparr>) (\<lambda>e _. (e, Inr ed)))))))"

definition UpdateEdge :: "('e, 'c) engine_ops \<Rightarrow> 'e \<Rightarrow> nat \<Rightarrow> uint64 \<Rightarrow> (gostring, val) gomap \<Rightarrow> 'e \<times> Edge sresult" where
  "UpdateEdge ops e h i props =
     sbind (loadEdge ops e h i) (\<lambda>e r.
       if length props = 0 then (e, Inr (er_Edge r))
       else
         sbind (unindexDeclaredEdge ops e h (er_Edge r)) (\<lambda>e _.
         sbind (mergeProps_loop ops e h props (namedProps (e_Props (er_Edge r)))) (\<lambda>e byName.
           let ed = (er_Edge r)\<lparr>e_Props := propsFromNames byName\<rparr> in
           sbind (writeEdge ops e h (r\<lparr>er_Edge := ed\<rparr>)) (\<lambda>e _. (e, Inr ed)))))"

definition ReplaceEdgeProps :: "('e, 'c) engine_ops \<Rightarrow> 'e \<Rightarrow> nat \<Rightarrow> uint64 \<Rightarrow> (gostring, val) gomap \<Rightarrow> 'e \<times> Edge sresult" where
  "ReplaceEdgeProps ops e h i props =
     sbind (loadEdge ops e h i) (\<lambda>e r.
     sbind (assignProps ops e h props) (\<lambda>e ps.
     sbind (unindexDeclaredEdge ops e h (er_Edge r)) (\<lambda>e _.
       let ed = (er_Edge r)\<lparr>e_Props := ps\<rparr> in
       sbind (writeEdge ops e h (r\<lparr>er_Edge := ed\<rparr>)) (\<lambda>e _. (e, Inr ed)))))"

definition DeleteEdgeProps :: "('e, 'c) engine_ops \<Rightarrow> 'e \<Rightarrow> nat \<Rightarrow> uint64 \<Rightarrow> gostring list \<Rightarrow> 'e \<times> Edge sresult" where
  "DeleteEdgeProps ops e h i names =
     sbind (loadEdge ops e h i) (\<lambda>e r.
     sbind (unindexDeclaredEdge ops e h (er_Edge r)) (\<lambda>e _.
       let ed = (er_Edge r)\<lparr>e_Props := dropProps (e_Props (er_Edge r)) names\<rparr> in
       sbind (writeEdge ops e h (r\<lparr>er_Edge := ed\<rparr>)) (\<lambda>e _. (e, Inr ed))))"

section \<open>Queries\<close>

text \<open>Reading the entities behind a list of ids, leaving out the missing ones.\<close>

fun getExisting :: "('e \<Rightarrow> uint64 \<Rightarrow> 'e \<times> 'n sresult) \<Rightarrow> 'e \<Rightarrow> uint64 list \<Rightarrow> 'n list \<Rightarrow> 'e \<times> 'n list sresult" where
  "getExisting get e [] out = (e, Inr out)"
| "getExisting get e (i # ids) out = (case get e i of
     (e, Inl err) \<Rightarrow> if IsNotFound err then getExisting get e ids out else (e, Inl err)
   | (e, Inr n) \<Rightarrow> getExisting get e ids (out @ [n]))"

definition be64_at :: "nat \<Rightarrow> bytes \<Rightarrow> uint64" where
  "be64_at n k = word_of_nat (be_get (take 8 (drop n k)))"

definition NodesByLabel :: "('e, 'c) engine_ops \<Rightarrow> 'e \<Rightarrow> nat \<Rightarrow> gostring \<Rightarrow> 'e \<times> Node list sresult" where
  "NodesByLabel ops e h label =
     sbind (lookupName ops e h catLabel label) (\<lambda>e found.
       case found of
         None \<Rightarrow> (e, Inr [])
       | Some i \<Rightarrow>
           sbind (scanPrefix ops e h KSLabel (Some (take 4 (labelKey i 0)))) (\<lambda>e keys.
           sbind (getExisting (\<lambda>e. GetNode ops e h) e (map (be64_at 4) (filter (\<lambda>k. length k = 12) keys)) []) (\<lambda>e out.
             (e, Inr (sort_key n_ID out)))))"

definition NodesByPropEq :: "('e, 'c) engine_ops \<Rightarrow> 'e \<Rightarrow> nat \<Rightarrow> gostring \<Rightarrow> val \<Rightarrow> 'e \<times> Node list sresult" where
  "NodesByPropEq ops e h key v =
     sbind (lookupName ops e h catProp key) (\<lambda>e found.
       case found of
         None \<Rightarrow> (e, Inr [])
       | Some i \<Rightarrow>
           let pre = propIndexPrefix i v in
           sbind (scanPrefix ops e h KSProp (Some pre)) (\<lambda>e keys.
           sbind (getExisting (\<lambda>e. GetNode ops e h) e (map (be64_at (length pre))
               (filter (\<lambda>k. \<not> (length k \<noteq> length pre + 8 \<or> take (length pre) k \<noteq> pre)) keys)) []) (\<lambda>e out.
             (e, Inr (sort_key n_ID out)))))"

fun getAll :: "('e \<Rightarrow> uint64 \<Rightarrow> 'e \<times> 'n sresult) \<Rightarrow> 'e \<Rightarrow> bytes list \<Rightarrow> 'n list \<Rightarrow> 'e \<times> 'n list sresult" where
  "getAll get e [] out = (e, Inr out)"
| "getAll get e (k # keys) out =
     (if length k \<noteq> 8 then getAll get e keys out
      else sbind (get e (be64_at 0 k)) (\<lambda>e n. getAll get e keys (out @ [n])))"

definition AllNodes :: "('e, 'c) engine_ops \<Rightarrow> 'e \<Rightarrow> nat \<Rightarrow> 'e \<times> Node list sresult" where
  "AllNodes ops e h = sbind (scanPrefix ops e h KSNode None) (\<lambda>e keys. getAll (\<lambda>e. GetNode ops e h) e keys [])"

definition AllEdges :: "('e, 'c) engine_ops \<Rightarrow> 'e \<Rightarrow> nat \<Rightarrow> 'e \<times> Edge list sresult" where
  "AllEdges ops e h = sbind (scanPrefix ops e h KSEdge None) (\<lambda>e keys. getAll (\<lambda>e. GetEdge ops e h) e keys [])"

definition EdgesBetween :: "('e, 'c) engine_ops \<Rightarrow> 'e \<Rightarrow> nat \<Rightarrow> uint64 \<Rightarrow> uint64 \<Rightarrow> 'e \<times> Edge list sresult" where
  "EdgesBetween ops e h from1 to =
     sbind (needNode ops e h ''node'' from1) (\<lambda>e _.
     sbind (needNode ops e h ''node'' to) (\<lambda>e _.
     sbind (scanPrefix ops e h KSOut (Some (idKey from1))) (\<lambda>e keys.
     sbind (getExisting (\<lambda>e. GetEdge ops e h) e
         (List.map_filter (\<lambda>k. case parseAdj k of None \<Rightarrow> None | Some (a, t, dest, eid) \<Rightarrow> if dest \<noteq> to then None else Some eid) keys) [])
       (\<lambda>e out. (e, Inr (sort_key e_ID out))))))"

definition EdgesByLabel :: "('e, 'c) engine_ops \<Rightarrow> 'e \<Rightarrow> nat \<Rightarrow> gostring \<Rightarrow> 'e \<times> Edge list sresult" where
  "EdgesByLabel ops e h label =
     sbind (lookupName ops e h catEdgeType label) (\<lambda>e found.
       case found of
         None \<Rightarrow> (e, Inr [])
       | Some i \<Rightarrow>
           sbind (scanPrefix ops e h KSEdgeType (Some (be_put 4 (unat i)))) (\<lambda>e keys.
           sbind (getExisting (\<lambda>e. GetEdge ops e h) e (map (be64_at 4) (filter (\<lambda>k. length k = 12) keys)) []) (\<lambda>e out.
             (e, Inr (sort_key e_ID out)))))"

fun statLabels :: "('e, 'c) engine_ops \<Rightarrow> 'e \<Rightarrow> nat \<Rightarrow> bytes list \<Rightarrow> uint32 list \<Rightarrow> gostring list \<Rightarrow> 'e \<times> gostring list sresult" where
  "statLabels ops e h [] seen labels = (e, Inr labels)"
| "statLabels ops e h (k # keys) seen labels =
     (if length k < 4 then statLabels ops e h keys seen labels
      else
        let i = word_of_nat (be_get (take 4 k)) in
        if i \<in> set seen then statLabels ops e h keys seen labels
        else sbind (catName ops e h catLabelRev i) (\<lambda>e name.
          statLabels ops e h keys (i # seen) (case name of None \<Rightarrow> labels | Some name \<Rightarrow> labels @ [name])))"

definition GraphStats :: "('e, 'c) engine_ops \<Rightarrow> 'e \<Rightarrow> nat \<Rightarrow> 'e \<times> graph_Stats sresult" where
  "GraphStats ops e h =
     sbind (scanPrefix ops e h KSNode None) (\<lambda>e nodes.
     sbind (scanPrefix ops e h KSEdge None) (\<lambda>e edges.
     sbind (scanPrefix ops e h KSLabel None) (\<lambda>e labelKeys.
     sbind (statLabels ops e h labelKeys [] []) (\<lambda>e labels.
       (e, Inr \<lparr>gs_Nodes = length nodes, gs_Edges = length edges, gs_Labels = sort labels\<rparr>)))))"

section \<open>Export and replacement\<close>

fun propKeyNames :: "('e, 'c) engine_ops \<Rightarrow> 'e \<Rightarrow> nat \<Rightarrow> bytes list \<Rightarrow> (uint32, gostring) gomap \<Rightarrow> uint32
    \<Rightarrow> 'e \<times> ((uint32, gostring) gomap \<times> uint32) sresult" where
  "propKeyNames ops e h [] names maxID = (e, Inr (names, maxID))"
| "propKeyNames ops e h (k # keys) names maxID =
     (if length k \<noteq> 5 \<or> k ! 0 \<noteq> catPropRev then propKeyNames ops e h keys names maxID
      else
        let i = word_of_nat (be_get (drop 1 k)) in
        sbind (ops_Get ops e h KSCatalog k) (\<lambda>e raw.
          propKeyNames ops e h keys (AList.update i raw names) (if i > maxID then i else maxID)))"

fun placeNames :: "(uint32 \<times> gostring) list \<Rightarrow> gostring list \<Rightarrow> gostring list sresult" where
  "placeNames [] out = Inr out"
| "placeNames ((i, name) # names) out =
     (if unat i < length out then placeNames names (out[unat i := name]) else Inl (ErrPanic ''index out of range''))"

definition exportPropKeys :: "('e, 'c) engine_ops \<Rightarrow> 'e \<Rightarrow> nat \<Rightarrow> 'e \<times> gostring list sresult" where
  "exportPropKeys ops e h =
     sbind (scanPrefix ops e h KSCatalog (Some [catPropRev])) (\<lambda>e keys.
       if length keys = 0 then (e, Inr [[]])
       else sbind (propKeyNames ops e h keys [] 0) (\<lambda>e (names, maxID).
         (e, placeNames names (replicate (unat (maxID + 1)) []))))"

definition graph_Export :: "('e, 'c) engine_ops \<Rightarrow> 'e \<Rightarrow> nat \<Rightarrow> 'e \<times> graph_Snapshot sresult" where
  "graph_Export ops e h =
     sbind (AllNodes ops e h) (\<lambda>e nodes.
     sbind (AllEdges ops e h) (\<lambda>e edges.
     sbind (readCounter ops e h catNextNode) (\<lambda>e nextN.
     sbind (readCounter ops e h catNextEdge) (\<lambda>e nextE.
     sbind (exportPropKeys ops e h) (\<lambda>e keys.
       (e, Inr \<lparr>sn_Nodes = nodes, sn_Edges = edges, sn_NextNode = nextN, sn_NextEdge = nextE, sn_PropKeys = keys\<rparr>))))))"

definition clearKeyspace :: "('e, 'c) engine_ops \<Rightarrow> 'e \<Rightarrow> nat \<Rightarrow> keyspace \<Rightarrow> 'e \<times> unit sresult" where
  "clearKeyspace ops e h ks = sbind (scanPrefix ops e h ks None) (\<lambda>e keys. deleteKeys ops e h ks keys)"

fun clearKeyspaces :: "('e, 'c) engine_ops \<Rightarrow> 'e \<Rightarrow> nat \<Rightarrow> keyspace list \<Rightarrow> 'e \<times> unit sresult" where
  "clearKeyspaces ops e h [] = (e, Inr ())"
| "clearKeyspaces ops e h (ks # kss) = sbind (clearKeyspace ops e h ks) (\<lambda>e _. clearKeyspaces ops e h kss)"

definition normalizePropKeys :: "gostring list \<Rightarrow> gostring list" where
  "normalizePropKeys keys = (if length keys = 0 then [[]] else if keys ! 0 \<noteq> [] then [] # keys else keys)"

fun installPropKeys_loop :: "('e, 'c) engine_ops \<Rightarrow> 'e \<Rightarrow> nat \<Rightarrow> nat \<Rightarrow> gostring list \<Rightarrow> uint32 \<Rightarrow> 'e \<times> uint32 sresult" where
  "installPropKeys_loop ops e h i [] maxID = (e, Inr maxID)"
| "installPropKeys_loop ops e h i (name # keys) maxID =
     (if i = 0 \<or> name = [] then installPropKeys_loop ops e h (i + 1) keys maxID
      else sbind (putName ops e h catProp catPropRev name (word_of_nat i)) (\<lambda>e _.
        installPropKeys_loop ops e h (i + 1) keys (if word_of_nat i > maxID then word_of_nat i else maxID)))"

definition installPropKeys :: "('e, 'c) engine_ops \<Rightarrow> 'e \<Rightarrow> nat \<Rightarrow> gostring list \<Rightarrow> 'e \<times> unit sresult" where
  "installPropKeys ops e h keys =
     sbind (installPropKeys_loop ops e h 0 keys 0) (\<lambda>e maxID.
       let next1 = (word_of_nat (length keys) :: uint64);
           next1 = (if (ucast maxID :: uint64) + 1 > next1 then ucast maxID + 1 else next1);
           next1 = (if next1 = 0 then 1 else next1) in
       writeCounter ops e h catNextProp next1)"

definition insertNode :: "('e, 'c) engine_ops \<Rightarrow> 'e \<Rightarrow> nat \<Rightarrow> Node \<Rightarrow> 'e \<times> unit sresult" where
  "insertNode ops e h n =
     sbind (bindProps ops e h (n_Props n)) (\<lambda>e ps.
       writeNode ops e h (n\<lparr>n_Labels := normalizeLabels (n_Labels n), n_Props := ps\<rparr>))"

definition insertEdge :: "('e, 'c) engine_ops \<Rightarrow> 'e \<Rightarrow> nat \<Rightarrow> Edge \<Rightarrow> 'e \<times> unit sresult" where
  "insertEdge ops e h ed =
     sbind (bindProps ops e h (e_Props ed)) (\<lambda>e ps.
     sbind (intern ops e h catEdgeType catTypeRev catNextType (e_Label ed)) (\<lambda>e typeID.
       writeEdge ops e h \<lparr>er_Edge = ed\<lparr>e_Props := ps\<rparr>, er_TypeID = typeID\<rparr>))"

fun replaceNodes :: "('e, 'c) engine_ops \<Rightarrow> 'e \<Rightarrow> nat \<Rightarrow> Node list \<Rightarrow> uint64 \<Rightarrow> 'e \<times> uint64 sresult" where
  "replaceNodes ops e h [] nextN = (e, Inr nextN)"
| "replaceNodes ops e h (n # ns) nextN =
     sbind (insertNode ops e h n) (\<lambda>e _. replaceNodes ops e h ns (if n_ID n \<ge> nextN then n_ID n + 1 else nextN))"

fun replaceEdges :: "('e, 'c) engine_ops \<Rightarrow> 'e \<Rightarrow> nat \<Rightarrow> Edge list \<Rightarrow> uint64 \<Rightarrow> 'e \<times> uint64 sresult" where
  "replaceEdges ops e h [] nextE = (e, Inr nextE)"
| "replaceEdges ops e h (ed # eds) nextE =
     sbind (insertEdge ops e h ed) (\<lambda>e _. replaceEdges ops e h eds (if e_ID ed \<ge> nextE then e_ID ed + 1 else nextE))"

definition graph_Replace :: "('e, 'c) engine_ops \<Rightarrow> 'e \<Rightarrow> nat \<Rightarrow> graph_Snapshot \<Rightarrow> 'e \<times> unit sresult" where
  "graph_Replace ops e h snap =
     sbind (clearKeyspaces ops e h dataKeyspaces) (\<lambda>e _.
     sbind (installPropKeys ops e h (normalizePropKeys (sn_PropKeys snap))) (\<lambda>e _.
     sbind (replaceNodes ops e h (sn_Nodes snap) (if sn_NextNode snap = 0 then 1 else sn_NextNode snap)) (\<lambda>e nextN.
     sbind (replaceEdges ops e h (sn_Edges snap) (if sn_NextEdge snap = 0 then 1 else sn_NextEdge snap)) (\<lambda>e nextE.
     sbind (writeCounter ops e h catNextNode nextN) (\<lambda>e _. writeCounter ops e h catNextEdge nextE)))))"

definition ScanCatalog :: "('e, 'c) engine_ops \<Rightarrow> 'e \<Rightarrow> nat \<Rightarrow> bytes option \<Rightarrow> 'e \<times> bytes list sresult" where
  "ScanCatalog ops e h pre = scanPrefix ops e h KSCatalog pre"

end
