(* ===== verification/GraphUnique.thy ===== *)
theory GraphUnique
  imports GraphStore
begin

text \<open>
  UNIQUE constraints of the graph store, \<^verbatim>\<open>storage/graphstore/unique.go\<close>: a definition record per name in
  the catalog keyspace, and an index key per live property value that names the node holding it.
\<close>

record Unique =
  un_Name :: gostring
  un_Label :: gostring
  un_Prop :: gostring

definition uniquePrefix :: "gostring \<Rightarrow> gostring \<Rightarrow> bytes" where
  "uniquePrefix label prop = [catUniqueIdx] @ putUvarint (length label) @ label @ putUvarint (length prop) @ prop"

definition encodeUnique :: "gostring \<Rightarrow> gostring \<Rightarrow> bytes" where
  "encodeUnique label prop = label @ [0] @ prop"

text \<open>\<^verbatim>\<open>bytes.IndexByte\<close>.\<close>

fun IndexByte :: "bytes \<Rightarrow> byte \<Rightarrow> int" where
  "IndexByte [] c = -1"
| "IndexByte (b # bs) c = (if b = c then 0 else let i = IndexByte bs c in if i < 0 then -1 else i + 1)"

definition decodeUnique :: "bytes \<Rightarrow> (gostring \<times> gostring) sresult" where
  "decodeUnique raw =
     (let i = IndexByte raw 0 in
      if i \<le> 0 \<or> i = int (length raw) - 1 then Inl (corrupt ''unique constraint'')
      else Inr (take (nat i) raw, drop (nat i + 1) raw))"

definition parseCatalogName :: "bytes \<Rightarrow> byte \<Rightarrow> gostring option" where
  "parseCatalogName k kind1 =
     (if length k = 0 \<or> k ! 0 \<noteq> kind1 then None
      else case Uvarint (drop 1 k) of (n, r) \<Rightarrow>
        if r \<le> 0 then None
        else let rest = drop (1 + nat r) k in if length rest \<noteq> n then None else Some rest)"

definition PutUnique :: "('e, 'c) engine_ops \<Rightarrow> 'e \<Rightarrow> nat \<Rightarrow> gostring \<Rightarrow> gostring \<Rightarrow> gostring \<Rightarrow> 'e \<times> unit sresult" where
  "PutUnique ops e h name label prop =
     (if name = [] \<or> label = [] \<or> prop = [] then (e, Inl (GraphInvalid ''constraint needs a name, label, and property'' []))
      else ops_Put ops e h KSCatalog (catalogKey catUniqueDef name) (encodeUnique label prop))"

definition DropUnique :: "('e, 'c) engine_ops \<Rightarrow> 'e \<Rightarrow> nat \<Rightarrow> gostring \<Rightarrow> 'e \<times> bool sresult" where
  "DropUnique ops e h name =
     (let key = catalogKey catUniqueDef name in
      case ops_Get ops e h KSCatalog key of
        (e, Inl err) \<Rightarrow> (e, if isNotFound err then Inr False else Inl err)
      | (e, Inr raw) \<Rightarrow> (case decodeUnique raw of
          Inl err \<Rightarrow> (e, Inl err)
        | Inr (label, prop) \<Rightarrow>
            sbind (scanPrefix ops e h KSCatalog (Some (uniquePrefix label prop))) (\<lambda>e keys.
            sbind (deleteKeys ops e h KSCatalog keys) (\<lambda>e _.
            sbind (ops_Delete ops e h KSCatalog key) (\<lambda>e _. (e, Inr True))))))"

fun listUniques_loop :: "('e, 'c) engine_ops \<Rightarrow> 'e \<Rightarrow> nat \<Rightarrow> bytes list \<Rightarrow> Unique list \<Rightarrow> 'e \<times> Unique list sresult" where
  "listUniques_loop ops e h [] out = (e, Inr out)"
| "listUniques_loop ops e h (k # keys) out =
     (case parseCatalogName k catUniqueDef of
        None \<Rightarrow> listUniques_loop ops e h keys out
      | Some name \<Rightarrow>
          sbind (ops_Get ops e h KSCatalog k) (\<lambda>e raw.
            case decodeUnique raw of
              Inl err \<Rightarrow> (e, Inl err)
            | Inr (label, prop) \<Rightarrow>
                listUniques_loop ops e h keys (out @ [\<lparr>un_Name = name, un_Label = label, un_Prop = prop\<rparr>])))"

definition ListUniques :: "('e, 'c) engine_ops \<Rightarrow> 'e \<Rightarrow> nat \<Rightarrow> 'e \<times> Unique list sresult" where
  "ListUniques ops e h =
     sbind (scanPrefix ops e h KSCatalog (Some [catUniqueDef])) (\<lambda>e keys. listUniques_loop ops e h keys [])"

definition UniqueKey :: "gostring \<Rightarrow> gostring \<Rightarrow> val \<Rightarrow> bytes" where
  "UniqueKey label prop v = uniquePrefix label prop @ EncodeKey v"

definition UniqueIndexKeys :: "('e, 'c) engine_ops \<Rightarrow> 'e \<Rightarrow> nat \<Rightarrow> 'e \<times> bytes list sresult" where
  "UniqueIndexKeys ops e h = scanPrefix ops e h KSCatalog (Some [catUniqueIdx])"

definition UniqueOwner :: "('e, 'c) engine_ops \<Rightarrow> 'e \<Rightarrow> nat \<Rightarrow> bytes \<Rightarrow> 'e \<times> uint64 option sresult" where
  "UniqueOwner ops e h key = (case ops_Get ops e h KSCatalog key of
     (e, Inl err) \<Rightarrow> (e, if isNotFound err then Inr None else Inl err)
   | (e, Inr raw) \<Rightarrow> (e, if length raw \<noteq> 8 then Inl (corrupt ''unique key'') else Inr (Some (word_of_nat (be_get raw)))))"

end
