(* ===== verification/GraphTraverse.thy ===== *)
theory GraphTraverse
  imports GraphStore
begin

text \<open>
  Traversals of the graph store, \<^verbatim>\<open>storage/graphstore/traverse.go\<close>: bounded breadth-first and depth-first
  neighbourhoods and the unweighted shortest path along outgoing edges. The search loops terminate because
  every round takes an id off the queue and an id enters the queue once; the depth-first recursion is
  bounded by its depth. The loop that follows the parents back carries fuel, one more than their number.
\<close>

record Neighbor =
  nb_Node :: Node
  nb_Depth :: int

definition outgoing :: "('e, 'c) engine_ops \<Rightarrow> 'e \<Rightarrow> nat \<Rightarrow> uint64 \<Rightarrow> 'e \<times> uint64 list sresult" where
  "outgoing ops e h from1 =
     sbind (scanPrefix ops e h KSOut (Some (idKey from1))) (\<lambda>e keys.
       (e, Inr (List.map_filter (\<lambda>k. case parseAdj k of None \<Rightarrow> None | Some (a, t, to, eid) \<Rightarrow> Some to) keys)))"

definition badDepth :: sterr where
  "badDepth = GraphInvalid ''depth must be >= 1'' []"

section \<open>Breadth first\<close>

type_synonym bfs_state = "uint64 list \<times> (uint64 \<times> int) list \<times> Neighbor list"

fun visit :: "('e, 'c) engine_ops \<Rightarrow> 'e \<Rightarrow> nat \<Rightarrow> int \<Rightarrow> uint64 list \<Rightarrow> bfs_state \<Rightarrow> 'e \<times> bfs_state sresult" where
  "visit ops e h d [] st = (e, Inr st)"
| "visit ops e h d (to # tos) (seen, queue, out) =
     (if to \<in> set seen then visit ops e h d tos (seen, queue, out)
      else case GetNode ops e h to of
        (e, Inl err) \<Rightarrow> if IsNotFound err then visit ops e h d tos (seen, queue, out) else (e, Inl err)
      | (e, Inr n) \<Rightarrow>
          visit ops e h d tos (to # seen, queue @ [(to, d + 1)], out @ [\<lparr>nb_Node = n, nb_Depth = d + 1\<rparr>]))"

lemma visit_measure:
  "visit ops e h d tos (seen, queue, out) = (e', Inr (seen', queue', out')) \<Longrightarrow>
   set seen \<subseteq> set seen' \<and> card (set seen') + length queue = card (set seen) + length queue'"
proof (induction tos arbitrary: e seen queue out)
  case (Cons to tos)
  show ?case
  proof (cases "to \<in> set seen")
    case True
    then show ?thesis using Cons.IH [of e seen queue out] Cons.prems by simp
  next
    case False
    obtain e1 r where g: "GetNode ops e h to = (e1, r)" by fastforce
    show ?thesis
    proof (cases r)
      case (Inl err)
      then show ?thesis using False g Cons.IH [of e1 seen queue out] Cons.prems by (simp split: if_splits)
    next
      case (Inr n)
      then show ?thesis using False g Cons.IH [of e1 "to # seen"] Cons.prems by fastforce
    qed
  qed
qed simp

function neighbors_loop :: "('e, 'c) engine_ops \<Rightarrow> 'e \<Rightarrow> nat \<Rightarrow> int \<Rightarrow> bfs_state \<Rightarrow> 'e \<times> Neighbor list sresult" where
  "neighbors_loop ops e h depth (seen, [], out) = (e, Inr out)"
| "neighbors_loop ops e h depth (seen, (i, d) # queue, out) =
     (if d \<ge> depth then neighbors_loop ops e h depth (seen, queue, out)
      else case outgoing ops e h i of
        (e, Inl err) \<Rightarrow> (e, Inl err)
      | (e, Inr tos) \<Rightarrow> (case visit ops e h d tos (seen, queue, out) of
          (e, Inl err) \<Rightarrow> (e, Inl err)
        | (e, Inr st) \<Rightarrow> neighbors_loop ops e h depth st))"
  by pat_completeness auto

text \<open>A set of 64-bit ids has at most \<open>2 ^ 64\<close> members, so the loop cannot enlarge it for ever.\<close>

definition unseen :: "uint64 list \<Rightarrow> nat" where
  "unseen seen = CARD(64 word) - card (set seen)"

lemma card_seen_le: "card (set seen) \<le> CARD(64 word)" for seen :: "uint64 list"
  by (rule card_mono) auto

lemma unseen_decreases:
  assumes "set seen \<subseteq> set seen' \<and> card (set seen') + length queue = card (set seen) + length queue'"
  shows "2 * unseen seen' + length queue' < Suc (2 * unseen seen + length queue)"
proof -
  have "card (set seen) \<le> card (set seen')" "card (set seen') + length queue = card (set seen) + length queue'"
    using assms by (auto intro: card_mono)
  then show ?thesis using card_seen_le [of seen'] unfolding unseen_def by linarith
qed

termination neighbors_loop
  by (relation "measure (\<lambda>(ops, e, h, depth, seen, queue, out). 2 * unseen seen + length queue)")
    (auto intro!: unseen_decreases visit_measure [OF sym])

definition Neighbors :: "('e, 'c) engine_ops \<Rightarrow> 'e \<Rightarrow> nat \<Rightarrow> uint64 \<Rightarrow> int \<Rightarrow> 'e \<times> Neighbor list sresult" where
  "Neighbors ops e h start depth =
     (if depth < 1 then (e, Inl badDepth)
      else sbind (GetNode ops e h start) (\<lambda>e _. neighbors_loop ops e h depth ([start], [(start, 0)], [])))"

section \<open>Depth first\<close>

text \<open>\<open>left\<close> is what the depth leaves below the node, so \<open>d \<ge> depth\<close> is \<open>left = 0\<close>.\<close>

type_synonym dfs_state = "uint64 list \<times> Neighbor list"

fun dfs_walk :: "('e, 'c) engine_ops \<Rightarrow> 'e \<Rightarrow> nat \<Rightarrow> int \<Rightarrow> nat \<Rightarrow> uint64 \<Rightarrow> dfs_state \<Rightarrow> 'e \<times> dfs_state sresult"
  and dfs_list :: "('e, 'c) engine_ops \<Rightarrow> 'e \<Rightarrow> nat \<Rightarrow> int \<Rightarrow> nat \<Rightarrow> uint64 list \<Rightarrow> dfs_state \<Rightarrow> 'e \<times> dfs_state sresult"
where
  "dfs_walk ops e h depth 0 i st = (e, Inr st)"
| "dfs_walk ops e h depth (Suc left) i st = (case outgoing ops e h i of
     (e, Inl err) \<Rightarrow> (e, Inl err)
   | (e, Inr tos) \<Rightarrow> dfs_list ops e h depth left tos st)"
| "dfs_list ops e h depth left [] st = (e, Inr st)"
| "dfs_list ops e h depth left (to # tos) (seen, out) =
     (if to \<in> set seen then dfs_list ops e h depth left tos (seen, out)
      else case GetNode ops e h to of
        (e, Inl err) \<Rightarrow> if IsNotFound err then dfs_list ops e h depth left tos (seen, out) else (e, Inl err)
      | (e, Inr n) \<Rightarrow>
          (case dfs_walk ops e h depth left to (to # seen, out @ [\<lparr>nb_Node = n, nb_Depth = depth - int left\<rparr>]) of
             (e, Inl err) \<Rightarrow> (e, Inl err)
           | (e, Inr st) \<Rightarrow> dfs_list ops e h depth left tos st))"

definition DFS :: "('e, 'c) engine_ops \<Rightarrow> 'e \<Rightarrow> nat \<Rightarrow> uint64 \<Rightarrow> int \<Rightarrow> 'e \<times> Neighbor list sresult" where
  "DFS ops e h start depth =
     (if depth < 1 then (e, Inl badDepth)
      else sbind (GetNode ops e h start) (\<lambda>e _.
           sbind (dfs_walk ops e h depth (nat depth) start ([start], [])) (\<lambda>e (seen, out). (e, Inr out))))"

section \<open>Shortest path\<close>

type_synonym sp_state = "uint64 list \<times> (uint64, uint64) gomap \<times> uint64 list"

text \<open>The inner loop: \<open>Inl\<close> when the destination was reached.\<close>

fun expand :: "uint64 \<Rightarrow> uint64 \<Rightarrow> uint64 list \<Rightarrow> sp_state \<Rightarrow> (uint64, uint64) gomap + sp_state" where
  "expand dst cur [] st = Inr st"
| "expand dst cur (to # tos) (seen, parent, queue) =
     (if to \<in> set seen then expand dst cur tos (seen, parent, queue)
      else
        let seen = to # seen; parent = AList.update to cur parent in
        if to = dst then Inl parent else expand dst cur tos (seen, parent, queue @ [to]))"

lemma expand_measure:
  "expand dst cur tos (seen, parent, queue) = Inr (seen', parent', queue') \<Longrightarrow>
   set seen \<subseteq> set seen' \<and> card (set seen') + length queue = card (set seen) + length queue'"
  by (induction tos arbitrary: seen parent queue) (fastforce simp: Let_def split: if_splits)+

text \<open>The search loop returns the parents when it finds the destination.\<close>

function sp_loop :: "('e, 'c) engine_ops \<Rightarrow> 'e \<Rightarrow> nat \<Rightarrow> uint64 \<Rightarrow> sp_state \<Rightarrow> 'e \<times> (uint64, uint64) gomap option sresult" where
  "sp_loop ops e h dst (seen, parent, []) = (e, Inr None)"
| "sp_loop ops e h dst (seen, parent, cur # queue) = (case outgoing ops e h cur of
     (e, Inl err) \<Rightarrow> (e, Inl err)
   | (e, Inr tos) \<Rightarrow> (case expand dst cur tos (seen, parent, queue) of
       Inl parent \<Rightarrow> (e, Inr (Some parent))
     | Inr st \<Rightarrow> sp_loop ops e h dst st))"
  by pat_completeness auto

termination sp_loop
  by (relation "measure (\<lambda>(ops, e, h, dst, seen, parent, queue). 2 * unseen seen + length queue)")
    (auto intro!: unseen_decreases expand_measure)

fun pathBack :: "(uint64, uint64) gomap \<Rightarrow> uint64 \<Rightarrow> nat \<Rightarrow> uint64 \<Rightarrow> uint64 list \<Rightarrow> uint64 list option" where
  "pathBack parent src 0 at1 ids = None"
| "pathBack parent src (Suc n) at1 ids =
     (let ids = ids @ [at1] in
      if at1 = src then Some ids
      else pathBack parent src n (case map_of parent at1 of None \<Rightarrow> 0 | Some p \<Rightarrow> p) ids)"

fun pathNodes :: "('e, 'c) engine_ops \<Rightarrow> 'e \<Rightarrow> nat \<Rightarrow> uint64 \<Rightarrow> Node \<Rightarrow> uint64 list \<Rightarrow> Node list \<Rightarrow> 'e \<times> Node list sresult" where
  "pathNodes ops e h src srcNode [] path = (e, Inr path)"
| "pathNodes ops e h src srcNode (i # ids) path =
     (if i = src then pathNodes ops e h src srcNode ids (path @ [srcNode])
      else sbind (GetNode ops e h i) (\<lambda>e n. pathNodes ops e h src srcNode ids (path @ [n])))"

definition ShortestPath :: "('e, 'c) engine_ops \<Rightarrow> 'e \<Rightarrow> nat \<Rightarrow> uint64 \<Rightarrow> uint64 \<Rightarrow> 'e \<times> Node list sresult" where
  "ShortestPath ops e h src dst =
     sbind (GetNode ops e h src) (\<lambda>e srcNode.
     sbind (GetNode ops e h dst) (\<lambda>e _.
       if src = dst then (e, Inr [srcNode])
       else sbind (sp_loop ops e h dst ([src], [], [src])) (\<lambda>e found.
         case found of
           None \<Rightarrow> (e, Inr [])
         | Some parent \<Rightarrow> (case pathBack parent src (length parent + 1) dst [] of
             None \<Rightarrow> (e, Inl ErrFuel)
           | Some ids \<Rightarrow> pathNodes ops e h src srcNode (rev ids) []))))"

end
