(* ===== verification/GraphTx.thy ===== *)
theory GraphTx
  imports GraphUnique GraphTraverse MemEngine
begin

text \<open>
  What the graph store relies on. The locale \<open>kv_read\<close> states what a transaction promises a reader, over
  a relation between the state of the engine, the handle and the contents the transaction shows;
  \<open>kv_write\<close> adds what it promises a writer. Every engine in the sense of \<open>kv_engine\<close> gives both, the memory
  engine in particular.

  \<open>view_ops\<close> is the simplest implementation, whose state is the contents themselves. Every operation of
  the graph store behaves on a transaction as it behaves on the contents the transaction shows: it
  returns the same result, and leaves a transaction that shows the contents it leaves.
\<close>

section \<open>The contents as an engine\<close>

definition kv_listing :: "(bytes \<Rightarrow> bytes option) \<Rightarrow> (bytes \<times> bytes) list" where
  "kv_listing m = map (\<lambda>k. (k, the (m k))) (sorted_list_of_set (dom m))"

lemma map_fst_listing [simp]: "map fst (kv_listing m) = sorted_list_of_set (dom m)"
  by (simp add: kv_listing_def comp_def)

lemma entries_listing: "finite (dom m) \<Longrightarrow> entries m (kv_listing m)"
  unfolding entries_def
proof
  assume f: "finite (dom m)"
  show "sorted_wrt (<) (map fst (kv_listing m))" by simp
  show "map_of (kv_listing m) = m"
    using f by (auto simp: kv_listing_def map_of_map_restrict restrict_map_def domIff fun_eq_iff)
qed

lemma entries_finite: "entries m xs \<Longrightarrow> finite (dom m)"
  by (metis entries_def finite_dom_map_of)

lemma entries_eq_listing: "entries m xs \<Longrightarrow> xs = kv_listing m"
  by (blast intro: entries_unique entries_listing entries_finite)

type_synonym view_cursor = "keyspace \<times> (bytes \<times> bytes) list"

definition view_get :: "kvview \<Rightarrow> keyspace \<Rightarrow> bytes \<Rightarrow> bytes sresult" where
  "view_get V ks k = (case V ks k of None \<Rightarrow> Inl ErrNotFound | Some v \<Rightarrow> Inr v)"

definition from_key :: "bytes option \<Rightarrow> (bytes \<times> bytes) list \<Rightarrow> (bytes \<times> bytes) list" where
  "from_key t xs = (case t of None \<Rightarrow> xs | Some t \<Rightarrow> filter (\<lambda>x. t \<le> fst x) xs)"

definition view_ops :: "(kvview, view_cursor) engine_ops" where
  "view_ops = \<lparr>ops_Begin = \<lambda>V r. (V, Inr 0),
     ops_Get = \<lambda>V h ks k. (V, view_get V ks k),
     ops_Put = \<lambda>V h ks k v. (upd_view V ks k (Some v), Inr ()),
     ops_Delete = \<lambda>V h ks k. (upd_view V ks k None, Inr ()),
     ops_Commit = \<lambda>V h. (V, Inr ()),
     ops_Rollback = \<lambda>V h. (V, Inr ()),
     ops_Cursor = \<lambda>V h ks. (V, Inr (ks, [])),
     ops_Seek = \<lambda>V c t. (V, (fst c, from_key t (kv_listing (V (fst c)))), from_key t (kv_listing (V (fst c))) \<noteq> []),
     ops_Next = \<lambda>V c. (V, (fst c, tl (snd c)), tl (snd c) \<noteq> []),
     ops_Key = \<lambda>V c. fst (hd (snd c)),
     ops_Value = \<lambda>V c. snd (hd (snd c)),
     ops_CursorClose = \<lambda>V c. (V, c, None),
     ops_Sync = \<lambda>V. Inr (),
     ops_Close = \<lambda>V. (V, Inr ()),
     ops_LogAbort = \<lambda>V i. V,
     ops_bound = \<lambda>V h. \<Sum>ks\<in>UNIV. length (kv_listing (V ks))\<rparr>"

lemma view_ops_simps [simp]:
  "ops_Get view_ops V h ks k = (V, view_get V ks k)"
  "ops_Put view_ops V h ks k v = (upd_view V ks k (Some v), Inr ())"
  "ops_Delete view_ops V h ks k = (upd_view V ks k None, Inr ())"
  "ops_Cursor view_ops V h ks = (V, Inr (ks, []))"
  "ops_Seek view_ops V c t = (V, (fst c, from_key t (kv_listing (V (fst c)))), from_key t (kv_listing (V (fst c))) \<noteq> [])"
  "ops_Next view_ops V c = (V, (fst c, tl (snd c)), tl (snd c) \<noteq> [])"
  "ops_Key view_ops V c = fst (hd (snd c))"
  "ops_CursorClose view_ops V c = (V, c, None)"
  "ops_bound view_ops V h = (\<Sum>ks\<in>UNIV. length (kv_listing (V ks)))"
  by (simp_all add: view_ops_def)

definition fin_view :: "kvview \<Rightarrow> bool" where
  "fin_view V \<longleftrightarrow> (\<forall>ks. finite (dom (V ks)))"

lemma fin_view_upd [simp]: "fin_view V \<Longrightarrow> fin_view (upd_view V ks k v)"
proof -
  have "dom (upd_view V ks k v ks') \<subseteq> insert k (dom (V ks'))" for ks' by (auto simp: upd_view_apply split: if_splits)
  then show "fin_view V \<Longrightarrow> fin_view (upd_view V ks k v)" unfolding fin_view_def by (meson finite_insert finite_subset)
qed

section \<open>Interfaces\<close>

locale kv_read =
  fixes ops :: "('e, 'c) engine_ops"
    and T :: "'e \<Rightarrow> nat \<Rightarrow> kvview \<Rightarrow> bool"
    and opened :: "'e \<Rightarrow> 'c \<Rightarrow> nat \<Rightarrow> keyspace \<Rightarrow> bool"
    and ahead :: "'e \<Rightarrow> 'c \<Rightarrow> nat \<Rightarrow> (bytes \<times> bytes) list \<Rightarrow> bool"
    and user :: "keyspace \<Rightarrow> bool"
  assumes user_keyspace: "ks \<noteq> KSVersion \<Longrightarrow> user ks"
    and read_finite: "T e h V \<Longrightarrow> fin_view V"
    and read_get: "T e h V \<Longrightarrow> user ks \<Longrightarrow> \<exists>e'. ops_Get ops e h ks k = (e', view_get V ks k) \<and> T e' h V"
    and read_cursor: "T e h V \<Longrightarrow> user ks \<Longrightarrow> \<exists>e' c. ops_Cursor ops e h ks = (e', Inr c) \<and> T e' h V \<and> opened e' c h ks"
    and read_seek: "T e h V \<Longrightarrow> opened e c h ks \<Longrightarrow> \<exists>e' c' xs. entries (V ks) xs \<and> length xs \<le> ops_bound ops e' h
      \<and> ops_Seek ops e c t = (e', c', from_key t xs \<noteq> []) \<and> T e' h V \<and> ahead e' c' h (from_key t xs)"
    and read_next: "T e h V \<Longrightarrow> ahead e c h (x # xs) \<Longrightarrow>
      \<exists>e' c'. ops_Next ops e c = (e', c', xs \<noteq> []) \<and> T e' h V \<and> ahead e' c' h xs"
    and read_key: "T e h V \<Longrightarrow> ahead e c h (x # xs) \<Longrightarrow> ops_Key ops e c = fst x"
    and read_close: "T e h V \<Longrightarrow> ahead e c h xs \<Longrightarrow> \<exists>e' c'. ops_CursorClose ops e c = (e', c', None) \<and> T e' h V"

locale kv_write = kv_read +
  assumes write_put: "T e h V \<Longrightarrow> user ks \<Longrightarrow> \<exists>e'. ops_Put ops e h ks k v = (e', Inr ()) \<and> T e' h (upd_view V ks k (Some v))"
    and write_delete: "T e h V \<Longrightarrow> user ks \<Longrightarrow> \<exists>e'. ops_Delete ops e h ks k = (e', Inr ()) \<and> T e' h (upd_view V ks k None)"

context kv_engine
begin

lemma live_finite: "inv e \<Longrightarrow> live e h \<Longrightarrow> fin_view (view e h)"
  unfolding fin_view_def
proof
  fix ks assume "inv e" "live e h"
  then obtain c where "curtx c = h" "curks c = ks" "curopen c" using cursor_ok [of e h ks] by blast
  then show "finite (dom (view e h ks))" using seek_ok [of e c None] entries_finite \<open>inv e\<close> \<open>live e h\<close> by blast
qed

sublocale rd: kv_read ops "\<lambda>e h V. e = e0 \<and> inv e \<and> live e h \<and> view e h = V"
  "\<lambda>e c h ks. curtx c = h \<and> curks c = ks \<and> curopen c" "\<lambda>e c h xs. curtx c = h \<and> rest e c = xs" "\<lambda>_. True" for e0
proof (unfold_locales, goal_cases)
  case (2 e h V)
  then show ?case using live_finite by blast
next
  case (3 e h V ks k)
  then show ?case using get_ok [of e h ks k] by (auto simp: view_get_def)
next
  case (4 e h V ks)
  then show ?case using cursor_ok [of e h ks] by auto
next
  case (5 e h V c ks t)
  then show ?case using seek_ok [of e c t] by (fastforce simp: from_key_def)
next
  case (6 e h V c x xs)
  then show ?case using next_ok [of e c x xs] by auto
next
  case (7 e h V c x xs)
  then show ?case using key_ok [of e c x xs] by auto
next
  case (8 e h V c xs)
  then show ?case using close_ok [of e c] by auto
qed simp

sublocale wr: kv_write ops "\<lambda>e h V. inv e \<and> writable e h \<and> view e h = V \<and> usable e = u \<and> committed e = cm \<and> exclusive e h = x"
  "\<lambda>e c h ks. curtx c = h \<and> curks c = ks \<and> curopen c" "\<lambda>e c h xs. curtx c = h \<and> rest e c = xs" "\<lambda>_. True" for u cm x
proof (unfold_locales, goal_cases)
  case (2 e h V)
  then show ?case using live_finite writable_live by blast
next
  case (3 e h V ks k)
  then show ?case using get_ok [of e h ks k] writable_live [of e h] by (auto simp: view_get_def)
next
  case (4 e h V ks)
  then show ?case using cursor_ok [of e h ks] writable_live [of e h] by auto
next
  case (5 e h V c ks t)
  then show ?case using seek_ok [of e c t] writable_live [of e h] by (fastforce simp: from_key_def)
next
  case (6 e h V c x xs)
  then show ?case using next_ok [of e c x xs] writable_live [of e h] by auto
next
  case (7 e h V c x xs)
  then show ?case using key_ok [of e c x xs] writable_live [of e h] by auto
next
  case (8 e h V c xs)
  then show ?case using close_ok [of e c] writable_live [of e h] by auto
next
  case (9 e h V ks k v)
  then show ?case using put_ok [of e h ks k v] by auto
next
  case (10 e h V ks k)
  then show ?case using delete_ok [of e h ks k] by auto
qed simp

end

section \<open>Simulation\<close>

definition sim :: "('e \<Rightarrow> kvview \<Rightarrow> bool) \<Rightarrow> 'e \<times> 'r \<Rightarrow> kvview \<times> 'r \<Rightarrow> bool" where
  "sim S p q \<longleftrightarrow> snd p = snd q \<and> S (fst p) (fst q)"

named_theorems sim_rules \<open>structural rules of the simulation\<close>

lemma sim_ret [sim_rules]: "S e V \<Longrightarrow> sim S (e, r) (V, r)"
  by (simp add: sim_def)

lemma sim_sbind [sim_rules]:
  "sim S p q \<Longrightarrow> (\<And>e V x. S e V \<Longrightarrow> sim S (f e x) (g V x)) \<Longrightarrow> sim S (sbind p f) (sbind q g)"
  by (cases p; cases q; cases "snd p") (auto simp: sim_def)

lemma sim_result [sim_rules]:
  "sim S p q \<Longrightarrow> (\<And>e V x. S e V \<Longrightarrow> sim S (f e x) (f' V x)) \<Longrightarrow> (\<And>e V x. S e V \<Longrightarrow> sim S (g e x) (g' V x)) \<Longrightarrow>
   sim S (case p of (e, Inl x) \<Rightarrow> f e x | (e, Inr x) \<Rightarrow> g e x) (case q of (e, Inl x) \<Rightarrow> f' e x | (e, Inr x) \<Rightarrow> g' e x)"
  by (cases p; cases q; cases "snd p") (auto simp: sim_def)

lemma sim_if [sim_rules]:
  "(b \<Longrightarrow> sim S p q) \<Longrightarrow> (\<not> b \<Longrightarrow> sim S p' q') \<Longrightarrow> sim S (if b then p else p') (if b then q else q')"
  by simp

lemma sim_let [sim_rules]: "(\<And>y. sim S (f y) (g y)) \<Longrightarrow> sim S (Let x f) (Let x g)"
  by (simp add: Let_def)

lemma sim_option [sim_rules]:
  "sim S p q \<Longrightarrow> (\<And>y. sim S (f y) (g y)) \<Longrightarrow>
   sim S (case x of None \<Rightarrow> p | Some y \<Rightarrow> f y) (case x of None \<Rightarrow> q | Some y \<Rightarrow> g y)"
  by (cases x) auto

lemma sim_sum [sim_rules]:
  "(\<And>y. sim S (f y) (f' y)) \<Longrightarrow> (\<And>y. sim S (g y) (g' y)) \<Longrightarrow>
   sim S (case x of Inl y \<Rightarrow> f y | Inr y \<Rightarrow> g y) (case x of Inl y \<Rightarrow> f' y | Inr y \<Rightarrow> g' y)"
  by (cases x) auto

lemma sim_prod [sim_rules]:
  "(\<And>y z. sim S (f y z) (g y z)) \<Longrightarrow> sim S (case x of (y, z) \<Rightarrow> f y z) (case x of (y, z) \<Rightarrow> g y z)"
  by (cases x) auto

lemma simD: "sim S p (V, r) \<Longrightarrow> \<exists>e. p = (e, r) \<and> S e V"
  by (cases p) (simp add: sim_def)

section \<open>Scans\<close>

text \<open>The keys of a keyspace that share a prefix, in order.\<close>

definition scan_view :: "kvview \<Rightarrow> keyspace \<Rightarrow> bytes option \<Rightarrow> bytes list" where
  "scan_view V ks pre = filter (\<lambda>k. case pre of None \<Rightarrow> True | Some p \<Rightarrow> hasPrefix k p) (sorted_list_of_set (dom (V ks)))"

lemma hasPrefix_append: "hasPrefix k p \<longleftrightarrow> (\<exists>s. k = p @ s)"
  unfolding hasPrefix_def by (metis append_eq_conv_conj)

lemma hasPrefix_le: "hasPrefix k p \<Longrightarrow> p \<le> k"
  by (auto simp: hasPrefix_append prefix_le)

lemma hasPrefix_between: "p \<le> a \<Longrightarrow> a \<le> b \<Longrightarrow> hasPrefix b p \<Longrightarrow> hasPrefix a p"
proof (induction p arbitrary: a b)
  case (Cons x p)
  then obtain y a' where a: "a = y # a'" by (cases a) auto
  with Cons.prems obtain b' where b: "b = x # b'" "hasPrefix b' p" by (cases b) (auto simp: hasPrefix_def)
  show ?case using Cons.prems Cons.IH [of a' b'] a b by (auto simp: hasPrefix_def)
qed (simp add: hasPrefix_def)

lemma takeWhile_filter_same:
  assumes "sorted_wrt (<) xs" and "\<And>x y. x \<in> set xs \<Longrightarrow> y \<in> set xs \<Longrightarrow> x < y \<Longrightarrow> P y \<Longrightarrow> P x"
  shows "takeWhile P xs = filter P xs"
  using assms
proof (induction xs)
  case (Cons x xs)
  show ?case
  proof (cases "P x")
    case True
    then show ?thesis using Cons by auto
  next
    case False
    then have "filter P xs = []" using Cons.prems by (fastforce simp: filter_empty_conv)
    then show ?thesis using False by simp
  qed
qed simp

lemma takeWhile_scan:
  assumes "sorted_wrt (<) xs" and "hasPrefix start keep"
  shows "takeWhile (\<lambda>k. hasPrefix k keep) (filter (\<lambda>k. start \<le> k) xs) = filter (\<lambda>k. start \<le> k \<and> hasPrefix k keep) xs"
proof -
  have "keep \<le> start" by (rule hasPrefix_le [OF assms(2)])
  then have "takeWhile (\<lambda>k. hasPrefix k keep) (filter (\<lambda>k. start \<le> k) xs) = filter (\<lambda>k. hasPrefix k keep) (filter (\<lambda>k. start \<le> k) xs)"
    by (intro takeWhile_filter_same sorted_wrt_filter assms) (auto intro: hasPrefix_between order.trans order.strict_implies_order)
  then show ?thesis by (simp add: conj_commute)
qed

definition seek_scan :: "('e, 'c) engine_ops \<Rightarrow> 'e \<Rightarrow> nat \<Rightarrow> keyspace \<Rightarrow> bytes option \<Rightarrow> (bytes \<Rightarrow> bool) \<Rightarrow> 'e \<times> bytes list sresult" where
  "seek_scan ops e h ks t keep =
     sbind (ops_Cursor ops e h ks) (\<lambda>e c.
       case ops_Seek ops e c t of
         (e, c, ok) \<Rightarrow>
           if \<not> ok then closeCursor ops e c []
           else scan_keys ops (ops_bound ops e h + 1) e c keep [])"

lemma scans_seek_scan:
  "scanPrefix ops e h ks pre = seek_scan ops e h ks pre (\<lambda>k. case pre of None \<Rightarrow> True | Some p \<Rightarrow> hasPrefix k p)"
  "scanKind ops e h kind1 = seek_scan ops e h KSCatalog (Some [kind1]) (\<lambda>k. hasPrefix k [kind1])"
  "ix_walk ops e h start keep = seek_scan ops e h KSProp (Some start) (\<lambda>k. hasPrefix k keep)"
  by (simp_all add: scanPrefix_def scanKind_def ix_walk_def seek_scan_def)

context kv_read
begin

lemma user_keyspaces [sim_rules]: "user KSNode" "user KSEdge" "user KSOut" "user KSIn" "user KSLabel" "user KSEdgeType" "user KSProp" "user KSCatalog"
  by (rule user_keyspace, simp add: keyspace_defs)+

lemma scan_keys_ahead:
  "T e h V \<Longrightarrow> ahead e c h (x # xs) \<Longrightarrow> length xs < n \<Longrightarrow>
   \<exists>e'. scan_keys ops n e c keep out = (e', Inr (out @ takeWhile keep (map fst (x # xs)))) \<and> T e' h V"
proof (induction n arbitrary: e c x xs out)
  case (Suc n)
  note key = read_key [OF Suc.prems(1,2)]
  show ?case
  proof (cases "keep (fst x)")
    case False
    then show ?thesis using key read_close [OF Suc.prems(1,2)] by (auto simp: Let_def closeCursor_def)
  next
    case True
    obtain e1 c1 where n: "ops_Next ops e c = (e1, c1, xs \<noteq> [])" "T e1 h V" "ahead e1 c1 h xs"
      using read_next [OF Suc.prems(1,2)] by blast
    show ?thesis
    proof (cases xs)
      case Nil
      then show ?thesis using True key n read_close [OF n(2,3)] by (auto simp: Let_def closeCursor_def)
    next
      case (Cons y ys)
      then show ?thesis using True key n(1) Suc.IH [OF n(2), of c1 y ys "out @ [fst x]"] n(3) Suc.prems(3) by (auto simp: Let_def)
    qed
  qed
qed simp

lemma seek_scan_view:
  assumes "T e h V" "user ks"
  shows "\<exists>e'. seek_scan ops e h ks t keep = (e', Inr (takeWhile keep (map fst (from_key t (kv_listing (V ks)))))) \<and> T e' h V"
proof -
  obtain e1 c where c: "ops_Cursor ops e h ks = (e1, Inr c)" "T e1 h V" "opened e1 c h ks"
    using read_cursor [OF assms] by blast
  obtain e2 c2 where s: "ops_Seek ops e1 c t = (e2, c2, from_key t (kv_listing (V ks)) \<noteq> [])" "T e2 h V"
      "ahead e2 c2 h (from_key t (kv_listing (V ks)))" "length (kv_listing (V ks)) \<le> ops_bound ops e2 h"
    using read_seek [OF c(2,3)] entries_eq_listing by metis
  show ?thesis
  proof (cases "from_key t (kv_listing (V ks))")
    case Nil
    then show ?thesis using c(1) s read_close [OF s(2,3)] by (auto simp: seek_scan_def closeCursor_def)
  next
    case (Cons x xs)
    have "length (from_key t (kv_listing (V ks))) \<le> length (kv_listing (V ks))" by (simp add: from_key_def split: option.split)
    then have "length xs < Suc (ops_bound ops e2 h)" using s(4) Cons by simp
    with Cons show ?thesis using c(1) s(1) scan_keys_ahead [OF s(2), of c2 x xs "ops_bound ops e2 h + 1" keep "[]"] s(3)
      by (auto simp: seek_scan_def)
  qed
qed

end

interpretation view: kv_write view_ops "\<lambda>e h V. e = V \<and> fin_view V" "\<lambda>e c h ks. fst c = ks" "\<lambda>e c h xs. snd c = xs" "\<lambda>_. True"
proof (unfold_locales, goal_cases)
  case (5 e h V c ks t)
  have "length (kv_listing (V ks)) \<le> (\<Sum>ks\<in>UNIV. length (kv_listing (V ks)))" by (intro member_le_sum) auto
  with 5 show ?case by (auto simp: fin_view_def intro: entries_listing)
qed auto

end
