(* ===== verification/GraphSim.thy ===== *)
theory GraphSim
  imports GraphTx
begin

text \<open>
  The simulation, operation by operation: in any transaction that keeps the contract, an operation of
  the catalog, the indexes or the graph store returns what it returns on the contents the transaction shows,
  and the transaction then shows the contents it leaves.
\<close>

section \<open>Reading\<close>

context kv_read
begin

lemma sim_get: "T e h V \<Longrightarrow> user ks \<Longrightarrow> sim (\<lambda>e. T e h) (ops_Get ops e h ks k) (ops_Get view_ops V h ks k)"
  using read_get [of e h V ks k] by (auto simp: sim_def)

lemma sim_seek_scan: "T e h V \<Longrightarrow> user ks \<Longrightarrow> sim (\<lambda>e. T e h) (seek_scan ops e h ks t keep) (seek_scan view_ops V h ks t keep)"
  using seek_scan_view [of e h V ks t keep] view.seek_scan_view [of V V h ks t keep] read_finite [of e h V]
  by (auto simp: sim_def)

lemma sim_scans:
  "T e h V \<Longrightarrow> user ks \<Longrightarrow> sim (\<lambda>e. T e h) (scanPrefix ops e h ks pre) (scanPrefix view_ops V h ks pre)"
  "T e h V \<Longrightarrow> sim (\<lambda>e. T e h) (scanKind ops e h kd) (scanKind view_ops V h kd)"
  "T e h V \<Longrightarrow> sim (\<lambda>e. T e h) (ix_walk ops e h start keep) (ix_walk view_ops V h start keep)"
  unfolding scans_seek_scan by (rule sim_seek_scan user_keyspaces | assumption)+

lemma sim_readCounter: "T e h V \<Longrightarrow> sim (\<lambda>e. T e h) (readCounter ops e h kd) (readCounter view_ops V h kd)"
  unfolding readCounter_def by (rule sim_rules sim_get | assumption)+

lemma sim_catName: "T e h V \<Longrightarrow> sim (\<lambda>e. T e h) (catName ops e h kd i) (catName view_ops V h kd i)"
  unfolding catName_def by (rule sim_rules sim_get | assumption)+

lemma sim_lookupName: "T e h V \<Longrightarrow> sim (\<lambda>e. T e h) (lookupName ops e h kd i) (lookupName view_ops V h kd i)"
  unfolding lookupName_def by (rule sim_rules sim_get | assumption)+

lemma sim_readU64: "T e h V \<Longrightarrow> sim (\<lambda>e. T e h) (readU64 ops e h kd n) (readU64 view_ops V h kd n)"
  unfolding readU64_def by (rule sim_rules sim_get | assumption)+

lemma sim_readU32: "T e h V \<Longrightarrow> sim (\<lambda>e. T e h) (readU32 ops e h kd n) (readU32 view_ops V h kd n)"
  unfolding readU32_def by (rule sim_rules sim_get | assumption)+

lemmas sim_reads = sim_get sim_scans sim_readCounter sim_catName sim_lookupName sim_readU64 sim_readU32

lemma sim_listIndexes_loop:
  "T e h V \<Longrightarrow> sim (\<lambda>e. T e h) (listIndexes_loop ops e h keys out) (listIndexes_loop view_ops V h keys out)"
proof (induction keys arbitrary: e V out)
  case (Cons k keys)
  show ?case unfolding listIndexes_loop.simps by (rule sim_rules sim_reads Cons | assumption)+
qed (simp add: sim_rules)

lemma sim_listConstraints_loop:
  "T e h V \<Longrightarrow> sim (\<lambda>e. T e h) (listConstraints_loop ops e h keys out) (listConstraints_loop view_ops V h keys out)"
proof (induction keys arbitrary: e V out)
  case (Cons k keys)
  show ?case unfolding listConstraints_loop.simps by (rule sim_rules sim_reads Cons | assumption)+
qed (simp add: sim_rules)

lemma sim_cat_Load: "T e h V \<Longrightarrow> sim (\<lambda>e. T e h) (cat_Load ops e h) (cat_Load view_ops V h)"
  unfolding cat_Load_def listIndexes_def listConstraints_def loadStats_def
  by (rule sim_rules sim_reads sim_listIndexes_loop sim_listConstraints_loop | assumption)+

lemma sim_labelNames: "T e h V \<Longrightarrow> sim (\<lambda>e. T e h) (labelNames ops e h ids) (labelNames view_ops V h ids)"
proof -
  have "T e h V \<Longrightarrow> sim (\<lambda>e. T e h) (labelNames_loop ops e h ids out) (labelNames_loop view_ops V h ids out)" for e V out
  proof (induction ids arbitrary: e V out)
    case (Cons k keys)
    show ?case unfolding labelNames_loop.simps by (rule sim_rules sim_reads Cons | assumption)+
  qed (simp add: sim_rules)
  then show "T e h V \<Longrightarrow> ?thesis" unfolding labelNames_def by (blast intro: sim_rules)
qed

lemma sim_fillPropNames: "T e h V \<Longrightarrow> sim (\<lambda>e. T e h) (fillPropNames ops e h ps) (fillPropNames view_ops V h ps)"
proof -
  have "T e h V \<Longrightarrow> sim (\<lambda>e. T e h) (fillPropNames_loop ops e h ps out) (fillPropNames_loop view_ops V h ps out)" for e V out
  proof (induction ps arbitrary: e V out)
    case (Cons p ps)
    show ?case unfolding fillPropNames_loop.simps by (rule sim_rules sim_reads Cons | assumption)+
  qed (simp add: sim_rules)
  then show "T e h V \<Longrightarrow> ?thesis" unfolding fillPropNames_def by (blast intro: sim_rules)
qed

lemma sim_GetNode: "T e h V \<Longrightarrow> sim (\<lambda>e. T e h) (GetNode ops e h i) (GetNode view_ops V h i)"
  unfolding GetNode_def by (rule sim_rules sim_reads sim_labelNames sim_fillPropNames | assumption)+

lemma sim_loadEdge: "T e h V \<Longrightarrow> sim (\<lambda>e. T e h) (loadEdge ops e h i) (loadEdge view_ops V h i)"
  unfolding loadEdge_def by (rule sim_rules sim_reads sim_fillPropNames | assumption)+

lemma sim_GetEdge: "T e h V \<Longrightarrow> sim (\<lambda>e. T e h) (GetEdge ops e h i) (GetEdge view_ops V h i)"
  unfolding GetEdge_def by (rule sim_rules sim_loadEdge | assumption)+

lemma sim_incidentEdges: "T e h V \<Longrightarrow> sim (\<lambda>e. T e h) (incidentEdges ops e h i) (incidentEdges view_ops V h i)"
  unfolding incidentEdges_def by (rule sim_rules sim_reads | assumption)+

lemma sim_needNode: "T e h V \<Longrightarrow> sim (\<lambda>e. T e h) (needNode ops e h w i) (needNode view_ops V h w i)"
  unfolding needNode_def by (rule sim_rules sim_GetNode | assumption)+

lemma sim_getExisting:
  assumes "\<And>e V i. T e h V \<Longrightarrow> sim (\<lambda>e. T e h) (get e i) (get' V i)"
  shows "T e h V \<Longrightarrow> sim (\<lambda>e. T e h) (getExisting get e ids out) (getExisting get' V ids out)"
proof (induction ids arbitrary: e V out)
  case (Cons i ids)
  show ?case unfolding getExisting.simps by (rule sim_rules assms Cons | assumption)+
qed (simp add: sim_rules)

lemma sim_getAll:
  assumes "\<And>e V i. T e h V \<Longrightarrow> sim (\<lambda>e. T e h) (get e i) (get' V i)"
  shows "T e h V \<Longrightarrow> sim (\<lambda>e. T e h) (getAll get e ids out) (getAll get' V ids out)"
proof (induction ids arbitrary: e V out)
  case (Cons i ids)
  show ?case unfolding getAll.simps by (rule sim_rules assms Cons | assumption)+
qed (simp add: sim_rules)

lemmas sim_entity = sim_GetNode sim_GetEdge sim_needNode sim_getExisting [OF sim_GetNode] sim_getExisting [OF sim_GetEdge]
  sim_getAll [OF sim_GetNode] sim_getAll [OF sim_GetEdge]

lemma sim_NodesByLabel: "T e h V \<Longrightarrow> sim (\<lambda>e. T e h) (NodesByLabel ops e h l) (NodesByLabel view_ops V h l)"
  unfolding NodesByLabel_def by (rule sim_rules sim_reads sim_entity | assumption)+

lemma sim_NodesByPropEq: "T e h V \<Longrightarrow> sim (\<lambda>e. T e h) (NodesByPropEq ops e h l v) (NodesByPropEq view_ops V h l v)"
  unfolding NodesByPropEq_def by (rule sim_rules sim_reads sim_entity | assumption)+

lemma sim_AllNodes: "T e h V \<Longrightarrow> sim (\<lambda>e. T e h) (AllNodes ops e h) (AllNodes view_ops V h)"
  unfolding AllNodes_def by (rule sim_rules sim_reads sim_entity | assumption)+

lemma sim_AllEdges: "T e h V \<Longrightarrow> sim (\<lambda>e. T e h) (AllEdges ops e h) (AllEdges view_ops V h)"
  unfolding AllEdges_def by (rule sim_rules sim_reads sim_entity | assumption)+

lemma sim_EdgesBetween: "T e h V \<Longrightarrow> sim (\<lambda>e. T e h) (EdgesBetween ops e h a b) (EdgesBetween view_ops V h a b)"
  unfolding EdgesBetween_def by (rule sim_rules sim_reads sim_entity | assumption)+

lemma sim_EdgesByLabel: "T e h V \<Longrightarrow> sim (\<lambda>e. T e h) (EdgesByLabel ops e h l) (EdgesByLabel view_ops V h l)"
  unfolding EdgesByLabel_def by (rule sim_rules sim_reads sim_entity | assumption)+

lemma sim_outgoing: "T e h V \<Longrightarrow> sim (\<lambda>e. T e h) (outgoing ops e h i) (outgoing view_ops V h i)"
  unfolding outgoing_def by (rule sim_rules sim_reads | assumption)+

lemma sim_collectPrefix: "T e h V \<Longrightarrow> sim (\<lambda>e. T e h) (collectPrefix ops e h p) (collectPrefix view_ops V h p)"
  unfolding collectPrefix_def by (rule sim_rules sim_reads | assumption)+

lemma sim_ix_Equal: "T e h V \<Longrightarrow> sim (\<lambda>e. T e h) (ix_Equal ops e h i vs) (ix_Equal view_ops V h i vs)"
  unfolding ix_Equal_def by (rule sim_rules sim_collectPrefix | assumption)+

lemma sim_ix_Range: "T e h V \<Longrightarrow> sim (\<lambda>e. T e h) (ix_Range ops e h i lo hi li hh) (ix_Range view_ops V h i lo hi li hh)"
  unfolding ix_Range_def by (rule sim_rules sim_reads | assumption)+

end

section \<open>Writing\<close>

context kv_write
begin

lemma sim_put: "T e h V \<Longrightarrow> user ks \<Longrightarrow> sim (\<lambda>e. T e h) (ops_Put ops e h ks k v) (ops_Put view_ops V h ks k v)"
  using write_put [of e h V ks k v] by (auto simp: sim_def)

lemma sim_delete: "T e h V \<Longrightarrow> user ks \<Longrightarrow> sim (\<lambda>e. T e h) (ops_Delete ops e h ks k) (ops_Delete view_ops V h ks k)"
  using write_delete [of e h V ks k] by (auto simp: sim_def)

lemma sim_writeCounter: "T e h V \<Longrightarrow> sim (\<lambda>e. T e h) (writeCounter ops e h kd n) (writeCounter view_ops V h kd n)"
  unfolding writeCounter_def by (rule sim_put user_keyspaces | assumption)+

lemma sim_alloc: "T e h V \<Longrightarrow> sim (\<lambda>e. T e h) (alloc ops e h kd) (alloc view_ops V h kd)"
  unfolding alloc_def by (rule sim_rules sim_reads sim_writeCounter | assumption)+

lemma sim_putName: "T e h V \<Longrightarrow> sim (\<lambda>e. T e h) (putName ops e h kd rv n i) (putName view_ops V h kd rv n i)"
  unfolding putName_def by (rule sim_rules sim_put | assumption)+

lemma sim_intern: "T e h V \<Longrightarrow> sim (\<lambda>e. T e h) (intern ops e h kd rv ct n) (intern view_ops V h kd rv ct n)"
  unfolding intern_def by (rule sim_rules sim_reads sim_putName sim_writeCounter | assumption)+

lemma sim_internProp: "T e h V \<Longrightarrow> sim (\<lambda>e. T e h) (internProp ops e h n) (internProp view_ops V h n)"
  unfolding internProp_def by (rule sim_intern)

lemma sim_writeU64: "T e h V \<Longrightarrow> sim (\<lambda>e. T e h) (writeU64 ops e h kd n w) (writeU64 view_ops V h kd n w)"
  unfolding writeU64_def by (rule sim_put user_keyspaces | assumption)+

lemma sim_writeU32: "T e h V \<Longrightarrow> sim (\<lambda>e. T e h) (writeU32 ops e h kd n w) (writeU32 view_ops V h kd n w)"
  unfolding writeU32_def by (rule sim_put user_keyspaces | assumption)+

lemma sim_bumpWrites: "T e h V \<Longrightarrow> sim (\<lambda>e. T e h) (bumpWrites ops e h) (bumpWrites view_ops V h)"
  unfolding bumpWrites_def AddWrites_def by (rule sim_rules sim_reads sim_writeU64 | assumption)+

lemmas sim_writes = sim_put sim_delete sim_writeCounter sim_alloc sim_putName sim_intern sim_internProp sim_writeU64 sim_writeU32
  sim_bumpWrites

lemma sim_bump: "T e h V \<Longrightarrow> sim (\<lambda>e. T e h) (bump ops e h) (bump view_ops V h)"
  unfolding bump_def by (rule sim_rules sim_reads sim_writes | assumption)+

lemma sim_ensureFormat: "T e h V \<Longrightarrow> sim (\<lambda>e. T e h) (ensureFormat ops e h) (ensureFormat view_ops V h)"
  unfolding ensureFormat_def by (rule sim_rules sim_reads sim_writes | assumption)+

lemma sim_PutIndex: "T e h V \<Longrightarrow> sim (\<lambda>e. T e h) (PutIndex ops e h ix) (PutIndex view_ops V h ix)"
  unfolding PutIndex_def by (rule sim_rules sim_writes sim_bump sim_ensureFormat | assumption)+

lemma sim_PutConstraint: "T e h V \<Longrightarrow> sim (\<lambda>e. T e h) (PutConstraint ops e h c) (PutConstraint view_ops V h c)"
  unfolding PutConstraint_def by (rule sim_rules sim_writes sim_bump sim_ensureFormat | assumption)+

lemma sim_dropRecord: "T e h V \<Longrightarrow> sim (\<lambda>e. T e h) (dropRecord ops e h k) (dropRecord view_ops V h k)"
  unfolding dropRecord_def by (rule sim_rules sim_reads sim_writes sim_bump | assumption)+

lemma sim_touchDeclared:
  "T e h V \<Longrightarrow> sim (\<lambda>e. T e h) (touchDeclared ops e h en ls t ps i add) (touchDeclared view_ops V h en ls t ps i add)"
proof -
  have loop: "T e h V \<Longrightarrow> sim (\<lambda>e. T e h) (touchDeclared_loop ops e h en ls t pm i add ixs)
      (touchDeclared_loop view_ops V h en ls t pm i add ixs)" for e V pm ixs
  proof (induction ixs arbitrary: e V)
    case (Cons ix ixs)
    show ?case unfolding touchDeclared_loop.simps ix_Put_def ix_Delete_def
      by (rule sim_rules sim_writes Cons | assumption)+
  qed (simp add: sim_rules)
  show "T e h V \<Longrightarrow> ?thesis" unfolding touchDeclared_def by (rule sim_rules sim_cat_Load loop | assumption)+
qed

lemma sim_declared:
  "T e h V \<Longrightarrow> sim (\<lambda>e. T e h) (indexDeclaredNode ops e h n) (indexDeclaredNode view_ops V h n)"
  "T e h V \<Longrightarrow> sim (\<lambda>e. T e h) (unindexDeclaredNode ops e h n) (unindexDeclaredNode view_ops V h n)"
  "T e h V \<Longrightarrow> sim (\<lambda>e. T e h) (indexDeclaredEdge ops e h ed) (indexDeclaredEdge view_ops V h ed)"
  "T e h V \<Longrightarrow> sim (\<lambda>e. T e h) (unindexDeclaredEdge ops e h ed) (unindexDeclaredEdge view_ops V h ed)"
  unfolding indexDeclaredNode_def unindexDeclaredNode_def indexDeclaredEdge_def unindexDeclaredEdge_def
  by (rule sim_touchDeclared; assumption)+

lemma sim_deleteKeys: "T e h V \<Longrightarrow> user ks \<Longrightarrow> sim (\<lambda>e. T e h) (deleteKeys ops e h ks keys) (deleteKeys view_ops V h ks keys)"
proof (induction keys arbitrary: e V)
  case (Cons k keys)
  show ?case unfolding deleteKeys.simps by (rule sim_rules sim_writes Cons | assumption)+
qed (simp add: sim_rules)

lemma sim_ix_Drop: "T e h V \<Longrightarrow> sim (\<lambda>e. T e h) (ix_Drop ops e h i) (ix_Drop view_ops V h i)"
  unfolding ix_Drop_def by (rule sim_rules sim_reads sim_deleteKeys | assumption)+

lemma sim_assignProps: "T e h V \<Longrightarrow> sim (\<lambda>e. T e h) (assignProps ops e h ps) (assignProps view_ops V h ps)"
proof -
  have loop: "T e h V \<Longrightarrow> sim (\<lambda>e. T e h) (assignProps_loop ops e h ps m) (assignProps_loop view_ops V h ps m)" for e V m
  proof (induction ps arbitrary: e V m)
    case (Cons p ps)
    obtain n v where "p = (n, v)" by (cases p)
    then show ?case unfolding assignProps_loop.simps \<open>p = (n, v)\<close> by - (rule sim_rules sim_writes Cons | assumption)+
  qed (simp add: sim_rules)
  show "T e h V \<Longrightarrow> ?thesis" unfolding assignProps_def by (rule sim_rules loop | assumption)+
qed

lemma sim_mergeProps:
  "T e h V \<Longrightarrow> sim (\<lambda>e. T e h) (mergeProps_loop ops e h ps m) (mergeProps_loop view_ops V h ps m)"
proof (induction ps arbitrary: e V m)
  case (Cons p ps)
  obtain n v where p: "p = (n, v)" by (cases p)
  show ?case unfolding mergeProps_loop.simps p by (rule sim_rules sim_writes Cons | assumption)+
qed (simp add: sim_rules)

lemma sim_bindProps: "T e h V \<Longrightarrow> sim (\<lambda>e. T e h) (bindProps ops e h ps) (bindProps view_ops V h ps)"
proof -
  have loop: "T e h V \<Longrightarrow> sim (\<lambda>e. T e h) (bindProps_loop ops e h ps m) (bindProps_loop view_ops V h ps m)" for e V m
  proof (induction ps arbitrary: e V m)
    case (Cons p ps)
    show ?case unfolding bindProps_loop.simps by (rule sim_rules sim_reads sim_writes Cons | assumption)+
  qed (simp add: sim_rules)
  show "T e h V \<Longrightarrow> ?thesis" unfolding bindProps_def by (rule sim_rules loop | assumption)+
qed

lemma sim_internLabels: "T e h V \<Longrightarrow> sim (\<lambda>e. T e h) (internLabels ops e h ls) (internLabels view_ops V h ls)"
proof -
  have "T e h V \<Longrightarrow> sim (\<lambda>e. T e h) (internLabels_loop ops e h ls m) (internLabels_loop view_ops V h ls m)" for e V m
  proof (induction ls arbitrary: e V m)
    case (Cons p ps)
    show ?case unfolding internLabels_loop.simps by (rule sim_rules sim_writes Cons | assumption)+
  qed (simp add: sim_rules)
  then show "T e h V \<Longrightarrow> ?thesis" unfolding internLabels_def by blast
qed

lemma sim_indexLabels: "T e h V \<Longrightarrow> sim (\<lambda>e. T e h) (indexLabels ops e h i ls) (indexLabels view_ops V h i ls)"
proof -
  have "T e h V \<Longrightarrow> sim (\<lambda>e. T e h) (indexLabels_loop ops e h i ls m) (indexLabels_loop view_ops V h i ls m)" for e V m
  proof (induction ls arbitrary: e V m)
    case (Cons p ps)
    show ?case unfolding indexLabels_loop.simps by (rule sim_rules sim_writes Cons | assumption)+
  qed (simp add: sim_rules)
  then show "T e h V \<Longrightarrow> ?thesis" unfolding indexLabels_def by blast
qed

lemma sim_unindexLabels: "T e h V \<Longrightarrow> sim (\<lambda>e. T e h) (unindexLabels ops e h i ls) (unindexLabels view_ops V h i ls)"
proof (induction ls arbitrary: e V)
  case (Cons p ps)
  show ?case unfolding unindexLabels.simps by (rule sim_rules sim_reads sim_writes Cons | assumption)+
qed (simp add: sim_rules)

lemma sim_indexProps: "T e h V \<Longrightarrow> sim (\<lambda>e. T e h) (indexProps ops e h i ps) (indexProps view_ops V h i ps)"
proof (induction ps arbitrary: e V)
  case (Cons p ps)
  show ?case unfolding indexProps.simps by (rule sim_rules sim_writes Cons | assumption)+
qed (simp add: sim_rules)

lemma sim_unindexProps: "T e h V \<Longrightarrow> sim (\<lambda>e. T e h) (unindexProps ops e h i ps) (unindexProps view_ops V h i ps)"
proof (induction ps arbitrary: e V)
  case (Cons p ps)
  show ?case unfolding unindexProps.simps by (rule sim_rules sim_writes Cons | assumption)+
qed (simp add: sim_rules)

lemmas sim_upkeep = sim_declared sim_assignProps sim_mergeProps sim_bindProps sim_internLabels sim_indexLabels sim_unindexLabels
  sim_indexProps sim_unindexProps sim_deleteKeys

lemma sim_writeNode: "T e h V \<Longrightarrow> sim (\<lambda>e. T e h) (writeNode ops e h n) (writeNode view_ops V h n)"
  unfolding writeNode_def by (rule sim_rules sim_writes sim_upkeep | assumption)+

lemma sim_writeEdge: "T e h V \<Longrightarrow> sim (\<lambda>e. T e h) (writeEdge ops e h n) (writeEdge view_ops V h n)"
  unfolding writeEdge_def by (rule sim_rules sim_writes sim_upkeep | assumption)+

lemmas sim_records = sim_reads sim_writes sim_upkeep sim_entity sim_loadEdge sim_incidentEdges sim_writeNode sim_writeEdge

lemma sim_CreateNode: "T e h V \<Longrightarrow> sim (\<lambda>e. T e h) (CreateNode ops e h ls ps) (CreateNode view_ops V h ls ps)"
  unfolding CreateNode_def by (rule sim_rules sim_records | assumption)+

lemma sim_UpdateNode: "T e h V \<Longrightarrow> sim (\<lambda>e. T e h) (UpdateNode ops e h i ps) (UpdateNode view_ops V h i ps)"
  unfolding UpdateNode_def by (rule sim_rules sim_records | assumption)+

lemma sim_rewriteNode: "T e h V \<Longrightarrow> sim (\<lambda>e. T e h) (rewriteNode ops e h n ls ps) (rewriteNode view_ops V h n ls ps)"
  unfolding rewriteNode_def by (rule sim_rules sim_records | assumption)+

lemma sim_AddLabels: "T e h V \<Longrightarrow> sim (\<lambda>e. T e h) (AddLabels ops e h i ls) (AddLabels view_ops V h i ls)"
  unfolding AddLabels_def by (rule sim_rules sim_records sim_rewriteNode | assumption)+

lemma sim_RemoveLabels: "T e h V \<Longrightarrow> sim (\<lambda>e. T e h) (RemoveLabels ops e h i ls) (RemoveLabels view_ops V h i ls)"
  unfolding RemoveLabels_def by (rule sim_rules sim_records sim_rewriteNode | assumption)+

lemma sim_ReplaceNodeProps: "T e h V \<Longrightarrow> sim (\<lambda>e. T e h) (ReplaceNodeProps ops e h i ps) (ReplaceNodeProps view_ops V h i ps)"
  unfolding ReplaceNodeProps_def by (rule sim_rules sim_records sim_rewriteNode | assumption)+

lemma sim_DeleteNodeProps: "T e h V \<Longrightarrow> sim (\<lambda>e. T e h) (DeleteNodeProps ops e h i ns) (DeleteNodeProps view_ops V h i ns)"
  unfolding DeleteNodeProps_def by (rule sim_rules sim_records sim_rewriteNode | assumption)+

lemma sim_DeleteEdge: "T e h V \<Longrightarrow> sim (\<lambda>e. T e h) (DeleteEdge ops e h i) (DeleteEdge view_ops V h i)"
  unfolding DeleteEdge_def by (rule sim_rules sim_records | assumption)+

lemma sim_deleteEdges: "T e h V \<Longrightarrow> sim (\<lambda>e. T e h) (deleteEdges ops e h is sn) (deleteEdges view_ops V h is sn)"
proof (induction "is" arbitrary: e V sn)
  case (Cons i ids)
  show ?case unfolding deleteEdges.simps by (rule sim_rules sim_DeleteEdge Cons | assumption)+
qed (simp add: sim_rules)

lemma sim_DeleteNode: "T e h V \<Longrightarrow> sim (\<lambda>e. T e h) (DeleteNode ops e h i) (DeleteNode view_ops V h i)"
  unfolding DeleteNode_def by (rule sim_rules sim_records sim_deleteEdges | assumption)+

lemma sim_CreateEdge: "T e h V \<Longrightarrow> sim (\<lambda>e. T e h) (CreateEdge ops e h a b l ps) (CreateEdge view_ops V h a b l ps)"
  unfolding CreateEdge_def by (rule sim_rules sim_records | assumption)+

lemma sim_UpdateEdge: "T e h V \<Longrightarrow> sim (\<lambda>e. T e h) (UpdateEdge ops e h i ps) (UpdateEdge view_ops V h i ps)"
  unfolding UpdateEdge_def by (rule sim_rules sim_records | assumption)+

lemma sim_ReplaceEdgeProps: "T e h V \<Longrightarrow> sim (\<lambda>e. T e h) (ReplaceEdgeProps ops e h i ps) (ReplaceEdgeProps view_ops V h i ps)"
  unfolding ReplaceEdgeProps_def by (rule sim_rules sim_records | assumption)+

lemma sim_DeleteEdgeProps: "T e h V \<Longrightarrow> sim (\<lambda>e. T e h) (DeleteEdgeProps ops e h i ns) (DeleteEdgeProps view_ops V h i ns)"
  unfolding DeleteEdgeProps_def by (rule sim_rules sim_records | assumption)+

end

end
