(* ===== verification/GraphCodec.thy ===== *)
theory GraphCodec
  imports GraphStore
begin

text \<open>
  Keys and records read back what was written: every key of the graph store determines its parts, keys of
  different kinds differ, and node, edge, index, constraint and statistics records decode to what was
  encoded, for counts and lengths that fit in memory.
\<close>

section \<open>Keys\<close>

lemma be_append_inj [simp]:
  "be_put k m @ r = be_put k n @ r' \<longleftrightarrow> be_put k m = be_put k n \<and> r = r'"
  by (simp add: append_eq_append_conv)

lemma be_word_inj [simp]:
  "be_put 8 (unat (a :: uint64)) = be_put 8 (unat b) \<longleftrightarrow> a = b"
  "be_put 4 (unat (c :: uint32)) = be_put 4 (unat d) \<longleftrightarrow> c = d"
  using be_put_inj [OF unat64_bound unat64_bound, of a b] be_put_inj [OF unat32_bound unat32_bound, of c d]
  by (simp_all add: word_unat_eq_iff [symmetric])

lemma be_get_word [simp]:
  "word_of_nat (be_get (be_put 8 (unat (a :: uint64)))) = a"
  "word_of_nat (be_get (be_put 4 (unat (c :: uint32)))) = c"
  using unat64_bound [of a] unat32_bound [of c] by (simp_all add: be_get_be_put)

lemma id_keys_inj [simp]:
  "idKey a = idKey b \<longleftrightarrow> a = b"
  "labelKey l a = labelKey l' b \<longleftrightarrow> l = l' \<and> a = b"
  "typeKey t a = typeKey t' b \<longleftrightarrow> t = t' \<and> a = b"
  "outKey a t b e = outKey a' t' b' e' \<longleftrightarrow> a = a' \<and> t = t' \<and> b = b' \<and> e = e'"
  "inKey a t b e = inKey a' t' b' e' \<longleftrightarrow> a = a' \<and> t = t' \<and> b = b' \<and> e = e'"
  "revKey kd l = revKey kd' l' \<longleftrightarrow> kd = kd' \<and> l = l'"
  by (simp_all add: idKey_def labelKey_def typeKey_def outKey_def inKey_def revKey_def)

lemma key_lengths [simp]:
  "length (idKey a) = 8" "length (labelKey l a) = 12" "length (typeKey t a) = 12" "length (outKey a t b e) = 28"
  "length (inKey a t b e) = 28" "length (revKey kd l) = 5" "length (propIndexKey p v a) = 12 + length (EncodeKey v)"
  by (simp_all add: idKey_def labelKey_def typeKey_def outKey_def inKey_def revKey_def propIndexKey_def propIndexPrefix_def)

lemma propIndexKey_inj [simp]:
  "propIndexKey p v a = propIndexKey p' v' a' \<longleftrightarrow> p = p' \<and> EncodeKey v = EncodeKey v' \<and> a = a'"
proof
  assume e: "propIndexKey p v a = propIndexKey p' v' a'"
  then have "EncodeKey v @ be_put 8 (unat a) = EncodeKey v' @ be_put 8 (unat a')" "p = p'"
    by (simp_all add: propIndexKey_def propIndexPrefix_def)
  then show "p = p' \<and> EncodeKey v = EncodeKey v' \<and> a = a'" by (metis append_eq_append_conv be_word_inj(1) length_be_put)
qed (simp add: propIndexKey_def propIndexPrefix_def)

lemma parseAdj_keys [simp]:
  "parseAdj (outKey a t b e) = Some (a, t, b, e)"
  "parseAdj (inKey a t b e) = Some (a, t, b, e)"
  by (simp_all add: parseAdj_def outKey_def inKey_def)

lemma be64_at_keys [simp]:
  "be64_at 0 (idKey a) = a" "be64_at 4 (labelKey l a) = a" "be64_at 4 (typeKey l a) = a"
  "be64_at (length (propIndexPrefix p v)) (propIndexKey p v a) = a"
  by (simp_all add: be64_at_def idKey_def labelKey_def typeKey_def propIndexKey_def)

text \<open>A key of eight bytes is an id.\<close>

lemma be_put_get: "length bs = k \<Longrightarrow> be_put k (be_get bs) = bs"
proof (induction bs arbitrary: k)
  case (Cons b bs)
  then obtain j where k: "k = Suc j" "length bs = j" by auto
  have "be_get bs < 256 ^ j" using be_get_less [of bs] k by simp
  then show ?case using Cons.IH [OF k(2)] k
    by (simp add: be_put_add_mult [of j "be_get bs" "unat b"] add.commute mult.commute)
qed simp

lemma idKey_be64_at: "length k = 8 \<Longrightarrow> idKey (be64_at 0 k) = k"
  using be_get_less [of k] by (simp add: idKey_def be64_at_def unat_of_nat be_put_get)

lemma putUvarint_small: "n < 128 \<Longrightarrow> putUvarint n = [word_of_nat n]"
  and putUvarint_large: "\<not> n < 128 \<Longrightarrow> putUvarint n = word_of_nat (n mod 128 + 128) # putUvarint (n div 128)"
  by (subst putUvarint.simps, simp)+

lemma uvarint_byte_neq: "m < 128 \<Longrightarrow> (word_of_nat m :: byte) \<noteq> word_of_nat (n mod 128 + 128)"
proof
  assume "m < 128" "(word_of_nat m :: byte) = word_of_nat (n mod 128 + 128)"
  moreover have "n mod 128 < 128" by simp
  ultimately have "m = n mod 128 + 128" using byte_of_nat_eq [of m "n mod 128 + 128"] by linarith
  then show False using \<open>m < 128\<close> by simp
qed

lemma putUvarint_inj [simp]: "putUvarint m @ r = putUvarint n @ r' \<longleftrightarrow> m = n \<and> r = r'"
proof (induction m arbitrary: n rule: putUvarint.induct)
  case (1 m)
  have b: "n mod 128 < 128" "m mod 128 < 128" by simp_all
  consider "m < 128" "n < 128" | "m < 128" "\<not> n < 128" | "\<not> m < 128" "n < 128" | "\<not> m < 128" "\<not> n < 128" by blast
  then show ?case
  proof cases
    case 1
    then show ?thesis by (simp add: putUvarint_small byte_of_nat_eq)
  next
    case 2
    then show ?thesis using uvarint_byte_neq [of m n] by (auto simp: putUvarint_small putUvarint_large)
  next
    case 3
    then show ?thesis using uvarint_byte_neq [of n m] by (auto simp: putUvarint_small putUvarint_large)
  next
    case 4
    have "m = n" if "m mod 128 = n mod 128" "m div 128 = n div 128" using that by (metis div_mult_mod_eq)
    then show ?thesis using "1.IH" [OF 4(1), of "n div 128"] 4 b by (auto simp: putUvarint_large byte_of_nat_eq)
  qed
qed

lemma catalogKey_inj [simp]: "catalogKey kd a = catalogKey kd' b \<longleftrightarrow> kd = kd' \<and> a = b"
  by (auto simp: catalogKey_def)

lemma catalogKey_revKey: "kd \<noteq> kd' \<Longrightarrow> catalogKey kd a \<noteq> revKey kd' i"
  by (simp add: catalogKey_def revKey_def)

lemma cat_key_catalogKey: "cat_key = catalogKey"
  by (simp add: fun_eq_iff cat_key_def catalogKey_def)

section \<open>Node and edge records\<close>

definition record_fits :: "Prop \<Rightarrow> bool" where
  "record_fits p \<longleftrightarrow> shape_ok (p_Value p) \<and> fits_memory (p_Value p) \<and> length (EncodeRecord (p_Value p)) \<le> maxAlloc"

definition props_fit :: "Prop list \<Rightarrow> bool" where
  "props_fit ps \<longleftrightarrow> list_all record_fits ps \<and> length ps * sizeofProp \<le> maxAlloc"

definition unnamed :: "Prop \<Rightarrow> Prop" where
  "unnamed p = p\<lparr>p_Name := []\<rparr>"

lemma rbuf_uvar_put [simp]: "n < 2 ^ 64 \<Longrightarrow> rbuf_uvar (putUvarint n @ r) = Inr (n, r)"
  by (simp add: rbuf_uvar_def Uvarint_putUvarint)

lemma maxAlloc_less: "n \<le> maxAlloc \<Longrightarrow> n < 2 ^ 64"
  by (simp add: maxAlloc_def)

lemma unat_bounds: "unat (u :: uint64) < 2 ^ 64" "unat (v :: uint32) < 2 ^ 64" "unat v \<le> 2 ^ 32 - 1"
  using unat64_bound [of u] unat32_bound [of v] by simp_all

lemma gs_make_ok: "n * k \<le> maxAlloc \<Longrightarrow> gs_make k n = Inr ()"
  by (simp add: gs_make_def makeslice_ok)

definition prop_bytes :: "Prop \<Rightarrow> bytes" where
  "prop_bytes p = putUvarint (unat (p_ID p)) @ putUvarint (length (EncodeRecord (p_Value p))) @ EncodeRecord (p_Value p)"

lemma appendPropList_bytes: "appendPropList w ps = w @ concat (map prop_bytes ps)"
  by (induction ps arbitrary: w) (simp_all add: prop_bytes_def Let_def)

lemma rbuf_props_loop_bytes:
  "list_all record_fits ps \<Longrightarrow> rbuf_props_loop (length ps) (concat (map prop_bytes ps) @ r) out = Inr (out @ map unnamed ps, r)"
proof (induction ps arbitrary: out)
  case (Cons p ps)
  then have p: "record_fits p" by simp
  have "DecodeRecord (EncodeRecord (p_Value p)) = Inr (p_Value p)"
    using p by (simp add: record_fits_def record_read_back)
  then show ?case using Cons p unat_bounds(2,3) [of "p_ID p"] maxAlloc_less
    by (simp add: prop_bytes_def record_fits_def unnamed_def)
qed simp

lemma rbuf_props_bytes:
  "props_fit ps \<Longrightarrow> rbuf_props (appendProps [] ps @ r) = Inr (map unnamed ps, r)"
  by (auto simp: rbuf_props_def appendProps_def appendPropList_bytes props_fit_def gs_make_ok rbuf_props_loop_bytes
      sizeofProp_def maxAlloc_def)

lemma appendProps_append: "appendProps w ps = w @ appendProps [] ps"
  by (simp add: appendProps_def appendPropList_bytes)

lemma labels_bytes: "foldl (\<lambda>w i. w @ putUvarint (unat i)) w lids = w @ concat (map (\<lambda>i. putUvarint (unat (i :: uint32))) lids)"
  by (induction lids arbitrary: w) simp_all

lemma rbuf_labels_bytes:
  "rbuf_labels (length lids) (concat (map (\<lambda>i. putUvarint (unat i)) lids) @ r) out = Inr (out @ lids, r)"
proof (induction lids arbitrary: out)
  case (Cons i lids)
  then show ?case using unat_bounds(2,3) [of i] by simp
qed simp

lemma decodeNode_encodeNode:
  assumes "length lids * sizeofUint32 \<le> maxAlloc" and "props_fit ps"
  shows "decodeNode (encodeNode lids ps) = Inr (lids, map unnamed ps)"
proof -
  have "length lids < 2 ^ 64" using assms(1) by (simp add: sizeofUint32_def maxAlloc_def)
  then show ?thesis
    using assms rbuf_props_bytes [OF assms(2), of "[]"] rbuf_labels_bytes [of lids "appendProps [] ps" "[]"]
    by (simp add: decodeNode_def encodeNode_def appendProps_append [of "_ @ _"] appendProps_append [of "_ # _"]
        labels_bytes rbuf_byte_def gs_make_ok)
qed

lemma decodeEdge_encodeEdge:
  assumes "props_fit ps"
  shows "decodeEdge (encodeEdge a b t ps) = Inr \<lparr>de_From = a, de_To = b, de_TypeID = t, de_Props = map unnamed ps\<rparr>"
  using rbuf_props_bytes [OF assms, of "[]"] unat_bounds(1) [of a] unat_bounds(1) [of b] unat_bounds(2,3) [of t]
  by (simp add: decodeEdge_def encodeEdge_def appendProps_append [of "_ # _"] rbuf_byte_def)

section \<open>Schema records\<close>

lemma takeString_append [simp]: "length s < 2 ^ 64 \<Longrightarrow> takeString (putUvarint (length s) @ s @ r) = Inr (s, r)"
  and takeString_last [simp]: "length s < 2 ^ 64 \<Longrightarrow> takeString (putUvarint (length s) @ s) = Inr (s, [])"
  by (simp_all add: takeString_def Uvarint_putUvarint)

lemma takeBytes_append [simp]: "length s < 2 ^ 64 \<Longrightarrow> takeBytes (putUvarint (length s) @ s @ r) = Inr (s, r)"
  by (simp add: takeBytes_def Uvarint_putUvarint)

lemma takeCount_append [simp]: "n < 2 ^ 64 \<Longrightarrow> takeCount msg (putUvarint n @ r) = Inr (n, r)"
  by (simp add: takeCount_def Uvarint_putUvarint)

lemma takeU64_append [simp]: "takeU64 (be_put 8 (unat n) @ r) = Inr (n, r)"
  by (simp add: takeU64_def)

definition string_bytes :: "gostring \<Rightarrow> bytes" where
  "string_bytes s = putUvarint (length s) @ s"

lemma appendStrings_bytes: "foldl appendString buf ss = buf @ concat (map string_bytes ss)"
  by (induction ss arbitrary: buf) (simp_all add: appendString_def string_bytes_def)

lemma takeStrings_bytes:
  "list_all (\<lambda>s. length s < 2 ^ 64) ss \<Longrightarrow> takeStrings (length ss) (concat (map string_bytes ss) @ r) out = Inr (out @ ss, r)"
  by (induction ss arbitrary: out) (simp_all add: string_bytes_def)

lemma be_put_4: "\<exists>a b c d. be_put 4 n = [a, b, c, d]"
proof -
  have "be_put (Suc (Suc (Suc (Suc 0)))) n = [word_of_nat (n div 256 ^ 3), word_of_nat (n div 256 ^ 2), word_of_nat (n div 256 ^ 1), word_of_nat (n div 256 ^ 0)]"
    by (simp add: numeral_3_eq_3 numeral_2_eq_2)
  moreover have "Suc (Suc (Suc (Suc 0))) = 4" by simp
  ultimately show ?thesis by metis
qed

definition index_fits :: "cat_Index \<Rightarrow> bool" where
  "index_fits ix \<longleftrightarrow> length (ix_Label ix) < 2 ^ 64 \<and> length (ix_Props ix) < 2 ^ 64 \<and> list_all (\<lambda>s. length s < 2 ^ 64) (ix_Props ix)"

lemma decodeIndex_encodeIndex:
  assumes "index_fits ix"
  shows "decodeIndex (ix_Name ix) (encodeIndex ix) = Inr ix"
proof -
  have "encodeIndex ix = 1 # be_put 4 (unat (ix_ID ix)) @ ix_Entity ix # ix_State ix # (if ix_Unique ix then 1 else 0)
      # putUvarint (length (ix_Label ix)) @ ix_Label ix @ putUvarint (length (ix_Props ix)) @ concat (map string_bytes (ix_Props ix)) @ []"
    by (simp add: encodeIndex_def appendStrings_bytes appendString_def Let_def)
  moreover obtain b1 b2 b3 b4 where b: "be_put 4 (unat (ix_ID ix)) = [b1, b2, b3, b4]"
    using be_put_4 by blast
  moreover have "word_of_nat (be_get [b1, b2, b3, b4]) = ix_ID ix" using be_get_word(2) [of "ix_ID ix"] b by simp
  ultimately show ?thesis using assms takeStrings_bytes [of "ix_Props ix" "[]" "[]"]
    by (simp add: decodeIndex_def index_fits_def del: be_get.simps)
qed

definition constraint_fits :: "cat_Constraint \<Rightarrow> bool" where
  "constraint_fits c \<longleftrightarrow> length (co_Label c) < 2 ^ 64 \<and> length (co_Prop c) < 2 ^ 64 \<and> length (co_TypeName c) < 2 ^ 64
     \<and> length (co_IndexName c) < 2 ^ 64"

lemma decodeConstraint_encodeConstraint:
  assumes "constraint_fits c"
  shows "decodeConstraint (co_Name c) (encodeConstraint c) = Inr c"
proof -
  have "encodeConstraint c = 1 # co_Kind c # co_Entity c # putUvarint (length (co_Label c)) @ co_Label c
      @ putUvarint (length (co_Prop c)) @ co_Prop c @ putUvarint (length (co_TypeName c)) @ co_TypeName c
      @ putUvarint (length (co_IndexName c)) @ co_IndexName c @ []"
    by (simp add: encodeConstraint_def appendString_def)
  then show ?thesis using assms by (simp add: decodeConstraint_def constraint_fits_def)
qed

section \<open>Statistics\<close>

definition bucket_bytes :: "Bucket \<Rightarrow> bytes" where
  "bucket_bytes b = string_bytes (bk_Upper b) @ be_put 8 (unat (bk_Count b)) @ be_put 8 (unat (bk_NDV b))"

lemma appendBuckets_bytes: "appendBuckets buf bs = buf @ concat (map bucket_bytes bs)"
  by (induction bs arbitrary: buf) (simp_all add: bucket_bytes_def string_bytes_def cat_appendBytes_def appendI64_def cat_appendU64_def)

lemma takeI64_append [simp]: "takeI64 (be_put 8 (unat n) @ r) = Inr (n, r)"
  by (simp add: takeI64_def)

lemma takeBuckets_bytes:
  "list_all (\<lambda>b. length (bk_Upper b) < 2 ^ 64) bs \<Longrightarrow>
   takeBuckets (length bs) (concat (map bucket_bytes bs) @ r) out = Inr (out @ bs, r)"
  by (induction bs arbitrary: out) (simp_all add: bucket_bytes_def string_bytes_def)

definition hist_fits :: "Histogram \<Rightarrow> bool" where
  "hist_fits h \<longleftrightarrow> length (hi_Min h) < 2 ^ 64 \<and> length (hi_Max h) < 2 ^ 64 \<and> length (hi_Buckets h) < 2 ^ 64
     \<and> list_all (\<lambda>b. length (bk_Upper b) < 2 ^ 64) (hi_Buckets h)"

lemma appendHist_append: "appendHist buf h = buf @ appendHist [] h"
  by (simp add: appendHist_def Let_def appendBuckets_bytes cat_appendBytes_def appendI64_def cat_appendU64_def)

lemma takeHist_append: "hist_fits h \<Longrightarrow> takeHist (appendHist [] h @ r) = Inr (h, r)"
  using takeBuckets_bytes [of "hi_Buckets h" r "[]"]
  by (simp add: hist_fits_def takeHist_def appendHist_def Let_def appendBuckets_bytes cat_appendBytes_def appendI64_def cat_appendU64_def)

lemma appendI64s_append: "appendI64s buf m = buf @ appendI64s [] m"
proof (induction m arbitrary: buf)
  case (Cons e m)
  obtain k v where "e = (k, v)" by (cases e)
  then show ?case using Cons.IH [of "appendI64 (appendString buf k) v"] Cons.IH [of "appendI64 (appendString [] k) v"]
    by (simp add: appendString_def appendI64_def cat_appendU64_def)
qed simp

lemma takeI64s_append:
  "distinct (map fst (out @ m)) \<Longrightarrow> list_all (\<lambda>e. length (fst e) < 2 ^ 64) m \<Longrightarrow>
   takeI64s (length m) (appendI64s [] m @ r) out = Inr (out @ m, r)"
proof (induction m arbitrary: out)
  case (Cons e m)
  obtain k v where e: "e = (k, v)" by (cases e)
  have "AList.update k v out = out @ [(k, v)]" using Cons.prems(1) e by (intro AList_update_new) auto
  then show ?case using Cons.IH [of "out @ [(k, v)]"] Cons.prems e appendI64s_append [of "appendI64 (appendString [] k) v" m]
    by (simp add: appendString_def appendI64_def cat_appendU64_def)
qed simp

lemma appendHists_append: "appendHists buf m = buf @ appendHists [] m"
proof (induction m arbitrary: buf)
  case (Cons e m)
  obtain k v where "e = (k, v)" by (cases e)
  then show ?case using Cons.IH [of "appendHist (appendString buf k) v"] Cons.IH [of "appendHist (appendString [] k) v"]
      appendHist_append [of "appendString buf k"] appendHist_append [of "appendString [] k"]
    by (simp add: appendString_def)
qed simp

lemma takeHists_append:
  "distinct (map fst (out @ m)) \<Longrightarrow> list_all (\<lambda>e. length (fst e) < 2 ^ 64 \<and> hist_fits (snd e)) m \<Longrightarrow>
   takeHists (length m) (appendHists [] m @ r) out = Inr (out @ m, r)"
proof (induction m arbitrary: out)
  case (Cons e m)
  obtain k v where e: "e = (k, v)" by (cases e)
  have "AList.update k v out = out @ [(k, v)]" using Cons.prems(1) e by (intro AList_update_new) auto
  then show ?case using Cons.IH [of "out @ [(k, v)]"] Cons.prems e appendHists_append [of "appendHist (appendString [] k) v" m]
      appendHist_append [of "appendString [] k"] takeHist_append [of v]
    by (simp add: appendString_def)
qed simp

lemma sorted_entries_props:
  assumes "distinct (map fst m)"
  shows "map_of (sorted_entries m) = map_of m" "distinct (map fst (sorted_entries m))" "length (sorted_entries m) = length m"
    "set (sorted_entries m) = set m"
proof -
  have k: "set (sort (map fst m)) = fst ` set m" by simp
  have "map_of (sorted_entries m) k = map_of m k" for k
    by (auto simp: sorted_entries_def map_of_map_restrict restrict_map_def dom_def simp flip: dom_map_of_conv_image_fst)
  then show 1: "map_of (sorted_entries m) = map_of m" by blast
  have d: "map fst (sorted_entries m) = sort (map fst m)" by (simp add: sorted_entries_def comp_def)
  then show 2: "distinct (map fst (sorted_entries m))" using assms by simp
  show "length (sorted_entries m) = length m" by (simp add: sorted_entries_def)
  show "set (sorted_entries m) = set m" using map_of_inject_set [OF 2 assms] 1 by simp
qed

definition stats_fit :: "cat_Stats \<Rightarrow> bool" where
  "stats_fit st \<longleftrightarrow> distinct (map fst (cs_Labels st)) \<and> distinct (map fst (cs_EdgeTypes st)) \<and> distinct (map fst (cs_Props st))
     \<and> length (cs_Labels st) < 2 ^ 64 \<and> length (cs_EdgeTypes st) < 2 ^ 64 \<and> length (cs_Props st) < 2 ^ 64
     \<and> list_all (\<lambda>e. length (fst e) < 2 ^ 64) (cs_Labels st) \<and> list_all (\<lambda>e. length (fst e) < 2 ^ 64) (cs_EdgeTypes st)
     \<and> list_all (\<lambda>e. length (fst e) < 2 ^ 64 \<and> hist_fits (snd e)) (cs_Props st)"

lemma takeI64Map_append:
  assumes "distinct (map fst m)" "length m < 2 ^ 64" "list_all (\<lambda>e. length (fst e) < 2 ^ 64) m"
  shows "takeI64Map (appendI64Map [] m @ r) = Inr (sorted_entries m, r)"
proof -
  note p = sorted_entries_props [OF assms(1)]
  have "list_all (\<lambda>e. length (fst e) < 2 ^ 64) (sorted_entries m)" using assms(3) p(4) by (simp add: list_all_iff)
  then show ?thesis using takeI64s_append [of "[]" "sorted_entries m" r] p(2,3) assms(2)
      appendI64s_append [of "putUvarint (length m)"]
    by (simp add: takeI64Map_def appendI64Map_def)
qed

lemma decodeStats_encodeStats:
  assumes "stats_fit st"
  shows "decodeStats (encodeStats st) = Inr (st\<lparr>cs_Labels := sorted_entries (cs_Labels st),
    cs_EdgeTypes := sorted_entries (cs_EdgeTypes st), cs_Props := sorted_entries (cs_Props st)\<rparr>)"
proof -
  have m: "appendI64Map buf m = buf @ appendI64Map [] m" for buf m
    using appendI64s_append [of "buf @ _"] appendI64s_append [of "putUvarint _"] by (simp add: appendI64Map_def)
  let ?ps = "sorted_entries (cs_Props st)"
  note p = sorted_entries_props [of "cs_Props st"]
  have h: "takeHists (length (cs_Props st)) (appendHists [] ?ps) [] = Inr (?ps, [])"
    using takeHists_append [of "[]" ?ps "[]"] p assms by (simp add: stats_fit_def list_all_iff)
  have "encodeStats st = 1 # be_put 8 (unat (cs_Nodes st)) @ be_put 8 (unat (cs_Edges st)) @ appendI64Map [] (cs_Labels st)
      @ appendI64Map [] (cs_EdgeTypes st) @ putUvarint (length (cs_Props st)) @ appendHists [] ?ps"
    using m [of "_ # _"] m [of "_ @ _"] appendHists_append [of "_ @ _"]
    by (simp add: encodeStats_def Let_def cat_appendU64_def)
  then show ?thesis using assms h by (simp add: decodeStats_def stats_fit_def takeI64Map_append)
qed

end
