(* ===== verification/GraphNames.thy ===== *)
theory GraphNames
  imports GraphSim GraphCodec
begin

text \<open>
  Interned names. A table is a catalog record per name, a reverse record per id and a counter; it is sound
  when the two kinds of record are inverse to each other and the counter is above every id. \<open>intern\<close> keeps
  tables sound, never changes an id it gave, and touches nothing outside its table.
\<close>

section \<open>Frames of the catalog keyspace\<close>

definition cat_frame :: "byte set \<Rightarrow> kvview \<Rightarrow> kvview \<Rightarrow> bool" where
  "cat_frame B V V' \<longleftrightarrow> (\<forall>ks k. (ks = KSCatalog \<longrightarrow> k = [] \<or> hd k \<notin> B) \<longrightarrow> V' ks k = V ks k) \<and> (fin_view V \<longrightarrow> fin_view V')"

lemma cat_frame_refl [simp]: "cat_frame B V V"
  by (simp add: cat_frame_def)

lemma cat_frame_trans: "cat_frame B V W \<Longrightarrow> cat_frame B W X \<Longrightarrow> cat_frame B V X"
  by (simp add: cat_frame_def)

lemma cat_frame_mono: "cat_frame B V W \<Longrightarrow> B \<subseteq> C \<Longrightarrow> cat_frame C V W"
  by (auto simp: cat_frame_def)

lemma hd_keys [simp]: "hd (catalogKey kd n) = kd" "hd (revKey kd i) = kd" "catalogKey kd n \<noteq> []" "revKey kd i \<noteq> []"
  by (simp_all add: catalogKey_def revKey_def)

lemma cat_frame_upd: "k \<noteq> [] \<Longrightarrow> hd k \<in> B \<Longrightarrow> cat_frame B V (upd_view V KSCatalog k v)"
  by (auto simp: cat_frame_def upd_view_apply)

lemma cat_frame_catalog: "cat_frame B V W \<Longrightarrow> kd \<notin> B \<Longrightarrow> W KSCatalog (catalogKey kd n) = V KSCatalog (catalogKey kd n)"
  and cat_frame_rev: "cat_frame B V W \<Longrightarrow> kd \<notin> B \<Longrightarrow> W KSCatalog (revKey kd i) = V KSCatalog (revKey kd i)"
  and cat_frame_ks: "cat_frame B V W \<Longrightarrow> ks \<noteq> KSCatalog \<Longrightarrow> W ks = V ks"
  and cat_frame_fin: "cat_frame B V W \<Longrightarrow> fin_view V \<Longrightarrow> fin_view W"
  by (auto simp: cat_frame_def)

section \<open>Counters\<close>

definition counter_ok :: "kvview \<Rightarrow> byte \<Rightarrow> bool" where
  "counter_ok V ct \<longleftrightarrow> (case V KSCatalog (catalogKey ct []) of None \<Rightarrow> True | Some raw \<Rightarrow> length raw = 8)"

definition counter_of :: "kvview \<Rightarrow> byte \<Rightarrow> uint64" where
  "counter_of V ct = (case V KSCatalog (catalogKey ct []) of None \<Rightarrow> 1 | Some raw \<Rightarrow> word_of_nat (be_get raw))"

lemma readCounter_view: "counter_ok V ct \<Longrightarrow> readCounter view_ops V h ct = (V, Inr (counter_of V ct))"
  by (auto simp: readCounter_def counter_ok_def counter_of_def view_get_def split: option.splits)

definition set_counter :: "kvview \<Rightarrow> byte \<Rightarrow> uint64 \<Rightarrow> kvview" where
  "set_counter V ct n = upd_view V KSCatalog (catalogKey ct []) (Some (be_put 8 (unat n)))"

lemma writeCounter_view: "writeCounter view_ops V h ct n = (set_counter V ct n, Inr ())"
  by (simp add: writeCounter_def set_counter_def)

lemma set_counter_self [simp]: "counter_ok (set_counter V ct n) ct" "counter_of (set_counter V ct n) ct = n"
  by (simp_all add: counter_ok_def counter_of_def set_counter_def upd_view_apply)

lemma set_counter_frame: "cat_frame {ct} V (set_counter V ct n)"
  by (simp add: set_counter_def cat_frame_upd)

lemma counter_frame: "cat_frame B V W \<Longrightarrow> ct \<notin> B \<Longrightarrow> counter_of W ct = counter_of V ct \<and> counter_ok W ct = counter_ok V ct"
  by (simp add: counter_of_def counter_ok_def cat_frame_catalog)

lemma alloc_view: "counter_ok V ct \<Longrightarrow> alloc view_ops V h ct = (set_counter V ct (counter_of V ct + 1), Inr (counter_of V ct))"
  by (simp add: alloc_def readCounter_view writeCounter_view)

section \<open>Tables\<close>

definition name_id :: "kvview \<Rightarrow> byte \<Rightarrow> gostring \<Rightarrow> uint32 option" where
  "name_id V kd name = map_option (\<lambda>raw. word_of_nat (be_get raw)) (V KSCatalog (catalogKey kd name))"

definition id_name :: "kvview \<Rightarrow> byte \<Rightarrow> uint32 \<Rightarrow> gostring option" where
  "id_name V rv i = V KSCatalog (revKey rv i)"

definition names_ok :: "kvview \<Rightarrow> byte \<Rightarrow> byte \<Rightarrow> byte \<Rightarrow> bool" where
  "names_ok V kd rv ct \<longleftrightarrow> counter_ok V ct \<and> counter_of V ct \<noteq> 0
     \<and> (\<forall>name raw. V KSCatalog (catalogKey kd name) = Some raw \<longrightarrow> length raw = 4)
     \<and> (\<forall>name i. name_id V kd name = Some i \<longleftrightarrow> id_name V rv i = Some name)
     \<and> (\<forall>name i. name_id V kd name = Some i \<longrightarrow> i \<noteq> 0 \<and> unat i < unat (counter_of V ct))"

lemma names_okD:
  assumes "names_ok V kd rv ct"
  shows "counter_ok V ct" "counter_of V ct \<noteq> 0" "V KSCatalog (catalogKey kd name) = Some raw \<Longrightarrow> length raw = 4"
    "name_id V kd name = Some i \<longleftrightarrow> id_name V rv i = Some name"
    "name_id V kd name = Some i \<Longrightarrow> i \<noteq> 0" "name_id V kd name = Some i \<Longrightarrow> unat i < unat (counter_of V ct)"
  using assms unfolding names_ok_def by blast+

lemma table_frame:
  assumes "cat_frame B V W" and "kd \<notin> B" and "rv \<notin> B"
  shows "name_id W kd = name_id V kd" "id_name W rv = id_name V rv" "ct \<notin> B \<Longrightarrow> names_ok W kd rv ct = names_ok V kd rv ct"
  using counter_frame [OF assms(1), of ct] cat_frame_catalog [OF assms(1,2)] cat_frame_rev [OF assms(1,3)]
  by (auto simp: name_id_def id_name_def names_ok_def fun_eq_iff)

lemma lookupName_view:
  assumes "names_ok V kd rv ct"
  shows "lookupName view_ops V h kd name = (V, Inr (name_id V kd name))"
  using names_okD(3) [OF assms] by (auto simp: lookupName_def view_get_def name_id_def split: option.splits)

lemma catName_view:
  assumes "names_ok V kd rv ct"
  shows "catName view_ops V h rv i = (V, Inr (id_name V rv i))"
proof (cases "i = 0")
  case True
  then have "id_name V rv i = None" using names_okD(4,5) [OF assms] by (metis not_None_eq)
  then show ?thesis using True by (simp add: catName_def)
qed (auto simp: catName_def view_get_def id_name_def split: option.splits)

lemma names_inj: "names_ok V kd rv ct \<Longrightarrow> name_id V kd a = Some i \<Longrightarrow> name_id V kd b = Some i \<Longrightarrow> a = b"
  using names_okD(4) by (metis option.inject)

text \<open>Writing a name under the counter's value.\<close>

definition add_name :: "kvview \<Rightarrow> byte \<Rightarrow> byte \<Rightarrow> byte \<Rightarrow> gostring \<Rightarrow> kvview" where
  "add_name V kd rv ct name =
     (let i = (ucast (counter_of V ct) :: uint32) in
      set_counter (upd_view (upd_view V KSCatalog (catalogKey kd name) (Some (be_put 4 (unat i)))) KSCatalog (revKey rv i) (Some name))
        ct (counter_of V ct + 1))"

lemma add_name_frame: "cat_frame {kd, rv, ct} V (add_name V kd rv ct name)"
  unfolding add_name_def Let_def
  by (rule cat_frame_trans [OF cat_frame_trans [OF cat_frame_upd cat_frame_upd] cat_frame_mono [OF set_counter_frame]]) auto

lemma unat_ucast_counter: "unat (n :: uint64) \<le> 2 ^ 32 - 1 \<Longrightarrow> unat (ucast n :: uint32) = unat n"
  by (simp add: unsigned_ucast_eq take_bit_nat_eq_self)

lemma add_name_table:
  assumes ok: "names_ok V kd rv ct" and new: "name_id V kd name = None" and room: "unat (counter_of V ct) \<le> 2 ^ 32 - 1"
    and dis: "kd \<noteq> rv" "kd \<noteq> ct" "rv \<noteq> ct"
  shows "names_ok (add_name V kd rv ct name) kd rv ct"
    and "name_id (add_name V kd rv ct name) kd = (name_id V kd)(name \<mapsto> ucast (counter_of V ct))"
    and "id_name (add_name V kd rv ct name) rv = (id_name V rv)(ucast (counter_of V ct) \<mapsto> name)"
    and "counter_of (add_name V kd rv ct name) ct = counter_of V ct + 1"
proof -
  let ?V = "add_name V kd rv ct name" and ?i = "ucast (counter_of V ct) :: uint32"
  note d = catalogKey_revKey [OF dis(1)] catalogKey_revKey [OF dis(1) , THEN not_sym] catalogKey_revKey [OF dis(3) [symmetric]]
    catalogKey_revKey [OF dis(3) [symmetric], THEN not_sym]
  have c: "?V KSCatalog (catalogKey kd n) = (if n = name then Some (be_put 4 (unat ?i)) else V KSCatalog (catalogKey kd n))" for n
    using dis d by (auto simp: add_name_def set_counter_def upd_view_apply Let_def)
  have r: "?V KSCatalog (revKey rv i) = (if i = ?i then Some name else V KSCatalog (revKey rv i))" for i
    using dis d by (auto simp: add_name_def set_counter_def upd_view_apply Let_def)
  show n: "name_id ?V kd = (name_id V kd)(name \<mapsto> ?i)" by (auto simp: name_id_def c fun_eq_iff)
  show i: "id_name ?V rv = (id_name V rv)(?i \<mapsto> name)" by (auto simp: id_name_def r fun_eq_iff)
  show k: "counter_of ?V ct = counter_of V ct + 1" by (simp add: add_name_def Let_def)
  have ui: "unat ?i = unat (counter_of V ct)" by (rule unat_ucast_counter [OF room])
  have s: "unat (counter_of V ct + 1) = unat (counter_of V ct) + 1"
    using room by (simp add: unat_word_ariths)
  have fresh: "id_name V rv ?i = None"
    using names_okD(4,6) [OF ok] ui by (metis less_irrefl not_None_eq)
  show "names_ok ?V kd rv ct"
    unfolding names_ok_def
  proof (intro conjI allI impI)
    show "counter_ok ?V ct" by (simp add: add_name_def Let_def)
    show "counter_of ?V ct \<noteq> 0" using s k by (metis add_is_0 one_neq_zero unat_eq_zero)
    show "length raw = 4" if "?V KSCatalog (catalogKey kd n) = Some raw" for n raw
      using that names_okD(3) [OF ok, of n raw] by (auto simp: c split: if_splits)
    show "name_id ?V kd n = Some j \<longleftrightarrow> id_name ?V rv j = Some n" for n j
      using names_okD(4) [OF ok, of n j] fresh new unfolding n i by auto
    show "j \<noteq> 0" if "name_id ?V kd n = Some j" for n j
      using that names_okD(2) [OF ok] names_okD(5) [OF ok, of n j] ui unfolding n by (auto split: if_splits simp: word_unat_eq_iff)
    show "unat j < unat (counter_of ?V ct)" if "name_id ?V kd n = Some j" for n j
      using that names_okD(6) [OF ok, of n j] ui s k unfolding n by (auto split: if_splits)
  qed
qed

lemma intern_view:
  assumes ok: "names_ok V kd rv ct"
  shows "intern view_ops V h kd rv ct name = (case name_id V kd name of
      Some i \<Rightarrow> (V, Inr i)
    | None \<Rightarrow> if unat (counter_of V ct) > 2 ^ 32 - 1 then (V, Inl (corrupt ''catalog id space''))
        else (add_name V kd rv ct name, Inr (ucast (counter_of V ct))))"
proof (cases "V KSCatalog (catalogKey kd name)")
  case None
  then show ?thesis using names_okD(1,2) [OF ok]
    by (simp add: intern_def view_get_def name_id_def readCounter_view putName_def writeCounter_view add_name_def Let_def)
next
  case (Some raw)
  then show ?thesis using names_okD(3) [OF ok Some] by (simp add: intern_def view_get_def name_id_def)
qed

section \<open>The three tables\<close>

definition tables :: "kvview \<Rightarrow> bool" where
  "tables V \<longleftrightarrow> names_ok V catProp catPropRev catNextProp \<and> names_ok V catLabel catLabelRev catNextLabel
     \<and> names_ok V catEdgeType catTypeRev catNextType"

lemma tablesD:
  assumes "tables V"
  shows "names_ok V catProp catPropRev catNextProp" "names_ok V catLabel catLabelRev catNextLabel"
    "names_ok V catEdgeType catTypeRev catNextType"
  using assms by (simp_all add: tables_def)

definition name_bytes :: "byte set" where
  "name_bytes = {catProp, catPropRev, catNextProp, catLabel, catLabelRev, catNextLabel, catEdgeType, catTypeRev, catNextType}"

text \<open>
  Ids left: \<open>n\<close> more names leave every counter at most \<open>0xFF000000\<close>, so property ids stay below the ids whose
  index keys would start with the marker of declared indexes.
\<close>

definition room :: "kvview \<Rightarrow> nat \<Rightarrow> bool" where
  "room V n \<longleftrightarrow> unat (counter_of V catNextProp) + n \<le> 0xFF000000 \<and> unat (counter_of V catNextLabel) + n \<le> 0xFF000000
     \<and> unat (counter_of V catNextType) + n \<le> 0xFF000000"

definition grows :: "kvview \<Rightarrow> kvview \<Rightarrow> bool" where
  "grows V W \<longleftrightarrow> name_id V catProp \<subseteq>\<^sub>m name_id W catProp \<and> name_id V catLabel \<subseteq>\<^sub>m name_id W catLabel
     \<and> name_id V catEdgeType \<subseteq>\<^sub>m name_id W catEdgeType"

definition named :: "kvview \<Rightarrow> kvview \<Rightarrow> nat \<Rightarrow> bool" where
  "named V W n \<longleftrightarrow> tables W \<and> room W n \<and> grows V W \<and> cat_frame name_bytes V W"

lemma grows_refl [simp]: "grows V V" and grows_trans: "grows V W \<Longrightarrow> grows W X \<Longrightarrow> grows V X"
  by (auto simp: grows_def intro: map_le_trans)

lemma named_refl: "tables V \<Longrightarrow> room V n \<Longrightarrow> named V V n"
  by (simp add: named_def)

lemma named_trans: "named V W n \<Longrightarrow> named W X m \<Longrightarrow> named V X m"
  by (auto simp: named_def intro: grows_trans cat_frame_trans)

lemma room_mono: "room V n \<Longrightarrow> m \<le> n \<Longrightarrow> room V m"
  by (auto simp: room_def)

lemma named_less: "named V W n \<Longrightarrow> m \<le> n \<Longrightarrow> named V W m"
  by (auto simp: named_def intro: room_mono)

lemma grows_name:
  assumes "grows V W"
  shows "name_id V catProp n = Some i \<Longrightarrow> name_id W catProp n = Some i"
    "name_id V catLabel n = Some i \<Longrightarrow> name_id W catLabel n = Some i"
    "name_id V catEdgeType n = Some i \<Longrightarrow> name_id W catEdgeType n = Some i"
  using assms by (auto simp: grows_def map_le_def dom_def)

lemma grows_id:
  assumes "grows V W" "tables V" "tables W"
  shows "id_name V catPropRev i = Some n \<Longrightarrow> id_name W catPropRev i = Some n"
    "id_name V catLabelRev i = Some n \<Longrightarrow> id_name W catLabelRev i = Some n"
    "id_name V catTypeRev i = Some n \<Longrightarrow> id_name W catTypeRev i = Some n"
  using grows_name [OF assms(1)] names_okD(4) tablesD [OF assms(2)] tablesD [OF assms(3)] by metis+

lemma cat_bytes_distinct: "distinct [catProp, catPropRev, catNextProp, catLabel, catLabelRev, catNextLabel, catEdgeType,
    catTypeRev, catNextType, catNextNode, catNextEdge, catUniqueDef, catUniqueIdx]"
  by (simp add: cat_defs)

lemma add_name_named:
  assumes t: "tables V" and r: "room V (Suc n)"
    and k: "(kd, rv, ct) \<in> {(catProp, catPropRev, catNextProp), (catLabel, catLabelRev, catNextLabel), (catEdgeType, catTypeRev, catNextType)}"
    and new: "name_id V kd name = None"
  shows "named V (add_name V kd rv ct name) n"
    and "name_id (add_name V kd rv ct name) kd name = Some (ucast (counter_of V ct))"
proof -
  let ?W = "add_name V kd rv ct name"
  have ok: "names_ok V kd rv ct" using k tablesD [OF t] by auto
  have rm: "unat (counter_of V ct) + Suc n \<le> 0xFF000000" using k r by (auto simp: room_def)
  have dis: "kd \<noteq> rv" "kd \<noteq> ct" "rv \<noteq> ct" using k by (auto simp: cat_defs)
  have rm2: "unat (counter_of V ct) \<le> 2 ^ 32 - 1" using rm by simp
  note a = add_name_table [OF ok new rm2 dis]
  note fr = add_name_frame [of kd rv ct V name]
  have c: "unat (counter_of ?W ct) = unat (counter_of V ct) + 1"
    unfolding a(4) using rm by (simp add: unat_word_ariths)
  show "name_id ?W kd name = Some (ucast (counter_of V ct))" using a(2) by simp
  have other: "names_ok ?W kd' rv' ct' \<and> name_id ?W kd' = name_id V kd' \<and> counter_of ?W ct' = counter_of V ct'"
    if "(kd', rv', ct') \<in> {(catProp, catPropRev, catNextProp), (catLabel, catLabelRev, catNextLabel), (catEdgeType, catTypeRev, catNextType)}"
      "kd' \<noteq> kd" for kd' rv' ct'
  proof -
    have n: "kd' \<notin> {kd, rv, ct}" "rv' \<notin> {kd, rv, ct}" "ct' \<notin> {kd, rv, ct}"
      using k that cat_bytes_distinct by auto
    have "names_ok V kd' rv' ct'" using that tablesD [OF t] by auto
    then show ?thesis using table_frame [OF fr n(1,2)] n(3) counter_frame [OF fr n(3)] by simp
  qed
  have le: "name_id V kd \<subseteq>\<^sub>m name_id ?W kd" using a(2) new by (auto simp: map_le_def)
  have "tables ?W \<and> grows V ?W \<and> room ?W n"
    using k
  proof (elim insertE emptyE)
    assume "(kd, rv, ct) = (catProp, catPropRev, catNextProp)"
    then show ?thesis using other [of catLabel catLabelRev catNextLabel] other [of catEdgeType catTypeRev catNextType] a(1) le c r
      by (simp add: tables_def grows_def room_def cat_defs)
  next
    assume "(kd, rv, ct) = (catLabel, catLabelRev, catNextLabel)"
    then show ?thesis using other [of catProp catPropRev catNextProp] other [of catEdgeType catTypeRev catNextType] a(1) le c r
      by (simp add: tables_def grows_def room_def cat_defs)
  next
    assume "(kd, rv, ct) = (catEdgeType, catTypeRev, catNextType)"
    then show ?thesis using other [of catProp catPropRev catNextProp] other [of catLabel catLabelRev catNextLabel] a(1) le c r
      by (simp add: tables_def grows_def room_def cat_defs)
  qed
  moreover have "{kd, rv, ct} \<subseteq> name_bytes" using k by (auto simp: name_bytes_def)
  ultimately show "named V ?W n" using cat_frame_mono [OF fr] by (simp add: named_def)
qed

lemma intern_named:
  assumes t: "tables V" and r: "room V (Suc n)"
    and k: "(kd, rv, ct) \<in> {(catProp, catPropRev, catNextProp), (catLabel, catLabelRev, catNextLabel), (catEdgeType, catTypeRev, catNextType)}"
  shows "\<exists>W i. intern view_ops V h kd rv ct name = (W, Inr i) \<and> named V W n \<and> name_id W kd name = Some i"
proof (cases "name_id V kd name")
  case None
  have ok: "names_ok V kd rv ct" using k tablesD [OF t] by auto
  have rm: "\<not> 2 ^ 32 - 1 < unat (counter_of V ct)" using k r by (auto simp: room_def)
  show ?thesis using None rm add_name_named [OF t r k None] intern_view [OF ok, of h name] by auto
next
  case (Some i)
  have ok: "names_ok V kd rv ct" using k tablesD [OF t] by auto
  show ?thesis using Some intern_view [OF ok, of h name] named_refl [OF t room_mono [OF r]] by auto
qed

lemmas interns_named = intern_named [where kd = catProp and rv = catPropRev and ct = catNextProp, simplified]
  intern_named [where kd = catLabel and rv = catLabelRev and ct = catNextLabel, simplified]
  intern_named [where kd = catEdgeType and rv = catTypeRev and ct = catNextType, simplified]

section \<open>Properties and labels\<close>

definition mkprop :: "kvview \<Rightarrow> gostring \<times> val \<Rightarrow> Prop" where
  "mkprop V e = \<lparr>p_ID = the (name_id V catProp (fst e)), p_Name = fst e, p_Value = snd e\<rparr>"

definition known :: "kvview \<Rightarrow> (gostring \<times> val) list \<Rightarrow> bool" where
  "known V ps \<longleftrightarrow> (\<forall>e\<in>set ps. name_id V catProp (fst e) \<noteq> None)"

lemma mkprop_grows: "grows V W \<Longrightarrow> known V ps \<Longrightarrow> map (mkprop W) ps = map (mkprop V) ps \<and> known W ps"
  using grows_name(1) unfolding known_def mkprop_def by fastforce

lemma mkprop_ids_distinct:
  assumes "tables V" and "known V ps" and "distinct (map fst ps)"
  shows "distinct (map (p_ID \<circ> mkprop V) ps)"
proof -
  have "inj_on (\<lambda>n. the (name_id V catProp n)) (fst ` set ps)"
  proof (rule inj_onI)
    fix a b assume ab: "a \<in> fst ` set ps" "b \<in> fst ` set ps" "the (name_id V catProp a) = the (name_id V catProp b)"
    then obtain i j where "name_id V catProp a = Some i" "name_id V catProp b = Some j" using assms(2) by (fastforce simp: known_def)
    then show "a = b" using ab(3) names_inj [OF tablesD(1) [OF assms(1)]] by simp
  qed
  then have "distinct (map (\<lambda>n. the (name_id V catProp n)) (map fst ps))"
    using assms(3) by (simp add: distinct_map comp_inj_on)
  then show ?thesis by (simp add: mkprop_def comp_def)
qed

lemma assignProps_loop_view:
  "tables V \<Longrightarrow> room V (length ps + n) \<Longrightarrow> known V qs \<Longrightarrow> list_all (Storable \<circ> snd) ps \<Longrightarrow> distinct (map fst (qs @ ps)) \<Longrightarrow>
   \<exists>W. assignProps_loop view_ops V h ps (map (\<lambda>p. (p_ID p, p)) (map (mkprop V) qs))
       = (W, Inr (map (\<lambda>p. (p_ID p, p)) (map (mkprop W) (qs @ ps)))) \<and> named V W n \<and> known W (qs @ ps)"
proof (induction ps arbitrary: V qs)
  case Nil
  then show ?case using named_refl by auto
next
  case (Cons e ps)
  obtain nm v where e: "e = (nm, v)" by (cases e)
  obtain W i where w: "intern view_ops V h catProp catPropRev catNextProp nm = (W, Inr i)" "named V W (length ps + n)"
      "name_id W catProp nm = Some i"
    using interns_named(1) [OF Cons.prems(1), of "length ps + n" h nm] Cons.prems(2) by auto
  have tw: "tables W" "room W (length ps + n)" "grows V W" using w(2) by (auto simp: named_def)
  have same: "map (mkprop V) qs = map (mkprop W) qs" "known W qs" using mkprop_grows [OF tw(3) Cons.prems(3)] by auto
  have k: "known W (qs @ [e])" using same(2) w(3) e by (auto simp: known_def)
  have "distinct (map fst (qs @ [e]))" using Cons.prems(5) by auto
  then have "distinct (map (p_ID \<circ> mkprop W) (qs @ [e]))" by (rule mkprop_ids_distinct [OF tw(1) k])
  then have "p_ID (mkprop W e) \<notin> (p_ID \<circ> mkprop W) ` set qs" by auto
  then have u: "AList.update i \<lparr>p_ID = i, p_Name = nm, p_Value = v\<rparr> (map (\<lambda>p. (p_ID p, p)) (map (mkprop V) qs))
      = map (\<lambda>p. (p_ID p, p)) (map (mkprop W) (qs @ [e]))"
    unfolding same(1) using w(3) e by (subst AList_update_new) (auto simp: mkprop_def image_iff)
  obtain X where "assignProps_loop view_ops W h ps (map (\<lambda>p. (p_ID p, p)) (map (mkprop W) (qs @ [e])))
       = (X, Inr (map (\<lambda>p. (p_ID p, p)) (map (mkprop X) ((qs @ [e]) @ ps))))" "named W X n" "known X ((qs @ [e]) @ ps)"
    using Cons.IH [OF tw(1,2) k] Cons.prems(4,5) by auto
  then show ?case using w(1) Cons.prems(4) e u named_trans [OF w(2)] by (auto simp: internProp_def)
qed

definition sorted_props :: "kvview \<Rightarrow> (gostring \<times> val) list \<Rightarrow> Prop list" where
  "sorted_props V ps = sort_key p_ID (map (mkprop V) ps)"

lemma assignProps_view:
  assumes "tables V" "room V (length ps + n)" "list_all (Storable \<circ> snd) ps" "distinct (map fst ps)"
  shows "\<exists>W. assignProps view_ops V h ps = (W, Inr (sorted_props W ps)) \<and> named V W n \<and> known W ps"
  using assignProps_loop_view [OF assms(1,2), of "[]" h] assms(3,4)
  by (auto simp: assignProps_def propsByID_def sorted_props_def known_def comp_def)

lemma internLabels_loop_view:
  "tables V \<Longrightarrow> room V (length ls + n) \<Longrightarrow>
   \<exists>W. internLabels_loop view_ops V h ls out = (W, Inr (out @ map (\<lambda>l. the (name_id W catLabel l)) ls)) \<and> named V W n
       \<and> (\<forall>l\<in>set ls. name_id W catLabel l \<noteq> None)"
proof (induction ls arbitrary: V out)
  case Nil
  then show ?case using named_refl by auto
next
  case (Cons l ls)
  obtain W i where w: "intern view_ops V h catLabel catLabelRev catNextLabel l = (W, Inr i)" "named V W (length ls + n)"
      "name_id W catLabel l = Some i"
    using interns_named(2) [OF Cons.prems(1), of "length ls + n" h l] Cons.prems(2) by auto
  have tw: "tables W" "room W (length ls + n)" using w(2) by (auto simp: named_def)
  obtain X where x: "internLabels_loop view_ops W h ls (out @ [i]) = (X, Inr ((out @ [i]) @ map (\<lambda>l. the (name_id X catLabel l)) ls))"
      "named W X n" "\<forall>l\<in>set ls. name_id X catLabel l \<noteq> None"
    using Cons.IH [OF tw] by blast
  have "name_id X catLabel l = Some i" using x(2) w(3) grows_name(2) by (auto simp: named_def)
  then show ?case using w(1) x named_trans [OF w(2) x(2)] by auto
qed

lemma internLabels_view:
  assumes "tables V" "room V (length ls + n)"
  shows "\<exists>W. internLabels view_ops V h ls = (W, Inr (map (\<lambda>l. the (name_id W catLabel l)) ls)) \<and> named V W n
    \<and> (\<forall>l\<in>set ls. name_id W catLabel l \<noteq> None)"
  using internLabels_loop_view [OF assms, of h "[]"] by (simp add: internLabels_def)

end
