(* ===== verification/GraphInv.thy ===== *)
theory GraphInv
  imports GraphNames
begin

text \<open>
  What the contents of a graph store mean, and when they are consistent: the nodes and edges its records
  decode to, index entries for exactly the labels, properties, types and endpoints of those records, names and counters
  for the ids in use, no edge without its endpoints, and a schema that loads.
\<close>

section \<open>Contents\<close>

type_synonym node_rec = "uint32 list \<times> Prop list"

definition node_recs :: "kvview \<Rightarrow> uint64 \<Rightarrow> node_rec option" where
  "node_recs V i = (case V KSNode (idKey i) of None \<Rightarrow> None
     | Some raw \<Rightarrow> (case decodeNode raw of Inl _ \<Rightarrow> None | Inr r \<Rightarrow> Some r))"

definition edge_recs :: "kvview \<Rightarrow> uint64 \<Rightarrow> decodedEdge option" where
  "edge_recs V i = (case V KSEdge (idKey i) of None \<Rightarrow> None
     | Some raw \<Rightarrow> (case decodeEdge raw of Inl _ \<Rightarrow> None | Inr d \<Rightarrow> Some d))"

definition nodes_at :: "kvview \<Rightarrow> (uint64 \<Rightarrow> node_rec option) \<Rightarrow> bool" where
  "nodes_at V N \<longleftrightarrow> (\<forall>k raw. V KSNode k = Some raw \<longrightarrow> (\<exists>i. k = idKey i))
     \<and> (\<forall>i. case N i of None \<Rightarrow> V KSNode (idKey i) = None | Some r \<Rightarrow> \<exists>raw. V KSNode (idKey i) = Some raw \<and> decodeNode raw = Inr r)"

definition edges_at :: "kvview \<Rightarrow> (uint64 \<Rightarrow> decodedEdge option) \<Rightarrow> bool" where
  "edges_at V E \<longleftrightarrow> (\<forall>k raw. V KSEdge k = Some raw \<longrightarrow> (\<exists>i. k = idKey i))
     \<and> (\<forall>i. case E i of None \<Rightarrow> V KSEdge (idKey i) = None | Some d \<Rightarrow> \<exists>raw. V KSEdge (idKey i) = Some raw \<and> decodeEdge raw = Inr d)"

definition label_index :: "kvview \<Rightarrow> (uint64 \<Rightarrow> uint32 set) \<Rightarrow> bool" where
  "label_index V L \<longleftrightarrow> (\<forall>k. V KSLabel k \<noteq> None \<longleftrightarrow> (\<exists>i. \<exists>l\<in>L i. k = labelKey l i))"

definition pkey :: "uint32 \<times> bytes \<Rightarrow> uint64 \<Rightarrow> bytes" where
  "pkey pe i = be_put 4 (unat (fst pe)) @ snd pe @ be_put 8 (unat i)"

definition prop_index :: "kvview \<Rightarrow> (uint64 \<Rightarrow> (uint32 \<times> bytes) set) \<Rightarrow> bool" where
  "prop_index V P \<longleftrightarrow> (\<forall>k. \<not> hasPrefix k [Marker] \<longrightarrow> (V KSProp k \<noteq> None \<longleftrightarrow> (\<exists>i. \<exists>pe\<in>P i. k = pkey pe i)))"

definition out_index :: "kvview \<Rightarrow> (uint64 \<Rightarrow> decodedEdge option) \<Rightarrow> bool" where
  "out_index V E \<longleftrightarrow> (\<forall>k. V KSOut k \<noteq> None \<longleftrightarrow> (\<exists>i d. E i = Some d \<and> k = outKey (de_From d) (de_TypeID d) (de_To d) i))"

definition in_index :: "kvview \<Rightarrow> (uint64 \<Rightarrow> decodedEdge option) \<Rightarrow> bool" where
  "in_index V E \<longleftrightarrow> (\<forall>k. V KSIn k \<noteq> None \<longleftrightarrow> (\<exists>i d. E i = Some d \<and> k = inKey (de_To d) (de_TypeID d) (de_From d) i))"

definition type_index :: "kvview \<Rightarrow> (uint64 \<Rightarrow> decodedEdge option) \<Rightarrow> bool" where
  "type_index V E \<longleftrightarrow> (\<forall>k. V KSEdgeType k \<noteq> None \<longleftrightarrow> (\<exists>i d. E i = Some d \<and> k = typeKey (de_TypeID d) i))"

definition labels_of :: "(uint64 \<Rightarrow> node_rec option) \<Rightarrow> uint64 \<Rightarrow> uint32 set" where
  "labels_of N i = (case N i of None \<Rightarrow> {} | Some (lids, ps) \<Rightarrow> set lids)"

definition pkeys :: "Prop list \<Rightarrow> (uint32 \<times> bytes) set" where
  "pkeys ps = (\<lambda>p. (p_ID p, EncodeKey (p_Value p))) ` set ps"

definition props_of :: "(uint64 \<Rightarrow> node_rec option) \<Rightarrow> uint64 \<Rightarrow> (uint32 \<times> bytes) set" where
  "props_of N i = (case N i of None \<Rightarrow> {} | Some (lids, ps) \<Rightarrow> pkeys ps)"

definition props_ok :: "kvview \<Rightarrow> Prop list \<Rightarrow> bool" where
  "props_ok V ps \<longleftrightarrow> sorted_wrt (<) (map p_ID ps) \<and> props_fit ps
     \<and> (\<forall>p\<in>set ps. id_name V catPropRev (p_ID p) \<noteq> None \<and> p_Name p = [] \<and> Storable (p_Value p))"

fun node_ok :: "kvview \<Rightarrow> node_rec \<Rightarrow> bool" where
  "node_ok V (lids, ps) \<longleftrightarrow> distinct lids \<and> length lids * sizeofUint32 \<le> maxAlloc
     \<and> (\<forall>l\<in>set lids. id_name V catLabelRev l \<noteq> None) \<and> props_ok V ps"

definition edge_ok :: "kvview \<Rightarrow> (uint64 \<Rightarrow> node_rec option) \<Rightarrow> decodedEdge \<Rightarrow> bool" where
  "edge_ok V N d \<longleftrightarrow> N (de_From d) \<noteq> None \<and> N (de_To d) \<noteq> None \<and> id_name V catTypeRev (de_TypeID d) \<noteq> None \<and> props_ok V (de_Props d)"

section \<open>Schema and write count\<close>

definition schema_at :: "kvview \<Rightarrow> Schema \<Rightarrow> bool" where
  "schema_at V sch \<longleftrightarrow> (\<forall>h. cat_Load view_ops V h = (V, Inr sch))"

definition wcount_ok :: "kvview \<Rightarrow> bool" where
  "wcount_ok V \<longleftrightarrow> (case V KSCatalog (catalogKey KindWriteCount []) of None \<Rightarrow> True | Some raw \<Rightarrow> length raw = 8)"

text \<open>What an operation may change: the keyspaces \<open>KS\<close>, and in the catalog the kinds \<open>B\<close>.\<close>

definition touch :: "keyspace set \<Rightarrow> byte set \<Rightarrow> kvview \<Rightarrow> kvview \<Rightarrow> bool" where
  "touch KS B V W \<longleftrightarrow> (\<forall>ks k. ks \<notin> KS \<longrightarrow> (ks = KSCatalog \<longrightarrow> k = [] \<or> hd k \<notin> B) \<longrightarrow> W ks k = V ks k) \<and> (fin_view V \<longrightarrow> fin_view W)"

lemma touch_refl [simp]: "touch KS B V V"
  by (simp add: touch_def)

lemma touch_trans: "touch KS B V W \<Longrightarrow> touch KS' B' W X \<Longrightarrow> touch (KS \<union> KS') (B \<union> B') V X"
  unfolding touch_def by (metis Un_iff)

lemma touch_mono: "touch KS B V W \<Longrightarrow> KS \<subseteq> KS' \<Longrightarrow> B \<subseteq> B' \<Longrightarrow> touch KS' B' V W"
  unfolding touch_def by blast

lemma touch_frame: "touch {} B V W \<longleftrightarrow> cat_frame B V W"
  by (auto simp: touch_def cat_frame_def)

lemma touch_cat: "KSCatalog \<notin> KS \<Longrightarrow> touch KS B V W \<Longrightarrow> kd \<notin> B \<Longrightarrow> W KSCatalog (catalogKey kd n) = V KSCatalog (catalogKey kd n)"
  and touch_rev: "KSCatalog \<notin> KS \<Longrightarrow> touch KS B V W \<Longrightarrow> kd \<notin> B \<Longrightarrow> W KSCatalog (revKey kd i) = V KSCatalog (revKey kd i)"
  and touch_ks: "touch KS B V W \<Longrightarrow> ks \<notin> KS \<Longrightarrow> ks \<noteq> KSCatalog \<Longrightarrow> W ks = V ks"
  and touch_fin: "touch KS B V W \<Longrightarrow> fin_view V \<Longrightarrow> fin_view W"
  by (auto simp: touch_def)

lemma touch_upd: "ks \<in> KS \<Longrightarrow> touch KS B V (upd_view V ks k v)"
  by (auto simp: touch_def upd_view_apply)

definition schema_kinds :: "byte set" where
  "schema_kinds = {KindIndex, KindConstraint, KindStats, KindFormat, KindGeneration}"

lemma map_fst_from_key: "map fst (from_key t xs) = (case t of None \<Rightarrow> map fst xs | Some t \<Rightarrow> filter (\<lambda>k. t \<le> k) (map fst xs))"
  by (simp add: from_key_def filter_map comp_def split: option.split)

lemma seek_scan_keys:
  assumes "fin_view V" and "hasPrefix start keep"
  shows "seek_scan view_ops V h ks (Some start) (\<lambda>k. hasPrefix k keep)
    = (V, Inr (filter (\<lambda>k. start \<le> k \<and> hasPrefix k keep) (sorted_list_of_set (dom (V ks)))))"
  using view.seek_scan_view [of V V h ks "Some start" "\<lambda>k. hasPrefix k keep"] assms(1)
    takeWhile_scan [OF _ assms(2), of "sorted_list_of_set (dom (V ks))"]
  by (simp add: map_fst_from_key)

lemma hasPrefix_self [simp]: "hasPrefix p p"
  by (simp add: hasPrefix_def)

lemma prefix_filter: "filter (\<lambda>k. p \<le> k \<and> hasPrefix k p) xs = filter (\<lambda>k. hasPrefix k p) xs"
  by (rule filter_cong) (auto intro: hasPrefix_le)

lemma scanPrefix_view: "fin_view V \<Longrightarrow> scanPrefix view_ops V h ks pre = (V, Inr (scan_view V ks pre))"
  using view.seek_scan_view [of V V h ks None "\<lambda>k. True"] seek_scan_keys [of V _ _ h ks]
  by (cases pre) (simp_all add: scans_seek_scan scan_view_def map_fst_from_key prefix_filter takeWhile_eq_all_conv)

lemma scanKind_view: "fin_view V \<Longrightarrow> scanKind view_ops V h kd = (V, Inr (scan_view V KSCatalog (Some [kd])))"
  by (simp add: scans_seek_scan seek_scan_keys prefix_filter scan_view_def)

lemma ix_walk_view: "fin_view V \<Longrightarrow> hasPrefix start keep \<Longrightarrow>
    ix_walk view_ops V h start keep = (V, Inr (filter (\<lambda>k. start \<le> k \<and> hasPrefix k keep) (sorted_list_of_set (dom (V KSProp)))))"
  by (simp add: scans_seek_scan seek_scan_keys)

lemma set_scan_view: "fin_view V \<Longrightarrow> set (scan_view V ks pre) = {k. V ks k \<noteq> None \<and> (case pre of None \<Rightarrow> True | Some p \<Rightarrow> hasPrefix k p)}"
  by (auto simp: scan_view_def fin_view_def)

lemma distinct_scan_view [simp]: "distinct (scan_view V ks pre)"
  by (simp add: scan_view_def)

lemma sorted_list_filter_eq:
  assumes "finite A" "finite B" "{x \<in> A. P x} = {x \<in> B. P x}"
  shows "filter P (sorted_list_of_set A) = filter P (sorted_list_of_set B)"
  by (rule sorted_distinct_set_unique) (use assms in \<open>auto simp: sorted_wrt_filter set_eq_iff\<close>)

text \<open>Loading the schema reads only the records of its own kinds.\<close>

definition same_kinds :: "byte set \<Rightarrow> kvview \<Rightarrow> kvview \<Rightarrow> bool" where
  "same_kinds B V W \<longleftrightarrow> fin_view V \<and> fin_view W \<and> (\<forall>k. k \<noteq> [] \<longrightarrow> hd k \<in> B \<longrightarrow> W KSCatalog k = V KSCatalog k)"

lemma same_kinds_scan:
  assumes "same_kinds B V W" and "kd \<in> B"
  shows "scan_view W KSCatalog (Some [kd]) = scan_view V KSCatalog (Some [kd])"
  unfolding scan_view_def
  by (rule sorted_list_filter_eq) (use assms in \<open>auto simp: same_kinds_def fin_view_def hasPrefix_append\<close>)

lemma scan_kind_key: "k \<in> set (scan_view V KSCatalog (Some [kd])) \<Longrightarrow> k \<noteq> [] \<and> hd k = kd"
  by (auto simp: scan_view_def hasPrefix_append)

definition same_read :: "(kvview \<Rightarrow> kvview \<times> 'a) \<Rightarrow> kvview \<Rightarrow> kvview \<Rightarrow> bool" where
  "same_read f V W \<longleftrightarrow> (\<exists>r. f V = (V, r) \<and> f W = (W, r))"

lemma same_read_sbind: "same_read f V W \<Longrightarrow> (\<And>x. same_read (\<lambda>e. g e x) V W) \<Longrightarrow> same_read (\<lambda>e. sbind (f e) g) V W"
proof -
  assume f: "same_read f V W" and g: "\<And>x. same_read (\<lambda>e. g e x) V W"
  then obtain r where r: "f V = (V, r)" "f W = (W, r)" by (auto simp: same_read_def)
  show ?thesis using r g by (cases r) (auto simp: same_read_def)
qed

lemma same_read_ret: "same_read (\<lambda>e. (e, r)) V W"
  by (simp add: same_read_def)

lemma same_read_get:
  "same_kinds B V W \<Longrightarrow> k \<noteq> [] \<Longrightarrow> hd k \<in> B \<Longrightarrow> same_read (\<lambda>e. ops_Get view_ops e h KSCatalog k) V W"
  by (simp add: same_read_def same_kinds_def view_get_def)

lemma same_read_scan: "same_kinds B V W \<Longrightarrow> kd \<in> B \<Longrightarrow> same_read (\<lambda>e. scanKind view_ops e h kd) V W"
  using same_kinds_scan [of B V W kd] by (auto simp: same_read_def scanKind_view same_kinds_def)

lemma same_read_u: "same_kinds B V W \<Longrightarrow> kd \<in> B \<Longrightarrow> same_read (\<lambda>e. readU64 view_ops e h kd n) V W"
    "same_kinds B V W \<Longrightarrow> kd \<in> B \<Longrightarrow> same_read (\<lambda>e. readU32 view_ops e h kd n) V W"
    "same_kinds B V W \<Longrightarrow> KindStats \<in> B \<Longrightarrow> same_read (\<lambda>e. loadStats view_ops e h) V W"
  by (auto simp: same_read_def readU64_def readU32_def loadStats_def same_kinds_def view_get_def cat_key_catalogKey split: option.splits)

lemma same_read_listIndexes: "same_kinds B V W \<Longrightarrow> \<forall>k\<in>set keys. k \<noteq> [] \<and> hd k \<in> B \<Longrightarrow> same_read (\<lambda>e. listIndexes_loop view_ops e h keys out) V W"
proof (induction keys arbitrary: out)
  case (Cons k keys)
  have g: "view_get W KSCatalog k = view_get V KSCatalog k" using Cons.prems by (simp add: same_kinds_def view_get_def)
  show ?case
  proof (cases "parseName k KindIndex")
    case None
    then show ?thesis using Cons by simp
  next
    case (Some nm)
    then show ?thesis using Cons by (cases "view_get V KSCatalog k") (auto simp: g same_read_def split: sum.split)
  qed
qed (simp add: same_read_def)

lemma same_read_listConstraints: "same_kinds B V W \<Longrightarrow> \<forall>k\<in>set keys. k \<noteq> [] \<and> hd k \<in> B \<Longrightarrow> same_read (\<lambda>e. listConstraints_loop view_ops e h keys out) V W"
proof (induction keys arbitrary: out)
  case (Cons k keys)
  have g: "view_get W KSCatalog k = view_get V KSCatalog k" using Cons.prems by (simp add: same_kinds_def view_get_def)
  show ?case
  proof (cases "parseName k KindConstraint")
    case None
    then show ?thesis using Cons by simp
  next
    case (Some nm)
    then show ?thesis using Cons by (cases "view_get V KSCatalog k") (auto simp: g same_read_def split: sum.split)
  qed
qed (simp add: same_read_def)

lemma same_read_lists:
  assumes "same_kinds B V W"
  shows "KindIndex \<in> B \<Longrightarrow> same_read (\<lambda>e. listIndexes view_ops e h) V W"
    and "KindConstraint \<in> B \<Longrightarrow> same_read (\<lambda>e. listConstraints view_ops e h) V W"
proof -
  have s: "scanKind view_ops V h kd = (V, Inr (scan_view V KSCatalog (Some [kd])))" "scanKind view_ops W h kd = (W, Inr (scan_view V KSCatalog (Some [kd])))"
    if "kd \<in> B" for kd
    using assms same_kinds_scan [OF assms that] by (auto simp: scanKind_view same_kinds_def)
  have k: "kd \<in> B \<Longrightarrow> \<forall>k\<in>set (scan_view V KSCatalog (Some [kd])). k \<noteq> [] \<and> hd k \<in> B" for kd using scan_kind_key by blast
  show "same_read (\<lambda>e. listIndexes view_ops e h) V W" if b: "KindIndex \<in> B"
    using same_read_listIndexes [OF assms k [OF b], of h "[]"] same_read_sbind [OF _ same_read_ret, of "\<lambda>e. listIndexes_loop view_ops e h _ []" V W]
    by (simp add: same_read_def listIndexes_def s [OF b])
  show "same_read (\<lambda>e. listConstraints view_ops e h) V W" if b: "KindConstraint \<in> B"
    using same_read_listConstraints [OF assms k [OF b], of h "[]"] same_read_sbind [OF _ same_read_ret, of "\<lambda>e. listConstraints_loop view_ops e h _ []" V W]
    by (simp add: same_read_def listConstraints_def s [OF b])
qed

lemma same_read_cat_Load:
  assumes s: "same_kinds schema_kinds V W"
  shows "same_read (\<lambda>e. cat_Load view_ops e h) V W"
proof -
  have tail: "same_read (\<lambda>e. if b then (e, r) else sbind (readU64 view_ops e h KindGeneration []) (\<lambda>e gen.
      sbind (listIndexes view_ops e h) (\<lambda>e ix. sbind (listConstraints view_ops e h) (\<lambda>e co. sbind (loadStats view_ops e h) (\<lambda>e st. (e, Inr (mk gen ix co st))))))) V W"
    for b r mk
    by (cases b) (auto simp: schema_kinds_def intro!: same_read_sbind same_read_ret same_read_u [OF s] same_read_lists [OF s])
  show ?thesis unfolding cat_Load_def Let_def
    by (intro same_read_sbind same_read_u [OF s] tail) (simp add: schema_kinds_def)
qed

lemma schema_touch:
  assumes "touch KS B V W" "KSCatalog \<notin> KS" "B \<inter> schema_kinds = {}" "fin_view V" "schema_at V sch"
  shows "schema_at W sch"
proof -
  have "same_kinds schema_kinds V W" using assms touch_fin [OF assms(1,4)] unfolding same_kinds_def touch_def by blast
  then have "same_read (\<lambda>e. cat_Load view_ops e h) V W" for h by (rule same_read_cat_Load)
  then show ?thesis using assms(5) by (auto simp: schema_at_def same_read_def)
qed

section \<open>Upkeep\<close>

text \<open>Maintaining declared indexes and the write count changes only marked index keys and one catalog record.\<close>

definition upkept :: "kvview \<Rightarrow> kvview \<Rightarrow> bool" where
  "upkept V W \<longleftrightarrow> touch {KSProp} {KindWriteCount} V W \<and> (\<forall>k. \<not> hasPrefix k [Marker] \<longrightarrow> W KSProp k = V KSProp k) \<and> (wcount_ok V \<longrightarrow> wcount_ok W)"

lemma upkept_refl [simp]: "upkept V V"
  by (simp add: upkept_def)

lemma upkept_trans: "upkept V W \<Longrightarrow> upkept W X \<Longrightarrow> upkept V X"
  unfolding upkept_def using touch_trans [of "{KSProp}" "{KindWriteCount}" V W "{KSProp}" "{KindWriteCount}" X] by auto

lemma ks_neq [simp]:
  "KSCatalog \<noteq> KSProp" "KSCatalog \<noteq> KSNode" "KSCatalog \<noteq> KSEdge" "KSCatalog \<noteq> KSOut" "KSCatalog \<noteq> KSIn" "KSCatalog \<noteq> KSLabel" "KSCatalog \<noteq> KSEdgeType"
  "KSProp \<noteq> KSCatalog" "KSNode \<noteq> KSCatalog" "KSEdge \<noteq> KSCatalog" "KSOut \<noteq> KSCatalog" "KSIn \<noteq> KSCatalog" "KSLabel \<noteq> KSCatalog" "KSEdgeType \<noteq> KSCatalog"
  "KSNode \<noteq> KSProp" "KSNode \<noteq> KSEdge" "KSNode \<noteq> KSOut" "KSNode \<noteq> KSIn" "KSNode \<noteq> KSLabel" "KSNode \<noteq> KSEdgeType"
  "KSProp \<noteq> KSNode" "KSEdge \<noteq> KSNode" "KSOut \<noteq> KSNode" "KSIn \<noteq> KSNode" "KSLabel \<noteq> KSNode" "KSEdgeType \<noteq> KSNode"
  "KSProp \<noteq> KSEdge" "KSProp \<noteq> KSOut" "KSProp \<noteq> KSIn" "KSProp \<noteq> KSLabel" "KSProp \<noteq> KSEdgeType"
  "KSEdge \<noteq> KSProp" "KSOut \<noteq> KSProp" "KSIn \<noteq> KSProp" "KSLabel \<noteq> KSProp" "KSEdgeType \<noteq> KSProp"
  "KSEdge \<noteq> KSOut" "KSEdge \<noteq> KSIn" "KSEdge \<noteq> KSLabel" "KSEdge \<noteq> KSEdgeType"
  "KSOut \<noteq> KSEdge" "KSIn \<noteq> KSEdge" "KSLabel \<noteq> KSEdge" "KSEdgeType \<noteq> KSEdge"
  "KSOut \<noteq> KSIn" "KSOut \<noteq> KSLabel" "KSOut \<noteq> KSEdgeType" "KSIn \<noteq> KSOut" "KSLabel \<noteq> KSOut" "KSEdgeType \<noteq> KSOut"
  "KSIn \<noteq> KSLabel" "KSIn \<noteq> KSEdgeType" "KSLabel \<noteq> KSIn" "KSEdgeType \<noteq> KSIn" "KSLabel \<noteq> KSEdgeType" "KSEdgeType \<noteq> KSLabel"
  by (simp_all add: keyspace_defs)

lemma ix_Encode_marked: "hasPrefix (ix_Encode i vs n) [Marker]"
  by (simp add: ix_Encode_def ix_Prefix_def IDPrefix_def hasPrefix_def Let_def)

lemma upkept_marked: "hasPrefix k [Marker] \<Longrightarrow> upkept V (upd_view V KSProp k v)"
  by (auto simp: upkept_def upd_view_apply wcount_ok_def intro: touch_upd)

lemma touchDeclared_loop_view: "\<exists>W. touchDeclared_loop view_ops V h en ls t pm i add ixs = (W, Inr ()) \<and> upkept V W"
proof (induction ixs arbitrary: V)
  case (Cons ix ixs)
  show ?case
  proof (cases "declaredValues en ls t pm ix")
    case None
    then show ?thesis using Cons.IH by simp
  next
    case (Some vals)
    define W where "W = (if \<not> Indexable vals then V else upd_view V KSProp (ix_Encode (ix_ID ix) vals i) (if add then Some [] else None))"
    have "upkept V W" unfolding W_def by (auto intro: upkept_marked ix_Encode_marked)
    moreover have "(if add then ix_Put view_ops V h (ix_ID ix) vals i else ix_Delete view_ops V h (ix_ID ix) vals i) = (W, Inr ())"
      by (simp add: W_def ix_Put_def ix_Delete_def)
    ultimately show ?thesis using Some Cons.IH [of W] upkept_trans by auto
  qed
qed simp

lemma touchDeclared_view:
  "schema_at V sch \<Longrightarrow> \<exists>W. touchDeclared view_ops V h en ls t ps i add = (W, Inr ()) \<and> upkept V W"
  using touchDeclared_loop_view by (auto simp: touchDeclared_def schema_at_def)

lemma bumpWrites_view:
  assumes "wcount_ok V"
  shows "\<exists>W. bumpWrites view_ops V h = (W, Inr ()) \<and> upkept V W"
proof -
  obtain n where "readU64 view_ops V h KindWriteCount [] = (V, Inr n)"
    using assms by (auto simp: readU64_def wcount_ok_def view_get_def cat_key_catalogKey split: option.splits)
  then show ?thesis
    by (auto simp: bumpWrites_def AddWrites_def writeU64_def cat_key_catalogKey upkept_def wcount_ok_def touch_def upd_view_apply)
qed

section \<open>Index entries\<close>

lemma indexLabels_loop_view:
  "label_index V L \<Longrightarrow> \<exists>W. indexLabels_loop view_ops V h i lids seen = (W, Inr ()) \<and> touch {KSLabel} {} V W
     \<and> (set seen \<subseteq> L i \<longrightarrow> label_index W (L(i := L i \<union> set lids)))"
proof (induction lids arbitrary: V L seen)
  case Nil
  then show ?case by (auto simp: fun_upd_idem)
next
  case (Cons l lids)
  show ?case
  proof (cases "l \<in> set seen")
    case True
    then have "set seen \<subseteq> L i \<Longrightarrow> L i \<union> set (l # lids) = L i \<union> set lids" by auto
    then show ?thesis using Cons.IH [OF Cons.prems, of seen] True by (metis (no_types, lifting) indexLabels_loop.simps(2))
  next
    case False
    let ?V = "upd_view V KSLabel (labelKey l i) (Some [])"
    have li: "label_index ?V (L(i := insert l (L i)))"
      using Cons.prems unfolding label_index_def by (auto simp: upd_view_apply)
    obtain W where w: "indexLabels_loop view_ops ?V h i lids (l # seen) = (W, Inr ())" "touch {KSLabel} {} ?V W"
      "set (l # seen) \<subseteq> insert l (L i) \<longrightarrow> label_index W (L(i := insert l (L i) \<union> set lids))"
      using Cons.IH [OF li, of "l # seen"] unfolding fun_upd_same fun_upd_upd by blast
    have "touch {KSLabel} {} V W" using touch_trans [OF touch_upd [of KSLabel "{KSLabel}" "{}"] w(2)] by simp
    moreover have "set seen \<subseteq> L i \<longrightarrow> label_index W (L(i := L i \<union> set (l # lids)))" using w(3) by auto
    ultimately show ?thesis using False w(1) by (metis (no_types, lifting) indexLabels_loop.simps(2) sbind.simps(2) view_ops_simps(2))
  qed
qed

lemma indexLabels_view:
  "label_index V L \<Longrightarrow> \<exists>W. indexLabels view_ops V h i lids = (W, Inr ()) \<and> touch {KSLabel} {} V W \<and> label_index W (L(i := L i \<union> set lids))"
  using indexLabels_loop_view [of V L h i lids "[]"] by (auto simp: indexLabels_def)

lemma unindexLabels_view:
  "label_index V L \<Longrightarrow> names_ok V catLabel catLabelRev catNextLabel \<Longrightarrow>
   \<exists>W. unindexLabels view_ops V h i ls = (W, Inr ()) \<and> touch {KSLabel} {} V W
     \<and> label_index W (L(i := L i - {l. \<exists>n\<in>set ls. name_id V catLabel n = Some l}))"
proof (induction ls arbitrary: V L)
  case Nil
  then show ?case by (auto simp: fun_upd_idem)
next
  case (Cons n ls)
  show ?case
  proof (cases "name_id V catLabel n")
    case None
    then have "{l. \<exists>m\<in>set (n # ls). name_id V catLabel m = Some l} = {l. \<exists>m\<in>set ls. name_id V catLabel m = Some l}" by auto
    then show ?thesis using Cons None by (simp add: lookupName_view [OF Cons.prems(2)] del: set_simps)
  next
    case (Some l)
    let ?V = "upd_view V KSLabel (labelKey l i) None"
    have li: "label_index ?V (L(i := L i - {l}))"
      using Cons.prems unfolding label_index_def by (auto simp: upd_view_apply)
    have t: "touch {KSLabel} {} V ?V" by (rule touch_upd) simp
    have same: "name_id ?V = name_id V" "names_ok ?V catLabel catLabelRev catNextLabel"
      using Cons.prems(2) by (auto simp: name_id_def id_name_def names_ok_def counter_ok_def counter_of_def upd_view_apply fun_eq_iff)
    obtain W where w: "unindexLabels view_ops ?V h i ls = (W, Inr ())" "touch {KSLabel} {} ?V W"
      "label_index W (L(i := L i - {l} - {l. \<exists>n\<in>set ls. name_id V catLabel n = Some l}))"
      using Cons.IH [OF li same(2)] unfolding same(1) fun_upd_same fun_upd_upd by blast
    have eq: "L i - {l} - {l. \<exists>n\<in>set ls. name_id V catLabel n = Some l} = L i - {l. \<exists>m\<in>set (n # ls). name_id V catLabel m = Some l}"
      using Some by auto
    have "unindexLabels view_ops V h i (n # ls) = (W, Inr ())" using Some w(1) by (simp add: lookupName_view [OF Cons.prems(2)])
    moreover have "touch {KSLabel} {} V W" using touch_trans [OF t w(2)] by simp
    ultimately show ?thesis using w(3) unfolding eq by blast
  qed
qed

lemma pkey_propIndexKey: "propIndexKey p v i = pkey (p, EncodeKey v) i"
  by (simp add: pkey_def propIndexKey_def propIndexPrefix_def)

lemma pkey_inj [simp]: "pkey (p, x) i = pkey (q, y) j \<longleftrightarrow> p = q \<and> x = y \<and> i = j"
proof
  assume e: "pkey (p, x) i = pkey (q, y) j"
  then have "x @ be_put 8 (unat i) = y @ be_put 8 (unat j)" "p = q" by (simp_all add: pkey_def)
  then show "p = q \<and> x = y \<and> i = j" by (metis append_eq_append_conv be_word_inj(1) length_be_put)
qed simp

lemma indexProps_view:
  "prop_index V P \<Longrightarrow> \<exists>W. indexProps view_ops V h i ps = (W, Inr ()) \<and> touch {KSProp} {} V W \<and> prop_index W (P(i := P i \<union> pkeys ps))"
proof (induction ps arbitrary: V P)
  case Nil
  then show ?case by (auto simp: pkeys_def fun_upd_idem)
next
  case (Cons p ps)
  let ?e = "(p_ID p, EncodeKey (p_Value p))"
  let ?V = "upd_view V KSProp (pkey ?e i) (Some [])"
  have pi: "prop_index ?V (P(i := insert ?e (P i)))"
    using Cons.prems unfolding prop_index_def by (auto simp: upd_view_apply)
  obtain W where w: "indexProps view_ops ?V h i ps = (W, Inr ())" "touch {KSProp} {} ?V W"
      "prop_index W (P(i := insert ?e (P i) \<union> pkeys ps))"
    using Cons.IH [OF pi] unfolding fun_upd_same fun_upd_upd by blast
  moreover have "touch {KSProp} {} V W" using touch_trans [OF touch_upd [of KSProp "{KSProp}" "{}"] w(2)] by simp
  moreover have "insert ?e (P i) \<union> pkeys ps = P i \<union> pkeys (p # ps)" by (auto simp: pkeys_def)
  moreover have "indexProps view_ops V h i (p # ps) = (W, Inr ())" using w(1) by (simp add: pkey_propIndexKey)
  ultimately show ?case by metis
qed

lemma unindexProps_view:
  "prop_index V P \<Longrightarrow> \<exists>W. unindexProps view_ops V h i ps = (W, Inr ()) \<and> touch {KSProp} {} V W
     \<and> prop_index W (P(i := P i - pkeys ps))"
proof (induction ps arbitrary: V P)
  case Nil
  then show ?case by (auto simp: pkeys_def fun_upd_idem)
next
  case (Cons p ps)
  let ?e = "(p_ID p, EncodeKey (p_Value p))"
  let ?V = "upd_view V KSProp (pkey ?e i) None"
  have pi: "prop_index ?V (P(i := P i - {?e}))"
    using Cons.prems unfolding prop_index_def by (auto simp: upd_view_apply)
  obtain W where w: "unindexProps view_ops ?V h i ps = (W, Inr ())" "touch {KSProp} {} ?V W"
      "prop_index W (P(i := P i - {?e} - pkeys ps))"
    using Cons.IH [OF pi] unfolding fun_upd_same fun_upd_upd by blast
  moreover have "touch {KSProp} {} V W" using touch_trans [OF touch_upd [of KSProp "{KSProp}" "{}"] w(2)] by simp
  moreover have "P i - {?e} - pkeys ps = P i - pkeys (p # ps)" by (auto simp: pkeys_def)
  moreover have "unindexProps view_ops V h i (p # ps) = (W, Inr ())" using w(1) by (simp add: pkey_propIndexKey)
  ultimately show ?case by metis
qed

end
