(* ===== verification/GraphWrite.thy ===== *)
theory GraphWrite
  imports GraphInv
begin

text \<open>
  The invariant of the graph store, and what writing and reading records does to a consistent store.
\<close>

section \<open>The invariant\<close>

definition base :: "kvview \<Rightarrow> bool" where
  "base V \<longleftrightarrow> fin_view V \<and> tables V \<and> room V 0 \<and> counter_ok V catNextNode \<and> counter_ok V catNextEdge \<and> wcount_ok V
     \<and> (\<exists>sch. schema_at V sch)"

definition edges_part :: "kvview \<Rightarrow> (uint64 \<Rightarrow> decodedEdge option) \<Rightarrow> bool" where
  "edges_part V E \<longleftrightarrow> edges_at V E \<and> out_index V E \<and> in_index V E \<and> type_index V E"

definition graph_at :: "kvview \<Rightarrow> (uint64 \<Rightarrow> node_rec option) \<Rightarrow> (uint64 \<Rightarrow> decodedEdge option) \<Rightarrow> bool" where
  "graph_at V N E \<longleftrightarrow> base V \<and> nodes_at V N \<and> edges_part V E \<and> label_index V (labels_of N) \<and> prop_index V (props_of N)
     \<and> (\<forall>i r. N i = Some r \<longrightarrow> node_ok V r \<and> i < counter_of V catNextNode)
     \<and> (\<forall>i d. E i = Some d \<longrightarrow> edge_ok V N d \<and> i < counter_of V catNextEdge)"

definition graph_ok :: "kvview \<Rightarrow> bool" where
  "graph_ok V \<longleftrightarrow> graph_at V (node_recs V) (edge_recs V)"

lemma graph_atD:
  assumes "graph_at V N E"
  shows "base V" "nodes_at V N" "edges_part V E" "label_index V (labels_of N)" "prop_index V (props_of N)"
    "N i = Some r \<Longrightarrow> node_ok V r" "N i = Some r \<Longrightarrow> i < counter_of V catNextNode"
    "E j = Some d \<Longrightarrow> edge_ok V N d" "E j = Some d \<Longrightarrow> j < counter_of V catNextEdge"
  using assms unfolding graph_at_def by blast+

lemma nodes_atD:
  assumes "nodes_at V N"
  shows "N i = None \<Longrightarrow> V KSNode (idKey i) = None" "N i = Some r \<Longrightarrow> \<exists>raw. V KSNode (idKey i) = Some raw \<and> decodeNode raw = Inr r"
    "V KSNode k = Some raw \<Longrightarrow> \<exists>i. k = idKey i \<and> N i \<noteq> None"
proof -
  have a: "case N i of None \<Rightarrow> V KSNode (idKey i) = None | Some r \<Rightarrow> \<exists>raw. V KSNode (idKey i) = Some raw \<and> decodeNode raw = Inr r" for i
    using assms unfolding nodes_at_def by blast
  show "N i = None \<Longrightarrow> V KSNode (idKey i) = None" "N i = Some r \<Longrightarrow> \<exists>raw. V KSNode (idKey i) = Some raw \<and> decodeNode raw = Inr r"
    using a [of i] by simp_all
  show "V KSNode k = Some raw \<Longrightarrow> \<exists>i. k = idKey i \<and> N i \<noteq> None"
  proof -
    assume k: "V KSNode k = Some raw"
    then obtain i where i: "k = idKey i" using assms unfolding nodes_at_def by blast
    then show ?thesis using a [of i] k by (cases "N i") auto
  qed
qed

lemma edges_atD:
  assumes "edges_at V E"
  shows "E i = None \<Longrightarrow> V KSEdge (idKey i) = None" "E i = Some d \<Longrightarrow> \<exists>raw. V KSEdge (idKey i) = Some raw \<and> decodeEdge raw = Inr d"
    "V KSEdge k = Some raw \<Longrightarrow> \<exists>i. k = idKey i \<and> E i \<noteq> None"
proof -
  have a: "case E i of None \<Rightarrow> V KSEdge (idKey i) = None | Some d \<Rightarrow> \<exists>raw. V KSEdge (idKey i) = Some raw \<and> decodeEdge raw = Inr d" for i
    using assms unfolding edges_at_def by blast
  show "E i = None \<Longrightarrow> V KSEdge (idKey i) = None" "E i = Some d \<Longrightarrow> \<exists>raw. V KSEdge (idKey i) = Some raw \<and> decodeEdge raw = Inr d"
    using a [of i] by simp_all
  show "V KSEdge k = Some raw \<Longrightarrow> \<exists>i. k = idKey i \<and> E i \<noteq> None"
  proof -
    assume k: "V KSEdge k = Some raw"
    then obtain i where i: "k = idKey i" using assms unfolding edges_at_def by blast
    then show ?thesis using a [of i] k by (cases "E i") auto
  qed
qed

lemma nodes_at_recs: "nodes_at V N \<Longrightarrow> N = node_recs V"
proof (rule ext)
  fix i assume "nodes_at V N"
  then show "N i = node_recs V i" using nodes_atD(1,2) [of V N i] by (cases "N i") (auto simp: node_recs_def)
qed

lemma edges_at_recs: "edges_at V E \<Longrightarrow> E = edge_recs V"
proof (rule ext)
  fix i assume "edges_at V E"
  then show "E i = edge_recs V i" using edges_atD(1,2) [of V E i] by (cases "E i") (auto simp: edge_recs_def)
qed

lemma graph_at_ok: "graph_at V N E \<Longrightarrow> graph_ok V \<and> N = node_recs V \<and> E = edge_recs V"
  using nodes_at_recs edges_at_recs by (metis edges_part_def graph_atD(2,3) graph_ok_def)

section \<open>Frames\<close>

lemma touch_names:
  assumes "touch KS B V W" "KSCatalog \<notin> KS"
  shows "kd \<notin> B \<Longrightarrow> name_id W kd = name_id V kd" "kd \<notin> B \<Longrightarrow> id_name W kd = id_name V kd"
    "kd \<notin> B \<Longrightarrow> counter_of W kd = counter_of V kd" "kd \<notin> B \<Longrightarrow> counter_ok W kd = counter_ok V kd"
  using touch_cat [OF assms(2,1)] touch_rev [OF assms(2,1)]
  by (auto simp: name_id_def id_name_def counter_of_def counter_ok_def fun_eq_iff)

lemma kinds_free [simp]:
  "catProp \<noteq> KindWriteCount" "catPropRev \<noteq> KindWriteCount" "catNextProp \<noteq> KindWriteCount" "catLabel \<noteq> KindWriteCount"
  "catLabelRev \<noteq> KindWriteCount" "catNextLabel \<noteq> KindWriteCount" "catEdgeType \<noteq> KindWriteCount" "catTypeRev \<noteq> KindWriteCount"
  "catNextType \<noteq> KindWriteCount" "catNextNode \<noteq> KindWriteCount" "catNextEdge \<noteq> KindWriteCount"
  by (simp_all add: cat_defs cat_kind_defs)

lemma kinds_sep:
  "name_bytes \<inter> schema_kinds = {}" "{KindWriteCount} \<inter> schema_kinds = {}" "{catNextNode, catNextEdge} \<inter> schema_kinds = {}"
  "catNextNode \<notin> name_bytes" "catNextEdge \<notin> name_bytes" "KindWriteCount \<notin> name_bytes" "catNextNode \<noteq> catNextEdge"
  by (simp_all add: name_bytes_def schema_kinds_def cat_defs cat_kind_defs)

text \<open>A change outside the catalog, up to the write count, keeps names and counters.\<close>

definition steady :: "kvview \<Rightarrow> kvview \<Rightarrow> bool" where
  "steady V W \<longleftrightarrow> name_id W catProp = name_id V catProp \<and> name_id W catLabel = name_id V catLabel \<and> name_id W catEdgeType = name_id V catEdgeType
     \<and> id_name W catPropRev = id_name V catPropRev \<and> id_name W catLabelRev = id_name V catLabelRev \<and> id_name W catTypeRev = id_name V catTypeRev
     \<and> (\<forall>ct\<in>{catNextProp, catNextLabel, catNextType, catNextNode, catNextEdge}. counter_of W ct = counter_of V ct)"

lemma base_touch:
  assumes "base V" and t: "touch KS {KindWriteCount} V W" and k: "KSCatalog \<notin> KS" and "wcount_ok W"
  shows "base W" and "steady V W"
proof -
  note n = touch_names [OF t k]
  show s: "steady V W" by (auto simp: steady_def n)
  have "names_ok W kd rv ct = names_ok V kd rv ct" if "KindWriteCount \<notin> {kd, rv, ct}" for kd rv ct
  proof -
    have ne: "kd \<notin> {KindWriteCount}" "rv \<notin> {KindWriteCount}" "ct \<notin> {KindWriteCount}" using that by auto
    show ?thesis unfolding names_ok_def n(1) [OF ne(1)] n(2) [OF ne(2)] n(3,4) [OF ne(3)] touch_cat [OF k t ne(1)] by (rule refl)
  qed
  then have "tables W" using assms(1) by (simp add: base_def tables_def kinds_free [symmetric])
  moreover have "room W 0" using assms(1) by (simp add: base_def room_def n)
  moreover obtain sch where "schema_at V sch" using assms(1) by (auto simp: base_def)
  then have "\<exists>sch. schema_at W sch" using schema_touch [OF t k kinds_sep(2)] assms(1) by (auto simp: base_def)
  ultimately show "base W" using assms(1,4) touch_fin [OF t] by (simp add: base_def n)
qed

lemma wcount_touch: "touch KS B V W \<Longrightarrow> KSCatalog \<notin> KS \<Longrightarrow> KindWriteCount \<notin> B \<Longrightarrow> wcount_ok W = wcount_ok V"
  by (simp add: wcount_ok_def touch_cat)

lemma base_named:
  assumes "base V" and "named V W n"
  shows "base W" "counter_of W catNextNode = counter_of V catNextNode" "counter_of W catNextEdge = counter_of V catNextEdge"
    "ks \<noteq> KSCatalog \<Longrightarrow> W ks = V ks" "grows V W" "room W n" "tables W"
proof -
  have c: "cat_frame name_bytes V W" using assms(2) by (simp add: named_def)
  then have t: "touch {} name_bytes V W" by (simp add: touch_frame)
  show g: "grows V W" and r: "room W n" and tw: "tables W" using assms(2) by (auto simp: named_def)
  show "counter_of W catNextNode = counter_of V catNextNode" "counter_of W catNextEdge = counter_of V catNextEdge"
    using counter_frame [OF c] kinds_sep by auto
  show "ks \<noteq> KSCatalog \<Longrightarrow> W ks = V ks" by (rule cat_frame_ks [OF c])
  obtain sch where "schema_at V sch" using assms(1) by (auto simp: base_def)
  then have "\<exists>sch. schema_at W sch" using schema_touch [OF t _ kinds_sep(1)] assms(1) by (auto simp: base_def)
  then show "base W" using assms(1) tw room_mono [OF r] counter_frame [OF c, of catNextNode] counter_frame [OF c, of catNextEdge] kinds_sep
      cat_frame_fin [OF c] wcount_touch [OF t]
    by (simp add: base_def)
qed

lemma base_counter:
  assumes "base V" "ct \<in> {catNextNode, catNextEdge}"
  shows "base (set_counter V ct n)" "counter_of (set_counter V ct n) ct = n"
    "ct' \<in> {catNextNode, catNextEdge} \<Longrightarrow> ct' \<noteq> ct \<Longrightarrow> counter_of (set_counter V ct n) ct' = counter_of V ct'"
    "ks \<noteq> KSCatalog \<Longrightarrow> set_counter V ct n ks = V ks" "room (set_counter V ct n) m = room V m"
    "kd \<in> name_bytes \<Longrightarrow> name_id (set_counter V ct n) kd = name_id V kd" "kd \<in> name_bytes \<Longrightarrow> id_name (set_counter V ct n) kd = id_name V kd"
proof -
  let ?W = "set_counter V ct n"
  have c: "cat_frame {ct} V ?W" by (rule set_counter_frame)
  then have t: "touch {} {ct} V ?W" by (simp add: touch_frame)
  have ctn: "ct \<notin> name_bytes" "ct \<noteq> KindWriteCount" "{ct} \<inter> schema_kinds = {}"
    using assms(2) by (auto simp: name_bytes_def schema_kinds_def cat_defs cat_kind_defs)
  show "counter_of ?W ct = n" by simp
  show "ct' \<in> {catNextNode, catNextEdge} \<Longrightarrow> ct' \<noteq> ct \<Longrightarrow> counter_of ?W ct' = counter_of V ct'" using counter_frame [OF c, of ct'] by simp
  show "ks \<noteq> KSCatalog \<Longrightarrow> ?W ks = V ks" by (rule cat_frame_ks [OF c])
  have nb: "kd \<in> name_bytes \<Longrightarrow> kd \<notin> {ct}" for kd using ctn by auto
  have ti: "tables ?W = tables V"
    unfolding tables_def by (simp add: table_frame(3) [OF c nb nb nb] name_bytes_def)
  have co: "\<forall>k\<in>{catNextProp, catNextLabel, catNextType}. counter_of ?W k = counter_of V k"
    using counter_frame [OF c] nb by (auto simp: name_bytes_def)
  show "kd \<in> name_bytes \<Longrightarrow> name_id ?W kd = name_id V kd" "kd \<in> name_bytes \<Longrightarrow> id_name ?W kd = id_name V kd"
    using touch_names(1,2) [OF t, of kd] nb by auto
  obtain sch where "schema_at V sch" using assms(1) by (auto simp: base_def)
  then have "\<exists>sch. schema_at ?W sch" using schema_touch [OF t _ ctn(3)] assms(1) by (auto simp: base_def)
  moreover have "counter_ok ?W k = counter_ok V k" if "k \<noteq> ct" for k using counter_frame [OF c, of k] that by simp
  moreover have "counter_ok ?W ct" by simp
  ultimately show "base ?W" using assms ti co cat_frame_fin [OF c] wcount_touch [OF t] ctn(2)
    by (auto simp: base_def room_def kinds_sep(7) kinds_sep(7) [symmetric])
  show "room ?W m = room V m" using co by (simp add: room_def)
qed


section \<open>Writing a node record\<close>

lemma unmarked_pkey:
  assumes "unat p < 0xFF000000"
  shows "\<not> hasPrefix (pkey (p, x) i) [Marker]"
proof -
  have "(4 :: nat) = Suc 3" by simp
  then have s: "be_put 4 (unat p) = word_of_nat (unat p div 256 ^ 3) # be_put 3 (unat p)" using be_put.simps(2) by metis
  have "unat p div 256 ^ 3 < 255" using assms by (simp add: div_less_iff_less_mult)
  then have "(word_of_nat (unat p div 256 ^ 3) :: byte) \<noteq> 0xFF"
    using byte_of_nat_eq [of "unat p div 256 ^ 3" 255] by simp
  then show ?thesis unfolding hasPrefix_append pkey_def fst_conv s by (simp add: Marker_def)
qed

lemma prop_index_upkept: "prop_index V P \<Longrightarrow> upkept V W \<Longrightarrow> prop_index W P"
  unfolding prop_index_def upkept_def by metis

lemma label_index_touch: "label_index V L \<Longrightarrow> touch KS B V W \<Longrightarrow> KSLabel \<notin> KS \<Longrightarrow> label_index W L"
  and prop_index_touch: "prop_index V P \<Longrightarrow> touch KS B V W \<Longrightarrow> KSProp \<notin> KS \<Longrightarrow> prop_index W P"
  and nodes_at_touch: "nodes_at V N \<Longrightarrow> touch KS B V W \<Longrightarrow> KSNode \<notin> KS \<Longrightarrow> nodes_at W N"
  by (simp_all add: label_index_def prop_index_def nodes_at_def touch_ks cong: option.case_cong)

lemma edges_part_touch:
  assumes "edges_part V E" "touch KS B V W" "KS \<inter> {KSEdge, KSOut, KSIn, KSEdgeType} = {}"
  shows "edges_part W E"
proof -
  have "W KSEdge = V KSEdge" "W KSOut = V KSOut" "W KSIn = V KSIn" "W KSEdgeType = V KSEdgeType"
    using assms(2,3) by (auto intro: touch_ks)
  then show ?thesis using assms(1) by (simp add: edges_part_def edges_at_def out_index_def in_index_def type_index_def cong: option.case_cong)
qed

lemma upd_view_same: "upd_view V ks k v ks = (V ks)(k := v)"
  by (auto simp: upd_view_apply)

lemma nodes_at_put:
  assumes "nodes_at V N" "decodeNode raw = Inr r"
  shows "nodes_at (upd_view V KSNode (idKey i) (Some raw)) (N(i \<mapsto> r))"
  using assms unfolding nodes_at_def upd_view_same by (auto cong: option.case_cong)

definition lids_of :: "kvview \<Rightarrow> gostring list \<Rightarrow> uint32 list" where
  "lids_of V ls = map (\<lambda>l. the (name_id V catLabel l)) ls"

lemma writeNode_view:
  assumes b: "base V" and r: "room V (length (n_Labels nd) + m)"
    and li: "label_index V L" and pi: "prop_index V P" and na: "nodes_at V N"
    and fit: "length (n_Labels nd) * sizeofUint32 \<le> maxAlloc" "props_fit (n_Props nd)"
  shows "\<exists>W. writeNode view_ops V h nd = (W, Inr ()) \<and> base W \<and> room W m \<and> grows V W
    \<and> touch {KSNode, KSLabel, KSProp} (name_bytes \<union> {KindWriteCount}) V W
    \<and> nodes_at W (N(n_ID nd \<mapsto> (lids_of W (n_Labels nd), map unnamed (n_Props nd))))
    \<and> label_index W (L(n_ID nd := L (n_ID nd) \<union> set (lids_of W (n_Labels nd))))
    \<and> prop_index W (P(n_ID nd := P (n_ID nd) \<union> pkeys (n_Props nd)))
    \<and> (\<forall>l\<in>set (n_Labels nd). name_id W catLabel l \<noteq> None)"
proof -
  let ?i = "n_ID nd" and ?ps = "n_Props nd" and ?ls = "n_Labels nd"
  have t0: "tables V" "fin_view V" using b by (auto simp: base_def)
  obtain V1 where v1: "internLabels view_ops V h ?ls = (V1, Inr (lids_of V1 ?ls))" "named V V1 m"
      "\<forall>l\<in>set ?ls. name_id V1 catLabel l \<noteq> None"
    using internLabels_view [OF t0(1) r, of h] unfolding lids_of_def by blast
  note n1 = base_named [OF b v1(2)]
  let ?raw = "encodeNode (lids_of V1 ?ls) ?ps"
  let ?V2 = "upd_view V1 KSNode (idKey ?i) (Some ?raw)"
  have dec: "decodeNode ?raw = Inr (lids_of V1 ?ls, map unnamed ?ps)"
    using fit by (intro decodeNode_encodeNode) (simp_all add: lids_of_def)
  have t1: "touch {} name_bytes V V1" using v1(2) by (simp add: named_def touch_frame)
  have t2: "touch {KSNode} {} V1 ?V2" by (rule touch_upd) simp
  have na2: "nodes_at ?V2 (N(?i \<mapsto> (lids_of V1 ?ls, map unnamed ?ps)))"
    by (rule nodes_at_put [OF nodes_at_touch [OF na t1] dec]) simp
  have li2: "label_index ?V2 L" by (rule label_index_touch [OF label_index_touch [OF li t1] t2]) simp_all
  have pi2: "prop_index ?V2 P" by (rule prop_index_touch [OF prop_index_touch [OF pi t1] t2]) simp_all
  obtain V3 where v3: "indexLabels view_ops ?V2 h ?i (lids_of V1 ?ls) = (V3, Inr ())" "touch {KSLabel} {} ?V2 V3"
      "label_index V3 (L(?i := L ?i \<union> set (lids_of V1 ?ls)))"
    using indexLabels_view [OF li2] by blast
  have pi3: "prop_index V3 P" by (rule prop_index_touch [OF pi2 v3(2)]) simp
  obtain V4 where v4: "indexProps view_ops V3 h ?i ?ps = (V4, Inr ())" "touch {KSProp} {} V3 V4"
      "prop_index V4 (P(?i := P ?i \<union> pkeys ?ps))"
    using indexProps_view [OF pi3] by blast
  have t14: "touch {KSNode, KSLabel, KSProp} {} V1 V4"
    by (rule touch_mono [OF touch_trans [OF touch_trans [OF t2 v3(2)] v4(2)]]) auto
  obtain sch where sch: "schema_at V1 sch" using n1(1) by (auto simp: base_def)
  have f1: "fin_view V1" using n1(1) by (simp add: base_def)
  have sch4: "schema_at V4 sch" by (rule schema_touch [OF t14 _ _ f1 sch]) auto
  obtain V5 where v5: "touchDeclared view_ops V4 h NodeEntity ?ls [] ?ps ?i True = (V5, Inr ())" "upkept V4 V5"
    using touchDeclared_view [OF sch4] by blast
  have w4: "wcount_ok V4" using n1(1) wcount_touch [OF t14] by (simp add: base_def)
  then have w5: "wcount_ok V5" using v5(2) by (simp add: upkept_def)
  obtain W where w: "bumpWrites view_ops V5 h = (W, Inr ())" "upkept V5 W" using bumpWrites_view [OF w5] by blast
  have up: "upkept V4 W" by (rule upkept_trans [OF v5(2) w(2)])
  then have tw: "touch {KSProp} {KindWriteCount} V4 W" "wcount_ok W" using w4 by (auto simp: upkept_def)
  have t1w: "touch {KSNode, KSLabel, KSProp} {KindWriteCount} V1 W"
    by (rule touch_mono [OF touch_trans [OF t14 tw(1)]]) auto
  note bw = base_touch [OF n1(1) t1w _ tw(2)]
  have run: "writeNode view_ops V h nd = (W, Inr ())"
    by (simp add: writeNode_def v1(1) v3(1) v4(1) indexDeclaredNode_def v5(1) w(1))
  have st: "steady V1 W" using bw by simp
  then have same: "name_id W catLabel = name_id V1 catLabel" "lids_of W ?ls = lids_of V1 ?ls"
    by (auto simp: steady_def lids_of_def)
  have tvw: "touch {KSNode, KSLabel, KSProp} (name_bytes \<union> {KindWriteCount}) V W"
    by (rule touch_mono [OF touch_trans [OF t1 t1w]]) auto
  have na3: "nodes_at W (N(?i \<mapsto> (lids_of V1 ?ls, map unnamed ?ps)))"
    by (rule nodes_at_touch [OF nodes_at_touch [OF nodes_at_touch [OF na2 v3(2)] v4(2)] tw(1)]) simp_all
  have li3: "label_index W (L(?i := L ?i \<union> set (lids_of V1 ?ls)))"
    by (rule label_index_touch [OF label_index_touch [OF v3(3) v4(2)] tw(1)]) simp_all
  have pi4: "prop_index W (P(?i := P ?i \<union> pkeys ?ps))" by (rule prop_index_upkept [OF v4(3) up])
  have "grows V W" using n1(5) st by (simp add: grows_def steady_def)
  moreover have "room W m" using n1(6) st by (simp add: room_def steady_def)
  ultimately show ?thesis
    by (intro exI [of _ W]) (use run bw(1) tvw na3 li3 pi4 v1(3) in \<open>simp add: same\<close>)
qed

section \<open>Reading records\<close>

definition label_name :: "kvview \<Rightarrow> uint32 \<Rightarrow> gostring" where
  "label_name V l = the (id_name V catLabelRev l)"

definition named_prop :: "kvview \<Rightarrow> Prop \<Rightarrow> Prop" where
  "named_prop V p = p\<lparr>p_Name := the (id_name V catPropRev (p_ID p))\<rparr>"

definition node_view :: "kvview \<Rightarrow> uint64 \<Rightarrow> node_rec \<Rightarrow> Node" where
  "node_view V i r = \<lparr>n_ID = i, n_Labels = sort (map (label_name V) (fst r)), n_Props = map (named_prop V) (snd r)\<rparr>"

definition edge_view :: "kvview \<Rightarrow> uint64 \<Rightarrow> decodedEdge \<Rightarrow> Edge" where
  "edge_view V i d = \<lparr>e_ID = i, e_From = de_From d, e_To = de_To d, e_Label = the (id_name V catTypeRev (de_TypeID d)),
     e_Props = map (named_prop V) (de_Props d)\<rparr>"

lemma label_name_inj:
  assumes "tables V" "id_name V catLabelRev l \<noteq> None" "id_name V catLabelRev l' \<noteq> None" "label_name V l = label_name V l'"
  shows "l = l'"
  using assms names_okD(4) [OF tablesD(2) [OF assms(1)]] unfolding label_name_def by (metis option.collapse option.inject)

lemma labelNames_loop_view:
  "tables V \<Longrightarrow> \<forall>l\<in>set lids. id_name V catLabelRev l \<noteq> None \<Longrightarrow> distinct (map (label_name V) lids) \<Longrightarrow>
   set out \<inter> label_name V ` set lids = {} \<Longrightarrow>
   labelNames_loop view_ops V h lids out = (V, Inr (out @ map (label_name V) lids))"
proof (induction lids arbitrary: out)
  case (Cons l lids)
  obtain nm where nm: "id_name V catLabelRev l = Some nm" "label_name V l = nm" using Cons.prems(2) by (auto simp: label_name_def)
  have "nm \<notin> set out" using Cons.prems(4) nm by auto
  then show ?case using Cons.IH [of "out @ [nm]"] Cons.prems nm by (auto simp: catName_view [OF tablesD(2)])
qed simp

lemma fillPropNames_loop_view:
  "tables V \<Longrightarrow> \<forall>p\<in>set ps. id_name V catPropRev (p_ID p) \<noteq> None \<Longrightarrow>
   fillPropNames_loop view_ops V h ps out = (V, Inr (out @ map (named_prop V) ps))"
proof (induction ps arbitrary: out)
  case (Cons p ps)
  then show ?case by (auto simp: catName_view [OF tablesD(1)] named_prop_def)
qed simp

lemma node_labels_distinct:
  assumes "tables V" "node_ok V (lids, ps)"
  shows "distinct (map (label_name V) lids)"
  using assms label_name_inj by (fastforce simp: distinct_map inj_on_def)

lemma GetNode_view:
  assumes "tables V" "nodes_at V N" "\<And>r. N i = Some r \<Longrightarrow> node_ok V r"
  shows "GetNode view_ops V h i = (V, case N i of None \<Rightarrow> Inl (GraphNotFound ''node'' i) | Some r \<Rightarrow> Inr (node_view V i r))"
proof (cases "N i")
  case None
  then show ?thesis using nodes_atD(1) [OF assms(2) None] by (simp add: GetNode_def view_get_def)
next
  case (Some r)
  obtain lids ps where r: "r = (lids, ps)" by (cases r)
  obtain raw where raw: "V KSNode (idKey i) = Some raw" "decodeNode raw = Inr (lids, ps)"
    using nodes_atD(2) [OF assms(2) Some] r by auto
  have ok: "node_ok V (lids, ps)" using assms(3) Some r by simp
  then have "\<forall>l\<in>set lids. id_name V catLabelRev l \<noteq> None" "\<forall>p\<in>set ps. id_name V catPropRev (p_ID p) \<noteq> None"
    by (auto simp: props_ok_def)
  then show ?thesis using Some r raw labelNames_loop_view [OF assms(1) _ node_labels_distinct [OF assms(1) ok], of "[]" h]
      fillPropNames_loop_view [OF assms(1), of ps h "[]"]
    by (simp add: GetNode_def view_get_def labelNames_def fillPropNames_def node_view_def)
qed

lemma loadEdge_view:
  assumes "tables V" "edges_at V E" "\<And>d. E i = Some d \<Longrightarrow> id_name V catTypeRev (de_TypeID d) \<noteq> None \<and> props_ok V (de_Props d)"
  shows "loadEdge view_ops V h i = (V, case E i of None \<Rightarrow> Inl (GraphNotFound ''edge'' i)
    | Some d \<Rightarrow> Inr \<lparr>er_Edge = edge_view V i d, er_TypeID = de_TypeID d\<rparr>)"
proof (cases "E i")
  case None
  then show ?thesis using edges_atD(1) [OF assms(2) None] by (simp add: loadEdge_def view_get_def)
next
  case (Some d)
  obtain raw where raw: "V KSEdge (idKey i) = Some raw" "decodeEdge raw = Inr d" using edges_atD(2) [OF assms(2) Some] by auto
  obtain nm where nm: "id_name V catTypeRev (de_TypeID d) = Some nm" using assms(3) [OF Some] by auto
  have "\<forall>p\<in>set (de_Props d). id_name V catPropRev (p_ID p) \<noteq> None" using assms(3) [OF Some] by (auto simp: props_ok_def)
  then show ?thesis using Some raw nm fillPropNames_loop_view [OF assms(1), of "de_Props d" h "[]"]
    by (simp add: loadEdge_def view_get_def fillPropNames_def edge_view_def catName_view [OF tablesD(3) [OF assms(1)]])
qed

section \<open>Writing and deleting an edge record\<close>

lemma edges_at_put:
  assumes "edges_at V E" "decodeEdge raw = Inr d"
  shows "edges_at (upd_view V KSEdge (idKey i) (Some raw)) (E(i \<mapsto> d))"
  using assms unfolding edges_at_def upd_view_same by (auto cong: option.case_cong)

lemma edges_at_del:
  assumes "edges_at V E"
  shows "edges_at (upd_view V KSEdge (idKey i) None) (E(i := None))"
  using assms unfolding edges_at_def upd_view_same by (auto cong: option.case_cong)

definition dec_of :: "edgeRec \<Rightarrow> decodedEdge" where
  "dec_of r = \<lparr>de_From = e_From (er_Edge r), de_To = e_To (er_Edge r), de_TypeID = er_TypeID r, de_Props = map unnamed (e_Props (er_Edge r))\<rparr>"

text \<open>Overwriting an edge keeps its endpoints and type, so its index keys stay the same.\<close>

definition same_ends :: "decodedEdge \<Rightarrow> decodedEdge \<Rightarrow> bool" where
  "same_ends d d' \<longleftrightarrow> de_From d = de_From d' \<and> de_To d = de_To d' \<and> de_TypeID d = de_TypeID d'"

definition index_of :: "(bytes \<Rightarrow> bytes option) \<Rightarrow> (uint64 \<Rightarrow> 'd option) \<Rightarrow> (uint64 \<Rightarrow> 'd \<Rightarrow> bytes) \<Rightarrow> bool" where
  "index_of m E kf \<longleftrightarrow> (\<forall>k. m k \<noteq> None \<longleftrightarrow> (\<exists>i d. E i = Some d \<and> k = kf i d))"

lemma index_of_put:
  assumes "index_of m E kf" and "\<And>d'. E i = Some d' \<Longrightarrow> kf i d' = kf i d"
  shows "index_of (m(kf i d \<mapsto> v)) (E(i \<mapsto> d)) kf"
  unfolding index_of_def
proof
  fix k
  have m: "m k \<noteq> None \<longleftrightarrow> (\<exists>i d. E i = Some d \<and> k = kf i d)" using assms(1) by (simp add: index_of_def)
  show "((m(kf i d \<mapsto> v)) k \<noteq> None) \<longleftrightarrow> (\<exists>ia da. (E(i \<mapsto> d)) ia = Some da \<and> k = kf ia da)" (is "?l \<longleftrightarrow> ?r")
  proof
    assume ?l
    then show ?r using m assms(2) by (cases "k = kf i d") (auto intro: exI [of _ i], metis fun_upd_apply)
  next
    assume ?r
    then show ?l using m by (auto split: if_splits)
  qed
qed

lemma index_of_del:
  assumes "index_of m E kf" and "\<And>j e. kf j e = kf i d \<Longrightarrow> j = i" and "E i = Some d"
  shows "index_of (m(kf i d := None)) (E(i := None)) kf"
  unfolding index_of_def
proof
  fix k
  have m: "m k \<noteq> None \<longleftrightarrow> (\<exists>i d. E i = Some d \<and> k = kf i d)" using assms(1) by (simp add: index_of_def)
  show "((m(kf i d := None)) k \<noteq> None) \<longleftrightarrow> (\<exists>ia da. (E(i := None)) ia = Some da \<and> k = kf ia da)" (is "?l \<longleftrightarrow> ?r")
  proof
    assume l: ?l
    then obtain j e where j: "E j = Some e" "k = kf j e" using m by (auto split: if_splits)
    then have "j \<noteq> i" using l assms(3) by (auto split: if_splits)
    then show ?r using j by (intro exI [of _ j] exI [of _ e]) simp
  next
    assume ?r
    then obtain j e where j: "j \<noteq> i" "E j = Some e" "k = kf j e" by (auto split: if_splits)
    then have "k \<noteq> kf i d" using assms(2) by metis
    then show ?l using m j by auto
  qed
qed

lemma edge_indexes:
  "out_index V E \<longleftrightarrow> index_of (V KSOut) E (\<lambda>i d. outKey (de_From d) (de_TypeID d) (de_To d) i)"
  "in_index V E \<longleftrightarrow> index_of (V KSIn) E (\<lambda>i d. inKey (de_To d) (de_TypeID d) (de_From d) i)"
  "type_index V E \<longleftrightarrow> index_of (V KSEdgeType) E (\<lambda>i d. typeKey (de_TypeID d) i)"
  by (simp_all add: out_index_def in_index_def type_index_def index_of_def)

lemma edges_part_put:
  assumes e: "edges_part V E" and d: "decodeEdge raw = Inr d" and s: "\<And>d'. E i = Some d' \<Longrightarrow> same_ends d' d"
  shows "edges_part (upd_view (upd_view (upd_view (upd_view V KSEdge (idKey i) (Some raw))
      KSOut (outKey (de_From d) (de_TypeID d) (de_To d) i) (Some [])) KSIn (inKey (de_To d) (de_TypeID d) (de_From d) i) (Some []))
      KSEdgeType (typeKey (de_TypeID d) i) (Some [])) (E(i \<mapsto> d))" (is "edges_part ?W _")
proof -
  have ks: "?W KSEdge = (V KSEdge)(idKey i \<mapsto> raw)" "?W KSOut = (V KSOut)(outKey (de_From d) (de_TypeID d) (de_To d) i \<mapsto> [])"
    "?W KSIn = (V KSIn)(inKey (de_To d) (de_TypeID d) (de_From d) i \<mapsto> [])" "?W KSEdgeType = (V KSEdgeType)(typeKey (de_TypeID d) i \<mapsto> [])"
    by (auto simp: upd_view_apply)
  have "edges_at ?W (E(i \<mapsto> d))" using e d unfolding edges_part_def edges_at_def ks by (auto cong: option.case_cong)
  moreover have "out_index ?W (E(i \<mapsto> d))" "in_index ?W (E(i \<mapsto> d))" "type_index ?W (E(i \<mapsto> d))"
    using e s unfolding edges_part_def edge_indexes ks by (auto simp: same_ends_def intro!: index_of_put)
  ultimately show ?thesis by (simp add: edges_part_def)
qed

lemma edges_part_del:
  assumes e: "edges_part V E" and d: "E i = Some d"
  shows "edges_part (upd_view (upd_view (upd_view (upd_view V KSOut (outKey (de_From d) (de_TypeID d) (de_To d) i) None)
      KSIn (inKey (de_To d) (de_TypeID d) (de_From d) i) None) KSEdgeType (typeKey (de_TypeID d) i) None) KSEdge (idKey i) None) (E(i := None))"
    (is "edges_part ?W _")
proof -
  have ks: "?W KSEdge = (V KSEdge)(idKey i := None)" "?W KSOut = (V KSOut)(outKey (de_From d) (de_TypeID d) (de_To d) i := None)"
    "?W KSIn = (V KSIn)(inKey (de_To d) (de_TypeID d) (de_From d) i := None)" "?W KSEdgeType = (V KSEdgeType)(typeKey (de_TypeID d) i := None)"
    by (auto simp: upd_view_apply)
  have "edges_at ?W (E(i := None))" using e unfolding edges_part_def edges_at_def ks by (auto cong: option.case_cong)
  moreover have "out_index ?W (E(i := None))" "in_index ?W (E(i := None))" "type_index ?W (E(i := None))"
    using e d unfolding edges_part_def edge_indexes ks by (auto intro!: index_of_del)
  ultimately show ?thesis by (simp add: edges_part_def)
qed

text \<open>What a change of edges leaves alone.\<close>

lemma base_upkept:
  assumes "base V" "upkept V W"
  shows "base W" "steady V W"
proof -
  have "touch {KSProp} {KindWriteCount} V W" "wcount_ok W" using assms by (auto simp: upkept_def base_def)
  then show "base W" "steady V W" using base_touch [OF assms(1), of "{KSProp}" W] by simp_all
qed

lemma writeEdge_view:
  assumes b: "base V" and e: "edges_part V E" and fit: "props_fit (e_Props (er_Edge r))"
    and s: "\<And>d'. E (e_ID (er_Edge r)) = Some d' \<Longrightarrow> same_ends d' (dec_of r)"
  shows "\<exists>W. writeEdge view_ops V h r = (W, Inr ()) \<and> base W \<and> steady V W \<and> edges_part W (E(e_ID (er_Edge r) \<mapsto> dec_of r))
    \<and> touch {KSEdge, KSOut, KSIn, KSEdgeType, KSProp} {KindWriteCount} V W \<and> (\<forall>k. \<not> hasPrefix k [Marker] \<longrightarrow> W KSProp k = V KSProp k)"
proof -
  let ?ed = "er_Edge r" and ?t = "er_TypeID r"
  let ?i = "e_ID ?ed"
  let ?raw = "encodeEdge (e_From ?ed) (e_To ?ed) ?t (e_Props ?ed)"
  let ?V1 = "upd_view (upd_view (upd_view (upd_view V KSEdge (idKey ?i) (Some ?raw))
      KSOut (outKey (e_From ?ed) ?t (e_To ?ed) ?i) (Some [])) KSIn (inKey (e_To ?ed) ?t (e_From ?ed) ?i) (Some []))
      KSEdgeType (typeKey ?t ?i) (Some [])"
  have dec: "decodeEdge ?raw = Inr (dec_of r)" using decodeEdge_encodeEdge [OF fit] by (simp add: dec_of_def)
  have e1: "edges_part ?V1 (E(?i \<mapsto> dec_of r))" using edges_part_put [OF e dec, of ?i] s by (simp add: dec_of_def)
  have t1: "touch {KSEdge, KSOut, KSIn, KSEdgeType} {} V ?V1" by (simp add: touch_def upd_view_apply)
  have w1: "wcount_ok ?V1" using b wcount_touch [OF t1] by (simp add: base_def)
  have t1': "touch {KSEdge, KSOut, KSIn, KSEdgeType} {KindWriteCount} V ?V1" by (rule touch_mono [OF t1]) simp_all
  have ks: "KSCatalog \<notin> {KSEdge, KSOut, KSIn, KSEdgeType}" by simp
  note b1 = base_touch [OF b t1' ks w1]
  obtain sch where "schema_at ?V1 sch" using b1 by (auto simp: base_def)
  then obtain V2 where v2: "touchDeclared view_ops ?V1 h EdgeEntity [] (e_Label ?ed) (e_Props ?ed) ?i True = (V2, Inr ())" "upkept ?V1 V2"
    using touchDeclared_view by blast
  have w2: "wcount_ok V2" using v2(2) w1 by (simp add: upkept_def)
  obtain W where w: "bumpWrites view_ops V2 h = (W, Inr ())" "upkept V2 W" using bumpWrites_view [OF w2] by blast
  have up: "upkept ?V1 W" by (rule upkept_trans [OF v2(2) w(2)])
  have run: "writeEdge view_ops V h r = (W, Inr ())" by (simp add: writeEdge_def Let_def indexDeclaredEdge_def v2(1) w(1))
  note bw = base_upkept [OF b1(1) up]
  have tu: "touch {KSProp} {KindWriteCount} ?V1 W" using up by (simp add: upkept_def)
  have "edges_part W (E(?i \<mapsto> dec_of r))" by (rule edges_part_touch [OF e1 tu]) simp
  moreover have "touch {KSEdge, KSOut, KSIn, KSEdgeType, KSProp} {KindWriteCount} V W"
    by (rule touch_mono [OF touch_trans [OF t1 tu]]) auto
  moreover have "W KSProp k = V KSProp k" if "\<not> hasPrefix k [Marker]" for k
    using up that by (simp add: upkept_def upd_view_apply)
  moreover have "steady V W" using b1(2) bw(2) by (simp add: steady_def)
  ultimately show ?thesis using run bw(1) by blast
qed

end
