(* ===== verification/GraphOps.thy ===== *)
theory GraphOps
  imports GraphWrite
begin

text \<open>
  Every operation of the graph store keeps the invariant, and what it does to the nodes and edges a
  consistent store holds.
\<close>

section \<open>Growth\<close>

lemma props_ok_grows:
  assumes "props_ok V ps" "grows V W" "tables V" "tables W"
  shows "props_ok W ps"
proof -
  have "id_name W catPropRev (p_ID p) \<noteq> None" if "p \<in> set ps" for p
    using that assms(1) grows_id(1) [OF assms(2-4), of "p_ID p"] by (fastforce simp: props_ok_def)
  then show ?thesis using assms(1) by (auto simp: props_ok_def)
qed

lemma node_ok_grows:
  assumes "node_ok V r" "grows V W" "tables V" "tables W"
  shows "node_ok W r"
proof -
  obtain lids ps where r: "r = (lids, ps)" by (cases r)
  have "id_name W catLabelRev l \<noteq> None" if "l \<in> set lids" for l
    using that assms(1) r grows_id(2) [OF assms(2-4), of l] by fastforce
  then show ?thesis using assms(1) r props_ok_grows [OF _ assms(2-4)] by auto
qed

lemma edge_ok_grows:
  assumes "edge_ok V N d" "grows V W" "tables V" "tables W" "dom N \<subseteq> dom N'"
  shows "edge_ok W N' d"
  using assms(1,5) grows_id(3) [OF assms(2-4), of "de_TypeID d"] props_ok_grows [OF _ assms(2-4)]
  by (fastforce simp: edge_ok_def dom_def)

lemma named_prop_grows:
  assumes "props_ok V ps" "grows V W" "tables V" "tables W"
  shows "map (named_prop W) ps = map (named_prop V) ps"
proof -
  have "named_prop W p = named_prop V p" if p: "p \<in> set ps" for p
  proof -
    obtain nm where "id_name V catPropRev (p_ID p) = Some nm" using assms(1) p by (auto simp: props_ok_def)
    then show ?thesis using grows_id(1) [OF assms(2-4)] by (simp add: named_prop_def)
  qed
  then show ?thesis by simp
qed

lemma node_view_grows:
  assumes "node_ok V r" "grows V W" "tables V" "tables W"
  shows "node_view W i r = node_view V i r"
proof -
  obtain lids ps where r: "r = (lids, ps)" by (cases r)
  have "label_name W l = label_name V l" if l: "l \<in> set lids" for l
  proof -
    obtain nm where "id_name V catLabelRev l = Some nm" using assms(1) r l by fastforce
    then show ?thesis using grows_id(2) [OF assms(2-4)] by (simp add: label_name_def)
  qed
  then have m: "map (label_name W) lids = map (label_name V) lids" by simp
  have "map (named_prop W) ps = map (named_prop V) ps" using assms(1) r by (intro named_prop_grows [OF _ assms(2-4)]) simp
  then show ?thesis by (simp only: node_view_def r fst_conv snd_conv m)
qed

lemma edge_view_grows:
  assumes "edge_ok V N d" "grows V W" "tables V" "tables W"
  shows "edge_view W i d = edge_view V i d"
proof -
  obtain nm where "id_name V catTypeRev (de_TypeID d) = Some nm" using assms(1) by (auto simp: edge_ok_def)
  then show ?thesis using assms(1) grows_id(3) [OF assms(2-4)] named_prop_grows [OF _ assms(2-4), of "de_Props d"]
    by (simp add: edge_view_def edge_ok_def)
qed

lemma steady_grows: "steady V W \<Longrightarrow> grows V W"
  by (simp add: steady_def grows_def)

lemma base_tables: "base V \<Longrightarrow> tables V"
  by (simp add: base_def)

section \<open>Writing a node\<close>

text \<open>A node as the operations hand it to \<open>writeNode\<close>: its properties are interned and in id order.\<close>

definition good_node :: "kvview \<Rightarrow> Node \<Rightarrow> bool" where
  "good_node V nd \<longleftrightarrow> sorted (n_Labels nd) \<and> distinct (n_Labels nd) \<and> length (n_Labels nd) * sizeofUint32 \<le> maxAlloc
     \<and> sorted_wrt (<) (map p_ID (n_Props nd)) \<and> props_fit (n_Props nd)
     \<and> (\<forall>p\<in>set (n_Props nd). id_name V catPropRev (p_ID p) = Some (p_Name p) \<and> Storable (p_Value p))"

definition graph_but :: "kvview \<Rightarrow> (uint64 \<Rightarrow> node_rec option) \<Rightarrow> (uint64 \<Rightarrow> decodedEdge option) \<Rightarrow> uint64 \<Rightarrow> uint32 set \<Rightarrow> (uint32 \<times> bytes) set \<Rightarrow> bool" where
  "graph_but V N E i ls ks \<longleftrightarrow> base V \<and> nodes_at V N \<and> edges_part V E \<and> label_index V ((labels_of N)(i := ls)) \<and> prop_index V ((props_of N)(i := ks))
     \<and> (\<forall>j r. N j = Some r \<longrightarrow> node_ok V r \<and> j < counter_of V catNextNode) \<and> i < counter_of V catNextNode
     \<and> (\<forall>j d. E j = Some d \<longrightarrow> edge_ok V N d \<and> j < counter_of V catNextEdge)"

lemma graph_butD:
  assumes "graph_but V N E i ls ks"
  shows "base V" "nodes_at V N" "edges_part V E" "label_index V ((labels_of N)(i := ls))" "prop_index V ((props_of N)(i := ks))"
    "N j = Some r \<Longrightarrow> node_ok V r" "N j = Some r \<Longrightarrow> j < counter_of V catNextNode" "i < counter_of V catNextNode"
    "E k = Some d \<Longrightarrow> edge_ok V N d" "E k = Some d \<Longrightarrow> k < counter_of V catNextEdge"
  using assms unfolding graph_but_def by blast+

lemma pkeys_unnamed [simp]: "pkeys (map unnamed ps) = pkeys ps"
  by (auto simp: pkeys_def unnamed_def image_image)

lemma unnamed_simps [simp]: "p_ID (unnamed p) = p_ID p" "p_Name (unnamed p) = []" "p_Value (unnamed p) = p_Value p"
  by (simp_all add: unnamed_def)

lemma props_fit_unnamed [simp]: "props_fit (map unnamed ps) = props_fit ps"
  by (simp add: props_fit_def record_fits_def list_all_iff)

lemma named_unnamed: "id_name V catPropRev (p_ID p) = Some (p_Name p) \<Longrightarrow> named_prop V (unnamed p) = p"
  by (simp add: named_prop_def unnamed_def)

lemma lids_of_names:
  assumes "tables W" "\<forall>l\<in>set ls. name_id W catLabel l \<noteq> None" "distinct ls"
  shows "distinct (lids_of W ls)" "map (label_name W) (lids_of W ls) = ls" "\<forall>l\<in>set (lids_of W ls). id_name W catLabelRev l \<noteq> None"
proof -
  note n = names_okD(4) [OF tablesD(2) [OF assms(1)]]
  have i: "id_name W catLabelRev (the (name_id W catLabel l)) = Some l" if "l \<in> set ls" for l
    using that assms(2) n by (metis option.collapse)
  show m: "map (label_name W) (lids_of W ls) = ls" using i by (simp add: lids_of_def label_name_def map_idI)
  then show "distinct (lids_of W ls)" using assms(3) by (metis distinct_map)
  show "\<forall>l\<in>set (lids_of W ls). id_name W catLabelRev l \<noteq> None" using i by (auto simp: lids_of_def)
qed

lemma fun_upd_index: "(labels_of N)(i := set lids) = labels_of (N(i \<mapsto> (lids, ps)))" "(props_of N)(i := pkeys ps) = props_of (N(i \<mapsto> (lids, ps)))"
  by (auto simp: labels_of_def props_of_def fun_eq_iff)

lemma graph_write_node:
  assumes g: "graph_but V N E (n_ID nd) ls ks" and good: "good_node V nd" and r: "room V (length (n_Labels nd) + m)"
    and ls: "\<forall>l\<in>ls. \<exists>n\<in>set (n_Labels nd). name_id V catLabel n = Some l" and ks: "ks \<subseteq> pkeys (n_Props nd)"
  shows "\<exists>W lids. writeNode view_ops V h nd = (W, Inr ()) \<and> room W m \<and> grows V W
    \<and> graph_at W (N(n_ID nd \<mapsto> (lids, map unnamed (n_Props nd)))) E \<and> node_view W (n_ID nd) (lids, map unnamed (n_Props nd)) = nd
    \<and> counter_of W catNextNode = counter_of V catNextNode \<and> counter_of W catNextEdge = counter_of V catNextEdge"
proof -
  let ?i = "n_ID nd" and ?ps = "n_Props nd" and ?ns = "n_Labels nd"
  note b = graph_butD(1) [OF g] and na = graph_butD(2) [OF g] and ep = graph_butD(3) [OF g] and li = graph_butD(4) [OF g]
    and pi = graph_butD(5) [OF g]
  have fit: "length ?ns * sizeofUint32 \<le> maxAlloc" "props_fit ?ps" using good by (auto simp: good_node_def)
  obtain W where w: "writeNode view_ops V h nd = (W, Inr ())" "base W" "room W m" "grows V W"
      "touch {KSNode, KSLabel, KSProp} (name_bytes \<union> {KindWriteCount}) V W"
      "nodes_at W (N(?i \<mapsto> (lids_of W ?ns, map unnamed ?ps)))"
      "label_index W ((labels_of N)(?i := ls \<union> set (lids_of W ?ns)))"
      "prop_index W ((props_of N)(?i := ks \<union> pkeys ?ps))" "\<forall>l\<in>set ?ns. name_id W catLabel l \<noteq> None"
    using writeNode_view [OF b r li pi na fit, of h] unfolding fun_upd_same fun_upd_upd by blast
  have tw: "tables V" "tables W" using b w(2) base_tables by auto
  have dn: "distinct ?ns" "sorted ?ns" using good by (auto simp: good_node_def)
  note lid = lids_of_names [OF tw(2) w(9) dn(1)]
  have "ls \<union> set (lids_of W ?ns) = set (lids_of W ?ns)"
  proof -
    have "l \<in> set (lids_of W ?ns)" if l: "l \<in> ls" for l
    proof -
      obtain n where n: "n \<in> set ?ns" "name_id V catLabel n = Some l" using ls l by blast
      then show ?thesis using grows_name(2) [OF w(4) n(2)] by (force simp: lids_of_def)
    qed
    then show ?thesis by blast
  qed
  then have li2: "label_index W (labels_of (N(?i \<mapsto> (lids_of W ?ns, map unnamed ?ps))))"
    using w(7) fun_upd_index(1) by metis
  have "ks \<union> pkeys ?ps = pkeys (map unnamed ?ps)" using ks by auto
  then have pi2: "prop_index W (props_of (N(?i \<mapsto> (lids_of W ?ns, map unnamed ?ps))))"
    using w(8) fun_upd_index(2) by metis
  have gp: "\<forall>p\<in>set ?ps. id_name W catPropRev (p_ID p) = Some (p_Name p) \<and> Storable (p_Value p)"
    using good grows_id(1) [OF w(4) tw] by (auto simp: good_node_def)
  have new: "node_ok W (lids_of W ?ns, map unnamed ?ps)"
    using lid fit good gp by (auto simp: good_node_def props_ok_def lids_of_def comp_def)
  have cs: "counter_of W catNextNode = counter_of V catNextNode" "counter_of W catNextEdge = counter_of V catNextEdge"
    using touch_names(3) [OF w(5)] kinds_sep by auto
  have view: "node_view W ?i (lids_of W ?ns, map unnamed ?ps) = nd"
    using lid(2) dn(2) gp named_unnamed by (simp add: node_view_def sorted_sort_id map_idI)
  have "edges_part W E" by (rule edges_part_touch [OF ep w(5)]) simp
  moreover have "node_ok W r \<and> j < counter_of W catNextNode" if "(N(?i \<mapsto> (lids_of W ?ns, map unnamed ?ps))) j = Some r" for j r
  proof (cases "j = ?i")
    case True
    then show ?thesis using that new graph_butD(8) [OF g] cs by (auto simp del: node_ok.simps)
  next
    case False
    then have "N j = Some r" using that by simp
    then show ?thesis using graph_butD(6,7) [OF g] cs node_ok_grows [OF _ w(4) tw] by metis
  qed
  moreover have "edge_ok W (N(?i \<mapsto> (lids_of W ?ns, map unnamed ?ps))) d \<and> j < counter_of W catNextEdge" if "E j = Some d" for j d
  proof -
    have "dom N \<subseteq> dom (N(?i \<mapsto> (lids_of W ?ns, map unnamed ?ps)))" by auto
    then show ?thesis using graph_butD(9,10) [OF g that] cs edge_ok_grows [OF _ w(4) tw] by metis
  qed
  ultimately have "graph_at W (N(?i \<mapsto> (lids_of W ?ns, map unnamed ?ps))) E"
    using w(2,6) li2 pi2 unfolding graph_at_def by blast
  then show ?thesis using w(1,3,4) view cs by blast
qed

section \<open>Labels and properties\<close>

lemma dedup_props: "set (dedup seen ls) = set ls - set seen" "distinct (dedup seen ls)" "length (dedup seen ls) \<le> length ls"
proof (induction ls arbitrary: seen)
  case (Cons l ls)
  { case 1 show ?case using Cons(1) [of seen] Cons(1) [of "l # seen"] by auto }
  { case 2 show ?case using Cons(1,2) [of seen] Cons(1,2) [of "l # seen"] by auto }
  { case 3 show ?case using Cons(3) [of seen] Cons(3) [of "l # seen"] by auto }
qed simp_all

lemma normalizeLabels_props:
  "sorted (normalizeLabels ls)" "distinct (normalizeLabels ls)" "set (normalizeLabels ls) = set ls" "length (normalizeLabels ls) \<le> length ls"
  using dedup_props [of "[]" ls] by (auto simp: normalizeLabels_def)

lemma normalizeLabels_id: "sorted ls \<Longrightarrow> distinct ls \<Longrightarrow> normalizeLabels ls = ls"
  by (rule sorted_distinct_set_unique) (simp_all add: normalizeLabels_props)

definition values_fit :: "(gostring \<times> val) list \<Rightarrow> bool" where
  "values_fit ps \<longleftrightarrow> distinct (map fst ps) \<and> length ps * sizeofProp \<le> maxAlloc
     \<and> list_all (\<lambda>e. Storable (snd e) \<and> shape_ok (snd e) \<and> fits_memory (snd e) \<and> length (EncodeRecord (snd e)) \<le> maxAlloc) ps"

definition good_props :: "kvview \<Rightarrow> Prop list \<Rightarrow> bool" where
  "good_props V ps \<longleftrightarrow> sorted_wrt (<) (map p_ID ps) \<and> props_fit ps
     \<and> (\<forall>p\<in>set ps. id_name V catPropRev (p_ID p) = Some (p_Name p) \<and> Storable (p_Value p))"

lemma strict_sorted_by:
  assumes "distinct (map f xs)"
  shows "sorted_wrt (<) (map f (sort_key f xs))"
  using assms by (simp add: strict_sorted_iff distinct_map inj_on_def)

lemma good_sorted_props:
  assumes "tables W" "known W ps" "values_fit ps"
  shows "good_props W (sorted_props W ps)"
proof -
  have "distinct (map p_ID (map (mkprop W) ps))" using mkprop_ids_distinct [OF assms(1,2)] assms(3) by (simp add: values_fit_def)
  then have "sorted_wrt (<) (map p_ID (sorted_props W ps))" unfolding sorted_props_def by (rule strict_sorted_by)
  moreover have "props_fit (sorted_props W ps)"
    using assms(3) by (auto simp: sorted_props_def props_fit_def record_fits_def values_fit_def list_all_iff mkprop_def)
  moreover have "id_name W catPropRev (p_ID (mkprop W e)) = Some (p_Name (mkprop W e))" if "e \<in> set ps" for e
    using that assms(2) names_okD(4) [OF tablesD(1) [OF assms(1)]] by (fastforce simp: known_def mkprop_def)
  ultimately show ?thesis using assms(3) by (auto simp: good_props_def sorted_props_def values_fit_def list_all_iff mkprop_def)
qed

lemma good_node_props:
  "good_node V nd \<longleftrightarrow> sorted (n_Labels nd) \<and> distinct (n_Labels nd) \<and> length (n_Labels nd) * sizeofUint32 \<le> maxAlloc \<and> good_props V (n_Props nd)"
  by (auto simp: good_node_def good_props_def)

lemma good_props_grows: "good_props V ps \<Longrightarrow> grows V W \<Longrightarrow> tables V \<Longrightarrow> tables W \<Longrightarrow> good_props W ps"
  using grows_id(1) by (auto simp: good_props_def)

lemma values_fit_storable: "values_fit ps \<Longrightarrow> list_all (Storable \<circ> snd) ps" "values_fit ps \<Longrightarrow> distinct (map fst ps)"
  by (auto simp: values_fit_def list_all_iff)

section \<open>Creating a node\<close>

lemma graph_named:
  assumes "graph_at V N E" "named V W m"
  shows "graph_at W N E" "room W m" "grows V W" "counter_of W catNextNode = counter_of V catNextNode"
    "counter_of W catNextEdge = counter_of V catNextEdge" "tables V" "tables W"
proof -
  note n = base_named [OF graph_atD(1) [OF assms(1)] assms(2)]
  show tw: "tables V" "tables W" using graph_atD(1) [OF assms(1)] n(1) base_tables by auto
  show "room W m" "grows V W" and cs: "counter_of W catNextNode = counter_of V catNextNode" "counter_of W catNextEdge = counter_of V catNextEdge"
    using n by auto
  have t: "touch {} name_bytes V W" using assms(2) by (simp add: named_def touch_frame)
  have "nodes_at W N" "label_index W (labels_of N)" "prop_index W (props_of N)" "edges_part W E"
    using graph_atD(2-5) [OF assms(1)] nodes_at_touch [OF _ t] label_index_touch [OF _ t] prop_index_touch [OF _ t] edges_part_touch [OF _ t]
    by auto
  then show "graph_at W N E"
    unfolding graph_at_def using n(1) graph_atD(6-9) [OF assms(1)] cs node_ok_grows [OF _ n(5) tw] edge_ok_grows [OF _ n(5) tw subset_refl]
    by metis
qed

lemma graph_at_but: "graph_at V N E \<Longrightarrow> i < counter_of V catNextNode \<Longrightarrow> graph_but V N E i (labels_of N i) (props_of N i)"
  unfolding graph_at_def graph_but_def by (simp add: fun_upd_idem del: node_ok.simps)

lemma unat_inc:
  assumes "(c :: uint64) + 1 \<noteq> 0"
  shows "unat (c + 1) = unat c + 1"
proof -
  have "unat c + 1 < 2 ^ 64 \<or> unat c + 1 = 2 ^ 64" using unat_bounds(1) [of c] by linarith
  then show ?thesis using assms by (auto simp: unat_word_ariths word_unat_eq_iff)
qed

lemma graph_counter:
  assumes g: "graph_at V N E" and ct: "ct \<in> {catNextNode, catNextEdge}" and up: "counter_of V ct + 1 \<noteq> 0"
  shows "graph_at (set_counter V ct (counter_of V ct + 1)) N E"
    and "counter_of V ct < counter_of (set_counter V ct (counter_of V ct + 1)) ct"
    and "grows V (set_counter V ct (counter_of V ct + 1))" "room (set_counter V ct (counter_of V ct + 1)) m = room V m"
    and "ct' \<in> {catNextNode, catNextEdge} \<Longrightarrow> ct' \<noteq> ct \<Longrightarrow> counter_of (set_counter V ct (counter_of V ct + 1)) ct' = counter_of V ct'"
proof -
  let ?W = "set_counter V ct (counter_of V ct + 1)"
  note b = base_counter [OF graph_atD(1) [OF g] ct, where n = "counter_of V ct + 1"]
  have lt: "n < counter_of V ct + 1 \<longleftrightarrow> n \<le> counter_of V ct" for n
    using unat_inc [OF up] by (auto simp: word_less_nat_alt word_le_nat_alt)
  show g1: "grows V ?W" using b(6) by (simp add: grows_def name_bytes_def)
  show "room ?W m = room V m" by (rule b(5))
  show "counter_of V ct < counter_of ?W ct" using lt by simp
  show o: "ct' \<in> {catNextNode, catNextEdge} \<Longrightarrow> ct' \<noteq> ct \<Longrightarrow> counter_of ?W ct' = counter_of V ct'" for ct' by (rule b(3))
  have tw: "tables V" "tables ?W" using graph_atD(1) [OF g] b(1) base_tables by auto
  have t: "touch {} {ct} V ?W" by (simp add: touch_frame set_counter_frame)
  have "nodes_at ?W N" "label_index ?W (labels_of N)" "prop_index ?W (props_of N)" "edges_part ?W E"
    using graph_atD(2-5) [OF g] nodes_at_touch [OF _ t] label_index_touch [OF _ t] prop_index_touch [OF _ t] edges_part_touch [OF _ t]
    by auto
  moreover have "n < counter_of ?W ct'" if "n < counter_of V ct'" "ct' \<in> {catNextNode, catNextEdge}" for n ct'
    using that o [OF that(2)] lt by (cases "ct' = ct") auto
  ultimately show "graph_at ?W N E"
    unfolding graph_at_def using b(1) graph_atD(6-9) [OF g] node_ok_grows [OF _ g1 tw] edge_ok_grows [OF _ g1 tw subset_refl]
    by (metis insertCI)
qed

lemma CreateNode_view:
  assumes g: "graph_at V N E" and r: "room V (length ls + length ps + m)" and fit: "values_fit ps" "length ls * sizeofUint32 \<le> maxAlloc"
    and up: "counter_of V catNextNode + 1 \<noteq> 0"
  shows "\<exists>W r n. CreateNode view_ops V h ls ps = (W, Inr n) \<and> graph_at W (N(counter_of V catNextNode \<mapsto> r)) E
    \<and> n = node_view W (counter_of V catNextNode) r \<and> n_ID n = counter_of V catNextNode \<and> n_Labels n = normalizeLabels ls
    \<and> n_Props n = sorted_props W ps \<and> known W ps \<and> room W m \<and> grows V W \<and> N (counter_of V catNextNode) = None
    \<and> counter_of W catNextNode = counter_of V catNextNode + 1 \<and> counter_of W catNextEdge = counter_of V catNextEdge"
proof -
  let ?i = "counter_of V catNextNode"
  have r': "room V (length ps + (length ls + m))" using r by (simp add: ac_simps)
  obtain V1 where v1: "assignProps view_ops V h ps = (V1, Inr (sorted_props V1 ps))" "named V V1 (length ls + m)" "known V1 ps"
    using assignProps_view [OF base_tables [OF graph_atD(1) [OF g]] r' values_fit_storable(1,2) [OF fit(1)], of h] by blast
  note n1 = graph_named [OF g v1(2)]
  have nn: "catNextNode \<in> {catNextNode, catNextEdge}" by simp
  have up1: "counter_of V1 catNextNode + 1 \<noteq> 0" using up n1(4) by simp
  note c = graph_counter [OF n1(1) nn up1]
  let ?V2 = "set_counter V1 catNextNode (?i + 1)"
  have al: "alloc view_ops V1 h catNextNode = (?V2, Inr ?i)"
    using graph_atD(1) [OF n1(1)] n1(4) by (simp add: alloc_view base_def)
  have g2: "graph_at ?V2 N E" "?i < counter_of ?V2 catNextNode" "grows V1 ?V2" "room ?V2 (length ls + m)"
      "counter_of ?V2 catNextEdge = counter_of V1 catNextEdge"
    using c n1(2,4) kinds_sep(7) by auto
  have fresh: "N ?i = None" using graph_atD(7) [OF g, of ?i] by (cases "N ?i") auto
  let ?n = "\<lparr>n_ID = ?i, n_Labels = normalizeLabels ls, n_Props = sorted_props V1 ps\<rparr>"
  have t2: "tables ?V2" using graph_atD(1) [OF g2(1)] base_tables by auto
  have gp: "good_props ?V2 (sorted_props V1 ps)"
    by (rule good_props_grows [OF good_sorted_props [OF n1(7) v1(3) fit(1)] g2(3) n1(7) t2])
  have "length (normalizeLabels ls) * sizeofUint32 \<le> maxAlloc"
    using fit(2) normalizeLabels_props(4) [of ls] by (meson mult_le_mono1 order_trans)
  then have gn: "good_node ?V2 ?n" using gp normalizeLabels_props by (simp add: good_node_props)
  have gb: "graph_but ?V2 N E (n_ID ?n) {} {}"
    using graph_at_but [OF g2(1,2)] fresh by (simp add: labels_of_def props_of_def)
  have rm: "room ?V2 (length (n_Labels ?n) + m)" using room_mono [OF g2(4)] normalizeLabels_props(4) [of ls] by simp
  obtain W lids where w: "writeNode view_ops ?V2 h ?n = (W, Inr ())" "room W m" "grows ?V2 W"
      "graph_at W (N(?i \<mapsto> (lids, map unnamed (sorted_props V1 ps)))) E"
      "node_view W ?i (lids, map unnamed (sorted_props V1 ps)) = ?n" "counter_of W catNextNode = counter_of ?V2 catNextNode"
      "counter_of W catNextEdge = counter_of ?V2 catNextEdge"
    using graph_write_node [OF gb gn rm, of h] by auto
  have gw: "grows V1 W" by (rule grows_trans [OF g2(3) w(3)])
  then have "sorted_props W ps = sorted_props V1 ps" "known W ps"
    using mkprop_grows [OF gw v1(3)] unfolding sorted_props_def by metis+
  then show ?thesis using v1(1) al w fresh g2(5) n1(4,5) grows_trans [OF n1(3) gw]
    by (intro exI [of _ W] exI [of _ "(lids, map unnamed (sorted_props V1 ps))"] exI [of _ ?n])
      (simp add: CreateNode_def Let_def)
qed

section \<open>Changing a node\<close>

lemma room_steady: "steady V W \<Longrightarrow> room W m = room V m"
  by (simp add: room_def steady_def)

lemma steady_trans: "steady V W \<Longrightarrow> steady W X \<Longrightarrow> steady V X"
  by (simp add: steady_def)

lemma graph_but_steady:
  assumes g: "graph_but V N E i ls ks" and t: "touch KS {KindWriteCount} V W" and k: "KS \<subseteq> {KSLabel, KSProp}" and w: "wcount_ok W"
    and li: "label_index W ((labels_of N)(i := ls'))" and pi: "prop_index W ((props_of N)(i := ks'))"
  shows "graph_but W N E i ls' ks'" "steady V W"
proof -
  have nk: "KSCatalog \<notin> KS" "KSNode \<notin> KS" "KS \<inter> {KSEdge, KSOut, KSIn, KSEdgeType} = {}" using k by auto
  note b = base_touch [OF graph_butD(1) [OF g] t nk(1) w]
  show s: "steady V W" by (rule b(2))
  note gr = steady_grows [OF s]
  have tw: "tables V" "tables W" using graph_butD(1) [OF g] b(1) base_tables by auto
  have cs: "counter_of W catNextNode = counter_of V catNextNode" "counter_of W catNextEdge = counter_of V catNextEdge"
    using s by (auto simp: steady_def)
  show "graph_but W N E i ls' ks'"
    unfolding graph_but_def using b(1) nodes_at_touch [OF graph_butD(2) [OF g] t nk(2)] edges_part_touch [OF graph_butD(3) [OF g] t nk(3)] li pi
      graph_butD(6-10) [OF g] cs node_ok_grows [OF _ gr tw] edge_ok_grows [OF _ gr tw subset_refl]
    by metis
qed

lemma graph_but_upkept:
  assumes g: "graph_but V N E i ls ks" and u: "upkept V W"
  shows "graph_but W N E i ls ks" "steady V W"
proof -
  have t: "touch {KSProp} {KindWriteCount} V W" and w: "wcount_ok W" using u graph_butD(1) [OF g] by (auto simp: upkept_def base_def)
  have li: "label_index W ((labels_of N)(i := ls))" by (rule label_index_touch [OF graph_butD(4) [OF g] t]) simp
  note pi = prop_index_upkept [OF graph_butD(5) [OF g] u]
  show "graph_but W N E i ls ks" "steady V W" using graph_but_steady [OF g t _ w li pi] by auto
qed

lemma declared_but:
  assumes g: "graph_but V N E i ls ks"
  shows "\<exists>W. touchDeclared view_ops V h en l t ps j add = (W, Inr ()) \<and> graph_but W N E i ls ks \<and> steady V W \<and> upkept V W"
proof -
  obtain sch where "schema_at V sch" using graph_butD(1) [OF g] by (auto simp: base_def)
  then show ?thesis using touchDeclared_view graph_but_upkept [OF g] by meson
qed

lemma wcount_but: "graph_but V N E i ls ks \<Longrightarrow> touch KS {} V W \<Longrightarrow> KSCatalog \<notin> KS \<Longrightarrow> wcount_ok W"
  using graph_butD(1) [of V N E i ls ks] wcount_touch [of KS "{}" V W] by (simp add: base_def)

lemma unindexProps_but:
  assumes g: "graph_but V N E i ls ks"
  shows "\<exists>W. unindexProps view_ops V h i ps = (W, Inr ()) \<and> graph_but W N E i ls (ks - pkeys ps) \<and> steady V W"
proof -
  obtain W where w: "unindexProps view_ops V h i ps = (W, Inr ())" "touch {KSProp} {} V W" "prop_index W ((props_of N)(i := ks - pkeys ps))"
    using unindexProps_view [OF graph_butD(5) [OF g], of h i ps] unfolding fun_upd_same fun_upd_upd by blast
  have li: "label_index W ((labels_of N)(i := ls))" by (rule label_index_touch [OF graph_butD(4) [OF g] w(2)]) simp
  have "touch {KSProp} {KindWriteCount} V W" by (rule touch_mono [OF w(2)]) auto
  then show ?thesis using w(1) graph_but_steady [OF g _ _ wcount_but [OF g w(2)] li w(3)] by auto
qed

lemma unindexLabels_but:
  assumes g: "graph_but V N E i ls ks"
  shows "\<exists>W. unindexLabels view_ops V h i ns = (W, Inr ()) \<and> graph_but W N E i (ls - {l. \<exists>n\<in>set ns. name_id V catLabel n = Some l}) ks \<and> steady V W"
proof -
  have n: "names_ok V catLabel catLabelRev catNextLabel" using tablesD(2) base_tables graph_butD(1) [OF g] by blast
  obtain W where w: "unindexLabels view_ops V h i ns = (W, Inr ())" "touch {KSLabel} {} V W"
      "label_index W ((labels_of N)(i := ls - {l. \<exists>n\<in>set ns. name_id V catLabel n = Some l}))"
    using unindexLabels_view [OF graph_butD(4) [OF g] n, of h i ns] unfolding fun_upd_same fun_upd_upd by blast
  have pi: "prop_index W ((props_of N)(i := ks))" by (rule prop_index_touch [OF graph_butD(5) [OF g] w(2)]) simp
  have "touch {KSLabel} {KindWriteCount} V W" by (rule touch_mono [OF w(2)]) auto
  then show ?thesis using w(1) graph_but_steady [OF g _ _ wcount_but [OF g w(2)] w(3) pi] by auto
qed

lemma pkeys_named [simp]: "pkeys (map (named_prop V) ps) = pkeys ps"
  by (auto simp: pkeys_def named_prop_def image_image)

lemma node_view_simps [simp]: "n_ID (node_view V i r) = i" "n_Props (node_view V i r) = map (named_prop V) (snd r)"
    "n_Labels (node_view V i r) = sort (map (label_name V) (fst r))"
  by (simp_all add: node_view_def)

lemma view_labels_cover:
  assumes "tables V" "node_ok V r" "l \<in> set (fst r)"
  shows "\<exists>n\<in>set (n_Labels (node_view V i r)). name_id V catLabel n = Some l"
proof -
  obtain nm where "id_name V catLabelRev l = Some nm" using assms(2,3) by (cases r) auto
  then have "name_id V catLabel nm = Some l" "label_name V l = nm" using names_okD(4) [OF tablesD(2) [OF assms(1)]] by (auto simp: label_name_def)
  then show ?thesis using assms(3) by auto
qed

lemma rewriteNode_view:
  assumes g: "graph_at V N E" and n: "N i = Some r" and r: "room V (length ls + m)" and fit: "length ls * sizeofUint32 \<le> maxAlloc"
    and gp: "good_props V ps"
  shows "\<exists>W r'. rewriteNode view_ops V h (node_view V i r) ls ps = (W, Inr (node_view W i r')) \<and> graph_at W (N(i \<mapsto> r')) E \<and> grows V W
    \<and> n_Labels (node_view W i r') = normalizeLabels ls \<and> n_Props (node_view W i r') = ps \<and> room W m
    \<and> counter_of W catNextNode = counter_of V catNextNode \<and> counter_of W catNextEdge = counter_of V catNextEdge"
proof -
  let ?n = "node_view V i r"
  have tv: "tables V" using base_tables graph_atD(1) [OF g] by blast
  note g0 = graph_at_but [OF g graph_atD(7) [OF g n]]
  obtain V1 where v1: "unindexLabels view_ops V h i (n_Labels ?n) = (V1, Inr ())"
      "graph_but V1 N E i (labels_of N i - {l. \<exists>n\<in>set (n_Labels ?n). name_id V catLabel n = Some l}) (props_of N i)" "steady V V1"
    using unindexLabels_but [OF g0, of h "n_Labels ?n"] by blast
  have e1: "labels_of N i - {l. \<exists>n\<in>set (n_Labels ?n). name_id V catLabel n = Some l} = {}"
    using view_labels_cover [OF tv graph_atD(6) [OF g n], of _ i] n by (auto simp: labels_of_def split: prod.splits simp del: node_view_simps)
  obtain V2 where v2: "unindexProps view_ops V1 h i (n_Props ?n) = (V2, Inr ())" "graph_but V2 N E i {} (props_of N i - pkeys (n_Props ?n))" "steady V1 V2"
    using unindexProps_but [OF v1(2) [unfolded e1], of h "n_Props ?n"] by blast
  have e2: "props_of N i - pkeys (n_Props ?n) = {}" using n by (cases r) (simp add: props_of_def)
  obtain V3 where v3: "touchDeclared view_ops V2 h NodeEntity (n_Labels ?n) [] (n_Props ?n) i False = (V3, Inr ())" "graph_but V3 N E i {} {}" "steady V2 V3"
    using declared_but [OF v2(2) [unfolded e2]] by blast
  have st: "steady V V3" by (rule steady_trans [OF steady_trans [OF v1(3) v2(3)] v3(3)])
  have t3: "tables V3" using base_tables graph_butD(1) [OF v3(2)] by blast
  let ?n' = "?n\<lparr>n_Labels := normalizeLabels ls, n_Props := ps\<rparr>"
  have len: "length (normalizeLabels ls) * sizeofUint32 \<le> maxAlloc"
    using fit normalizeLabels_props(4) [of ls] by (meson mult_le_mono1 order_trans)
  have gn: "good_node V3 ?n'"
    using good_props_grows [OF gp steady_grows [OF st] tv t3] len normalizeLabels_props by (simp add: good_node_props)
  have g3: "graph_but V3 N E (n_ID ?n') {} {}" using v3(2) by simp
  have rm: "room V3 (length (n_Labels ?n') + m)"
    using room_mono [OF r] normalizeLabels_props(4) [of ls] room_steady [OF st] by simp
  obtain W lids where w: "writeNode view_ops V3 h ?n' = (W, Inr ())" "room W m" "grows V3 W"
      "graph_at W (N(i \<mapsto> (lids, map unnamed ps))) E" "node_view W i (lids, map unnamed ps) = ?n'"
      "counter_of W catNextNode = counter_of V3 catNextNode" "counter_of W catNextEdge = counter_of V3 catNextEdge"
    using graph_write_node [OF g3 gn rm, of h] by auto
  have run: "rewriteNode view_ops V h ?n ls ps = (W, Inr ?n')"
    unfolding rewriteNode_def by (simp add: v1(1) v2(1) unindexDeclaredNode_def v3(1) w(1) Let_def del: node_view_simps(2,3))
  have "counter_of V3 catNextNode = counter_of V catNextNode" "counter_of V3 catNextEdge = counter_of V catNextEdge"
    using st by (auto simp: steady_def)
  then show ?thesis using run w grows_trans [OF steady_grows [OF st] w(3)]
    by (intro exI [of _ W] exI [of _ "(lids, map unnamed ps)"]) (simp del: node_view_simps)
qed

lemma good_view_props:
  assumes "node_ok V r"
  shows "good_props V (n_Props (node_view V i r))"
  using assms by (cases r) (auto simp: good_props_def props_ok_def named_prop_def props_fit_def record_fits_def list_all_iff comp_def)

lemma good_props_filter: "good_props V ps \<Longrightarrow> good_props V (filter P ps)"
proof -
  assume g: "good_props V ps"
  have "length (filter P ps) * sizeofProp \<le> maxAlloc"
    using g length_filter_le [of P ps] unfolding good_props_def props_fit_def by (meson mult_le_mono1 order_trans)
  then show ?thesis using g by (auto simp: good_props_def props_fit_def list_all_iff sorted_wrt_map sorted_wrt_filter)
qed

end
