(* ===== verification/GraphUpdate.thy ===== *)
theory GraphUpdate
  imports GraphOps
begin

text \<open>
  Changing the labels and properties of a node a consistent store holds: the store stays consistent, and
  the node has the labels and values the operation names and keeps the others.
\<close>

section \<open>Merging properties\<close>

text \<open>The value a property list gives a name.\<close>

definition prop_val :: "Prop list \<Rightarrow> gostring \<Rightarrow> val option" where
  "prop_val ps = map_of (map (\<lambda>p. (p_Name p, p_Value p)) ps)"

text \<open>A property map by name, whose entries carry the id of their name.\<close>

definition name_map :: "kvview \<Rightarrow> (gostring, Prop) gomap \<Rightarrow> bool" where
  "name_map V m \<longleftrightarrow> distinct (map fst m)
     \<and> (\<forall>(n, p)\<in>set m. p_Name p = n \<and> name_id V catProp n = Some (p_ID p) \<and> Storable (p_Value p) \<and> record_fits p)"

lemma name_mapD:
  assumes "name_map V m"
  shows "distinct (map fst m)" "(n, p) \<in> set m \<Longrightarrow> p_Name p = n" "(n, p) \<in> set m \<Longrightarrow> name_id V catProp n = Some (p_ID p)"
    "(n, p) \<in> set m \<Longrightarrow> Storable (p_Value p)" "(n, p) \<in> set m \<Longrightarrow> record_fits p"
  using assms by (auto simp: name_map_def)

lemma set_update: "x \<in> set (AList.update k v m) \<Longrightarrow> x = (k, v) \<or> x \<in> set m"
  by (induction m) (auto split: if_splits)

lemma length_update: "length (AList.update k v m) \<le> Suc (length m)"
  by (induction m) auto

lemma fits_le: "b * (c :: nat) \<le> d \<Longrightarrow> a \<le> b \<Longrightarrow> a * c \<le> d"
  by (meson mult_le_mono1 order_trans)

lemma name_map_update:
  assumes "name_map V m" "name_id V catProp (p_Name p) = Some (p_ID p)" "Storable (p_Value p)" "record_fits p"
  shows "name_map V (AList.update (p_Name p) p m)"
  using assms set_update [of _ "p_Name p" p m] by (fastforce simp: name_map_def distinct_update)

lemma name_map_grows: "name_map V m \<Longrightarrow> grows V W \<Longrightarrow> name_map W m"
  using grows_name(1) by (fastforce simp: name_map_def)

lemma mergeProps_view:
  "tables V \<Longrightarrow> room V (length ps + n) \<Longrightarrow> name_map V m \<Longrightarrow>
   list_all (\<lambda>e. Storable (snd e) \<and> shape_ok (snd e) \<and> fits_memory (snd e) \<and> length (EncodeRecord (snd e)) \<le> maxAlloc) ps \<Longrightarrow>
   \<exists>W m'. mergeProps_loop view_ops V h ps m = (W, Inr m') \<and> named V W n \<and> name_map W m' \<and> length m' \<le> length m + length ps
     \<and> (\<forall>x. map_option p_Value (map_of m' x) = ((\<lambda>x. map_option p_Value (map_of m x)) ++ map_of (rev ps)) x)"
proof (induction ps arbitrary: V m)
  case Nil
  then show ?case using named_refl by auto
next
  case (Cons e ps)
  obtain nm v where e: "e = (nm, v)" by (cases e)
  obtain W i where w: "intern view_ops V h catProp catPropRev catNextProp nm = (W, Inr i)" "named V W (length ps + n)"
      "name_id W catProp nm = Some i"
    using interns_named(1) [OF Cons.prems(1), of "length ps + n" h nm] Cons.prems(2) by auto
  have tw: "tables W" "room W (length ps + n)" "grows V W" using w(2) by (auto simp: named_def)
  let ?p = "\<lparr>p_ID = i, p_Name = nm, p_Value = v\<rparr>"
  have nm: "name_map W (AList.update nm ?p m)"
    using name_map_update [OF name_map_grows [OF Cons.prems(3) tw(3)], of ?p] w(3) Cons.prems(4) e by (simp add: record_fits_def)
  obtain X m' where x: "mergeProps_loop view_ops W h ps (AList.update nm ?p m) = (X, Inr m')" "named W X n" "name_map X m'"
      "length m' \<le> length (AList.update nm ?p m) + length ps"
      "\<forall>x. map_option p_Value (map_of m' x) = ((\<lambda>x. map_option p_Value (map_of (AList.update nm ?p m) x)) ++ map_of (rev ps)) x"
    using Cons.IH [OF tw(1,2) nm] Cons.prems(4) by auto
  have "(\<lambda>x. map_option p_Value (map_of (AList.update nm ?p m) x)) ++ map_of (rev ps)
      = (\<lambda>x. map_option p_Value (map_of m x)) ++ map_of (rev (e # ps))"
    by (auto simp: fun_eq_iff map_add_def update_conv' e split: option.splits)
  then show ?case using w(1) x e Cons.prems(4) named_trans [OF w(2) x(2)] length_update [of nm ?p m]
    by (auto simp: internProp_def)
qed

lemma namedProps_names:
  assumes "distinct (map p_Name ps)"
  shows "namedProps ps = map (\<lambda>p. (p_Name p, p)) ps"
proof -
  have "foldl (\<lambda>m p. AList.update (p_Name p) p m) m ps = m @ map (\<lambda>p. (p_Name p, p)) ps"
    if "distinct (map fst m @ map p_Name ps)" for m
    using that
  proof (induction ps arbitrary: m)
    case (Cons p ps)
    then have "AList.update (p_Name p) p m = m @ [(p_Name p, p)]" by (intro AList_update_new) auto
    then show ?case using Cons by simp
  qed simp
  then show ?thesis using assms by (simp add: namedProps_def)
qed

lemma good_props_names:
  assumes "good_props V ps" "tables V"
  shows "distinct (map p_Name ps)" "name_map V (map (\<lambda>p. (p_Name p, p)) ps)"
proof -
  have nm: "name_id V catProp (p_Name p) = Some (p_ID p)" if "p \<in> set ps" for p
    using that assms(1) names_okD(4) [OF tablesD(1) [OF assms(2)]] by (auto simp: good_props_def)
  have d: "distinct (map p_ID ps)" using assms(1) by (simp add: good_props_def strict_sorted_iff)
  show "distinct (map p_Name ps)"
    unfolding distinct_map
  proof
    show "distinct ps" using d by (simp add: distinct_map)
    show "inj_on p_Name (set ps)" using nm d by (metis (no_types, lifting) distinct_map inj_on_def option.inject)
  qed
  then show "name_map V (map (\<lambda>p. (p_Name p, p)) ps)"
    using nm assms(1) by (auto simp: name_map_def good_props_def comp_def props_fit_def list_all_iff)
qed

lemma prop_val_names: "prop_val ps x = map_option p_Value (map_of (map (\<lambda>p. (p_Name p, p)) ps) x)"
  unfolding prop_val_def by (induction ps) auto

lemma map_of_sort_key: "distinct (map fst (map f xs)) \<Longrightarrow> map_of (map f (sort_key g xs)) = map_of (map f xs)"
  by (intro map_of_eqI) (auto intro!: map_of_inject_set [THEN iffD2, THEN fun_cong] simp: distinct_map inj_on_def image_iff)

lemma prop_val_sorted:
  assumes "distinct (map fst ps)"
  shows "prop_val (sorted_props V ps) = map_of ps"
proof -
  have "map (\<lambda>p. (p_Name p, p_Value p)) (map (mkprop V) ps) = ps" by (simp add: mkprop_def comp_def)
  then show ?thesis unfolding prop_val_def sorted_props_def
    using map_of_sort_key [of "\<lambda>p. (p_Name p, p_Value p)" "map (mkprop V) ps" p_ID] assms by metis
qed

lemma propsFromNames_good:
  assumes m: "name_map V m" and t: "tables V" and len: "length m * sizeofProp \<le> maxAlloc"
  shows "good_props V (propsFromNames m)" "prop_val (propsFromNames m) x = map_option p_Value (map_of m x)"
proof -
  have keys: "map (\<lambda>p. (p_Name p, p)) (map snd m) = m"
    using name_mapD(2) [OF m] by (auto intro!: map_idI)
  have inj: "p = q" if pq: "p \<in> set (map snd m)" "q \<in> set (map snd m)" and id: "p_ID p = p_ID q" for p q
  proof -
    obtain a b where ab: "(a, p) \<in> set m" "(b, q) \<in> set m" using pq by auto
    then have "a = b" using name_mapD(3) [OF m] names_inj [OF tablesD(1) [OF t]] id by metis
    then show "p = q" using ab name_mapD(1) [OF m] by (metis map_of_eq_Some_iff option.inject)
  qed
  have d: "distinct (map snd m)" using name_mapD(1) [OF m] keys by (metis (no_types, lifting) distinct_map map_map)
  then have "distinct (map p_ID (map snd m))" using inj by (subst distinct_map) (auto intro: inj_onI)
  then have s: "sorted_wrt (<) (map p_ID (propsFromNames m))" unfolding propsFromNames_def by (rule strict_sorted_by)
  have "id_name V catPropRev (p_ID p) = Some (p_Name p) \<and> Storable (p_Value p) \<and> record_fits p" if "p \<in> set (map snd m)" for p
    using that name_mapD(2-5) [OF m] names_okD(4) [OF tablesD(1) [OF t]] by fastforce
  then show "good_props V (propsFromNames m)" using s len
    by (auto simp: good_props_def propsFromNames_def props_fit_def list_all_iff)
  have "distinct (map fst (map (\<lambda>p. (p_Name p, p)) (map snd m)))" using name_mapD(1) [OF m] unfolding keys .
  then have "map_of (map (\<lambda>p. (p_Name p, p)) (sort_key p_ID (map snd m))) = map_of m"
    using map_of_sort_key [of "\<lambda>p. (p_Name p, p)" "map snd m" p_ID] unfolding keys by simp
  then show "prop_val (propsFromNames m) x = map_option p_Value (map_of m x)" by (simp only: prop_val_names propsFromNames_def)
qed

section \<open>Updating a node\<close>

lemma view_labels_sorted: "tables V \<Longrightarrow> node_ok V r \<Longrightarrow> sorted (n_Labels (node_view V i r)) \<and> distinct (n_Labels (node_view V i r))"
  using node_labels_distinct by (cases r) auto

lemma view_labels_fit: "node_ok V r \<Longrightarrow> length (n_Labels (node_view V i r)) * sizeofUint32 \<le> maxAlloc"
  by (cases r) auto

lemma graph_GetNode:
  assumes "graph_at V N E"
  shows "GetNode view_ops V h i = (V, case N i of None \<Rightarrow> Inl (GraphNotFound ''node'' i) | Some r \<Rightarrow> Inr (node_view V i r))"
  using GetNode_view [OF base_tables [OF graph_atD(1) [OF assms]] graph_atD(2,6) [OF assms]] .

lemma graph_but_named:
  assumes g: "graph_but V N E i ls ks" and n: "named V W m"
  shows "graph_but W N E i ls ks" "room W m" "grows V W" "counter_of W catNextNode = counter_of V catNextNode"
    "counter_of W catNextEdge = counter_of V catNextEdge"
proof -
  note b = base_named [OF graph_butD(1) [OF g] n]
  have tw: "tables V" "tables W" using graph_butD(1) [OF g] b(1) base_tables by auto
  show "room W m" "grows V W" and cs: "counter_of W catNextNode = counter_of V catNextNode" "counter_of W catNextEdge = counter_of V catNextEdge"
    using b by auto
  have t: "touch {} name_bytes V W" using n by (simp add: named_def touch_frame)
  have "nodes_at W N" "label_index W ((labels_of N)(i := ls))" "prop_index W ((props_of N)(i := ks))" "edges_part W E"
    using graph_butD(2-5) [OF g] nodes_at_touch [OF _ t] label_index_touch [OF _ t] prop_index_touch [OF _ t] edges_part_touch [OF _ t]
    by auto
  then show "graph_but W N E i ls ks"
    unfolding graph_but_def using b(1) graph_butD(6-10) [OF g] cs node_ok_grows [OF _ b(5) tw] edge_ok_grows [OF _ b(5) tw subset_refl]
    by metis
qed

lemma UpdateNode_view:
  assumes g: "graph_at V N E" and n: "N i = Some r" and r: "room V (length ps + length (fst r) + m)" and fit: "values_fit ps"
    and more: "(length (snd r) + length ps) * sizeofProp \<le> maxAlloc"
  shows "\<exists>W r'. UpdateNode view_ops V h i ps = (W, Inr (node_view W i r')) \<and> graph_at W (N(i \<mapsto> r')) E \<and> grows V W \<and> room W m
    \<and> n_Labels (node_view W i r') = n_Labels (node_view V i r)
    \<and> prop_val (n_Props (node_view W i r')) = prop_val (n_Props (node_view V i r)) ++ map_of ps
    \<and> counter_of W catNextNode = counter_of V catNextNode \<and> counter_of W catNextEdge = counter_of V catNextEdge"
proof (cases "length ps = 0")
  case True
  have "UpdateNode view_ops V h i ps = (V, Inr (node_view V i r))" using True by (simp add: UpdateNode_def graph_GetNode [OF g] n)
  then show ?thesis using g n True room_mono [OF r] by (intro exI [of _ V] exI [of _ r]) (simp add: fun_upd_idem)
next
  case False
  let ?n = "node_view V i r"
  have tv: "tables V" using base_tables graph_atD(1) [OF g] by blast
  note ok = graph_atD(6) [OF g n]
  note g0 = graph_at_but [OF g graph_atD(7) [OF g n]]
  obtain V1 where v1: "unindexProps view_ops V h i (n_Props ?n) = (V1, Inr ())" "graph_but V1 N E i (labels_of N i) (props_of N i - pkeys (n_Props ?n))" "steady V V1"
    using unindexProps_but [OF g0, of h "n_Props ?n"] by blast
  have e1: "props_of N i - pkeys (n_Props ?n) = {}" using n by (cases r) (simp add: props_of_def)
  obtain V2 where v2: "touchDeclared view_ops V1 h NodeEntity (n_Labels ?n) [] (n_Props ?n) i False = (V2, Inr ())" "graph_but V2 N E i (labels_of N i) {}" "steady V1 V2"
    using declared_but [OF v1(2) [unfolded e1]] by blast
  have st: "steady V V2" by (rule steady_trans [OF v1(3) v2(3)])
  have t2: "tables V2" using base_tables graph_butD(1) [OF v2(2)] by blast
  have gp: "good_props V2 (n_Props ?n)" by (rule good_props_grows [OF good_view_props [OF ok] steady_grows [OF st] tv t2])
  note nm = good_props_names [OF gp t2]
  have r2: "room V2 (length ps + (length (fst r) + m))" using r room_steady [OF st] by (simp add: ac_simps)
  obtain V3 b where v3: "mergeProps_loop view_ops V2 h ps (namedProps (n_Props ?n)) = (V3, Inr b)" "named V2 V3 (length (fst r) + m)" "name_map V3 b"
      "length b \<le> length (n_Props ?n) + length ps"
      "\<forall>x. map_option p_Value (map_of b x) = ((\<lambda>x. map_option p_Value (map_of (map (\<lambda>p. (p_Name p, p)) (n_Props ?n)) x)) ++ map_of (rev ps)) x"
    using mergeProps_view [OF t2 r2 nm(2), of h] fit unfolding namedProps_names [OF nm(1)] values_fit_def by (metis length_map)
  note g3 = graph_but_named [OF v2(2) v3(2)]
  have t3: "tables V3" using base_tables graph_butD(1) [OF g3(1)] by blast
  have "length b * sizeofProp \<le> maxAlloc" using v3(4) by (intro fits_le [OF more]) simp
  note pf = propsFromNames_good [OF v3(3) t3 this]
  let ?n' = "?n\<lparr>n_Props := propsFromNames b\<rparr>"
  have gn: "good_node V3 ?n'" using pf(1) view_labels_sorted [OF tv ok] view_labels_fit [OF ok] by (simp add: good_node_props)
  have gb: "graph_but V3 N E (n_ID ?n') (labels_of N i) {}" using g3(1) by simp
  have rm: "room V3 (length (n_Labels ?n') + m)" using g3(2) by simp
  have gr3: "grows V V3" by (rule grows_trans [OF steady_grows [OF st] g3(3)])
  have ls: "\<forall>l\<in>labels_of N i. \<exists>n\<in>set (n_Labels ?n'). name_id V3 catLabel n = Some l"
    using view_labels_cover [OF tv ok, of _ i] n grows_name(2) [OF gr3]
    by (fastforce simp: labels_of_def simp del: node_view_simps split: prod.splits)
  obtain W lids where w: "writeNode view_ops V3 h ?n' = (W, Inr ())" "room W m" "grows V3 W"
      "graph_at W (N(i \<mapsto> (lids, map unnamed (propsFromNames b)))) E" "node_view W i (lids, map unnamed (propsFromNames b)) = ?n'"
      "counter_of W catNextNode = counter_of V3 catNextNode" "counter_of W catNextEdge = counter_of V3 catNextEdge"
    using graph_write_node [OF gb gn rm ls, of h] by auto
  have run: "UpdateNode view_ops V h i ps = (W, Inr ?n')"
    using False by (simp add: UpdateNode_def graph_GetNode [OF g] n v1(1) unindexDeclaredNode_def v2(1) v3(1) w(1) Let_def del: node_view_simps(2,3))
  have "map_of (rev ps) = map_of ps" using fit by (intro map_of_inject_set [THEN iffD2]) (auto simp: values_fit_def rev_map [symmetric])
  then have "prop_val (propsFromNames b) = prop_val (n_Props ?n) ++ map_of ps"
    using v3(5) pf(2) unfolding prop_val_names [symmetric] by (simp add: fun_eq_iff map_add_def)
  moreover have "counter_of V3 catNextNode = counter_of V catNextNode" "counter_of V3 catNextEdge = counter_of V catNextEdge"
    using st g3(4,5) by (auto simp: steady_def)
  ultimately show ?thesis using run w grows_trans [OF gr3 w(3)]
    by (intro exI [of _ W] exI [of _ "(lids, map unnamed (propsFromNames b))"]) (simp del: node_view_simps)
qed

text \<open>The operations that rewrite a node: what a node becomes, and that nothing else changes.\<close>

definition node_changed :: "kvview \<Rightarrow> kvview \<Rightarrow> (uint64 \<Rightarrow> node_rec option) \<Rightarrow> (uint64 \<Rightarrow> decodedEdge option) \<Rightarrow> nat \<Rightarrow> uint64 \<Rightarrow> Node \<Rightarrow> bool" where
  "node_changed V W N E m i n \<longleftrightarrow> (\<exists>r. n = node_view W i r \<and> graph_at W (N(i \<mapsto> r)) E) \<and> grows V W \<and> room W m
     \<and> counter_of W catNextNode = counter_of V catNextNode \<and> counter_of W catNextEdge = counter_of V catNextEdge"

lemma rewriteNode_changed:
  assumes "graph_at V N E" "N i = Some r" "room V (length ls + m)" "length ls * sizeofUint32 \<le> maxAlloc" "good_props V ps"
  shows "\<exists>W n. rewriteNode view_ops V h (node_view V i r) ls ps = (W, Inr n) \<and> node_changed V W N E m i n
    \<and> n_Labels n = normalizeLabels ls \<and> n_Props n = ps"
  using rewriteNode_view [OF assms, of h] unfolding node_changed_def by blast

lemma UpdateNode_changed:
  assumes "graph_at V N E" "N i = Some r" "room V (length ps + length (fst r) + m)" "values_fit ps"
    "(length (snd r) + length ps) * sizeofProp \<le> maxAlloc"
  shows "\<exists>W n. UpdateNode view_ops V h i ps = (W, Inr n) \<and> node_changed V W N E m i n \<and> n_Labels n = n_Labels (node_view V i r)
    \<and> prop_val (n_Props n) = prop_val (n_Props (node_view V i r)) ++ map_of ps"
  using UpdateNode_view [OF assms, of h] unfolding node_changed_def by blast

lemma AddLabels_changed:
  assumes g: "graph_at V N E" and n: "N i = Some r" and rm: "room V (length (fst r) + length ls + m)"
    and fit: "(length (fst r) + length ls) * sizeofUint32 \<le> maxAlloc"
  shows "\<exists>W n. AddLabels view_ops V h i ls = (W, Inr n) \<and> node_changed V W N E m i n
    \<and> set (n_Labels n) = set (n_Labels (node_view V i r)) \<union> set ls \<and> n_Props n = n_Props (node_view V i r)"
proof -
  have len: "length (n_Labels (node_view V i r) @ ls) = length (fst r) + length ls" by simp
  obtain W n where "rewriteNode view_ops V h (node_view V i r) (n_Labels (node_view V i r) @ ls) (n_Props (node_view V i r)) = (W, Inr n)"
      "node_changed V W N E m i n" "n_Labels n = normalizeLabels (n_Labels (node_view V i r) @ ls)" "n_Props n = n_Props (node_view V i r)"
    using rewriteNode_changed [OF g n _ _ good_view_props [OF graph_atD(6) [OF g n]], of _ m h] rm fit len by metis
  then show ?thesis by (simp add: AddLabels_def graph_GetNode [OF g] n normalizeLabels_props del: node_view_simps)
qed

lemma RemoveLabels_changed:
  assumes g: "graph_at V N E" and n: "N i = Some r" and rm: "room V (length (fst r) + m)"
  shows "\<exists>W n. RemoveLabels view_ops V h i ls = (W, Inr n) \<and> node_changed V W N E m i n
    \<and> set (n_Labels n) = set (n_Labels (node_view V i r)) - set ls \<and> n_Props n = n_Props (node_view V i r)"
proof -
  let ?ls = "filter (\<lambda>l. l \<notin> set ls) (n_Labels (node_view V i r))"
  have len: "length ?ls \<le> length (fst r)" using length_filter_le [of _ "n_Labels (node_view V i r)"] by simp
  have fit: "length ?ls * sizeofUint32 \<le> maxAlloc"
    by (rule fits_le [OF view_labels_fit [OF graph_atD(6) [OF g n]] length_filter_le])
  have "room V (length ?ls + m)" using room_mono [OF rm] len by simp
  then obtain W n where "rewriteNode view_ops V h (node_view V i r) ?ls (n_Props (node_view V i r)) = (W, Inr n)"
      "node_changed V W N E m i n" "n_Labels n = normalizeLabels ?ls" "n_Props n = n_Props (node_view V i r)"
    using rewriteNode_changed [OF g n _ fit good_view_props [OF graph_atD(6) [OF g n]], of m h] by metis
  then show ?thesis by (auto simp: RemoveLabels_def graph_GetNode [OF g] n normalizeLabels_props simp del: node_view_simps)
qed

lemma DeleteNodeProps_changed:
  assumes g: "graph_at V N E" and n: "N i = Some r" and rm: "room V (length (fst r) + m)"
  shows "\<exists>W n. DeleteNodeProps view_ops V h i names = (W, Inr n) \<and> node_changed V W N E m i n
    \<and> n_Labels n = n_Labels (node_view V i r) \<and> n_Props n = filter (\<lambda>p. p_Name p \<notin> set names) (n_Props (node_view V i r))"
proof -
  note ok = graph_atD(6) [OF g n]
  have tv: "tables V" using base_tables graph_atD(1) [OF g] by blast
  have fit: "length (n_Labels (node_view V i r)) * sizeofUint32 \<le> maxAlloc" by (rule view_labels_fit [OF ok])
  have "room V (length (n_Labels (node_view V i r)) + m)" using rm by simp
  then obtain W n where "rewriteNode view_ops V h (node_view V i r) (n_Labels (node_view V i r)) (filter (\<lambda>p. p_Name p \<notin> set names) (n_Props (node_view V i r))) = (W, Inr n)"
      "node_changed V W N E m i n" "n_Labels n = normalizeLabels (n_Labels (node_view V i r))"
      "n_Props n = filter (\<lambda>p. p_Name p \<notin> set names) (n_Props (node_view V i r))"
    using rewriteNode_changed [OF g n _ fit good_props_filter [OF good_view_props [OF ok]], of m h] by metis
  then show ?thesis using view_labels_sorted [OF tv ok, of i]
    by (simp add: DeleteNodeProps_def dropProps_def graph_GetNode [OF g] n normalizeLabels_id del: node_view_simps)
qed

lemma ReplaceNodeProps_changed:
  assumes g: "graph_at V N E" and n: "N i = Some r" and rm: "room V (length ps + length (fst r) + m)" and fit: "values_fit ps"
  shows "\<exists>W n. ReplaceNodeProps view_ops V h i ps = (W, Inr n) \<and> node_changed V W N E m i n
    \<and> n_Labels n = n_Labels (node_view V i r) \<and> prop_val (n_Props n) = map_of ps"
proof -
  note ok = graph_atD(6) [OF g n]
  have tv: "tables V" using base_tables graph_atD(1) [OF g] by blast
  have r': "room V (length ps + (length (fst r) + m))" using rm by (simp add: ac_simps)
  obtain V1 where v1: "assignProps view_ops V h ps = (V1, Inr (sorted_props V1 ps))" "named V V1 (length (fst r) + m)" "known V1 ps"
    using assignProps_view [OF tv r' values_fit_storable(1,2) [OF fit], of h] by blast
  note n1 = graph_named [OF g v1(2)]
  have same: "node_view V1 i r = node_view V i r" by (rule node_view_grows [OF ok n1(3,6,7)])
  have fl: "length (n_Labels (node_view V i r)) * sizeofUint32 \<le> maxAlloc" by (rule view_labels_fit [OF ok])
  have "room V1 (length (n_Labels (node_view V i r)) + m)" using n1(2) by simp
  then obtain W n where w: "rewriteNode view_ops V1 h (node_view V i r) (n_Labels (node_view V i r)) (sorted_props V1 ps) = (W, Inr n)"
      "node_changed V1 W N E m i n" "n_Labels n = normalizeLabels (n_Labels (node_view V i r))" "n_Props n = sorted_props V1 ps"
    using rewriteNode_changed [OF n1(1) n _ fl good_sorted_props [OF n1(7) v1(3) fit], of m h] unfolding same by metis
  have "node_changed V W N E m i n" using w(2) n1(3,4,5) grows_trans unfolding node_changed_def by auto
  moreover have "prop_val (sorted_props V1 ps) = map_of ps" by (rule prop_val_sorted [OF values_fit_storable(2) [OF fit]])
  ultimately show ?thesis using w(1,3,4) v1(1) view_labels_sorted [OF tv ok, of i]
    by (simp add: ReplaceNodeProps_def graph_GetNode [OF g] n normalizeLabels_id del: node_view_simps)
qed

end
