(* ===== verification/GraphEdges.thy ===== *)
theory GraphEdges
  imports GraphUpdate
begin

text \<open>
  Edges: creating, changing and deleting them, and deleting a node with every edge that touches it. Each
  operation keeps the store consistent, so no edge is ever left without one of its endpoints.
\<close>

section \<open>Writing an edge\<close>

definition edge_changed :: "kvview \<Rightarrow> kvview \<Rightarrow> (uint64 \<Rightarrow> node_rec option) \<Rightarrow> (uint64 \<Rightarrow> decodedEdge option) \<Rightarrow> nat \<Rightarrow> Edge \<Rightarrow> bool" where
  "edge_changed V W N E m ed \<longleftrightarrow> (\<exists>d. ed = edge_view W (e_ID ed) d \<and> graph_at W N (E(e_ID ed \<mapsto> d))) \<and> grows V W \<and> room W m
     \<and> counter_of W catNextNode = counter_of V catNextNode"

lemma graph_steady:
  assumes g: "graph_at V N E" and t: "touch KS {KindWriteCount} V W" and k: "KS \<inter> {KSCatalog, KSNode, KSLabel} = {}"
    and w: "wcount_ok W" and p: "\<forall>k. \<not> hasPrefix k [Marker] \<longrightarrow> W KSProp k = V KSProp k"
    and e: "edges_part W E'" and ok: "\<And>j d. E' j = Some d \<Longrightarrow> edge_ok V N d \<and> j < counter_of V catNextEdge"
  shows "graph_at W N E'" "steady V W"
proof -
  have nk: "KSCatalog \<notin> KS" "KSNode \<notin> KS" "KSLabel \<notin> KS" using k by auto
  note b = base_touch [OF graph_atD(1) [OF g] t nk(1) w]
  show s: "steady V W" by (rule b(2))
  note gr = steady_grows [OF s]
  have tw: "tables V" "tables W" using graph_atD(1) [OF g] b(1) base_tables by auto
  have cs: "counter_of W catNextNode = counter_of V catNextNode" "counter_of W catNextEdge = counter_of V catNextEdge"
    using s by (auto simp: steady_def)
  have "prop_index W (props_of N)" using graph_atD(5) [OF g] p unfolding prop_index_def by metis
  then show "graph_at W N E'"
    unfolding graph_at_def using b(1) nodes_at_touch [OF graph_atD(2) [OF g] t nk(2)] label_index_touch [OF graph_atD(4) [OF g] t nk(3)] e
      graph_atD(6,7) [OF g] ok cs node_ok_grows [OF _ gr tw] edge_ok_grows [OF _ gr tw subset_refl]
    by metis
qed

lemma graph_upkept:
  assumes "graph_at V N E" "upkept V W"
  shows "graph_at W N E" "steady V W"
proof -
  have u: "touch {KSProp} {KindWriteCount} V W" "wcount_ok W" "\<forall>k. \<not> hasPrefix k [Marker] \<longrightarrow> W KSProp k = V KSProp k"
    using assms(2) graph_atD(1) [OF assms(1)] by (auto simp: upkept_def base_def)
  have "edges_part W E" by (rule edges_part_touch [OF graph_atD(3) [OF assms(1)] u(1)]) simp
  then show "graph_at W N E" "steady V W"
    using graph_steady [OF assms(1) u(1) _ u(2,3)] graph_atD(8,9) [OF assms(1)] by auto
qed

lemma touchDeclared_graph:
  assumes "graph_at V N E"
  shows "\<exists>W. touchDeclared view_ops V h en ls t ps j add = (W, Inr ()) \<and> graph_at W N E \<and> steady V W"
proof -
  obtain sch where "schema_at V sch" using graph_atD(1) [OF assms] by (auto simp: base_def)
  then show ?thesis using touchDeclared_view graph_upkept [OF assms] by meson
qed

lemma bumpWrites_graph:
  assumes "graph_at V N E"
  shows "\<exists>W. bumpWrites view_ops V h = (W, Inr ()) \<and> graph_at W N E \<and> steady V W"
proof -
  have "wcount_ok V" using graph_atD(1) [OF assms] by (simp add: base_def)
  then show ?thesis using bumpWrites_view graph_upkept [OF assms] by meson
qed

lemma props_ok_unnamed: "good_props V ps \<Longrightarrow> props_ok V (map unnamed ps)"
  by (auto simp: good_props_def props_ok_def comp_def)

lemma map_named_unnamed: "good_props V ps \<Longrightarrow> map (named_prop V) (map unnamed ps) = ps"
  by (auto simp: good_props_def named_unnamed intro!: map_idI)

lemma graph_write_edge:
  assumes g: "graph_at V N E" and good: "good_props V (e_Props (er_Edge r))"
    and ends: "N (e_From (er_Edge r)) \<noteq> None" "N (e_To (er_Edge r)) \<noteq> None" "id_name V catTypeRev (er_TypeID r) = Some (e_Label (er_Edge r))"
    and s: "\<And>d'. E (e_ID (er_Edge r)) = Some d' \<Longrightarrow> same_ends d' (dec_of r)" and i: "e_ID (er_Edge r) < counter_of V catNextEdge"
  shows "\<exists>W. writeEdge view_ops V h r = (W, Inr ()) \<and> graph_at W N (E(e_ID (er_Edge r) \<mapsto> dec_of r)) \<and> steady V W
    \<and> edge_view W (e_ID (er_Edge r)) (dec_of r) = er_Edge r"
proof -
  let ?i = "e_ID (er_Edge r)"
  have fit: "props_fit (e_Props (er_Edge r))" using good by (simp add: good_props_def)
  obtain W where w: "writeEdge view_ops V h r = (W, Inr ())" "base W" "steady V W" "edges_part W (E(?i \<mapsto> dec_of r))"
      "touch {KSEdge, KSOut, KSIn, KSEdgeType, KSProp} {KindWriteCount} V W" "\<forall>k. \<not> hasPrefix k [Marker] \<longrightarrow> W KSProp k = V KSProp k"
    using writeEdge_view [OF graph_atD(1,3) [OF g] fit s, of h] by blast
  have ok: "edge_ok V N (dec_of r)" using ends props_ok_unnamed [OF good] by (simp add: edge_ok_def dec_of_def)
  have "graph_at W N (E(?i \<mapsto> dec_of r))"
  proof (rule graph_steady [OF g w(5) _ _ w(6,4)])
    show "wcount_ok W" using w(2) by (simp add: base_def)
    show "edge_ok V N d \<and> j < counter_of V catNextEdge" if "(E(?i \<mapsto> dec_of r)) j = Some d" for j d
      using that ok i graph_atD(8,9) [OF g, of j] by (auto split: if_splits)
  qed simp
  moreover have "edge_view W ?i (dec_of r) = er_Edge r"
  proof -
    have "named_prop W = named_prop V" "id_name W catTypeRev = id_name V catTypeRev" using w(3) by (auto simp: steady_def named_prop_def)
    then show ?thesis using ends(3) map_named_unnamed [OF good] by (simp add: edge_view_def dec_of_def)
  qed
  ultimately show ?thesis using w(1,3) by blast
qed

section \<open>Creating an edge\<close>

lemma needNode_view:
  assumes "graph_at V N E"
  shows "needNode view_ops V h what i = (V, if N i = None then Inl (GraphNotFound what i) else Inr ())"
  by (cases "N i") (simp_all add: needNode_def graph_GetNode [OF assms])

lemma CreateEdge_view:
  assumes g: "graph_at V N E" and r: "room V (Suc (length ps) + m)" and fit: "values_fit ps"
    and ends: "N a \<noteq> None" "N b \<noteq> None" and up: "counter_of V catNextEdge + 1 \<noteq> 0"
  shows "\<exists>W ed. CreateEdge view_ops V h a b l ps = (W, Inr ed) \<and> edge_changed V W N E m ed \<and> E (e_ID ed) = None
    \<and> e_ID ed = counter_of V catNextEdge \<and> e_From ed = a \<and> e_To ed = b \<and> e_Label ed = l \<and> prop_val (e_Props ed) = map_of ps
    \<and> counter_of W catNextEdge = counter_of V catNextEdge + 1"
proof -
  let ?i = "counter_of V catNextEdge"
  have r': "room V (length ps + Suc m)" using r by simp
  obtain V1 where v1: "assignProps view_ops V h ps = (V1, Inr (sorted_props V1 ps))" "named V V1 (Suc m)" "known V1 ps"
    using assignProps_view [OF base_tables [OF graph_atD(1) [OF g]] r' values_fit_storable(1,2) [OF fit], of h] by blast
  note n1 = graph_named [OF g v1(2)]
  have nn: "catNextEdge \<in> {catNextNode, catNextEdge}" by simp
  have up1: "counter_of V1 catNextEdge + 1 \<noteq> 0" using up n1(5) by simp
  note c = graph_counter [OF n1(1) nn up1]
  let ?V2 = "set_counter V1 catNextEdge (?i + 1)"
  have al: "alloc view_ops V1 h catNextEdge = (?V2, Inr ?i)"
    using graph_atD(1) [OF n1(1)] n1(5) by (simp add: alloc_view base_def)
  have g2: "graph_at ?V2 N E" "?i < counter_of ?V2 catNextEdge" "grows V1 ?V2" "room ?V2 (Suc m)"
      "counter_of ?V2 catNextNode = counter_of V1 catNextNode"
    using c n1(2,5) kinds_sep(7) by auto
  have t2: "tables ?V2" using graph_atD(1) [OF g2(1)] base_tables by auto
  obtain V3 t where v3: "intern view_ops ?V2 h catEdgeType catTypeRev catNextType l = (V3, Inr t)" "named ?V2 V3 m" "name_id V3 catEdgeType l = Some t"
    using interns_named(3) [OF t2 g2(4), of h l] by blast
  note n3 = graph_named [OF g2(1) v3(2)]
  have gr: "grows V1 V3" by (rule grows_trans [OF g2(3) n3(3)])
  let ?ed = "\<lparr>e_ID = ?i, e_From = a, e_To = b, e_Label = l, e_Props = sorted_props V1 ps\<rparr>"
  let ?r = "\<lparr>er_Edge = ?ed, er_TypeID = t\<rparr>"
  have gp: "good_props V3 (e_Props (er_Edge ?r))"
    using good_props_grows [OF good_sorted_props [OF n1(7) v1(3) fit] gr n1(7) n3(7)] by simp
  have fresh: "E ?i = None" using graph_atD(9) [OF g, of ?i] by (cases "E ?i") auto
  have ty: "id_name V3 catTypeRev (er_TypeID ?r) = Some (e_Label (er_Edge ?r))" using v3(3) names_okD(4) [OF tablesD(3) [OF n3(7)]] by simp
  obtain W where w: "writeEdge view_ops V3 h ?r = (W, Inr ())" "graph_at W N (E(?i \<mapsto> dec_of ?r))" "steady V3 W" "edge_view W ?i (dec_of ?r) = ?ed"
    using graph_write_edge [OF n3(1) gp _ _ ty, of h] ends fresh g2(2) n3(5) by auto
  have "grows V W" by (rule grows_trans [OF n1(3) grows_trans [OF gr steady_grows [OF w(3)]]])
  moreover have "counter_of W catNextEdge = ?i + 1" "counter_of W catNextNode = counter_of V catNextNode"
    using w(3) n3(4,5) g2(5) n1(4) by (auto simp: steady_def)
  ultimately show ?thesis using w fresh v1(1) al v3(1) ends n3(2) room_steady [OF w(3), of m] prop_val_sorted values_fit_storable(2) [OF fit]
    by (intro exI [of _ W] exI [of _ ?ed]) (auto simp: CreateEdge_def needNode_view [OF g] edge_changed_def Let_def intro!: exI [of _ "dec_of ?r"])
qed

section \<open>Changing an edge\<close>

lemma graph_loadEdge:
  assumes "graph_at V N E"
  shows "loadEdge view_ops V h i = (V, case E i of None \<Rightarrow> Inl (GraphNotFound ''edge'' i)
    | Some d \<Rightarrow> Inr \<lparr>er_Edge = edge_view V i d, er_TypeID = de_TypeID d\<rparr>)"
  using loadEdge_view [OF base_tables [OF graph_atD(1) [OF assms]], of E i h] graph_atD(3,8) [OF assms]
  by (auto simp: edges_part_def edge_ok_def)

lemma edge_view_simps [simp]: "e_ID (edge_view V i d) = i" "e_From (edge_view V i d) = de_From d" "e_To (edge_view V i d) = de_To d"
    "e_Props (edge_view V i d) = map (named_prop V) (de_Props d)"
  by (simp_all add: edge_view_def)

lemma good_edge_props: "props_ok V (de_Props d) \<Longrightarrow> good_props V (e_Props (edge_view V i d))"
  using good_view_props [of V "([], de_Props d)" i] by (simp add: sizeofUint32_def maxAlloc_def)

lemma write_same_edge:
  assumes g: "graph_at V N E" and d: "E i = Some d" and gp: "good_props V ps" and lab: "id_name V catTypeRev (de_TypeID d) = Some (e_Label ed)"
    and ed: "e_ID ed = i" "e_From ed = de_From d" "e_To ed = de_To d" and r: "room V m"
  shows "\<exists>W. writeEdge view_ops V h \<lparr>er_Edge = ed\<lparr>e_Props := ps\<rparr>, er_TypeID = de_TypeID d\<rparr> = (W, Inr ()) \<and> edge_changed V W N E m (ed\<lparr>e_Props := ps\<rparr>)"
proof -
  let ?r = "\<lparr>er_Edge = ed\<lparr>e_Props := ps\<rparr>, er_TypeID = de_TypeID d\<rparr>"
  have ok: "edge_ok V N d" "i < counter_of V catNextEdge" using graph_atD(8,9) [OF g d] by auto
  obtain W where w: "writeEdge view_ops V h ?r = (W, Inr ())" "graph_at W N (E(i \<mapsto> dec_of ?r))" "steady V W" "edge_view W i (dec_of ?r) = ed\<lparr>e_Props := ps\<rparr>"
    using graph_write_edge [OF g, of ?r h] gp ok d ed lab by (auto simp: edge_ok_def same_ends_def dec_of_def)
  have "counter_of W catNextNode = counter_of V catNextNode" using w(3) by (simp add: steady_def)
  then show ?thesis using w steady_grows [OF w(3)] r room_steady [OF w(3), of m] ed(1)
    by (intro exI [of _ W]) (auto simp: edge_changed_def intro!: exI [of _ "dec_of ?r"])
qed

lemma edge_changed_trans:
  "grows V V1 \<Longrightarrow> counter_of V1 catNextNode = counter_of V catNextNode \<Longrightarrow> edge_changed V1 W N E m ed \<Longrightarrow> edge_changed V W N E m ed"
  using grows_trans unfolding edge_changed_def by auto

lemma edge_label:
  assumes "graph_at V N E" "E i = Some d"
  shows "id_name V catTypeRev (de_TypeID d) = Some (e_Label (edge_view V i d))"
  using graph_atD(8) [OF assms] by (auto simp: edge_ok_def edge_view_def)

lemma DeleteEdgeProps_changed:
  assumes g: "graph_at V N E" and d: "E i = Some d" and r: "room V m"
  shows "\<exists>W. DeleteEdgeProps view_ops V h i names = (W, Inr ((edge_view V i d)\<lparr>e_Props := filter (\<lambda>p. p_Name p \<notin> set names) (e_Props (edge_view V i d))\<rparr>))
    \<and> edge_changed V W N E m ((edge_view V i d)\<lparr>e_Props := filter (\<lambda>p. p_Name p \<notin> set names) (e_Props (edge_view V i d))\<rparr>)"
proof -
  let ?ed = "edge_view V i d"
  obtain V1 where v1: "touchDeclared view_ops V h EdgeEntity [] (e_Label ?ed) (e_Props ?ed) (e_ID ?ed) False = (V1, Inr ())" "graph_at V1 N E" "steady V V1"
    using touchDeclared_graph [OF g] by blast
  have gp: "good_props V1 (filter (\<lambda>p. p_Name p \<notin> set names) (e_Props ?ed))"
    using good_props_grows [OF good_props_filter [OF good_edge_props] steady_grows [OF v1(3)]] graph_atD(8) [OF g d] graph_atD(1) [OF g] graph_atD(1) [OF v1(2)] base_tables
    by (auto simp: edge_ok_def)
  have lab: "id_name V1 catTypeRev (de_TypeID d) = Some (e_Label ?ed)" using edge_label [OF g d] v1(3) by (simp add: steady_def)
  have r1: "room V1 m" using r room_steady [OF v1(3)] by simp
  obtain W where w: "writeEdge view_ops V1 h \<lparr>er_Edge = ?ed\<lparr>e_Props := filter (\<lambda>p. p_Name p \<notin> set names) (e_Props ?ed)\<rparr>, er_TypeID = de_TypeID d\<rparr> = (W, Inr ())"
      "edge_changed V1 W N E m (?ed\<lparr>e_Props := filter (\<lambda>p. p_Name p \<notin> set names) (e_Props ?ed)\<rparr>)"
    using write_same_edge [OF v1(2) d gp lab, of m h] r1 by auto
  have "counter_of V1 catNextNode = counter_of V catNextNode" using v1(3) by (simp add: steady_def)
  then show ?thesis using v1(1) w edge_changed_trans [OF steady_grows [OF v1(3)]] d
    by (simp add: DeleteEdgeProps_def graph_loadEdge [OF g] unindexDeclaredEdge_def dropProps_def Let_def del: edge_view_simps(4))
qed

lemma ReplaceEdgeProps_changed:
  assumes g: "graph_at V N E" and d: "E i = Some d" and r: "room V (length ps + m)" and fit: "values_fit ps"
  shows "\<exists>W qs. ReplaceEdgeProps view_ops V h i ps = (W, Inr ((edge_view V i d)\<lparr>e_Props := qs\<rparr>))
    \<and> edge_changed V W N E m ((edge_view V i d)\<lparr>e_Props := qs\<rparr>) \<and> prop_val qs = map_of ps"
proof -
  let ?ed = "edge_view V i d"
  obtain V0 where v0: "assignProps view_ops V h ps = (V0, Inr (sorted_props V0 ps))" "named V V0 m" "known V0 ps"
    using assignProps_view [OF base_tables [OF graph_atD(1) [OF g]] r values_fit_storable(1,2) [OF fit], of h] by blast
  note n0 = graph_named [OF g v0(2)]
  obtain V1 where v1: "touchDeclared view_ops V0 h EdgeEntity [] (e_Label ?ed) (e_Props ?ed) (e_ID ?ed) False = (V1, Inr ())" "graph_at V1 N E" "steady V0 V1"
    using touchDeclared_graph [OF n0(1)] by blast
  have t1: "tables V1" using base_tables graph_atD(1) [OF v1(2)] by blast
  have gr: "grows V V1" by (rule grows_trans [OF n0(3) steady_grows [OF v1(3)]])
  have gp: "good_props V1 (sorted_props V0 ps)"
    by (rule good_props_grows [OF good_sorted_props [OF n0(7) v0(3) fit] steady_grows [OF v1(3)] n0(7) t1])
  have lab: "id_name V1 catTypeRev (de_TypeID d) = Some (e_Label ?ed)" using edge_label [OF g d] grows_id(3) [OF gr n0(6) t1] by blast
  have r1: "room V1 m" using n0(2) room_steady [OF v1(3)] by simp
  obtain W where w: "writeEdge view_ops V1 h \<lparr>er_Edge = ?ed\<lparr>e_Props := sorted_props V0 ps\<rparr>, er_TypeID = de_TypeID d\<rparr> = (W, Inr ())"
      "edge_changed V1 W N E m (?ed\<lparr>e_Props := sorted_props V0 ps\<rparr>)"
    using write_same_edge [OF v1(2) d gp lab, of m h] r1 by auto
  have "counter_of V1 catNextNode = counter_of V catNextNode" using v1(3) n0(4) by (simp add: steady_def)
  then show ?thesis using v0(1) v1(1) w edge_changed_trans [OF gr] d prop_val_sorted [OF values_fit_storable(2) [OF fit]]
    by (intro exI [of _ W] exI [of _ "sorted_props V0 ps"])
      (simp add: ReplaceEdgeProps_def graph_loadEdge [OF g] unindexDeclaredEdge_def Let_def del: edge_view_simps(4))
qed

lemma UpdateEdge_changed:
  assumes g: "graph_at V N E" and d: "E i = Some d" and r: "room V (length ps + m)" and fit: "values_fit ps"
    and more: "(length (de_Props d) + length ps) * sizeofProp \<le> maxAlloc"
  shows "\<exists>W qs. UpdateEdge view_ops V h i ps = (W, Inr ((edge_view V i d)\<lparr>e_Props := qs\<rparr>))
    \<and> edge_changed V W N E m ((edge_view V i d)\<lparr>e_Props := qs\<rparr>) \<and> prop_val qs = prop_val (e_Props (edge_view V i d)) ++ map_of ps"
proof (cases "length ps = 0")
  case True
  have "UpdateEdge view_ops V h i ps = (V, Inr (edge_view V i d))" using True by (simp add: UpdateEdge_def graph_loadEdge [OF g] d)
  moreover have "edge_changed V V N E m (edge_view V i d)" using g d room_mono [OF r]
    by (auto simp: edge_changed_def fun_upd_idem intro!: exI [of _ d])
  moreover have "(edge_view V i d)\<lparr>e_Props := e_Props (edge_view V i d)\<rparr> = edge_view V i d" by simp
  ultimately show ?thesis using True by (intro exI [of _ V] exI [of _ "e_Props (edge_view V i d)"]) (simp del: edge_view_simps)
next
  case False
  let ?ed = "edge_view V i d"
  obtain V1 where v1: "touchDeclared view_ops V h EdgeEntity [] (e_Label ?ed) (e_Props ?ed) (e_ID ?ed) False = (V1, Inr ())" "graph_at V1 N E" "steady V V1"
    using touchDeclared_graph [OF g] by blast
  have t: "tables V" "tables V1" using base_tables graph_atD(1) [OF v1(2)] graph_atD(1) [OF g] by auto
  have gp: "good_props V1 (e_Props ?ed)"
    using good_props_grows [OF good_edge_props steady_grows [OF v1(3)] t] graph_atD(8) [OF g d] by (simp add: edge_ok_def)
  note nm = good_props_names [OF gp t(2)]
  have r1: "room V1 (length ps + m)" using r room_steady [OF v1(3)] by simp
  obtain V2 b where v2: "mergeProps_loop view_ops V1 h ps (namedProps (e_Props ?ed)) = (V2, Inr b)" "named V1 V2 m" "name_map V2 b"
      "length b \<le> length (e_Props ?ed) + length ps"
      "\<forall>x. map_option p_Value (map_of b x) = ((\<lambda>x. map_option p_Value (map_of (map (\<lambda>p. (p_Name p, p)) (e_Props ?ed)) x)) ++ map_of (rev ps)) x"
    using mergeProps_view [OF t(2) r1 nm(2), of h] fit unfolding namedProps_names [OF nm(1)] values_fit_def by (metis length_map)
  note n2 = graph_named [OF v1(2) v2(2)]
  have "length b * sizeofProp \<le> maxAlloc" using v2(4) by (intro fits_le [OF more]) simp
  note pf = propsFromNames_good [OF v2(3) n2(7) this]
  have gr: "grows V V2" by (rule grows_trans [OF steady_grows [OF v1(3)] n2(3)])
  have lab: "id_name V2 catTypeRev (de_TypeID d) = Some (e_Label ?ed)" using edge_label [OF g d] grows_id(3) [OF gr t(1) n2(7)] by blast
  obtain W where w: "writeEdge view_ops V2 h \<lparr>er_Edge = ?ed\<lparr>e_Props := propsFromNames b\<rparr>, er_TypeID = de_TypeID d\<rparr> = (W, Inr ())"
      "edge_changed V2 W N E m (?ed\<lparr>e_Props := propsFromNames b\<rparr>)"
    using write_same_edge [OF n2(1) d pf(1) lab, of m h] n2(2) by auto
  have "map_of (rev ps) = map_of ps" using fit by (intro map_of_inject_set [THEN iffD2]) (auto simp: values_fit_def rev_map [symmetric])
  then have pv: "prop_val (propsFromNames b) = prop_val (e_Props ?ed) ++ map_of ps"
    using v2(5) pf(2) unfolding prop_val_names [symmetric] by (simp add: fun_eq_iff map_add_def)
  have "counter_of V2 catNextNode = counter_of V catNextNode" using v1(3) n2(4) by (simp add: steady_def)
  then show ?thesis using v1(1) v2(1) w edge_changed_trans [OF gr] d pv False
    by (intro exI [of _ W] exI [of _ "propsFromNames b"])
      (simp add: UpdateEdge_def graph_loadEdge [OF g] unindexDeclaredEdge_def Let_def del: edge_view_simps(4))
qed

section \<open>Deleting\<close>

lemma DeleteEdge_view:
  assumes g: "graph_at V N E" and d: "E i = Some d"
  shows "\<exists>W. DeleteEdge view_ops V h i = (W, Inr ()) \<and> graph_at W N (E(i := None)) \<and> steady V W"
proof -
  let ?ed = "edge_view V i d" and ?t = "de_TypeID d"
  obtain V1 where v1: "touchDeclared view_ops V h EdgeEntity [] (e_Label ?ed) (e_Props ?ed) (e_ID ?ed) False = (V1, Inr ())" "graph_at V1 N E" "steady V V1"
    using touchDeclared_graph [OF g] by blast
  obtain V2 where v2: "bumpWrites view_ops V1 h = (V2, Inr ())" "graph_at V2 N E" "steady V1 V2" using bumpWrites_graph [OF v1(2)] by blast
  let ?W = "upd_view (upd_view (upd_view (upd_view V2 KSOut (outKey (de_From d) ?t (de_To d) i) None)
      KSIn (inKey (de_To d) ?t (de_From d) i) None) KSEdgeType (typeKey ?t i) None) KSEdge (idKey i) None"
  have e: "edges_part ?W (E(i := None))" by (rule edges_part_del [where E = E, OF graph_atD(3) [OF v2(2)] d])
  have t: "touch {KSEdge, KSOut, KSIn, KSEdgeType} {} V2 ?W" by (simp add: touch_def upd_view_apply)
  have w: "wcount_ok ?W" using graph_atD(1) [OF v2(2)] wcount_touch [OF t] by (simp add: base_def)
  have t': "touch {KSEdge, KSOut, KSIn, KSEdgeType} {KindWriteCount} V2 ?W" by (rule touch_mono [OF t]) simp_all
  have p: "\<forall>k. \<not> hasPrefix k [Marker] \<longrightarrow> ?W KSProp k = V2 KSProp k" by (simp add: upd_view_apply)
  have ok: "edge_ok V2 N d' \<and> j < counter_of V2 catNextEdge" if "(E(i := None)) j = Some d'" for j d'
    using that graph_atD(8,9) [OF v2(2), of j d'] by (simp split: if_splits)
  have ks: "{KSEdge, KSOut, KSIn, KSEdgeType} \<inter> {KSCatalog, KSNode, KSLabel} = {}" by simp
  note gw = graph_steady [OF v2(2) t' ks w p e ok]
  have "DeleteEdge view_ops V h i = (?W, Inr ())"
    by (simp add: DeleteEdge_def graph_loadEdge [OF g] d unindexDeclaredEdge_def v1(1) [unfolded edge_view_simps(1)] v2(1) Let_def del: edge_view_simps(4))
  then show ?thesis using gw steady_trans [OF v1(3) steady_trans [OF v2(3)]] by blast
qed

lemma deleteEdges_view:
  "graph_at V N E \<Longrightarrow> set is \<subseteq> dom E \<union> set seen \<Longrightarrow> set seen \<inter> dom E = {} \<Longrightarrow>
   \<exists>W. deleteEdges view_ops V h is seen = (W, Inr ()) \<and> graph_at W N (E |` (- set is)) \<and> steady V W"
proof (induction "is" arbitrary: V E seen)
  case Nil
  then show ?case by (auto simp: steady_def)
next
  case (Cons i "is")
  show ?case
  proof (cases "i \<in> set seen")
    case True
    then have "E |` (- set (i # is)) = E |` (- set is)" using Cons.prems(3) by (auto simp: restrict_map_def fun_eq_iff disjoint_iff domIff)
    then show ?thesis using Cons.IH [OF Cons.prems(1) _ Cons.prems(3)] Cons.prems(2) True by auto
  next
    case False
    then obtain d where d: "E i = Some d" using Cons.prems(2) by auto
    obtain V1 where v1: "DeleteEdge view_ops V h i = (V1, Inr ())" "graph_at V1 N (E(i := None))" "steady V V1"
      using DeleteEdge_view [OF Cons.prems(1) d] by blast
    have "set is \<subseteq> dom (E(i := None)) \<union> set (i # seen)" "set (i # seen) \<inter> dom (E(i := None)) = {}"
      using Cons.prems(2,3) by auto
    then obtain W where "deleteEdges view_ops V1 h is (i # seen) = (W, Inr ())" "graph_at W N ((E(i := None)) |` (- set is))" "steady V1 W"
      using Cons.IH [OF v1(2)] by blast
    moreover have "(E(i := None)) |` (- set is) = E |` (- set (i # is))" by (auto simp: restrict_map_def fun_eq_iff)
    ultimately show ?thesis using False v1(1) steady_trans [OF v1(3)] by auto
  qed
qed

text \<open>The edges the adjacency indexes give for a node are the ones that start or end there.\<close>

definition touching :: "(uint64 \<Rightarrow> decodedEdge option) \<Rightarrow> uint64 \<Rightarrow> uint64 set" where
  "touching E i = {j. \<exists>d. E j = Some d \<and> (de_From d = i \<or> de_To d = i)}"

lemma adj_prefix [simp]: "hasPrefix (outKey a t b j) (idKey i) \<longleftrightarrow> a = i" "hasPrefix (inKey a t b j) (idKey i) \<longleftrightarrow> a = i"
  by (simp_all add: hasPrefix_def outKey_def inKey_def idKey_def)

lemma set_map_filter: "set (List.map_filter f xs) = {y. \<exists>x. x \<in> set xs \<and> f x = Some y}"
  by (induction xs) (auto simp: map_filter_simps split: option.splits)

lemma set_incidentKeys: "set (incidentKeys keys) = {e. \<exists>k. k \<in> set keys \<and> (\<exists>a t b. parseAdj k = Some (a, t, b, e))}"
proof -
  have "(case parseAdj k of None \<Rightarrow> None | Some (a, t, b, eid) \<Rightarrow> Some eid) = Some e \<longleftrightarrow> (\<exists>a t b. parseAdj k = Some (a, t, b, e))" for k e
    by (auto split: option.splits)
  then show ?thesis unfolding incidentKeys_def set_map_filter by simp
qed

lemma incident_scan:
  assumes "edges_part V E" "fin_view V"
  shows "set (incidentKeys (scan_view V KSOut (Some (idKey i)))) = {j. \<exists>d. E j = Some d \<and> de_From d = i}"
    and "set (incidentKeys (scan_view V KSIn (Some (idKey i)))) = {j. \<exists>d. E j = Some d \<and> de_To d = i}"
proof -
  have o: "k \<in> set (scan_view V KSOut (Some (idKey i))) \<longleftrightarrow> (\<exists>j d. E j = Some d \<and> de_From d = i \<and> k = outKey i (de_TypeID d) (de_To d) j)" for k
    using assms unfolding edges_part_def out_index_def by (auto simp: set_scan_view)
  have n: "k \<in> set (scan_view V KSIn (Some (idKey i))) \<longleftrightarrow> (\<exists>j d. E j = Some d \<and> de_To d = i \<and> k = inKey i (de_TypeID d) (de_From d) j)" for k
    using assms unfolding edges_part_def in_index_def by (auto simp: set_scan_view)
  show "set (incidentKeys (scan_view V KSOut (Some (idKey i)))) = {j. \<exists>d. E j = Some d \<and> de_From d = i}"
    unfolding set_incidentKeys o by auto (metis parseAdj_keys(1))
  show "set (incidentKeys (scan_view V KSIn (Some (idKey i)))) = {j. \<exists>d. E j = Some d \<and> de_To d = i}"
    unfolding set_incidentKeys n by auto (metis parseAdj_keys(2))
qed

lemma incidentEdges_view:
  assumes "graph_at V N E"
  shows "\<exists>is. incidentEdges view_ops V h i = (V, Inr is) \<and> set is = touching E i"
proof -
  have f: "fin_view V" using graph_atD(1) [OF assms] by (simp add: base_def)
  show ?thesis using incident_scan [OF graph_atD(3) [OF assms] f, of i]
    by (auto simp: incidentEdges_def scanPrefix_view [OF f] touching_def)
qed

lemma nodes_at_del:
  assumes "nodes_at V N"
  shows "nodes_at (upd_view V KSNode (idKey i) None) (N(i := None))"
  using assms unfolding nodes_at_def upd_view_same by (auto cong: option.case_cong)

lemma graph_drop_node:
  assumes g: "graph_but V N E i {} {}" and e: "touching E i = {}"
  shows "graph_at (upd_view V KSNode (idKey i) None) (N(i := None)) E" "steady V (upd_view V KSNode (idKey i) None)"
proof -
  let ?W = "upd_view V KSNode (idKey i) None"
  have t: "touch {KSNode} {} V ?W" by (rule touch_upd) simp
  have t': "touch {KSNode} {KindWriteCount} V ?W" by (rule touch_upd) simp
  have ks: "KSCatalog \<notin> {KSNode}" by simp
  note b = base_touch [OF graph_butD(1) [OF g] t' ks wcount_but [OF g t ks]]
  show s: "steady V ?W" by (rule b(2))
  note gr = steady_grows [OF s]
  have tw: "tables V" "tables ?W" using graph_butD(1) [OF g] b(1) base_tables by auto
  have cs: "counter_of ?W catNextNode = counter_of V catNextNode" "counter_of ?W catNextEdge = counter_of V catNextEdge"
    using s by (auto simp: steady_def)
  have ix: "(labels_of N)(i := {}) = labels_of (N(i := None))" "(props_of N)(i := {}) = props_of (N(i := None))"
    by (auto simp: labels_of_def props_of_def fun_eq_iff)
  have li: "label_index ?W (labels_of (N(i := None)))" "prop_index ?W (props_of (N(i := None)))"
    using label_index_touch [OF graph_butD(4) [OF g] t] prop_index_touch [OF graph_butD(5) [OF g] t] ix by simp_all
  have ep: "edges_part ?W E" by (rule edges_part_touch [OF graph_butD(3) [OF g] t]) simp
  have nd: "node_ok ?W r \<and> j < counter_of ?W catNextNode" if "(N(i := None)) j = Some r" for j r
    using that graph_butD(6,7) [OF g, of j r] cs node_ok_grows [OF _ gr tw] by (simp split: if_splits del: node_ok.simps)
  have ed: "edge_ok ?W (N(i := None)) d \<and> j < counter_of ?W catNextEdge" if j: "E j = Some d" for j d
  proof -
    have "de_From d \<noteq> i" "de_To d \<noteq> i" using e j by (auto simp: touching_def)
    moreover have "edge_ok ?W N d" using edge_ok_grows [OF graph_butD(9) [OF g j] gr tw subset_refl] .
    ultimately show ?thesis using graph_butD(10) [OF g j] cs by (simp add: edge_ok_def)
  qed
  show "graph_at ?W (N(i := None)) E"
    unfolding graph_at_def using b(1) nodes_at_del [OF graph_butD(2) [OF g]] ep li nd ed by blast
qed

lemma DeleteNode_view:
  assumes g: "graph_at V N E" and n: "N i = Some r"
  shows "\<exists>W. DeleteNode view_ops V h i = (W, Inr ()) \<and> graph_at W (N(i := None)) (E |` (- touching E i)) \<and> steady V W"
proof -
  let ?n = "node_view V i r"
  have tv: "tables V" using base_tables graph_atD(1) [OF g] by blast
  obtain es where es: "incidentEdges view_ops V h i = (V, Inr es)" "set es = touching E i" using incidentEdges_view [OF g] by blast
  have "set es \<subseteq> dom E \<union> set []" using es(2) by (auto simp: touching_def)
  then obtain V1 where v1: "deleteEdges view_ops V h es [] = (V1, Inr ())" "graph_at V1 N (E |` (- touching E i))" "steady V V1"
    using deleteEdges_view [OF g, of es "[]" h] es(2) by auto
  note g1 = graph_at_but [OF v1(2) graph_atD(7) [OF v1(2) n]]
  have nid: "name_id V1 catLabel = name_id V catLabel" using v1(3) by (simp add: steady_def)
  obtain V2 where v2: "unindexLabels view_ops V1 h i (n_Labels ?n) = (V2, Inr ())"
      "graph_but V2 N (E |` (- touching E i)) i (labels_of N i - {l. \<exists>n\<in>set (n_Labels ?n). name_id V catLabel n = Some l}) (props_of N i)" "steady V1 V2"
    using unindexLabels_but [OF g1, of h "n_Labels ?n"] unfolding nid by blast
  have e1: "labels_of N i - {l. \<exists>n\<in>set (n_Labels ?n). name_id V catLabel n = Some l} = {}"
    using view_labels_cover [OF tv graph_atD(6) [OF g n], of _ i] n by (auto simp: labels_of_def split: prod.splits simp del: node_view_simps)
  obtain V3 where v3: "unindexProps view_ops V2 h i (n_Props ?n) = (V3, Inr ())" "graph_but V3 N (E |` (- touching E i)) i {} (props_of N i - pkeys (n_Props ?n))" "steady V2 V3"
    using unindexProps_but [OF v2(2) [unfolded e1], of h "n_Props ?n"] by blast
  have e2: "props_of N i - pkeys (n_Props ?n) = {}" using n by (cases r) (simp add: props_of_def)
  obtain V4 where v4: "touchDeclared view_ops V3 h NodeEntity (n_Labels ?n) [] (n_Props ?n) i False = (V4, Inr ())" "graph_but V4 N (E |` (- touching E i)) i {} {}" "steady V3 V4"
    using declared_but [OF v3(2) [unfolded e2]] by blast
  have "wcount_ok V4" using graph_butD(1) [OF v4(2)] by (simp add: base_def)
  then obtain V5 where v5: "bumpWrites view_ops V4 h = (V5, Inr ())" "upkept V4 V5" using bumpWrites_view by blast
  note g5 = graph_but_upkept [OF v4(2) v5(2)]
  have none: "touching (E |` (- touching E i)) i = {}" by (auto simp: touching_def restrict_map_def split: if_splits)
  note gw = graph_drop_node [OF g5(1) none]
  have "DeleteNode view_ops V h i = (upd_view V5 KSNode (idKey i) None, Inr ())"
    by (simp add: DeleteNode_def graph_GetNode [OF g] n es(1) v1(1) v2(1) v3(1) unindexDeclaredNode_def v4(1) v5(1) del: node_view_simps(2,3))
  moreover have "steady V (upd_view V5 KSNode (idKey i) None)"
    by (rule steady_trans [OF v1(3) steady_trans [OF v2(3) steady_trans [OF v3(3) steady_trans [OF v4(3) steady_trans [OF g5(2) gw(2)]]]]])
  ultimately show ?thesis using gw(1) by blast
qed

end
