(* ===== verification/GraphQuery.thy ===== *)
theory GraphQuery
  imports GraphEdges
begin

text \<open>
  Queries on a consistent store. A query that goes through an index returns exactly what filtering every
  node or edge returns, in id order: the index is neither stale nor incomplete.
\<close>

section \<open>Everything\<close>

definition all_nodes :: "kvview \<Rightarrow> (uint64 \<Rightarrow> node_rec option) \<Rightarrow> Node list" where
  "all_nodes V N = map (\<lambda>i. node_view V i (the (N i))) (sorted_list_of_set (dom N))"

definition all_edges :: "kvview \<Rightarrow> (uint64 \<Rightarrow> decodedEdge option) \<Rightarrow> Edge list" where
  "all_edges V E = map (\<lambda>i. edge_view V i (the (E i))) (sorted_list_of_set (dom E))"

lemma idKey_less: "idKey a < idKey b \<longleftrightarrow> a < b"
  using be_put_append_less [OF unat64_bound unat64_bound, of a "[]" b "[]"] by (simp add: idKey_def word_less_nat_alt)

lemma finite_ids: "finite (A :: uint64 set)"
  by simp

lemma id_scan:
  assumes "\<And>k. V ks k \<noteq> None \<longleftrightarrow> (\<exists>i\<in>A. k = idKey i)"
  shows "scan_view V ks None = map idKey (sorted_list_of_set A)"
proof -
  have d: "dom (V ks) = idKey ` A" using assms by (auto simp: domIff image_iff)
  have "sorted_wrt (<) (map idKey (sorted_list_of_set A))"
    using strict_sorted_list_of_set [of A] by (simp add: sorted_wrt_map idKey_less)
  then have "map idKey (sorted_list_of_set A) = sorted_list_of_set (idKey ` A)"
    by (intro sorted_distinct_set_unique) (auto simp: strict_sorted_iff)
  then show ?thesis using d by (simp add: scan_view_def)
qed

lemma getAll_ids:
  "(\<And>i. i \<in> set is \<Longrightarrow> get V i = (V, Inr (f i))) \<Longrightarrow> getAll get V (map idKey is) out = (V, Inr (out @ map f is))"
  by (induction "is" arbitrary: out) auto

lemma GetEdge_view:
  assumes "graph_at V N E"
  shows "GetEdge view_ops V h i = (V, case E i of None \<Rightarrow> Inl (GraphNotFound ''edge'' i) | Some d \<Rightarrow> Inr (edge_view V i d))"
  by (cases "E i") (simp_all add: GetEdge_def graph_loadEdge [OF assms])

lemma AllNodes_view:
  assumes g: "graph_at V N E"
  shows "AllNodes view_ops V h = (V, Inr (all_nodes V N))"
proof -
  have f: "fin_view V" using graph_atD(1) [OF g] by (simp add: base_def)
  have "V KSNode k \<noteq> None \<longleftrightarrow> (\<exists>i\<in>dom N. k = idKey i)" for k
    using nodes_atD(2,3) [OF graph_atD(2) [OF g]] by blast
  then have s: "scan_view V KSNode None = map idKey (sorted_list_of_set (dom N))" by (rule id_scan)
  have "getAll (\<lambda>e. GetNode view_ops e h) V (map idKey (sorted_list_of_set (dom N))) [] = (V, Inr ([] @ all_nodes V N))"
    unfolding all_nodes_def by (rule getAll_ids) (auto simp: graph_GetNode [OF g])
  then show ?thesis by (simp add: AllNodes_def scanPrefix_view [OF f] s)
qed

lemma AllEdges_view:
  assumes g: "graph_at V N E"
  shows "AllEdges view_ops V h = (V, Inr (all_edges V E))"
proof -
  have f: "fin_view V" using graph_atD(1) [OF g] by (simp add: base_def)
  have "edges_at V E" using graph_atD(3) [OF g] by (simp add: edges_part_def)
  then have "V KSEdge k \<noteq> None \<longleftrightarrow> (\<exists>i\<in>dom E. k = idKey i)" for k using edges_atD(2,3) by blast
  then have s: "scan_view V KSEdge None = map idKey (sorted_list_of_set (dom E))" by (rule id_scan)
  have "getAll (\<lambda>e. GetEdge view_ops e h) V (map idKey (sorted_list_of_set (dom E))) [] = (V, Inr ([] @ all_edges V E))"
    unfolding all_edges_def by (rule getAll_ids) (auto simp: GetEdge_view [OF g])
  then show ?thesis by (simp add: AllEdges_def scanPrefix_view [OF f] s)
qed

section \<open>Through an index\<close>

lemma getExisting_ids:
  "(\<And>i. i \<in> set is \<Longrightarrow> get V i = (V, Inr (f i))) \<Longrightarrow> getExisting get V is out = (V, Inr (out @ map f is))"
  by (induction "is" arbitrary: out) auto

lemma sort_key_map: "(\<And>i. key (f i) = i) \<Longrightarrow> sort_key key (map f is) = map f (sort is)"
proof (induction "is")
  case (Cons i "is")
  have "insort_key key (f i) (map f xs) = map f (insort i xs)" for xs using Cons.prems by (induction xs) auto
  then show ?case using Cons by simp
qed simp

lemma sorted_query:
  assumes "distinct is" "set is = {i \<in> A. Q (f i)}" "\<And>i. key (f i) = i"
  shows "sort_key key (map f is) = filter Q (map f (sorted_list_of_set (A :: uint64 set)))"
proof -
  have "sort is = filter (Q \<circ> f) (sorted_list_of_set A)"
    by (rule sorted_distinct_set_unique) (use assms(1,2) in \<open>auto simp: sorted_wrt_filter\<close>)
  then show ?thesis using sort_key_map [of key f, OF assms(3)] by (simp add: filter_map)
qed

lemma index_query:
  assumes "distinct is" "set is = {i \<in> A. Q (f i)}" "\<And>i. key (f i) = i" "\<And>i. i \<in> A \<Longrightarrow> get V i = (V, Inr (f i))"
  shows "sbind (getExisting get V is []) (\<lambda>e out. (e, Inr (sort_key key out))) = (V, Inr (filter Q (map f (sorted_list_of_set (A :: uint64 set)))))"
proof -
  have "getExisting get V is [] = (V, Inr ([] @ map f is))" by (rule getExisting_ids) (use assms(2,4) in auto)
  then show ?thesis using sorted_query [of "is" A Q f, OF assms(1-3)] by simp
qed

text \<open>The keys of an index hold each id once.\<close>

lemma index_ids:
  assumes "distinct keys" "set keys = kf ` S" "\<And>i. i \<in> S \<Longrightarrow> id_of (kf i) = i"
  shows "distinct (map id_of keys)" "set (map id_of keys) = S"
proof -
  have "inj_on id_of (set keys)" unfolding assms(2) by (rule inj_onI) (auto simp: assms(3))
  then show "distinct (map id_of keys)" using assms(1) by (simp add: distinct_map)
  show "set (map id_of keys) = S" using assms(2,3) by (auto simp: image_image)
qed

lemma label_in_view:
  assumes "tables V" "node_ok V r"
  shows "l \<in> set (n_Labels (node_view V i r)) \<longleftrightarrow> (\<exists>j\<in>set (fst r). name_id V catLabel l = Some j)"
proof -
  have "l = label_name V j \<longleftrightarrow> name_id V catLabel l = Some j" if "j \<in> set (fst r)" for j
  proof -
    obtain nm where "id_name V catLabelRev j = Some nm" using \<open>j \<in> set (fst r)\<close> assms(2) by (cases r) auto
    then show ?thesis using names_okD(4) [OF tablesD(2) [OF assms(1)], of l j] by (auto simp: label_name_def)
  qed
  then show ?thesis by auto
qed

lemma NodesByLabel_view:
  assumes g: "graph_at V N E"
  shows "NodesByLabel view_ops V h l = (V, Inr (filter (\<lambda>n. l \<in> set (n_Labels n)) (all_nodes V N)))"
proof -
  have f: "fin_view V" using graph_atD(1) [OF g] by (simp add: base_def)
  have tv: "tables V" by (rule base_tables [OF graph_atD(1) [OF g]])
  note lk = lookupName_view [OF tablesD(2) [OF tv]]
  have lab: "l \<in> set (n_Labels (node_view V i (the (N i)))) \<longleftrightarrow> (\<exists>j\<in>labels_of N i. name_id V catLabel l = Some j)" if "i \<in> dom N" for i
    using that label_in_view [OF tv graph_atD(6) [OF g, of i]] by (auto simp: labels_of_def split: prod.splits simp del: node_view_simps)
  show ?thesis
  proof (cases "name_id V catLabel l")
    case None
    then have "filter (\<lambda>n. l \<in> set (n_Labels n)) (all_nodes V N) = []"
      using lab by (auto simp: all_nodes_def filter_empty_conv simp del: node_view_simps)
    then show ?thesis using None by (simp add: NodesByLabel_def lk)
  next
    case (Some j)
    let ?keys = "scan_view V KSLabel (Some (take 4 (labelKey j 0)))"
    have pre: "hasPrefix (labelKey j' i) (take 4 (labelKey j 0)) \<longleftrightarrow> j' = j" for j' i
      by (simp add: hasPrefix_def labelKey_def)
    have keys: "set ?keys = labelKey j ` {i. j \<in> labels_of N i}"
      using graph_atD(4) [OF g] pre by (auto simp: set_scan_view [OF f] label_index_def)
    then have len: "filter (\<lambda>k. length k = 12) ?keys = ?keys" by (auto intro!: filter_True)
    note ids = index_ids [OF distinct_scan_view keys, of "be64_at 4"]
    have "j \<in> labels_of N i \<Longrightarrow> i \<in> dom N" for i by (auto simp: labels_of_def split: option.splits)
    then have "{i. j \<in> labels_of N i} = {i \<in> dom N. l \<in> set (n_Labels (node_view V i (the (N i))))}"
      using lab Some by (metis (no_types, lifting) option.inject)
    then have "sbind (getExisting (\<lambda>e. GetNode view_ops e h) V (map (be64_at 4) ?keys) []) (\<lambda>e out. (e, Inr (sort_key n_ID out)))
        = (V, Inr (filter (\<lambda>n. l \<in> set (n_Labels n)) (all_nodes V N)))"
      unfolding all_nodes_def
      by (intro index_query [where f = "\<lambda>i. node_view V i (the (N i))"]) (use ids in \<open>auto simp: graph_GetNode [OF g] simp del: node_view_simps(3)\<close>)
    then show ?thesis using Some len by (simp add: NodesByLabel_def lk scanPrefix_view [OF f])
  qed
qed

text \<open>A property id is below the ids whose index keys would look like keys of a declared index.\<close>

lemma prop_id_unmarked:
  assumes "base V" "name_id V catProp key = Some p"
  shows "\<not> hasPrefix (pkey (p, x) i) [Marker]"
proof (rule unmarked_pkey)
  have "unat p < unat (counter_of V catNextProp)" using assms names_okD(6) [OF tablesD(1)] by (auto simp: base_def)
  then show "unat p < 0xFF000000" using assms(1) by (simp add: base_def room_def)
qed

lemma prop_in_view:
  assumes "tables V" "props_ok V ps"
  shows "(\<exists>p\<in>set (map (named_prop V) ps). p_Name p = key \<and> EncodeKey (p_Value p) = k) \<longleftrightarrow> (\<exists>j. name_id V catProp key = Some j \<and> (j, k) \<in> pkeys ps)"
proof -
  have "p_Name (named_prop V p) = key \<longleftrightarrow> name_id V catProp key = Some (p_ID p)" if "p \<in> set ps" for p
  proof -
    obtain nm where "id_name V catPropRev (p_ID p) = Some nm" using \<open>p \<in> set ps\<close> assms(2) by (auto simp: props_ok_def)
    then show ?thesis using names_okD(4) [OF tablesD(1) [OF assms(1)], of key "p_ID p"] by (auto simp: named_prop_def)
  qed
  then show ?thesis by (fastforce simp: pkeys_def named_prop_def)
qed

lemma pkey_prefix: "pkey (j, EncodeKey v) i = propIndexPrefix j v @ be_put 8 (unat i)"
  by (simp add: pkey_def propIndexPrefix_def)

lemma prop_scan:
  assumes g: "graph_at V N E" and p: "name_id V catProp key = Some j"
  shows "set (filter (\<lambda>k. length k = length (propIndexPrefix j v) + 8 \<and> take (length (propIndexPrefix j v)) k = propIndexPrefix j v)
      (scan_view V KSProp (Some (propIndexPrefix j v)))) = pkey (j, EncodeKey v) ` {i. (j, EncodeKey v) \<in> props_of N i}" (is "set ?keys = _")
proof -
  have f: "fin_view V" using graph_atD(1) [OF g] by (simp add: base_def)
  note um = prop_id_unmarked [OF graph_atD(1) [OF g] p]
  have "k \<in> set ?keys \<longleftrightarrow> (\<exists>i. (j, EncodeKey v) \<in> props_of N i \<and> k = pkey (j, EncodeKey v) i)" for k
  proof
    assume "k \<in> set ?keys"
    then obtain s where s: "k = propIndexPrefix j v @ s" "length s = 8" "V KSProp k \<noteq> None"
      by (auto simp: set_scan_view [OF f] hasPrefix_append)
    then have kk: "k = pkey (j, EncodeKey v) (word_of_nat (be_get s))" using be_get_less [of s] be_put_get [of s 8]
      by (simp add: pkey_prefix unat_of_nat take_bit_nat_eq_self)
    then have "\<not> hasPrefix k [Marker]" using um by simp
    then obtain i pe where "pe \<in> props_of N i" "k = pkey pe i" using graph_atD(5) [OF g] s(3) unfolding prop_index_def by blast
    then show "\<exists>i. (j, EncodeKey v) \<in> props_of N i \<and> k = pkey (j, EncodeKey v) i" using kk by (cases pe) auto
  next
    assume "\<exists>i. (j, EncodeKey v) \<in> props_of N i \<and> k = pkey (j, EncodeKey v) i"
    then obtain i where i: "(j, EncodeKey v) \<in> props_of N i" "k = pkey (j, EncodeKey v) i" by blast
    then have "V KSProp k \<noteq> None" using graph_atD(5) [OF g] um unfolding prop_index_def by blast
    then show "k \<in> set ?keys" using i(2) by (simp add: set_scan_view [OF f] pkey_prefix hasPrefix_append)
  qed
  then show ?thesis by auto
qed

lemma NodesByPropEq_view:
  assumes g: "graph_at V N E"
  shows "NodesByPropEq view_ops V h key v
    = (V, Inr (filter (\<lambda>n. \<exists>p\<in>set (n_Props n). p_Name p = key \<and> EncodeKey (p_Value p) = EncodeKey v) (all_nodes V N)))"
proof -
  have b: "base V" by (rule graph_atD(1) [OF g])
  have f: "fin_view V" using b by (simp add: base_def)
  have tv: "tables V" by (rule base_tables [OF b])
  note lk = lookupName_view [OF tablesD(1) [OF tv]]
  let ?Q = "\<lambda>n. \<exists>p\<in>set (n_Props n). p_Name p = key \<and> EncodeKey (p_Value p) = EncodeKey v"
  have hit: "?Q (node_view V i (the (N i))) \<longleftrightarrow> (\<exists>j. name_id V catProp key = Some j \<and> (j, EncodeKey v) \<in> props_of N i)" if "i \<in> dom N" for i
  proof -
    obtain lids ps where r: "N i = Some (lids, ps)" using \<open>i \<in> dom N\<close> by auto
    have "props_ok V ps" using graph_atD(6) [OF g r] by simp
    then show ?thesis using prop_in_view [OF tv, of ps key "EncodeKey v"] r by (simp add: props_of_def)
  qed
  show ?thesis
  proof (cases "name_id V catProp key")
    case None
    then have "filter ?Q (all_nodes V N) = []" using hit by (fastforce simp: all_nodes_def filter_empty_conv simp del: node_view_simps)
    then show ?thesis using None by (simp add: NodesByPropEq_def lk)
  next
    case (Some j)
    let ?pre = "propIndexPrefix j v"
    let ?keys = "filter (\<lambda>k. length k = length ?pre + 8 \<and> take (length ?pre) k = ?pre) (scan_view V KSProp (Some ?pre))"
    note keys = prop_scan [OF g Some, of v]
    have "be64_at (length ?pre) (pkey (j, EncodeKey v) i) = i" for i by (simp add: pkey_prefix be64_at_def)
    note ids = index_ids [OF _ keys this]
    have "(j, EncodeKey v) \<in> props_of N i \<Longrightarrow> i \<in> dom N" for i by (auto simp: props_of_def split: option.splits)
    then have "{i. (j, EncodeKey v) \<in> props_of N i} = {i \<in> dom N. ?Q (node_view V i (the (N i)))}"
      using hit Some by (metis (no_types, lifting) option.inject)
    then have "sbind (getExisting (\<lambda>e. GetNode view_ops e h) V (map (be64_at (length ?pre)) ?keys) []) (\<lambda>e out. (e, Inr (sort_key n_ID out)))
        = (V, Inr (filter ?Q (all_nodes V N)))"
      unfolding all_nodes_def
      by (intro index_query [where f = "\<lambda>i. node_view V i (the (N i))"]) (use ids in \<open>auto simp: graph_GetNode [OF g] simp del: node_view_simps(2)\<close>)
    then show ?thesis using Some by (simp add: NodesByPropEq_def lk scanPrefix_view [OF f] Let_def)
  qed
qed

lemma type_in_view:
  assumes "graph_at V N E" "E i = Some d"
  shows "e_Label (edge_view V i d) = l \<longleftrightarrow> name_id V catEdgeType l = Some (de_TypeID d)"
  using edge_label [OF assms] names_okD(4) [OF tablesD(3) [OF base_tables [OF graph_atD(1) [OF assms(1)]]], of l "de_TypeID d"] by auto

lemma EdgesByLabel_view:
  assumes g: "graph_at V N E"
  shows "EdgesByLabel view_ops V h l = (V, Inr (filter (\<lambda>ed. e_Label ed = l) (all_edges V E)))"
proof -
  have f: "fin_view V" using graph_atD(1) [OF g] by (simp add: base_def)
  note lk = lookupName_view [OF tablesD(3) [OF base_tables [OF graph_atD(1) [OF g]]]]
  have lab: "e_Label (edge_view V i (the (E i))) = l \<longleftrightarrow> name_id V catEdgeType l = Some (de_TypeID (the (E i)))" if "i \<in> dom E" for i
    using that type_in_view [OF g, of i "the (E i)" l] by fastforce
  show ?thesis
  proof (cases "name_id V catEdgeType l")
    case None
    then have "filter (\<lambda>ed. e_Label ed = l) (all_edges V E) = []" using lab by (auto simp: all_edges_def filter_empty_conv)
    then show ?thesis using None by (simp add: EdgesByLabel_def lk)
  next
    case (Some j)
    let ?keys = "scan_view V KSEdgeType (Some (be_put 4 (unat j)))" and ?S = "{i \<in> dom E. de_TypeID (the (E i)) = j}"
    have pre: "hasPrefix (typeKey j' i) (be_put 4 (unat j)) \<longleftrightarrow> j' = j" for j' i by (simp add: hasPrefix_def typeKey_def)
    have "k \<in> set ?keys \<longleftrightarrow> (\<exists>i\<in>?S. k = typeKey j i)" for k
      using graph_atD(3) [OF g] pre by (auto simp: set_scan_view [OF f] edges_part_def type_index_def)
    then have keys: "set ?keys = typeKey j ` ?S" by blast
    then have len: "filter (\<lambda>k. length k = 12) ?keys = ?keys" by (auto intro!: filter_True)
    note ids = index_ids [OF distinct_scan_view keys, of "be64_at 4"]
    have "?S = {i \<in> dom E. e_Label (edge_view V i (the (E i))) = l}" using lab Some by auto
    then have "sbind (getExisting (\<lambda>e. GetEdge view_ops e h) V (map (be64_at 4) ?keys) []) (\<lambda>e out. (e, Inr (sort_key e_ID out)))
        = (V, Inr (filter (\<lambda>ed. e_Label ed = l) (all_edges V E)))"
      unfolding all_edges_def
      by (intro index_query [where f = "\<lambda>i. edge_view V i (the (E i))"]) (use ids in \<open>auto simp: GetEdge_view [OF g]\<close>)
    then show ?thesis using Some len by (simp add: EdgesByLabel_def lk scanPrefix_view [OF f])
  qed
qed

lemma EdgesBetween_view:
  assumes g: "graph_at V N E"
  shows "EdgesBetween view_ops V h a b = (V,
    if N a = None then Inl (GraphNotFound ''node'' a) else if N b = None then Inl (GraphNotFound ''node'' b)
    else Inr (filter (\<lambda>ed. e_From ed = a \<and> e_To ed = b) (all_edges V E)))"
proof -
  have f: "fin_view V" using graph_atD(1) [OF g] by (simp add: base_def)
  define pick where "pick = (\<lambda>k. case parseAdj k of None \<Rightarrow> None | Some (x, t, dest, eid) \<Rightarrow> if dest \<noteq> b then None else Some eid)"
  define kf where "kf i = outKey a (de_TypeID (the (E i))) b i" for i
  define S where "S = {i \<in> dom E. de_From (the (E i)) = a \<and> de_To (the (E i)) = b}"
  have p: "pick (outKey x t y j) = (if y \<noteq> b then None else Some j)" for x t y j by (simp add: pick_def)
  let ?scan = "scan_view V KSOut (Some (idKey a))"
  let ?keys = "filter (\<lambda>k. pick k \<noteq> None) ?scan"
  have scan: "k \<in> set ?scan \<longleftrightarrow> (\<exists>i d. E i = Some d \<and> de_From d = a \<and> k = outKey a (de_TypeID d) (de_To d) i)" for k
    using graph_atD(3) [OF g] by (auto simp: set_scan_view [OF f] edges_part_def out_index_def)
  have "k \<in> set ?keys \<longleftrightarrow> (\<exists>i\<in>S. k = kf i)" for k
    unfolding set_filter mem_Collect_eq scan by (auto simp: S_def kf_def p split: if_splits)
  then have keys: "set ?keys = kf ` S" by blast
  have "(the \<circ> pick) (kf i) = i" for i by (simp add: kf_def p)
  note ids = index_ids [of ?keys kf S "the \<circ> pick", OF _ keys this]
  have "sbind (getExisting (\<lambda>e. GetEdge view_ops e h) V (map (the \<circ> pick) ?keys) []) (\<lambda>e out. (e, Inr (sort_key e_ID out)))
      = (V, Inr (filter (\<lambda>ed. e_From ed = a \<and> e_To ed = b) (all_edges V E)))"
    unfolding all_edges_def
  proof (rule index_query [where f = "\<lambda>i. edge_view V i (the (E i))"])
    show "distinct (map (the \<circ> pick) ?keys)" by (rule ids(1)) simp
    have "set (map (the \<circ> pick) ?keys) = S" by (rule ids(2)) simp
    then show "set (map (the \<circ> pick) ?keys) = {i \<in> dom E. e_From (edge_view V i (the (E i))) = a \<and> e_To (edge_view V i (the (E i))) = b}"
      by (simp add: S_def)
  qed (auto simp: GetEdge_view [OF g])
  then show ?thesis by (simp add: EdgesBetween_def needNode_view [OF g] scanPrefix_view [OF f] pick_def [symmetric] List.map_filter_def comp_def)
qed

end
