(* ===== verification/GraphSearch.thy ===== *)
theory GraphSearch
  imports GraphQuery
begin

text \<open>
  Breadth-first search on a consistent store. The invariant of the search gives every node seen its distance
  from the start; \<open>Neighbors\<close> returns the nodes within the depth, each once, with their distance, and
  \<open>ShortestPath\<close> a path of least length.
\<close>

section \<open>The search\<close>

definition search :: "(uint64 \<times> uint64) set \<Rightarrow> uint64 \<Rightarrow> uint64 set \<Rightarrow> uint64 list \<Rightarrow> (uint64 \<Rightarrow> nat) \<Rightarrow> bool" where
  "search R src seen queue dep \<longleftrightarrow> src \<in> seen \<and> dep src = 0 \<and> set queue \<subseteq> seen \<and> (\<forall>v\<in>seen. (src, v) \<in> R ^^ dep v)
     \<and> (\<forall>v\<in>seen - set queue. \<forall>w. (v, w) \<in> R \<longrightarrow> w \<in> seen \<and> dep w \<le> dep v + 1)
     \<and> sorted (map dep queue) \<and> (queue \<noteq> [] \<longrightarrow> (\<forall>v\<in>seen. dep v \<le> dep (hd queue) + 1))"

lemma searchD:
  assumes "search R src seen queue dep"
  shows "src \<in> seen" "dep src = 0" "set queue \<subseteq> seen" "v \<in> seen \<Longrightarrow> (src, v) \<in> R ^^ dep v"
    "v \<in> seen \<Longrightarrow> v \<notin> set queue \<Longrightarrow> (v, w) \<in> R \<Longrightarrow> w \<in> seen \<and> dep w \<le> dep v + 1"
    "sorted (map dep queue)" "queue \<noteq> [] \<Longrightarrow> v \<in> seen \<Longrightarrow> dep v \<le> dep (hd queue) + 1"
  using assms unfolding search_def by blast+

lemma search_start: "search R src {src} [src] (\<lambda>_. 0)"
  by (simp add: search_def)

text \<open>Every node nearer than the head of the queue has been seen, at its distance.\<close>

lemma search_short:
  assumes s: "search R src seen queue dep" and q: "queue \<noteq> [] \<Longrightarrow> n \<le> dep (hd queue)"
  shows "(src, w) \<in> R ^^ n \<Longrightarrow> w \<in> seen \<and> dep w \<le> n"
  using q
proof (induction n arbitrary: w)
  case 0
  then show ?case using searchD(1,2) [OF s] by simp
next
  case (Suc n)
  then obtain u where u: "(src, u) \<in> R ^^ n" "(u, w) \<in> R" by auto
  have "queue \<noteq> [] \<Longrightarrow> n \<le> dep (hd queue)" using Suc.prems(2) by fastforce
  then have IH: "u \<in> seen" "dep u \<le> n" using Suc.IH [OF u(1)] by auto
  have "u \<notin> set queue"
  proof
    assume "u \<in> set queue"
    then have "queue \<noteq> []" "dep (hd queue) \<le> dep u" using searchD(6) [OF s] by (cases queue, auto)+
    then show False using IH(2) Suc.prems(2) by auto
  qed
  then show ?case using searchD(5) [OF s IH(1) _ u(2)] IH(2) by auto
qed

lemma search_least:
  assumes s: "search R src seen queue dep" and v: "v \<in> seen" and m: "(src, v) \<in> R ^^ m"
  shows "dep v \<le> m"
proof (cases "queue \<noteq> [] \<longrightarrow> m \<le> dep (hd queue)")
  case True
  then show ?thesis using search_short [OF s _ m] by auto
next
  case False
  then show ?thesis using searchD(7) [OF s _ v] by auto
qed

lemma sorted_extend:
  assumes "sorted (map dep xs)" "\<forall>x\<in>set xs. dep x \<le> n" "set xs \<inter> set new = {}"
  shows "sorted (map (\<lambda>v. if v \<in> set new then n else dep v) (xs @ new))"
proof -
  have "map (\<lambda>v. if v \<in> set new then n else dep v) xs = map dep xs" using assms(3) by auto
  moreover have "map (\<lambda>v. if v \<in> set new then n else dep v) new = replicate (length new) n" by (simp add: map_replicate_const [symmetric])
  moreover have "sorted (map dep xs @ replicate (length new) n)" using assms(1,2) by (auto simp: sorted_append)
  ultimately show ?thesis by (simp only: map_append)
qed

lemma search_step:
  assumes s: "search R src seen (cur # queue) dep" and n: "set new = R `` {cur} - seen"
  shows "search R src (seen \<union> set new) (queue @ new) (\<lambda>v. if v \<in> set new then dep cur + 1 else dep v)" (is "search _ _ ?seen ?queue ?dep")
proof -
  note d = searchD [OF s]
  have cur: "cur \<in> seen" using d(3) by simp
  have old: "v \<in> seen \<Longrightarrow> v \<notin> set new" for v using n by auto
  have le: "?dep v \<le> dep cur + 1" if "v \<in> ?seen" for v using that d(7) old by auto
  have "sorted (map ?dep ?queue)" using d(3,6,7) old by (intro sorted_extend) (auto simp: subset_eq)
  moreover have "w \<in> ?seen \<and> ?dep w \<le> ?dep v + 1" if v: "v \<in> ?seen - set ?queue" and w: "(v, w) \<in> R" for v w
  proof (cases "v = cur")
    case True
    then have "w \<in> ?seen" using w n by auto
    then show ?thesis using le [of w] True old [OF cur] by simp
  next
    case False
    then have "v \<in> seen" "v \<notin> set (cur # queue)" using v by auto
    then show ?thesis using d(5) [OF _ _ w] old by auto
  qed
  moreover have "?dep v \<le> ?dep (hd ?queue) + 1" if "?queue \<noteq> []" "v \<in> ?seen" for v
  proof -
    have "dep cur \<le> ?dep (hd ?queue)"
      using d(3,6) old that(1) by (cases queue) (auto simp: neq_Nil_conv)
    then show ?thesis using le [OF that(2)] by linarith
  qed
  moreover have "(src, v) \<in> R ^^ ?dep v" if "v \<in> ?seen" for v
    using that n d(4) [OF cur] d(4) [of v] by auto
  moreover have "src \<in> ?seen" "?dep src = 0" "set ?queue \<subseteq> ?seen" using d(1-3) old by auto
  ultimately show ?thesis unfolding search_def by blast
qed

section \<open>The store as a relation\<close>

definition steps :: "(uint64 \<Rightarrow> decodedEdge option) \<Rightarrow> (uint64 \<times> uint64) set" where
  "steps E = {(a, b). \<exists>i d. E i = Some d \<and> de_From d = a \<and> de_To d = b}"

lemma outgoing_view:
  assumes g: "graph_at V N E"
  shows "\<exists>tos. outgoing view_ops V h i = (V, Inr tos) \<and> set tos = steps E `` {i}"
proof -
  have f: "fin_view V" using graph_atD(1) [OF g] by (simp add: base_def)
  define pick where "pick = (\<lambda>k. case parseAdj k of None \<Rightarrow> None | Some (a, t, to, eid) \<Rightarrow> Some to)"
  have p: "pick (outKey x t y j) = Some y" for x t y j by (simp add: pick_def)
  let ?scan = "scan_view V KSOut (Some (idKey i))"
  have scan: "k \<in> set ?scan \<longleftrightarrow> (\<exists>j d. E j = Some d \<and> de_From d = i \<and> k = outKey i (de_TypeID d) (de_To d) j)" for k
    using graph_atD(3) [OF g] by (auto simp: set_scan_view [OF f] edges_part_def out_index_def)
  have "set (List.map_filter pick ?scan) = steps E `` {i}"
  proof (rule set_eqI)
    fix y
    have "y \<in> set (List.map_filter pick ?scan) \<longleftrightarrow> (\<exists>k j d. E j = Some d \<and> de_From d = i \<and> k = outKey i (de_TypeID d) (de_To d) j \<and> pick k = Some y)"
      unfolding set_map_filter mem_Collect_eq scan by blast
    also have "\<dots> \<longleftrightarrow> (\<exists>j d. E j = Some d \<and> de_From d = i \<and> de_To d = y)" by (simp add: p)
    finally show "y \<in> set (List.map_filter pick ?scan) \<longleftrightarrow> y \<in> steps E `` {i}" by (simp add: steps_def)
  qed
  then show ?thesis by (auto simp: outgoing_def scanPrefix_view [OF f] pick_def)
qed

lemma steps_nodes:
  assumes "graph_at V N E" "(a, b) \<in> steps E"
  shows "N a \<noteq> None" "N b \<noteq> None"
  using assms graph_atD(8) [OF assms(1)] by (fastforce simp: steps_def edge_ok_def)+

section \<open>Neighbours\<close>

definition nb :: "kvview \<Rightarrow> (uint64 \<Rightarrow> node_rec option) \<Rightarrow> (uint64 \<Rightarrow> nat) \<Rightarrow> uint64 \<Rightarrow> Neighbor" where
  "nb V N dep v = \<lparr>nb_Node = node_view V v (the (N v)), nb_Depth = int (dep v)\<rparr>"

lemma visit_view:
  assumes g: "graph_at V N E"
  shows "\<forall>t\<in>set tos. N t \<noteq> None \<Longrightarrow> visit view_ops V h d tos (seen, queue, out)
    = (V, Inr (rev (dedup seen tos) @ seen, queue @ map (\<lambda>t. (t, d + 1)) (dedup seen tos),
        out @ map (\<lambda>t. \<lparr>nb_Node = node_view V t (the (N t)), nb_Depth = d + 1\<rparr>) (dedup seen tos)))"
  by (induction tos arbitrary: seen queue out) (auto simp: graph_GetNode [OF g])

text \<open>What the loop of \<open>Neighbors\<close> keeps: the nodes put out are the ones seen, in the order of their distance.\<close>

definition bfs_inv :: "kvview \<Rightarrow> (uint64 \<Rightarrow> node_rec option) \<Rightarrow> (uint64 \<times> uint64) set \<Rightarrow> uint64 \<Rightarrow> int \<Rightarrow> uint64 list \<Rightarrow> uint64 list \<Rightarrow> (uint64 \<Rightarrow> nat) \<Rightarrow> bfs_state \<Rightarrow> bool" where
  "bfs_inv V N R src depth queue vs dep st \<longleftrightarrow> (case st of (seen, q, out) \<Rightarrow> search R src (set seen) queue dep \<and> q = map (\<lambda>v. (v, int (dep v))) queue
     \<and> out = map (nb V N dep) vs \<and> distinct vs \<and> set vs = set seen - {src} \<and> sorted (map dep vs) \<and> (\<forall>v\<in>set seen. int (dep v) \<le> depth))"

lemma bfs_inv_step:
  assumes i: "bfs_inv V N R src depth (cur # queue) vs dep (seen, (cur, d) # q, out)" and d: "\<not> depth \<le> d" and t: "set tos = R `` {cur}"
  shows "bfs_inv V N R src depth (queue @ dedup seen tos) (vs @ dedup seen tos) (\<lambda>v. if v \<in> set (dedup seen tos) then dep cur + 1 else dep v)
    (rev (dedup seen tos) @ seen, q @ map (\<lambda>t. (t, d + 1)) (dedup seen tos),
      out @ map (\<lambda>t. \<lparr>nb_Node = node_view V t (the (N t)), nb_Depth = d + 1\<rparr>) (dedup seen tos))"
proof -
  let ?new = "dedup seen tos"
  let ?dep = "\<lambda>v. if v \<in> set ?new then dep cur + 1 else dep v"
  have s: "search R src (set seen) (cur # queue) dep" and q: "q = map (\<lambda>v. (v, int (dep v))) queue" and dc: "d = int (dep cur)"
    and o: "out = map (nb V N dep) vs" and vs: "distinct vs" "set vs = set seen - {src}" "sorted (map dep vs)" and le: "\<forall>v\<in>set seen. int (dep v) \<le> depth"
    using i by (auto simp: bfs_inv_def)
  have new: "set ?new = R `` {cur} - set seen" "distinct ?new" using dedup_props(1,2) [of seen tos] t by auto
  have old: "v \<in> set seen \<Longrightarrow> v \<notin> set ?new" for v using new(1) by auto
  have s': "search R src (set (rev ?new @ seen)) (queue @ ?new) ?dep" using search_step [OF s new(1)] by (simp add: Un_commute)
  have qs: "set queue \<subseteq> set seen" "src \<in> set seen" using searchD(1,3) [OF s] by auto
  have so: "sorted (map ?dep (vs @ ?new))" using vs(2,3) searchD(7) [OF s] old by (intro sorted_extend) auto
  have m: "map (nb V N dep) vs = map (nb V N ?dep) vs" "map (\<lambda>v. (v, int (dep v))) queue = map (\<lambda>v. (v, int (?dep v))) queue"
    using vs(2) qs old by (auto simp: nb_def)
  have n: "map (\<lambda>t. (t, d + 1)) ?new = map (\<lambda>v. (v, int (?dep v))) ?new"
    "map (\<lambda>t. \<lparr>nb_Node = node_view V t (the (N t)), nb_Depth = d + 1\<rparr>) ?new = map (nb V N ?dep) ?new"
    using dc by (auto simp: nb_def)
  have "set (vs @ ?new) = set (rev ?new @ seen) - {src}" "distinct (vs @ ?new)" using vs new qs by auto
  moreover have "\<forall>v\<in>set (rev ?new @ seen). int (?dep v) \<le> depth" using le d dc by auto
  ultimately show ?thesis unfolding bfs_inv_def using s' so q o m n by simp
qed

text \<open>The answer: the nodes at a distance from 1 to the depth, each once, by distance.\<close>

definition within :: "(uint64 \<times> uint64) set \<Rightarrow> uint64 \<Rightarrow> int \<Rightarrow> uint64 list \<Rightarrow> (uint64 \<Rightarrow> nat) \<Rightarrow> bool" where
  "within R src depth vs dep \<longleftrightarrow> distinct vs \<and> sorted (map dep vs) \<and> set vs = {v. v \<noteq> src \<and> (\<exists>m. int m \<le> depth \<and> (src, v) \<in> R ^^ m)}
     \<and> (\<forall>v\<in>set vs. (src, v) \<in> R ^^ dep v \<and> (\<forall>m. (src, v) \<in> R ^^ m \<longrightarrow> dep v \<le> m))"

lemma bfs_inv_within:
  assumes i: "bfs_inv V N R src depth queue vs dep (seen, q, out)" and e: "queue \<noteq> [] \<Longrightarrow> depth \<le> int (dep (hd queue))"
  shows "within R src depth vs dep" "out = map (nb V N dep) vs"
proof -
  have s: "search R src (set seen) queue dep" and vs: "distinct vs" "set vs = set seen - {src}" "sorted (map dep vs)"
    and le: "\<forall>v\<in>set seen. int (dep v) \<le> depth"
    using i by (auto simp: bfs_inv_def)
  show "out = map (nb V N dep) vs" using i by (simp add: bfs_inv_def)
  have "v \<in> set seen" if "(src, v) \<in> R ^^ m" "int m \<le> depth" for v m
    using search_short [OF s _ that(1)] e that(2) by force
  then have "set vs = {v. v \<noteq> src \<and> (\<exists>m. int m \<le> depth \<and> (src, v) \<in> R ^^ m)}"
    unfolding vs(2) using le searchD(4) [OF s] by blast
  then show "within R src depth vs dep" unfolding within_def using vs searchD(4) [OF s] search_least [OF s] by blast
qed

lemma neighbors_loop_drain:
  "\<forall>x\<in>set q. depth \<le> snd x \<Longrightarrow> neighbors_loop ops e h depth (seen, q, out) = (e, Inr out)"
  by (induction q) auto

lemma neighbors_loop_view:
  assumes g: "graph_at V N E"
  shows "bfs_inv V N (steps E) src depth queue vs dep (seen, q, out) \<Longrightarrow>
    \<exists>vs dep. neighbors_loop view_ops V h depth (seen, q, out) = (V, Inr (map (nb V N dep) vs)) \<and> within (steps E) src depth vs dep"
proof (induction "2 * unseen seen + length q" arbitrary: seen q out queue vs dep rule: less_induct)
  case less
  note i = less.prems
  have q: "q = map (\<lambda>v. (v, int (dep v))) queue" and s: "search (steps E) src (set seen) queue dep" using i by (auto simp: bfs_inv_def)
  show ?case
  proof (cases "queue = [] \<or> depth \<le> int (dep (hd queue))")
    case True
    then have e: "queue \<noteq> [] \<Longrightarrow> depth \<le> int (dep (hd queue))" by blast
    have "\<forall>x\<in>set q. depth \<le> snd x"
      using e searchD(6) [OF s] unfolding q by (cases queue) auto
    then show ?thesis using bfs_inv_within [OF i e] neighbors_loop_drain by metis
  next
    case False
    then obtain cur rest where c: "queue = cur # rest" "\<not> depth \<le> int (dep cur)" by (cases queue) auto
    obtain tos where t: "outgoing view_ops V h cur = (V, Inr tos)" "set tos = steps E `` {cur}" using outgoing_view [OF g] by blast
    have nodes: "\<forall>t\<in>set tos. N t \<noteq> None" using t(2) steps_nodes(2) [OF g] by auto
    let ?q = "map (\<lambda>v. (v, int (dep v))) rest" and ?new = "dedup seen tos"
    note v = visit_view [OF g nodes, of h "int (dep cur)" seen ?q out]
    have q': "q = (cur, int (dep cur)) # ?q" using q c by simp
    have "2 * unseen (rev ?new @ seen) + length (?q @ map (\<lambda>t. (t, int (dep cur) + 1)) ?new) < 2 * unseen seen + length q"
      using unseen_decreases [OF visit_measure [OF v]] unfolding q' by simp
    note IH = less.hyps [OF this bfs_inv_step [OF i [unfolded c(1) q'] c(2) t(2)]]
    show ?thesis using IH t(1) v c(2) unfolding q' by simp
  qed
qed

lemma Neighbors_view:
  assumes g: "graph_at V N E"
  shows "depth < 1 \<Longrightarrow> Neighbors view_ops V h i depth = (V, Inl badDepth)"
    "1 \<le> depth \<Longrightarrow> N i = None \<Longrightarrow> Neighbors view_ops V h i depth = (V, Inl (GraphNotFound ''node'' i))"
    "1 \<le> depth \<Longrightarrow> N i \<noteq> None \<Longrightarrow>
      \<exists>vs dep. Neighbors view_ops V h i depth = (V, Inr (map (nb V N dep) vs)) \<and> within (steps E) i depth vs dep"
proof -
  show "depth < 1 \<Longrightarrow> Neighbors view_ops V h i depth = (V, Inl badDepth)"
    "1 \<le> depth \<Longrightarrow> N i = None \<Longrightarrow> Neighbors view_ops V h i depth = (V, Inl (GraphNotFound ''node'' i))"
    by (simp_all add: Neighbors_def graph_GetNode [OF g])
  assume a: "1 \<le> depth" "N i \<noteq> None"
  have b: "bfs_inv V N (steps E) i depth [i] [] (\<lambda>_. 0) ([i], [(i, 0)], [])" using a by (simp add: bfs_inv_def search_start)
  have "Neighbors view_ops V h i depth = neighbors_loop view_ops V h depth ([i], [(i, 0)], [])"
    using a by (auto simp: Neighbors_def graph_GetNode [OF g] simp del: neighbors_loop.simps)
  then show "\<exists>vs dep. Neighbors view_ops V h i depth = (V, Inr (map (nb V N dep) vs)) \<and> within (steps E) i depth vs dep"
    using neighbors_loop_view [OF g b, of h] by simp
qed

section \<open>Shortest paths\<close>

definition parents :: "(uint64 \<times> uint64) set \<Rightarrow> uint64 \<Rightarrow> uint64 set \<Rightarrow> (uint64, uint64) gomap \<Rightarrow> (uint64 \<Rightarrow> nat) \<Rightarrow> bool" where
  "parents R src seen parent dep \<longleftrightarrow> distinct (map fst parent) \<and> fst ` set parent = seen - {src}
     \<and> (\<forall>(v, u)\<in>set parent. u \<in> seen \<and> (u, v) \<in> R \<and> dep v = dep u + 1) \<and> (\<forall>v\<in>seen. dep v \<le> length parent)"

lemma parents_start: "parents R src {src} [] (\<lambda>_. 0)"
  by (simp add: parents_def)

lemma parents_add:
  assumes p: "parents R src seen parent dep" and n: "distinct new" "set new \<inter> seen = {}" "set new \<subseteq> R `` {cur}" and c: "cur \<in> seen" "src \<in> seen"
  shows "parents R src (seen \<union> set new) (parent @ map (\<lambda>t. (t, cur)) new) (\<lambda>v. if v \<in> set new then dep cur + 1 else dep v)"
proof -
  have keys: "fst ` set parent = seen - {src}" "distinct (map fst parent)" using p by (auto simp: parents_def)
  have len: "dep cur \<le> length parent" "\<forall>v\<in>seen. dep v \<le> length parent" using p c by (auto simp: parents_def)
  have old: "u \<in> seen" "(u, v) \<in> R" "dep v = dep u + 1" "v \<in> seen" if "(v, u) \<in> set parent" for u v
  proof -
    have "v \<in> fst ` set parent" using that by force
    then show "v \<in> seen" using keys by blast
  qed (use that p in \<open>auto simp: parents_def\<close>)
  have ne: "v \<in> seen \<Longrightarrow> v \<notin> set new" for v using n(2) by auto
  have "distinct (map fst (parent @ map (\<lambda>t. (t, cur)) new))" using keys n by (auto simp: comp_def)
  moreover have "fst ` set (parent @ map (\<lambda>t. (t, cur)) new) = (seen \<union> set new) - {src}"
    using keys(1) ne [OF c(2)] by (auto simp: image_Un image_image)
  moreover have "\<forall>v\<in>seen \<union> set new. (if v \<in> set new then dep cur + 1 else dep v) \<le> length (parent @ map (\<lambda>t. (t, cur)) new)"
    using len by (cases new) (auto simp: trans_le_add1)
  moreover have "\<forall>(v, u)\<in>set (parent @ map (\<lambda>t. (t, cur)) new). u \<in> seen \<union> set new \<and> (u, v) \<in> R
      \<and> (if v \<in> set new then dep cur + 1 else dep v) = (if u \<in> set new then dep cur + 1 else dep u) + 1"
    using old ne c n(3) by auto
  ultimately show ?thesis unfolding parents_def by blast
qed

lemma pathBack_view:
  assumes p: "parents R src seen parent dep"
  shows "v \<in> seen \<Longrightarrow> dep src = 0 \<Longrightarrow> dep v < n \<Longrightarrow>
    \<exists>rest. pathBack parent src n v ids = Some (ids @ rest) \<and> rest \<noteq> [] \<and> hd rest = v \<and> last rest = src \<and> length rest = dep v + 1
      \<and> successively (\<lambda>a b. (b, a) \<in> R) rest"
proof (induction n arbitrary: v ids)
  case (Suc n)
  show ?case
  proof (cases "v = src")
    case True
    then show ?thesis using Suc.prems by (intro exI [of _ "[src]"]) simp
  next
    case False
    have "v \<in> fst ` set parent" using p Suc.prems(1) False by (simp add: parents_def)
    then obtain u where u: "(v, u) \<in> set parent" by force
    have "map_of parent v = Some u" using u p by (simp add: parents_def)
    moreover have d: "u \<in> seen" "(u, v) \<in> R" "dep v = dep u + 1" using u p by (auto simp: parents_def)
    moreover obtain rest where "pathBack parent src n u (ids @ [v]) = Some ((ids @ [v]) @ rest)" "rest \<noteq> []" "hd rest = u" "last rest = src"
        "length rest = dep u + 1" "successively (\<lambda>a b. (b, a) \<in> R) rest"
      using Suc.IH [OF d(1) Suc.prems(2), of "ids @ [v]"] Suc.prems(3) d(3) by auto
    ultimately show ?thesis using False by (intro exI [of _ "v # rest"]) (auto simp: successively_Cons)
  qed
qed simp

lemma expand_view:
  "fst ` set parent \<subseteq> set seen \<Longrightarrow> expand dst cur tos (seen, parent, queue) =
    (if dst \<in> set (dedup seen tos) then Inl (parent @ map (\<lambda>t. (t, cur)) (takeWhile (\<lambda>t. t \<noteq> dst) (dedup seen tos) @ [dst]))
     else Inr (rev (dedup seen tos) @ seen, parent @ map (\<lambda>t. (t, cur)) (dedup seen tos), queue @ dedup seen tos))"
proof (induction tos arbitrary: seen parent queue)
  case (Cons t tos)
  show ?case
  proof (cases "t \<in> set seen")
    case True
    then show ?thesis using Cons by simp
  next
    case False
    then have "AList.update t cur parent = parent @ [(t, cur)]" using Cons.prems by (intro AList_update_new) auto
    moreover have "fst ` set (parent @ [(t, cur)]) \<subseteq> set (t # seen)" using Cons.prems by auto
    ultimately show ?thesis using False Cons.IH [of "parent @ [(t, cur)]" "t # seen" "queue @ [t]"] by (simp add: Let_def)
  qed
qed simp

text \<open>What the search for \<open>dst\<close> finds: the parents along a path of least length, or nothing when there is no path.\<close>

definition found :: "(uint64 \<times> uint64) set \<Rightarrow> uint64 \<Rightarrow> uint64 \<Rightarrow> (uint64, uint64) gomap option \<Rightarrow> bool" where
  "found R src dst r \<longleftrightarrow> (case r of None \<Rightarrow> \<forall>m. (src, dst) \<notin> R ^^ m
     | Some parent \<Rightarrow> \<exists>seen dep. parents R src seen parent dep \<and> dst \<in> seen \<and> dep src = 0 \<and> (\<forall>m. (src, dst) \<in> R ^^ m \<longrightarrow> dep dst \<le> m))"

lemma sp_loop_view:
  assumes g: "graph_at V N E"
  shows "search (steps E) src (set seen) queue dep \<Longrightarrow> parents (steps E) src (set seen) parent dep \<Longrightarrow> dst \<notin> set seen \<Longrightarrow>
    \<exists>r. sp_loop view_ops V h dst (seen, parent, queue) = (V, Inr r) \<and> found (steps E) src dst r"
proof (induction "2 * unseen seen + length queue" arbitrary: seen parent queue dep rule: less_induct)
  case less
  note s = less.prems(1) and p = less.prems(2) and d = less.prems(3)
  show ?case
  proof (cases queue)
    case Nil
    have "found (steps E) src dst None" using search_short [OF s] d Nil by (auto simp: found_def)
    then show ?thesis using Nil by simp
  next
    case (Cons cur q)
    obtain tos where t: "outgoing view_ops V h cur = (V, Inr tos)" "set tos = steps E `` {cur}" using outgoing_view [OF g] by blast
    let ?new = "dedup seen tos"
    have new: "set ?new = steps E `` {cur} - set seen" "distinct ?new" using dedup_props(1,2) [of seen tos] t by auto
    have in_seen: "cur \<in> set seen" "src \<in> set seen" using searchD(1,3) [OF s] Cons by auto
    have keys: "fst ` set parent \<subseteq> set seen" using p by (auto simp: parents_def)
    note ex = expand_view [OF keys, of dst cur tos q]
    show ?thesis
    proof (cases "dst \<in> set ?new")
      case True
      let ?up = "takeWhile (\<lambda>t. t \<noteq> dst) ?new @ [dst]"
      let ?dep = "\<lambda>v. if v \<in> set ?up then dep cur + 1 else dep v"
      have sub: "set ?up \<subseteq> set ?new" using True by (auto dest: set_takeWhileD)
      have "distinct ?up" using new(2) by (auto dest: set_takeWhileD simp: distinct_takeWhile)
      then have "parents (steps E) src (set seen \<union> set ?up) (parent @ map (\<lambda>t. (t, cur)) ?up) ?dep"
        using sub new(1) in_seen by (intro parents_add [OF p]) auto
      moreover have "?dep dst \<le> m" if "(src, dst) \<in> steps E ^^ m" for m
        using search_short [OF s _ that] d Cons by (force simp: not_le)
      moreover have "?dep src = 0" using in_seen(2) new(1) sub searchD(2) [OF s] by auto
      ultimately have "found (steps E) src dst (Some (parent @ map (\<lambda>t. (t, cur)) ?up))"
        unfolding found_def option.case by (intro exI [of _ "set seen \<union> set ?up"] exI [of _ ?dep]) auto
      then show ?thesis using Cons t(1) ex True by simp
    next
      case False
      have "2 * unseen (rev ?new @ seen) + length (q @ ?new) < 2 * unseen seen + length queue"
        using unseen_decreases [OF expand_measure [of dst cur tos seen parent q]] ex False Cons by simp
      moreover have "search (steps E) src (set (rev ?new @ seen)) (q @ ?new) (\<lambda>v. if v \<in> set ?new then dep cur + 1 else dep v)"
        using search_step [OF s [unfolded Cons] new(1)] by (simp add: Un_commute)
      moreover have "parents (steps E) src (set (rev ?new @ seen)) (parent @ map (\<lambda>t. (t, cur)) ?new) (\<lambda>v. if v \<in> set ?new then dep cur + 1 else dep v)"
        using parents_add [OF p new(2) _ _ in_seen] new(1) by (simp add: Un_commute Int_commute Diff_Int_distrib2)
      moreover have "dst \<notin> set (rev ?new @ seen)" using False d by simp
      ultimately show ?thesis using less.hyps Cons t(1) ex False by simp
    qed
  qed
qed

lemma pathNodes_view:
  assumes g: "graph_at V N E"
  shows "\<forall>i\<in>set ids. N i \<noteq> None \<Longrightarrow> pathNodes view_ops V h src (node_view V src (the (N src))) ids path
    = (V, Inr (path @ map (\<lambda>i. node_view V i (the (N i))) ids))"
  by (induction ids arbitrary: path) (auto simp: graph_GetNode [OF g])

text \<open>A list of ids along edges, from one node to another, no longer than any other.\<close>

definition shortest :: "(uint64 \<times> uint64) set \<Rightarrow> uint64 \<Rightarrow> uint64 \<Rightarrow> uint64 list \<Rightarrow> bool" where
  "shortest R src dst ids \<longleftrightarrow> ids \<noteq> [] \<and> hd ids = src \<and> last ids = dst \<and> successively (\<lambda>a b. (a, b) \<in> R) ids
     \<and> (\<forall>m. (src, dst) \<in> R ^^ m \<longrightarrow> length ids \<le> m + 1)"

lemma found_shortest:
  assumes "found R src dst (Some parent)"
  shows "\<exists>ids. pathBack parent src (length parent + 1) dst [] = Some (rev ids) \<and> shortest R src dst ids"
proof -
  obtain seen dep where f: "parents R src seen parent dep" "dst \<in> seen" "dep src = 0" "\<forall>m. (src, dst) \<in> R ^^ m \<longrightarrow> dep dst \<le> m"
    using assms by (auto simp: found_def)
  have "dep dst < length parent + 1" using f(1,2) by (auto simp: parents_def le_imp_less_Suc)
  then obtain ids where i: "pathBack parent src (length parent + 1) dst [] = Some ids" "ids \<noteq> []" "hd ids = dst" "last ids = src"
      "length ids = dep dst + 1" "successively (\<lambda>a b. (b, a) \<in> R) ids"
    using pathBack_view [OF f(1,2,3), of "length parent + 1" "[]"] by auto
  have "shortest R src dst (rev ids)" using i f(4) by (auto simp: shortest_def successively_rev hd_rev last_rev)
  then show ?thesis using i(1) by (intro exI [of _ "rev ids"]) simp
qed

lemma shortest_nodes:
  assumes g: "graph_at V N E" and s: "shortest (steps E) src dst ids" and n: "N src \<noteq> None"
  shows "\<forall>i\<in>set ids. N i \<noteq> None"
proof -
  have "\<forall>i\<in>set xs. N i \<noteq> None" if "successively (\<lambda>a b. (a, b) \<in> steps E) xs" "xs \<noteq> [] \<longrightarrow> N (hd xs) \<noteq> None" for xs
    using that
  proof (induction xs)
    case (Cons x xs)
    note IH = Cons.IH and pr = Cons.prems
    show ?case
    proof (cases xs)
      case Nil
      then show ?thesis using pr by simp
    next
      case (Cons y ys)
      then have "(x, y) \<in> steps E" using pr by simp
      then have "N y \<noteq> None" by (rule steps_nodes(2) [OF g])
      then show ?thesis using IH pr Cons by simp
    qed
  qed simp
  then show ?thesis using s n unfolding shortest_def by blast
qed

lemma ShortestPath_view:
  assumes g: "graph_at V N E"
  shows "N src = None \<Longrightarrow> ShortestPath view_ops V h src dst = (V, Inl (GraphNotFound ''node'' src))"
    "N src \<noteq> None \<Longrightarrow> N dst = None \<Longrightarrow> ShortestPath view_ops V h src dst = (V, Inl (GraphNotFound ''node'' dst))"
    "N src \<noteq> None \<Longrightarrow> N dst \<noteq> None \<Longrightarrow> (src, dst) \<notin> (steps E)\<^sup>* \<Longrightarrow> ShortestPath view_ops V h src dst = (V, Inr [])"
    "N src \<noteq> None \<Longrightarrow> N dst \<noteq> None \<Longrightarrow> (src, dst) \<in> (steps E)\<^sup>* \<Longrightarrow>
      \<exists>ids. ShortestPath view_ops V h src dst = (V, Inr (map (\<lambda>i. node_view V i (the (N i))) ids)) \<and> shortest (steps E) src dst ids"
proof -
  show "N src = None \<Longrightarrow> ShortestPath view_ops V h src dst = (V, Inl (GraphNotFound ''node'' src))"
    "N src \<noteq> None \<Longrightarrow> N dst = None \<Longrightarrow> ShortestPath view_ops V h src dst = (V, Inl (GraphNotFound ''node'' dst))"
    by (auto simp: ShortestPath_def graph_GetNode [OF g] simp del: sp_loop.simps)
  have "\<exists>r. sp_loop view_ops V h dst ([src], [], [src]) = (V, Inr r) \<and> found (steps E) src dst r" if "src \<noteq> dst"
    by (rule sp_loop_view [OF g, where dep = "\<lambda>_. 0"]) (simp_all add: that that [symmetric] search_start parents_start)
  then obtain r where r: "src \<noteq> dst \<Longrightarrow> sp_loop view_ops V h dst ([src], [], [src]) = (V, Inr r) \<and> found (steps E) src dst r" by blast
  assume n: "N src \<noteq> None" "N dst \<noteq> None"
  then obtain a b where ab: "N src = Some a" "N dst = Some b" by auto
  have run: "ShortestPath view_ops V h src dst = (case r of None \<Rightarrow> (V, Inr [])
    | Some parent \<Rightarrow> (case pathBack parent src (length parent + 1) dst [] of None \<Rightarrow> (V, Inl ErrFuel)
      | Some ids \<Rightarrow> pathNodes view_ops V h src (node_view V src (the (N src))) (rev ids) []))" if "src \<noteq> dst"
    using r that ab by (simp add: ShortestPath_def graph_GetNode [OF g] del: sp_loop.simps pathBack.simps split del: option.split cong: option.case_cong)
  show "(src, dst) \<notin> (steps E)\<^sup>* \<Longrightarrow> ShortestPath view_ops V h src dst = (V, Inr [])"
  proof -
    assume u: "(src, dst) \<notin> (steps E)\<^sup>*"
    then have ne: "src \<noteq> dst" by auto
    have "r = None"
    proof (rule ccontr)
      assume "r \<noteq> None"
      then obtain parent where "found (steps E) src dst (Some parent)" using r ne by auto
      then obtain ids where "shortest (steps E) src dst ids" using found_shortest by blast
      then have i: "successively (\<lambda>a b. (a, b) \<in> steps E) ids" "ids \<noteq> []" "hd ids = src" "last ids = dst" by (auto simp: shortest_def)
      have "(hd ids, last ids) \<in> (steps E)\<^sup>*" using i(1,2) by (induction ids rule: induct_list012) (auto intro: converse_rtrancl_into_rtrancl)
      then show False using u i by simp
    qed
    then show ?thesis using run ne by simp
  qed
  show "\<exists>ids. ShortestPath view_ops V h src dst = (V, Inr (map (\<lambda>i. node_view V i (the (N i))) ids)) \<and> shortest (steps E) src dst ids"
    if c: "(src, dst) \<in> (steps E)\<^sup>*"
  proof (cases "src = dst")
    case True
    then show ?thesis using ab by (intro exI [of _ "[src]"]) (simp add: ShortestPath_def graph_GetNode [OF g] shortest_def)
  next
    case False
    obtain m where "(src, dst) \<in> steps E ^^ m" using c by (auto simp: rtrancl_power)
    then obtain parent where p: "r = Some parent" "found (steps E) src dst (Some parent)" using r False by (cases r) (auto simp: found_def)
    obtain ids where i: "pathBack parent src (length parent + 1) dst [] = Some (rev ids)" "shortest (steps E) src dst ids"
      using found_shortest [OF p(2)] by blast
    show ?thesis using run [OF False] p(1) i pathNodes_view [OF g shortest_nodes [OF g i(2) n(1)], of h src "[]"]
      by (intro exI [of _ ids]) (simp del: pathBack.simps)
  qed
qed

end
