(* ===== verification/GraphSchema.thy ===== *)
theory GraphSchema
  imports GraphEdges
begin

text \<open>
  Schema changes. The schema loads exactly when every schema record decodes, and declaring or dropping an
  index or a constraint, storing statistics and taking an index id keep that, and leave nodes, edges and
  names alone.
\<close>

section \<open>When the schema loads\<close>

definition u64_ok :: "kvview \<Rightarrow> byte \<Rightarrow> bool" where
  "u64_ok V kd \<longleftrightarrow> (\<forall>raw. V KSCatalog (catalogKey kd []) = Some raw \<longrightarrow> length raw = 8)"

definition format_ok :: "kvview \<Rightarrow> bool" where
  "format_ok V \<longleftrightarrow> (\<forall>raw. V KSCatalog (catalogKey KindFormat []) = Some raw \<longrightarrow> length raw = 4 \<and> \<not> (word_of_nat (be_get raw) :: uint32) > cat_FormatVersion)"

definition schema_ok :: "kvview \<Rightarrow> bool" where
  "schema_ok V \<longleftrightarrow> format_ok V \<and> u64_ok V KindGeneration
     \<and> (\<forall>k name raw. parseName k KindIndex = Some name \<longrightarrow> V KSCatalog k = Some raw \<longrightarrow> (\<exists>ix. decodeIndex name raw = Inr ix))
     \<and> (\<forall>k name raw. parseName k KindConstraint = Some name \<longrightarrow> V KSCatalog k = Some raw \<longrightarrow> (\<exists>c. decodeConstraint name raw = Inr c))
     \<and> (\<forall>raw. V KSCatalog (catalogKey KindStats []) = Some raw \<longrightarrow> (\<exists>st. decodeStats raw = Inr st))"

lemma listIndexes_loop_ok:
  "\<forall>k\<in>set keys. V KSCatalog k \<noteq> None \<Longrightarrow> (\<exists>ixs. listIndexes_loop view_ops V h keys out = (V, Inr ixs)) \<longleftrightarrow>
   (\<forall>k\<in>set keys. \<forall>name raw. parseName k KindIndex = Some name \<longrightarrow> V KSCatalog k = Some raw \<longrightarrow> (\<exists>ix. decodeIndex name raw = Inr ix))"
proof (induction keys arbitrary: out)
  case (Cons k keys)
  obtain raw where raw: "V KSCatalog k = Some raw" using Cons.prems by auto
  show ?case
  proof (cases "parseName k KindIndex")
    case None
    then show ?thesis using Cons by simp
  next
    case (Some name)
    then show ?thesis using Cons raw by (cases "decodeIndex name raw") (simp_all add: view_get_def)
  qed
qed simp

lemma listConstraints_loop_ok:
  "\<forall>k\<in>set keys. V KSCatalog k \<noteq> None \<Longrightarrow> (\<exists>cs. listConstraints_loop view_ops V h keys out = (V, Inr cs)) \<longleftrightarrow>
   (\<forall>k\<in>set keys. \<forall>name raw. parseName k KindConstraint = Some name \<longrightarrow> V KSCatalog k = Some raw \<longrightarrow> (\<exists>c. decodeConstraint name raw = Inr c))"
proof (induction keys arbitrary: out)
  case (Cons k keys)
  obtain raw where raw: "V KSCatalog k = Some raw" using Cons.prems by auto
  show ?case
  proof (cases "parseName k KindConstraint")
    case None
    then show ?thesis using Cons by simp
  next
    case (Some name)
    then show ?thesis using Cons raw by (cases "decodeConstraint name raw") (simp_all add: view_get_def)
  qed
qed simp

lemma parseName_prefix: "parseName k kd = Some name \<Longrightarrow> hasPrefix k [kd]"
  by (cases k) (auto simp: parseName_def hasPrefix_def split: if_splits)

lemma loops_any_handle:
  "listIndexes_loop view_ops V h keys out = listIndexes_loop view_ops V 0 keys out"
  "listConstraints_loop view_ops V h keys out' = listConstraints_loop view_ops V 0 keys out'"
proof -
  show "listIndexes_loop view_ops V h keys out = listIndexes_loop view_ops V 0 keys out"
    by (induction keys arbitrary: out) (auto simp: view_get_def split: option.splits sum.splits)
  show "listConstraints_loop view_ops V h keys out' = listConstraints_loop view_ops V 0 keys out'"
    by (induction keys arbitrary: out') (auto simp: view_get_def split: option.splits sum.splits)
qed

lemma loops_keep:
  "fst (listIndexes_loop view_ops V h keys out) = V" "fst (listConstraints_loop view_ops V h keys out') = V"
proof -
  show "fst (listIndexes_loop view_ops V h keys out) = V"
    by (induction keys arbitrary: out) (auto simp: view_get_def split: option.splits sum.splits)
  show "fst (listConstraints_loop view_ops V h keys out') = V"
    by (induction keys arbitrary: out') (auto simp: view_get_def split: option.splits sum.splits)
qed

lemma loop_Inr: "(\<exists>xs. listIndexes_loop view_ops V h keys out = (V, Inr xs)) \<longleftrightarrow> (\<exists>W xs. listIndexes_loop view_ops V h keys out = (W, Inr xs))"
    "(\<exists>xs. listConstraints_loop view_ops V h keys out' = (V, Inr xs)) \<longleftrightarrow> (\<exists>W xs. listConstraints_loop view_ops V h keys out' = (W, Inr xs))"
  using loops_keep by (metis fst_conv)+

lemma kind_records:
  assumes "fin_view V"
  shows "(\<forall>k\<in>set (scan_view V KSCatalog (Some [kd])). \<forall>name raw. parseName k kd = Some name \<longrightarrow> V KSCatalog k = Some raw \<longrightarrow> P name raw)
    \<longleftrightarrow> (\<forall>k name raw. parseName k kd = Some name \<longrightarrow> V KSCatalog k = Some raw \<longrightarrow> P name raw)"
    "\<forall>k\<in>set (scan_view V KSCatalog (Some [kd])). V KSCatalog k \<noteq> None"
  using parseName_prefix by (auto simp: set_scan_view [OF assms])

lemma u_reads:
  "readU32 view_ops V h KindFormat [] = (V, case V KSCatalog (catalogKey KindFormat []) of None \<Rightarrow> Inr 0
     | Some raw \<Rightarrow> if length raw \<noteq> 4 then Inl (ErrText ''catalog u32'') else Inr (word_of_nat (be_get raw)))"
  "readU64 view_ops V h kd [] = (V, case V KSCatalog (catalogKey kd []) of None \<Rightarrow> Inr 0
     | Some raw \<Rightarrow> if length raw \<noteq> 8 then Inl (ErrText ''catalog counter'') else Inr (word_of_nat (be_get raw)))"
  "loadStats view_ops V h = (V, case V KSCatalog (catalogKey KindStats []) of None \<Rightarrow> Inr emptyStats | Some raw \<Rightarrow> decodeStats raw)"
  by (auto simp: readU32_def readU64_def loadStats_def view_get_def cat_key_catalogKey split: option.split)

lemma format_zero: "\<not> (0 :: uint32) > cat_FormatVersion"
  by simp

lemma schema_ok_loads:
  assumes f: "fin_view V" and s: "schema_ok V"
  shows "\<exists>sch. schema_at V sch"
proof -
  let ?ik = "scan_view V KSCatalog (Some [KindIndex])" and ?ck = "scan_view V KSCatalog (Some [KindConstraint])"
  obtain ixs where i: "listIndexes_loop view_ops V 0 ?ik [] = (V, Inr ixs)"
    using listIndexes_loop_ok [of ?ik V 0 "[]", OF kind_records(2) [OF f]] kind_records(1) [OF f, of KindIndex] s by (auto simp: schema_ok_def)
  obtain cs where c: "listConstraints_loop view_ops V 0 ?ck [] = (V, Inr cs)"
    using listConstraints_loop_ok [of ?ck V 0 "[]", OF kind_records(2) [OF f]] kind_records(1) [OF f, of KindConstraint] s by (auto simp: schema_ok_def)
  obtain fm where fm: "readU32 view_ops V h KindFormat [] = (V, Inr fm)" "\<not> fm > cat_FormatVersion" for h
    using s format_zero unfolding u_reads schema_ok_def format_ok_def by (cases "V KSCatalog (catalogKey KindFormat [])") auto
  obtain gn where gn: "readU64 view_ops V h KindGeneration [] = (V, Inr gn)" for h
    using s unfolding u_reads schema_ok_def u64_ok_def by (cases "V KSCatalog (catalogKey KindGeneration [])") auto
  obtain st where st: "loadStats view_ops V h = (V, Inr st)" for h
    using s unfolding u_reads schema_ok_def by (cases "V KSCatalog (catalogKey KindStats [])") auto
  have "listIndexes view_ops V h = (V, Inr (sort_key ix_Name ixs))" "listConstraints view_ops V h = (V, Inr (sort_key co_Name cs))" for h
    using i c loops_any_handle(1) [of V h ?ik "[]"] loops_any_handle(2) [of V h ?ck "[]"]
    by (simp_all add: listIndexes_def listConstraints_def scanKind_view [OF f])
  then show ?thesis using fm gn st by (auto simp: schema_at_def cat_Load_def Let_def)
qed

lemma sbind_InrD: "sbind p f = (e', Inr y) \<Longrightarrow> \<exists>e x. p = (e, Inr x) \<and> f e x = (e', Inr y)"
  by (cases p; cases "snd p") auto

lemma schema_loads_ok:
  assumes f: "fin_view V" and s: "schema_at V sch"
  shows "schema_ok V"
proof -
  let ?ik = "scan_view V KSCatalog (Some [KindIndex])" and ?ck = "scan_view V KSCatalog (Some [KindConstraint])"
  have "cat_Load view_ops V 0 = (V, Inr sch)" using s by (simp add: schema_at_def)
  then obtain fm where fm: "readU32 view_ops V 0 KindFormat [] = (V, Inr fm)" "\<not> (if fm = 0 then cat_FormatVersion else fm) > cat_FormatVersion"
    and rest: "sbind (readU64 view_ops V 0 KindGeneration []) (\<lambda>e gen. sbind (listIndexes view_ops e 0) (\<lambda>e indexes. sbind (listConstraints view_ops e 0) (\<lambda>e cons.
      sbind (loadStats view_ops e 0) (\<lambda>e st. (e, Inr \<lparr>sc_Format = (if fm = 0 then cat_FormatVersion else fm), sc_Generation = gen, sc_Indexes = indexes, sc_Constraints = cons, sc_Stats = st\<rparr>))))) = (V, Inr sch)"
    unfolding cat_Load_def Let_def by (auto dest!: sbind_InrD simp: u_reads split: if_splits)
  obtain gn where gn: "readU64 view_ops V 0 KindGeneration [] = (V, Inr gn)" using sbind_InrD [OF rest] unfolding u_reads by auto
  obtain W ixs where li: "listIndexes view_ops V 0 = (W, Inr ixs)" using rest gn by (auto dest!: sbind_InrD)
  then obtain ixs' where i: "listIndexes_loop view_ops V 0 ?ik [] = (W, Inr ixs')"
    unfolding listIndexes_def scanKind_view [OF f] by (auto dest!: sbind_InrD)
  then have w: "W = V" using loops_keep(1) [of V 0 ?ik "[]"] by simp
  obtain W2 cs where lc: "listConstraints view_ops V 0 = (W2, Inr cs)" using rest gn li w by (auto dest!: sbind_InrD)
  then obtain cs' where c: "listConstraints_loop view_ops V 0 ?ck [] = (W2, Inr cs')"
    unfolding listConstraints_def scanKind_view [OF f] by (auto dest!: sbind_InrD)
  then have w2: "W2 = V" using loops_keep(2) [of V 0 ?ck "[]"] by simp
  obtain st where st: "loadStats view_ops V 0 = (V, Inr st)" using rest gn li lc w w2 unfolding u_reads(3) by (auto dest!: sbind_InrD)
  have "format_ok V" using fm unfolding u_reads format_ok_def by (auto split: if_splits)
  moreover have "u64_ok V KindGeneration" using gn unfolding u_reads u64_ok_def by (auto split: if_splits)
  moreover have "\<forall>raw. V KSCatalog (catalogKey KindStats []) = Some raw \<longrightarrow> (\<exists>st. decodeStats raw = Inr st)" using st unfolding u_reads by auto
  moreover have "\<forall>k name raw. parseName k KindIndex = Some name \<longrightarrow> V KSCatalog k = Some raw \<longrightarrow> (\<exists>ix. decodeIndex name raw = Inr ix)"
    using i w unfolding kind_records(1) [OF f, symmetric] listIndexes_loop_ok [of ?ik V 0 "[]", OF kind_records(2) [OF f], symmetric] by blast
  moreover have "\<forall>k name raw. parseName k KindConstraint = Some name \<longrightarrow> V KSCatalog k = Some raw \<longrightarrow> (\<exists>c. decodeConstraint name raw = Inr c)"
    using c w2 unfolding kind_records(1) [OF f, symmetric] listConstraints_loop_ok [of ?ck V 0 "[]", OF kind_records(2) [OF f], symmetric] by blast
  ultimately show ?thesis unfolding schema_ok_def by blast
qed

section \<open>Changing it\<close>

lemma parseName_catalogKey: "length name < 2 ^ 64 \<Longrightarrow> parseName (catalogKey kd name) kd = Some name"
  by (simp add: parseName_def catalogKey_def Uvarint_putUvarint)

definition schema_writes :: "byte set" where
  "schema_writes = schema_kinds \<union> {KindWriteCount, KindNextIndex}"

lemma graph_schema:
  assumes g: "graph_at V N E" and t: "touch {} schema_writes V W" and w: "wcount_ok W" and s: "schema_ok W"
  shows "graph_at W N E" "steady V W"
proof -
  have nb: "kd \<notin> schema_writes" if "kd \<in> name_bytes \<union> {catNextNode, catNextEdge}" for kd
    using that by (auto simp: schema_writes_def schema_kinds_def name_bytes_def cat_defs cat_kind_defs)
  have c: "cat_frame schema_writes V W" using t by (simp add: touch_frame)
  have ti: "tables W = tables V" unfolding tables_def by (simp add: table_frame(3) [OF c nb nb nb] name_bytes_def)
  note n = touch_names [OF t]
  show st: "steady V W" unfolding steady_def by (auto simp: n nb name_bytes_def)
  have co: "counter_ok W catNextNode = counter_ok V catNextNode" "counter_ok W catNextEdge = counter_ok V catNextEdge" by (auto simp: n nb)
  have fw: "fin_view W" using graph_atD(1) [OF g] touch_fin [OF t] by (simp add: base_def)
  have b: "base W" using graph_atD(1) [OF g] ti co fw w schema_ok_loads [OF fw s] room_steady [OF st] by (simp add: base_def)
  note gr = steady_grows [OF st]
  have tw: "tables V" "tables W" using graph_atD(1) [OF g] b base_tables by auto
  have cs: "counter_of W catNextNode = counter_of V catNextNode" "counter_of W catNextEdge = counter_of V catNextEdge"
    using st by (auto simp: steady_def)
  have "nodes_at W N" "label_index W (labels_of N)" "prop_index W (props_of N)" "edges_part W E"
    using graph_atD(2-5) [OF g] nodes_at_touch [OF _ t] label_index_touch [OF _ t] prop_index_touch [OF _ t] edges_part_touch [OF _ t] by auto
  then show "graph_at W N E"
    unfolding graph_at_def using b graph_atD(6-9) [OF g] cs node_ok_grows [OF _ gr tw] edge_ok_grows [OF _ gr tw subset_refl] by metis
qed

text \<open>One write of a schema record, and sequences of them.\<close>

definition schema_step :: "kvview \<Rightarrow> kvview \<Rightarrow> bool" where
  "schema_step V W \<longleftrightarrow> touch {} schema_writes V W \<and> (schema_ok V \<longrightarrow> schema_ok W) \<and> (wcount_ok V \<longrightarrow> wcount_ok W)"

lemma schema_step_refl [simp]: "schema_step V V"
  by (simp add: schema_step_def)

lemma schema_step_trans: "schema_step V W \<Longrightarrow> schema_step W X \<Longrightarrow> schema_step V X"
  using touch_trans [of "{}" schema_writes V W "{}" schema_writes X] by (auto simp: schema_step_def)

lemma parse_other: "kd \<noteq> kd' \<Longrightarrow> parseName (catalogKey kd name) kd' = None"
  by (simp add: parseName_def catalogKey_def)

lemma touch_schema: "kd \<in> schema_writes \<Longrightarrow> touch {} schema_writes V (upd_view V KSCatalog (catalogKey kd name) v)"
  by (simp add: touch_frame cat_frame_upd)

lemma schema_kind_neq [simp]:
  "KindIndex \<noteq> KindConstraint" "KindIndex \<noteq> KindStats" "KindIndex \<noteq> KindFormat" "KindIndex \<noteq> KindGeneration" "KindIndex \<noteq> KindWriteCount" "KindIndex \<noteq> KindNextIndex"
  "KindConstraint \<noteq> KindIndex" "KindConstraint \<noteq> KindStats" "KindConstraint \<noteq> KindFormat" "KindConstraint \<noteq> KindGeneration" "KindConstraint \<noteq> KindWriteCount" "KindConstraint \<noteq> KindNextIndex"
  "KindStats \<noteq> KindIndex" "KindStats \<noteq> KindConstraint" "KindStats \<noteq> KindFormat" "KindStats \<noteq> KindGeneration" "KindStats \<noteq> KindWriteCount" "KindStats \<noteq> KindNextIndex"
  "KindFormat \<noteq> KindIndex" "KindFormat \<noteq> KindConstraint" "KindFormat \<noteq> KindStats" "KindFormat \<noteq> KindGeneration" "KindFormat \<noteq> KindWriteCount" "KindFormat \<noteq> KindNextIndex"
  "KindGeneration \<noteq> KindIndex" "KindGeneration \<noteq> KindConstraint" "KindGeneration \<noteq> KindStats" "KindGeneration \<noteq> KindFormat" "KindGeneration \<noteq> KindWriteCount" "KindGeneration \<noteq> KindNextIndex"
  "KindWriteCount \<noteq> KindIndex" "KindWriteCount \<noteq> KindConstraint" "KindWriteCount \<noteq> KindStats" "KindWriteCount \<noteq> KindFormat" "KindWriteCount \<noteq> KindGeneration" "KindWriteCount \<noteq> KindNextIndex"
  "KindNextIndex \<noteq> KindIndex" "KindNextIndex \<noteq> KindConstraint" "KindNextIndex \<noteq> KindStats" "KindNextIndex \<noteq> KindFormat" "KindNextIndex \<noteq> KindGeneration" "KindNextIndex \<noteq> KindWriteCount"
  by (simp_all add: cat_kind_defs)

lemma schema_step_record:
  assumes kd: "kd \<in> schema_writes"
    and i: "kd = KindIndex \<Longrightarrow> v = None \<or> (length name < 2 ^ 64 \<and> (\<exists>ix raw. v = Some raw \<and> decodeIndex name raw = Inr ix))"
    and c: "kd = KindConstraint \<Longrightarrow> v = None \<or> (length name < 2 ^ 64 \<and> (\<exists>c raw. v = Some raw \<and> decodeConstraint name raw = Inr c))"
    and s: "kd = KindStats \<Longrightarrow> \<exists>st raw. v = Some raw \<and> decodeStats raw = Inr st"
    and f: "kd = KindFormat \<Longrightarrow> v = Some (be_put 4 (unat cat_FormatVersion))"
    and g: "kd \<in> {KindGeneration, KindWriteCount} \<Longrightarrow> \<exists>raw. v = Some raw \<and> length raw = 8"
  shows "schema_step V (upd_view V KSCatalog (catalogKey kd name) v)" (is "schema_step V ?W")
proof -
  have w: "?W KSCatalog k = (if k = catalogKey kd name then v else V KSCatalog k)" for k by (simp add: upd_view_apply)
  have "schema_ok ?W" if ok: "schema_ok V"
    unfolding schema_ok_def
  proof (intro conjI allI impI)
    show "format_ok ?W" using ok f by (auto simp: schema_ok_def format_ok_def w split: if_splits)
    show "u64_ok ?W KindGeneration" using ok g by (auto simp: schema_ok_def u64_ok_def w split: if_splits)
    show "\<exists>ix. decodeIndex n raw = Inr ix" if p: "parseName k KindIndex = Some n" and k: "?W KSCatalog k = Some raw" for k n raw
    proof (cases "k = catalogKey kd name")
      case True
      then have "kd = KindIndex" using p parse_other [of kd KindIndex name] by fastforce
      then show ?thesis using True p k i parseName_catalogKey [of name KindIndex] by (auto simp: upd_view_apply)
    next
      case False
      then show ?thesis using ok p k by (auto simp: schema_ok_def w)
    qed
    show "\<exists>c. decodeConstraint n raw = Inr c" if p: "parseName k KindConstraint = Some n" and k: "?W KSCatalog k = Some raw" for k n raw
    proof (cases "k = catalogKey kd name")
      case True
      then have "kd = KindConstraint" using p parse_other [of kd KindConstraint name] by fastforce
      then show ?thesis using True p k c parseName_catalogKey [of name KindConstraint] by (auto simp: upd_view_apply)
    next
      case False
      then show ?thesis using ok p k by (auto simp: schema_ok_def w)
    qed
    show "\<exists>st. decodeStats raw = Inr st" if "?W KSCatalog (catalogKey KindStats []) = Some raw" for raw
      using that ok s by (auto simp: schema_ok_def w split: if_splits)
  qed
  moreover have "wcount_ok ?W" if "wcount_ok V" using that g by (auto simp: wcount_ok_def w split: if_splits)
  ultimately show ?thesis using touch_schema [OF kd] by (simp add: schema_step_def)
qed

lemma kinds_written [simp]:
  "KindIndex \<in> schema_writes" "KindConstraint \<in> schema_writes" "KindStats \<in> schema_writes" "KindFormat \<in> schema_writes"
  "KindGeneration \<in> schema_writes" "KindWriteCount \<in> schema_writes" "KindNextIndex \<in> schema_writes"
  by (simp_all add: schema_writes_def schema_kinds_def)

lemma ensureFormat_view:
  assumes "schema_ok V"
  shows "\<exists>W. ensureFormat view_ops V h = (W, Inr ()) \<and> schema_step V W"
proof -
  have f: "format_ok V" using assms by (simp add: schema_ok_def)
  obtain fm where fm: "readU32 view_ops V h KindFormat [] = (V, Inr fm)" "\<not> fm > cat_FormatVersion"
    using f format_zero unfolding u_reads format_ok_def by (cases "V KSCatalog (catalogKey KindFormat [])") auto
  have "schema_step V (upd_view V KSCatalog (catalogKey KindFormat []) (Some (be_put 4 (unat cat_FormatVersion))))"
    by (rule schema_step_record) simp_all
  then show ?thesis using fm by (auto simp: ensureFormat_def writeU32_def cat_key_catalogKey)
qed

lemma bump_view:
  assumes "schema_ok V"
  shows "\<exists>W. bump view_ops V h = (W, Inr ()) \<and> schema_step V W"
proof -
  obtain gn where "readU64 view_ops V h KindGeneration [] = (V, Inr gn)"
    using assms unfolding u_reads schema_ok_def u64_ok_def by (cases "V KSCatalog (catalogKey KindGeneration [])") auto
  moreover have "schema_step V (upd_view V KSCatalog (catalogKey KindGeneration []) (Some (be_put 8 n)))" for n
    by (rule schema_step_record) simp_all
  ultimately show ?thesis by (auto simp: bump_def writeU64_def cat_key_catalogKey)
qed

lemma schema_step_ok: "schema_step V W \<Longrightarrow> schema_ok V \<Longrightarrow> schema_ok W"
  by (simp add: schema_step_def)

lemma put_record:
  assumes ok: "schema_ok V" and st: "\<And>V. schema_step V (upd_view V KSCatalog k v)"
  shows "\<exists>W. sbind (ensureFormat view_ops V h) (\<lambda>e _. sbind (upd_view e KSCatalog k v, Inr ()) (\<lambda>e _. bump view_ops e h)) = (W, Inr ()) \<and> schema_step V W"
proof -
  obtain V1 where v1: "ensureFormat view_ops V h = (V1, Inr ())" "schema_step V V1" using ensureFormat_view [OF ok] by blast
  let ?V2 = "upd_view V1 KSCatalog k v"
  have s2: "schema_step V ?V2" by (rule schema_step_trans [OF v1(2) st])
  obtain W where "bump view_ops ?V2 h = (W, Inr ())" "schema_step ?V2 W" using bump_view [OF schema_step_ok [OF s2 ok]] by blast
  then show ?thesis using v1(1) schema_step_trans [OF s2] by auto
qed

lemma PutIndex_view:
  assumes ok: "schema_ok V" and fit: "index_fits ix" "length (ix_Name ix) < 2 ^ 64"
  shows "\<exists>W r. PutIndex view_ops V h ix = (W, r) \<and> schema_step V W \<and> (ix_Name ix \<noteq> [] \<and> ix_Props ix \<noteq> [] \<longrightarrow> r = Inr ())"
proof (cases "ix_Name ix = [] \<or> length (ix_Props ix) = 0")
  case True
  then show ?thesis by (auto simp: PutIndex_def)
next
  case False
  define jx where "jx = (let ix = (if ix_State ix = 0 then ix\<lparr>ix_State := Online\<rparr> else ix) in if ix_Entity ix = 0 then ix\<lparr>ix_Entity := NodeEntity\<rparr> else ix)"
  have j: "index_fits jx" "ix_Name jx = ix_Name ix" using fit(1) by (auto simp: jx_def index_fits_def Let_def)
  have "schema_step U (upd_view U KSCatalog (catalogKey KindIndex (ix_Name jx)) (Some (encodeIndex jx)))" for U
    by (rule schema_step_record) (use decodeIndex_encodeIndex [OF j(1)] j(2) fit(2) in auto)
  from put_record [OF ok this, of h] show ?thesis using False by (auto simp: PutIndex_def jx_def cat_key_catalogKey Let_def)
qed

lemma PutConstraint_view:
  assumes ok: "schema_ok V" and fit: "constraint_fits c" "length (co_Name c) < 2 ^ 64"
  shows "\<exists>W r. PutConstraint view_ops V h c = (W, r) \<and> schema_step V W \<and> (co_Name c \<noteq> [] \<and> co_Prop c \<noteq> [] \<longrightarrow> r = Inr ())"
proof (cases "co_Name c = [] \<or> co_Prop c = []")
  case True
  then show ?thesis by (auto simp: PutConstraint_def)
next
  case False
  define d where "d = (let c = (if co_Entity c = 0 then c\<lparr>co_Entity := NodeEntity\<rparr> else c) in if co_Kind c = 0 then c\<lparr>co_Kind := UniqueConstraint\<rparr> else c)"
  have j: "constraint_fits d" "co_Name d = co_Name c" using fit(1) by (auto simp: d_def constraint_fits_def Let_def)
  have "schema_step U (upd_view U KSCatalog (catalogKey KindConstraint (co_Name d)) (Some (encodeConstraint d)))" for U
    by (rule schema_step_record) (use decodeConstraint_encodeConstraint [OF j(1)] j(2) fit(2) in auto)
  from put_record [OF ok this, of h] show ?thesis using False by (auto simp: PutConstraint_def d_def cat_key_catalogKey Let_def)
qed

lemma dropRecord_view:
  assumes ok: "schema_ok V" and kd: "kd \<in> {KindIndex, KindConstraint}"
  shows "\<exists>W. dropRecord view_ops V h (cat_key kd name) = (W, Inr (V KSCatalog (cat_key kd name) \<noteq> None)) \<and> schema_step V W"
proof (cases "V KSCatalog (catalogKey kd name)")
  case None
  then show ?thesis by (simp add: dropRecord_def view_get_def cat_key_catalogKey)
next
  case (Some raw)
  have s: "schema_step V (upd_view V KSCatalog (catalogKey kd name) None)" by (rule schema_step_record) (use kd in auto)
  obtain W where "bump view_ops (upd_view V KSCatalog (catalogKey kd name) None) h = (W, Inr ())" "schema_step (upd_view V KSCatalog (catalogKey kd name) None) W"
    using bump_view [OF schema_step_ok [OF s ok]] by blast
  then show ?thesis using Some schema_step_trans [OF s] by (simp add: dropRecord_def view_get_def cat_key_catalogKey)
qed

lemma PutStats_view:
  assumes ok: "schema_ok V" and fit: "stats_fit st"
  shows "\<exists>W. PutStats view_ops V h st = (W, Inr ()) \<and> schema_step V W"
proof -
  obtain V1 where v1: "ensureFormat view_ops V h = (V1, Inr ())" "schema_step V V1" using ensureFormat_view [OF ok] by blast
  let ?V2 = "upd_view V1 KSCatalog (catalogKey KindStats []) (Some (encodeStats st))"
  let ?V3 = "upd_view ?V2 KSCatalog (catalogKey KindWriteCount []) (Some (be_put 8 0))"
  have "schema_step V1 ?V2" by (rule schema_step_record) (use decodeStats_encodeStats [OF fit] in auto)
  moreover have "schema_step ?V2 ?V3" by (rule schema_step_record) simp_all
  ultimately have s: "schema_step V ?V3" using v1(2) schema_step_trans by blast
  obtain W where "bump view_ops ?V3 h = (W, Inr ())" "schema_step ?V3 W" using bump_view [OF schema_step_ok [OF s ok]] by blast
  then show ?thesis using v1(1) schema_step_trans [OF s] by (auto simp: PutStats_def writeU64_def cat_key_catalogKey)
qed

lemma graph_schema_step:
  assumes g: "graph_at V N E" and s: "schema_step V W"
  shows "graph_at W N E" "steady V W"
proof -
  obtain sch where "schema_at V sch" "fin_view V" "wcount_ok V" using graph_atD(1) [OF g] by (auto simp: base_def)
  then have "schema_ok W" "wcount_ok W" "touch {} schema_writes V W" using s schema_loads_ok by (auto simp: schema_step_def)
  then show "graph_at W N E" "steady V W" using graph_schema [OF g] by auto
qed

lemma graph_schema_ok: "graph_at V N E \<Longrightarrow> schema_ok V"
  using schema_loads_ok graph_atD(1) unfolding base_def by blast

end
