(* ===== verification/GraphSimTraverse.thy ===== *)
theory GraphSimTraverse
  imports GraphSim
begin

text \<open>
  Traversals, statistics, export and replacement on a transaction behave as on the contents it shows. The
  search loops are followed by induction on what is left to see.
\<close>

section \<open>Reading\<close>

context kv_read
begin

lemma sim_visit: "T e h V \<Longrightarrow> sim (\<lambda>e. T e h) (visit ops e h d tos st) (visit view_ops V h d tos st)"
proof (induction tos arbitrary: e V st)
  case (Cons to tos)
  obtain seen queue out where "st = (seen, queue, out)" by (cases st)
  then show ?case by (simp only: visit.simps) (rule sim_rules sim_GetNode Cons | assumption)+
qed (simp add: sim_rules)

lemma sim_neighbors_loop:
  "T e h V \<Longrightarrow> sim (\<lambda>e. T e h) (neighbors_loop ops e h depth (seen, queue, out)) (neighbors_loop view_ops V h depth (seen, queue, out))"
proof (induction "2 * unseen seen + length queue" arbitrary: e V seen queue out rule: less_induct)
  case less
  show ?case
  proof (cases queue)
    case Nil
    then show ?thesis using less.prems by (simp add: sim_rules)
  next
    case (Cons x q)
    obtain i d where x: "x = (i, d)" by (cases x)
    have visited: "sim (\<lambda>e. T e h)
        (case visit ops e1 h d tos (seen, q, out) of (e, Inl err) \<Rightarrow> (e, Inl err) | (e, Inr st) \<Rightarrow> neighbors_loop ops e h depth st)
        (case visit view_ops V1 h d tos (seen, q, out) of (e, Inl err) \<Rightarrow> (e, Inl err) | (e, Inr st) \<Rightarrow> neighbors_loop view_ops e h depth st)"
      if t: "T e1 h V1" for e1 V1 tos
    proof -
      obtain V2 r where v: "visit view_ops V1 h d tos (seen, q, out) = (V2, r)" by fastforce
      obtain e2 where e2: "visit ops e1 h d tos (seen, q, out) = (e2, r)" "T e2 h V2" using sim_visit [OF t] simD v by metis
      show ?thesis
      proof (cases r)
        case (Inl err)
        then show ?thesis using v e2 by (simp add: sim_rules)
      next
        case (Inr st)
        obtain seen' q' out' where st: "st = (seen', q', out')" by (cases st)
        have "2 * unseen seen' + length q' < 2 * unseen seen + length queue"
          using unseen_decreases [OF visit_measure [OF v [unfolded Inr st]]] Cons by simp
        then show ?thesis using less.hyps [OF _ e2(2)] v e2(1) Inr st by (simp del: neighbors_loop.simps)
      qed
    qed
    have pop: "sim (\<lambda>e. T e h) (neighbors_loop ops e h depth (seen, q, out)) (neighbors_loop view_ops V h depth (seen, q, out))"
      using less.hyps [OF _ less.prems] Cons by simp
    show ?thesis unfolding Cons x neighbors_loop.simps
      by (rule sim_if [OF pop]) (intro sim_result sim_outgoing less.prems sim_ret visited)
  qed
qed

lemma sim_Neighbors: "T e h V \<Longrightarrow> sim (\<lambda>e. T e h) (Neighbors ops e h i depth) (Neighbors view_ops V h i depth)"
  unfolding Neighbors_def by (rule sim_rules sim_GetNode sim_neighbors_loop | assumption)+

lemma sim_dfs:
  "T e h V \<Longrightarrow> sim (\<lambda>e. T e h) (dfs_walk ops e h depth lt i st) (dfs_walk view_ops V h depth lt i st)"
  "T e h V \<Longrightarrow> sim (\<lambda>e. T e h) (dfs_list ops e h depth lt tos st) (dfs_list view_ops V h depth lt tos st)"
proof -
  have "(\<forall>e V i st. T e h V \<longrightarrow> sim (\<lambda>e. T e h) (dfs_walk ops e h depth lt i st) (dfs_walk view_ops V h depth lt i st))
    \<and> (\<forall>e V tos st. T e h V \<longrightarrow> sim (\<lambda>e. T e h) (dfs_list ops e h depth lt tos st) (dfs_list view_ops V h depth lt tos st))" for lt
  proof (induction lt)
    have lists: "T e h V \<Longrightarrow> sim (\<lambda>e. T e h) (dfs_list ops e h depth lt tos st) (dfs_list view_ops V h depth lt tos st)"
      if w: "\<And>e V i st. T e h V \<Longrightarrow> sim (\<lambda>e. T e h) (dfs_walk ops e h depth lt i st) (dfs_walk view_ops V h depth lt i st)" for lt tos e V st
    proof (induction tos arbitrary: e V st)
      case (Cons to tos)
      obtain seen out where "st = (seen, out)" by (cases st)
      then show ?case by (simp only: dfs_list.simps) (rule sim_rules sim_GetNode w Cons | assumption)+
    qed (simp add: sim_rules)
    {
      case 0
      have w: "T e h V \<Longrightarrow> sim (\<lambda>e. T e h) (dfs_walk ops e h depth 0 i st) (dfs_walk view_ops V h depth 0 i st)" for e V i st by (simp add: sim_rules)
      then show ?case using lists [OF w] by blast
    next
      case (Suc lt)
      have w: "T e h V \<Longrightarrow> sim (\<lambda>e. T e h) (dfs_walk ops e h depth (Suc lt) i st) (dfs_walk view_ops V h depth (Suc lt) i st)" for e V i st
        using Suc unfolding dfs_walk.simps by (intro sim_result sim_outgoing sim_ret) blast+
      then show ?case using lists [OF w] by blast
    }
  qed
  then show "T e h V \<Longrightarrow> sim (\<lambda>e. T e h) (dfs_walk ops e h depth lt i st) (dfs_walk view_ops V h depth lt i st)"
    "T e h V \<Longrightarrow> sim (\<lambda>e. T e h) (dfs_list ops e h depth lt tos st) (dfs_list view_ops V h depth lt tos st)" by blast+
qed

lemma sim_DFS: "T e h V \<Longrightarrow> sim (\<lambda>e. T e h) (DFS ops e h i depth) (DFS view_ops V h i depth)"
  unfolding DFS_def by (rule sim_rules sim_GetNode sim_dfs | assumption)+

lemma sim_sp_loop:
  "T e h V \<Longrightarrow> sim (\<lambda>e. T e h) (sp_loop ops e h dst (seen, parent, queue)) (sp_loop view_ops V h dst (seen, parent, queue))"
proof (induction "2 * unseen seen + length queue" arbitrary: e V seen parent queue rule: less_induct)
  case less
  show ?case
  proof (cases queue)
    case Nil
    then show ?thesis using less.prems by (simp add: sim_rules)
  next
    case (Cons cur q)
    have next1: "sim (\<lambda>e. T e h)
        (case expand dst cur tos (seen, parent, q) of Inl parent \<Rightarrow> (e1, Inr (Some parent)) | Inr st \<Rightarrow> sp_loop ops e1 h dst st)
        (case expand dst cur tos (seen, parent, q) of Inl parent \<Rightarrow> (V1, Inr (Some parent)) | Inr st \<Rightarrow> sp_loop view_ops V1 h dst st)"
      if t: "T e1 h V1" for e1 V1 tos
    proof (cases "expand dst cur tos (seen, parent, q)")
      case (Inl p)
      then show ?thesis using t by (simp add: sim_rules)
    next
      case (Inr st)
      obtain seen' p' q' where st: "st = (seen', p', q')" by (cases st)
      have "2 * unseen seen' + length q' < 2 * unseen seen + length queue"
        using unseen_decreases [OF expand_measure [OF Inr [unfolded st]]] Cons by simp
      then show ?thesis using less.hyps [OF _ t] Inr st by (simp del: sp_loop.simps)
    qed
    show ?thesis unfolding Cons sp_loop.simps by (intro sim_result sim_outgoing less.prems sim_ret next1)
  qed
qed

lemma sim_pathNodes: "T e h V \<Longrightarrow> sim (\<lambda>e. T e h) (pathNodes ops e h src n ids p) (pathNodes view_ops V h src n ids p)"
proof (induction ids arbitrary: e V p)
  case (Cons i ids)
  show ?case unfolding pathNodes.simps by (rule sim_rules sim_GetNode Cons | assumption)+
qed (simp add: sim_rules)

lemma sim_ShortestPath: "T e h V \<Longrightarrow> sim (\<lambda>e. T e h) (ShortestPath ops e h src dst) (ShortestPath view_ops V h src dst)"
  unfolding ShortestPath_def by (rule sim_rules sim_GetNode sim_sp_loop sim_pathNodes | assumption)+

lemma sim_statLabels: "T e h V \<Longrightarrow> sim (\<lambda>e. T e h) (statLabels ops e h keys sn ls) (statLabels view_ops V h keys sn ls)"
proof (induction keys arbitrary: e V sn ls)
  case (Cons k keys)
  show ?case unfolding statLabels.simps by (rule sim_rules sim_reads Cons | assumption)+
qed (simp add: sim_rules)

lemma sim_GraphStats: "T e h V \<Longrightarrow> sim (\<lambda>e. T e h) (GraphStats ops e h) (GraphStats view_ops V h)"
  unfolding GraphStats_def by (rule sim_rules sim_reads sim_statLabels | assumption)+

lemma sim_propKeyNames: "T e h V \<Longrightarrow> sim (\<lambda>e. T e h) (propKeyNames ops e h keys names mx) (propKeyNames view_ops V h keys names mx)"
proof (induction keys arbitrary: e V names mx)
  case (Cons k keys)
  show ?case unfolding propKeyNames.simps by (rule sim_rules sim_reads Cons | assumption)+
qed (simp add: sim_rules)

lemma sim_exportPropKeys: "T e h V \<Longrightarrow> sim (\<lambda>e. T e h) (exportPropKeys ops e h) (exportPropKeys view_ops V h)"
  unfolding exportPropKeys_def by (rule sim_rules sim_reads sim_propKeyNames | assumption)+

lemma sim_Export: "T e h V \<Longrightarrow> sim (\<lambda>e. T e h) (graph_Export ops e h) (graph_Export view_ops V h)"
  unfolding graph_Export_def by (rule sim_rules sim_reads sim_AllNodes sim_AllEdges sim_exportPropKeys | assumption)+

end

section \<open>Writing\<close>

context kv_write
begin

lemma sim_PutStats: "T e h V \<Longrightarrow> sim (\<lambda>e. T e h) (PutStats ops e h st) (PutStats view_ops V h st)"
  unfolding PutStats_def by (rule sim_rules sim_writes sim_ensureFormat sim_bump | assumption)+

lemma sim_AllocIndexID: "T e h V \<Longrightarrow> sim (\<lambda>e. T e h) (AllocIndexID ops e h) (AllocIndexID view_ops V h)"
  unfolding AllocIndexID_def by (rule sim_rules sim_reads sim_writes sim_bump | assumption)+

lemma sim_clearKeyspaces: "T e h V \<Longrightarrow> list_all user kss \<Longrightarrow> sim (\<lambda>e. T e h) (clearKeyspaces ops e h kss) (clearKeyspaces view_ops V h kss)"
proof (induction kss arbitrary: e V)
  case (Cons ks kss)
  then have u: "user ks" "list_all user kss" by simp_all
  show ?case unfolding clearKeyspaces.simps clearKeyspace_def by (rule sim_rules sim_reads sim_deleteKeys Cons u | assumption)+
qed (simp add: sim_rules)

lemma user_data: "list_all user dataKeyspaces"
  by (simp add: dataKeyspaces_def user_keyspaces)

lemma sim_installPropKeys: "T e h V \<Longrightarrow> sim (\<lambda>e. T e h) (installPropKeys ops e h keys) (installPropKeys view_ops V h keys)"
proof -
  have "T e h V \<Longrightarrow> sim (\<lambda>e. T e h) (installPropKeys_loop ops e h i keys mx) (installPropKeys_loop view_ops V h i keys mx)" for e V i mx
  proof (induction keys arbitrary: e V i mx)
    case (Cons k keys)
    show ?case unfolding installPropKeys_loop.simps by (rule sim_rules sim_writes Cons | assumption)+
  qed (simp add: sim_rules)
  then show "T e h V \<Longrightarrow> ?thesis" unfolding installPropKeys_def Let_def by (blast intro: sim_rules sim_writes)
qed

lemma sim_insertNode: "T e h V \<Longrightarrow> sim (\<lambda>e. T e h) (insertNode ops e h n) (insertNode view_ops V h n)"
  unfolding insertNode_def by (rule sim_rules sim_records | assumption)+

lemma sim_insertEdge: "T e h V \<Longrightarrow> sim (\<lambda>e. T e h) (insertEdge ops e h n) (insertEdge view_ops V h n)"
  unfolding insertEdge_def by (rule sim_rules sim_records | assumption)+

lemma sim_replaceNodes: "T e h V \<Longrightarrow> sim (\<lambda>e. T e h) (replaceNodes ops e h ns i) (replaceNodes view_ops V h ns i)"
proof (induction ns arbitrary: e V i)
  case (Cons n ns)
  show ?case unfolding replaceNodes.simps by (rule sim_rules sim_insertNode Cons | assumption)+
qed (simp add: sim_rules)

lemma sim_replaceEdges: "T e h V \<Longrightarrow> sim (\<lambda>e. T e h) (replaceEdges ops e h ns i) (replaceEdges view_ops V h ns i)"
proof (induction ns arbitrary: e V i)
  case (Cons n ns)
  show ?case unfolding replaceEdges.simps by (rule sim_rules sim_insertEdge Cons | assumption)+
qed (simp add: sim_rules)

lemma sim_Replace: "T e h V \<Longrightarrow> sim (\<lambda>e. T e h) (graph_Replace ops e h snap) (graph_Replace view_ops V h snap)"
  unfolding graph_Replace_def
  by (rule sim_rules sim_clearKeyspaces user_data sim_installPropKeys sim_replaceNodes sim_replaceEdges sim_writeCounter | assumption)+

end

end
