(* ===== verification/GraphCalls.thy ===== *)
theory GraphCalls
  imports GraphSearch GraphSchema GraphSimTraverse
begin

text \<open>
  The calls that change a graph, as values, so that a run is a list of calls. Every call keeps the
  invariant of the contents, within the limits of \<open>call_fits\<close>: ids and names left, records that can be held in
  memory. A call on a transaction of the memory engine does what it does on the contents.
\<close>

section \<open>Calls\<close>

datatype graph_call =
    DoCreateNode "gostring list" "(gostring \<times> val) list"
  | DoUpdateNode uint64 "(gostring \<times> val) list"
  | DoAddLabels uint64 "gostring list"
  | DoRemoveLabels uint64 "gostring list"
  | DoReplaceNodeProps uint64 "(gostring \<times> val) list"
  | DoDeleteNodeProps uint64 "gostring list"
  | DoDeleteNode uint64
  | DoCreateEdge uint64 uint64 gostring "(gostring \<times> val) list"
  | DoUpdateEdge uint64 "(gostring \<times> val) list"
  | DoReplaceEdgeProps uint64 "(gostring \<times> val) list"
  | DoDeleteEdgeProps uint64 "gostring list"
  | DoDeleteEdge uint64
  | DoPutIndex cat_Index
  | DoDropIndex gostring
  | DoPutConstraint cat_Constraint
  | DoDropConstraint gostring
  | DoPutStats cat_Stats
  | DoAllocIndexID

datatype graph_reply = ANode Node | AEdge Edge | ANothing | ABool bool | AnID uint32

definition reply :: "('r \<Rightarrow> graph_reply) \<Rightarrow> 'e \<times> 'r sresult \<Rightarrow> 'e \<times> graph_reply sresult" where
  "reply f p = sbind p (\<lambda>e x. (e, Inr (f x)))"

fun graph_do :: "('e, 'c) engine_ops \<Rightarrow> nat \<Rightarrow> graph_call \<Rightarrow> 'e \<Rightarrow> 'e \<times> graph_reply sresult" where
  "graph_do ops h (DoCreateNode ls ps) e = reply ANode (CreateNode ops e h ls ps)"
| "graph_do ops h (DoUpdateNode i ps) e = reply ANode (UpdateNode ops e h i ps)"
| "graph_do ops h (DoAddLabels i ls) e = reply ANode (AddLabels ops e h i ls)"
| "graph_do ops h (DoRemoveLabels i ls) e = reply ANode (RemoveLabels ops e h i ls)"
| "graph_do ops h (DoReplaceNodeProps i ps) e = reply ANode (ReplaceNodeProps ops e h i ps)"
| "graph_do ops h (DoDeleteNodeProps i ns) e = reply ANode (DeleteNodeProps ops e h i ns)"
| "graph_do ops h (DoDeleteNode i) e = reply (\<lambda>_. ANothing) (DeleteNode ops e h i)"
| "graph_do ops h (DoCreateEdge a b l ps) e = reply AEdge (CreateEdge ops e h a b l ps)"
| "graph_do ops h (DoUpdateEdge i ps) e = reply AEdge (UpdateEdge ops e h i ps)"
| "graph_do ops h (DoReplaceEdgeProps i ps) e = reply AEdge (ReplaceEdgeProps ops e h i ps)"
| "graph_do ops h (DoDeleteEdgeProps i ns) e = reply AEdge (DeleteEdgeProps ops e h i ns)"
| "graph_do ops h (DoDeleteEdge i) e = reply (\<lambda>_. ANothing) (DeleteEdge ops e h i)"
| "graph_do ops h (DoPutIndex ix) e = reply (\<lambda>_. ANothing) (PutIndex ops e h ix)"
| "graph_do ops h (DoDropIndex name) e = reply ABool (DropIndex ops e h name)"
| "graph_do ops h (DoPutConstraint c) e = reply (\<lambda>_. ANothing) (PutConstraint ops e h c)"
| "graph_do ops h (DoDropConstraint name) e = reply ABool (DropConstraint ops e h name)"
| "graph_do ops h (DoPutStats st) e = reply (\<lambda>_. ANothing) (PutStats ops e h st)"
| "graph_do ops h DoAllocIndexID e = reply AnID (AllocIndexID ops e h)"

lemma reply_simps [simp]: "reply f (e, Inl x) = (e, Inl x)" "reply f (e, Inr r) = (e, Inr (f r))"
  by (simp_all add: reply_def)

text \<open>The limits of a call.\<close>

definition node_size :: "kvview \<Rightarrow> uint64 \<Rightarrow> nat \<times> nat" where
  "node_size V i = (case node_recs V i of None \<Rightarrow> (0, 0) | Some r \<Rightarrow> (length (fst r), length (snd r)))"

definition edge_size :: "kvview \<Rightarrow> uint64 \<Rightarrow> nat" where
  "edge_size V i = (case edge_recs V i of None \<Rightarrow> 0 | Some d \<Rightarrow> length (de_Props d))"

fun call_fits :: "kvview \<Rightarrow> graph_call \<Rightarrow> bool" where
  "call_fits V (DoCreateNode ls ps) = (room V (length ls + length ps) \<and> values_fit ps \<and> length ls * sizeofUint32 \<le> maxAlloc
     \<and> counter_of V catNextNode + 1 \<noteq> 0)"
| "call_fits V (DoUpdateNode i ps) = (room V (length ps + fst (node_size V i)) \<and> values_fit ps
     \<and> (snd (node_size V i) + length ps) * sizeofProp \<le> maxAlloc)"
| "call_fits V (DoAddLabels i ls) = (room V (fst (node_size V i) + length ls) \<and> (fst (node_size V i) + length ls) * sizeofUint32 \<le> maxAlloc)"
| "call_fits V (DoRemoveLabels i ls) = room V (fst (node_size V i))"
| "call_fits V (DoReplaceNodeProps i ps) = (room V (length ps + fst (node_size V i)) \<and> values_fit ps)"
| "call_fits V (DoDeleteNodeProps i ns) = room V (fst (node_size V i))"
| "call_fits V (DoDeleteNode i) = True"
| "call_fits V (DoCreateEdge a b l ps) = (room V (Suc (length ps)) \<and> values_fit ps \<and> counter_of V catNextEdge + 1 \<noteq> 0)"
| "call_fits V (DoUpdateEdge i ps) = (room V (length ps) \<and> values_fit ps \<and> (edge_size V i + length ps) * sizeofProp \<le> maxAlloc)"
| "call_fits V (DoReplaceEdgeProps i ps) = (room V (length ps) \<and> values_fit ps)"
| "call_fits V (DoDeleteEdgeProps i ns) = True"
| "call_fits V (DoDeleteEdge i) = True"
| "call_fits V (DoPutIndex ix) = (index_fits ix \<and> length (ix_Name ix) < 2 ^ 64)"
| "call_fits V (DoDropIndex name) = True"
| "call_fits V (DoPutConstraint c) = (constraint_fits c \<and> length (co_Name c) < 2 ^ 64)"
| "call_fits V (DoDropConstraint name) = True"
| "call_fits V (DoPutStats st) = stats_fit st"
| "call_fits V DoAllocIndexID = True"

section \<open>Consistent contents stay consistent\<close>

lemma graph_okD: "graph_ok V \<Longrightarrow> graph_at V (node_recs V) (edge_recs V)"
  by (simp add: graph_ok_def)

text \<open>A step from consistent contents to consistent contents that keeps every id given to a name.\<close>

definition graph_step :: "kvview \<Rightarrow> kvview \<Rightarrow> bool" where
  "graph_step V W \<longleftrightarrow> graph_ok W \<and> grows V W"

lemma graph_step_changed:
  "node_changed V W N E m i n \<Longrightarrow> graph_step V W" "edge_changed V W N E m ed \<Longrightarrow> graph_step V W"
  "graph_at W N E \<Longrightarrow> grows V W \<Longrightarrow> graph_step V W" "graph_at W N E \<Longrightarrow> steady V W \<Longrightarrow> graph_step V W"
  using graph_at_ok steady_grows by (auto simp: node_changed_def edge_changed_def graph_step_def)

lemma graph_step_refl: "graph_ok V \<Longrightarrow> graph_step V V"
  by (simp add: graph_step_def)

lemma missing_node:
  assumes g: "graph_at V N E" and n: "N i = None"
  shows "UpdateNode view_ops V h i ps = (V, Inl (GraphNotFound ''node'' i))" "AddLabels view_ops V h i ls = (V, Inl (GraphNotFound ''node'' i))"
    "RemoveLabels view_ops V h i ls = (V, Inl (GraphNotFound ''node'' i))" "ReplaceNodeProps view_ops V h i ps = (V, Inl (GraphNotFound ''node'' i))"
    "DeleteNodeProps view_ops V h i ls = (V, Inl (GraphNotFound ''node'' i))" "DeleteNode view_ops V h i = (V, Inl (GraphNotFound ''node'' i))"
  using n by (simp_all add: UpdateNode_def AddLabels_def RemoveLabels_def ReplaceNodeProps_def DeleteNodeProps_def DeleteNode_def graph_GetNode [OF g])

lemma missing_edge:
  assumes g: "graph_at V N E" and n: "E i = None"
  shows "UpdateEdge view_ops V h i ps = (V, Inl (GraphNotFound ''edge'' i))" "ReplaceEdgeProps view_ops V h i ps = (V, Inl (GraphNotFound ''edge'' i))"
    "DeleteEdgeProps view_ops V h i ls = (V, Inl (GraphNotFound ''edge'' i))" "DeleteEdge view_ops V h i = (V, Inl (GraphNotFound ''edge'' i))"
  using n by (simp_all add: UpdateEdge_def ReplaceEdgeProps_def DeleteEdgeProps_def DeleteEdge_def graph_loadEdge [OF g])

lemma missing_ends:
  assumes g: "graph_at V N E"
  shows "N a = None \<Longrightarrow> CreateEdge view_ops V h a b l ps = (V, Inl (GraphNotFound ''from node'' a))"
    "N a \<noteq> None \<Longrightarrow> N b = None \<Longrightarrow> CreateEdge view_ops V h a b l ps = (V, Inl (GraphNotFound ''to node'' b))"
  by (auto simp: CreateEdge_def needNode_view [OF g])

lemma graph_do_node_ok:
  assumes ok: "graph_ok V" and fit: "call_fits V c" and c: "c \<in> {DoUpdateNode i ps, DoAddLabels i ls, DoRemoveLabels i ls, DoReplaceNodeProps i ps, DoDeleteNodeProps i ls, DoDeleteNode i}"
  shows "graph_step V (fst (graph_do view_ops h c V))"
proof (cases "node_recs V i")
  case None
  then show ?thesis using c graph_step_refl [OF ok] missing_node [OF graph_okD [OF ok] None] by auto
next
  case (Some r)
  note g = graph_okD [OF ok]
  have sz: "node_size V i = (length (fst r), length (snd r))" using Some by (simp add: node_size_def)
  from c consider "c = DoUpdateNode i ps" | "c = DoAddLabels i ls" | "c = DoRemoveLabels i ls" | "c = DoReplaceNodeProps i ps" | "c = DoDeleteNodeProps i ls" | "c = DoDeleteNode i"
    by auto
  then show ?thesis
  proof cases
    case 1
    then show ?thesis using UpdateNode_changed [OF g Some, of ps 0 h] fit sz graph_step_changed by fastforce
  next
    case 2
    then show ?thesis using AddLabels_changed [OF g Some, of ls 0 h] fit sz graph_step_changed by fastforce
  next
    case 3
    then show ?thesis using RemoveLabels_changed [OF g Some, of 0 h ls] fit sz graph_step_changed by fastforce
  next
    case 4
    then show ?thesis using ReplaceNodeProps_changed [OF g Some, of ps 0 h] fit sz graph_step_changed by fastforce
  next
    case 5
    then show ?thesis using DeleteNodeProps_changed [OF g Some, of 0 h ls] fit sz graph_step_changed by fastforce
  next
    case 6
    then show ?thesis using DeleteNode_view [OF g Some, of h] graph_step_changed by fastforce
  qed
qed

lemma graph_do_edge_ok:
  assumes ok: "graph_ok V" and fit: "call_fits V c" and c: "c \<in> {DoUpdateEdge i ps, DoReplaceEdgeProps i ps, DoDeleteEdgeProps i ls, DoDeleteEdge i}"
  shows "graph_step V (fst (graph_do view_ops h c V))"
proof (cases "edge_recs V i")
  case None
  then show ?thesis using c graph_step_refl [OF ok] missing_edge [OF graph_okD [OF ok] None] by auto
next
  case (Some d)
  note g = graph_okD [OF ok]
  have sz: "edge_size V i = length (de_Props d)" using Some by (simp add: edge_size_def)
  have r0: "room V 0" using graph_atD(1) [OF g] by (simp add: base_def)
  from c consider "c = DoUpdateEdge i ps" | "c = DoReplaceEdgeProps i ps" | "c = DoDeleteEdgeProps i ls" | "c = DoDeleteEdge i" by auto
  then show ?thesis
  proof cases
    case 1
    then show ?thesis using UpdateEdge_changed [OF g Some, of ps 0 h] fit sz graph_step_changed by fastforce
  next
    case 2
    then show ?thesis using ReplaceEdgeProps_changed [OF g Some, of ps 0 h] fit graph_step_changed by fastforce
  next
    case 3
    then show ?thesis using DeleteEdgeProps_changed [OF g Some r0, of h ls] graph_step_changed by fastforce
  next
    case 4
    then show ?thesis using DeleteEdge_view [OF g Some, of h] graph_step_changed by fastforce
  qed
qed

lemma AllocIndexID_view:
  assumes ok: "schema_ok V"
  shows "schema_step V (fst (AllocIndexID view_ops V h))"
proof -
  have s: "schema_step V (upd_view V KSCatalog (catalogKey KindNextIndex []) (Some raw))" for raw by (rule schema_step_record) simp_all
  have "\<exists>W. bump view_ops (upd_view V KSCatalog (catalogKey KindNextIndex []) (Some raw)) h = (W, Inr ()) \<and> schema_step V W" for raw
    using bump_view [OF schema_step_ok [OF s ok]] schema_step_trans [OF s] by blast
  then obtain W where "\<And>raw. bump view_ops (upd_view V KSCatalog (catalogKey KindNextIndex []) (Some raw)) h = (W raw, Inr ())" "\<And>raw. schema_step V (W raw)"
    by metis
  then show ?thesis by (simp add: AllocIndexID_def u_reads writeU64_def cat_key_catalogKey Let_def split: option.split)
qed

lemma graph_do_schema_ok:
  assumes ok: "graph_ok V" and fit: "call_fits V c"
    and c: "c \<in> {DoPutIndex ix, DoDropIndex nm, DoPutConstraint co, DoDropConstraint nm, DoPutStats st, DoAllocIndexID}"
  shows "graph_step V (fst (graph_do view_ops h c V))"
proof -
  note s = graph_schema_ok [OF graph_okD [OF ok]]
  have fst_reply: "fst (reply f p) = fst p" for f and p :: "kvview \<times> 'r sresult" by (cases p; cases "snd p") simp_all
  have "schema_step V (fst (graph_do view_ops h c V))"
    using c fit PutIndex_view [OF s, of ix h] PutConstraint_view [OF s, of co h] dropRecord_view [OF s, of KindIndex h nm]
      dropRecord_view [OF s, of KindConstraint h nm] PutStats_view [OF s, of st h] AllocIndexID_view [OF s, of h]
    by (auto simp: fst_reply DropIndex_def DropConstraint_def)
  then show ?thesis using graph_schema_step [OF graph_okD [OF ok]] graph_step_changed(4) by blast
qed

lemma graph_do_ok:
  assumes ok: "graph_ok V" and fit: "call_fits V c"
  shows "graph_step V (fst (graph_do view_ops h c V))"
proof (cases c)
  case (DoCreateNode ls ps)
  then show ?thesis using CreateNode_view [OF graph_okD [OF ok], of ls ps 0 h] fit graph_step_changed by fastforce
next
  case (DoCreateEdge a b l ps)
  show ?thesis
  proof (cases "node_recs V a = None \<or> node_recs V b = None")
    case True
    then show ?thesis using missing_ends [OF graph_okD [OF ok], where a = a and b = b and h = h and l = l and ps = ps] DoCreateEdge graph_step_refl [OF ok] by (cases "node_recs V a") auto
  next
    case False
    then show ?thesis using CreateEdge_view [OF graph_okD [OF ok], of ps 0 a b h l] fit DoCreateEdge graph_step_changed by fastforce
  qed
qed (use graph_do_node_ok [OF ok fit] graph_do_edge_ok [OF ok fit] graph_do_schema_ok [OF ok fit] in auto)

section \<open>The empty store\<close>

lemma schema_empty: "\<exists>sch. schema_at (\<lambda>_ _. None) sch"
proof -
  have f: "fin_view (\<lambda>_ _. None)" by (simp add: fin_view_def)
  have "scan_view (\<lambda>_ _. None) ks pre = []" for ks pre by (simp add: scan_view_def)
  then show ?thesis
    by (simp add: schema_at_def cat_Load_def readU32_def readU64_def listIndexes_def listConstraints_def loadStats_def
        scanKind_view [OF f] view_get_def)
qed

lemma graph_ok_empty: "graph_ok (\<lambda>_ _. None)"
proof -
  have "base (\<lambda>_ _. None)"
    by (simp add: base_def fin_view_def tables_def names_ok_def counter_ok_def counter_of_def name_id_def id_name_def room_def wcount_ok_def schema_empty)
  then show ?thesis
    by (simp add: graph_ok_def graph_at_def nodes_at_def edges_part_def edges_at_def out_index_def in_index_def type_index_def
        label_index_def prop_index_def node_recs_def edge_recs_def labels_of_def props_of_def)
qed

section \<open>The memory engine\<close>

text \<open>A transaction of the memory engine at work on a consistent graph.\<close>

definition graph_inv :: "memEngine \<Rightarrow> nat \<Rightarrow> bool" where
  "graph_inv e h \<longleftrightarrow> mem_inv e \<and> mem_usable e \<and> mem_writable e h \<and> mem_exclusive e h \<and> graph_ok (mem_view e h) \<and> graph_ok (mem_committed e)"

text \<open>The states a run reaches: calls within the limits, commits and rollbacks, from an empty engine.\<close>

inductive graph_state :: "memEngine \<Rightarrow> nat \<Rightarrow> bool" where
  start: "mem_Begin mem_Open False = (e, Inr h) \<Longrightarrow> graph_state e h"
| call: "graph_state e h \<Longrightarrow> call_fits (mem_view e h) c \<Longrightarrow> graph_state (fst (graph_do mem_ops h c e)) h"
| commit: "graph_state e h \<Longrightarrow> mem_Commit e h = (e1, Inr ()) \<Longrightarrow> mem_Begin e1 False = (e2, Inr h2) \<Longrightarrow> graph_state e2 h2"
| rollback: "graph_state e h \<Longrightarrow> mem_Rollback e h = (e1, Inr ()) \<Longrightarrow> mem_Begin e1 False = (e2, Inr h2) \<Longrightarrow> graph_state e2 h2"

lemma reply_sim: "sim S p q \<Longrightarrow> sim S (reply f p) (reply f q)"
  unfolding reply_def by (rule sim_rules | assumption)+

context kv_write
begin

lemma sim_graph_do: "T e h V \<Longrightarrow> sim (\<lambda>e. T e h) (graph_do ops h c e) (graph_do view_ops h c V)"
  by (cases c) (simp_all only: graph_do.simps DropIndex_def DropConstraint_def, (intro reply_sim sim_CreateNode sim_UpdateNode sim_AddLabels sim_RemoveLabels sim_ReplaceNodeProps
      sim_DeleteNodeProps sim_DeleteNode sim_CreateEdge sim_UpdateEdge sim_ReplaceEdgeProps sim_DeleteEdgeProps sim_DeleteEdge
      sim_PutIndex sim_PutConstraint sim_dropRecord sim_PutStats sim_AllocIndexID, assumption)+)

end

lemma graph_do_mem:
  assumes "mem_inv e" "mem_writable e h"
  shows "\<exists>e'. graph_do mem_ops h c e = (e', snd (graph_do view_ops h c (mem_view e h))) \<and> mem_inv e' \<and> mem_writable e' h
    \<and> mem_view e' h = fst (graph_do view_ops h c (mem_view e h)) \<and> mem_usable e' = mem_usable e \<and> mem_committed e' = mem_committed e
    \<and> mem_exclusive e' h = mem_exclusive e h"
  using mem.wr.sim_graph_do [of e h "mem_view e h" "mem_usable e" "mem_committed e" "mem_exclusive e h" c] assms
  by (cases "graph_do mem_ops h c e") (auto simp: sim_def)

lemma begin_empty: "mem_Begin mem_Open False = (e, Inr h) \<Longrightarrow> mem_inv e \<and> mem_usable e \<and> mem_writable e h \<and> mem_exclusive e h
    \<and> mem_view e h = (\<lambda>_ _. None) \<and> mem_committed e = (\<lambda>_ _. None)"
proof -
  assume b: "mem_Begin mem_Open False = (e, Inr h)"
  have "mem_usable mem_Open" "mem_committed mem_Open = (\<lambda>_ _. None)"
    by (simp_all add: mem_usable_def mem_committed_def mem_Open_def snap_view_def space_map_def fun_eq_iff no_hooks_def run_hook_def)
  then show ?thesis using mem_begin_law [OF mem_inv_init, of False] b by auto
qed

lemma graph_state_inv: "graph_state e h \<Longrightarrow> graph_inv e h"
proof (induction rule: graph_state.induct)
  case (start e h)
  then show ?case using begin_empty graph_ok_empty by (simp add: graph_inv_def)
next
  case (call e h c)
  then show ?case using graph_do_mem [of e h c] graph_do_ok [of "mem_view e h" c h] by (auto simp: graph_inv_def graph_step_def)
next
  case (commit e h e1 e2 h2)
  then show ?case using mem_commit_law [of e h] mem_begin_law [of e1 False] by (auto simp: graph_inv_def)
next
  case (rollback e h e1 e2 h2)
  then show ?case using mem_rollback_law [of e h] mem_begin_law [of e1 False] mem.writable_live [of e h] by (auto simp: graph_inv_def)
qed

end
