(* ===== verification/GraphProps.thy ===== *)
theory GraphProps
  imports GraphCalls
begin

text \<open>
  The graph store on the memory engine: what the operations of \<^verbatim>\<open>storage/graphstore\<close> promise a caller who holds
  a write transaction, in the states a run of calls, commits and rollbacks reaches from an empty engine.
\<close>

section \<open>Between the engine and the contents\<close>

abbreviation same_tx :: "memEngine \<Rightarrow> nat \<Rightarrow> memEngine \<Rightarrow> kvview \<Rightarrow> bool" where
  "same_tx e h e' V \<equiv> e' = e \<and> mem_inv e' \<and> mem_live e' h \<and> mem_view e' h = V"

abbreviation working_tx :: "memEngine \<Rightarrow> nat \<Rightarrow> memEngine \<Rightarrow> kvview \<Rightarrow> bool" where
  "working_tx e h e' V \<equiv> mem_inv e' \<and> mem_writable e' h \<and> mem_view e' h = V \<and> mem_usable e' = mem_usable e
     \<and> mem_committed e' = mem_committed e \<and> mem_exclusive e' h = mem_exclusive e h"

lemma graph_invD:
  assumes "graph_inv e h"
  shows "mem_inv e" "mem_live e h" "mem_writable e h" "graph_at (mem_view e h) (node_recs (mem_view e h)) (edge_recs (mem_view e h))"
    "same_tx e h e (mem_view e h)" "working_tx e h e (mem_view e h)"
  using assms mem.writable_live [of e h] graph_okD by (auto simp: graph_inv_def)

lemma read_mem: "sim (same_tx e h) p q \<Longrightarrow> p = (e, snd q)"
  by (cases p) (simp add: sim_def)

lemma mem_reads:
  assumes "graph_inv e h"
  shows "GetNode mem_ops e h i = (e, snd (GetNode view_ops (mem_view e h) h i))"
    "GetEdge mem_ops e h i = (e, snd (GetEdge view_ops (mem_view e h) h i))"
    "AllNodes mem_ops e h = (e, snd (AllNodes view_ops (mem_view e h) h))"
    "AllEdges mem_ops e h = (e, snd (AllEdges view_ops (mem_view e h) h))"
    "NodesByLabel mem_ops e h l = (e, snd (NodesByLabel view_ops (mem_view e h) h l))"
    "NodesByPropEq mem_ops e h l v = (e, snd (NodesByPropEq view_ops (mem_view e h) h l v))"
    "EdgesByLabel mem_ops e h l = (e, snd (EdgesByLabel view_ops (mem_view e h) h l))"
    "EdgesBetween mem_ops e h i j = (e, snd (EdgesBetween view_ops (mem_view e h) h i j))"
    "Neighbors mem_ops e h i d = (e, snd (Neighbors view_ops (mem_view e h) h i d))"
    "ShortestPath mem_ops e h i j = (e, snd (ShortestPath view_ops (mem_view e h) h i j))"
    "lookupName mem_ops e h kd nm = (e, snd (lookupName view_ops (mem_view e h) h kd nm))"
    "catName mem_ops e h kd x = (e, snd (catName view_ops (mem_view e h) h kd x))"
  using graph_invD(5) [OF assms]
  by (auto intro!: read_mem mem.rd.sim_GetNode mem.rd.sim_GetEdge mem.rd.sim_AllNodes mem.rd.sim_AllEdges mem.rd.sim_NodesByLabel mem.rd.sim_NodesByPropEq
      mem.rd.sim_EdgesByLabel mem.rd.sim_EdgesBetween mem.rd.sim_Neighbors mem.rd.sim_ShortestPath mem.rd.sim_lookupName mem.rd.sim_catName)

lemma write_state: "graph_state e h \<Longrightarrow> call_fits (mem_view e h) c \<Longrightarrow> graph_do mem_ops h c e = (e', r) \<Longrightarrow> graph_state e' h"
  using graph_state.call [of e h c] by simp

lemma graph_do_run:
  assumes "graph_inv e h" "graph_do view_ops h c (mem_view e h) = (W, r)"
  shows "\<exists>e'. graph_do mem_ops h c e = (e', r) \<and> mem_view e' h = W"
  using graph_do_mem [OF graph_invD(1,3) [OF assms(1)], of c] assms(2) by auto

text \<open>Entities an operation does not name read as before.\<close>

lemma other_node:
  assumes g: "graph_at V N E" "graph_at W N' E'" and w: "grows V W" and n: "N' i = N i"
  shows "snd (GetNode view_ops W h i) = snd (GetNode view_ops V h i)"
proof -
  have t: "tables V" "tables W" using g graph_atD(1) base_tables by blast+
  show ?thesis using n node_view_grows [OF graph_atD(6) [OF g(1), of i] w t] by (cases "N i") (auto simp: graph_GetNode [OF g(1)] graph_GetNode [OF g(2)])
qed

lemma other_edge:
  assumes g: "graph_at V N E" "graph_at W N' E'" and w: "grows V W" and n: "E' i = E i"
  shows "snd (GetEdge view_ops W h i) = snd (GetEdge view_ops V h i)"
proof -
  have t: "tables V" "tables W" using g graph_atD(1) base_tables by blast+
  show ?thesis using n edge_view_grows [OF graph_atD(8) [OF g(1), of i] w t] by (cases "E i") (auto simp: GetEdge_view [OF g(1)] GetEdge_view [OF g(2)])
qed

lemma reply_node: "reply ANode p = (e, Inr (ANode n)) \<longleftrightarrow> p = (e, Inr n)"
  by (cases p; cases "snd p") auto

lemma reply_edge: "reply AEdge p = (e, Inr (AEdge n)) \<longleftrightarrow> p = (e, Inr n)"
  by (cases p; cases "snd p") auto

lemma reply_unit: "reply (\<lambda>_. ANothing) p = (e, Inr ANothing) \<longleftrightarrow> p = (e, Inr ())"
  by (cases p; cases "snd p") auto

lemma reply_error: "reply f p = (e, Inl x) \<longleftrightarrow> p = (e, Inl x)"
  by (cases p; cases "snd p") auto

text \<open>The engine after a call that changed one node, or one edge.\<close>

definition only_node :: "memEngine \<Rightarrow> memEngine \<Rightarrow> nat \<Rightarrow> uint64 \<Rightarrow> Node option \<Rightarrow> bool" where
  "only_node e e' h i n \<longleftrightarrow> graph_state e' h
     \<and> GetNode mem_ops e' h i = (e', case n of None \<Rightarrow> Inl (GraphNotFound ''node'' i) | Some n \<Rightarrow> Inr n)
     \<and> (\<forall>j. j \<noteq> i \<longrightarrow> snd (GetNode mem_ops e' h j) = snd (GetNode mem_ops e h j))"

definition same_edges :: "memEngine \<Rightarrow> memEngine \<Rightarrow> nat \<Rightarrow> bool" where
  "same_edges e e' h \<longleftrightarrow> (\<forall>j. snd (GetEdge mem_ops e' h j) = snd (GetEdge mem_ops e h j))"

lemma only_node_run:
  assumes s: "graph_state e h" "call_fits (mem_view e h) c" and run: "graph_do view_ops h c (mem_view e h) = (W, Inr (ANode n))"
    and g: "graph_at W ((node_recs (mem_view e h))(i \<mapsto> r)) (edge_recs (mem_view e h))" and w: "grows (mem_view e h) W" and n: "n = node_view W i r"
  shows "\<exists>e'. graph_do mem_ops h c e = (e', Inr (ANode n)) \<and> only_node e e' h i (Some n) \<and> same_edges e e' h"
proof -
  note iv = graph_state_inv [OF s(1)]
  note g0 = graph_invD(4) [OF iv]
  obtain e' where e': "graph_do mem_ops h c e = (e', Inr (ANode n))" "mem_view e' h = W" using graph_do_run [OF iv run] by blast
  have st: "graph_state e' h" by (rule write_state [OF s e'(1)])
  note iv' = graph_state_inv [OF st]
  have "GetNode mem_ops e' h i = (e', Inr n)" unfolding mem_reads(1) [OF iv'] e'(2) graph_GetNode [OF g] by (simp add: n)
  moreover have "snd (GetNode mem_ops e' h j) = snd (GetNode mem_ops e h j)" if "j \<noteq> i" for j
    using other_node [OF g0 g w, of j h] that by (simp add: mem_reads(1) [OF iv'] mem_reads(1) [OF iv] e'(2))
  moreover have "snd (GetEdge mem_ops e' h j) = snd (GetEdge mem_ops e h j)" for j
    using other_edge [OF g0 g w, of j h] by (simp add: mem_reads(2) [OF iv'] mem_reads(2) [OF iv] e'(2))
  ultimately show ?thesis using e'(1) st by (auto simp: only_node_def same_edges_def)
qed

lemma changed_run:
  assumes s: "graph_state e h" "call_fits (mem_view e h) c" and run: "graph_do view_ops h c (mem_view e h) = (W, Inr (ANode n))"
    and ch: "node_changed (mem_view e h) W (node_recs (mem_view e h)) (edge_recs (mem_view e h)) m i n"
  shows "\<exists>e'. graph_do mem_ops h c e = (e', Inr (ANode n)) \<and> only_node e e' h i (Some n) \<and> same_edges e e' h"
proof -
  obtain r where r: "n = node_view W i r" "graph_at W ((node_recs (mem_view e h))(i \<mapsto> r)) (edge_recs (mem_view e h))" "grows (mem_view e h) W"
    using ch by (auto simp: node_changed_def)
  show ?thesis by (rule only_node_run [OF s run r(2,3,1)])
qed

lemma node_read:
  "graph_inv e h \<Longrightarrow> GetNode mem_ops e h i = (e, case node_recs (mem_view e h) i of None \<Rightarrow> Inl (GraphNotFound ''node'' i) | Some r \<Rightarrow> Inr (node_view (mem_view e h) i r))"
  using mem_reads(1) graph_GetNode [OF graph_invD(4)] by fastforce

lemma edge_read:
  "graph_inv e h \<Longrightarrow> GetEdge mem_ops e h i = (e, case edge_recs (mem_view e h) i of None \<Rightarrow> Inl (GraphNotFound ''edge'' i) | Some d \<Rightarrow> Inr (edge_view (mem_view e h) i d))"
  using mem_reads(2) GetEdge_view [OF graph_invD(4)] by fastforce

lemma existing_node:
  assumes "graph_inv e h" "snd (GetNode mem_ops e h i) = Inr n"
  shows "\<exists>r. node_recs (mem_view e h) i = Some r \<and> n = node_view (mem_view e h) i r"
  using assms(2) unfolding node_read [OF assms(1)] by (cases "node_recs (mem_view e h) i") auto

lemma existing_edge:
  assumes "graph_inv e h" "snd (GetEdge mem_ops e h i) = Inr ed"
  shows "\<exists>d. edge_recs (mem_view e h) i = Some d \<and> ed = edge_view (mem_view e h) i d"
  using assms(2) unfolding edge_read [OF assms(1)] by (cases "edge_recs (mem_view e h) i") auto

section \<open>A small graph\<close>

text \<open>States the properties are tried on: an empty store, one node, two nodes, and an edge from the first to the second.\<close>

definition small_calls :: "graph_call list" where
  "small_calls = [DoCreateNode [[0x41]] [([0x70], VInt 7)], DoCreateNode [] [], DoCreateEdge 1 2 [0x45] []]"

definition small_graph :: "nat \<Rightarrow> memEngine" where
  "small_graph n = fold (\<lambda>c e. fst (graph_do mem_ops 0 c e)) (take n small_calls) (fst (mem_Begin mem_Open False))"

lemma start_state: "graph_state (small_graph 0) 0" "mem_view (small_graph 0) 0 = (\<lambda>_ _. None)"
proof -
  have b: "mem_Begin mem_Open False = (small_graph 0, Inr 0)" by (simp add: small_graph_def mem_Begin_def mem_Open_def)
  show "graph_state (small_graph 0) 0" by (rule graph_state.start [OF b])
  show "mem_view (small_graph 0) 0 = (\<lambda>_ _. None)" using begin_empty [OF b] by blast
qed

lemma small_step: "n < length small_calls \<Longrightarrow> small_graph (Suc n) = fst (graph_do mem_ops 0 (small_calls ! n) (small_graph n))"
  by (simp add: small_graph_def take_Suc_conv_app_nth)

lemma values_fit_small: "values_fit []" "values_fit [([0x70], VInt 7)]"
proof -
  have "length (EncodeRecord (VInt 7)) \<le> 16" by code_simp
  then show "values_fit []" "values_fit [([0x70], VInt 7)]" by (simp_all add: values_fit_def sizeofProp_def maxAlloc_def)
qed

lemma make_node:
  assumes s: "graph_state e h" and rm: "room (mem_view e h) (length ls + length ps + m)" and fit: "values_fit ps" "length ls * sizeofUint32 \<le> maxAlloc"
    and up: "counter_of (mem_view e h) catNextNode + 1 \<noteq> 0" and e': "e' = fst (graph_do mem_ops h (DoCreateNode ls ps) e)"
  shows "graph_state e' h \<and> room (mem_view e' h) m \<and> counter_of (mem_view e' h) catNextNode = counter_of (mem_view e h) catNextNode + 1
    \<and> counter_of (mem_view e' h) catNextEdge = counter_of (mem_view e h) catNextEdge \<and> edge_recs (mem_view e' h) = edge_recs (mem_view e h)
    \<and> (\<exists>r. node_recs (mem_view e' h) = (node_recs (mem_view e h))(counter_of (mem_view e h) catNextNode \<mapsto> r)
         \<and> n_Labels (node_view (mem_view e' h) (counter_of (mem_view e h) catNextNode) r) = normalizeLabels ls \<and> length (snd r) = length ps)"
proof -
  note iv = graph_state_inv [OF s]
  obtain W r n where w: "CreateNode view_ops (mem_view e h) h ls ps = (W, Inr n)" "n = node_view W (counter_of (mem_view e h) catNextNode) r"
      "graph_at W ((node_recs (mem_view e h))(counter_of (mem_view e h) catNextNode \<mapsto> r)) (edge_recs (mem_view e h))" "room W m"
      "n_Labels n = normalizeLabels ls" "n_Props n = sorted_props W ps"
      "counter_of W catNextNode = counter_of (mem_view e h) catNextNode + 1" "counter_of W catNextEdge = counter_of (mem_view e h) catNextEdge"
    using CreateNode_view [OF graph_invD(4) [OF iv] rm fit up, of h] by blast
  have "mem_view e' h = W" using graph_do_run [OF iv, of "DoCreateNode ls ps"] w(1) e' by auto
  moreover have "graph_state e' h" using graph_state.call [OF s, of "DoCreateNode ls ps"] room_mono [OF rm] fit up e' by simp
  moreover have "length (snd r) = length (n_Props n)" using w(2) by simp
  moreover have "length (sorted_props W ps) = length ps" by (simp add: sorted_props_def)
  ultimately show ?thesis using w(2,4-8) graph_at_ok [OF w(3)] by (intro conjI exI [of _ r]) (simp_all del: node_view_simps)
qed

lemma small_one:
  "graph_state (small_graph 1) 0 \<and> room (mem_view (small_graph 1) 0) 90 \<and> counter_of (mem_view (small_graph 1) 0) catNextNode = 2
    \<and> counter_of (mem_view (small_graph 1) 0) catNextEdge = 1 \<and> edge_recs (mem_view (small_graph 1) 0) = Map.empty
    \<and> (\<exists>r. node_recs (mem_view (small_graph 1) 0) = [1 \<mapsto> r] \<and> n_Labels (node_view (mem_view (small_graph 1) 0) 1 r) = [[0x41]] \<and> length (snd r) = 1)"
proof -
  have e: "small_graph 1 = fst (graph_do mem_ops 0 (DoCreateNode [[0x41]] [([0x70], VInt 7)]) (small_graph 0))"
    using small_step [of 0] by (simp add: small_calls_def)
  have v: "counter_of (\<lambda>_ _. None) catNextNode = 1" "counter_of (\<lambda>_ _. None) catNextEdge = 1" "room (\<lambda>_ _. None) n \<longleftrightarrow> n < 0xFF000000"
      "node_recs (\<lambda>_ _. None) = Map.empty" "edge_recs (\<lambda>_ _. None) = Map.empty" for n
    by (auto simp: counter_of_def room_def node_recs_def edge_recs_def)
  have n: "normalizeLabels [[0x41]] = [[0x41]]" by code_simp
  show ?thesis
    using make_node [OF start_state(1) _ values_fit_small(2) _ _ e, of 90] n unfolding start_state(2) v by (simp add: sizeofUint32_def maxAlloc_def v del: node_view_simps)
qed

lemma small_two:
  "graph_state (small_graph 2) 0 \<and> room (mem_view (small_graph 2) 0) 90 \<and> counter_of (mem_view (small_graph 2) 0) catNextEdge = 1
    \<and> edge_recs (mem_view (small_graph 2) 0) = Map.empty \<and> dom (node_recs (mem_view (small_graph 2) 0)) = {1, 2}"
proof -
  have e: "small_graph 2 = fst (graph_do mem_ops 0 (DoCreateNode [] []) (small_graph 1))"
    using small_step [of 1] by (simp add: small_calls_def numeral_2_eq_2)
  show ?thesis using small_one make_node [OF _ _ values_fit_small(1) _ _ e, of 90] by (auto simp: sizeofUint32_def maxAlloc_def split: if_splits)
qed

lemma small_three:
  "graph_state (small_graph 3) 0 \<and> room (mem_view (small_graph 3) 0) 80 \<and> counter_of (mem_view (small_graph 3) 0) catNextEdge = 2 \<and> dom (node_recs (mem_view (small_graph 3) 0)) = {1, 2}
    \<and> (\<exists>d. edge_recs (mem_view (small_graph 3) 0) = [1 \<mapsto> d] \<and> de_From d = 1 \<and> de_To d = 2 \<and> de_Props d = [])"
proof -
  let ?V = "mem_view (small_graph 2) 0"
  have e: "small_graph 3 = fst (graph_do mem_ops 0 (DoCreateEdge 1 2 [0x45] []) (small_graph 2))"
    using small_step [of 2] by (simp add: small_calls_def numeral_3_eq_3)
  note iv = graph_state_inv [OF conjunct1 [OF small_two]]
  have rm: "room ?V (Suc (length []) + 80)" using small_two room_mono [of ?V 90] by simp
  have ends: "node_recs ?V 1 \<noteq> None" "node_recs ?V 2 \<noteq> None" using small_two by (auto simp: dom_def)
  have up: "counter_of ?V catNextEdge + 1 \<noteq> 0" using small_two by simp
  obtain W ed where w: "CreateEdge view_ops ?V 0 1 2 [0x45] [] = (W, Inr ed)" "edge_changed ?V W (node_recs ?V) (edge_recs ?V) 80 ed"
      "e_ID ed = 1" "e_From ed = 1" "e_To ed = 2" "prop_val (e_Props ed) = map_of []" "counter_of W catNextEdge = 2"
    using CreateEdge_view [OF graph_invD(4) [OF iv] rm values_fit_small(1) ends up, of 0 "[0x45]"] small_two by auto
  have W: "mem_view (small_graph 3) 0 = W" using graph_do_run [OF iv, of "DoCreateEdge 1 2 [0x45] []"] w(1) e by auto
  have st: "graph_state (small_graph 3) 0"
    using graph_state.call [OF conjunct1 [OF small_two], of "DoCreateEdge 1 2 [0x45] []"] room_mono [OF rm] up e values_fit_small by simp
  obtain d where d: "ed = edge_view W 1 d" "graph_at W (node_recs ?V) ((edge_recs ?V)(1 \<mapsto> d))" "room W 80" using w(2,3) by (auto simp: edge_changed_def)
  have "e_Props ed = []" using w(6) by (cases "e_Props ed") (auto simp: prop_val_def fun_eq_iff split: if_splits)
  then show ?thesis using W st d w(4,5,7) small_two graph_at_ok [OF d(2)] by (intro conjI exI [of _ d]) simp_all
qed

section \<open>The store is consistent and is the map it denotes\<close>



text \<open>
  C14. A call of the graph store on a write transaction of the memory engine does what the same call does on the finite map
  the transaction sees: the same reply or error, and the map it leaves. The committed contents stay as they are until the
  transaction commits, and a commit makes the map the committed contents.
\<close>

theorem graph_refines:
  assumes "graph_state e h" "graph_do mem_ops h c e = (e', r)"
  shows "graph_do view_ops h c (mem_view e h) = (mem_view e' h, r) \<and> mem_committed e' = mem_committed e
    \<and> (\<exists>e2. mem_Commit e' h = (e2, Inr ()) \<and> mem_committed e2 = mem_view e' h)"
proof -
  note iv = graph_state_inv [OF assms(1)]
  have g: "graph_do view_ops h c (mem_view e h) = (mem_view e' h, r)" "mem_committed e' = mem_committed e" "mem_inv e'" "mem_writable e' h"
    "mem_usable e'" "mem_exclusive e' h"
    using graph_do_mem [OF graph_invD(1,3) [OF iv], of c] iv assms(2) by (auto simp: graph_inv_def prod_eq_iff)
  then show ?thesis using mem_commit_law [of e' h] by (cases "mem_Commit e' h") auto
qed

theorem graph_refines_witness:
  "\<exists>r e2. graph_do view_ops 0 (DoCreateNode [[0x41]] [([0x70], VInt 7)]) (\<lambda>_ _. None) = (mem_view (small_graph 1) 0, r)
    \<and> mem_Commit (small_graph 1) 0 = (e2, Inr ()) \<and> mem_committed e2 = mem_view (small_graph 1) 0"
  using graph_refines [OF start_state(1) prod.collapse [symmetric], of "DoCreateNode [[0x41]] [([0x70], VInt 7)]"] small_step [of 0]
  unfolding start_state(2) by (auto simp: small_calls_def)

section \<open>Nodes\<close>

text \<open>
  C24. CreateNode gives the node an id no node has, with the labels sorted and without repetition and each property with its
  value. Reading the node back returns it; every other node and every edge read as before.
\<close>

theorem node_created:
  assumes s: "graph_state e h" and fit: "call_fits (mem_view e h) (DoCreateNode ls ps)"
  shows "\<exists>e' n. CreateNode mem_ops e h ls ps = (e', Inr n) \<and> snd (GetNode mem_ops e h (n_ID n)) = Inl (GraphNotFound ''node'' (n_ID n))
    \<and> sorted (n_Labels n) \<and> distinct (n_Labels n) \<and> set (n_Labels n) = set ls \<and> prop_val (n_Props n) = map_of ps
    \<and> only_node e e' h (n_ID n) (Some n) \<and> same_edges e e' h"
proof -
  note iv = graph_state_inv [OF s]
  let ?V = "mem_view e h" and ?i = "counter_of (mem_view e h) catNextNode"
  have rm: "room ?V (length ls + length ps + 0)" using fit by simp
  obtain W r n where w: "CreateNode view_ops ?V h ls ps = (W, Inr n)" "n = node_view W ?i r" "graph_at W ((node_recs ?V)(?i \<mapsto> r)) (edge_recs ?V)"
      "n_ID n = ?i" "n_Labels n = normalizeLabels ls" "n_Props n = sorted_props W ps" "node_recs ?V ?i = None" "grows ?V W"
    using CreateNode_view [OF graph_invD(4) [OF iv] rm, of h] fit by auto
  have "graph_do view_ops h (DoCreateNode ls ps) ?V = (W, Inr (ANode n))" using w(1) by simp
  from only_node_run [OF s fit this w(3,8,2)] obtain e' where "CreateNode mem_ops e h ls ps = (e', Inr n)" "only_node e e' h ?i (Some n)" "same_edges e e' h"
    by (auto simp: reply_node)
  moreover have "snd (GetNode mem_ops e h ?i) = Inl (GraphNotFound ''node'' ?i)"
    using w(7) by (simp add: node_read [OF iv])
  moreover have "distinct (map fst ps)" using fit by (simp add: values_fit_def)
  ultimately show ?thesis using w(4,5,6) normalizeLabels_props [of ls] by (auto simp: prop_val_sorted)
qed

lemma small_fits: "call_fits (mem_view (small_graph 0) 0) (DoCreateNode [[0x41]] [([0x70], VInt 7)])"
  unfolding start_state(2) using values_fit_small by (simp add: room_def counter_of_def sizeofUint32_def maxAlloc_def)

theorem node_created_witness:
  "\<exists>n. snd (CreateNode mem_ops (small_graph 0) 0 [[0x41]] [([0x70], VInt 7)]) = Inr n \<and> n_Labels n = [[0x41]]
    \<and> GetNode mem_ops (small_graph 1) 0 (n_ID n) = (small_graph 1, Inr n)"
proof -
  have e: "small_graph 1 = fst (graph_do mem_ops 0 (DoCreateNode [[0x41]] [([0x70], VInt 7)]) (small_graph 0))"
    using small_step [of 0] by (simp add: small_calls_def)
  have "sorted ls \<Longrightarrow> distinct ls \<Longrightarrow> set ls = set [[0x41]] \<Longrightarrow> ls = [[0x41]]" for ls :: "gostring list"
    by (rule sorted_distinct_set_unique) simp_all
  then show ?thesis using node_created [OF start_state(1) small_fits] e by (auto simp: only_node_def)
qed

text \<open>What the calls on an existing node make of it.\<close>

fun node_effect :: "graph_call \<Rightarrow> Node \<Rightarrow> Node \<Rightarrow> bool" where
  "node_effect (DoUpdateNode i ps) n n' \<longleftrightarrow> n_Labels n' = n_Labels n \<and> prop_val (n_Props n') = prop_val (n_Props n) ++ map_of ps"
| "node_effect (DoReplaceNodeProps i ps) n n' \<longleftrightarrow> n_Labels n' = n_Labels n \<and> prop_val (n_Props n') = map_of ps"
| "node_effect (DoDeleteNodeProps i ns) n n' \<longleftrightarrow> n_Labels n' = n_Labels n \<and> n_Props n' = filter (\<lambda>p. p_Name p \<notin> set ns) (n_Props n)"
| "node_effect (DoAddLabels i ls) n n' \<longleftrightarrow> set (n_Labels n') = set (n_Labels n) \<union> set ls \<and> n_Props n' = n_Props n"
| "node_effect (DoRemoveLabels i ls) n n' \<longleftrightarrow> set (n_Labels n') = set (n_Labels n) - set ls \<and> n_Props n' = n_Props n"
| "node_effect _ n n' \<longleftrightarrow> False"

fun node_target :: "graph_call \<Rightarrow> uint64 option" where
  "node_target (DoUpdateNode i ps) = Some i"
| "node_target (DoReplaceNodeProps i ps) = Some i"
| "node_target (DoDeleteNodeProps i ns) = Some i"
| "node_target (DoAddLabels i ls) = Some i"
| "node_target (DoRemoveLabels i ls) = Some i"
| "node_target _ = None"

lemma node_effect_view:
  assumes g: "graph_at V (node_recs V) (edge_recs V)" and fit: "call_fits V c" and t: "node_target c = Some i" and r: "node_recs V i = Some r"
  shows "\<exists>W n. graph_do view_ops h c V = (W, Inr (ANode n)) \<and> node_changed V W (node_recs V) (edge_recs V) 0 i n \<and> node_effect c (node_view V i r) n"
proof -
  have sz: "node_size V i = (length (fst r), length (snd r))" using r by (simp add: node_size_def)
  show ?thesis
  proof (cases c)
    case (DoUpdateNode j ps)
    then show ?thesis using t UpdateNode_changed [OF g r, of ps 0 h] fit sz by fastforce
  next
    case (DoAddLabels j ls)
    then show ?thesis using t AddLabels_changed [OF g r, of ls 0 h] fit sz by fastforce
  next
    case (DoRemoveLabels j ls)
    then show ?thesis using t RemoveLabels_changed [OF g r, of 0 h ls] fit sz by fastforce
  next
    case (DoReplaceNodeProps j ps)
    then show ?thesis using t ReplaceNodeProps_changed [OF g r, of ps 0 h] fit sz by fastforce
  next
    case (DoDeleteNodeProps j ns)
    then show ?thesis using t DeleteNodeProps_changed [OF g r, of 0 h ns] fit sz by fastforce
  qed (use t in auto)
qed

text \<open>
  C25. The calls that change an existing node return the node with exactly their change made: UpdateNode overrides the
  properties it names and keeps the others, ReplaceNodeProps leaves only the ones it names, DeleteNodeProps removes the
  named ones, AddLabels and RemoveLabels change only the labels. Reading the node back returns it, and every other node
  and every edge read as before.
\<close>

theorem node_changes:
  assumes s: "graph_state e h" and fit: "call_fits (mem_view e h) c" and t: "node_target c = Some i" and n: "snd (GetNode mem_ops e h i) = Inr n"
  shows "\<exists>e' n'. graph_do mem_ops h c e = (e', Inr (ANode n')) \<and> node_effect c n n' \<and> only_node e e' h i (Some n') \<and> same_edges e e' h"
proof -
  note iv = graph_state_inv [OF s]
  obtain r where r: "node_recs (mem_view e h) i = Some r" "n = node_view (mem_view e h) i r" using existing_node [OF iv n] by blast
  show ?thesis using node_effect_view [OF graph_invD(4) [OF iv] fit t r(1), of h] changed_run [OF s fit] r(2) by metis
qed

lemma small_node: "snd (GetNode mem_ops (small_graph 1) 0 1) = Inr (node_view (mem_view (small_graph 1) 0) 1 (the (node_recs (mem_view (small_graph 1) 0) 1)))"
  using small_one node_read [OF graph_state_inv, of "small_graph 1" 0 1] by auto

theorem node_changes_witness:
  "\<exists>n e' n'. graph_do mem_ops 0 (DoAddLabels 1 [[0x42]]) (small_graph 1) = (e', Inr (ANode n'))
    \<and> node_effect (DoAddLabels 1 [[0x42]]) n n' \<and> GetNode mem_ops e' 0 1 = (e', Inr n')"
proof -
  have st: "graph_state (small_graph 1) 0" using small_one by blast
  obtain r where r: "node_recs (mem_view (small_graph 1) 0) = [1 \<mapsto> r]" "length (n_Labels (node_view (mem_view (small_graph 1) 0) 1 r)) = 1" using small_one by fastforce
  have "room (mem_view (small_graph 1) 0) (Suc (Suc 0))" using small_one room_mono [of _ 90 "Suc (Suc 0)"] by simp
  then have fit: "call_fits (mem_view (small_graph 1) 0) (DoAddLabels 1 [[0x42]])" using r by (simp add: node_size_def sizeofUint32_def maxAlloc_def)
  have t: "node_target (DoAddLabels 1 [[0x42]]) = Some 1" by simp
  show ?thesis using node_changes [OF st fit t small_node] by (auto simp: only_node_def)
qed

text \<open>
  C19. DeleteNode removes the node and exactly the edges that leave or enter it: the node is not found afterwards, an edge is
  found afterwards, unchanged, if it was there and touches another pair of nodes, and every other node reads as before.
\<close>

theorem node_deleted:
  assumes s: "graph_state e h" and n: "snd (GetNode mem_ops e h i) = Inr n"
  shows "\<exists>e'. DeleteNode mem_ops e h i = (e', Inr ()) \<and> only_node e e' h i None
    \<and> (\<forall>j. snd (GetEdge mem_ops e' h j) = (case snd (GetEdge mem_ops e h j) of Inl x \<Rightarrow> Inl x
         | Inr ed \<Rightarrow> if e_From ed = i \<or> e_To ed = i then Inl (GraphNotFound ''edge'' j) else Inr ed))"
proof -
  let ?V = "mem_view e h"
  note iv = graph_state_inv [OF s]
  note g = graph_invD(4) [OF iv]
  obtain r where r: "node_recs ?V i = Some r" using existing_node [OF iv n] by blast
  obtain W where w: "DeleteNode view_ops ?V h i = (W, Inr ())" "graph_at W ((node_recs ?V)(i := None)) (edge_recs ?V |` (- touching (edge_recs ?V) i))" "steady ?V W"
    using DeleteNode_view [OF g r] by blast
  have c: "call_fits ?V (DoDeleteNode i)" by simp
  obtain e' where e': "graph_do mem_ops h (DoDeleteNode i) e = (e', Inr ANothing)" "mem_view e' h = W"
    using graph_do_run [OF iv, of "DoDeleteNode i"] w(1) by auto
  have st: "graph_state e' h" by (rule write_state [OF s c e'(1)])
  note iv' = graph_state_inv [OF st]
  have "GetNode mem_ops e' h i = (e', Inl (GraphNotFound ''node'' i))" by (simp add: mem_reads(1) [OF iv'] e'(2) graph_GetNode [OF w(2)])
  moreover have "snd (GetNode mem_ops e' h j) = snd (GetNode mem_ops e h j)" if "j \<noteq> i" for j
    using other_node [OF g w(2) steady_grows [OF w(3)], of j h] that by (simp add: mem_reads(1) [OF iv'] mem_reads(1) [OF iv] e'(2))
  moreover have "snd (GetEdge mem_ops e' h j) = (case snd (GetEdge mem_ops e h j) of Inl x \<Rightarrow> Inl x
      | Inr ed \<Rightarrow> if e_From ed = i \<or> e_To ed = i then Inl (GraphNotFound ''edge'' j) else Inr ed)" for j
    using other_edge [OF g w(2) steady_grows [OF w(3)], of j h]
    by (cases "edge_recs ?V j") (auto simp: mem_reads(2) [OF iv'] mem_reads(2) [OF iv] e'(2) GetEdge_view [OF g] GetEdge_view [OF w(2)] touching_def restrict_map_def)
  ultimately show ?thesis using e'(1) st by (auto simp: reply_unit only_node_def)
qed

lemma small_ends:
  "\<exists>n. snd (GetNode mem_ops (small_graph 3) 0 1) = Inr n" "\<exists>n. snd (GetNode mem_ops (small_graph 3) 0 2) = Inr n"
  "\<exists>ed. snd (GetEdge mem_ops (small_graph 3) 0 1) = Inr ed \<and> e_From ed = 1 \<and> e_To ed = 2"
proof -
  note iv = graph_state_inv [OF conjunct1 [OF small_three]]
  have "dom (node_recs (mem_view (small_graph 3) 0)) = {1, 2}" using small_three by blast
  then have "1 \<in> dom (node_recs (mem_view (small_graph 3) 0))" "2 \<in> dom (node_recs (mem_view (small_graph 3) 0))" by simp_all
  then show "\<exists>n. snd (GetNode mem_ops (small_graph 3) 0 1) = Inr n" "\<exists>n. snd (GetNode mem_ops (small_graph 3) 0 2) = Inr n"
    by (auto simp: node_read [OF iv])
  obtain d where "edge_recs (mem_view (small_graph 3) 0) = [1 \<mapsto> d]" "de_From d = 1" "de_To d = 2" using small_three by blast
  then show "\<exists>ed. snd (GetEdge mem_ops (small_graph 3) 0 1) = Inr ed \<and> e_From ed = 1 \<and> e_To ed = 2" by (auto simp: edge_read [OF iv])
qed

theorem node_deleted_witness:
  "\<exists>e'. DeleteNode mem_ops (small_graph 3) 0 2 = (e', Inr ()) \<and> snd (GetNode mem_ops e' 0 2) = Inl (GraphNotFound ''node'' 2)
    \<and> snd (GetEdge mem_ops e' 0 1) = Inl (GraphNotFound ''edge'' 1)"
proof -
  obtain n where n: "snd (GetNode mem_ops (small_graph 3) 0 2) = Inr n" using small_ends(2) by blast
  show ?thesis using node_deleted [OF conjunct1 [OF small_three] n] small_ends(3) by (auto simp: only_node_def)
qed

section \<open>Edges\<close>

definition only_edge :: "memEngine \<Rightarrow> memEngine \<Rightarrow> nat \<Rightarrow> uint64 \<Rightarrow> Edge option \<Rightarrow> bool" where
  "only_edge e e' h i ed \<longleftrightarrow> graph_state e' h
     \<and> GetEdge mem_ops e' h i = (e', case ed of None \<Rightarrow> Inl (GraphNotFound ''edge'' i) | Some ed \<Rightarrow> Inr ed)
     \<and> (\<forall>j. j \<noteq> i \<longrightarrow> snd (GetEdge mem_ops e' h j) = snd (GetEdge mem_ops e h j))"

definition same_nodes :: "memEngine \<Rightarrow> memEngine \<Rightarrow> nat \<Rightarrow> bool" where
  "same_nodes e e' h \<longleftrightarrow> (\<forall>j. snd (GetNode mem_ops e' h j) = snd (GetNode mem_ops e h j))"

lemma only_edge_run:
  assumes s: "graph_state e h" "call_fits (mem_view e h) c" and run: "graph_do view_ops h c (mem_view e h) = (W, Inr a)"
    and g: "graph_at W (node_recs (mem_view e h)) ((edge_recs (mem_view e h))(i := d))" and w: "grows (mem_view e h) W"
  shows "\<exists>e'. graph_do mem_ops h c e = (e', Inr a) \<and> only_edge e e' h i (map_option (edge_view W i) d) \<and> same_nodes e e' h"
proof -
  note iv = graph_state_inv [OF s(1)]
  note g0 = graph_invD(4) [OF iv]
  obtain e' where e': "graph_do mem_ops h c e = (e', Inr a)" "mem_view e' h = W" using graph_do_run [OF iv run] by blast
  have st: "graph_state e' h" by (rule write_state [OF s e'(1)])
  note iv' = graph_state_inv [OF st]
  have "edge_recs W i = d" using graph_at_ok [OF g] by (metis fun_upd_same)
  then have "GetEdge mem_ops e' h i = (e', case map_option (edge_view W i) d of None \<Rightarrow> Inl (GraphNotFound ''edge'' i) | Some ed \<Rightarrow> Inr ed)"
    by (simp add: edge_read [OF iv'] e'(2) split: option.split)
  moreover have "snd (GetEdge mem_ops e' h j) = snd (GetEdge mem_ops e h j)" if "j \<noteq> i" for j
    using other_edge [OF g0 g w, of j h] that by (simp add: mem_reads(2) [OF iv'] mem_reads(2) [OF iv] e'(2))
  moreover have "snd (GetNode mem_ops e' h j) = snd (GetNode mem_ops e h j)" for j
    using other_node [OF g0 g w, of j h] by (simp add: mem_reads(1) [OF iv'] mem_reads(1) [OF iv] e'(2))
  ultimately show ?thesis using e'(1) st by (auto simp: only_edge_def same_nodes_def)
qed

lemma edge_changed_run:
  assumes s: "graph_state e h" "call_fits (mem_view e h) c" and run: "graph_do view_ops h c (mem_view e h) = (W, Inr (AEdge ed))"
    and ch: "edge_changed (mem_view e h) W (node_recs (mem_view e h)) (edge_recs (mem_view e h)) m ed"
  shows "\<exists>e'. graph_do mem_ops h c e = (e', Inr (AEdge ed)) \<and> only_edge e e' h (e_ID ed) (Some ed) \<and> same_nodes e e' h"
proof -
  obtain d where d: "ed = edge_view W (e_ID ed) d" "graph_at W (node_recs (mem_view e h)) ((edge_recs (mem_view e h))(e_ID ed \<mapsto> d))" "grows (mem_view e h) W"
    using ch by (auto simp: edge_changed_def)
  show ?thesis using only_edge_run [OF s run d(2,3)] d(1) by simp
qed

text \<open>
  C26. CreateEdge between two existing nodes gives the edge an id no edge has, with its ends, its type and its properties.
  Reading the edge back returns it; every other edge and every node read as before.
\<close>

theorem edge_created:
  assumes s: "graph_state e h" and fit: "call_fits (mem_view e h) (DoCreateEdge a b l ps)"
    and ends: "snd (GetNode mem_ops e h a) = Inr n1" "snd (GetNode mem_ops e h b) = Inr n2"
  shows "\<exists>e' ed. CreateEdge mem_ops e h a b l ps = (e', Inr ed) \<and> snd (GetEdge mem_ops e h (e_ID ed)) = Inl (GraphNotFound ''edge'' (e_ID ed))
    \<and> e_From ed = a \<and> e_To ed = b \<and> e_Label ed = l \<and> prop_val (e_Props ed) = map_of ps
    \<and> only_edge e e' h (e_ID ed) (Some ed) \<and> same_nodes e e' h"
proof -
  let ?V = "mem_view e h"
  note iv = graph_state_inv [OF s]
  have n: "node_recs ?V a \<noteq> None" "node_recs ?V b \<noteq> None" using existing_node [OF iv ends(1)] existing_node [OF iv ends(2)] by blast+
  have rm: "room ?V (Suc (length ps) + 0)" using fit by simp
  obtain W ed where w: "CreateEdge view_ops ?V h a b l ps = (W, Inr ed)" "edge_changed ?V W (node_recs ?V) (edge_recs ?V) 0 ed" "edge_recs ?V (e_ID ed) = None"
      "e_From ed = a" "e_To ed = b" "e_Label ed = l" "prop_val (e_Props ed) = map_of ps"
    using CreateEdge_view [OF graph_invD(4) [OF iv] rm _ n, of h l] fit by auto
  have "graph_do view_ops h (DoCreateEdge a b l ps) ?V = (W, Inr (AEdge ed))" using w(1) by simp
  from edge_changed_run [OF s fit this w(2)] show ?thesis using w(3-7) by (auto simp: reply_edge edge_read [OF iv])
qed

theorem edge_created_witness:
  "\<exists>e' ed. CreateEdge mem_ops (small_graph 3) 0 2 1 [0x46] [] = (e', Inr ed) \<and> e_From ed = 2 \<and> e_To ed = 1 \<and> GetEdge mem_ops e' 0 (e_ID ed) = (e', Inr ed)"
proof -
  let ?V = "mem_view (small_graph 3) 0"
  have "room ?V (Suc 0)" using small_three room_mono [of ?V 80 "Suc 0"] by simp
  moreover have "counter_of ?V catNextEdge + 1 \<noteq> 0" using small_three by simp
  ultimately have fit: "call_fits ?V (DoCreateEdge 2 1 [0x46] [])" using values_fit_small by simp
  obtain n1 n2 where n: "snd (GetNode mem_ops (small_graph 3) 0 2) = Inr n2" "snd (GetNode mem_ops (small_graph 3) 0 1) = Inr n1" using small_ends(1,2) by blast
  show ?thesis using edge_created [OF conjunct1 [OF small_three] fit n] by (auto simp: only_edge_def)
qed

text \<open>What the calls on an existing edge make of it.\<close>

fun edge_effect :: "graph_call \<Rightarrow> Edge \<Rightarrow> Edge \<Rightarrow> bool" where
  "edge_effect (DoUpdateEdge i ps) ed ed' \<longleftrightarrow> prop_val (e_Props ed') = prop_val (e_Props ed) ++ map_of ps"
| "edge_effect (DoReplaceEdgeProps i ps) ed ed' \<longleftrightarrow> prop_val (e_Props ed') = map_of ps"
| "edge_effect (DoDeleteEdgeProps i ns) ed ed' \<longleftrightarrow> e_Props ed' = filter (\<lambda>p. p_Name p \<notin> set ns) (e_Props ed)"
| "edge_effect _ ed ed' \<longleftrightarrow> False"

fun edge_target :: "graph_call \<Rightarrow> uint64 option" where
  "edge_target (DoUpdateEdge i ps) = Some i"
| "edge_target (DoReplaceEdgeProps i ps) = Some i"
| "edge_target (DoDeleteEdgeProps i ns) = Some i"
| "edge_target _ = None"

lemma edge_effect_view:
  assumes g: "graph_at V (node_recs V) (edge_recs V)" and fit: "call_fits V c" and t: "edge_target c = Some i" and d: "edge_recs V i = Some d"
  shows "\<exists>W qs. graph_do view_ops h c V = (W, Inr (AEdge ((edge_view V i d)\<lparr>e_Props := qs\<rparr>)))
    \<and> edge_changed V W (node_recs V) (edge_recs V) 0 ((edge_view V i d)\<lparr>e_Props := qs\<rparr>) \<and> edge_effect c (edge_view V i d) ((edge_view V i d)\<lparr>e_Props := qs\<rparr>)"
proof -
  have sz: "edge_size V i = length (de_Props d)" using d by (simp add: edge_size_def)
  have r0: "room V 0" using graph_atD(1) [OF g] by (simp add: base_def)
  show ?thesis
  proof (cases c)
    case (DoUpdateEdge j ps)
    then have f: "room V (length ps + 0)" "values_fit ps" "(length (de_Props d) + length ps) * sizeofProp \<le> maxAlloc" and j: "j = i" using fit sz t by simp_all
    obtain W qs where "UpdateEdge view_ops V h i ps = (W, Inr ((edge_view V i d)\<lparr>e_Props := qs\<rparr>))"
        "edge_changed V W (node_recs V) (edge_recs V) 0 ((edge_view V i d)\<lparr>e_Props := qs\<rparr>)" "prop_val qs = prop_val (e_Props (edge_view V i d)) ++ map_of ps"
      using UpdateEdge_changed [OF g d f, of h] by blast
    then show ?thesis using DoUpdateEdge j by (intro exI [of _ W] exI [of _ qs]) (simp del: edge_view_simps)
  next
    case (DoReplaceEdgeProps j ps)
    then have f: "room V (length ps + 0)" "values_fit ps" and j: "j = i" using fit t by simp_all
    obtain W qs where "ReplaceEdgeProps view_ops V h i ps = (W, Inr ((edge_view V i d)\<lparr>e_Props := qs\<rparr>))"
        "edge_changed V W (node_recs V) (edge_recs V) 0 ((edge_view V i d)\<lparr>e_Props := qs\<rparr>)" "prop_val qs = map_of ps"
      using ReplaceEdgeProps_changed [OF g d f, of h] by blast
    then show ?thesis using DoReplaceEdgeProps j by (intro exI [of _ W] exI [of _ qs]) simp
  next
    case (DoDeleteEdgeProps j ns)
    let ?qs = "filter (\<lambda>p. p_Name p \<notin> set ns) (e_Props (edge_view V i d))"
    obtain W where "DeleteEdgeProps view_ops V h i ns = (W, Inr ((edge_view V i d)\<lparr>e_Props := ?qs\<rparr>))"
        "edge_changed V W (node_recs V) (edge_recs V) 0 ((edge_view V i d)\<lparr>e_Props := ?qs\<rparr>)"
      using DeleteEdgeProps_changed [OF g d r0, of h ns] by blast
    then show ?thesis using DoDeleteEdgeProps t by (intro exI [of _ W] exI [of _ ?qs]) (simp del: edge_view_simps)
  qed (use t in auto)
qed

text \<open>
  C27. The calls that change an existing edge return the edge with exactly their change made to its properties: UpdateEdge
  overrides, ReplaceEdgeProps replaces, DeleteEdgeProps removes; id, ends and type stay. DeleteEdge leaves no edge at
  the id. Either way the change reads back, and every other edge and every node read as before.
\<close>

theorem edge_changes:
  assumes s: "graph_state e h" and ed: "snd (GetEdge mem_ops e h i) = Inr ed"
  shows "(\<forall>c. call_fits (mem_view e h) c \<longrightarrow> edge_target c = Some i \<longrightarrow> (\<exists>e' ed'. graph_do mem_ops h c e = (e', Inr (AEdge ed')) \<and> edge_effect c ed ed'
        \<and> e_ID ed' = i \<and> e_From ed' = e_From ed \<and> e_To ed' = e_To ed \<and> e_Label ed' = e_Label ed \<and> only_edge e e' h i (Some ed') \<and> same_nodes e e' h))
    \<and> (\<exists>e'. DeleteEdge mem_ops e h i = (e', Inr ()) \<and> only_edge e e' h i None \<and> same_nodes e e' h)"
proof (intro conjI allI impI)
  note iv = graph_state_inv [OF s]
  obtain d where d: "edge_recs (mem_view e h) i = Some d" "ed = edge_view (mem_view e h) i d" using existing_edge [OF iv ed] by blast
  {
    fix c assume c: "call_fits (mem_view e h) c" "edge_target c = Some i"
    obtain W qs where w: "graph_do view_ops h c (mem_view e h) = (W, Inr (AEdge (ed\<lparr>e_Props := qs\<rparr>)))"
        "edge_changed (mem_view e h) W (node_recs (mem_view e h)) (edge_recs (mem_view e h)) 0 (ed\<lparr>e_Props := qs\<rparr>)" "edge_effect c ed (ed\<lparr>e_Props := qs\<rparr>)"
      using edge_effect_view [OF graph_invD(4) [OF iv] c d(1), of h] d(2) by blast
    have "e_ID ed = i" using d(2) by simp
    then show "\<exists>e' ed'. graph_do mem_ops h c e = (e', Inr (AEdge ed')) \<and> edge_effect c ed ed' \<and> e_ID ed' = i \<and> e_From ed' = e_From ed \<and> e_To ed' = e_To ed
        \<and> e_Label ed' = e_Label ed \<and> only_edge e e' h i (Some ed') \<and> same_nodes e e' h"
      using edge_changed_run [OF s c(1) w(1,2)] w(3) by (auto intro!: exI [of _ "ed\<lparr>e_Props := qs\<rparr>"])
  next
    obtain W where w: "DeleteEdge view_ops (mem_view e h) h i = (W, Inr ())"
        "graph_at W (node_recs (mem_view e h)) ((edge_recs (mem_view e h))(i := None))" "steady (mem_view e h) W"
      using DeleteEdge_view [OF graph_invD(4) [OF iv] d(1)] by blast
    have "graph_do view_ops h (DoDeleteEdge i) (mem_view e h) = (W, Inr ANothing)" using w(1) by simp
    from only_edge_run [OF s _ this w(2) steady_grows [OF w(3)]]
    show "\<exists>e'. DeleteEdge mem_ops e h i = (e', Inr ()) \<and> only_edge e e' h i None \<and> same_nodes e e' h" by (auto simp: reply_unit)
  }
qed

theorem edge_changes_witness:
  "(\<exists>e' ed. graph_do mem_ops 0 (DoUpdateEdge 1 [([0x70], VInt 7)]) (small_graph 3) = (e', Inr (AEdge ed)) \<and> e_From ed = 1 \<and> e_To ed = 2
      \<and> GetEdge mem_ops e' 0 1 = (e', Inr ed))
    \<and> (\<exists>e'. DeleteEdge mem_ops (small_graph 3) 0 1 = (e', Inr ()) \<and> snd (GetEdge mem_ops e' 0 1) = Inl (GraphNotFound ''edge'' 1))"
proof -
  let ?V = "mem_view (small_graph 3) 0"
  have "room ?V (Suc 0)" using small_three room_mono [of ?V 80 "Suc 0"] by simp
  moreover have "edge_size ?V 1 = 0" using small_three by (auto simp: edge_size_def)
  ultimately have fit: "call_fits ?V (DoUpdateEdge 1 [([0x70], VInt 7)])" using values_fit_small by (simp add: sizeofProp_def maxAlloc_def)
  obtain ed where ed: "snd (GetEdge mem_ops (small_graph 3) 0 1) = Inr ed" "e_From ed = 1" "e_To ed = 2" using small_ends(3) by blast
  show ?thesis using edge_changes [OF conjunct1 [OF small_three] ed(1)] fit ed(2,3)
    by (auto simp: only_edge_def simp del: call_fits.simps dest!: spec [of _ "DoUpdateEdge 1 [([0x70], VInt 7)]"])
qed

end
