(* ===== verification/GraphReads.thy ===== *)
theory GraphReads
  imports GraphProps
begin

text \<open>
  Reading a graph in the states a run reaches: queries through the indexes return what a scan of everything
  would, searches along the edges are exact, calls on entities that are not there change nothing, and the
  records, names and values a caller sees are well formed.
\<close>

section \<open>Queries through the indexes\<close>

text \<open>A listing in the order of the ids, with everything there is.\<close>

definition node_listing :: "memEngine \<Rightarrow> nat \<Rightarrow> Node list \<Rightarrow> bool" where
  "node_listing e h ns \<longleftrightarrow> sorted_wrt (<) (map n_ID ns) \<and> (\<forall>n. n \<in> set ns \<longleftrightarrow> snd (GetNode mem_ops e h (n_ID n)) = Inr n)"

definition edge_listing :: "memEngine \<Rightarrow> nat \<Rightarrow> Edge list \<Rightarrow> bool" where
  "edge_listing e h es \<longleftrightarrow> sorted_wrt (<) (map e_ID es) \<and> (\<forall>ed. ed \<in> set es \<longleftrightarrow> snd (GetEdge mem_ops e h (e_ID ed)) = Inr ed)"

lemma all_nodes_listing:
  assumes "graph_inv e h"
  shows "node_listing e h (all_nodes (mem_view e h) (node_recs (mem_view e h)))"
proof -
  have "map n_ID (all_nodes (mem_view e h) (node_recs (mem_view e h))) = sorted_list_of_set (dom (node_recs (mem_view e h)))"
    by (simp add: all_nodes_def comp_def)
  moreover have "n \<in> set (all_nodes (mem_view e h) (node_recs (mem_view e h))) \<longleftrightarrow> snd (GetNode mem_ops e h (n_ID n)) = Inr n" for n
    by (auto simp: all_nodes_def node_read [OF assms] image_iff domIff split: option.splits intro!: bexI [of _ "n_ID n"])
  ultimately show ?thesis by (simp add: node_listing_def strict_sorted_list_of_set)
qed

lemma all_edges_listing:
  assumes "graph_inv e h"
  shows "edge_listing e h (all_edges (mem_view e h) (edge_recs (mem_view e h)))"
proof -
  have "map e_ID (all_edges (mem_view e h) (edge_recs (mem_view e h))) = sorted_list_of_set (dom (edge_recs (mem_view e h)))"
    by (simp add: all_edges_def comp_def)
  moreover have "ed \<in> set (all_edges (mem_view e h) (edge_recs (mem_view e h))) \<longleftrightarrow> snd (GetEdge mem_ops e h (e_ID ed)) = Inr ed" for ed
    by (auto simp: all_edges_def edge_read [OF assms] image_iff domIff split: option.splits intro!: bexI [of _ "e_ID ed"])
  ultimately show ?thesis by (simp add: edge_listing_def strict_sorted_list_of_set)
qed

text \<open>
  C22. AllNodes lists every node once, in the order of the ids, and a query through an index is a filter of that list:
  NodesByLabel through the label keyspace, NodesByPropEq through the property keyspace, whose entries match when the
  encoded keys are equal; on values whose dates fit the key encoding that is equality of the values.
\<close>

theorem node_queries:
  assumes s: "graph_state e h"
  shows "\<exists>ns. node_listing e h ns \<and> AllNodes mem_ops e h = (e, Inr ns)
    \<and> NodesByLabel mem_ops e h l = (e, Inr (filter (\<lambda>n. l \<in> set (n_Labels n)) ns))
    \<and> NodesByPropEq mem_ops e h key v = (e, Inr (filter (\<lambda>n. \<exists>p\<in>set (n_Props n). p_Name p = key \<and> EncodeKey (p_Value p) = EncodeKey v) ns))
    \<and> (wf_val v \<and> (\<forall>n\<in>set ns. \<forall>p\<in>set (n_Props n). wf_val (p_Value p)) \<longrightarrow>
        NodesByPropEq mem_ops e h key v = (e, Inr (filter (\<lambda>n. \<exists>p\<in>set (n_Props n). p_Name p = key \<and> Equal (p_Value p) v) ns)))"
proof -
  note iv = graph_state_inv [OF s]
  note g = graph_invD(4) [OF iv]
  let ?ns = "all_nodes (mem_view e h) (node_recs (mem_view e h))"
  have eq: "NodesByPropEq mem_ops e h key v = (e, Inr (filter (\<lambda>n. \<exists>p\<in>set (n_Props n). p_Name p = key \<and> EncodeKey (p_Value p) = EncodeKey v) ?ns))"
    by (simp add: mem_reads(6) [OF iv] NodesByPropEq_view [OF g])
  have w: "NodesByPropEq mem_ops e h key v = (e, Inr (filter (\<lambda>n. \<exists>p\<in>set (n_Props n). p_Name p = key \<and> Equal (p_Value p) v) ?ns))"
    if "wf_val v" "\<forall>n\<in>set ?ns. \<forall>p\<in>set (n_Props n). wf_val (p_Value p)"
    unfolding eq using that EncodeKey_eq_iff by (auto intro!: filter_cong)
  show ?thesis
    by (intro exI [of _ ?ns] conjI impI)
      (use w eq all_nodes_listing [OF iv] in \<open>simp_all add: mem_reads(3,5) [OF iv] AllNodes_view [OF g] NodesByLabel_view [OF g]\<close>)
qed

theorem node_queries_witness:
  "\<exists>ns. node_listing (small_graph 3) 0 ns \<and> AllNodes mem_ops (small_graph 3) 0 = (small_graph 3, Inr ns)
    \<and> NodesByLabel mem_ops (small_graph 3) 0 [0x41] = (small_graph 3, Inr (filter (\<lambda>n. [0x41] \<in> set (n_Labels n)) ns))"
  using node_queries [OF conjunct1 [OF small_three], of "[0x41]" "[0x70]" "VInt 7"] by blast

text \<open>
  C23. AllEdges lists every edge once, in the order of the ids; EdgesByLabel, through the type keyspace, and EdgesBetween,
  through the adjacency keyspace, are filters of that list. EdgesBetween of a node that is not there is an error.
\<close>

theorem edge_queries:
  assumes s: "graph_state e h"
  shows "\<exists>es. edge_listing e h es \<and> AllEdges mem_ops e h = (e, Inr es)
    \<and> EdgesByLabel mem_ops e h l = (e, Inr (filter (\<lambda>ed. e_Label ed = l) es))
    \<and> EdgesBetween mem_ops e h a b = (e, case snd (GetNode mem_ops e h a) of Inl x \<Rightarrow> Inl x | Inr n \<Rightarrow>
        (case snd (GetNode mem_ops e h b) of Inl x \<Rightarrow> Inl x | Inr n \<Rightarrow> Inr (filter (\<lambda>ed. e_From ed = a \<and> e_To ed = b) es)))"
proof -
  note iv = graph_state_inv [OF s]
  note g = graph_invD(4) [OF iv]
  show ?thesis
    by (intro exI [of _ "all_edges (mem_view e h) (edge_recs (mem_view e h))"] conjI)
      (use all_edges_listing [OF iv] in \<open>simp_all add: mem_reads(4,7,8) [OF iv] AllEdges_view [OF g] EdgesByLabel_view [OF g] EdgesBetween_view [OF g]
         node_read [OF iv] split: option.split\<close>)
qed

theorem edge_queries_witness:
  "\<exists>es. edge_listing (small_graph 3) 0 es
    \<and> EdgesBetween mem_ops (small_graph 3) 0 1 2 = (small_graph 3, Inr (filter (\<lambda>ed. e_From ed = 1 \<and> e_To ed = 2) es))"
  using edge_queries [OF conjunct1 [OF small_three], of "[0x45]" 1 2] small_ends(1,2) by auto

section \<open>Searches\<close>

text \<open>One hop along an edge, as the store reads.\<close>

definition hop :: "memEngine \<Rightarrow> nat \<Rightarrow> (uint64 \<times> uint64) set" where
  "hop e h = {(a, b). \<exists>i ed. snd (GetEdge mem_ops e h i) = Inr ed \<and> e_From ed = a \<and> e_To ed = b}"

lemma hop_steps:
  assumes "graph_inv e h"
  shows "steps (edge_recs (mem_view e h)) = hop e h"
proof -
  have "(\<exists>d. edge_recs (mem_view e h) i = Some d \<and> de_From d = a \<and> de_To d = b) \<longleftrightarrow> (\<exists>ed. snd (GetEdge mem_ops e h i) = Inr ed \<and> e_From ed = a \<and> e_To ed = b)" for i a b
    by (auto simp: edge_read [OF assms] split: option.splits)
  then show ?thesis by (simp add: steps_def hop_def)
qed

text \<open>
  C21. Neighbors of an existing node, to a depth of at least 1, lists exactly the other nodes that some path of at most
  that many hops reaches, each once and as GetNode reads it, in the order of the distance, with the length of a shortest
  path as the depth. The search ends on every graph, cyclic ones included.
\<close>

theorem neighbors_exact:
  assumes s: "graph_state e h" and d: "1 \<le> depth" and n: "snd (GetNode mem_ops e h src) = Inr n"
  shows "\<exists>out. Neighbors mem_ops e h src depth = (e, Inr out) \<and> distinct (map (n_ID \<circ> nb_Node) out) \<and> sorted (map nb_Depth out)
    \<and> (\<forall>v. v \<in> (n_ID \<circ> nb_Node) ` set out \<longleftrightarrow> v \<noteq> src \<and> (\<exists>m. int m \<le> depth \<and> (src, v) \<in> hop e h ^^ m))
    \<and> (\<forall>x\<in>set out. snd (GetNode mem_ops e h (n_ID (nb_Node x))) = Inr (nb_Node x)
         \<and> (\<exists>m. nb_Depth x = int m \<and> (src, n_ID (nb_Node x)) \<in> hop e h ^^ m \<and> (\<forall>k. (src, n_ID (nb_Node x)) \<in> hop e h ^^ k \<longrightarrow> m \<le> k)))"
proof -
  let ?V = "mem_view e h"
  note iv = graph_state_inv [OF s]
  note g = graph_invD(4) [OF iv]
  have src: "node_recs ?V src \<noteq> None" using existing_node [OF iv n] by blast
  obtain vs dep where v: "Neighbors view_ops ?V h src depth = (?V, Inr (map (nb ?V (node_recs ?V) dep) vs))" "within (hop e h) src depth vs dep"
    using Neighbors_view(3) [OF g d src, of h] unfolding hop_steps [OF iv] by blast
  have ids: "map (n_ID \<circ> nb_Node) (map (nb ?V (node_recs ?V) dep) vs) = vs" by (simp add: nb_def comp_def)
  have dp: "map nb_Depth (map (nb ?V (node_recs ?V) dep) vs) = map int (map dep vs)" by (simp add: nb_def comp_def)
  have w: "distinct vs" "sorted (map dep vs)" "set vs = {v. v \<noteq> src \<and> (\<exists>m. int m \<le> depth \<and> (src, v) \<in> hop e h ^^ m)}"
    "\<forall>v\<in>set vs. (src, v) \<in> hop e h ^^ dep v \<and> (\<forall>m. (src, v) \<in> hop e h ^^ m \<longrightarrow> dep v \<le> m)"
    using v(2) by (auto simp: within_def)
  have found: "node_recs ?V x \<noteq> None" if x: "x \<in> set vs" for x
  proof -
    obtain m where m: "(src, x) \<in> hop e h ^^ m" using x w(3) by auto
    then have "(src, x) \<in> (hop e h)\<^sup>*" by (rule relpow_imp_rtrancl)
    then show ?thesis by (cases rule: rtranclE) (use src steps_nodes(2) [OF g, unfolded hop_steps [OF iv]] in blast)+
  qed
  show ?thesis
  proof (intro exI [of _ "map (nb ?V (node_recs ?V) dep) vs"] conjI allI ballI)
    show "Neighbors mem_ops e h src depth = (e, Inr (map (nb ?V (node_recs ?V) dep) vs))" by (simp add: mem_reads(9) [OF iv] v(1))
    show "distinct (map (n_ID \<circ> nb_Node) (map (nb ?V (node_recs ?V) dep) vs))" unfolding ids by (rule w(1))
    show "sorted (map nb_Depth (map (nb ?V (node_recs ?V) dep) vs))" unfolding dp using w(2) by (simp add: sorted_map)
    show "x \<in> (n_ID \<circ> nb_Node) ` set (map (nb ?V (node_recs ?V) dep) vs) \<longleftrightarrow> x \<noteq> src \<and> (\<exists>m. int m \<le> depth \<and> (src, x) \<in> hop e h ^^ m)" for x
      unfolding set_map [symmetric] ids using w(3) by blast
  next
    fix x assume "x \<in> set (map (nb ?V (node_recs ?V) dep) vs)"
    then obtain v where x: "x = nb ?V (node_recs ?V) dep v" "v \<in> set vs" by auto
    then show "snd (GetNode mem_ops e h (n_ID (nb_Node x))) = Inr (nb_Node x)" using found [OF x(2)] by (auto simp: node_read [OF iv] nb_def)
    show "\<exists>m. nb_Depth x = int m \<and> (src, n_ID (nb_Node x)) \<in> hop e h ^^ m \<and> (\<forall>k. (src, n_ID (nb_Node x)) \<in> hop e h ^^ k \<longrightarrow> m \<le> k)"
      using w(4) x by (auto simp: nb_def)
  qed
qed

theorem neighbors_exact_witness:
  "\<exists>out. Neighbors mem_ops (small_graph 3) 0 1 1 = (small_graph 3, Inr out) \<and> 2 \<in> (n_ID \<circ> nb_Node) ` set out"
proof -
  obtain n where n: "snd (GetNode mem_ops (small_graph 3) 0 1) = Inr n" using small_ends(1) by blast
  have "(1, 2) \<in> hop (small_graph 3) 0" using small_ends(3) by (auto simp: hop_def)
  then have "(1, 2) \<in> hop (small_graph 3) 0 ^^ Suc 0" "int (Suc 0) \<le> 1" by simp_all
  then have r: "\<exists>m. int m \<le> 1 \<and> (1, 2) \<in> hop (small_graph 3) 0 ^^ m" by blast
  obtain out where "Neighbors mem_ops (small_graph 3) 0 1 1 = (small_graph 3, Inr out)"
      "2 \<in> (n_ID \<circ> nb_Node) ` set out \<longleftrightarrow> (2 :: uint64) \<noteq> 1 \<and> (\<exists>m. int m \<le> 1 \<and> (1, 2) \<in> hop (small_graph 3) 0 ^^ m)"
    using neighbors_exact [OF conjunct1 [OF small_three] order_refl n] by (elim exE conjE) (rule that, assumption, erule spec)
  then show ?thesis using r by auto
qed

text \<open>
  C20. ShortestPath between two existing nodes returns an empty path when no path of edges leads from one to the other,
  and otherwise a list of nodes, as GetNode reads them, from the one to the other along edges, that no path is
  shorter than. A node that is not there is an error.
\<close>

theorem shortest_path_exact:
  assumes s: "graph_state e h"
  shows "case (snd (GetNode mem_ops e h src), snd (GetNode mem_ops e h dst)) of
      (Inl x, _) \<Rightarrow> ShortestPath mem_ops e h src dst = (e, Inl x)
    | (Inr _, Inl x) \<Rightarrow> ShortestPath mem_ops e h src dst = (e, Inl x)
    | (Inr _, Inr _) \<Rightarrow> \<exists>ns. ShortestPath mem_ops e h src dst = (e, Inr ns) \<and> (ns = [] \<longleftrightarrow> (src, dst) \<notin> (hop e h)\<^sup>*)
        \<and> (\<forall>n\<in>set ns. snd (GetNode mem_ops e h (n_ID n)) = Inr n)
        \<and> (ns \<noteq> [] \<longrightarrow> n_ID (hd ns) = src \<and> n_ID (last ns) = dst \<and> successively (\<lambda>a b. (n_ID a, n_ID b) \<in> hop e h) ns)
        \<and> (\<forall>m. (src, dst) \<in> hop e h ^^ m \<longrightarrow> length ns \<le> m + 1)"
proof -
  let ?V = "mem_view e h"
  let ?N = "node_recs ?V"
  note iv = graph_state_inv [OF s]
  note g = graph_invD(4) [OF iv]
  note sp = ShortestPath_view [OF g, where h = h, unfolded hop_steps [OF iv]]
  note rd = node_read [OF iv] mem_reads(10) [OF iv]
  consider "?N src = None" | "?N src \<noteq> None" "?N dst = None" | "?N src \<noteq> None" "?N dst \<noteq> None" "(src, dst) \<notin> (hop e h)\<^sup>*"
    | "?N src \<noteq> None" "?N dst \<noteq> None" "(src, dst) \<in> (hop e h)\<^sup>*" by blast
  then show ?thesis
  proof cases
    case 1
    then show ?thesis by (simp add: rd sp)
  next
    case 2
    then show ?thesis by (auto simp: rd sp)
  next
    case 3
    then have "ShortestPath mem_ops e h src dst = (e, Inr [])" by (simp add: rd sp)
    then show ?thesis using 3 by (auto simp: rd)
  next
    case 4
    obtain ids where i: "ShortestPath view_ops ?V h src dst = (?V, Inr (map (\<lambda>i. node_view ?V i (the (?N i))) ids))" "shortest (hop e h) src dst ids"
      using sp(4) [OF 4] by blast
    have al: "\<forall>i\<in>set ids. ?N i \<noteq> None" using shortest_nodes [OF g, unfolded hop_steps [OF iv], OF i(2) 4(1)] .
    have "ids \<noteq> []" "hd ids = src" "last ids = dst" "successively (\<lambda>a b. (a, b) \<in> hop e h) ids" "\<forall>m. (src, dst) \<in> hop e h ^^ m \<longrightarrow> length ids \<le> m + 1"
      using i(2) by (auto simp: shortest_def)
    then have "\<exists>ns. ShortestPath mem_ops e h src dst = (e, Inr ns) \<and> (ns = [] \<longleftrightarrow> (src, dst) \<notin> (hop e h)\<^sup>*)
        \<and> (\<forall>n\<in>set ns. snd (GetNode mem_ops e h (n_ID n)) = Inr n)
        \<and> (ns \<noteq> [] \<longrightarrow> n_ID (hd ns) = src \<and> n_ID (last ns) = dst \<and> successively (\<lambda>a b. (n_ID a, n_ID b) \<in> hop e h) ns)
        \<and> (\<forall>m. (src, dst) \<in> hop e h ^^ m \<longrightarrow> length ns \<le> m + 1)"
      using 4(3) al by (intro exI [of _ "map (\<lambda>i. node_view ?V i (the (?N i))) ids"])
        (auto simp: rd i(1) hd_map last_map successively_map)
    then show ?thesis using 4(1,2) by (auto simp: node_read [OF iv])
  qed
qed

theorem shortest_path_exact_witness:
  "\<exists>ns. ShortestPath mem_ops (small_graph 3) 0 1 2 = (small_graph 3, Inr ns) \<and> n_ID (hd ns) = 1 \<and> n_ID (last ns) = 2 \<and> length ns \<le> 2"
proof -
  obtain n1 n2 where n: "snd (GetNode mem_ops (small_graph 3) 0 1) = Inr n1" "snd (GetNode mem_ops (small_graph 3) 0 2) = Inr n2" using small_ends(1,2) by blast
  have "(1, 2) \<in> hop (small_graph 3) 0" using small_ends(3) by (auto simp: hop_def)
  then have "(1, 2) \<in> hop (small_graph 3) 0 ^^ 1" "(1, 2) \<in> (hop (small_graph 3) 0)\<^sup>*" by auto
  moreover obtain ns where "ShortestPath mem_ops (small_graph 3) 0 1 2 = (small_graph 3, Inr ns)" "ns = [] \<longleftrightarrow> (1, 2) \<notin> (hop (small_graph 3) 0)\<^sup>*"
      "ns \<noteq> [] \<longrightarrow> n_ID (hd ns) = 1 \<and> n_ID (last ns) = 2" "\<forall>m. (1, 2) \<in> hop (small_graph 3) 0 ^^ m \<longrightarrow> length ns \<le> m + 1"
    using shortest_path_exact [OF conjunct1 [OF small_three], of 1 2] unfolding n by auto
  ultimately show ?thesis by (intro exI [of _ ns]) (auto dest!: spec [of _ 1])
qed

section \<open>Entities that are not there\<close>

text \<open>
  A call on a node or an edge that is not there, or an edge with an end that is not there, fails with NotFound naming
  the entity and the id, and leaves the engine's contents as they were.
\<close>

theorem missing_refused:
  assumes s: "graph_state e h"
  shows "(\<forall>c i. node_target c = Some i \<or> c = DoDeleteNode i \<longrightarrow> snd (GetNode mem_ops e h i) = Inl x \<longrightarrow>
      x = GraphNotFound ''node'' i \<and> snd (graph_do mem_ops h c e) = Inl x \<and> mem_view (fst (graph_do mem_ops h c e)) h = mem_view e h)
    \<and> (\<forall>c i. edge_target c = Some i \<or> c = DoDeleteEdge i \<longrightarrow> snd (GetEdge mem_ops e h i) = Inl x \<longrightarrow>
      x = GraphNotFound ''edge'' i \<and> snd (graph_do mem_ops h c e) = Inl x \<and> mem_view (fst (graph_do mem_ops h c e)) h = mem_view e h)
    \<and> (\<forall>a b l ps. snd (GetNode mem_ops e h a) = Inl x \<longrightarrow>
      snd (CreateEdge mem_ops e h a b l ps) = Inl (GraphNotFound ''from node'' a) \<and> mem_view (fst (CreateEdge mem_ops e h a b l ps)) h = mem_view e h)
    \<and> (\<forall>a b l ps n. snd (GetNode mem_ops e h a) = Inr n \<longrightarrow> snd (GetNode mem_ops e h b) = Inl x \<longrightarrow>
      snd (CreateEdge mem_ops e h a b l ps) = Inl (GraphNotFound ''to node'' b) \<and> mem_view (fst (CreateEdge mem_ops e h a b l ps)) h = mem_view e h)"
proof -
  note iv = graph_state_inv [OF s]
  note g = graph_invD(4) [OF iv]
  have run: "graph_do view_ops h c (mem_view e h) = (mem_view e h, Inl y) \<Longrightarrow> snd (graph_do mem_ops h c e) = Inl y \<and> mem_view (fst (graph_do mem_ops h c e)) h = mem_view e h" for c y
    using graph_do_run [OF iv, of c] by auto
  have nodes: "x = GraphNotFound ''node'' i \<and> graph_do view_ops h c (mem_view e h) = (mem_view e h, Inl x)"
    if "node_target c = Some i \<or> c = DoDeleteNode i" "snd (GetNode mem_ops e h i) = Inl x" for c i
    using that missing_node [OF g] by (cases c) (auto simp: node_read [OF iv] split: option.splits)
  have edges: "x = GraphNotFound ''edge'' i \<and> graph_do view_ops h c (mem_view e h) = (mem_view e h, Inl x)"
    if "edge_target c = Some i \<or> c = DoDeleteEdge i" "snd (GetEdge mem_ops e h i) = Inl x" for c i
    using that missing_edge [OF g] by (cases c) (auto simp: edge_read [OF iv] split: option.splits)
  have ends: "snd (CreateEdge mem_ops e h a b l ps) = Inl y \<and> mem_view (fst (CreateEdge mem_ops e h a b l ps)) h = mem_view e h"
    if "CreateEdge view_ops (mem_view e h) h a b l ps = (mem_view e h, Inl y)" for a b l ps y
  proof -
    have r: "graph_do mem_ops h (DoCreateEdge a b l ps) e = (e1, Inl y) \<longleftrightarrow> CreateEdge mem_ops e h a b l ps = (e1, Inl y)" for e1 by (simp add: reply_error)
    have "graph_do view_ops h (DoCreateEdge a b l ps) (mem_view e h) = (mem_view e h, Inl y)" using that by simp
    from run [OF this] r show ?thesis by (metis prod.collapse fst_conv snd_conv)
  qed
  have c: "CreateEdge view_ops (mem_view e h) h a b l ps = (mem_view e h, Inl (GraphNotFound ''from node'' a))" if "snd (GetNode mem_ops e h a) = Inl x" for a b l ps
    using that missing_ends(1) [OF g] by (auto simp: node_read [OF iv] split: option.splits)
  have d: "CreateEdge view_ops (mem_view e h) h a b l ps = (mem_view e h, Inl (GraphNotFound ''to node'' b))"
    if "snd (GetNode mem_ops e h a) = Inr n" "snd (GetNode mem_ops e h b) = Inl x" for a b l ps n
    using that missing_ends(2) [OF g] by (auto simp: node_read [OF iv] split: option.splits)
  show ?thesis
  proof (intro conjI allI impI)
    fix c i assume a: "node_target c = Some i \<or> c = DoDeleteNode i" "snd (GetNode mem_ops e h i) = Inl x"
    show "x = GraphNotFound ''node'' i" "snd (graph_do mem_ops h c e) = Inl x" "mem_view (fst (graph_do mem_ops h c e)) h = mem_view e h"
      using nodes [OF a] run by simp_all
  next
    fix c i assume a: "edge_target c = Some i \<or> c = DoDeleteEdge i" "snd (GetEdge mem_ops e h i) = Inl x"
    show "x = GraphNotFound ''edge'' i" "snd (graph_do mem_ops h c e) = Inl x" "mem_view (fst (graph_do mem_ops h c e)) h = mem_view e h"
      using edges [OF a] run by simp_all
  qed (use ends [OF c] ends [OF d] in simp_all)
qed

theorem missing_refused_witness:
  "snd (DeleteNode mem_ops (small_graph 0) 0 1) = Inl (GraphNotFound ''node'' 1) \<and> snd (CreateEdge mem_ops (small_graph 0) 0 1 2 [] []) = Inl (GraphNotFound ''from node'' 1)"
proof -
  have n: "snd (GetNode mem_ops (small_graph 0) 0 1) = Inl (GraphNotFound ''node'' 1)"
    by (simp add: node_read [OF graph_state_inv [OF start_state(1)]] start_state(2) node_recs_def)
  have "snd (graph_do mem_ops 0 (DoDeleteNode 1) (small_graph 0)) = Inl (GraphNotFound ''node'' 1)"
    "snd (CreateEdge mem_ops (small_graph 0) 0 1 2 [] []) = Inl (GraphNotFound ''from node'' 1)"
    using missing_refused [OF start_state(1), of "GraphNotFound ''node'' 1"] n by blast+
  then show ?thesis by (cases "DeleteNode mem_ops (small_graph 0) 0 1"; cases "snd (DeleteNode mem_ops (small_graph 0) 0 1)") simp_all
qed

section \<open>Names, values and records\<close>

lemma lookup_read:
  assumes iv: "graph_inv e h" and k: "(kd, rv) \<in> {(catProp, catPropRev), (catLabel, catLabelRev), (catEdgeType, catTypeRev)}"
  shows "snd (lookupName mem_ops e h kd nm) = Inr (name_id (mem_view e h) kd nm)" "snd (catName mem_ops e h rv i) = Inr (id_name (mem_view e h) rv i)"
    "name_id (mem_view e h) kd nm = Some i \<longleftrightarrow> id_name (mem_view e h) rv i = Some nm"
proof -
  have t: "tables (mem_view e h)" using base_tables graph_atD(1) [OF graph_invD(4) [OF iv]] by blast
  obtain ct where ok: "names_ok (mem_view e h) kd rv ct" using k tablesD [OF t] by auto
  show "snd (lookupName mem_ops e h kd nm) = Inr (name_id (mem_view e h) kd nm)" "snd (catName mem_ops e h rv i) = Inr (id_name (mem_view e h) rv i)"
    by (simp_all add: mem_reads(11,12) [OF iv] lookupName_view [OF ok] catName_view [OF ok])
  show "name_id (mem_view e h) kd nm = Some i \<longleftrightarrow> id_name (mem_view e h) rv i = Some nm" using ok by (simp add: names_ok_def)
qed

text \<open>
  C28. A property, label or type name keeps the id it was given: no call, whatever it does, takes an id away from a name or
  gives it to another name, so the ids in stored records and index keys keep their meaning.
\<close>

theorem names_keep_ids:
  assumes s: "graph_state e h" "call_fits (mem_view e h) c" "graph_do mem_ops h c e = (e', r)"
    and k: "(kd, rv) \<in> {(catProp, catPropRev), (catLabel, catLabelRev), (catEdgeType, catTypeRev)}"
    and n: "snd (lookupName mem_ops e h kd nm) = Inr (Some i)"
  shows "snd (lookupName mem_ops e' h kd nm) = Inr (Some i) \<and> snd (catName mem_ops e' h rv i) = Inr (Some nm)
    \<and> (\<forall>nm'. snd (lookupName mem_ops e' h kd nm') = Inr (Some i) \<longrightarrow> nm' = nm)"
proof -
  note iv = graph_state_inv [OF s(1)] and iv' = graph_state_inv [OF write_state [OF s]]
  have "graph_step (mem_view e h) (mem_view e' h)"
    using graph_do_ok [OF _ s(2), of h] graph_do_mem [OF graph_invD(1,3) [OF iv], of c] iv s(3) by (auto simp: graph_inv_def)
  then have "name_id (mem_view e h) kd \<subseteq>\<^sub>m name_id (mem_view e' h) kd" using k by (auto simp: graph_step_def grows_def)
  moreover have "name_id (mem_view e h) kd nm = Some i" using n by (simp add: lookup_read [OF iv k])
  ultimately have "name_id (mem_view e' h) kd nm = Some i" by (metis map_le_def domI)
  then show ?thesis using lookup_read(3) [OF iv' k] by (simp add: lookup_read(1,2) [OF iv' k])
qed

theorem names_keep_ids_witness:
  "\<exists>i e' r. snd (lookupName mem_ops (small_graph 1) 0 catLabel [0x41]) = Inr (Some i) \<and> graph_do mem_ops 0 (DoDeleteNode 1) (small_graph 1) = (e', r)
    \<and> snd (lookupName mem_ops e' 0 catLabel [0x41]) = Inr (Some i) \<and> snd (catName mem_ops e' 0 catLabelRev i) = Inr (Some [0x41])"
proof -
  let ?V = "mem_view (small_graph 1) 0"
  have st: "graph_state (small_graph 1) 0" using small_one by blast
  note iv = graph_state_inv [OF st]
  note g = graph_invD(4) [OF iv]
  have k: "(catLabel, catLabelRev) \<in> {(catProp, catPropRev), (catLabel, catLabelRev), (catEdgeType, catTypeRev)}" by simp
  obtain r where r: "node_recs ?V = [1 \<mapsto> r]" "n_Labels (node_view ?V 1 r) = [[0x41]]" using small_one by blast
  have "node_ok ?V r" using graph_atD(6) [OF g, of 1 r] r(1) by (simp del: node_ok.simps)
  then obtain i where "name_id ?V catLabel [0x41] = Some i" using label_in_view [OF base_tables [OF graph_atD(1) [OF g]], of r "[0x41]" 1] r(2) by (auto simp del: node_view_simps)
  then have i: "snd (lookupName mem_ops (small_graph 1) 0 catLabel [0x41]) = Inr (Some i)" using lookup_read(1) [OF iv k] by metis
  have c: "call_fits ?V (DoDeleteNode 1)" by simp
  obtain e' r' where d: "graph_do mem_ops 0 (DoDeleteNode 1) (small_graph 1) = (e', r')" by fastforce
  show ?thesis using names_keep_ids [OF st c d k i] i d by blast
qed

definition props_read :: "memEngine \<Rightarrow> nat \<Rightarrow> Prop list \<Rightarrow> bool" where
  "props_read e h ps \<longleftrightarrow> sorted_wrt (<) (map p_ID ps) \<and> distinct (map p_Name ps)
     \<and> (\<forall>p\<in>set ps. snd (catName mem_ops e h catPropRev (p_ID p)) = Inr (Some (p_Name p)) \<and> Storable (p_Value p) \<and> shape_ok (p_Value p))"

lemma good_props_read:
  assumes iv: "graph_inv e h" and g: "good_props (mem_view e h) ps"
  shows "props_read e h ps"
proof -
  have k: "(catProp, catPropRev) \<in> {(catProp, catPropRev), (catLabel, catLabelRev), (catEdgeType, catTypeRev)}" by simp
  have "tables (mem_view e h)" using base_tables graph_atD(1) [OF graph_invD(4) [OF iv]] by blast
  then have "distinct (map p_Name ps)" using good_props_names [OF g] by blast
  then show ?thesis using g by (auto simp: props_read_def good_props_def lookup_read(2) [OF iv k] props_fit_def record_fits_def list_all_iff)
qed

text \<open>
  C29. What a read returns is well formed: a node has its labels in order and once each; the properties of nodes and edges
  are in the order of their ids, under the names the catalog has for the ids, no name twice, with values a store may
  hold; and both ends of an edge can be read.
\<close>

theorem reads_well_formed:
  assumes s: "graph_state e h"
  shows "(\<forall>i n. snd (GetNode mem_ops e h i) = Inr n \<longrightarrow> n_ID n = i \<and> sorted (n_Labels n) \<and> distinct (n_Labels n) \<and> props_read e h (n_Props n))
    \<and> (\<forall>i ed. snd (GetEdge mem_ops e h i) = Inr ed \<longrightarrow> e_ID ed = i \<and> props_read e h (e_Props ed)
        \<and> (\<exists>a b. snd (GetNode mem_ops e h (e_From ed)) = Inr a \<and> snd (GetNode mem_ops e h (e_To ed)) = Inr b))"
proof (intro conjI allI impI)
  note iv = graph_state_inv [OF s]
  note g = graph_invD(4) [OF iv]
  have t: "tables (mem_view e h)" by (rule base_tables [OF graph_atD(1) [OF g]])
  {
    fix i n assume "snd (GetNode mem_ops e h i) = Inr n"
    then obtain r where r: "node_recs (mem_view e h) i = Some r" "n = node_view (mem_view e h) i r" using existing_node [OF iv] by blast
    note ok = graph_atD(6) [OF g r(1)]
    show "n_ID n = i" "sorted (n_Labels n)" "distinct (n_Labels n)" "props_read e h (n_Props n)"
      using view_labels_sorted [OF t ok] good_props_read [OF iv good_view_props [OF ok]] r(2) by simp_all
  next
    fix i ed assume "snd (GetEdge mem_ops e h i) = Inr ed"
    then obtain d where d: "edge_recs (mem_view e h) i = Some d" "ed = edge_view (mem_view e h) i d" using existing_edge [OF iv] by blast
    have ok: "edge_ok (mem_view e h) (node_recs (mem_view e h)) d" using graph_atD(8) [OF g d(1)] by blast
    have p: "props_ok (mem_view e h) (de_Props d)" using ok by (simp add: edge_ok_def)
    show "e_ID ed = i" "props_read e h (e_Props ed)" using good_props_read [OF iv good_edge_props [OF p]] d(2) by simp_all
    show "\<exists>a b. snd (GetNode mem_ops e h (e_From ed)) = Inr a \<and> snd (GetNode mem_ops e h (e_To ed)) = Inr b"
      using ok d(2) by (auto simp: edge_ok_def node_read [OF iv])
  }
qed

theorem reads_well_formed_witness:
  "\<exists>ed. snd (GetEdge mem_ops (small_graph 3) 0 1) = Inr ed \<and> props_read (small_graph 3) 0 (e_Props ed)"
  using reads_well_formed [OF conjunct1 [OF small_three]] small_ends(3) by blast

text \<open>
  C30. The records of the store decode to what was encoded: nodes, edges and, in the catalog, indexes, constraints and
  statistics, whose maps come back in the order of their keys. Property names are not part of a record: the id stands for the name.
\<close>

theorem graph_record_codecs:
  "(length lids * sizeofUint32 \<le> maxAlloc \<and> props_fit ps \<longrightarrow> decodeNode (encodeNode lids ps) = Inr (lids, map unnamed ps))
    \<and> (props_fit ps \<longrightarrow> decodeEdge (encodeEdge a b t ps) = Inr \<lparr>de_From = a, de_To = b, de_TypeID = t, de_Props = map unnamed ps\<rparr>)
    \<and> (index_fits ix \<longrightarrow> decodeIndex (ix_Name ix) (encodeIndex ix) = Inr ix)
    \<and> (constraint_fits c \<longrightarrow> decodeConstraint (co_Name c) (encodeConstraint c) = Inr c)
    \<and> (stats_fit st \<longrightarrow> decodeStats (encodeStats st) = Inr (st\<lparr>cs_Labels := sorted_entries (cs_Labels st),
         cs_EdgeTypes := sorted_entries (cs_EdgeTypes st), cs_Props := sorted_entries (cs_Props st)\<rparr>))"
  by (simp add: decodeNode_encodeNode decodeEdge_encodeEdge decodeIndex_encodeIndex decodeConstraint_encodeConstraint decodeStats_encodeStats)

theorem graph_record_codecs_witness:
  "decodeNode (encodeNode [3, 4] [\<lparr>p_ID = 5, p_Name = [0x70], p_Value = VInt 7\<rparr>]) = Inr ([3, 4], [\<lparr>p_ID = 5, p_Name = [], p_Value = VInt 7\<rparr>])"
proof -
  have "length (EncodeRecord (VInt 7)) \<le> 16" by code_simp
  then have "props_fit [\<lparr>p_ID = 5, p_Name = [0x70], p_Value = VInt 7\<rparr>]" by (simp add: props_fit_def record_fits_def sizeofProp_def maxAlloc_def)
  moreover have "length [3 :: uint32, 4] * sizeofUint32 \<le> maxAlloc" by (simp add: sizeofUint32_def maxAlloc_def)
  ultimately show ?thesis
    using graph_record_codecs [of "[3, 4]" "[\<lparr>p_ID = 5, p_Name = [0x70], p_Value = VInt 7\<rparr>]"] by (simp add: unnamed_def)
qed

end
