(* ===== verification/GraphTxn.thy ===== *)
theory GraphTxn
  imports GraphCalls TxnProps
begin

text \<open>
  The graph store over the transaction manager. \<open>mgr_ops\<close> is a transaction of \<^verbatim>\<open>internal/txn\<close> seen through the
  storage interface; over any engine that keeps the contract, such a transaction gives a graph store what it
  relies on, so a graph call does what it does on the writes of the transaction over its snapshot.
  The cap on the write set and the idle timeout are off: a call that meets one of them stops half way, and its
  transaction is to be rolled back.
\<close>

section \<open>A transaction as an engine\<close>

definition mgr_bound :: "('e, 'c) engine_ops \<Rightarrow> 'e manager \<Rightarrow> nat \<Rightarrow> nat" where
  "mgr_bound ops m t = (case ops_Begin ops (mg_eng m) True of (e, Inl _) \<Rightarrow> 0 | (e, Inr s) \<Rightarrow> ops_bound ops e s) + writeCount (tt_writes (mtx_of m t))"

definition mgr_ops :: "('e, 'c) engine_ops \<Rightarrow> int \<Rightarrow> ('e manager, txCursor) engine_ops" where
  "mgr_ops ops now = \<lparr>ops_Begin = \<lambda>m r. mgr_Begin m now r,
     ops_Get = \<lambda>m t ks k. tx_Get ops m now t ks k,
     ops_Put = \<lambda>m t ks k v. tx_Put m now t ks k v,
     ops_Delete = \<lambda>m t ks k. tx_Delete m now t ks k,
     ops_Commit = \<lambda>m t. tx_Commit ops m now t,
     ops_Rollback = \<lambda>m t. tx_Rollback ops m t,
     ops_Cursor = \<lambda>m t ks. tx_Cursor m now t ks,
     ops_Seek = \<lambda>m c t. xc_Seek ops m c t,
     ops_Next = \<lambda>m c. (m, xc_Next m c),
     ops_Key = \<lambda>m c. xc_Key m c,
     ops_Value = \<lambda>m c. xc_Value m c,
     ops_CursorClose = \<lambda>m c. (m, xc_Close c),
     ops_Sync = \<lambda>m. mgr_Sync ops m,
     ops_Close = \<lambda>m. mgr_Close ops m,
     ops_LogAbort = \<lambda>m i. logAbort ops m i,
     ops_bound = mgr_bound ops\<rparr>"

lemma mgr_ops_simps [simp]:
  "ops_Get (mgr_ops ops now) m t ks k = tx_Get ops m now t ks k"
  "ops_Put (mgr_ops ops now) m t ks k v = tx_Put m now t ks k v"
  "ops_Delete (mgr_ops ops now) m t ks k = tx_Delete m now t ks k"
  "ops_Cursor (mgr_ops ops now) m t ks = tx_Cursor m now t ks"
  "ops_Seek (mgr_ops ops now) m c tg = xc_Seek ops m c tg"
  "ops_Next (mgr_ops ops now) m c = (m, xc_Next m c)"
  "ops_Key (mgr_ops ops now) m c = xc_Key m c"
  "ops_CursorClose (mgr_ops ops now) m c = (m, xc_Close c)"
  "ops_bound (mgr_ops ops now) m t = mgr_bound ops m t"
  by (simp_all add: mgr_ops_def)

section \<open>What a transaction shows\<close>

text \<open>The writes over the snapshot, on the keyspaces of the user.\<close>

definition tx_shows :: "kvview \<Rightarrow> uint64 \<Rightarrow> txWrites \<Rightarrow> kvview" where
  "tx_shows V s w ks = (if ks = KSVersion then Map.empty else tx_sees V (ops_at w ks) s ks)"

definition keys_wf :: "txWrites \<Rightarrow> bool" where
  "keys_wf w \<longleftrightarrow> distinct (map fst w) \<and> (\<forall>(ks, kops)\<in>set w. ks \<noteq> KSVersion \<and> distinct (map fst kops))"

lemma writes_keys_wf: "writes_wf w \<Longrightarrow> keys_wf w"
  by (auto simp: writes_wf_def keys_wf_def)

lemma keys_wf_at: "keys_wf w \<Longrightarrow> distinct (map fst (ops_at w ks))"
  by (auto simp: ops_at_def keys_wf_def dest: map_of_SomeD split: option.split)

lemma keys_wf_update:
  assumes "keys_wf w" and "ks \<noteq> KSVersion" and "distinct (map fst kops)"
  shows "keys_wf (AList.update ks kops w)"
  unfolding keys_wf_def
proof (intro conjI ballI)
  show "distinct (map fst (AList.update ks kops w))" using assms(1) by (simp add: keys_wf_def distinct_update)
  fix x assume "x \<in> set (AList.update ks kops w)"
  then have "x = (ks, kops) \<or> x \<in> set w" by (rule update_mem)
  then show "case x of (ks, kops) \<Rightarrow> ks \<noteq> KSVersion \<and> distinct (map fst kops)" using assms by (auto simp: keys_wf_def)
qed

lemma keys_wf_set_op: "keys_wf w \<Longrightarrow> ks \<noteq> KSVersion \<Longrightarrow> keys_wf (set_op w ks k op)"
  unfolding set_op_def by (rule keys_wf_update) (simp_all add: distinct_update keys_wf_at)

lemma reserve_uncapped:
  assumes "MaxWriteSet opt \<le> 0" "keys_wf w" "ks \<noteq> KSVersion"
  shows "\<exists>w'. reserveLocked opt w ks k = Inr w' \<and> keys_wf w' \<and> written w' = written w"
proof -
  have "\<exists>w'. reserveLocked opt w ks k = Inr w'" using assms(1) by (simp add: reserveLocked_def)
  then obtain w' where w: "reserveLocked opt w ks k = Inr w'" by blast
  moreover have "keys_wf w'" using w assms(2,3) by (auto simp: reserveLocked_def intro: keys_wf_update split: if_splits)
  ultimately show ?thesis using reserve_written [OF w] by blast
qed

lemma tx_shows_written:
  "ks \<noteq> KSVersion \<Longrightarrow> tx_shows V s w ks k = (case written w ks k of Some op \<Rightarrow> op_value op | None \<Rightarrow> snap_read V ks k s)"
  by (simp add: tx_shows_def tx_sees_def written_def)

lemma tx_shows_op:
  assumes "written w' = written w" "ks \<noteq> KSVersion"
  shows "tx_shows V s (set_op w' ks k op) = upd_view (tx_shows V s w) ks k (op_value op)"
proof (intro ext)
  fix ks' k'
  show "tx_shows V s (set_op w' ks k op) ks' k' = upd_view (tx_shows V s w) ks k (op_value op) ks' k'"
    using assms by (cases "ks' = KSVersion") (auto simp: tx_shows_written set_op_written upd_view_apply, auto simp: tx_shows_def)
qed

lemma tx_shows_dom: "dom (tx_shows V s w ks) \<subseteq> dom (V ks) \<union> fst ` set (ops_at w ks)"
proof
  fix x assume "x \<in> dom (tx_shows V s w ks)"
  then have "tx_sees V (ops_at w ks) s ks x \<noteq> None" by (auto simp: tx_shows_def split: if_splits)
  then show "x \<in> dom (V ks) \<union> fst ` set (ops_at w ks)"
    by (cases "map_of (ops_at w ks) x") (force simp: tx_sees_def snap_read_def head_at_def dest: map_of_SomeD split: option.splits)+
qed

lemma ops_at_count: "length (ops_at w ks) \<le> writeCount w"
proof (cases "map_of w ks")
  case (Some kops)
  then have "(ks, kops) \<in> set w" by (rule map_of_SomeD)
  then have "length kops \<in> set (map (\<lambda>kops. length (snd kops)) w)" by force
  then show ?thesis using Some member_le_sum_list by (fastforce simp: ops_at_def writeCount_def)
qed (simp add: ops_at_def)

text \<open>The manager while transaction \<open>t\<close> works: only its write set, its clock and bookkeeping of the engine move.\<close>

definition working :: "'e manager \<Rightarrow> nat \<Rightarrow> txWrites \<Rightarrow> int \<Rightarrow> 'e \<Rightarrow> keyspace list \<Rightarrow> 'e manager" where
  "working m0 t w l e sp = (set_mtx m0 t ((mtx_of m0 t)\<lparr>tt_writes := w, tt_last := l\<rparr>))\<lparr>mg_eng := e, mg_spaces := sp\<rparr>"

lemma working_mtx [simp]: "mtx_of (working m0 t w l e sp) t' = (if t' = t then (mtx_of m0 t)\<lparr>tt_writes := w, tt_last := l\<rparr> else mtx_of m0 t')"
  by (simp add: working_def)

lemma working_fields [simp]:
  "mg_eng (working m0 t w l e sp) = e" "mg_spaces (working m0 t w l e sp) = sp" "mg_opt (working m0 t w l e sp) = mg_opt m0"
  "mg_open (working m0 t w l e sp) = mg_open m0" "mg_next (working m0 t w l e sp) = mg_next m0" "mg_closed (working m0 t w l e sp) = mg_closed m0"
  "mg_commitTS (working m0 t w l e sp) = mg_commitTS m0" "mg_hooks (working m0 t w l e sp) = mg_hooks m0"
  by (simp_all add: working_def)

lemma working_set [simp]:
  "(working m0 t w l e sp)\<lparr>mg_eng := e'\<rparr> = working m0 t w l e' sp"
  "set_mtx (working m0 t w l e sp) t ((mtx_of m0 t)\<lparr>tt_writes := w', tt_last := l'\<rparr>) = working m0 t w' l' e sp"
  "set_mtx (working m0 t w l e sp) t ((mtx_of m0 t)\<lparr>tt_last := l', tt_writes := w'\<rparr>) = working m0 t w' l' e sp"
  "(working m0 t w l e sp)\<lparr>mg_spaces := sp'\<rparr> = working m0 t w l e sp'"
proof -
  have x: "x\<lparr>tt_last := l', tt_writes := w'\<rparr> = x\<lparr>tt_writes := w', tt_last := l'\<rparr>" for x :: txTx by (cases x) simp
  show "(working m0 t w l e sp)\<lparr>mg_eng := e'\<rparr> = working m0 t w l e' sp"
    "set_mtx (working m0 t w l e sp) t ((mtx_of m0 t)\<lparr>tt_writes := w', tt_last := l'\<rparr>) = working m0 t w' l' e sp"
    "set_mtx (working m0 t w l e sp) t ((mtx_of m0 t)\<lparr>tt_last := l', tt_writes := w'\<rparr>) = working m0 t w' l' e sp"
    "(working m0 t w l e sp)\<lparr>mg_spaces := sp'\<rparr> = working m0 t w l e sp'"
    by (simp_all add: working_def set_mtx_def x)
qed

lemma working_start: "is_open m t \<Longrightarrow> working m t (tt_writes (mtx_of m t)) (tt_last (mtx_of m t)) (mg_eng m) (mg_spaces m) = m"
  by (cases m) (auto simp: working_def set_mtx_def mtx_of_def fun_upd_idem split: option.splits)

definition open_writer :: "'e manager \<Rightarrow> nat \<Rightarrow> bool" where
  "open_writer m t \<longleftrightarrow> is_open m t \<and> \<not> tt_ro (mtx_of m t) \<and> IdleTimeout (mg_opt m) \<le> 0 \<and> MaxWriteSet (mg_opt m) \<le> 0"

lemma working_enter: "open_writer m0 t \<Longrightarrow> ks \<noteq> KSVersion \<Longrightarrow> enter (working m0 t w l e sp) now t ks = (working m0 t w now e sp, Inr ())"
  by (simp add: open_writer_def enter_def checkKS_def Txn.touch_def Let_def)

definition wrote :: "txWrites \<Rightarrow> (keyspace \<times> bytes) set" where
  "wrote w = {(ks, k). written w ks k \<noteq> None}"

context kv_engine
begin

text \<open>Transaction \<open>t\<close> at work since the manager was in state \<open>m0\<close>, with the keys \<open>L\<close> among those it wrote.\<close>

definition tx_at :: "(keyspace \<times> bytes) set \<Rightarrow> 'e manager \<Rightarrow> 'e manager \<Rightarrow> nat \<Rightarrow> kvview \<Rightarrow> bool" where
  "tx_at L m0 m t V \<longleftrightarrow> minv m0 \<and> open_writer m0 t \<and> (\<exists>w l e sp. m = working m0 t w l e sp \<and> keys_wf w \<and> L \<subseteq> wrote w \<and> same (mg_eng m0) e
     \<and> KSVersion \<notin> set sp \<and> V = tx_shows (committed (mg_eng m0)) (snap_of m0 t) w)"

lemma tx_atI:
  "minv m0 \<Longrightarrow> open_writer m0 t \<Longrightarrow> keys_wf w \<Longrightarrow> L \<subseteq> wrote w \<Longrightarrow> same (mg_eng m0) e \<Longrightarrow> KSVersion \<notin> set sp \<Longrightarrow>
    tx_at L m0 (working m0 t w l e sp) t (tx_shows (committed (mg_eng m0)) (snap_of m0 t) w)"
  unfolding tx_at_def by blast

lemma tx_at_start:
  assumes "minv m" "open_writer m t" "L \<subseteq> wrote (tt_writes (mtx_of m t))"
  shows "tx_at L m m t (tx_shows (committed (mg_eng m)) (snap_of m t) (tt_writes (mtx_of m t)))"
proof -
  have op: "is_open m t" using assms(2) by (simp add: open_writer_def)
  have "keys_wf (tt_writes (mtx_of m t))" by (rule writes_keys_wf [OF open_writes_wf [OF assms(1) op]])
  moreover have "same (mg_eng m) (mg_eng m)" using minv_open [OF assms(1) op] by (simp add: same_def store_ok_def)
  moreover have "KSVersion \<notin> set (mg_spaces m)" using assms(1) by (simp add: mgr_inv_def txs_ok_def)
  ultimately show ?thesis using tx_atI [OF assms(1,2) _ assms(3), of "mg_eng m" "mg_spaces m" "tt_last (mtx_of m t)"]
    working_start [OF op] by simp
qed

lemma same_store:
  assumes "minv m0" "is_open m0 t" "same (mg_eng m0) e"
  shows "inv e" "usable e" "committed e = committed (mg_eng m0)" "mvcc_inv (committed e) (mg_commitTS m0)"
  using assms minv_open [OF assms(1,2)] by (auto simp: same_def store_ok_def)

lemma tx_at_less: "tx_at (insert x L) m0 m t V \<Longrightarrow> tx_at L m0 m t V"
  unfolding tx_at_def by blast

lemma tx_at_get:
  assumes "tx_at L m0 m t V" "ks \<noteq> KSVersion"
  shows "\<exists>m'. tx_Get ops m now t ks k = (m', view_get V ks k) \<and> tx_at L m0 m' t V"
proof -
  obtain w l e sp where a: "minv m0" "open_writer m0 t" "m = working m0 t w l e sp" "keys_wf w" "L \<subseteq> wrote w" "same (mg_eng m0) e" "KSVersion \<notin> set sp"
      "V = tx_shows (committed (mg_eng m0)) (snap_of m0 t) w"
    using assms(1) by (auto simp: tx_at_def)
  have op: "is_open m0 t" using a(2) by (simp add: open_writer_def)
  note st = same_store [OF a(1) op a(6)]
  obtain e' where e': "inv e'" "usable e'" "committed e' = committed e"
      "readVersion ops e ks k (snap_of m0 t) = (e', case snap_read (committed e) ks k (snap_of m0 t) of None \<Rightarrow> Inl ErrNotFound | Some p \<Rightarrow> Inr p)"
    using readVersion_read [OF st(1,2,4) assms(2)] by blast
  have sm: "same (mg_eng m0) e'" using a(6) e' st(2) by (simp add: same_def)
  have en: "enter m now t ks = (working m0 t w now e sp, Inr ())" unfolding a(3) by (rule working_enter [OF a(2) assms(2)])
  show ?thesis
  proof (cases "map_of (ops_at w ks) k")
    case None
    have "tx_Get ops m now t ks k = (working m0 t w now e' sp, view_get V ks k)"
      using op None by (simp add: tx_Get_def en readAt_def on_eng_def e'(4) a(8) view_get_def tx_shows_written [OF assms(2)] written_def st(3) Let_def
          split: option.split)
    then show ?thesis using tx_atI [OF a(1,2,4,5) sm a(7)] a(8) by blast
  next
    case (Some op1)
    have "tx_Get ops m now t ks k = (working m0 t w now e sp, view_get V ks k)"
      using op Some by (simp add: tx_Get_def en a(8) view_get_def tx_shows_written [OF assms(2)] written_def op_value_def Let_def)
    then show ?thesis using tx_atI [OF a(1,2,4,5) a(6,7)] a(8) by blast
  qed
qed

lemma tx_at_put:
  assumes "tx_at L m0 m t V" "ks \<noteq> KSVersion"
  shows "\<exists>m'. tx_Put m now t ks k v = (m', Inr ()) \<and> tx_at (insert (ks, k) L) m0 m' t (upd_view V ks k (Some v))"
proof -
  obtain w l e sp where a: "minv m0" "open_writer m0 t" "m = working m0 t w l e sp" "keys_wf w" "L \<subseteq> wrote w" "same (mg_eng m0) e" "KSVersion \<notin> set sp"
      "V = tx_shows (committed (mg_eng m0)) (snap_of m0 t) w"
    using assms(1) by (auto simp: tx_at_def)
  have op: "is_open m0 t" "\<not> tt_ro (mtx_of m0 t)" "MaxWriteSet (mg_opt m0) \<le> 0" using a(2) by (simp_all add: open_writer_def)
  obtain w' where w': "reserveLocked (mg_opt m0) w ks k = Inr w'" "keys_wf w'" "written w' = written w" using reserve_uncapped [OF op(3) a(4) assms(2)] by blast
  have en: "enter m now t ks = (working m0 t w now e sp, Inr ())" unfolding a(3) by (rule working_enter [OF a(2) assms(2)])
  define op1 where "op1 = (case map_of (ops_at w' ks) k of None \<Rightarrow> \<lparr>to_val = v, to_del = False, to_unique = False, to_shadowed = False\<rparr>
     | Some prev \<Rightarrow> \<lparr>to_val = v, to_del = False, to_unique = False \<or> to_unique prev, to_shadowed = to_shadowed prev \<or> to_del prev\<rparr>)"
  have ov: "op_value op1 = Some v" by (simp add: op1_def op_value_def split: option.split)
  define sp' where "sp' = mg_spaces (noteSpace (working m0 t (set_op w' ks k op1) now e sp) ks)"
  have ns: "noteSpace (working m0 t (set_op w' ks k op1) now e sp) ks = working m0 t (set_op w' ks k op1) now e sp'"
    by (auto simp: sp'_def noteSpace_def)
  have sp: "KSVersion \<notin> set sp'" using a(7) assms(2) by (auto simp: sp'_def noteSpace_def)
  have put: "tx_Put m now t ks k v = (working m0 t (set_op w' ks k op1) now e sp', Inr ())"
    using op by (simp add: tx_Put_def tx_put_def en w'(1) Let_def ns op1_def [symmetric])
  have LW: "insert (ks, k) L \<subseteq> wrote (set_op w' ks k op1)" using a(5) w'(3) by (auto simp: wrote_def set_op_written)
  have "tx_at (insert (ks, k) L) m0 (working m0 t (set_op w' ks k op1) now e sp') t (upd_view V ks k (Some v))"
    using tx_atI [OF a(1,2) keys_wf_set_op [OF w'(2) assms(2)] LW a(6) sp] tx_shows_op [OF w'(3) assms(2), of _ _ k op1] ov a(8) by metis
  then show ?thesis unfolding put by blast
qed

lemma tx_at_delete:
  assumes "tx_at L m0 m t V" "ks \<noteq> KSVersion"
  shows "\<exists>m'. tx_Delete m now t ks k = (m', Inr ()) \<and> tx_at (insert (ks, k) L) m0 m' t (upd_view V ks k None)"
proof -
  obtain w l e sp where a: "minv m0" "open_writer m0 t" "m = working m0 t w l e sp" "keys_wf w" "L \<subseteq> wrote w" "same (mg_eng m0) e" "KSVersion \<notin> set sp"
      "V = tx_shows (committed (mg_eng m0)) (snap_of m0 t) w"
    using assms(1) by (auto simp: tx_at_def)
  have op: "is_open m0 t" "\<not> tt_ro (mtx_of m0 t)" "MaxWriteSet (mg_opt m0) \<le> 0" using a(2) by (simp_all add: open_writer_def)
  obtain w' where w': "reserveLocked (mg_opt m0) w ks k = Inr w'" "keys_wf w'" "written w' = written w" using reserve_uncapped [OF op(3) a(4) assms(2)] by blast
  have en: "enter m now t ks = (working m0 t w now e sp, Inr ())" unfolding a(3) by (rule working_enter [OF a(2) assms(2)])
  define op1 where "op1 = \<lparr>to_val = [], to_del = True, to_unique = False, to_shadowed = False\<rparr>"
  have ov: "op_value op1 = None" by (simp add: op1_def op_value_def)
  have del: "tx_Delete m now t ks k = (working m0 t (set_op w' ks k op1) now e sp, Inr ())"
    using op by (simp add: tx_Delete_def en w'(1) Let_def op1_def)
  have LW: "insert (ks, k) L \<subseteq> wrote (set_op w' ks k op1)" using a(5) w'(3) by (auto simp: wrote_def set_op_written)
  have "tx_at (insert (ks, k) L) m0 (working m0 t (set_op w' ks k op1) now e sp) t (upd_view V ks k None)"
    using tx_atI [OF a(1,2) keys_wf_set_op [OF w'(2) assms(2)] LW a(6,7)] tx_shows_op [OF w'(3) assms(2), of _ _ k op1] ov a(8) by metis
  then show ?thesis unfolding del by blast
qed

text \<open>An open cursor, and one with the entries \<open>xs\<close> still to read.\<close>

definition cur_open :: "txCursor \<Rightarrow> nat \<Rightarrow> keyspace \<Rightarrow> bool" where
  "cur_open c t ks \<longleftrightarrow> xc_tx c = t \<and> xc_ks c = ks \<and> ks \<noteq> KSVersion \<and> \<not> xc_closed c \<and> xc_err c = None"

definition cur_ahead :: "txCursor \<Rightarrow> nat \<Rightarrow> (bytes \<times> bytes) list \<Rightarrow> bool" where
  "cur_ahead c t xs \<longleftrightarrow> xc_tx c = t \<and> \<not> xc_closed c \<and> xc_err c = None
     \<and> (if xs = [] then xc_idx c = -1
        else 0 \<le> xc_idx c \<and> xc_idx c < int (length (xc_keys c)) \<and> map fst xs = drop (nat (xc_idx c)) (xc_keys c))"

lemma tx_at_cursor:
  assumes "tx_at L m0 m t V" "ks \<noteq> KSVersion"
  shows "\<exists>m' c. tx_Cursor m now t ks = (m', Inr c) \<and> tx_at L m0 m' t V \<and> cur_open c t ks"
proof -
  obtain w l e sp where a: "minv m0" "open_writer m0 t" "m = working m0 t w l e sp" "keys_wf w" "L \<subseteq> wrote w" "same (mg_eng m0) e" "KSVersion \<notin> set sp"
      "V = tx_shows (committed (mg_eng m0)) (snap_of m0 t) w"
    using assms(1) by (auto simp: tx_at_def)
  have en: "enter m now t ks = (working m0 t w now e sp, Inr ())" unfolding a(3) by (rule working_enter [OF a(2) assms(2)])
  have "tx_Cursor m now t ks = (working m0 t w now e sp,
      Inr \<lparr>xc_tx = t, xc_ks = ks, xc_keys = [], xc_vals = [], xc_idx = -1, xc_closed = False, xc_err = None\<rparr>)"
    using a(2) by (simp add: tx_Cursor_def en open_writer_def)
  then show ?thesis using tx_atI [OF a(1,2,4-7)] a(8) assms(2) by (auto simp: cur_open_def)
qed

lemma tx_at_finite: "tx_at L m0 m t V \<Longrightarrow> fin_view V"
  unfolding fin_view_def
proof
  fix ks assume "tx_at L m0 m t V"
  then obtain w where V: "V = tx_shows (committed (mg_eng m0)) (snap_of m0 t) w" and st: "inv (mg_eng m0)" "usable (mg_eng m0)"
    using minv_open by (auto simp: tx_at_def open_writer_def store_ok_def)
  obtain e1 h where "inv e1" "live e1 h" "view e1 h = committed (mg_eng m0)" using begin_ok [OF st, of True] by blast
  then have "finite (dom (committed (mg_eng m0) ks))" using live_finite by (metis fin_view_def)
  then show "finite (dom (V ks))" using tx_shows_dom unfolding V by (metis List.finite_set finite_UnI finite_imageI finite_subset)
qed

lemma mgr_bound_le:
  assumes "minv m0" "is_open m0 t" "same (mg_eng m0) e" "entries (tx_shows (committed (mg_eng m0)) s w ks) xs"
  shows "length xs \<le> mgr_bound ops (working m0 t w l e sp) t"
proof -
  note st = same_store [OF assms(1-3)]
  obtain e1 h where b: "ops_Begin ops e True = (e1, Inr h)" "inv e1" "live e1 h" "view e1 h = committed (mg_eng m0)"
    using begin_ok [OF st(1,2), of True] st(3) by auto
  obtain c where c: "curtx c = h" "curks c = ks" "curopen c" using cursor_ok [OF b(2,3), of ks] by blast
  obtain ys where ys: "entries (committed (mg_eng m0) ks) ys" "length ys \<le> ops_bound ops e1 h" using seek_ok [of e1 c None] b c by auto
  have card: "card (dom m) = length zs" if "entries m zs" for m and zs :: "(bytes \<times> bytes) list"
  proof -
    have "distinct (map fst zs)" "dom m = set (map fst zs)" using that by (force simp: entries_def strict_sorted_iff dom_map_of_conv_image_fst)+
    then show ?thesis by (metis distinct_card length_map)
  qed
  have "card (dom (tx_shows (committed (mg_eng m0)) s w ks)) \<le> card (dom (committed (mg_eng m0) ks) \<union> fst ` set (ops_at w ks))"
    using ys(1) entries_finite by (intro card_mono tx_shows_dom) auto
  also have "\<dots> \<le> card (dom (committed (mg_eng m0) ks)) + card (fst ` set (ops_at w ks))" by (rule card_Un_le)
  also have "card (fst ` set (ops_at w ks)) \<le> writeCount w"
    using card_image_le [of "set (ops_at w ks)" fst] card_length [of "ops_at w ks"] ops_at_count [of w ks] by auto
  finally have "length xs \<le> length ys + writeCount w" using card [OF assms(4)] card [OF ys(1)] by simp
  then show ?thesis using ys(2) by (simp add: mgr_bound_def b(1))
qed

lemma seek_from_key:
  assumes "sorted_wrt (<) (map fst xs)"
  shows "(let i = (case tg of None \<Rightarrow> 0 | Some t \<Rightarrow> sortSearch (length (map fst xs)) (\<lambda>n. bytesCompare (map fst xs ! n) t \<ge> 0)) in
    drop i xs) = from_key tg xs"
proof (cases tg)
  case (Some t)
  have "(\<lambda>n. bytesCompare (map fst xs ! n) t \<ge> 0) = (\<lambda>n. t \<le> map fst xs ! n)" by (auto simp: fun_eq_iff bytesCompare_ge)
  then show ?thesis using filter_ge_drop [OF assms, of t] Some by (simp add: from_key_def)
qed (simp add: from_key_def)

lemma tx_at_seek:
  assumes "tx_at L m0 m t V" "cur_open c t ks"
  shows "\<exists>m' c' xs. entries (V ks) xs \<and> length xs \<le> mgr_bound ops m' t \<and> xc_Seek ops m c tg = (m', c', from_key tg xs \<noteq> [])
    \<and> tx_at L m0 m' t V \<and> cur_ahead c' t (from_key tg xs)"
proof -
  obtain w l e sp where a: "minv m0" "open_writer m0 t" "m = working m0 t w l e sp" "keys_wf w" "L \<subseteq> wrote w" "same (mg_eng m0) e" "KSVersion \<notin> set sp"
      "V = tx_shows (committed (mg_eng m0)) (snap_of m0 t) w"
    using assms(1) by (auto simp: tx_at_def)
  have op: "is_open m0 t" using a(2) by (simp add: open_writer_def)
  have c: "xc_tx c = t" "xc_ks c = ks" "ks \<noteq> KSVersion" "\<not> xc_closed c" "xc_err c = None" using assms(2) by (simp_all add: cur_open_def)
  note st = same_store [OF a(1) op a(6)]
  obtain e' xs where x: "matStore ops e ks (snap_of m0 t) (ops_at w ks) = (e', Inr xs)" "same e e'"
      "entries (tx_sees (committed e) (ops_at w ks) (snap_of m0 t) ks) xs"
    by (rule matStore_entries [OF st(1,2,4) c(3) keys_wf_at [OF a(4)]])
  have sm: "same (mg_eng m0) e'" using x(2) a(6) by (simp add: same_def)
  have en: "entries (V ks) xs" using x(3) c(3) st(3) by (simp add: a(8) tx_shows_def)
  have srt: "sorted_wrt (<) (map fst xs)" using en by (simp add: entries_def)
  define i where "i = (case tg of None \<Rightarrow> 0 | Some t \<Rightarrow> sortSearch (length (map fst xs)) (\<lambda>n. bytesCompare (map fst xs ! n) t \<ge> 0))"
  have i: "drop i xs = from_key tg xs" using seek_from_key [OF srt, of tg] by (simp add: i_def Let_def)
  let ?c = "c\<lparr>xc_keys := map fst xs, xc_vals := map snd xs\<rparr>"
  let ?m = "working m0 t w l e' sp"
  have us: "xc_usable m c" using c op a(3) by (simp add: xc_usable_def)
  have mat: "tx_materialize ops m t ks = (?m, Inr xs)" using op by (simp add: a(3) tx_materialize_def Let_def on_eng_def x(1))
  have seek: "xc_Seek ops m c tg = (if i \<ge> length xs then (?m, ?c\<lparr>xc_idx := -1\<rparr>, False) else (?m, ?c\<lparr>xc_idx := int i\<rparr>, True))"
    using us c(1,2) mat by (cases tg) (simp_all add: xc_Seek_def Let_def i_def)
  have T: "tx_at L m0 ?m t V" unfolding a(8) by (rule tx_atI [OF a(1,2,4,5) sm a(7)])
  have bd: "length xs \<le> mgr_bound ops ?m t" by (rule mgr_bound_le [OF a(1) op sm en [unfolded a(8)]])
  have "from_key tg xs \<noteq> [] \<longleftrightarrow> i < length xs" unfolding i [symmetric] by (simp add: not_le)
  moreover have "map fst (from_key tg xs) = drop i (map fst xs)" unfolding i [symmetric] by (simp add: drop_map)
  ultimately have "xc_Seek ops m c tg = (?m, if i < length xs then ?c\<lparr>xc_idx := int i\<rparr> else ?c\<lparr>xc_idx := -1\<rparr>, from_key tg xs \<noteq> [])"
    "cur_ahead (if i < length xs then ?c\<lparr>xc_idx := int i\<rparr> else ?c\<lparr>xc_idx := -1\<rparr>) t (from_key tg xs)"
    using seek c by (auto simp: cur_ahead_def)
  then show ?thesis using en bd T by blast
qed

lemma tx_at_usable: "tx_at L m0 m t V \<Longrightarrow> cur_ahead c t xs \<Longrightarrow> xc_usable m c"
  by (auto simp: tx_at_def cur_ahead_def xc_usable_def open_writer_def)

lemma tx_at_next:
  assumes "tx_at L m0 m t V" "cur_ahead c t (x # xs)"
  shows "\<exists>c'. xc_Next m c = (c', xs \<noteq> []) \<and> cur_ahead c' t xs"
proof -
  have c: "0 \<le> xc_idx c" "xc_idx c < int (length (xc_keys c))" "fst x # map fst xs = drop (nat (xc_idx c)) (xc_keys c)"
    "xc_tx c = t" "\<not> xc_closed c" "xc_err c = None"
    using assms(2) by (simp_all add: cur_ahead_def)
  have n: "map fst xs = drop (nat (xc_idx c + 1)) (xc_keys c)" using c(1,3) by (metis Suc_nat_eq_nat_zadd1 add.commute drop_Suc list.sel(3) tl_drop)
  have e: "xs \<noteq> [] \<longleftrightarrow> xc_idx c + 1 < int (length (xc_keys c))"
    using arg_cong [OF n, of length] c(1) by (cases xs) auto
  show ?thesis using c n e tx_at_usable [OF assms] by (cases "xs = []") (auto simp: xc_Next_def Let_def cur_ahead_def)
qed

lemma tx_at_key:
  assumes "tx_at L m0 m t V" "cur_ahead c t (x # xs)"
  shows "xc_Key m c = fst x"
proof -
  have c: "0 \<le> xc_idx c" "xc_idx c < int (length (xc_keys c))" "fst x # map fst xs = drop (nat (xc_idx c)) (xc_keys c)"
    using assms(2) by (simp_all add: cur_ahead_def)
  have "xc_keys c ! nat (xc_idx c) = fst x" using c hd_drop_conv_nth [of "nat (xc_idx c)" "xc_keys c"] by (metis list.sel(1) nat_less_iff)
  then show ?thesis using c tx_at_usable [OF assms] by (simp add: xc_Key_def xc_positioned_def)
qed

text \<open>A transaction of the manager gives a graph store what it relies on.\<close>

sublocale mv: kv_write "mgr_ops ops now" "tx_at L m0" "\<lambda>m c t ks. cur_open c t ks" "\<lambda>m c t xs. cur_ahead c t xs" "\<lambda>ks. ks \<noteq> KSVersion" for now m0 L
proof (unfold_locales, goal_cases)
  case (2 m t V)
  then show ?case by (rule tx_at_finite)
next
  case (3 m t V ks k)
  then show ?case using tx_at_get by simp
next
  case (4 m t V ks)
  then show ?case using tx_at_cursor by simp
next
  case (5 m t V c ks tg)
  then show ?case using tx_at_seek by simp
next
  case (6 m t V c x xs)
  then show ?case using tx_at_next [OF 6] by auto
next
  case (7 m t V c x xs)
  then show ?case using tx_at_key by simp
next
  case (8 m t V c xs)
  then show ?case by (auto simp: cur_ahead_def xc_Close_def)
next
  case (9 m t V ks k v)
  then show ?case using tx_at_put [OF 9] tx_at_less by simp blast
next
  case (10 m t V ks k)
  then show ?case using tx_at_delete [OF 10] tx_at_less by simp blast
qed simp

end

section \<open>Every change is counted\<close>

text \<open>
  The write counter of the catalog is the one key every change of the graph writes. A simulation that, where
  the call succeeds, ends in a stronger relation.
\<close>

definition sim_done :: "('e \<Rightarrow> kvview \<Rightarrow> bool) \<Rightarrow> ('e \<Rightarrow> kvview \<Rightarrow> bool) \<Rightarrow> 'e \<times> 'r sresult \<Rightarrow> kvview \<times> 'r sresult \<Rightarrow> bool" where
  "sim_done S S' p q \<longleftrightarrow> snd p = snd q \<and> S (fst p) (fst q) \<and> ((\<exists>x. snd p = Inr x) \<longrightarrow> S' (fst p) (fst q))"

lemma sim_done_bind:
  "sim S p q \<Longrightarrow> (\<And>e V x. S e V \<Longrightarrow> sim_done S S' (f e x) (g V x)) \<Longrightarrow> sim_done S S' (sbind p f) (sbind q g)"
  by (cases p; cases q; cases "snd p") (auto simp: sim_def sim_done_def)

lemma sim_done_then:
  "sim_done S S' p q \<Longrightarrow> (\<And>e V. S' e V \<Longrightarrow> S e V) \<Longrightarrow> (\<And>e V x. S' e V \<Longrightarrow> sim S' (f e x) (g V x)) \<Longrightarrow> sim_done S S' (sbind p f) (sbind q g)"
  by (cases p; cases q; cases "snd p") (auto simp: sim_def sim_done_def)

lemma sim_done_let: "(\<And>y. sim_done S S' (f y) (g y)) \<Longrightarrow> sim_done S S' (Let x f) (Let x g)"
  by (simp add: Let_def)

abbreviation write_counter :: "keyspace \<times> bytes" where
  "write_counter \<equiv> (KSCatalog, cat_key KindWriteCount [])"

text \<open>The calls on nodes and edges, and those that change something when they succeed.\<close>

fun data_call :: "graph_call \<Rightarrow> bool" where
  "data_call (DoPutIndex ix) = False" | "data_call (DoDropIndex nm) = False" | "data_call (DoPutConstraint co) = False"
| "data_call (DoDropConstraint nm) = False" | "data_call (DoPutStats st) = False" | "data_call DoAllocIndexID = False"
| "data_call _ = True"

fun idle_call :: "graph_call \<Rightarrow> bool" where
  "idle_call (DoUpdateNode i ps) = (ps = [])" | "idle_call (DoUpdateEdge i ps) = (ps = [])" | "idle_call _ = False"

context kv_engine
begin

definition counted :: "(keyspace \<times> bytes) set \<Rightarrow> 'e manager \<Rightarrow> 'e manager \<Rightarrow> nat \<Rightarrow> kvview \<Rightarrow> bool" where
  "counted L m0 m t V \<longleftrightarrow> tx_at (insert write_counter L) m0 m t V \<and> case_prod V write_counter \<noteq> None"

lemma counted_tx: "counted L m0 m t V \<Longrightarrow> tx_at L m0 m t V"
  by (auto simp: counted_def intro: tx_at_less)

lemma counted_delete:
  assumes "counted L m0 m t V" "ks \<noteq> KSVersion" "ks \<noteq> KSCatalog"
  shows "sim (\<lambda>m. counted L m0 m t) (ops_Delete (mgr_ops ops now) m t ks k) (ops_Delete view_ops V t ks k)"
proof -
  have T: "tx_at (insert write_counter L) m0 m t V" using assms(1) by (simp add: counted_def)
  show ?thesis using mv.sim_delete [OF T assms(2), of now k] assms(1,3) by (auto simp: sim_def counted_def upd_view_apply)
qed

lemma graph_keyspaces:
  "KSNode \<noteq> KSVersion" "KSEdge \<noteq> KSVersion" "KSOut \<noteq> KSVersion" "KSIn \<noteq> KSVersion" "KSEdgeType \<noteq> KSVersion" "KSCatalog \<noteq> KSVersion"
  "KSNode \<noteq> KSCatalog" "KSEdge \<noteq> KSCatalog" "KSOut \<noteq> KSCatalog" "KSIn \<noteq> KSCatalog" "KSEdgeType \<noteq> KSCatalog"
  by (simp_all add: keyspace_defs)

abbreviation counts :: "(keyspace \<times> bytes) set \<Rightarrow> 'e manager \<Rightarrow> nat \<Rightarrow> 'e manager \<times> 'r sresult \<Rightarrow> kvview \<times> 'r sresult \<Rightarrow> bool" where
  "counts L m0 t \<equiv> sim_done (\<lambda>m. tx_at L m0 m t) (\<lambda>m. counted L m0 m t)"

lemma counts_bumpWrites: "tx_at L m0 m t V \<Longrightarrow> counts L m0 t (bumpWrites (mgr_ops ops now) m t) (bumpWrites view_ops V t)"
proof -
  have put: "counts L m0 t (writeU64 (mgr_ops ops now) m t KindWriteCount [] n) (writeU64 view_ops V t KindWriteCount [] n)"
    if "tx_at L m0 m t V" for m V n
    using tx_at_put [OF that, of KSCatalog now "cat_key KindWriteCount []" "be_put 8 (unat n)"] tx_at_less
    by (fastforce simp: sim_done_def writeU64_def counted_def upd_view_apply graph_keyspaces)
  show "tx_at L m0 m t V \<Longrightarrow> ?thesis"
    unfolding bumpWrites_def AddWrites_def by (simp, rule sim_done_bind [OF mv.sim_readU64]) (auto intro: put)
qed

lemmas counts_then = sim_done_then [where S = "\<lambda>m. tx_at L m0 m t" and S' = "\<lambda>m. counted L m0 m t" for L m0 t, OF _ counted_tx]

lemma counts_writeNode: "tx_at L m0 m t V \<Longrightarrow> counts L m0 t (writeNode (mgr_ops ops now) m t n) (writeNode view_ops V t n)"
  unfolding writeNode_def by (rule counts_bumpWrites sim_done_bind mv.sim_records sim_rules mv.user_keyspaces | assumption)+

lemma counts_writeEdge: "tx_at L m0 m t V \<Longrightarrow> counts L m0 t (writeEdge (mgr_ops ops now) m t r) (writeEdge view_ops V t r)"
  unfolding writeEdge_def by (rule counts_bumpWrites sim_done_let sim_done_bind mv.sim_records sim_rules mv.user_keyspaces | assumption)+

lemmas counts_rules = counts_then [OF counts_bumpWrites] counts_then [OF counts_writeNode] counts_then [OF counts_writeEdge] sim_done_let sim_done_bind
  counted_delete mv.sim_records mv.user_keyspaces graph_keyspaces

lemma counts_rewriteNode:
  "tx_at L m0 m t V \<Longrightarrow> counts L m0 t (rewriteNode (mgr_ops ops now) m t n ls ps) (rewriteNode view_ops V t n ls ps)"
  unfolding rewriteNode_def by (rule counts_rules sim_rules | assumption)+

lemma counts_nodes:
  "tx_at L m0 m t V \<Longrightarrow> counts L m0 t (CreateNode (mgr_ops ops now) m t ls ps) (CreateNode view_ops V t ls ps)"
  "tx_at L m0 m t V \<Longrightarrow> ps \<noteq> [] \<Longrightarrow> counts L m0 t (UpdateNode (mgr_ops ops now) m t i ps) (UpdateNode view_ops V t i ps)"
  "tx_at L m0 m t V \<Longrightarrow> counts L m0 t (AddLabels (mgr_ops ops now) m t i ls) (AddLabels view_ops V t i ls)"
  "tx_at L m0 m t V \<Longrightarrow> counts L m0 t (RemoveLabels (mgr_ops ops now) m t i ls) (RemoveLabels view_ops V t i ls)"
  "tx_at L m0 m t V \<Longrightarrow> counts L m0 t (ReplaceNodeProps (mgr_ops ops now) m t i ps) (ReplaceNodeProps view_ops V t i ps)"
  "tx_at L m0 m t V \<Longrightarrow> counts L m0 t (DeleteNodeProps (mgr_ops ops now) m t i ls) (DeleteNodeProps view_ops V t i ls)"
  "tx_at L m0 m t V \<Longrightarrow> counts L m0 t (DeleteNode (mgr_ops ops now) m t i) (DeleteNode view_ops V t i)"
  unfolding CreateNode_def UpdateNode_def AddLabels_def RemoveLabels_def ReplaceNodeProps_def DeleteNodeProps_def DeleteNode_def
  by (simp_all only: length_0_conv if_False) (rule counts_rules counts_rewriteNode mv.sim_deleteEdges sim_rules | assumption)+

lemma counts_edges:
  "tx_at L m0 m t V \<Longrightarrow> counts L m0 t (CreateEdge (mgr_ops ops now) m t a b l ps) (CreateEdge view_ops V t a b l ps)"
  "tx_at L m0 m t V \<Longrightarrow> ps \<noteq> [] \<Longrightarrow> counts L m0 t (UpdateEdge (mgr_ops ops now) m t i ps) (UpdateEdge view_ops V t i ps)"
  "tx_at L m0 m t V \<Longrightarrow> counts L m0 t (ReplaceEdgeProps (mgr_ops ops now) m t i ps) (ReplaceEdgeProps view_ops V t i ps)"
  "tx_at L m0 m t V \<Longrightarrow> counts L m0 t (DeleteEdgeProps (mgr_ops ops now) m t i ls) (DeleteEdgeProps view_ops V t i ls)"
  "tx_at L m0 m t V \<Longrightarrow> counts L m0 t (DeleteEdge (mgr_ops ops now) m t i) (DeleteEdge view_ops V t i)"
  unfolding CreateEdge_def UpdateEdge_def ReplaceEdgeProps_def DeleteEdgeProps_def DeleteEdge_def
  by (simp_all only: length_0_conv if_False) (rule counts_rules sim_rules | assumption)+

lemma counts_reply: "counts L m0 t p q \<Longrightarrow> counts L m0 t (reply f p) (reply f q)"
  unfolding reply_def by (rule counts_then) (auto intro: sim_rules)

lemma counts_graph_do:
  "tx_at L m0 m t V \<Longrightarrow> data_call c \<Longrightarrow> \<not> idle_call c \<Longrightarrow> counts L m0 t (graph_do (mgr_ops ops now) t c m) (graph_do view_ops t c V)"
  by (cases c) (simp_all add: counts_reply counts_nodes counts_edges)

end

end
