(* ===== verification/GraphSerial.thy ===== *)
theory GraphSerial
  imports GraphTxn
begin

text \<open>
  Concurrent graph transactions. Snapshot isolation alone does not keep the constraints of a graph: one transaction may
  delete a node while another adds an edge to it, and the two write different keys. The graph store makes every change
  write the write counter of the catalog, so two transactions that change the graph from the same state conflict there, and the
  later commit is refused. Every committed state is therefore the state some transaction saw, and a consistent graph.
\<close>

section \<open>Calls that fail leave the contents alone\<close>

lemma graph_do_unchanged:
  assumes ok: "graph_ok V" and fit: "call_fits V c" and d: "data_call c" and f: "idle_call c \<or> snd (graph_do view_ops h c V) = Inl x"
  shows "fst (graph_do view_ops h c V) = V"
proof -
  note g = graph_okD [OF ok]
  have n: "node_recs V i = None \<Longrightarrow> c \<in> {DoUpdateNode i ps, DoAddLabels i ls, DoRemoveLabels i ls, DoReplaceNodeProps i ps, DoDeleteNodeProps i ls, DoDeleteNode i}
      \<Longrightarrow> fst (graph_do view_ops h c V) = V" for i ps ls
    using missing_node [OF g] by auto
  have e: "edge_recs V i = None \<Longrightarrow> c \<in> {DoUpdateEdge i ps, DoReplaceEdgeProps i ps, DoDeleteEdgeProps i ls, DoDeleteEdge i} \<Longrightarrow> fst (graph_do view_ops h c V) = V" for i ps ls
    using missing_edge [OF g] by auto
  have r0: "room V 0" using graph_atD(1) [OF g] by (simp add: base_def)
  show ?thesis
  proof (cases c)
    case (DoCreateNode ls ps)
    then show ?thesis using CreateNode_view [OF g, of ls ps 0 h] fit f by fastforce
  next
    case (DoUpdateNode i ps)
    show ?thesis
    proof (cases "node_recs V i")
      case (Some r)
      then have "node_size V i = (length (fst r), length (snd r))" by (simp add: node_size_def)
      then have "ps \<noteq> [] \<Longrightarrow> ?thesis" using DoUpdateNode Some UpdateNode_changed [OF g Some, of ps 0 h] fit f by fastforce
      moreover have "ps = [] \<Longrightarrow> ?thesis" using DoUpdateNode Some by (simp add: UpdateNode_def graph_GetNode [OF g])
      ultimately show ?thesis by blast
    qed (use n DoUpdateNode in blast)
  next
    case (DoAddLabels i ls)
    then show ?thesis using n AddLabels_changed [OF g, of i _ ls 0 h] fit f by (cases "node_recs V i") (fastforce simp: node_size_def)+
  next
    case (DoRemoveLabels i ls)
    then show ?thesis using n RemoveLabels_changed [OF g, of i _ 0 h ls] fit f by (cases "node_recs V i") (fastforce simp: node_size_def)+
  next
    case (DoReplaceNodeProps i ps)
    then show ?thesis using n ReplaceNodeProps_changed [OF g, of i _ ps 0 h] fit f by (cases "node_recs V i") (fastforce simp: node_size_def)+
  next
    case (DoDeleteNodeProps i ls)
    then show ?thesis using n DeleteNodeProps_changed [OF g, of i _ 0 h ls] fit f by (cases "node_recs V i") (fastforce simp: node_size_def)+
  next
    case (DoDeleteNode i)
    then show ?thesis using n DeleteNode_view [OF g, of i _ h] f by (cases "node_recs V i") fastforce+
  next
    case (DoCreateEdge a b l ps)
    show ?thesis
    proof (cases "node_recs V a = None \<or> node_recs V b = None")
      case True
      then show ?thesis using missing_ends [OF g, where a = a and b = b and h = h and l = l and ps = ps] DoCreateEdge by (cases "node_recs V a") auto
    next
      case False
      then show ?thesis using CreateEdge_view [OF g, of ps 0 a b h l] fit f DoCreateEdge by fastforce
    qed
  next
    case (DoUpdateEdge i ps)
    show ?thesis
    proof (cases "edge_recs V i")
      case (Some r)
      then have "edge_size V i = length (de_Props r)" by (simp add: edge_size_def)
      then have "ps \<noteq> [] \<Longrightarrow> ?thesis" using DoUpdateEdge Some UpdateEdge_changed [OF g Some, of ps 0 h] fit f by fastforce
      moreover have "ps = [] \<Longrightarrow> ?thesis" using DoUpdateEdge Some by (simp add: UpdateEdge_def graph_loadEdge [OF g])
      ultimately show ?thesis by blast
    qed (use e DoUpdateEdge in blast)
  next
    case (DoReplaceEdgeProps i ps)
    then show ?thesis using e ReplaceEdgeProps_changed [OF g, of i _ ps 0 h] fit f by (cases "edge_recs V i") fastforce+
  next
    case (DoDeleteEdgeProps i ls)
    then show ?thesis using e DeleteEdgeProps_changed [OF g _ r0, of i _ h ls] f by (cases "edge_recs V i") fastforce+
  next
    case (DoDeleteEdge i)
    then show ?thesis using e DeleteEdge_view [OF g, of i _ h] f by (cases "edge_recs V i") fastforce+
  qed (use d in auto)
qed

section \<open>Changes of the counter\<close>

lemma changed_pub:
  assumes "changed_since V s ks k" "s < cts" "ks \<noteq> KSVersion" "ks' \<noteq> KSVersion"
  shows "changed_since (pub_view cts V (ks', k', op)) s ks k"
proof (cases "(ks, k) = (ks', k')")
  case True
  then show ?thesis using assms by (auto simp: changed_since_def pub_view_def head_at_upd codec_simps split: option.splits)
next
  case False
  then show ?thesis using assms pub_view_other(1) [OF assms(4,3), of k k' cts V op] by (auto simp: changed_since_def)
qed

lemma put_changed:
  assumes "\<not> to_del op" "s < cts" "ks \<noteq> KSVersion"
  shows "changed_since (pub_view cts V (ks, k, op)) s ks k"
  using assms by (auto simp: changed_since_def pub_view_def head_at_upd codec_simps split: option.splits)

lemma changed_publish:
  assumes "s < cts" "ks \<noteq> KSVersion" "\<forall>(ks, k, op)\<in>set ws. ks \<noteq> KSVersion"
    and "changed_since V s ks k \<or> (\<exists>op. (ks, k, op) \<in> set ws \<and> \<not> to_del op)"
  shows "changed_since (foldl (pub_view cts) V ws) s ks k"
  using assms(3,4)
proof (induction ws arbitrary: V)
  case (Cons w ws)
  obtain ks' k' op' where w: "w = (ks', k', op')" by (metis prod_cases3)
  have "changed_since (pub_view cts V w) s ks k \<or> (\<exists>op. (ks, k, op) \<in> set ws \<and> \<not> to_del op)"
    using Cons.prems changed_pub [OF _ assms(1,2), of V k ks' k' op'] put_changed [OF _ assms(1,2), of op' V k] by (auto simp: w)
  then show ?case using Cons by simp
qed simp

lemma changed_published:
  assumes "s < cts" "ks \<noteq> KSVersion" "writes_wf w" "changed_since V s ks k \<or> (\<exists>op. written w ks k = Some op \<and> \<not> to_del op)"
  shows "changed_since (published cts n V w) s ks k"
proof -
  have "changed_since (foldl (pub_view cts) V (all_ops w)) s ks k"
    using assms all_ops_wf [OF assms(3)] written_all_ops [OF assms(3)] by (intro changed_publish) auto
  then show ?thesis using assms(2) by (simp add: published_def changed_since_def head_at_upd)
qed

lemma changed_vac:
  assumes "mvcc_inv V T" "ks \<noteq> KSVersion" "changed_since V s ks k" "old \<le> s"
  shows "changed_since (vac_view V old sp) s ks k"
proof -
  obtain h where h: "head_at V ks k = Some h" "hd_create h > s \<or> hd_delete h > s" using assms(3) by (auto simp: changed_since_def)
  have "\<not> dead_at old (hd_delete h)"
    using h(2) assms(4) mvcc_inv_head(3) [OF assms(1,2) h(1)] by (auto simp: dead_at_def)
  then show ?thesis using h by (auto simp: changed_since_def head_at_vac [OF assms(2)])
qed

section \<open>One transaction and the state of the database\<close>

text \<open>
  What holds of an open transaction with snapshot \<open>s\<close> and writes \<open>w\<close> when the database is \<open>C\<close> at timestamp \<open>T\<close>: it sees a
  consistent graph; it has counted its changes, or made none; and where the counter has not moved since its snapshot, nothing has.
\<close>

definition tx_graph :: "kvview \<Rightarrow> uint64 \<Rightarrow> uint64 \<Rightarrow> txWrites \<Rightarrow> bool" where
  "tx_graph C T s w \<longleftrightarrow> graph_ok (tx_shows C s w)
     \<and> (write_counter \<in> wrote w \<and> case_prod (tx_shows C s w) write_counter \<noteq> None \<or> tx_shows C s w = tx_shows C s [])
     \<and> (changed_since C s (fst write_counter) (snd write_counter) \<or> tx_shows C s [] = tx_shows C T [])"

lemma tx_shows_none: "tx_shows C s [] ks k = (if ks = KSVersion then None else snap_read C ks k s)"
  by (simp add: tx_shows_def tx_sees_def ops_at_def)

lemma tx_shows_cong:
  "(\<And>ks k. ks \<noteq> KSVersion \<Longrightarrow> snap_read C' ks k s' = snap_read C ks k s) \<Longrightarrow> tx_shows C' s' w = tx_shows C s w"
  by (auto simp: fun_eq_iff tx_shows_def tx_sees_def split: option.split)

lemma tx_graph_begin: "graph_ok (tx_shows C T []) \<Longrightarrow> tx_graph C T T []"
  by (simp add: tx_graph_def)

text \<open>The state a valid commit leaves.\<close>

lemma commit_view:
  assumes V: "mvcc_inv C T" and T: "T < T + 1" and wf: "writes_wf w" and s: "s \<le> T" and val: "validity C s w = Inr ()" and t: "tx_graph C T s w"
  shows "tx_shows C s w = tx_shows C s [] \<and> tx_shows (published (T + 1) n C w) (T + 1) [] = tx_shows C T []
    \<or> tx_shows C s [] = tx_shows C T [] \<and> tx_shows (published (T + 1) n C w) (T + 1) [] = tx_shows C s w"
proof -
  let ?C = "published (T + 1) n C w"
  have un: "\<not> changed_since C s ks k" if "written w ks k \<noteq> None" for ks k
    using that val written_all_ops [OF wf] by (fastforce simp: validity_cases(1))
  have new: "tx_shows ?C (T + 1) [] ks k = (if ks = KSVersion then None else case written w ks k of Some op \<Rightarrow> op_value op | None \<Rightarrow> snap_read C ks k T)" for ks k
    using published_snap(2) [OF V T wf, of ks n k "T + 1"] later_read [OF V, of ks "T + 1" k] T by (auto simp: tx_shows_none split: option.split)
  show ?thesis
  proof (cases "tx_shows C s w = tx_shows C s []")
    case False
    then have "written w (fst write_counter) (snd write_counter) \<noteq> None" using t by (auto simp: tx_graph_def wrote_def)
    then have eq: "tx_shows C s [] = tx_shows C T []" using t un by (auto simp: tx_graph_def)
    then have "snap_read C ks k s = snap_read C ks k T" if "ks \<noteq> KSVersion" for ks k using that by (metis tx_shows_none)
    then have "tx_shows ?C (T + 1) [] ks k = tx_shows C s w ks k" for ks k
      by (cases "ks = KSVersion") (auto simp: new tx_shows_written split: option.split, simp add: tx_shows_def)
    then have "tx_shows ?C (T + 1) [] = tx_shows C s w" by (intro ext)
    then show ?thesis using eq by blast
  next
    case True
    have "op_value op = snap_read C ks k T" if "ks \<noteq> KSVersion" "written w ks k = Some op" for ks k op
      using fun_cong [OF fun_cong [OF True, of ks], of k] that unchanged_read [OF V that(1) un s, of k] by (simp add: tx_shows_written tx_shows_none)
    then have "tx_shows ?C (T + 1) [] ks k = tx_shows C T [] ks k" for ks k unfolding new unfolding tx_shows_none by (auto split: option.split)
    then have "tx_shows ?C (T + 1) [] = tx_shows C T []" by (intro ext)
    then show ?thesis using True by blast
  qed
qed

lemma published_graph:
  assumes V: "mvcc_inv C T" and T: "T < T + 1" and wf: "writes_wf w" and s: "s \<le> T" and val: "validity C s w = Inr ()"
    and t: "tx_graph C T s w" and ok: "graph_ok (tx_shows C T [])"
  shows "graph_ok (tx_shows (published (T + 1) n C w) (T + 1) [])"
    "write_counter \<in> wrote w \<and> case_prod (tx_shows C s w) write_counter \<noteq> None \<or> tx_shows (published (T + 1) n C w) (T + 1) [] = tx_shows C T []"
  using commit_view [OF V T wf s val t, of n] ok t by (auto simp: tx_graph_def)

text \<open>The other transactions after it.\<close>

lemma published_others:
  assumes V: "mvcc_inv C T" and T: "T < T + 1" and wf: "writes_wf w" and s: "s \<le> T" and val: "validity C s w = Inr ()"
    and t: "tx_graph C T s w" and ok: "graph_ok (tx_shows C T [])" and t': "tx_graph C T s' w'" and s': "s' \<le> T"
  shows "tx_graph (published (T + 1) n C w) (T + 1) s' w'"
proof -
  let ?C = "published (T + 1) n C w"
  have lt: "s' < T + 1" using s' T by simp
  have "snap_read ?C ks k s' = snap_read C ks k s'" if "ks \<noteq> KSVersion" for ks k
    using published_snap(2) [OF V T wf that, of n k s'] lt by (auto split: option.split)
  then have same: "tx_shows ?C s' u = tx_shows C s' u" for u by (rule tx_shows_cong)
  have wc: "KSCatalog \<noteq> KSVersion" by (simp add: keyspace_defs)
  have "changed_since ?C s' KSCatalog (snd write_counter) \<or> tx_shows ?C s' [] = tx_shows ?C (T + 1) []"
  proof (cases "write_counter \<in> wrote w \<and> case_prod (tx_shows C s w) write_counter \<noteq> None")
    case True
    then obtain op where "written w KSCatalog (snd write_counter) = Some op" "\<not> to_del op"
      by (auto simp: wrote_def tx_shows_written [OF wc] op_value_def split: if_splits)
    then show ?thesis using changed_published [OF lt wc wf] by blast
  next
    case False
    then have "tx_shows ?C (T + 1) [] = tx_shows C T []" using published_graph(2) [OF V T wf s val t ok, of n] by blast
    moreover have "changed_since C s' KSCatalog (snd write_counter) \<or> tx_shows C s' [] = tx_shows C T []" using t' by (auto simp: tx_graph_def)
    ultimately show ?thesis using changed_published [OF lt wc wf] same by metis
  qed
  then show ?thesis using t' by (simp add: tx_graph_def same)
qed

lemma vac_others:
  assumes V: "mvcc_inv C T" and sp: "KSVersion \<notin> sp" and old: "old \<le> s" "s \<le> T" and t: "tx_graph C T s w"
  shows "tx_graph (vac_view C old sp) T s w"
proof -
  have wc: "KSCatalog \<noteq> KSVersion" by (simp add: keyspace_defs)
  have same: "tx_shows (vac_view C old sp) s' u = tx_shows C s' u" if "old \<le> s'" for s' u
    by (rule tx_shows_cong) (rule snap_read_vac [OF V _ sp that])
  have oT: "old \<le> T" using old by simp
  show ?thesis using t changed_vac [OF V wc _ old(1)] by (auto simp: tx_graph_def same [OF old(1)] same [OF oT])
qed

section \<open>Every transaction and the database\<close>

text \<open>The write sets a transaction may end with: its own and those of its savepoints.\<close>

definition write_sets :: "txTx \<Rightarrow> txWrites set" where
  "write_sets x = insert (tt_writes x) (set (tt_marks x))"

definition tx_fine :: "kvview \<Rightarrow> uint64 \<Rightarrow> txTx \<Rightarrow> bool" where
  "tx_fine C T x \<longleftrightarrow> (\<forall>w\<in>write_sets x. tx_graph C T (tt_snapshot x) w)"

definition db_fine :: "('e \<Rightarrow> kvview) \<Rightarrow> 'e manager \<Rightarrow> bool" where
  "db_fine ecomm m \<longleftrightarrow> mg_closed m \<or> IdleTimeout (mg_opt m) \<le> 0 \<and> MaxWriteSet (mg_opt m) \<le> 0
     \<and> graph_ok (tx_shows (ecomm (mg_eng m)) (mg_commitTS m) [])
     \<and> (\<forall>t. is_open m t \<longrightarrow> tx_fine (ecomm (mg_eng m)) (mg_commitTS m) (mtx_of m t))"

text \<open>A step that touches no data: the store stays, and no transaction gets other writes.\<close>

definition dataless_tx :: "txTx \<Rightarrow> txTx \<Rightarrow> bool" where
  "dataless_tx x x' \<longleftrightarrow> tt_done x' \<or> \<not> tt_done x \<and> tt_snapshot x' = tt_snapshot x \<and> write_sets x' \<subseteq> write_sets x"

definition dataless :: "('e \<Rightarrow> kvview) \<Rightarrow> 'e manager \<Rightarrow> 'e manager \<Rightarrow> bool" where
  "dataless ecomm m m' \<longleftrightarrow> (mg_closed m \<longrightarrow> mg_closed m') \<and> (mg_closed m' \<or> mg_opt m' = mg_opt m \<and> mg_commitTS m' = mg_commitTS m
     \<and> ecomm (mg_eng m') = ecomm (mg_eng m) \<and> (\<forall>t. dataless_tx (mtx_of m t) (mtx_of m' t)))"

lemma dataless_tx_refl [simp]: "dataless_tx x x"
  by (auto simp: dataless_tx_def)

lemma dataless_tx_trans: "dataless_tx x y \<Longrightarrow> dataless_tx y z \<Longrightarrow> dataless_tx x z"
  by (auto simp: dataless_tx_def)

lemma dataless_tx_update [simp]:
  "dataless_tx x (x\<lparr>tt_last := l\<rparr>)" "dataless_tx x (x\<lparr>tt_done := True, tt_writes := w, tt_marks := ws\<rparr>)" "dataless_tx x (x\<lparr>tt_done := True, tt_writes := w\<rparr>)"
  by (auto simp: dataless_tx_def write_sets_def)

lemma dataless_fine:
  assumes "dataless ecomm m m'" "db_fine ecomm m"
  shows "db_fine ecomm m'"
proof (cases "mg_closed m'")
  case False
  then have c: "mg_opt m' = mg_opt m" "mg_commitTS m' = mg_commitTS m" "ecomm (mg_eng m') = ecomm (mg_eng m)" "\<And>t. dataless_tx (mtx_of m t) (mtx_of m' t)" "\<not> mg_closed m"
    using assms(1) by (auto simp: dataless_def)
  have "tx_fine (ecomm (mg_eng m)) (mg_commitTS m) (mtx_of m' t)" if "is_open m' t" for t
    using that c(4) [of t] c(5) assms(2) by (auto simp: db_fine_def tx_fine_def dataless_tx_def)
  then show ?thesis using assms(2) c by (auto simp: db_fine_def)
qed (simp add: db_fine_def)

lemma dataless_refl [simp]: "dataless ecomm m m"
  by (simp add: dataless_def)

lemma dataless_trans: "dataless ecomm m m' \<Longrightarrow> dataless ecomm m' m'' \<Longrightarrow> dataless ecomm m m''"
  unfolding dataless_def using dataless_tx_trans by metis

lemma dataless_bind:
  "dataless c m (fst r) \<Longrightarrow> (\<And>m1 x. r = (m1, Inr x) \<Longrightarrow> dataless c m1 (fst (f m1 x))) \<Longrightarrow> dataless c m (fst (sbind r f))"
  by (cases "(r, f)" rule: sbind.cases) (auto intro: dataless_trans)

lemma dataless_eng: "mg_closed m \<or> ecomm e = ecomm (mg_eng m) \<Longrightarrow> dataless ecomm m (m\<lparr>mg_eng := e\<rparr>)"
  by (auto simp: dataless_def)

lemma dataless_set: "dataless_tx (mtx_of m t) x \<Longrightarrow> dataless ecomm m (set_mtx m t x)"
  by (simp add: dataless_def)

lemma dataless_fields [simp]:
  "dataless c m (m'\<lparr>mg_open := l\<rparr>) = dataless c m m'" "dataless c m (m'\<lparr>mg_rollbacks := u\<rparr>) = dataless c m m'" "dataless c m (m'\<lparr>mg_commits := u\<rparr>) = dataless c m m'"
  "dataless c m (m'\<lparr>mg_hooks := hk\<rparr>) = dataless c m m'"
  by (simp_all add: dataless_def)

lemma dataless_touch: "dataless c m (fst (Txn.touch m now t))"
  by (auto simp: Txn.touch_def Let_def drop_tx_def dataless_set)

lemma dataless_enter: "dataless c m (fst (enter m now t ks))"
  unfolding enter_def by (rule dataless_bind) (simp_all add: dataless_touch)

lemma dataless_finish: "dataless c m (finish m t b)"
  by (simp add: finish_def Let_def dataless_set)

context kv_engine
begin

lemma dataless_readAt: "minv m \<Longrightarrow> ks \<noteq> KSVersion \<Longrightarrow> dataless committed m (fst (readAt ops m ks k s))"
proof (cases "mg_closed m")
  case False
  assume "minv m" "ks \<noteq> KSVersion"
  then have st: "inv (mg_eng m)" "usable (mg_eng m)" "mvcc_inv (committed (mg_eng m)) (mg_commitTS m)"
    using False by (auto simp: mgr_inv_def store_ok_def)
  show ?thesis
    by (rule readVersion_read [OF st \<open>ks \<noteq> KSVersion\<close>, of k s]) (simp add: readAt_def on_eng_def dataless_eng)
qed (simp add: readAt_def on_eng_def dataless_eng split: prod.split)

lemma dataless_Get: "minv m \<Longrightarrow> dataless committed m (fst (tx_Get ops m now t ks k))"
proof (rule enter_cases [of m now t ks], assumption, goal_cases)
  case (1 m' err)
  then show ?case using dataless_enter [of committed m now t ks] by (simp add: tx_Get_def)
next
  case 2
  let ?m = "set_mtx m t ((mtx_of m t)\<lparr>tt_last := now\<rparr>)"
  have "dataless committed m ?m" by (simp add: dataless_set)
  then show ?case using 2(2,3,5) dataless_trans [OF _ dataless_readAt [OF sok_minv [OF 2(4)] 2(5)]]
    by (simp add: tx_Get_def Let_def split: option.split)
qed

lemma dataless_Cursor: "dataless committed m (fst (tx_Cursor m now t ks))"
  unfolding tx_Cursor_def by (rule dataless_bind) (simp_all add: dataless_enter)

lemma dataless_materialize: "minv m \<Longrightarrow> ks \<noteq> KSVersion \<Longrightarrow> dataless committed m (fst (tx_materialize ops m t ks))"
proof (cases "is_open m t")
  case True
  assume a: "minv m" "ks \<noteq> KSVersion"
  have st: "inv (mg_eng m)" "usable (mg_eng m)" "mvcc_inv (committed (mg_eng m)) (mg_commitTS m)"
    using minv_open [OF a(1) True] by (auto simp: store_ok_def)
  have d: "distinct (map fst (ops_at (tt_writes (mtx_of m t)) ks))" using ops_at_wf [OF open_writes_wf [OF a(1) True]] by blast
  show ?thesis
    by (rule matStore_entries [OF st a(2) d, of "snap_of m t"]) (use True in \<open>simp add: tx_materialize_def Let_def on_eng_def dataless_eng same_def\<close>)
qed (simp add: tx_materialize_def)

lemma dataless_seek:
  assumes "minv m" and "xc_ks c \<noteq> KSVersion"
  shows "dataless committed m (fst (xc_Seek ops m c tg))" and "dataless committed m (fst (xc_SeekReverse ops m c tg))"
proof -
  obtain m' r where m: "tx_materialize ops m (xc_tx c) (xc_ks c) = (m', r)" by fastforce
  have "dataless committed m m'" using dataless_materialize [OF assms, of "xc_tx c"] by (simp add: m)
  then show "dataless committed m (fst (xc_Seek ops m c tg))" "dataless committed m (fst (xc_SeekReverse ops m c tg))"
    by (cases r; auto simp: xc_Seek_def xc_SeekReverse_def m Let_def split: option.split)+
qed

lemma dataless_logAbort: "minv m \<Longrightarrow> dataless committed m (logAbort ops m i)"
  unfolding logAbort_def by (rule dataless_eng) (use log_abort_ok in \<open>auto simp: mgr_inv_def store_ok_def\<close>)

lemma dataless_Rollback: "minv m \<Longrightarrow> dataless committed m (fst (tx_Rollback ops m t))"
proof -
  assume a: "minv m"
  let ?m = "drop_tx (set_mtx m t ((mtx_of m t)\<lparr>tt_done := True, tt_writes := [], tt_marks := []\<rparr>)) t True"
  have "dataless committed m ?m" by (simp add: drop_tx_def Let_def dataless_set)
  moreover have "dataless committed ?m (logAbort ops ?m i)" for i by (rule dataless_logAbort [OF sok_minv [OF sok_drop [OF a]]]) simp
  ultimately show ?thesis by (auto simp: tx_Rollback_def Let_def intro: dataless_trans)
qed

lemma dataless_marks: "dataless committed m (fst (tx_Mark m now t))" "dataless committed m (fst (tx_RollbackTo m now t n))"
proof -
  show "dataless committed m (fst (tx_Mark m now t))" unfolding tx_Mark_def
    by (rule dataless_bind) (auto simp: dataless_touch Let_def dataless_tx_def write_sets_def intro!: dataless_set)
  have "tt_marks x ! (nat n - 1) \<in> set (tt_marks x)" if "1 \<le> n" "n \<le> int (length (tt_marks x))" for x
    using that by (intro nth_mem) linarith
  then show "dataless committed m (fst (tx_RollbackTo m now t n))" unfolding tx_RollbackTo_def
    by (intro dataless_bind) (auto simp: dataless_touch Let_def dataless_tx_def write_sets_def dest: in_set_takeD intro!: dataless_set)
qed

lemma dataless_Crash: "minv m \<Longrightarrow> dataless committed m (fst (mgr_Crash ops m))"
proof (cases "mg_closed m")
  case False
  assume a: "minv m"
  have opt: "mg_opt (foldl (crash_tx ops) m' ts) = mg_opt m'" for m' ts
    by (induction ts arbitrary: m') (simp_all add: crash_tx_def Let_def logAbort_def)
  let ?m = "m\<lparr>mg_open := [], mg_rollbacks := mg_rollbacks m + word_of_nat (length (mg_open m))\<rparr>"
  have "mg_closed ?m \<or> inv (mg_eng ?m)" using a False by (simp add: mgr_inv_def store_ok_def)
  from crash_fold [OF this, of "mg_open m"] show ?thesis
    using False by (auto simp: mgr_Crash_def dataless_def Let_def opt same_def)
qed (simp add: mgr_Crash_def)

text \<open>The steps that change the store: a commit that publishes, and a vacuum.\<close>

lemma fine_Begin: "db_fine committed m \<Longrightarrow> db_fine committed (fst (mgr_Begin m now ro))"
  by (auto simp: db_fine_def mgr_Begin_def Let_def tx_fine_def write_sets_def tx_graph_begin)

lemma fine_published:
  assumes inv: "minv m" and fine: "db_fine committed m" and T: "mg_commitTS m < mg_commitTS m + 1" and t: "is_open m t"
    and e: "committed e = published (mg_commitTS m + 1) n (committed (mg_eng m)) (tt_writes (mtx_of m t))"
    and val: "validity (committed (mg_eng m)) (snap_of m t) (tt_writes (mtx_of m t)) = Inr ()"
  shows "db_fine committed (committed_state m t e d)"
proof -
  note o = minv_open [OF inv]
  have V: "mvcc_inv (committed (mg_eng m)) (mg_commitTS m)" and cl: "\<not> mg_closed m" using o [OF t] by (auto simp: store_ok_def)
  have g: "graph_ok (tx_shows (committed (mg_eng m)) (mg_commitTS m) [])" and op: "IdleTimeout (mg_opt m) \<le> 0" "MaxWriteSet (mg_opt m) \<le> 0"
    and f: "\<And>t. is_open m t \<Longrightarrow> tx_fine (committed (mg_eng m)) (mg_commitTS m) (mtx_of m t)"
    using fine cl by (auto simp: db_fine_def)
  have wf: "writes_wf (tt_writes (mtx_of m t))" and s: "snap_of m t \<le> mg_commitTS m" using o [OF t] by (auto simp: tx_ok_def)
  have tg: "tx_graph (committed (mg_eng m)) (mg_commitTS m) (snap_of m t) (tt_writes (mtx_of m t))" using f [OF t] by (simp add: tx_fine_def write_sets_def)
  have "tx_fine (committed e) (mg_commitTS m + 1) (mtx_of m t')" if "is_open m t'" for t'
    using f [OF that] o [OF that] published_others [OF V T wf s val tg g] by (auto simp: tx_fine_def tx_ok_def e)
  moreover have "graph_ok (tx_shows (committed e) (mg_commitTS m + 1) [])" unfolding e by (rule published_graph(1) [OF V T wf s val tg g])
  ultimately show ?thesis using op by (simp add: db_fine_def committed_state_def Let_def)
qed

lemma fine_Commit:
  assumes "minv m" "db_fine committed m" "mg_commitTS m < mg_commitTS m + 1"
  shows "db_fine committed (fst (tx_Commit ops m now t))"
proof (rule commit_cases [OF assms(1,3), of now t], goal_cases)
  case (1 m' err)
  then show ?case using dataless_fine [OF dataless_touch [of committed m now t] assms(2)] by simp
next
  case 2
  then show ?case using dataless_fine [OF dataless_trans [OF dataless_set dataless_finish] assms(2)] by simp
next
  case (3 err)
  then show ?case using dataless_fine [OF dataless_set assms(2)] by simp
next
  case (4 e' err)
  then show ?case using dataless_fine [OF dataless_trans [OF dataless_set dataless_eng] assms(2)] by (simp add: same_def)
next
  case (5 e')
  let ?m = "set_mtx m t ((mtx_of m t)\<lparr>tt_last := now\<rparr>)"
  have "db_fine committed ?m" by (rule dataless_fine [OF dataless_set assms(2)]) simp
  then show ?case using 5 assms(3) fine_published [OF sok_minv [OF 5(3)], of t e' "mg_nextTxnID m"] by simp
qed

lemma opt_Vacuum: "mg_opt (fst (mgr_Vacuum ops m ctx)) = mg_opt m"
  by (cases "vacStore ops (mg_eng m) ctx (oldestSnapshot m) (mg_spaces m)"; cases "snd (vacStore ops (mg_eng m) ctx (oldestSnapshot m) (mg_spaces m))")
    (auto simp: mgr_Vacuum_def on_eng_def split: option.split)

lemma fine_Vacuum:
  assumes "minv m" "db_fine committed m"
  shows "db_fine committed (fst (mgr_Vacuum ops m None))"
proof (rule vacuum_cases [OF assms(1), of None], goal_cases)
  case (1 m' err)
  then have "mg_closed m" by (simp add: ctx_Err_def)
  then show ?case using 1 by (simp add: step_ok_def db_fine_def)
next
  case (2 m' n)
  let ?V = "committed (mg_eng m)" and ?old = "oldestSnapshot m"
  have V: "mvcc_inv ?V (mg_commitTS m)" and sp: "KSVersion \<notin> set (mg_spaces m)" using assms(1) 2(3) by (auto simp: mgr_inv_def store_ok_def txs_ok_def)
  have oT: "?old \<le> mg_commitTS m" using oldest_fold [of "snap_of m" "mg_commitTS m" "mg_open m"] by (simp add: oldestSnapshot_def)
  have "tx_shows (vac_view ?V ?old (set (mg_spaces m))) (mg_commitTS m) [] = tx_shows ?V (mg_commitTS m) []"
    by (rule tx_shows_cong) (rule snap_read_vac [OF V _ sp oT])
  moreover have "tx_fine (vac_view ?V ?old (set (mg_spaces m))) (mg_commitTS m) (mtx_of m t)" if "is_open m t" for t
    using that assms(2) 2(3) vac_others [OF V sp oldest_le [OF assms(1) that]] minv_open [OF assms(1) that] by (auto simp: db_fine_def tx_fine_def tx_ok_def)
  moreover have "mg_opt m' = mg_opt m" using opt_Vacuum [of m None] 2(1) by simp
  ultimately show ?case using 2 assms(2) by (simp add: db_fine_def)
qed

lemma fine_Close: "db_fine committed (fst (mgr_Close ops m))"
proof -
  have "mg_closed (foldl (\<lambda>m t. set_mtx m t ((mtx_of m t)\<lparr>tt_done := True, tt_writes := []\<rparr>)) m' ts) = mg_closed m'" for m' :: "'e manager" and ts
    by (induction ts arbitrary: m') simp_all
  then show ?thesis by (auto simp: mgr_Close_def Let_def on_eng_def db_fine_def split: prod.split)
qed

end

text \<open>The calls a graph store and its callers make on the manager themselves; writing raw keys is not one of them.\<close>

fun graph_side :: "mcall \<Rightarrow> bool" where
  "graph_side (CPut now t ks k v) = False" | "graph_side (CInsertUnique now t ks k v) = False" | "graph_side (CDeferUnique now t ks k v) = False"
| "graph_side (CDelete now t ks k) = False" | "graph_side (CVacuum ctx) = (ctx = None)" | "graph_side CHistoric = False" | "graph_side _ = True"

context kv_engine
begin

lemma fine_call:
  assumes "minv m" "db_fine committed m" "call_ok m c" "graph_side c"
  shows "db_fine committed (mgr_do ops c m)"
proof -
  note a = dataless_fine [OF _ assms(2)]
  have h: "db_fine committed (mgr_SetHooks m hk)" for hk by (rule a) (simp add: mgr_SetHooks_def)
  show ?thesis using assms(3,4)
    by (cases c) (simp_all only: mgr_do.simps graph_side.simps call_ok.simps gcTick_def h assms(2) if_split simp_thms a [OF dataless_Get [OF assms(1)]] a [OF dataless_Cursor]
        a [OF dataless_seek(1) [OF assms(1)]] a [OF dataless_seek(2) [OF assms(1)]] a [OF dataless_Rollback [OF assms(1)]] a [OF dataless_marks(1)] a [OF dataless_marks(2)]
        a [OF dataless_Crash [OF assms(1)]] fine_Begin fine_Commit [OF assms(1,2)] fine_Vacuum [OF assms(1,2)] fine_Close not_False_eq_True)
qed

text \<open>A call on nodes and edges in an open transaction.\<close>

lemma graph_call_tx:
  assumes inv: "minv m" and o: "open_writer m t" and d: "data_call c"
  defines "w0 \<equiv> tt_writes (mtx_of m t)"
  defines "V \<equiv> tx_shows (committed (mg_eng m)) (snap_of m t) w0"
  obtains w l e sp where "graph_do (mgr_ops ops now) t c m = (working m t w l e sp, snd (graph_do view_ops t c V))"
    "keys_wf w" "same (mg_eng m) e" "KSVersion \<notin> set sp" "tx_shows (committed (mg_eng m)) (snap_of m t) w = fst (graph_do view_ops t c V)"
    "wrote w0 \<subseteq> wrote w" "idle_call c \<or> (\<exists>x. snd (graph_do view_ops t c V) = Inl x)
       \<or> write_counter \<in> wrote w \<and> case_prod (tx_shows (committed (mg_eng m)) (snap_of m t) w) write_counter \<noteq> None"
proof -
  let ?p = "graph_do (mgr_ops ops now) t c m" and ?q = "graph_do view_ops t c V"
  define quiet where "quiet = (idle_call c \<or> (\<exists>x. snd ?q = Inl x))"
  have start: "tx_at (wrote w0) m m t V" unfolding V_def w0_def by (rule tx_at_start [OF inv o order_refl])
  have s: "snd ?p = snd ?q" "tx_at (wrote w0) m (fst ?p) t (fst ?q)"
    using mv.sim_graph_do [OF start, of now c] by (auto simp: sim_def)
  have "tx_at (if quiet then wrote w0 else insert write_counter (wrote w0)) m (fst ?p) t (fst ?q) \<and> (quiet \<or> case_prod (fst ?q) write_counter \<noteq> None)"
  proof (cases quiet)
    case False
    then have "counts (wrote w0) m t ?p ?q" "\<exists>x. snd ?p = Inr x"
      using counts_graph_do [OF start d] s(1) by (auto simp: quiet_def) (metis sum.exhaust)
    then show ?thesis using False by (simp add: sim_done_def counted_def)
  qed (use s in simp)
  then obtain w l e sp where w: "fst ?p = working m t w l e sp" "keys_wf w" "(if quiet then wrote w0 else insert write_counter (wrote w0)) \<subseteq> wrote w"
      "same (mg_eng m) e" "KSVersion \<notin> set sp" "fst ?q = tx_shows (committed (mg_eng m)) (snap_of m t) w" "quiet \<or> case_prod (fst ?q) write_counter \<noteq> None"
    unfolding tx_at_def by blast
  show thesis
    by (rule that [of w l e sp]) (use w s(1) in \<open>auto simp: quiet_def prod_eq_iff split: if_splits\<close>)
qed

lemma working_sok:
  assumes "minv m" "is_open m t" "writes_wf w" "same (mg_eng m) e" "KSVersion \<notin> set sp"
  shows "sok m (working m t w l e sp)"
proof -
  have "tx_ok (mg_commitTS m) ((mtx_of m t)\<lparr>tt_writes := w, tt_last := l\<rparr>)" using minv_open [OF assms(1,2)] assms(3) by (simp add: tx_ok_def)
  then show ?thesis using assms by (auto simp: step_ok_def mgr_inv_def txs_ok_def store_ok_def same_def)
qed

lemma graph_call_fine:
  assumes inv: "minv m" and fine: "db_fine committed m" and o: "open_writer m t" and d: "data_call c"
    and fit: "call_fits (tx_shows (committed (mg_eng m)) (snap_of m t) (tt_writes (mtx_of m t))) c"
    and wf: "writes_wf (tt_writes (mtx_of (fst (graph_do (mgr_ops ops now) t c m)) t))"
  shows "sok m (fst (graph_do (mgr_ops ops now) t c m)) \<and> db_fine committed (fst (graph_do (mgr_ops ops now) t c m))"
proof (rule graph_call_tx [OF inv o d, of now], goal_cases)
  case (1 w l e sp)
  let ?C = "committed (mg_eng m)" and ?s = "snap_of m t" and ?w0 = "tt_writes (mtx_of m t)"
  let ?V = "tx_shows ?C ?s ?w0" and ?m = "working m t w l e sp"
  have op: "is_open m t" using o by (simp add: open_writer_def)
  have f: "tx_fine ?C (mg_commitTS m) (mtx_of m t')" if "is_open m t'" for t' using fine minv_open [OF inv that] that by (auto simp: db_fine_def)
  have g: "tx_graph ?C (mg_commitTS m) ?s ?w0" using f [OF op] by (simp add: tx_fine_def write_sets_def)
  then have ok: "graph_ok ?V" by (simp add: tx_graph_def)
  have "graph_ok (tx_shows ?C ?s w)" using graph_do_ok [OF ok fit, of t] by (simp add: 1(5) graph_step_def)
  moreover have "write_counter \<in> wrote w \<and> case_prod (tx_shows ?C ?s w) write_counter \<noteq> None \<or> tx_shows ?C ?s w = ?V"
    using 1(7) graph_do_unchanged [OF ok fit d, of t] 1(5) by metis
  ultimately have "tx_graph ?C (mg_commitTS m) ?s w"
  proof (elim disjE)
    assume "tx_shows ?C ?s w = ?V"
    then show ?thesis using g subsetD [OF 1(6)] by (auto simp: tx_graph_def)
  qed (use g in \<open>simp add: tx_graph_def\<close>)
  then have "tx_fine ?C (mg_commitTS m) ((mtx_of m t)\<lparr>tt_writes := w, tt_last := l\<rparr>)" using f [OF op] by (simp add: tx_fine_def write_sets_def)
  then have "db_fine committed ?m" using fine 1(3) by (auto simp: db_fine_def same_def)
  moreover have "sok m ?m" by (rule working_sok [OF inv op _ 1(3,4)]) (use wf 1(1) in simp)
  ultimately show ?case by (simp add: 1(1))
qed

end

end
