(* ===== verification/GraphDb.thy ===== *)
theory GraphDb
  imports GraphSerial GraphProps
begin

text \<open>
  A database: a transaction manager over the memory engine, and graph stores in its transactions. The calls of any
  number of transactions interleave in any order with commits, rollbacks, savepoints, vacuums and crashes.
\<close>

section \<open>The state of a database\<close>

text \<open>What a transaction reads, what it read when it began, and what a transaction that begins now would read.\<close>

definition tx_reads :: "memEngine manager \<Rightarrow> nat \<Rightarrow> kvview" where
  "tx_reads m t ks k = (if ks = KSVersion then None else sees m t ks k)"

definition tx_start :: "memEngine manager \<Rightarrow> nat \<Rightarrow> kvview" where
  "tx_start m t ks k = (if ks = KSVersion then None else hist_of m (tt_snapshot (mtx_of m t)) ks k)"

definition latest :: "memEngine manager \<Rightarrow> kvview" where
  "latest m ks k = (if ks = KSVersion then None else hist_of m (mg_commitTS m) ks k)"

definition short_keys :: "txWrites \<Rightarrow> bool" where
  "short_keys w \<longleftrightarrow> (\<forall>(ks, kops)\<in>set w. \<forall>(k, op)\<in>set kops. length k < 2 ^ 32)"

abbreviation short_writes :: "'e manager \<Rightarrow> nat \<Rightarrow> bool" where
  "short_writes m t \<equiv> short_keys (tt_writes (mtx_of m t))"

abbreviation graph_in :: "nat \<Rightarrow> int \<Rightarrow> graph_call \<Rightarrow> memEngine manager \<Rightarrow> memEngine manager \<times> graph_reply sresult" where
  "graph_in t now c m \<equiv> graph_do (mgr_ops mem_ops now) t c m"

text \<open>
  The databases a run reaches. It starts on an engine that holds a consistent graph without versions, an empty one for
  instance, with the cap on write sets and the idle timeout off; it makes calls on nodes and edges in write transactions, within the limits of
  \<open>call_fits\<close> and with keys shorter than \<open>2 ^ 32\<close> bytes, and any other calls but raw writes.
\<close>

inductive graph_db :: "memEngine manager \<Rightarrow> bool" where
  opened: "\<lbrakk>mem_reachable e; mem_usable e; legacy_store (mem_committed e); graph_ok (mem_committed e); IdleTimeout opt \<le> 0; MaxWriteSet opt < 0;
    mgr_Open mem_ops (Some e) opt = (e', Inr m)\<rbrakk> \<Longrightarrow> graph_db m"
| graph: "\<lbrakk>graph_db m; \<not> tt_done (mtx_of m t); \<not> tt_ro (mtx_of m t); data_call c; call_fits (tx_reads m t) c; short_writes (fst (graph_in t now c m)) t\<rbrakk>
    \<Longrightarrow> graph_db (fst (graph_in t now c m))"
| called: "\<lbrakk>graph_db m; call_ok m c; graph_side c\<rbrakk> \<Longrightarrow> graph_db (mgr_do mem_ops c m)"

lemma views_shows:
  assumes "mem_mgr_inv m" "\<not> mg_closed m"
  shows "tx_reads m t = tx_shows (mem_committed (mg_eng m)) (snap_of m t) (tt_writes (mtx_of m t))"
    "tx_start m t = tx_shows (mem_committed (mg_eng m)) (snap_of m t) []" "latest m = tx_shows (mem_committed (mg_eng m)) (mg_commitTS m) []"
proof -
  note h = hist_snap(1) [OF assms]
  show "tx_reads m t = tx_shows (mem_committed (mg_eng m)) (snap_of m t) (tt_writes (mtx_of m t))"
    by (auto simp: fun_eq_iff tx_reads_def tx_shows_written sees_def h split: option.split) (auto simp: tx_shows_def)
  show "tx_start m t = tx_shows (mem_committed (mg_eng m)) (snap_of m t) []" "latest m = tx_shows (mem_committed (mg_eng m)) (mg_commitTS m) []"
    by (auto simp: fun_eq_iff tx_start_def latest_def tx_shows_none h)
qed

lemma sbind_done: "sbind r f = (e, Inr y) \<longleftrightarrow> (\<exists>e1 x. r = (e1, Inr x) \<and> f e1 x = (e, Inr y))"
  by (cases "(r, f)" rule: sbind.cases) auto

lemma open_fields: "mgr_Open ops (Some e) opt = (e', Inr m) \<Longrightarrow> mg_opt m = normalize opt \<and> mg_txs m = Map.empty"
  by (auto simp: mgr_Open_def startGC_def sbind_done split: prod.splits)

lemma open_graph:
  assumes "mem_inv e" "mem_usable e" "legacy_store (mem_committed e)" "graph_ok (mem_committed e)" "IdleTimeout opt \<le> 0" "MaxWriteSet opt < 0"
    "mgr_Open mem_ops (Some e) opt = (e', Inr m)"
  shows "mem_mgr_inv m \<and> db_fine mem_committed m"
proof (rule open_legacy [OF assms(1-3), of opt], goal_cases)
  case (1 e1 m1)
  let ?V = "mem_committed e"
  have m: "m1 = m" using 1(1) assms(7) by simp
  have "tx_shows (migrated ?V (first_oracle ?V)) (or_commitTS (first_oracle ?V)) [] = ?V"
    using migrated_ok(2) [OF assms(3)] legacy_version [OF assms(3)] by (auto simp: fun_eq_iff tx_shows_none)
  moreover note open_fields [OF assms(7)]
  ultimately show ?thesis
    using 1 assms(4-6) by (auto simp: m db_fine_def normalize_def Let_def mtx_of_def)
qed

lemma short_wf:
  assumes "keys_wf (tt_writes (mtx_of m t))" "short_writes m t"
  shows "writes_wf (tt_writes (mtx_of m t))"
  using assms by (fastforce simp: keys_wf_def short_keys_def writes_wf_def)

lemma open_writerI: "mem_mgr_inv m \<Longrightarrow> db_fine mem_committed m \<Longrightarrow> is_open m t \<Longrightarrow> \<not> tt_ro (mtx_of m t) \<Longrightarrow> open_writer m t"
  using mem.minv_open [of m t] by (auto simp: open_writer_def db_fine_def)

lemma graph_db_inv: "graph_db m \<Longrightarrow> mem_mgr_inv m \<and> db_fine mem_committed m"
proof (induction rule: graph_db.induct)
  case (opened e opt e' m)
  then show ?case using open_graph [OF mem_reachable_inv] by blast
next
  case (graph m t c now)
  then have inv: "mem_mgr_inv m" and f: "db_fine mem_committed m" by auto
  have o: "open_writer m t" by (rule open_writerI [OF inv f graph(2,3)])
  have "\<not> mg_closed m" using mem.minv_open [OF inv graph(2)] by blast
  then have fit: "call_fits (tx_shows (mem_committed (mg_eng m)) (snap_of m t) (tt_writes (mtx_of m t))) c" using graph(5) views_shows(1) [OF inv] by simp
  have "keys_wf (tt_writes (mtx_of (fst (graph_in t now c m)) t))" by (rule mem.graph_call_tx [OF inv o graph(4), of now]) simp
  then show ?case using mem.graph_call_fine [OF inv f o graph(4) fit short_wf [OF _ graph(6)]] mem.sok_minv by blast
next
  case (called m c)
  then show ?case using mem.fine_call mem.sok_minv [OF mem.mgr_do_sok] by blast
qed

section \<open>Commits\<close>

lemma graph_db_tx:
  assumes "graph_db m" "\<not> tt_done (mtx_of m t)"
  shows "mem_mgr_inv m" "\<not> mg_closed m" "tx_graph (mem_committed (mg_eng m)) (mg_commitTS m) (snap_of m t) (tt_writes (mtx_of m t))"
    "graph_ok (latest m)" "mvcc_inv (mem_committed (mg_eng m)) (mg_commitTS m)" "writes_wf (tt_writes (mtx_of m t))" "snap_of m t \<le> mg_commitTS m"
proof -
  show inv: "mem_mgr_inv m" using graph_db_inv [OF assms(1)] by blast
  note o = mem.minv_open [OF inv assms(2)]
  show cl: "\<not> mg_closed m" using o by blast
  show "tx_graph (mem_committed (mg_eng m)) (mg_commitTS m) (snap_of m t) (tt_writes (mtx_of m t))" "graph_ok (latest m)"
    using graph_db_inv [OF assms(1)] cl assms(2) by (auto simp: db_fine_def tx_fine_def write_sets_def views_shows [OF inv cl])
  show "mvcc_inv (mem_committed (mg_eng m)) (mg_commitTS m)" "writes_wf (tt_writes (mtx_of m t))" "snap_of m t \<le> mg_commitTS m"
    using o by (auto simp: store_ok_def tx_ok_def)
qed

lemma views_same:
  assumes "mem_mgr_inv m" "\<not> mg_closed m" "mem_mgr_inv m'" "mg_closed m' = mg_closed m" "mem_committed (mg_eng m') = mem_committed (mg_eng m)"
  shows "mg_commitTS m' = mg_commitTS m \<Longrightarrow> latest m' = latest m"
    "snap_of m' t = snap_of m t \<Longrightarrow> tt_writes (mtx_of m' t) = tt_writes (mtx_of m t) \<Longrightarrow> tx_reads m' t = tx_reads m t"
  using assms by (auto simp: views_shows)


lemma graph_tx_call:
  assumes "graph_db m" and "\<not> tt_done (mtx_of m t)" and "\<not> tt_ro (mtx_of m t)" and "data_call c" and "short_writes (fst (graph_in t now c m)) t"
  shows "snd (graph_in t now c m) = snd (graph_do view_ops t c (tx_reads m t))
    \<and> tx_reads (fst (graph_in t now c m)) t = fst (graph_do view_ops t c (tx_reads m t))
    \<and> latest (fst (graph_in t now c m)) = latest m
    \<and> (\<forall>t'. t' \<noteq> t \<longrightarrow> tx_reads (fst (graph_in t now c m)) t' = tx_reads m t')"
proof -
  have inv: "mem_mgr_inv m" and f: "db_fine mem_committed m" using graph_db_inv [OF assms(1)] by auto
  note cl = graph_db_tx(2) [OF assms(1,2)] and o = open_writerI [OF inv f assms(2,3)]
  note vs = views_shows [OF inv cl]
  show ?thesis
  proof (rule mem.graph_call_tx [OF inv o assms(4), of now], goal_cases)
    case (1 w l e sp)
    let ?m = "working m t w l e sp"
    have wf: "writes_wf w" using short_wf [of ?m t] 1(1,2) assms(5) by simp
    have inv': "mem_mgr_inv ?m" by (rule mem.sok_minv [OF mem.working_sok [OF inv assms(2) wf 1(3,4)]])
    have eq: "mem_committed e = mem_committed (mg_eng m)" using 1(3) by (simp add: mem.same_def)
    have "latest ?m = latest m" using views_same(1) [OF inv cl inv'] eq by simp
    moreover have "tx_reads ?m t' = tx_reads m t'" if "t' \<noteq> t" for t' using views_same(2) [OF inv cl inv', of t'] eq that by simp
    moreover have "tx_reads ?m t = fst (graph_do view_ops t c (tx_reads m t))"
      using views_shows(1) [OF inv', of t] cl 1(5) eq by (simp add: vs)
    moreover have "graph_in t now c m = (?m, snd (graph_do view_ops t c (tx_reads m t)))" using 1(1) by (simp add: vs)
    ultimately show ?thesis by simp
  qed
qed



text \<open>
  C17. A call of the graph store in a transaction of the manager does what it does on the contents the transaction reads: the same
  reply and the same contents after it; the database and the other transactions read as before.
\<close>

theorem graph_tx_refines:
  assumes "graph_db m" and "\<not> tt_done (mtx_of m t)" and "\<not> tt_ro (mtx_of m t)" and "data_call c" and "short_writes (fst (graph_in t now c m)) t"
  shows "snd (graph_in t now c m) = snd (graph_do view_ops t c (tx_reads m t))
    \<and> tx_reads (fst (graph_in t now c m)) t = fst (graph_do view_ops t c (tx_reads m t))
    \<and> latest (fst (graph_in t now c m)) = latest m
    \<and> (\<forall>t'. t' \<noteq> t \<longrightarrow> tx_reads (fst (graph_in t now c m)) t' = tx_reads m t')"
  using assms by (rule graph_tx_call)



section \<open>Transactions with short keys\<close>

lemma short_keys_update: "short_keys w \<Longrightarrow> (\<And>k op. (k, op) \<in> set kops \<Longrightarrow> length k < 2 ^ 32) \<Longrightarrow> short_keys (AList.update ks kops w)"
  unfolding short_keys_def by (auto dest!: update_mem)

lemma short_keys_at: "short_keys w \<Longrightarrow> (k, op) \<in> set (ops_at w ks) \<Longrightarrow> length k < 2 ^ 32"
  unfolding short_keys_def ops_at_def using map_of_SomeD [of w ks] by (cases "map_of w ks") fastforce+

lemma short_keys_set_op: "short_keys w \<Longrightarrow> length k < 2 ^ 32 \<Longrightarrow> short_keys (set_op w ks k op)"
  unfolding set_op_def by (rule short_keys_update) (auto dest!: update_mem dest: short_keys_at)

lemma short_keys_put:
  assumes "short_keys w" "reserveLocked opt w ks k = Inr w'" "length k < 2 ^ 32"
  shows "short_keys (set_op w' ks k op)"
proof -
  have "short_keys w'" using assms(1,2) by (auto simp: reserveLocked_def intro!: short_keys_update split: if_splits)
  then show ?thesis using assms(3) by (rule short_keys_set_op)
qed

context kv_engine
begin

lemma reads_keep_writes:
  assumes "IdleTimeout (mg_opt m) \<le> 0"
  shows "tt_writes (mtx_of (fst (tx_Get ops m now t ks k)) t') = tt_writes (mtx_of m t')"
    "tt_writes (mtx_of (fst (tx_Cursor m now t ks)) t') = tt_writes (mtx_of m t')"
    "tt_writes (mtx_of (fst (xc_Seek ops m c tg)) t') = tt_writes (mtx_of m t')"
proof -
  have rd: "mtx_of (fst (readAt ops m ks k s)) = mtx_of m" for m :: "'e manager" and s
    by (cases "readVersion ops (mg_eng m) ks k s") (simp add: readAt_def on_eng_def)
  show "tt_writes (mtx_of (fst (tx_Get ops m now t ks k)) t') = tt_writes (mtx_of m t')"
    using assms by (auto simp: tx_Get_def enter_def checkKS_def Txn.touch_def Let_def rd split: option.split)
  show "tt_writes (mtx_of (fst (tx_Cursor m now t ks)) t') = tt_writes (mtx_of m t')"
    using assms by (auto simp: tx_Cursor_def enter_def checkKS_def Txn.touch_def Let_def)
  have "mtx_of (fst (tx_materialize ops m t ks)) = mtx_of m" for t ks
    by (auto simp: tx_materialize_def Let_def on_eng_def split: prod.split)
  then show "tt_writes (mtx_of (fst (xc_Seek ops m c tg)) t') = tt_writes (mtx_of m t')"
    by (auto simp: xc_Seek_def Let_def split: prod.split sum.split option.split) (metis fst_conv)+
qed

lemma tx_at_opt: "tx_at L m0 m t V \<Longrightarrow> IdleTimeout (mg_opt m) \<le> 0 \<and> MaxWriteSet (mg_opt m) \<le> 0 \<and> is_open m t \<and> \<not> tt_ro (mtx_of m t)"
  by (auto simp: tx_at_def open_writer_def)

sublocale sh: kv_read "mgr_ops ops now" "\<lambda>m t V. tx_at L m0 m t V \<and> short_writes m t" "\<lambda>m c t ks. cur_open c t ks" "\<lambda>m c t xs. cur_ahead c t xs"
  "\<lambda>ks. ks \<noteq> KSVersion" for now m0 L
proof (unfold_locales, goal_cases)
  case (2 m t V)
  then show ?case using tx_at_finite by blast
next
  case (3 m t V ks k)
  then show ?case using tx_at_get [of L m0 m t V ks now k] reads_keep_writes(1) [of m now t ks k t] tx_at_opt by fastforce
next
  case (4 m t V ks)
  then show ?case using tx_at_cursor [of L m0 m t V ks now] reads_keep_writes(2) [of m now t ks t] tx_at_opt by fastforce
next
  case (5 m t V c ks tg)
  then show ?case using tx_at_seek [of L m0 m t V c ks tg] reads_keep_writes(3) [of m c tg t] tx_at_opt by fastforce
next
  case (6 m t V c x xs)
  then show ?case using tx_at_next [of L m0 m t V c x xs] by auto
next
  case (7 m t V c x xs)
  then show ?case using tx_at_key [of L m0 m t V c x xs] by simp
next
  case (8 m t V c xs)
  then show ?case by (auto simp: cur_ahead_def xc_Close_def)
qed simp

lemma short_put:
  assumes "tx_at L m0 m t V" "short_writes m t" "ks \<noteq> KSVersion" "length k < 2 ^ 32"
  shows "short_writes (fst (tx_Put m now t ks k v)) t"
proof -
  note o = tx_at_opt [OF assms(1)]
  have ns: "mtx_of (noteSpace m ks) = mtx_of m" for m :: "'e manager" by (simp add: noteSpace_def)
  show ?thesis using o assms(2,3) short_keys_put [OF assms(2) _ assms(4)]
    by (cases "reserveLocked (mg_opt m) (tt_writes (mtx_of m t)) ks k")
      (simp_all add: tx_Put_def tx_put_def enter_def checkKS_def Txn.touch_def Let_def ns)
qed

abbreviation at_short :: "(keyspace \<times> bytes) set \<Rightarrow> 'e manager \<Rightarrow> nat \<Rightarrow> 'e manager \<Rightarrow> kvview \<Rightarrow> bool" where
  "at_short L m0 t \<equiv> \<lambda>m V. tx_at L m0 m t V \<and> short_writes m t"

lemma short_sim_put:
  assumes "tx_at L m0 m t V \<and> short_writes m t" "ks \<noteq> KSVersion" "length k < 2 ^ 32"
  shows "sim (at_short L m0 t) (ops_Put (mgr_ops ops now) m t ks k v) (ops_Put view_ops V t ks k v)"
  using tx_at_put [of L m0 m t V ks now k v] tx_at_less short_put [of L m0 m t V ks k now v] assms by (fastforce simp: sim_def)

lemma short_declared:
  assumes "tx_at L m0 m t V \<and> short_writes m t"
  shows "sim (at_short L m0 t) (touchDeclared (mgr_ops ops now) m t en ls l [] i True) (touchDeclared view_ops V t en ls l [] i True)"
proof -
  have vals: "indexValues ns (propMap []) = (if ns = [] then Some [] else None)" for ns by (cases ns) (simp_all add: propMap_def)
  have key: "length (ix_Encode j [] i) < 2 ^ 32" for j by (simp add: ix_Encode_def ix_Prefix_def IDPrefix_def)
  have loop: "sim (at_short L m0 t) (touchDeclared_loop (mgr_ops ops now) m t en ls l (propMap []) i True ixs)
      (touchDeclared_loop view_ops V t en ls l (propMap []) i True ixs)" if "tx_at L m0 m t V \<and> short_writes m t" for m V ixs
    using that
  proof (induction ixs arbitrary: m V)
    case (Cons ix ixs)
    have put: "sim (at_short L m0 t) (ix_Put (mgr_ops ops now) m t (ix_ID ix) [] i) (ix_Put view_ops V t (ix_ID ix) [] i)"
      unfolding ix_Put_def by (cases "Indexable []") (simp_all only: if_True if_False not_True_eq_False not_False_eq_True,
        (rule short_sim_put [OF Cons.prems _ key] sim_rules | use Cons.prems in simp | simp add: keyspace_defs)+)
    have "declaredValues en ls l (propMap []) ix \<in> {None, Some []}" by (simp add: declaredValues_def vals)
    then show ?case using Cons sim_sbind [OF put, of "\<lambda>m _. touchDeclared_loop (mgr_ops ops now) m t en ls l (propMap []) i True ixs"] by auto
  qed (simp add: sim_rules)
  show ?thesis unfolding touchDeclared_def by (rule sim_rules sh.sim_cat_Load loop assms | assumption)+
qed

lemma short_create:
  assumes "tx_at L m0 m t V \<and> short_writes m t"
  shows "sim (at_short L m0 t) (CreateNode (mgr_ops ops now) m t [] []) (CreateNode view_ops V t [] [])"
proof -
  have keys: "length (catalogKey kd []) < 2 ^ 32" "length (cat_key kd []) < 2 ^ 32" "length (idKey i) < 2 ^ 32" for kd i
    by (simp_all add: catalogKey_def cat_key_def idKey_def putUvarint.simps)
  note reads = sh.sim_readCounter sh.sim_readU64 short_declared
  note puts = short_sim_put [OF _ _ keys(1)] short_sim_put [OF _ _ keys(2)] short_sim_put [OF _ _ keys(3)]
  have ps: "propsByID [] = []" by (simp add: propsByID_def)
  show ?thesis
    unfolding CreateNode_def alloc_def writeCounter_def writeNode_def indexDeclaredNode_def bumpWrites_def AddWrites_def writeU64_def assignProps_def internLabels_def indexLabels_def
    by (simp add: normalizeLabels_def ps del: mgr_ops_simps view_ops_simps) (rule sim_rules reads puts graph_keyspaces assms | assumption)+
qed

end

section \<open>A small database\<close>

text \<open>Two transactions on an empty database make a node each; the first commits.\<close>

definition open_options :: txOptions where
  "open_options = \<lparr>MaxOpenTxns = 0, MaxWriteSet = -1, IdleTimeout = 0, GCInterval = 0\<rparr>"

definition empty_db :: "memEngine manager" where
  "empty_db = (case mgr_Open mem_ops (Some mem_Open) open_options of (_, Inr m) \<Rightarrow> m)"

definition two_txs :: "memEngine manager" where
  "two_txs = mgr_do mem_ops (CBegin 1 False) (mgr_do mem_ops (CBegin 1 False) empty_db)"

definition one_made :: "memEngine manager" where
  "one_made = fst (graph_in 0 1 (DoCreateNode [] []) two_txs)"



lemma empty_db_fields:
  "mg_closed empty_db = False" "mg_open empty_db = []" "mg_next empty_db = 0" "mg_hooks empty_db = no_hooks" "mg_txs empty_db = Map.empty"
  "mg_opt empty_db = \<lparr>MaxOpenTxns = 1024, MaxWriteSet = -1, IdleTimeout = 0, GCInterval = 0\<rparr>" "mg_commitTS empty_db = 0"
  by (simp_all add: empty_db_def open_options_def open_eval mem_eval defaultMaxOpen_def)

lemma empty_db_state: "graph_db empty_db" "latest empty_db = (\<lambda>_ _. None)" "ks \<noteq> KSVersion \<Longrightarrow> head_at (mem_committed (mg_eng empty_db)) ks k = None"
proof -
  have c: "mem_committed mem_Open = (\<lambda>_ _. None)"
    by (simp add: mem_committed_def mem_Open_def snap_view_def space_map_def fun_eq_iff)
  obtain e' m where m: "mgr_Open mem_ops (Some mem_Open) open_options = (Some e', Inr m)" "mem_mgr_inv m" "\<not> mg_closed m"
      "mg_commitTS m = or_commitTS (first_oracle (\<lambda>_ _. None))" "mem_committed (mg_eng m) = migrated (\<lambda>_ _. None) (first_oracle (\<lambda>_ _. None))"
    by (rule open_legacy [OF mem_inv_init mem_Open_legacy(2,1), of open_options]) (simp add: c)
  have e: "empty_db = m" by (simp add: empty_db_def m(1))
  have leg: "legacy_store (\<lambda>_ _. None)" by (simp add: legacy_store_def)
  show "graph_db empty_db" unfolding e
    by (rule graph_db.opened [OF mem_reachable.intros(1) mem_Open_legacy(2,1) _ _ _ m(1)]) (simp_all add: c graph_ok_empty open_options_def)
  show "latest empty_db = (\<lambda>_ _. None)"
    unfolding e views_shows(3) [OF m(2,3)] m(4,5) using migrated_ok(2) [OF leg] by (auto simp: fun_eq_iff tx_shows_none)
  show "ks \<noteq> KSVersion \<Longrightarrow> head_at (mem_committed (mg_eng empty_db)) ks k = None" unfolding e m(5) by (simp add: migrated_head [OF leg])
qed

lemma two_txs_state:
  "graph_db two_txs" "t < 2 \<Longrightarrow> mtx_of two_txs t = \<lparr>tt_id = mg_nextTxnID empty_db + of_nat t, tt_snapshot = 0, tt_commitTS = 0, tt_ro = False, tt_done = False,
     tt_writes = [], tt_marks = [], tt_last = 1, tt_started = 1\<rparr>"
  "mg_commitTS two_txs = 0" "mg_eng two_txs = mg_eng empty_db" "mg_closed two_txs = False" "mg_hooks two_txs = no_hooks" "mg_next two_txs = 2"
proof -
  show "graph_db two_txs" unfolding two_txs_def by (intro graph_db.called empty_db_state(1)) simp_all
  show "t < 2 \<Longrightarrow> mtx_of two_txs t = \<lparr>tt_id = mg_nextTxnID empty_db + of_nat t, tt_snapshot = 0, tt_commitTS = 0, tt_ro = False, tt_done = False,
     tt_writes = [], tt_marks = [], tt_last = 1, tt_started = 1\<rparr>"
    by (auto simp: two_txs_def mgr_Begin_def empty_db_fields Let_def less_2_cases_iff)
qed (simp_all add: two_txs_def mgr_Begin_def empty_db_fields Let_def)

lemma create_fits: "call_fits (\<lambda>_ _. None) (DoCreateNode [] [])"
  using values_fit_small(1) by (simp add: room_def counter_of_def)

definition node_made :: "nat \<Rightarrow> kvview" where
  "node_made t = fst (graph_do view_ops t (DoCreateNode [] []) (\<lambda>_ _. None))"


text \<open>One transaction of the two makes a node.\<close>

lemma make_in_tx:
  fixes now :: int and m :: "memEngine manager" and t :: nat
  assumes g: "graph_db m" and o: "is_open m t" "\<not> tt_ro (mtx_of m t)" and w: "tt_writes (mtx_of m t) = []" and v: "tx_reads m t = (\<lambda>_ _. None)"
  defines "m' \<equiv> fst (graph_in t now (DoCreateNode [] []) m)"
  shows "graph_db m'" "short_writes m' t" "tx_reads m' t = node_made t" "t' \<noteq> t \<Longrightarrow> tx_reads m' t' = tx_reads m t' \<and> mtx_of m' t' = mtx_of m t'"
    "latest m' = latest m" "snap_of m' t = snap_of m t" "is_open m' t" "tt_ro (mtx_of m' t) = tt_ro (mtx_of m t)"
    "mem_committed (mg_eng m') = mem_committed (mg_eng m)" "mg_commitTS m' = mg_commitTS m" "mg_hooks m' = mg_hooks m" "mg_next m' = mg_next m"
proof -
  have inv: "mem_mgr_inv m" and f: "db_fine mem_committed m" using graph_db_inv [OF g] by auto
  have ow: "open_writer m t" by (rule open_writerI [OF inv f o])
  have d: "data_call (DoCreateNode [] [])" by simp
  have "mem.at_short {} m t m (tx_reads m t)"
    using mem.tx_at_start [OF inv ow, of "{}"] w by (simp add: views_shows [OF inv graph_db_tx(2) [OF g o(1)]] short_keys_def)
  then have "sim (mem.at_short {} m t) (graph_in t now (DoCreateNode [] []) m) (graph_do view_ops t (DoCreateNode [] []) (tx_reads m t))"
    unfolding graph_do.simps by (intro reply_sim mem.short_create)
  then show sh: "short_writes m' t" by (simp add: sim_def m'_def)
  show "graph_db m'" unfolding m'_def by (rule graph_db.graph [OF g o d _ sh [unfolded m'_def]]) (unfold v, rule create_fits)
  note c = graph_tx_call [OF g o d sh [unfolded m'_def]]
  show "tx_reads m' t = node_made t" "latest m' = latest m" using c v by (simp_all add: m'_def node_made_def del: graph_do.simps)
  obtain w l e sp where wk: "m' = working m t w l e sp" "mem.same (mg_eng m) e"
    unfolding m'_def by (rule mem.graph_call_tx [OF inv ow d, of now]) simp
  show "t' \<noteq> t \<Longrightarrow> tx_reads m' t' = tx_reads m t' \<and> mtx_of m' t' = mtx_of m t'" using c wk(1) by (simp add: m'_def del: graph_do.simps)
  show "snap_of m' t = snap_of m t" "is_open m' t" "tt_ro (mtx_of m' t) = tt_ro (mtx_of m t)" "mem_committed (mg_eng m') = mem_committed (mg_eng m)"
    "mg_commitTS m' = mg_commitTS m" "mg_hooks m' = mg_hooks m" "mg_next m' = mg_next m"
    using wk(2) o(1) by (simp_all add: wk(1) mem.same_def)
qed

lemma two_txs_views: "t < 2 \<Longrightarrow> tx_reads two_txs t = (\<lambda>_ _. None)"
proof -
  assume t: "t < 2"
  have inv: "mem_mgr_inv two_txs" "mem_mgr_inv empty_db" using graph_db_inv two_txs_state(1) empty_db_state(1) by blast+
  have "\<not> mg_closed empty_db" by (simp add: empty_db_fields)
  then show ?thesis using t views_shows(1) [OF inv(1), of t] views_shows(3) [OF inv(2)] empty_db_state(2) by (simp add: two_txs_state empty_db_fields)
qed

lemma one_made_state: "graph_db one_made" "short_writes one_made 0" "tx_reads one_made 0 = node_made 0" "tx_reads one_made 1 = (\<lambda>_ _. None)"
    "mtx_of one_made 1 = mtx_of two_txs 1" "is_open one_made 0" "snap_of one_made 0 = 0" "\<not> tt_ro (mtx_of one_made 0)"
    "mem_committed (mg_eng one_made) = mem_committed (mg_eng empty_db)" "mg_commitTS one_made = 0" "mg_hooks one_made = no_hooks" "mg_next one_made = 2"
proof -
  have t: "is_open two_txs 0" "\<not> tt_ro (mtx_of two_txs 0)" "tt_writes (mtx_of two_txs 0) = []" by (simp_all add: two_txs_state)
  note mk = make_in_tx [OF two_txs_state(1) t two_txs_views, where now = 1, folded one_made_def]
  show "graph_db one_made" "short_writes one_made 0" "tx_reads one_made 0 = node_made 0" "tx_reads one_made 1 = (\<lambda>_ _. None)"
    "mtx_of one_made 1 = mtx_of two_txs 1" "is_open one_made 0" "snap_of one_made 0 = 0" "\<not> tt_ro (mtx_of one_made 0)"
    "mem_committed (mg_eng one_made) = mem_committed (mg_eng empty_db)" "mg_commitTS one_made = 0" "mg_hooks one_made = no_hooks" "mg_next one_made = 2"
    using mk mk(4) [of 1] two_txs_views [of 1] two_txs_state(2) [of 0] by (simp_all add: two_txs_state(3-))
qed






theorem graph_tx_refines_witness:
  "tx_reads one_made 0 = fst (graph_do view_ops 0 (DoCreateNode [] []) (tx_reads two_txs 0)) \<and> tx_reads one_made 1 = tx_reads two_txs 1"
proof -
  have t: "is_open two_txs 0" "\<not> tt_ro (mtx_of two_txs 0)" "data_call (DoCreateNode [] [])" by (simp_all add: two_txs_state)
  show ?thesis using graph_tx_refines [OF two_txs_state(1) t, of 1] one_made_state(2) unfolding one_made_def by blast
qed



end
