(* ===== verification/Spec2Isabelle.thy ===== *)
theory Spec2Isabelle
  imports ValueHash TxnProps WalProps GraphReads GraphDb
begin

text \<open>
  A verification library for the property-graph database in \<^verbatim>\<open>src/\<close> (Go).

  \<^bold>\<open>The program.\<close> Values (\<^verbatim>\<open>internal/value\<close>) are compared, hashed, and encoded both as order-preserving
  index keys and as exact records. A storage engine (\<^verbatim>\<open>internal/storage\<close>) is a set of keyspaces of byte
  strings with transactions and cursors; the memory engine (\<^verbatim>\<open>internal/storage/memory\<close>) implements it.
  The transaction manager (\<^verbatim>\<open>internal/txn\<close>) puts snapshot isolation on top of any engine: every key has
  a head record with the timestamps of its newest version and a chain of older ones in a keyspace of
  its own. The disk engine makes its commits durable with a segmented write-ahead log (\<^verbatim>\<open>internal/wal\<close>).
  The graph store (\<^verbatim>\<open>internal/storage/graphstore\<close>) keeps nodes, edges, their names and the indexes on them as keys
  of a transaction, with the schema in \<^verbatim>\<open>internal/catalog\<close> and declared indexes in \<^verbatim>\<open>internal/index\<close>. The query
  language and the server sit above.

  \<^bold>\<open>Theories.\<close>
  \<^item> \<open>Prelude\<close>: byte strings, results, big- and little-endian and varint encodings, binary search.
  \<^item> \<open>Float64\<close>, \<open>Numbers\<close>: IEEE doubles as bit patterns and \<^verbatim>\<open>value/number.go\<close>: exact comparison of
    integers with floats, and the split of an integer into the float below it and a remainder.
  \<^item> \<open>Values\<close>: \<^verbatim>\<open>value/value.go\<close> and \<^verbatim>\<open>compare.go\<close>: kinds, constructors, the total order, three-valued
    logic. \<open>KeyCodec\<close>, \<open>RecordCodec\<close>, \<open>ValueHash\<close>: \<^verbatim>\<open>key.go\<close>, \<^verbatim>\<open>record.go\<close>, \<^verbatim>\<open>hash.go\<close>.
  \<^item> \<open>Storage\<close>: \<^verbatim>\<open>storage/engine.go\<close> and \<^verbatim>\<open>gerr\<close>: errors, keyspaces, the engine interface as a
    dictionary of methods, and its contract as the locale \<open>kv_engine\<close>.
  \<^item> \<open>MemEngine\<close>: \<^verbatim>\<open>storage/memory/engine.go\<close>, and the interpretation \<open>mem\<close> of \<open>kv_engine\<close> on it.
  \<^item> \<open>TxnVersion\<close>, \<open>TxnStore\<close>, \<open>Txn\<close>: \<^verbatim>\<open>txn/version.go\<close>, \<^verbatim>\<open>store.go\<close>, \<^verbatim>\<open>tx.go\<close>, \<^verbatim>\<open>manager.go\<close> and
    \<^verbatim>\<open>cursor.go\<close> over an arbitrary engine. \<open>TxnSnapshot\<close>, \<open>TxnPublish\<close>, \<open>TxnVacuum\<close>, \<open>TxnManager\<close> and
    \<open>TxnOpen\<close> prove, inside \<open>kv_engine\<close>, what each helper and method does to the history a store
    holds; \<open>TxnProps\<close> states the results for the manager over the memory engine.
  \<^item> \<open>WalFiles\<close>: the file system calls the log makes, with faults and crashes. \<open>WalRecord\<close>, \<open>WalLog\<close>,
    \<open>WalReader\<close>: \<^verbatim>\<open>wal/record.go\<close>, \<^verbatim>\<open>log.go\<close> and \<^verbatim>\<open>reader.go\<close> over it. \<open>WalFrames\<close> and \<open>WalDisk\<close> say what
    the bytes of segments and a directory of them mean; \<open>WalRecover\<close>, \<open>WalLive\<close>, \<open>WalTruncate\<close>,
    \<open>WalReading\<close> and \<open>WalFaults\<close> what \<open>Open\<close>, a flush, \<open>Truncate\<close> and a reader do to that meaning. \<open>WalRun\<close> is the
    step relation of a log that is used, fails, crashes and is opened again, with its invariant, and \<open>WalProps\<close> its properties.
  \<^item> \<open>GraphKeys\<close>, \<open>CatalogStore\<close>, \<open>IndexStore\<close>, \<open>GraphStore\<close>, \<open>GraphUnique\<close>, \<open>GraphTraverse\<close>: \<^verbatim>\<open>graphstore/keys.go\<close>
    and \<^verbatim>\<open>record.go\<close>, \<^verbatim>\<open>catalog/catalog.go\<close>, \<^verbatim>\<open>encode.go\<close> and \<^verbatim>\<open>scan.go\<close>, \<^verbatim>\<open>index/index.go\<close>, \<^verbatim>\<open>graphstore/store.go\<close> with \<^verbatim>\<open>declared.go\<close>,
    \<^verbatim>\<open>unique.go\<close> and \<^verbatim>\<open>traverse.go\<close>, over the operations of any engine.
  \<^item> \<open>GraphTx\<close>: what a reader and a writer need of an engine (\<open>kv_read\<close>, \<open>kv_write\<close>), which \<open>kv_engine\<close> gives, and the finite map
    \<open>view_ops\<close> that reads and writes like any of them. \<open>GraphSim\<close> and \<open>GraphSimTraverse\<close> carry every operation
    over from the engine to the map.
  \<^item> \<open>GraphCodec\<close>, \<open>GraphNames\<close>, \<open>GraphInv\<close>, \<open>GraphWrite\<close>: records, the name tables, what it means for contents to be the
    keys of a graph, and the index upkeep of one write. \<open>GraphOps\<close>, \<open>GraphUpdate\<close>, \<open>GraphEdges\<close>, \<open>GraphSchema\<close>: the
    operations that change nodes, edges and the schema, on the map. \<open>GraphQuery\<close> and \<open>GraphSearch\<close>: the
    queries and the breadth-first searches. \<open>GraphCalls\<close>: calls as values, the states runs reach on the memory engine,
    and their invariant. \<open>GraphProps\<close> and \<open>GraphReads\<close> state the results for a caller of the store.
  \<^item> \<open>GraphTxn\<close>: a transaction of the manager gives a graph store what it relies on (\<open>kv_write\<close>, over any \<open>kv_engine\<close>), and every change of the
    graph writes the write counter of the catalog. \<open>GraphSerial\<close>: what holds of the store and of every open transaction through commits,
    vacuums and the other calls. \<open>GraphDb\<close>: the databases that runs of many transactions reach on the memory engine, and the properties of the whole.

  \<^bold>\<open>State and operations.\<close> A Go struct is a record, a method a function that takes the state and
  returns the state it leaves with its result, an error a value of \<open>sterr\<close> or \<open>goerr\<close>. Pointers that
  outlive a call (transactions) are handles into a table. Go maps are association lists whose order
  is the order a \<open>range\<close> loop happens to take, so a theorem about every list covers every iteration
  order. Mutexes make methods atomic, so a list of calls (\<open>mcall\<close>) is an interleaving of clients; the
  clock and the answers of hooks and contexts are arguments. The one method that releases its mutex, \<open>Sync\<close> of the log,
  is cut into two steps there. A file is the bytes written and the bytes last synced; which system calls fail is a
  function of the file system state that theorems quantify over, and a crash keeps of each file what its two
  contents share, and some of the rest. The entries of a directory survive a crash.

  \<^bold>\<open>What the lemmas show.\<close> Keys order like values and decode to them; records are exact; equal values
  hash alike; decoders end on every input. The memory engine keeps its invariant in every reachable
  state and implements the contract of the interface. Over any such engine, reading a version chain
  computes the value at a snapshot, a commit appends one state to the history and is refused when a
  written key changed, vacuum is invisible to every open snapshot, opening migrates raw stores and
  keeps versioned ones. In every run of the log, with any faults and crashes, \<open>Open\<close> finds a contiguous part of the
  appended records that misses no acknowledged record, unless it was truncated. In every run of the graph store on the
  memory engine, each index keyspace holds exactly the entries the records call for, so that queries through an index equal a
  scan of everything; a write changes what it names and nothing else; a deleted node takes exactly its edges with it;
  names keep their ids; and the breadth-first searches are exact. In every run of graph transactions on the manager, the committed
  state and the view of every open transaction are consistent graphs: snapshot isolation refuses only commits that wrote a key
  another one wrote, but every change of the graph writes the write counter, so commits that change the graph are serialisable.

  \<^bold>\<open>Bounds and fuel.\<close> The recursive decoders carry fuel twice the length of the input plus one and the
  theorems show it never runs out. Loops over an engine cursor carry \<open>ops_bound + 1\<close>, one more than
  the entries the cursor can visit by the contract. Keys of a version chain are shorter than \<open>2 ^ 32\<close>
  bytes, the width of their length field, and commits happen below the last 64-bit timestamp. Runs of the log
  append fewer than \<open>2 ^ 64\<close> bytes and \<open>10 ^ 12\<close> records, so that LSNs do not wrap and segment numbers
  keep their twelve digits. Graph calls (\<open>call_fits\<close>) leave each name table below \<open>0xFF000000\<close> names, as property ids from there
  on collide with the marker of declared indexes; they hold values and lists a Go process can allocate, and id counters below the
  last 64-bit value. A database (\<open>graph_db\<close>) runs with the cap on write sets and the idle timeout off, as a call that meets one of
  them stops half way and leaves its transaction to be rolled back; its transactions make calls on nodes and edges, and change
  the schema in none of them. The searches carry no fuel: their measure is the number of ids not seen.

  \<^bold>\<open>Not modelled.\<close> Calendar arithmetic and literals, the cost estimates of the catalog, which are floating point,
  the disk engine, the query language and the executor; the server, the shell and the command line
  are input and output around these. The depth-first search, the export and the replacement of a whole graph and the
  unique constraints are defined and carried over to the map, with no theorem on their results.
\<close>

end
